(* ===== verification/Prelude.thy ===== *)
theory Prelude
  imports Main "HOL-Library.Word" "HOL-Library.Monad_Syntax"
begin

text \<open>
  Shared types, automation and generic lemmas.

  The machine types of the kernel are words of their width. The type \<open>'a ret\<close> is the
  result of running a piece of C code: \<open>Some\<close> is a normal return, \<open>None\<close> stands for
  every way in which a C function does not return normally: an access outside an object
  (undefined behaviour), a call of \<open>panic\<close>, or a loop that never ends. A theorem that
  states \<open>f s = Some t\<close> is therefore a total-correctness statement.
\<close>

unbundle bit_operations_syntax

type_synonym u8 = "8 word"
type_synonym u16 = "16 word"
type_synonym u32 = "32 word"
type_synonym u64 = "64 word"

text \<open>The byte-addressed memory of the machine, and C pointers as addresses (NULL is 0).\<close>

type_synonym mem = "u64 \<Rightarrow> u8"
type_synonym ptr = u64

type_synonym 'a ret = "'a option"

abbreviation (input) NULL :: ptr where
  "NULL \<equiv> 0"

named_theorems c_simps \<open>unfolding rules of the C-level helper operations\<close>
named_theorems addr_simps \<open>address arithmetic\<close>

definition PAGE_SIZE :: u64 where
  "PAGE_SIZE = 0x1000"

lemma PAGE_SIZE_nz [simp]: "PAGE_SIZE \<noteq> 0"
  by (simp add: PAGE_SIZE_def)

lemma unat_PAGE_SIZE [simp]: "unat PAGE_SIZE = 4096"
  by (simp add: PAGE_SIZE_def)

subsection \<open>Words\<close>

lemma unat_add_nowrap:
  "unat (a :: 'a::len word) + unat b < 2 ^ LENGTH('a) \<Longrightarrow> unat (a + b) = unat a + unat b"
  by (simp add: unat_word_ariths)

lemma unat_of_nat_small:
  "n < 2 ^ LENGTH('a) \<Longrightarrow> unat (of_nat n :: 'a::len word) = n"
  by (simp add: unat_of_nat take_bit_nat_eq_self)

lemma unat_lt_64: "unat (a :: u64) < 2 ^ 64"
  using unsigned_less [of a] by simp

lemma unat_lt_8: "unat (a :: u8) < 256"
  using unsigned_less [of a] by simp

lemma unat_lt_16: "unat (a :: u16) < 65536"
  using unsigned_less [of a] by simp

lemma unat_lt_32: "unat (a :: u32) < 2 ^ 32"
  using unsigned_less [of a] by simp

lemma unat_neg_64:
  assumes "x \<noteq> 0"
  shows "unat (- x :: u64) = 2 ^ 64 - unat x"
proof -
  have "0 < unat x" "unat x < 2 ^ 64" "unat (- x) < 2 ^ 64" using assms unat_lt_64 [of x] unat_lt_64 [of "- x"] by (simp_all add: unat_gt_0)
  moreover have "(unat x + unat (- x)) mod 2 ^ 64 = 0" using unat_word_ariths(1) [of x "- x"] by simp
  ultimately show ?thesis by (auto simp: mod_if split: if_splits)
qed

lemma unat_diff_nowrap:
  "unat b \<le> unat (a :: 'a::len word) \<Longrightarrow> unat (a - b) = unat a - unat b"
  by (simp add: unat_sub word_le_nat_alt)

lemma uint_pos: "(x :: 'a::len word) \<noteq> 0 \<Longrightarrow> 0 < uint x"
  by (simp add: order_less_le uint_0_iff)

lemma sint_neg_64: "sint (w :: u64) < 0 \<longleftrightarrow> 2 ^ 63 \<le> unat w"
proof -
  have "sint w < 0 \<longleftrightarrow> bit w 63" using bit_last_iff [of w] by simp
  also have "\<dots> \<longleftrightarrow> bit (unat w) 63" by (simp add: bit_unsigned_iff)
  also have "\<dots> \<longleftrightarrow> odd (unat w div 2 ^ 63)" by (rule bit_iff_odd)
  also have "\<dots> \<longleftrightarrow> 2 ^ 63 \<le> unat w"
  proof (cases "2 ^ 63 \<le> unat w")
    case True
    then have "unat w div 2 ^ 63 = 1" using unat_lt_64 [of w] by (intro div_nat_eqI) simp_all
    with True show ?thesis by simp
  qed simp
  finally show ?thesis .
qed

lemma unat_add_le: "unat (x + y) \<le> unat (x :: u64) + unat y"
  by (simp add: unat_word_ariths)

lemma sint_small:
  assumes "unat (w :: u64) < 2 ^ 63"
  shows "sint w = int (unat w)"
proof -
  have e: "uint w = int (unat w)" by (rule uint_nat)
  have "signed_take_bit 63 (int k) = int k" if "k < 2 ^ 63" for k :: nat
    by (rule signed_take_bit_int_eq_self) (use that in simp_all)
  note this [OF assms]
  moreover have "sint w = signed_take_bit 63 (uint w)" by (simp add: sint_uint)
  ultimately show ?thesis by (simp only: e)
qed

lemma of_nat_unat_64: "(of_nat (unat x) :: u64) = x"
  by simp

end
