(* ===== verification/KString.thy ===== *)
theory KString
  imports Prelude
begin

text \<open>
  The byte and string routines of \<^verbatim>\<open>kernel/libk/string.c\<close>, over the byte-addressed
  memory. Every routine keeps the loop of the source: a counted loop recurses on its
  counter, a loop that runs to a terminating NUL is a \<^theory_text>\<open>partial_function\<close>, so that running
  past the end of memory for ever is \<open>None\<close>. \<open>cstr m p s\<close> says that a NUL-terminated
  string with the bytes \<open>s\<close> starts at \<open>p\<close>.
\<close>

subsection \<open>Blocks of memory\<close>

fun memset_loop :: "ptr \<Rightarrow> u8 \<Rightarrow> nat \<Rightarrow> mem \<Rightarrow> mem" where
  "memset_loop p c 0 m = m"
| "memset_loop p c (Suc n) m = memset_loop (p + 1) c n (m(p := c))"

definition memset :: "ptr \<Rightarrow> u32 \<Rightarrow> u64 \<Rightarrow> mem \<Rightarrow> mem" where
  "memset dst c n m = memset_loop dst (ucast c) (unat n) m"

fun copy_up :: "ptr \<Rightarrow> ptr \<Rightarrow> nat \<Rightarrow> mem \<Rightarrow> mem" where
  "copy_up d s 0 m = m"
| "copy_up d s (Suc n) m = copy_up (d + 1) (s + 1) n (m(d := m s))"

definition memcpy :: "ptr \<Rightarrow> ptr \<Rightarrow> u64 \<Rightarrow> mem \<Rightarrow> mem" where
  "memcpy dst src n m = copy_up dst src (unat n) m"

fun copy_down :: "ptr \<Rightarrow> ptr \<Rightarrow> nat \<Rightarrow> mem \<Rightarrow> mem" where
  "copy_down d s 0 m = m"
| "copy_down d s (Suc n) m = copy_down (d - 1) (s - 1) n (m(d - 1 := m (s - 1)))"

definition memmove :: "ptr \<Rightarrow> ptr \<Rightarrow> u64 \<Rightarrow> mem \<Rightarrow> mem" where
  "memmove d s n m =
     (if d < s then copy_up d s (unat n) m
      else copy_down (d + n) (s + n) (unat n) m)"

fun memcmp_loop :: "ptr \<Rightarrow> ptr \<Rightarrow> nat \<Rightarrow> mem \<Rightarrow> int" where
  "memcmp_loop x y 0 m = 0"
| "memcmp_loop x y (Suc n) m =
     (if m x \<noteq> m y then uint (m x) - uint (m y) else memcmp_loop (x + 1) (y + 1) n m)"

definition memcmp :: "ptr \<Rightarrow> ptr \<Rightarrow> u64 \<Rightarrow> mem \<Rightarrow> int" where
  "memcmp a b n m = memcmp_loop a b (unat n) m"

fun memchr_loop :: "ptr \<Rightarrow> u8 \<Rightarrow> nat \<Rightarrow> mem \<Rightarrow> ptr" where
  "memchr_loop p v 0 m = NULL"
| "memchr_loop p v (Suc n) m = (if m p = v then p else memchr_loop (p + 1) v n m)"

definition memchr :: "ptr \<Rightarrow> u32 \<Rightarrow> u64 \<Rightarrow> mem \<Rightarrow> ptr" where
  "memchr s c n m = memchr_loop s (ucast c) (unat n) m"

subsection \<open>NUL-terminated strings\<close>

partial_function (option) strlen_loop :: "ptr \<Rightarrow> u64 \<Rightarrow> mem \<Rightarrow> u64 ret" where
  [code]: "strlen_loop s n m = (if m s = 0 then Some n else strlen_loop (s + 1) (n + 1) m)"

definition strlen :: "ptr \<Rightarrow> mem \<Rightarrow> u64 ret" where
  "strlen s m = strlen_loop s 0 m"

fun strnlen_loop :: "ptr \<Rightarrow> nat \<Rightarrow> u64 \<Rightarrow> mem \<Rightarrow> u64" where
  "strnlen_loop s 0 n m = n"
| "strnlen_loop s (Suc k) n m = (if m (s + n) = 0 then n else strnlen_loop s k (n + 1) m)"

definition strnlen :: "ptr \<Rightarrow> u64 \<Rightarrow> mem \<Rightarrow> u64" where
  "strnlen s mx m = strnlen_loop s (unat mx) 0 m"

partial_function (option) strcpy_loop :: "ptr \<Rightarrow> ptr \<Rightarrow> mem \<Rightarrow> mem ret" where
  [code]: "strcpy_loop d s m =
     (if m s = 0 then Some (m(d := 0)) else strcpy_loop (d + 1) (s + 1) (m(d := m s)))"

definition strcpy :: "ptr \<Rightarrow> ptr \<Rightarrow> mem \<Rightarrow> mem ret" where
  "strcpy dst src m = strcpy_loop dst src m"

text \<open>The two loops of \<open>strncpy\<close>: copy up to the NUL, then pad with NULs.\<close>

fun strncpy_loop :: "ptr \<Rightarrow> ptr \<Rightarrow> nat \<Rightarrow> u64 \<Rightarrow> mem \<Rightarrow> mem" where
  "strncpy_loop dst src 0 i m = m"
| "strncpy_loop dst src (Suc k) i m =
     (if m (src + i) = 0 then memset_loop (dst + i) 0 (Suc k) m
      else strncpy_loop dst src k (i + 1) (m(dst + i := m (src + i))))"

definition strncpy :: "ptr \<Rightarrow> ptr \<Rightarrow> u64 \<Rightarrow> mem \<Rightarrow> mem" where
  "strncpy dst src n m = strncpy_loop dst src (unat n) 0 m"

partial_function (option) strcmp :: "ptr \<Rightarrow> ptr \<Rightarrow> mem \<Rightarrow> int ret" where
  [code]: "strcmp a b m =
     (if m a \<noteq> 0 \<and> m a = m b then strcmp (a + 1) (b + 1) m
      else Some (uint (m a) - uint (m b)))"

fun strncmp_loop :: "ptr \<Rightarrow> ptr \<Rightarrow> nat \<Rightarrow> mem \<Rightarrow> int" where
  "strncmp_loop a b 0 m = 0"
| "strncmp_loop a b (Suc n) m =
     (if m a \<noteq> 0 \<and> m a = m b then strncmp_loop (a + 1) (b + 1) n m
      else uint (m a) - uint (m b))"

definition strncmp :: "ptr \<Rightarrow> ptr \<Rightarrow> u64 \<Rightarrow> mem \<Rightarrow> int" where
  "strncmp a b n m = strncmp_loop a b (unat n) m"

partial_function (option) strchr :: "ptr \<Rightarrow> u32 \<Rightarrow> mem \<Rightarrow> ptr ret" where
  [code]: "strchr s c m =
     (if m s \<noteq> 0 then (if m s = ucast c then Some s else strchr (s + 1) c m)
      else Some (if c = 0 then s else NULL))"

partial_function (option) strrchr_loop :: "ptr \<Rightarrow> u32 \<Rightarrow> ptr \<Rightarrow> mem \<Rightarrow> ptr ret" where
  [code]: "strrchr_loop s c lastp m =
     (let lastp' = (if m s = ucast c then s else lastp)
      in if m s \<noteq> 0 then strrchr_loop (s + 1) c lastp' m else Some lastp')"

definition strrchr :: "ptr \<Rightarrow> u32 \<Rightarrow> mem \<Rightarrow> ptr ret" where
  "strrchr s c m = strrchr_loop s c NULL m"

definition strcat :: "ptr \<Rightarrow> ptr \<Rightarrow> mem \<Rightarrow> mem ret" where
  "strcat dst src m = do { n \<leftarrow> strlen dst m; strcpy_loop (dst + n) src m }"

fun strncat_loop :: "ptr \<Rightarrow> ptr \<Rightarrow> nat \<Rightarrow> mem \<Rightarrow> mem" where
  "strncat_loop d s 0 m = m(d := 0)"
| "strncat_loop d s (Suc n) m =
     (if m s = 0 then m(d := 0) else strncat_loop (d + 1) (s + 1) n (m(d := m s)))"

definition strncat :: "ptr \<Rightarrow> ptr \<Rightarrow> u64 \<Rightarrow> mem \<Rightarrow> mem ret" where
  "strncat dest src n m =
     do { k \<leftarrow> strlen dest m; Some (strncat_loop (dest + k) src (unat n) m) }"

subsection \<open>Tokens\<close>

text \<open>
  \<open>span_delim in_set delim p m\<close> is the pointer loop of \<open>strtok_r\<close> that steps over the
  characters that are (or are not) in \<open>delim\<close>. The character passed to \<open>strchr\<close> is a
  \<^verbatim>\<open>char\<close>, sign-extended to \<^verbatim>\<open>int\<close>.
\<close>

partial_function (option) span_delim :: "bool \<Rightarrow> ptr \<Rightarrow> ptr \<Rightarrow> mem \<Rightarrow> ptr ret" where
  [code]: "span_delim in_set delim p m =
     (if m p = 0 then Some p
      else do {
        q \<leftarrow> strchr delim (scast (m p)) m;
        if (q \<noteq> NULL) = in_set then span_delim in_set delim (p + 1) m else Some p
      })"

text \<open>The result is the token (or NULL), the new \<open>*saveptr\<close> and the new memory.\<close>

definition strtok_r :: "ptr \<Rightarrow> ptr \<Rightarrow> ptr \<Rightarrow> mem \<Rightarrow> (ptr \<times> ptr \<times> mem) ret" where
  "strtok_r str delim saveptr m =
     (let start = (if str \<noteq> NULL then str else saveptr)
      in if start = NULL then Some (NULL, saveptr, m)
         else do {
           start' \<leftarrow> span_delim True delim start m;
           if m start' = 0 then Some (NULL, NULL, m)
           else do {
             e \<leftarrow> span_delim False delim start' m;
             if m e \<noteq> 0 then Some (start', e + 1, m(e := 0))
             else Some (start', NULL, m)
           }
         })"

subsection \<open>Strings in memory\<close>

fun cstr :: "mem \<Rightarrow> ptr \<Rightarrow> u8 list \<Rightarrow> bool" where
  "cstr m p [] \<longleftrightarrow> m p = 0"
| "cstr m p (c # cs) \<longleftrightarrow> c \<noteq> 0 \<and> m p = c \<and> cstr m (p + 1) cs"

fun bytes_at :: "mem \<Rightarrow> ptr \<Rightarrow> nat \<Rightarrow> u8 list" where
  "bytes_at m p 0 = []"
| "bytes_at m p (Suc n) = m p # bytes_at m (p + 1) n"


subsection \<open>Address arithmetic\<close>

lemma unat_pred_less:
  "(x :: u64) \<noteq> 0 \<Longrightarrow> unat (x - 1) < n \<longleftrightarrow> unat x < Suc n"
  by (cases "unat x") (auto simp: unat_minus_one unat_eq_0)

lemma unat_minus_1_64: "unat (- 1 :: u64) = 2 ^ 64 - 1"
  by (simp add: unsigned_minus_1_eq_mask mask_eq_exp_minus_1)

lemma copy_up_at:
  assumes "n \<le> 2 ^ 64" and "d = s \<or> n \<le> unat (d - s)"
  shows "copy_up d s n m a = (if unat (a - d) < n then m (s + (a - d)) else m a)"
  using assms
proof (induction n arbitrary: d s m)
  case 0
  then show ?case by simp
next
  case (Suc n)
  let ?m = "m(d := m s)"
  have IH: "copy_up (d + 1) (s + 1) n ?m a =
      (if unat (a - d - 1) < n then ?m (s + (a - d)) else ?m a)"
  proof -
    have e: "a - (d + 1) = a - d - 1" "s + 1 + (a - d - 1) = s + (a - d)"
      by (simp_all add: algebra_simps)
    show ?thesis
      by (rule Suc.IH [of "d + 1" "s + 1" ?m, unfolded e]) (use Suc.prems in auto)
  qed
  show ?case
  proof (cases "a = d")
    case True
    with unat_minus_1_64 IH Suc.prems True show ?thesis by simp
  next
    case False
    then have "unat (a - d - 1) < n \<longleftrightarrow> unat (a - d) < Suc n"
      by (intro unat_pred_less) auto
    moreover have "s + (a - d) \<noteq> d" if "unat (a - d) < Suc n"
    proof
      assume e: "s + (a - d) = d"
      then have "a - d = d - s" by (simp add: algebra_simps)
      with Suc.prems(2) that have "d = s" by auto
      with e False show False by simp
    qed
    ultimately show ?thesis using IH False by auto
  qed
qed

lemma copy_down_at:
  assumes "n \<le> 2 ^ 64" and "d = s \<or> n \<le> unat (s - d)"
  shows "copy_down d s n m a = (if unat (d - 1 - a) < n then m (s - (d - a)) else m a)"
  using assms
proof (induction n arbitrary: d s m)
  case 0
  then show ?case by simp
next
  case (Suc n)
  let ?m = "m(d - 1 := m (s - 1))"
  have IH: "copy_down (d - 1) (s - 1) n ?m a =
      (if unat (d - 1 - a - 1) < n then ?m (s - (d - a)) else ?m a)"
  proof -
    have e: "d - 1 - 1 - a = d - 1 - a - 1" "s - 1 - (d - 1 - a) = s - (d - a)"
      by (simp_all add: algebra_simps)
    show ?thesis
      by (rule Suc.IH [of "d - 1" "s - 1" ?m, unfolded e]) (use Suc.prems in auto)
  qed
  show ?case
  proof (cases "a = d - 1")
    case True
    with unat_minus_1_64 IH Suc.prems True show ?thesis by simp
  next
    case False
    then have "d - 1 - a \<noteq> 0" by (simp add: algebra_simps)
    then have "unat (d - 1 - a - 1) < n \<longleftrightarrow> unat (d - 1 - a) < Suc n"
      by (intro unat_pred_less) auto
    moreover have "s - (d - a) \<noteq> d - 1" if "unat (d - 1 - a) < Suc n"
    proof
      assume e: "s - (d - a) = d - 1"
      then have "d - 1 - a = s - d" by (simp add: algebra_simps)
      with Suc.prems(2) that have "d = s" by auto
      with e False show False by (simp add: algebra_simps)
    qed
    ultimately show ?thesis using IH False by auto
  qed
qed

lemma memset_loop_at:
  assumes "n \<le> 2 ^ 64"
  shows "memset_loop p c n m a = (if unat (a - p) < n then c else m a)"
  using assms
proof (induction n arbitrary: p m)
  case 0
  then show ?case by simp
next
  case (Suc n)
  have IH: "memset_loop (p + 1) c n (m(p := c)) a =
      (if unat (a - p - 1) < n then c else (m(p := c)) a)"
  proof -
    have e: "a - (p + 1) = a - p - 1" by (simp add: algebra_simps)
    show ?thesis
      by (rule Suc.IH [of "p + 1" "m(p := c)", unfolded e]) (use Suc.prems in simp)
  qed
  show ?case
  proof (cases "a = p")
    case True
    with IH show ?thesis by simp
  next
    case False
    then have "unat (a - p - 1) < n \<longleftrightarrow> unat (a - p) < Suc n"
      by (intro unat_pred_less) auto
    with IH False show ?thesis by simp
  qed
qed

lemma memset_at: "memset dst c n m a = (if unat (a - dst) < unat n then ucast c else m a)"
  unfolding memset_def by (rule memset_loop_at) (use unat_lt_64 [of n] in simp)

lemma memcpy_at:
  assumes "dst = src \<or> unat n \<le> unat (dst - src)"
  shows "memcpy dst src n m a = (if unat (a - dst) < unat n then m (src + (a - dst)) else m a)"
  unfolding memcpy_def by (rule copy_up_at) (use unat_lt_64 [of n] assms in auto)

text \<open>\<open>apart p n q k\<close>: no byte of the \<open>n\<close> bytes at \<open>p\<close> is one of the \<open>k\<close> bytes at \<open>q\<close>.\<close>

definition apart :: "ptr \<Rightarrow> nat \<Rightarrow> ptr \<Rightarrow> nat \<Rightarrow> bool" where
  "apart p n q k \<longleftrightarrow> (\<forall>i j. unat i < n \<longrightarrow> unat j < k \<longrightarrow> p + i \<noteq> q + j)"

lemma apart_sym: "apart p n q k \<Longrightarrow> apart q k p n"
  by (auto simp: apart_def) metis

lemma apart_mono: "apart p n q k \<Longrightarrow> n' \<le> n \<Longrightarrow> k' \<le> k \<Longrightarrow> apart p n' q k'"
  by (auto simp: apart_def)

lemma apart_off:
  assumes "apart p n q k" and "unat d + n' \<le> n"
  shows "apart (p + d) n' q k"
  unfolding apart_def
proof (intro allI impI)
  fix i j :: u64 assume a: "unat i < n'" "unat j < k"
  have "unat (d + i) \<le> unat d + unat i" by (simp add: unat_word_ariths)
  then have "unat (d + i) < n" using a assms(2) by linarith
  then have "p + (d + i) \<noteq> q + j" using assms(1) a unfolding apart_def by blast
  then show "p + d + i \<noteq> q + j" by (simp add: algebra_simps)
qed

lemma apart_in: "apart p n q k \<Longrightarrow> unat (a - p) < n \<Longrightarrow> \<not> unat (a - q) < k"
  unfolding apart_def by (metis add_diff_cancel_left' diff_add_cancel add.commute)

lemma memcpy_apart:
  assumes "apart dst k src (unat n)" and "n = 0 \<or> 0 < k"
  shows "memcpy dst src n m a = (if unat (a - dst) < unat n then m (src + (a - dst)) else m a)"
proof (rule memcpy_at, rule ccontr)
  assume "\<not> (dst = src \<or> unat n \<le> unat (dst - src))"
  then have l: "unat (dst - src) < unat n" "n \<noteq> 0" by auto
  then have "dst + 0 \<noteq> src + (dst - src)" using assms unfolding apart_def by (metis unat_0)
  then show False by simp
qed

text \<open>A copy into a buffer of \<open>N\<close> bytes at offset \<open>t\<close>, seen from the buffer.\<close>

lemma memcpy_into:
  assumes "apart b N src (unat n)" and "unat t + unat n \<le> N" and "j < N" and "N \<le> 2 ^ 64"
  shows "memcpy (b + t) src n m (b + of_nat j) =
    (if unat t \<le> j \<and> j < unat t + unat n then m (src + of_nat (j - unat t)) else m (b + of_nat j))"
proof (cases "n = 0")
  case True
  then show ?thesis by (cases "j < unat t") (simp_all add: memcpy_def)
next
  case False
  have uj: "unat (of_nat j :: u64) = j" using assms(3,4) by (simp add: unat_of_nat_small)
  have e: "b + of_nat j - (b + t) = of_nat j - t" by simp
  have "0 < unat n" using False by (simp add: unat_gt_0)
  have a: "apart (b + t) (unat n) src (unat n)" by (rule apart_off [OF assms(1,2)])
  have at: "memcpy (b + t) src n m (b + of_nat j) =
      (if unat (of_nat j - t) < unat n then m (src + (of_nat j - t)) else m (b + of_nat j))"
    using memcpy_apart [OF a, of m "b + of_nat j"] \<open>0 < unat n\<close> by (simp only: e) simp
  show ?thesis
  proof (cases "unat t \<le> j")
    case True
    then have "t \<le> of_nat j" by (simp add: word_le_nat_alt uj)
    then have u: "unat (of_nat j - t) = j - unat t" by (simp add: unat_sub uj)
    then have w: "of_nat j - t = (of_nat (j - unat t) :: u64)" by (metis of_nat_unat_64)
    have u': "unat (of_nat (j - unat t) :: u64) = j - unat t" using u unfolding w .
    have c: "(j - unat t < unat n) = (unat t \<le> j \<and> j < unat t + unat n)" using True by linarith
    show ?thesis by (simp only: at w u' c)
  next
    case F: False
    then have l: "of_nat j < t" by (simp add: word_less_nat_alt uj)
    have "unat (of_nat j - t) = 2 ^ 64 + j - unat t"
      using F by (subst unat_sub_if_size) (simp add: size_word.rep_eq uj word_le_nat_alt)
    then have "\<not> unat (of_nat j - t) < unat n" using assms(2,4) by simp
    with at F show ?thesis by simp
  qed
qed

lemma memcpy_outside:
  assumes "apart b N src (unat n)" and "unat t + unat n \<le> N" and "\<not> unat (a - b) < N"
  shows "memcpy (b + t) src n m a = m a"
proof (cases "n = 0")
  case True
  then show ?thesis by (simp add: memcpy_def)
next
  case False
  then have "0 < unat n" by (simp add: unat_gt_0)
  have "\<not> unat (a - (b + t)) < unat n"
  proof
    assume l: "unat (a - (b + t)) < unat n"
    have "unat (t + (a - (b + t))) \<le> unat t + unat (a - (b + t))" by (rule unat_add_le)
    with l assms(2) have "unat (t + (a - (b + t))) < N" by linarith
    then show False using assms(3) by (simp add: algebra_simps)
  qed
  moreover have "apart (b + t) (unat n) src (unat n)" by (rule apart_off [OF assms(1,2)])
  ultimately show ?thesis using memcpy_apart [of "b + t" "unat n" src n m a] \<open>0 < unat n\<close> by simp
qed

lemma apart_ranges:
  assumes "unat p + n \<le> unat q" and "unat q + k \<le> 2 ^ 64"
  shows "apart p n q k"
  unfolding apart_def
proof (intro allI impI)
  fix i j :: u64 assume ij: "unat i < n" "unat j < k"
  then have "unat (q + j) = unat q + unat j" using assms by (intro unat_add_nowrap) simp
  moreover have "unat (p + i) \<le> unat p + unat i" by (rule unat_add_le)
  ultimately have "unat (p + i) < unat (q + j)" using ij assms by linarith
  then show "p + i \<noteq> q + j" by auto
qed

lemma memset_into:
  assumes "unat t + unat n \<le> 2 ^ 64" and "j < 2 ^ 64"
  shows "memset (b + t) c n m (b + of_nat j) = (if unat t \<le> j \<and> j < unat t + unat n then ucast c else m (b + of_nat j))"
proof -
  have uj: "unat (of_nat j :: u64) = j" using assms(2) by (simp add: unat_of_nat_small)
  have e: "b + of_nat j - (b + t) = of_nat j - t" by simp
  have at: "memset (b + t) c n m (b + of_nat j) = (if unat (of_nat j - t) < unat n then ucast c else m (b + of_nat j))"
    by (simp only: memset_at e)
  show ?thesis
  proof (cases "unat t \<le> j")
    case True
    then have "t \<le> of_nat j" by (simp add: word_le_nat_alt uj)
    then have u: "unat (of_nat j - t) = j - unat t" by (simp add: unat_sub uj)
    have c: "(j - unat t < unat n) = (unat t \<le> j \<and> j < unat t + unat n)" using True by linarith
    show ?thesis by (simp only: at u c)
  next
    case F: False
    have "unat (of_nat j - t) = 2 ^ 64 + j - unat t"
      using F by (subst unat_sub_if_size) (simp add: size_word.rep_eq uj word_le_nat_alt)
    then have "\<not> unat (of_nat j - t) < unat n" using assms(1) by simp
    with at F show ?thesis by simp
  qed
qed

lemma bytes_at_eqI:
  assumes "\<And>i. i < n \<Longrightarrow> m (p + of_nat i) = m' (q + of_nat i)"
  shows "bytes_at m p n = bytes_at m' q n"
  using assms
proof (induction n arbitrary: p q)
  case 0
  then show ?case by simp
next
  case (Suc n)
  have "bytes_at m (p + 1) n = bytes_at m' (q + 1) n"
  proof (rule Suc.IH)
    fix i assume "i < n"
    with Suc.prems [of "Suc i"] show "m (p + 1 + of_nat i) = m' (q + 1 + of_nat i)"
      by (simp add: algebra_simps)
  qed
  with Suc.prems [of 0] show ?case by simp
qed

lemma length_bytes_at [simp]: "length (bytes_at m p n) = n"
  by (induction n arbitrary: p) auto

lemma nth_bytes_at: "i < n \<Longrightarrow> bytes_at m p n ! i = m (p + of_nat i)"
  by (induction n arbitrary: p i) (auto simp: nth_Cons algebra_simps split: nat.splits)

lemma unat_mirror_less: "unat (n - 1 - x) < unat n \<longleftrightarrow> unat x < unat (n :: u64)"
proof (cases "n = 0")
  case True
  then show ?thesis by simp
next
  case False
  then have "unat (n - 1) = unat n - 1" and "0 < unat n"
    by (auto simp: unat_minus_one unat_gt_0)
  then show ?thesis
    using unat_lt_64 [of x] unat_lt_64 [of n] by (auto simp: unat_sub_if_size size_word.rep_eq)
qed

lemma memmove_at:
  assumes "unat d + unat n \<le> 2 ^ 64" and "unat s + unat n \<le> 2 ^ 64"
  shows "memmove d s n m a = (if unat (a - d) < unat n then m (s + (a - d)) else m a)"
proof (cases "d < s")
  case True
  then have lt: "unat d < unat s" by (simp add: word_less_nat_alt)
  have "unat (d - s) = 2 ^ 64 - (unat s - unat d)"
    using lt by (simp add: unat_sub_if_size size_word.rep_eq)
  with assms lt have c: "d = s \<or> unat n \<le> unat (d - s)" by linarith
  show ?thesis
    using True copy_up_at [OF _ c, of m a] unat_lt_64 [of n] by (simp add: memmove_def)
next
  case False
  then have le: "unat s \<le> unat d" by (simp add: word_less_nat_alt)
  have "s = d \<or> unat (s - d) = 2 ^ 64 - (unat d - unat s)"
    using le by (auto simp: unat_sub_if_size size_word.rep_eq word_unat_eq_iff)
  with assms le have c: "d + n = s + n \<or> unat n \<le> unat (s + n - (d + n))"
    by auto
  have "unat (d + n - 1 - a) < unat n \<longleftrightarrow> unat (a - d) < unat n"
  proof -
    have "d + n - 1 - a = n - 1 - (a - d)" by (simp add: algebra_simps)
    then show ?thesis by (simp only: unat_mirror_less)
  qed
  moreover have "s + n - (d + n - a) = s + (a - d)" by (simp add: algebra_simps)
  ultimately show ?thesis
    using False copy_down_at [OF _ c, of m a] unat_lt_64 [of n]
    by (simp add: memmove_def)
qed

subsection \<open>C strings\<close>

lemma cstr_unique: "cstr m p s \<Longrightarrow> cstr m p t \<Longrightarrow> s = t"
  by (induction s arbitrary: p t) (case_tac t; auto)+

lemma cstr_no_nul: "cstr m p s \<Longrightarrow> 0 \<notin> set s"
  by (induction s arbitrary: p) auto

lemma cstr_drop: "cstr m p s \<Longrightarrow> n \<le> length s \<Longrightarrow> cstr m (p + of_nat n) (drop n s)"
proof (induction n arbitrary: p s)
  case 0
  then show ?case by simp
next
  case (Suc n)
  then obtain c cs where s: "s = c # cs" by (cases s) auto
  with Suc.prems Suc.IH [of "p + 1" cs] show ?case by (simp add: algebra_simps)
qed

lemma cstr_end: "cstr m p s \<Longrightarrow> m (p + of_nat (length s)) = 0"
  using cstr_drop [of m p s "length s"] by simp

lemma cstr_nth: "cstr m p s \<Longrightarrow> i < length s \<Longrightarrow> m (p + of_nat i) = s ! i"
  using cstr_drop [of m p s i] by (cases "drop i s") (auto simp: Cons_nth_drop_Suc [symmetric])

lemma strlen_loop_cstr: "cstr m p s \<Longrightarrow> strlen_loop p n m = Some (n + of_nat (length s))"
  by (induction s arbitrary: p n) (subst strlen_loop.simps; simp add: algebra_simps)+

lemma strlen_cstr: "cstr m p s \<Longrightarrow> strlen p m = Some (of_nat (length s))"
  by (simp add: strlen_def strlen_loop_cstr)

lemma strcmp_cstr:
  assumes "cstr m a s" and "cstr m b t"
  shows "\<exists>r. strcmp a b m = Some r \<and> (r = 0 \<longleftrightarrow> s = t) \<and>
    (r < 0 \<longleftrightarrow> (s, t) \<in> lexord {(x, y). x < y})"
  using assms
proof (induction s arbitrary: a b t)
  case Nil
  then show ?case
    by (cases t) (subst strcmp.simps; auto simp: uint_pos uint_0_iff)+
next
  case (Cons c cs)
  show ?case
  proof (cases t)
    case Nil
    with Cons.prems show ?thesis
      by (subst strcmp.simps) (auto simp: uint_pos uint_0_iff)
  next
    case (Cons d ds)
    show ?thesis
    proof (cases "c = d")
      case True
      with Cons Cons.prems Cons.IH [of "a + 1" "b + 1" ds] show ?thesis
        by (subst strcmp.simps) auto
    next
      case False
      with Cons Cons.prems show ?thesis
        by (subst strcmp.simps) (auto simp: word_less_def word_uint_eq_iff)
    qed
  qed
qed

lemma strchr_cstr:
  assumes "cstr m p s" and "c \<noteq> 0"
  shows "strchr p c m =
    Some (if ucast c \<in> set s then p + of_nat (length (takeWhile (\<lambda>x. x \<noteq> ucast c) s)) else NULL)"
  using assms
  by (induction s arbitrary: p) (subst strchr.simps; auto simp: algebra_simps)+

lemma ucast_scast_8_32: "ucast (scast (c :: u8) :: u32) = c"
  by (rule bit_word_eqI) (auto simp: bit_simps)

lemma scast_8_32_eq_0: "(scast (c :: u8) :: u32) = 0 \<longleftrightarrow> c = 0"
  using ucast_scast_8_32 [of c] by (metis scast_0 ucast_0)

definition not_null_str :: "ptr \<Rightarrow> u8 list \<Rightarrow> bool" where
  "not_null_str p s \<longleftrightarrow> (\<forall>i \<le> length s. p + of_nat i \<noteq> NULL)"

lemma strchr_delim:
  assumes "cstr m delim ds" and "not_null_str delim ds" and "c \<noteq> 0"
  shows "\<exists>q. strchr delim (scast c) m = Some q \<and> (q \<noteq> NULL \<longleftrightarrow> c \<in> set ds)"
proof -
  have "length (takeWhile (\<lambda>x. x \<noteq> c) ds) \<le> length ds" by (rule length_takeWhile_le)
  with assms(2) have "delim + of_nat (length (takeWhile (\<lambda>x. x \<noteq> c) ds)) \<noteq> NULL"
    by (simp add: not_null_str_def)
  with strchr_cstr [OF assms(1), of "scast c"] assms(3) show ?thesis
    by (simp add: ucast_scast_8_32 scast_8_32_eq_0)
qed

lemma span_delim_cstr:
  assumes "cstr m p s" and "cstr m delim ds" and "not_null_str delim ds"
  shows "span_delim b delim p m = Some (p + of_nat (length (takeWhile (\<lambda>c. (c \<in> set ds) = b) s)))"
  using assms(1)
proof (induction s arbitrary: p)
  case Nil
  then show ?case by (subst span_delim.simps) simp
next
  case (Cons c cs)
  then have "c \<noteq> 0" and mp: "m p = c" and "cstr m (p + 1) cs" by auto
  from strchr_delim [OF assms(2,3) \<open>c \<noteq> 0\<close>] obtain q where
    "strchr delim (scast c) m = Some q" and "q \<noteq> NULL \<longleftrightarrow> c \<in> set ds" by blast
  with Cons.IH [OF \<open>cstr m (p + 1) cs\<close>] mp \<open>c \<noteq> 0\<close> show ?case
    by (subst span_delim.simps) (auto simp: algebra_simps)
qed

text \<open>Cutting a string at position \<open>k\<close> leaves the prefix and the suffix as strings.\<close>

lemma cstr_cut_prefix:
  assumes "cstr m p s" and "k \<le> length s" and "length s < 2 ^ 64"
  shows "cstr (m(p + of_nat k := 0)) p (take k s)"
  using assms
proof (induction k arbitrary: p s)
  case 0
  then show ?case by simp
next
  case (Suc k)
  then obtain c cs where s: "s = c # cs" by (cases s) auto
  have "p \<noteq> p + of_nat (Suc k)"
  proof
    assume "p = p + of_nat (Suc k)"
    then have "(of_nat (Suc k) :: u64) = 0" by simp
    moreover have "Suc k < 2 ^ 64" using Suc.prems s by simp
    ultimately show False
      using unat_of_nat_small [where 'a = 64, of "Suc k"] by simp
  qed
  with Suc.IH [of "p + 1" cs] Suc.prems s show ?case by (simp add: algebra_simps)
qed

lemma cstr_fun_upd:
  "cstr m r t \<Longrightarrow> (\<And>i. i \<le> length t \<Longrightarrow> r + of_nat i \<noteq> q) \<Longrightarrow> cstr (m(q := x)) r t"
proof (induction t arbitrary: r)
  case Nil
  from Nil.prems(2) [of 0] Nil.prems(1) show ?case by simp
next
  case (Cons c cs)
  have "r + 1 + of_nat i \<noteq> q" if "i \<le> length cs" for i
    using Cons.prems(2) [of "Suc i"] that by (simp add: algebra_simps)
  with Cons.IH [of "r + 1"] Cons.prems(1) Cons.prems(2) [of 0] show ?case by simp
qed

lemma cstr_cut_suffix:
  assumes "cstr m p s" and "k < j" and "j \<le> length s" and "length s < 2 ^ 64"
  shows "cstr (m(p + of_nat k := x)) (p + of_nat j) (drop j s)"
proof (rule cstr_fun_upd)
  show "cstr m (p + of_nat j) (drop j s)" by (rule cstr_drop) (use assms in auto)
  fix i assume i: "i \<le> length (drop j s)"
  show "p + of_nat j + of_nat i \<noteq> p + of_nat k"
  proof
    assume "p + of_nat j + of_nat i = p + of_nat k"
    then have "unat (of_nat (j + i) :: u64) = unat (of_nat k :: u64)" by simp
    with i assms show False by (simp add: unat_of_nat_small del: of_nat_add)
  qed
qed

text \<open>
  \<open>memmove\<close> copies correctly whatever the overlap of the two blocks, as long as
  neither wraps around the end of the address space: the destination holds the bytes the
  source held before the call, and no byte outside the destination changes.
\<close>

theorem memmove_correct:
  assumes "unat d + unat n \<le> 2 ^ 64" and "unat s + unat n \<le> 2 ^ 64"
  shows "bytes_at (memmove d s n m) d (unat n) = bytes_at m s (unat n) \<and>
    (\<forall>a. unat n \<le> unat (a - d) \<longrightarrow> memmove d s n m a = m a)"
proof (intro conjI allI impI)
  show "bytes_at (memmove d s n m) d (unat n) = bytes_at m s (unat n)"
  proof (rule bytes_at_eqI)
    fix i assume "i < unat n"
    moreover from this have "i < 2 ^ 64" using unat_lt_64 [of n] by simp
    ultimately show "memmove d s n m (d + of_nat i) = m (s + of_nat i)"
      by (simp add: memmove_at [OF assms] unat_of_nat_small)
  qed
qed (simp add: memmove_at [OF assms])

theorem memmove_correct_witness:
  "unat (101 :: u64) + unat (3 :: u64) \<le> 2 ^ 64 \<and> unat (100 :: u64) + unat (3 :: u64) \<le> 2 ^ 64 \<and>
   bytes_at (memmove 101 100 3 (\<lambda>a. ucast a)) 101 (unat (3 :: u64)) = [100, 101, 102]"
proof -
  have "bytes_at (\<lambda>a. ucast a) 100 (unat (3 :: u64)) = [100, 101, 102 :: u8]"
  proof -
    have "unat (3 :: u64) = Suc (Suc (Suc 0))" by simp
    then show ?thesis by (simp only:) simp
  qed
  with memmove_correct [of 101 3 100 "\<lambda>a. ucast a"] show ?thesis by simp
qed

text \<open>
  \<open>strcmp\<close> on two C strings returns, is zero exactly on equal strings, and is
  negative exactly when the first precedes the second in the lexicographic order of bytes.
\<close>

lemma strcmp_correct:
  assumes "cstr m a s" and "cstr m b t"
  shows "\<exists>r. strcmp a b m = Some r \<and> (r = 0 \<longleftrightarrow> s = t) \<and>
    (r < 0 \<longleftrightarrow> (s, t) \<in> lexord {(x, y). x < y})"
  by (rule strcmp_cstr [OF assms])

lemma strcmp_correct_witness:
  "cstr ((\<lambda>_. 0)(1 := 104, 2 := 105, 9 := 104)) 1 [104, 105] \<and>
   cstr ((\<lambda>_. 0)(1 := 104, 2 := 105, 9 := 104)) 9 [104] \<and>
   (\<exists>r. strcmp 1 9 ((\<lambda>_. 0)(1 := 104, 2 := 105, 9 := 104)) = Some r \<and> r \<noteq> 0)"
proof -
  let ?m = "(\<lambda>_. 0)(1 := 104, 2 := 105, 9 := 104) :: mem"
  have c: "cstr ?m 1 [104, 105]" "cstr ?m 9 [104]" by simp_all
  from strcmp_correct [OF c] c show ?thesis by auto
qed

text \<open>
  A call of \<open>strtok_r\<close> on a C string returns. It skips the leading delimiter
  characters; if nothing is left it reports the end (NULL, and NULL saved), otherwise the
  pointer it returns is a C string holding the longest delimiter-free run that follows, and
  the saved pointer is NULL at the end of the input or the C string after that delimiter, so
  that the next call continues where this one stopped.
\<close>

lemma strtok_r_token:
  assumes "cstr m p s" and "cstr m delim ds" and "not_null_str delim ds"
    and "p \<noteq> NULL" and "length s < 2 ^ 64"
    and "rest = dropWhile (\<lambda>c. c \<in> set ds) s" and "tok = takeWhile (\<lambda>c. c \<notin> set ds) rest"
  shows "\<exists>q sv m'. strtok_r p delim sv0 m = Some (q, sv, m') \<and>
    (if rest = [] then q = NULL \<and> sv = NULL \<and> m' = m
     else cstr m' q tok \<and>
       (if drop (length tok) rest = [] then sv = NULL \<and> m' = m
        else cstr m' sv (tl (drop (length tok) rest))))"
proof -
  define k where "k = length (takeWhile (\<lambda>c. c \<in> set ds) s)"
  let ?q = "p + of_nat k"
  have k: "k \<le> length s" and rest: "rest = drop k s"
    unfolding k_def using assms(6) by (simp_all add: length_takeWhile_le dropWhile_eq_drop)
  have q: "cstr m ?q rest" using cstr_drop [OF assms(1) k] rest by simp
  have s1: "span_delim True delim p m = Some ?q"
    using span_delim_cstr [OF assms(1-3), of True] by (simp add: k_def)
  have s2: "span_delim False delim ?q m = Some (?q + of_nat (length tok))"
    using span_delim_cstr [OF q assms(2,3), of False] assms(7) by simp
  have start: "m ?q = 0 \<longleftrightarrow> rest = []" using q by (cases rest) auto
  show ?thesis
  proof (cases "rest = []")
    case True
    with s1 start assms(4) show ?thesis by (simp add: strtok_r_def)
  next
    case False
    let ?e = "?q + of_nat (length tok)"
    have tl: "length tok \<le> length rest" using assms(7) by (simp add: length_takeWhile_le)
    have tok: "tok = take (length tok) rest" using assms(7) by (metis takeWhile_eq_take)
    have lr: "length rest < 2 ^ 64" using rest assms(5) by simp
    have e: "cstr m ?e (drop (length tok) rest)" by (rule cstr_drop [OF q tl])
    show ?thesis
    proof (cases "drop (length tok) rest = []")
      case True
      then have "rest = tok" using tok by simp
      with e True q s1 s2 start False assms(4) show ?thesis
        by (simp add: strtok_r_def)
    next
      case F: False
      then obtain c cs where "drop (length tok) rest = c # cs"
        by (cases "drop (length tok) rest") auto
      with e have "m ?e \<noteq> 0" by (simp only: cstr.simps) blast
      moreover have lt: "length tok < length rest" using F by simp
      moreover have "cstr (m(?e := 0)) ?q tok"
        using cstr_cut_prefix [OF q tl lr] tok by simp
      moreover have "cstr (m(?e := 0)) (?e + 1) (tl (drop (length tok) rest))"
        using cstr_cut_suffix [OF q, of "length tok" "Suc (length tok)"] lt lr
        by (simp add: drop_Suc tl_drop algebra_simps)
      ultimately show ?thesis
        using s1 s2 start False F assms(4) by (simp add: strtok_r_def)
    qed
  qed
qed

lemma strtok_r_token_witness:
  "\<exists>q sv m'. strtok_r 1 9 0 ((\<lambda>_. 0)(1 := 32, 2 := 104, 3 := 32, 4 := 105, 9 := 32)) = Some (q, sv, m') \<and>
     cstr m' q [104] \<and> cstr m' sv [105]"
proof -
  let ?m = "(\<lambda>_. 0)(1 := 32, 2 := 104, 3 := 32, 4 := 105, 9 := 32) :: mem"
  have c: "cstr ?m 1 [32, 104, 32, 105]" "cstr ?m 9 [32]" by simp_all
  have n: "not_null_str 9 [32]" by (auto simp: not_null_str_def le_Suc_eq)
  from strtok_r_token [OF c n _ _ refl refl, of 0] show ?thesis by simp
qed

end
