(* ===== verification/Pmm.thy ===== *)
theory Pmm
  imports Prelude
begin

text \<open>
  The physical page allocator of \<^verbatim>\<open>kernel/memory/pmm.c\<close>: a bitmap with one bit per page
  below \<open>highest_addr\<close>, set for a page in use, and the counters kept beside it. The static
  variables of the file are the fields of the record \<open>pmm\<close>. Page numbers and loop counters
  are natural numbers (they are 64-bit addresses divided by the page size, so that no sum
  of two of them wraps); addresses, counts and counters are 64-bit words. An access outside
  the bitmap is \<open>None\<close>. The calls of \<^verbatim>\<open>irq_save\<close> and \<^verbatim>\<open>irq_restore\<close> only
  delimit the critical section, which the model runs as one step.
\<close>

record pmm =
  bitmap :: "u8 list"
  bitmap_size :: u64
  highest_addr :: u64
  free_pages :: u64
  usable_pages :: u64
  hhdm_offset :: u64

definition bitmap_set :: "nat \<Rightarrow> u8 list \<Rightarrow> u8 list ret" where
  "bitmap_set i bm =
     (if i div 8 < length bm
      then Some (bm[i div 8 := bm ! (i div 8) OR push_bit (i mod 8) 1]) else None)"

definition bitmap_clear :: "nat \<Rightarrow> u8 list \<Rightarrow> u8 list ret" where
  "bitmap_clear i bm =
     (if i div 8 < length bm
      then Some (bm[i div 8 := bm ! (i div 8) AND NOT (push_bit (i mod 8) 1)]) else None)"

definition bitmap_test :: "nat \<Rightarrow> u8 list \<Rightarrow> bool ret" where
  "bitmap_test i bm =
     (if i div 8 < length bm
      then Some (drop_bit (i mod 8) (bm ! (i div 8)) AND 1 \<noteq> 0) else None)"

definition phys_to_virt :: "pmm \<Rightarrow> u64 \<Rightarrow> ptr" where
  "phys_to_virt s phys = phys + hhdm_offset s"

definition virt_to_phys :: "pmm \<Rightarrow> ptr \<Rightarrow> u64" where
  "virt_to_phys s virt = virt - hhdm_offset s"

definition total_pages :: "pmm \<Rightarrow> nat" where
  "total_pages s = unat (highest_addr s div PAGE_SIZE)"

subsection \<open>Boot\<close>

text \<open>What the boot loader passes: the memory map, the offset of the direct map and the
  place of the kernel image (\<^verbatim>\<open>memmap_request\<close>, \<^verbatim>\<open>hhdm_request\<close>, \<^verbatim>\<open>kaddr_request\<close>).\<close>

datatype memmap_type = LIMINE_MEMMAP_USABLE | LIMINE_MEMMAP_OTHER

record memmap_entry =
  me_base :: u64
  me_length :: u64
  me_type :: memmap_type

record boot_info =
  memmap :: "memmap_entry list"
  bi_hhdm :: u64
  kvirt_base :: u64
  kphys_base :: u64
  kernel_virt_start :: u64
  kernel_virt_end :: u64

fun init_highest :: "memmap_entry list \<Rightarrow> u64 \<Rightarrow> u64" where
  "init_highest [] h = h"
| "init_highest (e # es) h =
     (if me_type e = LIMINE_MEMMAP_USABLE
      then let top = me_base e + me_length e in init_highest es (if top > h then top else h)
      else init_highest es h)"

fun init_best :: "memmap_entry list \<Rightarrow> u64 \<Rightarrow> u64 \<Rightarrow> u64" where
  "init_best [] best_len phys = phys"
| "init_best (e # es) best_len phys =
     (if me_type e \<noteq> LIMINE_MEMMAP_USABLE then init_best es best_len phys
      else if me_length e > best_len then init_best es (me_length e) (me_base e)
      else init_best es best_len phys)"

fun init_clear :: "nat \<Rightarrow> nat \<Rightarrow> pmm \<Rightarrow> pmm ret" where
  "init_clear p 0 s = Some s"
| "init_clear p (Suc n) s =
     do { bm \<leftarrow> bitmap_clear p (bitmap s);
          init_clear (Suc p) n (s\<lparr>bitmap := bm, free_pages := free_pages s + 1,
                                  usable_pages := usable_pages s + 1\<rparr>) }"

fun init_usable :: "memmap_entry list \<Rightarrow> pmm \<Rightarrow> pmm ret" where
  "init_usable [] s = Some s"
| "init_usable (e # es) s =
     (if me_type e \<noteq> LIMINE_MEMMAP_USABLE then init_usable es s
      else do { s' \<leftarrow> init_clear (unat (me_base e div PAGE_SIZE)) (unat (me_length e div PAGE_SIZE)) s;
                init_usable es s' })"

fun reserve_pages :: "nat \<Rightarrow> nat \<Rightarrow> pmm \<Rightarrow> pmm ret" where
  "reserve_pages p 0 s = Some s"
| "reserve_pages p (Suc n) s =
     do { used \<leftarrow> bitmap_test p (bitmap s);
          if \<not> used
          then do { bm \<leftarrow> bitmap_set p (bitmap s);
                    reserve_pages (Suc p) n (s\<lparr>bitmap := bm, free_pages := free_pages s - 1\<rparr>) }
          else reserve_pages (Suc p) n s }"

definition pmm_init :: "boot_info \<Rightarrow> pmm ret" where
  "pmm_init b =
     (let highest = init_highest (memmap b) 0;
          total = highest div PAGE_SIZE;
          bsize = (total + 7) div 8;
          kstart = (kernel_virt_start b - kvirt_base b) + kphys_base b;
          kend = (kernel_virt_end b - kvirt_base b) + kphys_base b;
          bphys = init_best (memmap b) 0 0
      in if bphys = 0 then None
         else do {
           s1 \<leftarrow> init_usable (memmap b)
                  \<lparr>bitmap = replicate (unat bsize) 0xFF, bitmap_size = bsize,
                   highest_addr = highest, free_pages = 0, usable_pages = 0,
                   hhdm_offset = bi_hhdm b\<rparr>;
           s2 \<leftarrow> reserve_pages (unat (bphys div PAGE_SIZE))
                   (unat ((bsize + PAGE_SIZE - 1) div PAGE_SIZE)) s1;
           let kstart_page = unat (kstart div PAGE_SIZE);
               kend_page = unat ((kend + PAGE_SIZE - 1) div PAGE_SIZE)
           in reserve_pages kstart_page (kend_page - kstart_page) s2
         })"

definition pmm_total_page_count :: "pmm \<Rightarrow> u64" where
  "pmm_total_page_count s = usable_pages s"

subsection \<open>Allocation\<close>

fun mark_used :: "nat \<Rightarrow> nat \<Rightarrow> pmm \<Rightarrow> pmm ret" where
  "mark_used p 0 s = Some s"
| "mark_used p (Suc n) s =
     do { bm \<leftarrow> bitmap_set p (bitmap s);
          mark_used (Suc p) n (s\<lparr>bitmap := bm, free_pages := free_pages s - 1\<rparr>) }"

text \<open>The scan: \<open>k\<close> pages are left from page \<open>i\<close>, the current free run has length
  \<open>run_len\<close> and starts at \<open>run_start\<close>.\<close>

fun alloc_scan :: "nat \<Rightarrow> nat \<Rightarrow> nat \<Rightarrow> nat \<Rightarrow> u64 \<Rightarrow> pmm \<Rightarrow> (ptr \<times> pmm) ret" where
  "alloc_scan 0 i run_start run_len count s = Some (NULL, s)"
| "alloc_scan (Suc k) i run_start run_len count s =
     do { used \<leftarrow> bitmap_test i (bitmap s);
          if \<not> used
          then let run_start' = (if run_len = 0 then i else run_start);
                   run_len' = Suc run_len
               in if run_len' = unat count
                  then do { s' \<leftarrow> mark_used run_start' (unat count) s;
                            Some (phys_to_virt s' (of_nat run_start' * PAGE_SIZE), s') }
                  else alloc_scan k (Suc i) run_start' run_len' count s
          else alloc_scan k (Suc i) run_start 0 count s }"

definition pmm_alloc_pages_locked :: "u64 \<Rightarrow> pmm \<Rightarrow> (ptr \<times> pmm) ret" where
  "pmm_alloc_pages_locked count s = alloc_scan (total_pages s) 0 0 0 count s"

definition pmm_alloc_pages :: "u64 \<Rightarrow> pmm \<Rightarrow> (ptr \<times> pmm) ret" where
  "pmm_alloc_pages count s = pmm_alloc_pages_locked count s"

fun alloc_page_scan :: "nat \<Rightarrow> nat \<Rightarrow> pmm \<Rightarrow> (ptr \<times> pmm) ret" where
  "alloc_page_scan 0 i s = Some (NULL, s)"
| "alloc_page_scan (Suc k) i s =
     do { used \<leftarrow> bitmap_test i (bitmap s);
          if \<not> used
          then do { bm \<leftarrow> bitmap_set i (bitmap s);
                    Some (phys_to_virt s (of_nat i * PAGE_SIZE),
                          s\<lparr>bitmap := bm, free_pages := free_pages s - 1\<rparr>) }
          else alloc_page_scan k (Suc i) s }"

definition pmm_alloc_page_locked :: "pmm \<Rightarrow> (ptr \<times> pmm) ret" where
  "pmm_alloc_page_locked s = alloc_page_scan (total_pages s) 0 s"

definition pmm_alloc_page :: "pmm \<Rightarrow> (ptr \<times> pmm) ret" where
  "pmm_alloc_page s = pmm_alloc_page_locked s"

subsection \<open>Release\<close>

definition free_one :: "nat \<Rightarrow> pmm \<Rightarrow> pmm ret" where
  "free_one i s =
     do { used \<leftarrow> bitmap_test i (bitmap s);
          if used then do { bm \<leftarrow> bitmap_clear i (bitmap s);
                            Some (s\<lparr>bitmap := bm, free_pages := free_pages s + 1\<rparr>) }
          else Some s }"

definition pmm_free_page :: "ptr \<Rightarrow> pmm \<Rightarrow> pmm ret" where
  "pmm_free_page page s = free_one (unat (virt_to_phys s page div PAGE_SIZE)) s"

fun free_run :: "nat \<Rightarrow> nat \<Rightarrow> pmm \<Rightarrow> pmm ret" where
  "free_run p 0 s = Some s"
| "free_run p (Suc n) s = do { s' \<leftarrow> free_one p s; free_run (Suc p) n s' }"

definition pmm_free_pages :: "ptr \<Rightarrow> u64 \<Rightarrow> pmm \<Rightarrow> pmm ret" where
  "pmm_free_pages pages count s =
     (if pages = NULL \<or> count = 0 then Some s
      else let start_page = unat (virt_to_phys s pages div PAGE_SIZE)
           in if start_page \<ge> total_pages s \<or> unat count > total_pages s - start_page then Some s
              else free_run start_page (unat count) s)"

definition pmm_free_page_count :: "pmm \<Rightarrow> u64" where
  "pmm_free_page_count s = free_pages s"

subsection \<open>The abstract allocator\<close>

text \<open>The abstract state is the set of free page numbers; the invariant ties the bitmap and
  the free counter to it.\<close>

definition bm_bit :: "u8 list \<Rightarrow> nat \<Rightarrow> bool" where
  "bm_bit bm p \<longleftrightarrow> p div 8 < length bm \<and> bit (bm ! (p div 8)) (p mod 8)"

definition page_used :: "pmm \<Rightarrow> nat \<Rightarrow> bool" where
  "page_used s p \<longleftrightarrow> bm_bit (bitmap s) p"

definition free_set :: "pmm \<Rightarrow> nat set" where
  "free_set s = {p. p < total_pages s \<and> \<not> page_used s p}"

definition pmm_inv :: "pmm \<Rightarrow> bool" where
  "pmm_inv s \<longleftrightarrow> total_pages s \<le> 8 * length (bitmap s) \<and>
     free_pages s = of_nat (card (free_set s)) \<and>
     2 ^ 63 \<le> unat (hhdm_offset s) \<and> unat (hhdm_offset s) + unat (highest_addr s) \<le> 2 ^ 64"

definition run_free :: "pmm \<Rightarrow> nat \<Rightarrow> nat \<Rightarrow> bool" where
  "run_free s r n \<longleftrightarrow> 0 < n \<and> {r..<r + n} \<subseteq> free_set s"

definition page_of :: "pmm \<Rightarrow> ptr \<Rightarrow> nat" where
  "page_of s p = unat (virt_to_phys s p div PAGE_SIZE)"

subsection \<open>The bitmap\<close>

lemma bit_test_word: "(drop_bit k (w :: u8) AND 1 \<noteq> 0) = bit w k"
  by (simp add: and_one_eq bit_iff_odd_drop_bit odd_iff_mod_2_eq_one)

lemma bitmap_test_eq: "p < 8 * length bm \<Longrightarrow> bitmap_test p bm = Some (bm_bit bm p)"
  by (simp add: bitmap_test_def bm_bit_def bit_test_word less_mult_imp_div_less mult.commute)

lemma same_byte_bit: "p div 8 = q div 8 \<Longrightarrow> p mod 8 = q mod (8 :: nat) \<Longrightarrow> p = q"
  by (metis div_mult_mod_eq)

lemma bitmap_set_eq:
  assumes "p < 8 * length bm"
  shows "\<exists>bm'. bitmap_set p bm = Some bm' \<and> length bm' = length bm \<and>
    (\<forall>q. bm_bit bm' q \<longleftrightarrow> q = p \<or> bm_bit bm q)"
proof -
  have p: "p div 8 < length bm" using assms by (simp add: less_mult_imp_div_less mult.commute)
  have "p mod 8 < 8" by simp
  with p show ?thesis
    by (auto simp: bitmap_set_def bm_bit_def nth_list_update bit_simps dest: same_byte_bit)
qed

lemma bitmap_clear_eq:
  assumes "p < 8 * length bm"
  shows "\<exists>bm'. bitmap_clear p bm = Some bm' \<and> length bm' = length bm \<and>
    (\<forall>q. bm_bit bm' q \<longleftrightarrow> q \<noteq> p \<and> bm_bit bm q)"
proof -
  have p: "p div 8 < length bm" using assms by (simp add: less_mult_imp_div_less mult.commute)
  have "q mod 8 < 8" for q :: nat by simp
  with p show ?thesis
    by (auto simp: bitmap_clear_def bm_bit_def nth_list_update bit_simps dest: same_byte_bit)
qed

lemma bitmap_ext:
  assumes "length a = length b" and "\<And>p. bm_bit a p = bm_bit b p"
  shows "a = b"
proof (rule nth_equalityI [OF assms(1)])
  fix i assume i: "i < length a"
  show "a ! i = b ! i"
  proof (rule bit_word_eqI)
    fix n assume "n < LENGTH(8)"
    with i assms(1) assms(2) [of "8 * i + n"] show "bit (a ! i) n = bit (b ! i) n"
      by (simp add: bm_bit_def)
  qed
qed

subsection \<open>Marking and releasing runs\<close>

lemma mark_used_eq:
  assumes "p + n \<le> 8 * length (bitmap s)"
  shows "\<exists>bm. mark_used p n s = Some (s\<lparr>bitmap := bm, free_pages := free_pages s - of_nat n\<rparr>) \<and>
    length bm = length (bitmap s) \<and>
    (\<forall>q. bm_bit bm q \<longleftrightarrow> q \<in> {p..<p + n} \<or> bm_bit (bitmap s) q)"
  using assms
proof (induction n arbitrary: p s)
  case 0
  then show ?case by (auto intro: exI [of _ "bitmap s"])
next
  case (Suc n)
  from bitmap_set_eq [of p "bitmap s"] Suc.prems obtain bm where
    bm: "bitmap_set p (bitmap s) = Some bm" "length bm = length (bitmap s)"
      "\<And>q. bm_bit bm q \<longleftrightarrow> q = p \<or> bm_bit (bitmap s) q" by auto
  let ?s = "s\<lparr>bitmap := bm, free_pages := free_pages s - 1\<rparr>"
  have "Suc p + n \<le> 8 * length (bitmap ?s)" using Suc.prems bm(2) by simp
  from Suc.IH [OF this] obtain bm' where
    bm': "mark_used (Suc p) n ?s = Some (?s\<lparr>bitmap := bm', free_pages := free_pages ?s - of_nat n\<rparr>)"
      "length bm' = length (bitmap ?s)"
      "\<And>q. bm_bit bm' q \<longleftrightarrow> q \<in> {Suc p..<Suc p + n} \<or> bm_bit (bitmap ?s) q" by blast
  show ?case
  proof (intro exI conjI allI)
    show "mark_used p (Suc n) s =
        Some (s\<lparr>bitmap := bm', free_pages := free_pages s - of_nat (Suc n)\<rparr>)"
      using bm(1) bm'(1) by (simp add: algebra_simps)
  qed (auto simp: bm(2,3) bm'(2,3))
qed

lemma free_one_eq:
  assumes "p < 8 * length (bitmap s)"
  shows "\<exists>bm. free_one p s = Some (s\<lparr>bitmap := bm,
      free_pages := free_pages s + (if page_used s p then 1 else 0)\<rparr>) \<and>
    length bm = length (bitmap s) \<and> (\<forall>q. bm_bit bm q \<longleftrightarrow> q \<noteq> p \<and> bm_bit (bitmap s) q)"
proof (cases "page_used s p")
  case True
  from bitmap_clear_eq [OF assms] obtain bm where
    "bitmap_clear p (bitmap s) = Some bm" "length bm = length (bitmap s)"
    "\<forall>q. bm_bit bm q \<longleftrightarrow> q \<noteq> p \<and> bm_bit (bitmap s) q" by blast
  with True show ?thesis
    by (auto simp: free_one_def bitmap_test_eq [OF assms] page_used_def)
next
  case False
  then show ?thesis
    by (auto simp: free_one_def bitmap_test_eq [OF assms] page_used_def intro!: exI [of _ "bitmap s"])
qed

lemma free_run_eq:
  assumes "p + n \<le> 8 * length (bitmap s)"
  shows "\<exists>bm. free_run p n s = Some (s\<lparr>bitmap := bm,
      free_pages := free_pages s + of_nat (card {q \<in> {p..<p + n}. page_used s q})\<rparr>) \<and>
    length bm = length (bitmap s) \<and>
    (\<forall>q. bm_bit bm q \<longleftrightarrow> q \<notin> {p..<p + n} \<and> bm_bit (bitmap s) q)"
  using assms
proof (induction n arbitrary: p s)
  case 0
  then show ?case by (auto intro: exI [of _ "bitmap s"])
next
  case (Suc n)
  from free_one_eq [of p s] Suc.prems obtain bm where
    bm: "free_one p s = Some (s\<lparr>bitmap := bm,
        free_pages := free_pages s + (if page_used s p then 1 else 0)\<rparr>)"
      "length bm = length (bitmap s)"
      "\<And>q. bm_bit bm q \<longleftrightarrow> q \<noteq> p \<and> bm_bit (bitmap s) q" by auto
  let ?s = "s\<lparr>bitmap := bm, free_pages := free_pages s + (if page_used s p then 1 else 0)\<rparr>"
  have "Suc p + n \<le> 8 * length (bitmap ?s)" using Suc.prems bm(2) by simp
  from Suc.IH [OF this] obtain bm' where
    bm': "free_run (Suc p) n ?s = Some (?s\<lparr>bitmap := bm', free_pages := free_pages ?s +
        of_nat (card {q \<in> {Suc p..<Suc p + n}. page_used ?s q})\<rparr>)"
      "length bm' = length (bitmap ?s)"
      "\<And>q. bm_bit bm' q \<longleftrightarrow> q \<notin> {Suc p..<Suc p + n} \<and> bm_bit (bitmap ?s) q" by blast
  define U where "U = {q \<in> {Suc p..<Suc p + n}. page_used ?s q}"
  have U: "q \<in> U \<longleftrightarrow> q \<in> {p..<p + Suc n} \<and> q \<noteq> p \<and> page_used s q" for q
    using bm(3) [of q] by (auto simp: page_used_def U_def)
  have card: "card {q \<in> {p..<p + Suc n}. page_used s q} =
      (if page_used s p then 1 else 0) + card U"
  proof (cases "page_used s p")
    case True
    then have "{q \<in> {p..<p + Suc n}. page_used s q} = insert p U"
      by (auto simp: U)
    moreover have "p \<notin> U" and "finite U" by (simp_all add: U_def)
    ultimately show ?thesis using True by simp
  next
    case False
    then have "{q \<in> {p..<p + Suc n}. page_used s q} = U"
      by (auto simp: U)
    with False show ?thesis by simp
  qed
  show ?case
  proof (intro exI conjI allI)
    show "free_run p (Suc n) s = Some (s\<lparr>bitmap := bm',
        free_pages := free_pages s + of_nat (card {q \<in> {p..<p + Suc n}. page_used s q})\<rparr>)"
      using bm(1) bm'(1) card by (simp add: algebra_simps U_def)
  qed (auto simp: bm(2,3) bm'(2,3))
qed

lemma finite_free_set [simp]: "finite (free_set s)"
  by (simp add: free_set_def)

lemma total_pages_upd [simp]:
  "total_pages (s\<lparr>bitmap := bm\<rparr>) = total_pages s"
  "total_pages (s\<lparr>free_pages := n\<rparr>) = total_pages s"
  "total_pages (s\<lparr>usable_pages := n\<rparr>) = total_pages s"
  by (simp_all add: total_pages_def)

lemma mark_used_run:
  assumes "pmm_inv s" and "run_free s r n"
  shows "\<exists>s'. mark_used r n s = Some s' \<and> pmm_inv s' \<and> free_set s' = free_set s - {r..<r + n} \<and>
    total_pages s' = total_pages s \<and> hhdm_offset s' = hhdm_offset s \<and>
    free_pages s' = free_pages s - of_nat n"
proof -
  have sub: "{r..<r + n} \<subseteq> free_set s" and "0 < n" using assms(2) by (auto simp: run_free_def)
  then have "r + n - 1 \<in> {r..<r + n}" by simp
  with sub have "r + n - 1 \<in> free_set s" by blast
  then have "r + n \<le> total_pages s" by (auto simp: free_set_def)
  with assms(1) have "r + n \<le> 8 * length (bitmap s)" by (simp add: pmm_inv_def)
  from mark_used_eq [OF this] obtain bm where
    m: "mark_used r n s = Some (s\<lparr>bitmap := bm, free_pages := free_pages s - of_nat n\<rparr>)"
      "length bm = length (bitmap s)"
      "\<And>q. bm_bit bm q \<longleftrightarrow> q \<in> {r..<r + n} \<or> bm_bit (bitmap s) q" by blast
  let ?s = "s\<lparr>bitmap := bm, free_pages := free_pages s - of_nat n\<rparr>"
  have fs: "free_set ?s = free_set s - {r..<r + n}"
    unfolding free_set_def page_used_def by (simp add: m(3) set_eq_iff) blast
  have "card (free_set s) = card (free_set ?s) + n"
  proof -
    have "card (free_set ?s) = card (free_set s) - n"
      unfolding fs using sub by (simp add: card_Diff_subset)
    moreover have "n \<le> card (free_set s)"
      using card_mono [OF _ sub] by simp
    ultimately show ?thesis by simp
  qed
  with assms(1) m(2) fs have "pmm_inv ?s" by (simp add: pmm_inv_def)
  with m(1) fs show ?thesis by auto
qed

subsection \<open>First fit\<close>

lemma run_free_page: "run_free s r n \<Longrightarrow> r \<le> q \<Longrightarrow> q < r + n \<Longrightarrow> q < total_pages s \<and> \<not> page_used s q"
  by (auto simp: run_free_def free_set_def subset_iff)

lemma run_freeI:
  "0 < n \<Longrightarrow> r + n \<le> total_pages s \<Longrightarrow> (\<And>q. r \<le> q \<Longrightarrow> q < r + n \<Longrightarrow> \<not> page_used s q) \<Longrightarrow> run_free s r n"
  by (auto simp: run_free_def free_set_def)

text \<open>The invariant of the scan: no run ends at or before page \<open>i\<close>, and the current run is
  the maximal free run that ends there.\<close>

definition scan_inv :: "pmm \<Rightarrow> nat \<Rightarrow> nat \<Rightarrow> nat \<Rightarrow> nat \<Rightarrow> bool" where
  "scan_inv s n i rs rl \<longleftrightarrow> rl \<le> i \<and> (0 < rl \<longrightarrow> rs = i - rl) \<and> (n = 0 \<or> rl < n) \<and>
     (\<forall>q. i - rl \<le> q \<and> q < i \<longrightarrow> \<not> page_used s q) \<and> (i = rl \<or> page_used s (i - rl - 1)) \<and>
     (\<forall>r. run_free s r n \<longrightarrow> i < r + n)"

lemma scan_inv_used:
  assumes "scan_inv s n i rs rl" and "page_used s i"
  shows "scan_inv s n (Suc i) rs 0"
proof -
  have "Suc i < r + n" if "run_free s r n" for r
  proof -
    have "i < r + n" using assms(1) that by (simp add: scan_inv_def)
    moreover have "r + n \<noteq> Suc i"
      using that assms(2) run_free_page [OF that, of i] by (auto simp: run_free_def)
    ultimately show ?thesis by simp
  qed
  with assms show ?thesis by (auto simp: scan_inv_def)
qed

lemma scan_inv_found:
  assumes "scan_inv s n i rs rl" and "\<not> page_used s i" and "i < total_pages s" and "Suc rl = n"
  shows "run_free s (i - rl) n \<and> (\<forall>r. run_free s r n \<longrightarrow> i - rl \<le> r)"
proof
  show "run_free s (i - rl) n"
  proof (rule run_freeI)
    show "i - rl + n \<le> total_pages s" using assms by (auto simp: scan_inv_def)
    fix q assume "i - rl \<le> q" "q < i - rl + n"
    with assms show "\<not> page_used s q" by (cases "q = i") (auto simp: scan_inv_def)
  qed (use assms in simp)
  show "\<forall>r. run_free s r n \<longrightarrow> i - rl \<le> r" using assms by (fastforce simp: scan_inv_def)
qed

lemma scan_inv_free:
  assumes "scan_inv s n i rs rl" and "\<not> page_used s i" and "Suc rl \<noteq> n"
  shows "scan_inv s n (Suc i) (if rl = 0 then i else rs) (Suc rl)"
proof -
  have "Suc i < r + n" if r: "run_free s r n" for r
  proof (rule ccontr)
    assume "\<not> Suc i < r + n"
    with assms(1) r have e: "r + n = Suc i" by (fastforce simp: scan_inv_def)
    have "0 < n" using r by (simp add: run_free_def)
    with assms have lt: "Suc rl < n" and "rl \<le> i" by (auto simp: scan_inv_def)
    with e have "i \<noteq> rl" by linarith
    with assms(1) have "page_used s (i - rl - 1)" by (simp add: scan_inv_def)
    moreover have "r \<le> i - rl - 1" "i - rl - 1 < r + n" using e lt \<open>rl \<le> i\<close> \<open>i \<noteq> rl\<close> by auto
    ultimately show False using run_free_page [OF r] by blast
  qed
  moreover have "\<not> page_used s q" if "Suc i - Suc rl \<le> q" "q < Suc i" for q
    using that assms by (cases "q = i") (auto simp: scan_inv_def)
  ultimately show ?thesis using assms unfolding scan_inv_def by auto
qed

lemma alloc_scan_eq:
  assumes "pmm_inv s" and "i + k = total_pages s" and "scan_inv s (unat count) i rs rl"
  shows "alloc_scan k i rs rl count s =
    (if \<exists>r. run_free s r (unat count)
     then let r = LEAST r. run_free s r (unat count)
          in do { s' \<leftarrow> mark_used r (unat count) s;
                  Some (phys_to_virt s' (of_nat r * PAGE_SIZE), s') }
     else Some (NULL, s))"
  using assms(2,3)
proof (induction k arbitrary: i rs rl)
  case 0
  have "\<not> run_free s r (unat count)" for r
  proof
    assume r: "run_free s r (unat count)"
    with 0 have "i < r + unat count" by (simp add: scan_inv_def)
    moreover have "r + unat count - 1 < total_pages s"
      using run_free_page [OF r, of "r + unat count - 1"] r by (auto simp: run_free_def)
    ultimately show False using 0 by simp
  qed
  then show ?case by simp
next
  case (Suc k)
  have i: "i < total_pages s" using Suc.prems by simp
  then have "i < 8 * length (bitmap s)" using assms(1) by (simp add: pmm_inv_def)
  then have test: "bitmap_test i (bitmap s) = Some (page_used s i)"
    by (simp add: bitmap_test_eq page_used_def)
  show ?case
  proof (cases "page_used s i")
    case True
    with Suc.IH [OF _ scan_inv_used [OF Suc.prems(2) True]] Suc.prems(1) test show ?thesis by simp
  next
    case False
    show ?thesis
    proof (cases "Suc rl = unat count")
      case True
      have rs: "(if rl = 0 then i else rs) = i - rl" using Suc.prems(2) by (auto simp: scan_inv_def)
      from scan_inv_found [OF Suc.prems(2) False i True]
      have f: "run_free s (i - rl) (unat count)"
        and "(LEAST r. run_free s r (unat count)) = i - rl"
        by (auto intro: Least_equality)
      then show ?thesis using test False True rs by (auto simp: Let_def)
    next
      case ne: False
      with Suc.IH [OF _ scan_inv_free [OF Suc.prems(2) False ne]] Suc.prems(1) test False
      show ?thesis by (simp add: Let_def)
    qed
  qed
qed

lemma scan_inv_init: "scan_inv s n 0 0 0"
  by (auto simp: scan_inv_def run_free_def)

lemma phys_to_virt_page:
  assumes "pmm_inv s" and "r < total_pages s"
  shows "page_of s (phys_to_virt s (of_nat r * PAGE_SIZE)) = r"
    and "phys_to_virt s (of_nat r * PAGE_SIZE) \<noteq> NULL"
proof -
  have r: "r * 4096 < 2 ^ 64" "r * 4096 < unat (highest_addr s)"
    using assms(2) unat_lt_64 [of "highest_addr s"] by (auto simp: total_pages_def unat_div)
  then have u: "unat (of_nat r * PAGE_SIZE) = r * 4096"
    by (simp add: unat_word_ariths unat_of_nat_small)
  then show "page_of s (phys_to_virt s (of_nat r * PAGE_SIZE)) = r"
    by (simp add: page_of_def phys_to_virt_def virt_to_phys_def unat_div)
  have "unat (of_nat r * PAGE_SIZE) + unat (hhdm_offset s) < 2 ^ 64"
    and "0 < unat (hhdm_offset s)"
    using assms(1) r u by (auto simp: pmm_inv_def unat_gt_0 word_less_nat_alt)
  then have "0 < unat (phys_to_virt s (of_nat r * PAGE_SIZE))"
    unfolding phys_to_virt_def by (subst unat_add_nowrap) auto
  then show "phys_to_virt s (of_nat r * PAGE_SIZE) \<noteq> NULL" by (metis unat_0 less_irrefl)
qed

lemma page_of_offset:
  assumes "pmm_inv s" and "r + n - 1 < total_pages s" and "unat x < n * 4096"
  shows "page_of s (phys_to_virt s (of_nat r * PAGE_SIZE) + x) \<in>
    {page_of s (phys_to_virt s (of_nat r * PAGE_SIZE))..<
     page_of s (phys_to_virt s (of_nat r * PAGE_SIZE)) + n}"
proof -
  have "0 < n" using assms(3) by (cases n) auto
  have "r + n \<le> total_pages s" using assms(2) \<open>0 < n\<close> by simp
  then have "(r + n) * 4096 \<le> unat (highest_addr s)"
    by (simp add: total_pages_def unat_div less_eq_div_iff_mult_less_eq)
  then have le: "r * 4096 + unat x < 2 ^ 64"
    using unat_lt_64 [of "highest_addr s"] assms(3) by (simp add: algebra_simps)
  then have u: "unat (of_nat r * PAGE_SIZE) = r * 4096"
    by (simp add: unat_word_ariths unat_of_nat_small)
  have "phys_to_virt s (of_nat r * PAGE_SIZE) + x - hhdm_offset s = of_nat r * PAGE_SIZE + x"
    by (simp add: phys_to_virt_def)
  moreover have "unat (of_nat r * PAGE_SIZE + x) = r * 4096 + unat x"
    using le u by (subst unat_add_nowrap) simp_all
  ultimately have "page_of s (phys_to_virt s (of_nat r * PAGE_SIZE) + x) = r + unat x div 4096"
    unfolding page_of_def virt_to_phys_def by (simp only: unat_div unat_PAGE_SIZE)
  moreover have "unat x div 4096 < n" using assms(3) by (simp add: less_mult_imp_div_less)
  moreover have "page_of s (phys_to_virt s (of_nat r * PAGE_SIZE)) = r"
    using assms(2) \<open>0 < n\<close> by (intro phys_to_virt_page(1) [OF assms(1)]) simp
  ultimately show ?thesis by simp
qed

lemma pmm_alloc_pages_cases:
  assumes "pmm_inv s"
  obtains (run) r s' where "run_free s r (unat count)"
      "\<And>r'. run_free s r' (unat count) \<Longrightarrow> r \<le> r'"
      "pmm_alloc_pages count s = Some (phys_to_virt s (of_nat r * PAGE_SIZE), s')"
      "mark_used r (unat count) s = Some s'" "pmm_inv s'"
      "free_set s' = free_set s - {r..<r + unat count}"
      "total_pages s' = total_pages s" "hhdm_offset s' = hhdm_offset s"
    | (none) "\<And>r. \<not> run_free s r (unat count)" "pmm_alloc_pages count s = Some (NULL, s)"
proof (cases "\<exists>r. run_free s r (unat count)")
  case True
  define r where "r = (LEAST r. run_free s r (unat count))"
  have r: "run_free s r (unat count)" unfolding r_def using True by (rule LeastI_ex)
  from mark_used_run [OF assms r] obtain s' where s': "mark_used r (unat count) s = Some s'"
    "pmm_inv s'" "free_set s' = free_set s - {r..<r + unat count}"
    "total_pages s' = total_pages s" "hhdm_offset s' = hhdm_offset s" by blast
  have "pmm_alloc_pages count s = Some (phys_to_virt s (of_nat r * PAGE_SIZE), s')"
    using alloc_scan_eq [OF assms _ scan_inv_init, of "total_pages s" count] True s'(1,5)
    by (simp add: pmm_alloc_pages_def pmm_alloc_pages_locked_def Let_def r_def [symmetric]
        phys_to_virt_def)
  moreover have "r \<le> r'" if "run_free s r' (unat count)" for r'
    unfolding r_def using that by (rule Least_le)
  ultimately show thesis using r s' by (intro run)
next
  case False
  then show thesis
    using alloc_scan_eq [OF assms _ scan_inv_init, of "total_pages s" count]
    by (intro none) (auto simp: pmm_alloc_pages_def pmm_alloc_pages_locked_def)
qed

lemma pmm_free_pages_run:
  assumes "pmm_inv s" and "p \<noteq> NULL" and "n \<noteq> 0" and "page_of s p + unat n \<le> total_pages s"
  shows "\<exists>bm. pmm_free_pages p n s = Some (s\<lparr>bitmap := bm, free_pages := free_pages s +
      of_nat (card {q \<in> {page_of s p..<page_of s p + unat n}. page_used s q})\<rparr>) \<and>
    length bm = length (bitmap s) \<and>
    (\<forall>q. bm_bit bm q \<longleftrightarrow> q \<notin> {page_of s p..<page_of s p + unat n} \<and> bm_bit (bitmap s) q)"
proof -
  have "0 < unat n" using assms(3) by (simp add: unat_gt_0)
  with assms(4) have r: "page_of s p < total_pages s" "unat n \<le> total_pages s - page_of s p" by auto
  have "page_of s p + unat n \<le> 8 * length (bitmap s)" using assms(1,4) by (simp add: pmm_inv_def)
  from free_run_eq [OF this] show ?thesis
    using assms(2,3) r by (simp add: pmm_free_pages_def page_of_def not_le)
qed

lemma pmm_free_pages_inv:
  assumes "pmm_inv s" and "p \<noteq> NULL" and "n \<noteq> 0" and "page_of s p + unat n \<le> total_pages s"
  shows "\<exists>s'. pmm_free_pages p n s = Some s' \<and> pmm_inv s' \<and>
    free_set s' = free_set s \<union> {page_of s p..<page_of s p + unat n} \<and>
    total_pages s' = total_pages s \<and> hhdm_offset s' = hhdm_offset s"
proof -
  let ?R = "{page_of s p..<page_of s p + unat n}"
  let ?n = "card {q \<in> ?R. page_used s q}"
  from pmm_free_pages_run [OF assms] obtain bm where
    f: "pmm_free_pages p n s = Some (s\<lparr>bitmap := bm, free_pages := free_pages s + of_nat ?n\<rparr>)"
      "length bm = length (bitmap s)"
      "\<And>q. bm_bit bm q \<longleftrightarrow> q \<notin> ?R \<and> bm_bit (bitmap s) q" by blast
  let ?s = "s\<lparr>bitmap := bm, free_pages := free_pages s + of_nat ?n\<rparr>"
  have fs: "free_set ?s = free_set s \<union> ?R"
    using assms(4) unfolding free_set_def page_used_def by (auto simp: f(3))
  have R: "free_set s \<union> ?R = free_set s \<union> {q \<in> ?R. page_used s q}"
    using assms(4) by (auto simp: free_set_def)
  have "card (free_set ?s) = card (free_set s) + ?n"
    unfolding fs R by (rule card_Un_disjoint) (auto simp: free_set_def)
  with assms(1) f(2) have "pmm_inv ?s" by (simp add: pmm_inv_def)
  with f(1) fs show ?thesis by auto
qed

subsection \<open>The interface of the page allocator\<close>

text \<open>What the clients (the kernel heap, the user page table, task stacks, socket buffers)
  rely on. \<open>owns s M\<close> says that the runs of the map \<open>M\<close> from their first page's address to
  their page count are in use and pairwise disjoint.\<close>

locale page_allocator =
  fixes palloc :: "u64 \<Rightarrow> 's \<Rightarrow> (ptr \<times> 's) ret"
    and pfree :: "ptr \<Rightarrow> u64 \<Rightarrow> 's \<Rightarrow> 's ret"
    and inv :: "'s \<Rightarrow> bool"
    and avail :: "'s \<Rightarrow> nat set"
    and pageno :: "'s \<Rightarrow> ptr \<Rightarrow> nat"
    and limit :: "'s \<Rightarrow> nat"
  assumes alloc_returns: "inv s \<Longrightarrow> \<exists>p s'. palloc n s = Some (p, s')"
    and alloc_null: "inv s \<Longrightarrow> palloc n s = Some (NULL, s') \<Longrightarrow> s' = s"
    and alloc_run: "inv s \<Longrightarrow> palloc n s = Some (p, s') \<Longrightarrow> p \<noteq> NULL \<Longrightarrow>
        inv s' \<and> n \<noteq> 0 \<and> {pageno s p..<pageno s p + unat n} \<subseteq> avail s \<and>
        pageno s p + unat n \<le> limit s \<and>
        avail s' = avail s - {pageno s p..<pageno s p + unat n} \<and>
        pageno s' = pageno s \<and> limit s' = limit s"
    and alloc_addr: "inv s \<Longrightarrow> palloc n s = Some (p, s') \<Longrightarrow> p \<noteq> NULL \<Longrightarrow>
        unat x < unat n * unat PAGE_SIZE \<Longrightarrow> pageno s (p + x) \<in> {pageno s p..<pageno s p + unat n}"
    and free_run: "inv s \<Longrightarrow> p \<noteq> NULL \<Longrightarrow> n \<noteq> 0 \<Longrightarrow> pageno s p + unat n \<le> limit s \<Longrightarrow>
        \<exists>s'. pfree p n s = Some s' \<and> inv s' \<and>
        avail s' = avail s \<union> {pageno s p..<pageno s p + unat n} \<and>
        pageno s' = pageno s \<and> limit s' = limit s"
begin

definition run :: "'s \<Rightarrow> ptr \<Rightarrow> u64 \<Rightarrow> nat set" where
  "run s p n = {pageno s p..<pageno s p + unat n}"

definition owns :: "'s \<Rightarrow> (ptr \<rightharpoonup> u64) \<Rightarrow> bool" where
  "owns s M \<longleftrightarrow>
     (\<forall>p n. M p = Some n \<longrightarrow> p \<noteq> NULL \<and> n \<noteq> 0 \<and> pageno s p + unat n \<le> limit s \<and>
        run s p n \<inter> avail s = {} \<and>
        (\<forall>x. unat x < unat n * unat PAGE_SIZE \<longrightarrow> pageno s (p + x) \<in> run s p n)) \<and>
     (\<forall>p q n k. M p = Some n \<longrightarrow> M q = Some k \<longrightarrow> p \<noteq> q \<longrightarrow> run s p n \<inter> run s q k = {})"

lemma run_nonempty: "n \<noteq> 0 \<Longrightarrow> pageno s p \<in> run s p n"
  by (simp add: run_def unat_gt_0)

lemma owns_empty: "owns s Map.empty"
  by (simp add: owns_def)

lemma owns_entry: "owns s M \<Longrightarrow> M p = Some n \<Longrightarrow> p \<noteq> NULL \<and> n \<noteq> 0"
  unfolding owns_def by blast

lemma owns_alloc:
  assumes "inv s" and "owns s M" and "palloc n s = Some (p, s')" and "p \<noteq> NULL"
  shows "inv s' \<and> M p = None \<and> owns s' (M(p \<mapsto> n))"
proof -
  from alloc_run [OF assms(1,3,4)] have a: "inv s'" "n \<noteq> 0" "run s p n \<subseteq> avail s"
    "pageno s p + unat n \<le> limit s" "avail s' = avail s - run s p n" "pageno s' = pageno s"
    "limit s' = limit s" by (simp_all add: run_def)
  have span: "pageno s (p + x) \<in> run s p n" if "unat x < unat n * unat PAGE_SIZE" for x
    using alloc_addr [OF assms(1,3,4) that] by (simp add: run_def)
  have r: "run s' = run s" using a(6) by (simp add: run_def fun_eq_iff)
  have fresh: "run s q k \<inter> run s p n = {}" if "M q = Some k" for q k
    using assms(2) that a(3) unfolding owns_def by blast
  have "M p = None"
  proof (rule ccontr)
    assume "M p \<noteq> None"
    then obtain k where k: "M p = Some k" by blast
    with assms(2) have "k \<noteq> 0" unfolding owns_def by blast
    with fresh [OF k] run_nonempty [of k s p] run_nonempty [OF a(2), of s p] show False by blast
  qed
  moreover have "owns s' (M(p \<mapsto> n))"
    unfolding owns_def r a(5-7)
  proof (intro conjI allI impI)
    fix q k assume "(M(p \<mapsto> n)) q = Some k"
    then have "(q = p \<and> k = n) \<or> (q \<noteq> p \<and> M q = Some k)" by (auto split: if_splits)
    then have "(q \<noteq> NULL \<and> k \<noteq> 0 \<and> pageno s q + unat k \<le> limit s \<and>
      run s q k \<inter> (avail s - run s p n) = {}) \<and>
      (\<forall>x. unat x < unat k * unat PAGE_SIZE \<longrightarrow> pageno s (q + x) \<in> run s q k)"
      using assms(2,4) a span unfolding owns_def by blast
    then show "q \<noteq> NULL" "k \<noteq> 0" "pageno s q + unat k \<le> limit s"
      "run s q k \<inter> (avail s - run s p n) = {}"
      "\<And>x. unat x < unat k * unat PAGE_SIZE \<Longrightarrow> pageno s (q + x) \<in> run s q k" by auto
  next
    fix q1 q2 k1 k2
    assume "(M(p \<mapsto> n)) q1 = Some k1" "(M(p \<mapsto> n)) q2 = Some k2" "q1 \<noteq> q2"
    then have "(q1 = p \<and> k1 = n \<and> M q2 = Some k2) \<or> (q2 = p \<and> k2 = n \<and> M q1 = Some k1) \<or>
        (M q1 = Some k1 \<and> M q2 = Some k2)" by (auto split: if_splits)
    then show "run s q1 k1 \<inter> run s q2 k2 = {}"
      using assms(2) fresh \<open>q1 \<noteq> q2\<close> unfolding owns_def by blast
  qed
  ultimately show ?thesis using a(1) by blast
qed

lemma owns_disjoint:
  assumes "owns s M" and "M p = Some n" and "M q = Some k" and "p \<noteq> q"
    and "unat x < unat n * unat PAGE_SIZE" and "unat y < unat k * unat PAGE_SIZE"
  shows "p + x \<noteq> q + y"
proof
  assume e: "p + x = q + y"
  have "pageno s (p + x) \<in> run s p n" "pageno s (q + y) \<in> run s q k"
    using assms unfolding owns_def by blast+
  moreover have "run s p n \<inter> run s q k = {}" using assms unfolding owns_def by blast
  ultimately show False using e by auto
qed

lemma owns_free:
  assumes "inv s" and "owns s M" and "M p = Some n"
  shows "\<exists>s'. pfree p n s = Some s' \<and> inv s' \<and> owns s' (M(p := None)) \<and>
    avail s' = avail s \<union> {pageno s p..<pageno s p + unat n} \<and> pageno s' = pageno s"
proof -
  have p: "p \<noteq> NULL" "n \<noteq> 0" "pageno s p + unat n \<le> limit s"
    using assms(2,3) unfolding owns_def by blast+
  from free_run [OF assms(1) p] obtain s' where s': "pfree p n s = Some s'" "inv s'"
    "avail s' = avail s \<union> run s p n" "pageno s' = pageno s" "limit s' = limit s"
    by (auto simp: run_def)
  have r: "run s' = run s" using s'(4) by (simp add: run_def fun_eq_iff)
  have "owns s' (M(p := None))"
    unfolding owns_def r s'(3-5)
  proof (intro conjI allI impI)
    fix q k assume "(M(p := None)) q = Some k"
    then have "q \<noteq> p" "M q = Some k" by (auto split: if_splits)
    with assms(2,3) have "(q \<noteq> NULL \<and> k \<noteq> 0 \<and> pageno s q + unat k \<le> limit s \<and>
      run s q k \<inter> (avail s \<union> run s p n) = {}) \<and>
      (\<forall>x. unat x < unat k * unat PAGE_SIZE \<longrightarrow> pageno s (q + x) \<in> run s q k)"
      unfolding owns_def by blast
    then show "q \<noteq> NULL" "k \<noteq> 0" "pageno s q + unat k \<le> limit s"
      "run s q k \<inter> (avail s \<union> run s p n) = {}"
      "\<And>x. unat x < unat k * unat PAGE_SIZE \<Longrightarrow> pageno s (q + x) \<in> run s q k" by auto
  next
    fix q1 q2 k1 k2
    assume "(M(p := None)) q1 = Some k1" "(M(p := None)) q2 = Some k2" "q1 \<noteq> q2"
    then have "M q1 = Some k1" "M q2 = Some k2" by (auto split: if_splits)
    with assms(2) \<open>q1 \<noteq> q2\<close> show "run s q1 k1 \<inter> run s q2 k2 = {}" unfolding owns_def by blast
  qed
  with s' show ?thesis by (simp add: run_def)
qed

end

interpretation pa: page_allocator pmm_alloc_pages pmm_free_pages pmm_inv free_set page_of total_pages
proof
  fix s n assume inv: "pmm_inv s"
  show "\<exists>p s'. pmm_alloc_pages n s = Some (p, s')"
    using pmm_alloc_pages_cases [OF inv, of n] by metis
next
  fix s n s' assume inv: "pmm_inv s" and a: "pmm_alloc_pages n s = Some (NULL, s')"
  show "s' = s"
  proof (rule pmm_alloc_pages_cases [OF inv, of n])
    fix r s'' assume r: "run_free s r (unat n)"
      and e: "pmm_alloc_pages n s = Some (phys_to_virt s (of_nat r * PAGE_SIZE), s'')"
    have "r < total_pages s" using run_free_page [OF r, of r] r by (simp add: run_free_def)
    from phys_to_virt_page(2) [OF inv this] a e show ?thesis by simp
  qed (use a in simp)
next
  fix s n p s' assume inv: "pmm_inv s" and a: "pmm_alloc_pages n s = Some (p, s')" and "p \<noteq> NULL"
  show "pmm_inv s' \<and> n \<noteq> 0 \<and> {page_of s p..<page_of s p + unat n} \<subseteq> free_set s \<and>
        page_of s p + unat n \<le> total_pages s \<and>
        free_set s' = free_set s - {page_of s p..<page_of s p + unat n} \<and>
        page_of s' = page_of s \<and> total_pages s' = total_pages s"
  proof (rule pmm_alloc_pages_cases [OF inv, of n])
    fix r s'' assume r: "run_free s r (unat n)"
      and e: "pmm_alloc_pages n s = Some (phys_to_virt s (of_nat r * PAGE_SIZE), s'')"
      and s'': "pmm_inv s''" "free_set s'' = free_set s - {r..<r + unat n}"
        "total_pages s'' = total_pages s" "hhdm_offset s'' = hhdm_offset s"
    have n: "0 < unat n" using r by (simp add: run_free_def)
    have lt: "r < total_pages s" "r + unat n - 1 < total_pages s"
      using run_free_page [OF r, of r] run_free_page [OF r, of "r + unat n - 1"] n by auto
    have p: "p = phys_to_virt s (of_nat r * PAGE_SIZE)" "s' = s''" using a e by auto
    then have "page_of s p = r" using phys_to_virt_page(1) [OF inv lt(1)] by simp
    moreover have "page_of s' = page_of s"
      using s''(4) p by (simp add: page_of_def virt_to_phys_def fun_eq_iff)
    ultimately show ?thesis using s'' p r n lt by (auto simp: run_free_def)
  qed (use a \<open>p \<noteq> NULL\<close> in simp)
next
  fix s n p s' and x :: u64
  assume inv: "pmm_inv s" and a: "pmm_alloc_pages n s = Some (p, s')" and "p \<noteq> NULL"
    and x: "unat x < unat n * unat PAGE_SIZE"
  show "page_of s (p + x) \<in> {page_of s p..<page_of s p + unat n}"
  proof (rule pmm_alloc_pages_cases [OF inv, of n])
    fix r s'' assume r: "run_free s r (unat n)"
      and e: "pmm_alloc_pages n s = Some (phys_to_virt s (of_nat r * PAGE_SIZE), s'')"
    have "r + unat n - 1 < total_pages s"
      using run_free_page [OF r, of "r + unat n - 1"] r by (auto simp: run_free_def)
    from page_of_offset [OF inv this] x a e show ?thesis by auto
  qed (use a \<open>p \<noteq> NULL\<close> in simp)
next
  fix s p and n :: u64 assume "pmm_inv s" "p \<noteq> NULL" "n \<noteq> 0" "page_of s p + unat n \<le> total_pages s"
  from pmm_free_pages_inv [OF this] show "\<exists>s'. pmm_free_pages p n s = Some s' \<and> pmm_inv s' \<and>
      free_set s' = free_set s \<union> {page_of s p..<page_of s p + unat n} \<and>
      page_of s' = page_of s \<and> total_pages s' = total_pages s"
    by (fastforce simp: page_of_def virt_to_phys_def fun_eq_iff)
qed

subsection \<open>Boot\<close>

definition entry_pages :: "memmap_entry \<Rightarrow> nat set" where
  "entry_pages e = {unat (me_base e div PAGE_SIZE)..<
     unat (me_base e div PAGE_SIZE) + unat (me_length e div PAGE_SIZE)}"

definition usable :: "memmap_entry list \<Rightarrow> memmap_entry list" where
  "usable es = filter (\<lambda>e. me_type e = LIMINE_MEMMAP_USABLE) es"

definition usable_set :: "memmap_entry list \<Rightarrow> nat set" where
  "usable_set es = (\<Union>e \<in> set (usable es). entry_pages e)"

text \<open>The boot protocol's guarantee: usable entries do not wrap and do not overlap.\<close>

fun memmap_ok :: "memmap_entry list \<Rightarrow> bool" where
  "memmap_ok [] \<longleftrightarrow> True"
| "memmap_ok (e # es) \<longleftrightarrow>
     (me_type e = LIMINE_MEMMAP_USABLE \<longrightarrow>
        unat (me_base e) + unat (me_length e) < 2 ^ 64 \<and> entry_pages e \<inter> usable_set es = {}) \<and>
     memmap_ok es"

lemma usable_set_simps [simp]:
  "usable_set [] = {}"
  "usable_set (e # es) =
     (if me_type e = LIMINE_MEMMAP_USABLE then entry_pages e \<union> usable_set es else usable_set es)"
  by (auto simp: usable_set_def usable_def)

lemma finite_usable_set [simp]: "finite (usable_set es)"
  by (simp add: usable_set_def entry_pages_def)

lemma init_clear_eq:
  assumes "p + n \<le> 8 * length (bitmap s)"
  shows "\<exists>bm. init_clear p n s = Some (s\<lparr>bitmap := bm, free_pages := free_pages s + of_nat n,
      usable_pages := usable_pages s + of_nat n\<rparr>) \<and> length bm = length (bitmap s) \<and>
    (\<forall>q. bm_bit bm q \<longleftrightarrow> q \<notin> {p..<p + n} \<and> bm_bit (bitmap s) q)"
  using assms
proof (induction n arbitrary: p s)
  case 0
  then show ?case by (auto intro: exI [of _ "bitmap s"])
next
  case (Suc n)
  from bitmap_clear_eq [of p "bitmap s"] Suc.prems obtain bm where
    bm: "bitmap_clear p (bitmap s) = Some bm" "length bm = length (bitmap s)"
      "\<And>q. bm_bit bm q \<longleftrightarrow> q \<noteq> p \<and> bm_bit (bitmap s) q" by auto
  let ?s = "s\<lparr>bitmap := bm, free_pages := free_pages s + 1, usable_pages := usable_pages s + 1\<rparr>"
  have "Suc p + n \<le> 8 * length (bitmap ?s)" using Suc.prems bm(2) by simp
  from Suc.IH [OF this] obtain bm' where
    bm': "init_clear (Suc p) n ?s = Some (?s\<lparr>bitmap := bm', free_pages := free_pages ?s + of_nat n,
        usable_pages := usable_pages ?s + of_nat n\<rparr>)" "length bm' = length (bitmap ?s)"
      "\<And>q. bm_bit bm' q \<longleftrightarrow> q \<notin> {Suc p..<Suc p + n} \<and> bm_bit (bitmap ?s) q" by blast
  show ?case
  proof (intro exI conjI allI)
    show "init_clear p (Suc n) s = Some (s\<lparr>bitmap := bm', free_pages := free_pages s + of_nat (Suc n),
        usable_pages := usable_pages s + of_nat (Suc n)\<rparr>)"
      using bm(1) bm'(1) by (simp add: algebra_simps)
  qed (auto simp: bm(2,3) bm'(2,3))
qed

lemma init_usable_eq:
  assumes "memmap_ok es" and "usable_set es \<subseteq> {..<8 * length (bitmap s)}"
  shows "\<exists>bm. init_usable es s = Some (s\<lparr>bitmap := bm,
      free_pages := free_pages s + of_nat (card (usable_set es)),
      usable_pages := usable_pages s + of_nat (card (usable_set es))\<rparr>) \<and>
    length bm = length (bitmap s) \<and> (\<forall>q. bm_bit bm q \<longleftrightarrow> q \<notin> usable_set es \<and> bm_bit (bitmap s) q)"
  using assms
proof (induction es arbitrary: s)
  case Nil
  then show ?case by (auto intro: exI [of _ "bitmap s"])
next
  case (Cons e es)
  show ?case
  proof (cases "me_type e = LIMINE_MEMMAP_USABLE")
    case False
    with Cons show ?thesis by simp
  next
    case True
    let ?p = "unat (me_base e div PAGE_SIZE)" and ?n = "unat (me_length e div PAGE_SIZE)"
    have sub: "entry_pages e \<subseteq> {..<8 * length (bitmap s)}" using Cons.prems True by simp
    show ?thesis
    proof (cases "?n = 0")
      case n0: True
      then have "entry_pages e = {}" by (simp add: entry_pages_def)
      moreover from Cons.IH [of s] Cons.prems True this show ?thesis
        unfolding init_usable.simps n0 by simp
    next
      case False
      then have "?p + ?n - 1 \<in> entry_pages e" by (simp add: entry_pages_def)
      with sub have "?p + ?n \<le> 8 * length (bitmap s)" by auto
      from init_clear_eq [OF this] obtain bm where bm: "init_clear ?p ?n s = Some (s\<lparr>bitmap := bm,
          free_pages := free_pages s + of_nat ?n, usable_pages := usable_pages s + of_nat ?n\<rparr>)"
        "length bm = length (bitmap s)"
        "\<And>q. bm_bit bm q \<longleftrightarrow> q \<notin> entry_pages e \<and> bm_bit (bitmap s) q"
        unfolding entry_pages_def by blast
      let ?s = "s\<lparr>bitmap := bm, free_pages := free_pages s + of_nat ?n,
        usable_pages := usable_pages s + of_nat ?n\<rparr>"
      have "memmap_ok es" "usable_set es \<subseteq> {..<8 * length (bitmap ?s)}"
        using Cons.prems True bm(2) by auto
      from Cons.IH [OF this] obtain bm' where bm': "init_usable es ?s = Some (?s\<lparr>bitmap := bm',
          free_pages := free_pages ?s + of_nat (card (usable_set es)),
          usable_pages := usable_pages ?s + of_nat (card (usable_set es))\<rparr>)"
        "length bm' = length (bitmap ?s)"
        "\<And>q. bm_bit bm' q \<longleftrightarrow> q \<notin> usable_set es \<and> bm_bit (bitmap ?s) q" by blast
      have "card (usable_set (e # es)) = ?n + card (usable_set es)"
        using Cons.prems True by (simp add: card_Un_disjoint entry_pages_def)
      with True bm bm' show ?thesis
        by (intro exI [of _ bm']) (simp add: algebra_simps, blast)
    qed
  qed
qed

lemma reserve_pages_eq:
  assumes "p + n \<le> 8 * length (bitmap s)"
  shows "\<exists>bm. reserve_pages p n s = Some (s\<lparr>bitmap := bm,
      free_pages := free_pages s - of_nat (card {q \<in> {p..<p + n}. \<not> page_used s q})\<rparr>) \<and>
    length bm = length (bitmap s) \<and> (\<forall>q. bm_bit bm q \<longleftrightarrow> q \<in> {p..<p + n} \<or> bm_bit (bitmap s) q)"
  using assms
proof (induction n arbitrary: p s)
  case 0
  then show ?case by (auto intro: exI [of _ "bitmap s"])
next
  case (Suc n)
  have t: "bitmap_test p (bitmap s) = Some (page_used s p)"
    using Suc.prems by (simp add: bitmap_test_eq page_used_def)
  show ?case
  proof (cases "page_used s p")
    case True
    then have e: "{q \<in> {p..<p + Suc n}. \<not> page_used s q} = {q \<in> {Suc p..<Suc p + n}. \<not> page_used s q}"
      by (auto simp: Suc_le_eq le_less)
    have ins: "{p..<p + Suc n} = insert p {Suc p..<Suc p + n}" by auto
    have pb: "bm_bit (bitmap s) p" using True by (simp add: page_used_def)
    from Suc.IH [of "Suc p" s] Suc.prems obtain bm where bm:
      "reserve_pages (Suc p) n s = Some (s\<lparr>bitmap := bm,
        free_pages := free_pages s - of_nat (card {q \<in> {Suc p..<Suc p + n}. \<not> page_used s q})\<rparr>)"
      "length bm = length (bitmap s)"
      "\<And>q. bm_bit bm q \<longleftrightarrow> q \<in> {Suc p..<Suc p + n} \<or> bm_bit (bitmap s) q" by auto
    show ?thesis
    proof (intro exI conjI allI)
      show "reserve_pages p (Suc n) s = Some (s\<lparr>bitmap := bm,
          free_pages := free_pages s - of_nat (card {q \<in> {p..<p + Suc n}. \<not> page_used s q})\<rparr>)"
        unfolding e using t True bm(1) by simp
      show "bm_bit bm q \<longleftrightarrow> q \<in> {p..<p + Suc n} \<or> bm_bit (bitmap s) q" for q
        unfolding ins bm(3) using pb by blast
    qed (rule bm(2))
  next
    case False
    from bitmap_set_eq [of p "bitmap s"] Suc.prems obtain bm where
      bm: "bitmap_set p (bitmap s) = Some bm" "length bm = length (bitmap s)"
        "\<And>q. bm_bit bm q \<longleftrightarrow> q = p \<or> bm_bit (bitmap s) q" by auto
    let ?s = "s\<lparr>bitmap := bm, free_pages := free_pages s - 1\<rparr>"
    let ?F = "{q \<in> {Suc p..<Suc p + n}. \<not> page_used ?s q}"
    have "Suc p + n \<le> 8 * length (bitmap ?s)" using Suc.prems bm(2) by simp
    from Suc.IH [OF this] obtain bm' where bm':
      "reserve_pages (Suc p) n ?s = Some (?s\<lparr>bitmap := bm', free_pages := free_pages ?s - of_nat (card ?F)\<rparr>)"
      "length bm' = length (bitmap ?s)"
      "\<And>q. bm_bit bm' q \<longleftrightarrow> q \<in> {Suc p..<Suc p + n} \<or> bm_bit (bitmap ?s) q" by blast
    have "{q \<in> {p..<p + Suc n}. \<not> page_used s q} = insert p ?F"
      using False by (auto simp: page_used_def bm(3))
    then have "card {q \<in> {p..<p + Suc n}. \<not> page_used s q} = Suc (card ?F)" by simp
    with t False bm(1) bm'(1) show ?thesis
      by (intro exI [of _ bm']) (auto simp: bm(2,3) bm'(2,3) algebra_simps)
  qed
qed

text \<open>A bitmap whose bits beyond the last page are all set; reserving pages keeps it so.\<close>

definition padded :: "pmm \<Rightarrow> bool" where
  "padded s \<longleftrightarrow> (\<forall>q < 8 * length (bitmap s). \<not> page_used s q \<longrightarrow> q < total_pages s)"

lemma reserve_pages_inv:
  assumes "pmm_inv s" and "padded s" and "p + n \<le> 8 * length (bitmap s)"
  shows "\<exists>s'. reserve_pages p n s = Some s' \<and> pmm_inv s' \<and> padded s' \<and>
    free_set s' = free_set s - {p..<p + n} \<and> length (bitmap s') = length (bitmap s) \<and>
    usable_pages s' = usable_pages s"
proof -
  let ?R = "{p..<p + n}" and ?F = "{q \<in> {p..<p + n}. \<not> page_used s q}"
  from reserve_pages_eq [OF assms(3)] obtain bm where
    r: "reserve_pages p n s = Some (s\<lparr>bitmap := bm, free_pages := free_pages s - of_nat (card ?F)\<rparr>)"
      "length bm = length (bitmap s)"
      "\<And>q. bm_bit bm q \<longleftrightarrow> q \<in> ?R \<or> bm_bit (bitmap s) q" by blast
  let ?s = "s\<lparr>bitmap := bm, free_pages := free_pages s - of_nat (card ?F)\<rparr>"
  have F: "?F \<subseteq> free_set s" using assms(2,3) by (auto simp: padded_def free_set_def)
  have fs: "free_set ?s = free_set s - ?R"
    unfolding free_set_def page_used_def by (auto simp: r(3))
  have fF: "free_set s - ?R = free_set s - ?F" by (auto simp: free_set_def)
  have "card (free_set s - ?R) = card (free_set s) - card ?F"
    unfolding fF by (rule card_Diff_subset [OF _ F]) simp
  moreover have "card ?F \<le> card (free_set s)" using F by (intro card_mono) auto
  ultimately have "card (free_set s) = card (free_set s - ?R) + card ?F" by simp
  moreover have "free_pages s = of_nat (card (free_set s))" using assms(1) by (simp add: pmm_inv_def)
  ultimately have "free_pages s - of_nat (card ?F) = of_nat (card (free_set s - ?R))"
    by (simp only: of_nat_add add_diff_cancel_right')
  moreover have "free_pages ?s = free_pages s - of_nat (card ?F)" by simp
  ultimately have "free_pages ?s = of_nat (card (free_set ?s))" unfolding fs by (simp only:)
  then have "pmm_inv ?s" using assms(1) r(2) unfolding pmm_inv_def by simp
  moreover have "padded ?s" using assms(2) r(2) by (auto simp: padded_def page_used_def r(3))
  ultimately show ?thesis using r(1,2) fs by auto
qed

lemma init_highest_mono: "h \<le> init_highest es h"
proof (induction es arbitrary: h)
  case (Cons e es)
  let ?t = "me_base e + me_length e"
  have "h \<le> (if ?t > h then ?t else h)" by (simp add: less_imp_le)
  also have "\<dots> \<le> init_highest es \<dots>" by (rule Cons.IH)
  finally have "h \<le> init_highest es (if ?t > h then ?t else h)" .
  with Cons.IH [of h] show ?case by (simp only: init_highest.simps Let_def split: if_split) blast
qed simp

lemma init_highest_ge:
  "e \<in> set es \<Longrightarrow> me_type e = LIMINE_MEMMAP_USABLE \<Longrightarrow> me_base e + me_length e \<le> init_highest es h"
proof (induction es arbitrary: h)
  case (Cons a es)
  then show ?case
    by (auto simp: Let_def intro: order.trans [OF _ init_highest_mono])
qed simp

lemma usable_below_highest:
  assumes "memmap_ok es"
  shows "usable_set es \<subseteq> {..<unat (init_highest es h div PAGE_SIZE)}"
proof
  fix q assume "q \<in> usable_set es"
  then obtain e where e: "e \<in> set es" "me_type e = LIMINE_MEMMAP_USABLE" "q \<in> entry_pages e"
    by (auto simp: usable_set_def usable_def)
  have "unat (me_base e) + unat (me_length e) < 2 ^ 64"
    using assms e(1,2) by (induction es) auto
  then have "unat (me_base e + me_length e) = unat (me_base e) + unat (me_length e)"
    by (simp add: unat_add_nowrap)
  moreover have "unat (me_base e + me_length e) \<le> unat (init_highest es h)"
    using init_highest_ge [OF e(1,2)] by (simp add: word_le_nat_alt)
  ultimately have "(unat (me_base e) + unat (me_length e)) div 4096 \<le> unat (init_highest es h) div 4096"
    by (simp add: div_le_mono)
  moreover have "unat (me_base e) div 4096 + unat (me_length e) div 4096 \<le>
      (unat (me_base e) + unat (me_length e)) div 4096"
    using div_add1_eq [of "unat (me_base e)" "unat (me_length e)" 4096] by linarith
  ultimately show "q \<in> {..<unat (init_highest es h div PAGE_SIZE)}"
    using e(3) by (simp add: entry_pages_def unat_div)
qed

lemma bm_bit_replicate [simp]: "bm_bit (replicate n 0xFF) q \<longleftrightarrow> q < 8 * n"
proof -
  have "bit (0xFF :: u8) (q mod 8)"
  proof -
    have "q mod 8 < 8" by simp
    then consider "q mod 8 = 0" | "q mod 8 = 1" | "q mod 8 = 2" | "q mod 8 = 3" | "q mod 8 = 4"
      | "q mod 8 = 5" | "q mod 8 = 6" | "q mod 8 = 7" by linarith
    then show ?thesis by cases simp_all
  qed
  then show ?thesis by (auto simp: bm_bit_def less_mult_imp_div_less mult.commute)
qed

lemma bitmap_covers: "unat h div 4096 \<le> 8 * unat (((h :: u64) div PAGE_SIZE + 7) div 8)"
proof -
  have "unat h div 4096 < 2 ^ 52" using unat_lt_64 [of h] by simp
  then have "unat (h div PAGE_SIZE + 7) = unat h div 4096 + 7"
    by (subst unat_add_nowrap) (simp_all add: unat_div)
  then show ?thesis by (simp add: unat_div)
qed

text \<open>What the boot code relies on besides the memory map: the direct map is in the higher
  half and fits there, and the bitmap and the kernel image lie below the highest usable
  address.\<close>

definition boot_ok :: "boot_info \<Rightarrow> bool" where
  "boot_ok b \<longleftrightarrow>
     (let h = init_highest (memmap b) 0; n = 8 * unat ((h div PAGE_SIZE + 7) div 8)
      in memmap_ok (memmap b) \<and> 2 ^ 63 \<le> unat (bi_hhdm b) \<and> unat (bi_hhdm b) + unat h \<le> 2 ^ 64 \<and>
         init_best (memmap b) 0 0 \<noteq> 0 \<and>
         unat (init_best (memmap b) 0 0 div PAGE_SIZE) +
           unat (((h div PAGE_SIZE + 7) div 8 + PAGE_SIZE - 1) div PAGE_SIZE) \<le> n \<and>
         unat ((kernel_virt_end b - kvirt_base b + kphys_base b + PAGE_SIZE - 1) div PAGE_SIZE) \<le> n)"

definition bitmap_run :: "boot_info \<Rightarrow> nat set" where
  "bitmap_run b = (let h = init_highest (memmap b) 0; p = unat (init_best (memmap b) 0 0 div PAGE_SIZE)
     in {p..<p + unat (((h div PAGE_SIZE + 7) div 8 + PAGE_SIZE - 1) div PAGE_SIZE)})"

definition kernel_run :: "boot_info \<Rightarrow> nat set" where
  "kernel_run b = {unat ((kernel_virt_start b - kvirt_base b + kphys_base b) div PAGE_SIZE)..<
     unat ((kernel_virt_end b - kvirt_base b + kphys_base b + PAGE_SIZE - 1) div PAGE_SIZE)}"

lemma pmm_init_boot:
  assumes "boot_ok b"
  shows "\<exists>s. pmm_init b = Some s \<and> pmm_inv s \<and>
    free_set s = usable_set (memmap b) - bitmap_run b - kernel_run b \<and>
    usable_pages s = of_nat (card (usable_set (memmap b)))"
proof -
  define h where "h = init_highest (memmap b) 0"
  define bs where "bs = (h div PAGE_SIZE + 7) div 8"
  let ?s0 = "\<lparr>bitmap = replicate (unat bs) 0xFF, bitmap_size = bs, highest_addr = h,
    free_pages = 0, usable_pages = 0, hhdm_offset = bi_hhdm b\<rparr>"
  let ?U = "usable_set (memmap b)"
  note ok = assms [unfolded boot_ok_def Let_def, folded h_def, folded bs_def]
  have U: "?U \<subseteq> {..<unat (h div PAGE_SIZE)}"
    unfolding h_def by (rule usable_below_highest) (use ok in simp)
  have cover: "unat (h div PAGE_SIZE) \<le> 8 * unat bs"
    using bitmap_covers [of h] by (simp add: bs_def unat_div)
  have "?U \<subseteq> {..<8 * length (bitmap ?s0)}" using U cover by auto
  from init_usable_eq [OF _ this] ok obtain bm where
    i: "init_usable (memmap b) ?s0 = Some (?s0\<lparr>bitmap := bm,
        free_pages := free_pages ?s0 + of_nat (card ?U), usable_pages := usable_pages ?s0 + of_nat (card ?U)\<rparr>)"
      "length bm = unat bs" "\<And>q. bm_bit bm q \<longleftrightarrow> q \<notin> ?U \<and> q < 8 * unat bs" by auto
  define s1 where "s1 = ?s0\<lparr>bitmap := bm, free_pages := free_pages ?s0 + of_nat (card ?U),
    usable_pages := usable_pages ?s0 + of_nat (card ?U)\<rparr>"
  have tp: "total_pages s1 = unat (h div PAGE_SIZE)" by (simp add: s1_def total_pages_def)
  have fs: "free_set s1 = ?U"
    unfolding free_set_def tp using U cover by (auto simp: page_used_def s1_def i(3))
  have inv1: "pmm_inv s1"
    unfolding pmm_inv_def tp fs using ok cover i(2) by (simp add: s1_def)
  have pad1: "padded s1"
    unfolding padded_def tp using U by (auto simp: page_used_def s1_def i(2,3))
  let ?bp = "unat (init_best (memmap b) 0 0 div PAGE_SIZE)" and
    ?bn = "unat ((bs + PAGE_SIZE - 1) div PAGE_SIZE)"
  have "?bp + ?bn \<le> 8 * length (bitmap s1)" using ok i(2) by (simp add: s1_def)
  from reserve_pages_inv [OF inv1 pad1 this] obtain s2 where
    r2: "reserve_pages ?bp ?bn s1 = Some s2" "pmm_inv s2" "padded s2"
      "free_set s2 = free_set s1 - {?bp..<?bp + ?bn}" "length (bitmap s2) = length (bitmap s1)"
      "usable_pages s2 = usable_pages s1" by blast
  let ?kp = "unat ((kernel_virt_start b - kvirt_base b + kphys_base b) div PAGE_SIZE)" and
    ?ke = "unat ((kernel_virt_end b - kvirt_base b + kphys_base b + PAGE_SIZE - 1) div PAGE_SIZE)"
  have R: "{?kp..<?kp + (?ke - ?kp)} = {?kp..<?ke}" by auto
  have "\<exists>s3. reserve_pages ?kp (?ke - ?kp) s2 = Some s3 \<and> pmm_inv s3 \<and>
      free_set s3 = free_set s2 - {?kp..<?ke} \<and> usable_pages s3 = usable_pages s2"
  proof (cases "?kp \<le> ?ke")
    case True
    then have "?kp + (?ke - ?kp) \<le> 8 * length (bitmap s2)"
      using ok i(2) r2(5) by (simp add: s1_def)
    from reserve_pages_inv [OF r2(2,3) this] R show ?thesis by auto
  next
    case False
    with r2 show ?thesis by simp
  qed
  then obtain s3 where r3: "reserve_pages ?kp (?ke - ?kp) s2 = Some s3" "pmm_inv s3"
      "free_set s3 = free_set s2 - {?kp..<?ke}" "usable_pages s3 = usable_pages s2" by blast
  have i1: "init_usable (memmap b) ?s0 = Some s1" unfolding s1_def by (rule i(1))
  have "pmm_init b = Some s3"
    using ok i1 r2(1) r3(1)
    by (simp add: pmm_init_def Let_def h_def [symmetric] bs_def [symmetric])
  with r2 r3 fs show ?thesis
    by (simp add: bitmap_run_def kernel_run_def Let_def h_def [symmetric] bs_def [symmetric] s1_def)
qed

subsection \<open>Properties\<close>

lemma alloc_page_scan_eq: "alloc_page_scan k i s = alloc_scan k i rs 0 1 s"
proof (induction k arbitrary: i rs)
  case (Suc k)
  show ?case
  proof (cases "bitmap_test i (bitmap s)")
    case (Some used)
    with Suc [of "Suc i" i] Suc [of "Suc i" rs] show ?thesis
      by (cases "bitmap_set i (bitmap s)") (auto simp: phys_to_virt_def)
  qed simp
qed simp

lemma pmm_restore:
  assumes "pmm_inv s" and "mark_used r (unat n) s = Some s'" and "run_free s r (unat n)"
    and "page_of s' p = r" and "p \<noteq> NULL" and "pmm_inv s'"
  shows "pmm_free_pages p n s' = Some s"
proof -
  have n: "n \<noteq> 0" "0 < unat n" using assms(3) by (auto simp: run_free_def unat_gt_0)
  have lt: "r + unat n - 1 < total_pages s"
    using run_free_page [OF assms(3), of "r + unat n - 1"] n by auto
  moreover have "total_pages s \<le> 8 * length (bitmap s)" using assms(1) by (simp add: pmm_inv_def)
  ultimately have "r + unat n \<le> 8 * length (bitmap s)" using n(2) by linarith
  from mark_used_eq [OF this] assms(2) obtain bm where
    s': "s' = s\<lparr>bitmap := bm, free_pages := free_pages s - of_nat (unat n)\<rparr>"
      "length bm = length (bitmap s)"
      "\<And>q. bm_bit bm q \<longleftrightarrow> q \<in> {r..<r + unat n} \<or> bm_bit (bitmap s) q" by auto
  have "page_of s' p + unat n \<le> total_pages s'" using assms(4) lt s'(1) by simp
  from pmm_free_pages_run [OF assms(6,5) n(1) this] assms(4) obtain bm' where
    f: "pmm_free_pages p n s' = Some (s'\<lparr>bitmap := bm', free_pages := free_pages s' +
        of_nat (card {q \<in> {r..<r + unat n}. page_used s' q})\<rparr>)"
      "length bm' = length (bitmap s')"
      "\<And>q. bm_bit bm' q \<longleftrightarrow> q \<notin> {r..<r + unat n} \<and> bm_bit (bitmap s') q" by auto
  have "{q \<in> {r..<r + unat n}. page_used s' q} = {r..<r + unat n}"
    by (auto simp: page_used_def s')
  then have c: "card {q \<in> {r..<r + unat n}. page_used s' q} = unat n" by simp
  have "\<not> bm_bit (bitmap s) q" if "q \<in> {r..<r + unat n}" for q
    using run_free_page [OF assms(3), of q] that by (auto simp: page_used_def)
  then have "bm' = bitmap s"
    by (intro bitmap_ext) (auto simp: f(2,3) s')
  then show ?thesis unfolding f(1) c by (simp add: s'(1))
qed

text \<open>
  Property C1: \<open>pmm_alloc_pages\<close> is a complete first-fit allocator. In a well-formed state the
  call returns; it returns NULL, changing nothing, exactly when no run of \<open>count\<close> free pages
  exists (so also for \<open>count = 0\<close>); otherwise it returns the address of the lowest such run,
  takes exactly these pages out of the free set and keeps the invariant, with it the exact
  free-page counter.
\<close>

theorem pmm_alloc_pages_first_fit:
  assumes "pmm_inv s"
  shows "\<exists>p s'. pmm_alloc_pages count s = Some (p, s') \<and> pmm_inv s' \<and>
    (if \<exists>r. run_free s r (unat count)
     then p \<noteq> NULL \<and> page_of s p = (LEAST r. run_free s r (unat count)) \<and>
       free_set s' = free_set s - {page_of s p..<page_of s p + unat count}
     else p = NULL \<and> s' = s)"
  using assms
proof (cases rule: pmm_alloc_pages_cases [where count = count])
  case (run r s')
  have "r < total_pages s" using run_free_page [OF run(1), of r] run(1) by (simp add: run_free_def)
  moreover have "(LEAST r. run_free s r (unat count)) = r"
    using run(1,2) by (blast intro: Least_equality)
  ultimately show ?thesis
    using run phys_to_virt_page [OF assms, of r] by auto
next
  case none
  with assms show ?thesis by auto
qed

text \<open>A small machine: eight usable pages, the bitmap in the first and the kernel image in the
  next two; and an allocator state with five free pages.\<close>

definition boot_example :: boot_info where
  "boot_example = \<lparr>memmap = [\<lparr>me_base = 0x1000, me_length = 0x8000, me_type = LIMINE_MEMMAP_USABLE\<rparr>],
     bi_hhdm = 0xFFFF800000000000, kvirt_base = 0xFFFFFFFF80000000, kphys_base = 0x2000,
     kernel_virt_start = 0xFFFFFFFF80000000, kernel_virt_end = 0xFFFFFFFF80001800\<rparr>"

definition pmm_example :: pmm where
  "pmm_example = \<lparr>bitmap = [0x0F, 0xFE], bitmap_size = 2, highest_addr = 0x9000, free_pages = 5,
     usable_pages = 8, hhdm_offset = 0xFFFF800000000000\<rparr>"

lemma pmm_example_free: "free_set pmm_example = {4, 5, 6, 7, 8}"
proof -
  have "free_set s = set (filter (\<lambda>p. \<not> page_used s p) [0..<total_pages s])" for s
    by (auto simp: free_set_def)
  moreover have "filter (\<lambda>p. \<not> page_used pmm_example p) [0..<total_pages pmm_example] = [4, 5, 6, 7, 8]"
    by code_simp
  ultimately show ?thesis by (simp only: list.set)
qed

lemma pmm_example_inv: "pmm_inv pmm_example"
  unfolding pmm_inv_def pmm_example_free
  by (simp add: pmm_example_def total_pages_def PAGE_SIZE_def)

theorem pmm_alloc_pages_first_fit_witness:
  "pmm_inv pmm_example \<and> (\<exists>p s'. pmm_alloc_pages 2 pmm_example = Some (p, s') \<and> p \<noteq> NULL)"
proof -
  have "run_free pmm_example 4 (unat (2 :: u64))"
    by (auto simp: run_free_def pmm_example_free)
  with pmm_alloc_pages_first_fit [OF pmm_example_inv, of 2] pmm_example_inv show ?thesis by metis
qed

lemma pmm_alloc_free_same:
  assumes "pmm_inv s" and "pmm_alloc_pages count s = Some (p, s')" and "p \<noteq> NULL"
  shows "pmm_free_pages p count s' = Some s"
  using assms(1)
proof (cases rule: pmm_alloc_pages_cases [where count = count])
  case (run r s'')
  have "r < total_pages s" using run_free_page [OF run(1), of r] run(1) by (simp add: run_free_def)
  moreover have "page_of s'' = page_of s"
    using run(8) by (simp add: page_of_def virt_to_phys_def fun_eq_iff)
  ultimately show ?thesis
    using run assms phys_to_virt_page(1) [OF assms(1), of r] by (intro pmm_restore) auto
next
  case none
  with assms show ?thesis by simp
qed

text \<open>
  Releasing what was just allocated restores the allocator exactly: after a
  successful \<open>pmm_alloc_pages\<close>, \<open>pmm_free_pages\<close> on the returned address gives back the
  identical state, bitmap and counters included.
\<close>

lemma pmm_free_alloc_roundtrip:
  assumes "pmm_inv s" and "pmm_alloc_pages count s = Some (p, s')" and "p \<noteq> NULL"
  shows "pmm_free_pages p count s' = Some s"
  by (rule pmm_alloc_free_same [OF assms])

lemma pmm_free_alloc_roundtrip_witness:
  "\<exists>p s'. pmm_alloc_pages 2 pmm_example = Some (p, s') \<and> p \<noteq> NULL \<and>
     pmm_free_pages p 2 s' = Some pmm_example"
proof -
  have "pmm_alloc_pages 2 pmm_example = Some (0xFFFF800000004000, pmm_example\<lparr>bitmap := [0x3F, 0xFE], free_pages := 3\<rparr>)"
    by code_simp
  with pmm_free_alloc_roundtrip [OF pmm_example_inv this] show ?thesis by simp
qed

text \<open>
  Property C4: \<open>pmm_init\<close> builds a well-formed allocator from the boot loader's memory map.
  When usable entries neither wrap nor overlap, and the bitmap and the kernel image lie in the
  covered range, it returns with the invariant established; the free pages are the usable ones
  less the bitmap's own pages and the kernel's, and the usable-page count is exact.
\<close>

theorem pmm_init_correct:
  assumes "boot_ok b"
  shows "\<exists>s. pmm_init b = Some s \<and> pmm_inv s \<and>
    free_set s = usable_set (memmap b) - bitmap_run b - kernel_run b \<and>
    pmm_total_page_count s = of_nat (card (usable_set (memmap b)))"
  using pmm_init_boot [OF assms] by (simp add: pmm_total_page_count_def)

theorem pmm_init_correct_witness:
  "boot_ok boot_example \<and> (\<exists>s. pmm_init boot_example = Some s \<and> pmm_inv s)"
proof -
  have ok: "boot_ok boot_example"
    by (simp add: boot_ok_def boot_example_def Let_def PAGE_SIZE_def)
  with pmm_init_correct [OF ok] show ?thesis by blast
qed

lemma pmm_alloc_page_one: "pmm_alloc_page s = pmm_alloc_pages 1 s"
  unfolding pmm_alloc_page_def pmm_alloc_pages_def pmm_alloc_page_locked_def
    pmm_alloc_pages_locked_def
  by (rule alloc_page_scan_eq)

text \<open>
  Property C26: the single-page fast path \<open>pmm_alloc_page\<close> computes the same result and state
  as \<open>pmm_alloc_pages\<close> with a count of one, in every state.
\<close>

theorem pmm_alloc_page_equiv: "pmm_alloc_page s = pmm_alloc_pages 1 s"
  by (rule pmm_alloc_page_one)

end
