(* ===== verification/Heap.thy ===== *)
theory Heap
  imports KString Pmm
begin

text \<open>
  The kernel heap of \<^verbatim>\<open>kernel/memory/heap.c\<close>: every block is a run of whole pages from the
  page allocator with a 16-byte header in front of the bytes handed out. The headers are a
  typed store (the \<^verbatim>\<open>size\<close> field of the header at an address), the bytes the memory of
  \<open>KString\<close>. The invariant \<open>heap_inv F B h\<close> relates the state to the map \<open>B\<close> of the
  live blocks, from the pointer handed out to its size, and to the page runs \<open>F\<close> that other
  clients took from the page allocator directly.
\<close>

record heap =
  hp_pmm :: pmm
  headers :: "ptr \<Rightarrow> u64"
  hmem :: mem

definition HEADER_SIZE :: u64 where
  "HEADER_SIZE = 16"

definition SIZE_MAX :: u64 where
  "SIZE_MAX = - 1"

definition heap_get_block_count :: "u64 \<Rightarrow> u64" where
  "heap_get_block_count sz =
     (if sz > SIZE_MAX - HEADER_SIZE then 0
      else (sz + HEADER_SIZE + PAGE_SIZE - 1) div PAGE_SIZE)"

definition kmalloc :: "u64 \<Rightarrow> heap \<Rightarrow> (ptr \<times> heap) ret" where
  "kmalloc sz h =
     do { (p, s) \<leftarrow> pmm_alloc_pages (heap_get_block_count sz) (hp_pmm h);
          if p = NULL then Some (NULL, h\<lparr>hp_pmm := s\<rparr>)
          else Some (p + HEADER_SIZE, h\<lparr>hp_pmm := s, headers := (headers h)(p := sz)\<rparr>) }"

definition kcalloc :: "u64 \<Rightarrow> u64 \<Rightarrow> heap \<Rightarrow> (ptr \<times> heap) ret" where
  "kcalloc nmemb sz h =
     (if sz \<noteq> 0 \<and> nmemb > SIZE_MAX div sz then Some (NULL, h)
      else let final_size = nmemb * sz
           in do { (p, h') \<leftarrow> kmalloc final_size h;
                   if p = NULL then Some (NULL, h')
                   else Some (p, h'\<lparr>hmem := memset p 0 final_size (hmem h')\<rparr>) })"

definition kfree :: "ptr \<Rightarrow> heap \<Rightarrow> heap ret" where
  "kfree p h =
     (if p = NULL then Some h
      else let header = p - HEADER_SIZE
           in do { s \<leftarrow> pmm_free_pages header (heap_get_block_count (headers h header)) (hp_pmm h);
                   Some (h\<lparr>hp_pmm := s\<rparr>) })"

definition krealloc :: "ptr \<Rightarrow> u64 \<Rightarrow> heap \<Rightarrow> (ptr \<times> heap) ret" where
  "krealloc p new_size h =
     (if p = NULL then kmalloc new_size h
      else if new_size = 0 then do { h' \<leftarrow> kfree p h; Some (NULL, h') }
      else let header = p - HEADER_SIZE
           in do { (q, h1) \<leftarrow> kmalloc new_size h;
                   if q = NULL then Some (NULL, h1)
                   else let copy_size = (if headers h1 header < new_size
                                         then headers h1 header else new_size)
                        in do { h2 \<leftarrow> kfree p (h1\<lparr>hmem := memcpy q p copy_size (hmem h1)\<rparr>);
                                Some (q, h2) } })"

subsection \<open>The invariant\<close>

text \<open>The page runs behind the live blocks, from the header's address.\<close>

definition block_runs :: "(ptr \<rightharpoonup> u64) \<Rightarrow> (ptr \<rightharpoonup> u64)" where
  "block_runs B q = map_option heap_get_block_count (B (q + HEADER_SIZE))"

definition heap_inv :: "(ptr \<rightharpoonup> u64) \<Rightarrow> (ptr \<rightharpoonup> u64) \<Rightarrow> heap \<Rightarrow> bool" where
  "heap_inv F B h \<longleftrightarrow> pmm_inv (hp_pmm h) \<and> pa.owns (hp_pmm h) (F ++ block_runs B) \<and>
     dom F \<inter> dom (block_runs B) = {} \<and> B NULL = None \<and>
     (\<forall>p n. B p = Some n \<longrightarrow> headers h (p - HEADER_SIZE) = n)"

subsection \<open>Block sizes\<close>

lemma unat_SIZE_MAX: "unat SIZE_MAX = 2 ^ 64 - 1"
  by (simp add: SIZE_MAX_def unat_minus_1_64)

lemma unat_HEADER_SIZE [simp]: "unat HEADER_SIZE = 16"
  by (simp add: HEADER_SIZE_def)

text \<open>Every sz gets enough pages, or none at all when rounding up would wrap.\<close>

lemma heap_get_block_count_room:
  assumes "heap_get_block_count sz \<noteq> 0"
  shows "unat sz + 16 \<le> unat (heap_get_block_count sz) * 4096"
proof -
  have le: "\<not> sz > SIZE_MAX - HEADER_SIZE" using assms by (auto simp: heap_get_block_count_def)
  have "unat (SIZE_MAX - HEADER_SIZE) = 2 ^ 64 - 17"
    by (simp add: unat_SIZE_MAX unat_diff_nowrap)
  with le have s: "unat sz \<le> 2 ^ 64 - 17" by (simp add: not_less word_le_nat_alt)
  then have u16: "unat (sz + HEADER_SIZE) = unat sz + 16"
    by (subst unat_add_nowrap) auto
  let ?c = "(sz + HEADER_SIZE + PAGE_SIZE - 1) div PAGE_SIZE"
  have c: "heap_get_block_count sz = ?c" using le by (simp add: heap_get_block_count_def)
  have e: "sz + HEADER_SIZE + PAGE_SIZE - 1 = sz + HEADER_SIZE + 4095"
    by (simp add: PAGE_SIZE_def)
  show ?thesis
  proof (cases "unat sz + 16 + 4095 < 2 ^ 64")
    case True
    then have "unat (sz + HEADER_SIZE + 4095) = unat sz + 16 + 4095"
      using u16 by (subst unat_add_nowrap) auto
    then have "unat ?c = (unat sz + 16 + 4095) div 4096" by (simp only: e unat_div unat_PAGE_SIZE)
    then show ?thesis using c by simp
  next
    case False
    have "unat (sz + HEADER_SIZE + 4095) = (unat sz + 16 + 4095) mod 2 ^ 64"
      using u16 by (simp add: unat_word_ariths)
    also have "\<dots> = unat sz + 16 + 4095 - 2 ^ 64" using False s by (simp add: mod_if)
    also have "\<dots> < 4096" using s by simp
    finally have "unat ?c = 0" by (simp only: e unat_div unat_PAGE_SIZE)
    with c assms show ?thesis by (simp add: unat_eq_0)
  qed
qed

subsection \<open>Allocation and release keep the invariant\<close>

lemma block_runs_upd:
  "block_runs (B(p + HEADER_SIZE \<mapsto> n)) = (block_runs B)(p \<mapsto> heap_get_block_count n)"
  "block_runs (B(p := None)) = (block_runs B)(p - HEADER_SIZE := None)"
  by (auto simp: block_runs_def fun_eq_iff)

lemma heap_inv_room:
  assumes "heap_inv F B h" and "B p = Some n"
  shows "heap_get_block_count n \<noteq> 0" and "p - HEADER_SIZE \<noteq> NULL"
    and "unat n + 16 \<le> unat (heap_get_block_count n) * 4096"
proof -
  have e: "(F ++ block_runs B) (p - HEADER_SIZE) = Some (heap_get_block_count n)"
    using assms(2) by (simp add: block_runs_def)
  have o: "pa.owns (hp_pmm h) (F ++ block_runs B)" using assms(1) by (simp add: heap_inv_def)
  from pa.owns_entry [OF o e]
  show nz: "heap_get_block_count n \<noteq> 0" "p - HEADER_SIZE \<noteq> NULL" by auto
  from heap_get_block_count_room [OF nz(1)]
  show "unat n + 16 \<le> unat (heap_get_block_count n) * 4096" .
qed

lemma header_not_null:
  assumes "pmm_inv s" and "pmm_alloc_pages n s = Some (q, s')" and "q \<noteq> NULL"
  shows "q + HEADER_SIZE \<noteq> NULL"
  using assms(1)
proof (cases rule: pmm_alloc_pages_cases [where count = n])
  case (run r s'')
  then have q: "q = of_nat r * PAGE_SIZE + hhdm_offset s" using assms by (simp add: phys_to_virt_def)
  have "r < total_pages s" using run_free_page [OF run(1), of r] run(1) by (simp add: run_free_def)
  then have r: "r * 4096 + 4096 \<le> unat (highest_addr s)"
    by (simp add: total_pages_def unat_div)
  then have u: "unat (of_nat r * PAGE_SIZE) = r * 4096"
    using unat_lt_64 [of "highest_addr s"] by (simp add: unat_word_ariths unat_of_nat_small)
  have h: "unat (hhdm_offset s) + unat (highest_addr s) \<le> 2 ^ 64"
    using assms(1) by (simp add: pmm_inv_def)
  then have "unat q = r * 4096 + unat (hhdm_offset s)"
    unfolding q using r u by (subst unat_add_nowrap) simp_all
  with r h have "unat (q + HEADER_SIZE) = unat q + 16"
    by (subst unat_add_nowrap) auto
  then have "0 < unat (q + HEADER_SIZE)" by simp
  then show ?thesis by (metis unat_0 less_irrefl)
next
  case none
  with assms show ?thesis by simp
qed

lemma kmalloc_cases:
  assumes "heap_inv F B h"
  obtains (null) "kmalloc n h = Some (NULL, h)"
    | (block) p h' where "kmalloc n h = Some (p, h')" "p \<noteq> NULL" "B p = None"
        "heap_inv F (B(p \<mapsto> n)) h'" "hmem h' = hmem h" "headers h' = (headers h)(p - HEADER_SIZE := n)"
proof -
  from assms have inv: "pmm_inv (hp_pmm h)" and own: "pa.owns (hp_pmm h) (F ++ block_runs B)"
    by (auto simp: heap_inv_def)
  from pa.alloc_returns [OF inv] obtain q s where
    a: "pmm_alloc_pages (heap_get_block_count n) (hp_pmm h) = Some (q, s)" by blast
  show thesis
  proof (cases "q = NULL")
    case True
    with pa.alloc_null [OF inv] a have "s = hp_pmm h" by simp
    with a True show thesis by (intro null) (simp add: kmalloc_def)
  next
    case False
    let ?h = "h\<lparr>hp_pmm := s, headers := (headers h)(q := n)\<rparr>"
    from pa.owns_alloc [OF inv own a False] have o: "pmm_inv s" "F q = None" "block_runs B q = None"
      "pa.owns s (F ++ (block_runs B)(q \<mapsto> heap_get_block_count n))" by auto
    have "q + HEADER_SIZE \<noteq> NULL" by (rule header_not_null [OF inv a False])
    moreover have "B (q + HEADER_SIZE) = None" using o(3) by (simp add: block_runs_def)
    moreover have "heap_inv F (B(q + HEADER_SIZE \<mapsto> n)) ?h"
      using assms o \<open>q + HEADER_SIZE \<noteq> NULL\<close> \<open>B (q + HEADER_SIZE) = None\<close>
      by (auto simp: heap_inv_def block_runs_upd)
    ultimately show thesis using a False by (intro block [of "q + HEADER_SIZE" ?h]) (auto simp: kmalloc_def)
  qed
qed

lemma kfree_inv:
  assumes "heap_inv F B h" and "B p = Some n"
  shows "\<exists>h'. kfree p h = Some h' \<and> heap_inv F (B(p := None)) h' \<and> hmem h' = hmem h \<and>
    headers h' = headers h"
proof -
  from assms have inv: "pmm_inv (hp_pmm h)" and own: "pa.owns (hp_pmm h) (F ++ block_runs B)"
    and dj: "dom F \<inter> dom (block_runs B) = {}" and hd: "headers h (p - HEADER_SIZE) = n" and p: "p \<noteq> NULL"
    by (auto simp: heap_inv_def)
  have b: "block_runs B (p - HEADER_SIZE) = Some (heap_get_block_count n)"
    using assms(2) by (simp add: block_runs_def)
  then have "(F ++ block_runs B) (p - HEADER_SIZE) = Some (heap_get_block_count n)" by simp
  from pa.owns_free [OF inv own this] obtain s where s:
    "pmm_free_pages (p - HEADER_SIZE) (heap_get_block_count n) (hp_pmm h) = Some s" "pmm_inv s"
    "pa.owns s ((F ++ block_runs B)(p - HEADER_SIZE := None))" by blast
  have "F (p - HEADER_SIZE) = None" using dj b by blast
  then have m: "(F ++ block_runs B)(p - HEADER_SIZE := None) =
      F ++ (block_runs B)(p - HEADER_SIZE := None)" by (auto simp: map_add_def fun_eq_iff)
  have "heap_inv F (B(p := None)) (h\<lparr>hp_pmm := s\<rparr>)"
    using assms s m dj by (auto simp: heap_inv_def block_runs_upd)
  with s(1) hd p show ?thesis by (simp add: kfree_def)
qed

text \<open>Writing bytes does not disturb the headers of the model.\<close>

lemma heap_inv_hmem [simp]: "heap_inv F B (h\<lparr>hmem := m\<rparr>) = heap_inv F B h"
  by (simp add: heap_inv_def)

text \<open>Live blocks never overlap, byte for byte.\<close>

lemma heap_blocks_disjoint:
  assumes "heap_inv F B h" and "B p = Some n" and "B q = Some k" and "p \<noteq> q"
    and "unat x < unat n" and "unat y < unat k"
  shows "p + x \<noteq> q + y"
proof -
  let ?p = "p - HEADER_SIZE" and ?q = "q - HEADER_SIZE"
  have r: "(F ++ block_runs B) ?p = Some (heap_get_block_count n)"
    "(F ++ block_runs B) ?q = Some (heap_get_block_count k)" "?p \<noteq> ?q"
    using assms by (auto simp: block_runs_def)
  have room: "unat n + 16 \<le> unat (heap_get_block_count n) * 4096"
    "unat k + 16 \<le> unat (heap_get_block_count k) * 4096"
    using heap_inv_room(3) [OF assms(1)] assms(2,3) by auto
  have le: "unat (HEADER_SIZE + z) \<le> 16 + unat z" for z :: u64
    by (simp add: unat_word_ariths)
  have "unat (HEADER_SIZE + x) < unat (heap_get_block_count n) * unat PAGE_SIZE"
    "unat (HEADER_SIZE + y) < unat (heap_get_block_count k) * unat PAGE_SIZE"
    using room assms(5,6) le [of x] le [of y] by simp_all
  moreover have "pa.owns (hp_pmm h) (F ++ block_runs B)" using assms(1) by (simp add: heap_inv_def)
  ultimately have "?p + (HEADER_SIZE + x) \<noteq> ?q + (HEADER_SIZE + y)"
    using pa.owns_disjoint [OF _ r] by blast
  then show ?thesis by (simp add: algebra_simps)
qed

lemma heap_run_block_disjoint:
  assumes "heap_inv F B h" and "F p = Some n" and "B q = Some k"
    and "unat x < unat n * 4096" and "unat y < unat k"
  shows "p + x \<noteq> q + y"
proof -
  let ?q = "q - HEADER_SIZE"
  have b: "block_runs B ?q = Some (heap_get_block_count k)" using assms(3) by (simp add: block_runs_def)
  have dj: "dom F \<inter> dom (block_runs B) = {}" using assms(1) by (simp add: heap_inv_def)
  then have ne: "p \<noteq> ?q" "block_runs B p = None" using assms(2) b by auto
  have r: "(F ++ block_runs B) p = Some n" "(F ++ block_runs B) ?q = Some (heap_get_block_count k)"
    using assms(2) b ne(2) by (simp_all add: map_add_def)
  have "unat (HEADER_SIZE + y) \<le> 16 + unat y" by (simp add: unat_word_ariths)
  then have lt: "unat (HEADER_SIZE + y) < unat (heap_get_block_count k) * unat PAGE_SIZE"
    using heap_inv_room(3) [OF assms(1,3)] assms(5) by simp
  have "pa.owns (hp_pmm h) (F ++ block_runs B)" using assms(1) by (simp add: heap_inv_def)
  from pa.owns_disjoint [OF this r ne(1) _ lt, of x] assms(4) show ?thesis by (simp add: algebra_simps)
qed

text \<open>Page runs taken directly from the page allocator join the frame \<open>F\<close>.\<close>

lemma heap_page_alloc:
  assumes "heap_inv F B h" and "pmm_alloc_pages n (hp_pmm h) = Some (p, s)" and "p \<noteq> NULL"
  shows "F p = None \<and> n \<noteq> 0 \<and> heap_inv (F(p \<mapsto> n)) B (h\<lparr>hp_pmm := s\<rparr>)"
proof -
  from assms(1) have inv: "pmm_inv (hp_pmm h)" and own: "pa.owns (hp_pmm h) (F ++ block_runs B)"
    by (auto simp: heap_inv_def)
  from pa.owns_alloc [OF inv own assms(2,3)] have o: "pmm_inv s" "F p = None" "block_runs B p = None"
    "pa.owns s ((F ++ block_runs B)(p \<mapsto> n))" by auto
  have "(F ++ block_runs B)(p \<mapsto> n) = F(p \<mapsto> n) ++ block_runs B"
    using o(3) by (auto simp: map_add_def fun_eq_iff split: option.splits)
  moreover have "n \<noteq> 0" using pa.alloc_run [OF inv assms(2,3)] by simp
  ultimately show ?thesis using assms(1) o by (auto simp: heap_inv_def)
qed

lemma heap_page_free:
  assumes "heap_inv F B h" and "F p = Some n"
  shows "\<exists>s. pmm_free_pages p n (hp_pmm h) = Some s \<and> heap_inv (F(p := None)) B (h\<lparr>hp_pmm := s\<rparr>) \<and>
    free_set s = free_set (hp_pmm h) \<union> {page_of (hp_pmm h) p..<page_of (hp_pmm h) p + unat n} \<and>
    page_of s = page_of (hp_pmm h)"
proof -
  from assms(1) have inv: "pmm_inv (hp_pmm h)" and own: "pa.owns (hp_pmm h) (F ++ block_runs B)"
    and dj: "dom F \<inter> dom (block_runs B) = {}"
    by (auto simp: heap_inv_def)
  have b: "block_runs B p = None" using dj assms(2) by blast
  then have "(F ++ block_runs B) p = Some n" using assms(2) by (simp add: map_add_def)
  from pa.owns_free [OF inv own this] obtain s where s: "pmm_free_pages p n (hp_pmm h) = Some s"
    "pmm_inv s" "pa.owns s ((F ++ block_runs B)(p := None))"
    "free_set s = free_set (hp_pmm h) \<union> {page_of (hp_pmm h) p..<page_of (hp_pmm h) p + unat n}"
    "page_of s = page_of (hp_pmm h)" by blast
  have "(F ++ block_runs B)(p := None) = F(p := None) ++ block_runs B"
    using b by (auto simp: map_add_def fun_eq_iff split: option.splits)
  with s assms(1) show ?thesis by (auto simp: heap_inv_def)
qed

subsection \<open>The interface of the heap\<close>

text \<open>What the file systems and the task code rely on: \<open>hinv B h\<close> holds for the map \<open>B\<close> of
  the live blocks, an allocation adds one fresh block, a release removes it.\<close>

locale kernel_heap =
  fixes halloc :: "u64 \<Rightarrow> 'h \<Rightarrow> (ptr \<times> 'h) ret"
    and hfree :: "ptr \<Rightarrow> 'h \<Rightarrow> 'h ret"
    and hinv :: "(ptr \<rightharpoonup> u64) \<Rightarrow> 'h \<Rightarrow> bool"
  assumes halloc_returns: "hinv B h \<Longrightarrow> \<exists>p h'. halloc n h = Some (p, h')"
    and halloc_null: "hinv B h \<Longrightarrow> halloc n h = Some (NULL, h') \<Longrightarrow> h' = h"
    and halloc_block: "hinv B h \<Longrightarrow> halloc n h = Some (p, h') \<Longrightarrow> p \<noteq> NULL \<Longrightarrow>
        B p = None \<and> hinv (B(p \<mapsto> n)) h'"
    and hfree_block: "hinv B h \<Longrightarrow> B p = Some n \<Longrightarrow> \<exists>h'. hfree p h = Some h' \<and> hinv (B(p := None)) h'"
    and hfree_null: "hfree NULL h = Some h"
    and hinv_null: "hinv B h \<Longrightarrow> B NULL = None"
begin

text \<open>An allocation followed by the release of the same block leaves the same live blocks.\<close>

lemma halloc_hfree:
  assumes "hinv B h" and "halloc n h = Some (p, h')"
  shows "\<exists>h''. hfree p h' = Some h'' \<and> hinv B h''"
proof (cases "p = NULL")
  case True
  with assms halloc_null [OF assms(1)] hfree_null show ?thesis by auto
next
  case False
  from halloc_block [OF assms False] have b: "B p = None" "hinv (B(p \<mapsto> n)) h'" by auto
  from hfree_block [OF b(2), of p n] obtain h'' where
    "hfree p h' = Some h''" "hinv ((B(p \<mapsto> n))(p := None)) h''" by auto
  moreover have "(B(p \<mapsto> n))(p := None) = B" using b(1) by auto
  ultimately show ?thesis by auto
qed

text \<open>Two allocations in a row give two different blocks.\<close>

lemma halloc_twice:
  assumes "hinv B h" and "halloc n h = Some (p, h1)" and "p \<noteq> NULL"
    and "halloc k h1 = Some (q, h2)" and "q \<noteq> NULL"
  shows "p \<noteq> q \<and> hinv (B(p \<mapsto> n, q \<mapsto> k)) h2"
proof -
  from halloc_block [OF assms(1-3)] have b: "hinv (B(p \<mapsto> n)) h1" by simp
  from halloc_block [OF b assms(4,5)] show ?thesis by (auto split: if_splits)
qed

end

interpretation kh: kernel_heap kmalloc kfree "heap_inv F" for F
proof
  fix B h n assume inv: "heap_inv F B h"
  show "\<exists>p h'. kmalloc n h = Some (p, h')"
    using kmalloc_cases [OF inv, of n] by metis
next
  fix B h n h' assume inv: "heap_inv F B h" and "kmalloc n h = Some (NULL, h')"
  then show "h' = h" using kmalloc_cases [OF inv, of n] by auto
next
  fix B h n p h' assume inv: "heap_inv F B h" and "kmalloc n h = Some (p, h')" "p \<noteq> NULL"
  then show "B p = None \<and> heap_inv F (B(p \<mapsto> n)) h'" using kmalloc_cases [OF inv, of n] by auto
next
  fix B h p n assume "heap_inv F B h" "B p = Some n"
  from kfree_inv [OF this] show "\<exists>h'. kfree p h = Some h' \<and> heap_inv F (B(p := None)) h'" by blast
qed (auto simp: kfree_def heap_inv_def)

lemma heap_run_bound:
  assumes "heap_inv F B h" and "(F ++ block_runs B) p = Some n"
  shows "unat n * 4096 \<le> 2 ^ 63"
proof -
  let ?s = "hp_pmm h"
  have "pa.owns ?s (F ++ block_runs B)" using assms(1) by (simp add: heap_inv_def)
  with assms(2) have "unat n \<le> total_pages ?s" by (metis add_leD2 pa.owns_def)
  then have "unat n * 4096 \<le> total_pages ?s * 4096" by simp
  also have "\<dots> \<le> unat (highest_addr ?s)" by (simp add: total_pages_def unat_div)
  also have "\<dots> \<le> 2 ^ 63" using assms(1) by (simp add: heap_inv_def pmm_inv_def)
  finally show ?thesis .
qed

lemma heap_block_bound:
  assumes "heap_inv F B h" and "B p = Some n"
  shows "unat n + 16 \<le> 2 ^ 63"
proof -
  have "(F ++ block_runs B) (p - HEADER_SIZE) = Some (heap_get_block_count n)"
    using assms(2) by (simp add: block_runs_def)
  from heap_run_bound [OF assms(1) this] heap_inv_room(3) [OF assms] show ?thesis by simp
qed

subsection \<open>Properties\<close>

lemma memcpy_bytes:
  assumes "unat n \<le> 2 ^ 64" and "\<And>x y. unat x < unat n \<Longrightarrow> unat y < unat n \<Longrightarrow> d + x \<noteq> s + y"
  shows "bytes_at (memcpy d s n m) d (unat n) = bytes_at m s (unat n)"
proof (cases "n = 0")
  case False
  then have "0 < unat n" by (simp add: unat_gt_0)
  then have "unat n \<le> unat (d - s)" using assms(2) [of 0 "d - s"] by force
  then have at: "memcpy d s n m a = (if unat (a - d) < unat n then m (s + (a - d)) else m a)" for a
    by (intro memcpy_at) simp
  show ?thesis
  proof (rule bytes_at_eqI)
    fix i assume "i < unat n"
    moreover from this have "i < 2 ^ 64" using unat_lt_64 [of n] by simp
    ultimately show "memcpy d s n m (d + of_nat i) = m (s + of_nat i)"
      by (simp add: at unat_of_nat_small)
  qed
qed simp

lemma krealloc_block:
  assumes "heap_inv F B h" and "B p = Some n" and "new \<noteq> 0"
  shows "\<exists>q h'. krealloc p new h = Some (q, h') \<and>
    (if q = NULL then h' = h
     else B q = None \<and> heap_inv F ((B(p := None))(q \<mapsto> new)) h' \<and>
       bytes_at (hmem h') q (min (unat n) (unat new)) = bytes_at (hmem h) p (min (unat n) (unat new)))"
  using assms(1)
proof (cases rule: kmalloc_cases [where n = new])
  case null
  with assms show ?thesis by (auto simp: krealloc_def heap_inv_def)
next
  case (block q h1)
  have pq: "p \<noteq> q" using block(3) assms(2) by auto
  have p: "p \<noteq> NULL" and hd: "headers h (p - HEADER_SIZE) = n"
    using assms(1,2) by (auto simp: heap_inv_def)
  define c where "c = (if n < new then n else new)"
  have c: "unat c = min (unat n) (unat new)" by (auto simp: c_def word_less_nat_alt)
  have hd1: "headers h1 (p - HEADER_SIZE) = n" using block(6) hd pq by simp
  let ?h = "h1\<lparr>hmem := memcpy q p c (hmem h1)\<rparr>"
  have "heap_inv F (B(q \<mapsto> new)) ?h" "(B(q \<mapsto> new)) p = Some n" using block(4) assms(2) pq by auto
  from kfree_inv [OF this] obtain h2 where h2: "kfree p ?h = Some h2"
    "heap_inv F ((B(q \<mapsto> new))(p := None)) h2" "hmem h2 = hmem ?h" by blast
  then have mem: "hmem h2 = memcpy q p c (hmem h)" using block(5) by simp
  have "bytes_at (memcpy q p c (hmem h)) q (unat c) = bytes_at (hmem h) p (unat c)"
  proof (rule memcpy_bytes)
    fix x y :: u64 assume "unat x < unat c" "unat y < unat c"
    with c show "q + x \<noteq> p + y"
      using heap_blocks_disjoint [OF block(4), of q new p n x y] assms(2) pq by simp
  qed (use unat_lt_64 [of c] in simp)
  moreover have "(B(p := None))(q \<mapsto> new) = (B(q \<mapsto> new))(p := None)" using pq by auto
  moreover have "krealloc p new h = Some (q, h2)"
    using block(1,2) h2(1) hd1 p assms(3) by (auto simp: krealloc_def Let_def c_def split: if_splits)
  ultimately show ?thesis using block(2,3) h2(2) mem c by (simp add: fun_upd_twist)
qed

definition heap_example :: heap where
  "heap_example = \<lparr>hp_pmm = pmm_example, headers = (\<lambda>_. 0), hmem = (\<lambda>_. 7)\<rparr>"

lemma heap_example_inv: "heap_inv Map.empty Map.empty heap_example"
proof -
  have "block_runs Map.empty = Map.empty" by (simp add: block_runs_def fun_eq_iff)
  then show ?thesis
    by (simp add: heap_inv_def heap_example_def pmm_example_inv pa.owns_empty)
qed

text \<open>
  Property C2: \<open>kmalloc\<close> is safe. In a well-formed heap it returns; NULL leaves the heap
  unchanged; otherwise the pointer is not the one of a live block, the heap with the new block
  is well-formed, and no byte of the new block lies in any live block.
\<close>

theorem kmalloc_fresh:
  assumes "heap_inv F B h"
  shows "\<exists>p h'. kmalloc n h = Some (p, h') \<and>
    (if p = NULL then h' = h
     else B p = None \<and> heap_inv F (B(p \<mapsto> n)) h' \<and> hmem h' = hmem h \<and>
       (\<forall>q k x y. B q = Some k \<and> unat x < unat n \<and> unat y < unat k \<longrightarrow> p + x \<noteq> q + y))"
  using assms
proof (cases rule: kmalloc_cases [where n = n])
  case null
  then show ?thesis by simp
next
  case (block p h')
  have "p + x \<noteq> q + y" if "B q = Some k" "unat x < unat n" "unat y < unat k" for q k x y
  proof -
    have "p \<noteq> q" using that(1) block(3) by auto
    with that show ?thesis using heap_blocks_disjoint [OF block(4), of p n q k x y] by simp
  qed
  with block show ?thesis by auto
qed

theorem kmalloc_fresh_witness:
  "heap_inv Map.empty Map.empty heap_example \<and>
   (\<exists>p h'. kmalloc 100 heap_example = Some (p, h') \<and> p \<noteq> NULL \<and> heap_inv Map.empty (Map.empty(p \<mapsto> 100)) h')"
proof -
  have "map_option fst (kmalloc 100 heap_example) = Some 0xFFFF800000004010" by code_simp
  with kmalloc_fresh [OF heap_example_inv, of 100] heap_example_inv show ?thesis by auto
qed

text \<open>
  \<open>krealloc\<close> on a live block moves it. The call returns; when no memory is left it
  returns NULL and the old block and its bytes are untouched; otherwise the old block is gone,
  the new one is live with the new size, and its first bytes, up to the smaller of the two
  sizes, are those of the old block.
\<close>

theorem krealloc_moves:
  assumes "heap_inv F B h" and "B p = Some n" and "new \<noteq> 0"
  shows "\<exists>q h'. krealloc p new h = Some (q, h') \<and>
    (if q = NULL then h' = h
     else B q = None \<and> heap_inv F ((B(p := None))(q \<mapsto> new)) h' \<and>
       bytes_at (hmem h') q (min (unat n) (unat new)) = bytes_at (hmem h) p (min (unat n) (unat new)))"
  by (rule krealloc_block [OF assms])

theorem krealloc_moves_witness:
  "\<exists>p h. heap_inv Map.empty (Map.empty(p \<mapsto> 100)) h \<and> (Map.empty(p \<mapsto> (100 :: u64))) p = Some 100 \<and>
     (\<exists>q h'. krealloc p 50 h = Some (q, h'))"
proof -
  have "map_option fst (kmalloc 100 heap_example) = Some 0xFFFF800000004010" by code_simp
  then obtain h where h: "kmalloc 100 heap_example = Some (0xFFFF800000004010, h)" by auto
  have b: "heap_inv Map.empty (Map.empty(0xFFFF800000004010 \<mapsto> 100)) h"
    using kh.halloc_block [OF heap_example_inv h] by simp
  with krealloc_moves [OF b, of "0xFFFF800000004010" 100 50] show ?thesis by fastforce
qed

text \<open>
  \<open>kcalloc\<close> returns zeroed memory of the full product size: it never returns a
  block when \<open>nmemb * size\<close> overflows, and a block it returns is live with exactly
  \<open>nmemb * size\<close> bytes, all of them zero.
\<close>

lemma kcalloc_zeroed:
  assumes "heap_inv F B h"
  shows "\<exists>p h'. kcalloc nmemb sz h = Some (p, h') \<and>
    (p \<noteq> NULL \<longrightarrow> unat nmemb * unat sz < 2 ^ 64 \<and> B p = None \<and> heap_inv F (B(p \<mapsto> nmemb * sz)) h' \<and>
       bytes_at (hmem h') p (unat nmemb * unat sz) = replicate (unat nmemb * unat sz) 0)"
proof (cases "sz \<noteq> 0 \<and> nmemb > SIZE_MAX div sz")
  case True
  then show ?thesis by (simp add: kcalloc_def)
next
  case False
  have nowrap: "unat nmemb * unat sz < 2 ^ 64"
  proof (cases "sz = 0")
    case nz: False
    with False have "unat nmemb \<le> (2 ^ 64 - 1) div unat sz"
      by (simp add: not_less word_le_nat_alt unat_div unat_SIZE_MAX)
    then have "unat nmemb * unat sz \<le> (2 ^ 64 - 1) div unat sz * unat sz"
      by (rule mult_le_mono1)
    also have "\<dots> \<le> 2 ^ 64 - 1" by simp
    finally show ?thesis by simp
  qed simp
  then have prod: "unat (nmemb * sz) = unat nmemb * unat sz" by (simp add: unat_word_ariths)
  show ?thesis
    using assms
  proof (cases rule: kmalloc_cases [where n = "nmemb * sz"])
    case null
    with False show ?thesis by (auto simp: kcalloc_def)
  next
    case (block p h')
    let ?m = "memset p 0 (nmemb * sz) (hmem h')"
    have "bytes_at ?m p (unat (nmemb * sz)) = replicate (unat (nmemb * sz)) 0"
    proof (rule nth_equalityI)
      fix i assume "i < length (bytes_at ?m p (unat (nmemb * sz)))"
      then have i: "i < unat (nmemb * sz)" by simp
      then have "i < 2 ^ 64" using unat_lt_64 [of "nmemb * sz"] by simp
      with i show "bytes_at ?m p (unat (nmemb * sz)) ! i = replicate (unat (nmemb * sz)) 0 ! i"
        by (simp add: nth_bytes_at memset_at unat_of_nat_small)
    qed simp
    with block False nowrap prod show ?thesis by (auto simp: kcalloc_def Let_def)
  qed
qed

lemma kcalloc_zeroed_witness:
  "heap_inv Map.empty Map.empty heap_example \<and> (\<exists>p h'. kcalloc 4 8 heap_example = Some (p, h'))"
  using kcalloc_zeroed [OF heap_example_inv, of 4 8] heap_example_inv by blast

end
