(* ===== verification/UserPages.thy ===== *)
theory UserPages
  imports Heap "HOL-Library.Multiset"
begin

text \<open>
  The pages handed to programs, \<^verbatim>\<open>kernel/system/user_pages.c\<close>: a growing table of page runs
  with their owning task. \<open>run_table\<close> is the used part of the array \<open>user_runs\<close> points to
  (its length is \<^verbatim>\<open>user_run_count\<close>); the array itself is a heap block that \<open>krealloc\<close>
  moves. Tasks are identified by their address; the caller's task is a parameter
  (\<^verbatim>\<open>task_current()\<close>).
\<close>

subsection \<open>Lists used as arrays\<close>

text \<open>\<open>a[i] = a[--n]\<close>: the last element takes the place of the removed one.\<close>

definition swap_remove :: "nat \<Rightarrow> 'a list \<Rightarrow> 'a list" where
  "swap_remove i xs = butlast (xs[i := last xs])"

lemma mset_swap_remove:
  assumes "i < length xs"
  shows "mset (swap_remove i xs) = mset xs - {#xs ! i#}"
proof (cases xs rule: rev_cases)
  case (snoc ys z)
  show ?thesis
  proof (cases "i = length ys")
    case True
    with snoc show ?thesis by (simp add: swap_remove_def)
  next
    case False
    with snoc assms have "i < length ys" by simp
    with snoc show ?thesis
      by (simp add: swap_remove_def list_update_append butlast_append nth_append mset_update
          add_mset_commute)
  qed
qed (use assms in simp)

lemma length_swap_remove [simp]: "length (swap_remove i xs) = length xs - 1"
  by (simp add: swap_remove_def)

lemma nth_swap_remove_less: "j < i \<Longrightarrow> i < length xs \<Longrightarrow> swap_remove i xs ! j = xs ! j"
  by (simp add: swap_remove_def nth_butlast)

subsection \<open>State and operations\<close>

record user_run =
  ur_addr :: ptr
  ur_count :: u64
  ur_owner :: ptr

record user_pages =
  up_heap :: heap
  user_runs :: ptr
  run_table :: "user_run list"
  user_run_cap :: u64

definition RUN_SIZE :: u64 where
  "RUN_SIZE = 24"

definition user_page_count :: "u64 \<Rightarrow> u64" where
  "user_page_count sz = (sz + PAGE_SIZE - 1) div PAGE_SIZE"

text \<open>Growing the table when it is full; False when no memory is left.\<close>

definition grow_table :: "user_pages \<Rightarrow> (bool \<times> user_pages) ret" where
  "grow_table s =
     (if of_nat (length (run_table s)) = user_run_cap s
      then let cap = (if user_run_cap s \<noteq> 0 then user_run_cap s * 2 else 64)
           in do { (n, h) \<leftarrow> krealloc (user_runs s) (cap * RUN_SIZE) (up_heap s);
                   if n = NULL then Some (False, s\<lparr>up_heap := h\<rparr>)
                   else Some (True, s\<lparr>up_heap := h, user_runs := n, user_run_cap := cap\<rparr>) }
      else Some (True, s))"

definition sys_mem_alloc :: "u64 \<Rightarrow> ptr \<Rightarrow> user_pages \<Rightarrow> (ptr \<times> user_pages) ret" where
  "sys_mem_alloc sz cur s =
     (if sz = 0 \<or> sz > SIZE_MAX - PAGE_SIZE then Some (NULL, s)
      else let cnt = user_page_count sz
           in do { (ok, s1) \<leftarrow> grow_table s;
                   if \<not> ok then Some (NULL, s1)
                   else do { (p, m) \<leftarrow> pmm_alloc_pages cnt (hp_pmm (up_heap s1));
                             let s2 = s1\<lparr>up_heap := (up_heap s1)\<lparr>hp_pmm := m\<rparr>\<rparr>
                             in if p \<noteq> NULL
                                then Some (p, s2\<lparr>run_table := run_table s2 @
                                     [\<lparr>ur_addr = p, ur_count = cnt, ur_owner = cur\<rparr>]\<rparr>)
                                else Some (p, s2) } })"

text \<open>Releasing the pages of entry \<open>i\<close> and removing it from the table.\<close>

definition drop_run :: "nat \<Rightarrow> user_pages \<Rightarrow> user_pages ret" where
  "drop_run i s =
     do { m \<leftarrow> pmm_free_pages (ur_addr (run_table s ! i)) (ur_count (run_table s ! i))
                (hp_pmm (up_heap s));
          Some (s\<lparr>up_heap := (up_heap s)\<lparr>hp_pmm := m\<rparr>, run_table := swap_remove i (run_table s)\<rparr>) }"

fun mem_free_scan :: "nat \<Rightarrow> nat \<Rightarrow> ptr \<Rightarrow> u64 \<Rightarrow> user_pages \<Rightarrow> (int \<times> user_pages) ret" where
  "mem_free_scan 0 i addr cnt s = Some (- 1, s)"
| "mem_free_scan (Suc k) i addr cnt s =
     (if ur_addr (run_table s ! i) \<noteq> addr then mem_free_scan k (Suc i) addr cnt s
      else if ur_count (run_table s ! i) \<noteq> cnt then Some (- 1, s)
      else do { s' \<leftarrow> drop_run i s; Some (0, s') })"

definition sys_mem_free :: "ptr \<Rightarrow> u64 \<Rightarrow> user_pages \<Rightarrow> (int \<times> user_pages) ret" where
  "sys_mem_free addr sz s =
     (if addr = NULL then Some (0, s)
      else mem_free_scan (length (run_table s)) 0 addr (user_page_count sz) s)"

text \<open>The loop of \<^verbatim>\<open>user_pages_release_task\<close>, \<open>k\<close> entries from the end: a removed entry is
  replaced by the last one, so the index only moves over entries that stay.\<close>

fun release_loop :: "nat \<Rightarrow> nat \<Rightarrow> ptr \<Rightarrow> user_pages \<Rightarrow> user_pages ret" where
  "release_loop 0 i t s = Some s"
| "release_loop (Suc k) i t s =
     (if ur_owner (run_table s ! i) = t
      then do { s' \<leftarrow> drop_run i s; release_loop k i t s' }
      else release_loop k (Suc i) t s)"

definition user_pages_release_task :: "ptr \<Rightarrow> user_pages \<Rightarrow> user_pages ret" where
  "user_pages_release_task t s = release_loop (length (run_table s)) 0 t s"

definition user_pages_count :: "ptr \<Rightarrow> user_pages \<Rightarrow> u64" where
  "user_pages_count t s =
     fold (\<lambda>r pages. if ur_owner r = t then pages + ur_count r else pages) (run_table s) 0"

subsection \<open>The invariant\<close>

definition runs_map :: "user_run list \<Rightarrow> (ptr \<rightharpoonup> u64)" where
  "runs_map rs = map_of (map (\<lambda>r. (ur_addr r, ur_count r)) rs)"

text \<open>\<open>up_inv G B s\<close>: the table's runs, the runs \<open>G\<close> of other clients and the heap blocks \<open>B\<close>
  are owned and disjoint, and the table is a live heap block.\<close>

definition up_inv :: "(ptr \<rightharpoonup> u64) \<Rightarrow> (ptr \<rightharpoonup> u64) \<Rightarrow> user_pages \<Rightarrow> bool" where
  "up_inv G B s \<longleftrightarrow> heap_inv (G ++ runs_map (run_table s)) B (up_heap s) \<and>
     dom G \<inter> ur_addr ` set (run_table s) = {} \<and> distinct (map ur_addr (run_table s)) \<and>
     length (run_table s) \<le> unat (user_run_cap s) \<and>
     (if user_runs s = NULL then user_run_cap s = 0
      else user_run_cap s \<noteq> 0 \<and> unat (user_run_cap s) * 24 < 2 ^ 63 \<and>
        B (user_runs s) = Some (user_run_cap s * RUN_SIZE))"

lemma dom_runs_map [simp]: "dom (runs_map rs) = ur_addr ` set rs"
  by (simp add: runs_map_def dom_map_of_conv_image_fst image_image)

lemma runs_map_None: "runs_map rs a = None \<longleftrightarrow> a \<notin> ur_addr ` set rs"
  using dom_runs_map [of rs] by (metis domIff)

lemma runs_map_at:
  "distinct (map ur_addr rs) \<Longrightarrow> r \<in> set rs \<Longrightarrow> runs_map rs (ur_addr r) = Some (ur_count r)"
  by (induction rs) (auto simp: runs_map_def image_iff)

lemma runs_map_remove:
  assumes "distinct (map ur_addr rs)" and "i < length rs"
  shows "runs_map (swap_remove i rs) = (runs_map rs)(ur_addr (rs ! i) := None)"
    and "distinct (map ur_addr (swap_remove i rs))"
    and "ur_addr ` set (swap_remove i rs) = ur_addr ` set rs - {ur_addr (rs ! i)}"
proof -
  let ?r = "rs ! i"
  have m: "mset (swap_remove i rs) = mset rs - {#?r#}" by (rule mset_swap_remove [OF assms(2)])
  have "mset (map ur_addr rs) = add_mset (ur_addr ?r) (mset (map ur_addr (swap_remove i rs)))"
    using m assms(2) by (simp flip: image_mset_add_mset)
  then have p: "mset (map ur_addr rs) = mset (ur_addr ?r # map ur_addr (swap_remove i rs))" by simp
  have d: "distinct (ur_addr ?r # map ur_addr (swap_remove i rs))"
    using assms(1) mset_eq_imp_distinct_iff [OF p] by simp
  then show d': "distinct (map ur_addr (swap_remove i rs))" by simp
  have s: "ur_addr ` set rs = insert (ur_addr ?r) (ur_addr ` set (swap_remove i rs))"
    using mset_eq_setD [OF p] by simp
  with d show im: "ur_addr ` set (swap_remove i rs) = ur_addr ` set rs - {ur_addr ?r}" by auto
  have sub: "set (swap_remove i rs) \<subseteq> set rs"
  proof -
    have "set_mset (mset (swap_remove i rs)) \<subseteq> set_mset (mset rs)"
      unfolding m by (auto dest: in_diffD)
    then show ?thesis by simp
  qed
  show "runs_map (swap_remove i rs) = (runs_map rs)(ur_addr ?r := None)"
  proof
    fix a show "runs_map (swap_remove i rs) a = ((runs_map rs)(ur_addr ?r := None)) a"
    proof (cases "a \<in> ur_addr ` set (swap_remove i rs)")
      case True
      then obtain r where "r \<in> set (swap_remove i rs)" "a = ur_addr r" by auto
      with sub d' assms(1) im show ?thesis by (auto simp: runs_map_at subset_iff)
    next
      case False
      then have "runs_map (swap_remove i rs) a = None" by (simp add: runs_map_None)
      moreover have "a = ur_addr ?r \<or> runs_map rs a = None"
        using False im by (auto simp: runs_map_None)
      ultimately show ?thesis by auto
    qed
  qed
qed

text \<open>The free pages, and the pages of a run.\<close>

definition up_free :: "user_pages \<Rightarrow> nat set" where
  "up_free s = free_set (hp_pmm (up_heap s))"

definition run_pages :: "user_pages \<Rightarrow> user_run \<Rightarrow> nat set" where
  "run_pages s r = {page_of (hp_pmm (up_heap s)) (ur_addr r)..<
                    page_of (hp_pmm (up_heap s)) (ur_addr r) + unat (ur_count r)}"

lemma drop_run_inv:
  assumes "up_inv G B s" and "i < length (run_table s)"
  shows "\<exists>s'. drop_run i s = Some s' \<and> up_inv G B s' \<and> run_table s' = swap_remove i (run_table s) \<and>
    up_free s' = up_free s \<union> run_pages s (run_table s ! i) \<and> run_pages s' = run_pages s"
proof -
  let ?rs = "run_table s" and ?r = "run_table s ! i"
  have inv: "heap_inv (G ++ runs_map ?rs) B (up_heap s)" and d: "distinct (map ur_addr ?rs)"
    and dj: "dom G \<inter> ur_addr ` set ?rs = {}"
    using assms(1) by (auto simp: up_inv_def)
  have at: "runs_map ?rs (ur_addr ?r) = Some (ur_count ?r)"
    using runs_map_at [OF d] assms(2) by simp
  then have "(G ++ runs_map ?rs) (ur_addr ?r) = Some (ur_count ?r)" by simp
  from heap_page_free [OF inv this] obtain m where
    m: "pmm_free_pages (ur_addr ?r) (ur_count ?r) (hp_pmm (up_heap s)) = Some m"
      "heap_inv ((G ++ runs_map ?rs)(ur_addr ?r := None)) B ((up_heap s)\<lparr>hp_pmm := m\<rparr>)"
      "free_set m = up_free s \<union> run_pages s ?r" "page_of m = page_of (hp_pmm (up_heap s))"
    by (auto simp: up_free_def run_pages_def)
  have "G (ur_addr ?r) = None" using dj assms(2) by (auto simp: disjoint_iff)
  then have "(G ++ runs_map ?rs)(ur_addr ?r := None) = G ++ runs_map (swap_remove i ?rs)"
    using runs_map_remove(1) [OF d assms(2)] by (auto simp: map_add_def fun_eq_iff)
  with m runs_map_remove(2,3) [OF d assms(2)] assms show ?thesis
    by (auto simp: drop_run_def up_inv_def up_free_def run_pages_def fun_eq_iff)
qed

lemma mem_free_scan_eq:
  assumes "up_inv G B s" and "i + k = length (run_table s)"
    and "\<And>j. j < i \<Longrightarrow> ur_addr (run_table s ! j) \<noteq> addr"
  shows "\<exists>r s'. mem_free_scan k i addr n s = Some (r, s') \<and> up_inv G B s' \<and>
    (if \<exists>u \<in> set (run_table s). ur_addr u = addr \<and> ur_count u = n
     then r = 0 \<and> (\<exists>u. ur_addr u = addr \<and> ur_count u = n \<and> u \<in> set (run_table s) \<and>
            mset (run_table s') = mset (run_table s) - {#u#} \<and>
            up_free s' = up_free s \<union> run_pages s u)
     else r = - 1 \<and> s' = s)"
  using assms(2,3)
proof (induction k arbitrary: i)
  case 0
  then have "ur_addr u \<noteq> addr" if "u \<in> set (run_table s)" for u
    using that by (auto simp: in_set_conv_nth)
  with assms(1) show ?case by auto
next
  case (Suc k)
  let ?u = "run_table s ! i"
  have i: "i < length (run_table s)" using Suc.prems(1) by simp
  show ?case
  proof (cases "ur_addr ?u = addr")
    case False
    then have "ur_addr (run_table s ! j) \<noteq> addr" if "j < Suc i" for j
      using Suc.prems(2) that by (cases "j = i") auto
    with Suc.IH [of "Suc i"] Suc.prems(1) False show ?thesis by simp
  next
    case True
    have d: "distinct (map ur_addr (run_table s))" using assms(1) by (simp add: up_inv_def)
    have uniq: "u = ?u" if "u \<in> set (run_table s)" "ur_addr u = addr" for u
      using that True d i by (metis (no_types, lifting) distinct_map inj_on_def nth_mem)
    show ?thesis
    proof (cases "ur_count ?u = n")
      case n: True
      from drop_run_inv [OF assms(1) i] obtain s' where s': "drop_run i s = Some s'" "up_inv G B s'"
        "run_table s' = swap_remove i (run_table s)" "up_free s' = up_free s \<union> run_pages s ?u" by blast
      moreover have "mset (run_table s') = mset (run_table s) - {#?u#}"
        using s'(3) mset_swap_remove [OF i] by simp
      moreover have "?u \<in> set (run_table s)" using i by simp
      ultimately show ?thesis using True n by auto
    next
      case False
      then have "\<not> (\<exists>u \<in> set (run_table s). ur_addr u = addr \<and> ur_count u = n)" using uniq by blast
      with True False assms(1) show ?thesis by simp
    qed
  qed
qed

lemma release_loop_eq:
  assumes "up_inv G B s" and "i + k = length (run_table s)"
    and "\<And>j. j < i \<Longrightarrow> ur_owner (run_table s ! j) \<noteq> t"
  shows "\<exists>s'. release_loop k i t s = Some s' \<and> up_inv G B s' \<and>
    mset (run_table s') = filter_mset (\<lambda>r. ur_owner r \<noteq> t) (mset (run_table s)) \<and>
    up_free s' = up_free s \<union> (\<Union>r \<in> {r \<in> set (run_table s). ur_owner r = t}. run_pages s r)"
  using assms
proof (induction k arbitrary: i s)
  case 0
  have "ur_owner r \<noteq> t" if "r \<in> set (run_table s)" for r
  proof -
    from that obtain j where "j < length (run_table s)" "r = run_table s ! j"
      by (auto simp: in_set_conv_nth)
    with "0.prems"(2) "0.prems"(3) [of j] show ?thesis by simp
  qed
  then have "filter (\<lambda>r. ur_owner r \<noteq> t) (run_table s) = run_table s" by simp
  moreover from this have "{r \<in> set (run_table s). ur_owner r = t} = {}"
    by (auto simp: filter_id_conv)
  ultimately show ?case using "0.prems"(1) by (auto simp flip: mset_filter)
next
  case (Suc k)
  let ?u = "run_table s ! i"
  have i: "i < length (run_table s)" using Suc.prems(2) by simp
  show ?case
  proof (cases "ur_owner ?u = t")
    case True
    from drop_run_inv [OF Suc.prems(1) i] obtain s1 where s1: "drop_run i s = Some s1"
      "up_inv G B s1" "run_table s1 = swap_remove i (run_table s)"
      "up_free s1 = up_free s \<union> run_pages s ?u" "run_pages s1 = run_pages s" by blast
    have "i + k = length (run_table s1)" using s1(3) Suc.prems(2) by simp
    moreover have "ur_owner (run_table s1 ! j) \<noteq> t" if "j < i" for j
      using that s1(3) Suc.prems(3) i by (simp add: nth_swap_remove_less)
    ultimately obtain s' where s': "release_loop k i t s1 = Some s'" "up_inv G B s'"
      "mset (run_table s') = filter_mset (\<lambda>r. ur_owner r \<noteq> t) (mset (run_table s1))"
      "up_free s' = up_free s1 \<union> (\<Union>r \<in> {r \<in> set (run_table s1). ur_owner r = t}. run_pages s1 r)"
      using Suc.IH [OF s1(2)] by blast
    have "filter_mset (\<lambda>r. ur_owner r \<noteq> t) (mset (run_table s1)) =
        filter_mset (\<lambda>r. ur_owner r \<noteq> t) (mset (run_table s))"
      using s1(3) mset_swap_remove [OF i] True by simp
    moreover have "up_free s' = up_free s \<union> (\<Union>r \<in> {r \<in> set (run_table s). ur_owner r = t}. run_pages s r)"
    proof -
      have "mset (run_table s) = add_mset ?u (mset (run_table s1))"
        using s1(3) mset_swap_remove [OF i] i by simp
      then have "set (run_table s) = insert ?u (set (run_table s1))"
        by (metis set_mset_add_mset_insert set_mset_mset)
      then have "{r \<in> set (run_table s). ur_owner r = t} =
          insert ?u {r \<in> set (run_table s1). ur_owner r = t}" using True by auto
      with s'(4) s1(4,5) show ?thesis by auto
    qed
    ultimately show ?thesis using True s1(1) s' by simp
  next
    case False
    then have "ur_owner (run_table s ! j) \<noteq> t" if "j < Suc i" for j
      using Suc.prems(3) that by (cases "j = i") auto
    with Suc.IH [OF Suc.prems(1), of "Suc i"] Suc.prems(2) False show ?thesis by simp
  qed
qed

subsection \<open>Growing the table\<close>

lemma cap_bytes:
  assumes "unat cap * 24 < 2 ^ 64"
  shows "unat (cap * RUN_SIZE) = unat cap * 24"
  using assms by (simp add: unat_word_ariths RUN_SIZE_def)

text \<open>\<open>moved s s' B B'\<close>: only the table's own heap block differs between \<open>B\<close> and \<open>B'\<close>.\<close>

definition moved :: "user_pages \<Rightarrow> user_pages \<Rightarrow> (ptr \<rightharpoonup> u64) \<Rightarrow> (ptr \<rightharpoonup> u64) \<Rightarrow> bool" where
  "moved s s' B B' \<longleftrightarrow> (\<forall>p. p \<noteq> user_runs s \<longrightarrow> p \<noteq> user_runs s' \<longrightarrow> B' p = B p)"

lemma moved_refl [simp]: "moved s s B B"
  by (simp add: moved_def)

lemma krealloc_table:
  assumes "up_inv G B s" and "c \<noteq> 0"
  shows "\<exists>n h B'. krealloc (user_runs s) c (up_heap s) = Some (n, h) \<and>
    (if n = NULL then h = up_heap s
     else heap_inv (G ++ runs_map (run_table s)) B' h \<and> B' n = Some c \<and>
       (\<forall>p. p \<noteq> user_runs s \<longrightarrow> p \<noteq> n \<longrightarrow> B' p = B p))"
proof -
  let ?F = "G ++ runs_map (run_table s)"
  have inv: "heap_inv ?F B (up_heap s)" using assms(1) by (simp add: up_inv_def)
  show ?thesis
  proof (cases "user_runs s = NULL")
    case True
    show ?thesis
      using inv
    proof (cases rule: kmalloc_cases [where n = c])
      case null
      with True show ?thesis by (simp add: krealloc_def)
    next
      case (block p h')
      with True show ?thesis
        by (intro exI [of _ p] exI [of _ h'] exI [of _ "B(p \<mapsto> c)"]) (simp add: krealloc_def)
    qed
  next
    case False
    then have "B (user_runs s) = Some (user_run_cap s * RUN_SIZE)"
      using assms(1) by (simp add: up_inv_def)
    from krealloc_block [OF inv this assms(2)] obtain q h' where
      "krealloc (user_runs s) c (up_heap s) = Some (q, h')"
      "if q = NULL then h' = up_heap s
       else B q = None \<and> heap_inv ?F ((B(user_runs s := None))(q \<mapsto> c)) h'" by (auto split: if_splits)
    then show ?thesis
      by (intro exI [of _ q] exI [of _ h'] exI [of _ "(B(user_runs s := None))(q \<mapsto> c)"]) auto
  qed
qed

lemma grow_table_inv:
  assumes "up_inv G B s"
  shows "\<exists>ok s' B'. grow_table s = Some (ok, s') \<and> up_inv G B' s' \<and> moved s s' B B' \<and>
    run_table s' = run_table s \<and> (ok \<longrightarrow> length (run_table s') < unat (user_run_cap s')) \<and>
    (\<not> ok \<longrightarrow> s' = s \<and> B' = B)"
proof (cases "length (run_table s) = unat (user_run_cap s)")
  case False
  have le: "length (run_table s) \<le> unat (user_run_cap s)" using assms by (simp add: up_inv_def)
  then have "length (run_table s) < 2 ^ 64" using unat_lt_64 [of "user_run_cap s"] by linarith
  then have "of_nat (length (run_table s)) \<noteq> user_run_cap s"
    using False unat_of_nat_small [of "length (run_table s)", where 'a = 64] by auto
  then have "grow_table s = Some (True, s)" by (simp add: grow_table_def)
  with le False assms show ?thesis
    by (intro exI [of _ True] exI [of _ s] exI [of _ B]) simp
next
  case full: True
  define cap where "cap = (if user_run_cap s \<noteq> 0 then user_run_cap s * 2 else 64)"
  have capn: "unat cap = (if user_run_cap s \<noteq> 0 then unat (user_run_cap s) * 2 else 64)
      \<and> unat cap * 24 < 2 ^ 64"
  proof (cases "user_run_cap s = 0")
    case False
    then have "unat (user_run_cap s) * 24 < 2 ^ 63" using assms by (auto simp: up_inv_def split: if_splits)
    with False show ?thesis by (simp add: cap_def unat_word_ariths)
  qed (simp add: cap_def)
  have gt: "length (run_table s) < unat cap"
    using capn full by (auto simp: unat_gt_0 split: if_splits)
  let ?c = "cap * RUN_SIZE"
  have cb: "unat ?c = unat cap * 24" using capn by (simp add: cap_bytes)
  with gt have c0: "?c \<noteq> 0" by (metis gr_implies_not0 mult_eq_0_iff unat_0 zero_neq_numeral)
  from krealloc_table [OF assms c0] obtain n h B' where
    r: "krealloc (user_runs s) ?c (up_heap s) = Some (n, h)"
    and d: "if n = NULL then h = up_heap s
       else heap_inv (G ++ runs_map (run_table s)) B' h \<and> B' n = Some ?c \<and>
         (\<forall>p. p \<noteq> user_runs s \<longrightarrow> p \<noteq> n \<longrightarrow> B' p = B p)" by blast
  have e: "of_nat (length (run_table s)) = user_run_cap s" using full by simp
  have g: "grow_table s = (if n = NULL then Some (False, s\<lparr>up_heap := h\<rparr>)
      else Some (True, s\<lparr>up_heap := h, user_runs := n, user_run_cap := cap\<rparr>))"
    using r by (simp add: grow_table_def e cap_def [symmetric])
  show ?thesis
  proof (cases "n = NULL")
    case True
    with g d assms show ?thesis
      by (intro exI [of _ False] exI [of _ s] exI [of _ B]) simp
  next
    case False
    let ?s = "s\<lparr>up_heap := h, user_runs := n, user_run_cap := cap\<rparr>"
    have hi: "heap_inv (G ++ runs_map (run_table s)) B' h" "B' n = Some ?c" using d False by auto
    from heap_block_bound [OF this] cb have b: "unat cap * 24 < 2 ^ 63" by simp
    have "up_inv G B' ?s"
      using assms hi b False gt by (auto simp: up_inv_def unat_gt_0)
    moreover have "moved s ?s B B'" using d False by (simp add: moved_def)
    ultimately show ?thesis using g False gt
      by (intro exI [of _ True] exI [of _ ?s] exI [of _ B']) simp
  qed
qed

lemma runs_map_append:
  "ur_addr r \<notin> ur_addr ` set rs \<Longrightarrow>
   runs_map (rs @ [r]) = (runs_map rs)(ur_addr r \<mapsto> ur_count r)"
  by (induction rs) (auto simp: runs_map_def fun_eq_iff)

lemma sys_mem_alloc_inv:
  assumes "up_inv G B s"
  shows "\<exists>p s' B'. sys_mem_alloc sz cur s = Some (p, s') \<and> up_inv G B' s' \<and> moved s s' B B' \<and>
    (if p = NULL then run_table s' = run_table s
     else p \<notin> dom G \<and> p \<notin> ur_addr ` set (run_table s) \<and>
       run_table s' = run_table s @ [\<lparr>ur_addr = p, ur_count = user_page_count sz, ur_owner = cur\<rparr>])"
proof (cases "sz = 0 \<or> sz > SIZE_MAX - PAGE_SIZE")
  case True
  with assms show ?thesis
    by (intro exI [of _ NULL] exI [of _ s] exI [of _ B]) (simp add: sys_mem_alloc_def)
next
  case False
  from grow_table_inv [OF assms] obtain ok s1 B1 where
    g: "grow_table s = Some (ok, s1)" "up_inv G B1 s1" "moved s s1 B B1" "run_table s1 = run_table s"
      "ok \<longrightarrow> length (run_table s1) < unat (user_run_cap s1)" by blast
  let ?n = "user_page_count sz"
  show ?thesis
  proof (cases ok)
    case False
    with g \<open>\<not> (sz = 0 \<or> _)\<close> show ?thesis
      by (intro exI [of _ NULL] exI [of _ s1] exI [of _ B1]) (simp add: sys_mem_alloc_def)
  next
    case True
    have hi: "heap_inv (G ++ runs_map (run_table s1)) B1 (up_heap s1)"
      using g(2) by (simp add: up_inv_def)
    then have "pmm_inv (hp_pmm (up_heap s1))" by (simp add: heap_inv_def)
    from pa.alloc_returns [OF this] obtain p m where
      pm: "pmm_alloc_pages ?n (hp_pmm (up_heap s1)) = Some (p, m)" by blast
    let ?r = "\<lparr>ur_addr = p, ur_count = ?n, ur_owner = cur\<rparr>"
    let ?s2 = "s1\<lparr>up_heap := (up_heap s1)\<lparr>hp_pmm := m\<rparr>\<rparr>"
    show ?thesis
    proof (cases "p = NULL")
      case p: True
      with pm pa.alloc_null [OF \<open>pmm_inv (hp_pmm (up_heap s1))\<close>] have "m = hp_pmm (up_heap s1)" by blast
      with p True pm g \<open>\<not> (sz = 0 \<or> _)\<close> show ?thesis
        by (intro exI [of _ NULL] exI [of _ s1] exI [of _ B1]) (simp add: sys_mem_alloc_def Let_def)
    next
      case p: False
      from heap_page_alloc [OF hi pm p] have
        f: "(G ++ runs_map (run_table s1)) p = None"
          "heap_inv ((G ++ runs_map (run_table s1))(p \<mapsto> ?n)) B1 ((up_heap s1)\<lparr>hp_pmm := m\<rparr>)" by auto
      then have fr: "p \<notin> dom G" "p \<notin> ur_addr ` set (run_table s1)"
        by (auto simp: map_add_None runs_map_None)
      let ?s3 = "?s2\<lparr>run_table := run_table s1 @ [?r]\<rparr>"
      have "up_inv G B1 ?s3"
        using g(2,5) f(2) fr True by (auto simp: up_inv_def runs_map_append)
      moreover have "moved s ?s3 B B1" using g(3) by (simp add: moved_def)
      ultimately show ?thesis using True p pm g(1,4) fr \<open>\<not> (sz = 0 \<or> _)\<close>
        by (intro exI [of _ p] exI [of _ ?s3] exI [of _ B1]) (simp add: sys_mem_alloc_def Let_def)
    qed
  qed
qed

subsection \<open>Other clients of the memory\<close>

text \<open>The rest of the kernel allocates from the same heap and page allocator.\<close>

lemma up_inv_kmalloc:
  assumes "up_inv G B s"
  obtains (null) "kmalloc n (up_heap s) = Some (NULL, up_heap s)"
    | (block) p h where "kmalloc n (up_heap s) = Some (p, h)" "p \<noteq> NULL" "B p = None" "p \<noteq> user_runs s"
        "up_inv G (B(p \<mapsto> n)) (s\<lparr>up_heap := h\<rparr>)" "hmem h = hmem (up_heap s)"
proof -
  have inv: "heap_inv (G ++ runs_map (run_table s)) B (up_heap s)" using assms by (simp add: up_inv_def)
  show thesis
    using inv
  proof (cases rule: kmalloc_cases [where n = n])
    case null
    with that(1) show thesis by simp
  next
    case (block p h)
    have "p \<noteq> user_runs s"
    proof (cases "user_runs s = NULL")
      case False
      then have "B (user_runs s) \<noteq> None" using assms by (simp add: up_inv_def)
      with block(3) show ?thesis by auto
    qed (use block(2) in simp)
    moreover from this have "up_inv G (B(p \<mapsto> n)) (s\<lparr>up_heap := h\<rparr>)"
      using assms block(4) by (auto simp: up_inv_def)
    ultimately show thesis using block that(2) by simp
  qed
qed

lemma up_inv_kfree:
  assumes "up_inv G B s" and "B p = Some n" and "p \<noteq> user_runs s"
  shows "\<exists>h. kfree p (up_heap s) = Some h \<and> up_inv G (B(p := None)) (s\<lparr>up_heap := h\<rparr>) \<and> hmem h = hmem (up_heap s)"
proof -
  have "heap_inv (G ++ runs_map (run_table s)) B (up_heap s)" using assms by (simp add: up_inv_def)
  from kfree_inv [OF this assms(2)] obtain h where h: "kfree p (up_heap s) = Some h"
    "heap_inv (G ++ runs_map (run_table s)) (B(p := None)) h" "hmem h = hmem (up_heap s)" by blast
  with assms show ?thesis by (intro exI [of _ h]) (auto simp: up_inv_def)
qed

lemma up_inv_pages:
  assumes "up_inv G B s"
  shows "\<exists>p m. pmm_alloc_pages n (hp_pmm (up_heap s)) = Some (p, m) \<and>
    (if p = NULL then m = hp_pmm (up_heap s)
     else G p = None \<and> up_inv (G(p \<mapsto> n)) B (s\<lparr>up_heap := (up_heap s)\<lparr>hp_pmm := m\<rparr>\<rparr>))"
proof -
  let ?F = "G ++ runs_map (run_table s)"
  have inv: "heap_inv ?F B (up_heap s)" using assms by (simp add: up_inv_def)
  then have pi: "pmm_inv (hp_pmm (up_heap s))" by (simp add: heap_inv_def)
  from pa.alloc_returns [OF this] obtain p m where
    a: "pmm_alloc_pages n (hp_pmm (up_heap s)) = Some (p, m)" by blast
  show ?thesis
  proof (cases "p = NULL")
    case True
    with a pa.alloc_null [OF pi] show ?thesis by auto
  next
    case False
    from heap_page_alloc [OF inv a False] have f: "?F p = None"
      "heap_inv (?F(p \<mapsto> n)) B ((up_heap s)\<lparr>hp_pmm := m\<rparr>)" by auto
    then have "G p = None" "runs_map (run_table s) p = None" by (auto simp: map_add_None)
    moreover from this have "?F(p \<mapsto> n) = G(p \<mapsto> n) ++ runs_map (run_table s)"
      by (auto simp: map_add_def fun_eq_iff split: option.splits)
    moreover have "dom (G(p \<mapsto> n)) \<inter> ur_addr ` set (run_table s) = {}"
      using assms \<open>runs_map (run_table s) p = None\<close> by (auto simp: up_inv_def runs_map_None)
    ultimately show ?thesis using a f(2) assms False by (auto simp: up_inv_def)
  qed
qed

lemma up_inv_free_pages:
  assumes "up_inv G B s" and "G p = Some n"
  shows "\<exists>m. pmm_free_pages p n (hp_pmm (up_heap s)) = Some m \<and>
    up_inv (G(p := None)) B (s\<lparr>up_heap := (up_heap s)\<lparr>hp_pmm := m\<rparr>\<rparr>)"
proof -
  let ?F = "G ++ runs_map (run_table s)"
  have inv: "heap_inv ?F B (up_heap s)" using assms by (simp add: up_inv_def)
  have n: "runs_map (run_table s) p = None" using assms by (auto simp: up_inv_def runs_map_None)
  then have "?F p = Some n" using assms(2) by (simp add: map_add_def)
  from heap_page_free [OF inv this] obtain m where m: "pmm_free_pages p n (hp_pmm (up_heap s)) = Some m"
    "heap_inv (?F(p := None)) B ((up_heap s)\<lparr>hp_pmm := m\<rparr>)" by blast
  moreover have "?F(p := None) = G(p := None) ++ runs_map (run_table s)"
    using n by (auto simp: map_add_def fun_eq_iff split: option.splits)
  ultimately show ?thesis using assms by (intro exI [of _ m]) (auto simp: up_inv_def)
qed

lemma up_inv_hmem: "up_inv G B (s\<lparr>up_heap := (up_heap s)\<lparr>hmem := m\<rparr>\<rparr>) = up_inv G B s"
  by (simp add: up_inv_def)

subsection \<open>Properties\<close>

definition up_example :: user_pages where
  "up_example = \<lparr>up_heap = heap_example, user_runs = NULL, run_table = [], user_run_cap = 0\<rparr>"

lemma up_example_inv: "up_inv Map.empty Map.empty up_example"
  using heap_example_inv by (simp add: up_inv_def up_example_def runs_map_def)

text \<open>
  \<^verbatim>\<open>sys_mem_alloc\<close> always returns. It returns NULL and leaves the table as it was, or
  it returns pages that no other client and no entry of the table has, and appends exactly one
  entry with the rounded-up page count and the calling task. In both cases the table remains a
  live heap block with room for its entries, all runs remain disjoint, and no heap block but the
  table's own is touched, also when the table had to be moved.
\<close>

theorem sys_mem_alloc_tracks:
  assumes "up_inv G B s"
  shows "\<exists>p s' B'. sys_mem_alloc sz cur s = Some (p, s') \<and> up_inv G B' s' \<and>
    (\<forall>q. q \<noteq> user_runs s \<and> q \<noteq> user_runs s' \<longrightarrow> B' q = B q) \<and>
    (if p = NULL then run_table s' = run_table s
     else p \<notin> dom G \<and> p \<notin> ur_addr ` set (run_table s) \<and>
       run_table s' = run_table s @ [\<lparr>ur_addr = p, ur_count = user_page_count sz, ur_owner = cur\<rparr>])"
  using sys_mem_alloc_inv [OF assms, of sz cur] unfolding moved_def by blast

theorem sys_mem_alloc_tracks_witness:
  "up_inv Map.empty Map.empty up_example \<and>
   (\<exists>p s' B'. sys_mem_alloc 5000 9 up_example = Some (p, s') \<and> p \<noteq> NULL \<and> up_inv Map.empty B' s' \<and>
      run_table s' = [\<lparr>ur_addr = p, ur_count = 2, ur_owner = 9\<rparr>])"
proof -
  have "map_option fst (sys_mem_alloc 5000 9 up_example) = Some 0xFFFF800000005000" by code_simp
  moreover have "user_page_count 5000 = 2" by code_simp
  ultimately show ?thesis
    using sys_mem_alloc_tracks [OF up_example_inv, of 5000 9] up_example_inv
    by (auto simp: up_example_def)
qed

text \<open>
  \<^verbatim>\<open>sys_mem_free\<close> of a non-null address always returns. When the table has an entry
  with that address and the page count of the given size, exactly that entry is removed, its pages
  go back to the allocator and the result is 0; in every other case (unknown address, wrong size)
  the result is -1 and nothing changes at all.
\<close>

theorem sys_mem_free_exact:
  assumes "up_inv G B s" and "addr \<noteq> NULL"
  shows "\<exists>r s'. sys_mem_free addr sz s = Some (r, s') \<and> up_inv G B s' \<and>
    (if \<exists>u \<in> set (run_table s). ur_addr u = addr \<and> ur_count u = user_page_count sz
     then r = 0 \<and> (\<exists>u. ur_addr u = addr \<and> ur_count u = user_page_count sz \<and>
            u \<in> set (run_table s) \<and> mset (run_table s') = mset (run_table s) - {#u#} \<and>
            up_free s' = up_free s \<union> run_pages s u)
     else r = - 1 \<and> s' = s)"
  using mem_free_scan_eq [OF assms(1), of 0 "length (run_table s)" addr "user_page_count sz"] assms(2)
  by (simp add: sys_mem_free_def)

theorem sys_mem_free_exact_witness:
  "\<exists>B s. up_inv Map.empty B s \<and> (0xFFFF800000005000 :: ptr) \<noteq> NULL \<and>
     (\<exists>s'. sys_mem_free 0xFFFF800000005000 5000 s = Some (0, s') \<and> run_table s' = [])"
proof -
  have "map_option fst (sys_mem_alloc 5000 9 up_example) = Some 0xFFFF800000005000" by code_simp
  then obtain s B where s: "up_inv Map.empty B s"
    "run_table s = [\<lparr>ur_addr = 0xFFFF800000005000, ur_count = user_page_count 5000, ur_owner = 9\<rparr>]"
    using sys_mem_alloc_inv [OF up_example_inv, of 5000 9] by (auto simp: up_example_def)
  from sys_mem_free_exact [OF s(1), of "0xFFFF800000005000" 5000] s show ?thesis by fastforce
qed

text \<open>
  Property C3: \<^verbatim>\<open>user_pages_release_task\<close> always returns, and afterwards the table holds exactly
  the entries of the other tasks (with their multiplicities): every run of the task went back to
  the page allocator, none of another task did, although entries are swapped while the loop runs.
\<close>

theorem user_pages_release_task_exact:
  assumes "up_inv G B s"
  shows "\<exists>s'. user_pages_release_task t s = Some s' \<and> up_inv G B s' \<and>
    mset (run_table s') = filter_mset (\<lambda>r. ur_owner r \<noteq> t) (mset (run_table s)) \<and>
    up_free s' = up_free s \<union> (\<Union>r \<in> {r \<in> set (run_table s). ur_owner r = t}. run_pages s r)"
  using release_loop_eq [OF assms, of 0 "length (run_table s)" t]
  by (simp add: user_pages_release_task_def)

theorem user_pages_release_task_exact_witness:
  "\<exists>B s. up_inv Map.empty B s \<and> length (run_table s) = 1 \<and>
     (\<exists>s'. user_pages_release_task 9 s = Some s' \<and> run_table s' = [])"
proof -
  have "map_option fst (sys_mem_alloc 5000 9 up_example) = Some 0xFFFF800000005000" by code_simp
  then obtain s B where s: "up_inv Map.empty B s"
    "run_table s = [\<lparr>ur_addr = 0xFFFF800000005000, ur_count = user_page_count 5000, ur_owner = 9\<rparr>]"
    using sys_mem_alloc_inv [OF up_example_inv, of 5000 9] by (auto simp: up_example_def)
  from user_pages_release_task_exact [OF s(1), of 9] s show ?thesis by fastforce
qed

end
