(* ===== verification/Vmm.thy ===== *)
theory Vmm
  imports Pmm
begin

text \<open>
  The page tables of \<^verbatim>\<open>kernel/memory/vmm.c\<close>. The store \<open>tables\<close> holds the entries of the
  page tables by the table's address in the direct map and the index, \<open>cr3\<close> the register the
  code reads with \<^verbatim>\<open>read_cr3\<close>. \<open>None\<close> is the \<^verbatim>\<open>panic\<close> on an empty page allocator.
  The hardware's walk is \<open>vm_lookup\<close>: the entry of the last level, 0 when a level is absent.
\<close>

definition PTE_PRESENT :: u64 where "PTE_PRESENT = 1"
definition PTE_WRITABLE :: u64 where "PTE_WRITABLE = 2"
definition PTE_WRITETHRU :: u64 where "PTE_WRITETHRU = 8"
definition PTE_NOCACHE :: u64 where "PTE_NOCACHE = 16"
definition PTE_ADDR_MASK :: u64 where "PTE_ADDR_MASK = 0x000FFFFFFFFFF000"

record vmm =
  vm_pmm :: pmm
  tables :: "ptr \<Rightarrow> u64 \<Rightarrow> u64"
  cr3 :: u64

definition present :: "u64 \<Rightarrow> bool" where
  "present e \<longleftrightarrow> e AND PTE_PRESENT \<noteq> 0"

definition set_entry :: "ptr \<Rightarrow> u64 \<Rightarrow> u64 \<Rightarrow> vmm \<Rightarrow> vmm" where
  "set_entry t i e s = s\<lparr>tables := (tables s)(t := (tables s t)(i := e))\<rparr>"

definition table_get_or_alloc :: "ptr \<Rightarrow> u64 \<Rightarrow> vmm \<Rightarrow> (ptr \<times> vmm) ret" where
  "table_get_or_alloc t i s =
     do { s' \<leftarrow> (if \<not> present (tables s t i)
                 then do { (new_table, m) \<leftarrow> pmm_alloc_page (vm_pmm s);
                           if new_table = NULL then None
                           else let s1 = s\<lparr>vm_pmm := m, tables := (tables s)(new_table := (\<lambda>_. 0))\<rparr>;
                                    phys = virt_to_phys m new_table
                                in Some (set_entry t i ((phys AND PTE_ADDR_MASK) OR PTE_PRESENT OR PTE_WRITABLE) s1) }
                 else Some s);
          let next_phys = tables s' t i AND PTE_ADDR_MASK
          in Some (phys_to_virt (vm_pmm s') next_phys, s') }"

definition pml4_idx :: "u64 \<Rightarrow> u64" where "pml4_idx virt = drop_bit 39 virt AND 0x1FF"
definition pdpt_idx :: "u64 \<Rightarrow> u64" where "pdpt_idx virt = drop_bit 30 virt AND 0x1FF"
definition pd_idx :: "u64 \<Rightarrow> u64" where "pd_idx virt = drop_bit 21 virt AND 0x1FF"
definition pt_idx :: "u64 \<Rightarrow> u64" where "pt_idx virt = drop_bit 12 virt AND 0x1FF"

definition pml4 :: "vmm \<Rightarrow> ptr" where
  "pml4 s = phys_to_virt (vm_pmm s) (cr3 s AND PTE_ADDR_MASK)"

definition vmm_map_page :: "u64 \<Rightarrow> u64 \<Rightarrow> u64 \<Rightarrow> vmm \<Rightarrow> vmm ret" where
  "vmm_map_page virt phys flags s =
     do { (pdpt, s1) \<leftarrow> table_get_or_alloc (pml4 s) (pml4_idx virt) s;
          (pd, s2) \<leftarrow> table_get_or_alloc pdpt (pdpt_idx virt) s1;
          (pt, s3) \<leftarrow> table_get_or_alloc pd (pd_idx virt) s2;
          Some (set_entry pt (pt_idx virt) ((phys AND PTE_ADDR_MASK) OR flags OR PTE_PRESENT) s3) }"

definition ALIGN_UP :: "u64 \<Rightarrow> u64 \<Rightarrow> u64" where
  "ALIGN_UP x a = (x + a - 1) AND NOT (a - 1)"

definition ALIGN_DOWN :: "u64 \<Rightarrow> u64 \<Rightarrow> u64" where
  "ALIGN_DOWN x a = x AND NOT (a - 1)"

definition MMIO_FLAGS :: u64 where
  "MMIO_FLAGS = PTE_WRITABLE OR PTE_NOCACHE OR PTE_WRITETHRU"

partial_function (option) mmio_loop :: "u64 \<Rightarrow> u64 \<Rightarrow> u64 \<Rightarrow> u64 \<Rightarrow> vmm \<Rightarrow> vmm ret" where
  [code]: "mmio_loop off n virt_start phys_start s =
     (if off < n
      then do { s' \<leftarrow> vmm_map_page (virt_start + off) (phys_start + off) MMIO_FLAGS s;
                mmio_loop (off + PAGE_SIZE) n virt_start phys_start s' }
      else Some s)"

definition vmm_map_mmio :: "u64 \<Rightarrow> u64 \<Rightarrow> vmm \<Rightarrow> (ptr \<times> vmm) ret" where
  "vmm_map_mmio phys sz s =
     (let phys_start = ALIGN_DOWN phys PAGE_SIZE;
          phys_end = ALIGN_UP (phys + sz) PAGE_SIZE;
          virt_start = phys_to_virt (vm_pmm s) phys_start
      in do { s' \<leftarrow> mmio_loop 0 (phys_end - phys_start) virt_start phys_start s;
              Some (virt_start + (phys - phys_start), s') })"

subsection \<open>The walk of the hardware\<close>

definition next_table :: "vmm \<Rightarrow> ptr \<Rightarrow> u64 \<Rightarrow> ptr" where
  "next_table s t i = phys_to_virt (vm_pmm s) (tables s t i AND PTE_ADDR_MASK)"

fun walk :: "vmm \<Rightarrow> ptr \<Rightarrow> u64 list \<Rightarrow> ptr option" where
  "walk s t [] = Some t"
| "walk s t (i # ix) = (if present (tables s t i) then walk s (next_table s t i) ix else None)"

definition entry_at :: "vmm \<Rightarrow> ptr \<Rightarrow> u64 list \<Rightarrow> u64 \<Rightarrow> u64" where
  "entry_at s t ix j = (case walk s t ix of None \<Rightarrow> 0 | Some u \<Rightarrow> tables s u j)"

definition upper_idx :: "u64 \<Rightarrow> u64 list" where
  "upper_idx virt = [pml4_idx virt, pdpt_idx virt, pd_idx virt]"

definition vm_lookup :: "vmm \<Rightarrow> u64 \<Rightarrow> u64" where
  "vm_lookup s virt = entry_at s (pml4 s) (upper_idx virt) (pt_idx virt)"

text \<open>The bits of an address that choose its page.\<close>

definition page_bits :: "u64 \<Rightarrow> u64" where
  "page_bits virt = take_bit 36 (drop_bit 12 virt)"

text \<open>\<open>vm_inv L s\<close>: the tables form a tree. \<open>L\<close> gives each table the number of levels below it
  (3 for the root), a present entry leads to a table of the next level, no table has two
  parents, and every table is an aligned page the page allocator counts as used.\<close>

definition vm_inv :: "(ptr \<rightharpoonup> nat) \<Rightarrow> vmm \<Rightarrow> bool" where
  "vm_inv L s \<longleftrightarrow> pmm_inv (vm_pmm s) \<and> total_pages (vm_pmm s) \<le> 2 ^ 40 \<and> L (pml4 s) = Some 3 \<and>
     (\<forall>t k i. L t = Some (Suc k) \<longrightarrow> present (tables s t i) \<longrightarrow> L (next_table s t i) = Some k) \<and>
     (\<forall>t k i t' k' i'. L t = Some (Suc k) \<longrightarrow> L t' = Some (Suc k') \<longrightarrow>
        present (tables s t i) \<longrightarrow> present (tables s t' i') \<longrightarrow>
        next_table s t i = next_table s t' i' \<longrightarrow> t = t' \<and> i = i') \<and>
     (\<forall>t. L t \<noteq> None \<longrightarrow> page_of (vm_pmm s) t \<notin> free_set (vm_pmm s))"

lemma present_zero [simp]: "\<not> present 0"
  by (simp add: present_def)

lemma present_bit: "present e \<longleftrightarrow> bit e 0"
  by (simp add: present_def PTE_PRESENT_def and_one_eq bit_0 flip: odd_iff_mod_2_eq_one)

lemma present_or [simp]: "present (e OR PTE_PRESENT)" "present (e OR PTE_PRESENT OR PTE_WRITABLE)"
  by (simp_all add: present_bit bit_or_iff PTE_PRESENT_def)

lemma addr_mask: "PTE_ADDR_MASK = push_bit 12 (mask 40)"
  by (simp add: PTE_ADDR_MASK_def mask_eq_exp_minus_1 push_bit_eq_mult)

lemma bit_addr_mask: "bit PTE_ADDR_MASK n \<longleftrightarrow> 12 \<le> n \<and> n < 52"
  by (auto simp: addr_mask bit_simps)

lemma mask_page:
  assumes "r < 2 ^ 40"
  shows "(of_nat r * PAGE_SIZE) AND PTE_ADDR_MASK = (of_nat r * PAGE_SIZE :: u64)"
    and "((of_nat r * PAGE_SIZE) AND PTE_ADDR_MASK OR PTE_PRESENT OR PTE_WRITABLE) AND PTE_ADDR_MASK =
      (of_nat r * PAGE_SIZE :: u64)"
proof -
  let ?p = "of_nat r * PAGE_SIZE :: u64"
  have p: "?p = push_bit 12 (of_nat r)" by (simp add: PAGE_SIZE_def push_bit_eq_mult mult.commute)
  have "take_bit 40 (of_nat r :: u64) = of_nat r"
    using assms by (simp add: unsigned_take_bit_eq take_bit_nat_eq_self flip: of_nat_take_bit)
  then have b: "bit (of_nat r :: u64) n \<Longrightarrow> n < 40" for n
    by (metis bit_take_bit_iff)
  show m: "?p AND PTE_ADDR_MASK = ?p"
  proof (rule bit_word_eqI)
    fix n show "bit (?p AND PTE_ADDR_MASK) n \<longleftrightarrow> bit ?p n"
      using b [of "n - 12"] by (auto simp: p bit_simps bit_addr_mask)
  qed
  have "(PTE_PRESENT OR PTE_WRITABLE) AND PTE_ADDR_MASK = 0"
    by (simp add: PTE_PRESENT_def PTE_WRITABLE_def PTE_ADDR_MASK_def)
  then show "(?p AND PTE_ADDR_MASK OR PTE_PRESENT OR PTE_WRITABLE) AND PTE_ADDR_MASK = ?p"
    by (simp add: m bit.conj_disj_distrib2)
qed

subsection \<open>One level of the walk\<close>

lemma pmm_alloc_page_cases:
  assumes "pmm_inv m"
  obtains (page) r m' where "r \<in> free_set m" "pmm_alloc_page m = Some (phys_to_virt m (of_nat r * PAGE_SIZE), m')"
      "pmm_inv m'" "free_set m' = free_set m - {r}" "total_pages m' = total_pages m"
      "hhdm_offset m' = hhdm_offset m"
    | (none) "free_set m = {}" "pmm_alloc_page m = Some (NULL, m)"
  using assms
proof (cases rule: pmm_alloc_pages_cases [where count = 1])
  case (run r s')
  then have "r \<in> free_set m" by (simp add: run_free_def)
  with run page show thesis by (simp add: pmm_alloc_page_one)
next
  case none
  have "free_set m = {}"
  proof (rule equals0I)
    fix r assume "r \<in> free_set m"
    then have "run_free m r (unat (1 :: u64))" by (simp add: run_free_def)
    with none(1) show False by blast
  qed
  with none that(2) show thesis by (simp add: pmm_alloc_page_one)
qed

lemma vm_inv_page:
  assumes "vm_inv L s"
  shows "pmm_inv (vm_pmm s)" "total_pages (vm_pmm s) \<le> 2 ^ 40" "L (pml4 s) = Some 3"
    "L t = Some (Suc k) \<Longrightarrow> present (tables s t i) \<Longrightarrow> L (next_table s t i) = Some k"
    "L t = Some n \<Longrightarrow> page_of (vm_pmm s) t \<notin> free_set (vm_pmm s)"
  using assms unfolding vm_inv_def by simp_all

lemma vm_inv_parent:
  "vm_inv L s \<Longrightarrow> L t = Some (Suc k) \<Longrightarrow> L t' = Some (Suc k') \<Longrightarrow> present (tables s t i) \<Longrightarrow>
   present (tables s t' i') \<Longrightarrow> next_table s t i = next_table s t' i' \<Longrightarrow> t = t' \<and> i = i'"
  unfolding vm_inv_def by blast

text \<open>\<open>grown L s t i u L' s'\<close>: the entry \<open>i\<close> of \<open>t\<close> now leads to \<open>u\<close>, and everything that was
  there before is still there.\<close>

definition grown :: "(ptr \<rightharpoonup> nat) \<Rightarrow> vmm \<Rightarrow> ptr \<Rightarrow> u64 \<Rightarrow> ptr \<Rightarrow> (ptr \<rightharpoonup> nat) \<Rightarrow> vmm \<Rightarrow> bool" where
  "grown L s t i u L' s' \<longleftrightarrow> cr3 s' = cr3 s \<and> hhdm_offset (vm_pmm s') = hhdm_offset (vm_pmm s) \<and>
     (\<forall>x. L x \<noteq> None \<longrightarrow> L' x = L x) \<and> present (tables s' t i) \<and> next_table s' t i = u \<and>
     (\<forall>x j. L x \<noteq> None \<longrightarrow> (x, j) \<noteq> (t, i) \<longrightarrow> tables s' x j = tables s x j) \<and>
     (if present (tables s t i) then tables s' t i = tables s t i
      else L u = None \<and> tables s' u = (\<lambda>_. 0))"

lemma table_new_inv:
  assumes inv: "vm_inv L s" and t: "L t = Some (Suc k)" and np: "\<not> present (tables s t i)"
    and r: "r \<in> free_set (vm_pmm s)" and m: "pmm_inv m" "free_set m = free_set (vm_pmm s) - {r}"
      "total_pages m = total_pages (vm_pmm s)" "hhdm_offset m = hhdm_offset (vm_pmm s)"
    and u: "u = phys_to_virt (vm_pmm s) (of_nat r * PAGE_SIZE)"
    and s': "s' = set_entry t i ((virt_to_phys m u AND PTE_ADDR_MASK) OR PTE_PRESENT OR PTE_WRITABLE)
        (s\<lparr>vm_pmm := m, tables := (tables s)(u := (\<lambda>_. 0))\<rparr>)"
  shows "vm_inv (L(u \<mapsto> k)) s' \<and> grown L s t i u (L(u \<mapsto> k)) s'"
proof -
  let ?m = "vm_pmm s"
  have rt: "r < total_pages ?m" using r by (simp add: free_set_def)
  have r40: "r < 2 ^ 40" using rt vm_inv_page(2) [OF inv] by linarith
  have pu: "page_of ?m u = r" using phys_to_virt_page(1) [OF vm_inv_page(1) [OF inv] rt] u by simp
  have Lu: "L u = None"
  proof (rule ccontr)
    assume "L u \<noteq> None"
    then obtain n where "L u = Some n" by blast
    from vm_inv_page(5) [OF inv this] pu r show False by simp
  qed
  then have ut: "u \<noteq> t" using t by auto
  have pg: "page_of m = page_of ?m" using m(4) by (simp add: page_of_def virt_to_phys_def fun_eq_iff)
  have pv: "phys_to_virt m = phys_to_virt ?m" using m(4) by (simp add: phys_to_virt_def fun_eq_iff)
  have vp: "virt_to_phys m u = of_nat r * PAGE_SIZE" using m(4) by (simp add: u virt_to_phys_def phys_to_virt_def)
  have new: "tables s' t i AND PTE_ADDR_MASK = of_nat r * PAGE_SIZE" "present (tables s' t i)"
    using ut mask_page(2) [OF r40] by (simp_all add: s' set_entry_def vp)
  have pm: "vm_pmm s' = m" and c: "cr3 s' = cr3 s" by (simp_all add: s' set_entry_def)
  have nt: "next_table s' t i = u" using new by (simp add: next_table_def pm pv u)
  have old: "tables s' x j = tables s x j" if "x \<noteq> u" "(x, j) \<noteq> (t, i)" for x j
    using that by (auto simp: s' set_entry_def)
  have zu: "tables s' u = (\<lambda>_. 0)" using ut by (simp add: s' set_entry_def)
  have nx: "next_table s' x j = next_table s x j" if "x \<noteq> u" "(x, j) \<noteq> (t, i)" for x j
    using old [OF that] by (simp add: next_table_def pm pv)
  have root: "pml4 s' = pml4 s" by (simp add: pml4_def pm c pv)
  have rootu: "pml4 s \<noteq> u" using vm_inv_page(3) [OF inv] Lu by auto
  have next_old: "next_table s x j \<noteq> u" if "L x = Some (Suc n)" "present (tables s x j)" for x n j
    using vm_inv_page(4) [OF inv that] Lu by auto
  have "vm_inv (L(u \<mapsto> k)) s'"
    unfolding vm_inv_def
  proof (intro conjI allI impI)
    fix x n j assume x: "(L(u \<mapsto> k)) x = Some (Suc n)" and p: "present (tables s' x j)"
    from p zu have xu: "x \<noteq> u" by auto
    show "(L(u \<mapsto> k)) (next_table s' x j) = Some n"
    proof (cases "(x, j) = (t, i)")
      case True
      with nt x xu t show ?thesis by simp
    next
      case False
      with p xu x have "L x = Some (Suc n)" "present (tables s x j)" by (simp_all add: old)
      with False xu vm_inv_page(4) [OF inv] next_old show ?thesis by (simp add: nx)
    qed
  next
    fix x n j y n' j'
    assume x: "(L(u \<mapsto> k)) x = Some (Suc n)" and y: "(L(u \<mapsto> k)) y = Some (Suc n')"
      and p: "present (tables s' x j)" and q: "present (tables s' y j')"
      and e: "next_table s' x j = next_table s' y j'"
    have xu: "x \<noteq> u" "y \<noteq> u" using p q zu by auto
    have "(x, j) = (y, j')"
    proof (cases "(x, j) = (t, i)"; cases "(y, j') = (t, i)")
      assume "(x, j) = (t, i)" "(y, j') \<noteq> (t, i)"
      with e xu nt y q next_old [of y n' j'] show ?thesis by (auto simp: nx old)
    next
      assume "(x, j) \<noteq> (t, i)" "(y, j') = (t, i)"
      with e xu nt x p next_old [of x n j] show ?thesis by (auto simp: nx old)
    next
      assume a: "(x, j) \<noteq> (t, i)" "(y, j') \<noteq> (t, i)"
      with x y xu p q e have "L x = Some (Suc n)" "L y = Some (Suc n')" "present (tables s x j)"
        "present (tables s y j')" "next_table s x j = next_table s y j'" by (simp_all add: old nx)
      from vm_inv_parent [OF inv this] show ?thesis by simp
    qed auto
    then show "x = y" and "j = j'" by auto
  next
    fix x assume "(L(u \<mapsto> k)) x \<noteq> None"
    then show "page_of (vm_pmm s') x \<notin> free_set (vm_pmm s')"
      using vm_inv_page(5) [OF inv] pu by (cases "x = u") (auto simp: pm pg m(2))
  qed (use m inv vm_inv_page(2,3) [OF inv] rootu in \<open>simp_all add: pm root\<close>)
  moreover have "grown L s t i u (L(u \<mapsto> k)) s'"
  proof -
    have "tables s' x j = tables s x j" if "L x \<noteq> None" "(x, j) \<noteq> (t, i)" for x j
      using that Lu by (intro old) auto
    then show ?thesis using Lu new(2) nt zu np by (simp add: grown_def pm c m(4))
  qed
  ultimately show ?thesis by blast
qed

lemma table_get_or_alloc_inv:
  assumes "vm_inv L s" and "L t = Some (Suc k)" and "free_set (vm_pmm s) \<noteq> {}"
  shows "\<exists>u L' s'. table_get_or_alloc t i s = Some (u, s') \<and> vm_inv L' s' \<and> L' u = Some k \<and>
    grown L s t i u L' s' \<and> card (free_set (vm_pmm s)) \<le> Suc (card (free_set (vm_pmm s')))"
proof (cases "present (tables s t i)")
  case True
  with assms vm_inv_page(4) [OF assms(1,2) True] show ?thesis
    by (intro exI [of _ "next_table s t i"] exI [of _ L] exI [of _ s])
      (simp add: table_get_or_alloc_def grown_def next_table_def)
next
  case False
  show ?thesis
    using vm_inv_page(1) [OF assms(1)]
  proof (cases rule: pmm_alloc_page_cases)
    case (page r m)
    let ?u = "phys_to_virt (vm_pmm s) (of_nat r * PAGE_SIZE)"
    let ?s = "set_entry t i ((virt_to_phys m ?u AND PTE_ADDR_MASK) OR PTE_PRESENT OR PTE_WRITABLE)
        (s\<lparr>vm_pmm := m, tables := (tables s)(?u := (\<lambda>_. 0))\<rparr>)"
    from table_new_inv [OF assms(1,2) False page(1,3,4,5,6) refl refl]
    have i: "vm_inv (L(?u \<mapsto> k)) ?s" "grown L s t i ?u (L(?u \<mapsto> k)) ?s" by auto
    have "?u \<noteq> NULL" using phys_to_virt_page(2) [OF vm_inv_page(1) [OF assms(1)]] page(1) by (simp add: free_set_def)
    then have "table_get_or_alloc t i s = Some (?u, ?s)"
      using False page(2) i(2) by (simp add: table_get_or_alloc_def grown_def next_table_def Let_def)
    moreover have "card (free_set (vm_pmm s)) \<le> Suc (card (free_set (vm_pmm ?s)))"
      using page(1,4) by (simp add: set_entry_def)
    ultimately show ?thesis using i by fastforce
  qed (use assms(3) in simp)
qed

subsection \<open>The whole walk\<close>

lemma entry_at_Nil [simp]: "entry_at s x [] j = tables s x j"
  by (simp add: entry_at_def)

lemma entry_at_Cons [simp]:
  "entry_at s x (i # ix) j = (if present (tables s x i) then entry_at s (next_table s x i) ix j else 0)"
  by (simp add: entry_at_def)

lemma entry_at_zero: "tables s u = (\<lambda>_. 0) \<Longrightarrow> entry_at s u ix j = 0"
  by (cases ix) simp_all

lemma next_table_cong:
  "hhdm_offset (vm_pmm s') = hhdm_offset (vm_pmm s) \<Longrightarrow> tables s' x j = tables s x j \<Longrightarrow>
   next_table s' x j = next_table s x j"
  by (simp add: next_table_def phys_to_virt_def)

lemma grown_pml4: "grown L s t i u L' s' \<Longrightarrow> pml4 s' = pml4 s"
  by (simp add: grown_def pml4_def phys_to_virt_def)

text \<open>Making room for one more table leaves every entry of the last level as it was.\<close>

lemma grown_entry_at:
  assumes "vm_inv L s" and "grown L s t i u L' s'" and "L t = Some (Suc k)" and "L x = Some (length ix)"
  shows "entry_at s' x ix j = entry_at s x ix j"
  using assms(4)
proof (induction ix arbitrary: x)
  case Nil
  then have "x \<noteq> t" using assms(3) by auto
  with Nil assms(2) show ?case by (auto simp: grown_def)
next
  case (Cons a ix)
  have h: "hhdm_offset (vm_pmm s') = hhdm_offset (vm_pmm s)" using assms(2) by (simp add: grown_def)
  show ?case
  proof (cases "(x, a) = (t, i) \<and> \<not> present (tables s t i)")
    case True
    then have "tables s' u = (\<lambda>_. 0)" "next_table s' t i = u" using assms(2) by (simp_all add: grown_def)
    with True show ?thesis by (simp add: entry_at_zero)
  next
    case False
    then have e: "tables s' x a = tables s x a"
      using assms(2) Cons.prems by (cases "(x, a) = (t, i)") (auto simp: grown_def)
    show ?thesis
    proof (cases "present (tables s x a)")
      case True
      have "L (next_table s x a) = Some (length ix)"
        using vm_inv_page(4) [OF assms(1) _ True] Cons.prems by simp
      with Cons.IH e True show ?thesis by (simp add: next_table_cong [OF h e])
    qed (simp add: e)
  qed
qed

lemma walk_append: "walk s x (ix @ jx) = Option.bind (walk s x ix) (\<lambda>y. walk s y jx)"
  by (induction ix arbitrary: x) auto

lemma walk_level:
  assumes "vm_inv L s" and "L x = Some (length ix + k)" and "walk s x ix = Some y"
  shows "L y = Some k"
  using assms(2,3)
proof (induction ix arbitrary: x)
  case (Cons i ix)
  then have p: "present (tables s x i)" by (auto split: if_splits)
  with vm_inv_page(4) [OF assms(1) _ p] Cons show ?case by simp
qed simp

lemma walk_inj:
  assumes "vm_inv L s" and "L x = Some n" and "length ix \<le> n" and "length jx = length ix"
    and "walk s x ix = Some y" and "walk s x jx = Some y"
  shows "ix = jx"
  using assms(3-)
proof (induction ix arbitrary: jx y rule: rev_induct)
  case (snoc a ix)
  then obtain b jx' where j: "jx = jx' @ [b]" "length jx' = length ix"
    by (cases jx rule: rev_cases) auto
  from snoc.prems j obtain p q where
    w: "walk s x ix = Some p" "walk s x jx' = Some q" "present (tables s p a)" "present (tables s q b)"
      "next_table s p a = y" "next_table s q b = y"
    by (auto simp: walk_append bind_eq_Some_conv split: if_splits)
  obtain k where k: "n = length ix + Suc k"
    using snoc.prems(1) by (metis Suc_le_D add_Suc_right le_add_diff_inverse length_append_singleton
        add_Suc le_iff_add)
  have "L p = Some (Suc k)" "L q = Some (Suc k)"
    using walk_level [OF assms(1) _ w(1)] walk_level [OF assms(1) _ w(2)] assms(2) k j(2) by auto
  from vm_inv_parent [OF assms(1) this w(3,4)] w(5,6) have "p = q" "a = b" by auto
  with snoc.IH [of jx' p] snoc.prems(1) j w(1,2) show ?case by simp
qed simp

text \<open>Writing an entry of the last level changes exactly the addresses that lead to it.\<close>

lemma leaf_walk:
  assumes "vm_inv L s" and "L pt = Some 0" and "L x = Some (length ix)"
  shows "walk (set_entry pt j e s) x ix = walk s x ix"
  using assms(3)
proof (induction ix arbitrary: x)
  case (Cons i ix)
  then have xe: "tables (set_entry pt j e s) x i = tables s x i"
    using assms(2) by (auto simp: set_entry_def)
  have "next_table (set_entry pt j e s) x i = next_table s x i"
    by (rule next_table_cong) (simp_all add: xe, simp add: set_entry_def)
  then show ?case
    using Cons vm_inv_page(4) [OF assms(1), of x "length ix" i] by (auto simp: xe)
qed simp

lemma leaf_inv:
  assumes "vm_inv L s" and "L pt = Some 0"
  shows "vm_inv L (set_entry pt j e s)"
proof -
  let ?s = "set_entry pt j e s"
  have t: "tables ?s x i = tables s x i" if "L x = Some (Suc k)" for x i k
    using that assms(2) by (auto simp: set_entry_def)
  have n: "next_table ?s x i = next_table s x i" if "L x = Some (Suc k)" for x i k
    by (rule next_table_cong) (use t [OF that] in \<open>simp_all add: set_entry_def\<close>)
  have p: "vm_pmm ?s = vm_pmm s" "pml4 ?s = pml4 s" by (simp_all add: set_entry_def pml4_def)
  show ?thesis
    unfolding vm_inv_def
  proof (intro conjI allI impI)
    fix x k i assume "L x = Some (Suc k)" "present (tables ?s x i)"
    with vm_inv_page(4) [OF assms(1)] show "L (next_table ?s x i) = Some k" by (simp add: t n)
  next
    fix x k i y k' i' assume x: "L x = Some (Suc k)" "L y = Some (Suc k')" "present (tables ?s x i)"
      "present (tables ?s y i')" "next_table ?s x i = next_table ?s y i'"
    then have "present (tables s x i)" "present (tables s y i')" "next_table s x i = next_table s y i'"
      by (simp_all add: t n)
    from vm_inv_parent [OF assms(1) x(1,2) this] show "x = y" "i = i'" by auto
  next
    fix x assume "L x \<noteq> None"
    then show "page_of (vm_pmm ?s) x \<notin> free_set (vm_pmm ?s)" using vm_inv_page(5) [OF assms(1)] p by auto
  qed (use vm_inv_page(1-3) [OF assms(1)] in \<open>simp_all add: p\<close>)
qed

lemma leaf_entry_at:
  assumes "vm_inv L s" and "L pt = Some 0" and "L x = Some (length ix)"
  shows "entry_at (set_entry pt j e s) x ix j' =
    (if walk s x ix = Some pt \<and> j' = j then e else entry_at s x ix j')"
proof (cases "walk s x ix")
  case None
  then show ?thesis by (simp add: entry_at_def leaf_walk [OF assms])
next
  case (Some u)
  then show ?thesis by (simp add: entry_at_def leaf_walk [OF assms]) (simp add: set_entry_def)
qed

lemma map_page_lookup:
  assumes inv: "vm_inv L s" and free: "3 \<le> card (free_set (vm_pmm s))"
  shows "\<exists>L' s'. vmm_map_page virt phys flags s = Some s' \<and> vm_inv L' s' \<and>
    hhdm_offset (vm_pmm s') = hhdm_offset (vm_pmm s) \<and>
    card (free_set (vm_pmm s)) \<le> card (free_set (vm_pmm s')) + 3 \<and>
    (\<forall>v. vm_lookup s' v = (if upper_idx v = upper_idx virt \<and> pt_idx v = pt_idx virt
       then (phys AND PTE_ADDR_MASK) OR flags OR PTE_PRESENT else vm_lookup s v))"
proof -
  let ?a = "pml4_idx virt" and ?b = "pdpt_idx virt" and ?c = "pd_idx virt" and ?r = "pml4 s"
  have ne: "card A \<ge> 1 \<Longrightarrow> A \<noteq> {}" for A :: "nat set" by auto
  have L0: "L ?r = Some (Suc (Suc (Suc 0)))" using vm_inv_page(3) [OF inv] by (simp add: numeral_3_eq_3)
  have f0: "card (free_set (vm_pmm s)) \<ge> 1" using free by linarith
  from table_get_or_alloc_inv [OF inv L0 ne [OF f0]] obtain t1 L1 s1 where
    1: "table_get_or_alloc ?r ?a s = Some (t1, s1)" "vm_inv L1 s1" "L1 t1 = Some (Suc (Suc 0))"
      "grown L s ?r ?a t1 L1 s1" "card (free_set (vm_pmm s)) \<le> Suc (card (free_set (vm_pmm s1)))"
    by blast
  have f1: "card (free_set (vm_pmm s1)) \<ge> 1" using 1(5) free by linarith
  from table_get_or_alloc_inv [OF 1(2,3) ne [OF f1]] obtain t2 L2 s2 where
    2: "table_get_or_alloc t1 ?b s1 = Some (t2, s2)" "vm_inv L2 s2" "L2 t2 = Some (Suc 0)"
      "grown L1 s1 t1 ?b t2 L2 s2" "card (free_set (vm_pmm s1)) \<le> Suc (card (free_set (vm_pmm s2)))"
    by blast
  have f2: "card (free_set (vm_pmm s2)) \<ge> 1" using 1(5) 2(5) free by linarith
  from table_get_or_alloc_inv [OF 2(2,3) ne [OF f2]] obtain t3 L3 s3 where
    3: "table_get_or_alloc t2 ?c s2 = Some (t3, s3)" "vm_inv L3 s3" "L3 t3 = Some 0"
      "grown L2 s2 t2 ?c t3 L3 s3" "card (free_set (vm_pmm s2)) \<le> Suc (card (free_set (vm_pmm s3)))"
    by blast
  have r: "pml4 s1 = ?r" "pml4 s2 = ?r" "pml4 s3 = ?r"
    using grown_pml4 [OF 1(4)] grown_pml4 [OF 2(4)] grown_pml4 [OF 3(4)] by simp_all
  have Lr: "L1 ?r = Some 3" "L2 ?r = Some 3" "L3 ?r = Some 3"
    using vm_inv_page(3) [OF 1(2)] vm_inv_page(3) [OF 2(2)] vm_inv_page(3) [OF 3(2)] r by simp_all
  have L21: "L2 t1 = Some 2" using 2(4) 1(3) by (simp add: grown_def)
  have ne': "?r \<noteq> t1" "?r \<noteq> t2" "t1 \<noteq> t2" using Lr 1(3) 2(3) L21 by auto
  have h: "hhdm_offset (vm_pmm s1) = hhdm_offset (vm_pmm s)" "hhdm_offset (vm_pmm s2) = hhdm_offset (vm_pmm s1)"
    "hhdm_offset (vm_pmm s3) = hhdm_offset (vm_pmm s2)" using 1(4) 2(4) 3(4) by (simp_all add: grown_def)
  have ra: "tables s3 ?r ?a = tables s1 ?r ?a" using 2(4) 3(4) Lr ne' by (simp add: grown_def)
  have tb: "tables s3 t1 ?b = tables s2 t1 ?b" using 3(4) L21 ne' by (simp add: grown_def)
  have "next_table s3 ?r ?a = t1" "next_table s3 t1 ?b = t2"
    using next_table_cong [OF _ ra] next_table_cong [OF _ tb] h 1(4) 2(4) by (simp_all add: grown_def)
  then have w: "walk s3 ?r (upper_idx virt) = Some t3"
    using ra tb 1(4) 2(4) 3(4) by (simp add: upper_idx_def grown_def)
  let ?e = "(phys AND PTE_ADDR_MASK) OR flags OR PTE_PRESENT"
  let ?s = "set_entry t3 (pt_idx virt) ?e s3"
  have same: "entry_at s3 ?r (upper_idx v) j = entry_at s ?r (upper_idx v) j" for v j
    using grown_entry_at [OF inv 1(4) L0, of ?r "upper_idx v" j]
      grown_entry_at [OF 1(2) 2(4) 1(3), of ?r "upper_idx v" j]
      grown_entry_at [OF 2(2) 3(4) 2(3), of ?r "upper_idx v" j] L0 Lr
    by (simp add: upper_idx_def numeral_3_eq_3)
  have uniq: "walk s3 ?r (upper_idx v) = Some t3 \<longleftrightarrow> upper_idx v = upper_idx virt" for v
  proof
    have len: "length (upper_idx x) = 3" for x by (simp add: upper_idx_def)
    assume "walk s3 ?r (upper_idx v) = Some t3"
    from walk_inj [OF 3(2) Lr(3) _ _ this w] show "upper_idx v = upper_idx virt" by (simp add: len)
  qed (simp add: w)
  have "vm_lookup ?s v = (if upper_idx v = upper_idx virt \<and> pt_idx v = pt_idx virt
       then ?e else vm_lookup s v)" for v
  proof -
    have "pml4 ?s = ?r" using r(3) by (simp add: set_entry_def pml4_def)
    moreover have "L3 ?r = Some (length (upper_idx v))" using Lr(3) by (simp add: upper_idx_def)
    ultimately show ?thesis
      by (simp only: vm_lookup_def leaf_entry_at [OF 3(2,3)] uniq same)
  qed
  moreover have "vmm_map_page virt phys flags s = Some ?s"
    using 1(1) 2(1) 3(1) by (simp add: vmm_map_page_def)
  moreover have "vm_inv L3 ?s" by (rule leaf_inv [OF 3(2,3)])
  moreover have "hhdm_offset (vm_pmm ?s) = hhdm_offset (vm_pmm s)" using h by (simp add: set_entry_def)
  moreover have "card (free_set (vm_pmm s)) \<le> card (free_set (vm_pmm ?s)) + 3"
    using 1(5) 2(5) 3(5) by (simp add: set_entry_def)
  ultimately show ?thesis by blast
qed

subsection \<open>Pages of addresses\<close>

lemma idx_take_bit:
  "pml4_idx v = take_bit 9 (drop_bit 39 v)" "pdpt_idx v = take_bit 9 (drop_bit 30 v)"
  "pd_idx v = take_bit 9 (drop_bit 21 v)" "pt_idx v = take_bit 9 (drop_bit 12 v)"
  by (simp_all add: pml4_idx_def pdpt_idx_def pd_idx_def pt_idx_def take_bit_eq_mask mask_eq_exp_minus_1)

lemma idx_page_bits:
  "upper_idx v = upper_idx w \<and> pt_idx v = pt_idx w \<longleftrightarrow> page_bits v = page_bits w"
proof
  assume e: "upper_idx v = upper_idx w \<and> pt_idx v = pt_idx w"
  have "bit (drop_bit d v) n = bit (drop_bit d w) n" if "d \<in> {12, 21, 30, 39}" "n < 9" for d n :: nat
  proof -
    have "take_bit 9 (drop_bit d v) = take_bit 9 (drop_bit d w)"
      using e that(1) by (auto simp: upper_idx_def idx_take_bit)
    then show ?thesis using that(2) by (metis bit_take_bit_iff)
  qed
  note b = this [unfolded bit_drop_bit_eq comp_def]
  show "page_bits v = page_bits w"
  proof (rule bit_word_eqI)
    fix n
    have "n < 36 \<Longrightarrow> bit v (12 + n) = bit w (12 + n)"
      using b [of 12 n] b [of 21 "n - 9"] b [of 30 "n - 18"] b [of 39 "n - 27"]
      by (cases "n < 9"; cases "n < 18"; cases "n < 27") auto
    then show "bit (page_bits v) n = bit (page_bits w) n" by (auto simp: page_bits_def bit_simps)
  qed
next
  assume e: "page_bits v = page_bits w"
  have b: "n < 36 \<Longrightarrow> bit v (12 + n) = bit w (12 + n)" for n
    using arg_cong [OF e, of "\<lambda>x. bit x n"] by (simp add: page_bits_def bit_simps)
  have "take_bit 9 (drop_bit d v) = take_bit 9 (drop_bit d w)" if "12 \<le> d" "d \<le> 39" for d
  proof (rule bit_word_eqI)
    fix n show "bit (take_bit 9 (drop_bit d v)) n = bit (take_bit 9 (drop_bit d w)) n"
      using b [of "d - 12 + n"] that by (auto simp: bit_simps)
  qed
  then show "upper_idx v = upper_idx w \<and> pt_idx v = pt_idx w" by (simp add: upper_idx_def idx_take_bit)
qed

lemma vm_lookup_page: "page_bits v = page_bits w \<Longrightarrow> vm_lookup s v = vm_lookup s w"
  unfolding vm_lookup_def by (metis idx_page_bits)

lemma unat_page_bits: "unat (page_bits w) = unat w div 4096 mod 2 ^ 36"
  by (simp add: page_bits_def take_bit_eq_mod drop_bit_eq_div unat_div unat_mod)

lemma unat_page: "n * 4096 < 2 ^ 64 \<Longrightarrow> unat (of_nat n * PAGE_SIZE) = n * 4096"
  by (simp add: unat_word_ariths unat_of_nat_small)

lemma page_bits_add:
  assumes "unat hh = h * 4096"
  shows "unat (page_bits (hh + y)) = (h + unat y div 4096) mod 2 ^ 36"
proof -
  have "unat (hh + y) = (4096 * h + unat y) mod (4096 * 2 ^ 52)"
    using assms by (simp add: unat_word_ariths mult.commute)
  then have "unat (hh + y) div 4096 = (4096 * h + unat y) div 4096 mod 2 ^ 52"
    by (simp only: mod_mult2_eq)
  also have "\<dots> = (h + unat y div 4096) mod 2 ^ 52" by simp
  finally show ?thesis by (simp add: unat_page_bits mod_mod_cancel)
qed

lemma page_inj:
  assumes "(x + j) mod 2 ^ 36 = (x + k) mod (2 ^ 36 :: nat)" and "j < k + 2 ^ 36" and "k < j + 2 ^ 36"
  shows "j = k"
proof (rule ccontr)
  assume "j \<noteq> k"
  have "2 ^ 36 dvd (j - k) \<and> 2 ^ 36 dvd (k - j)"
    using assms(1) by (metis add_diff_cancel_left mod_eq_dvd_iff_nat nat_le_linear diff_is_0_eq' dvd_0_right)
  with assms(2,3) \<open>j \<noteq> k\<close> show False
    by (metis diff_less_mono2 dvd_imp_le less_diff_conv2 linorder_neqE_nat not_less zero_less_diff
        less_imp_le_nat less_diff_conv add.commute)
qed

lemma mask_same_page:
  assumes "unat x div 4096 = unat y div 4096"
  shows "x AND PTE_ADDR_MASK = y AND PTE_ADDR_MASK"
proof -
  have "drop_bit 12 x = drop_bit 12 y"
    using assms by (simp add: word_unat_eq_iff drop_bit_eq_div unat_div)
  then have "bit x (12 + n) = bit y (12 + n)" for n by (metis bit_drop_bit_eq comp_apply)
  then have b: "12 \<le> n \<Longrightarrow> bit x n = bit y n" for n by (metis le_add_diff_inverse)
  show ?thesis by (rule bit_word_eqI) (auto simp: bit_simps bit_addr_mask b)
qed

subsection \<open>Device memory\<close>

definition mmio_entry :: "u64 \<Rightarrow> u64" where
  "mmio_entry phys = (phys AND PTE_ADDR_MASK) OR MMIO_FLAGS OR PTE_PRESENT"

lemma mmio_loop_maps:
  assumes "vm_inv L s" and "3 * (n - k) \<le> card (free_set (vm_pmm s))" and "k \<le> n"
    and "(a + n) * 4096 < 2 ^ 64" and "n \<le> 2 ^ 36" and "unat hh = h * 4096"
  shows "\<exists>L' s'. mmio_loop (of_nat k * PAGE_SIZE) (of_nat n * PAGE_SIZE) (hh + of_nat a * PAGE_SIZE)
       (of_nat a * PAGE_SIZE) s = Some s' \<and> vm_inv L' s' \<and>
    hhdm_offset (vm_pmm s') = hhdm_offset (vm_pmm s) \<and>
    (\<forall>j. k \<le> j \<longrightarrow> j < n \<longrightarrow> vm_lookup s' (hh + of_nat (a + j) * PAGE_SIZE) = mmio_entry (of_nat (a + j) * PAGE_SIZE)) \<and>
    (\<forall>v. (\<forall>j. k \<le> j \<longrightarrow> j < n \<longrightarrow> page_bits v \<noteq> page_bits (hh + of_nat (a + j) * PAGE_SIZE)) \<longrightarrow>
       vm_lookup s' v = vm_lookup s v)"
  using assms(1-3)
proof (induction "n - k" arbitrary: k L s)
  case 0
  then have "\<not> of_nat k * PAGE_SIZE < (of_nat n * PAGE_SIZE :: u64)" by simp
  then show ?case using 0 by (subst mmio_loop.simps) auto
next
  case (Suc d)
  let ?v = "hh + of_nat (a + k) * PAGE_SIZE" and ?p = "of_nat (a + k) * PAGE_SIZE :: u64"
  have kn: "k < n" using Suc.hyps(2) by simp
  then have "k * 4096 < 2 ^ 64" "n * 4096 < 2 ^ 64" using assms(4) by simp_all
  then have lt: "of_nat k * PAGE_SIZE < (of_nat n * PAGE_SIZE :: u64)"
    using kn by (simp add: word_less_nat_alt unat_page)
  have f: "3 \<le> card (free_set (vm_pmm s))" using Suc.prems(2) kn by linarith
  from map_page_lookup [OF Suc.prems(1) f, of ?v ?p MMIO_FLAGS] obtain L1 s1 where
    1: "vmm_map_page ?v ?p MMIO_FLAGS s = Some s1" "vm_inv L1 s1"
      "hhdm_offset (vm_pmm s1) = hhdm_offset (vm_pmm s)"
      "card (free_set (vm_pmm s)) \<le> card (free_set (vm_pmm s1)) + 3"
      "\<And>v. vm_lookup s1 v = (if page_bits v = page_bits ?v then mmio_entry ?p else vm_lookup s v)"
    by (auto simp: idx_page_bits mmio_entry_def)
  have "3 * (n - Suc k) \<le> card (free_set (vm_pmm s1))" using 1(4) Suc.prems(2) kn by linarith
  note le = this
  have d: "d = n - Suc k" using Suc.hyps(2) by simp
  from Suc.hyps(1) [OF d 1(2) le Suc_leI [OF kn]] obtain L' s' where
    2: "mmio_loop (of_nat (Suc k) * PAGE_SIZE) (of_nat n * PAGE_SIZE) (hh + of_nat a * PAGE_SIZE)
       (of_nat a * PAGE_SIZE) s1 = Some s'" "vm_inv L' s'" "hhdm_offset (vm_pmm s') = hhdm_offset (vm_pmm s1)"
      "\<And>j. Suc k \<le> j \<Longrightarrow> j < n \<Longrightarrow> vm_lookup s' (hh + of_nat (a + j) * PAGE_SIZE) = mmio_entry (of_nat (a + j) * PAGE_SIZE)"
      "\<And>v. (\<forall>j. Suc k \<le> j \<longrightarrow> j < n \<longrightarrow> page_bits v \<noteq> page_bits (hh + of_nat (a + j) * PAGE_SIZE)) \<Longrightarrow>
       vm_lookup s' v = vm_lookup s1 v"
    by blast
  have neq: "page_bits ?v \<noteq> page_bits (hh + of_nat (a + j) * PAGE_SIZE)" if "Suc k \<le> j" "j < n" for j
  proof
    assume e: "page_bits ?v = page_bits (hh + of_nat (a + j) * PAGE_SIZE)"
    have "(a + k) * 4096 < 2 ^ 64" "(a + j) * 4096 < 2 ^ 64" using assms(4) kn that by auto
    from unat_page [OF this(1)] unat_page [OF this(2)] arg_cong [OF e, of unat]
    have "(h + a + k) mod 2 ^ 36 = (h + a + j) mod 2 ^ 36"
      by (simp add: page_bits_add [OF assms(6)] add.assoc)
    from page_inj [OF this] that kn assms(5) show False by linarith
  qed
  have "mmio_loop (of_nat k * PAGE_SIZE) (of_nat n * PAGE_SIZE) (hh + of_nat a * PAGE_SIZE)
       (of_nat a * PAGE_SIZE) s = Some s'"
    using lt 1(1) 2(1) by (subst mmio_loop.simps) (simp add: algebra_simps)
  moreover have "vm_lookup s' (hh + of_nat (a + j) * PAGE_SIZE) = mmio_entry (of_nat (a + j) * PAGE_SIZE)"
    if "k \<le> j" "j < n" for j
  proof (cases "j = k")
    case True
    have "vm_lookup s' ?v = vm_lookup s1 ?v" by (rule 2(5)) (use neq in blast)
    with 1(5) True show ?thesis by simp
  qed (use that 2(4) in simp)
  moreover have "vm_lookup s' v = vm_lookup s v"
    if "\<forall>j. k \<le> j \<longrightarrow> j < n \<longrightarrow> page_bits v \<noteq> page_bits (hh + of_nat (a + j) * PAGE_SIZE)" for v
    using that 2(5) [of v] 1(5) kn by auto
  ultimately show ?case using 2(2,3) 1(3) by (intro exI [of _ L'] exI [of _ s']) auto
qed

lemma align_down: "ALIGN_DOWN x PAGE_SIZE = of_nat (unat x div 4096) * PAGE_SIZE"
proof -
  have "x AND NOT (mask 12) = push_bit 12 (drop_bit 12 x)"
    by (rule bit_word_eqI) (auto simp: bit_simps)
  moreover have "drop_bit 12 x = of_nat (unat x div 4096)"
  proof -
    have "unat x div 4096 = unat (x div 4096)" by (simp add: unat_div)
    then show ?thesis by (simp only: of_nat_unat ucast_id) (simp add: drop_bit_eq_div)
  qed
  ultimately show ?thesis
    by (simp add: ALIGN_DOWN_def PAGE_SIZE_def mask_eq_exp_minus_1 push_bit_eq_mult mult.commute)
qed

lemma align_up:
  assumes "unat x + 4095 < 2 ^ 64"
  shows "ALIGN_UP x PAGE_SIZE = of_nat ((unat x + 4095) div 4096) * PAGE_SIZE"
proof -
  have "x + PAGE_SIZE - 1 = x + 4095" by (simp add: PAGE_SIZE_def)
  moreover have "unat (x + 4095) = unat x + 4095" using assms by (subst unat_add_nowrap) auto
  ultimately show ?thesis using align_down [of "x + 4095"]
    by (simp only: ALIGN_UP_def ALIGN_DOWN_def)
qed

subsection \<open>Properties\<close>


definition vmm_example :: vmm where
  "vmm_example = \<lparr>vm_pmm = pmm_example, tables = (\<lambda>_ _. 0), cr3 = 0x3000\<rparr>"

lemma vmm_example_inv: "vm_inv [0xFFFF800000003000 \<mapsto> 3] vmm_example"
proof -
  have r: "pml4 vmm_example = 0xFFFF800000003000" by code_simp
  have "total_pages pmm_example \<le> 2 ^ 40"
    by (simp add: total_pages_def pmm_example_def PAGE_SIZE_def)
  moreover have "page_of pmm_example 0xFFFF800000003000 \<notin> free_set pmm_example"
    by (simp add: page_of_def free_set_def page_used_def bm_bit_def virt_to_phys_def pmm_example_def PAGE_SIZE_def)
  ultimately show ?thesis
    using pmm_example_inv r
    by (auto simp: vm_inv_def split: if_splits) (simp_all add: vmm_example_def)
qed


lemma mmio_bytes:
  fixes phys x :: u64
  assumes "unat hh = h * 4096" and "unat phys + unat x < 2 ^ 64" and "unat (phys + x) div 4096 = m"
  shows "page_bits (hh + phys + x) = page_bits (hh + of_nat m * PAGE_SIZE)"
    and "mmio_entry (phys + x) = mmio_entry (of_nat m * PAGE_SIZE)"
proof -
  have "m * 4096 < 2 ^ 64" using assms(3) unat_lt_64 [of "phys + x"] by linarith
  then have u: "unat (of_nat m * PAGE_SIZE :: u64) = m * 4096" by (rule unat_page)
  then show "page_bits (hh + phys + x) = page_bits (hh + of_nat m * PAGE_SIZE)"
    using assms(3) page_bits_add [OF assms(1), of "phys + x"] page_bits_add [OF assms(1), of "of_nat m * PAGE_SIZE"]
    by (simp add: word_unat_eq_iff add.assoc)
  show "mmio_entry (phys + x) = mmio_entry (of_nat m * PAGE_SIZE)"
    using mask_same_page [of "phys + x" "of_nat m * PAGE_SIZE"] assms(3) u by (simp add: mmio_entry_def)
qed

definition mmio_pages :: "u64 \<Rightarrow> u64 \<Rightarrow> nat" where
  "mmio_pages phys sz = (unat phys + unat sz + 4095) div 4096 - unat phys div 4096"

lemma mmio_page_byte:
  assumes "j < mmio_pages phys sz" and "sz \<noteq> 0"
  shows "\<exists>x :: u64. unat x < unat sz \<and> (unat phys + unat x) div 4096 = unat phys div 4096 + j"
proof -
  let ?A = "unat phys" and ?a = "unat phys div 4096"
  have s: "0 < unat sz" using assms(2) by (simp add: unat_gt_0)
  show ?thesis
  proof (cases "j = 0")
    case True
    with s show ?thesis by (intro exI [of _ 0]) simp
  next
    case False
    define X where "X = (?a + j) * 4096 - ?A"
    have d: "?A = ?a * 4096 + ?A mod 4096" "?A mod 4096 < 4096" by simp_all
    have "?a * 4096 + 4096 \<le> (?a + j) * 4096" using False by (cases j) simp_all
    then have ge: "?A < (?a + j) * 4096" using d by linarith
    have "(?a + j) * 4096 + 4096 \<le> (?A + unat sz + 4095) div 4096 * 4096"
      using assms(1) by (simp add: mmio_pages_def)
    then have "(?a + j) * 4096 + 4096 \<le> ?A + unat sz + 4095"
      using div_times_less_eq_dividend order_trans by blast
    then have lt: "X < unat sz" using ge unfolding X_def by linarith
    then have "unat (of_nat X :: u64) = X" using unat_lt_64 [of sz] by (intro unat_of_nat_small) simp
    moreover have "?A + X = (?a + j) * 4096" using ge by (simp add: X_def)
    ultimately have "unat (of_nat X :: u64) < unat sz \<and> (?A + unat (of_nat X :: u64)) div 4096 = ?a + j"
      using lt by simp
    then show ?thesis by blast
  qed
qed

text \<open>
  \<^verbatim>\<open>vmm_map_mmio\<close> maps a device's registers, of any alignment and size. With enough
  free pages for the tables it returns the direct-map address of the region, and every byte of
  the region is mapped to its own physical page, uncached and writable; every address outside
  the pages of the region translates as before.
\<close>

theorem vmm_map_mmio_correct:
  assumes "vm_inv L s" and "sz \<noteq> 0" and "unat phys + unat sz + 4095 < 2 ^ 64"
    and "mmio_pages phys sz \<le> 2 ^ 36" and "3 * mmio_pages phys sz \<le> card (free_set (vm_pmm s))"
    and "unat (hhdm_offset (vm_pmm s)) mod 4096 = 0"
  shows "\<exists>L' s'. vmm_map_mmio phys sz s = Some (phys_to_virt (vm_pmm s) phys, s') \<and> vm_inv L' s' \<and>
    (\<forall>x. unat x < unat sz \<longrightarrow> vm_lookup s' (phys_to_virt (vm_pmm s) phys + x) =
       ((phys + x) AND PTE_ADDR_MASK) OR (PTE_WRITABLE OR PTE_NOCACHE OR PTE_WRITETHRU) OR PTE_PRESENT) \<and>
    (\<forall>v. (\<forall>x. unat x < unat sz \<longrightarrow> page_bits v \<noteq> page_bits (phys_to_virt (vm_pmm s) phys + x)) \<longrightarrow>
       vm_lookup s' v = vm_lookup s v)"
proof -
  let ?hh = "hhdm_offset (vm_pmm s)" and ?a = "unat phys div 4096" and ?n = "mmio_pages phys sz"
  obtain h where h: "unat ?hh = h * 4096" using assms(6) by auto
  have add: "unat (phys + sz) = unat phys + unat sz" using assms(3) by (intro unat_add_nowrap) simp
  have an: "?a + ?n = (unat phys + unat sz + 4095) div 4096"
    by (simp add: mmio_pages_def div_le_mono)
  have "(?a + ?n) * 4096 \<le> unat phys + unat sz + 4095" unfolding an by (rule div_times_less_eq_dividend)
  then have b: "(?a + ?n) * 4096 < 2 ^ 64" using assms(3) by linarith
  have up: "ALIGN_UP (phys + sz) PAGE_SIZE = of_nat (?a + ?n) * PAGE_SIZE"
    using align_up [of "phys + sz"] assms(3) an by (simp add: add)
  have len: "of_nat (?a + ?n) * PAGE_SIZE - of_nat ?a * PAGE_SIZE = (of_nat ?n * PAGE_SIZE :: u64)"
    by (simp add: algebra_simps)
  have virt: "phys_to_virt (vm_pmm s) y = ?hh + y" for y by (simp add: phys_to_virt_def add.commute)
  from mmio_loop_maps [OF assms(1) _ _ b assms(4) h, of 0] assms(5) obtain L' s' where
    l: "mmio_loop 0 (of_nat ?n * PAGE_SIZE) (?hh + of_nat ?a * PAGE_SIZE) (of_nat ?a * PAGE_SIZE) s = Some s'"
      "vm_inv L' s'" "\<And>j. j < ?n \<Longrightarrow> vm_lookup s' (?hh + of_nat (?a + j) * PAGE_SIZE) = mmio_entry (of_nat (?a + j) * PAGE_SIZE)"
      "\<And>v. (\<forall>j. j < ?n \<longrightarrow> page_bits v \<noteq> page_bits (?hh + of_nat (?a + j) * PAGE_SIZE)) \<Longrightarrow>
         vm_lookup s' v = vm_lookup s v"
    by auto
  have m: "vmm_map_mmio phys sz s = Some (?hh + phys, s')"
    by (simp only: vmm_map_mmio_def Let_def up align_down virt len l(1)) simp
  have byte: "vm_lookup s' (?hh + phys + x) = mmio_entry (phys + x)" if "unat x < unat sz" for x
  proof -
    have lt: "unat phys + unat x < 2 ^ 64" using that assms(3) by linarith
    then have ua: "unat (phys + x) = unat phys + unat x" by (intro unat_add_nowrap) simp
    define j where "j = (unat phys + unat x) div 4096 - ?a"
    have aj: "?a + j = (unat phys + unat x) div 4096" by (simp add: j_def div_le_mono)
    have "(unat phys + unat x) div 4096 < (unat phys + unat sz + 4095) div 4096"
      using that div_le_mono [of "unat phys + unat x + 4096" "unat phys + unat sz + 4095" 4096] by simp
    then have j: "j < ?n" using aj an by linarith
    from mmio_bytes [OF h lt, of "?a + j"] ua aj
    have "page_bits (?hh + phys + x) = page_bits (?hh + of_nat (?a + j) * PAGE_SIZE)"
      "mmio_entry (phys + x) = mmio_entry (of_nat (?a + j) * PAGE_SIZE)" by auto
    with vm_lookup_page l(3) [OF j] show ?thesis by metis
  qed
  have other: "vm_lookup s' v = vm_lookup s v"
    if v: "\<And>x. unat x < unat sz \<Longrightarrow> page_bits v \<noteq> page_bits (?hh + phys + x)" for v
  proof (rule l(4), intro allI impI)
    fix j assume "j < ?n"
    from mmio_page_byte [OF this assms(2)] obtain x :: u64 where
      x: "unat x < unat sz" "(unat phys + unat x) div 4096 = ?a + j" by blast
    have lt: "unat phys + unat x < 2 ^ 64" using x(1) assms(3) by linarith
    then have "unat (phys + x) = unat phys + unat x" by (intro unat_add_nowrap) simp
    with mmio_bytes(1) [OF h lt, of "?a + j"] x v [of x]
    show "page_bits v \<noteq> page_bits (?hh + of_nat (?a + j) * PAGE_SIZE)" by simp
  qed
  show ?thesis
    using m l(2) byte other
    by (intro exI [of _ L'] exI [of _ s']) (auto simp: virt mmio_entry_def MMIO_FLAGS_def)
qed

theorem vmm_map_mmio_correct_witness:
  "vm_inv [0xFFFF800000003000 \<mapsto> 3] vmm_example \<and> mmio_pages 0xFEE00010 0x100 = 1 \<and>
   (\<exists>s'. vmm_map_mmio 0xFEE00010 0x100 vmm_example = Some (0xFFFF8000FEE00010, s') \<and>
      vm_lookup s' 0xFFFF8000FEE00020 = 0xFEE0001B)"
proof -
  have n: "mmio_pages 0xFEE00010 0x100 = 1" by (simp add: mmio_pages_def)
  have f: "card (free_set (vm_pmm vmm_example)) = 5" by (simp add: vmm_example_def pmm_example_free)
  have h: "hhdm_offset (vm_pmm vmm_example) = 0xFFFF800000000000"
    by (simp add: vmm_example_def pmm_example_def)
  have "((0xFEE00020 :: u64) AND PTE_ADDR_MASK) OR (PTE_WRITABLE OR PTE_NOCACHE OR PTE_WRITETHRU) OR PTE_PRESENT =
    0xFEE0001B"
    by (simp add: PTE_ADDR_MASK_def PTE_WRITABLE_def PTE_PRESENT_def PTE_NOCACHE_def PTE_WRITETHRU_def)
  moreover obtain s' where s': "vmm_map_mmio 0xFEE00010 0x100 vmm_example = Some (0xFFFF8000FEE00010, s')"
    "\<forall>x. unat x < 256 \<longrightarrow> vm_lookup s' (0xFFFF8000FEE00010 + x) =
       ((0xFEE00010 + x) AND PTE_ADDR_MASK) OR (PTE_WRITABLE OR PTE_NOCACHE OR PTE_WRITETHRU) OR PTE_PRESENT"
    using vmm_map_mmio_correct [OF vmm_example_inv, of "0x100" "0xFEE00010"]
    by (auto simp: n f h phys_to_virt_def)
  ultimately have "vm_lookup s' 0xFFFF8000FEE00020 = 0xFEE0001B"
    using s'(2) [rule_format, of "0x10"] by simp
  with s'(1) vmm_example_inv n show ?thesis by blast
qed

end
