(* ===== verification/ByteOrder.thy ===== *)
theory ByteOrder
  imports KString
begin

text \<open>
  Values of several bytes in memory, least significant byte first: what a C access through a
  pointer to \<^verbatim>\<open>uint16_t\<close>, \<^verbatim>\<open>uint32_t\<close> or \<^verbatim>\<open>uint64_t\<close> reads and writes on the
  machine the kernel runs on, at any alignment.
\<close>

primrec load_le :: "nat \<Rightarrow> mem \<Rightarrow> ptr \<Rightarrow> 'a::len word" where
  "load_le 0 m a = 0"
| "load_le (Suc n) m a = ucast (m a) OR push_bit 8 (load_le n m (a + 1))"

primrec store_le :: "nat \<Rightarrow> ptr \<Rightarrow> 'a::len word \<Rightarrow> mem \<Rightarrow> mem" where
  "store_le 0 a w m = m"
| "store_le (Suc n) a w m = store_le n (a + 1) (drop_bit 8 w) (m(a := ucast w))"

definition load_u16 :: "mem \<Rightarrow> ptr \<Rightarrow> u16" where "load_u16 m a = load_le 2 m a"
definition load_u32 :: "mem \<Rightarrow> ptr \<Rightarrow> u32" where "load_u32 m a = load_le 4 m a"
definition load_u64 :: "mem \<Rightarrow> ptr \<Rightarrow> u64" where "load_u64 m a = load_le 8 m a"
definition store_u16 :: "ptr \<Rightarrow> u16 \<Rightarrow> mem \<Rightarrow> mem" where "store_u16 a w m = store_le 2 a w m"
definition store_u32 :: "ptr \<Rightarrow> u32 \<Rightarrow> mem \<Rightarrow> mem" where "store_u32 a w m = store_le 4 a w m"
definition store_u64 :: "ptr \<Rightarrow> u64 \<Rightarrow> mem \<Rightarrow> mem" where "store_u64 a w m = store_le 8 a w m"

lemma store_le_other:
  assumes "n \<le> 2 ^ 64" and "n \<le> unat (b - a)"
  shows "store_le n a w m b = m b"
  using assms
proof (induction n arbitrary: a w m)
  case (Suc n)
  then have ne: "b - a \<noteq> 0" by (metis Suc_le_D nat.distinct(1) unat_0)
  then have "unat (b - (a + 1)) = unat (b - a) - 1"
    using unat_minus_one [OF ne] by (simp add: algebra_simps)
  with Suc.prems have "n \<le> unat (b - (a + 1))" by simp
  with Suc ne show ?case by auto
qed simp

lemma load_le_cong:
  "(\<And>i. i < n \<Longrightarrow> m (a + of_nat i) = m' (b + of_nat i)) \<Longrightarrow>
   load_le n m a = (load_le n m' b :: 'a::len word)"
proof (induction n arbitrary: a b)
  case (Suc n)
  have "load_le n m (a + 1) = (load_le n m' (b + 1) :: 'a word)"
    by (rule Suc.IH) (use Suc.prems [of "Suc i" for i] in \<open>simp add: algebra_simps\<close>)
  with Suc.prems [of 0] show ?case by simp
qed simp

lemma load_store_le:
  assumes "n \<le> 2 ^ 63"
  shows "load_le n (store_le n a w m) a = take_bit (8 * n) (w :: 'a::len word)"
  using assms
proof (induction n arbitrary: a w m)
  case 0
  show ?case by simp
next
  case (Suc n)
  have "unat (a - (a + 1) :: u64) = 2 ^ 64 - 1"
    by (simp add: unat_minus_1_64)
  then have f: "store_le n (a + 1) (drop_bit 8 w) (m(a := ucast w)) a = ucast w"
    using Suc.prems by (subst store_le_other) simp_all
  have i: "load_le n (store_le n (a + 1) (drop_bit 8 w) (m(a := ucast w))) (a + 1) =
      take_bit (8 * n) (drop_bit 8 w)"
    by (rule Suc.IH) (use Suc.prems in simp)
  have "ucast (ucast w :: u8) OR push_bit 8 (take_bit (8 * n) (drop_bit 8 w)) = take_bit (8 * Suc n) w"
    by (rule bit_word_eqI) (auto simp: bit_simps)
  with f i show ?case by simp
qed

lemma load_store_u64 [simp]: "load_u64 (store_u64 a w m) a = w"
  by (simp add: load_u64_def store_u64_def load_store_le take_bit_word_eq_self)

lemma load_store_u32 [simp]: "load_u32 (store_u32 a w m) a = w"
  by (simp add: load_u32_def store_u32_def load_store_le take_bit_word_eq_self)

lemma load_store_u16 [simp]: "load_u16 (store_u16 a w m) a = w"
  by (simp add: load_u16_def store_u16_def load_store_le take_bit_word_eq_self)

lemma store_u64_other: "8 \<le> unat (b - a) \<Longrightarrow> store_u64 a w m b = m b"
  by (simp add: store_u64_def store_le_other)

end
