(* ===== verification/Elf.thy ===== *)
theory Elf
  imports ByteOrder Heap
begin

text \<open>
  The program loader of \<^verbatim>\<open>kernel/elf.c\<close>. The file is read from memory through the packed
  structures of \<^verbatim>\<open>elf.h\<close>, whose fields are loads at fixed offsets; the image is a run of
  pages from the page allocator. Reading memory is total, as on the machine: what the source
  does not check, the model does not check either, and the theorems name what the caller has to
  provide. In the scans of the program headers \<open>None\<close> is the early \<^verbatim>\<open>return -1\<close>; in
  \<open>elf_load_image\<close> the result code is explicit and \<open>None\<close> is a fault of the allocator.
\<close>

record elf_image =
  base :: ptr
  page_count :: u64
  entry :: u64
  load_bias :: u64

definition no_image :: elf_image where
  "no_image = \<lparr>base = NULL, page_count = 0, entry = 0, load_bias = 0\<rparr>"

subsection \<open>The structures of the file\<close>

definition EHDR_SIZE :: u64 where "EHDR_SIZE = 64"
definition PHDR_SIZE :: u64 where "PHDR_SIZE = 56"
definition DYN_SIZE :: u64 where "DYN_SIZE = 16"
definition RELA_SIZE :: u64 where "RELA_SIZE = 24"
definition SYM_SIZE :: u64 where "SYM_SIZE = 24"

definition e_ident :: "mem \<Rightarrow> ptr \<Rightarrow> nat \<Rightarrow> u8" where "e_ident m eh i = m (eh + of_nat i)"
definition e_type :: "mem \<Rightarrow> ptr \<Rightarrow> u16" where "e_type m eh = load_u16 m (eh + 16)"
definition e_machine :: "mem \<Rightarrow> ptr \<Rightarrow> u16" where "e_machine m eh = load_u16 m (eh + 18)"
definition e_entry :: "mem \<Rightarrow> ptr \<Rightarrow> u64" where "e_entry m eh = load_u64 m (eh + 24)"
definition e_phoff :: "mem \<Rightarrow> ptr \<Rightarrow> u64" where "e_phoff m eh = load_u64 m (eh + 32)"
definition e_phentsize :: "mem \<Rightarrow> ptr \<Rightarrow> u16" where "e_phentsize m eh = load_u16 m (eh + 54)"
definition e_phnum :: "mem \<Rightarrow> ptr \<Rightarrow> u16" where "e_phnum m eh = load_u16 m (eh + 56)"

definition p_type :: "mem \<Rightarrow> ptr \<Rightarrow> u32" where "p_type m ph = load_u32 m ph"
definition p_offset :: "mem \<Rightarrow> ptr \<Rightarrow> u64" where "p_offset m ph = load_u64 m (ph + 8)"
definition p_vaddr :: "mem \<Rightarrow> ptr \<Rightarrow> u64" where "p_vaddr m ph = load_u64 m (ph + 16)"
definition p_filesz :: "mem \<Rightarrow> ptr \<Rightarrow> u64" where "p_filesz m ph = load_u64 m (ph + 32)"
definition p_memsz :: "mem \<Rightarrow> ptr \<Rightarrow> u64" where "p_memsz m ph = load_u64 m (ph + 40)"

definition d_tag :: "mem \<Rightarrow> ptr \<Rightarrow> u64" where "d_tag m d = load_u64 m d"
definition d_val :: "mem \<Rightarrow> ptr \<Rightarrow> u64" where "d_val m d = load_u64 m (d + 8)"
definition r_offset :: "mem \<Rightarrow> ptr \<Rightarrow> u64" where "r_offset m r = load_u64 m r"
definition r_info :: "mem \<Rightarrow> ptr \<Rightarrow> u64" where "r_info m r = load_u64 m (r + 8)"
definition r_addend :: "mem \<Rightarrow> ptr \<Rightarrow> u64" where "r_addend m r = load_u64 m (r + 16)"
definition st_shndx :: "mem \<Rightarrow> ptr \<Rightarrow> u16" where "st_shndx m sy = load_u16 m (sy + 6)"
definition st_value :: "mem \<Rightarrow> ptr \<Rightarrow> u64" where "st_value m sy = load_u64 m (sy + 8)"

definition phdr_at :: "ptr \<Rightarrow> nat \<Rightarrow> ptr" where
  "phdr_at phdrs i = phdrs + of_nat i * PHDR_SIZE"

definition PT_LOAD :: u32 where "PT_LOAD = 1"
definition PT_DYNAMIC :: u32 where "PT_DYNAMIC = 2"
definition ET_EXEC :: u16 where "ET_EXEC = 2"
definition ET_DYN :: u16 where "ET_DYN = 3"
definition EM_X86_64 :: u16 where "EM_X86_64 = 62"

definition R_TYPE :: "u64 \<Rightarrow> u32" where "R_TYPE info = ucast info"
definition R_SYM :: "u64 \<Rightarrow> u32" where "R_SYM info = ucast (drop_bit 32 info)"

definition R_X86_64_NONE :: u32 where "R_X86_64_NONE = 0"
definition R_X86_64_64 :: u32 where "R_X86_64_64 = 1"
definition R_X86_64_GLOB_DAT :: u32 where "R_X86_64_GLOB_DAT = 6"
definition R_X86_64_JUMP_SLOT :: u32 where "R_X86_64_JUMP_SLOT = 7"
definition R_X86_64_RELATIVE :: u32 where "R_X86_64_RELATIVE = 8"

definition elf_check_header :: "mem \<Rightarrow> ptr \<Rightarrow> bool" where
  "elf_check_header m eh \<longleftrightarrow>
     \<not> (e_ident m eh 0 \<noteq> 0x7F \<or> e_ident m eh 1 \<noteq> 0x45 \<or> e_ident m eh 2 \<noteq> 0x4C \<or> e_ident m eh 3 \<noteq> 0x46) \<and>
     e_ident m eh 4 = 2 \<and> e_ident m eh 5 = 1 \<and> e_machine m eh = EM_X86_64 \<and>
     (e_type m eh = ET_EXEC \<or> e_type m eh = ET_DYN) \<and>
     \<not> (e_phoff m eh = 0 \<or> e_phnum m eh = 0)"

subsection \<open>Relocation\<close>

text \<open>\<open>rela_loop k r\<close>: the \<open>k\<close> entries of the table from index \<open>r\<close> on. False is the return of -1; what
  was written before it stays written.\<close>

fun rela_loop :: "nat \<Rightarrow> nat \<Rightarrow> ptr \<Rightarrow> ptr \<Rightarrow> u64 \<Rightarrow> mem \<Rightarrow> bool \<times> mem" where
  "rela_loop 0 r relas symtab bias m = (True, m)"
| "rela_loop (Suc k) r relas symtab bias m =
     (let rel = relas + of_nat r * RELA_SIZE;
          ty = R_TYPE (r_info m rel);
          target = r_offset m rel + bias
      in if ty = R_X86_64_NONE then rela_loop k (Suc r) relas symtab bias m
         else if ty = R_X86_64_RELATIVE
         then rela_loop k (Suc r) relas symtab bias (store_u64 target (r_addend m rel + bias) m)
         else if ty \<noteq> R_X86_64_64 \<and> ty \<noteq> R_X86_64_GLOB_DAT \<and> ty \<noteq> R_X86_64_JUMP_SLOT then (False, m)
         else let sym_index = R_SYM (r_info m rel);
                  sym = symtab + ucast sym_index * SYM_SIZE
              in if symtab = NULL \<or> sym_index = 0 \<or> st_shndx m sym = 0 then (False, m)
                 else let value0 = st_value m sym + bias;
                          value = (if ty = R_X86_64_64 then value0 + r_addend m rel else value0)
                      in rela_loop k (Suc r) relas symtab bias (store_u64 target value m))"

definition elf_apply_rela_table :: "ptr \<Rightarrow> u64 \<Rightarrow> ptr \<Rightarrow> u64 \<Rightarrow> mem \<Rightarrow> bool \<times> mem" where
  "elf_apply_rela_table relas rela_count symtab bias m =
     rela_loop (unat rela_count) 0 relas symtab bias m"

record dyn_info =
  rela_vaddr :: u64
  rela_size :: u64
  rela_ent :: u64
  jmprel_vaddr :: u64
  jmprel_size :: u64
  symtab_vaddr :: u64

text \<open>The entries of the dynamic section up to \<^verbatim>\<open>DT_NULL\<close>; \<open>None\<close> for the refused \<^verbatim>\<open>DT_REL\<close>.\<close>

fun dyn_loop :: "nat \<Rightarrow> ptr \<Rightarrow> mem \<Rightarrow> dyn_info \<Rightarrow> dyn_info option" where
  "dyn_loop 0 d m di = Some di"
| "dyn_loop (Suc k) d m di =
     (let tag = d_tag m d; v = d_val m d; rest = dyn_loop k (d + DYN_SIZE) m
      in if tag = 0 then Some di
         else if tag = 7 then rest (di\<lparr>rela_vaddr := v\<rparr>)
         else if tag = 8 then rest (di\<lparr>rela_size := v\<rparr>)
         else if tag = 9 then rest (di\<lparr>rela_ent := v\<rparr>)
         else if tag = 23 then rest (di\<lparr>jmprel_vaddr := v\<rparr>)
         else if tag = 2 then rest (di\<lparr>jmprel_size := v\<rparr>)
         else if tag = 6 then rest (di\<lparr>symtab_vaddr := v\<rparr>)
         else if tag = 17 then None
         else rest di)"

definition dyn_start :: dyn_info where
  "dyn_start = \<lparr>rela_vaddr = 0, rela_size = 0, rela_ent = RELA_SIZE, jmprel_vaddr = 0,
     jmprel_size = 0, symtab_vaddr = 0\<rparr>"

text \<open>The first \<^verbatim>\<open>PT_DYNAMIC\<close> header: outer \<open>None\<close> for the return of -1, inner \<open>None\<close> when there is none.\<close>

fun dyn_scan :: "nat \<Rightarrow> nat \<Rightarrow> ptr \<Rightarrow> ptr \<Rightarrow> u64 \<Rightarrow> mem \<Rightarrow> dyn_info option option" where
  "dyn_scan 0 i phdrs bytes sz m = Some None"
| "dyn_scan (Suc k) i phdrs bytes sz m =
     (let ph = phdr_at phdrs i
      in if p_type m ph \<noteq> PT_DYNAMIC then dyn_scan k (Suc i) phdrs bytes sz m
         else if p_offset m ph + p_filesz m ph > sz then None
         else map_option Some
                (dyn_loop (unat (p_filesz m ph div DYN_SIZE)) (bytes + p_offset m ph) m dyn_start))"

definition elf_apply_relocations :: "ptr \<Rightarrow> u64 \<Rightarrow> ptr \<Rightarrow> u16 \<Rightarrow> u64 \<Rightarrow> mem \<Rightarrow> bool \<times> mem" where
  "elf_apply_relocations bytes sz phdrs phnum bias m =
     (case dyn_scan (unat phnum) 0 phdrs bytes sz m of
        None \<Rightarrow> (False, m)
      | Some None \<Rightarrow> (True, m)
      | Some (Some di) \<Rightarrow>
          if rela_ent di \<noteq> RELA_SIZE then (False, m)
          else let symtab = (if symtab_vaddr di \<noteq> 0 then symtab_vaddr di + bias else NULL);
                   (ok1, m1) = (if rela_vaddr di \<noteq> 0 \<and> rela_size di \<noteq> 0
                     then elf_apply_rela_table (rela_vaddr di + bias) (rela_size di div rela_ent di) symtab bias m
                     else (True, m))
               in if \<not> ok1 then (False, m1)
                  else if jmprel_vaddr di \<noteq> 0 \<and> jmprel_size di \<noteq> 0
                  then elf_apply_rela_table (jmprel_vaddr di + bias) (jmprel_size di div RELA_SIZE) symtab bias m1
                  else (True, m1))"

subsection \<open>Loading\<close>

fun seg_scan :: "nat \<Rightarrow> nat \<Rightarrow> ptr \<Rightarrow> u64 \<Rightarrow> mem \<Rightarrow> u64 \<times> u64 \<times> bool \<Rightarrow> (u64 \<times> u64 \<times> bool) option" where
  "seg_scan 0 i phdrs sz m acc = Some acc"
| "seg_scan (Suc k) i phdrs sz m (lo, hi, any_load) =
     (let ph = phdr_at phdrs i
      in if p_type m ph \<noteq> PT_LOAD then seg_scan k (Suc i) phdrs sz m (lo, hi, any_load)
         else if p_offset m ph + p_filesz m ph > sz then None
         else if p_memsz m ph < p_filesz m ph then None
         else let lo' = (if p_vaddr m ph < lo then p_vaddr m ph else lo);
                  e = p_vaddr m ph + p_memsz m ph;
                  hi' = (if e > hi then e else hi)
              in seg_scan k (Suc i) phdrs sz m (lo', hi', True))"

fun seg_copy :: "nat \<Rightarrow> nat \<Rightarrow> ptr \<Rightarrow> ptr \<Rightarrow> u64 \<Rightarrow> mem \<Rightarrow> mem" where
  "seg_copy 0 i phdrs bytes bias m = m"
| "seg_copy (Suc k) i phdrs bytes bias m =
     (let ph = phdr_at phdrs i
      in if p_type m ph \<noteq> PT_LOAD then seg_copy k (Suc i) phdrs bytes bias m
         else seg_copy k (Suc i) phdrs bytes bias
                (memcpy (p_vaddr m ph + bias) (bytes + p_offset m ph) (p_filesz m ph) m))"

definition elf_load_image :: "ptr \<Rightarrow> u64 \<Rightarrow> heap \<Rightarrow> (int \<times> elf_image \<times> heap) ret" where
  "elf_load_image data sz h =
     (let m = hmem h; fail = Some (- 1, no_image, h) in
      if data = NULL \<or> sz < EHDR_SIZE then fail
      else if \<not> elf_check_header m data then fail
      else if e_phoff m data + ucast (e_phnum m data) * ucast (e_phentsize m data) > sz then fail
      else let phdrs = data + e_phoff m data; n = unat (e_phnum m data)
           in case seg_scan n 0 phdrs sz m (- 1, 0, False) of
                None \<Rightarrow> fail
              | Some (lo, hi, any_load) \<Rightarrow>
                  if \<not> any_load \<or> hi \<le> lo then fail
                  else let span = hi - lo;
                           pages = (span + PAGE_SIZE - 1) div PAGE_SIZE
                       in do {
                         (image_base, s) \<leftarrow> pmm_alloc_pages pages (hp_pmm h);
                         if image_base = NULL then Some (- 1, no_image, h\<lparr>hp_pmm := s\<rparr>)
                         else
                           let m1 = memset image_base 0 (pages * PAGE_SIZE) m;
                               bias = image_base - lo;
                               m2 = seg_copy n 0 phdrs data bias m1;
                               (ok, m3) = (if e_type m2 data = ET_DYN
                                  then elf_apply_relocations data sz phdrs (e_phnum m2 data) bias m2
                                  else (True, m2))
                           in if \<not> ok
                              then do { s' \<leftarrow> pmm_free_pages image_base pages s;
                                        Some (- 1, no_image, h\<lparr>hp_pmm := s', hmem := m3\<rparr>) }
                              else Some (0, \<lparr>base = image_base, page_count = pages,
                                     entry = e_entry m3 data + bias, load_bias = bias\<rparr>,
                                     h\<lparr>hp_pmm := s, hmem := m3\<rparr>) })"

definition elf_unload_image :: "elf_image \<Rightarrow> heap \<Rightarrow> (elf_image \<times> heap) ret" where
  "elf_unload_image img h =
     (if base img = NULL then Some (img, h)
      else do { s \<leftarrow> pmm_free_pages (base img) (page_count img) (hp_pmm h);
                Some (no_image, h\<lparr>hp_pmm := s\<rparr>) })"

subsection \<open>What the loader should produce\<close>

record seg =
  sg_offset :: u64
  sg_vaddr :: u64
  sg_filesz :: u64
  sg_memsz :: u64

definition seg_of :: "mem \<Rightarrow> ptr \<Rightarrow> seg" where
  "seg_of m ph = \<lparr>sg_offset = p_offset m ph, sg_vaddr = p_vaddr m ph, sg_filesz = p_filesz m ph,
     sg_memsz = p_memsz m ph\<rparr>"

text \<open>The loadable segments of the program headers, in file order.\<close>

definition load_segs :: "mem \<Rightarrow> ptr \<Rightarrow> nat \<Rightarrow> nat \<Rightarrow> seg list" where
  "load_segs m phdrs i k =
     map (\<lambda>j. seg_of m (phdr_at phdrs j)) (filter (\<lambda>j. p_type m (phdr_at phdrs j) = PT_LOAD) [i..<i + k])"

definition file_segs :: "mem \<Rightarrow> ptr \<Rightarrow> seg list" where
  "file_segs m data = load_segs m (data + e_phoff m data) 0 (unat (e_phnum m data))"

text \<open>The byte of the file that belongs at an address of the image, if any: of the last segment
  that covers the address.\<close>

definition covers :: "u64 \<Rightarrow> ptr \<Rightarrow> seg \<Rightarrow> bool" where
  "covers bias a sg \<longleftrightarrow> unat (a - (sg_vaddr sg + bias)) < unat (sg_filesz sg)"

definition image_byte :: "mem \<Rightarrow> ptr \<Rightarrow> seg list \<Rightarrow> u64 \<Rightarrow> ptr \<Rightarrow> u8 option" where
  "image_byte m bytes sgs bias a =
     map_option (\<lambda>sg. m (bytes + sg_offset sg + (a - (sg_vaddr sg + bias)))) (find (covers bias a) (rev sgs))"

text \<open>A sane file: the header's table and the segments lie in the file, and no sum of the
  file's own numbers wraps.\<close>

definition elf_sane :: "mem \<Rightarrow> ptr \<Rightarrow> u64 \<Rightarrow> bool" where
  "elf_sane m data sz \<longleftrightarrow>
     unat (e_phoff m data) + unat (e_phnum m data) * 56 \<le> unat sz \<and>
     (\<forall>sg \<in> set (file_segs m data). unat (sg_offset sg) + unat (sg_filesz sg) \<le> unat sz \<and>
        unat (sg_vaddr sg) + unat (sg_memsz sg) < 2 ^ 64)"

definition in_image :: "elf_image \<Rightarrow> ptr \<Rightarrow> bool" where
  "in_image img a \<longleftrightarrow> unat (a - base img) < unat (page_count img) * 4096"

subsection \<open>Scanning the headers\<close>

lemma load_segs_Suc:
  "load_segs m phdrs i (Suc k) =
     (if p_type m (phdr_at phdrs i) = PT_LOAD then seg_of m (phdr_at phdrs i) # load_segs m phdrs (Suc i) k
      else load_segs m phdrs (Suc i) k)"
proof -
  have "[i..<i + Suc k] = i # [Suc i..<Suc i + k]" by (simp add: upt_conv_Cons)
  then show ?thesis by (simp add: load_segs_def del: upt_Suc)
qed

lemma load_segs_0 [simp]: "load_segs m phdrs i 0 = []"
  by (simp add: load_segs_def)

lemma seg_scan_bounds:
  assumes "seg_scan k i phdrs sz m (lo, hi, b) = Some (lo', hi', b')"
  shows "lo' \<le> lo \<and> hi \<le> hi' \<and> (\<forall>sg \<in> set (load_segs m phdrs i k).
    lo' \<le> sg_vaddr sg \<and> sg_vaddr sg + sg_memsz sg \<le> hi' \<and> sg_filesz sg \<le> sg_memsz sg)"
  using assms
proof (induction k arbitrary: i lo hi b)
  case (Suc k)
  let ?ph = "phdr_at phdrs i"
  show ?case
  proof (cases "p_type m ?ph = PT_LOAD")
    case True
    define l where "l = (if p_vaddr m ?ph < lo then p_vaddr m ?ph else lo)"
    define u where "u = (if p_vaddr m ?ph + p_memsz m ?ph > hi then p_vaddr m ?ph + p_memsz m ?ph else hi)"
    have "seg_scan k (Suc i) phdrs sz m (l, u, True) = Some (lo', hi', b')"
      and c: "\<not> p_memsz m ?ph < p_filesz m ?ph"
      using Suc.prems True by (auto simp: Let_def l_def u_def split: if_splits)
    from Suc.IH [OF this(1)] have ih: "lo' \<le> l" "u \<le> hi'" "\<forall>sg \<in> set (load_segs m phdrs (Suc i) k).
      lo' \<le> sg_vaddr sg \<and> sg_vaddr sg + sg_memsz sg \<le> hi' \<and> sg_filesz sg \<le> sg_memsz sg" by auto
    have "l \<le> lo" "l \<le> p_vaddr m ?ph" "hi \<le> u" "p_vaddr m ?ph + p_memsz m ?ph \<le> u"
      by (auto simp: l_def u_def not_less)
    with ih c True show ?thesis by (auto simp: load_segs_Suc seg_of_def)
  next
    case False
    with Suc show ?thesis by (auto simp: load_segs_Suc Let_def)
  qed
qed simp

text \<open>Copying the segments, as a fold over the list of segments.\<close>

definition copy_seg :: "ptr \<Rightarrow> u64 \<Rightarrow> seg \<Rightarrow> mem \<Rightarrow> mem" where
  "copy_seg bytes bias sg m = memcpy (sg_vaddr sg + bias) (bytes + sg_offset sg) (sg_filesz sg) m"

definition agree :: "ptr \<Rightarrow> u64 \<Rightarrow> mem \<Rightarrow> mem \<Rightarrow> bool" where
  "agree data sz m m' \<longleftrightarrow> (\<forall>y. unat y < unat sz \<longrightarrow> m' (data + y) = m (data + y))"

lemma agree_load:
  assumes "agree data sz m m'" and "o' + n \<le> unat sz"
  shows "load_le n m' (data + of_nat o') = (load_le n m (data + of_nat o') :: 'a::len word)"
proof (rule load_le_cong)
  fix i assume "i < n"
  then have "o' + i < unat sz" using assms(2) by simp
  moreover from this have "unat (of_nat (o' + i) :: u64) = o' + i"
    using unat_lt_64 [of sz] by (intro unat_of_nat_small) simp
  ultimately show "m' (data + of_nat o' + of_nat i) = m (data + of_nat o' + of_nat i)"
    using assms(1) [unfolded agree_def, rule_format, of "of_nat (o' + i)"] by (simp add: add.assoc)
qed

lemma agree_phdr:
  assumes "agree data sz m m'" and "o' + 56 \<le> unat sz"
  shows "p_type m' (data + of_nat o') = p_type m (data + of_nat o')"
    and "seg_of m' (data + of_nat o') = seg_of m (data + of_nat o')"
proof -
  have a: "data + of_nat (o' + k) = data + of_nat o' + of_nat k" for k by (simp add: add.assoc)
  have l: "load_u64 m' (data + of_nat o' + of_nat k) = load_u64 m (data + of_nat o' + of_nat k)"
    if "k + 8 \<le> 56" for k
    unfolding load_u64_def a [symmetric] by (rule agree_load [OF assms(1)]) (use that assms(2) in linarith)
  show "p_type m' (data + of_nat o') = p_type m (data + of_nat o')"
    unfolding p_type_def load_u32_def by (rule agree_load [OF assms(1)]) (use assms(2) in linarith)
  show "seg_of m' (data + of_nat o') = seg_of m (data + of_nat o')"
    using l [of 8, simplified of_nat_numeral] l [of 16, simplified of_nat_numeral]
      l [of 32, simplified of_nat_numeral] l [of 40, simplified of_nat_numeral]
    by (simp only: seg_of_def p_offset_def p_vaddr_def p_filesz_def p_memsz_def)
qed

text \<open>A segment that is read from the file and written into the image.\<close>

definition seg_fits :: "u64 \<Rightarrow> ptr \<Rightarrow> nat \<Rightarrow> u64 \<Rightarrow> seg \<Rightarrow> bool" where
  "seg_fits sz ib r bias sg \<longleftrightarrow> unat (sg_offset sg) + unat (sg_filesz sg) \<le> unat sz \<and>
     (\<forall>x. unat x < unat (sg_filesz sg) \<longrightarrow> unat (sg_vaddr sg + bias + x - ib) < r)"

lemma covers_in_image:
  "seg_fits sz ib r bias sg \<Longrightarrow> covers bias a sg \<Longrightarrow> unat (a - ib) < r"
  unfolding seg_fits_def covers_def by (metis add.commute diff_add_cancel)

lemma seg_src:
  assumes "seg_fits sz ib r bias sg" and "unat x < unat (sg_filesz sg)"
  shows "unat (sg_offset sg + x) < unat sz"
proof -
  have "unat (sg_offset sg) + unat x < unat sz" using assms by (simp add: seg_fits_def)
  moreover from this have "unat (sg_offset sg + x) = unat (sg_offset sg) + unat x"
    using unat_lt_64 [of sz] by (intro unat_add_nowrap) simp
  ultimately show ?thesis by simp
qed

lemma copy_seg_at:
  assumes "seg_fits sz ib r bias sg" and "apart ib r data (unat sz)"
  shows "copy_seg data bias sg m a =
    (if covers bias a sg then m (data + sg_offset sg + (a - (sg_vaddr sg + bias))) else m a)"
  unfolding copy_seg_def covers_def
proof (rule memcpy_at, rule disjI2, rule ccontr)
  let ?d = "sg_vaddr sg + bias" and ?s = "data + sg_offset sg"
  assume "\<not> unat (sg_filesz sg) \<le> unat (?d - ?s)"
  then have lt: "unat (?d - ?s) < unat (sg_filesz sg)" by simp
  have "unat (?d + 0 - ib) < r" using assms(1) lt unfolding seg_fits_def by (metis unat_0 bot_nat_0.extremum_strict bot_nat_0.not_eq_extremum)
  then have "ib + (?d - ib) \<noteq> data + (sg_offset sg + (?d - ?s))"
    using assms(2) [unfolded apart_def, rule_format, of "?d - ib"] seg_src [OF assms(1) lt] by (metis add_0_right)
  then show False by (simp add: algebra_simps)
qed

lemma agree_copy:
  assumes "seg_fits sz ib r bias sg" and "apart ib r data (unat sz)" and "agree data sz m m'"
  shows "agree data sz m (copy_seg data bias sg m')"
  unfolding agree_def
proof (intro allI impI)
  fix y :: u64 assume y: "unat y < unat sz"
  have "\<not> covers bias (data + y) sg"
    using covers_in_image [OF assms(1), of "data + y"] assms(2) y unfolding apart_def
    by (metis add.commute diff_add_cancel)
  then show "copy_seg data bias sg m' (data + y) = m (data + y)"
    using assms(3) y by (simp add: copy_seg_at [OF assms(1,2)] agree_def)
qed

lemma copy_segs_at:
  assumes "\<forall>sg \<in> set sgs. seg_fits sz ib r bias sg" and "apart ib r data (unat sz)" and "agree data sz m m'"
  shows "fold (copy_seg data bias) sgs m' a =
      (case image_byte m data sgs bias a of Some b \<Rightarrow> b | None \<Rightarrow> m' a) \<and>
    agree data sz m (fold (copy_seg data bias) sgs m')"
  using assms(1)
proof (induction sgs arbitrary: a rule: rev_induct)
  case Nil
  then show ?case using assms(3) by (simp add: image_byte_def)
next
  case (snoc sg sgs)
  let ?m = "fold (copy_seg data bias) sgs m'"
  have f: "seg_fits sz ib r bias sg" using snoc.prems by simp
  have ag: "agree data sz m ?m" using snoc by simp
  show ?case
  proof (cases "covers bias a sg")
    case True
    then have "unat (sg_offset sg + (a - (sg_vaddr sg + bias))) < unat sz"
      using seg_src [OF f] by (simp add: covers_def)
    then have "?m (data + sg_offset sg + (a - (sg_vaddr sg + bias))) =
        m (data + sg_offset sg + (a - (sg_vaddr sg + bias)))"
      using ag [unfolded agree_def, rule_format, of "sg_offset sg + (a - (sg_vaddr sg + bias))"]
      by (simp only: add.assoc)
    with True copy_seg_at [OF f assms(2), of ?m a] agree_copy [OF f assms(2) ag] show ?thesis
      by (simp add: image_byte_def)
  next
    case False
    then have "image_byte m data (sgs @ [sg]) bias a = image_byte m data sgs bias a"
      by (simp add: image_byte_def)
    with False copy_seg_at [OF f assms(2), of ?m a] agree_copy [OF f assms(2) ag] snoc show ?thesis
      by simp
  qed
qed

lemma seg_copy_fold:
  assumes "agree data sz m m'" and "apart ib r data (unat sz)" and "po + (i + k) * 56 \<le> unat sz"
    and "\<forall>sg \<in> set (load_segs m (data + of_nat po) i k). seg_fits sz ib r bias sg"
  shows "seg_copy k i (data + of_nat po) data bias m' =
    fold (copy_seg data bias) (load_segs m (data + of_nat po) i k) m'"
  using assms
proof (induction k arbitrary: i m')
  case (Suc k)
  let ?ph = "phdr_at (data + of_nat po) i"
  have ph: "?ph = data + of_nat (po + i * 56)" by (simp add: phdr_at_def PHDR_SIZE_def)
  have "po + i * 56 + 56 \<le> unat sz" using Suc.prems(3) by simp
  from agree_phdr [OF Suc.prems(1) this]
  have t: "p_type m' ?ph = p_type m ?ph" "seg_of m' ?ph = seg_of m ?ph" by (simp_all only: ph)
  have rng: "po + (Suc i + k) * 56 \<le> unat sz" using Suc.prems(3) by simp
  show ?case
  proof (cases "p_type m ?ph = PT_LOAD")
    case True
    have f: "seg_fits sz ib r bias (seg_of m ?ph)" using Suc.prems(4) True by (simp add: load_segs_Suc)
    have "memcpy (p_vaddr m' ?ph + bias) (data + p_offset m' ?ph) (p_filesz m' ?ph) m' =
        copy_seg data bias (seg_of m ?ph) m'"
      using t(2) by (simp add: copy_seg_def seg_of_def)
    with Suc.IH [OF agree_copy [OF f Suc.prems(2,1)] Suc.prems(2) rng] Suc.prems(4) True t(1)
    show ?thesis by (simp add: load_segs_Suc)
  next
    case False
    with Suc.IH [OF Suc.prems(1,2) rng] Suc.prems(4) t(1) show ?thesis by (simp add: load_segs_Suc)
  qed
qed simp

subsection \<open>The image\<close>

lemma div_ceil_room:
  assumes "(x + PAGE_SIZE - 1) div PAGE_SIZE \<noteq> (0 :: u64)"
  shows "unat x \<le> unat ((x + PAGE_SIZE - 1) div PAGE_SIZE) * 4096"
proof (cases "unat x + 4095 < 2 ^ 64")
  case True
  then have u: "unat (x + 4095) = unat x + 4095" by (subst unat_add_nowrap) auto
  have e: "x + PAGE_SIZE - 1 = x + 4095" by (simp add: PAGE_SIZE_def)
  show ?thesis unfolding e unat_div u by simp
next
  case False
  then have "unat (x + 4095) = unat x + 4095 - 2 ^ 64"
    using unat_lt_64 [of x] by (simp add: unat_word_ariths mod_if)
  then have "unat (x + 4095) div 4096 = 0" using unat_lt_64 [of x] by simp
  moreover have "x + PAGE_SIZE - 1 = x + 4095" by (simp add: PAGE_SIZE_def)
  ultimately have "unat ((x + PAGE_SIZE - 1) div PAGE_SIZE) = 0" by (simp only: unat_div unat_PAGE_SIZE)
  with assms show ?thesis by (simp add: unat_eq_0)
qed

lemma seg_in_span:
  assumes "lo \<le> sg_vaddr sg" and "sg_vaddr sg + sg_memsz sg \<le> hi"
    and "unat (sg_vaddr sg) + unat (sg_memsz sg) < 2 ^ 64" and "unat x < unat (sg_memsz sg)"
  shows "unat (sg_vaddr sg + (ib - lo) + x - ib) < unat (hi - lo)"
proof -
  have e: "unat (sg_vaddr sg + sg_memsz sg) = unat (sg_vaddr sg) + unat (sg_memsz sg)"
    using assms(3) by (intro unat_add_nowrap) simp
  have v: "unat (sg_vaddr sg + x) = unat (sg_vaddr sg) + unat x"
    using assms(3,4) by (intro unat_add_nowrap) simp
  have le: "unat lo \<le> unat (sg_vaddr sg)" "unat (sg_vaddr sg) + unat (sg_memsz sg) \<le> unat hi"
    using assms(1,2) e by (simp_all add: word_le_nat_alt)
  have s: "sg_vaddr sg + (ib - lo) + x - ib = (sg_vaddr sg + x) - lo" by (simp add: algebra_simps)
  have "unat ((sg_vaddr sg + x) - lo) = unat (sg_vaddr sg) + unat x - unat lo"
    using le v by (subst unat_diff_nowrap) simp_all
  moreover have "unat (hi - lo) = unat hi - unat lo" using le by (intro unat_diff_nowrap) simp
  ultimately show ?thesis unfolding s using le assms(4) by linarith
qed

text \<open>The memory after zeroing the run and copying the segments into it.\<close>

lemma loaded_memory:
  assumes inv: "heap_inv F B h" and d: "B data = Some sz" and sane: "elf_sane (hmem h) data sz"
    and scan: "seg_scan (unat (e_phnum (hmem h) data)) 0 (data + e_phoff (hmem h) data) sz (hmem h)
        (- 1, 0, False) = Some (lo, hi, True)"
    and pg: "pages = ((hi - lo) + PAGE_SIZE - 1) div PAGE_SIZE"
    and al: "pmm_alloc_pages pages (hp_pmm h) = Some (ib, s)" and nn: "ib \<noteq> NULL"
    and m2: "m2 = seg_copy (unat (e_phnum (hmem h) data)) 0 (data + e_phoff (hmem h) data) data (ib - lo)
        (memset ib 0 (pages * PAGE_SIZE) (hmem h))"
  shows "F ib = None" and "heap_inv (F(ib \<mapsto> pages)) B (h\<lparr>hp_pmm := s\<rparr>)"
    and "agree data sz (hmem h) m2"
    and "\<forall>sg \<in> set (file_segs (hmem h) data). \<forall>x. unat x < unat (sg_memsz sg) \<longrightarrow>
        unat (sg_vaddr sg + (ib - lo) + x - ib) < unat pages * 4096"
    and "m2 a = (if unat (a - ib) < unat pages * 4096
        then (case image_byte (hmem h) data (file_segs (hmem h) data) (ib - lo) a of Some b \<Rightarrow> b | None \<Rightarrow> 0)
        else hmem h a)"
proof -
  let ?m = "hmem h" and ?bias = "ib - lo" and ?r = "unat pages * 4096" and ?po = "unat (e_phoff (hmem h) data)"
  let ?segs = "file_segs ?m data"
  from heap_page_alloc [OF inv al nn] show Fi: "F ib = None" "heap_inv (F(ib \<mapsto> pages)) B (h\<lparr>hp_pmm := s\<rparr>)"
    by auto
  from heap_page_alloc [OF inv al nn] have p0: "pages \<noteq> 0" by auto
  have bd: "?r \<le> 2 ^ 63"
  proof -
    have "(F(ib \<mapsto> pages) ++ block_runs B) ib = Some pages"
      using Fi(2) by (auto simp: heap_inv_def map_add_def split: option.splits)
    from heap_run_bound [OF Fi(2) this] show ?thesis .
  qed
  then have us: "unat (pages * PAGE_SIZE) = ?r" by (simp add: unat_word_ariths)
  have ap: "apart ib ?r data (unat sz)"
    unfolding apart_def using heap_run_block_disjoint [OF Fi(2) _ d] by simp
  have span: "unat (hi - lo) \<le> ?r" using div_ceil_room p0 pg by blast
  have sb: "lo \<le> sg_vaddr sg \<and> sg_vaddr sg + sg_memsz sg \<le> hi \<and> sg_filesz sg \<le> sg_memsz sg"
    if "sg \<in> set ?segs" for sg
    using seg_scan_bounds [OF scan] that unfolding file_segs_def by blast
  have sn: "unat (sg_offset sg) + unat (sg_filesz sg) \<le> unat sz \<and> unat (sg_vaddr sg) + unat (sg_memsz sg) < 2 ^ 64"
    if "sg \<in> set ?segs" for sg
    using sane that unfolding elf_sane_def by blast
  have inr: "unat (sg_vaddr sg + ?bias + x - ib) < ?r" if "sg \<in> set ?segs" "unat x < unat (sg_memsz sg)" for sg x
    using seg_in_span [of lo sg hi x ib] sb [OF that(1)] sn [OF that(1)] that(2) span by linarith
  then show "\<forall>sg \<in> set ?segs. \<forall>x. unat x < unat (sg_memsz sg) \<longrightarrow> unat (sg_vaddr sg + ?bias + x - ib) < ?r" by blast
  have fits: "\<forall>sg \<in> set ?segs. seg_fits sz ib ?r ?bias sg"
  proof
    fix sg assume g: "sg \<in> set ?segs"
    have "unat (sg_filesz sg) \<le> unat (sg_memsz sg)" using sb [OF g] by (simp add: word_le_nat_alt)
    with inr [OF g] sn [OF g] show "seg_fits sz ib ?r ?bias sg" by (simp add: seg_fits_def)
  qed
  let ?m1 = "memset ib 0 (pages * PAGE_SIZE) ?m"
  have m1: "?m1 a = (if unat (a - ib) < ?r then 0 else ?m a)" for a by (simp add: memset_at us)
  have ag: "agree data sz ?m ?m1"
    unfolding agree_def m1 using ap unfolding apart_def by (metis add.commute diff_add_cancel)
  have po: "data + e_phoff ?m data = data + of_nat ?po" by simp
  have tb: "?po + (0 + unat (e_phnum ?m data)) * 56 \<le> unat sz" using sane by (simp add: elf_sane_def)
  have f: "m2 = fold (copy_seg data ?bias) ?segs ?m1"
    unfolding m2 po file_segs_def
    by (rule seg_copy_fold [OF ag ap tb]) (use fits in \<open>simp add: file_segs_def\<close>)
  show "agree data sz ?m m2" using copy_segs_at [OF fits ap ag] f by simp
  show "m2 a = (if unat (a - ib) < ?r
        then (case image_byte ?m data ?segs ?bias a of Some b \<Rightarrow> b | None \<Rightarrow> 0) else ?m a)"
  proof (cases "unat (a - ib) < ?r")
    case True
    then show ?thesis using copy_segs_at [OF fits ap ag, of a] f m1 [of a] by (simp split: option.split)
  next
    case False
    then have "\<not> covers ?bias a sg" if "sg \<in> set ?segs" for sg
      using covers_in_image fits that by blast
    then have "find (covers ?bias a) (rev ?segs) = None" by (simp add: find_None_iff)
    then have "image_byte ?m data ?segs ?bias a = None" by (simp add: image_byte_def)
    then show ?thesis using copy_segs_at [OF fits ap ag, of a] f m1 [of a] False by simp
  qed
qed

lemma agree_header:
  assumes "agree data sz m m'" and "64 \<le> unat sz"
  shows "e_type m' data = e_type m data" "e_entry m' data = e_entry m data" "e_phnum m' data = e_phnum m data"
  using agree_load [OF assms(1), of 16 2, where 'a = 16] agree_load [OF assms(1), of 24 8, where 'a = 64]
    agree_load [OF assms(1), of 56 2, where 'a = 16] assms(2)
  by (simp_all add: e_type_def e_entry_def e_phnum_def load_u16_def load_u64_def)

lemma seg_scan_flag:
  assumes "seg_scan k i phdrs sz m (lo, hi, b) = Some (lo', hi', b')"
  shows "b' \<longleftrightarrow> b \<or> load_segs m phdrs i k \<noteq> []"
  using assms by (induction k arbitrary: i lo hi b) (auto simp: load_segs_Suc Let_def split: if_splits)

text \<open>The ways through \<open>elf_load_image\<close>: refusal without a trace, or a scan that found segments and
  an allocation, with the rest of the work still to be done.\<close>

lemma elf_load_cases:
  assumes "heap_inv F B h"
  obtains (refused) "elf_load_image data sz h = Some (- 1, no_image, h)"
    | (loaded) lo hi pages ib s m2 where
        "data \<noteq> NULL" "64 \<le> unat sz" "elf_check_header (hmem h) data"
        "seg_scan (unat (e_phnum (hmem h) data)) 0 (data + e_phoff (hmem h) data) sz (hmem h)
          (- 1, 0, False) = Some (lo, hi, True)"
        "pages = ((hi - lo) + PAGE_SIZE - 1) div PAGE_SIZE"
        "pmm_alloc_pages pages (hp_pmm h) = Some (ib, s)" "ib \<noteq> NULL"
        "m2 = seg_copy (unat (e_phnum (hmem h) data)) 0 (data + e_phoff (hmem h) data) data (ib - lo)
          (memset ib 0 (pages * PAGE_SIZE) (hmem h))"
        "elf_load_image data sz h =
          (let (ok, m3) = (if e_type m2 data = ET_DYN
              then elf_apply_relocations data sz (data + e_phoff (hmem h) data) (e_phnum m2 data) (ib - lo) m2
              else (True, m2))
           in if \<not> ok
              then do { s' \<leftarrow> pmm_free_pages ib pages s; Some (- 1, no_image, h\<lparr>hp_pmm := s', hmem := m3\<rparr>) }
              else Some (0, \<lparr>base = ib, page_count = pages, entry = e_entry m3 data + (ib - lo),
                     load_bias = ib - lo\<rparr>, h\<lparr>hp_pmm := s, hmem := m3\<rparr>))"
proof -
  let ?m = "hmem h" and ?ph = "data + e_phoff (hmem h) data" and ?n = "unat (e_phnum (hmem h) data)"
  consider (bad) "data = NULL \<or> sz < EHDR_SIZE \<or> \<not> elf_check_header ?m data \<or>
      e_phoff ?m data + ucast (e_phnum ?m data) * ucast (e_phentsize ?m data) > sz"
    | (noscan) "seg_scan ?n 0 ?ph sz ?m (- 1, 0, False) = None"
    | (ok) lo hi b where "\<not> (data = NULL \<or> sz < EHDR_SIZE \<or> \<not> elf_check_header ?m data \<or>
      e_phoff ?m data + ucast (e_phnum ?m data) * ucast (e_phentsize ?m data) > sz)"
      "seg_scan ?n 0 ?ph sz ?m (- 1, 0, False) = Some (lo, hi, b)"
    by (cases "seg_scan ?n 0 ?ph sz ?m (- 1, 0, False)") auto
  then show thesis
  proof cases
    case bad
    with refused show thesis by (auto simp: elf_load_image_def Let_def)
  next
    case noscan
    with refused show thesis by (auto simp: elf_load_image_def Let_def)
  next
    case (ok lo hi b)
    show thesis
    proof (cases "\<not> b \<or> hi \<le> lo")
      case True
      with ok refused show thesis by (auto simp: elf_load_image_def Let_def)
    next
      case False
      define pages where "pages = ((hi - lo) + PAGE_SIZE - 1) div PAGE_SIZE"
      have inv: "pmm_inv (hp_pmm h)" using assms by (simp add: heap_inv_def)
      from pa.alloc_returns [OF inv] obtain ib s where al: "pmm_alloc_pages pages (hp_pmm h) = Some (ib, s)"
        by blast
      show thesis
      proof (cases "ib = NULL")
        case True
        with pa.alloc_null [OF inv] al have "s = hp_pmm h" by blast
        with True ok False al refused show thesis
          by (auto simp: elf_load_image_def Let_def pages_def)
      next
        case nn: False
        have "64 \<le> unat sz" using ok(1) by (auto simp: EHDR_SIZE_def word_less_nat_alt)
        moreover have "b" using False by simp
        ultimately show thesis
          using ok False al nn
          by (intro loaded [of lo hi pages ib s, OF _ _ _ _ pages_def al nn refl])
            (auto simp: elf_load_image_def Let_def pages_def split: prod.splits)
      qed
    qed
  qed
qed

subsection \<open>Properties\<close>

text \<open>
  Property C7: loading an executable that is linked to fixed addresses. For a file in a heap block
  whose numbers are sane, \<^verbatim>\<open>elf_load_image\<close> always returns. Either it refuses and nothing has
  changed, or the image is a fresh run of pages in which every loadable segment has its place;
  every byte of the image is the byte of the file the program headers put there, or zero where
  they put none; not a byte outside the image has changed; and the entry point is the header's,
  moved like the segments.
\<close>

theorem elf_load_image_exec:
  assumes "heap_inv F B h" and "B data = Some sz" and "elf_sane (hmem h) data sz"
    and "e_type (hmem h) data = ET_EXEC"
  shows "\<exists>r img h'. elf_load_image data sz h = Some (r, img, h') \<and>
    (if r = 0 then elf_check_header (hmem h) data \<and> file_segs (hmem h) data \<noteq> [] \<and>
       F (base img) = None \<and> heap_inv (F(base img \<mapsto> page_count img)) B h' \<and>
       entry img = e_entry (hmem h) data + load_bias img \<and>
       (\<forall>sg \<in> set (file_segs (hmem h) data). \<forall>x. unat x < unat (sg_memsz sg) \<longrightarrow>
          in_image img (sg_vaddr sg + load_bias img + x)) \<and>
       (\<forall>a. hmem h' a = (if in_image img a
          then (case image_byte (hmem h) data (file_segs (hmem h) data) (load_bias img) a of
                  Some b \<Rightarrow> b | None \<Rightarrow> 0)
          else hmem h a))
     else r = - 1 \<and> h' = h)"
  using assms(1)
proof (cases rule: elf_load_cases [where data = data and sz = sz])
  case refused
  then show ?thesis by simp
next
  case (loaded lo hi pages ib s m2)
  note lm = loaded_memory [OF assms(1-3) loaded(4-8)]
  have t: "e_type m2 data \<noteq> ET_DYN" "e_entry m2 data = e_entry (hmem h) data"
    using agree_header [OF lm(3) loaded(2)] assms(4) by (simp_all add: ET_EXEC_def ET_DYN_def)
  let ?img = "\<lparr>base = ib, page_count = pages, entry = e_entry m2 data + (ib - lo), load_bias = ib - lo\<rparr>"
  let ?h = "h\<lparr>hp_pmm := s, hmem := m2\<rparr>"
  have e: "elf_load_image data sz h = Some (0, ?img, ?h)" using loaded(9) t(1) by simp
  have segs: "file_segs (hmem h) data \<noteq> []" using seg_scan_flag [OF loaded(4)] by (simp add: file_segs_def)
  have hi: "heap_inv (F(ib \<mapsto> pages)) B ?h"
    using lm(2) by (simp add: heap_inv_def)
  show ?thesis
    unfolding e using loaded(3) segs lm(1,4,5) hi t(2)
    by (intro exI [of _ 0] exI [of _ ?img] exI [of _ ?h]) (simp add: in_image_def)
qed


text \<open>A file of one segment with 16 bytes in the file and 32 in memory, at virtual address 0x400000.\<close>

definition elf_bytes :: "u8 list" where
  "elf_bytes =
     [0x7F, 0x45, 0x4C, 0x46, 2, 1, 1, 0, 0, 0, 0, 0, 0, 0, 0, 0,
      2, 0, 62, 0, 1, 0, 0, 0, 0x08, 0x00, 0x40, 0, 0, 0, 0, 0,
      64, 0, 0, 0, 0, 0, 0, 0, 0, 0, 0, 0, 0, 0, 0, 0,
      0, 0, 0, 0, 64, 0, 56, 0, 1, 0, 0, 0, 0, 0, 0, 0,
      1, 0, 0, 0, 5, 0, 0, 0, 120, 0, 0, 0, 0, 0, 0, 0,
      0, 0, 0x40, 0, 0, 0, 0, 0, 0, 0, 0, 0, 0, 0, 0, 0,
      16, 0, 0, 0, 0, 0, 0, 0, 32, 0, 0, 0, 0, 0, 0, 0,
      0, 16, 0, 0, 0, 0, 0, 0,
      0xA0, 0xA1, 0xA2, 0xA3, 0xA4, 0xA5, 0xA6, 0xA7, 0xA8, 0xA9, 0xAA, 0xAB, 0xAC, 0xAD, 0xAE, 0xAF]"

definition elf_example :: heap where
  "elf_example = (case kmalloc 136 heap_example of
     Some (p, h) \<Rightarrow> h\<lparr>hmem := (\<lambda>a. if unat (a - p) < 136 then elf_bytes ! unat (a - p) else 0)\<rparr>)"

lemma elf_load_accepts:
  assumes "heap_inv F B h" and "B data = Some sz" and "elf_sane (hmem h) data sz"
    and "e_type (hmem h) data = ET_EXEC" and "64 \<le> unat sz" and "elf_check_header (hmem h) data"
    and "\<not> e_phoff (hmem h) data + ucast (e_phnum (hmem h) data) * ucast (e_phentsize (hmem h) data) > sz"
    and "seg_scan (unat (e_phnum (hmem h) data)) 0 (data + e_phoff (hmem h) data) sz (hmem h)
        (- 1, 0, False) = Some (lo, hi, True)" and "lo < hi"
    and "pmm_alloc_pages (((hi - lo) + PAGE_SIZE - 1) div PAGE_SIZE) (hp_pmm h) = Some (ib, s)" and "ib \<noteq> NULL"
  shows "\<exists>img h'. elf_load_image data sz h = Some (0, img, h')"
proof -
  note lm = loaded_memory [OF assms(1-3,8) refl assms(10,11) refl]
  have "data \<noteq> NULL" using assms(1,2) by (auto simp: heap_inv_def)
  moreover have "\<not> sz < EHDR_SIZE" using assms(5) by (simp add: EHDR_SIZE_def word_less_nat_alt)
  ultimately show ?thesis
    using agree_header(1) [OF lm(3) assms(5)] assms(4,6-11)
    by (simp add: elf_load_image_def Let_def ET_EXEC_def ET_DYN_def not_le [symmetric])
qed

lemma elf_example_block: "heap_inv Map.empty [0xFFFF800000004010 \<mapsto> 136] elf_example"
proof -
  have "map_option fst (kmalloc 136 heap_example) = Some 0xFFFF800000004010" by code_simp
  then obtain h where h: "kmalloc 136 heap_example = Some (0xFFFF800000004010, h)" by auto
  have "heap_inv Map.empty [0xFFFF800000004010 \<mapsto> 136] h"
    using heap_example_inv by (rule kmalloc_cases [where n = 136]) (use h in auto)
  then show ?thesis by (simp add: elf_example_def h)
qed

lemma elf_example_file:
  "file_segs (hmem elf_example) 0xFFFF800000004010 =
     [\<lparr>sg_offset = 120, sg_vaddr = 0x400000, sg_filesz = 16, sg_memsz = 32\<rparr>]"
  "e_type (hmem elf_example) 0xFFFF800000004010 = ET_EXEC"
  "e_phoff (hmem elf_example) 0xFFFF800000004010 = 64"
  "e_phnum (hmem elf_example) 0xFFFF800000004010 = 1"
  "e_phentsize (hmem elf_example) 0xFFFF800000004010 = 56"
  "elf_check_header (hmem elf_example) 0xFFFF800000004010"
  "seg_scan 1 0 0xFFFF800000004050 136 (hmem elf_example) (- 1, 0, False) = Some (0x400000, 0x400020, True)"
  "map_option fst (pmm_alloc_pages 1 (hp_pmm elf_example)) = Some 0xFFFF800000005000"
  by code_simp+

lemma elf_example_sane: "elf_sane (hmem elf_example) 0xFFFF800000004010 136"
  by (simp add: elf_sane_def elf_example_file)

theorem elf_load_image_exec_witness:
  "heap_inv Map.empty [0xFFFF800000004010 \<mapsto> 136] elf_example \<and>
   elf_sane (hmem elf_example) 0xFFFF800000004010 136 \<and>
   (\<exists>img h'. elf_load_image 0xFFFF800000004010 136 elf_example = Some (0, img, h') \<and>
      heap_inv [base img \<mapsto> page_count img] [0xFFFF800000004010 \<mapsto> 136] h' \<and>
      in_image img (0x400000 + load_bias img + 16) \<and> hmem h' (0x400000 + load_bias img + 3) = 0xA3)"
proof -
  obtain s where s: "pmm_alloc_pages 1 (hp_pmm elf_example) = Some (0xFFFF800000005000, s)"
    using elf_example_file(8) by auto
  have pg: "((0x400020 - 0x400000) + PAGE_SIZE - 1) div PAGE_SIZE = 1" by (simp add: PAGE_SIZE_def)
  have "\<exists>img h'. elf_load_image 0xFFFF800000004010 136 elf_example = Some (0, img, h')"
    using elf_example_file s pg
    by (intro elf_load_accepts [OF elf_example_block _ elf_example_sane, where lo = "0x400000" and hi = "0x400020"
          and ib = "0xFFFF800000005000" and s = s]) (simp_all)
  then obtain img h' where l: "elf_load_image 0xFFFF800000004010 136 elf_example = Some (0, img, h')" by blast
  have "[0xFFFF800000004010 \<mapsto> 136] (0xFFFF800000004010 :: ptr) = Some (136 :: u64)" by simp
  from elf_load_image_exec [OF elf_example_block this elf_example_sane elf_example_file(2)] l have
    r: "heap_inv [base img \<mapsto> page_count img] [0xFFFF800000004010 \<mapsto> 136] h'"
      "\<forall>x. unat x < 32 \<longrightarrow> in_image img (0x400000 + load_bias img + x)"
      "\<forall>a. hmem h' a = (if in_image img a
          then (case image_byte (hmem elf_example) 0xFFFF800000004010
                  [\<lparr>sg_offset = 120, sg_vaddr = 0x400000, sg_filesz = 16, sg_memsz = 32\<rparr>] (load_bias img) a of
                  Some b \<Rightarrow> b | None \<Rightarrow> 0)
          else hmem elf_example a)"
    by (auto simp: elf_example_file)
  have "unat (16 :: u64) < 32" "unat (3 :: u64) < 32" by simp_all
  then have i: "in_image img (0x400000 + load_bias img + 16)" "in_image img (0x400000 + load_bias img + 3)"
    using r(2) by blast+
  have "hmem elf_example (0xFFFF800000004010 + 123) = 0xA3" by code_simp
  then have "image_byte (hmem elf_example) 0xFFFF800000004010
      [\<lparr>sg_offset = 120, sg_vaddr = 0x400000, sg_filesz = 16, sg_memsz = 32\<rparr>] (load_bias img)
      (0x400000 + load_bias img + 3) = Some 0xA3"
    by (simp add: image_byte_def covers_def)
  with r i l elf_example_block elf_example_sane show ?thesis by auto
qed


end
