(* ===== verification/Task.thy ===== *)
theory Task
  imports UserPages Elf
begin

text \<open>
  Tasks and the scheduler, \<^verbatim>\<open>kernel/system/task.c\<close> (with the per-CPU record of \<^verbatim>\<open>smp.h\<close>). The
  store \<open>tasks\<close> holds the structure \<^verbatim>\<open>Task\<close> at each address, \<open>t_next\<close> links the ring of the run
  queue and \<open>t_list_next\<close> the list of all tasks. Operations take the index \<open>c\<close> of the CPU
  that executes them (\<^verbatim>\<open>this_cpu()\<close>); the big kernel lock makes each a single step. The model of
  \<open>schedule\<close> ends where \<^verbatim>\<open>task_switch_asm\<close> moves the CPU to the stack of the next task: what a
  caller does after \<open>schedule\<close> returns to it is an operation of its own (\<open>task_block_return\<close>).
  Loops over the ring are \<^theory_text>\<open>partial_function\<close>s, so a ring that is not closed is \<open>None\<close>, like
  the dereference of NULL. Character arrays are the strings they hold.
\<close>

datatype task_state = TASK_READY | TASK_RUNNING | TASK_SLEEPING | TASK_DEAD

record task =
  t_name :: string
  t_state :: task_state
  t_saved_rsp :: u64
  t_wake_tick :: u64
  t_waiting :: bool
  t_stdio :: "int list"
  t_cwd :: string
  t_pid :: u64
  t_exit_code :: int
  t_detached :: bool
  t_kill_pending :: bool
  t_in_kcall :: bool
  t_resched_pending :: bool
  t_cpu_ticks :: u64
  t_stack_base :: ptr
  t_stack_pages :: u64
  t_args :: ptr
  t_image :: elf_image
  t_owns_image :: bool
  t_fcw :: u16
  t_mxcsr :: u32
  t_next :: ptr
  t_list_next :: ptr

record cpu =
  c_current :: ptr
  c_idle :: ptr
  c_ticks :: u64
  c_busy_ticks :: u64

record sched =
  tasks :: "ptr \<Rightarrow> task"
  task_list :: ptr
  kernel_task :: ptr
  task_run_queue :: ptr
  g_tick_count :: u64
  next_pid :: u64
  cpus :: "nat \<Rightarrow> cpu"
  sc_mem :: user_pages

definition TASK_SIZE :: u64 where "TASK_SIZE = 976"
definition TASK_STACK_SIZE :: u64 where "TASK_STACK_SIZE = 256 * 1024"
definition TASK_IDLE_STACK_SIZE :: u64 where "TASK_IDLE_STACK_SIZE = 64 * 1024"
definition TASK_NAME_MAX :: nat where "TASK_NAME_MAX = 64"
definition SCHEDULER_HZ :: u64 where "SCHEDULER_HZ = 1000"
definition TASK_BLOCK_FOREVER :: u32 where "TASK_BLOCK_FOREVER = 0xFFFFFFFF"

definition task_zero :: task where
  "task_zero = \<lparr>t_name = [], t_state = TASK_READY, t_saved_rsp = 0, t_wake_tick = 0, t_waiting = False,
     t_stdio = [0, 0, 0], t_cwd = [], t_pid = 0, t_exit_code = 0, t_detached = False,
     t_kill_pending = False, t_in_kcall = False, t_resched_pending = False, t_cpu_ticks = 0,
     t_stack_base = NULL, t_stack_pages = 0, t_args = NULL, t_image = no_image, t_owns_image = False,
     t_fcw = 0, t_mxcsr = 0, t_next = NULL, t_list_next = NULL\<rparr>"

definition upd_task :: "ptr \<Rightarrow> (task \<Rightarrow> task) \<Rightarrow> sched \<Rightarrow> sched" where
  "upd_task t f s = s\<lparr>tasks := (tasks s)(t := f (tasks s t))\<rparr>"

definition upd_cpu :: "nat \<Rightarrow> (cpu \<Rightarrow> cpu) \<Rightarrow> sched \<Rightarrow> sched" where
  "upd_cpu c f s = s\<lparr>cpus := (cpus s)(c := f (cpus s c))\<rparr>"

subsection \<open>The list of all tasks\<close>

definition task_alloc :: "sched \<Rightarrow> (ptr \<times> sched) ret" where
  "task_alloc s =
     do { (t, h) \<leftarrow> kmalloc TASK_SIZE (up_heap (sc_mem s));
          let s1 = s\<lparr>sc_mem := (sc_mem s)\<lparr>up_heap := h\<rparr>\<rparr>
          in if t = NULL then Some (NULL, s1)
             else Some (t, s1\<lparr>tasks := (tasks s1)(t := task_zero\<lparr>t_list_next := task_list s1\<rparr>),
                              task_list := t\<rparr>) }"

text \<open>A \<^verbatim>\<open>Task **\<close> is the list head (\<open>None\<close>) or the \<^verbatim>\<open>list_next\<close> field of a task.\<close>

definition get_link :: "ptr option \<Rightarrow> sched \<Rightarrow> ptr" where
  "get_link l s = (case l of None \<Rightarrow> task_list s | Some p \<Rightarrow> t_list_next (tasks s p))"

definition set_link :: "ptr option \<Rightarrow> ptr \<Rightarrow> sched \<Rightarrow> sched" where
  "set_link l v s = (case l of None \<Rightarrow> s\<lparr>task_list := v\<rparr> | Some p \<Rightarrow> upd_task p (t_list_next_update (\<lambda>_. v)) s)"

partial_function (option) unlink_loop :: "ptr option \<Rightarrow> ptr \<Rightarrow> sched \<Rightarrow> sched ret" where
  [code]: "unlink_loop l t s =
     (if get_link l s = NULL then Some s
      else if get_link l s = t then Some (set_link l (t_list_next (tasks s t)) s)
      else unlink_loop (Some (get_link l s)) t s)"

definition task_free :: "ptr \<Rightarrow> sched \<Rightarrow> sched ret" where
  "task_free t s =
     do { s1 \<leftarrow> unlink_loop None t s;
          h \<leftarrow> kfree t (up_heap (sc_mem s1));
          Some (s1\<lparr>sc_mem := (sc_mem s1)\<lparr>up_heap := h\<rparr>\<rparr>) }"

subsection \<open>The run queue\<close>

definition run_queue_push :: "ptr \<Rightarrow> sched \<Rightarrow> sched" where
  "run_queue_push t s =
     (if task_run_queue s = NULL
      then upd_task t (t_next_update (\<lambda>_. t)) (s\<lparr>task_run_queue := t\<rparr>)
      else let q = task_run_queue s;
               s1 = upd_task t (t_next_update (\<lambda>_. t_next (tasks s q))) s
           in upd_task q (t_next_update (\<lambda>_. t)) s1)"

partial_function (option) remove_loop :: "ptr \<Rightarrow> ptr \<Rightarrow> sched \<Rightarrow> sched ret" where
  [code]: "remove_loop p t s =
     (let n = t_next (tasks s p)
      in if n = t
         then let s1 = upd_task p (t_next_update (\<lambda>_. t_next (tasks s t))) s
              in Some (if task_run_queue s1 = t then s1\<lparr>task_run_queue := t_next (tasks s1 t)\<rparr> else s1)
         else if n \<noteq> task_run_queue s then remove_loop n t s
         else Some s)"

definition run_queue_remove :: "ptr \<Rightarrow> sched \<Rightarrow> sched ret" where
  "run_queue_remove t s =
     (if task_run_queue s = NULL then Some s
      else if task_run_queue s = t \<and> t_next (tasks s (task_run_queue s)) = t
      then Some (s\<lparr>task_run_queue := NULL\<rparr>)
      else remove_loop (task_run_queue s) t s)"

partial_function (option) pick_loop :: "ptr \<Rightarrow> sched \<Rightarrow> (ptr \<times> sched) ret" where
  [code]: "pick_loop t s =
     (let n = t_next (tasks s t)
      in if t_state (tasks s n) = TASK_READY then Some (n, s\<lparr>task_run_queue := n\<rparr>)
         else if n \<noteq> task_run_queue s then pick_loop n s
         else Some (NULL, s))"

definition pick_next :: "sched \<Rightarrow> (ptr \<times> sched) ret" where
  "pick_next s = (if task_run_queue s = NULL then Some (NULL, s) else pick_loop (task_run_queue s) s)"

subsection \<open>Making tasks\<close>

definition task_fpu_init :: "task \<Rightarrow> task" where
  "task_fpu_init t = t\<lparr>t_fcw := 0x037F, t_mxcsr := 0x1F80\<rparr>"

definition task_current :: "nat \<Rightarrow> sched \<Rightarrow> ptr" where
  "task_current c s = c_current (cpus s c)"

definition task_init :: "nat \<Rightarrow> sched \<Rightarrow> sched ret" where
  "task_init c s =
     do { (idle, s1) \<leftarrow> task_alloc s;
          if idle = NULL then None
          else Some (upd_cpu c (\<lambda>p. p\<lparr>c_idle := idle, c_current := idle\<rparr>)
                 (upd_task idle (\<lambda>t. task_fpu_init (t\<lparr>t_name := ''kernel'', t_state := TASK_RUNNING,
                     t_saved_rsp := 0, t_stdio := [- 1, - 1, - 1]\<rparr>))
                   (s1\<lparr>kernel_task := idle\<rparr>))) }"

text \<open>Page runs from the page allocator, in the memory state of the tasks.\<close>

definition sc_alloc_pages :: "u64 \<Rightarrow> sched \<Rightarrow> (ptr \<times> sched) ret" where
  "sc_alloc_pages n s =
     do { (p, m) \<leftarrow> pmm_alloc_pages n (hp_pmm (up_heap (sc_mem s)));
          Some (p, s\<lparr>sc_mem := (sc_mem s)\<lparr>up_heap := (up_heap (sc_mem s))\<lparr>hp_pmm := m\<rparr>\<rparr>\<rparr>) }"

definition task_create_idle :: "sched \<Rightarrow> (ptr \<times> sched) ret" where
  "task_create_idle s =
     do { (t, s1) \<leftarrow> task_alloc s;
          if t = NULL then Some (NULL, s1)
          else let pages = TASK_IDLE_STACK_SIZE div PAGE_SIZE
               in do { (stack, s2) \<leftarrow> sc_alloc_pages pages s1;
                       if stack = NULL then do { s3 \<leftarrow> task_free t s2; Some (NULL, s3) }
                       else Some (t, upd_task t (\<lambda>u. task_fpu_init (u\<lparr>t_stack_base := stack,
                              t_stack_pages := pages, t_stdio := [- 1, - 1, - 1]\<rparr>)
                              \<lparr>t_state := TASK_RUNNING, t_name := ''idle''\<rparr>) s2) } }"

definition task_new_common :: "nat \<Rightarrow> string option \<Rightarrow> sched \<Rightarrow> (ptr \<times> sched) ret" where
  "task_new_common c name s =
     do { (t, s1) \<leftarrow> task_alloc s;
          if t = NULL then Some (NULL, s1)
          else let pages = TASK_STACK_SIZE div PAGE_SIZE
               in do { (stack, s2) \<leftarrow> sc_alloc_pages pages s1;
                       if stack = NULL then do { s3 \<leftarrow> task_free t s2; Some (NULL, s3) }
                       else let cur = task_current c s2;
                                cwd = (if cur \<noteq> NULL then t_cwd (tasks s2 cur) else ''/'');
                                nm = (case name of Some n \<Rightarrow> n | None \<Rightarrow> ''task'')
                            in Some (t, upd_task t (\<lambda>u. task_fpu_init (u\<lparr>t_stack_base := stack,
                                 t_stack_pages := pages, t_stdio := [- 1, - 1, - 1], t_cwd := cwd,
                                 t_pid := next_pid s2\<rparr>)\<lparr>t_state := TASK_READY,
                                 t_name := take (TASK_NAME_MAX - 1) nm\<rparr>)
                                 (s2\<lparr>next_pid := next_pid s2 + 1\<rparr>)) } }"

text \<open>The nine words \<^verbatim>\<open>task_switch_asm\<close> pops when it first switches to the task. The address of
  \<^verbatim>\<open>task_trampoline\<close> in the kernel image is the argument \<open>tramp\<close>.\<close>

fun push_words :: "u64 list \<Rightarrow> ptr \<Rightarrow> mem \<Rightarrow> ptr \<times> mem" where
  "push_words [] sp m = (sp, m)"
| "push_words (w # ws) sp m = push_words ws (sp - 8) (store_u64 (sp - 8) w m)"

definition task_prime_stack :: "u64 \<Rightarrow> ptr \<Rightarrow> u64 \<Rightarrow> u64 \<Rightarrow> sched \<Rightarrow> sched" where
  "task_prime_stack tramp t ent arg s =
     (let top = t_stack_base (tasks s t) + t_stack_pages (tasks s t) * PAGE_SIZE;
          h = up_heap (sc_mem s);
          (sp, m) = push_words [arg, ent, tramp, 0, 0, 0, 0, 0, 0] top (hmem h)
      in upd_task t (t_saved_rsp_update (\<lambda>_. sp)) (s\<lparr>sc_mem := (sc_mem s)\<lparr>up_heap := h\<lparr>hmem := m\<rparr>\<rparr>\<rparr>))"

definition task_create_with ::
  "u64 \<Rightarrow> nat \<Rightarrow> string option \<Rightarrow> u64 \<Rightarrow> u64 \<Rightarrow> elf_image option \<Rightarrow> sched \<Rightarrow> (ptr \<times> sched) ret" where
  "task_create_with tramp c name ent arg img s =
     (if ent = 0 then Some (NULL, s)
      else do { (t, s1) \<leftarrow> task_new_common c name s;
                if t = NULL then Some (NULL, s1)
                else let s2 = (case img of None \<Rightarrow> s1
                                | Some i \<Rightarrow> upd_task t (\<lambda>u. u\<lparr>t_image := i, t_owns_image := True\<rparr>) s1);
                         s3 = task_prime_stack tramp t ent arg s2
                     in Some (t, run_queue_push t s3) })"

definition task_create :: "u64 \<Rightarrow> nat \<Rightarrow> string option \<Rightarrow> u64 \<Rightarrow> u64 \<Rightarrow> sched \<Rightarrow> (ptr \<times> sched) ret" where
  "task_create tramp c name ent arg s = task_create_with tramp c name ent arg None s"

definition task_create_from_image ::
  "u64 \<Rightarrow> nat \<Rightarrow> string option \<Rightarrow> elf_image \<Rightarrow> u64 \<Rightarrow> sched \<Rightarrow> (ptr \<times> sched) ret" where
  "task_create_from_image tramp c name img arg s =
     (if entry img = 0 then Some (NULL, s)
      else task_create_with tramp c name (entry img) arg (Some img) s)"

subsection \<open>Scheduling\<close>

definition schedule :: "nat \<Rightarrow> task_state \<Rightarrow> sched \<Rightarrow> sched ret" where
  "schedule c prev_state s =
     (let prev = c_current (cpus s c); idle = c_idle (cpus s c);
          s1 = (if t_state (tasks s prev) = TASK_RUNNING
                then upd_task prev (t_state_update (\<lambda>_. prev_state)) s else s)
      in do { (n, s2) \<leftarrow> pick_next s1;
              let nx = (if n = NULL
                        then (if prev \<noteq> idle \<and> t_state (tasks s2 prev) = TASK_READY then prev else idle)
                        else n);
                  s3 = upd_task prev (t_resched_pending_update (\<lambda>_. False))
                         (upd_task nx (t_state_update (\<lambda>_. TASK_RUNNING)) s2)
              in Some (if nx = prev then s3 else upd_cpu c (c_current_update (\<lambda>_. nx)) s3) })"

definition task_yield :: "nat \<Rightarrow> sched \<Rightarrow> sched ret" where
  "task_yield c s = (if task_current c s = NULL then Some s else schedule c TASK_READY s)"

definition sleep_over :: "u64 \<Rightarrow> task \<Rightarrow> bool" where
  "sleep_over now t \<longleftrightarrow> t_state t = TASK_SLEEPING \<and> 0 \<le> sint (now - t_wake_tick t)"

text \<open>Both loops over all of the run queue, with the test and the change as arguments.\<close>

partial_function (option) ring_loop :: "(task \<Rightarrow> bool) \<Rightarrow> ptr \<Rightarrow> sched \<Rightarrow> sched ret" where
  [code]: "ring_loop P t s =
     (let s1 = (if P (tasks s t) then upd_task t (t_state_update (\<lambda>_. TASK_READY)) s else s);
          n = t_next (tasks s1 t)
      in if n \<noteq> task_run_queue s1 then ring_loop P n s1 else Some s1)"

definition wake_sleepers :: "u64 \<Rightarrow> sched \<Rightarrow> sched ret" where
  "wake_sleepers now s =
     (if task_run_queue s = NULL then Some s else ring_loop (sleep_over now) (task_run_queue s) s)"

definition task_scheduler_tick :: "nat \<Rightarrow> sched \<Rightarrow> sched ret" where
  "task_scheduler_tick c s =
     (let s1 = upd_cpu c (\<lambda>p. p\<lparr>c_ticks := c_ticks p + 1\<rparr>) s;
          cur = c_current (cpus s1 c);
          s2 = (if cur \<noteq> c_idle (cpus s1 c)
                then upd_task cur (\<lambda>t. t\<lparr>t_cpu_ticks := t_cpu_ticks t + 1\<rparr>)
                       (upd_cpu c (\<lambda>p. p\<lparr>c_busy_ticks := c_busy_ticks p + 1\<rparr>) s1)
                else s1)
      in do { s3 \<leftarrow> (if c = 0 then let s' = s2\<lparr>g_tick_count := g_tick_count s2 + 1\<rparr>
                              in wake_sleepers (g_tick_count s') s'
                    else Some s2);
              let t = task_current c s3
              in if t = NULL then Some s3
                 else if t_in_kcall (tasks s3 t)
                 then Some (upd_task t (t_resched_pending_update (\<lambda>_. True)) s3)
                 else schedule c TASK_READY s3 })"

definition sleep_ticks :: "u32 \<Rightarrow> u64" where
  "sleep_ticks ms = (let ticks = (ucast ms * SCHEDULER_HZ + 1000 - 1) div 1000 in if ticks = 0 then 1 else ticks)"

definition task_sleep_ms :: "nat \<Rightarrow> u32 \<Rightarrow> sched \<Rightarrow> sched ret" where
  "task_sleep_ms c ms s =
     (let prev = task_current c s
      in if prev = NULL then Some s
         else schedule c TASK_SLEEPING
                (upd_task prev (t_wake_tick_update (\<lambda>_. g_tick_count s + sleep_ticks ms)) s))"

definition task_block :: "nat \<Rightarrow> u32 \<Rightarrow> sched \<Rightarrow> sched ret" where
  "task_block c timeout_ms s =
     (let prev = task_current c s;
          ticks = (if timeout_ms = TASK_BLOCK_FOREVER then push_bit 62 1 else sleep_ticks timeout_ms)
      in if prev = NULL then Some s
         else schedule c TASK_SLEEPING
                (upd_task prev (\<lambda>t. t\<lparr>t_wake_tick := g_tick_count s + ticks, t_waiting := True\<rparr>) s))"

definition task_block_return :: "ptr \<Rightarrow> sched \<Rightarrow> sched" where
  "task_block_return prev s = upd_task prev (t_waiting_update (\<lambda>_. False)) s"

definition task_wake_waiters :: "sched \<Rightarrow> sched ret" where
  "task_wake_waiters s =
     (if task_run_queue s = NULL then Some s
      else ring_loop (\<lambda>t. t_waiting t \<and> t_state t = TASK_SLEEPING) (task_run_queue s) s)"

definition task_uptime_ms :: "sched \<Rightarrow> u64" where
  "task_uptime_ms s = g_tick_count s * 1000 div SCHEDULER_HZ"

subsection \<open>Looking tasks up\<close>

partial_function (option) find_loop :: "u64 \<Rightarrow> ptr \<Rightarrow> sched \<Rightarrow> ptr ret" where
  [code]: "find_loop pid t s =
     (if t = NULL then Some NULL
      else if t_pid (tasks s t) = pid then Some t
      else find_loop pid (t_list_next (tasks s t)) s)"

definition task_find :: "u64 \<Rightarrow> sched \<Rightarrow> ptr ret" where
  "task_find pid s = (if pid = 0 then Some NULL else find_loop pid (task_list s) s)"

partial_function (option) forget_loop :: "int \<Rightarrow> ptr \<Rightarrow> sched \<Rightarrow> sched ret" where
  [code]: "forget_loop fd t s =
     (if t = NULL then Some s
      else let s1 = upd_task t (t_stdio_update (map (\<lambda>k. if k = fd then - 1 else k))) s
           in forget_loop fd (t_list_next (tasks s1 t)) s1)"

definition task_forget_fd :: "int \<Rightarrow> sched \<Rightarrow> sched ret" where
  "task_forget_fd fd s = forget_loop fd (task_list s) s"

text \<open>\<^verbatim>\<open>task_for_each\<close> as the list of the tasks it visits, in order.\<close>

partial_function (option) each_loop :: "ptr \<Rightarrow> sched \<Rightarrow> ptr list ret" where
  [code]: "each_loop t s =
     (if t = NULL then Some []
      else do { ts \<leftarrow> each_loop (t_list_next (tasks s t)) s;
                Some (if t_pid (tasks s t) \<noteq> 0 \<and> t_state (tasks s t) \<noteq> TASK_DEAD then t # ts else ts) })"

definition task_for_each :: "sched \<Rightarrow> ptr list ret" where
  "task_for_each s = each_loop (task_list s) s"

definition sys_task_status :: "u64 \<Rightarrow> sched \<Rightarrow> (int \<times> int option) ret" where
  "sys_task_status pid s =
     do { t \<leftarrow> task_find pid s;
          if t = NULL then Some (1, Some (- 1))
          else if t_state (tasks s t) = TASK_DEAD then Some (1, Some (t_exit_code (tasks s t)))
          else Some (if t_detached (tasks s t) then 2 else 0, None) }"

text \<open>\<^verbatim>\<open>task_wait\<close> with \<^verbatim>\<open>WNOHANG\<close> reads the state in a loop; on the state it is given that loop ends
  at once or never.\<close>

definition task_wait :: "ptr \<Rightarrow> u32 \<Rightarrow> sched \<Rightarrow> bool ret" where
  "task_wait t flags s =
     (if t = NULL then Some False
      else if flags AND 1 \<noteq> 0 then (if t_state (tasks s t) = TASK_DEAD then Some False else None)
      else Some (t_state (tasks s t) \<noteq> TASK_DEAD))"

definition sys_getpid :: "nat \<Rightarrow> sched \<Rightarrow> u64" where
  "sys_getpid c s = (let cur = task_current c s in if cur \<noteq> NULL then t_pid (tasks s cur) else 0)"

subsection \<open>The run queue as a ring\<close>

fun chain :: "('a \<Rightarrow> 'a) \<Rightarrow> 'a list \<Rightarrow> bool" where
  "chain f (x # y # xs) \<longleftrightarrow> f x = y \<and> chain f (y # xs)"
| "chain f _ \<longleftrightarrow> True"

lemma chain_append: "chain f (xs @ v # ys) \<longleftrightarrow> chain f (xs @ [v]) \<and> chain f (v # ys)"
  by (induction xs rule: induct_list012) auto

lemma chain_cong: "(\<And>x. x \<in> set xs \<Longrightarrow> f x = g x) \<Longrightarrow> chain f (xs @ [e]) = chain g (xs @ [e])"
  by (induction xs rule: induct_list012) auto

text \<open>\<open>ring s qs\<close>: the run queue is the cyclic list \<open>qs\<close>, whose head \<^verbatim>\<open>task_run_queue\<close> points to.\<close>

definition ring :: "sched \<Rightarrow> ptr list \<Rightarrow> bool" where
  "ring s qs \<longleftrightarrow> distinct qs \<and> NULL \<notin> set qs \<and>
     task_run_queue s = (case qs of [] \<Rightarrow> NULL | q # _ \<Rightarrow> q) \<and>
     (qs \<noteq> [] \<longrightarrow> chain (\<lambda>t. t_next (tasks s t)) (qs @ [hd qs]))"

lemma ring_Nil [simp]: "ring s [] \<longleftrightarrow> task_run_queue s = NULL"
  by (simp add: ring_def)

lemma ring_Cons:
  "ring s (q # qs) \<longleftrightarrow> distinct (q # qs) \<and> NULL \<notin> set (q # qs) \<and> task_run_queue s = q \<and>
     chain (\<lambda>t. t_next (tasks s t)) (q # qs @ [q])"
  by (auto simp: ring_def)

lemma ring_null: "ring s qs \<Longrightarrow> task_run_queue s = NULL \<longleftrightarrow> qs = []"
  by (cases qs) (auto simp: ring_Cons)

lemma ring_cong:
  assumes "ring s qs" and "task_run_queue s' = task_run_queue s"
    and "\<And>t. t \<in> set qs \<Longrightarrow> t_next (tasks s' t) = t_next (tasks s t)"
  shows "ring s' qs"
proof (cases qs)
  case (Cons q rs)
  have "chain (\<lambda>t. t_next (tasks s' t)) (qs @ [hd qs]) = chain (\<lambda>t. t_next (tasks s t)) (qs @ [hd qs])"
    by (rule chain_cong) (use assms(3) in simp)
  with assms(1,2) Cons show ?thesis by (simp add: ring_def)
qed (use assms in simp)

lemma ring_rotate:
  assumes "ring s (xs @ t # ys)"
  shows "ring (s\<lparr>task_run_queue := t\<rparr>) (t # ys @ xs)"
proof (cases xs)
  case Nil
  with assms show ?thesis by (simp add: ring_Cons)
next
  case (Cons x xs')
  let ?f = "\<lambda>t. t_next (tasks s t)"
  have "chain ?f ((x # xs') @ t # ys @ [x])" using assms Cons by (simp add: ring_Cons)
  then have "chain ?f ((x # xs') @ [t])" "chain ?f ((t # ys) @ [x])"
    using chain_append [of ?f "x # xs'" t "ys @ [x]"] by simp_all
  then have "chain ?f ((t # ys) @ x # xs' @ [t])"
    using chain_append [of ?f "t # ys" x "xs' @ [t]"] by simp
  with assms Cons show ?thesis by (auto simp: ring_Cons)
qed

lemma ring_next:
  assumes "ring s (xs @ t # ys)"
  shows "t_next (tasks s t) = hd (ys @ xs @ [t])"
proof -
  from ring_rotate [OF assms] have "chain (\<lambda>u. t_next (tasks s u)) (t # (ys @ xs) @ [t])" by (simp add: ring_Cons)
  then have "t_next (tasks s t) = hd ((ys @ xs) @ [t])" by (cases "ys @ xs") auto
  then show ?thesis by simp
qed

lemma ring_push:
  assumes "ring s qs" and "t \<notin> set qs" and "t \<noteq> NULL"
  shows "ring (run_queue_push t s) (case qs of [] \<Rightarrow> [t] | q # rs \<Rightarrow> q # t # rs)"
proof (cases qs)
  case Nil
  with assms show ?thesis by (simp add: run_queue_push_def ring_Cons upd_task_def)
next
  case (Cons q rs)
  have q: "task_run_queue s = q" "q \<noteq> NULL" "t \<noteq> q" "q \<notin> set rs" using assms Cons by (auto simp: ring_Cons)
  let ?s = "run_queue_push t s"
  let ?f = "\<lambda>u. t_next (tasks ?s u)"
  have tk: "tasks ?s u = (if u = q then (tasks s q)\<lparr>t_next := t\<rparr>
      else if u = t then (tasks s t)\<lparr>t_next := t_next (tasks s q)\<rparr> else tasks s u)" for u
    using q by (simp add: run_queue_push_def upd_task_def Let_def)
  have rq: "task_run_queue ?s = q" using q by (simp add: run_queue_push_def upd_task_def Let_def)
  have c: "chain (\<lambda>u. t_next (tasks s u)) (q # rs @ [q])" using assms Cons by (simp add: ring_Cons)
  have nq: "t_next (tasks s q) = hd (rs @ [q])" using ring_next [of s "[]" q rs] assms(1) Cons by simp
  have rest: "chain ?f (rs @ [q])"
  proof -
    have "chain (\<lambda>u. t_next (tasks s u)) (rs @ [q])" using c by (cases rs) auto
    moreover have "chain ?f (rs @ [q]) = chain (\<lambda>u. t_next (tasks s u)) (rs @ [q])"
      by (rule chain_cong) (use q assms(2) Cons in \<open>auto simp: tk\<close>)
    ultimately show ?thesis by simp
  qed
  have "chain ?f (q # t # rs @ [q])"
    using rest nq q by (cases rs) (simp_all add: tk)
  with assms Cons q rq show ?thesis by (auto simp: ring_Cons)
qed

lemma ring_drop:
  assumes "ring s (x # xs @ t # ys)" and "p = last (x # xs)"
  shows "ring (upd_task p (t_next_update (\<lambda>_. t_next (tasks s t))) s) (x # xs @ ys)"
proof -
  let ?s = "upd_task p (t_next_update (\<lambda>_. t_next (tasks s t))) s"
  let ?f = "\<lambda>u. t_next (tasks s u)" and ?g = "\<lambda>u. t_next (tasks ?s u)"
  have d: "distinct (x # xs @ t # ys)" using assms(1) by (simp add: ring_Cons)
  have nt: "t_next (tasks s t) = hd (ys @ [x])"
    using ring_next [of s "x # xs" t ys] assms(1) by (cases ys) auto
  have c: "chain ?f ((x # xs) @ t # ys @ [x])" using assms(1) by (simp add: ring_Cons)
  then have c1: "chain ?f ((x # xs) @ [t])" and c2: "chain ?f (t # ys @ [x])"
    using chain_append [of ?f "x # xs" t "ys @ [x]"] by auto
  obtain us where us: "x # xs = us @ [p]" using assms(2) by (metis append_butlast_last_id list.distinct(1))
  have pm: "p \<in> set (x # xs)" using us by simp
  have "distinct (us @ [p])" using d unfolding us [symmetric] by simp
  then have pu: "p \<notin> set us" by simp
  have "chain ?f (us @ [p])" using c1 us chain_append [of ?f us p "[t]"] by simp
  moreover have "chain ?g (us @ [p]) = chain ?f (us @ [p])"
    by (rule chain_cong) (use pu in \<open>auto simp: upd_task_def\<close>)
  moreover have "chain ?g (ys @ [x])"
  proof -
    have "chain ?g (ys @ [x]) = chain ?f (ys @ [x])"
      by (rule chain_cong) (use d pm in \<open>auto simp: upd_task_def\<close>)
    then show ?thesis using c2 by (cases ys) auto
  qed
  moreover have "?g p = hd (ys @ [x])" using nt by (simp add: upd_task_def)
  ultimately have "chain ?g (us @ p # ys @ [x])"
    using chain_append [of ?g us p "ys @ [x]"] by (cases ys) auto
  then have "chain ?g ((us @ [p]) @ ys @ [x])" by simp
  then have "chain ?g ((x # xs) @ ys @ [x])" using us by simp
  with assms(1) show ?thesis by (auto simp: ring_Cons upd_task_def)
qed

text \<open>The loop of \<open>run_queue_remove\<close> from an element \<open>p\<close> that is not the last before \<open>t\<close>.\<close>

lemma remove_loop_step:
  "t_next (tasks s p) = n \<Longrightarrow> n \<noteq> t \<Longrightarrow> n \<noteq> task_run_queue s \<Longrightarrow> remove_loop p t s = remove_loop n t s"
  by (subst remove_loop.simps) simp

lemma remove_loop_skip:
  assumes "ring s (us @ p # vs @ r # ws)" and "t \<notin> set (vs @ [r])" and "task_run_queue s \<notin> set (vs @ [r])"
  shows "remove_loop p t s = remove_loop r t s"
  using assms
proof (induction vs arbitrary: us p)
  case Nil
  then show ?case using ring_next [of s us p "r # ws"] by (intro remove_loop_step) auto
next
  case (Cons v vs)
  have "remove_loop p t s = remove_loop v t s"
    using ring_next [of s us p "v # vs @ r # ws"] Cons.prems by (intro remove_loop_step) auto
  also have "\<dots> = remove_loop r t s" using Cons.IH [of "us @ [p]" v] Cons.prems by simp
  finally show ?case .
qed

lemma remove_loop_end:
  assumes "ring s (us @ p # ws)" and "hd (ws @ us @ [p]) = t" and "p \<noteq> t"
  shows "remove_loop p t s =
    Some (let s1 = upd_task p (t_next_update (\<lambda>_. t_next (tasks s t))) s
          in if task_run_queue s = t then s1\<lparr>task_run_queue := t_next (tasks s t)\<rparr> else s1)"
proof -
  have n: "t_next (tasks s p) = t" using ring_next [OF assms(1)] assms(2) by simp
  show ?thesis using assms(3) by (subst remove_loop.simps) (simp add: n upd_task_def Let_def)
qed

lemma upd_task_rq: "upd_task p f (s\<lparr>task_run_queue := x\<rparr>) = (upd_task p f s)\<lparr>task_run_queue := x\<rparr>"
  by (cases s) (simp add: upd_task_def)

lemma run_queue_remove_ring:
  assumes "ring s qs"
  shows "\<exists>s'. run_queue_remove t s = Some s' \<and> ring s' (filter (\<lambda>u. u \<noteq> t) qs) \<and>
    (\<exists>f r. s' = s\<lparr>tasks := (\<lambda>u. (tasks s u)\<lparr>t_next := f u\<rparr>), task_run_queue := r\<rparr>)"
proof -
  have same: "\<exists>f r. s = s\<lparr>tasks := (\<lambda>u. (tasks s u)\<lparr>t_next := f u\<rparr>), task_run_queue := r\<rparr>"
    by (rule exI [of _ "\<lambda>u. t_next (tasks s u)"], rule exI [of _ "task_run_queue s"]) simp
  have upd: "\<exists>f r. (upd_task p (t_next_update (\<lambda>_. n)) s)\<lparr>task_run_queue := q\<rparr> =
      s\<lparr>tasks := (\<lambda>u. (tasks s u)\<lparr>t_next := f u\<rparr>), task_run_queue := r\<rparr>" for p n q
    by (rule exI [of _ "\<lambda>u. if u = p then n else t_next (tasks s u)"], rule exI [of _ q])
      (auto simp: upd_task_def fun_eq_iff)
  have upd2: "\<exists>f r. upd_task p (t_next_update (\<lambda>_. n)) s =
      s\<lparr>tasks := (\<lambda>u. (tasks s u)\<lparr>t_next := f u\<rparr>), task_run_queue := r\<rparr>" for p n
    by (rule exI [of _ "\<lambda>u. if u = p then n else t_next (tasks s u)"], rule exI [of _ "task_run_queue s"])
      (auto simp: upd_task_def fun_eq_iff)
  consider (empty) "qs = []" | (single) "qs = [t]" | (head) x xs where "qs = t # x # xs"
    | (mid) x xs ys where "qs = x # xs @ t # ys" | (out) x xs where "qs = x # xs" "t \<notin> set qs"
  proof (cases qs)
    case (Cons q rs)
    show thesis
    proof (cases "t \<in> set rs")
      case True
      then obtain xs ys where "rs = xs @ t # ys" by (meson split_list)
      with Cons mid show thesis by simp
    next
      case False
      with Cons single head out show thesis by (cases "q = t"; cases rs) auto
    qed
  qed (use that in simp)
  then show ?thesis
  proof cases
    case empty
    with assms same show ?thesis by (simp add: run_queue_remove_def)
  next
    case single
    with assms have "t_next (tasks s t) = t" "task_run_queue s = t" "t \<noteq> NULL" by (auto simp: ring_Cons)
    moreover have "\<exists>f r. s\<lparr>task_run_queue := NULL\<rparr> = s\<lparr>tasks := (\<lambda>u. (tasks s u)\<lparr>t_next := f u\<rparr>), task_run_queue := r\<rparr>"
      by (rule exI [of _ "\<lambda>u. t_next (tasks s u)"], rule exI [of _ NULL]) simp
    ultimately show ?thesis using single by (simp add: run_queue_remove_def)
  next
    case (head x xs)
    obtain us p where us: "x # xs = us @ [p]" by (metis rev_exhaust list.distinct(1))
    have r: "ring s ([] @ t # us @ p # [])" using assms head us by simp
    have d: "distinct (t # x # xs)" "task_run_queue s = t" "t \<noteq> NULL" using assms head by (auto simp: ring_Cons)
    have du: "t \<notin> set (us @ [p])" using d(1) us by (metis distinct.simps(2))
    have nt: "t_next (tasks s t) = x" using ring_next [of s "[]" t "x # xs"] assms head by simp
    have "remove_loop t t s = remove_loop p t s" by (rule remove_loop_skip [OF r]) (use du d in simp_all)
    also have "\<dots> = Some ((upd_task p (t_next_update (\<lambda>_. x)) s)\<lparr>task_run_queue := x\<rparr>)"
      using remove_loop_end [of s "t # us" p "[]" t] r du d(2) nt by (auto simp: Let_def)
    finally have e: "run_queue_remove t s = Some ((upd_task p (t_next_update (\<lambda>_. x)) s)\<lparr>task_run_queue := x\<rparr>)"
      using d nt by (auto simp: run_queue_remove_def)
    have "ring (s\<lparr>task_run_queue := x\<rparr>) (x # xs @ t # [])"
      using ring_rotate [of s "[t]" x xs] assms head by simp
    from ring_drop [OF this, of p] us nt
    have "ring ((upd_task p (t_next_update (\<lambda>_. x)) s)\<lparr>task_run_queue := x\<rparr>) (x # xs)"
      by (simp add: upd_task_rq)
    moreover have "filter (\<lambda>u. u \<noteq> t) qs = x # xs" using head d(1) by (auto simp: filter_id_conv)
    ultimately show ?thesis using e upd by auto
  next
    case (mid x xs ys)
    obtain us p where us: "x # xs = us @ [p]" by (metis rev_exhaust list.distinct(1))
    have d: "distinct (x # xs @ t # ys)" "task_run_queue s = x" "x \<noteq> NULL" "x \<noteq> t"
      using assms mid by (auto simp: ring_Cons)
    have r: "ring s (us @ p # t # ys)" using assms mid us by (metis append.assoc append_Cons append_Nil)
    have pt: "p \<noteq> t" using r by (auto simp: ring_def)
    have "remove_loop x t s = remove_loop p t s"
    proof (cases us)
      case Nil
      with us show ?thesis by simp
    next
      case (Cons u us')
      then have "u = x" using us by simp
      have rr: "ring s ([] @ x # us' @ p # t # ys)" using r Cons \<open>u = x\<close> by simp
      then show ?thesis by (rule remove_loop_skip) (use rr d(2) in \<open>auto simp: ring_def\<close>)
    qed
    also have "\<dots> = Some (upd_task p (t_next_update (\<lambda>_. t_next (tasks s t))) s)"
      using remove_loop_end [of s us p "t # ys" t] r pt d(2,4) by (simp add: Let_def)
    finally have e: "run_queue_remove t s = Some (upd_task p (t_next_update (\<lambda>_. t_next (tasks s t))) s)"
      using d by (simp add: run_queue_remove_def)
    have "ring (upd_task p (t_next_update (\<lambda>_. t_next (tasks s t))) s) (x # xs @ ys)"
      by (rule ring_drop) (use assms mid us in \<open>simp_all\<close>)
    moreover have "filter (\<lambda>u. u \<noteq> t) xs = xs" "filter (\<lambda>u. u \<noteq> t) ys = ys"
      using d(1) by (auto simp: filter_id_conv)
    ultimately have "ring (upd_task p (t_next_update (\<lambda>_. t_next (tasks s t))) s) (filter (\<lambda>u. u \<noteq> t) qs)"
      using mid d(4) by simp
    with e upd2 show ?thesis by blast
  next
    case (out x xs)
    obtain us p where us: "x # xs = us @ [p]" by (metis rev_exhaust list.distinct(1))
    have d: "task_run_queue s = x" "x \<noteq> NULL" "x \<noteq> t" using assms out by (auto simp: ring_Cons)
    have "remove_loop x t s = remove_loop p t s"
    proof (cases us)
      case Nil
      with us show ?thesis by simp
    next
      case (Cons u us')
      then have "u = x" using us by simp
      have rr: "ring s ([] @ x # us' @ p # [])" using assms out us Cons \<open>u = x\<close> by simp
      have "set (us' @ [p]) \<subseteq> set qs" using out us Cons by auto
      then show ?thesis using rr d(1) out(2) by (intro remove_loop_skip [OF rr]) (auto simp: ring_def)
    qed
    also have "\<dots> = Some s"
    proof -
      have "ring s (us @ p # [])" using assms out us by simp
      from ring_next [OF this] have "t_next (tasks s p) = x" using us by (cases us) auto
      then show ?thesis using d by (subst remove_loop.simps) simp
    qed
    finally have "run_queue_remove t s = Some s" using d by (simp add: run_queue_remove_def)
    moreover have "filter (\<lambda>u. u \<noteq> t) qs = qs" using out(2) by (auto simp: filter_id_conv)
    ultimately show ?thesis using assms same by (intro exI [of _ s]) (simp only: simp_thms)
  qed
qed

subsection \<open>Picking the next task\<close>

definition ready :: "sched \<Rightarrow> ptr \<Rightarrow> bool" where
  "ready s t \<longleftrightarrow> t_state (tasks s t) = TASK_READY"

lemma pick_loop_spec:
  assumes "ring s (us @ t # vs)"
  shows "pick_loop t s = (case find (ready s) (vs @ [hd (us @ [t])]) of
      None \<Rightarrow> Some (NULL, s) | Some n \<Rightarrow> Some (n, s\<lparr>task_run_queue := n\<rparr>))"
  using assms
proof (induction vs arbitrary: us t)
  case Nil
  have n: "t_next (tasks s t) = hd (us @ [t])" using ring_next [OF Nil] by simp
  moreover have "task_run_queue s = hd (us @ [t])" using Nil by (cases us) (auto simp: ring_Cons)
  ultimately show ?case by (subst pick_loop.simps) (simp add: ready_def Let_def)
next
  case (Cons v vs)
  have n: "t_next (tasks s t) = v" using ring_next [OF Cons.prems] by simp
  have rq: "task_run_queue s = hd (us @ [t])" using Cons.prems by (cases us) (auto simp: ring_Cons)
  have "hd (us @ [t]) \<in> set (us @ [t])" by (rule hd_in_set) simp
  then have ne: "v \<noteq> task_run_queue s" using Cons.prems rq by (auto simp: ring_def)
  have ih: "pick_loop v s = (case find (ready s) (vs @ [hd ((us @ [t]) @ [v])]) of
      None \<Rightarrow> Some (NULL, s) | Some n \<Rightarrow> Some (n, s\<lparr>task_run_queue := n\<rparr>))"
    by (rule Cons.IH) (use Cons.prems in simp)
  have "hd ((us @ [t]) @ [v]) = hd (us @ [t])" by (cases us) auto
  with ih n ne show ?case by (subst pick_loop.simps) (simp add: ready_def)
qed

text \<open>Round robin: \<open>pick_next\<close> takes the first ready task after the head of the queue, the head itself
  last, and makes it the head.\<close>

lemma pick_next_ring:
  assumes "ring s qs"
  shows "pick_next s = (case find (ready s) (rotate1 qs) of
      None \<Rightarrow> Some (NULL, s) | Some n \<Rightarrow> Some (n, s\<lparr>task_run_queue := n\<rparr>))"
proof (cases qs)
  case Nil
  with assms show ?thesis by (simp add: pick_next_def)
next
  case (Cons q rs)
  with assms have "task_run_queue s = q" "q \<noteq> NULL" by (auto simp: ring_Cons)
  with pick_loop_spec [of s "[]" q rs] assms Cons show ?thesis by (simp add: pick_next_def)
qed

definition rotate_to :: "'a \<Rightarrow> 'a list \<Rightarrow> 'a list" where
  "rotate_to n qs = dropWhile (\<lambda>u. u \<noteq> n) qs @ takeWhile (\<lambda>u. u \<noteq> n) qs"

lemma rotate_to_split: "n \<notin> set xs \<Longrightarrow> rotate_to n (xs @ n # ys) = n # ys @ xs"
  by (simp add: rotate_to_def takeWhile_append dropWhile_append)

lemma set_rotate_to [simp]: "set (rotate_to n qs) = set qs"
  unfolding rotate_to_def by (metis set_append sup_commute takeWhile_dropWhile_id)

lemma ring_rotate_to:
  assumes "ring s qs" and "n \<in> set qs"
  shows "ring (s\<lparr>task_run_queue := n\<rparr>) (rotate_to n qs)"
proof -
  from assms(2) obtain xs ys where q: "qs = xs @ n # ys" "n \<notin> set xs" by (meson split_list_first)
  with ring_rotate [of s xs n ys] assms(1) show ?thesis by (simp add: rotate_to_split)
qed

lemma find_rotate1: "find P (rotate1 qs) = Some n \<Longrightarrow> n \<in> set qs \<and> P n"
  by (metis find_Some_iff nth_mem set_rotate1)

text \<open>How many tasks are asked before \<open>t\<close>.\<close>

definition turn :: "ptr list \<Rightarrow> ptr \<Rightarrow> nat" where
  "turn qs t = length (takeWhile (\<lambda>u. u \<noteq> t) (rotate1 qs))"

lemma turn_decreases:
  assumes "distinct qs" and "find P (rotate1 qs) = Some u" and "t \<in> set qs" and "P t" and "t \<noteq> u"
  shows "turn (rotate_to u qs) t < turn qs t"
proof -
  obtain q rs where qs: "qs = q # rs" using assms(3) by (cases qs) auto
  obtain as bs where sp: "rs @ [q] = as @ u # bs" and na: "\<forall>x \<in> set as. \<not> P x"
  proof -
    from assms(2) obtain i where i: "i < length (rs @ [q])" "u = (rs @ [q]) ! i" "\<forall>j < i. \<not> P ((rs @ [q]) ! j)"
      using qs by (auto simp: find_Some_iff)
    have "\<not> P x" if x: "x \<in> set (take i (rs @ [q]))" for x
    proof -
      from x obtain j where "j < i" "x = (rs @ [q]) ! j"
        unfolding in_set_conv_nth by (metis length_take min_less_iff_conj nth_take)
      with i(3) show ?thesis by blast
    qed
    with id_take_nth_drop [OF i(1)] i(2) that show thesis by blast
  qed
  have ta: "t \<notin> set as" using na assms(4) by auto
  have "t \<in> set (rs @ [q])" using assms(3) qs by auto
  then have tb: "t \<in> set bs" unfolding sp using ta assms(5) by simp
  then obtain cs z where cz: "bs = cs @ [z]" by (cases bs rule: rev_cases) auto
  then have "rs @ [q] = (as @ u # cs) @ [z]" using sp by simp
  then have rs: "rs = as @ u # cs" and zq: "z = q" by (simp_all only: append1_eq_conv)
  have d: "distinct (q # as @ u # cs)" using assms(1) qs rs by simp
  then have "rotate_to u (q # as @ u # cs) = u # cs @ q # as"
    using rotate_to_split [of u "q # as" cs] by auto
  then have "rotate1 (rotate_to u qs) = bs @ as @ [u]" using qs rs cz zq by simp
  then have "turn (rotate_to u qs) t = length (takeWhile (\<lambda>x. x \<noteq> t) bs)"
    using tb by (simp add: turn_def takeWhile_append1)
  moreover have "turn qs t = length as + Suc (length (takeWhile (\<lambda>x. x \<noteq> t) bs))"
  proof -
    have "takeWhile (\<lambda>x. x \<noteq> t) (as @ u # bs) = as @ takeWhile (\<lambda>x. x \<noteq> t) (u # bs)"
      using ta by (intro takeWhile_append2) auto
    then show ?thesis unfolding turn_def using qs sp assms(5) by simp
  qed
  ultimately show ?thesis by simp
qed

subsection \<open>Waking\<close>

definition wake :: "(task \<Rightarrow> bool) \<Rightarrow> ptr set \<Rightarrow> sched \<Rightarrow> sched" where
  "wake P A s = s\<lparr>tasks := (\<lambda>u. if u \<in> A \<and> P (tasks s u) then (tasks s u)\<lparr>t_state := TASK_READY\<rparr> else tasks s u)\<rparr>"

lemma ring_loop_wake:
  assumes "ring s (us @ t # vs)"
  shows "ring_loop P t (wake P (set us) s) = Some (wake P (set (us @ t # vs)) s)"
  using assms
proof (induction vs arbitrary: us t)
  case Nil
  have n: "t_next (tasks s t) = hd (us @ [t])" using ring_next [OF Nil] by simp
  have rq: "task_run_queue s = hd (us @ [t])" using Nil by (cases us) (auto simp: ring_Cons)
  have t: "t \<notin> set us" using Nil by (simp add: ring_def)
  then have w: "(if P (tasks (wake P (set us) s) t) then upd_task t (t_state_update (\<lambda>_. TASK_READY)) (wake P (set us) s)
      else wake P (set us) s) = wake P (set (us @ [t])) s"
    by (auto simp: wake_def upd_task_def fun_eq_iff)
  show ?case using n rq by (subst ring_loop.simps, unfold w) (simp add: wake_def Let_def)
next
  case (Cons v vs)
  have n: "t_next (tasks s t) = v" using ring_next [OF Cons.prems] by simp
  have rq: "task_run_queue s = hd (us @ [t])" using Cons.prems by (cases us) (auto simp: ring_Cons)
  have t: "t \<notin> set us" using Cons.prems by (simp add: ring_def)
  have "hd (us @ [t]) \<in> set (us @ [t])" by (rule hd_in_set) simp
  then have ne: "v \<noteq> task_run_queue s" using Cons.prems rq by (auto simp: ring_def)
  from t have w: "(if P (tasks (wake P (set us) s) t) then upd_task t (t_state_update (\<lambda>_. TASK_READY)) (wake P (set us) s)
      else wake P (set us) s) = wake P (set (us @ [t])) s"
    by (auto simp: wake_def upd_task_def fun_eq_iff)
  have ih: "ring_loop P v (wake P (set (us @ [t])) s) = Some (wake P (set ((us @ [t]) @ v # vs)) s)"
    by (rule Cons.IH) (use Cons.prems in simp)
  have "t_next (tasks (wake P (set (us @ [t])) s) t) = v" "task_run_queue (wake P (set (us @ [t])) s) = task_run_queue s"
    using n by (simp_all add: wake_def)
  with ih ne show ?case by (subst ring_loop.simps, unfold w) (simp add: Let_def)
qed

lemma ring_wake [simp]: "ring (wake P A s) qs = ring s qs"
  by (intro iffI; erule ring_cong) (simp_all add: wake_def)

lemma wake_empty [simp]: "wake P {} s = s"
  by (simp add: wake_def)

lemma wake_sleepers_ring: "ring s qs \<Longrightarrow> wake_sleepers now s = Some (wake (sleep_over now) (set qs) s)"
  using ring_loop_wake [of s "[]" "hd qs" "tl qs" "sleep_over now"]
  by (cases qs) (auto simp: wake_sleepers_def ring_Cons)

lemma task_wake_waiters_ring:
  "ring s qs \<Longrightarrow> task_wake_waiters s = Some (wake (\<lambda>t. t_waiting t \<and> t_state t = TASK_SLEEPING) (set qs) s)"
  using ring_loop_wake [of s "[]" "hd qs" "tl qs"]
  by (cases qs) (auto simp: task_wake_waiters_def ring_Cons)

subsection \<open>The invariant of the scheduler\<close>

text \<open>\<open>cpu_inv n qs s\<close>: the idle tasks of the \<open>n\<close> CPUs are distinct and outside the run queue, no two CPUs
  have the same current task, and a task of the queue that is marked running is current somewhere.
  \<open>sched_inv\<close> adds that the current tasks are marked running.\<close>

definition cpu_inv :: "nat \<Rightarrow> ptr list \<Rightarrow> sched \<Rightarrow> bool" where
  "cpu_inv n qs s \<longleftrightarrow> ring s qs \<and>
     (\<forall>c < n. c_idle (cpus s c) \<noteq> NULL \<and> c_idle (cpus s c) \<notin> set qs \<and>
        (c_current (cpus s c) \<in> set qs \<or> c_current (cpus s c) = c_idle (cpus s c))) \<and>
     (\<forall>c < n. \<forall>d < n. c \<noteq> d \<longrightarrow> c_idle (cpus s c) \<noteq> c_idle (cpus s d) \<and>
        c_current (cpus s c) \<noteq> c_current (cpus s d)) \<and>
     (\<forall>t \<in> set qs. t_state (tasks s t) = TASK_RUNNING \<longrightarrow> (\<exists>c < n. c_current (cpus s c) = t))"

definition running :: "nat \<Rightarrow> sched \<Rightarrow> bool" where
  "running c s \<longleftrightarrow> t_state (tasks s (c_current (cpus s c))) = TASK_RUNNING"

definition sched_inv :: "nat \<Rightarrow> ptr list \<Rightarrow> sched \<Rightarrow> bool" where
  "sched_inv n qs s \<longleftrightarrow> cpu_inv n qs s \<and> (\<forall>c < n. running c s)"

lemma upd_task_simps [simp]:
  "tasks (upd_task t f s) u = (if u = t then f (tasks s t) else tasks s u)"
  "task_run_queue (upd_task t f s) = task_run_queue s" "cpus (upd_task t f s) = cpus s"
  "task_list (upd_task t f s) = task_list s" "sc_mem (upd_task t f s) = sc_mem s"
  "g_tick_count (upd_task t f s) = g_tick_count s" "next_pid (upd_task t f s) = next_pid s"
  by (simp_all add: upd_task_def)

lemma upd_cpu_simps [simp]:
  "tasks (upd_cpu c f s) = tasks s" "task_run_queue (upd_cpu c f s) = task_run_queue s"
  "cpus (upd_cpu c f s) d = (if d = c then f (cpus s c) else cpus s d)"
  "task_list (upd_cpu c f s) = task_list s" "sc_mem (upd_cpu c f s) = sc_mem s"
  "g_tick_count (upd_cpu c f s) = g_tick_count s" "next_pid (upd_cpu c f s) = next_pid s"
  by (simp_all add: upd_cpu_def)

text \<open>What the scheduler chooses: the first ready task after the head of the queue, or the idle task.\<close>

definition chosen :: "nat \<Rightarrow> ptr list \<Rightarrow> sched \<Rightarrow> ptr" where
  "chosen c qs s = (case find (ready s) (rotate1 qs) of None \<Rightarrow> c_idle (cpus s c) | Some n \<Rightarrow> n)"

definition queue_after :: "ptr list \<Rightarrow> sched \<Rightarrow> ptr list" where
  "queue_after qs s = (case find (ready s) (rotate1 qs) of None \<Rightarrow> qs | Some n \<Rightarrow> rotate_to n qs)"

lemma set_queue_after [simp]: "set (queue_after qs s) = set qs"
  by (simp add: queue_after_def split: option.split)

definition parked :: "nat \<Rightarrow> task_state \<Rightarrow> sched \<Rightarrow> sched" where
  "parked c ps s = (let prev = c_current (cpus s c)
     in if t_state (tasks s prev) = TASK_RUNNING then upd_task prev (t_state_update (\<lambda>_. ps)) s else s)"

lemma parked_simps [simp]:
  "task_run_queue (parked c ps s) = task_run_queue s" "cpus (parked c ps s) = cpus s"
  "t_next (tasks (parked c ps s) u) = t_next (tasks s u)"
  by (simp_all add: parked_def Let_def)

lemma schedule_result:
  assumes "cpu_inv n qs s" and "c < n" and "ps \<noteq> TASK_RUNNING"
    and "t_state (tasks s (c_current (cpus s c))) \<in> {TASK_RUNNING, TASK_DEAD}"
  shows "schedule c ps s = Some
     (let s1 = parked c ps s; nx = chosen c qs s1; prev = c_current (cpus s c);
          s2 = (if find (ready s1) (rotate1 qs) = None then s1 else s1\<lparr>task_run_queue := nx\<rparr>);
          s3 = upd_task prev (t_resched_pending_update (\<lambda>_. False))
                 (upd_task nx (t_state_update (\<lambda>_. TASK_RUNNING)) s2)
      in if nx = prev then s3 else upd_cpu c (c_current_update (\<lambda>_. nx)) s3)"
proof -
  let ?s1 = "parked c ps s" and ?prev = "c_current (cpus s c)"
  have r: "ring ?s1 qs" by (rule ring_cong [of s]) (use assms(1) in \<open>simp_all add: cpu_inv_def\<close>)
  have e: "(if t_state (tasks s ?prev) = TASK_RUNNING then upd_task ?prev (t_state_update (\<lambda>_. ps)) s else s) = ?s1"
    by (simp add: parked_def)
  show ?thesis
  proof (cases "find (ready ?s1) (rotate1 qs)")
    case None
    have nr: "\<not> (?prev \<noteq> c_idle (cpus s c) \<and> t_state (tasks ?s1 ?prev) = TASK_READY)"
    proof
      assume "?prev \<noteq> c_idle (cpus s c) \<and> t_state (tasks ?s1 ?prev) = TASK_READY"
      moreover from this have "?prev \<in> set qs" using assms(1,2) by (auto simp: cpu_inv_def)
      ultimately show False using None by (auto simp: find_None_iff ready_def)
    qed
    with None pick_next_ring [OF r] show ?thesis
      unfolding schedule_def Let_def e by (simp add: chosen_def Let_def del: split_paired_All) (auto simp: Let_def)
  next
    case (Some nx)
    then have "nx \<in> set qs" using find_rotate1 [OF Some] by blast
    then have "nx \<noteq> NULL" using r by (auto simp: ring_def)
    with Some pick_next_ring [OF r] show ?thesis
      unfolding schedule_def Let_def e by (simp add: chosen_def Let_def)
  qed
qed

lemma chosen_cases:
  assumes "cpu_inv n qs s" and "c < n"
  shows "(chosen c qs s \<in> set qs \<and> ready s (chosen c qs s)) \<or>
    (chosen c qs s = c_idle (cpus s c) \<and> (\<forall>t \<in> set qs. \<not> ready s t))"
  using find_rotate1 [of "ready s" qs] by (auto simp: chosen_def find_None_iff split: option.split)

lemma cpu_inv_parked:
  assumes "cpu_inv n qs s" and "ps \<noteq> TASK_RUNNING"
  shows "cpu_inv n qs (parked c ps s)"
proof -
  have "ring (parked c ps s) qs" by (rule ring_cong [of s]) (use assms(1) in \<open>simp_all add: cpu_inv_def\<close>)
  with assms show ?thesis unfolding cpu_inv_def by (auto simp: parked_def Let_def)
qed

lemma schedule_inv:
  assumes "cpu_inv n qs s" and "c < n" and "ps \<noteq> TASK_RUNNING"
    and "t_state (tasks s (c_current (cpus s c))) \<in> {TASK_RUNNING, TASK_DEAD}"
    and "\<And>d. d < n \<Longrightarrow> d \<noteq> c \<Longrightarrow> running d s"
  shows "\<exists>s'. schedule c ps s = Some s' \<and> sched_inv n (queue_after qs (parked c ps s)) s' \<and>
    c_current (cpus s' c) = chosen c qs (parked c ps s) \<and> sc_mem s' = sc_mem s \<and>
    g_tick_count s' = g_tick_count s \<and> (\<forall>d. c_idle (cpus s' d) = c_idle (cpus s d)) \<and>
    (\<forall>d. d \<noteq> c \<longrightarrow> cpus s' d = cpus s d)"
proof -
  let ?s1 = "parked c ps s" and ?prev = "c_current (cpus s c)" and ?qs = "queue_after qs (parked c ps s)"
  define nx where "nx = chosen c qs ?s1"
  define s2 where "s2 = (if find (ready ?s1) (rotate1 qs) = None then ?s1 else ?s1\<lparr>task_run_queue := nx\<rparr>)"
  define s3 where "s3 = upd_task ?prev (t_resched_pending_update (\<lambda>_. False))
                 (upd_task nx (t_state_update (\<lambda>_. TASK_RUNNING)) s2)"
  define s' where "s' = (if nx = ?prev then s3 else upd_cpu c (c_current_update (\<lambda>_. nx)) s3)"
  have res: "schedule c ps s = Some s'"
    using schedule_result [OF assms(1-4)] by (simp add: Let_def nx_def s2_def s3_def s'_def)
  have i1: "cpu_inv n qs ?s1" by (rule cpu_inv_parked [OF assms(1,3)])
  have st: "t_state (tasks ?s1 ?prev) \<noteq> TASK_RUNNING" using assms(3,4) by (auto simp: parked_def Let_def)
  have r2: "ring s2 ?qs"
  proof (cases "find (ready ?s1) (rotate1 qs)")
    case None
    then show ?thesis using i1 by (simp add: s2_def queue_after_def cpu_inv_def)
  next
    case (Some x)
    have "ring (?s1\<lparr>task_run_queue := x\<rparr>) (rotate_to x qs)"
      by (rule ring_rotate_to) (use i1 find_rotate1 [OF Some] in \<open>simp_all add: cpu_inv_def\<close>)
    with Some show ?thesis by (simp add: s2_def queue_after_def nx_def chosen_def)
  qed
  have r: "ring s' ?qs" by (rule ring_cong [OF r2]) (simp_all add: s'_def s3_def)
  have t2: "tasks s2 = tasks ?s1" "cpus s2 = cpus s" by (simp_all add: s2_def)
  have ts: "t_state (tasks s' u) = (if u = nx then TASK_RUNNING else t_state (tasks ?s1 u))" for u
    by (simp add: s'_def s3_def t2)
  have cp: "c_current (cpus s' d) = (if d = c then nx else c_current (cpus s d))"
    "c_idle (cpus s' d) = c_idle (cpus s d)" for d
    by (simp_all add: s'_def s3_def t2)
  have oth: "t_state (tasks ?s1 (c_current (cpus s d))) = TASK_RUNNING" if "d < n" "d \<noteq> c" for d
  proof -
    have "c_current (cpus s d) \<noteq> ?prev" using assms(1,2) that unfolding cpu_inv_def by metis
    with assms(5) [OF that] show ?thesis by (simp add: running_def parked_def Let_def)
  qed
  have ch: "(nx \<in> set qs \<and> ready ?s1 nx) \<or> (nx = c_idle (cpus s c))"
    using chosen_cases [OF i1 assms(2)] by (auto simp: nx_def)
  have nd: "nx \<noteq> c_current (cpus s d)" if d: "d < n" "d \<noteq> c" for d
  proof
    assume e: "nx = c_current (cpus s d)"
    from ch show False
    proof
      assume "nx \<in> set qs \<and> ready ?s1 nx"
      with oth [OF d] e show False by (simp add: ready_def)
    next
      assume "nx = c_idle (cpus s c)"
      with e d assms(1,2) show False unfolding cpu_inv_def by metis
    qed
  qed
  have run: "\<exists>d < n. c_current (cpus s' d) = t"
    if t: "t \<in> set qs" "t_state (tasks s' t) = TASK_RUNNING" for t
  proof (cases "t = nx")
    case True
    then show ?thesis using assms(2) cp(1) by (intro exI [of _ c]) simp
  next
    case False
    then have s1: "t_state (tasks ?s1 t) = TASK_RUNNING" using t(2) ts by simp
    with i1 t(1) obtain d where "d < n" "c_current (cpus s d) = t" unfolding cpu_inv_def by auto
    moreover from this s1 st have "d \<noteq> c" by auto
    ultimately show ?thesis using cp(1) by (intro exI [of _ d]) simp
  qed
  have "cpu_inv n ?qs s'"
    unfolding cpu_inv_def
  proof (intro conjI allI impI ballI)
    fix d assume d: "d < n"
    show "c_idle (cpus s' d) \<noteq> NULL" "c_idle (cpus s' d) \<notin> set ?qs"
      using assms(1) d by (simp_all add: cp cpu_inv_def)
    show "c_current (cpus s' d) \<in> set ?qs \<or> c_current (cpus s' d) = c_idle (cpus s' d)"
      using assms(1) d ch by (auto simp: cp cpu_inv_def)
  next
    fix a b assume "a < n" "b < n" "a \<noteq> b"
    then show "c_idle (cpus s' a) \<noteq> c_idle (cpus s' b)"
      using assms(1) by (simp add: cp cpu_inv_def)
    show "c_current (cpus s' a) \<noteq> c_current (cpus s' b)"
      using assms(1) nd [of a] nd [of b] \<open>a < n\<close> \<open>b < n\<close> \<open>a \<noteq> b\<close> by (auto simp: cp cpu_inv_def)
  next
    fix t assume "t \<in> set ?qs" "t_state (tasks s' t) = TASK_RUNNING"
    then show "\<exists>d < n. c_current (cpus s' d) = t" using run by simp
  qed (rule r)
  moreover have "running d s'" if "d < n" for d
    using oth [of d] that by (auto simp: running_def ts cp)
  ultimately have "sched_inv n ?qs s'" by (simp add: sched_inv_def)
  then show ?thesis using res cp by (intro exI [of _ s']) (auto simp: nx_def s'_def s3_def s2_def parked_def Let_def)
qed

lemma running_upd_task:
  "(\<And>x. t_state (f x) = t_state x) \<Longrightarrow> running c (upd_task t f s) = running c s"
  by (simp add: running_def)

lemma sched_inv_upd_task:
  assumes "sched_inv n qs s" and "\<And>x. t_state (f x) = t_state x" and "\<And>x. t_next (f x) = t_next x"
  shows "sched_inv n qs (upd_task t f s)"
proof -
  have "ring (upd_task t f s) qs"
    by (rule ring_cong [of s]) (use assms in \<open>simp_all add: sched_inv_def cpu_inv_def\<close>)
  with assms show ?thesis by (simp add: sched_inv_def cpu_inv_def running_upd_task)
qed

lemma sched_inv_upd_cpu:
  assumes "sched_inv n qs s" and "\<And>x. c_current (f x) = c_current x" and "\<And>x. c_idle (f x) = c_idle x"
  shows "sched_inv n qs (upd_cpu c f s)"
proof -
  have "ring (upd_cpu c f s) qs"
    by (rule ring_cong [of s]) (use assms in \<open>simp_all add: sched_inv_def cpu_inv_def\<close>)
  moreover have "c_current (cpus (upd_cpu c f s) d) = c_current (cpus s d)"
    "c_idle (cpus (upd_cpu c f s) d) = c_idle (cpus s d)" for d
    using assms(2,3) by simp_all
  ultimately show ?thesis using assms(1) unfolding sched_inv_def cpu_inv_def running_def
    by (simp only: upd_cpu_simps(1)) simp
qed

lemma sched_inv_wake:
  assumes "sched_inv n qs s" and "\<And>t. P t \<Longrightarrow> t_state t = TASK_SLEEPING"
  shows "sched_inv n qs (wake P A s)"
proof -
  have "t_state (tasks (wake P A s) t) = TASK_RUNNING \<longleftrightarrow> t_state (tasks s t) = TASK_RUNNING" for t
    using assms(2) by (auto simp: wake_def)
  moreover have "cpus (wake P A s) = cpus s" by (simp add: wake_def)
  ultimately show ?thesis using assms(1) by (simp add: sched_inv_def cpu_inv_def running_def)
qed

text \<open>Fields that the scheduler neither reads nor writes.\<close>

lemma sched_inv_cong:
  assumes "sched_inv n qs s" and "tasks s' = tasks s" and "cpus s' = cpus s"
    and "task_run_queue s' = task_run_queue s"
  shows "sched_inv n qs s'"
proof -
  have "ring s' qs" by (rule ring_cong [of s]) (use assms in \<open>simp_all add: sched_inv_def cpu_inv_def\<close>)
  with assms show ?thesis by (simp add: sched_inv_def cpu_inv_def running_def)
qed

text \<open>\<open>kept s s'\<close>: an operation that leaves the memory, the set of CPUs' idle tasks and the set of
  queued tasks alone.\<close>

definition kept :: "sched \<Rightarrow> sched \<Rightarrow> bool" where
  "kept s s' \<longleftrightarrow> sc_mem s' = sc_mem s \<and> (\<forall>d. c_idle (cpus s' d) = c_idle (cpus s d))"

lemma schedule_sched_inv:
  assumes "sched_inv n qs s" and "c < n" and "ps \<noteq> TASK_RUNNING"
  shows "\<exists>s' qs'. schedule c ps s = Some s' \<and> sched_inv n qs' s' \<and> set qs' = set qs \<and> kept s s'"
proof -
  have a: "cpu_inv n qs s" "\<And>d. d < n \<Longrightarrow> running d s" using assms(1) by (simp_all add: sched_inv_def)
  then have "t_state (tasks s (c_current (cpus s c))) \<in> {TASK_RUNNING, TASK_DEAD}"
    using assms(2) by (simp add: running_def)
  from schedule_inv [OF a(1) assms(2,3) this a(2)] show ?thesis
    by (metis kept_def set_queue_after)
qed

lemma task_yield_inv:
  assumes "sched_inv n qs s" and "c < n"
  shows "\<exists>s' qs'. task_yield c s = Some s' \<and> sched_inv n qs' s' \<and> set qs' = set qs \<and> kept s s'"
  using schedule_sched_inv [OF assms, of TASK_READY] assms(1)
  by (auto simp: task_yield_def kept_def)

lemma task_sleep_ms_inv:
  assumes "sched_inv n qs s" and "c < n"
  shows "\<exists>s' qs'. task_sleep_ms c ms s = Some s' \<and> sched_inv n qs' s' \<and> set qs' = set qs \<and> kept s s'"
proof (cases "task_current c s = NULL")
  case True
  with assms(1) show ?thesis by (auto simp: task_sleep_ms_def kept_def Let_def)
next
  case False
  let ?s = "upd_task (task_current c s) (t_wake_tick_update (\<lambda>_. g_tick_count s + sleep_ticks ms)) s"
  have "sched_inv n qs ?s" by (rule sched_inv_upd_task [OF assms(1)]) simp_all
  from schedule_sched_inv [OF this assms(2), of TASK_SLEEPING] False show ?thesis
    by (auto simp: task_sleep_ms_def kept_def Let_def)
qed

lemma task_block_inv:
  assumes "sched_inv n qs s" and "c < n"
  shows "\<exists>s' qs'. task_block c ms s = Some s' \<and> sched_inv n qs' s' \<and> set qs' = set qs \<and> kept s s'"
proof (cases "task_current c s = NULL")
  case True
  with assms(1) show ?thesis by (auto simp: task_block_def kept_def Let_def)
next
  case False
  define ticks where "ticks = (if ms = TASK_BLOCK_FOREVER then push_bit 62 1 else sleep_ticks ms)"
  let ?s = "upd_task (task_current c s) (\<lambda>t. t\<lparr>t_wake_tick := g_tick_count s + ticks, t_waiting := True\<rparr>) s"
  have "sched_inv n qs ?s" by (rule sched_inv_upd_task [OF assms(1)]) simp_all
  from schedule_sched_inv [OF this assms(2), of TASK_SLEEPING] False show ?thesis
    by (auto simp: task_block_def kept_def Let_def ticks_def)
qed

lemma task_scheduler_tick_inv:
  assumes "sched_inv n qs s" and "c < n"
  shows "\<exists>s' qs'. task_scheduler_tick c s = Some s' \<and> sched_inv n qs' s' \<and> set qs' = set qs \<and> kept s s'"
proof -
  define s1 where "s1 = upd_cpu c (\<lambda>p. p\<lparr>c_ticks := c_ticks p + 1\<rparr>) s"
  have i1: "sched_inv n qs s1" unfolding s1_def by (rule sched_inv_upd_cpu [OF assms(1)]) simp_all
  define s2 where "s2 = (if c_current (cpus s1 c) \<noteq> c_idle (cpus s1 c)
      then upd_task (c_current (cpus s1 c)) (\<lambda>t. t\<lparr>t_cpu_ticks := t_cpu_ticks t + 1\<rparr>)
             (upd_cpu c (\<lambda>p. p\<lparr>c_busy_ticks := c_busy_ticks p + 1\<rparr>) s1)
      else s1)"
  have i2: "sched_inv n qs s2"
    unfolding s2_def using i1 sched_inv_upd_cpu [OF i1] by (auto intro!: sched_inv_upd_task)
  define s3 where "s3 = (if c = 0 then let s' = s2\<lparr>g_tick_count := g_tick_count s2 + 1\<rparr>
      in wake (sleep_over (g_tick_count s')) (set qs) s' else s2)"
  have i2': "sched_inv n qs (s2\<lparr>g_tick_count := g_tick_count s2 + 1\<rparr>)"
    by (rule sched_inv_cong [OF i2]) simp_all
  then have "ring (s2\<lparr>g_tick_count := g_tick_count s2 + 1\<rparr>) qs" by (simp add: sched_inv_def cpu_inv_def)
  then have w: "(if c = 0 then let s' = s2\<lparr>g_tick_count := g_tick_count s2 + 1\<rparr> in wake_sleepers (g_tick_count s') s'
      else Some s2) = Some s3" by (simp add: s3_def wake_sleepers_ring Let_def)
  have i3: "sched_inv n qs s3"
    using i2 sched_inv_wake [OF i2', of "sleep_over (g_tick_count s2 + 1)" "set qs"]
    by (auto simp: s3_def Let_def sleep_over_def)
  have k3: "kept s s3" by (auto simp: kept_def s3_def s2_def s1_def wake_def Let_def)
  have e: "task_scheduler_tick c s = (let t = task_current c s3
      in if t = NULL then Some s3
         else if t_in_kcall (tasks s3 t) then Some (upd_task t (t_resched_pending_update (\<lambda>_. True)) s3)
         else schedule c TASK_READY s3)"
    unfolding task_scheduler_tick_def Let_def s1_def [symmetric]
    unfolding s2_def [symmetric] w [unfolded Let_def] bind.bind_lunit ..
  have ik: "sched_inv n qs (upd_task t (t_resched_pending_update (\<lambda>_. True)) s3)" for t
    by (rule sched_inv_upd_task [OF i3]) simp_all
  from schedule_sched_inv [OF i3 assms(2), of TASK_READY] obtain s' qs' where
    "schedule c TASK_READY s3 = Some s'" "sched_inv n qs' s'" "set qs' = set qs" "kept s3 s'" by auto
  then show ?thesis using e k3 i3 ik by (auto simp: Let_def kept_def)
qed

subsection \<open>New tasks\<close>

text \<open>\<open>task_mem n qs G B s\<close>: the memory invariant, and every queued or idle task is a live heap block.\<close>

definition task_mem :: "nat \<Rightarrow> ptr list \<Rightarrow> (ptr \<rightharpoonup> u64) \<Rightarrow> (ptr \<rightharpoonup> u64) \<Rightarrow> sched \<Rightarrow> bool" where
  "task_mem n qs G B s \<longleftrightarrow> up_inv G B (sc_mem s) \<and>
     (\<forall>t. t \<in> set qs \<or> (\<exists>c < n. t = c_idle (cpus s c)) \<longrightarrow> B t \<noteq> None \<and> t \<noteq> user_runs (sc_mem s))"

definition sched_wf :: "nat \<Rightarrow> sched \<Rightarrow> bool" where
  "sched_wf n s \<longleftrightarrow> (\<exists>qs G B. sched_inv n qs s \<and> task_mem n qs G B s)"

lemma task_mem_kept: "task_mem n qs G B s \<Longrightarrow> kept s s' \<Longrightarrow> set qs' = set qs \<Longrightarrow> task_mem n qs' G B s'"
  by (simp add: task_mem_def kept_def)

text \<open>A task that is not queued and not idle is invisible to the scheduler.\<close>

lemma sched_inv_fresh:
  assumes "sched_inv n qs s" and "t \<notin> set qs" and "\<And>c. c < n \<Longrightarrow> t \<noteq> c_idle (cpus s c)"
    and "\<And>u. u \<noteq> t \<Longrightarrow> tasks s' u = tasks s u" and "cpus s' = cpus s" and "task_run_queue s' = task_run_queue s"
  shows "sched_inv n qs s'"
proof -
  have tk: "tasks s' u = tasks s u" if "u \<in> set qs" for u
    using that assms(2,4) by (cases "u = t") auto
  have "ring s' qs"
    by (rule ring_cong [of s]) (use assms(1,6) tk in \<open>simp_all add: sched_inv_def cpu_inv_def\<close>)
  moreover have "c_current (cpus s c) \<noteq> t" if "c < n" for c
    using assms(1-3) that by (auto simp: sched_inv_def cpu_inv_def)
  moreover note tk
  ultimately show ?thesis using assms by (simp add: sched_inv_def cpu_inv_def running_def)
qed

lemma run_queue_push_inv:
  assumes "sched_inv n qs s" and "t \<notin> set qs" and "t \<noteq> NULL" and "\<And>c. c < n \<Longrightarrow> t \<noteq> c_idle (cpus s c)"
    and "t_state (tasks s t) \<noteq> TASK_RUNNING"
  shows "\<exists>qs'. sched_inv n qs' (run_queue_push t s) \<and> set qs' = insert t (set qs) \<and> kept s (run_queue_push t s)"
proof -
  let ?s = "run_queue_push t s" and ?qs = "case qs of [] \<Rightarrow> [t] | q # rs \<Rightarrow> q # t # rs"
  have r: "ring ?s ?qs" by (rule ring_push) (use assms in \<open>simp_all add: sched_inv_def cpu_inv_def\<close>)
  have st: "t_state (tasks ?s u) = t_state (tasks s u)" "cpus ?s = cpus s" "sc_mem ?s = sc_mem s" for u
    by (simp_all add: run_queue_push_def Let_def)
  have se: "set ?qs = insert t (set qs)" by (cases qs) auto
  have "cpu_inv n ?qs ?s"
    using assms r unfolding sched_inv_def cpu_inv_def se st by auto
  then have "sched_inv n ?qs ?s" using assms(1) by (simp add: sched_inv_def running_def st)
  then show ?thesis using se st by (auto simp: kept_def)
qed

lemma task_alloc_cases:
  assumes "sched_inv n qs s" and "task_mem n qs G B s"
  obtains (null) "task_alloc s = Some (NULL, s)"
    | (new) t s' B' where "task_alloc s = Some (t, s')" "t \<noteq> NULL" "t \<notin> set qs" "B' t = Some TASK_SIZE"
        "\<And>c. c < n \<Longrightarrow> t \<noteq> c_idle (cpus s' c)" "t \<noteq> user_runs (sc_mem s')" "sched_inv n qs s'"
        "task_mem n qs G B' s'" "task_list s' = t" "t_state (tasks s' t) = TASK_READY"
proof -
  have up: "up_inv G B (sc_mem s)" using assms(2) by (simp add: task_mem_def)
  show thesis
    using up
  proof (cases rule: up_inv_kmalloc [where n = TASK_SIZE])
    case null
    with that(1) show thesis by (simp add: task_alloc_def)
  next
    case (block t h)
    define s' where "s' = s\<lparr>sc_mem := (sc_mem s)\<lparr>up_heap := h\<rparr>,
      tasks := (tasks s)(t := task_zero\<lparr>t_list_next := task_list s\<rparr>), task_list := t\<rparr>"
    have a: "task_alloc s = Some (t, s')" using block(1,2) by (simp add: task_alloc_def s'_def Let_def)
    have fq: "t \<notin> set qs" "\<And>c. c < n \<Longrightarrow> t \<noteq> c_idle (cpus s c)"
      using assms(2) block(3) by (auto simp: task_mem_def)
    have i: "sched_inv n qs s'"
      by (rule sched_inv_fresh [OF assms(1) fq]) (simp_all add: s'_def)
    have m: "task_mem n qs G (B(t \<mapsto> TASK_SIZE)) s'"
      using assms(2) block(5) by (auto simp: task_mem_def s'_def)
    show thesis
      by (rule that(2) [OF a block(2) fq(1) _ _ _ i m])
        (use fq block(4) in \<open>simp_all add: s'_def task_zero_def\<close>)
  qed
qed

lemma sc_alloc_pages_cases:
  assumes "task_mem n qs G B s"
  obtains (null) "sc_alloc_pages k s = Some (NULL, s)"
    | (pages) p s' where "sc_alloc_pages k s = Some (p, s')" "p \<noteq> NULL" "G p = None" "task_mem n qs (G(p \<mapsto> k)) B s'"
        "s' = s\<lparr>sc_mem := sc_mem s'\<rparr>" "user_runs (sc_mem s') = user_runs (sc_mem s)"
proof -
  have "up_inv G B (sc_mem s)" using assms by (simp add: task_mem_def)
  from up_inv_pages [OF this, of k] obtain p m where
    p: "pmm_alloc_pages k (hp_pmm (up_heap (sc_mem s))) = Some (p, m)"
      "if p = NULL then m = hp_pmm (up_heap (sc_mem s))
       else G p = None \<and> up_inv (G(p \<mapsto> k)) B ((sc_mem s)\<lparr>up_heap := (up_heap (sc_mem s))\<lparr>hp_pmm := m\<rparr>\<rparr>)" by blast
  show thesis
  proof (cases "p = NULL")
    case True
    with p that(1) show thesis by (simp add: sc_alloc_pages_def)
  next
    case False
    define s' where "s' = s\<lparr>sc_mem := (sc_mem s)\<lparr>up_heap := (up_heap (sc_mem s))\<lparr>hp_pmm := m\<rparr>\<rparr>\<rparr>"
    show thesis
      by (rule that(2) [of p s']) (use False p assms in \<open>auto simp: sc_alloc_pages_def s'_def task_mem_def\<close>)
  qed
qed

lemma task_free_new:
  assumes "sched_inv n qs s" and "task_mem n qs G B s" and "task_list s = t" and "t \<noteq> NULL" and "t \<notin> set qs"
    and "B t = Some k" and "t \<noteq> user_runs (sc_mem s)" and "\<And>c. c < n \<Longrightarrow> t \<noteq> c_idle (cpus s c)"
  shows "\<exists>s'. task_free t s = Some s' \<and> sched_wf n s'"
proof -
  let ?s = "s\<lparr>task_list := t_list_next (tasks s t)\<rparr>"
  have u: "unlink_loop None t s = Some ?s"
    using assms(3,4) by (subst unlink_loop.simps) (simp add: get_link_def set_link_def)
  have "up_inv G B (sc_mem s)" using assms(2) by (simp add: task_mem_def)
  from up_inv_kfree [OF this assms(6,7)] obtain h where
    h: "kfree t (up_heap (sc_mem s)) = Some h" "up_inv G (B(t := None)) ((sc_mem s)\<lparr>up_heap := h\<rparr>)" by blast
  let ?s' = "?s\<lparr>sc_mem := (sc_mem s)\<lparr>up_heap := h\<rparr>\<rparr>"
  have "sched_inv n qs ?s'" by (rule sched_inv_cong [OF assms(1)]) simp_all
  moreover have "task_mem n qs G (B(t := None)) ?s'" using assms(2,5,8) h(2) by (auto simp: task_mem_def)
  ultimately show ?thesis using u h(1) by (auto simp: task_free_def sched_wf_def)
qed

lemma task_new_common_cases:
  assumes "sched_inv n qs s" and "task_mem n qs G B s"
  obtains (none) s' where "task_new_common c name s = Some (NULL, s')" "sched_wf n s'"
    | (new) t s' G' B' where "task_new_common c name s = Some (t, s')" "t \<noteq> NULL" "t \<notin> set qs"
        "\<And>d. d < n \<Longrightarrow> t \<noteq> c_idle (cpus s' d)" "B' t = Some TASK_SIZE" "t \<noteq> user_runs (sc_mem s')"
        "sched_inv n qs s'" "task_mem n qs G' B' s'" "t_state (tasks s' t) = TASK_READY"
  using assms
proof (cases rule: task_alloc_cases)
  case null
  with none assms show thesis by (auto simp: task_new_common_def sched_wf_def)
next
  case (new t s1 B')
  note al = new
  let ?k = "TASK_STACK_SIZE div PAGE_SIZE"
  show thesis
    using new(8)
  proof (cases rule: sc_alloc_pages_cases [where k = ?k])
    case null
    from task_free_new [OF al(7,8,9,2,3,4,6,5)] obtain s3 where "task_free t s1 = Some s3" "sched_wf n s3" by blast
    with al(1,2) null none show thesis by (simp add: task_new_common_def Let_def)
  next
    case (pages p s2)
    define f where "f = (\<lambda>u. task_fpu_init (u\<lparr>t_stack_base := p, t_stack_pages := ?k, t_stdio := [- 1, - 1, - 1],
        t_cwd := (if task_current c s2 \<noteq> NULL then t_cwd (tasks s2 (task_current c s2)) else ''/''),
        t_pid := next_pid s2\<rparr>)\<lparr>t_state := TASK_READY,
        t_name := take (TASK_NAME_MAX - 1) (case name of Some n \<Rightarrow> n | None \<Rightarrow> ''task'')\<rparr>)"
    define s' where "s' = upd_task t f (s2\<lparr>next_pid := next_pid s2 + 1\<rparr>)"
    have e: "task_new_common c name s = Some (t, s')"
      using al(1,2) pages(1,2) by (simp add: task_new_common_def Let_def s'_def f_def)
    have c2: "cpus s2 = cpus s1" "tasks s2 = tasks s1" "task_run_queue s2 = task_run_queue s1"
      by (subst pages(5), simp)+
    have i: "sched_inv n qs s'"
      by (rule sched_inv_fresh [OF al(7,3,5)]) (simp_all add: s'_def c2)
    have m: "task_mem n qs (G(p \<mapsto> ?k)) B' s'" using pages(4) by (simp add: task_mem_def s'_def)
    show thesis
      by (rule that(2) [OF e al(2,3) _ al(4) _ i m])
        (use al(5,6) pages(6) in \<open>simp_all add: s'_def c2 f_def\<close>)
  qed
qed

lemma task_create_with_wf:
  assumes "sched_wf n s"
  shows "\<exists>t s'. task_create_with tramp c name ent arg img s = Some (t, s') \<and> sched_wf n s'"
proof (cases "ent = 0")
  case True
  with assms show ?thesis by (simp add: task_create_with_def)
next
  case False
  from assms obtain qs G B where i: "sched_inv n qs s" and m: "task_mem n qs G B s" by (auto simp: sched_wf_def)
  from i m show ?thesis
  proof (cases rule: task_new_common_cases [where c = c and name = name])
    case (none s')
    with False show ?thesis by (auto simp: task_create_with_def)
  next
    case (new t s1 G' B')
    define s2 where "s2 = (case img of None \<Rightarrow> s1
        | Some i \<Rightarrow> upd_task t (\<lambda>u. u\<lparr>t_image := i, t_owns_image := True\<rparr>) s1)"
    define s3 where "s3 = task_prime_stack tramp t ent arg s2"
    have e: "task_create_with tramp c name ent arg img s = Some (t, run_queue_push t s3)"
      using False new(1,2) by (simp add: task_create_with_def Let_def s2_def s3_def)
    have c2: "cpus s2 = cpus s1" "task_run_queue s2 = task_run_queue s1" "\<And>u. u \<noteq> t \<Longrightarrow> tasks s2 u = tasks s1 u"
      "sc_mem s2 = sc_mem s1" "t_state (tasks s2 t) = t_state (tasks s1 t)"
      by (simp_all add: s2_def split: option.split)
    have c3: "cpus s3 = cpus s2" "task_run_queue s3 = task_run_queue s2" "\<And>u. u \<noteq> t \<Longrightarrow> tasks s3 u = tasks s2 u"
      "t_state (tasks s3 t) = t_state (tasks s2 t)"
      "\<exists>m. sc_mem s3 = (sc_mem s2)\<lparr>up_heap := (up_heap (sc_mem s2))\<lparr>hmem := m\<rparr>\<rparr>"
      by (auto simp: s3_def task_prime_stack_def Let_def split: prod.split)
    have i3: "sched_inv n qs s3"
      by (rule sched_inv_fresh [OF new(7,3,4)]) (simp_all add: c2 c3)
    obtain hm where hm: "sc_mem s3 = (sc_mem s1)\<lparr>up_heap := (up_heap (sc_mem s1))\<lparr>hmem := hm\<rparr>\<rparr>"
      using c3(5) c2(4) by auto
    have m3: "task_mem n qs G' B' s3"
      using new(8) by (simp add: task_mem_def hm up_inv_hmem c2 c3)
    have "\<And>d. d < n \<Longrightarrow> t \<noteq> c_idle (cpus s3 d)" using new(4) by (simp add: c2 c3)
    from run_queue_push_inv [OF i3 new(3,2) this] new(9) c2(5) c3(4) obtain qs' where
      q: "sched_inv n qs' (run_queue_push t s3)" "set qs' = insert t (set qs)" "kept s3 (run_queue_push t s3)" by auto
    have "task_mem n qs' G' B' (run_queue_push t s3)"
      using m3 q(2,3) new(5,6) hm by (auto simp: task_mem_def kept_def)
    with q(1) e show ?thesis by (auto simp: sched_wf_def)
  qed
qed

subsection \<open>Runs of the scheduler\<close>

text \<open>One step of the system: any operation, on any of the \<open>n\<close> CPUs.\<close>

inductive sched_step :: "nat \<Rightarrow> sched \<Rightarrow> sched \<Rightarrow> bool" for n where
  yield: "c < n \<Longrightarrow> task_yield c s = Some s' \<Longrightarrow> sched_step n s s'"
| tick: "c < n \<Longrightarrow> task_scheduler_tick c s = Some s' \<Longrightarrow> sched_step n s s'"
| sleep: "c < n \<Longrightarrow> task_sleep_ms c ms s = Some s' \<Longrightarrow> sched_step n s s'"
| block: "c < n \<Longrightarrow> task_block c ms s = Some s' \<Longrightarrow> sched_step n s s'"
| unblock: "sched_step n s (task_block_return t s)"
| wake: "task_wake_waiters s = Some s' \<Longrightarrow> sched_step n s s'"
| create: "task_create_with tramp c name ent arg img s = Some (t, s') \<Longrightarrow> sched_step n s s'"

lemma sched_wf_op:
  assumes "sched_wf n s" and "r = Some s'"
    and "\<And>qs. sched_inv n qs s \<Longrightarrow> \<exists>s' qs'. r = Some s' \<and> sched_inv n qs' s' \<and> set qs' = set qs \<and> kept s s'"
  shows "sched_wf n s'"
proof -
  from assms(1) obtain qs G B where q: "sched_inv n qs s" "task_mem n qs G B s" by (auto simp: sched_wf_def)
  from assms(3) [OF q(1)] assms(2) obtain qs' where "sched_inv n qs' s'" "set qs' = set qs" "kept s s'" by auto
  with task_mem_kept [OF q(2)] show ?thesis unfolding sched_wf_def by blast
qed

lemma sched_step_wf:
  assumes "sched_step n s s'" and "sched_wf n s"
  shows "sched_wf n s'"
  using assms
proof cases
  case (yield c)
  show ?thesis by (rule sched_wf_op [OF assms(2) yield(2) task_yield_inv [OF _ yield(1)]])
next
  case (tick c)
  show ?thesis by (rule sched_wf_op [OF assms(2) tick(2) task_scheduler_tick_inv [OF _ tick(1)]])
next
  case (sleep c ms)
  show ?thesis by (rule sched_wf_op [OF assms(2) sleep(2) task_sleep_ms_inv [OF _ sleep(1)]])
next
  case (block c ms)
  show ?thesis by (rule sched_wf_op [OF assms(2) block(2) task_block_inv [OF _ block(1)]])
next
  case (unblock t)
  from assms(2) obtain qs G B where q: "sched_inv n qs s" "task_mem n qs G B s" by (auto simp: sched_wf_def)
  have "sched_inv n qs s'" unfolding unblock task_block_return_def by (rule sched_inv_upd_task [OF q(1)]) simp_all
  moreover have "kept s s'" by (simp add: unblock task_block_return_def kept_def)
  ultimately show ?thesis using task_mem_kept [OF q(2)] unfolding sched_wf_def by blast
next
  case wake
  from assms(2) obtain qs G B where q: "sched_inv n qs s" "task_mem n qs G B s" by (auto simp: sched_wf_def)
  let ?P = "\<lambda>t. t_waiting t \<and> t_state t = TASK_SLEEPING"
  have "s' = Task.wake ?P (set qs) s"
    using wake task_wake_waiters_ring [of s qs] q(1) by (simp add: sched_inv_def cpu_inv_def)
  moreover have "sched_inv n qs (Task.wake ?P (set qs) s)" by (rule sched_inv_wake [OF q(1)]) simp
  moreover have "kept s (Task.wake ?P (set qs) s)" by (simp add: kept_def wake_def)
  ultimately show ?thesis using task_mem_kept [OF q(2)] unfolding sched_wf_def by blast
next
  case (create tramp c name ent arg img t)
  with task_create_with_wf [OF assms(2)] show ?thesis by (metis option.inject prod.inject)
qed

lemma task_init_wf:
  assumes "up_inv G B (sc_mem s)" and "task_run_queue s = NULL" and "task_init 0 s = Some s'"
  shows "sched_wf 1 s'"
proof -
  have i0: "sched_inv 0 [] s" by (simp add: sched_inv_def cpu_inv_def assms(2))
  have m0: "task_mem 0 [] G B s" using assms(1) by (simp add: task_mem_def)
  from i0 m0 show ?thesis
  proof (cases rule: task_alloc_cases)
    case null
    with assms(3) show ?thesis by (simp add: task_init_def)
  next
    case (new t s1 B')
    define s2 where "s2 = upd_cpu 0 (\<lambda>p. p\<lparr>c_idle := t, c_current := t\<rparr>)
      (upd_task t (\<lambda>u. task_fpu_init (u\<lparr>t_name := ''kernel'', t_state := TASK_RUNNING,
         t_saved_rsp := 0, t_stdio := [- 1, - 1, - 1]\<rparr>)) (s1\<lparr>kernel_task := t\<rparr>))"
    have e: "s' = s2" using assms(3) new(1,2) by (simp add: task_init_def s2_def)
    have "task_run_queue s1 = NULL" using new(7) by (simp add: sched_inv_def cpu_inv_def)
    then have "sched_inv 1 [] s2"
      using new(2) by (simp add: sched_inv_def cpu_inv_def running_def s2_def task_fpu_init_def)
    moreover have "task_mem 1 [] G B' s2" using new(4,6,8) by (simp add: task_mem_def s2_def)
    ultimately show ?thesis unfolding e sched_wf_def by blast
  qed
qed

subsection \<open>Properties\<close>


definition sched_start :: sched where
  "sched_start = \<lparr>tasks = (\<lambda>_. task_zero), task_list = NULL, kernel_task = NULL, task_run_queue = NULL,
     g_tick_count = 0, next_pid = 1, cpus = (\<lambda>_. \<lparr>c_current = NULL, c_idle = NULL, c_ticks = 0, c_busy_ticks = 0\<rparr>),
     sc_mem = up_example\<rparr>"

lemma sched_boot: "\<exists>s. task_init 0 sched_start = Some s \<and> sched_wf 1 s"
proof -
  have "task_init 0 sched_start \<noteq> None"
  proof -
    have "map_option fst (kmalloc TASK_SIZE (up_heap up_example)) = Some 0xFFFF800000004010" by code_simp
    then show ?thesis by (auto simp: task_init_def task_alloc_def sched_start_def Let_def)
  qed
  then obtain s where s: "task_init 0 sched_start = Some s" by blast
  moreover have "sched_wf 1 s"
    by (rule task_init_wf [OF _ _ s, of Map.empty Map.empty]) (simp_all add: sched_start_def up_example_inv)
  ultimately show ?thesis by blast
qed




text \<open>
  Property C6: round robin. When a CPU gives up its task (with any new state for it), the next task
  is the first ready one after the head of the run queue, the head itself being asked last, and the
  CPU's idle task when none is ready. A task that was ready and was not chosen has strictly fewer
  tasks before it the next time, so while no task is added it waits for at most as many
  rescheduling decisions as there are tasks in the queue.
\<close>

theorem schedule_round_robin:
  assumes "sched_inv n qs s" and "c < n" and "ps \<noteq> TASK_RUNNING"
  shows "\<exists>s' qs'. schedule c ps s = Some s' \<and> ring s' qs' \<and> set qs' = set qs \<and>
    task_current c s' = (case find (ready (parked c ps s)) (rotate1 qs) of
       None \<Rightarrow> c_idle (cpus s c) | Some t \<Rightarrow> t) \<and>
    (\<forall>t \<in> set qs. ready (parked c ps s) t \<longrightarrow> t \<noteq> task_current c s' \<longrightarrow> turn qs' t < turn qs t)"
proof -
  let ?s1 = "parked c ps s"
  have a: "cpu_inv n qs s" "\<And>d. d < n \<Longrightarrow> running d s" using assms(1) by (simp_all add: sched_inv_def)
  then have "t_state (tasks s (c_current (cpus s c))) \<in> {TASK_RUNNING, TASK_DEAD}"
    using assms(2) by (simp add: running_def)
  from schedule_inv [OF a(1) assms(2,3) this a(2)] obtain s' where
    s': "schedule c ps s = Some s'" "sched_inv n (queue_after qs ?s1) s'"
      "c_current (cpus s' c) = chosen c qs ?s1" by blast
  have "turn (queue_after qs ?s1) t < turn qs t"
    if t: "t \<in> set qs" "ready ?s1 t" "t \<noteq> chosen c qs ?s1" for t
  proof (cases "find (ready ?s1) (rotate1 qs)")
    case None
    with t show ?thesis by (simp add: find_None_iff)
  next
    case (Some u)
    have "distinct qs" using a(1) by (simp add: cpu_inv_def ring_def)
    from turn_decreases [OF this Some t(1,2)] t(3) Some show ?thesis
      by (simp add: queue_after_def chosen_def)
  qed
  moreover have "ring s' (queue_after qs ?s1)" using s'(2) by (simp add: sched_inv_def cpu_inv_def)
  moreover have "task_current c s' = (case find (ready ?s1) (rotate1 qs) of
       None \<Rightarrow> c_idle (cpus s c) | Some t \<Rightarrow> t)"
    using s'(3) by (simp add: task_current_def chosen_def split: option.split)
  ultimately show ?thesis using s'(1,3)
    by (intro exI [of _ s'] exI [of _ "queue_after qs ?s1"]) (simp add: task_current_def)
qed

text \<open>Two queued tasks beside the idle task of one CPU.\<close>

definition ring_example :: sched where
  "ring_example = sched_start\<lparr>tasks := (\<lambda>t. if t = 1 then task_zero\<lparr>t_next := 2\<rparr> else if t = 2 then task_zero\<lparr>t_next := 1\<rparr>
      else task_zero\<lparr>t_state := TASK_RUNNING\<rparr>), task_run_queue := 1,
     cpus := (\<lambda>_. \<lparr>c_current = 9, c_idle = 9, c_ticks = 0, c_busy_ticks = 0\<rparr>)\<rparr>"

lemma ring_example_inv: "sched_inv 1 [1, 2] ring_example"
  by (simp add: sched_inv_def cpu_inv_def ring_def running_def ring_example_def task_zero_def)

theorem schedule_round_robin_witness:
  "sched_inv 1 [1, 2] ring_example \<and> (\<exists>s'. schedule 0 TASK_READY ring_example = Some s' \<and> task_current 0 s' = 2)"
proof -
  have "find (ready (parked 0 TASK_READY ring_example)) (rotate1 [1, 2]) = Some 2"
    by (simp add: ready_def parked_def ring_example_def task_zero_def)
  with schedule_round_robin [OF ring_example_inv, of 0 TASK_READY] ring_example_inv show ?thesis by auto
qed

lemma sleep_ticks_ms: "unat (sleep_ticks ms) = max 1 (unat ms)"
proof -
  have b: "unat ms < 2 ^ 32" using unsigned_less [of ms] by simp
  then have u: "unat (ucast ms :: u64) = unat ms" by (simp add: unsigned_ucast_eq take_bit_nat_eq_self)
  have "unat ((ucast ms :: u64) * 1000 + 999) = unat ms * 1000 + 999"
    using b u by (simp add: unat_word_ariths)
  then have d: "unat (((ucast ms :: u64) * 1000 + 999) div 1000) = unat ms" by (simp add: unat_div)
  have e: "(ucast ms * SCHEDULER_HZ + 1000 - 1) div 1000 = ((ucast ms :: u64) * 1000 + 999) div 1000"
    by (simp add: SCHEDULER_HZ_def add.commute)
  have "((ucast ms :: u64) * 1000 + 999) div 1000 = 0 \<longleftrightarrow> unat ms = 0" using d by (metis unat_eq_0)
  then show ?thesis unfolding sleep_ticks_def Let_def e using d by (cases "unat ms = 0") auto
qed

lemma elapsed_sign:
  fixes g w :: u64
  assumes "unat w < 2 ^ 62" and "k < 2 ^ 62"
  shows "0 \<le> sint (g + of_nat k - (g + w)) \<longleftrightarrow> unat w \<le> k"
proof -
  have e: "g + of_nat k - (g + w) = of_nat k - w" by simp
  have uk: "unat (of_nat k :: u64) = k" using assms(2) by (intro unat_of_nat_small) simp
  show ?thesis
  proof (cases "unat w \<le> k")
    case True
    then have "unat (of_nat k - w) = k - unat w" using uk by (simp add: unat_diff_nowrap)
    then have "unat (of_nat k - w) < 2 ^ 63" using assms(2) by simp
    then show ?thesis unfolding e using True sint_neg_64 [of "of_nat k - w"] by simp
  next
    case False
    then have "unat (of_nat k - w) = 2 ^ 64 + k - unat w"
      using uk unat_lt_64 [of w] by (simp add: unat_sub_if_size size_word.rep_eq)
    then have "\<not> unat (of_nat k - w) < 2 ^ 63" using assms(1) by simp
    then show ?thesis unfolding e using False sint_neg_64 [of "of_nat k - w"] by simp
  qed
qed

text \<open>
  Property C25: a sleeping task is woken exactly when its time has come. When the current task of a
  CPU goes to sleep for \<open>ms\<close> milliseconds with the tick counter at any value (also one that wraps
  soon), the scan of the \<open>k\<close>-th tick from then makes it ready if and only if \<open>k\<close> is at least
  \<open>ms\<close> (at least 1 when \<open>ms\<close> is 0): it is neither woken early nor left asleep.
\<close>

theorem sleep_wakes_on_time:
  assumes "ring s qs" and "t \<in> set qs" and "t_state (tasks s t) = TASK_SLEEPING"
    and "t_wake_tick (tasks s t) = g + sleep_ticks ms" and "k < 2 ^ 62"
  shows "\<exists>s'. wake_sleepers (g + of_nat k) s = Some s' \<and>
    t_state (tasks s' t) = (if max 1 (unat ms) \<le> k then TASK_READY else TASK_SLEEPING)"
proof -
  have "unat (sleep_ticks ms) < 2 ^ 62"
    using sleep_ticks_ms [of ms] order.strict_trans [OF unsigned_less [of ms], of "2 ^ 62"] by simp
  from elapsed_sign [OF this assms(5), of g] assms(3,4) have
    "sleep_over (g + of_nat k) (tasks s t) \<longleftrightarrow> max 1 (unat ms) \<le> k"
    by (simp add: sleep_over_def sleep_ticks_ms)
  then show ?thesis using wake_sleepers_ring [OF assms(1)] assms(2,3) by (simp add: wake_def)
qed

theorem sleep_wakes_on_time_witness:
  "\<exists>s'. wake_sleepers 4 (upd_task 2 (\<lambda>t. t\<lparr>t_state := TASK_SLEEPING, t_wake_tick := - 1 + sleep_ticks 5\<rparr>) ring_example) = Some s' \<and>
     t_state (tasks s' 2) = TASK_READY"
proof -
  let ?s = "upd_task 2 (\<lambda>t. t\<lparr>t_state := TASK_SLEEPING, t_wake_tick := - 1 + sleep_ticks 5\<rparr>) ring_example"
  have r: "ring ?s [1, 2]" by (simp add: ring_def ring_example_def task_zero_def)
  from sleep_wakes_on_time [OF r, of 2 "- 1" 5 5] show ?thesis by simp
qed

lemma push_words_at:
  assumes "8 * length ws \<le> 2 ^ 63"
  shows "fst (push_words ws sp m) = sp - of_nat (8 * length ws) \<and>
    (\<forall>a. 8 * length ws \<le> unat (sp - 1 - a) \<longrightarrow> snd (push_words ws sp m) a = m a) \<and>
    (\<forall>i < length ws. load_u64 (snd (push_words ws sp m)) (sp - of_nat (8 * Suc i)) = ws ! i)"
  using assms
proof (induction ws arbitrary: sp m)
  case (Cons w ws)
  let ?m = "store_u64 (sp - 8) w m" and ?l = "8 * length ws"
  have ih: "fst (push_words ws (sp - 8) ?m) = sp - 8 - of_nat ?l"
    "\<And>a. ?l \<le> unat (sp - 8 - 1 - a) \<Longrightarrow> snd (push_words ws (sp - 8) ?m) a = ?m a"
    "\<And>i. i < length ws \<Longrightarrow> load_u64 (snd (push_words ws (sp - 8) ?m)) (sp - 8 - of_nat (8 * Suc i)) = ws ! i"
  proof -
    have "?l \<le> 2 ^ 63" using Cons.prems by simp
    note c = Cons.IH [OF this, of "sp - 8" ?m]
    from c show "fst (push_words ws (sp - 8) ?m) = sp - 8 - of_nat ?l" by blast
    from c show "\<And>a. ?l \<le> unat (sp - 8 - 1 - a) \<Longrightarrow> snd (push_words ws (sp - 8) ?m) a = ?m a" by blast
    from c show "\<And>i. i < length ws \<Longrightarrow>
      load_u64 (snd (push_words ws (sp - 8) ?m)) (sp - 8 - of_nat (8 * Suc i)) = ws ! i" by blast
  qed
  have hi: "snd (push_words ws (sp - 8) ?m) (sp - 8 + of_nat j) = ?m (sp - 8 + of_nat j)" if j: "j < 8" for j
  proof (rule ih(2))
    have "sp - 8 - 1 - (sp - 8 + of_nat j) = - 1 - of_nat j" by simp
    moreover have "unat (- 1 - of_nat j :: u64) = 2 ^ 64 - 1 - j"
      using j unat_minus_1_64 by (subst unat_diff_nowrap) (simp_all add: unat_of_nat_small)
    ultimately show "?l \<le> unat (sp - 8 - 1 - (sp - 8 + of_nat j))" using Cons.prems j by simp
  qed
  have w: "load_u64 (snd (push_words ws (sp - 8) ?m)) (sp - 8) = w"
  proof -
    have "load_u64 (snd (push_words ws (sp - 8) ?m)) (sp - 8) = load_u64 ?m (sp - 8)"
      unfolding load_u64_def by (rule load_le_cong) (rule hi, simp)
    then show ?thesis by simp
  qed
  have out: "snd (push_words ws (sp - 8) ?m) a = m a" if a: "8 * length (w # ws) \<le> unat (sp - 1 - a)" for a
  proof -
    have e: "sp - 8 - 1 - a = (sp - 1 - a) - 8" by simp
    have "unat ((sp - 1 - a) - 8) = unat (sp - 1 - a) - unat (8 :: u64)"
      by (rule unat_diff_nowrap) (use a in simp)
    then have "?l \<le> unat (sp - 8 - 1 - a)" unfolding e using a by simp
    then have "snd (push_words ws (sp - 8) ?m) a = ?m a" by (rule ih(2))
    moreover have "8 \<le> unat (a - (sp - 8))"
    proof -
      have e: "a - (sp - 8) = 7 - (sp - 1 - a)" by simp
      have "8 \<le> unat x \<Longrightarrow> 8 \<le> unat (7 - x)" for x :: u64
        using unat_lt_64 [of x] by (simp add: unat_sub_if_size size_word.rep_eq)
      then have "8 \<le> unat (7 - (sp - 1 - a))" by this (use a in simp)
      then show ?thesis unfolding e .
    qed
    ultimately show ?thesis by (simp add: store_u64_other)
  qed
  have wi: "load_u64 (snd (push_words ws (sp - 8) ?m)) (sp - of_nat (8 * Suc i)) = (w # ws) ! i"
    if "i < length (w # ws)" for i
    using that w ih(3) [of "i - 1"] by (cases i) (simp_all add: algebra_simps)
  show ?case using ih(1) out wi by (auto simp: algebra_simps)
qed simp

text \<open>
  The stack of a new task. \<^verbatim>\<open>task_prime_stack\<close> leaves the saved stack pointer nine words
  below the top of the stack; from there \<^verbatim>\<open>task_switch_asm\<close> pops six zero registers and returns to the
  trampoline, which pops the entry point and its argument. No byte outside these nine words of the
  stack is written.
\<close>

theorem task_prime_stack_frame:
  assumes "s' = task_prime_stack tramp t ent arg s"
    and "tp = t_stack_base (tasks s t) + t_stack_pages (tasks s t) * PAGE_SIZE"
    and "m = hmem (up_heap (sc_mem s))" and "m' = hmem (up_heap (sc_mem s'))"
  shows "t_saved_rsp (tasks s' t) = tp - 72 \<and>
    (\<forall>i < 6. load_u64 m' (tp - 72 + 8 * of_nat i) = 0) \<and>
    load_u64 m' (tp - 24) = tramp \<and> load_u64 m' (tp - 16) = ent \<and> load_u64 m' (tp - 8) = arg \<and>
    (\<forall>a. 72 \<le> unat (tp - 1 - a) \<longrightarrow> m' a = m a)"
proof -
  let ?ws = "[arg, ent, tramp, 0, 0, 0, 0, 0, 0]"
  have p: "fst (push_words ?ws tp m) = tp - 72"
    "\<And>a. 72 \<le> unat (tp - 1 - a) \<Longrightarrow> snd (push_words ?ws tp m) a = m a"
    "\<And>i. i < 9 \<Longrightarrow> load_u64 (snd (push_words ?ws tp m)) (tp - of_nat (8 * Suc i)) = ?ws ! i"
    using push_words_at [of ?ws tp m] by (simp_all del: push_words.simps)
  have e: "t_saved_rsp (tasks s' t) = fst (push_words ?ws tp m)" "m' = snd (push_words ?ws tp m)"
    unfolding assms(1,4) by (simp_all add: task_prime_stack_def Let_def assms(2,3) split_beta del: push_words.simps)
  have z: "load_u64 m' (tp - 72 + 8 * of_nat i) = 0" if "i < 6" for i :: nat
  proof -
    have "tp - 72 + 8 * of_nat i = tp - of_nat (8 * Suc (8 - i))"
      using that by (simp add: of_nat_diff)
    moreover have "?ws ! (8 - i) = 0" using that by (auto simp: less_Suc_eq numeral_eq_Suc)
    moreover have "load_u64 m' (tp - of_nat (8 * Suc (8 - i))) = ?ws ! (8 - i)"
      unfolding e(2) by (rule p(3)) simp
    ultimately show ?thesis by metis
  qed
  show ?thesis using p(1,2) p(3) [of 0] p(3) [of 1] p(3) [of 2] e z by simp
qed

theorem task_prime_stack_frame_witness:
  "\<exists>s'. s' = task_prime_stack 7 1 5 6 ring_example \<and> load_u64 (hmem (up_heap (sc_mem s'))) (0 - 16) = 5"
proof -
  have "(0 :: ptr) = t_stack_base (tasks ring_example 1) + t_stack_pages (tasks ring_example 1) * PAGE_SIZE"
    by (simp add: ring_example_def task_zero_def)
  from task_prime_stack_frame [OF refl this refl refl] show ?thesis by blast
qed

end
