(* ===== verification/Vfs.thy ===== *)
theory Vfs
  imports Heap ByteOrder
begin

text \<open>
  The virtual file system, \<^verbatim>\<open>kernel/filesystem/vfs.c\<close>: the mount table, path resolution and the calls
  that reach the file systems through the tables \<^verbatim>\<open>VNodeOps\<close> and \<^verbatim>\<open>VFileOps\<close>. A node names
  its tables by a tag (the address of the table in the code); the tables themselves are the arguments \<open>T\<close>
  and \<open>FT\<close> of the operations, so that every file system and device can be plugged in. A missing
  function pointer is \<open>None\<close>. A path is the string the C pointer points to, \<open>None\<close> for a NULL pointer.
  The record \<open>vfs\<close> is extended by the private state of the file systems.
\<close>

datatype vnode_type = VNODE_FILE | VNODE_DIR | VNODE_DEVICE | VNODE_SOCKET

datatype fs_kind = RAMFS_OPS | FAT_OPS | DEVFS_OPS

datatype dev_kind = SOCKET_FILE_OPS | DEVICE_FILE_OPS nat

record vnode =
  v_name :: string
  v_type :: vnode_type
  v_size :: u64
  v_ops :: "fs_kind option"
  v_file_ops :: "dev_kind option"
  v_private_data :: ptr
  v_open_count :: u32
  v_unlinked :: bool
  v_parent :: ptr
  v_first_child :: ptr
  v_next_sibling :: ptr

record vfile =
  f_node :: ptr
  f_offset :: u64
  f_flags :: u32
  f_private_data :: ptr

record vfs_mount_entry =
  mt_path :: string
  mt_root :: ptr
  mt_used :: bool

record vfs_state =
  vf_heap :: heap
  vnodes :: "ptr \<Rightarrow> vnode"
  mounts :: "vfs_mount_entry list"

record 's vnode_ops =
  op_lookup :: "(ptr \<Rightarrow> string \<Rightarrow> 's \<Rightarrow> (ptr \<times> 's) ret) option"
  op_create :: "(ptr \<Rightarrow> string \<Rightarrow> vnode_type \<Rightarrow> 's \<Rightarrow> (ptr \<times> 's) ret) option"
  op_open :: "(ptr \<Rightarrow> vfile \<Rightarrow> 's \<Rightarrow> (int \<times> vfile \<times> 's) ret) option"
  op_read :: "(ptr \<Rightarrow> ptr \<Rightarrow> u64 \<Rightarrow> u64 \<Rightarrow> 's \<Rightarrow> (int \<times> 's) ret) option"
  op_write :: "(ptr \<Rightarrow> ptr \<Rightarrow> u64 \<Rightarrow> u64 \<Rightarrow> 's \<Rightarrow> (int \<times> 's) ret) option"
  op_readdir :: "(ptr \<Rightarrow> int \<Rightarrow> 's \<Rightarrow> (string option \<times> 's) ret) option"
  op_unlink :: "(ptr \<Rightarrow> string \<Rightarrow> 's \<Rightarrow> (int \<times> 's) ret) option"
  op_rename :: "(ptr \<Rightarrow> ptr \<Rightarrow> string \<Rightarrow> 's \<Rightarrow> (int \<times> 's) ret) option"
  op_release :: "(ptr \<Rightarrow> 's \<Rightarrow> 's ret) option"

text \<open>The operations of a device or socket act on the open file; the ones that may wait are used through
  the result \<open>sys\<close>: the return value, or the progress of a call that blocked.\<close>

datatype 'a sys = Ret int | Blocked 'a

record 's vfile_ops =
  fop_read :: "(vfile \<Rightarrow> ptr \<Rightarrow> u64 \<Rightarrow> 's \<Rightarrow> (u64 sys \<times> vfile \<times> 's) ret) option"
  fop_write :: "(vfile \<Rightarrow> ptr \<Rightarrow> u64 \<Rightarrow> 's \<Rightarrow> (u64 sys \<times> vfile \<times> 's) ret) option"
  fop_ioctl :: "(vfile \<Rightarrow> u64 \<Rightarrow> ptr \<Rightarrow> 's \<Rightarrow> (int \<times> 's) ret) option"
  fop_close :: "(vfile \<Rightarrow> 's \<Rightarrow> (int \<times> 's) ret) option"
  fop_poll :: "(vfile \<Rightarrow> 's \<Rightarrow> int) option"

record vfs_stat_info =
  st_type :: vnode_type
  st_size :: u64
  st_has_file_ops :: bool

definition VFS_NAME_MAX :: nat where "VFS_NAME_MAX = 64"
definition VFS_PATH_MAX :: nat where "VFS_PATH_MAX = 256"
definition VFS_MAX_MOUNTS :: nat where "VFS_MAX_MOUNTS = 8"
definition VFS_SEEK_SET :: int where "VFS_SEEK_SET = 0"
definition VFS_SEEK_CUR :: int where "VFS_SEEK_CUR = 1"
definition VFS_SEEK_END :: int where "VFS_SEEK_END = 2"
definition VFS_O_WRONLY :: u32 where "VFS_O_WRONLY = 1"
definition VFS_O_RDWR :: u32 where "VFS_O_RDWR = 2"
definition VFS_O_CREAT :: u32 where "VFS_O_CREAT = 4"

definition POLLIN :: int where "POLLIN = 1"
definition POLLOUT :: int where "POLLOUT = 4"
definition POLLHUP :: int where "POLLHUP = 16"
definition POLLNVAL :: int where "POLLNVAL = 32"

definition slash :: char where "slash = CHR ''/''"

definition upd_node :: "ptr \<Rightarrow> (vnode \<Rightarrow> vnode) \<Rightarrow> 'a vfs_state_scheme \<Rightarrow> 'a vfs_state_scheme" where
  "upd_node p f s = s\<lparr>vnodes := (vnodes s)(p := f (vnodes s p))\<rparr>"

subsection \<open>The mount table\<close>

definition no_mount :: vfs_mount_entry where
  "no_mount = \<lparr>mt_path = [], mt_root = NULL, mt_used = False\<rparr>"

definition vfs_root :: "'a vfs_state_scheme \<Rightarrow> ptr" where
  "vfs_root s = (case find (\<lambda>m. mt_used m \<and> mt_path m = [slash]) (mounts s) of None \<Rightarrow> NULL | Some m \<Rightarrow> mt_root m)"

fun first_index :: "('a \<Rightarrow> bool) \<Rightarrow> 'a list \<Rightarrow> nat option" where
  "first_index P [] = None"
| "first_index P (x # xs) = (if P x then Some 0 else map_option Suc (first_index P xs))"

definition vfs_mount :: "string \<Rightarrow> ptr \<Rightarrow> 'a vfs_state_scheme \<Rightarrow> int \<times> 'a vfs_state_scheme" where
  "vfs_mount path fs_root s =
     (if \<exists>m \<in> set (mounts s). mt_used m \<and> mt_path m = path then (- 1, s)
      else case first_index (\<lambda>m. \<not> mt_used m) (mounts s) of
             None \<Rightarrow> (- 1, s)
           | Some i \<Rightarrow> (if length path \<ge> VFS_NAME_MAX then (- 1, s)
                        else (0, s\<lparr>mounts := (mounts s)[i := \<lparr>mt_path = path, mt_root = fs_root, mt_used = True\<rparr>]\<rparr>)))"

definition vfs_unmount :: "string \<Rightarrow> 'a vfs_state_scheme \<Rightarrow> ptr \<times> 'a vfs_state_scheme" where
  "vfs_unmount path s =
     (if path = [slash] then (NULL, s)
      else case first_index (\<lambda>m. mt_used m \<and> mt_path m = path) (mounts s) of
             None \<Rightarrow> (NULL, s)
           | Some i \<Rightarrow> (mt_root (mounts s ! i), s\<lparr>mounts := (mounts s)[i := (mounts s ! i)\<lparr>mt_used := False\<rparr>]\<rparr>))"

text \<open>\<^verbatim>\<open>strncmp(path, m, mlen) == 0\<close> and the byte of \<^verbatim>\<open>path\<close> after it is a slash or the terminator.\<close>

definition mount_covers :: "string \<Rightarrow> string \<Rightarrow> bool" where
  "mount_covers mp path \<longleftrightarrow> take (length mp) path = mp \<and> (length path = length mp \<or> path ! length mp = slash)"

fun find_mount_loop :: "vfs_mount_entry list \<Rightarrow> string \<Rightarrow> (vfs_mount_entry option \<times> nat) \<Rightarrow> (vfs_mount_entry option \<times> nat)" where
  "find_mount_loop [] path best = best"
| "find_mount_loop (m # ms) path (best, best_len) =
     (if \<not> mt_used m then find_mount_loop ms path (best, best_len)
      else if mt_path m = [slash]
      then find_mount_loop ms path (if length (mt_path m) > best_len \<or> best = None then (Some m, length (mt_path m)) else (best, best_len))
      else if mount_covers (mt_path m) path \<and> length (mt_path m) > best_len
      then find_mount_loop ms path (Some m, length (mt_path m))
      else find_mount_loop ms path (best, best_len))"

definition find_mount_for :: "string \<Rightarrow> 'a vfs_state_scheme \<Rightarrow> (vfs_mount_entry \<times> string) option" where
  "find_mount_for path s =
     (case fst (find_mount_loop (mounts s) path (None, 0)) of
        None \<Rightarrow> None
      | Some m \<Rightarrow> Some (m, if mt_path m = [slash] then path else drop (length (mt_path m)) path))"

subsection \<open>Path resolution\<close>

text \<open>One component: up to \<open>VFS_NAME_MAX - 1\<close> characters before the next slash; the slashes after it are skipped.\<close>

definition component_of :: "string \<Rightarrow> string" where
  "component_of p = takeWhile (\<lambda>c. c \<noteq> slash) (take (VFS_NAME_MAX - 1) p)"

definition after_component :: "string \<Rightarrow> string" where
  "after_component p = dropWhile (\<lambda>c. c = slash) (drop (length (component_of p)) p)"

lemma first_index_Some: "first_index P xs = Some i \<Longrightarrow> i < length xs \<and> P (xs ! i)"
  by (induction P xs arbitrary: i rule: first_index.induct) (auto split: if_splits)

lemma after_component_less: "p \<noteq> [] \<Longrightarrow> length (after_component p) < length p"
proof (cases p)
  case (Cons c cs)
  have le: "length (dropWhile P xs) \<le> length xs" for P :: "char \<Rightarrow> bool" and xs by (rule length_dropWhile_le)
  show ?thesis
  proof (cases "c = slash")
    case True
    then have "component_of p = []" using Cons by (simp add: component_of_def VFS_NAME_MAX_def take_Cons')
    then show ?thesis using Cons True le [of "\<lambda>c. c = slash" cs] by (simp add: after_component_def)
  next
    case False
    then have pos: "0 < length (component_of p)" using Cons by (simp add: component_of_def VFS_NAME_MAX_def take_Cons')
    have "length (after_component p) \<le> length p - length (component_of p)"
      using le [of "\<lambda>c. c = slash" "drop (length (component_of p)) p"] by (simp add: after_component_def)
    moreover have "0 < length p" using Cons by simp
    ultimately show ?thesis using pos by linarith
  qed
qed simp

function resolve_loop ::
  "(fs_kind \<Rightarrow> 'a vfs_state_scheme vnode_ops) \<Rightarrow> ptr \<Rightarrow> string \<Rightarrow> 'a vfs_state_scheme \<Rightarrow> (ptr \<times> 'a vfs_state_scheme) ret" where
  "resolve_loop T cur p s =
     (if p = [] then Some (cur, s)
      else let comp = component_of p; rest = after_component p
           in if comp = [] then resolve_loop T cur rest s
              else case v_ops (vnodes s cur) of
                     None \<Rightarrow> Some (NULL, s)
                   | Some k \<Rightarrow>
                       (case op_lookup (T k) of
                          None \<Rightarrow> Some (NULL, s)
                        | Some lookup \<Rightarrow> do { (nx, s') \<leftarrow> lookup cur comp s;
                                               if nx = NULL then Some (NULL, s') else resolve_loop T nx rest s' }))"
  by pat_completeness auto
termination by (relation "measure (\<lambda>(T, cur, p, s). length p)") (auto simp: after_component_less)

declare resolve_loop.simps [simp del]

definition vfs_resolve ::
  "(fs_kind \<Rightarrow> 'a vfs_state_scheme vnode_ops) \<Rightarrow> string option \<Rightarrow> 'a vfs_state_scheme \<Rightarrow> (ptr \<times> 'a vfs_state_scheme) ret" where
  "vfs_resolve T path s =
     (case path of
        None \<Rightarrow> Some (NULL, s)
      | Some p \<Rightarrow>
          if p = [] \<or> hd p \<noteq> slash then Some (NULL, s)
          else case find_mount_for p s of
                 None \<Rightarrow> Some (NULL, s)
               | Some (m, rem) \<Rightarrow>
                   resolve_loop T (mt_root m) (if rem \<noteq> [] \<and> hd rem = slash then tl rem else rem) s)"

definition last_slash :: "string \<Rightarrow> nat" where
  "last_slash path = fold (\<lambda>i r. if path ! i = slash then i else r) [0..<length path] 0"

text \<open>The parent directory of a path and the name of its last component.\<close>

definition resolve_parent ::
  "(fs_kind \<Rightarrow> 'a vfs_state_scheme vnode_ops) \<Rightarrow> string option \<Rightarrow> 'a vfs_state_scheme \<Rightarrow> (ptr \<times> string \<times> 'a vfs_state_scheme) ret" where
  "resolve_parent T path s =
     (case path of
        None \<Rightarrow> None
      | Some p \<Rightarrow>
          if p = [] \<or> hd p \<noteq> slash then Some (NULL, [], s)
          else let ls = last_slash p; leaf = drop (ls + 1) p
               in if length leaf = 0 \<or> length leaf \<ge> VFS_NAME_MAX then Some (NULL, [], s)
                  else if ls = 0 then do { (d, s') \<leftarrow> vfs_resolve T (Some [slash]) s; Some (d, leaf, s') }
                  else if ls \<ge> VFS_PATH_MAX then Some (NULL, leaf, s)
                  else do { (d, s') \<leftarrow> vfs_resolve T (Some (take ls p)) s; Some (d, leaf, s') })"

subsection \<open>Opening and closing\<close>

definition no_file :: vfile where
  "no_file = \<lparr>f_node = NULL, f_offset = 0, f_flags = 0, f_private_data = NULL\<rparr>"

text \<open>The operations of the node at \<open>p\<close>, when it has a table.\<close>

definition node_op ::
  "(fs_kind \<Rightarrow> 'a vfs_state_scheme vnode_ops) \<Rightarrow> ('a vfs_state_scheme vnode_ops \<Rightarrow> 'f option) \<Rightarrow> ptr \<Rightarrow> 'a vfs_state_scheme \<Rightarrow> 'f option" where
  "node_op T f p s = Option.bind (v_ops (vnodes s p)) (\<lambda>k. f (T k))"

definition file_op ::
  "(dev_kind \<Rightarrow> 'a vfs_state_scheme vfile_ops) \<Rightarrow> ('a vfs_state_scheme vfile_ops \<Rightarrow> 'f option) \<Rightarrow> vfile \<Rightarrow> 'a vfs_state_scheme \<Rightarrow> 'f option" where
  "file_op FT f fl s = Option.bind (v_file_ops (vnodes s (f_node fl))) (\<lambda>k. f (FT k))"

text \<open>Making the last component of a path in its directory.\<close>

definition create_at ::
  "(fs_kind \<Rightarrow> 'a vfs_state_scheme vnode_ops) \<Rightarrow> ptr \<Rightarrow> string \<Rightarrow> vnode_type \<Rightarrow> 'a vfs_state_scheme \<Rightarrow> (ptr \<times> 'a vfs_state_scheme) ret" where
  "create_at T d leaf ty s =
     (if d = NULL \<or> v_type (vnodes s d) \<noteq> VNODE_DIR then Some (NULL, s)
      else case node_op T op_create d s of None \<Rightarrow> Some (NULL, s) | Some create \<Rightarrow> create d leaf ty s)"

definition open_node ::
  "(fs_kind \<Rightarrow> 'a vfs_state_scheme vnode_ops) \<Rightarrow> ptr \<Rightarrow> u32 \<Rightarrow> 'a vfs_state_scheme \<Rightarrow> (int \<times> vfile \<times> 'a vfs_state_scheme) ret" where
  "open_node T node flags s =
     (let file = no_file\<lparr>f_node := node, f_flags := flags\<rparr>
      in do { (rc, file1, s1) \<leftarrow> (case node_op T op_open node s of None \<Rightarrow> Some (0, file, s) | Some opn \<Rightarrow> opn node file s);
              if rc \<noteq> 0 then Some (rc, file1, s1)
              else if v_file_ops (vnodes s1 node) = None
              then Some (0, file1, upd_node node (\<lambda>v. v\<lparr>v_open_count := v_open_count v + 1\<rparr>) s1)
              else Some (0, file1, s1) })"

definition vfs_open ::
  "(fs_kind \<Rightarrow> 'a vfs_state_scheme vnode_ops) \<Rightarrow> string option \<Rightarrow> u32 \<Rightarrow> vfile \<Rightarrow> 'a vfs_state_scheme \<Rightarrow> (int \<times> vfile \<times> 'a vfs_state_scheme) ret" where
  "vfs_open T path flags file_out s =
     do { (node, s1) \<leftarrow> vfs_resolve T path s;
          (node, s2) \<leftarrow> (if node = NULL \<and> flags AND VFS_O_CREAT \<noteq> 0
                         then do { (d, leaf, s') \<leftarrow> resolve_parent T path s1; create_at T d leaf VNODE_FILE s' }
                         else Some (node, s1));
          if node = NULL then Some (- 1, file_out, s2) else open_node T node flags s2 }"

text \<open>When the last user of an unlinked node closes it, the file system releases it.\<close>

definition vfs_close ::
  "(fs_kind \<Rightarrow> 'a vfs_state_scheme vnode_ops) \<Rightarrow> (dev_kind \<Rightarrow> 'a vfs_state_scheme vfile_ops) \<Rightarrow> vfile \<Rightarrow> 'a vfs_state_scheme \<Rightarrow> (int \<times> vfile \<times> 'a vfs_state_scheme) ret" where
  "vfs_close T FT file s =
     (if f_node file = NULL then Some (- 1, file, s)
      else let node = f_node file
           in if v_file_ops (vnodes s node) \<noteq> None
              then case file_op FT fop_close file s of
                     None \<Rightarrow> Some (0, file, s)
                   | Some cl \<Rightarrow> do { (rc, s') \<leftarrow> cl file s; Some (rc, file, s') }
              else let file1 = file\<lparr>f_node := NULL\<rparr>;
                       s1 = (if v_open_count (vnodes s node) \<noteq> 0
                             then upd_node node (\<lambda>v. v\<lparr>v_open_count := v_open_count v - 1\<rparr>) s else s)
                   in if v_open_count (vnodes s1 node) = 0 \<and> v_unlinked (vnodes s1 node)
                      then case node_op T op_release node s1 of
                             None \<Rightarrow> Some (0, file1, s1)
                           | Some release \<Rightarrow> do { s2 \<leftarrow> release node s1; Some (0, file1, s2) }
                      else Some (0, file1, s1))"

subsection \<open>Reading, writing and positions\<close>

definition vfs_read ::
  "(fs_kind \<Rightarrow> 'a vfs_state_scheme vnode_ops) \<Rightarrow> (dev_kind \<Rightarrow> 'a vfs_state_scheme vfile_ops) \<Rightarrow> vfile \<Rightarrow> ptr \<Rightarrow> u64 \<Rightarrow> 'a vfs_state_scheme \<Rightarrow>
   (u64 sys \<times> vfile \<times> 'a vfs_state_scheme) ret" where
  "vfs_read T FT file buf cnt s =
     (if f_node file = NULL then Some (Ret (- 1), file, s)
      else case file_op FT fop_read file s of
             Some rd \<Rightarrow> rd file buf cnt s
           | None \<Rightarrow>
               (case node_op T op_read (f_node file) s of
                  None \<Rightarrow> Some (Ret (- 1), file, s)
                | Some rd \<Rightarrow>
                    do { (n, s') \<leftarrow> rd (f_node file) buf cnt (f_offset file) s;
                         Some (Ret n, if n > 0 then file\<lparr>f_offset := f_offset file + of_int n\<rparr> else file, s') }))"

definition vfs_write ::
  "(fs_kind \<Rightarrow> 'a vfs_state_scheme vnode_ops) \<Rightarrow> (dev_kind \<Rightarrow> 'a vfs_state_scheme vfile_ops) \<Rightarrow> vfile \<Rightarrow> ptr \<Rightarrow> u64 \<Rightarrow> 'a vfs_state_scheme \<Rightarrow>
   (u64 sys \<times> vfile \<times> 'a vfs_state_scheme) ret" where
  "vfs_write T FT file buf cnt s =
     (if f_node file = NULL then Some (Ret (- 1), file, s)
      else case file_op FT fop_write file s of
             Some wr \<Rightarrow> wr file buf cnt s
           | None \<Rightarrow>
               (case node_op T op_write (f_node file) s of
                  None \<Rightarrow> Some (Ret (- 1), file, s)
                | Some wr \<Rightarrow>
                    do { (n, s') \<leftarrow> wr (f_node file) buf cnt (f_offset file) s;
                         if n > 0
                         then let file1 = file\<lparr>f_offset := f_offset file + of_int n\<rparr>
                              in Some (Ret n, file1,
                                   if f_offset file1 > v_size (vnodes s' (f_node file))
                                   then upd_node (f_node file) (\<lambda>v. v\<lparr>v_size := f_offset file1\<rparr>) s' else s')
                         else Some (Ret n, file, s') }))"

definition vfs_ioctl ::
  "(dev_kind \<Rightarrow> 'a vfs_state_scheme vfile_ops) \<Rightarrow> vfile \<Rightarrow> u64 \<Rightarrow> ptr \<Rightarrow> 'a vfs_state_scheme \<Rightarrow> (int \<times> 'a vfs_state_scheme) ret" where
  "vfs_ioctl FT file request arg s =
     (if f_node file = NULL then Some (- 1, s)
      else case file_op FT fop_ioctl file s of None \<Rightarrow> Some (- 1, s) | Some io \<Rightarrow> io file request arg s)"

definition vfs_poll :: "(dev_kind \<Rightarrow> 'a vfs_state_scheme vfile_ops) \<Rightarrow> vfile \<Rightarrow> 'a vfs_state_scheme \<Rightarrow> int" where
  "vfs_poll FT file s =
     (if f_node file = NULL then POLLNVAL
      else case file_op FT fop_poll file s of None \<Rightarrow> POLLIN OR POLLOUT | Some poll \<Rightarrow> poll file s)"

text \<open>The sum is computed at 64 bits.\<close>

definition vfs_lseek :: "vfile \<Rightarrow> u64 \<Rightarrow> int \<Rightarrow> 'a vfs_state_scheme \<Rightarrow> int \<times> vfile" where
  "vfs_lseek file offset whence s =
     (if f_node file = NULL \<or> v_file_ops (vnodes s (f_node file)) \<noteq> None then (- 1, file)
      else if whence \<noteq> VFS_SEEK_SET \<and> whence \<noteq> VFS_SEEK_CUR \<and> whence \<noteq> VFS_SEEK_END then (- 1, file)
      else let base = (if whence = VFS_SEEK_SET then 0 else if whence = VFS_SEEK_CUR then f_offset file
                       else v_size (vnodes s (f_node file)));
               result = base + offset
           in if sint result < 0 then (- 1, file) else (sint result, file\<lparr>f_offset := result\<rparr>))"

subsection \<open>Directories\<close>

definition vfs_mkdir ::
  "(fs_kind \<Rightarrow> 'a vfs_state_scheme vnode_ops) \<Rightarrow> string option \<Rightarrow> 'a vfs_state_scheme \<Rightarrow> (ptr \<times> 'a vfs_state_scheme) ret" where
  "vfs_mkdir T path s =
     do { (d, leaf, s1) \<leftarrow> resolve_parent T path s;
          if d = NULL \<or> v_type (vnodes s1 d) \<noteq> VNODE_DIR then Some (NULL, s1)
          else case node_op T op_create d s1 of
                 None \<Rightarrow> Some (NULL, s1)
               | Some create \<Rightarrow>
                   do { (old, s2) \<leftarrow> (case node_op T op_lookup d s1 of None \<Rightarrow> Some (NULL, s1) | Some lookup \<Rightarrow> lookup d leaf s1);
                        if old \<noteq> NULL then Some (NULL, s2) else create d leaf VNODE_DIR s2 } }"

definition vfs_readdir ::
  "(fs_kind \<Rightarrow> 'a vfs_state_scheme vnode_ops) \<Rightarrow> ptr \<Rightarrow> int \<Rightarrow> 'a vfs_state_scheme \<Rightarrow> (string option \<times> 'a vfs_state_scheme) ret" where
  "vfs_readdir T d i s =
     (if d = NULL \<or> v_type (vnodes s d) \<noteq> VNODE_DIR then Some (None, s)
      else case node_op T op_readdir d s of None \<Rightarrow> Some (None, s) | Some rd \<Rightarrow> rd d i s)"

definition stat_of :: "vnode \<Rightarrow> vfs_stat_info" where
  "stat_of v = \<lparr>st_type = v_type v, st_size = v_size v, st_has_file_ops = (v_file_ops v \<noteq> None)\<rparr>"

text \<open>The result is what is stored at \<open>out\<close>; \<open>None\<close> stands for the return value -1.\<close>

definition vfs_stat ::
  "(fs_kind \<Rightarrow> 'a vfs_state_scheme vnode_ops) \<Rightarrow> string option \<Rightarrow> ptr \<Rightarrow> 'a vfs_state_scheme \<Rightarrow> (vfs_stat_info option \<times> 'a vfs_state_scheme) ret" where
  "vfs_stat T path out s =
     do { (node, s') \<leftarrow> vfs_resolve T path s;
          Some (if node = NULL \<or> out = NULL then None else Some (stat_of (vnodes s' node)), s') }"

definition vfs_fstat :: "vfile \<Rightarrow> ptr \<Rightarrow> 'a vfs_state_scheme \<Rightarrow> vfs_stat_info option" where
  "vfs_fstat file out s = (if f_node file = NULL \<or> out = NULL then None else Some (stat_of (vnodes s (f_node file))))"

definition vfs_unlink ::
  "(fs_kind \<Rightarrow> 'a vfs_state_scheme vnode_ops) \<Rightarrow> string option \<Rightarrow> 'a vfs_state_scheme \<Rightarrow> (int \<times> 'a vfs_state_scheme) ret" where
  "vfs_unlink T path s =
     do { (d, leaf, s1) \<leftarrow> resolve_parent T path s;
          if d = NULL \<or> v_type (vnodes s1 d) \<noteq> VNODE_DIR then Some (- 1, s1)
          else case node_op T op_unlink d s1 of None \<Rightarrow> Some (- 1, s1) | Some unlink \<Rightarrow> unlink d leaf s1 }"

text \<open>Whether \<open>node\<close> is \<open>p\<close> or a directory above it.\<close>

partial_function (option) above_loop :: "ptr \<Rightarrow> ptr \<Rightarrow> (ptr \<Rightarrow> vnode) \<Rightarrow> bool ret" where
  [code]: "above_loop node p vs = (if p = NULL then Some False else if p = node then Some True else above_loop node (v_parent (vs p)) vs)"

definition vfs_rename ::
  "(fs_kind \<Rightarrow> 'a vfs_state_scheme vnode_ops) \<Rightarrow> string option \<Rightarrow> string option \<Rightarrow> 'a vfs_state_scheme \<Rightarrow> (int \<times> 'a vfs_state_scheme) ret" where
  "vfs_rename T from to s =
     do { (node, s1) \<leftarrow> vfs_resolve T from s;
          if node = NULL \<or> v_parent (vnodes s1 node) = NULL then Some (- 1, s1)
          else do {
            (old, s2) \<leftarrow> vfs_resolve T to s1;
            if old \<noteq> NULL then Some (- 1, s2)
            else do {
              (d, leaf, s3) \<leftarrow> resolve_parent T to s2;
              if d = NULL \<or> v_type (vnodes s3 d) \<noteq> VNODE_DIR \<or> v_ops (vnodes s3 d) \<noteq> v_ops (vnodes s3 node) then Some (- 1, s3)
              else case node_op T op_rename node s3 of
                     None \<Rightarrow> Some (- 1, s3)
                   | Some rename \<Rightarrow>
                       do { up \<leftarrow> above_loop node d (vnodes s3);
                            if up then Some (- 1, s3) else rename node d leaf s3 } } } }"

subsection \<open>Which mount serves a path\<close>

definition serves :: "string \<Rightarrow> vfs_mount_entry \<Rightarrow> bool" where
  "serves path m \<longleftrightarrow> mt_used m \<and> (mt_path m = [slash] \<or> mt_path m \<noteq> [] \<and> mount_covers (mt_path m) path)"

text \<open>The state of the search: the best mount of those seen.\<close>

definition best_of :: "string \<Rightarrow> vfs_mount_entry set \<Rightarrow> vfs_mount_entry option \<times> nat \<Rightarrow> bool" where
  "best_of path M b \<longleftrightarrow> (case fst b of
     None \<Rightarrow> snd b = 0 \<and> (\<forall>m \<in> M. \<not> serves path m)
   | Some m \<Rightarrow> m \<in> M \<and> serves path m \<and> snd b = length (mt_path m) \<and> (\<forall>m' \<in> M. serves path m' \<longrightarrow> length (mt_path m') \<le> length (mt_path m)))"

lemma find_mount_loop_best:
  "best_of path M b \<Longrightarrow> best_of path (M \<union> set ms) (find_mount_loop ms path b)"
proof (induction ms path b arbitrary: M rule: find_mount_loop.induct)
  case (1 path best)
  then show ?case by simp
next
  case (2 m ms path best best_len)
  have sv: "serves path m \<longleftrightarrow> mt_used m \<and> (mt_path m = [slash] \<or> mount_covers (mt_path m) path \<and> mt_path m \<noteq> [])"
    by (auto simp: serves_def)
  have un: "M \<union> set (m # ms) = insert m M \<union> set ms" by auto
  show ?case
  proof (cases "mt_used m")
    case False
    then have "best_of path (insert m M) (best, best_len)"
      using 2(5) by (cases best) (auto simp: best_of_def serves_def)
    from 2(1) [OF False this] False show ?thesis by (simp add: un)
  next
    case used: True
    show ?thesis
    proof (cases "mt_path m = [slash]")
      case True
      let ?b = "if length (mt_path m) > best_len \<or> best = None then (Some m, length (mt_path m)) else (best, best_len)"
      have "best_of path (insert m M) ?b"
        using 2(5) used True by (cases best) (auto simp: best_of_def sv Suc_le_eq serves_def intro: order_trans [OF _ less_imp_le])
      from 2(2) [OF _ True this] used True show ?thesis by (simp add: un)
    next
      case nr: False
      show ?thesis
      proof (cases "mount_covers (mt_path m) path \<and> length (mt_path m) > best_len")
        case True
        then have "best_of path (insert m M) (Some m, length (mt_path m))"
          using 2(5) used by (cases best) (auto simp: best_of_def sv intro: order_trans [OF _ less_imp_le])
        from 2(3) [OF _ nr True this] used nr True show ?thesis by (simp add: un)
      next
        case False
        then have "best_of path (insert m M) (best, best_len)"
          using 2(5) used nr by (cases best) (auto simp: best_of_def sv)
        from 2(4) [OF _ nr False this] used nr False show ?thesis by (auto simp: un)
      qed
    qed
  qed
qed

lemma find_mount_for_best:
  "case find_mount_for path s of
     None \<Rightarrow> \<forall>m \<in> set (mounts s). \<not> serves path m
   | Some (m, rem) \<Rightarrow> m \<in> set (mounts s) \<and> serves path m \<and>
       (\<forall>m' \<in> set (mounts s). serves path m' \<longrightarrow> length (mt_path m') \<le> length (mt_path m)) \<and>
       path = (if mt_path m = [slash] then rem else mt_path m @ rem)"
proof -
  have "best_of path {} (None, 0)" by (simp add: best_of_def)
  from find_mount_loop_best [OF this, of "mounts s"]
  have b: "best_of path (set (mounts s)) (find_mount_loop (mounts s) path (None, 0))" by simp
  show ?thesis
  proof (cases "fst (find_mount_loop (mounts s) path (None, 0))")
    case None
    then show ?thesis using b by (simp add: find_mount_for_def best_of_def)
  next
    case (Some m)
    then have "serves path m" using b by (simp add: best_of_def)
    then have "mt_path m = [slash] \<or> path = mt_path m @ drop (length (mt_path m)) path"
      by (metis append_take_drop_id mount_covers_def serves_def)
    then show ?thesis using b Some by (auto simp: find_mount_for_def best_of_def)
  qed
qed

subsection \<open>Walking a path\<close>

text \<open>The names a path is made of, and the text of a path.\<close>

definition valid_name :: "string \<Rightarrow> bool" where
  "valid_name c \<longleftrightarrow> c \<noteq> [] \<and> slash \<notin> set c \<and> length c < VFS_NAME_MAX"

definition path_of :: "string list \<Rightarrow> string" where
  "path_of cs = concat (map (\<lambda>c. slash # c) cs)"

fun walk :: "(ptr \<Rightarrow> string \<Rightarrow> ptr) \<Rightarrow> ptr \<Rightarrow> string list \<Rightarrow> ptr" where
  "walk ch d [] = d"
| "walk ch d (c # cs) = (if ch d c = NULL then NULL else walk ch (ch d c) cs)"

lemma path_of_simps [simp]: "path_of [] = []" "path_of (c # cs) = slash # c @ path_of cs"
  by (simp_all add: path_of_def)

lemma path_of_head: "path_of cs = [] \<or> hd (path_of cs) = slash"
  by (cases cs) simp_all

lemma component_of_path:
  assumes "valid_name c"
  shows "component_of (c @ path_of cs) = c"
proof -
  have c: "length c \<le> 63" "\<forall>x \<in> set c. x \<noteq> slash" using assms by (auto simp: valid_name_def VFS_NAME_MAX_def)
  have "take 63 (c @ path_of cs) = c @ take (63 - length c) (path_of cs)" using c(1) by simp
  moreover have "takeWhile (\<lambda>x. x \<noteq> slash) (c @ take k (path_of cs)) = c" for k
  proof -
    have "takeWhile (\<lambda>x. x \<noteq> slash) (take k (path_of cs)) = []" using path_of_head [of cs]
      by (cases "path_of cs"; cases k) auto
    then show ?thesis using c(2) by (simp add: takeWhile_append2)
  qed
  ultimately show ?thesis by (simp add: component_of_def VFS_NAME_MAX_def)
qed

lemma after_component_path:
  assumes "valid_name c" and "list_all valid_name cs"
  shows "after_component (c @ path_of cs) = (case cs of [] \<Rightarrow> [] | x # xs \<Rightarrow> x @ path_of xs)"
proof (cases cs)
  case (Cons x xs)
  then obtain y ys where "x = y # ys" "y \<noteq> slash" using assms(2) by (cases x) (auto simp: valid_name_def)
  then show ?thesis using Cons component_of_path [OF assms(1), of cs] by (simp add: after_component_def)
qed (use component_of_path [OF assms(1), of cs] in \<open>simp add: after_component_def\<close>)

text \<open>The contract of a directory tree: its lookup finds the entry of a name, changes nothing, and the node
  found is a node of the same tree.\<close>

locale directory_tree =
  fixes T :: "fs_kind \<Rightarrow> 'a vfs_state_scheme vnode_ops"
    and node :: "'a vfs_state_scheme \<Rightarrow> ptr \<Rightarrow> bool" and child :: "'a vfs_state_scheme \<Rightarrow> ptr \<Rightarrow> string \<Rightarrow> ptr"
  assumes lookup: "node s d \<Longrightarrow> \<exists>k f. v_ops (vnodes s d) = Some k \<and> op_lookup (T k) = Some f \<and> f d name s = Some (child s d name, s)"
    and child_node: "node s d \<Longrightarrow> child s d name \<noteq> NULL \<Longrightarrow> node s (child s d name)"
begin

lemma resolve_loop_walk:
  "node s d \<Longrightarrow> valid_name c \<Longrightarrow> list_all valid_name cs \<Longrightarrow>
   resolve_loop T d (c @ path_of cs) s = Some (walk (child s) d (c # cs), s)"
proof (induction cs arbitrary: c d)
  case Nil
  from lookup [OF Nil(1), of c] obtain k f where
    "v_ops (vnodes s d) = Some k" "op_lookup (T k) = Some f" "f d c s = Some (child s d c, s)" by blast
  then show ?case
    using Nil component_of_path [OF Nil(2), of "[]"] after_component_path [OF Nil(2), of "[]"]
    by (subst resolve_loop.simps) (auto simp: valid_name_def resolve_loop.simps [of T _ "[]"])
next
  case (Cons x xs)
  from lookup [OF Cons(2), of c] obtain k f where
    l: "v_ops (vnodes s d) = Some k" "op_lookup (T k) = Some f" "f d c s = Some (child s d c, s)" by blast
  have a: "after_component (c @ path_of (x # xs)) = x @ path_of xs"
    using after_component_path [OF Cons(3,4)] by simp
  have "resolve_loop T (child s d c) (x @ path_of xs) s = Some (walk (child s) (child s d c) (x # xs), s)" if "child s d c \<noteq> NULL"
    by (rule Cons.IH) (use Cons child_node that in auto)
  then show ?case
    using l Cons(3) component_of_path [OF Cons(3), of "x # xs"] a
    by (subst resolve_loop.simps) (auto simp: valid_name_def Let_def)
qed

text \<open>An absolute path that the root mount serves is walked from the root, name by name.\<close>

lemma resolve_walk:
  assumes "node s r" and "list_all valid_name cs" and "p = (if cs = [] then [slash] else path_of cs)"
    and "find_mount_for p s = Some (m, p)" and "mt_root m = r"
  shows "vfs_resolve T (Some p) s = Some (walk (child s) r cs, s)"
proof (cases cs)
  case Nil
  then show ?thesis using assms(3-5) by (simp add: vfs_resolve_def resolve_loop.simps [of T _ "[]"])
next
  case (Cons c xs)
  then have "resolve_loop T r (c @ path_of xs) s = Some (walk (child s) r (c # xs), s)"
    using assms(1,2) by (intro resolve_loop_walk) auto
  then show ?thesis using assms(3-5) Cons by (simp add: vfs_resolve_def)
qed

end

subsection \<open>Properties\<close>


end
