(* ===== verification/Ramfs.thy ===== *)
theory Ramfs
  imports Vfs
begin

text \<open>
  The file system in memory, \<^verbatim>\<open>kernel/filesystem/ramfs.c\<close>: directories are singly linked lists of nodes,
  a file's bytes are one heap block that grows by doubling. The second half of the file unpacks the
  boot modules (plain files and tar archives) into it. The store \<open>rfiles\<close> holds the structure
  \<^verbatim>\<open>RamfsFile\<close> at each address.
\<close>

record ramfs_file =
  rf_data :: ptr
  rf_capacity :: u64

record ramfs_state = vfs_state +
  rfiles :: "ptr \<Rightarrow> ramfs_file"

definition VNODE_SIZE :: u64 where "VNODE_SIZE = 136"
definition RAMFS_FILE_SIZE :: u64 where "RAMFS_FILE_SIZE = 16"

definition vnode_zero :: vnode where
  "vnode_zero = \<lparr>v_name = [], v_type = VNODE_FILE, v_size = 0, v_ops = None, v_file_ops = None, v_private_data = NULL,
     v_open_count = 0, v_unlinked = False, v_parent = NULL, v_first_child = NULL, v_next_sibling = NULL\<rparr>"

definition vfs_memory :: "'a vfs_state_scheme \<Rightarrow> mem" where
  "vfs_memory s = hmem (vf_heap s)"

definition set_vfs_memory :: "mem \<Rightarrow> 'a vfs_state_scheme \<Rightarrow> 'a vfs_state_scheme" where
  "set_vfs_memory m s = s\<lparr>vf_heap := (vf_heap s)\<lparr>hmem := m\<rparr>\<rparr>"

definition vf_kmalloc :: "u64 \<Rightarrow> 'a vfs_state_scheme \<Rightarrow> (ptr \<times> 'a vfs_state_scheme) ret" where
  "vf_kmalloc n s = do { (p, h) \<leftarrow> kmalloc n (vf_heap s); Some (p, s\<lparr>vf_heap := h\<rparr>) }"

definition vf_kfree :: "ptr \<Rightarrow> 'a vfs_state_scheme \<Rightarrow> 'a vfs_state_scheme ret" where
  "vf_kfree p s = do { h \<leftarrow> kfree p (vf_heap s); Some (s\<lparr>vf_heap := h\<rparr>) }"

subsection \<open>Directories\<close>

partial_function (option) ramfs_lookup_loop :: "string \<Rightarrow> ptr \<Rightarrow> (ptr \<Rightarrow> vnode) \<Rightarrow> ptr ret" where
  [code]: "ramfs_lookup_loop name c vs =
     (if c = NULL then Some NULL else if v_name (vs c) = name then Some c
      else ramfs_lookup_loop name (v_next_sibling (vs c)) vs)"

definition ramfs_lookup :: "ptr \<Rightarrow> string \<Rightarrow> 'a ramfs_state_scheme \<Rightarrow> (ptr \<times> 'a ramfs_state_scheme) ret" where
  "ramfs_lookup d name s = do { c \<leftarrow> ramfs_lookup_loop name (v_first_child (vnodes s d)) (vnodes s); Some (c, s) }"

text \<open>A name as the fixed-size field stores it.\<close>

definition node_name :: "string \<Rightarrow> string" where
  "node_name name = take (VFS_NAME_MAX - 1) name"

definition ramfs_create :: "ptr \<Rightarrow> string \<Rightarrow> vnode_type \<Rightarrow> 'a ramfs_state_scheme \<Rightarrow> (ptr \<times> 'a ramfs_state_scheme) ret" where
  "ramfs_create d name ty s =
     do { (old, s0) \<leftarrow> ramfs_lookup d name s;
          if old \<noteq> NULL then Some (NULL, s0)
          else do {
            (n, s1) \<leftarrow> vf_kmalloc VNODE_SIZE s0;
            if n = NULL then Some (NULL, s1)
            else let s2 = upd_node n (\<lambda>_. vnode_zero\<lparr>v_name := node_name name, v_type := ty, v_ops := Some RAMFS_OPS, v_parent := d\<rparr>) s1
                 in do {
              (ok, s3) \<leftarrow> (if ty = VNODE_FILE
                           then do { (rf, s') \<leftarrow> vf_kmalloc RAMFS_FILE_SIZE s2;
                                     if rf = NULL then do { s'' \<leftarrow> vf_kfree n s'; Some (False, s'') }
                                     else Some (True, upd_node n (\<lambda>v. v\<lparr>v_private_data := rf, v_size := 0\<rparr>)
                                            (s'\<lparr>rfiles := (rfiles s')(rf := \<lparr>rf_data = NULL, rf_capacity = 0\<rparr>)\<rparr>)) }
                           else Some (True, s2));
              if \<not> ok then Some (NULL, s3)
              else Some (n, upd_node d (\<lambda>v. v\<lparr>v_first_child := n\<rparr>)
                              (upd_node n (\<lambda>v. v\<lparr>v_next_sibling := v_first_child (vnodes s3 d)\<rparr>) s3)) } } }"

partial_function (option) ramfs_readdir_loop :: "int \<Rightarrow> int \<Rightarrow> ptr \<Rightarrow> (ptr \<Rightarrow> vnode) \<Rightarrow> string option ret" where
  [code]: "ramfs_readdir_loop idx i c vs =
     (if c = NULL then Some None
      else if idx = i then Some (Some (node_name (v_name (vs c))))
      else ramfs_readdir_loop (idx + 1) i (v_next_sibling (vs c)) vs)"

definition ramfs_readdir :: "ptr \<Rightarrow> int \<Rightarrow> 'a ramfs_state_scheme \<Rightarrow> (string option \<times> 'a ramfs_state_scheme) ret" where
  "ramfs_readdir d i s = do { r \<leftarrow> ramfs_readdir_loop 0 i (v_first_child (vnodes s d)) (vnodes s); Some (r, s) }"

text \<open>A \<^verbatim>\<open>VNode **\<close> is the \<^verbatim>\<open>first_child\<close> field of a directory (\<open>Inl\<close>) or the
  \<^verbatim>\<open>next_sibling\<close> field of a node (\<open>Inr\<close>).\<close>

definition get_child :: "ptr + ptr \<Rightarrow> (ptr \<Rightarrow> vnode) \<Rightarrow> ptr" where
  "get_child l vs = (case l of Inl d \<Rightarrow> v_first_child (vs d) | Inr n \<Rightarrow> v_next_sibling (vs n))"

definition set_child :: "ptr + ptr \<Rightarrow> ptr \<Rightarrow> 'a vfs_state_scheme \<Rightarrow> 'a vfs_state_scheme" where
  "set_child l v s = (case l of Inl d \<Rightarrow> upd_node d (v_first_child_update (\<lambda>_. v)) s
                      | Inr n \<Rightarrow> upd_node n (v_next_sibling_update (\<lambda>_. v)) s)"

partial_function (option) seek_child :: "(ptr \<Rightarrow> bool) \<Rightarrow> ptr + ptr \<Rightarrow> (ptr \<Rightarrow> vnode) \<Rightarrow> (ptr + ptr) ret" where
  [code]: "seek_child P l vs =
     (if get_child l vs \<noteq> NULL \<and> \<not> P (get_child l vs) then seek_child P (Inr (get_child l vs)) vs else Some l)"

definition ramfs_rename :: "ptr \<Rightarrow> ptr \<Rightarrow> string \<Rightarrow> 'a ramfs_state_scheme \<Rightarrow> (int \<times> 'a ramfs_state_scheme) ret" where
  "ramfs_rename node new_dir new_name s =
     do { l \<leftarrow> seek_child (\<lambda>p. p = node) (Inl (v_parent (vnodes s node))) (vnodes s);
          if get_child l (vnodes s) = NULL then Some (- 1, s)
          else let s1 = set_child l (v_next_sibling (vnodes s node)) s;
                   s2 = upd_node node (\<lambda>v. v\<lparr>v_name := node_name new_name, v_parent := new_dir\<rparr>) s1;
                   s3 = upd_node node (\<lambda>v. v\<lparr>v_next_sibling := v_first_child (vnodes s2 new_dir)\<rparr>) s2
               in Some (0, upd_node new_dir (\<lambda>v. v\<lparr>v_first_child := node\<rparr>) s3) }"

definition ramfs_release :: "ptr \<Rightarrow> 'a ramfs_state_scheme \<Rightarrow> 'a ramfs_state_scheme ret" where
  "ramfs_release node s =
     do { s1 \<leftarrow> (let rf = v_private_data (vnodes s node)
                  in if v_type (vnodes s node) = VNODE_FILE \<and> rf \<noteq> NULL
                     then do { s' \<leftarrow> (if rf_data (rfiles s rf) \<noteq> NULL then vf_kfree (rf_data (rfiles s rf)) s else Some s);
                               vf_kfree rf s' }
                     else Some s);
          vf_kfree node s1 }"

text \<open>The place of the entry is where \<^verbatim>\<open>prev\<close> points after the search: the directory's first child or
  the node before.\<close>

definition ramfs_unlink :: "ptr \<Rightarrow> string \<Rightarrow> 'a ramfs_state_scheme \<Rightarrow> (int \<times> 'a ramfs_state_scheme) ret" where
  "ramfs_unlink d name s =
     do { l \<leftarrow> seek_child (\<lambda>p. v_name (vnodes s p) = name) (Inl d) (vnodes s);
          let cur = get_child l (vnodes s)
          in if cur = NULL then Some (- 1, s)
             else if v_type (vnodes s cur) = VNODE_DIR \<and> v_first_child (vnodes s cur) \<noteq> NULL then Some (- 1, s)
             else let s1 = set_child l (v_next_sibling (vnodes s cur)) s;
                      s2 = upd_node cur (\<lambda>v. v\<lparr>v_parent := NULL, v_next_sibling := NULL\<rparr>) s1
                  in if v_open_count (vnodes s2 cur) \<noteq> 0
                     then Some (0, upd_node cur (\<lambda>v. v\<lparr>v_unlinked := True\<rparr>) s2)
                     else do { s3 \<leftarrow> ramfs_release cur s2; Some (0, s3) } }"

subsection \<open>File contents\<close>

text \<open>Doubling; it never ends when the capacity wraps to 0 before it is large enough.\<close>

partial_function (option) grow_cap :: "u64 \<Rightarrow> u64 \<Rightarrow> u64 ret" where
  [code]: "grow_cap new_cap needed = (if new_cap < needed then grow_cap (new_cap * 2) needed else Some new_cap)"

definition ramfs_ensure_capacity :: "ptr \<Rightarrow> u64 \<Rightarrow> 'a ramfs_state_scheme \<Rightarrow> (int \<times> 'a ramfs_state_scheme) ret" where
  "ramfs_ensure_capacity rf needed s =
     (let f = rfiles s rf
      in if needed \<le> rf_capacity f then Some (0, s)
         else do {
           new_cap \<leftarrow> grow_cap (if rf_capacity f \<noteq> 0 then rf_capacity f else 256) needed;
           (new_data, s1) \<leftarrow> vf_kmalloc new_cap s;
           if new_data = NULL then Some (- 1, s1)
           else do {
             s2 \<leftarrow> (if rf_data f \<noteq> NULL
                    then vf_kfree (rf_data f) (set_vfs_memory (memcpy new_data (rf_data f) (rf_capacity f) (vfs_memory s1)) s1)
                    else Some s1);
             let s3 = set_vfs_memory (memset (new_data + rf_capacity f) 0 (new_cap - rf_capacity f) (vfs_memory s2)) s2
             in Some (0, s3\<lparr>rfiles := (rfiles s3)(rf := \<lparr>rf_data = new_data, rf_capacity = new_cap\<rparr>)\<rparr>) } })"

definition ramfs_read :: "ptr \<Rightarrow> ptr \<Rightarrow> u64 \<Rightarrow> u64 \<Rightarrow> 'a ramfs_state_scheme \<Rightarrow> (int \<times> 'a ramfs_state_scheme) ret" where
  "ramfs_read node buf cnt offset s =
     (let rf = v_private_data (vnodes s node); sz = v_size (vnodes s node)
      in if rf = NULL \<or> offset \<ge> sz then Some (0, s)
         else let avail = sz - offset; n = (if cnt < avail then cnt else avail)
              in Some (sint n, set_vfs_memory (memcpy buf (rf_data (rfiles s rf) + offset) n (vfs_memory s)) s))"

definition ramfs_write :: "ptr \<Rightarrow> ptr \<Rightarrow> u64 \<Rightarrow> u64 \<Rightarrow> 'a ramfs_state_scheme \<Rightarrow> (int \<times> 'a ramfs_state_scheme) ret" where
  "ramfs_write node buf cnt offset s =
     (let rf = v_private_data (vnodes s node)
      in if rf = NULL then Some (- 1, s)
         else do {
           (rc, s1) \<leftarrow> ramfs_ensure_capacity rf (offset + cnt) s;
           if rc \<noteq> 0 then Some (- 1, s1)
           else let s2 = set_vfs_memory (memcpy (rf_data (rfiles s1 rf) + offset) buf cnt (vfs_memory s1)) s1
                in Some (sint cnt, if offset + cnt > v_size (vnodes s2 node)
                                   then upd_node node (\<lambda>v. v\<lparr>v_size := offset + cnt\<rparr>) s2 else s2) })"

definition ramfs_ops :: "'a ramfs_state_scheme vnode_ops" where
  "ramfs_ops = \<lparr>op_lookup = Some ramfs_lookup, op_create = Some ramfs_create, op_open = None,
     op_read = Some ramfs_read, op_write = Some ramfs_write, op_readdir = Some ramfs_readdir,
     op_unlink = Some ramfs_unlink, op_rename = Some ramfs_rename, op_release = Some ramfs_release\<rparr>"

definition ramfs_create_root :: "'a ramfs_state_scheme \<Rightarrow> (ptr \<times> 'a ramfs_state_scheme) ret" where
  "ramfs_create_root s =
     do { (root, s1) \<leftarrow> vf_kmalloc VNODE_SIZE s;
          if root = NULL then Some (NULL, s1)
          else Some (root, upd_node root (\<lambda>_. vnode_zero\<lparr>v_type := VNODE_DIR, v_ops := Some RAMFS_OPS, v_name := [slash]\<rparr>) s1) }"

subsection \<open>Boot modules\<close>

definition basename_of :: "string \<Rightarrow> string" where
  "basename_of path = rev (takeWhile (\<lambda>c. c \<noteq> slash) (rev path))"

fun tar_octal_loop :: "ptr \<Rightarrow> nat \<Rightarrow> mem \<Rightarrow> u64 \<Rightarrow> u64" where
  "tar_octal_loop p 0 m v = v"
| "tar_octal_loop p (Suc n) m v =
     (if m p \<ge> 48 \<and> m p \<le> 55 then tar_octal_loop (p + 1) n m (v * 8 + ucast (m p - 48)) else v)"

definition tar_octal :: "ptr \<Rightarrow> nat \<Rightarrow> mem \<Rightarrow> u64" where
  "tar_octal p n m = tar_octal_loop p n m 0"

fun mkdirs_loop ::
  "(fs_kind \<Rightarrow> 'a ramfs_state_scheme vnode_ops) \<Rightarrow> nat list \<Rightarrow> string \<Rightarrow> 'a ramfs_state_scheme \<Rightarrow> 'a ramfs_state_scheme ret" where
  "mkdirs_loop T [] path s = Some s"
| "mkdirs_loop T (i # is) path s =
     (if i < length path \<and> path ! i \<noteq> slash then mkdirs_loop T is path s
      else do { (n, s1) \<leftarrow> vfs_resolve T (Some (take i path)) s;
                s2 \<leftarrow> (if n = NULL then do { (d, s') \<leftarrow> vfs_mkdir T (Some (take i path)) s1; Some s' } else Some s1);
                mkdirs_loop T is path s2 })"

definition ramfs_mkdirs ::
  "(fs_kind \<Rightarrow> 'a ramfs_state_scheme vnode_ops) \<Rightarrow> string \<Rightarrow> 'a ramfs_state_scheme \<Rightarrow> 'a ramfs_state_scheme ret" where
  "ramfs_mkdirs T path s =
     (if length path \<ge> VFS_PATH_MAX then Some s else mkdirs_loop T [1..<Suc (length path)] path s)"

definition chars_of :: "u8 list \<Rightarrow> string" where
  "chars_of bs = map (\<lambda>b. char_of (unat b)) bs"

text \<open>The characters up to a NUL, at most \<open>n\<close>.\<close>

definition field :: "mem \<Rightarrow> ptr \<Rightarrow> nat \<Rightarrow> string" where
  "field m p n = chars_of (takeWhile (\<lambda>b. b \<noteq> 0) (bytes_at m p n))"

fun strip_dots :: "string \<Rightarrow> string" where
  "strip_dots (a # b # cs) = (if a = CHR ''.'' \<and> b = slash then strip_dots cs else a # b # cs)"
| "strip_dots cs = cs"

definition tar_entry_path :: "ptr \<Rightarrow> mem \<Rightarrow> string option" where
  "tar_entry_path hdr m =
     (let lim = VFS_PATH_MAX - 1;
          pre = (if bytes_at m (hdr + 257) 5 = [0x75, 0x73, 0x74, 0x61, 0x72] \<and> m (hdr + 345) \<noteq> 0
                 then let r = take lim (field m (hdr + 345) 155) in if length r < lim then r @ [slash] else r
                 else []);
          raw = pre @ take (lim - length pre) (field m hdr 100);
          p = dropWhile (\<lambda>c. c = slash) (strip_dots raw);
          q = rev (dropWhile (\<lambda>c. c = slash) (rev p))
      in if q = [] \<or> length q + 2 > VFS_PATH_MAX \<or> q = ''.'' then None else Some (slash # q))"

definition align_up_512 :: "u64 \<Rightarrow> u64" where
  "align_up_512 x = (x + 511) AND NOT 511"

text \<open>One archive member: a directory, or a file with its directories made first. The result says
  whether a file was written.\<close>

definition tar_member ::
  "(fs_kind \<Rightarrow> 'a ramfs_state_scheme vnode_ops) \<Rightarrow> (dev_kind \<Rightarrow> 'a ramfs_state_scheme vfile_ops) \<Rightarrow> u8 \<Rightarrow> string \<Rightarrow> ptr \<Rightarrow> u64 \<Rightarrow>
   'a ramfs_state_scheme \<Rightarrow> (bool \<times> 'a ramfs_state_scheme) ret" where
  "tar_member T FT ty path addr sz s =
     (if ty = 0x35 then do { s' \<leftarrow> ramfs_mkdirs T path s; Some (False, s') }
      else if ty = 0x30 \<or> ty = 0
      then let parent = take (last_slash path) path
           in do { s1 \<leftarrow> (if parent \<noteq> [] then ramfs_mkdirs T parent s else Some s);
                   (rc, f, s2) \<leftarrow> vfs_open T (Some path) (VFS_O_WRONLY OR VFS_O_CREAT) no_file s1;
                   if rc = 0
                   then do { (n, f', s3) \<leftarrow> vfs_write T FT f addr sz s2;
                             (c, f'', s4) \<leftarrow> vfs_close T FT f' s3;
                             Some (True, s4) }
                   else Some (False, s2) }
      else Some (False, s))"

partial_function (option) extract_loop ::
  "(fs_kind \<Rightarrow> 'a ramfs_state_scheme vnode_ops) \<Rightarrow> (dev_kind \<Rightarrow> 'a ramfs_state_scheme vfile_ops) \<Rightarrow> ptr \<Rightarrow> u64 \<Rightarrow> u64 \<Rightarrow> int \<Rightarrow>
   'a ramfs_state_scheme \<Rightarrow> (int \<times> 'a ramfs_state_scheme) ret" where
  [code]: "extract_loop T FT data sz off files s =
     (if \<not> off + 512 \<le> sz then Some (files, s)
      else let hdr = data + off; m = vfs_memory s
           in if m hdr = 0 then Some (files, s)
              else let file_size = tar_octal (hdr + 124) 12 m; ty = m (hdr + 156); off1 = off + 512
                   in do {
                     (wrote, s1) \<leftarrow> (case tar_entry_path hdr m of
                         None \<Rightarrow> Some (False, s)
                       | Some path \<Rightarrow> if off1 + file_size \<le> sz then tar_member T FT ty path (data + off1) file_size s
                                      else Some (False, s));
                     extract_loop T FT data sz (off1 + align_up_512 file_size) (if wrote then files + 1 else files) s1 })"

definition ramfs_extract_tar ::
  "(fs_kind \<Rightarrow> 'a ramfs_state_scheme vnode_ops) \<Rightarrow> (dev_kind \<Rightarrow> 'a ramfs_state_scheme vfile_ops) \<Rightarrow> ptr \<Rightarrow> u64 \<Rightarrow>
   'a ramfs_state_scheme \<Rightarrow> (int \<times> 'a ramfs_state_scheme) ret" where
  "ramfs_extract_tar T FT data sz s = extract_loop T FT data sz 0 0 s"

record limine_file =
  lm_path :: "string option"
  lm_address :: ptr
  lm_size :: u64

definition is_tar :: "string \<Rightarrow> bool" where
  "is_tar base \<longleftrightarrow> length base > 4 \<and> drop (length base - 4) base = ''.tar''"

text \<open>One module that is not an archive, written to \<^verbatim>\<open>/modules\<close>; whether it was loaded.\<close>

definition load_module ::
  "(fs_kind \<Rightarrow> 'a ramfs_state_scheme vnode_ops) \<Rightarrow> (dev_kind \<Rightarrow> 'a ramfs_state_scheme vfile_ops) \<Rightarrow> string \<Rightarrow> ptr \<Rightarrow> u64 \<Rightarrow>
   'a ramfs_state_scheme \<Rightarrow> (bool \<times> 'a ramfs_state_scheme) ret" where
  "load_module T FT base addr sz s =
     do { s1 \<leftarrow> ramfs_mkdirs T ''/modules'' s;
          if length ''/modules/'' + length base \<ge> VFS_PATH_MAX then Some (False, s1)
          else do {
            (rc, f, s2) \<leftarrow> vfs_open T (Some (''/modules/'' @ base)) (VFS_O_WRONLY OR VFS_O_CREAT) no_file s1;
            if rc \<noteq> 0 then Some (False, s2)
            else do {
              (w, f', s3) \<leftarrow> vfs_write T FT f addr sz s2;
              (c, f'', s4) \<leftarrow> vfs_close T FT f' s3;
              Some ((case w of Ret n \<Rightarrow> n \<ge> 0 \<and> n = int (unat sz) | Blocked k \<Rightarrow> False), s4) } } }"

fun load_modules ::
  "(fs_kind \<Rightarrow> 'a ramfs_state_scheme vnode_ops) \<Rightarrow> (dev_kind \<Rightarrow> 'a ramfs_state_scheme vfile_ops) \<Rightarrow> limine_file option list \<Rightarrow> int \<Rightarrow>
   'a ramfs_state_scheme \<Rightarrow> (int \<times> 'a ramfs_state_scheme) ret" where
  "load_modules T FT [] loaded s = Some (loaded, s)"
| "load_modules T FT (x # xs) loaded s =
     (case Option.bind x lm_path of
        None \<Rightarrow> load_modules T FT xs loaded s
      | Some path \<Rightarrow>
          let base = basename_of path
          in if is_tar base
             then do { (n, s') \<leftarrow> ramfs_extract_tar T FT (lm_address (the x)) (lm_size (the x)) s;
                       load_modules T FT xs (loaded + 1) s' }
             else do { (ok, s') \<leftarrow> load_module T FT base (lm_address (the x)) (lm_size (the x)) s;
                       load_modules T FT xs (if ok then loaded + 1 else loaded) s' })"

text \<open>The boot loader's answer is \<open>None\<close> when there is none.\<close>

definition ramfs_load_limine_modules ::
  "(fs_kind \<Rightarrow> 'a ramfs_state_scheme vnode_ops) \<Rightarrow> (dev_kind \<Rightarrow> 'a ramfs_state_scheme vfile_ops) \<Rightarrow> limine_file option list option \<Rightarrow>
   'a ramfs_state_scheme \<Rightarrow> (int \<times> 'a ramfs_state_scheme) ret" where
  "ramfs_load_limine_modules T FT resp s =
     (case resp of None \<Rightarrow> Some (- 1, s) | Some mods \<Rightarrow> load_modules T FT mods 0 s)"

definition ramfs_has_boot_image :: "limine_file option list option \<Rightarrow> bool" where
  "ramfs_has_boot_image resp =
     (case resp of None \<Rightarrow> False
      | Some mods \<Rightarrow> list_ex (\<lambda>x. case Option.bind x lm_path of None \<Rightarrow> False | Some path \<Rightarrow> is_tar (basename_of path)) mods)"

subsection \<open>Memory that belongs to somebody\<close>

text \<open>\<open>owned F B p n\<close>: the \<open>n\<close> bytes at \<open>p\<close> lie in one live heap block or in one run of pages.\<close>

definition owned :: "(ptr \<rightharpoonup> u64) \<Rightarrow> (ptr \<rightharpoonup> u64) \<Rightarrow> ptr \<Rightarrow> nat \<Rightarrow> bool" where
  "owned F B p n \<longleftrightarrow> n < 2 ^ 64 \<and> ((\<exists>q k. B q = Some k \<and> unat (p - q) + n \<le> unat k) \<or>
     (\<exists>q k. F q = Some k \<and> unat (p - q) + n \<le> unat k * 4096))"

lemma owned_mono: "owned F B p n \<Longrightarrow> (\<And>q k. B q = Some k \<Longrightarrow> B' q = Some k) \<Longrightarrow> k \<le> n \<Longrightarrow> owned F B' p k"
  unfolding owned_def by (meson add_left_mono le_trans order_le_less_trans)

lemma owned_size: "owned F B p n \<Longrightarrow> n \<le> 2 ^ 64"
  by (simp add: owned_def)

lemma owned_block: "B q = Some n \<Longrightarrow> owned F B q (unat n)"
  unfolding owned_def using unat_lt_64 [of n] by (intro conjI disjI1 exI [of _ q] exI [of _ n]) simp_all

lemma owned_apart:
  assumes "heap_inv F B h" and "B b = Some n" and "owned F (B(b := None)) p k"
  shows "apart b (unat n) p k"
  unfolding apart_def
proof (intro allI impI)
  fix i j :: u64 assume ij: "unat i < unat n" "unat j < k"
  have le: "unat (p - q + j) \<le> unat (p - q) + unat j" for q by (rule unat_add_le)
  from assms(3) consider (block) q l where "B q = Some l" "q \<noteq> b" "unat (p - q) + k \<le> unat l"
    | (run) q l where "F q = Some l" "unat (p - q) + k \<le> unat l * 4096"
    unfolding owned_def by (auto split: if_splits)
  then show "b + i \<noteq> p + j"
  proof cases
    case (block r l)
    have "unat (p - r + j) < unat l" using le [of r] block(3) ij(2) by linarith
    from heap_blocks_disjoint [OF assms(1,2) block(1) block(2) [symmetric] ij(1) this]
    show ?thesis by (simp add: algebra_simps)
  next
    case (run r l)
    have "unat (p - r + j) < unat l * 4096" using le [of r] run(2) ij(2) by linarith
    from heap_run_block_disjoint [OF assms(1) run(1) assms(2) this ij(1)]
    show ?thesis by (simp add: algebra_simps)
  qed
qed

subsection \<open>The contents of a file\<close>

definition file_bytes :: "'a ramfs_state_scheme \<Rightarrow> ptr \<Rightarrow> u8 list" where
  "file_bytes s node = bytes_at (vfs_memory s) (rf_data (rfiles s (v_private_data (vnodes s node)))) (unat (v_size (vnodes s node)))"

text \<open>The block behind a file: it is live, holds the whole file, and is zero after its end.\<close>

definition rf_block :: "(ptr \<rightharpoonup> u64) \<Rightarrow> ramfs_file \<Rightarrow> u64 \<Rightarrow> mem \<Rightarrow> bool" where
  "rf_block B f sz m \<longleftrightarrow> sz \<le> rf_capacity f \<and>
     (if rf_data f = NULL then rf_capacity f = 0 else B (rf_data f) = Some (rf_capacity f)) \<and>
     (\<forall>i. unat sz \<le> i \<and> i < unat (rf_capacity f) \<longrightarrow> m (rf_data f + of_nat i) = 0)"

definition rf_inv :: "(ptr \<rightharpoonup> u64) \<Rightarrow> (ptr \<rightharpoonup> u64) \<Rightarrow> 'a ramfs_state_scheme \<Rightarrow> ptr \<Rightarrow> bool" where
  "rf_inv F B s node \<longleftrightarrow> heap_inv F B (vf_heap s) \<and> v_private_data (vnodes s node) \<noteq> NULL \<and>
     rf_block B (rfiles s (v_private_data (vnodes s node))) (v_size (vnodes s node)) (vfs_memory s)"

lemma grow_cap_returns:
  assumes "cap \<noteq> 0" and "unat needed \<le> 2 ^ 63"
  shows "\<exists>k. grow_cap cap needed = Some k \<and> needed \<le> k \<and> cap \<le> k"
  using assms(1)
proof (induction "unat needed - unat cap" arbitrary: cap rule: less_induct)
  case less
  show ?case
  proof (cases "cap < needed")
    case False
    then have "grow_cap cap needed = Some cap" by (subst grow_cap.simps) simp
    with False show ?thesis by simp
  next
    case True
    then have l: "unat cap < unat needed" by (simp add: word_less_nat_alt)
    then have u: "unat (cap * 2) = unat cap * 2" using assms(2) by (simp add: unat_word_ariths)
    have p: "0 < unat cap" using less.prems by (simp add: unat_gt_0)
    then have "cap * 2 \<noteq> 0" using u by (metis mult_is_0 numeral_neq_zero not_gr_zero unat_0)
    moreover have "unat needed - unat (cap * 2) < unat needed - unat cap" using u l p by linarith
    ultimately obtain k where
      k: "grow_cap (cap * 2) needed = Some k" "needed \<le> k" "cap * 2 \<le> k" using less.hyps by blast
    have "cap \<le> k" using k(3) u by (simp add: word_le_nat_alt)
    moreover have "grow_cap cap needed = grow_cap (cap * 2) needed" using True by (subst grow_cap.simps) simp
    ultimately show ?thesis using k by auto
  qed
qed

lemma bytes_at_nth_eq: "bytes_at m p n = bytes_at m' q n \<longleftrightarrow> (\<forall>i < n. m (p + of_nat i) = m' (q + of_nat i))"
  by (metis bytes_at_eqI nth_bytes_at)

text \<open>What moving a file to a larger block leaves there.\<close>

lemma moved_block:
  assumes "unat cap \<le> unat new_cap" and "d = NULL \<Longrightarrow> cap = 0" and "apart p (unat new_cap) d (unat cap)"
    and "m2 = (if d = NULL then m else memcpy p d cap m)"
    and "m3 = memset (p + cap) 0 (new_cap - cap) m2"
  shows "i < unat cap \<Longrightarrow> m3 (p + of_nat i) = m (d + of_nat i)"
    and "unat cap \<le> i \<Longrightarrow> i < unat new_cap \<Longrightarrow> m3 (p + of_nat i) = 0"
    and "\<not> unat (a - p) < unat new_cap \<Longrightarrow> m3 a = m a"
proof -
  have n: "unat (new_cap - cap) = unat new_cap - unat cap" using assms(1) by (rule unat_diff_nowrap)
  have lt: "unat new_cap < 2 ^ 64" by (rule unat_lt_64)
  then have t: "unat cap + unat (new_cap - cap) \<le> 2 ^ 64" using n assms(1) by simp
  have at3: "m3 (p + of_nat j) = (if unat cap \<le> j \<and> j < unat new_cap then 0 else m2 (p + of_nat j))" if "j < 2 ^ 64" for j
    using memset_into [OF t that, of p 0 m2] assms(1,5) n by simp
  show "m3 (p + of_nat i) = m (d + of_nat i)" if i: "i < unat cap"
  proof -
    have "d \<noteq> NULL" using assms(2) i by auto
    then have "m2 (p + of_nat i) = m (d + of_nat i)"
      using memcpy_into [OF assms(3), of 0 i m] i assms(1,4) lt by simp
    then show ?thesis using at3 [of i] i unat_lt_64 [of cap] by simp
  qed
  show "m3 (p + of_nat i) = 0" if "unat cap \<le> i" "i < unat new_cap" using at3 [of i] that lt by simp
  show "m3 a = m a" if o: "\<not> unat (a - p) < unat new_cap"
  proof -
    define j where "j = unat (a - p)"
    have j: "p + of_nat j = a" "j < 2 ^ 64" "\<not> j < unat new_cap" using o unat_lt_64 [of "a - p"] by (simp_all add: j_def)
    have "m3 a = m2 a" using at3 [OF j(2)] j by simp
    moreover have "m2 a = m a" using memcpy_outside [OF assms(3), of 0 a m] o assms(1,4) by simp
    ultimately show ?thesis by simp
  qed
qed

text \<open>\<open>undisturbed\<close>: what others own is still theirs, with the same bytes; \<open>D\<close> and \<open>D'\<close> are the blocks
  of the file before and after.\<close>

definition undisturbed ::
  "(ptr \<rightharpoonup> u64) \<Rightarrow> (ptr \<rightharpoonup> u64) \<Rightarrow> ptr \<Rightarrow> mem \<Rightarrow> (ptr \<rightharpoonup> u64) \<Rightarrow> ptr \<Rightarrow> mem \<Rightarrow> bool" where
  "undisturbed F B D m B' D' m' \<longleftrightarrow> (\<forall>p k. owned F (B(D := None)) p k \<longrightarrow>
     owned F (B'(D' := None)) p k \<and> bytes_at m' p k = bytes_at m p k)"

lemma undisturbed_refl [simp]: "undisturbed F B D m B D m"
  by (simp add: undisturbed_def)

lemma undisturbed_trans:
  "undisturbed F B D m B' D' m' \<Longrightarrow> undisturbed F B' D' m' B'' D'' m'' \<Longrightarrow> undisturbed F B D m B'' D'' m''"
  by (simp add: undisturbed_def)

lemma bytes_at_outside:
  assumes "apart b n p k" and "k \<le> 2 ^ 64" and "\<And>a. \<not> unat (a - b) < n \<Longrightarrow> m' a = m a"
  shows "bytes_at m' p k = bytes_at m p k"
proof (rule bytes_at_eqI)
  fix i assume "i < k"
  then have "\<not> unat (p + of_nat i - b) < n"
    by (intro apart_in [OF apart_sym [OF assms(1)]]) (use assms(2) in \<open>simp add: unat_of_nat_small\<close>)
  then show "m' (p + of_nat i) = m (p + of_nat i)" by (rule assms(3))
qed

lemma new_block_undisturbed:
  assumes "heap_inv F B1 h" and "B1 p = Some n" and "\<And>a. \<not> unat (a - p) < unat n \<Longrightarrow> m' a = m a"
    and "\<And>q k. (B(D := None)) q = Some k \<Longrightarrow> (B1(p := None)) q = Some k"
    and "\<And>q k. (B(D := None)) q = Some k \<Longrightarrow> (B'(p := None)) q = Some k"
  shows "undisturbed F B D m B' p m'"
  unfolding undisturbed_def
proof (intro allI impI conjI)
  fix q k assume o: "owned F (B(D := None)) q k"
  show "owned F (B'(p := None)) q k" by (rule owned_mono [OF o assms(5)]) simp_all
  have "owned F (B1(p := None)) q k" by (rule owned_mono [OF o assms(4)]) simp_all
  from owned_apart [OF assms(1,2) this] show "bytes_at m' q k = bytes_at m q k"
    by (rule bytes_at_outside [OF _ owned_size [OF o] assms(3)])
qed

lemma ensure_capacity_spec:
  assumes "rf_inv F B s node" and "rf = v_private_data (vnodes s node)" and "unat needed \<le> 2 ^ 63"
  shows "\<exists>rc s' B'. ramfs_ensure_capacity rf needed s = Some (rc, s') \<and> (rc = 0 \<or> rc = - 1 \<and> s' = s \<and> B' = B) \<and>
    (rc = 0 \<longrightarrow> needed \<le> rf_capacity (rfiles s' rf)) \<and> rf_inv F B' s' node \<and> file_bytes s' node = file_bytes s node \<and>
    vnodes s' = vnodes s \<and> mounts s' = mounts s \<and> (\<forall>r. r \<noteq> rf \<longrightarrow> rfiles s' r = rfiles s r) \<and>
    undisturbed F B (rf_data (rfiles s rf)) (vfs_memory s) B' (rf_data (rfiles s' rf)) (vfs_memory s')"
proof (cases "needed \<le> rf_capacity (rfiles s rf)")
  case True
  then show ?thesis using assms(1) by (intro exI [of _ 0] exI [of _ s] exI [of _ B]) (simp add: ramfs_ensure_capacity_def)
next
  case False
  define f cap d m sz where "f = rfiles s rf" and "cap = rf_capacity f" and "d = rf_data f" and "m = vfs_memory s"
    and "sz = v_size (vnodes s node)"
  have hi: "heap_inv F B (vf_heap s)" and rb: "rf_block B f sz m"
    using assms(1,2) by (simp_all add: rf_inv_def f_def sz_def m_def)
  have szc: "sz \<le> cap" and dn: "d = NULL \<Longrightarrow> cap = 0" and db: "d \<noteq> NULL \<Longrightarrow> B d = Some cap"
    and tail: "\<And>i. unat sz \<le> i \<Longrightarrow> i < unat cap \<Longrightarrow> m (d + of_nat i) = 0"
    using rb by (auto simp: rf_block_def cap_def d_def split: if_splits)
  have "(if cap \<noteq> 0 then cap else 256) \<noteq> 0" by simp
  from grow_cap_returns [OF this assms(3)] obtain nc where
    nc: "grow_cap (if cap \<noteq> 0 then cap else 256) needed = Some nc" "needed \<le> nc" "(if cap \<noteq> 0 then cap else 256) \<le> nc" by blast
  have cn: "unat cap \<le> unat nc" using nc(3) by (auto simp: word_le_nat_alt split: if_splits)
  show ?thesis using hi
  proof (cases rule: kmalloc_cases [where n = nc])
    case null
    then have "ramfs_ensure_capacity rf needed s = Some (- 1, s)"
      using False nc(1) by (cases "cap = 0")
        (simp_all add: ramfs_ensure_capacity_def Let_def vf_kmalloc_def f_def [symmetric] cap_def [symmetric])
    then show ?thesis using assms(1) by (intro exI [of _ "- 1"] exI [of _ s] exI [of _ B]) simp
  next
    case (block p h)
    define B1 where "B1 = B(p \<mapsto> nc)"
    define m2 where "m2 = (if d = NULL then m else memcpy p d cap m)"
    define m3 where "m3 = memset (p + cap) 0 (nc - cap) m2"
    define B' where "B' = (if d = NULL then B1 else B1(d := None))"
    have i1: "heap_inv F B1 h" and pn: "B1 p = Some nc" using block by (simp_all add: B1_def)
    have "\<exists>h2. (if d = NULL then h2 = h else kfree d (h\<lparr>hmem := m2\<rparr>) = Some h2 \<and> hmem h2 = m2) \<and> heap_inv F B' h2"
    proof (cases "d = NULL")
      case False
      then have "B1 d = Some cap" using db block(3) by (auto simp: B1_def)
      moreover have "heap_inv F B1 (h\<lparr>hmem := m2\<rparr>)" using i1 by simp
      ultimately show ?thesis using kfree_inv [of F B1 "h\<lparr>hmem := m2\<rparr>" d cap] False by (auto simp: B'_def)
    qed (use i1 in \<open>simp add: B'_def\<close>)
    then obtain h2 where h2: "if d = NULL then h2 = h else kfree d (h\<lparr>hmem := m2\<rparr>) = Some h2 \<and> hmem h2 = m2"
      "heap_inv F B' h2" by blast
    define s' where "s' = s\<lparr>vf_heap := h2\<lparr>hmem := m3\<rparr>, rfiles := (rfiles s)(rf := \<lparr>rf_data = p, rf_capacity = nc\<rparr>)\<rparr>"
    have mh: "hmem h = m" using block(5) by (simp add: m_def vfs_memory_def)
    have run: "ramfs_ensure_capacity rf needed s = Some (0, s')"
      using False nc(1) block(1,2) h2(1) mh
      by (cases "cap = 0"; cases "d = NULL")
        (simp_all add: ramfs_ensure_capacity_def Let_def vf_kmalloc_def vf_kfree_def f_def [symmetric] cap_def [symmetric]
          d_def [symmetric] vfs_memory_def set_vfs_memory_def m2_def m3_def s'_def)
    have ap: "apart p (unat nc) d (unat cap)"
    proof (cases "d = NULL")
      case True
      then show ?thesis using dn by (simp add: apart_def)
    next
      case False
      have "(B1(p := None)) d = Some cap" using db [OF False] block(3) by (auto simp: B1_def)
      then have "owned F (B1(p := None)) d (unat cap)" by (rule owned_block)
      then show ?thesis by (rule owned_apart [OF i1 pn])
    qed
    note mb = moved_block [OF cn dn ap m2_def m3_def]
    have mem': "vfs_memory s' = m3" by (simp add: s'_def vfs_memory_def)
    have f': "rfiles s' rf = \<lparr>rf_data = p, rf_capacity = nc\<rparr>" by (simp add: s'_def)
    have zero: "m3 (p + of_nat i) = 0" if "unat sz \<le> i" "i < unat nc" for i
      using mb(1,2) tail that by (cases "i < unat cap") auto
    have pB: "B' p = Some nc" using block(3) db by (cases "d = NULL") (auto simp: B'_def B1_def)
    have "rf_block B' (rfiles s' rf) sz m3"
      unfolding rf_block_def f' using zero pB block(2) szc cn by (simp add: word_le_nat_alt)
    then have inv: "rf_inv F B' s' node"
      unfolding rf_inv_def mem' using assms(1,2) h2(2) by (simp add: rf_inv_def sz_def s'_def)
    have "bytes_at m3 p (unat sz) = bytes_at m d (unat sz)"
      by (rule bytes_at_eqI) (use mb(1) szc in \<open>simp add: word_le_nat_alt\<close>)
    then have bytes: "file_bytes s' node = file_bytes s node"
      unfolding file_bytes_def mem' using assms(2) by (simp add: s'_def sz_def m_def d_def f_def)
    have keep: "(B1(p := None)) q = Some k" "(B'(p := None)) q = Some k" if "(B(d := None)) q = Some k" for q k
      using that block(3) by (auto simp: B'_def B1_def split: if_splits)
    have "undisturbed F B d m B' p m3"
      by (rule new_block_undisturbed [OF i1 pn mb(3) keep])
    then have un: "undisturbed F B (rf_data (rfiles s rf)) (vfs_memory s) B' (rf_data (rfiles s' rf)) (vfs_memory s')"
      unfolding f' mem' by (simp add: d_def m_def f_def)
    have "vnodes s' = vnodes s \<and> mounts s' = mounts s \<and> (\<forall>r. r \<noteq> rf \<longrightarrow> rfiles s' r = rfiles s r)" by (simp add: s'_def)
    then show ?thesis using run inv bytes un nc(2) f' by (intro exI [of _ 0] exI [of _ s'] exI [of _ B']) simp
  qed
qed

subsection \<open>Reading and writing a file\<close>

text \<open>Replacing bytes of a sequence from an offset on; a gap is filled with zeros.\<close>

definition overwrite :: "nat \<Rightarrow> u8 list \<Rightarrow> u8 list \<Rightarrow> u8 list" where
  "overwrite off new old = take off (old @ replicate (off - length old) 0) @ new @ drop (off + length new) old"

lemma length_overwrite: "length (overwrite off new old) = max (length old) (off + length new)"
  by (auto simp: overwrite_def)

lemma nth_overwrite:
  "i < length (overwrite off new old) \<Longrightarrow> overwrite off new old ! i =
     (if off \<le> i \<and> i < off + length new then new ! (i - off) else if i < length old then old ! i else 0)"
  by (auto simp: overwrite_def nth_append min_def)

lemma sint_eq_small: "unat (w :: u64) \<le> n \<Longrightarrow> n < 2 ^ 63 \<Longrightarrow> sint w = int (unat w)"
  by (rule sint_small) simp

lemma write_undisturbed:
  assumes "heap_inv F B h" and "if D = NULL then n = 0 else B D = Some n" and "\<And>a. \<not> unat (a - D) < unat n \<Longrightarrow> m' a = m a"
  shows "undisturbed F B D m B D m'"
proof (cases "D = NULL")
  case True
  then have "m' = m" using assms(2,3) by (simp add: fun_eq_iff)
  then show ?thesis by simp
next
  case False
  then have "B D = Some n" using assms(2) by simp
  show ?thesis by (rule new_block_undisturbed [OF assms(1) \<open>B D = Some n\<close> assms(3)])
qed

text \<open>Copying into the block of a file, within its capacity.\<close>

lemma file_block_write:
  assumes "rf_block B f sz m" and "heap_inv F B h" and "unat off + unat cnt \<le> unat (rf_capacity f)"
    and "owned F (B(rf_data f := None)) buf (unat cnt)"
    and "m' = memcpy (rf_data f + off) buf cnt m" and "nsz = (if off + cnt > sz then off + cnt else sz)"
  shows "rf_block B f nsz m'"
    and "bytes_at m' (rf_data f) (unat nsz) = overwrite (unat off) (bytes_at m buf (unat cnt)) (bytes_at m (rf_data f) (unat sz))"
    and "undisturbed F B (rf_data f) m B (rf_data f) m'"
proof -
  let ?d = "rf_data f" and ?cap = "rf_capacity f"
  have b: "if ?d = NULL then ?cap = 0 else B ?d = Some ?cap" and szc: "unat sz \<le> unat ?cap"
    and tail: "\<And>i. unat sz \<le> i \<Longrightarrow> i < unat ?cap \<Longrightarrow> m (?d + of_nat i) = 0"
    using assms(1) by (auto simp: rf_block_def word_le_nat_alt)
  have oc: "unat (off + cnt) = unat off + unat cnt"
    using assms(3) unat_lt_64 [of ?cap] by (intro unat_add_nowrap) simp
  then have nsz: "unat nsz = max (unat sz) (unat off + unat cnt)"
    using assms(6) by (auto simp: word_less_nat_alt)
  have ap: "apart ?d (unat ?cap) buf (unat cnt)"
  proof (cases "?d = NULL")
    case True
    then show ?thesis using b by (simp add: apart_def)
  next
    case False
    then show ?thesis using b owned_apart [OF assms(2) _ assms(4)] by simp
  qed
  have lt: "unat ?cap \<le> 2 ^ 64" using unat_lt_64 [of ?cap] by simp
  have at: "m' (?d + of_nat i) = (if unat off \<le> i \<and> i < unat off + unat cnt then m (buf + of_nat (i - unat off)) else m (?d + of_nat i))"
    if "i < unat ?cap" for i unfolding assms(5) by (rule memcpy_into [OF ap assms(3) that lt])
  show "bytes_at m' ?d (unat nsz) = overwrite (unat off) (bytes_at m buf (unat cnt)) (bytes_at m ?d (unat sz))" (is "?l = ?r")
  proof (rule nth_equalityI)
    show len: "length ?l = length ?r" using nsz by (simp add: length_overwrite)
    fix i assume "i < length ?l"
    then have i: "i < unat nsz" "i < unat ?cap" "i < length ?r" using nsz szc assms(3) len by simp_all
    then show "?l ! i = ?r ! i"
      using at [OF i(2)] tail [of i] by (auto simp: nth_bytes_at nth_overwrite [OF i(3)])
  qed
  show "rf_block B f nsz m'"
    unfolding rf_block_def using b nsz szc assms(3) at tail by (auto simp: word_le_nat_alt)
  have "m' a = m a" if "\<not> unat (a - ?d) < unat ?cap" for a
    unfolding assms(5) by (rule memcpy_outside [OF ap assms(3) that])
  then show "undisturbed F B ?d m B ?d m'" by (rule write_undisturbed [OF assms(2) b])
qed

lemma ramfs_write_spec:
  assumes "rf_inv F B s node" and "unat off + unat cnt < 2 ^ 63"
    and "owned F (B(rf_data (rfiles s (v_private_data (vnodes s node))) := None)) buf (unat cnt)"
  shows "\<exists>rc s' B'. ramfs_write node buf cnt off s = Some (rc, s') \<and> rf_inv F B' s' node \<and>
    undisturbed F B (rf_data (rfiles s (v_private_data (vnodes s node)))) (vfs_memory s)
      B' (rf_data (rfiles s' (v_private_data (vnodes s' node)))) (vfs_memory s') \<and>
    (rc = - 1 \<and> s' = s \<and> B' = B \<or>
     rc = int (unat cnt) \<and> file_bytes s' node = overwrite (unat off) (bytes_at (vfs_memory s) buf (unat cnt)) (file_bytes s node)) \<and>
     vnodes s' = (vnodes s)(node := (vnodes s node)\<lparr>v_size := v_size (vnodes s' node)\<rparr>)"
proof -
  define rf where "rf = v_private_data (vnodes s node)"
  have oc: "unat (off + cnt) = unat off + unat cnt" using assms(2) by (intro unat_add_nowrap) simp
  then have "unat (off + cnt) \<le> 2 ^ 63" using assms(2) by simp
  from ensure_capacity_spec [OF assms(1) rf_def this] obtain rc s1 B1 where
    e: "ramfs_ensure_capacity rf (off + cnt) s = Some (rc, s1)" "rc = 0 \<or> rc = - 1 \<and> s1 = s \<and> B1 = B"
      "rc = 0 \<longrightarrow> off + cnt \<le> rf_capacity (rfiles s1 rf)" "rf_inv F B1 s1 node" "file_bytes s1 node = file_bytes s node"
      "vnodes s1 = vnodes s"
      "undisturbed F B (rf_data (rfiles s rf)) (vfs_memory s) B1 (rf_data (rfiles s1 rf)) (vfs_memory s1)" by blast
  have rn: "rf \<noteq> NULL" using assms(1) by (simp add: rf_inv_def rf_def)
  show ?thesis
  proof (cases "rc = 0")
    case False
    then have "ramfs_write node buf cnt off s = Some (- 1, s)" using e(1,2) rn by (simp add: ramfs_write_def Let_def rf_def)
    then show ?thesis using assms(1) by (intro exI [of _ "- 1"] exI [of _ s] exI [of _ B]) simp
  next
    case True
    define f sz where "f = rfiles s1 rf" and "sz = v_size (vnodes s node)"
    define m where "m = memcpy (rf_data f + off) buf cnt (vfs_memory s1)"
    define nsz where "nsz = (if off + cnt > sz then off + cnt else sz)"
    define s' where "s' = (set_vfs_memory m s1)\<lparr>vnodes := (vnodes s)(node := (vnodes s node)\<lparr>v_size := nsz\<rparr>)\<rparr>"
    have hi: "heap_inv F B1 (vf_heap s1)" and rb: "rf_block B1 f sz (vfs_memory s1)"
      using e(4,6) by (simp_all add: rf_inv_def f_def sz_def rf_def)
    have room: "unat off + unat cnt \<le> unat (rf_capacity f)" using e(3) True oc by (simp add: f_def word_le_nat_alt)
    have ob: "owned F (B1(rf_data f := None)) buf (unat cnt)" "bytes_at (vfs_memory s1) buf (unat cnt) = bytes_at (vfs_memory s) buf (unat cnt)"
      using e(7) assms(3) unfolding undisturbed_def f_def rf_def by blast+
    note w = file_block_write [OF rb hi room ob(1) m_def nsz_def]
    have "sint cnt = int (unat cnt)" using assms(2) by (intro sint_small) simp
    moreover have "(if off + cnt > v_size (vnodes (set_vfs_memory m s1) node)
        then upd_node node (\<lambda>v. v\<lparr>v_size := off + cnt\<rparr>) (set_vfs_memory m s1) else set_vfs_memory m s1) = s'"
      using e(6) by (simp add: s'_def nsz_def sz_def upd_node_def set_vfs_memory_def)
    moreover have "ramfs_write node buf cnt off s = Some (sint cnt,
        if off + cnt > v_size (vnodes (set_vfs_memory m s1) node)
        then upd_node node (\<lambda>v. v\<lparr>v_size := off + cnt\<rparr>) (set_vfs_memory m s1) else set_vfs_memory m s1)"
      unfolding m_def f_def using e(1) rn True by (simp add: ramfs_write_def Let_def rf_def)
    ultimately have run: "ramfs_write node buf cnt off s = Some (int (unat cnt), s')" by (simp only:)
    have s': "vfs_memory s' = m" "rfiles s' = rfiles s1" "vnodes s' = (vnodes s)(node := (vnodes s node)\<lparr>v_size := nsz\<rparr>)"
      "heap_inv F B1 (vf_heap s')"
      using hi by (simp_all add: s'_def vfs_memory_def set_vfs_memory_def)
    have inv: "rf_inv F B1 s' node" unfolding rf_inv_def s' using w(1) rn s'(4) by (simp add: f_def rf_def)
    have "file_bytes s' node = overwrite (unat off) (bytes_at (vfs_memory s) buf (unat cnt)) (file_bytes s1 node)"
      unfolding file_bytes_def s' using w(2) ob(2) e(6) by (simp add: f_def rf_def sz_def)
    moreover have "undisturbed F B (rf_data (rfiles s rf)) (vfs_memory s) B1 (rf_data (rfiles s' rf)) (vfs_memory s')"
      using undisturbed_trans [OF e(7)] w(3) by (simp add: s' f_def)
    ultimately show ?thesis using run inv e(5) s'(3)
      by (intro exI [of _ "int (unat cnt)"] exI [of _ s'] exI [of _ B1]) (simp add: rf_def)
  qed
qed

lemma ramfs_read_spec:
  assumes "rf_inv F B s node" and "unat cnt < 2 ^ 63 \<or> unat (v_size (vnodes s node)) < 2 ^ 63"
    and "owned F (B(rf_data (rfiles s (v_private_data (vnodes s node))) := None)) buf (unat cnt)"
    and "n = min (unat cnt) (length (file_bytes s node) - unat off)"
  shows "\<exists>s'. ramfs_read node buf cnt off s = Some (int n, s') \<and> rf_inv F B s' node \<and> vnodes s' = vnodes s \<and>
    bytes_at (vfs_memory s') buf n = take n (drop (unat off) (file_bytes s node)) \<and> file_bytes s' node = file_bytes s node \<and>
    (\<forall>a. \<not> unat (a - buf) < n \<longrightarrow> vfs_memory s' a = vfs_memory s a)"
proof -
  define f sz m where "f = rfiles s (v_private_data (vnodes s node))" and "sz = v_size (vnodes s node)" and "m = vfs_memory s"
  have rn: "v_private_data (vnodes s node) \<noteq> NULL" and hi: "heap_inv F B (vf_heap s)" and rb: "rf_block B f sz m"
    using assms(1) by (simp_all add: rf_inv_def f_def sz_def m_def)
  have lf: "length (file_bytes s node) = unat sz" by (simp add: file_bytes_def sz_def)
  show ?thesis
  proof (cases "off \<ge> sz")
    case True
    then have "n = 0" using assms(4) lf by (simp add: word_le_nat_alt)
    then show ?thesis using True assms(1) by (intro exI [of _ s]) (simp add: ramfs_read_def Let_def sz_def)
  next
    case False
    then have lt: "unat off < unat sz" by (simp add: word_le_nat_alt)
    define k where "k = (if cnt < sz - off then cnt else sz - off)"
    have "unat (sz - off) = unat sz - unat off" using lt by (intro unat_diff_nowrap) simp
    then have k: "unat k = n" using assms(4) lf by (auto simp: k_def word_less_nat_alt)
    have "n < 2 ^ 63" using assms(2,4) lf by (auto simp: sz_def)
    then have ks: "sint k = int n" using sint_small [of k] k by simp
    define m' where "m' = memcpy buf (rf_data f + off) k m"
    define s' where "s' = set_vfs_memory m' s"
    have run: "ramfs_read node buf cnt off s = Some (int n, s')"
      using False rn ks unfolding ramfs_read_def Let_def s'_def m'_def k_def f_def sz_def m_def by simp
    have cap: "unat sz \<le> unat (rf_capacity f)" using rb by (simp add: rf_block_def word_le_nat_alt)
    have "rf_data f \<noteq> NULL" using rb lt cap by (auto simp: rf_block_def)
    then have db: "B (rf_data f) = Some (rf_capacity f)" using rb by (simp add: rf_block_def)
    have ap: "apart (rf_data f) (unat (rf_capacity f)) buf (unat cnt)"
      by (rule owned_apart [OF hi db]) (use assms(3) in \<open>simp add: f_def\<close>)
    have nk: "n \<le> unat cnt" "unat off + n \<le> unat (rf_capacity f)" using assms(4) lf cap lt by simp_all
    have ap2: "apart buf n (rf_data f + off) (unat k)"
      by (rule apart_sym, rule apart_off [OF apart_mono [OF ap order_refl nk(1)]]) (use nk k in simp)
    have outside: "m' a = m a" if "\<not> unat (a - buf) < n" for a
      using memcpy_outside [OF ap2, of 0 a m] that k by (simp add: m'_def)
    have data: "m' (rf_data f + of_nat i) = m (rf_data f + of_nat i)" if "i < unat (rf_capacity f)" for i
    proof (rule outside)
      have "\<not> unat (rf_data f + of_nat i - buf) < unat cnt"
        by (rule apart_in [OF ap]) (use that unat_lt_64 [of "rf_capacity f"] in \<open>simp add: unat_of_nat_small\<close>)
      then show "\<not> unat (rf_data f + of_nat i - buf) < n" using nk by simp
    qed
    have "bytes_at m' buf n = take n (drop (unat off) (file_bytes s node))"
    proof (rule nth_equalityI)
      fix i assume "i < length (bytes_at m' buf n)"
      then have i: "i < n" by simp
      have il: "i + unat off < unat (v_size (vnodes s node))" using i assms(4) lf lt by (simp add: sz_def less_diff_conv)
      have "m' (buf + of_nat i) = m (rf_data f + off + of_nat i)"
        using memcpy_into [OF ap2, of 0 i m] i k unat_lt_64 [of k] by (simp add: m'_def)
      then show "bytes_at m' buf n ! i = take n (drop (unat off) (file_bytes s node)) ! i"
        using i il lf lt assms(4) by (simp add: nth_bytes_at file_bytes_def f_def sz_def m_def algebra_simps)
    qed (use assms(4) in simp)
    moreover have "rf_inv F B s' node"
      using assms(1) data by (simp add: rf_inv_def rf_block_def s'_def vfs_memory_def set_vfs_memory_def f_def m_def)
    moreover have "bytes_at m' (rf_data f) (unat sz) = bytes_at m (rf_data f) (unat sz)"
      by (rule bytes_at_eqI) (use data cap in simp)
    then have "file_bytes s' node = file_bytes s node"
      by (simp add: file_bytes_def s'_def vfs_memory_def set_vfs_memory_def f_def m_def sz_def)
    ultimately show ?thesis using run outside
      by (intro exI [of _ s']) (simp add: s'_def vfs_memory_def set_vfs_memory_def m_def)
  qed
qed

subsection \<open>Directories as lists\<close>

text \<open>\<open>siblings vs c cs\<close>: following \<^verbatim>\<open>next_sibling\<close> from \<open>c\<close> gives the nodes \<open>cs\<close> and ends at NULL.\<close>

fun siblings :: "(ptr \<Rightarrow> vnode) \<Rightarrow> ptr \<Rightarrow> ptr list \<Rightarrow> bool" where
  "siblings vs c [] \<longleftrightarrow> c = NULL"
| "siblings vs c (x # xs) \<longleftrightarrow> c = x \<and> x \<noteq> NULL \<and> siblings vs (v_next_sibling (vs x)) xs"

lemma siblings_cong:
  "(\<And>x. x \<in> set cs \<Longrightarrow> v_next_sibling (vs' x) = v_next_sibling (vs x)) \<Longrightarrow> siblings vs' c cs = siblings vs c cs"
  by (induction cs arbitrary: c) auto

lemma siblings_not_null: "siblings vs c cs \<Longrightarrow> NULL \<notin> set cs"
  by (induction cs arbitrary: c) auto

text \<open>Where an entry hangs: the directory's first-child field or the entry before it.\<close>

definition place :: "ptr \<Rightarrow> ptr list \<Rightarrow> ptr + ptr" where
  "place d xs = (if xs = [] then Inl d else Inr (last xs))"

lemma seek_child_from:
  "siblings vs (get_child l vs) (xs @ ys) \<Longrightarrow> (\<And>x. x \<in> set xs \<Longrightarrow> \<not> P x) \<Longrightarrow> (ys \<noteq> [] \<Longrightarrow> P (hd ys)) \<Longrightarrow>
   seek_child P l vs = Some (if xs = [] then l else Inr (last xs))"
proof (induction xs arbitrary: l)
  case Nil
  then show ?case by (cases ys) (auto simp: seek_child.simps [of P l vs])
next
  case (Cons x xs)
  then have "seek_child P (Inr x) vs = Some (if xs = [] then Inr x else Inr (last xs))"
    by (intro Cons.IH) (auto simp: get_child_def)
  moreover have "seek_child P l vs = seek_child P (Inr x) vs"
    using Cons.prems by (subst seek_child.simps) auto
  ultimately show ?case by simp
qed

lemma get_place:
  "siblings vs (v_first_child (vs d)) (xs @ ys) \<Longrightarrow> get_child (place d xs) vs = (case ys of [] \<Rightarrow> NULL | y # zs \<Rightarrow> y)"
proof -
  have "siblings vs c (xs @ ys) \<Longrightarrow> xs \<noteq> [] \<Longrightarrow> v_next_sibling (vs (last xs)) = (case ys of [] \<Rightarrow> NULL | y # zs \<Rightarrow> y)" for c
  proof (induction xs arbitrary: c)
    case (Cons x xs)
    then show ?case by (cases xs) (auto split: list.splits)
  qed simp
  then show "siblings vs (v_first_child (vs d)) (xs @ ys) \<Longrightarrow> ?thesis"
    by (cases xs) (auto simp: place_def get_child_def split: list.splits)
qed

text \<open>Splitting a list at the first element with a property.\<close>

lemma split_first: "\<exists>xs ys. zs = xs @ ys \<and> (\<forall>x \<in> set xs. \<not> P x) \<and> (ys \<noteq> [] \<longrightarrow> P (hd ys))"
proof (intro exI conjI)
  show "zs = takeWhile (\<lambda>x. \<not> P x) zs @ dropWhile (\<lambda>x. \<not> P x) zs" by simp
  show "\<forall>x \<in> set (takeWhile (\<lambda>x. \<not> P x) zs). \<not> P x" using set_takeWhileD by fast
  show "dropWhile (\<lambda>x. \<not> P x) zs \<noteq> [] \<longrightarrow> P (hd (dropWhile (\<lambda>x. \<not> P x) zs))" using hd_dropWhile by fast
qed

lemma seek_place:
  assumes "siblings vs (v_first_child (vs d)) (xs @ ys)" and "\<forall>x \<in> set xs. \<not> P x" and "ys \<noteq> [] \<longrightarrow> P (hd ys)"
  shows "seek_child P (Inl d) vs = Some (place d xs)"
  using seek_child_from [of vs "Inl d" xs ys P] assms by (simp add: get_child_def place_def)

lemma lookup_siblings:
  "siblings vs c cs \<Longrightarrow> ramfs_lookup_loop name c vs = Some (case find (\<lambda>x. v_name (vs x) = name) cs of None \<Rightarrow> NULL | Some x \<Rightarrow> x)"
proof (induction cs arbitrary: c)
  case Nil
  then show ?case by (subst ramfs_lookup_loop.simps) simp
next
  case (Cons x xs)
  then show ?case by (subst ramfs_lookup_loop.simps) auto
qed

lemma readdir_siblings:
  "siblings vs c cs \<Longrightarrow> ramfs_readdir_loop idx i c vs =
     Some (if idx \<le> i \<and> i < idx + int (length cs) then Some (node_name (v_name (vs (cs ! nat (i - idx))))) else None)"
proof (induction cs arbitrary: c idx)
  case Nil
  then show ?case by (subst ramfs_readdir_loop.simps) simp
next
  case (Cons x xs)
  have "nat (i - idx) = Suc (nat (i - (idx + 1)))" if "idx < i" using that by simp
  then show ?case using Cons by (subst ramfs_readdir_loop.simps) (auto simp: nth_Cons')
qed

lemma upd_node_simps [simp]:
  "vnodes (upd_node p f s) q = (if q = p then f (vnodes s p) else vnodes s q)"
  "vf_heap (upd_node p f s) = vf_heap s" "mounts (upd_node p f s) = mounts s" "vfs_memory (upd_node p f s) = vfs_memory s"
  by (simp_all add: upd_node_def vfs_memory_def)

lemma upd_node_rfiles [simp]: "rfiles (upd_node p f s) = rfiles s"
  by (simp add: upd_node_def)

lemma set_child_simps [simp]:
  "vf_heap (set_child l v s) = vf_heap s" "mounts (set_child l v s) = mounts s" "vfs_memory (set_child l v s) = vfs_memory s"
  "v_name (vnodes (set_child l v s) p) = v_name (vnodes s p)" "v_type (vnodes (set_child l v s) p) = v_type (vnodes s p)"
  "v_size (vnodes (set_child l v s) p) = v_size (vnodes s p)" "v_parent (vnodes (set_child l v s) p) = v_parent (vnodes s p)"
  "v_private_data (vnodes (set_child l v s) p) = v_private_data (vnodes s p)"
  "v_open_count (vnodes (set_child l v s) p) = v_open_count (vnodes s p)"
  "v_ops (vnodes (set_child l v s) p) = v_ops (vnodes s p)"
  by (auto simp: set_child_def vfs_memory_def split: sum.split)

lemma set_child_rfiles [simp]: "rfiles (set_child l v s) = rfiles s"
  by (simp add: set_child_def split: sum.split)

text \<open>Taking an entry out of a directory: the lists of all directories but the one it was in stay.\<close>

lemma siblings_cut:
  "siblings vs c (xs @ y # ys) \<Longrightarrow> distinct (xs @ y # ys) \<Longrightarrow> xs \<noteq> [] \<Longrightarrow>
   (\<And>x. v_next_sibling (vs' x) = (if x = last xs then v_next_sibling (vs y) else v_next_sibling (vs x))) \<Longrightarrow>
   siblings vs' c (xs @ ys)"
proof (induction xs arbitrary: c)
  case (Cons x xs)
  show ?case
  proof (cases "xs = []")
    case True
    have "siblings vs' (v_next_sibling (vs y)) ys = siblings vs (v_next_sibling (vs y)) ys"
      by (rule siblings_cong) (use Cons.prems True in auto)
    then show ?thesis using Cons.prems True by simp
  next
    case False
    then have "siblings vs' (v_next_sibling (vs x)) (xs @ ys)"
      using Cons.prems by (intro Cons.IH) auto
    moreover have "x \<noteq> last xs" using False Cons.prems(2) by auto
    ultimately show ?thesis using Cons.prems(1,4) False by simp
  qed
qed simp

lemma cut_dir:
  assumes "siblings (vnodes s) (v_first_child (vnodes s d)) (xs @ y # ys)" and "distinct (xs @ y # ys)"
    and "s' = set_child (place d xs) (v_next_sibling (vnodes s y)) s"
  shows "siblings (vnodes s') (v_first_child (vnodes s' d)) (xs @ ys)"
proof (cases "xs = []")
  case True
  have "siblings (vnodes s') c ys = siblings (vnodes s) c ys" for c
    by (rule siblings_cong) (simp add: assms(3) True place_def set_child_def)
  then show ?thesis using assms(1,3) True by (simp add: place_def set_child_def)
next
  case False
  have "siblings (vnodes s') (v_first_child (vnodes s d)) (xs @ ys)"
    by (rule siblings_cut [OF assms(1,2) False]) (use False in \<open>simp add: assms(3) place_def set_child_def\<close>)
  moreover have "v_first_child (vnodes s' d) = v_first_child (vnodes s d)"
    using False by (simp add: assms(3) place_def set_child_def)
  ultimately show ?thesis by simp
qed

subsection \<open>The invariant of the file system\<close>

text \<open>\<open>dir_ok L cs s d\<close>: \<open>cs\<close> is the chain of entries of \<open>d\<close> in the store, without repetition, of live nodes
  whose parent is \<open>d\<close> and whose names differ; only directories have entries.\<close>

definition dir_ok :: "ptr set \<Rightarrow> ptr list \<Rightarrow> 'a vfs_state_scheme \<Rightarrow> ptr \<Rightarrow> bool" where
  "dir_ok L cs s d \<longleftrightarrow> siblings (vnodes s) (v_first_child (vnodes s d)) cs \<and> distinct cs \<and> set cs \<subseteq> L \<and>
     (\<forall>c \<in> set cs. v_parent (vnodes s c) = d) \<and> distinct (map (\<lambda>c. v_name (vnodes s c)) cs) \<and>
     (v_type (vnodes s d) \<noteq> VNODE_DIR \<longrightarrow> cs = [])"

text \<open>\<open>tree_inv L D s\<close>: \<open>L\<close> are the live nodes and \<open>D\<close> lists the entries of each; no node is in two lists.\<close>

definition tree_inv :: "ptr set \<Rightarrow> (ptr \<Rightarrow> ptr list) \<Rightarrow> 'a vfs_state_scheme \<Rightarrow> bool" where
  "tree_inv L D s \<longleftrightarrow> NULL \<notin> L \<and> (\<forall>d \<in> L. dir_ok L (D d) s d) \<and>
     (\<forall>d \<in> L. \<forall>e \<in> L. d \<noteq> e \<longrightarrow> set (D d) \<inter> set (D e) = {})"

text \<open>\<open>file_inv F B L s\<close>: every live node and the structures of every file are heap blocks of their size,
  all different.\<close>

definition files :: "ptr set \<Rightarrow> 'a vfs_state_scheme \<Rightarrow> ptr set" where
  "files L s = {n \<in> L. v_type (vnodes s n) = VNODE_FILE}"

definition rf_of :: "'a vfs_state_scheme \<Rightarrow> ptr \<Rightarrow> ptr" where
  "rf_of s n = v_private_data (vnodes s n)"

definition data_of :: "'a ramfs_state_scheme \<Rightarrow> ptr \<Rightarrow> ptr" where
  "data_of s n = rf_data (rfiles s (rf_of s n))"

definition file_ok :: "(ptr \<rightharpoonup> u64) \<Rightarrow> ptr set \<Rightarrow> 'a ramfs_state_scheme \<Rightarrow> ptr \<Rightarrow> bool" where
  "file_ok B L s n \<longleftrightarrow> rf_of s n \<noteq> NULL \<and> B (rf_of s n) = Some RAMFS_FILE_SIZE \<and>
     rf_block B (rfiles s (rf_of s n)) (v_size (vnodes s n)) (vfs_memory s) \<and> data_of s n \<notin> L"

definition files_apart :: "ptr set \<Rightarrow> 'a ramfs_state_scheme \<Rightarrow> bool" where
  "files_apart N s \<longleftrightarrow> (\<forall>n \<in> N. \<forall>k \<in> N. data_of s n \<noteq> rf_of s k \<and>
     (n \<noteq> k \<longrightarrow> rf_of s n \<noteq> rf_of s k \<and> (data_of s n \<noteq> NULL \<longrightarrow> data_of s n \<noteq> data_of s k)))"

definition file_inv :: "(ptr \<rightharpoonup> u64) \<Rightarrow> (ptr \<rightharpoonup> u64) \<Rightarrow> ptr set \<Rightarrow> 'a ramfs_state_scheme \<Rightarrow> bool" where
  "file_inv F B L s \<longleftrightarrow> heap_inv F B (vf_heap s) \<and> (\<forall>n \<in> L. B n = Some VNODE_SIZE) \<and>
     (\<forall>n \<in> files L s. file_ok B L s n) \<and> files_apart (files L s) s"

definition ramfs_inv :: "(ptr \<rightharpoonup> u64) \<Rightarrow> (ptr \<rightharpoonup> u64) \<Rightarrow> ptr set \<Rightarrow> (ptr \<Rightarrow> ptr list) \<Rightarrow> 'a ramfs_state_scheme \<Rightarrow> bool" where
  "ramfs_inv F B L D s \<longleftrightarrow> tree_inv L D s \<and> file_inv F B L s"

text \<open>An entry of a directory, by name.\<close>

definition entry :: "'a vfs_state_scheme \<Rightarrow> ptr list \<Rightarrow> string \<Rightarrow> ptr" where
  "entry s cs name = (case find (\<lambda>c. v_name (vnodes s c) = name) cs of None \<Rightarrow> NULL | Some c \<Rightarrow> c)"

lemma entry_null: "NULL \<notin> set cs \<Longrightarrow> entry s cs name = NULL \<longleftrightarrow> name \<notin> (\<lambda>c. v_name (vnodes s c)) ` set cs"
  by (auto simp: entry_def find_None_iff find_Some_iff split: option.split) (metis nth_mem)

lemma entry_in: "entry s cs name \<noteq> NULL \<Longrightarrow> entry s cs name \<in> set cs"
proof (cases "find (\<lambda>c. v_name (vnodes s c) = name) cs")
  case (Some c)
  then have "c \<in> set cs" by (auto simp: find_Some_iff)
  with Some show "entry s cs name \<in> set cs" by (simp add: entry_def)
qed (simp add: entry_def)

lemma tree_inv_dir: "tree_inv L D s \<Longrightarrow> d \<in> L \<Longrightarrow> dir_ok L (D d) s d"
  by (simp add: tree_inv_def)

lemma ramfs_lookup_entry:
  assumes "tree_inv L D s" and "d \<in> L"
  shows "ramfs_lookup d name s = Some (entry s (D d) name, s)"
  using tree_inv_dir [OF assms] lookup_siblings [of "vnodes s" "v_first_child (vnodes s d)" "D d" name]
  by (simp add: ramfs_lookup_def entry_def dir_ok_def)

lemma dir_ok_cong:
  assumes "dir_ok L cs s d" and "set cs \<subseteq> L'" and "v_first_child (vnodes s' d) = v_first_child (vnodes s d)"
    and "v_type (vnodes s' d) = v_type (vnodes s d)"
    and "\<And>n. n \<in> set cs \<Longrightarrow> v_next_sibling (vnodes s' n) = v_next_sibling (vnodes s n) \<and>
      v_parent (vnodes s' n) = v_parent (vnodes s n) \<and> v_name (vnodes s' n) = v_name (vnodes s n)"
  shows "dir_ok L' cs s' d"
proof -
  have "siblings (vnodes s') c cs = siblings (vnodes s) c cs" for c
    by (rule siblings_cong) (use assms(5) in simp)
  moreover have "distinct (map (\<lambda>c. v_name (vnodes s' c)) cs) = distinct (map (\<lambda>c. v_name (vnodes s c)) cs)"
    by (rule arg_cong [where f = distinct], rule map_cong) (use assms(5) in simp_all)
  ultimately show ?thesis using assms by (simp add: dir_ok_def)
qed

lemma dir_ok_cons:
  assumes "dir_ok L cs s d" and "v_type (vnodes s d) = VNODE_DIR" and "n \<notin> set cs" and "n \<noteq> NULL" and "insert n L = L'"
    and "v_name (vnodes s' n) \<notin> (\<lambda>c. v_name (vnodes s c)) ` set cs" and "v_parent (vnodes s' n) = d"
    and "v_first_child (vnodes s' d) = n" and "v_next_sibling (vnodes s' n) = v_first_child (vnodes s d)"
    and "v_type (vnodes s' d) = VNODE_DIR"
    and "\<And>k. k \<in> set cs \<Longrightarrow> v_next_sibling (vnodes s' k) = v_next_sibling (vnodes s k) \<and>
      v_parent (vnodes s' k) = v_parent (vnodes s k) \<and> v_name (vnodes s' k) = v_name (vnodes s k)"
  shows "dir_ok L' (n # cs) s' d"
proof -
  have "siblings (vnodes s') c cs = siblings (vnodes s) c cs" for c
    by (rule siblings_cong) (use assms(11) in simp)
  moreover have "distinct (map (\<lambda>c. v_name (vnodes s' c)) cs) = distinct (map (\<lambda>c. v_name (vnodes s c)) cs)"
    by (rule arg_cong [where f = distinct], rule map_cong) (use assms(11) in simp_all)
  moreover have "v_name (vnodes s' n) \<notin> (\<lambda>c. v_name (vnodes s' c)) ` set cs" using assms(6,11) by auto
  moreover have "\<forall>c \<in> set cs. v_parent (vnodes s' c) = d" using assms(1,11) by (simp add: dir_ok_def)
  ultimately show ?thesis using assms(1-5,7-10) by (auto simp: dir_ok_def)
qed

text \<open>A new node at the front of a directory.\<close>

lemma tree_inv_insert:
  assumes "tree_inv L D s" and "d \<in> L" and "v_type (vnodes s d) = VNODE_DIR" and "n \<notin> L" and "n \<noteq> NULL"
    and "v_name (vnodes s' n) \<notin> (\<lambda>c. v_name (vnodes s c)) ` set (D d)"
    and "\<And>k. k \<noteq> n \<Longrightarrow> k \<noteq> d \<Longrightarrow> vnodes s' k = vnodes s k" and "vnodes s' d = (vnodes s d)\<lparr>v_first_child := n\<rparr>"
    and "v_first_child (vnodes s' n) = NULL" and "v_parent (vnodes s' n) = d"
    and "v_next_sibling (vnodes s' n) = v_first_child (vnodes s d)"
  shows "tree_inv (insert n L) (D(d := n # D d, n := [])) s'"
proof -
  let ?D = "D(d := n # D d, n := [])"
  have nd: "n \<noteq> d" using assms(2,4) by auto
  have old: "v_next_sibling (vnodes s' k) = v_next_sibling (vnodes s k) \<and> v_parent (vnodes s' k) = v_parent (vnodes s k) \<and>
      v_name (vnodes s' k) = v_name (vnodes s k)" if "k \<in> L" for k
  proof -
    have "k \<noteq> n" using that assms(4) by auto
    then show ?thesis using assms(7) [of k] assms(8) by (cases "k = d") simp_all
  qed
  have sub: "set (D e) \<subseteq> L" if "e \<in> L" for e using tree_inv_dir [OF assms(1) that] by (simp add: dir_ok_def)
  have "dir_ok (insert n L) (?D e) s' e" if "e \<in> insert n L" for e
  proof (cases "e = n \<or> e = d")
    case False
    then have e: "e \<in> L" and ns: "vnodes s' e = vnodes s e" using that assms(7) by auto
    have "dir_ok (insert n L) (D e) s' e"
      by (rule dir_ok_cong [OF tree_inv_dir [OF assms(1) e]]) (use sub [OF e] old ns in auto)
    then show ?thesis using False by simp
  next
    case True
    have "dir_ok (insert n L) [] s' n" using assms(9) by (simp add: dir_ok_def)
    moreover have "dir_ok (insert n L) (n # D d) s' d"
      by (rule dir_ok_cons [OF tree_inv_dir [OF assms(1,2)] assms(3) _ assms(5) refl assms(6,10) _ assms(11)])
        (use sub [OF assms(2)] assms(3,4,8) old in auto)
    ultimately show ?thesis using True nd by auto
  qed
  moreover have "set (?D e) \<inter> set (?D e') = {}" if "e \<in> insert n L" "e' \<in> insert n L" "e \<noteq> e'" for e e'
  proof -
    have "set (D e) \<inter> set (D e') = {}" if "e \<in> L" "e' \<in> L" using assms(1) that \<open>e \<noteq> e'\<close> by (simp add: tree_inv_def)
    moreover have "n \<notin> set (D e)" if "e \<in> L" for e using sub [OF that] assms(4) by auto
    ultimately show ?thesis using that assms(2) by auto
  qed
  moreover have "NULL \<notin> insert n L" using assms(1,5) by (simp add: tree_inv_def)
  ultimately show ?thesis unfolding tree_inv_def by blast
qed

text \<open>An entry taken out of a directory.\<close>

lemma tree_inv_remove:
  assumes "tree_inv L D s" and "d \<in> L" and "D d = xs @ y # ys"
    and "s1 = set_child (place d xs) (v_next_sibling (vnodes s y)) s"
    and "\<And>k. k \<noteq> y \<Longrightarrow> vnodes s' k = vnodes s1 k" and "v_first_child (vnodes s' y) = v_first_child (vnodes s1 y)"
    and "v_type (vnodes s' y) = v_type (vnodes s1 y)"
  shows "tree_inv L (D(d := xs @ ys)) s'"
proof -
  have dok: "dir_ok L (xs @ y # ys) s d" using tree_inv_dir [OF assms(1,2)] assms(3) by simp
  have dist: "distinct (xs @ y # ys)" using dok by (simp add: dir_ok_def)
  have sub: "set (D e) \<subseteq> L" if "e \<in> L" for e using tree_inv_dir [OF assms(1) that] by (simp add: dir_ok_def)
  have dj: "set (D e) \<inter> set (D e') = {}" if "e \<in> L" "e' \<in> L" "e \<noteq> e'" for e e'
    using assms(1) that by (simp add: tree_inv_def)
  have same: "v_parent (vnodes s' k) = v_parent (vnodes s k)" "v_name (vnodes s' k) = v_name (vnodes s k)" if "k \<noteq> y" for k
    using assms(4,5) that by simp_all
  have ty: "v_type (vnodes s' k) = v_type (vnodes s k)" for k using assms(4,5,7) by (cases "k = y") simp_all
  have sib_d: "siblings (vnodes s1) (v_first_child (vnodes s1 d)) (xs @ ys)"
    by (rule cut_dir [OF _ dist assms(4)]) (use dok in \<open>simp add: dir_ok_def\<close>)
  have fc: "v_first_child (vnodes s' k) = v_first_child (vnodes s1 k)" for k using assms(5,6) by (cases "k = y") simp_all
  have "dir_ok L (xs @ ys) s' d"
  proof -
    have "siblings (vnodes s') c (xs @ ys) = siblings (vnodes s1) c (xs @ ys)" for c
      by (rule siblings_cong, subst assms(5)) (use dist in auto)
    moreover have "distinct (map (\<lambda>c. v_name (vnodes s' c)) (xs @ ys)) = distinct (map (\<lambda>c. v_name (vnodes s c)) (xs @ ys))"
      by (rule arg_cong [where f = distinct], rule map_cong [OF refl], rule same(2)) (use dist in auto)
    moreover have "\<forall>c \<in> set (xs @ ys). v_parent (vnodes s' c) = d"
      by (rule ballI, subst same(1)) (use dist dok in \<open>auto simp: dir_ok_def\<close>)
    ultimately show ?thesis using sib_d dok ty [of d] fc [of d] unfolding dir_ok_def by auto
  qed
  moreover have "dir_ok L (D e) s' e" if e: "e \<in> L" "e \<noteq> d" for e
  proof (rule dir_ok_cong [OF tree_inv_dir [OF assms(1) e(1)] sub [OF e(1)] _ ty])
    show "v_first_child (vnodes s' e) = v_first_child (vnodes s e)"
      using fc [of e] e(2) assms(4) by (auto simp: place_def set_child_def)
    fix k assume k: "k \<in> set (D e)"
    then have "k \<notin> set (D d)" using dj [OF e(1) assms(2) e(2)] by auto
    then have k': "k \<noteq> y" "xs = [] \<or> k \<noteq> last xs" using assms(3) by auto
    from k'(2) have "v_next_sibling (vnodes s1 k) = v_next_sibling (vnodes s k)"
      unfolding assms(4) place_def set_child_def by (cases "xs = []") simp_all
    then show "v_next_sibling (vnodes s' k) = v_next_sibling (vnodes s k) \<and> v_parent (vnodes s' k) = v_parent (vnodes s k) \<and>
        v_name (vnodes s' k) = v_name (vnodes s k)"
      using same [OF k'(1)] assms(5) [OF k'(1)] by simp
  qed
  moreover have "set ((D(d := xs @ ys)) e) \<inter> set ((D(d := xs @ ys)) e') = {}" if "e \<in> L" "e' \<in> L" "e \<noteq> e'" for e e'
    using dj [OF that] assms(3) by auto
  moreover have "NULL \<notin> L" using assms(1) by (simp add: tree_inv_def)
  ultimately show ?thesis unfolding tree_inv_def by auto
qed

lemma file_ok_cong:
  assumes "file_ok B L s n" and "v_private_data (vnodes s' n) = v_private_data (vnodes s n)" and "v_size (vnodes s' n) = v_size (vnodes s n)"
    and "rfiles s' (rf_of s n) = rfiles s (rf_of s n)" and "vfs_memory s' = vfs_memory s"
    and "B' (rf_of s n) = B (rf_of s n)" and "data_of s n \<noteq> NULL \<Longrightarrow> B' (data_of s n) = B (data_of s n)" and "data_of s n \<notin> L'"
  shows "file_ok B' L' s' n"
proof -
  have "rf_of s' n = rf_of s n" "data_of s' n = data_of s n" using assms(2,4) by (simp_all add: rf_of_def data_of_def)
  then show ?thesis using assms by (simp add: file_ok_def rf_block_def data_of_def)
qed

lemma files_apart_cong:
  assumes "files_apart N s" and "\<And>n. n \<in> N \<Longrightarrow> rf_of s' n = rf_of s n \<and> data_of s' n = data_of s n" and "N' \<subseteq> N"
  shows "files_apart N' s'"
  using assms unfolding files_apart_def by (metis subsetD)

text \<open>The addresses of the structures of the files are those of live blocks.\<close>

lemma file_blocks:
  assumes "file_inv F B L s" and "n \<in> files L s"
  shows "B (rf_of s n) = Some RAMFS_FILE_SIZE" and "data_of s n \<noteq> NULL \<Longrightarrow> B (data_of s n) \<noteq> None" and "rf_of s n \<notin> L"
proof -
  have f: "file_ok B L s n" using assms by (simp add: file_inv_def)
  then show rf: "B (rf_of s n) = Some RAMFS_FILE_SIZE" by (simp add: file_ok_def)
  show "data_of s n \<noteq> NULL \<Longrightarrow> B (data_of s n) \<noteq> None" using f by (simp add: file_ok_def rf_block_def data_of_def)
  show "rf_of s n \<notin> L" using assms(1) rf by (auto simp: file_inv_def VNODE_SIZE_def RAMFS_FILE_SIZE_def)
qed

subsection \<open>Making an entry\<close>

lemma vf_kmalloc_cases:
  assumes "heap_inv F B (vf_heap s)"
  obtains (null) "vf_kmalloc n s = Some (NULL, s)"
    | (block) p h where "vf_kmalloc n s = Some (p, s\<lparr>vf_heap := h\<rparr>)" "p \<noteq> NULL" "B p = None" "heap_inv F (B(p \<mapsto> n)) h"
        "hmem h = hmem (vf_heap s)"
  using assms
proof (cases rule: kmalloc_cases [where n = n])
  case null
  with that(1) show thesis by (simp add: vf_kmalloc_def)
next
  case (block p h)
  with that(2) show thesis by (simp add: vf_kmalloc_def)
qed

lemma vf_kfree_inv:
  assumes "heap_inv F B (vf_heap s)" and "B p = Some n"
  shows "\<exists>h. vf_kfree p s = Some (s\<lparr>vf_heap := h\<rparr>) \<and> heap_inv F (B(p := None)) h \<and> hmem h = hmem (vf_heap s)"
  using kfree_inv [OF assms] by (auto simp: vf_kfree_def)

text \<open>Adding a node whose structures are fresh blocks.\<close>

lemma file_inv_insert:
  assumes "file_inv F B L s" and "NULL \<notin> L" and "heap_inv F B' (vf_heap s')" and "vfs_memory s' = vfs_memory s"
    and "\<And>p. B p \<noteq> None \<Longrightarrow> B' p = B p" and "B n = None" and "B' n = Some VNODE_SIZE"
    and "\<And>k. k \<in> L \<Longrightarrow> v_type (vnodes s' k) = v_type (vnodes s k) \<and> v_size (vnodes s' k) = v_size (vnodes s k) \<and>
      v_private_data (vnodes s' k) = v_private_data (vnodes s k)"
    and "\<And>r. B r \<noteq> None \<Longrightarrow> rfiles s' r = rfiles s r"
    and "v_type (vnodes s' n) = VNODE_FILE \<Longrightarrow> rf_of s' n \<noteq> NULL \<and> B (rf_of s' n) = None \<and> rf_of s' n \<noteq> n \<and>
      B' (rf_of s' n) = Some RAMFS_FILE_SIZE \<and> rfiles s' (rf_of s' n) = \<lparr>rf_data = NULL, rf_capacity = 0\<rparr> \<and> v_size (vnodes s' n) = 0"
    and "n \<noteq> NULL"
  shows "file_inv F B' (insert n L) s'"
proof -
  have nL: "n \<notin> L" using assms(1,6) by (auto simp: file_inv_def)
  have rfd: "rf_of s' k = rf_of s k \<and> data_of s' k = data_of s k" if k: "k \<in> files L s" for k
  proof -
    have "k \<in> L" using k by (simp add: files_def)
    then have "rf_of s' k = rf_of s k" using assms(8) by (simp add: rf_of_def)
    moreover have "B (rf_of s k) \<noteq> None" using file_blocks(1) [OF assms(1) k] by simp
    ultimately show ?thesis using assms(9) by (simp add: data_of_def)
  qed
  have fL: "files L s' = files L s" using assms(8) by (auto simp: files_def)
  have old: "file_ok B' (insert n L) s' k" if k: "k \<in> files L s" for k
  proof (rule file_ok_cong)
    show "file_ok B L s k" using assms(1) k by (simp add: file_inv_def)
    have kl: "k \<in> L" using k by (simp add: files_def)
    show "v_private_data (vnodes s' k) = v_private_data (vnodes s k)" "v_size (vnodes s' k) = v_size (vnodes s k)"
      using assms(8) [OF kl] by simp_all
    have b: "B (rf_of s k) \<noteq> None" using file_blocks(1) [OF assms(1) k] by simp
    show "rfiles s' (rf_of s k) = rfiles s (rf_of s k)" by (rule assms(9) [OF b])
    show "B' (rf_of s k) = B (rf_of s k)" by (rule assms(5) [OF b])
    show "data_of s k \<noteq> NULL \<Longrightarrow> B' (data_of s k) = B (data_of s k)"
      using file_blocks(2) [OF assms(1) k] assms(5) by blast
    show "data_of s k \<notin> insert n L"
      using \<open>file_ok B L s k\<close> file_blocks(2) [OF assms(1) k] assms(6,11) by (auto simp: file_ok_def)
    show "vfs_memory s' = vfs_memory s" by (rule assms(4))
  qed
  show ?thesis
  proof (cases "v_type (vnodes s' n) = VNODE_FILE")
    case False
    then have "files (insert n L) s' = files L s" using fL nL by (auto simp: files_def)
    moreover have "files_apart (files L s) s'"
      by (rule files_apart_cong [OF _ rfd]) (use assms(1) in \<open>auto simp: file_inv_def\<close>)
    moreover have "\<forall>k \<in> insert n L. B' k = Some VNODE_SIZE" using assms(1,5,7) by (auto simp: file_inv_def)
    ultimately show ?thesis using old assms(3) by (simp add: file_inv_def)
  next
    case True
    note new = assms(10) [OF True]
    have fs: "files (insert n L) s' = insert n (files L s)" using True fL by (auto simp: files_def)
    have dn: "data_of s' n = NULL" using new by (simp add: data_of_def)
    then have "file_ok B' (insert n L) s' n" using new assms(2,11) by (simp add: file_ok_def rf_block_def)
    moreover have "files_apart (insert n (files L s)) s'"
    proof -
      have ap: "files_apart (files L s) s'"
        by (rule files_apart_cong [OF _ rfd]) (use assms(1) in \<open>auto simp: file_inv_def\<close>)
      have "rf_of s' n \<noteq> rf_of s' k \<and> data_of s' k \<noteq> rf_of s' n \<and> rf_of s' k \<noteq> NULL" if k: "k \<in> files L s" for k
        using new rfd [OF k] file_blocks(1,2) [OF assms(1) k] assms(1) k by (auto simp: file_inv_def file_ok_def)
      then show ?thesis using ap dn new unfolding files_apart_def by (metis insert_iff)
    qed
    moreover have "\<forall>k \<in> insert n L. B' k = Some VNODE_SIZE" using assms(1,5,7) by (auto simp: file_inv_def)
    ultimately show ?thesis using old assms(3) fs by (simp add: file_inv_def)
  qed
qed

text \<open>States that differ only outside the tree.\<close>

lemma ramfs_inv_cong:
  assumes "ramfs_inv F B L D s" and "\<And>k. k \<in> L \<Longrightarrow> vnodes s' k = vnodes s k" and "rfiles s' = rfiles s"
    and "vfs_memory s' = vfs_memory s" and "heap_inv F B (vf_heap s')"
  shows "ramfs_inv F B L D s'"
proof -
  have t: "tree_inv L D s" and f: "file_inv F B L s" using assms(1) by (simp_all add: ramfs_inv_def)
  have "dir_ok L (D d) s' d" if "d \<in> L" for d
  proof -
    have "set (D d) \<subseteq> L" using tree_inv_dir [OF t that] by (simp add: dir_ok_def)
    then show ?thesis by (intro dir_ok_cong [OF tree_inv_dir [OF t that]]) (use assms(2) that in auto)
  qed
  then have "tree_inv L D s'" using t by (simp add: tree_inv_def)
  moreover have rd: "rf_of s' k = rf_of s k \<and> data_of s' k = data_of s k" if "k \<in> L" for k
    using assms(2,3) that by (simp add: rf_of_def data_of_def)
  have fs: "files L s' = files L s" using assms(2) by (auto simp: files_def)
  have "file_ok B L s' k" if "k \<in> files L s" for k
  proof (rule file_ok_cong)
    show "file_ok B L s k" using f that by (simp add: file_inv_def)
    then show "data_of s k \<notin> L" by (simp add: file_ok_def)
  qed (use assms(2-4) that in \<open>simp_all add: files_def\<close>)
  moreover have "files_apart (files L s) s'"
    by (rule files_apart_cong [of "files L s" s]) (use f rd in \<open>auto simp: file_inv_def files_def\<close>)
  ultimately show ?thesis using f assms(5) fs by (simp add: ramfs_inv_def file_inv_def)
qed

lemma node_name_id: "length name < VFS_NAME_MAX \<Longrightarrow> node_name name = name"
  by (simp add: node_name_def)

text \<open>What making an entry promises: nothing happened to the tree, or a new empty node heads the directory's list.\<close>

definition created :: "(ptr \<rightharpoonup> u64) \<Rightarrow> (ptr \<rightharpoonup> u64) \<Rightarrow> (ptr \<rightharpoonup> u64) \<Rightarrow> ptr set \<Rightarrow> (ptr \<Rightarrow> ptr list) \<Rightarrow> ptr \<Rightarrow> string \<Rightarrow> vnode_type \<Rightarrow>
    'a ramfs_state_scheme \<Rightarrow> ptr \<Rightarrow> 'a ramfs_state_scheme \<Rightarrow> bool" where
  "created F B B' L D d name ty s p s' \<longleftrightarrow>
     (if p = NULL then B' = B \<and> ramfs_inv F B L D s' \<and> (\<forall>k \<in> L. vnodes s' k = vnodes s k)
      else p \<notin> L \<and> ramfs_inv F B' (insert p L) (D(d := p # D d, p := [])) s' \<and> v_name (vnodes s' p) = name \<and> v_type (vnodes s' p) = ty \<and>
        v_size (vnodes s' p) = 0 \<and> (\<forall>k \<in> L - {d}. vnodes s' k = vnodes s k) \<and> vnodes s' d = (vnodes s d)\<lparr>v_first_child := p\<rparr>)"

lemma created_link:
  assumes "tree_inv L D s" and "d \<in> L" and "v_type (vnodes s d) = VNODE_DIR" and "name \<notin> (\<lambda>c. v_name (vnodes s c)) ` set (D d)"
    and "n \<notin> L" and "n \<noteq> NULL" and "\<And>k. k \<noteq> n \<Longrightarrow> vnodes z k = vnodes s k"
    and "v_name (vnodes z n) = name" and "v_type (vnodes z n) = ty" and "v_size (vnodes z n) = 0"
    and "v_parent (vnodes z n) = d" and "v_first_child (vnodes z n) = NULL"
    and "z' = upd_node d (\<lambda>v. v\<lparr>v_first_child := n\<rparr>) (upd_node n (\<lambda>v. v\<lparr>v_next_sibling := v_first_child (vnodes z d)\<rparr>) z)"
    and "file_inv F B' (insert n L) z'"
  shows "created F B B' L D d name ty s n z'"
proof -
  have nd: "n \<noteq> d" using assms(2,5) by auto
  have zn: "vnodes z' n = (vnodes z n)\<lparr>v_next_sibling := v_first_child (vnodes s d)\<rparr>"
    and zd: "vnodes z' d = (vnodes s d)\<lparr>v_first_child := n\<rparr>" and zk: "\<And>k. k \<noteq> n \<Longrightarrow> k \<noteq> d \<Longrightarrow> vnodes z' k = vnodes s k"
    using assms(7) nd by (auto simp: assms(13))
  have "tree_inv (insert n L) (D(d := n # D d, n := [])) z'"
    by (rule tree_inv_insert [OF assms(1-3,5,6)]) (use zn zd zk assms(4,8,11,12) in simp_all)
  moreover have "\<forall>k \<in> L - {d}. vnodes z' k = vnodes s k"
    by (rule ballI, rule zk) (use assms(5) in auto)
  ultimately show ?thesis using assms(5,6,8-10,14) zn zd by (simp add: created_def ramfs_inv_def)
qed

lemma ramfs_create_spec:
  assumes "ramfs_inv F B L D s" and "d \<in> L" and "v_type (vnodes s d) = VNODE_DIR" and "length name < VFS_NAME_MAX"
    and "entry s (D d) name = NULL"
  shows "\<exists>p s' B'. ramfs_create d name ty s = Some (p, s') \<and> created F B B' L D d name ty s p s'"
proof -
  have t: "tree_inv L D s" and f: "file_inv F B L s" using assms(1) by (simp_all add: ramfs_inv_def)
  have hi: "heap_inv F B (vf_heap s)" and nL: "NULL \<notin> L" using t f by (simp_all add: tree_inv_def file_inv_def)
  have lk: "ramfs_lookup d name s = Some (NULL, s)" using ramfs_lookup_entry [OF t assms(2), of name] assms(5) by simp
  have nn: "NULL \<notin> set (D d)" using tree_inv_dir [OF t assms(2)] nL by (auto simp: dir_ok_def)
  have fresh_name: "name \<notin> (\<lambda>c. v_name (vnodes s c)) ` set (D d)" using assms(5) by (simp only: entry_null [OF nn] simp_thms)
  define V where "V = vnode_zero\<lparr>v_name := name, v_type := ty, v_ops := Some RAMFS_OPS, v_parent := d\<rparr>"
  have V: "v_name V = name" "v_type V = ty" "v_size V = 0" "v_parent V = d" "v_first_child V = NULL"
    by (simp_all add: V_def vnode_zero_def)
  show ?thesis using hi
  proof (cases rule: vf_kmalloc_cases [where n = VNODE_SIZE])
    case null
    then have "ramfs_create d name ty s = Some (NULL, s)" using lk by (simp add: ramfs_create_def)
    then show ?thesis using assms(1) by (intro exI [of _ NULL] exI [of _ s] exI [of _ B]) (simp add: created_def)
  next
    case (block n h)
    define B1 where "B1 = B(n \<mapsto> VNODE_SIZE)"
    define s2 where "s2 = upd_node n (\<lambda>_. V) (s\<lparr>vf_heap := h\<rparr>)"
    have nl: "n \<notin> L" using f block(3) by (auto simp: file_inv_def)
    then have nd: "n \<noteq> d" using assms(2) by auto
    have h2: "heap_inv F B1 (vf_heap s2)" using block(4) by (simp add: B1_def s2_def)
    have s2: "\<And>k. k \<noteq> n \<Longrightarrow> vnodes s2 k = vnodes s k" "vnodes s2 n = V" "vfs_memory s2 = vfs_memory s" "rfiles s2 = rfiles s"
      using block(5) by (simp_all add: s2_def vfs_memory_def)
    have s2L: "vnodes s2 k = vnodes s k" if "k \<in> L" for k by (rule s2(1)) (use that nl in auto)
    define link where "link z = upd_node d (\<lambda>v. v\<lparr>v_first_child := n\<rparr>)
        (upd_node n (\<lambda>v. v\<lparr>v_next_sibling := v_first_child (vnodes z d)\<rparr>) z)" for z :: "'a ramfs_state_scheme"
    have link: "rfiles (link z) = rfiles z" "vf_heap (link z) = vf_heap z" "vfs_memory (link z) = vfs_memory z"
        "v_type (vnodes (link z) k) = v_type (vnodes z k)" "v_size (vnodes (link z) k) = v_size (vnodes z k)"
        "v_private_data (vnodes (link z) k) = v_private_data (vnodes z k)" for z k
      by (auto simp: link_def)
    have run: "ramfs_create d name ty s =
        do { (ok, s3) \<leftarrow> (if ty = VNODE_FILE
                          then do { (rf, s') \<leftarrow> vf_kmalloc RAMFS_FILE_SIZE s2;
                                    if rf = NULL then do { s'' \<leftarrow> vf_kfree n s'; Some (False, s'') }
                                    else Some (True, upd_node n (\<lambda>v. v\<lparr>v_private_data := rf, v_size := 0\<rparr>)
                                           (s'\<lparr>rfiles := (rfiles s')(rf := \<lparr>rf_data = NULL, rf_capacity = 0\<rparr>)\<rparr>)) }
                          else Some (True, s2));
             if \<not> ok then Some (NULL, s3) else Some (n, link s3) }"
      unfolding link_def ramfs_create_def Let_def node_name_id [OF assms(4)] s2_def V_def using lk block(1,2) by simp
    note cl = created_link [OF t assms(2,3) fresh_name nl block(2)]
    show ?thesis
    proof (cases "ty = VNODE_FILE")
      case False
      have "file_inv F B1 (insert n L) (link s2)"
      proof (rule file_inv_insert [OF f nL])
        show "v_type (vnodes (link s2) k) = v_type (vnodes s k) \<and> v_size (vnodes (link s2) k) = v_size (vnodes s k) \<and>
            v_private_data (vnodes (link s2) k) = v_private_data (vnodes s k)" if "k \<in> L" for k
          using s2L [OF that] by (simp add: link)
      qed (use h2 block s2 V False in \<open>auto simp: link B1_def\<close>)
      then have "created F B B1 L D d name ty s n (link s2)"
        by (intro cl [of s2]) (simp_all add: s2 V link_def)
      then show ?thesis using run False by auto
    next
      case True
      show ?thesis using h2
      proof (cases rule: vf_kmalloc_cases [where n = RAMFS_FILE_SIZE])
        case null
        have "B1 n = Some VNODE_SIZE" by (simp add: B1_def)
        from vf_kfree_inv [OF h2 this] obtain h3 where h3: "vf_kfree n s2 = Some (s2\<lparr>vf_heap := h3\<rparr>)"
          "heap_inv F (B1(n := None)) h3" "hmem h3 = hmem (vf_heap s2)" by blast
        have "B1(n := None) = B" using block(3) by (auto simp: B1_def)
        then have "ramfs_inv F B L D (s2\<lparr>vf_heap := h3\<rparr>)"
          by (intro ramfs_inv_cong [OF assms(1)]) (use h3 s2 s2L in \<open>simp_all add: vfs_memory_def\<close>)
        moreover have "ramfs_create d name ty s = Some (NULL, s2\<lparr>vf_heap := h3\<rparr>)" using run True null h3(1) by simp
        moreover have "\<forall>k \<in> L. vnodes (s2\<lparr>vf_heap := h3\<rparr>) k = vnodes s k" using s2L by simp
        ultimately show ?thesis
          by (intro exI [of _ NULL] exI [of _ "s2\<lparr>vf_heap := h3\<rparr>"] exI [of _ B]) (simp add: created_def)
      next
        case (block rf h3)
        note b2 = this
        define s3 where "s3 = upd_node n (\<lambda>v. v\<lparr>v_private_data := rf, v_size := 0\<rparr>)
            (s2\<lparr>vf_heap := h3, rfiles := (rfiles s2)(rf := \<lparr>rf_data = NULL, rf_capacity = 0\<rparr>)\<rparr>)"
        have s3: "\<And>k. k \<noteq> n \<Longrightarrow> vnodes s3 k = vnodes s k" "vnodes s3 n = V\<lparr>v_private_data := rf, v_size := 0\<rparr>"
          "vfs_memory s3 = vfs_memory s" "rfiles s3 = (rfiles s)(rf := \<lparr>rf_data = NULL, rf_capacity = 0\<rparr>)" "vf_heap s3 = h3"
          using b2(5) s2 by (simp_all add: s3_def vfs_memory_def)
        have s3L: "vnodes s3 k = vnodes s k" if "k \<in> L" for k by (rule s3(1)) (use that nl in auto)
        have rn: "B rf = None" "rf \<noteq> n" using b2(3) by (auto simp: B1_def split: if_splits)
        have "file_inv F (B1(rf \<mapsto> RAMFS_FILE_SIZE)) (insert n L) (link s3)"
        proof (rule file_inv_insert [OF f nL])
          show "v_type (vnodes (link s3) k) = v_type (vnodes s k) \<and> v_size (vnodes (link s3) k) = v_size (vnodes s k) \<and>
              v_private_data (vnodes (link s3) k) = v_private_data (vnodes s k)" if "k \<in> L" for k
            using s3L [OF that] by (simp add: link)
          show "rfiles (link s3) r = rfiles s r" if "B r \<noteq> None" for r using that rn by (auto simp: link s3(4))
          show "(B1(rf \<mapsto> RAMFS_FILE_SIZE)) p = B p" if "B p \<noteq> None" for p
            using that rn \<open>B n = None\<close> by (auto simp: B1_def)
          show "v_type (vnodes (link s3) n) = VNODE_FILE \<Longrightarrow> rf_of (link s3) n \<noteq> NULL \<and> B (rf_of (link s3) n) = None \<and>
              rf_of (link s3) n \<noteq> n \<and> (B1(rf \<mapsto> RAMFS_FILE_SIZE)) (rf_of (link s3) n) = Some RAMFS_FILE_SIZE \<and>
              rfiles (link s3) (rf_of (link s3) n) = \<lparr>rf_data = NULL, rf_capacity = 0\<rparr> \<and> v_size (vnodes (link s3) n) = 0"
            using rn b2(2) by (simp add: rf_of_def link s3)
        qed (use b2 rn \<open>n \<noteq> NULL\<close> \<open>B n = None\<close> s3 in \<open>simp_all add: link B1_def\<close>)
        then have "created F B (B1(rf \<mapsto> RAMFS_FILE_SIZE)) L D d name ty s n (link s3)"
          by (intro cl [of s3]) (simp_all add: s3 V link_def)
        moreover have "ramfs_create d name ty s = Some (n, link s3)" using run True b2(1,2) by (simp add: s3_def)
        ultimately show ?thesis by auto
      qed
    qed
  qed
qed

subsection \<open>Removing an entry\<close>

text \<open>The blocks that belong to one node.\<close>

definition own_blocks :: "'a ramfs_state_scheme \<Rightarrow> ptr \<Rightarrow> ptr set" where
  "own_blocks s n = insert n (if v_type (vnodes s n) = VNODE_FILE then {rf_of s n, data_of s n} else {})"

lemma file_inv_remove:
  assumes "file_inv F B L s" and "n \<in> L" and "heap_inv F (B |` (- own_blocks s n)) h" and "hmem h = hmem (vf_heap s)"
  shows "file_inv F (B |` (- own_blocks s n)) (L - {n}) (s\<lparr>vf_heap := h\<rparr>)"
proof -
  let ?B = "B |` (- own_blocks s n)" and ?s = "s\<lparr>vf_heap := h\<rparr>"
  have fs: "files (L - {n}) ?s = files L s - {n}" by (auto simp: files_def)
  have rd: "rf_of ?s k = rf_of s k" "data_of ?s k = data_of s k" for k by (simp_all add: rf_of_def data_of_def)
  have nf: "n \<in> files L s" if "v_type (vnodes s n) = VNODE_FILE" using that assms(2) by (simp add: files_def)
  have rfn: "rf_of s n \<notin> L \<and> data_of s n \<notin> L" if "v_type (vnodes s n) = VNODE_FILE"
    using file_blocks(3) [OF assms(1) nf [OF that]] assms(1) nf [OF that] by (auto simp: file_inv_def file_ok_def)
  have nodes: "?B k = Some VNODE_SIZE" if "k \<in> L - {n}" for k
    using that assms(1) rfn by (auto simp: file_inv_def own_blocks_def restrict_map_def)
  have ok: "file_ok ?B (L - {n}) ?s k" if k: "k \<in> files L s - {n}" for k
  proof -
    have kf: "k \<in> files L s" "k \<noteq> n" using k by auto
    have fk: "file_ok B L s k" using assms(1) kf by (simp add: file_inv_def)
    have apart: "rf_of s k \<noteq> rf_of s n \<and> rf_of s k \<noteq> data_of s n \<and> data_of s k \<noteq> rf_of s n \<and>
        (data_of s k \<noteq> NULL \<longrightarrow> data_of s k \<noteq> data_of s n)" if "v_type (vnodes s n) = VNODE_FILE"
      using assms(1) kf nf [OF that] unfolding file_inv_def files_apart_def by metis
    have n1: "rf_of s k \<noteq> n" using file_blocks(3) [OF assms(1) kf(1)] assms(2) by auto
    have n2: "data_of s k \<noteq> n" using fk assms(2) by (auto simp: file_ok_def)
    show ?thesis
    proof (rule file_ok_cong [OF fk])
      show "?B (rf_of s k) = B (rf_of s k)" using apart n1 by (auto simp: own_blocks_def restrict_map_def)
      show "data_of s k \<noteq> NULL \<Longrightarrow> ?B (data_of s k) = B (data_of s k)"
        using apart n2 by (auto simp: own_blocks_def restrict_map_def)
      show "data_of s k \<notin> L - {n}" using fk by (simp add: file_ok_def)
      show "vfs_memory ?s = vfs_memory s" using assms(4) by (simp add: vfs_memory_def)
    qed simp_all
  qed
  moreover have "files_apart (files L s - {n}) ?s"
    by (rule files_apart_cong [of "files L s" s]) (use assms(1) rd in \<open>auto simp: file_inv_def\<close>)
  ultimately show ?thesis using nodes assms(3) fs by (simp add: file_inv_def)
qed

lemma ramfs_release_spec:
  assumes "file_inv F B L s" and "n \<in> L"
  shows "\<exists>h. ramfs_release n s = Some (s\<lparr>vf_heap := h\<rparr>) \<and> hmem h = hmem (vf_heap s) \<and>
    file_inv F (B |` (- own_blocks s n)) (L - {n}) (s\<lparr>vf_heap := h\<rparr>)"
proof -
  have hi: "heap_inv F B (vf_heap s)" and bn: "B n = Some VNODE_SIZE" using assms by (simp_all add: file_inv_def)
  show ?thesis
  proof (cases "v_type (vnodes s n) = VNODE_FILE")
    case False
    from vf_kfree_inv [OF hi bn] obtain h where h: "vf_kfree n s = Some (s\<lparr>vf_heap := h\<rparr>)" "heap_inv F (B(n := None)) h"
      "hmem h = hmem (vf_heap s)" by blast
    have e: "B(n := None) = B |` (- own_blocks s n)" using False by (auto simp: own_blocks_def restrict_map_def)
    have "ramfs_release n s = Some (s\<lparr>vf_heap := h\<rparr>)" using False h(1) by (simp add: ramfs_release_def Let_def)
    then show ?thesis using file_inv_remove [OF assms h(2) [unfolded e] h(3)] h(3) by blast
  next
    case True
    then have nf: "n \<in> files L s" using assms(2) by (simp add: files_def)
    have fo: "file_ok B L s n" and fa: "files_apart (files L s) s" using assms(1) nf by (simp_all add: file_inv_def)
    define rf d where "rf = rf_of s n" and "d = data_of s n"
    have rf: "rf \<noteq> NULL" "B rf = Some RAMFS_FILE_SIZE" "rf \<noteq> n" "d \<noteq> n" "d \<noteq> rf"
      using fo file_blocks(3) [OF assms(1) nf] assms(2) fa nf by (auto simp: file_ok_def rf_def d_def files_apart_def)
    have db: "d \<noteq> NULL \<Longrightarrow> B d \<noteq> None" using file_blocks(2) [OF assms(1) nf] by (simp add: d_def)
    have B_null: "B NULL = None" using hi by (simp add: heap_inv_def)
    have "\<exists>h1. (if d \<noteq> NULL then vf_kfree d s else Some s) = Some (s\<lparr>vf_heap := h1\<rparr>) \<and> heap_inv F (B(d := None)) h1 \<and> hmem h1 = hmem (vf_heap s)"
    proof (cases "d = NULL")
      case True
      have "B(d := None) = B" using True B_null by (auto simp: fun_eq_iff)
      then show ?thesis using hi True by (intro exI [of _ "vf_heap s"]) simp
    next
      case False
      then obtain k where "B d = Some k" using db by auto
      from vf_kfree_inv [OF hi this] False show ?thesis by auto
    qed
    then obtain h1 where h1: "(if d \<noteq> NULL then vf_kfree d s else Some s) = Some (s\<lparr>vf_heap := h1\<rparr>)"
      "heap_inv F (B(d := None)) h1" "hmem h1 = hmem (vf_heap s)" by blast
    have "\<exists>h2. vf_kfree rf (s\<lparr>vf_heap := h1\<rparr>) = Some (s\<lparr>vf_heap := h2\<rparr>) \<and> heap_inv F (B(d := None, rf := None)) h2 \<and> hmem h2 = hmem h1"
      using vf_kfree_inv [of F "B(d := None)" "s\<lparr>vf_heap := h1\<rparr>" rf RAMFS_FILE_SIZE] h1(2) rf by auto
    then obtain h2 where h2: "vf_kfree rf (s\<lparr>vf_heap := h1\<rparr>) = Some (s\<lparr>vf_heap := h2\<rparr>)"
      "heap_inv F (B(d := None, rf := None)) h2" "hmem h2 = hmem h1" by blast
    have "\<exists>h3. vf_kfree n (s\<lparr>vf_heap := h2\<rparr>) = Some (s\<lparr>vf_heap := h3\<rparr>) \<and> heap_inv F (B(d := None, rf := None, n := None)) h3 \<and> hmem h3 = hmem h2"
      using vf_kfree_inv [of F "B(d := None, rf := None)" "s\<lparr>vf_heap := h2\<rparr>" n VNODE_SIZE] h2(2) rf bn by auto
    then obtain h3 where h3: "vf_kfree n (s\<lparr>vf_heap := h2\<rparr>) = Some (s\<lparr>vf_heap := h3\<rparr>)"
      "heap_inv F (B(d := None, rf := None, n := None)) h3" "hmem h3 = hmem h2" by blast
    have e: "B(d := None, rf := None, n := None) = B |` (- own_blocks s n)"
      using True by (auto simp: own_blocks_def restrict_map_def rf_def d_def)
    have m: "hmem h3 = hmem (vf_heap s)" using h1(3) h2(3) h3(3) by simp
    have "ramfs_release n s = Some (s\<lparr>vf_heap := h3\<rparr>)"
      using True rf(1) h1(1) h2(1) h3(1)
      by (cases "d = NULL") (simp_all add: ramfs_release_def Let_def rf_def d_def rf_of_def data_of_def)
    then show ?thesis using file_inv_remove [OF assms h3(2) [unfolded e] m] m by blast
  qed
qed

lemma file_inv_nodes:
  assumes "file_inv F B L s" and "rfiles s' = rfiles s" and "vf_heap s' = vf_heap s"
    and "\<And>k. v_type (vnodes s' k) = v_type (vnodes s k) \<and> v_size (vnodes s' k) = v_size (vnodes s k) \<and>
      v_private_data (vnodes s' k) = v_private_data (vnodes s k)"
  shows "file_inv F B L s'"
proof -
  have rd: "rf_of s' k = rf_of s k" "data_of s' k = data_of s k" for k using assms(2,4) by (simp_all add: rf_of_def data_of_def)
  have fs: "files L s' = files L s" using assms(4) by (simp add: files_def)
  have "file_ok B L s' k = file_ok B L s k" for k using rd assms(2-4) by (simp add: file_ok_def vfs_memory_def)
  moreover have "files_apart (files L s) s' = files_apart (files L s) s" using rd by (simp add: files_apart_def)
  ultimately show ?thesis using assms(1,3) fs by (simp add: file_inv_def)
qed

lemma tree_inv_forget:
  assumes "tree_inv L D s" and "\<And>e. e \<in> L \<Longrightarrow> c \<notin> set (D e)"
  shows "tree_inv (L - {c}) D s"
proof -
  have "dir_ok (L - {c}) (D d) s d" if "d \<in> L" for d
    using tree_inv_dir [OF assms(1) that] assms(2) [OF that] by (auto simp: dir_ok_def)
  then show ?thesis using assms(1) by (auto simp: tree_inv_def)
qed

lemma entry_split:
  assumes "entry s cs name \<noteq> NULL" and "NULL \<notin> set cs"
  obtains xs ys where "cs = xs @ entry s cs name # ys" "\<forall>x \<in> set xs. v_name (vnodes s x) \<noteq> name" "v_name (vnodes s (entry s cs name)) = name"
proof -
  from assms(1) obtain y where y: "find (\<lambda>c. v_name (vnodes s c) = name) cs = Some y" "entry s cs name = y"
    by (auto simp: entry_def split: option.splits)
  from y(1) obtain i where i: "i < length cs" "v_name (vnodes s (cs ! i)) = name" "y = cs ! i"
    "\<forall>j < i. v_name (vnodes s (cs ! j)) \<noteq> name" by (auto simp: find_Some_iff)
  have "cs = take i cs @ y # drop (Suc i) cs" using i by (simp add: id_take_nth_drop)
  moreover have "\<forall>x \<in> set (take i cs). v_name (vnodes s x) \<noteq> name" using i by (auto simp: in_set_conv_nth)
  ultimately show thesis using that [of "take i cs" "drop (Suc i) cs"] y(2) i(2,3) by simp
qed

lemma no_children:
  assumes "tree_inv L D s" and "d \<in> L"
  shows "v_first_child (vnodes s d) = NULL \<longleftrightarrow> D d = []"
  using tree_inv_dir [OF assms] by (cases "D d") (auto simp: dir_ok_def)

lemma ramfs_unlink_spec:
  assumes "ramfs_inv F B L D s" and "d \<in> L" and "c = entry s (D d) name" and "D' = D(d := remove1 c (D d))"
  shows "\<exists>rc s' B'. ramfs_unlink d name s = Some (rc, s') \<and>
    (if c = NULL \<or> v_type (vnodes s c) = VNODE_DIR \<and> D c \<noteq> [] then rc = - 1 \<and> s' = s
     else rc = 0 \<and> vfs_memory s' = vfs_memory s \<and>
       (if v_open_count (vnodes s c) = 0 then ramfs_inv F (B |` (- own_blocks s c)) (L - {c}) D' s'
        else ramfs_inv F B L D' s' \<and> v_unlinked (vnodes s' c)))"
proof -
  have t: "tree_inv L D s" and f: "file_inv F B L s" using assms(1) by (simp_all add: ramfs_inv_def)
  have dok: "dir_ok L (D d) s d" by (rule tree_inv_dir [OF t assms(2)])
  then have sib: "siblings (vnodes s) (v_first_child (vnodes s d)) (D d)" and dist: "distinct (D d)"
    and nn: "NULL \<notin> set (D d)" using t by (auto simp: dir_ok_def tree_inv_def)
  let ?P = "\<lambda>p. v_name (vnodes s p) = name"
  show ?thesis
  proof (cases "c = NULL")
    case True
    then have "\<forall>x \<in> set (D d). \<not> ?P x" using entry_null [OF nn, of s name] assms(3) by auto
    with seek_place [of "vnodes s" d "D d" "[]" ?P] get_place [of "vnodes s" d "D d" "[]"] sib
    have "ramfs_unlink d name s = Some (- 1, s)" by (simp add: ramfs_unlink_def Let_def)
    then show ?thesis using True by auto
  next
    case False
    then obtain xs ys where sp: "D d = xs @ c # ys" "\<forall>x \<in> set xs. \<not> ?P x" "?P c"
      using entry_split [OF _ nn, of s name] assms(3) by metis
    have cL: "c \<in> L" "c \<in> set (D d)" using dok sp(1) by (auto simp: dir_ok_def)
    have D': "D' = D(d := xs @ ys)" using assms(4) sp(1) dist by (simp add: remove1_append)
    have seek: "seek_child ?P (Inl d) (vnodes s) = Some (place d xs)"
      by (rule seek_place [of _ _ _ "c # ys"]) (use sib sp in simp_all)
    have get: "get_child (place d xs) (vnodes s) = c" using get_place [of "vnodes s" d xs "c # ys"] sib sp(1) by simp
    show ?thesis
    proof (cases "v_type (vnodes s c) = VNODE_DIR \<and> D c \<noteq> []")
      case True
      then have "ramfs_unlink d name s = Some (- 1, s)"
        using seek get False no_children [OF t cL(1)] by (simp add: ramfs_unlink_def Let_def)
      then show ?thesis using True by auto
    next
      case ok: False
      define s1 where "s1 = set_child (place d xs) (v_next_sibling (vnodes s c)) s"
      define s2 where "s2 = upd_node c (\<lambda>v. v\<lparr>v_parent := NULL, v_next_sibling := NULL\<rparr>) s1"
      have "D c = []" using ok tree_inv_dir [OF t cL(1)] by (auto simp: dir_ok_def)
      have g: "v_type (vnodes s2 k) = v_type (vnodes s k)" "v_size (vnodes s2 k) = v_size (vnodes s k)"
          "v_private_data (vnodes s2 k) = v_private_data (vnodes s k)" for k by (simp_all add: s2_def s1_def)
      have rest: "rfiles s2 = rfiles s" "vf_heap s2 = vf_heap s" "vfs_memory s2 = vfs_memory s" "v_open_count (vnodes s2 c) = v_open_count (vnodes s c)"
        by (simp_all add: s2_def s1_def)
      have tr: "tree_inv L D' (upd_node c h s2)" if "\<And>v. v_first_child (h v) = v_first_child v" "\<And>v. v_type (h v) = v_type v" for h
        unfolding D' by (rule tree_inv_remove [OF t assms(2) sp(1) s1_def]) (simp_all add: s2_def that)
      have fi: "file_inv F B L s2" by (rule file_inv_nodes [OF f]) (use g rest in simp_all)
      have run: "ramfs_unlink d name s = (if v_open_count (vnodes s c) \<noteq> 0 then Some (0, upd_node c (\<lambda>v. v\<lparr>v_unlinked := True\<rparr>) s2)
          else do { s3 \<leftarrow> ramfs_release c s2; Some (0, s3) })"
      proof -
        have "\<not> (v_type (vnodes s c) = VNODE_DIR \<and> v_first_child (vnodes s c) \<noteq> NULL)" using ok no_children [OF t cL(1)] by simp
        moreover have "v_open_count (vnodes s1 c) = v_open_count (vnodes s c)" by (simp add: s1_def)
        ultimately show ?thesis using seek get False rest(4) by (auto simp: ramfs_unlink_def Let_def s1_def [symmetric] s2_def [symmetric])
      qed
      show ?thesis
      proof (cases "v_open_count (vnodes s c) = 0")
        case oc: False
        let ?s = "upd_node c (\<lambda>v. v\<lparr>v_unlinked := True\<rparr>) s2"
        have "file_inv F B L ?s" by (rule file_inv_nodes [OF fi]) simp_all
        moreover have "tree_inv L D' ?s" by (rule tr) simp_all
        ultimately show ?thesis using run oc ok False rest(3)
          by (intro exI [of _ 0] exI [of _ ?s]) (simp add: ramfs_inv_def)
      next
        case oc: True
        from ramfs_release_spec [OF fi cL(1)] obtain h where h: "ramfs_release c s2 = Some (s2\<lparr>vf_heap := h\<rparr>)"
          "hmem h = hmem (vf_heap s2)" "file_inv F (B |` (- own_blocks s2 c)) (L - {c}) (s2\<lparr>vf_heap := h\<rparr>)" by blast
        have ob: "own_blocks s2 c = own_blocks s c" using g rest by (simp add: own_blocks_def rf_of_def data_of_def)
        have "upd_node c (\<lambda>v. v) s2 = s2" by (simp add: upd_node_def)
        then have t2: "tree_inv L D' s2" using tr [of "\<lambda>v. v"] by simp
        have "c \<notin> set (D' e)" if "e \<in> L" for e
          using that t assms(2) sp(1) dist cL(2) unfolding D' tree_inv_def by (cases "e = d") auto
        from tree_inv_forget [OF t2 this] have "tree_inv (L - {c}) D' (s2\<lparr>vf_heap := h\<rparr>)" by (simp add: tree_inv_def dir_ok_def)
        then show ?thesis using run oc ok False h rest
          by (intro exI [of _ 0] exI [of _ "s2\<lparr>vf_heap := h\<rparr>"]) (simp add: ramfs_inv_def ob vfs_memory_def)
      qed
    qed
  qed
qed

subsection \<open>Moving an entry\<close>

lemma tree_inv_front:
  assumes "tree_inv L D s" and "d \<in> L" and "n \<in> L" and "n \<noteq> d" and "v_type (vnodes s d) = VNODE_DIR"
    and "\<And>e. e \<in> L \<Longrightarrow> n \<notin> set (D e)" and "v_name (vnodes s' n) \<notin> (\<lambda>c. v_name (vnodes s c)) ` set (D d)"
    and "v_parent (vnodes s' n) = d" and "v_next_sibling (vnodes s' n) = v_first_child (vnodes s d)"
    and "v_first_child (vnodes s' n) = v_first_child (vnodes s n)" and "v_type (vnodes s' n) = v_type (vnodes s n)"
    and "vnodes s' d = (vnodes s d)\<lparr>v_first_child := n\<rparr>" and "\<And>k. k \<noteq> n \<Longrightarrow> k \<noteq> d \<Longrightarrow> vnodes s' k = vnodes s k"
  shows "tree_inv L (D(d := n # D d)) s'"
proof -
  have nn: "n \<noteq> NULL" using assms(1,3) by (auto simp: tree_inv_def)
  have sub: "set (D e) \<subseteq> L" if "e \<in> L" for e using tree_inv_dir [OF assms(1) that] by (simp add: dir_ok_def)
  have old: "v_next_sibling (vnodes s' k) = v_next_sibling (vnodes s k) \<and> v_parent (vnodes s' k) = v_parent (vnodes s k) \<and>
      v_name (vnodes s' k) = v_name (vnodes s k)" if "k \<noteq> n" for k
    using assms(12) assms(13) [OF that] by (cases "k = d") simp_all
  have oldD: "v_next_sibling (vnodes s' k) = v_next_sibling (vnodes s k) \<and> v_parent (vnodes s' k) = v_parent (vnodes s k) \<and>
      v_name (vnodes s' k) = v_name (vnodes s k)" if "k \<in> set (D e)" "e \<in> L" for k e
    by (rule old) (use assms(6) that in auto)
  have "dir_ok L (n # D d) s' d"
    by (rule dir_ok_cons [OF tree_inv_dir [OF assms(1,2)] assms(5) assms(6) [OF assms(2)] nn _ assms(7,8) _ assms(9)])
      (use assms(2,3,5,12) oldD in auto)
  moreover have "dir_ok L (D e) s' e" if e: "e \<in> L" "e \<noteq> d" for e
    by (rule dir_ok_cong [OF tree_inv_dir [OF assms(1) e(1)] sub [OF e(1)]])
      (use assms(10,11) assms(13) [of e] e oldD in \<open>cases "e = n"; simp\<close>)+
  moreover have "set ((D(d := n # D d)) e) \<inter> set ((D(d := n # D d)) e') = {}" if "e \<in> L" "e' \<in> L" "e \<noteq> e'" for e e'
  proof -
    have "set (D e) \<inter> set (D e') = {}" using assms(1) that by (simp add: tree_inv_def)
    then show ?thesis using that assms(6) by auto
  qed
  moreover have "NULL \<notin> L" using assms(1) by (simp add: tree_inv_def)
  ultimately show ?thesis unfolding tree_inv_def by auto
qed

lemma ramfs_rename_spec:
  assumes "ramfs_inv F B L D s" and "old \<in> L" and "node \<in> set (D old)" and "new \<in> L" and "v_type (vnodes s new) = VNODE_DIR"
    and "node \<noteq> new" and "length name < VFS_NAME_MAX" and "entry s (D new) name = NULL"
    and "D1 = D(old := remove1 node (D old))"
  shows "\<exists>s'. ramfs_rename node new name s = Some (0, s') \<and> ramfs_inv F B L (D1(new := node # D1 new)) s' \<and>
    v_name (vnodes s' node) = name \<and> vfs_memory s' = vfs_memory s \<and> rfiles s' = rfiles s \<and>
    (\<forall>k. v_size (vnodes s' k) = v_size (vnodes s k) \<and> v_private_data (vnodes s' k) = v_private_data (vnodes s k))"
proof -
  have t: "tree_inv L D s" and f: "file_inv F B L s" using assms(1) by (simp_all add: ramfs_inv_def)
  have dok: "dir_ok L (D old) s old" by (rule tree_inv_dir [OF t assms(2)])
  then have sib: "siblings (vnodes s) (v_first_child (vnodes s old)) (D old)" and dist: "distinct (D old)"
    and par: "v_parent (vnodes s node) = old" and nL: "node \<in> L" using assms(3) by (auto simp: dir_ok_def)
  have nn: "NULL \<notin> set (D new)" using tree_inv_dir [OF t assms(4)] t by (auto simp: dir_ok_def tree_inv_def)
  have dj: "set (D e) \<inter> set (D e') = {}" if "e \<in> L" "e' \<in> L" "e \<noteq> e'" for e e'
    using t that by (simp add: tree_inv_def)
  obtain xs ys where sp: "D old = xs @ node # ys" using assms(3) by (meson split_list)
  have D1: "D1 = D(old := xs @ ys)" using assms(9) sp dist by (simp add: remove1_append)
  have nxs: "node \<notin> set xs" "node \<noteq> NULL" using sp dist nL t by (auto simp: tree_inv_def)
  have seek: "seek_child (\<lambda>p. p = node) (Inl old) (vnodes s) = Some (place old xs)"
    by (rule seek_place [of _ _ _ "node # ys"]) (use sib sp nxs in auto)
  have get: "get_child (place old xs) (vnodes s) = node" using get_place [of "vnodes s" old xs "node # ys"] sib sp by simp
  define s1 where "s1 = set_child (place old xs) (v_next_sibling (vnodes s node)) s"
  define s2 where "s2 = upd_node node (\<lambda>v. v\<lparr>v_name := name, v_parent := new\<rparr>) s1"
  define s3 where "s3 = upd_node node (\<lambda>v. v\<lparr>v_next_sibling := v_first_child (vnodes s2 new)\<rparr>) s2"
  define s4 where "s4 = upd_node new (\<lambda>v. v\<lparr>v_first_child := node\<rparr>) s3"
  have run: "ramfs_rename node new name s = Some (0, s4)"
    unfolding s4_def s3_def s2_def s1_def using par seek get nxs(2)
    by (simp add: ramfs_rename_def node_name_id [OF assms(7)] Let_def)
  have t2: "tree_inv L D1 s2"
    unfolding D1 by (rule tree_inv_remove [OF t assms(2) sp s1_def]) (simp_all add: s2_def)
  have out: "node \<notin> set (D1 e)" if "e \<in> L" for e
    using dj [OF that assms(2)] sp dist by (cases "e = old") (auto simp: D1)
  have name2: "name \<notin> (\<lambda>c. v_name (vnodes s2 c)) ` set (D1 new)"
  proof
    assume "name \<in> (\<lambda>c. v_name (vnodes s2 c)) ` set (D1 new)"
    then obtain c where c: "c \<in> set (D1 new)" "v_name (vnodes s2 c) = name" by auto
    then have "c \<noteq> node" using out [OF assms(4)] by auto
    then have "v_name (vnodes s c) = name" using c(2) by (simp add: s2_def s1_def)
    moreover have "c \<in> set (D new)" using c(1) sp by (auto simp: D1 split: if_splits)
    ultimately have "name \<in> (\<lambda>c. v_name (vnodes s c)) ` set (D new)" by force
    then show False using assms(8) by (simp only: entry_null [OF nn] simp_thms)
  qed
  have n4: "vnodes s4 node = (vnodes s2 node)\<lparr>v_next_sibling := v_first_child (vnodes s2 new)\<rparr>"
    "vnodes s4 new = (vnodes s2 new)\<lparr>v_first_child := node\<rparr>" "\<And>k. k \<noteq> node \<Longrightarrow> k \<noteq> new \<Longrightarrow> vnodes s4 k = vnodes s2 k"
    using assms(6) by (auto simp: s4_def s3_def)
  have nm: "v_name (vnodes s2 node) = name" "v_parent (vnodes s2 node) = new" by (simp_all add: s2_def)
  have "v_type (vnodes s2 new) = VNODE_DIR" using assms(5,6) by (auto simp: s2_def s1_def)
  then have "tree_inv L (D1(new := node # D1 new)) s4"
    by (intro tree_inv_front [OF t2 assms(4) nL assms(6)]) (use out name2 n4 nm in simp_all)
  moreover have keep: "v_type (vnodes s4 k) = v_type (vnodes s k) \<and> v_size (vnodes s4 k) = v_size (vnodes s k) \<and>
      v_private_data (vnodes s4 k) = v_private_data (vnodes s k)" for k
    by (simp add: s4_def s3_def s2_def s1_def)
  have fr: "rfiles s4 = rfiles s" "vf_heap s4 = vf_heap s" "vfs_memory s4 = vfs_memory s" by (simp_all add: s4_def s3_def s2_def s1_def)
  have "file_inv F B L s4" by (rule file_inv_nodes [OF f fr(1,2) keep])
  ultimately show ?thesis using run fr keep n4(1) nm by (intro exI [of _ s4]) (simp add: ramfs_inv_def)
qed

subsection \<open>The tree seen through paths\<close>

text \<open>The tables of a system whose memory file systems are these; \<open>other\<close> are the tables of the other kinds.\<close>

definition fs_table :: "(fs_kind \<Rightarrow> 'a ramfs_state_scheme vnode_ops) \<Rightarrow> fs_kind \<Rightarrow> 'a ramfs_state_scheme vnode_ops" where
  "fs_table other k = (if k = RAMFS_OPS then ramfs_ops else other k)"

definition ramfs_node :: "'a ramfs_state_scheme \<Rightarrow> ptr \<Rightarrow> bool" where
  "ramfs_node s d \<longleftrightarrow> (\<exists>L D. tree_inv L D s \<and> d \<in> L \<and> (\<forall>n \<in> L. v_ops (vnodes s n) = Some RAMFS_OPS))"

definition ramfs_child :: "'a ramfs_state_scheme \<Rightarrow> ptr \<Rightarrow> string \<Rightarrow> ptr" where
  "ramfs_child s d name = (case ramfs_lookup d name s of None \<Rightarrow> NULL | Some (c, s') \<Rightarrow> c)"

lemma ramfs_child_entry: "tree_inv L D s \<Longrightarrow> d \<in> L \<Longrightarrow> ramfs_child s d name = entry s (D d) name"
  by (simp add: ramfs_child_def ramfs_lookup_entry)

interpretation ramfs_paths: directory_tree "fs_table other" ramfs_node ramfs_child for other
proof unfold_locales
  fix s :: "'a ramfs_state_scheme" and d name assume "ramfs_node s d"
  then obtain L D where t: "tree_inv L D s" "d \<in> L" "\<forall>n \<in> L. v_ops (vnodes s n) = Some RAMFS_OPS"
    unfolding ramfs_node_def by blast
  then have "ramfs_lookup d name s = Some (ramfs_child s d name, s)" by (simp add: ramfs_lookup_entry ramfs_child_entry)
  then show "\<exists>k f. v_ops (vnodes s d) = Some k \<and> op_lookup (fs_table other k) = Some f \<and> f d name s = Some (ramfs_child s d name, s)"
    using t(2,3) by (auto simp: fs_table_def ramfs_ops_def)
  assume "ramfs_child s d name \<noteq> NULL"
  then have "ramfs_child s d name \<in> set (D d)"
    using entry_in [of s "D d" name] by (simp add: ramfs_child_entry [OF t(1,2)])
  then have "ramfs_child s d name \<in> L" using tree_inv_dir [OF t(1,2)] by (auto simp: dir_ok_def)
  then show "ramfs_node s (ramfs_child s d name)" using t unfolding ramfs_node_def by blast
qed

lemma walk_cong:
  assumes "\<And>d c. P d \<Longrightarrow> ch d c = ch' d c" and "\<And>d c. P d \<Longrightarrow> ch d c \<noteq> NULL \<Longrightarrow> P (ch d c)" and "P r"
  shows "walk ch r cs = walk ch' r cs"
  using assms(3)
proof (induction cs arbitrary: r)
  case (Cons c cs)
  then show ?case using assms(1) [OF Cons(2), of c] assms(2) [OF Cons(2), of c] by simp
qed simp

subsection \<open>Properties\<close>

text \<open>A file system with an empty heap, its root directory at \<open>0x10\<close>.\<close>

lemma ramfs_create_root_inv:
  assumes "heap_inv F B (vf_heap s)"
  shows "\<exists>r s' B'. ramfs_create_root s = Some (r, s') \<and>
    (r \<noteq> NULL \<longrightarrow> ramfs_inv F B' {r} (\<lambda>_. []) s' \<and> v_type (vnodes s' r) = VNODE_DIR)"
  using assms
proof (cases rule: vf_kmalloc_cases [where n = VNODE_SIZE])
  case null
  then show ?thesis by (simp add: ramfs_create_root_def)
next
  case (block r h)
  let ?s = "upd_node r (\<lambda>_. vnode_zero\<lparr>v_type := VNODE_DIR, v_ops := Some RAMFS_OPS, v_name := [slash]\<rparr>) (s\<lparr>vf_heap := h\<rparr>)"
  have "ramfs_inv F (B(r \<mapsto> VNODE_SIZE)) {r} (\<lambda>_. []) ?s"
    using block(2,4) by (simp add: ramfs_inv_def tree_inv_def dir_ok_def file_inv_def files_def files_apart_def vnode_zero_def)
  then show ?thesis using block(1,2) by (auto simp: ramfs_create_root_def)
qed

definition ramfs_start :: ramfs_state where
  "ramfs_start = \<lparr>vf_heap = heap_example, vnodes = (\<lambda>_. vnode_zero), mounts = [], rfiles = (\<lambda>_. \<lparr>rf_data = NULL, rf_capacity = 0\<rparr>)\<rparr>"

definition root_example :: ptr where "root_example = 0xFFFF800000004010"
definition file_example :: ptr where "file_example = 0xFFFF800000005010"

definition ramfs_boot :: ramfs_state where
  "ramfs_boot = snd (the (ramfs_create_root ramfs_start))"

definition ramfs_one :: ramfs_state where
  "ramfs_one = snd (the (ramfs_create root_example ''a'' VNODE_FILE ramfs_boot))"

lemma ramfs_boot_inv:
  "\<exists>B. ramfs_inv Map.empty B {root_example} (\<lambda>_. []) ramfs_boot \<and> v_type (vnodes ramfs_boot root_example) = VNODE_DIR"
proof -
  have r: "map_option fst (ramfs_create_root ramfs_start) = Some root_example" by code_simp
  have "heap_inv Map.empty Map.empty (vf_heap ramfs_start)" using heap_example_inv by (simp add: ramfs_start_def)
  from ramfs_create_root_inv [OF this] r show ?thesis by (auto simp: ramfs_boot_def root_example_def)
qed

lemma ramfs_one_inv:
  "\<exists>B. ramfs_inv Map.empty B {file_example, root_example} ((\<lambda>_. [])(root_example := [file_example])) ramfs_one \<and>
     v_type (vnodes ramfs_one file_example) = VNODE_FILE \<and> v_type (vnodes ramfs_one root_example) = VNODE_DIR \<and>
     v_name (vnodes ramfs_one file_example) = ''a'' \<and> v_size (vnodes ramfs_one file_example) = 0"
proof -
  from ramfs_boot_inv obtain B where b: "ramfs_inv Map.empty B {root_example} (\<lambda>_. []) ramfs_boot"
    "v_type (vnodes ramfs_boot root_example) = VNODE_DIR" by blast
  have r: "map_option fst (ramfs_create root_example ''a'' VNODE_FILE ramfs_boot) = Some file_example" by code_simp
  have "entry ramfs_boot [] ''a'' = NULL" "length ''a'' < VFS_NAME_MAX" by (simp_all add: entry_def VFS_NAME_MAX_def)
  with ramfs_create_spec [OF b(1) _ b(2), of "''a''" VNODE_FILE] r obtain B' where
    c: "created Map.empty B B' {root_example} (\<lambda>_. []) root_example ''a'' VNODE_FILE ramfs_boot file_example ramfs_one"
    by (auto simp: ramfs_one_def)
  have "file_example \<noteq> NULL" "file_example \<noteq> root_example" by (simp_all add: file_example_def root_example_def)
  moreover have "(\<lambda>_. [])(root_example := [file_example], file_example := []) = (\<lambda>_. [])(root_example := [file_example])"
    using calculation(2) by (auto simp: fun_eq_iff)
  ultimately show ?thesis using c b(2) by (auto simp: created_def)
qed

lemma ramfs_one_write: "map_option fst (ramfs_write file_example root_example 5 3 ramfs_one) = Some 5"
proof -
  have rf: "rfiles ramfs_one (v_private_data (vnodes ramfs_one file_example)) = \<lparr>rf_data = NULL, rf_capacity = 0\<rparr>" by code_simp
  have nn: "(v_private_data (vnodes ramfs_one file_example) \<noteq> NULL) = True" by code_simp
  have k: "map_option fst (vf_kmalloc 256 ramfs_one) = Some 0xFFFF800000007010" by code_simp
  then obtain s1 where k1: "vf_kmalloc 256 ramfs_one = Some (0xFFFF800000007010, s1)" by auto
  have g: "grow_cap 256 8 = Some 256" by (simp add: grow_cap.simps)
  show ?thesis using nn by (simp add: ramfs_write_def ramfs_ensure_capacity_def Let_def rf k1 g)
qed

text \<open>
  Property C28: a write to a file of the memory file system either fails for lack of memory and changes
  nothing, or returns the number of bytes and the file then holds exactly its old contents with those
  bytes in place from the offset on, a gap before the offset filled with zeros. Moving the file to a
  larger block loses and leaks nothing: the file stays well-formed and everything any other owner has in
  memory keeps its bytes.
\<close>

theorem ramfs_write_contents:
  assumes "rf_inv F B s node" and "unat off + unat cnt < 2 ^ 63"
    and "owned F (B(rf_data (rfiles s (v_private_data (vnodes s node))) := None)) buf (unat cnt)"
  shows "\<exists>rc s' B'. ramfs_write node buf cnt off s = Some (rc, s') \<and> rf_inv F B' s' node \<and>
    undisturbed F B (rf_data (rfiles s (v_private_data (vnodes s node)))) (vfs_memory s)
      B' (rf_data (rfiles s' (v_private_data (vnodes s' node)))) (vfs_memory s') \<and>
    (rc = - 1 \<and> s' = s \<and> B' = B \<or>
     rc = int (unat cnt) \<and> file_bytes s' node = overwrite (unat off) (bytes_at (vfs_memory s) buf (unat cnt)) (file_bytes s node)) \<and>
     vnodes s' = (vnodes s)(node := (vnodes s node)\<lparr>v_size := v_size (vnodes s' node)\<rparr>)"
  by (rule ramfs_write_spec [OF assms])

lemma ramfs_one_file:
  "\<exists>B. rf_inv Map.empty B ramfs_one file_example \<and>
     owned Map.empty (B(rf_data (rfiles ramfs_one (v_private_data (vnodes ramfs_one file_example))) := None)) root_example 5"
proof -
  from ramfs_one_inv obtain B where b: "ramfs_inv Map.empty B {file_example, root_example} ((\<lambda>_. [])(root_example := [file_example])) ramfs_one"
    "v_type (vnodes ramfs_one file_example) = VNODE_FILE" by blast
  have fi: "file_inv Map.empty B {file_example, root_example} ramfs_one" using b(1) by (simp add: ramfs_inv_def)
  then have fo: "file_ok B {file_example, root_example} ramfs_one file_example"
    using b(2) by (simp add: file_inv_def files_def)
  then have "rf_inv Map.empty B ramfs_one file_example"
    using fi by (simp add: rf_inv_def file_ok_def file_inv_def rf_of_def)
  moreover have "(B(data_of ramfs_one file_example := None)) root_example = Some VNODE_SIZE"
    using fi fo by (auto simp: file_inv_def file_ok_def)
  then have "owned Map.empty (B(data_of ramfs_one file_example := None)) root_example (unat VNODE_SIZE)" by (rule owned_block)
  then have "owned Map.empty (B(data_of ramfs_one file_example := None)) root_example 5"
    by (rule owned_mono) (simp_all add: VNODE_SIZE_def)
  ultimately show ?thesis by (auto simp: data_of_def rf_of_def)
qed

lemma overwrite_gap: "overwrite 3 xs [] = [0, 0, 0] @ xs"
  by (simp add: overwrite_def numeral_eq_Suc)

lemma take_bytes_at: "k \<le> n \<Longrightarrow> take k (bytes_at m p n) = bytes_at m p k"
  by (rule nth_equalityI) (simp_all add: nth_bytes_at)

theorem ramfs_write_contents_witness:
  "\<exists>s'. ramfs_write file_example root_example 5 3 ramfs_one = Some (5, s') \<and>
     file_bytes s' file_example = [0, 0, 0] @ bytes_at (vfs_memory ramfs_one) root_example 5"
proof -
  from ramfs_one_file obtain B where b: "rf_inv Map.empty B ramfs_one file_example"
    "owned Map.empty (B(rf_data (rfiles ramfs_one (v_private_data (vnodes ramfs_one file_example))) := None)) root_example (unat (5 :: u64))"
    by auto
  have "unat (3 :: u64) + unat (5 :: u64) < 2 ^ 63" by simp
  from ramfs_write_contents [OF b(1) this b(2)] ramfs_one_write obtain s' where
    w: "ramfs_write file_example root_example 5 3 ramfs_one = Some (5, s')"
      "file_bytes s' file_example = overwrite (unat (3 :: u64)) (bytes_at (vfs_memory ramfs_one) root_example (unat (5 :: u64)))
         (file_bytes ramfs_one file_example)" by auto
  moreover have "file_bytes ramfs_one file_example = []" using ramfs_one_inv by (auto simp: file_bytes_def)
  ultimately show ?thesis by (auto simp: overwrite_gap)
qed

text \<open>
  A read from a file of the memory file system always returns: the bytes of the file from
  the offset on, as many as were asked for and exist, are in the caller's buffer, their number is the
  result, and nothing else in memory and nothing in the file changed. Reading at or after the end gives 0.
\<close>

theorem ramfs_read_contents:
  assumes "rf_inv F B s node" and "unat cnt < 2 ^ 63 \<or> unat (v_size (vnodes s node)) < 2 ^ 63"
    and "owned F (B(rf_data (rfiles s (v_private_data (vnodes s node))) := None)) buf (unat cnt)"
    and "n = min (unat cnt) (length (file_bytes s node) - unat off)"
  shows "\<exists>s'. ramfs_read node buf cnt off s = Some (int n, s') \<and> rf_inv F B s' node \<and> vnodes s' = vnodes s \<and>
    bytes_at (vfs_memory s') buf n = take n (drop (unat off) (file_bytes s node)) \<and> file_bytes s' node = file_bytes s node \<and>
    (\<forall>a. \<not> unat (a - buf) < n \<longrightarrow> vfs_memory s' a = vfs_memory s a)"
  by (rule ramfs_read_spec [OF assms])

theorem ramfs_read_contents_witness:
  "\<exists>s1 s2. ramfs_write file_example root_example 5 3 ramfs_one = Some (5, s1) \<and>
     ramfs_read file_example root_example 2 3 s1 = Some (2, s2) \<and>
     bytes_at (vfs_memory s2) root_example 2 = bytes_at (vfs_memory ramfs_one) root_example 2"
proof -
  from ramfs_one_file obtain B where b: "rf_inv Map.empty B ramfs_one file_example"
    "owned Map.empty (B(rf_data (rfiles ramfs_one (v_private_data (vnodes ramfs_one file_example))) := None)) root_example (unat (5 :: u64))"
    by auto
  have "unat (3 :: u64) + unat (5 :: u64) < 2 ^ 63" by simp
  from ramfs_write_spec [OF b(1) this b(2)] ramfs_one_write obtain s1 B1 where
    w: "ramfs_write file_example root_example 5 3 ramfs_one = Some (5, s1)" "rf_inv Map.empty B1 s1 file_example"
      "file_bytes s1 file_example = overwrite (unat (3 :: u64)) (bytes_at (vfs_memory ramfs_one) root_example (unat (5 :: u64)))
         (file_bytes ramfs_one file_example)"
      "undisturbed Map.empty B (rf_data (rfiles ramfs_one (v_private_data (vnodes ramfs_one file_example)))) (vfs_memory ramfs_one)
         B1 (rf_data (rfiles s1 (v_private_data (vnodes s1 file_example)))) (vfs_memory s1)" by auto
  have "owned Map.empty (B1(rf_data (rfiles s1 (v_private_data (vnodes s1 file_example))) := None)) root_example (unat (5 :: u64))"
    using w(4) b(2) by (auto simp: undisturbed_def)
  then have o: "owned Map.empty (B1(rf_data (rfiles s1 (v_private_data (vnodes s1 file_example))) := None)) root_example (unat (2 :: u64))"
    by (rule owned_mono) simp_all
  have "file_bytes ramfs_one file_example = []" using ramfs_one_inv by (auto simp: file_bytes_def)
  then have f: "file_bytes s1 file_example = [0, 0, 0] @ bytes_at (vfs_memory ramfs_one) root_example 5"
    using w(3) by (simp add: overwrite_gap)
  have n: "(2 :: nat) = min (unat (2 :: u64)) (length (file_bytes s1 file_example) - unat (3 :: u64))" by (simp add: f)
  have "take 2 (drop (unat (3 :: u64)) (file_bytes s1 file_example)) = bytes_at (vfs_memory ramfs_one) root_example 2"
    by (simp add: f take_bytes_at)
  with ramfs_read_contents [OF w(2) _ o n] obtain s2 where "ramfs_read file_example root_example 2 3 s1 = Some (2, s2)"
    "bytes_at (vfs_memory s2) root_example 2 = bytes_at (vfs_memory ramfs_one) root_example 2" by auto
  with w(1) show ?thesis by blast
qed

text \<open>
  Property C29: making an entry in a directory of a well-formed memory file system always returns. When
  the name exists the result is NULL and nothing changes. Otherwise it is NULL, for lack of memory, with
  the tree as it was and no block lost, or a new empty node of the asked name and type that no live node
  had the address of; it is the first entry of the directory, every other node is as it was, and the
  file system is well-formed again.
\<close>

theorem ramfs_create_entry:
  assumes "ramfs_inv F B L D s" and "d \<in> L" and "v_type (vnodes s d) = VNODE_DIR" and "length name < VFS_NAME_MAX"
  shows "\<exists>p s' B'. ramfs_create d name ty s = Some (p, s') \<and>
    (if entry s (D d) name \<noteq> NULL then p = NULL \<and> s' = s else created F B B' L D d name ty s p s')"
proof (cases "entry s (D d) name = NULL")
  case True
  then show ?thesis using ramfs_create_spec [OF assms] by simp
next
  case False
  have "ramfs_lookup d name s = Some (entry s (D d) name, s)"
    by (rule ramfs_lookup_entry [OF _ assms(2)]) (use assms(1) in \<open>simp add: ramfs_inv_def\<close>)
  then show ?thesis using False by (simp add: ramfs_create_def)
qed

theorem ramfs_create_entry_witness:
  "\<exists>p s'. ramfs_create root_example ''b'' VNODE_DIR ramfs_one = Some (p, s') \<and> p \<noteq> NULL \<and> p \<noteq> file_example \<and>
     v_name (vnodes s' p) = ''b''"
proof -
  from ramfs_one_inv obtain B where b: "ramfs_inv Map.empty B {file_example, root_example} ((\<lambda>_. [])(root_example := [file_example])) ramfs_one"
    "v_type (vnodes ramfs_one root_example) = VNODE_DIR" "v_name (vnodes ramfs_one file_example) = ''a''" by blast
  have r: "map_option fst (ramfs_create root_example ''b'' VNODE_DIR ramfs_one) = Some 0xFFFF800000007010" by code_simp
  have l: "length ''b'' < VFS_NAME_MAX" by (simp add: VFS_NAME_MAX_def)
  have "entry ramfs_one [file_example] ''b'' = NULL" using b(3) by (simp add: entry_def)
  with ramfs_create_entry [OF b(1) _ b(2) l, of VNODE_DIR] r obtain s' B' where
    "ramfs_create root_example ''b'' VNODE_DIR ramfs_one = Some (0xFFFF800000007010, s')"
    "created Map.empty B B' {file_example, root_example} ((\<lambda>_. [])(root_example := [file_example])) root_example ''b'' VNODE_DIR ramfs_one 0xFFFF800000007010 s'"
    by auto
  then show ?thesis by (auto simp: created_def)
qed

text \<open>
  Property C30: unlinking a name always returns. It fails, and changes nothing, exactly when the directory
  has no such entry or the entry is a directory that is not empty. Otherwise the entry leaves its
  directory, whose other entries keep their order; a node that nobody has open is released with every
  block it had and no other block, a node that is open stays live and is marked for release on close.
\<close>

theorem ramfs_unlink_entry:
  assumes "ramfs_inv F B L D s" and "d \<in> L" and "c = entry s (D d) name" and "D' = D(d := remove1 c (D d))"
  shows "\<exists>rc s' B'. ramfs_unlink d name s = Some (rc, s') \<and>
    (if c = NULL \<or> v_type (vnodes s c) = VNODE_DIR \<and> D c \<noteq> [] then rc = - 1 \<and> s' = s
     else rc = 0 \<and> vfs_memory s' = vfs_memory s \<and>
       (if v_open_count (vnodes s c) = 0 then ramfs_inv F (B |` (- own_blocks s c)) (L - {c}) D' s'
        else ramfs_inv F B L D' s' \<and> v_unlinked (vnodes s' c)))"
  by (rule ramfs_unlink_spec [OF assms])

theorem ramfs_unlink_entry_witness:
  "\<exists>s'. ramfs_unlink root_example ''a'' ramfs_one = Some (0, s') \<and> tree_inv {root_example} (\<lambda>_. []) s'"
proof -
  from ramfs_one_inv obtain B where b: "ramfs_inv Map.empty B {file_example, root_example} ((\<lambda>_. [])(root_example := [file_example])) ramfs_one"
    "v_type (vnodes ramfs_one file_example) = VNODE_FILE" "v_name (vnodes ramfs_one file_example) = ''a''" by blast
  have e: "file_example = entry ramfs_one (((\<lambda>_. [])(root_example := [file_example])) root_example) ''a''"
    using b(3) by (simp add: entry_def)
  have o: "v_open_count (vnodes ramfs_one file_example) = 0" by code_simp
  have ne: "file_example \<noteq> NULL" "file_example \<noteq> root_example" by (simp_all add: file_example_def root_example_def)
  have d: "((\<lambda>_. [])(root_example := [file_example]))(root_example := remove1 file_example (((\<lambda>_. [])(root_example := [file_example])) root_example)) = (\<lambda>_. [])"
    by (simp add: fun_eq_iff)
  have l: "{file_example, root_example} - {file_example} = {root_example}" using ne by auto
  have r: "root_example \<in> {file_example, root_example}" by simp
  from ramfs_unlink_entry [OF b(1) r e refl] b(2) o ne d l show ?thesis by (auto simp: ramfs_inv_def)
qed

text \<open>
  Property C31: moving an entry to a directory that does not have the new name succeeds. The entry is the
  first of the new directory under its new name, its old directory keeps its other entries, every file
  keeps its contents and its size, and the file system is well-formed again.
\<close>

theorem ramfs_rename_entry:
  assumes "ramfs_inv F B L D s" and "old \<in> L" and "node \<in> set (D old)" and "new \<in> L" and "v_type (vnodes s new) = VNODE_DIR"
    and "node \<noteq> new" and "length name < VFS_NAME_MAX" and "entry s (D new) name = NULL"
    and "D1 = D(old := remove1 node (D old))"
  shows "\<exists>s'. ramfs_rename node new name s = Some (0, s') \<and> ramfs_inv F B L (D1(new := node # D1 new)) s' \<and>
    v_name (vnodes s' node) = name \<and> vfs_memory s' = vfs_memory s \<and> rfiles s' = rfiles s \<and>
    (\<forall>k. v_size (vnodes s' k) = v_size (vnodes s k) \<and> v_private_data (vnodes s' k) = v_private_data (vnodes s k))"
  by (rule ramfs_rename_spec [OF assms])

theorem ramfs_rename_entry_witness:
  "\<exists>s'. ramfs_rename file_example root_example ''b'' ramfs_one = Some (0, s') \<and> v_name (vnodes s' file_example) = ''b''"
proof -
  from ramfs_one_inv obtain B where b: "ramfs_inv Map.empty B {file_example, root_example} ((\<lambda>_. [])(root_example := [file_example])) ramfs_one"
    "v_type (vnodes ramfs_one root_example) = VNODE_DIR" "v_name (vnodes ramfs_one file_example) = ''a''" by blast
  have "file_example \<noteq> root_example" by (simp add: file_example_def root_example_def)
  with ramfs_rename_entry [OF b(1) _ _ _ b(2), of root_example file_example "''b''"] b(3) show ?thesis
    by (auto simp: entry_def VFS_NAME_MAX_def)
qed

text \<open>
  Property C32: resolving an absolute path in the memory file system mounted at the root walks the tree: it
  starts at the root, takes for each name of the path the entry of that name of the current directory,
  and ends with the node reached, or with NULL when a name is missing. It always returns, it changes
  nothing, and it does not depend on the other file systems, as long as no other mount covers the path.
\<close>

theorem vfs_resolve_walks_tree:
  assumes "tree_inv L D s" and "r \<in> L" and "\<forall>n \<in> L. v_ops (vnodes s n) = Some RAMFS_OPS"
    and "list_all valid_name cs" and "p = (if cs = [] then [slash] else path_of cs)"
    and "\<exists>m \<in> set (mounts s). mt_used m \<and> mt_path m = [slash]"
    and "\<forall>m \<in> set (mounts s). serves p m \<longrightarrow> mt_path m = [slash] \<and> mt_root m = r"
  shows "vfs_resolve (fs_table other) (Some p) s = Some (walk (\<lambda>d c. entry s (D d) c) r cs, s)"
proof -
  have "\<exists>m \<in> set (mounts s). serves p m" using assms(6) by (auto simp: serves_def)
  then obtain m rem where "find_mount_for p s = Some (m, rem)" "m \<in> set (mounts s)" "serves p m" "mt_path m = [slash]" "p = rem"
    using find_mount_for_best [where path = p and s = s] assms(7) by (cases "find_mount_for p s") auto
  then have m: "find_mount_for p s = Some (m, p)" "mt_root m = r" using assms(7) by auto
  have "ramfs_node s r" using assms(1-3) unfolding ramfs_node_def by blast
  from ramfs_paths.resolve_walk [OF this assms(4,5) m]
  have "vfs_resolve (fs_table other) (Some p) s = Some (walk (ramfs_child s) r cs, s)" .
  also have "walk (ramfs_child s) r cs = walk (\<lambda>d c. entry s (D d) c) r cs"
  proof (rule walk_cong [where P = "\<lambda>d. d \<in> L"])
    fix d c assume d: "d \<in> L"
    show e: "ramfs_child s d c = entry s (D d) c" by (rule ramfs_child_entry [OF assms(1) d])
    assume "ramfs_child s d c \<noteq> NULL"
    then have "ramfs_child s d c \<in> set (D d)" unfolding e by (rule entry_in)
    then show "ramfs_child s d c \<in> L" using tree_inv_dir [OF assms(1) d] by (auto simp: dir_ok_def)
  qed (rule assms(2))
  finally show ?thesis .
qed

theorem vfs_resolve_walks_tree_witness:
  "\<exists>s :: ramfs_state. vfs_resolve (fs_table (\<lambda>_. ramfs_ops)) (Some ''/a'') s = Some (file_example, s) \<and>
     vfs_resolve (fs_table (\<lambda>_. ramfs_ops)) (Some ''/b'') s = Some (NULL, s)"
proof -
  let ?s = "ramfs_one\<lparr>mounts := [\<lparr>mt_path = [slash], mt_root = root_example, mt_used = True\<rparr>]\<rparr>"
  let ?D = "(\<lambda>_. [])(root_example := [file_example])"
  from ramfs_one_inv obtain B where b: "ramfs_inv Map.empty B {file_example, root_example} ?D ramfs_one"
    "v_name (vnodes ramfs_one file_example) = ''a''" by blast
  have t: "tree_inv {file_example, root_example} ?D ?s" using b(1) by (simp add: ramfs_inv_def tree_inv_def dir_ok_def)
  have "v_ops (vnodes ramfs_one file_example) = Some RAMFS_OPS" "v_ops (vnodes ramfs_one root_example) = Some RAMFS_OPS"
    by code_simp+
  then have o: "\<forall>n \<in> {file_example, root_example}. v_ops (vnodes ?s n) = Some RAMFS_OPS" by simp
  have e: "entry ?s [file_example] ''a'' = file_example" "entry ?s [file_example] ''b'' = NULL" using b(2) by (simp_all add: entry_def)
  have f: "file_example \<noteq> NULL" by (simp add: file_example_def)
  note w = vfs_resolve_walks_tree [OF t _ o, where r = root_example and other = "\<lambda>_. ramfs_ops"]
  have "vfs_resolve (fs_table (\<lambda>_. ramfs_ops)) (Some ''/a'') ?s = Some (walk (\<lambda>d c. entry ?s (?D d) c) root_example [''a''], ?s)"
    by (rule w) (auto simp: valid_name_def slash_def VFS_NAME_MAX_def serves_def)
  moreover have "vfs_resolve (fs_table (\<lambda>_. ramfs_ops)) (Some ''/b'') ?s = Some (walk (\<lambda>d c. entry ?s (?D d) c) root_example [''b''], ?s)"
    by (rule w) (auto simp: valid_name_def slash_def VFS_NAME_MAX_def serves_def)
  ultimately show ?thesis using e f by (intro exI [of _ ?s]) simp
qed

end
