(* ===== verification/Socket.thy ===== *)
theory Socket
  imports Task Vfs
begin

text \<open>
  Local stream sockets, \<^verbatim>\<open>kernel/system/socket.c\<close>. The store \<open>sk\<close> holds the structure \<^verbatim>\<open>Socket\<close> at
  each address; the receive buffer \<^verbatim>\<open>rx\<close> is a run of pages of the byte memory, used as a ring of
  \<open>SOCK_BUF_SIZE\<close> bytes. The operations here take the socket itself; the calls that find it by a file
  descriptor are in \<open>Kernel\<close>. An operation that has to wait calls \<open>task_block\<close> and
  reports \<open>Blocked\<close> with what its loop carries over to the next pass; that pass is the same operation,
  run again when the task has been woken.
\<close>

datatype socket_state = SOCKET_UNBOUND | SOCKET_BOUND | SOCKET_LISTENING | SOCKET_CONNECTED

record sock =
  s_state :: socket_state
  s_flags :: u32
  s_name :: string
  s_peer :: ptr
  s_was_connected :: bool
  s_rx :: ptr
  s_rx_head :: u64
  s_rx_count :: u64
  s_backlog :: "ptr list"
  s_next_listener :: ptr

record sockets =
  sk_sched :: sched
  sk :: "ptr \<Rightarrow> sock"
  sock_listeners :: ptr

definition SOCK_NONBLOCK :: u32 where "SOCK_NONBLOCK = 0x1"
definition SOCK_IOCTL_NONBLOCK :: u64 where "SOCK_IOCTL_NONBLOCK = 0x534b01"
definition SOCK_NAME_MAX :: nat where "SOCK_NAME_MAX = 64"
definition SOCK_BUF_SIZE :: u64 where "SOCK_BUF_SIZE = 64 * 1024"
definition SOCK_BACKLOG :: nat where "SOCK_BACKLOG = 32"
definition SOCK_SIZE :: u64 where "SOCK_SIZE = 520"

definition EAGAIN :: int where "EAGAIN = 11"
definition EINVAL :: int where "EINVAL = 22"
definition EPIPE :: int where "EPIPE = 32"
definition EADDRINUSE :: int where "EADDRINUSE = 98"
definition ECONNREFUSED :: int where "ECONNREFUSED = 111"
definition EMFILE :: int where "EMFILE = 24"
definition ENOMEM :: int where "ENOMEM = 12"
definition EBADF :: int where "EBADF = 9"

definition sock_zero :: sock where
  "sock_zero = \<lparr>s_state = SOCKET_UNBOUND, s_flags = 0, s_name = [], s_peer = NULL, s_was_connected = False,
     s_rx = NULL, s_rx_head = 0, s_rx_count = 0, s_backlog = [], s_next_listener = NULL\<rparr>"

subsection \<open>Access to the state\<close>

definition upd_sock :: "ptr \<Rightarrow> (sock \<Rightarrow> sock) \<Rightarrow> sockets \<Rightarrow> sockets" where
  "upd_sock p f st = st\<lparr>sk := (sk st)(p := f (sk st p))\<rparr>"

definition sk_heap :: "sockets \<Rightarrow> heap" where
  "sk_heap st = up_heap (sc_mem (sk_sched st))"

definition set_sk_heap :: "heap \<Rightarrow> sockets \<Rightarrow> sockets" where
  "set_sk_heap h st = st\<lparr>sk_sched := (sk_sched st)\<lparr>sc_mem := (sc_mem (sk_sched st))\<lparr>up_heap := h\<rparr>\<rparr>\<rparr>"

definition sk_memory :: "sockets \<Rightarrow> mem" where
  "sk_memory st = hmem (sk_heap st)"

definition set_sk_memory :: "mem \<Rightarrow> sockets \<Rightarrow> sockets" where
  "set_sk_memory m st = set_sk_heap ((sk_heap st)\<lparr>hmem := m\<rparr>) st"

definition sk_wake :: "sockets \<Rightarrow> sockets ret" where
  "sk_wake st = do { s \<leftarrow> task_wake_waiters (sk_sched st); Some (st\<lparr>sk_sched := s\<rparr>) }"

definition sk_block :: "nat \<Rightarrow> sockets \<Rightarrow> sockets ret" where
  "sk_block c st = do { s \<leftarrow> task_block c TASK_BLOCK_FOREVER (sk_sched st); Some (st\<lparr>sk_sched := s\<rparr>) }"

definition sk_free_rx :: "ptr \<Rightarrow> sockets \<Rightarrow> sockets ret" where
  "sk_free_rx p st =
     do { m \<leftarrow> pmm_free_pages p (SOCK_BUF_SIZE div PAGE_SIZE) (hp_pmm (sk_heap st));
          Some (set_sk_heap ((sk_heap st)\<lparr>hp_pmm := m\<rparr>) st) }"

definition sk_kfree :: "ptr \<Rightarrow> sockets \<Rightarrow> sockets ret" where
  "sk_kfree p st = do { h \<leftarrow> kfree p (sk_heap st); Some (set_sk_heap h st) }"

subsection \<open>Making and destroying sockets\<close>

definition sock_new :: "u32 \<Rightarrow> sockets \<Rightarrow> (ptr \<times> sockets) ret" where
  "sock_new flags st =
     do { (p, h) \<leftarrow> kcalloc 1 SOCK_SIZE (sk_heap st);
          let st1 = set_sk_heap h st
          in if p = NULL then Some (NULL, st1)
             else Some (p, upd_sock p (\<lambda>_. sock_zero\<lparr>s_flags := flags\<rparr>) st1) }"

definition sock_alloc_rx :: "ptr \<Rightarrow> sockets \<Rightarrow> (bool \<times> sockets) ret" where
  "sock_alloc_rx p st =
     do { (q, m) \<leftarrow> pmm_alloc_pages (SOCK_BUF_SIZE div PAGE_SIZE) (hp_pmm (sk_heap st));
          let st1 = set_sk_heap ((sk_heap st)\<lparr>hp_pmm := m\<rparr>) st
          in Some (q \<noteq> NULL, upd_sock p (\<lambda>s. s\<lparr>s_rx := q, s_rx_head := 0, s_rx_count := 0\<rparr>) st1) }"

text \<open>A \<^verbatim>\<open>Socket **\<close> is the list head (\<open>None\<close>) or the \<^verbatim>\<open>next_listener\<close> field of a socket.\<close>

definition get_lsn :: "ptr option \<Rightarrow> sockets \<Rightarrow> ptr" where
  "get_lsn l st = (case l of None \<Rightarrow> sock_listeners st | Some p \<Rightarrow> s_next_listener (sk st p))"

definition set_lsn :: "ptr option \<Rightarrow> ptr \<Rightarrow> sockets \<Rightarrow> sockets" where
  "set_lsn l v st = (case l of None \<Rightarrow> st\<lparr>sock_listeners := v\<rparr>
     | Some p \<Rightarrow> upd_sock p (s_next_listener_update (\<lambda>_. v)) st)"

partial_function (option) lsn_seek :: "ptr option \<Rightarrow> ptr \<Rightarrow> sockets \<Rightarrow> ptr option ret" where
  [code]: "lsn_seek l p st =
     (if get_lsn l st \<noteq> NULL \<and> get_lsn l st \<noteq> p then lsn_seek (Some (get_lsn l st)) p st else Some l)"

definition unlink_listener :: "ptr \<Rightarrow> sockets \<Rightarrow> sockets ret" where
  "unlink_listener p st =
     do { l \<leftarrow> lsn_seek None p st;
          Some (if get_lsn l st \<noteq> NULL then set_lsn l (s_next_listener (sk st p)) st else st) }"

fun destroy_all :: "(ptr \<Rightarrow> sockets \<Rightarrow> sockets ret) \<Rightarrow> ptr list \<Rightarrow> sockets \<Rightarrow> sockets ret" where
  "destroy_all f [] st = Some st"
| "destroy_all f (p # ps) st = do { st' \<leftarrow> f p st; destroy_all f ps st' }"

text \<open>The end of \<^verbatim>\<open>sock_destroy\<close>: the peer is told, the buffer and the socket are freed.\<close>

definition sock_release :: "ptr \<Rightarrow> sockets \<Rightarrow> sockets ret" where
  "sock_release p st =
     (let st1 = (if s_peer (sk st p) \<noteq> NULL
                 then upd_sock p (s_peer_update (\<lambda>_. NULL))
                        (upd_sock (s_peer (sk st p)) (s_peer_update (\<lambda>_. NULL)) st)
                 else st)
      in do { st2 \<leftarrow> (if s_rx (sk st1 p) \<noteq> NULL then sk_free_rx (s_rx (sk st1 p)) st1 else Some st1);
              st3 \<leftarrow> sk_kfree p st2;
              sk_wake st3 })"

text \<open>\<^verbatim>\<open>sock_destroy\<close> calls itself on the sockets of a backlog; the first argument bounds the depth of
  these calls. A socket of a backlog is connected and has no backlog, so that 2 is enough.\<close>

fun sock_destroy :: "nat \<Rightarrow> ptr \<Rightarrow> sockets \<Rightarrow> sockets ret" where
  "sock_destroy 0 p st = None"
| "sock_destroy (Suc d) p st =
     do { st1 \<leftarrow> (if s_state (sk st p) = SOCKET_LISTENING
                  then do { st' \<leftarrow> unlink_listener p st;
                            st'' \<leftarrow> destroy_all (sock_destroy d) (s_backlog (sk st' p)) st';
                            Some (upd_sock p (s_backlog_update (\<lambda>_. [])) st'') }
                  else Some st);
          sock_release p st1 }"

subsection \<open>Reading and writing\<close>

definition nonblocking :: "sock \<Rightarrow> bool" where
  "nonblocking s \<longleftrightarrow> s_flags s AND SOCK_NONBLOCK \<noteq> 0"

definition min_u64 :: "u64 \<Rightarrow> u64 \<Rightarrow> u64" where
  "min_u64 a b = (if a < b then a else b)"

text \<open>Taking \<open>n\<close> bytes out of the ring into \<open>out\<close>.\<close>

definition sock_pop :: "ptr \<Rightarrow> ptr \<Rightarrow> u64 \<Rightarrow> sockets \<Rightarrow> sockets" where
  "sock_pop p out n st =
     (let s = sk st p;
          first = min_u64 n (SOCK_BUF_SIZE - s_rx_head s);
          m1 = memcpy out (s_rx s + s_rx_head s) first (sk_memory st);
          m2 = memcpy (out + first) (s_rx s) (n - first) m1
      in upd_sock p (\<lambda>s. s\<lparr>s_rx_head := (s_rx_head s + n) mod SOCK_BUF_SIZE, s_rx_count := s_rx_count s - n\<rparr>)
           (set_sk_memory m2 st))"

definition sock_read :: "nat \<Rightarrow> ptr \<Rightarrow> ptr \<Rightarrow> u64 \<Rightarrow> sockets \<Rightarrow> (unit sys \<times> sockets) ret" where
  "sock_read c p buf cnt st =
     (if p = NULL then Some (Ret (- EBADF), st)
      else if cnt = 0 then Some (Ret 0, st)
      else let s = sk st p
           in if s_state s \<noteq> SOCKET_CONNECTED then Some (Ret (- EINVAL), st)
              else if s_rx_count s > 0
              then let n = min_u64 cnt (s_rx_count s)
                   in do { st' \<leftarrow> sk_wake (sock_pop p buf n st); Some (Ret (sint n), st') }
              else if s_peer s = NULL then Some (Ret 0, st)
              else if nonblocking s then Some (Ret (- EAGAIN), st)
              else do { st' \<leftarrow> sk_block c st; Some (Blocked (), st') })"

definition sock_push :: "ptr \<Rightarrow> ptr \<Rightarrow> u64 \<Rightarrow> sockets \<Rightarrow> sockets" where
  "sock_push dst src n st =
     (let d = sk st dst;
          tail = (s_rx_head d + s_rx_count d) mod SOCK_BUF_SIZE;
          first = min_u64 n (SOCK_BUF_SIZE - tail);
          m1 = memcpy (s_rx d + tail) src first (sk_memory st);
          m2 = memcpy (s_rx d) (src + first) (n - first) m1
      in upd_sock dst (\<lambda>s. s\<lparr>s_rx_count := s_rx_count s + n\<rparr>) (set_sk_memory m2 st))"

partial_function (option) sock_write_loop ::
  "nat \<Rightarrow> ptr \<Rightarrow> ptr \<Rightarrow> u64 \<Rightarrow> u64 \<Rightarrow> sockets \<Rightarrow> (u64 sys \<times> sockets) ret" where
  [code]: "sock_write_loop c p src cnt written st =
     (if \<not> written < cnt then Some (Ret (sint written), st)
      else let peer = s_peer (sk st p)
           in if peer = NULL then Some (Ret (if written \<noteq> 0 then sint written else - EPIPE), st)
              else let remaining = cnt - written;
                       space = SOCK_BUF_SIZE - s_rx_count (sk st peer)
                   in if nonblocking (sk st p) \<and> (space = 0 \<or> remaining \<le> SOCK_BUF_SIZE \<and> space < remaining)
                      then Some (Ret (if written \<noteq> 0 then sint written else - EAGAIN), st)
                      else if space > 0
                      then let n = min_u64 space remaining
                           in do { st' \<leftarrow> sk_wake (sock_push peer (src + written) n st);
                                   sock_write_loop c p src cnt (written + n) st' }
                      else do { st' \<leftarrow> sk_block c st; Some (Blocked written, st') })"

definition sock_write :: "nat \<Rightarrow> ptr \<Rightarrow> ptr \<Rightarrow> u64 \<Rightarrow> sockets \<Rightarrow> (u64 sys \<times> sockets) ret" where
  "sock_write c p src cnt st =
     (if p = NULL then Some (Ret (- EBADF), st)
      else if s_state (sk st p) \<noteq> SOCKET_CONNECTED then Some (Ret (- EINVAL), st)
      else sock_write_loop c p src cnt 0 st)"

text \<open>The \<^verbatim>\<open>int\<close> that \<open>arg\<close> points to is read from memory.\<close>

definition sock_ioctl :: "ptr \<Rightarrow> u64 \<Rightarrow> ptr \<Rightarrow> sockets \<Rightarrow> int \<times> sockets" where
  "sock_ioctl p request arg st =
     (if p = NULL then (- EBADF, st)
      else if request \<noteq> SOCK_IOCTL_NONBLOCK \<or> arg = NULL then (- EINVAL, st)
      else if load_u32 (sk_memory st) arg \<noteq> 0
      then (0, upd_sock p (\<lambda>s. s\<lparr>s_flags := s_flags s OR SOCK_NONBLOCK\<rparr>) st)
      else (0, upd_sock p (\<lambda>s. s\<lparr>s_flags := s_flags s AND NOT SOCK_NONBLOCK\<rparr>) st))"

definition sock_close :: "ptr \<Rightarrow> sockets \<Rightarrow> (int \<times> sockets) ret" where
  "sock_close p st =
     (if p = NULL then Some (- 1, st) else do { st' \<leftarrow> sock_destroy 2 p st; Some (0, st') })"

definition sock_poll :: "ptr \<Rightarrow> sockets \<Rightarrow> int" where
  "sock_poll p st =
     (if p = NULL then POLLNVAL
      else let s = sk st p
           in case s_state s of
                SOCKET_LISTENING \<Rightarrow> (if s_backlog s \<noteq> [] then POLLIN else 0)
              | SOCKET_CONNECTED \<Rightarrow>
                  or (if s_rx_count s > 0 then POLLIN else 0)
                     (if s_peer s = NULL then or POLLIN POLLHUP
                      else if s_rx_count (sk st (s_peer s)) < SOCK_BUF_SIZE then POLLOUT else 0)
              | _ \<Rightarrow> 0)"

subsection \<open>Connecting\<close>

partial_function (option) listener_loop :: "string \<Rightarrow> ptr \<Rightarrow> sockets \<Rightarrow> ptr ret" where
  [code]: "listener_loop name l st =
     (if l = NULL then Some NULL
      else if s_name (sk st l) = name then Some l
      else listener_loop name (s_next_listener (sk st l)) st)"

definition sock_find_listener :: "string \<Rightarrow> sockets \<Rightarrow> ptr ret" where
  "sock_find_listener name st = listener_loop name (sock_listeners st) st"

definition sock_bind :: "ptr \<Rightarrow> string option \<Rightarrow> sockets \<Rightarrow> (int \<times> sockets) ret" where
  "sock_bind p name st =
     (case name of None \<Rightarrow> Some (- EBADF, st)
      | Some nm \<Rightarrow>
          if p = NULL then Some (- EBADF, st)
          else if length nm = 0 \<or> length nm \<ge> SOCK_NAME_MAX then Some (- EINVAL, st)
          else if s_state (sk st p) \<noteq> SOCKET_UNBOUND then Some (- EINVAL, st)
          else do { l \<leftarrow> sock_find_listener nm st;
                    if l \<noteq> NULL then Some (- EADDRINUSE, st)
                    else Some (0, upd_sock p (\<lambda>s. s\<lparr>s_name := nm, s_state := SOCKET_BOUND\<rparr>) st) })"

definition sock_listen :: "ptr \<Rightarrow> sockets \<Rightarrow> (int \<times> sockets) ret" where
  "sock_listen p st =
     (if p = NULL then Some (- EBADF, st)
      else if s_state (sk st p) \<noteq> SOCKET_BOUND then Some (- EINVAL, st)
      else do { l \<leftarrow> sock_find_listener (s_name (sk st p)) st;
                if l \<noteq> NULL then Some (- EINVAL, st)
                else Some (0, (upd_sock p (\<lambda>s. s\<lparr>s_state := SOCKET_LISTENING, s_next_listener := sock_listeners st\<rparr>) st)
                               \<lparr>sock_listeners := p\<rparr>) })"

text \<open>The first connection of the backlog of \<open>p\<close>, taken out of it.\<close>

definition accept_pop :: "ptr \<Rightarrow> sockets \<Rightarrow> ptr \<times> sockets" where
  "accept_pop p st =
     (let conn = hd (s_backlog (sk st p));
          st1 = upd_sock p (\<lambda>s. s\<lparr>s_backlog := tl (s_backlog s)\<rparr>) st
      in (conn, upd_sock conn (\<lambda>s. s\<lparr>s_flags := s_flags (sk st1 p) AND SOCK_NONBLOCK\<rparr>) st1))"

definition sock_connect :: "ptr \<Rightarrow> string option \<Rightarrow> sockets \<Rightarrow> (int \<times> sockets) ret" where
  "sock_connect p name st =
     (case name of None \<Rightarrow> Some (- EBADF, st)
      | Some nm \<Rightarrow>
          if p = NULL then Some (- EBADF, st)
          else do {
            (conn, st1) \<leftarrow> sock_new 0 st;
            if conn = NULL then Some (- ENOMEM, st1)
            else do {
              (ok1, st2) \<leftarrow> sock_alloc_rx conn st1;
              (ok, st3) \<leftarrow> (if \<not> ok1 then Some (False, st2)
                            else if s_rx (sk st2 p) = NULL then sock_alloc_rx p st2 else Some (True, st2));
              if \<not> ok
              then do { st4 \<leftarrow> (if s_rx (sk st3 conn) \<noteq> NULL then sk_free_rx (s_rx (sk st3 conn)) st3 else Some st3);
                        st5 \<leftarrow> sk_kfree conn st4;
                        Some (- ENOMEM, st5) }
              else do {
                listener \<leftarrow> sock_find_listener nm st3;
                let rc = (if s_state (sk st3 p) \<noteq> SOCKET_UNBOUND then - EINVAL
                          else if listener = NULL then - ECONNREFUSED
                          else if length (s_backlog (sk st3 listener)) \<ge> SOCK_BACKLOG then - EAGAIN
                          else 0)
                in if rc \<noteq> 0
                   then do { st4 \<leftarrow> sock_destroy 2 conn st3; Some (rc, st4) }
                   else let st4 = upd_sock conn (\<lambda>s. s\<lparr>s_state := SOCKET_CONNECTED, s_was_connected := True, s_peer := p\<rparr>) st3;
                            st5 = upd_sock p (\<lambda>s. s\<lparr>s_state := SOCKET_CONNECTED, s_was_connected := True, s_peer := conn\<rparr>) st4;
                            st6 = upd_sock listener (\<lambda>s. s\<lparr>s_backlog := s_backlog s @ [conn]\<rparr>) st5
                        in do { st7 \<leftarrow> sk_wake st6; Some (0, st7) } } } })"

subsection \<open>The ring buffer as a queue of bytes\<close>

text \<open>The bytes waiting in a receive buffer, oldest first.\<close>

definition ring_bytes :: "mem \<Rightarrow> ptr \<Rightarrow> nat \<Rightarrow> nat \<Rightarrow> u8 list" where
  "ring_bytes m b h n = map (\<lambda>i. m (b + of_nat ((h + i) mod 65536))) [0..<n]"

definition rx_queue :: "sockets \<Rightarrow> ptr \<Rightarrow> u8 list" where
  "rx_queue st p = ring_bytes (sk_memory st) (s_rx (sk st p)) (unat (s_rx_head (sk st p))) (unat (s_rx_count (sk st p)))"

definition rx_ok :: "sockets \<Rightarrow> ptr \<Rightarrow> bool" where
  "rx_ok st p \<longleftrightarrow> s_rx_head (sk st p) < SOCK_BUF_SIZE \<and> s_rx_count (sk st p) \<le> SOCK_BUF_SIZE"

lemma unat_SOCK_BUF_SIZE [simp]: "unat SOCK_BUF_SIZE = 65536"
  by (simp add: SOCK_BUF_SIZE_def)

lemma rx_ok_nat: "rx_ok st p \<longleftrightarrow> unat (s_rx_head (sk st p)) < 65536 \<and> unat (s_rx_count (sk st p)) \<le> 65536"
  by (simp add: rx_ok_def word_less_nat_alt word_le_nat_alt)

lemma min_u64_nat [simp]: "unat (min_u64 a b) = min (unat a) (unat b)"
  by (simp add: min_u64_def word_less_nat_alt min_def)

lemma length_rx_queue [simp]: "length (rx_queue st p) = unat (s_rx_count (sk st p))"
  by (simp add: rx_queue_def ring_bytes_def)

lemma sk_access [simp]:
  "sk (set_sk_heap h st) = sk st" "sk (set_sk_memory m st) = sk st"
  "sock_listeners (set_sk_heap h st) = sock_listeners st" "sock_listeners (set_sk_memory m st) = sock_listeners st"
  "sk_memory (set_sk_memory m st) = m" "sk_memory (upd_sock p f st) = sk_memory st"
  "sk_heap (set_sk_heap h st) = h" "sk_heap (upd_sock p f st) = sk_heap st"
  "sk_sched (upd_sock p f st) = sk_sched st" "sock_listeners (upd_sock p f st) = sock_listeners st"
  "sk (upd_sock p f st) q = (if q = p then f (sk st p) else sk st q)"
  by (simp_all add: set_sk_heap_def set_sk_memory_def sk_heap_def sk_memory_def upd_sock_def)

text \<open>Where the two copies of \<open>sock_push\<close> put byte \<open>k\<close> of the source.\<close>

lemma ring_split:
  assumes "h < 65536" and "c + n \<le> (65536 :: nat)" and "t = (h + c) mod 65536" and "f = min n (65536 - t)" and "i < c + n"
    and "j = (h + i) mod 65536"
  shows "(t \<le> j \<and> j < t + f \<or> j < n - f) \<longleftrightarrow> c \<le> i"
    and "c \<le> i \<Longrightarrow> t \<le> j \<and> j < t + f \<Longrightarrow> j - t = i - c"
    and "c \<le> i \<Longrightarrow> \<not> (t \<le> j \<and> j < t + f) \<Longrightarrow> f + j = i - c"
    and "c \<le> i \<Longrightarrow> t \<le> j \<and> j < t + f \<Longrightarrow> \<not> j < n - f"
proof -
  have t: "t = (if h + c < 65536 then h + c else h + c - 65536)" using assms(1-3) by (simp add: mod_if)
  have j: "j = (if h + i < 65536 then h + i else h + i - 65536)" using assms(1,2,5,6) by (simp add: mod_if)
  show "(t \<le> j \<and> j < t + f \<or> j < n - f) \<longleftrightarrow> c \<le> i"
    and "c \<le> i \<Longrightarrow> t \<le> j \<and> j < t + f \<Longrightarrow> j - t = i - c"
    and "c \<le> i \<Longrightarrow> \<not> (t \<le> j \<and> j < t + f) \<Longrightarrow> f + j = i - c"
    and "c \<le> i \<Longrightarrow> t \<le> j \<and> j < t + f \<Longrightarrow> \<not> j < n - f"
    using assms(1,2,4,5) unfolding t j by (auto simp: min_def split: if_splits)
qed

lemma sock_push_queue:
  assumes "rx_ok st p" and "unat (s_rx_count (sk st p)) + unat n \<le> 65536"
    and "apart (s_rx (sk st p)) 65536 src (unat n)"
  shows "rx_queue (sock_push p src n st) p = rx_queue st p @ bytes_at (sk_memory st) src (unat n)"
    and "rx_ok (sock_push p src n st) p"
    and "\<not> unat (a - s_rx (sk st p)) < 65536 \<Longrightarrow> sk_memory (sock_push p src n st) a = sk_memory st a"
    and "sk (sock_push p src n st) = (sk st)(p := (sk st p)\<lparr>s_rx_count := s_rx_count (sk st p) + n\<rparr>)"
proof -
  define h c where "h = s_rx_head (sk st p)" and "c = s_rx_count (sk st p)"
  define b m where "b = s_rx (sk st p)" and "m = sk_memory st"
  define t where "t = (h + c) mod SOCK_BUF_SIZE"
  define f where "f = min_u64 n (SOCK_BUF_SIZE - t)"
  define m1 where "m1 = memcpy (b + t) src f m"
  define m2 where "m2 = memcpy b (src + f) (n - f) m1"
  have push: "sock_push p src n st = upd_sock p (\<lambda>s. s\<lparr>s_rx_count := s_rx_count s + n\<rparr>) (set_sk_memory m2 st)"
    by (simp add: sock_push_def Let_def m2_def m1_def f_def t_def b_def m_def h_def c_def)
  have hc: "unat h < 65536" "unat c + unat n \<le> 65536"
    using assms(1,2) by (simp_all add: rx_ok_nat h_def c_def)
  then have uhc: "unat (h + c) = unat h + unat c" by (subst unat_add_nowrap) simp_all
  then have ut: "unat t = (unat h + unat c) mod 65536" by (simp add: t_def unat_mod)
  then have t: "unat t < 65536" by simp
  then have "unat (SOCK_BUF_SIZE - t) = 65536 - unat t" by (subst unat_diff_nowrap) simp_all
  then have uf: "unat f = min (unat n) (65536 - unat t)" by (simp add: f_def)
  then have fn: "unat (n - f) = unat n - unat f" "unat t + unat f \<le> 65536" using t
    by (simp_all add: unat_diff_nowrap)
  have ap: "apart b 65536 src (unat n)" using assms(3) by (simp add: b_def)
  have ap1: "apart b 65536 src (unat f)" by (rule apart_mono [OF ap]) (simp_all add: uf)
  have ap2: "apart b 65536 (src + f) (unat (n - f))"
    by (rule apart_sym, rule apart_off, rule apart_sym [OF ap]) (simp add: fn uf)
  have n65: "unat (n - f) \<le> 65536" using fn hc by simp
  have at1: "m1 (b + of_nat j) = (if unat t \<le> j \<and> j < unat t + unat f then m (src + of_nat (j - unat t)) else m (b + of_nat j))"
    if "j < 65536" for j unfolding m1_def by (rule memcpy_into [OF ap1 fn(2) that]) simp
  have src1: "m1 (src + of_nat k) = m (src + of_nat k)" if "k < unat n" for k
  proof -
    have "unat (of_nat k :: u64) < unat n" using that unat_lt_64 [of n] by (simp add: unat_of_nat_small)
    then have "\<not> unat (src + of_nat k - b) < 65536"
      by (intro apart_in [OF apart_sym [OF ap]]) simp
    then show ?thesis unfolding m1_def by (rule memcpy_outside [OF ap1 fn(2)])
  qed
  have at2: "m2 (b + of_nat j) = (if j < unat n - unat f then m1 (src + f + of_nat j) else m1 (b + of_nat j))"
    if "j < 65536" for j
    using memcpy_into [OF ap2, of 0 j m1] that n65 by (simp add: m2_def fn)
  have q: "m2 (b + of_nat ((unat h + i) mod 65536)) =
      (if i < unat c then m (b + of_nat ((unat h + i) mod 65536)) else m (src + of_nat (i - unat c)))"
    if i: "i < unat c + unat n" for i
  proof -
    define j where "j = (unat h + i) mod 65536"
    have j: "j < 65536" by (simp add: j_def)
    note r = ring_split [OF hc ut uf i j_def]
    have s: "src + f + of_nat j = src + of_nat (unat f + j)" by (simp add: algebra_simps)
    show ?thesis unfolding j_def [symmetric]
    proof (cases "i < unat c")
      case True
      with r(1) show "m2 (b + of_nat j) = (if i < unat c then m (b + of_nat j) else m (src + of_nat (i - unat c)))"
        using at2 [OF j] at1 [OF j] by auto
    next
      case False
      then have ci: "unat c \<le> i" by simp
      have k: "i - unat c < unat n" using i ci by simp
      show "m2 (b + of_nat j) = (if i < unat c then m (b + of_nat j) else m (src + of_nat (i - unat c)))"
      proof (cases "unat t \<le> j \<and> j < unat t + unat f")
        case True
        then show ?thesis using at2 [OF j] at1 [OF j] r(2,4) [OF ci True] False by simp
      next
        case o: False
        then have "j < unat n - unat f" using r(1) ci by blast
        moreover have "unat f + j = i - unat c" by (rule r(3) [OF ci o])
        ultimately show ?thesis using at2 [OF j] src1 [OF k] False unfolding s by simp
      qed
    qed
  qed
  have ucn: "unat (c + n) = unat c + unat n" using hc by (subst unat_add_nowrap) simp_all
  have "ring_bytes m2 b (unat h) (unat (c + n)) = ring_bytes m b (unat h) (unat c) @ bytes_at m src (unat n)"
    by (rule nth_equalityI) (use q ucn in \<open>auto simp: ring_bytes_def nth_append nth_bytes_at\<close>)
  then show "rx_queue (sock_push p src n st) p = rx_queue st p @ bytes_at (sk_memory st) src (unat n)"
    unfolding push rx_queue_def by (simp add: b_def m_def h_def c_def)
  show "rx_ok (sock_push p src n st) p"
    using hc ucn unfolding push by (simp add: rx_ok_nat h_def c_def)
  show "sk (sock_push p src n st) = (sk st)(p := (sk st p)\<lparr>s_rx_count := s_rx_count (sk st p) + n\<rparr>)"
    unfolding push by (simp add: fun_eq_iff)
  assume o: "\<not> unat (a - s_rx (sk st p)) < 65536"
  then have "m1 a = m a" unfolding m1_def by (intro memcpy_outside [OF ap1 fn(2)]) (simp add: b_def)
  moreover have "m2 a = m1 a"
    using memcpy_outside [OF ap2, of 0 a m1] o n65 by (simp add: m2_def b_def)
  ultimately show "sk_memory (sock_push p src n st) a = sk_memory st a" unfolding push by (simp add: m_def)
qed

lemma sock_pop_queue:
  assumes "rx_ok st p" and "unat n \<le> unat (s_rx_count (sk st p))" and "apart (s_rx (sk st p)) 65536 out (unat n)"
  shows "bytes_at (sk_memory (sock_pop p out n st)) out (unat n) = take (unat n) (rx_queue st p)"
    and "rx_queue (sock_pop p out n st) p = drop (unat n) (rx_queue st p)"
    and "rx_ok (sock_pop p out n st) p"
    and "\<not> unat (a - out) < unat n \<Longrightarrow> sk_memory (sock_pop p out n st) a = sk_memory st a"
    and "sk (sock_pop p out n st) = (sk st)(p := (sk st p)\<lparr>s_rx_head := (s_rx_head (sk st p) + n) mod SOCK_BUF_SIZE,
           s_rx_count := s_rx_count (sk st p) - n\<rparr>)"
proof -
  define h c where "h = s_rx_head (sk st p)" and "c = s_rx_count (sk st p)"
  define b m where "b = s_rx (sk st p)" and "m = sk_memory st"
  define f where "f = min_u64 n (SOCK_BUF_SIZE - h)"
  define m1 where "m1 = memcpy out (b + h) f m"
  define m2 where "m2 = memcpy (out + f) b (n - f) m1"
  have pop: "sock_pop p out n st = upd_sock p (\<lambda>s. s\<lparr>s_rx_head := (s_rx_head s + n) mod SOCK_BUF_SIZE,
      s_rx_count := s_rx_count s - n\<rparr>) (set_sk_memory m2 st)"
    by (simp add: sock_pop_def Let_def m2_def m1_def f_def b_def m_def h_def)
  have hc: "unat h < 65536" "unat n \<le> unat c" "unat c \<le> 65536"
    using assms(1,2) by (simp_all add: rx_ok_nat h_def c_def)
  then have "unat (SOCK_BUF_SIZE - h) = 65536 - unat h" by (subst unat_diff_nowrap) simp_all
  then have uf: "unat f = min (unat n) (65536 - unat h)" by (simp add: f_def)
  then have fn: "unat (n - f) = unat n - unat f" "unat f + unat (n - f) \<le> unat n" "unat h + unat f \<le> 65536"
    using hc by (simp_all add: unat_diff_nowrap)
  have ap: "apart out (unat n) b 65536" using assms(3) by (simp add: b_def apart_sym)
  have ap1: "apart out (unat n) (b + h) (unat f)" by (rule apart_sym, rule apart_off [OF apart_sym [OF ap] fn(3)])
  have ap2: "apart out (unat n) b (unat (n - f))" by (rule apart_mono [OF ap]) (use fn hc in simp_all)
  have N: "unat n \<le> 2 ^ 64" using hc by simp
  have ring: "m1 (b + x) = m (b + x)" "m2 (b + x) = m (b + x)" if "unat x < 65536" for x
  proof -
    have o: "\<not> unat (b + x - out) < unat n" by (rule apart_in [OF apart_sym [OF ap]]) (use that in simp)
    have "m1 (b + x) = m (b + x)" "m2 (b + x) = m1 (b + x)"
      using memcpy_outside [OF ap1, of 0] memcpy_outside [OF ap2 fn(2)] o uf
      by (simp_all add: m1_def m2_def)
    then show "m1 (b + x) = m (b + x)" "m2 (b + x) = m (b + x)" by simp_all
  qed
  have out: "m2 (out + of_nat i) = m (b + of_nat ((unat h + i) mod 65536))" if i: "i < unat n" for i
  proof (cases "i < unat f")
    case True
    have "m2 (out + of_nat i) = m1 (out + of_nat i)"
      using memcpy_into [OF ap2 fn(2) i N, of m1] True by (simp add: m2_def)
    also have "\<dots> = m (b + h + of_nat i)"
      using memcpy_into [OF ap1, of 0 i m] True i N uf by (simp add: m1_def)
    also have "b + h + of_nat i = b + of_nat ((unat h + i) mod 65536)" using True fn(3) by (simp add: mod_if algebra_simps)
    finally show ?thesis .
  next
    case False
    then have fi: "unat f \<le> i" "i < unat f + unat (n - f)" using i fn(1) uf by simp_all
    have l: "i - unat f < 65536" using i hc by simp
    have "m2 (out + of_nat i) = m1 (b + of_nat (i - unat f))"
      using memcpy_into [OF ap2 fn(2) i N, of m1] fi by (simp add: m2_def)
    also have "\<dots> = m (b + of_nat (i - unat f))" by (rule ring(1)) (use l in \<open>simp add: unat_of_nat_small\<close>)
    also have "i - unat f = (unat h + i) mod 65536"
      using fi fn(1) uf hc i by (auto simp: mod_if min_def split: if_splits)
    finally show ?thesis .
  qed
  have uc: "unat (c - n) = unat c - unat n" using hc by (simp add: unat_diff_nowrap)
  have uh: "unat ((h + n) mod SOCK_BUF_SIZE) = (unat h + unat n) mod 65536"
    using hc unat_add_nowrap [of h n] by (simp add: unat_mod)
  have rb: "m2 (b + of_nat (i mod 65536)) = m (b + of_nat (i mod 65536))" for i
    by (rule ring(2)) (simp add: unat_of_nat_small)
  have "ring_bytes m2 b (unat ((h + n) mod SOCK_BUF_SIZE)) (unat (c - n)) =
      drop (unat n) (ring_bytes m b (unat h) (unat c))"
    unfolding uc uh by (rule nth_equalityI) (simp_all add: ring_bytes_def rb mod_simps nth_upt [of 0, simplified] less_diff_conv ac_simps)
  then show "rx_queue (sock_pop p out n st) p = drop (unat n) (rx_queue st p)"
    unfolding pop rx_queue_def by (simp add: b_def m_def h_def c_def)
  have "bytes_at m2 out (unat n) = take (unat n) (ring_bytes m b (unat h) (unat c))"
    by (rule nth_equalityI) (use out hc in \<open>simp_all add: ring_bytes_def nth_bytes_at\<close>)
  then show "bytes_at (sk_memory (sock_pop p out n st)) out (unat n) = take (unat n) (rx_queue st p)"
    unfolding pop rx_queue_def by (simp add: b_def m_def h_def c_def)
  show "rx_ok (sock_pop p out n st) p"
    using hc uc uh unfolding pop by (simp add: rx_ok_nat h_def c_def)
  show "sk (sock_pop p out n st) = (sk st)(p := (sk st p)\<lparr>s_rx_head := (s_rx_head (sk st p) + n) mod SOCK_BUF_SIZE,
           s_rx_count := s_rx_count (sk st p) - n\<rparr>)"
    unfolding pop by (simp add: fun_eq_iff)
  assume o: "\<not> unat (a - out) < unat n"
  have "m1 a = m a" "m2 a = m1 a"
    using memcpy_outside [OF ap1, of 0] memcpy_outside [OF ap2 fn(2)] o uf by (simp_all add: m1_def m2_def)
  then show "sk_memory (sock_pop p out n st) a = sk_memory st a" unfolding pop by (simp add: m_def)
qed

subsection \<open>The contract of a byte queue\<close>

text \<open>What the read and write calls rely on: bytes pushed from memory go to the end of the queue, bytes
  popped into memory come from its front, and memory outside the buffers involved stays.\<close>

locale byte_queue =
  fixes ok :: "'s \<Rightarrow> bool" and contents :: "'s \<Rightarrow> u8 list" and memory :: "'s \<Rightarrow> mem"
    and buffer :: "'s \<Rightarrow> ptr" and cap :: nat
    and push :: "ptr \<Rightarrow> u64 \<Rightarrow> 's \<Rightarrow> 's" and pop :: "ptr \<Rightarrow> u64 \<Rightarrow> 's \<Rightarrow> 's"
  assumes contents_cap: "ok s \<Longrightarrow> length (contents s) \<le> cap"
    and push_contents: "ok s \<Longrightarrow> length (contents s) + unat n \<le> cap \<Longrightarrow> apart (buffer s) cap src (unat n) \<Longrightarrow>
      contents (push src n s) = contents s @ bytes_at (memory s) src (unat n)"
    and push_ok: "ok s \<Longrightarrow> length (contents s) + unat n \<le> cap \<Longrightarrow> apart (buffer s) cap src (unat n) \<Longrightarrow>
      ok (push src n s) \<and> buffer (push src n s) = buffer s"
    and push_frame: "ok s \<Longrightarrow> length (contents s) + unat n \<le> cap \<Longrightarrow> apart (buffer s) cap src (unat n) \<Longrightarrow>
      \<not> unat (a - buffer s) < cap \<Longrightarrow> memory (push src n s) a = memory s a"
    and pop_contents: "ok s \<Longrightarrow> unat n \<le> length (contents s) \<Longrightarrow> apart (buffer s) cap out (unat n) \<Longrightarrow>
      bytes_at (memory (pop out n s)) out (unat n) = take (unat n) (contents s) \<and>
      contents (pop out n s) = drop (unat n) (contents s)"
    and pop_ok: "ok s \<Longrightarrow> unat n \<le> length (contents s) \<Longrightarrow> apart (buffer s) cap out (unat n) \<Longrightarrow>
      ok (pop out n s) \<and> buffer (pop out n s) = buffer s"
begin

text \<open>Bytes pushed in pieces from consecutive parts of a source come out in one pop, in order.\<close>

lemma push_twice:
  assumes "ok s" and "length (contents s) + unat n + unat k \<le> cap" and "unat n + unat k < 2 ^ 64"
    and "apart (buffer s) cap src (unat n + unat k)"
  shows "contents (push (src + n) k (push src n s)) = contents s @ bytes_at (memory s) src (unat n + unat k)"
proof -
  have a1: "apart (buffer s) cap src (unat n)" by (rule apart_mono [OF assms(4)]) simp_all
  have a2: "apart (buffer s) cap (src + n) (unat k)"
    by (rule apart_sym, rule apart_off [OF apart_sym [OF assms(4)]]) simp
  have l: "length (contents s) + unat n \<le> cap" using assms(2) by simp
  note p1 = push_ok [OF assms(1) l a1] and c1 = push_contents [OF assms(1) l a1]
  have "contents (push (src + n) k (push src n s)) =
      contents (push src n s) @ bytes_at (memory (push src n s)) (src + n) (unat k)"
    by (rule push_contents) (use p1 c1 assms(2) a2 in simp_all)
  moreover have "bytes_at (memory (push src n s)) (src + n) (unat k) = bytes_at (memory s) (src + n) (unat k)"
  proof (rule bytes_at_eqI)
    fix i assume "i < unat k"
    then have "\<not> unat (src + n + of_nat i - buffer s) < cap"
      by (intro apart_in [OF apart_sym [OF a2]]) (use assms(3) in \<open>simp add: unat_of_nat_small\<close>)
    then show "memory (push src n s) (src + n + of_nat i) = memory s (src + n + of_nat i)"
      by (rule push_frame [OF assms(1) l a1])
  qed
  moreover have "bytes_at (memory s) src (unat n) @ bytes_at (memory s) (src + n) (unat k) =
      bytes_at (memory s) src (unat n + unat k)"
    by (rule nth_equalityI) (auto simp: nth_append nth_bytes_at)
  ultimately show ?thesis using c1 by simp
qed

lemma push_pop:
  assumes "ok s" and "length (contents s) + unat n \<le> cap" and "apart (buffer s) cap src (unat n)"
    and "apart (buffer s) cap out (unat k)" and "unat k \<le> length (contents s) + unat n"
  shows "bytes_at (memory (pop out k (push src n s))) out (unat k) =
      take (unat k) (contents s @ bytes_at (memory s) src (unat n))"
  using pop_contents [of "push src n s" k out] push_ok [OF assms(1-3)] push_contents [OF assms(1-3)] assms(4,5) by simp

end

text \<open>The receive buffer of every socket is such a queue.\<close>

interpretation rxq: byte_queue "\<lambda>st. rx_ok st p" "\<lambda>st. rx_queue st p" sk_memory "\<lambda>st. s_rx (sk st p)" 65536
    "sock_push p" "\<lambda>out n. sock_pop p out n" for p
proof unfold_locales
  fix st :: sockets and n a :: u64 and b :: ptr
  show "length (rx_queue st p) \<le> 65536" if "rx_ok st p" using that by (simp add: rx_ok_nat)
  show "rx_queue (sock_push p b n st) p = rx_queue st p @ bytes_at (sk_memory st) b (unat n)"
    if "rx_ok st p" "length (rx_queue st p) + unat n \<le> 65536" "apart (s_rx (sk st p)) 65536 b (unat n)"
    using that by (intro sock_push_queue(1)) simp_all
  show "rx_ok (sock_push p b n st) p \<and> s_rx (sk (sock_push p b n st) p) = s_rx (sk st p)"
    if "rx_ok st p" "length (rx_queue st p) + unat n \<le> 65536" "apart (s_rx (sk st p)) 65536 b (unat n)"
    using that sock_push_queue(2,4) [of st p n b] by simp
  show "sk_memory (sock_push p b n st) a = sk_memory st a"
    if "rx_ok st p" "length (rx_queue st p) + unat n \<le> 65536" "apart (s_rx (sk st p)) 65536 b (unat n)"
      "\<not> unat (a - s_rx (sk st p)) < 65536"
    using that by (intro sock_push_queue(3)) simp_all
  show "bytes_at (sk_memory (sock_pop p b n st)) b (unat n) = take (unat n) (rx_queue st p) \<and>
      rx_queue (sock_pop p b n st) p = drop (unat n) (rx_queue st p)"
    if "rx_ok st p" "unat n \<le> length (rx_queue st p)" "apart (s_rx (sk st p)) 65536 b (unat n)"
    using that by (intro conjI sock_pop_queue(1,2)) simp_all
  show "rx_ok (sock_pop p b n st) p \<and> s_rx (sk (sock_pop p b n st) p) = s_rx (sk st p)"
    if "rx_ok st p" "unat n \<le> length (rx_queue st p)" "apart (s_rx (sk st p)) 65536 b (unat n)"
    using that sock_pop_queue(3,5) [of st p n b] by simp
qed

subsection \<open>Reading and writing a stream\<close>

text \<open>Waking and blocking do not touch the sockets or the memory.\<close>

lemma sk_wake_kept:
  assumes "sched_inv n qs (sk_sched st)"
  shows "\<exists>s. sk_wake st = Some (st\<lparr>sk_sched := s\<rparr>) \<and> sched_inv n qs s \<and> kept (sk_sched st) s"
proof -
  let ?P = "\<lambda>t. t_waiting t \<and> t_state t = TASK_SLEEPING"
  have "ring (sk_sched st) qs" using assms by (simp add: sched_inv_def cpu_inv_def)
  then have "task_wake_waiters (sk_sched st) = Some (wake ?P (set qs) (sk_sched st))"
    by (rule task_wake_waiters_ring)
  moreover have "sched_inv n qs (wake ?P (set qs) (sk_sched st))" by (rule sched_inv_wake [OF assms]) simp
  ultimately show ?thesis
    by (intro exI [of _ "wake ?P (set qs) (sk_sched st)"]) (simp add: sk_wake_def kept_def wake_def)
qed

lemma sk_block_kept:
  assumes "sched_inv n qs (sk_sched st)" and "c < n"
  shows "\<exists>s qs'. sk_block c st = Some (st\<lparr>sk_sched := s\<rparr>) \<and> sched_inv n qs' s \<and> set qs' = set qs \<and> kept (sk_sched st) s"
  using task_block_inv [OF assms, of TASK_BLOCK_FOREVER] by (auto simp: sk_block_def)

lemma kept_memory [simp]:
  "kept (sk_sched st) s \<Longrightarrow> sk_memory (st\<lparr>sk_sched := s\<rparr>) = sk_memory st"
  "kept (sk_sched st) s \<Longrightarrow> rx_queue (st\<lparr>sk_sched := s\<rparr>) p = rx_queue st p"
  by (simp_all add: sk_memory_def sk_heap_def kept_def rx_queue_def)

lemma sk_sched_push: "sk_sched (sock_push q src n st) = (sk_sched st)\<lparr>sc_mem := sc_mem (sk_sched (sock_push q src n st))\<rparr>"
  by (simp add: sock_push_def Let_def set_sk_memory_def set_sk_heap_def)

lemma sk_sched_pop: "sk_sched (sock_pop q out n st) = (sk_sched st)\<lparr>sc_mem := sc_mem (sk_sched (sock_pop q out n st))\<rparr>"
  by (simp add: sock_pop_def Let_def set_sk_memory_def set_sk_heap_def)

lemma sched_inv_mem: "sched_inv n qs s \<Longrightarrow> sched_inv n qs (s\<lparr>sc_mem := m\<rparr>)"
  by (rule sched_inv_cong) simp_all

text \<open>How many of \<open>cnt\<close> bytes a write takes when the peer has room for \<open>space\<close> more.\<close>

definition write_quota :: "bool \<Rightarrow> nat \<Rightarrow> nat \<Rightarrow> nat" where
  "write_quota nb space cnt =
     (if nb \<and> (space = 0 \<or> cnt \<le> 65536 \<and> space < cnt) then 0 else min space cnt)"

lemma sock_write_stuck:
  assumes "sched_inv n qs (sk_sched st)" and "c < n" and "q = s_peer (sk st p)" and "q \<noteq> NULL" 
    and "length (rx_queue st q) = 65536" and "w < cnt" and "unat cnt < 2 ^ 63"
  shows "\<exists>s qs'. sock_write_loop c p src cnt w st =
      Some (if nonblocking (sk st p) then Ret (if w = 0 then - EAGAIN else int (unat w)) else Blocked w, st\<lparr>sk_sched := s\<rparr>) \<and>
    sched_inv n qs' s \<and> set qs' = set qs \<and> kept (sk_sched st) s"
proof -
  have "s_rx_count (sk st q) = SOCK_BUF_SIZE" using assms(5) by (simp add: word_unat_eq_iff)
  then have sp: "SOCK_BUF_SIZE - s_rx_count (sk st q) = 0" by simp
  have w: "sint w = int (unat w)" using assms(6,7) by (intro sint_small) (simp add: word_less_nat_alt)
  show ?thesis
  proof (cases "nonblocking (sk st p)")
    case True
    then have "sock_write_loop c p src cnt w st = Some (Ret (if w = 0 then - EAGAIN else int (unat w)), st)"
      using assms(3,4,6) sp w by (subst sock_write_loop.simps) (simp add: Let_def)
    then show ?thesis using True assms(1) by (intro exI [of _ "sk_sched st"]) (auto simp: kept_def)
  next
    case False
    from sk_block_kept [OF assms(1,2)] obtain s qs' where b: "sk_block c st = Some (st\<lparr>sk_sched := s\<rparr>)"
      "sched_inv n qs' s" "set qs' = set qs" "kept (sk_sched st) s" by blast
    have "sock_write_loop c p src cnt w st = Some (Blocked w, st\<lparr>sk_sched := s\<rparr>)"
      using False assms(3,4,6) sp b(1) by (subst sock_write_loop.simps) (simp add: Let_def)
    with b False show ?thesis by auto
  qed
qed

lemma sock_write_loop_spec:
  assumes "sched_inv n qs (sk_sched st)" and "c < n" and "q = s_peer (sk st p)" and "q \<noteq> NULL" and "q \<noteq> p"
    and "rx_ok st q" and "apart (s_rx (sk st q)) 65536 src (unat cnt)" and "unat cnt < 2 ^ 63"
    and "w = write_quota (nonblocking (sk st p)) (65536 - length (rx_queue st q)) (unat cnt)"
  shows "\<exists>st' qs'. sock_write_loop c p src cnt 0 st =
      Some (if w = unat cnt then Ret (int w) else if nonblocking (sk st p) then Ret (if w = 0 then - EAGAIN else int w)
            else Blocked (of_nat w), st') \<and>
    rx_queue st' q = rx_queue st q @ take w (bytes_at (sk_memory st) src (unat cnt)) \<and> rx_ok st' q \<and>
    sk st' = (sk st)(q := (sk st q)\<lparr>s_rx_count := s_rx_count (sk st q) + of_nat w\<rparr>) \<and>
    sched_inv n qs' (sk_sched st') \<and> set qs' = set qs"
proof -
  define rc where "rc = s_rx_count (sk st q)"
  define sp where "sp = SOCK_BUF_SIZE - rc"
  have rcl: "unat rc \<le> 65536" "length (rx_queue st q) = unat rc" using assms(6) by (simp_all add: rx_ok_nat rc_def)
  then have usp: "unat sp = 65536 - unat rc" by (simp add: sp_def unat_diff_nowrap)
  have nz: "sp = 0 \<longleftrightarrow> unat sp = 0" by (simp add: unat_eq_0)
  show ?thesis
  proof (cases "cnt = 0")
    case True
    then have "w = 0" using assms(9) by (simp add: write_quota_def)
    moreover from True have "sock_write_loop c p src cnt 0 st = Some (Ret 0, st)" by (subst sock_write_loop.simps) simp
    ultimately show ?thesis using True assms(1,6) by (intro exI [of _ st]) auto
  next
    case cz: False
    then have cp: "0 < cnt" "0 < unat cnt" by (simp_all add: word_gt_0 unat_gt_0)
    show ?thesis
    proof (cases "nonblocking (sk st p) \<and> (sp = 0 \<or> cnt \<le> SOCK_BUF_SIZE \<and> sp < cnt)")
      case True
      then have "w = 0" using assms(9) usp rcl nz
        by (auto simp: write_quota_def word_le_nat_alt word_less_nat_alt)
      moreover from True have "sock_write_loop c p src cnt 0 st = Some (Ret (- EAGAIN), st)"
        using cp assms(3,4) by (subst sock_write_loop.simps) (simp add: Let_def sp_def rc_def)
      ultimately show ?thesis using True assms(1,6) cp by (intro exI [of _ st]) auto
    next
      case F: False
      show ?thesis
      proof (cases "sp = 0")
        case True
        then have "w = 0" using usp rcl nz assms(9) by (simp add: write_quota_def)
        have "length (rx_queue st q) = 65536" using True nz usp rcl by simp
        from sock_write_stuck [OF assms(1-4) this cp(1) assms(8), of src] obtain s qs' where
          "sock_write_loop c p src cnt 0 st = Some (if nonblocking (sk st p) then Ret (- EAGAIN) else Blocked 0, st\<lparr>sk_sched := s\<rparr>)"
          "sched_inv n qs' s" "set qs' = set qs" "kept (sk_sched st) s" by auto
        then show ?thesis using \<open>w = 0\<close> cp assms(6)
          by (intro exI [of _ "st\<lparr>sk_sched := s\<rparr>"] exI [of _ qs']) (auto simp: rx_ok_def)
      next
        case False
        define k where "k = min_u64 sp cnt"
        define st1 where "st1 = sock_push q src k st"
        have uk: "unat k = min (unat sp) (unat cnt)" by (simp add: k_def)
        have wk: "w = unat k" using F False assms(9) uk usp rcl nz
          by (auto simp: write_quota_def word_le_nat_alt word_less_nat_alt)
        have ap: "apart (s_rx (sk st q)) 65536 src (unat k)" by (rule apart_mono [OF assms(7)]) (simp_all add: uk)
        have room: "unat (s_rx_count (sk st q)) + unat k \<le> 65536" using uk usp rcl by (simp add: rc_def)
        note pq = sock_push_queue [OF assms(6) room ap, folded st1_def]
        have tk: "bytes_at (sk_memory st) src (unat k) = take w (bytes_at (sk_memory st) src (unat cnt))"
          by (rule nth_equalityI) (simp_all add: wk uk nth_bytes_at)
        have i1: "sched_inv n qs (sk_sched st1)"
          unfolding st1_def by (subst sk_sched_push) (rule sched_inv_mem [OF assms(1)])
        from sk_wake_kept [OF i1] obtain s where wk1: "sk_wake st1 = Some (st1\<lparr>sk_sched := s\<rparr>)"
          "sched_inv n qs s" "kept (sk_sched st1) s" by blast
        define st2 where "st2 = st1\<lparr>sk_sched := s\<rparr>"
        have loop: "sock_write_loop c p src cnt 0 st = sock_write_loop c p src cnt k st2"
          using cp assms(3,4) F False wk1(1)
          by (subst sock_write_loop.simps) (auto simp: Let_def sp_def rc_def k_def st1_def st2_def word_gt_0)
        have q2: "rx_queue st2 q = rx_queue st q @ take w (bytes_at (sk_memory st) src (unat cnt))"
          using pq(1) wk1(3) tk by (simp add: st2_def)
        have o2: "rx_ok st2 q" "sk st2 = (sk st)(q := (sk st q)\<lparr>s_rx_count := s_rx_count (sk st q) + of_nat w\<rparr>)"
          using pq(2,4) by (simp_all add: st2_def rx_ok_def wk)
        show ?thesis
        proof (cases "k = cnt")
          case True
          then have "sock_write_loop c p src cnt k st2 = Some (Ret (int w), st2)"
            using sint_small [OF assms(8)] by (subst sock_write_loop.simps) (simp add: wk)
          then show ?thesis using loop q2 o2 wk True wk1(2) by (intro exI [of _ st2] exI [of _ qs]) (simp add: st2_def)
        next
          case kc: False
          then have kl: "k < cnt" "unat k < unat cnt" "k = sp" using uk
            by (auto simp: k_def min_u64_def split: if_splits simp: word_less_nat_alt)
          have p2: "s_peer (sk st2 p) = q" "nonblocking (sk st2 p) = nonblocking (sk st p)"
            using o2(2) assms(3,5) by simp_all
          have full: "length (rx_queue st2 q) = 65536" using q2 wk kl usp rcl by simp
          have i2: "sched_inv n qs (sk_sched st2)" using wk1(2) by (simp add: st2_def)
          from sock_write_stuck [OF i2 assms(2) p2(1) [symmetric] assms(4) full kl(1) assms(8), of src]
          obtain s3 qs' where "sock_write_loop c p src cnt k st2 =
              Some (if nonblocking (sk st p) then Ret (if k = 0 then - EAGAIN else int (unat k)) else Blocked k, st2\<lparr>sk_sched := s3\<rparr>)"
            "sched_inv n qs' s3" "set qs' = set qs" "kept (sk_sched st2) s3" unfolding p2(2) by auto
          moreover have "k = 0 \<longleftrightarrow> w = 0" by (simp add: wk unat_eq_0)
          ultimately show ?thesis using loop q2 o2 wk kl
            by (intro exI [of _ "st2\<lparr>sk_sched := s3\<rparr>"] exI [of _ qs']) (simp add: rx_ok_def)
        qed
      qed
    qed
  qed
qed

lemma sock_read_spec:
  assumes "sched_inv n qs (sk_sched st)" and "c < n" and "p \<noteq> NULL" and "s_state (sk st p) = SOCKET_CONNECTED"
    and "rx_ok st p" and "apart (s_rx (sk st p)) 65536 buf (unat cnt)" and "cnt \<noteq> 0" and "unat cnt < 2 ^ 63"
    and "w = min (unat cnt) (length (rx_queue st p))"
  shows "\<exists>st' qs'. sock_read c p buf cnt st =
      Some (if 0 < w then Ret (int w) else if s_peer (sk st p) = NULL then Ret 0
            else if nonblocking (sk st p) then Ret (- EAGAIN) else Blocked (), st') \<and>
    bytes_at (sk_memory st') buf w = take w (rx_queue st p) \<and> rx_queue st' p = drop w (rx_queue st p) \<and> rx_ok st' p \<and>
    (\<forall>a. \<not> unat (a - buf) < w \<longrightarrow> sk_memory st' a = sk_memory st a) \<and>
    (\<forall>q. q \<noteq> p \<longrightarrow> sk st' q = sk st q) \<and> sched_inv n qs' (sk_sched st') \<and> set qs' = set qs"
proof (cases "s_rx_count (sk st p) = 0")
  case True
  then have w: "w = 0" "\<not> s_rx_count (sk st p) > 0" using assms(9) by simp_all
  from sk_block_kept [OF assms(1,2)] obtain s qs' where b: "sk_block c st = Some (st\<lparr>sk_sched := s\<rparr>)"
    "sched_inv n qs' s" "set qs' = set qs" "kept (sk_sched st) s" by blast
  show ?thesis
  proof (cases "s_peer (sk st p) = NULL \<or> nonblocking (sk st p)")
    case True
    then have "sock_read c p buf cnt st =
        Some (if s_peer (sk st p) = NULL then Ret 0 else Ret (- EAGAIN), st)"
      using assms(3,4,7) w by (auto simp: sock_read_def Let_def)
    then show ?thesis using True w assms(1,5) by (intro exI [of _ st] exI [of _ qs]) auto
  next
    case False
    then have "sock_read c p buf cnt st = Some (Blocked (), st\<lparr>sk_sched := s\<rparr>)"
      using assms(3,4,7) w b(1) by (auto simp: sock_read_def Let_def)
    then show ?thesis using False w b assms(5)
      by (intro exI [of _ "st\<lparr>sk_sched := s\<rparr>"] exI [of _ qs']) (simp add: rx_ok_def)
  qed
next
  case False
  define k where "k = min_u64 cnt (s_rx_count (sk st p))"
  define st1 where "st1 = sock_pop p buf k st"
  have k: "unat k = w" "0 < w" using assms(7,9) False by (simp_all add: k_def unat_gt_0)
  have l: "unat k \<le> unat (s_rx_count (sk st p))" by (simp add: k_def)
  have ap: "apart (s_rx (sk st p)) 65536 buf (unat k)" by (rule apart_mono [OF assms(6)]) (simp_all add: k_def)
  note pq = sock_pop_queue [OF assms(5) l ap, folded st1_def, unfolded k(1)]
  have i1: "sched_inv n qs (sk_sched st1)"
    unfolding st1_def by (subst sk_sched_pop) (rule sched_inv_mem [OF assms(1)])
  from sk_wake_kept [OF i1] obtain s where wk: "sk_wake st1 = Some (st1\<lparr>sk_sched := s\<rparr>)"
    "sched_inv n qs s" "kept (sk_sched st1) s" by blast
  have "sint k = int w" using assms(8,9) k by (subst sint_small) simp_all
  then have "sock_read c p buf cnt st = Some (Ret (int w), st1\<lparr>sk_sched := s\<rparr>)"
    using assms(3,4,7) False wk(1) by (simp add: sock_read_def Let_def k_def st1_def word_gt_0)
  then show ?thesis using k(2) pq wk
    by (intro exI [of _ "st1\<lparr>sk_sched := s\<rparr>"] exI [of _ qs]) (simp add: rx_ok_def)
qed

subsection \<open>Properties of streams\<close>

text \<open>Two connected sockets at \<open>0x100\<close> and \<open>0x200\<close>, with buffers at \<open>0x10000\<close> and \<open>0x40000\<close>.\<close>

definition socket_pair :: sockets where
  "socket_pair = \<lparr>sk_sched = ring_example,
     sk = (\<lambda>_. sock_zero)
       (0x100 := sock_zero\<lparr>s_state := SOCKET_CONNECTED, s_peer := 0x200, s_rx := 0x10000\<rparr>,
        0x200 := sock_zero\<lparr>s_state := SOCKET_CONNECTED, s_peer := 0x100, s_rx := 0x40000\<rparr>),
     sock_listeners = NULL\<rparr>"

lemma socket_pair_simps [simp]:
  "sk_sched socket_pair = ring_example"
  "sk socket_pair 0x100 = sock_zero\<lparr>s_state := SOCKET_CONNECTED, s_peer := 0x200, s_rx := 0x10000\<rparr>"
  "sk socket_pair 0x200 = sock_zero\<lparr>s_state := SOCKET_CONNECTED, s_peer := 0x100, s_rx := 0x40000\<rparr>"
  by (simp_all add: socket_pair_def)

lemma sock_zero_simps [simp]:
  "s_rx_head sock_zero = 0" "s_rx_count sock_zero = 0" "s_flags sock_zero = 0" "s_peer sock_zero = NULL"
  "s_state sock_zero = SOCKET_UNBOUND" "s_rx sock_zero = NULL" "s_backlog sock_zero = []"
  by (simp_all add: sock_zero_def)

lemma socket_pair_ok: "rx_ok socket_pair 0x100" "rx_ok socket_pair 0x200"
  by (simp_all add: rx_ok_nat)

text \<open>
  Property C34: writing to a connected socket always returns or blocks, and what it reports is what it
  did. It takes \<open>w\<close> bytes, which are appended in order to the peer's receive queue and nothing else in
  any socket changes: all of them when the peer has room; as many as fit when the call may block or the
  request is larger than the buffer; none when a non-blocking call asks for at most the buffer's size and
  the peer has no room for all of it. The result is the number of bytes taken, \<open>-EAGAIN\<close> when a
  non-blocking call took none, and the caller is blocked, with \<open>w\<close> bytes done, otherwise.
\<close>

theorem sock_write_appends:
  assumes "sched_inv n qs (sk_sched st)" and "c < n" and "p \<noteq> NULL" and "s_state (sk st p) = SOCKET_CONNECTED"
    and "q = s_peer (sk st p)" and "q \<noteq> NULL" and "q \<noteq> p" and "rx_ok st q"
    and "apart (s_rx (sk st q)) 65536 src (unat cnt)" and "unat cnt < 2 ^ 63"
    and "w = write_quota (nonblocking (sk st p)) (65536 - length (rx_queue st q)) (unat cnt)"
  shows "\<exists>st' qs'. sock_write c p src cnt st =
      Some (if w = unat cnt then Ret (int w) else if nonblocking (sk st p) then Ret (if w = 0 then - EAGAIN else int w)
            else Blocked (of_nat w), st') \<and>
    rx_queue st' q = rx_queue st q @ take w (bytes_at (sk_memory st) src (unat cnt)) \<and> rx_ok st' q \<and>
    sk st' = (sk st)(q := (sk st q)\<lparr>s_rx_count := s_rx_count (sk st q) + of_nat w\<rparr>) \<and>
    sched_inv n qs' (sk_sched st') \<and> set qs' = set qs"
  using sock_write_loop_spec [OF assms(1,2,5-11)] assms(3,4) by (simp add: sock_write_def)

theorem sock_write_appends_witness:
  "\<exists>st'. sock_write 0 0x100 0x1000 3 socket_pair = Some (Ret 3, st') \<and>
     rx_queue st' 0x200 = bytes_at (sk_memory socket_pair) 0x1000 3"
proof -
  have e: "rx_queue socket_pair 0x200 = []" by (simp add: rx_queue_def ring_bytes_def)
  have ap: "apart 0x40000 65536 0x1000 3" by (rule apart_sym, rule apart_ranges) simp_all
  have "(3 :: nat) = write_quota (nonblocking (sk socket_pair 0x100)) (65536 - length (rx_queue socket_pair 0x200)) (unat (3 :: u64))"
    by (simp add: e write_quota_def)
  from sock_write_appends [OF _ _ _ _ _ _ _ _ _ _ this, of 1 "[1, 2]" 0 "0x1000"] ring_example_inv socket_pair_ok(2) ap
  obtain st' where "sock_write 0 0x100 0x1000 3 socket_pair = Some (if (3 :: nat) = unat (3 :: u64) then Ret (int 3)
       else if nonblocking (sk socket_pair 0x100) then Ret (if (3 :: nat) = 0 then - EAGAIN else int 3) else Blocked (of_nat 3), st')"
     "rx_queue st' 0x200 = rx_queue socket_pair 0x200 @ take 3 (bytes_at (sk_memory socket_pair) 0x1000 (unat (3 :: u64)))"
    by fastforce
  then show ?thesis using e by auto
qed

text \<open>
  Reading from a connected socket always returns or blocks. It takes the oldest bytes of
  the queue, as many as were asked for and are there, writes exactly them to the caller's buffer, in
  order, and touches no other memory and no other socket. With nothing there it reports the end of the
  stream when the peer is gone, \<open>-EAGAIN\<close> on a non-blocking socket, and blocks otherwise.
\<close>

theorem sock_read_takes_front:
  assumes "sched_inv n qs (sk_sched st)" and "c < n" and "p \<noteq> NULL" and "s_state (sk st p) = SOCKET_CONNECTED"
    and "rx_ok st p" and "apart (s_rx (sk st p)) 65536 buf (unat cnt)" and "cnt \<noteq> 0" and "unat cnt < 2 ^ 63"
    and "w = min (unat cnt) (length (rx_queue st p))"
  shows "\<exists>st' qs'. sock_read c p buf cnt st =
      Some (if 0 < w then Ret (int w) else if s_peer (sk st p) = NULL then Ret 0
            else if nonblocking (sk st p) then Ret (- EAGAIN) else Blocked (), st') \<and>
    bytes_at (sk_memory st') buf w = take w (rx_queue st p) \<and> rx_queue st' p = drop w (rx_queue st p) \<and> rx_ok st' p \<and>
    (\<forall>a. \<not> unat (a - buf) < w \<longrightarrow> sk_memory st' a = sk_memory st a) \<and>
    (\<forall>q. q \<noteq> p \<longrightarrow> sk st' q = sk st q) \<and> sched_inv n qs' (sk_sched st') \<and> set qs' = set qs"
  by (rule sock_read_spec [OF assms])

theorem sock_read_takes_front_witness:
  "\<exists>st'. sock_read 0 0x100 0x1000 8 socket_pair = Some (Blocked (), st')"
proof -
  have "apart 0x10000 65536 0x1000 8" by (rule apart_sym, rule apart_ranges) simp_all
  then show ?thesis
    using sock_read_takes_front [of 1 "[1, 2]" socket_pair 0 "0x100" "0x1000" 8 0] ring_example_inv socket_pair_ok
    by (auto simp: nonblocking_def)
qed

text \<open>
  Property C35: what one end writes, the other end reads. On a pair with nothing in flight, a write of up
  to the buffer's size returns its length, and a read of as many bytes at the peer then returns the same
  length with the bytes of the source in the destination, and the stream is empty again.
\<close>

theorem sock_stream_roundtrip:
  assumes "sched_inv n qs (sk_sched st)" and "c < n" and "d < n" and "p \<noteq> NULL" and "q \<noteq> NULL" and "p \<noteq> q"
    and "s_state (sk st p) = SOCKET_CONNECTED" and "s_state (sk st q) = SOCKET_CONNECTED" and "s_peer (sk st p) = q"
    and "rx_ok st q" and "rx_queue st q = []" and "cnt \<noteq> 0" and "unat cnt \<le> 65536"
    and "apart (s_rx (sk st q)) 65536 src (unat cnt)" and "apart (s_rx (sk st q)) 65536 buf (unat cnt)"
  shows "\<exists>st1 st2. sock_write c p src cnt st = Some (Ret (int (unat cnt)), st1) \<and>
    sock_read d q buf cnt st1 = Some (Ret (int (unat cnt)), st2) \<and>
    bytes_at (sk_memory st2) buf (unat cnt) = bytes_at (sk_memory st) src (unat cnt) \<and> rx_queue st2 q = []"
proof -
  have c63: "unat cnt < 2 ^ 63" using assms(13) by simp
  have wq: "write_quota (nonblocking (sk st p)) (65536 - length (rx_queue st q)) (unat cnt) = unat cnt"
    using assms(11,13) by (simp add: write_quota_def)
  from sock_write_loop_spec [OF assms(1,2) assms(9) [symmetric] assms(5) _ assms(10,14) c63 refl, unfolded wq] assms(6,11)
  obtain st1 qs1 where w: "sock_write_loop c p src cnt 0 st = Some (Ret (int (unat cnt)), st1)"
    "rx_queue st1 q = bytes_at (sk_memory st) src (unat cnt)" "rx_ok st1 q"
    "sk st1 = (sk st)(q := (sk st q)\<lparr>s_rx_count := s_rx_count (sk st q) + cnt\<rparr>)" "sched_inv n qs1 (sk_sched st1)" by auto
  have q: "s_state (sk st1 q) = SOCKET_CONNECTED" "apart (s_rx (sk st1 q)) 65536 buf (unat cnt)"
    using w(4) assms(8,15) by simp_all
  have "0 < unat cnt" using assms(12) by (simp add: unat_gt_0)
  with sock_read_spec [OF w(5) assms(3,5) q(1) w(3) q(2) assms(12) c63 refl] w(2) obtain st2 where
    "sock_read d q buf cnt st1 = Some (Ret (int (unat cnt)), st2)"
    "bytes_at (sk_memory st2) buf (unat cnt) = bytes_at (sk_memory st) src (unat cnt)" "rx_queue st2 q = []" by auto
  moreover have "sock_write c p src cnt st = Some (Ret (int (unat cnt)), st1)"
    using w(1) assms(4,7) by (simp add: sock_write_def)
  ultimately show ?thesis by blast
qed

theorem sock_stream_roundtrip_witness:
  "\<exists>st1 st2. sock_write 0 0x100 0x1000 5 socket_pair = Some (Ret 5, st1) \<and>
     sock_read 0 0x200 0x2000 5 st1 = Some (Ret 5, st2) \<and>
     bytes_at (sk_memory st2) 0x2000 5 = bytes_at (sk_memory socket_pair) 0x1000 5 \<and> rx_queue st2 0x200 = []"
proof -
  have "apart 0x40000 65536 0x1000 5" "apart 0x40000 65536 0x2000 5" by (rule apart_sym, rule apart_ranges, simp_all)+
  moreover have "rx_queue socket_pair 0x200 = []" by (simp add: rx_queue_def ring_bytes_def)
  ultimately have "\<exists>st1 st2. sock_write 0 0x100 0x1000 5 socket_pair = Some (Ret (int (unat (5 :: u64))), st1) \<and>
     sock_read 0 0x200 0x2000 5 st1 = Some (Ret (int (unat (5 :: u64))), st2) \<and>
     bytes_at (sk_memory st2) 0x2000 (unat (5 :: u64)) = bytes_at (sk_memory socket_pair) 0x1000 (unat (5 :: u64)) \<and>
     rx_queue st2 0x200 = []"
    using ring_example_inv socket_pair_ok
    by (intro sock_stream_roundtrip [where n = 1 and qs = "[1, 2]"]) simp_all
  then show ?thesis by simp
qed

end
