(* ===== verification/Devfs.thy ===== *)
theory Devfs
  imports Ramfs
begin

text \<open>
  The device file system, \<^verbatim>\<open>kernel/filesystem/devfs.c\<close>: the flat directory \<^verbatim>\<open>/dev\<close>, the nodes the
  boot puts there and the ones drivers register, and the files that show a record of the kernel's state.
  A table \<^verbatim>\<open>VFileOps\<close> of a device is named by its tag. The handlers of the framebuffer, the input
  devices, the tasks, the clock and the network act on other parts of the kernel; the theory \<open>DevFiles\<close> has them.
\<close>

record devfs_state = ramfs_state +
  devfs_root_node :: ptr

definition DEVFS_FB :: dev_kind where "DEVFS_FB = DEVICE_FILE_OPS 0"
definition DEVFS_KBD :: dev_kind where "DEVFS_KBD = DEVICE_FILE_OPS 1"
definition DEVFS_MOUSE :: dev_kind where "DEVFS_MOUSE = DEVICE_FILE_OPS 2"
definition DEVFS_MEMINFO :: dev_kind where "DEVFS_MEMINFO = DEVICE_FILE_OPS 3"
definition DEVFS_CPUINFO :: dev_kind where "DEVFS_CPUINFO = DEVICE_FILE_OPS 4"
definition DEVFS_TASKS :: dev_kind where "DEVFS_TASKS = DEVICE_FILE_OPS 5"
definition DEVFS_RTC :: dev_kind where "DEVFS_RTC = DEVICE_FILE_OPS 6"
definition DEVFS_NET :: dev_kind where "DEVFS_NET = DEVICE_FILE_OPS 7"

subsection \<open>The directory\<close>

definition devfs_lookup :: "ptr \<Rightarrow> string \<Rightarrow> 'a devfs_state_scheme \<Rightarrow> (ptr \<times> 'a devfs_state_scheme) ret" where
  "devfs_lookup d name s = do { c \<leftarrow> ramfs_lookup_loop name (v_first_child (vnodes s d)) (vnodes s); Some (c, s) }"

definition devfs_readdir :: "ptr \<Rightarrow> int \<Rightarrow> 'a devfs_state_scheme \<Rightarrow> (string option \<times> 'a devfs_state_scheme) ret" where
  "devfs_readdir d i s = do { r \<leftarrow> ramfs_readdir_loop 0 i (v_first_child (vnodes s d)) (vnodes s); Some (r, s) }"

definition devfs_dir_ops :: "'a devfs_state_scheme vnode_ops" where
  "devfs_dir_ops = \<lparr>op_lookup = Some devfs_lookup, op_create = None, op_open = None, op_read = None, op_write = None,
     op_readdir = Some devfs_readdir, op_unlink = None, op_rename = None, op_release = None\<rparr>"

definition devfs_add_child ::
  "ptr \<Rightarrow> string \<Rightarrow> dev_kind \<Rightarrow> ptr \<Rightarrow> 'a devfs_state_scheme \<Rightarrow> (ptr \<times> 'a devfs_state_scheme) ret" where
  "devfs_add_child d name file_ops private_data s =
     do { (n, s1) \<leftarrow> vf_kmalloc VNODE_SIZE s;
          if n = NULL then Some (NULL, s1)
          else Some (n, upd_node d (\<lambda>v. v\<lparr>v_first_child := n\<rparr>)
                 (upd_node n (\<lambda>_. vnode_zero\<lparr>v_name := node_name name, v_type := VNODE_DEVICE, v_ops := Some DEVFS_OPS,
                     v_file_ops := Some file_ops, v_private_data := private_data, v_parent := d,
                     v_next_sibling := v_first_child (vnodes s1 d)\<rparr>) s1)) }"

definition devfs_register :: "string \<Rightarrow> dev_kind \<Rightarrow> ptr \<Rightarrow> 'a devfs_state_scheme \<Rightarrow> (ptr \<times> 'a devfs_state_scheme) ret" where
  "devfs_register name file_ops private_data s =
     (if devfs_root_node s = NULL then Some (NULL, s)
      else devfs_add_child (devfs_root_node s) name file_ops private_data s)"

text \<open>The framebuffer the boot loader reports, if any, and its description for programs.\<close>

record limine_framebuffer =
  lf_address :: u64
  lf_width :: u64
  lf_height :: u64
  lf_pitch :: u64
  lf_bpp :: u16
  lf_masks :: "u8 list"

definition FB_INFO_SIZE :: u64 where "FB_INFO_SIZE = 32"

definition store_bytes :: "ptr \<Rightarrow> u8 list \<Rightarrow> mem \<Rightarrow> mem" where
  "store_bytes a bs m = (\<lambda>x. if unat (x - a) < length bs then bs ! unat (x - a) else m x)"

definition fb_info_store :: "ptr \<Rightarrow> limine_framebuffer \<Rightarrow> mem \<Rightarrow> mem" where
  "fb_info_store p fb m =
     store_bytes (p + 22) (take 6 (lf_masks fb)) (store_u16 (p + 20) (lf_bpp fb) (store_u32 (p + 16) (ucast (lf_pitch fb))
       (store_u32 (p + 12) (ucast (lf_height fb)) (store_u32 (p + 8) (ucast (lf_width fb))
         (store_u64 p (lf_address fb) (memset p 0 FB_INFO_SIZE m))))))"

text \<open>The nodes every boot makes, in order.\<close>

definition devfs_boot_nodes :: "(string \<times> dev_kind) list" where
  "devfs_boot_nodes = [(''keyboard'', DEVFS_KBD), (''mouse'', DEVFS_MOUSE), (''meminfo'', DEVFS_MEMINFO),
     (''cpuinfo'', DEVFS_CPUINFO), (''tasks'', DEVFS_TASKS), (''rtc'', DEVFS_RTC), (''net'', DEVFS_NET)]"

fun devfs_add_all :: "ptr \<Rightarrow> (string \<times> dev_kind) list \<Rightarrow> 'a devfs_state_scheme \<Rightarrow> 'a devfs_state_scheme ret" where
  "devfs_add_all d [] s = Some s"
| "devfs_add_all d ((name, k) # nks) s = do { (n, s1) \<leftarrow> devfs_add_child d name k NULL s; devfs_add_all d nks s1 }"

definition devfs_create_root ::
  "limine_framebuffer option \<Rightarrow> 'a devfs_state_scheme \<Rightarrow> (ptr \<times> 'a devfs_state_scheme) ret" where
  "devfs_create_root fb s =
     do { (root, s1) \<leftarrow> vf_kmalloc VNODE_SIZE s;
          if root = NULL then Some (NULL, s1)
          else let s2 = upd_node root (\<lambda>_. vnode_zero\<lparr>v_type := VNODE_DIR, v_ops := Some DEVFS_OPS, v_name := [slash]\<rparr>) s1
               in do {
                 s3 \<leftarrow> (case fb of None \<Rightarrow> Some s2
                        | Some f \<Rightarrow>
                            do { (info, s') \<leftarrow> vf_kmalloc FB_INFO_SIZE s2;
                                 if info = NULL then Some s'
                                 else do { (n, s'') \<leftarrow> devfs_add_child root ''framebuffer'' DEVFS_FB info
                                                        (set_vfs_memory (fb_info_store info f (vfs_memory s')) s');
                                           Some s'' } });
                 s4 \<leftarrow> devfs_add_all root devfs_boot_nodes s3;
                 Some (root, s4\<lparr>devfs_root_node := root\<rparr>) } }"

subsection \<open>Records as files\<close>

definition devfs_record_read ::
  "vfile \<Rightarrow> ptr \<Rightarrow> u64 \<Rightarrow> ptr \<Rightarrow> u64 \<Rightarrow> 'a devfs_state_scheme \<Rightarrow> int \<times> vfile \<times> 'a devfs_state_scheme" where
  "devfs_record_read file data sz buf cnt s =
     (if f_offset file \<ge> sz then (0, file, s)
      else let n = (if cnt < sz - f_offset file then cnt else sz - f_offset file)
           in (sint n, file\<lparr>f_offset := f_offset file + n\<rparr>,
               set_vfs_memory (memcpy buf (data + f_offset file) n (vfs_memory s)) s))"

text \<open>\<^verbatim>\<open>MemInfo\<close>, built in a local variable at the address \<open>stk\<close>.\<close>

definition devfs_meminfo_read ::
  "ptr \<Rightarrow> vfile \<Rightarrow> ptr \<Rightarrow> u64 \<Rightarrow> 'a devfs_state_scheme \<Rightarrow> (u64 sys \<times> vfile \<times> 'a devfs_state_scheme) ret" where
  "devfs_meminfo_read stk file buf cnt s =
     (let m = hp_pmm (vf_heap s);
          s1 = set_vfs_memory (store_u64 (stk + 16) PAGE_SIZE (store_u64 (stk + 8) (pmm_free_page_count m)
                 (store_u64 stk (pmm_total_page_count m) (vfs_memory s)))) s;
          (n, file', s2) = devfs_record_read file stk 24 buf cnt s1
      in Some (Ret n, file', s2))"

subsection \<open>Registering a device\<close>

lemma devfs_lookup_entry:
  assumes "tree_inv L D s" and "d \<in> L"
  shows "devfs_lookup d name s = Some (entry s (D d) name, s)"
  using ramfs_lookup_entry [OF assms, of name] by (simp add: devfs_lookup_def ramfs_lookup_def)

lemma devfs_add_child_spec:
  assumes "tree_inv L D s" and "heap_inv F B (vf_heap s)" and "\<forall>k \<in> L. B k = Some VNODE_SIZE"
    and "d \<in> L" and "v_type (vnodes s d) = VNODE_DIR" and "length name < VFS_NAME_MAX" and "entry s (D d) name = NULL"
  obtains (full) "devfs_add_child d name k pd s = Some (NULL, s)"
  | (added) n s' where "devfs_add_child d name k pd s = Some (n, s')" "n \<notin> L" "n \<noteq> NULL"
      "tree_inv (insert n L) (D(d := n # D d, n := [])) s'" "heap_inv F (B(n \<mapsto> VNODE_SIZE)) (vf_heap s')"
      "v_name (vnodes s' n) = name" "v_type (vnodes s' n) = VNODE_DEVICE" "v_file_ops (vnodes s' n) = Some k"
      "v_private_data (vnodes s' n) = pd" "\<And>x. x \<in> L \<Longrightarrow> v_name (vnodes s' x) = v_name (vnodes s x)"
  using assms(2)
proof (cases rule: vf_kmalloc_cases [where n = VNODE_SIZE])
  case null
  then show thesis by (intro full) (simp add: devfs_add_child_def)
next
  case (block n h)
  define s' where "s' = upd_node d (\<lambda>v. v\<lparr>v_first_child := n\<rparr>)
    (upd_node n (\<lambda>_. vnode_zero\<lparr>v_name := node_name name, v_type := VNODE_DEVICE, v_ops := Some DEVFS_OPS, v_file_ops := Some k,
       v_private_data := pd, v_parent := d, v_next_sibling := v_first_child (vnodes s d)\<rparr>) (s\<lparr>vf_heap := h\<rparr>))"
  have nL: "n \<notin> L" using block(3) assms(3) by auto
  then have nd: "n \<noteq> d" using assms(4) by auto
  have nn: "NULL \<notin> set (D d)" using tree_inv_dir [OF assms(1,4)] assms(1) by (auto simp: dir_ok_def tree_inv_def)
  have vn: "vnodes s' n = vnode_zero\<lparr>v_name := name, v_type := VNODE_DEVICE, v_ops := Some DEVFS_OPS, v_file_ops := Some k,
       v_private_data := pd, v_parent := d, v_next_sibling := v_first_child (vnodes s d)\<rparr>"
    and vd: "vnodes s' d = (vnodes s d)\<lparr>v_first_child := n\<rparr>" and vk: "\<And>x. x \<noteq> n \<Longrightarrow> x \<noteq> d \<Longrightarrow> vnodes s' x = vnodes s x"
    using nd by (simp_all add: s'_def node_name_id [OF assms(6)])
  have hs: "vf_heap s' = h" by (simp add: s'_def upd_node_def)
  show thesis
  proof (rule added [of n s'])
    show "devfs_add_child d name k pd s = Some (n, s')" using block(1,2) by (simp add: devfs_add_child_def s'_def)
    show "tree_inv (insert n L) (D(d := n # D d, n := [])) s'"
      by (rule tree_inv_insert [OF assms(1,4,5) nL block(2)])
        (use vn vd vk assms(7) in \<open>simp_all add: entry_null [OF nn] vnode_zero_def\<close>)
    show "v_name (vnodes s' x) = v_name (vnodes s x)" if "x \<in> L" for x
    proof (cases "x = d")
      case False
      moreover have "x \<noteq> n" using that nL by auto
      ultimately show ?thesis by (simp add: vk)
    qed (simp add: vd)
  qed (use nL block(2,4) vn hs in simp_all)
qed

text \<open>
  Registering a device under a name \<^verbatim>\<open>/dev\<close> does not have yet either changes nothing, for
  lack of memory, or adds a node that a lookup of that name finds, with the operations and the driver
  data it was registered with; every other name still leads to the node it led to, and the directory
  stays a well-formed list.
\<close>

theorem devfs_register_entry:
  assumes "tree_inv L D s" and "heap_inv F B (vf_heap s)" and "\<forall>k \<in> L. B k = Some VNODE_SIZE"
    and "devfs_root_node s \<in> L" and "v_type (vnodes s (devfs_root_node s)) = VNODE_DIR"
    and "length name < VFS_NAME_MAX" and "devfs_lookup (devfs_root_node s) name s = Some (NULL, s)"
  shows "devfs_register name k pd s = Some (NULL, s) \<or>
    (\<exists>n s'. devfs_register name k pd s = Some (n, s') \<and> n \<noteq> NULL \<and>
       tree_inv (insert n L) (D(devfs_root_node s := n # D (devfs_root_node s), n := [])) s' \<and>
       devfs_lookup (devfs_root_node s) name s' = Some (n, s') \<and> v_type (vnodes s' n) = VNODE_DEVICE \<and>
       v_file_ops (vnodes s' n) = Some k \<and> v_private_data (vnodes s' n) = pd \<and>
       (\<forall>other. other \<noteq> name \<longrightarrow>
          map_option fst (devfs_lookup (devfs_root_node s) other s') = map_option fst (devfs_lookup (devfs_root_node s) other s)))"
proof -
  let ?d = "devfs_root_node s"
  have nz: "?d \<noteq> NULL" using assms(1,4) by (auto simp: tree_inv_def)
  have e: "entry s (D ?d) name = NULL" using assms(7) devfs_lookup_entry [OF assms(1,4)] by simp
  show ?thesis
  proof (rule devfs_add_child_spec [OF assms(1-6) e, of k pd], goal_cases)
    case 1
    then show ?case using nz by (simp add: devfs_register_def)
  next
    case (2 n s')
    have d: "?d \<in> insert n L" "n \<noteq> ?d" using 2(2) assms(4) by auto
    have sub: "set (D ?d) \<subseteq> L" using tree_inv_dir [OF assms(1,4)] by (simp add: dir_ok_def)
    have lk: "devfs_lookup ?d x s' = Some (entry s' (n # D ?d) x, s')" for x
      using devfs_lookup_entry [OF 2(4) d(1), of x] d(2) by simp
    have "find (\<lambda>c. v_name (vnodes s' c) = x) (D ?d) = find (\<lambda>c. v_name (vnodes s c) = x) (D ?d)" for x
      by (rule find_cong) (use 2(10) sub in auto)
    then have "devfs_lookup ?d name s' = Some (n, s')"
      and "\<forall>other. other \<noteq> name \<longrightarrow> map_option fst (devfs_lookup ?d other s') = map_option fst (devfs_lookup ?d other s)"
      using devfs_lookup_entry [OF assms(1,4)] 2(6) by (simp_all add: lk entry_def)
    then show ?case using 2 nz by (intro disjI2 exI [of _ n] exI [of _ s']) (simp add: devfs_register_def)
  qed
qed

definition devfs_example :: devfs_state where
  "devfs_example = ramfs_state.extend ramfs_boot \<lparr>devfs_root_node = root_example\<rparr>"

lemma devfs_example_inv:
  obtains B where "tree_inv {root_example} (\<lambda>_. []) devfs_example" "heap_inv Map.empty B (vf_heap devfs_example)"
    "\<forall>k \<in> {root_example}. B k = Some VNODE_SIZE" "devfs_root_node devfs_example = root_example"
    "v_type (vnodes devfs_example root_example) = VNODE_DIR"
proof -
  have e: "vnodes devfs_example = vnodes ramfs_boot" "vf_heap devfs_example = vf_heap ramfs_boot"
    "devfs_root_node devfs_example = root_example" by (simp_all add: devfs_example_def ramfs_state.defs)
  from ramfs_boot_inv obtain B where b: "ramfs_inv Map.empty B {root_example} (\<lambda>_. []) ramfs_boot"
    "v_type (vnodes ramfs_boot root_example) = VNODE_DIR" by blast
  show thesis
    by (rule that [of B]) (use b e in \<open>simp_all add: ramfs_inv_def file_inv_def tree_inv_def dir_ok_def\<close>)
qed

theorem devfs_register_entry_witness:
  "\<exists>n s'. devfs_register ''disk0'' DEVFS_NET 5 devfs_example = Some (n, s') \<and>
     devfs_lookup root_example ''disk0'' s' = Some (n, s') \<and> v_private_data (vnodes s' n) = 5"
proof -
  obtain B where e: "tree_inv {root_example} (\<lambda>_. []) devfs_example" "heap_inv Map.empty B (vf_heap devfs_example)"
    "\<forall>k \<in> {root_example}. B k = Some VNODE_SIZE" "devfs_root_node devfs_example = root_example"
    "v_type (vnodes devfs_example root_example) = VNODE_DIR" by (rule devfs_example_inv)
  have "devfs_lookup root_example ''disk0'' devfs_example = Some (NULL, devfs_example)"
    using devfs_lookup_entry [OF e(1), of root_example "''disk0''"] by (simp add: entry_def)
  moreover have "length ''disk0'' < VFS_NAME_MAX" by (simp add: VFS_NAME_MAX_def)
  moreover have "map_option fst (devfs_register ''disk0'' DEVFS_NET 5 devfs_example) \<noteq> Some NULL" by code_simp
  ultimately show ?thesis
    using devfs_register_entry [OF e(1-3), of "''disk0''" DEVFS_NET 5] e(4,5) by auto
qed

end
