(* ===== verification/Block.thy ===== *)
theory Block
  imports Devfs
begin

text \<open>
  Disks and partitions, \<^verbatim>\<open>kernel/drivers/disk/block.c\<close>: the table of devices, transfers through the bounce
  buffer, the scan for GPT and MBR partitions, the writing of a new GPT and the ioctl calls on a disk.
  A \<^verbatim>\<open>BlockDevice *\<close> is the number of the slot of \<^verbatim>\<open>block_devices\<close> it points to. The driver of a disk
  is given by the functions \<^verbatim>\<open>io\<close> and \<^verbatim>\<open>flush\<close> it registers: they act on the memory and on the
  drivers' own state \<open>drv\<close>, of any type, in which the contents of the disks are.
\<close>

type_synonym 'd block_io = "ptr \<Rightarrow> u64 \<Rightarrow> u32 \<Rightarrow> ptr \<Rightarrow> bool \<Rightarrow> 'd \<times> mem \<Rightarrow> (int \<times> 'd \<times> mem) ret"
type_synonym 'd block_flush_fn = "ptr \<Rightarrow> 'd \<Rightarrow> (int \<times> 'd) ret"

record 'd block_device =
  bd_name :: string
  bd_model :: string
  bd_kind :: u8
  bd_sectors :: u64
  bd_offset :: u64
  bd_parent :: "nat option"
  bd_index :: int
  bd_mounts :: int
  bd_io :: "'d block_io option"
  bd_flush :: "'d block_flush_fn option"
  bd_driver_data :: ptr
  bd_used :: bool

text \<open>\<open>tsc\<close> are the values the time stamp counter is going to have, \<open>tsc_reads\<close> how often it was read.\<close>

record 'd block_state = devfs_state +
  block_devices :: "'d block_device list"
  block_base :: ptr
  block_bounce :: ptr
  block_disk_count :: nat
  random_state :: u64
  tsc :: "nat \<Rightarrow> u64"
  tsc_reads :: nat
  drv :: 'd

definition BLOCK_SECTOR_SIZE :: u64 where "BLOCK_SECTOR_SIZE = 512"
definition BLOCK_MAX_DEVICES :: nat where "BLOCK_MAX_DEVICES = 32"
definition BLOCK_MAX_TRANSFER :: u32 where "BLOCK_MAX_TRANSFER = 128"
definition BLOCK_MODEL_MAX :: nat where "BLOCK_MODEL_MAX = 41"
definition BLOCK_MAX_PARTITIONS :: int where "BLOCK_MAX_PARTITIONS = 8"
definition BLOCK_BOUNCE_PAGES :: u64 where "BLOCK_BOUNCE_PAGES = 128 * BLOCK_SECTOR_SIZE div PAGE_SIZE"
definition BLOCK_DEVICE_SIZE :: u64 where "BLOCK_DEVICE_SIZE = 128"
definition GPT_ENTRIES :: u32 where "GPT_ENTRIES = 128"
definition GPT_ENTRY_SIZE :: u32 where "GPT_ENTRY_SIZE = 128"
definition GPT_ENTRY_SECTORS :: u64 where "GPT_ENTRY_SECTORS = 32"
definition GPT_ALIGN :: u64 where "GPT_ALIGN = 2048"
definition GPT_HEADER_SIZE :: u32 where "GPT_HEADER_SIZE = 92"

definition device_zero :: "'d block_device" where
  "device_zero = \<lparr>bd_name = [], bd_model = [], bd_kind = 0, bd_sectors = 0, bd_offset = 0, bd_parent = None,
     bd_index = 0, bd_mounts = 0, bd_io = None, bd_flush = None, bd_driver_data = NULL, bd_used = False\<rparr>"

definition device :: "nat \<Rightarrow> ('d, 'a) block_state_scheme \<Rightarrow> 'd block_device" where
  "device i s = block_devices s ! i"

definition upd_device ::
  "nat \<Rightarrow> ('d block_device \<Rightarrow> 'd block_device) \<Rightarrow> ('d, 'a) block_state_scheme \<Rightarrow> ('d, 'a) block_state_scheme" where
  "upd_device i f s = s\<lparr>block_devices := (block_devices s)[i := f (block_devices s ! i)]\<rparr>"

subsection \<open>Checksums and random identifiers\<close>

definition crc_step :: "u32 \<Rightarrow> u32" where
  "crc_step crc = drop_bit 1 crc XOR (0xEDB88320 AND (0 - (crc AND 1)))"

fun crc_loop :: "u8 list \<Rightarrow> u32 \<Rightarrow> u32" where
  "crc_loop [] crc = crc"
| "crc_loop (b # bs) crc = crc_loop bs ((crc_step ^^ 8) (crc XOR ucast b))"

definition block_crc32 :: "u8 list \<Rightarrow> u32 \<Rightarrow> u32" where
  "block_crc32 bs crc = NOT (crc_loop bs (NOT crc))"

definition block_random :: "('d, 'a) block_state_scheme \<Rightarrow> u64 \<times> ('d, 'a) block_state_scheme" where
  "block_random s =
     (let t = tsc s (tsc_reads s);
          x1 = random_state s XOR (t + 0x9E3779B97F4A7C15);
          x2 = x1 XOR drop_bit 30 x1;
          x3 = x2 * 0xBF58476D1CE4E5B9;
          x4 = x3 XOR drop_bit 27 x3;
          x5 = x4 * 0x94D049BB133111EB;
          x6 = x5 XOR drop_bit 31 x5
      in (x6, s\<lparr>random_state := x6, tsc_reads := Suc (tsc_reads s)\<rparr>))"

primrec le_bytes :: "nat \<Rightarrow> 'a::len word \<Rightarrow> u8 list" where
  "le_bytes 0 w = []"
| "le_bytes (Suc n) w = ucast w # le_bytes n (drop_bit 8 w)"

definition block_random_guid :: "('d, 'a) block_state_scheme \<Rightarrow> u8 list \<times> ('d, 'a) block_state_scheme" where
  "block_random_guid s =
     (let (a, s1) = block_random s; (b, s2) = block_random s1;
          g = le_bytes 8 a @ le_bytes 8 b;
          g1 = g[7 := (g ! 7 AND 0x0F) OR 0x40]
      in (g1[8 := (g1 ! 8 AND 0x3F) OR 0x80], s2))"

subsection \<open>Helpers of the drivers\<close>

text \<open>\<open>reg i\<close> is what the \<open>i\<close>-th read of the register returns.\<close>

fun wait_loop :: "(nat \<Rightarrow> u32) \<Rightarrow> u32 \<Rightarrow> u32 \<Rightarrow> nat \<Rightarrow> nat \<Rightarrow> bool" where
  "wait_loop reg mk val i 0 \<longleftrightarrow> reg i AND mk = val"
| "wait_loop reg mk val i (Suc n) \<longleftrightarrow> reg i AND mk = val \<or> wait_loop reg mk val (Suc i) n"

definition block_wait32 :: "(nat \<Rightarrow> u32) \<Rightarrow> u32 \<Rightarrow> u32 \<Rightarrow> u32 \<Rightarrow> bool" where
  "block_wait32 reg mk val timeout_ms = wait_loop reg mk val 0 (unat timeout_ms * 1000)"

text \<open>The characters before the terminator the function writes.\<close>

definition block_copy_ata_string :: "u16 list \<Rightarrow> u8 list" where
  "block_copy_ata_string words =
     rev (dropWhile (\<lambda>b. b = 32 \<or> b = 0) (rev (concat (map (\<lambda>w. [ucast (drop_bit 8 w), ucast w]) words))))"

definition block_init :: "('d, 'a) block_state_scheme \<Rightarrow> ('d, 'a) block_state_scheme ret" where
  "block_init s =
     do { (p, m) \<leftarrow> pmm_alloc_pages BLOCK_BOUNCE_PAGES (hp_pmm (vf_heap s));
          Some (s\<lparr>vf_heap := (vf_heap s)\<lparr>hp_pmm := m\<rparr>, block_bounce := p\<rparr>) }"

subsection \<open>The device table\<close>

definition block_alloc :: "('d, 'a) block_state_scheme \<Rightarrow> nat option \<times> ('d, 'a) block_state_scheme" where
  "block_alloc s =
     (case first_index (\<lambda>d. \<not> bd_used d) (block_devices s) of
        None \<Rightarrow> (None, s)
      | Some i \<Rightarrow> (Some i, upd_device i (\<lambda>_. device_zero\<lparr>bd_used := True\<rparr>) s))"

definition block_get :: "int \<Rightarrow> ('d, 'a) block_state_scheme \<Rightarrow> nat option" where
  "block_get i s =
     (if i < 0 \<or> i \<ge> int BLOCK_MAX_DEVICES \<or> \<not> bd_used (device (nat i) s) then None else Some (nat i))"

subsection \<open>Transfers\<close>

partial_function (option) root_loop :: "'d block_device list \<Rightarrow> nat \<Rightarrow> u64 \<Rightarrow> (nat \<times> u64) ret" where
  [code]: "root_loop ds dev lba =
     (case bd_parent (ds ! dev) of None \<Rightarrow> Some (dev, lba) | Some p \<Rightarrow> root_loop ds p (lba + bd_offset (ds ! dev)))"

definition driver_io :: "'d block_device \<Rightarrow> u64 \<Rightarrow> u32 \<Rightarrow> ptr \<Rightarrow> bool \<Rightarrow> 'd \<times> mem \<Rightarrow> (int \<times> 'd \<times> mem) ret" where
  "driver_io dev lba n buf write dm =
     (case bd_io dev of None \<Rightarrow> None | Some io \<Rightarrow> io (bd_driver_data dev) lba n buf write dm)"

partial_function (option) io_loop ::
  "'d block_device \<Rightarrow> ptr \<Rightarrow> bool \<Rightarrow> ptr \<Rightarrow> u64 \<Rightarrow> u32 \<Rightarrow> 'd \<times> mem \<Rightarrow> (int \<times> 'd \<times> mem) ret" where
  [code]: "io_loop dev bounce write p lba cnt dm =
     (if cnt = 0 then Some (0, dm)
      else let n = (if cnt < BLOCK_MAX_TRANSFER then cnt else BLOCK_MAX_TRANSFER);
               bytes = ucast n * BLOCK_SECTOR_SIZE;
               m1 = (if write then memcpy bounce p bytes (snd dm) else snd dm)
           in do { (rc, d2, m2) \<leftarrow> driver_io dev lba n bounce write (fst dm, m1);
                   if rc \<noteq> 0 then Some (- 1, d2, m2)
                   else io_loop dev bounce write (p + bytes) (lba + ucast n) (cnt - n)
                          (d2, if write then m2 else memcpy p bounce bytes m2) })"

definition block_root_io ::
  "nat option \<Rightarrow> u64 \<Rightarrow> u32 \<Rightarrow> ptr \<Rightarrow> bool \<Rightarrow> ('d, 'a) block_state_scheme \<Rightarrow> (int \<times> ('d, 'a) block_state_scheme) ret" where
  "block_root_io dev lba cnt buf write s =
     (case dev of
        None \<Rightarrow> Some (- 1, s)
      | Some i \<Rightarrow>
          if block_bounce s = NULL \<or> cnt = 0 then Some (- 1, s)
          else if lba + ucast cnt > bd_sectors (device i s) \<or> lba + ucast cnt < lba then Some (- 1, s)
          else do { (r, lba') \<leftarrow> root_loop (block_devices s) i lba;
                    (rc, d, m) \<leftarrow> io_loop (device r s) (block_bounce s) write buf lba' cnt (drv s, vfs_memory s);
                    Some (rc, set_vfs_memory m (s\<lparr>drv := d\<rparr>)) })"

definition block_read ::
  "nat option \<Rightarrow> u64 \<Rightarrow> u32 \<Rightarrow> ptr \<Rightarrow> ('d, 'a) block_state_scheme \<Rightarrow> (int \<times> ('d, 'a) block_state_scheme) ret" where
  "block_read dev lba cnt buf s = block_root_io dev lba cnt buf False s"

definition block_write ::
  "nat option \<Rightarrow> u64 \<Rightarrow> u32 \<Rightarrow> ptr \<Rightarrow> ('d, 'a) block_state_scheme \<Rightarrow> (int \<times> ('d, 'a) block_state_scheme) ret" where
  "block_write dev lba cnt buf s = block_root_io dev lba cnt buf True s"

definition block_flush :: "nat option \<Rightarrow> ('d, 'a) block_state_scheme \<Rightarrow> (int \<times> ('d, 'a) block_state_scheme) ret" where
  "block_flush dev s =
     (case dev of
        None \<Rightarrow> Some (0, s)
      | Some i \<Rightarrow>
          do { (r, x) \<leftarrow> root_loop (block_devices s) i 0;
               case bd_flush (device r s) of
                 None \<Rightarrow> Some (0, s)
               | Some flush \<Rightarrow> do { (rc, d) \<leftarrow> flush (bd_driver_data (device r s)) (drv s); Some (rc, s\<lparr>drv := d\<rparr>) } })"

subsection \<open>Partitions\<close>

text \<open>The digit characters are computed at 8 bits.\<close>

definition digit :: "int \<Rightarrow> char" where
  "digit n = char_of (unat (of_int (48 + n) :: u8))"

definition block_partition_slot ::
  "nat \<Rightarrow> int \<Rightarrow> ('d, 'a) block_state_scheme \<Rightarrow> nat option \<times> ('d, 'a) block_state_scheme" where
  "block_partition_slot disk index s =
     (case first_index (\<lambda>d. bd_used d \<and> bd_parent d = Some disk \<and> bd_index d = index) (block_devices s) of
        Some i \<Rightarrow> (Some i, s)
      | None \<Rightarrow>
          let (slot, s1) = block_alloc s
          in case slot of
               None \<Rightarrow> (None, s1)
             | Some p \<Rightarrow>
                 (Some p, upd_device p (\<lambda>d. d\<lparr>bd_parent := Some disk, bd_index := index, bd_kind := bd_kind (device disk s1),
                    bd_model := bd_model (device disk s1), bd_name := bd_name (device disk s1) @ [CHR ''p'', digit index]\<rparr>) s1))"

definition block_add_partition ::
  "nat \<Rightarrow> int \<Rightarrow> u64 \<Rightarrow> u64 \<Rightarrow> ('d, 'a) block_state_scheme \<Rightarrow> ('d, 'a) block_state_scheme" where
  "block_add_partition disk index start sectors s =
     (let total = bd_sectors (device disk s)
      in if start \<ge> total \<or> sectors = 0 then s
         else let n = (if start + sectors > total then total - start else sectors);
                  (slot, s1) = block_partition_slot disk index s
              in case slot of
                   None \<Rightarrow> s1
                 | Some p \<Rightarrow> upd_device p (\<lambda>d. d\<lparr>bd_offset := start, bd_sectors := n\<rparr>) s1)"

definition efi_part :: "u8 list" where
  "efi_part = [0x45, 0x46, 0x49, 0x20, 0x50, 0x41, 0x52, 0x54]"

text \<open>One pass per entry. An entry size above the sector size makes \<^verbatim>\<open>per_sector\<close> 0, and the code divides by it.\<close>

fun gpt_loop ::
  "nat \<Rightarrow> ptr \<Rightarrow> u64 \<Rightarrow> u32 \<Rightarrow> u32 \<Rightarrow> u32 \<Rightarrow> nat \<Rightarrow> int \<Rightarrow> ('d, 'a) block_state_scheme \<Rightarrow>
   (int \<times> ('d, 'a) block_state_scheme) ret" where
  "gpt_loop disk sector entries_lba entry_size per_sector i 0 found s = Some (found, s)"
| "gpt_loop disk sector entries_lba entry_size per_sector i (Suc n) found s =
     (if \<not> found < BLOCK_MAX_PARTITIONS then Some (found, s)
      else if per_sector = 0 then None
      else do {
        (rc, s1) \<leftarrow> (if i mod per_sector = 0 then block_read (Some disk) (entries_lba + ucast (i div per_sector)) 1 sector s
                     else Some (0, s));
        if rc \<noteq> 0 then Some (found, s1)
        else let m = vfs_memory s1; e = sector + ucast ((i mod per_sector) * entry_size);
                 first_lba = load_u64 m (e + 32); last_lba = load_u64 m (e + 40)
             in if bytes_at m e 16 = replicate 16 0 \<or> last_lba < first_lba
                then gpt_loop disk sector entries_lba entry_size per_sector (i + 1) n found s1
                else gpt_loop disk sector entries_lba entry_size per_sector (i + 1) n (found + 1)
                       (block_add_partition disk (found + 1) first_lba (last_lba - first_lba + 1) s1) })"

definition block_scan_gpt :: "nat \<Rightarrow> ptr \<Rightarrow> ('d, 'a) block_state_scheme \<Rightarrow> (int \<times> ('d, 'a) block_state_scheme) ret" where
  "block_scan_gpt disk sector s =
     (let m = vfs_memory s; entry_size = load_u32 m (sector + 84); entry_count = load_u32 m (sector + 80)
      in if bytes_at m sector 8 \<noteq> efi_part \<or> entry_size < GPT_ENTRY_SIZE then Some (- 1, s)
         else let total = (if entry_count < GPT_ENTRIES then entry_count else GPT_ENTRIES)
              in gpt_loop disk sector (load_u64 m (sector + 72)) entry_size (512 div entry_size) 0 (unat total) 0 s)"

fun mbr_loop :: "nat \<Rightarrow> ptr \<Rightarrow> nat list \<Rightarrow> int \<Rightarrow> ('d, 'a) block_state_scheme \<Rightarrow> int \<times> ('d, 'a) block_state_scheme" where
  "mbr_loop disk sector [] found s = (found, s)"
| "mbr_loop disk sector (i # is) found s =
     (let m = vfs_memory s; e = sector + 446 + of_nat (i * 16); ty = m (e + 4);
          start = load_u32 m (e + 8); cnt = load_u32 m (e + 12)
      in if ty = 0 \<or> ty = 0xEE \<or> cnt = 0 then mbr_loop disk sector is found s
         else mbr_loop disk sector is (found + 1) (block_add_partition disk (found + 1) (ucast start) (ucast cnt) s))"

definition block_scan_mbr :: "nat \<Rightarrow> ptr \<Rightarrow> ('d, 'a) block_state_scheme \<Rightarrow> int \<times> ('d, 'a) block_state_scheme" where
  "block_scan_mbr disk sector s =
     (let m = vfs_memory s
      in if m (sector + 510) \<noteq> 0x55 \<or> m (sector + 511) \<noteq> 0xAA then (0, s) else mbr_loop disk sector [0..<4] 0 s)"

text \<open>The local array \<^verbatim>\<open>sector\<close> is at the address \<open>stk\<close> of the caller's stack.\<close>

definition block_scan_partitions :: "ptr \<Rightarrow> nat \<Rightarrow> ('d, 'a) block_state_scheme \<Rightarrow> ('d, 'a) block_state_scheme ret" where
  "block_scan_partitions stk disk s =
     (let s0 = s\<lparr>block_devices := map (\<lambda>d. if bd_used d \<and> bd_parent d = Some disk then d\<lparr>bd_sectors := 0\<rparr> else d) (block_devices s)\<rparr>
      in do {
        (rc, s1) \<leftarrow> block_read (Some disk) 1 1 stk s0;
        (found, s2) \<leftarrow> (if rc = 0 then block_scan_gpt disk stk s1 else Some (- 1, s1));
        if found \<ge> 0 then Some s2
        else do { (rc', s3) \<leftarrow> block_read (Some disk) 0 1 stk s2;
                  Some (if rc' = 0 then snd (block_scan_mbr disk stk s3) else s3) } })"

definition block_register ::
  "ptr \<Rightarrow> string \<Rightarrow> u8 \<Rightarrow> u64 \<Rightarrow> 'd block_io option \<Rightarrow> 'd block_flush_fn option \<Rightarrow> ptr \<Rightarrow> ('d, 'a) block_state_scheme \<Rightarrow>
   (nat option \<times> ('d, 'a) block_state_scheme) ret" where
  "block_register stk model kind sectors io flush driver_data s =
     (let (slot, s1) = block_alloc s
      in case slot of
           None \<Rightarrow> Some (None, s1)
         | Some i \<Rightarrow>
             let n = int (block_disk_count s1);
                 name = ''disk'' @ (if n \<ge> 10 then [digit (n div 10), digit (n mod 10)] else [digit n]);
                 s2 = upd_device i (\<lambda>d. d\<lparr>bd_name := name, bd_model := take (BLOCK_MODEL_MAX - 1) model, bd_kind := kind,
                        bd_sectors := sectors, bd_io := io, bd_flush := flush, bd_driver_data := driver_data\<rparr>)
                        (s1\<lparr>block_disk_count := Suc (block_disk_count s1)\<rparr>)
             in do { s3 \<leftarrow> block_scan_partitions stk i s2; Some (Some i, s3) })"

definition block_busy :: "nat \<Rightarrow> ('d, 'a) block_state_scheme \<Rightarrow> bool" where
  "block_busy i s \<longleftrightarrow> bd_mounts (device i s) \<noteq> 0 \<or>
     (\<exists>d \<in> set (block_devices s). bd_used d \<and> bd_parent d = Some i \<and> bd_mounts d \<noteq> 0)"

subsection \<open>Writing a GPT\<close>

record gpt_header =
  gh_signature :: "u8 list"
  gh_revision :: u32
  gh_header_size :: u32
  gh_header_crc :: u32
  gh_reserved :: u32
  gh_my_lba :: u64
  gh_alternate_lba :: u64
  gh_first_usable :: u64
  gh_last_usable :: u64
  gh_disk_guid :: "u8 list"
  gh_entries_lba :: u64
  gh_entry_count :: u32
  gh_entry_size :: u32
  gh_entries_crc :: u32

text \<open>The bytes of the packed structure.\<close>

definition gpt_header_bytes :: "gpt_header \<Rightarrow> u8 list" where
  "gpt_header_bytes h = gh_signature h @ le_bytes 4 (gh_revision h) @ le_bytes 4 (gh_header_size h) @ le_bytes 4 (gh_header_crc h) @
     le_bytes 4 (gh_reserved h) @ le_bytes 8 (gh_my_lba h) @ le_bytes 8 (gh_alternate_lba h) @ le_bytes 8 (gh_first_usable h) @
     le_bytes 8 (gh_last_usable h) @ gh_disk_guid h @ le_bytes 8 (gh_entries_lba h) @ le_bytes 4 (gh_entry_count h) @
     le_bytes 4 (gh_entry_size h) @ le_bytes 4 (gh_entries_crc h)"

definition gpt_write_header :: "gpt_header \<Rightarrow> ptr \<Rightarrow> u64 \<Rightarrow> u64 \<Rightarrow> u64 \<Rightarrow> mem \<Rightarrow> gpt_header \<times> mem" where
  "gpt_write_header hdr sector my_lba alt_lba entries_lba m =
     (let h1 = hdr\<lparr>gh_my_lba := my_lba, gh_alternate_lba := alt_lba, gh_entries_lba := entries_lba, gh_header_crc := 0\<rparr>;
          h2 = h1\<lparr>gh_header_crc := block_crc32 (gpt_header_bytes h1) 0\<rparr>
      in (h2, store_bytes sector (gpt_header_bytes h2) (memset sector 0 BLOCK_SECTOR_SIZE m)))"

definition gpt_bios_boot_guid :: "u8 list" where
  "gpt_bios_boot_guid = [0x48, 0x61, 0x68, 0x21, 0x49, 0x64, 0x6F, 0x6E, 0x74, 0x4E, 0x65, 0x65, 0x64, 0x45, 0x46, 0x49]"

definition gpt_esp_guid :: "u8 list" where
  "gpt_esp_guid = [0x28, 0x73, 0x2A, 0xC1, 0x1F, 0xF8, 0xD2, 0x11, 0xBA, 0x4B, 0x00, 0xA0, 0xC9, 0x3E, 0xC9, 0x3B]"

definition utf16_label :: "string \<Rightarrow> u8 list" where
  "utf16_label cs = concat (map (\<lambda>c. [of_nat (of_char c), 0]) cs)"

definition gpt_entry_store :: "ptr \<Rightarrow> u8 list \<Rightarrow> u8 list \<Rightarrow> u64 \<Rightarrow> u64 \<Rightarrow> string \<Rightarrow> mem \<Rightarrow> mem" where
  "gpt_entry_store e type_guid unique_guid first_lba last_lba label m =
     store_bytes (e + 56) (utf16_label label) (store_u64 (e + 40) last_lba (store_u64 (e + 32) first_lba
       (store_bytes (e + 16) unique_guid (store_bytes e type_guid m))))"

definition mbr_protective :: "ptr \<Rightarrow> u64 \<Rightarrow> mem \<Rightarrow> mem" where
  "mbr_protective sector last_lba m =
     (let pe = sector + 446; m0 = memset sector 0 BLOCK_SECTOR_SIZE m;
          m1 = m0(pe + 1 := 0x00, pe + 2 := 0x02, pe + 4 := 0xEE, pe + 5 := 0xFF, pe + 6 := 0xFF, pe + 7 := 0xFF);
          mbr_count = (if last_lba > 0xFFFFFFFF then 0xFFFFFFFF else ucast last_lba)
      in (store_u32 (pe + 12) mbr_count (store_u32 (pe + 8) 1 m1))(sector + 510 := 0x55, sector + 511 := 0xAA))"

definition vf_kcalloc :: "u64 \<Rightarrow> u64 \<Rightarrow> 'a vfs_state_scheme \<Rightarrow> (ptr \<times> 'a vfs_state_scheme) ret" where
  "vf_kcalloc n sz s = do { (p, h) \<leftarrow> kcalloc n sz (vf_heap s); Some (p, s\<lparr>vf_heap := h\<rparr>) }"

definition gpt_header_new :: "u64 \<Rightarrow> u64 \<Rightarrow> u8 list \<Rightarrow> u32 \<Rightarrow> gpt_header" where
  "gpt_header_new first_usable last_usable disk_guid entries_crc =
     \<lparr>gh_signature = efi_part, gh_revision = 0x00010000, gh_header_size = GPT_HEADER_SIZE, gh_header_crc = 0, gh_reserved = 0,
      gh_my_lba = 0, gh_alternate_lba = 0, gh_first_usable = first_usable, gh_last_usable = last_usable,
      gh_disk_guid = disk_guid, gh_entries_lba = 0, gh_entry_count = GPT_ENTRIES, gh_entry_size = GPT_ENTRY_SIZE,
      gh_entries_crc = entries_crc\<rparr>"

text \<open>The writes, in the code's order; every error leads to \<^verbatim>\<open>out\<close>. \<open>stk\<close> is the address of \<^verbatim>\<open>sector\<close>.\<close>

definition gpt_flush_out ::
  "ptr \<Rightarrow> nat \<Rightarrow> ptr \<Rightarrow> u64 \<Rightarrow> u64 \<Rightarrow> gpt_header \<Rightarrow> ('d, 'a) block_state_scheme \<Rightarrow> (int \<times> ('d, 'a) block_state_scheme) ret" where
  "gpt_flush_out stk disk entries last_lba part_start hdr s =
     (let mbr = set_vfs_memory (mbr_protective stk last_lba (vfs_memory s)) s
      in do {
        (rc, s1) \<leftarrow> block_write (Some disk) 0 1 stk mbr;
        if rc \<noteq> 0 then Some (- 1, s1) else do {
        (rc, s2) \<leftarrow> block_write (Some disk) 2 (ucast GPT_ENTRY_SECTORS) entries s1;
        if rc \<noteq> 0 then Some (- 1, s2) else do {
        (rc, s3) \<leftarrow> block_write (Some disk) (last_lba - GPT_ENTRY_SECTORS) (ucast GPT_ENTRY_SECTORS) entries s2;
        if rc \<noteq> 0 then Some (- 1, s3) else
        let (h1, m3) = gpt_write_header hdr stk last_lba 1 (last_lba - GPT_ENTRY_SECTORS) (vfs_memory s3) in do {
        (rc, s4) \<leftarrow> block_write (Some disk) last_lba 1 stk (set_vfs_memory m3 s3);
        if rc \<noteq> 0 then Some (- 1, s4) else
        let (h2, m4) = gpt_write_header h1 stk 1 last_lba 2 (vfs_memory s4) in do {
        (rc, s5) \<leftarrow> block_write (Some disk) 1 1 stk (set_vfs_memory m4 s4);
        if rc \<noteq> 0 then Some (- 1, s5) else do {
        (rc, s6) \<leftarrow> block_write (Some disk) part_start 1 stk (set_vfs_memory (memset stk 0 BLOCK_SECTOR_SIZE (vfs_memory s5)) s5);
        block_flush (Some disk) s6 } } } } } })"

definition block_write_gpt :: "ptr \<Rightarrow> nat \<Rightarrow> ('d, 'a) block_state_scheme \<Rightarrow> (int \<times> ('d, 'a) block_state_scheme) ret" where
  "block_write_gpt stk disk s =
     (let last_lba = bd_sectors (device disk s) - 1;
          first_usable = 2 + GPT_ENTRY_SECTORS;
          last_usable = last_lba - 1 - GPT_ENTRY_SECTORS;
          part_start = GPT_ALIGN;
          part_end = ((last_usable + 1) AND NOT (GPT_ALIGN - 1)) - 1
      in if part_end \<le> part_start then Some (- 1, s)
         else do {
           (entries, s1) \<leftarrow> vf_kcalloc GPT_ENTRY_SECTORS BLOCK_SECTOR_SIZE s;
           if entries = NULL then Some (- 1, s1)
           else let (g1, s2) = block_random_guid s1;
                    (g2, s3) = block_random_guid s2;
                    m = gpt_entry_store (entries + 128) gpt_bios_boot_guid g2 first_usable (part_start - 1) ''BIOS boot''
                          (gpt_entry_store entries gpt_esp_guid g1 part_start part_end ''StrawOS'' (vfs_memory s3));
                    (g3, s4) = block_random_guid s3;
                    crc = block_crc32 (bytes_at m entries (unat (GPT_ENTRY_SECTORS * BLOCK_SECTOR_SIZE))) 0
                in do { (rc, s5) \<leftarrow> gpt_flush_out stk disk entries last_lba part_start
                                      (gpt_header_new first_usable last_usable g3 crc) (set_vfs_memory m s4);
                        s6 \<leftarrow> vf_kfree entries s5;
                        Some (rc, s6) } })"

subsection \<open>Disks as files\<close>

definition DEVFS_IOCTL_DISK_GET_INFO :: u64 where "DEVFS_IOCTL_DISK_GET_INFO = 0x1200"
definition DEVFS_IOCTL_DISK_PARTITION :: u64 where "DEVFS_IOCTL_DISK_PARTITION = 0x1201"
definition DEVFS_IOCTL_DISK_FORMAT :: u64 where "DEVFS_IOCTL_DISK_FORMAT = 0x1202"
definition DEVFS_IOCTL_DISK_READ :: u64 where "DEVFS_IOCTL_DISK_READ = 0x1203"
definition DEVFS_IOCTL_DISK_WRITE :: u64 where "DEVFS_IOCTL_DISK_WRITE = 0x1204"

definition BLOCK_FILE_OPS :: dev_kind where "BLOCK_FILE_OPS = DEVICE_FILE_OPS 8"

definition device_addr :: "nat \<Rightarrow> ('d, 'a) block_state_scheme \<Rightarrow> ptr" where
  "device_addr i s = block_base s + of_nat i * BLOCK_DEVICE_SIZE"

definition device_at :: "ptr \<Rightarrow> ('d, 'a) block_state_scheme \<Rightarrow> nat option" where
  "device_at p s = (if p = NULL then None else Some (unat ((p - block_base s) div BLOCK_DEVICE_SIZE)))"

fun publish_loop ::
  "(fs_kind \<Rightarrow> ('d, 'a) block_state_scheme vnode_ops) \<Rightarrow> nat list \<Rightarrow> ('d, 'a) block_state_scheme \<Rightarrow> ('d, 'a) block_state_scheme ret" where
  "publish_loop T [] s = Some s"
| "publish_loop T (i # is) s =
     (let dev = device i s
      in if \<not> bd_used dev \<or> bd_sectors dev = 0 then publish_loop T is s
         else do { (n, s1) \<leftarrow> vfs_resolve T (Some (''/dev/'' @ bd_name dev)) s;
                   s2 \<leftarrow> (if n = NULL
                          then do { (n', s') \<leftarrow> devfs_register (bd_name dev) BLOCK_FILE_OPS (device_addr i s1) s1; Some s' }
                          else Some s1);
                   publish_loop T is s2 })"

definition block_publish_all ::
  "(fs_kind \<Rightarrow> ('d, 'a) block_state_scheme vnode_ops) \<Rightarrow> ('d, 'a) block_state_scheme \<Rightarrow> ('d, 'a) block_state_scheme ret" where
  "block_publish_all T s = publish_loop T [0..<BLOCK_MAX_DEVICES] s"

text \<open>\<^verbatim>\<open>DiskInfo\<close> as the bytes copied to the caller; a name is padded with zeros.\<close>

definition padded_string :: "nat \<Rightarrow> string \<Rightarrow> u8 list" where
  "padded_string n cs = take n (map (\<lambda>c. of_nat (of_char c)) cs @ replicate n 0)"

definition disk_info_bytes :: "nat \<Rightarrow> ('d, 'a) block_state_scheme \<Rightarrow> u8 list" where
  "disk_info_bytes i s =
     (let d = device i s
      in le_bytes 8 (bd_sectors d) @ le_bytes 4 (512 :: u32) @
         [if bd_parent d \<noteq> None then 1 else 0, bd_kind d, if block_busy i s then 1 else 0, 0] @
         padded_string BLOCK_MODEL_MAX (bd_model d) @ replicate 7 0 @ le_bytes 8 (bd_offset d))"

text \<open>\<open>fat32_format\<close> is the formatting of \<^verbatim>\<open>fat32.c\<close>.\<close>

definition block_ioctl ::
  "(fs_kind \<Rightarrow> ('d, 'a) block_state_scheme vnode_ops) \<Rightarrow>
   (nat \<Rightarrow> string \<Rightarrow> ('d, 'a) block_state_scheme \<Rightarrow> (int \<times> ('d, 'a) block_state_scheme) ret) \<Rightarrow>
   ptr \<Rightarrow> vfile \<Rightarrow> u64 \<Rightarrow> ptr \<Rightarrow> ('d, 'a) block_state_scheme \<Rightarrow> (int \<times> ('d, 'a) block_state_scheme) ret" where
  "block_ioctl T fat32_format stk file request arg s =
     (case device_at (v_private_data (vnodes s (f_node file))) s of
        None \<Rightarrow> Some (- 1, s)
      | Some i \<Rightarrow>
          let dev = device i s; m = vfs_memory s
          in if \<not> bd_used dev then Some (- 1, s)
             else if request = DEVFS_IOCTL_DISK_GET_INFO
             then (if arg = NULL then Some (- 1, s) else Some (0, set_vfs_memory (store_bytes arg (disk_info_bytes i s) m) s))
             else if request = DEVFS_IOCTL_DISK_PARTITION
             then (if bd_parent dev \<noteq> None \<or> block_busy i s then Some (- 1, s)
                   else do { (rc, s1) \<leftarrow> block_write_gpt stk i s;
                             if rc \<noteq> 0 then Some (- 1, s1)
                             else do { s2 \<leftarrow> block_scan_partitions stk i s1; s3 \<leftarrow> block_publish_all T s2; Some (0, s3) } })
             else if request = DEVFS_IOCTL_DISK_READ \<or> request = DEVFS_IOCTL_DISK_WRITE
             then (let lba = load_u64 m arg; cnt = load_u32 m (arg + 8); buf = load_u64 m (arg + 16)
                   in if arg = NULL \<or> buf = NULL \<or> cnt = 0 then Some (- 1, s)
                      else if request = DEVFS_IOCTL_DISK_READ then block_read (Some i) lba cnt buf s
                      else if block_busy i s then Some (- 1, s)
                      else do { (rc, s1) \<leftarrow> block_write (Some i) lba cnt buf s;
                                if rc \<noteq> 0 then Some (- 1, s1) else block_flush (Some i) s1 })
             else if request = DEVFS_IOCTL_DISK_FORMAT
             then (if bd_sectors dev = 0 \<or> block_busy i s then Some (- 1, s) else fat32_format i ''STRAWOS'' s)
             else Some (- 1, s))"

definition block_poll :: "vfile \<Rightarrow> ('d, 'a) block_state_scheme \<Rightarrow> int" where
  "block_poll file s = or POLLIN POLLOUT"

definition block_from_node :: "ptr \<Rightarrow> ('d, 'a) block_state_scheme \<Rightarrow> nat option" where
  "block_from_node node s =
     (if node = NULL \<or> v_type (vnodes s node) \<noteq> VNODE_DEVICE \<or> v_file_ops (vnodes s node) \<noteq> Some BLOCK_FILE_OPS then None
      else case device_at (v_private_data (vnodes s node)) s of
             None \<Rightarrow> None
           | Some i \<Rightarrow> (if bd_used (device i s) \<and> bd_sectors (device i s) \<noteq> 0 then Some i else None))"

subsection \<open>The checksum\<close>

lemma crc_step_bit:
  "bit (crc_step c) i \<longleftrightarrow> bit c (Suc i) \<noteq> (bit (0xEDB88320 :: u32) i \<and> bit c 0)"
proof -
  have "bit (0 - (c AND 1)) i \<longleftrightarrow> i < 32 \<and> bit c 0"
  proof (cases "bit c 0")
    case True
    then have "c AND 1 = 1" by (simp add: and_one_eq bit_0 odd_iff_mod_2_eq_one)
    then show ?thesis using True by simp
  next
    case False
    then have "c AND 1 = 0" by (simp add: and_one_eq bit_0 even_iff_mod_2_eq_zero)
    then show ?thesis using False by simp
  qed
  moreover have "i < 32" if "bit (0xEDB88320 :: u32) i" using that bit_imp_le_length by fastforce
  ultimately show ?thesis by (auto simp: crc_step_def bit_simps)
qed

lemma crc_step_xor: "crc_step (a XOR b) = crc_step a XOR crc_step b"
  by (rule bit_word_eqI) (auto simp: crc_step_bit bit_xor_iff)

lemma bit_shift_1: "bit (push_bit 1 (w :: u32)) k \<longleftrightarrow> 1 \<le> k \<and> k < 32 \<and> bit w (k - 1)"
  by (simp only: bit_push_bit_iff) auto

lemma crc_step_shift:
  assumes "\<not> bit w 31"
  shows "crc_step (push_bit 1 w) = w"
proof (rule bit_word_eqI)
  fix i assume "i < LENGTH(32)"
  then show "bit (crc_step (push_bit 1 w)) i = bit w i"
    using assms by (cases "i = 31") (simp_all only: crc_step_bit bit_shift_1, simp_all)
qed

text \<open>The highest bit after a step is the lowest bit before, since the polynomial has its highest bit set.\<close>

lemma inj_crc_step: "inj crc_step"
proof (rule injI)
  fix a b assume e: "crc_step a = crc_step b"
  have hi: "\<not> bit c (Suc 31)" for c :: u32 using bit_imp_le_length [of c "Suc 31"] by auto
  have "bit (0xEDB88320 :: u32) 31" by simp
  then have top: "bit (crc_step c) 31 \<longleftrightarrow> bit c 0" for c using hi [of c] by (simp add: crc_step_bit)
  have z: "bit a 0 = bit b 0" using top [of a] top [of b] e by simp
  show "a = b"
  proof (rule bit_word_eqI)
    fix i show "bit a i = bit b i"
    proof (cases i)
      case (Suc k)
      then show ?thesis using crc_step_bit [of a k] crc_step_bit [of b k] e z by auto
    qed (use z in simp)
  qed
qed

lemma inj_crc_steps: "inj (crc_step ^^ n)"
proof (induction n)
  case (Suc n)
  show ?case unfolding funpow.simps by (rule inj_compose [OF inj_crc_step Suc])
qed simp

lemma crc_steps_xor: "(crc_step ^^ n) (a XOR b) = (crc_step ^^ n) a XOR (crc_step ^^ n) b"
  by (induction n) (simp_all add: crc_step_xor)

lemma crc_steps_shift:
  assumes "\<And>i. 32 - n \<le> i \<Longrightarrow> \<not> bit w i" and "n \<le> 32"
  shows "(crc_step ^^ n) (push_bit n w) = w"
  using assms
proof (induction n arbitrary: w)
  case (Suc n)
  have "push_bit (Suc n) w = push_bit n (push_bit 1 w)" by simp
  moreover have "(crc_step ^^ n) (push_bit n (push_bit 1 w)) = push_bit 1 w"
  proof (rule Suc.IH)
    fix i assume "32 - n \<le> i"
    then have "\<not> bit w (i - 1)" by (intro Suc.prems(1)) simp
    then show "\<not> bit (push_bit 1 w) i" by (simp only: bit_shift_1) simp
  qed (use Suc.prems in simp)
  moreover have "crc_step (push_bit 1 w) = w" by (rule crc_step_shift) (use Suc.prems in simp)
  ultimately show ?case by simp
qed simp

text \<open>The bytes of a burst, as the bits they are xored into the register.\<close>

primrec burst :: "u8 list \<Rightarrow> u32" where
  "burst [] = 0"
| "burst (b # bs) = ucast b XOR push_bit 8 (burst bs)"

lemma burst_high: "length bs \<le> k \<Longrightarrow> 8 * k \<le> i \<Longrightarrow> \<not> bit (burst bs) i"
proof (induction bs arbitrary: k i)
  case (Cons b bs)
  obtain k' where k: "k = Suc k'" using Cons.prems(1) by (cases k) auto
  have "\<not> bit (burst bs) (i - 8)" by (rule Cons.IH [of k']) (use Cons.prems k in auto)
  moreover have "\<not> bit b i" using Cons.prems k bit_imp_le_length [of b i] by auto
  ultimately show ?case by (auto simp: bit_simps)
qed simp

lemma crc_loop_burst: "length bs \<le> 4 \<Longrightarrow> crc_loop bs c = (crc_step ^^ (8 * length bs)) (c XOR burst bs)"
proof (induction bs arbitrary: c)
  case (Cons b bs)
  have l: "length bs \<le> 3" using Cons.prems by simp
  have s: "(crc_step ^^ 8) (push_bit 8 (burst bs)) = burst bs"
    by (rule crc_steps_shift) (use burst_high [OF l] in auto)
  have "(crc_step ^^ 8) (c XOR ucast b) XOR burst bs = (crc_step ^^ 8) (c XOR ucast b) XOR (crc_step ^^ 8) (push_bit 8 (burst bs))"
    by (simp only: s)
  also have "\<dots> = (crc_step ^^ 8) (c XOR burst (b # bs))" by (simp add: crc_steps_xor [symmetric] ac_simps)
  finally have "(crc_step ^^ 8) (c XOR ucast b) XOR burst bs = (crc_step ^^ 8) (c XOR burst (b # bs))" .
  moreover have "crc_loop (b # bs) c = (crc_step ^^ (8 * length bs)) ((crc_step ^^ 8) (c XOR ucast b) XOR burst bs)"
    using Cons.IH l by simp
  ultimately have "crc_loop (b # bs) c = (crc_step ^^ (8 * length bs)) ((crc_step ^^ 8) (c XOR burst (b # bs)))" by simp
  also have "\<dots> = (crc_step ^^ (8 * length bs + 8)) (c XOR burst (b # bs))" by (simp add: funpow_add)
  finally show ?case by (simp add: add.commute)
qed simp

lemma crc_loop_append: "crc_loop (xs @ ys) c = crc_loop ys (crc_loop xs c)"
  by (induction xs arbitrary: c) simp_all

lemma inj_crc_loop: "inj (crc_loop bs)"
proof (induction bs)
  case (Cons b bs)
  show ?case
  proof (rule injI)
    fix x y assume "crc_loop (b # bs) x = crc_loop (b # bs) y"
    then have "crc_loop bs ((crc_step ^^ 8) (x XOR ucast b)) = crc_loop bs ((crc_step ^^ 8) (y XOR ucast b))"
      by (simp only: crc_loop.simps)
    then have "(crc_step ^^ 8) (x XOR ucast b) = (crc_step ^^ 8) (y XOR ucast b)" by (rule injD [OF Cons])
    then have "x XOR ucast b = y XOR ucast b" by (rule injD [OF inj_crc_steps])
    from arg_cong [OF this, of "\<lambda>z. z XOR ucast b"] show "x = y" by (simp only: xor.assoc xor_self_eq xor.right_neutral)
  qed
qed (simp add: inj_def)

lemma inj_burst: "length xs = length ys \<Longrightarrow> length xs \<le> 4 \<Longrightarrow> burst xs = burst ys \<Longrightarrow> xs = ys"
proof (induction xs ys rule: list_induct2)
  case (Cons x xs y ys)
  have l: "length xs \<le> 3" "length ys \<le> 3" using Cons by auto
  have bits: "bit (burst (b # bs)) i = (if i < 8 then bit b i else bit (burst bs) (i - 8))" if "i < 32" for b bs i
    using that bit_imp_le_length [of b i] by (auto simp: bit_simps)
  have "x = y"
  proof (rule bit_word_eqI)
    fix i assume "i < LENGTH(8)"
    then show "bit x i = bit y i" using bits [of i x xs] bits [of i y ys] Cons.prems(2) by simp
  qed
  moreover have "burst xs = burst ys"
  proof (rule bit_word_eqI)
    fix i assume i: "i < LENGTH(32)"
    show "bit (burst xs) i = bit (burst ys) i"
    proof (cases "i < 24")
      case True
      then show ?thesis using bits [of "i + 8" x xs] bits [of "i + 8" y ys] Cons.prems(2) by simp
    next
      case False
      then show ?thesis using burst_high [OF l(1), of i] burst_high [OF l(2), of i] by simp
    qed
  qed
  ultimately show ?case using Cons.IH l(1) by simp
qed simp

subsection \<open>Transfers reach the right sectors\<close>

text \<open>The \<open>j\<close>-th sector of a buffer, and what a driver promises of its disk: \<open>disk d l\<close> are the bytes of sector
  \<open>l\<close> in the driver's state \<open>d\<close>. A read leaves the disk alone and writes only the buffer; a write changes no
  other sector and no memory; either may fail with a non-zero code.\<close>

definition sector_at :: "mem \<Rightarrow> ptr \<Rightarrow> nat \<Rightarrow> u8 list" where
  "sector_at m p j = bytes_at m (p + of_nat (512 * j)) 512"

definition disk_reads :: "('d \<Rightarrow> u64 \<Rightarrow> u8 list) \<Rightarrow> u64 \<Rightarrow> u32 \<Rightarrow> ptr \<Rightarrow> 'd \<Rightarrow> mem \<Rightarrow> int \<Rightarrow> 'd \<Rightarrow> mem \<Rightarrow> bool" where
  "disk_reads disk lba n buf d m rc d' m' \<longleftrightarrow> disk d' = disk d \<and>
     (\<forall>a. \<not> unat (a - buf) < 512 * unat n \<longrightarrow> m' a = m a) \<and>
     (rc = 0 \<longrightarrow> (\<forall>j < unat n. sector_at m' buf j = disk d (lba + of_nat j)))"

definition disk_writes :: "('d \<Rightarrow> u64 \<Rightarrow> u8 list) \<Rightarrow> u64 \<Rightarrow> u32 \<Rightarrow> ptr \<Rightarrow> 'd \<Rightarrow> mem \<Rightarrow> int \<Rightarrow> 'd \<Rightarrow> bool" where
  "disk_writes disk lba n buf d m rc d' \<longleftrightarrow>
     (\<forall>l. \<not> unat (l - lba) < unat n \<longrightarrow> disk d' l = disk d l) \<and>
     (rc = 0 \<longrightarrow> (\<forall>j < unat n. disk d' (lba + of_nat j) = sector_at m buf j))"

definition disk_driver :: "('d \<Rightarrow> u64 \<Rightarrow> u8 list) \<Rightarrow> 'd block_device \<Rightarrow> bool" where
  "disk_driver disk dev \<longleftrightarrow> (\<exists>io. bd_io dev = Some io \<and>
     (\<forall>lba n buf d m. 0 < n \<longrightarrow> n \<le> BLOCK_MAX_TRANSFER \<longrightarrow> unat lba + unat n \<le> unat (bd_sectors dev) \<longrightarrow>
        (\<exists>rc d' m'. io (bd_driver_data dev) lba n buf False (d, m) = Some (rc, d', m') \<and> disk_reads disk lba n buf d m rc d' m') \<and>
        (\<exists>rc d'. io (bd_driver_data dev) lba n buf True (d, m) = Some (rc, d', m) \<and> disk_writes disk lba n buf d m rc d')))"

lemma driver_read:
  assumes "disk_driver disk dev" and "0 < n" and "n \<le> BLOCK_MAX_TRANSFER" and "unat lba + unat n \<le> unat (bd_sectors dev)"
  obtains rc d' m' where "driver_io dev lba n buf False (d, m) = Some (rc, d', m')" "disk_reads disk lba n buf d m rc d' m'"
  using assms unfolding disk_driver_def driver_io_def by fastforce

lemma driver_write:
  assumes "disk_driver disk dev" and "0 < n" and "n \<le> BLOCK_MAX_TRANSFER" and "unat lba + unat n \<le> unat (bd_sectors dev)"
  obtains rc d' where "driver_io dev lba n buf True (d, m) = Some (rc, d', m)" "disk_writes disk lba n buf d m rc d'"
  using assms unfolding disk_driver_def driver_io_def by fastforce

text \<open>The size of one pass and the facts about it.\<close>

lemma chunk_facts:
  fixes cnt :: u32
  assumes "cnt \<noteq> 0" and "n = (if cnt < BLOCK_MAX_TRANSFER then cnt else BLOCK_MAX_TRANSFER)"
  shows "0 < n" "n \<le> BLOCK_MAX_TRANSFER" "unat n \<le> 128" "unat n \<le> unat cnt" "unat (cnt - n) = unat cnt - unat n" "unat (cnt - n) < unat cnt"
    "unat (ucast n * BLOCK_SECTOR_SIZE :: u64) = 512 * unat n" "unat (ucast n :: u64) = unat n"
    "(ucast n :: u64) = of_nat (unat n)" "(ucast n * BLOCK_SECTOR_SIZE :: u64) = of_nat (512 * unat n)"
proof -
  show p: "0 < n" using assms by (auto simp: word_gt_0 BLOCK_MAX_TRANSFER_def)
  show "n \<le> BLOCK_MAX_TRANSFER" using assms(2) by auto
  then show u: "unat n \<le> 128" by (simp add: word_le_nat_alt BLOCK_MAX_TRANSFER_def)
  have "n \<le> cnt" using assms(2) by auto
  then show le: "unat n \<le> unat cnt" by (simp add: word_le_nat_alt)
  show e: "unat (cnt - n) = unat cnt - unat n" using le by (rule unat_diff_nowrap)
  have "0 < unat n" using p by (simp add: unat_gt_0 word_gt_0)
  with e le show "unat (cnt - n) < unat cnt" by linarith
  have "take_bit 64 (unat n) = unat n" by (rule take_bit_nat_eq_self) (use u in simp)
  then show c: "unat (ucast n :: u64) = unat n" by (simp add: unsigned_ucast_eq)
  show w: "(ucast n :: u64) = of_nat (unat n)" by (metis c of_nat_unat_64)
  have "(ucast n * BLOCK_SECTOR_SIZE :: u64) = of_nat (unat n) * 512" by (simp only: w BLOCK_SECTOR_SIZE_def)
  then show b: "(ucast n * BLOCK_SECTOR_SIZE :: u64) = of_nat (512 * unat n)" by (simp add: mult.commute)
  show "unat (ucast n * BLOCK_SECTOR_SIZE :: u64) = 512 * unat n" unfolding b by (rule unat_of_nat_small) (use u in simp)
qed

lemma sector_at_shift: "sector_at m (p + of_nat (512 * k)) j = sector_at m p (k + j)"
  by (simp add: sector_at_def algebra_simps)

lemma unat_sector: "i < 512 \<Longrightarrow> 512 * j + 512 \<le> 2 ^ 63 \<Longrightarrow> unat (of_nat (512 * j) + of_nat i :: u64) = 512 * j + i"
proof -
  assume "i < 512" and "512 * j + 512 \<le> (2 :: nat) ^ 63"
  then have "512 * j + i < (2 :: nat) ^ 64" by simp
  then have "unat (of_nat (512 * j + i) :: u64) = 512 * j + i" by (intro unat_of_nat_small) simp
  then show ?thesis by (simp only: of_nat_add)
qed

lemma sector_at_eqI:
  assumes "\<And>a. unat (a - p) < 512 * k \<Longrightarrow> m a = m' (q + (a - p))" and "j < k" and "512 * k \<le> 2 ^ 63"
  shows "sector_at m p j = sector_at m' q j"
  unfolding sector_at_def
proof (rule bytes_at_eqI)
  fix i :: nat assume i: "i < 512"
  have "512 * j + 512 \<le> 512 * k" using assms(2) by simp
  then have "unat (of_nat (512 * j) + of_nat i :: u64) < 512 * k" using unat_sector [OF i, of j] assms(3) i by linarith
  then have "unat ((p + of_nat (512 * j) + of_nat i) - p) < 512 * k" by (simp only: add.assoc add_diff_cancel_left')
  then have "m (p + of_nat (512 * j) + of_nat i) = m' (q + ((p + of_nat (512 * j) + of_nat i) - p))" by (rule assms(1))
  also have "q + ((p + of_nat (512 * j) + of_nat i) - p) = q + of_nat (512 * j) + of_nat i" by (simp only: add.assoc add_diff_cancel_left')
  finally show "m (p + of_nat (512 * j) + of_nat i) = m' (q + of_nat (512 * j) + of_nat i)" .
qed

lemma unat_lba: "unat (lba + of_nat j - lba :: u64) = j" if "j < 2 ^ 64"
  using that unat_of_nat_small [of j, where 'a = 64] by simp

text \<open>A chunk of \<open>n\<close> sectors, followed by the rest.\<close>

lemma disk_writes_chunk:
  fixes cnt n :: u32
  assumes "unat n \<le> unat cnt" and "unat (cnt - n) = unat cnt - unat n" and "unat (ucast n :: u64) = unat n"
    and "disk_writes disk lba n b d m1 0 d2" and "disk_writes disk (lba + ucast n) (cnt - n) q d2 m2 rc d'"
    and "\<And>j. j < unat n \<Longrightarrow> sector_at m1 b j = sector_at m p j"
    and "\<And>j. j < unat (cnt - n) \<Longrightarrow> sector_at m2 q j = sector_at m p (unat n + j)"
  shows "disk_writes disk lba cnt p d m rc d'"
  unfolding disk_writes_def
proof (intro conjI allI impI)
  fix l assume nl: "\<not> unat (l - lba) < unat cnt"
  have "\<not> unat (l - (lba + ucast n)) < unat (cnt - n)"
  proof
    assume h: "unat (l - (lba + ucast n)) < unat (cnt - n)"
    have e: "ucast n + (l - (lba + ucast n)) = l - lba" by (simp only: algebra_simps)
    have "unat (l - lba) \<le> unat n + unat (l - (lba + ucast n))"
      using unat_add_le [of "ucast n" "l - (lba + ucast n)"] by (simp only: e assms(3))
    then show False using h nl assms(1,2) by linarith
  qed
  moreover have "\<not> unat (l - lba) < unat n" using nl assms(1) by linarith
  ultimately show "disk d' l = disk d l" using assms(4,5) by (simp add: disk_writes_def)
next
  have c32: "unat cnt < 2 ^ 32" using unat_lt_32 [of cnt] by simp
  fix j assume rc0: "rc = 0" and j: "j < unat cnt"
  show "disk d' (lba + of_nat j) = sector_at m p j"
  proof (cases "j < unat n")
    case True
    have uj: "unat (of_nat j :: u64) = j" using j c32 by (intro unat_of_nat_small) simp
    have e: "lba + of_nat j - (lba + ucast n) = of_nat j - ucast n" by (simp only: algebra_simps)
    have "unat (of_nat j - ucast n :: u64) = 2 ^ 64 + j - unat n"
      using True assms(3) uj by (subst unat_sub_if_size) (simp add: size_word.rep_eq word_le_nat_alt)
    then have "\<not> unat (lba + of_nat j - (lba + ucast n) :: u64) < unat (cnt - n)"
      unfolding e using c32 assms(1,2) by simp
    then have "disk d' (lba + of_nat j) = disk d2 (lba + of_nat j)" using assms(5) by (simp add: disk_writes_def)
    also have "\<dots> = sector_at m1 b j" using assms(4) True by (simp add: disk_writes_def)
    finally show ?thesis by (simp add: assms(6) [OF True])
  next
    case False
    define k where "k = j - unat n"
    have jk: "j = unat n + k" "k < unat (cnt - n)" using False j assms(1,2) by (auto simp: k_def)
    have "disk d' (lba + ucast n + of_nat k) = sector_at m2 q k" using assms(5) rc0 jk(2) by (simp add: disk_writes_def)
    moreover have "lba + ucast n + of_nat k = lba + of_nat j" unfolding jk(1) by (simp add: add.assoc)
    ultimately show ?thesis using assms(7) [OF jk(2)] jk(1) by simp
  qed
qed

lemma io_loop_write:
  assumes "disk_driver disk dev" and "unat lba + unat cnt \<le> unat (bd_sectors dev)" and "apart p (512 * unat cnt) bounce 65536"
  shows "\<exists>rc d' m'. io_loop dev bounce True p lba cnt (d, m) = Some (rc, d', m') \<and> (rc = 0 \<or> rc = - 1) \<and>
    (\<forall>a. \<not> unat (a - bounce) < 65536 \<longrightarrow> m' a = m a) \<and> disk_writes disk lba cnt p d m rc d'"
  using assms(2,3)
proof (induction "unat cnt" arbitrary: cnt p lba d m rule: less_induct)
  case less
  show ?case
  proof (cases "cnt = 0")
    case True
    then show ?thesis by (simp add: io_loop.simps disk_writes_def)
  next
    case False
    define n where "n = (if cnt < BLOCK_MAX_TRANSFER then cnt else BLOCK_MAX_TRANSFER)"
    note c = chunk_facts [OF False n_def]
    define b where "b = (ucast n * BLOCK_SECTOR_SIZE :: u64)"
    define m1 where "m1 = memcpy bounce p b m"
    have ub: "unat b = 512 * unat n" "b = of_nat (512 * unat n)" using c(7,10) by (simp_all only: b_def)
    have ap: "apart bounce 65536 p (unat b)"
      by (rule apart_sym, rule apart_mono [OF less.prems(2)]) (use c(4) ub in simp_all)
    have m1: "m1 a = (if unat (a - bounce) < 512 * unat n then m (p + (a - bounce)) else m a)" for a
      unfolding m1_def ub(1) [symmetric] by (rule memcpy_apart [OF ap]) simp
    have m1_out: "m1 a = m a" if "\<not> unat (a - bounce) < 65536" for a
      using that c(3) by (simp add: m1)
    have ap': "apart (p + b) (512 * unat (cnt - n)) bounce 65536"
      by (rule apart_off [OF less.prems(2)]) (use c(4,5) ub(1) in simp)
    have r: "unat lba + unat n \<le> unat (bd_sectors dev)" using less.prems(1) c(4) by linarith
    obtain rc d2 where io: "driver_io dev lba n bounce True (d, m1) = Some (rc, d2, m1)" and w: "disk_writes disk lba n bounce d m1 rc d2"
      by (rule driver_write [OF assms(1) c(1,2) r])
    have l0: "io_loop dev bounce True p lba cnt (d, m) =
        (if rc \<noteq> 0 then Some (- 1, d2, m1) else io_loop dev bounce True (p + b) (lba + ucast n) (cnt - n) (d2, m1))"
      using False io by (subst io_loop.simps) (simp add: n_def [symmetric] b_def [symmetric] m1_def [symmetric] Let_def)
    have sm: "sector_at m1 bounce j = sector_at m p j" if "j < unat n" for j
      by (rule sector_at_eqI [of bounce "unat n"]) (use m1 that c(3) in simp_all)
    have rest: "sector_at m1 (p + b) j = sector_at m p (unat n + j)" if "j < unat (cnt - n)" for j
    proof -
      have "sector_at m1 (p + b) j = sector_at m (p + b) j"
      proof (rule sector_at_eqI [of _ "unat (cnt - n)"])
        fix a assume "unat (a - (p + b)) < 512 * unat (cnt - n)"
        from m1_out [OF apart_in [OF ap' this]] show "m1 a = m (p + b + (a - (p + b)))" by simp
      qed (use that c(5) unat_lt_32 [of cnt] in simp_all)
      then show ?thesis by (simp only: ub(2) sector_at_shift)
    qed
    show ?thesis
    proof (cases "rc = 0")
      case F: False
      have "disk_writes disk lba cnt p d m (- 1) d2" using w c(4) by (auto simp: disk_writes_def)
      then show ?thesis using F l0 m1_out by simp
    next
      case True
      have nx: "unat (lba + ucast n) = unat lba + unat n"
        using r unat_lt_64 [of "bd_sectors dev"] by (subst unat_add_nowrap) (simp_all add: c(8))
      then have "unat (lba + ucast n) + unat (cnt - n) \<le> unat (bd_sectors dev)" using c(4,5) less.prems(1) by simp
      from less.hyps [OF c(6) this ap', of d2 m1]
      obtain rc' d' m' where l: "io_loop dev bounce True (p + b) (lba + ucast n) (cnt - n) (d2, m1) = Some (rc', d', m')"
        and rc': "rc' = 0 \<or> rc' = - 1" and mm: "\<forall>a. \<not> unat (a - bounce) < 65536 \<longrightarrow> m' a = m1 a"
        and w': "disk_writes disk (lba + ucast n) (cnt - n) (p + b) d2 m1 rc' d'" by blast
      have "disk_writes disk lba cnt p d m rc' d'"
        using disk_writes_chunk [OF c(4,5,8) _ w' sm rest] w True by blast
      moreover have "\<forall>a. \<not> unat (a - bounce) < 65536 \<longrightarrow> m' a = m a" using mm m1_out by simp
      ultimately show ?thesis using l0 True l rc' by simp
    qed
  qed
qed

lemma not_after_chunk:
  assumes "unat (a - p) < unat (b :: u64)" and "unat b + k \<le> 2 ^ 63"
  shows "\<not> unat (a - (p + b)) < k"
proof -
  have e: "a - (p + b) = (a - p) - b" by (simp only: algebra_simps)
  have "unat ((a - p) - b) = 2 ^ 64 + unat (a - p) - unat b"
    using assms(1) by (subst unat_sub_if_size) (simp add: size_word.rep_eq word_le_nat_alt)
  then show ?thesis unfolding e using assms(2) by simp
qed

lemma in_later_chunk:
  assumes "unat (a - (p + b)) < k" and "unat b + k \<le> n"
  shows "unat (a - p :: u64) < n"
proof -
  have "b + (a - (p + b)) = a - p" by (simp only: algebra_simps)
  then show ?thesis using unat_add_le [of b "a - (p + b)"] assms by simp
qed

lemma io_loop_read:
  assumes "disk_driver disk dev" and "unat lba + unat cnt \<le> unat (bd_sectors dev)" and "apart p (512 * unat cnt) bounce 65536"
  shows "\<exists>rc d' m'. io_loop dev bounce False p lba cnt (d, m) = Some (rc, d', m') \<and> (rc = 0 \<or> rc = - 1) \<and>
    (\<forall>a. \<not> unat (a - bounce) < 65536 \<longrightarrow> \<not> unat (a - p) < 512 * unat cnt \<longrightarrow> m' a = m a) \<and> disk d' = disk d \<and>
    (rc = 0 \<longrightarrow> (\<forall>j < unat cnt. sector_at m' p j = disk d (lba + of_nat j)))"
  using assms(2,3)
proof (induction "unat cnt" arbitrary: cnt p lba d m rule: less_induct)
  case less
  show ?case
  proof (cases "cnt = 0")
    case True
    then show ?thesis by (simp add: io_loop.simps)
  next
    case False
    define n where "n = (if cnt < BLOCK_MAX_TRANSFER then cnt else BLOCK_MAX_TRANSFER)"
    note c = chunk_facts [OF False n_def]
    define b where "b = (ucast n * BLOCK_SECTOR_SIZE :: u64)"
    have ub: "unat b = 512 * unat n" "b = of_nat (512 * unat n)" using c(7,10) by (simp_all only: b_def)
    have r: "unat lba + unat n \<le> unat (bd_sectors dev)" using less.prems(1) c(4) by linarith
    obtain rc d2 m2 where io: "driver_io dev lba n bounce False (d, m) = Some (rc, d2, m2)" and w: "disk_reads disk lba n bounce d m rc d2 m2"
      by (rule driver_read [OF assms(1) c(1,2) r])
    define m3 where "m3 = memcpy p bounce b m2"
    have l0: "io_loop dev bounce False p lba cnt (d, m) =
        (if rc \<noteq> 0 then Some (- 1, d2, m2) else io_loop dev bounce False (p + b) (lba + ucast n) (cnt - n) (d2, m3))"
      using False io by (subst io_loop.simps) (simp add: n_def [symmetric] b_def [symmetric] m3_def [symmetric] Let_def)
    have m2_out: "m2 a = m a" if "\<not> unat (a - bounce) < 65536" for a
      using w that c(3) by (simp add: disk_reads_def)
    have dd: "disk d2 = disk d" using w by (simp add: disk_reads_def)
    show ?thesis
    proof (cases "rc = 0")
      case F: False
      then show ?thesis using l0 m2_out dd by auto
    next
      case True
      have ap: "apart p (512 * unat cnt) bounce (unat b)" by (rule apart_mono [OF less.prems(2)]) (use c(3) ub in simp_all)
      have m3: "m3 a = (if unat (a - p) < 512 * unat n then m2 (bounce + (a - p)) else m2 a)" for a
        unfolding m3_def ub(1) [symmetric] by (rule memcpy_apart [OF ap]) (use False in \<open>simp add: unat_gt_0\<close>)
      have nx: "unat (lba + ucast n) = unat lba + unat n"
        using r unat_lt_64 [of "bd_sectors dev"] by (subst unat_add_nowrap) (simp_all add: c(8))
      then have bd: "unat (lba + ucast n) + unat (cnt - n) \<le> unat (bd_sectors dev)" using c(4,5) less.prems(1) by simp
      have ap': "apart (p + b) (512 * unat (cnt - n)) bounce 65536"
        by (rule apart_off [OF less.prems(2)]) (use c(4,5) ub(1) in simp)
      from less.hyps [OF c(6) bd ap', of d2 m3]
      obtain rc' d' m' where l: "io_loop dev bounce False (p + b) (lba + ucast n) (cnt - n) (d2, m3) = Some (rc', d', m')"
        and rc': "rc' = 0 \<or> rc' = - 1"
        and mm: "\<And>a. \<not> unat (a - bounce) < 65536 \<Longrightarrow> \<not> unat (a - (p + b)) < 512 * unat (cnt - n) \<Longrightarrow> m' a = m3 a"
        and dd': "disk d' = disk d2"
        and sec: "rc' = 0 \<Longrightarrow> (\<forall>j < unat (cnt - n). sector_at m' (p + b) j = disk d2 (lba + ucast n + of_nat j))" by blast
      have k63: "unat b + 512 * unat (cnt - n) \<le> 2 ^ 63" using c(4,5) ub(1) unat_lt_32 [of cnt] by simp
      have out: "m' a = m a" if "\<not> unat (a - bounce) < 65536" "\<not> unat (a - p) < 512 * unat cnt" for a
      proof -
        have "unat b + 512 * unat (cnt - n) \<le> 512 * unat cnt" using c(4,5) ub(1) by simp
        then have "\<not> unat (a - (p + b)) < 512 * unat (cnt - n)" using in_later_chunk [of a p b] that(2) by blast
        moreover have "\<not> unat (a - p) < 512 * unat n" using that(2) c(4) by linarith
        ultimately show ?thesis using mm [OF that(1)] m2_out [OF that(1)] by (simp add: m3)
      qed
      have front: "sector_at m' p j = disk d (lba + of_nat j)" if j: "j < unat n" for j
      proof -
        have "sector_at m' p j = sector_at m2 bounce j"
        proof (rule sector_at_eqI [of p "unat n"])
          fix a assume a: "unat (a - p) < 512 * unat n"
          then have "\<not> unat (a - bounce) < 65536" by (intro apart_in [OF less.prems(2)]) (use c(4) in linarith)
          moreover have "\<not> unat (a - (p + b)) < 512 * unat (cnt - n)" by (rule not_after_chunk [OF _ k63]) (use a ub(1) in simp)
          ultimately show "m' a = m2 (bounce + (a - p))" using mm a by (simp add: m3)
        qed (use j c(3) in simp_all)
        then show ?thesis using w True j by (simp add: disk_reads_def)
      qed
      have "sector_at m' p j = disk d (lba + of_nat j)" if rc0: "rc' = 0" and j: "j < unat cnt" for j
      proof (cases "j < unat n")
        case nj: False
        define k where "k = j - unat n"
        have jk: "j = unat n + k" "k < unat (cnt - n)" using nj j c(4,5) by (auto simp: k_def)
        have "sector_at m' (p + b) k = disk d (lba + ucast n + of_nat k)" using sec [OF rc0] jk(2) dd by simp
        moreover have "lba + ucast n + of_nat k = lba + of_nat j" unfolding jk(1) by (simp add: add.assoc)
        ultimately show ?thesis by (simp only: ub(2) sector_at_shift jk(1) [symmetric])
      qed (rule front)
      then show ?thesis using l0 True l rc' out dd dd' by simp
    qed
  qed
qed

text \<open>\<open>on_disk i r off s\<close>: device \<open>i\<close> is the disk \<open>r\<close> itself, or a partition of it from sector \<open>off\<close> on that lies inside it.\<close>

definition on_disk :: "nat \<Rightarrow> nat \<Rightarrow> u64 \<Rightarrow> ('d, 'a) block_state_scheme \<Rightarrow> bool" where
  "on_disk i r off s \<longleftrightarrow> bd_parent (device r s) = None \<and>
     (i = r \<and> off = 0 \<or> bd_parent (device i s) = Some r \<and> off = bd_offset (device i s)) \<and>
     unat off + unat (bd_sectors (device i s)) \<le> unat (bd_sectors (device r s))"

lemma on_disk_root:
  assumes "on_disk i r off s"
  shows "root_loop (block_devices s) i lba = Some (r, lba + off)"
proof -
  have r: "root_loop (block_devices s) r l = Some (r, l)" for l
    using assms by (subst root_loop.simps) (simp add: on_disk_def device_def)
  show ?thesis
  proof (cases "i = r \<and> off = 0")
    case True
    then show ?thesis using r by simp
  next
    case False
    then show ?thesis using assms r by (subst root_loop.simps) (auto simp: on_disk_def device_def)
  qed
qed

lemma range_check:
  fixes lba size :: u64 and cnt :: u32
  shows "(lba + ucast cnt > size \<or> lba + ucast cnt < lba) \<longleftrightarrow> unat size < unat lba + unat cnt"
proof -
  have u: "unat (ucast cnt :: u64) = unat cnt"
    using unat_lt_32 [of cnt] by (simp add: unsigned_ucast_eq take_bit_nat_eq_self)
  show ?thesis
  proof (cases "unat lba + unat cnt < 2 ^ 64")
    case True
    then have "unat (lba + ucast cnt) = unat lba + unat cnt" by (subst unat_add_nowrap) (simp_all add: u)
    then show ?thesis by (auto simp: word_less_nat_alt)
  next
    case False
    have "unat (lba + ucast cnt) = (unat lba + unat cnt) mod 2 ^ 64" by (simp add: unat_word_ariths u)
    also have "\<dots> = unat lba + unat cnt - 2 ^ 64"
      using False unat_lt_32 [of cnt] unat_lt_64 [of lba] by (subst le_mod_geq) simp_all
    finally have "lba + ucast cnt < lba" using False unat_lt_32 [of cnt] unat_lt_64 [of lba] by (simp add: word_less_nat_alt)
    then show ?thesis using False unat_lt_64 [of size] by simp
  qed
qed

lemma block_root_io_out:
  assumes "cnt = 0 \<or> unat (bd_sectors (device i s)) < unat lba + unat cnt"
  shows "block_root_io (Some i) lba cnt buf write s = Some (- 1, s)"
  using assms range_check [of "bd_sectors (device i s)" lba cnt] by (auto simp: block_root_io_def)

lemma block_root_io_in:
  assumes "on_disk i r off s" and "block_bounce s \<noteq> NULL" and "cnt \<noteq> 0" and "unat lba + unat cnt \<le> unat (bd_sectors (device i s))"
    and "io_loop (device r s) (block_bounce s) write buf (lba + off) cnt (drv s, vfs_memory s) = Some (rc, d, m)"
  shows "block_root_io (Some i) lba cnt buf write s = Some (rc, set_vfs_memory m (s\<lparr>drv := d\<rparr>))"
proof -
  have "\<not> (lba + ucast cnt > bd_sectors (device i s) \<or> lba + ucast cnt < lba)"
    using assms(4) by (simp add: range_check)
  then show ?thesis using assms(2,3,5) on_disk_root [OF assms(1), of lba] by (simp add: block_root_io_def)
qed

lemma on_disk_range:
  assumes "on_disk i r off s" and "unat lba + unat cnt \<le> unat (bd_sectors (device i s))"
  shows "unat (lba + off) + unat cnt \<le> unat (bd_sectors (device r s))"
proof -
  have b: "unat off + unat (bd_sectors (device i s)) \<le> unat (bd_sectors (device r s))" using assms(1) by (simp add: on_disk_def)
  then show ?thesis using assms(2) unat_add_le [of lba off] by linarith
qed

lemma block_write_spec:
  assumes "on_disk i r off s" and "disk_driver disk (device r s)" and "block_bounce s \<noteq> NULL"
    and "apart buf (512 * unat cnt) (block_bounce s) 65536" and "cnt \<noteq> 0" and "unat lba + unat cnt \<le> unat (bd_sectors (device i s))"
  obtains rc d' m' where "block_write (Some i) lba cnt buf s = Some (rc, set_vfs_memory m' (s\<lparr>drv := d'\<rparr>))" "rc = 0 \<or> rc = - 1"
    "\<forall>a. \<not> unat (a - block_bounce s) < 65536 \<longrightarrow> m' a = vfs_memory s a"
    "disk_writes disk (lba + off) cnt buf (drv s) (vfs_memory s) rc d'"
  using io_loop_write [OF assms(2) on_disk_range [OF assms(1,6)] assms(4), of "drv s" "vfs_memory s"]
    block_root_io_in [OF assms(1,3,5,6)] that unfolding block_write_def by blast

lemma block_read_spec:
  assumes "on_disk i r off s" and "disk_driver disk (device r s)" and "block_bounce s \<noteq> NULL"
    and "apart buf (512 * unat cnt) (block_bounce s) 65536" and "cnt \<noteq> 0" and "unat lba + unat cnt \<le> unat (bd_sectors (device i s))"
  obtains rc d' m' where "block_read (Some i) lba cnt buf s = Some (rc, set_vfs_memory m' (s\<lparr>drv := d'\<rparr>))" "rc = 0 \<or> rc = - 1"
    "\<forall>a. \<not> unat (a - block_bounce s) < 65536 \<longrightarrow> \<not> unat (a - buf) < 512 * unat cnt \<longrightarrow> m' a = vfs_memory s a"
    "disk d' = disk (drv s)" "rc = 0 \<longrightarrow> (\<forall>j < unat cnt. sector_at m' buf j = disk (drv s) (lba + off + of_nat j))"
  using io_loop_read [OF assms(2) on_disk_range [OF assms(1,6)] assms(4), of "drv s" "vfs_memory s"]
    block_root_io_in [OF assms(1,3,5,6)] that unfolding block_read_def by blast

subsection \<open>Partitions stay inside their disk\<close>

text \<open>Every partition in the table belongs to a disk of the table and lies inside it.\<close>

definition parts_ok :: "('d, 'a) block_state_scheme \<Rightarrow> bool" where
  "parts_ok s \<longleftrightarrow> (\<forall>i < length (block_devices s). \<forall>r. bd_used (device i s) \<longrightarrow> bd_parent (device i s) = Some r \<longrightarrow>
     r < length (block_devices s) \<and> bd_used (device r s) \<and> bd_parent (device r s) = None \<and>
     unat (bd_offset (device i s)) + unat (bd_sectors (device i s)) \<le> unat (bd_sectors (device r s)))"

lemma parts_okD:
  assumes "parts_ok s" and "i < length (block_devices s)" and "bd_used (device i s)" and "bd_parent (device i s) = Some r"
  shows "r < length (block_devices s)" "bd_used (device r s)" "bd_parent (device r s) = None"
    "unat (bd_offset (device i s)) + unat (bd_sectors (device i s)) \<le> unat (bd_sectors (device r s))"
  using assms unfolding parts_ok_def by blast+

definition is_disk :: "nat \<Rightarrow> ('d, 'a) block_state_scheme \<Rightarrow> bool" where
  "is_disk r s \<longleftrightarrow> r < length (block_devices s) \<and> bd_used (device r s) \<and> bd_parent (device r s) = None"

lemma device_upd: "i < length (block_devices s) \<Longrightarrow> device j (upd_device i f s) = (if j = i then f (device i s) else device j s)"
  by (simp add: device_def upd_device_def nth_list_update)

lemma length_upd_device [simp]: "length (block_devices (upd_device i f s)) = length (block_devices s)"
  by (simp add: upd_device_def)

text \<open>The slot of a partition: an existing one of the disk, or a fresh one that was not in use.\<close>

lemma block_partition_slot_spec:
  fixes s :: "('d, 'a) block_state_scheme"
  assumes "is_disk r s" and "block_partition_slot r index s = (slot, s1)"
  shows "case slot of None \<Rightarrow> s1 = s
    | Some i \<Rightarrow> i < length (block_devices s) \<and> i \<noteq> r \<and> length (block_devices s1) = length (block_devices s) \<and>
        (\<forall>j. j \<noteq> i \<longrightarrow> device j s1 = device j s) \<and> bd_used (device i s1) \<and> bd_parent (device i s1) = Some r \<and>
        (bd_used (device i s) \<longrightarrow> s1 = s)"
proof (cases "first_index (\<lambda>d. bd_used d \<and> bd_parent d = Some r \<and> bd_index d = index) (block_devices s)")
  case (Some i)
  from first_index_Some [OF this] have "i < length (block_devices s)" "bd_used (device i s)" "bd_parent (device i s) = Some r"
    by (simp_all add: device_def)
  moreover have "slot = Some i" "s1 = s" using assms(2) Some by (simp_all add: block_partition_slot_def)
  ultimately show ?thesis using assms(1) by (auto simp: is_disk_def)
next
  case none: None
  show ?thesis
  proof (cases "first_index (\<lambda>d. \<not> bd_used d) (block_devices s)")
    case None
    then show ?thesis using assms(2) none by (simp add: block_partition_slot_def block_alloc_def)
  next
    case (Some i)
    from first_index_Some [OF this] have i: "i < length (block_devices s)" "\<not> bd_used (device i s)" by (simp_all add: device_def)
    then have r: "i \<noteq> r" using assms(1) by (auto simp: is_disk_def)
    let ?s0 = "upd_device i (\<lambda>_. device_zero\<lparr>bd_used := True\<rparr>) s"
    define f :: "'d block_device \<Rightarrow> 'd block_device" where "f = (\<lambda>d. d\<lparr>bd_parent := Some r, bd_index := index, bd_kind := bd_kind (device r ?s0),
      bd_model := bd_model (device r ?s0), bd_name := bd_name (device r ?s0) @ [CHR ''p'', digit index]\<rparr>)"
    have "slot = Some i" and s1: "s1 = upd_device i f ?s0"
      using assms(2) none Some by (simp_all add: block_partition_slot_def block_alloc_def f_def)
    moreover have "device j s1 = (if j = i then f (device_zero\<lparr>bd_used := True\<rparr>) else device j s)" for j
      using i(1) by (simp add: s1 device_upd)
    ultimately show ?thesis using i r by (simp add: f_def device_zero_def)
  qed
qed

text \<open>These operations change nothing but the table.\<close>

definition table_only :: "('d, 'a) block_state_scheme \<Rightarrow> ('d, 'a) block_state_scheme \<Rightarrow> bool" where
  "table_only s s' \<longleftrightarrow> s' = s\<lparr>block_devices := block_devices s'\<rparr>"

lemma table_only_upd: "table_only s s' \<Longrightarrow> table_only s (upd_device i f s')"
  unfolding table_only_def upd_device_def by (cases s; cases s') simp

lemma table_only_refl: "table_only s s"
  by (simp add: table_only_def)

lemma block_alloc_table: "block_alloc s = (slot, s1) \<Longrightarrow> table_only s s1"
  by (cases "first_index (\<lambda>d. \<not> bd_used d) (block_devices s)")
    (auto simp: block_alloc_def table_only_refl table_only_upd)

lemma block_partition_slot_table:
  assumes "block_partition_slot r index s = (slot, s1)"
  shows "table_only s s1"
proof (cases "first_index (\<lambda>d. bd_used d \<and> bd_parent d = Some r \<and> bd_index d = index) (block_devices s)")
  case None
  obtain sl s0 where a: "block_alloc s = (sl, s0)" by fastforce
  then have "table_only s s0" by (rule block_alloc_table)
  then show ?thesis using assms None a by (cases sl) (auto simp: block_partition_slot_def table_only_upd)
qed (use assms in \<open>simp add: block_partition_slot_def table_only_refl\<close>)

lemma block_add_partition_table: "table_only s (block_add_partition r index start sectors s)"
proof -
  obtain slot s1 where sl: "block_partition_slot r index s = (slot, s1)" by fastforce
  then have "table_only s s1" by (rule block_partition_slot_table)
  then show ?thesis using sl
    by (cases slot) (simp_all add: block_add_partition_def Let_def table_only_upd table_only_refl)
qed

lemma partition_fits:
  assumes "unat start + unat sectors < 2 ^ 64" and "\<not> t \<le> (start :: u64)" and "n = (if start + sectors > t then t - start else sectors)"
  shows "unat start + unat n \<le> unat t"
proof -
  have sum: "unat (start + sectors) = unat start + unat sectors" by (rule unat_add_nowrap) (use assms(1) in simp)
  have "unat start \<le> unat t" using assms(2) by (simp add: word_le_nat_alt)
  then show ?thesis using sum unat_diff_nowrap [of start t] assms(3) by (auto simp: word_less_nat_alt)
qed

lemma block_add_partition_ok:
  assumes "parts_ok s" and "is_disk r s" and "unat start + unat sectors < 2 ^ 64"
  shows "parts_ok (block_add_partition r index start sectors s) \<and> is_disk r (block_add_partition r index start sectors s)"
proof (cases "start \<ge> bd_sectors (device r s) \<or> sectors = 0")
  case True
  then show ?thesis using assms by (simp add: block_add_partition_def)
next
  case False
  let ?t = "bd_sectors (device r s)"
  define n where "n = (if start + sectors > ?t then ?t - start else sectors)"
  define s' where "s' = block_add_partition r index start sectors s"
  obtain slot s1 where sl: "block_partition_slot r index s = (slot, s1)" by fastforce
  note sp = block_partition_slot_spec [OF assms(2) sl]
  show ?thesis
  proof (cases slot)
    case None
    then show ?thesis using False sl sp assms by (simp add: block_add_partition_def)
  next
    case (Some i)
    have i: "i < length (block_devices s)" "i \<noteq> r" "length (block_devices s1) = length (block_devices s)"
      "\<And>j. j \<noteq> i \<Longrightarrow> device j s1 = device j s" "bd_used (device i s1)" "bd_parent (device i s1) = Some r" "bd_used (device i s) \<Longrightarrow> s1 = s"
      using sp unfolding Some option.case by blast+
    have s': "s' = upd_device i (\<lambda>d. d\<lparr>bd_offset := start, bd_sectors := n\<rparr>) s1"
      using False sl Some by (simp add: s'_def block_add_partition_def n_def)
    have fit: "unat start + unat n \<le> unat ?t" by (rule partition_fits [OF assms(3) _ n_def]) (use False in simp)
    have new: "device i s' = (device i s1)\<lparr>bd_offset := start, bd_sectors := n\<rparr>" using i(1,3) by (simp add: s' device_upd)
    have old: "device j s' = device j s" if "j \<noteq> i" for j using i(1,3,4) that by (simp add: s' device_upd)
    have len: "length (block_devices s') = length (block_devices s)" using i(3) by (simp add: s')
    have "parts_ok s'" unfolding parts_ok_def len
    proof (intro allI impI)
      fix j r' assume j: "j < length (block_devices s)" "bd_used (device j s')" "bd_parent (device j s') = Some r'"
      show "r' < length (block_devices s) \<and> bd_used (device r' s') \<and> bd_parent (device r' s') = None \<and>
          unat (bd_offset (device j s')) + unat (bd_sectors (device j s')) \<le> unat (bd_sectors (device r' s'))"
      proof (cases "j = i")
        case True
        then have "r' = r" using j(3) i(6) new by simp
        then show ?thesis using True new old [OF i(2) [symmetric]] fit assms(2) by (simp add: is_disk_def)
      next
        case F: False
        note p = parts_okD [OF assms(1) j(1) j(2,3) [unfolded old [OF F]]]
        have "r' \<noteq> i"
        proof
          assume "r' = i"
          then have "s1 = s" using p(2) i(7) by simp
          then show False using i(6) p(3) \<open>r' = i\<close> by simp
        qed
        then show ?thesis using p old [OF F] old [of r'] by simp
      qed
    qed
    moreover have "is_disk r s'" using assms(2) old [OF i(2) [symmetric]] len by (simp add: is_disk_def)
    ultimately show ?thesis by (simp add: s'_def)
  qed
qed

lemma mbr_loop_ok:
  "parts_ok s \<Longrightarrow> is_disk r s \<Longrightarrow> mbr_loop r sector is found s = (found', s') \<Longrightarrow>
   parts_ok s' \<and> is_disk r s' \<and> found \<le> found' \<and> found' \<le> found + int (length is)"
proof (induction "is" arbitrary: found s)
  case (Cons i "is")
  define start where "start = load_u32 (vfs_memory s) (sector + 446 + of_nat (i * 16) + 8)"
  define cnt where "cnt = load_u32 (vfs_memory s) (sector + 446 + of_nat (i * 16) + 12)"
  define s1 where "s1 = block_add_partition r (found + 1) (ucast start) (ucast cnt) s"
  have u: "unat (ucast (x :: u32) :: u64) = unat x" for x
    using unat_lt_32 [of x] by (simp add: unsigned_ucast_eq take_bit_nat_eq_self)
  have "unat (ucast start :: u64) + unat (ucast cnt :: u64) < 2 ^ 64" using unat_lt_32 [of start] unat_lt_32 [of cnt] by (simp add: u)
  then have s1: "parts_ok s1" "is_disk r s1" using block_add_partition_ok [OF Cons.prems(1,2)] by (simp_all add: s1_def)
  have "mbr_loop r sector is found s = (found', s') \<or> mbr_loop r sector is (found + 1) s1 = (found', s')"
    using Cons.prems(3) by (auto simp: start_def cnt_def s1_def Let_def split: if_splits)
  then show ?case using Cons.IH [OF Cons.prems(1,2), of found] Cons.IH [OF s1, of "found + 1"] by auto
qed simp

lemma parts_ok_on_disk:
  "parts_ok s \<Longrightarrow> i < length (block_devices s) \<Longrightarrow> bd_used (device i s) \<Longrightarrow> bd_parent (device i s) = Some r \<Longrightarrow>
   on_disk i r (bd_offset (device i s)) s"
  unfolding parts_ok_def on_disk_def by blast

subsection \<open>A disk in memory\<close>

text \<open>A driver that keeps its sectors in memory and never fails: an instance of what a driver promises.\<close>

type_synonym ram = "u64 \<Rightarrow> nat \<Rightarrow> u8"

definition ram_sectors :: "ram \<Rightarrow> u64 \<Rightarrow> u8 list" where
  "ram_sectors d l = map (d l) [0..<512]"

definition ram_io :: "ram block_io" where
  "ram_io dd lba n buf write dm =
     (if write
      then Some (0, \<lambda>l. if unat (l - lba) < unat n then \<lambda>k. snd dm (buf + of_nat (512 * unat (l - lba)) + of_nat k) else fst dm l, snd dm)
      else Some (0, fst dm, \<lambda>a. if unat (a - buf) < 512 * unat n
                                then fst dm (lba + of_nat (unat (a - buf) div 512)) (unat (a - buf) mod 512) else snd dm a))"

definition ram_disk :: "u64 \<Rightarrow> ram block_device" where
  "ram_disk n = device_zero\<lparr>bd_used := True, bd_name := ''disk0'', bd_sectors := n, bd_io := Some ram_io\<rparr>"

lemma bytes_at_map: "bytes_at m p n = map (\<lambda>k. m (p + of_nat k)) [0..<n]"
  by (rule nth_equalityI) (simp_all add: nth_bytes_at)

lemma ram_driver: "disk_driver ram_sectors (ram_disk n)"
  unfolding disk_driver_def
proof (intro exI [of _ ram_io] conjI allI impI)
  show "bd_io (ram_disk n) = Some ram_io" by (simp add: ram_disk_def)
  fix lba :: u64 and k :: u32 and buf d m
  assume "k \<le> BLOCK_MAX_TRANSFER"
  then have k: "unat k \<le> 128" by (simp add: BLOCK_MAX_TRANSFER_def word_le_nat_alt)
  show "\<exists>rc d' m'. ram_io (bd_driver_data (ram_disk n)) lba k buf False (d, m) = Some (rc, d', m') \<and> disk_reads ram_sectors lba k buf d m rc d' m'"
  proof (intro exI conjI)
    let ?m = "\<lambda>a. if unat (a - buf) < 512 * unat k then d (lba + of_nat (unat (a - buf) div 512)) (unat (a - buf) mod 512) else m a"
    show "ram_io (bd_driver_data (ram_disk n)) lba k buf False (d, m) = Some (0, d, ?m)" by (simp add: ram_io_def cong: if_cong)
    have "sector_at ?m buf j = ram_sectors d (lba + of_nat j)" if j: "j < unat k" for j
      unfolding sector_at_def bytes_at_map ram_sectors_def
    proof (rule map_cong [OF refl])
      fix i assume "i \<in> set [0..<512]"
      then have i: "i < 512" by simp
      have e: "buf + of_nat (512 * j) + of_nat i - buf = of_nat (512 * j) + of_nat i" by (simp only: add.assoc add_diff_cancel_left')
      have u: "unat (of_nat (512 * j) + of_nat i :: u64) = 512 * j + i" using unat_sector [OF i, of j] j k by simp
      have "512 * j + i < 512 * unat k" "(512 * j + i) div 512 = j" "(512 * j + i) mod 512 = i" using i j by simp_all
      then show "?m (buf + of_nat (512 * j) + of_nat i) = d (lba + of_nat j) i" by (simp only: e u if_True)
    qed
    then show "disk_reads ram_sectors lba k buf d m 0 d ?m" by (simp add: disk_reads_def)
  qed
  show "\<exists>rc d'. ram_io (bd_driver_data (ram_disk n)) lba k buf True (d, m) = Some (rc, d', m) \<and> disk_writes ram_sectors lba k buf d m rc d'"
  proof (intro exI conjI)
    let ?d = "\<lambda>l. if unat (l - lba) < unat k then \<lambda>i. m (buf + of_nat (512 * unat (l - lba)) + of_nat i) else d l"
    show "ram_io (bd_driver_data (ram_disk n)) lba k buf True (d, m) = Some (0, ?d, m)" by (simp add: ram_io_def cong: if_cong)
    have u: "unat (lba + of_nat j - lba) = j" if "j < unat k" for j using that k by (intro unat_lba) simp
    then show "disk_writes ram_sectors lba k buf d m 0 ?d"
      by (auto simp: disk_writes_def ram_sectors_def sector_at_def bytes_at_map simp del: of_nat_mult)
  qed
qed

definition block_example :: "ram block_state" where
  "block_example = devfs_state.extend devfs_example
     \<lparr>block_devices = [ram_disk 4096, device_zero\<lparr>bd_used := True, bd_name := ''disk0p1'', bd_parent := Some 0, bd_index := 1,
         bd_offset := 2048, bd_sectors := 1000\<rparr>] @ replicate 30 device_zero,
      block_base = 0xFFFFFFFF80100000, block_bounce = 0xFFFF800000010000, block_disk_count = 1, random_state = 0, tsc = of_nat,
      tsc_reads = 0, drv = (\<lambda>l k. of_nat k)\<rparr>"

lemma block_example_simps:
  "block_bounce block_example = 0xFFFF800000010000" "device 0 block_example = ram_disk 4096" "bd_sectors (device (Suc 0) block_example) = 1000"
  "bd_parent (device (Suc 0) block_example) = Some 0" "bd_offset (device (Suc 0) block_example) = 2048"
  by (simp_all add: block_example_def devfs_state.defs device_def)

lemma block_example_disk: "on_disk 1 0 2048 block_example"
  by (simp add: on_disk_def block_example_simps ram_disk_def device_zero_def)

subsection \<open>Properties of block devices\<close>

text \<open>
  Property C27: a write to a disk or to a partition of it, of any number of sectors and so in as many
  transfers through the bounce buffer as it takes, either is refused because it leaves the device, and
  then changes nothing, or reaches exactly the sectors of the disk at the partition's offset: no other
  sector of the disk and no memory outside the bounce buffer changes, and when it reports success those
  sectors hold the caller's bytes.
\<close>

theorem block_write_sectors:
  assumes "on_disk i r off s" and "disk_driver disk (device r s)" and "block_bounce s \<noteq> NULL"
    and "apart buf (512 * unat cnt) (block_bounce s) 65536"
  shows "\<exists>rc d' m'. block_write (Some i) lba cnt buf s = Some (rc, set_vfs_memory m' (s\<lparr>drv := d'\<rparr>)) \<and> (rc = 0 \<or> rc = - 1) \<and>
    (\<forall>a. \<not> unat (a - block_bounce s) < 65536 \<longrightarrow> m' a = vfs_memory s a) \<and>
    (cnt = 0 \<or> unat (bd_sectors (device i s)) < unat lba + unat cnt \<longrightarrow> rc = - 1 \<and> d' = drv s) \<and>
    (\<forall>l. \<not> unat (l - (lba + off)) < unat cnt \<longrightarrow> disk d' l = disk (drv s) l) \<and>
    (rc = 0 \<longrightarrow> (\<forall>j < unat cnt. disk d' (lba + off + of_nat j) = bytes_at (vfs_memory s) (buf + of_nat (512 * j)) 512))"
proof (cases "cnt = 0 \<or> unat (bd_sectors (device i s)) < unat lba + unat cnt")
  case True
  have e: "set_vfs_memory (vfs_memory s) (s\<lparr>drv := drv s\<rparr>) = s" by (simp add: set_vfs_memory_def vfs_memory_def)
  from block_root_io_out [OF True, of buf True] have w: "block_write (Some i) lba cnt buf s = Some (- 1, s)" by (simp add: block_write_def)
  show ?thesis by (rule exI [of _ "- 1"], rule exI [of _ "drv s"], rule exI [of _ "vfs_memory s"]) (use True e w in simp)
next
  case False
  then have c: "cnt \<noteq> 0" "unat lba + unat cnt \<le> unat (bd_sectors (device i s))" by auto
  obtain rc d' m' where w: "block_write (Some i) lba cnt buf s = Some (rc, set_vfs_memory m' (s\<lparr>drv := d'\<rparr>))" "rc = 0 \<or> rc = - 1"
    "\<forall>a. \<not> unat (a - block_bounce s) < 65536 \<longrightarrow> m' a = vfs_memory s a" "disk_writes disk (lba + off) cnt buf (drv s) (vfs_memory s) rc d'"
    by (rule block_write_spec [OF assms c])
  show ?thesis
    by (rule exI [of _ rc], rule exI [of _ d'], rule exI [of _ m'])
      (use w False in \<open>simp add: disk_writes_def sector_at_def\<close>)
qed

theorem block_write_sectors_witness:
  "\<exists>d'. (\<exists>m' rc. block_write (Some 1) 7 200 0xFFFF800000100000 block_example = Some (rc, set_vfs_memory m' (block_example\<lparr>drv := d'\<rparr>))) \<and>
     ram_sectors d' 2054 = ram_sectors (drv block_example) 2054"
proof -
  have "apart 0xFFFF800000100000 (512 * unat (200 :: u32)) (block_bounce block_example) 65536"
    by (rule apart_sym, rule apart_ranges) (simp_all add: block_example_simps)
  moreover have "block_bounce block_example \<noteq> NULL" "disk_driver ram_sectors (device 0 block_example)"
    using ram_driver by (simp_all add: block_example_simps)
  ultimately obtain rc d' m' where w: "block_write (Some 1) 7 200 0xFFFF800000100000 block_example = Some (rc, set_vfs_memory m' (block_example\<lparr>drv := d'\<rparr>))"
    and l: "\<And>l. \<not> unat (l - (7 + 2048)) < unat (200 :: u32) \<Longrightarrow> ram_sectors d' l = ram_sectors (drv block_example) l"
    using block_write_sectors [OF block_example_disk, where disk = ram_sectors and lba = 7 and cnt = 200] by blast
  have "ram_sectors d' 2054 = ram_sectors (drv block_example) 2054" by (rule l) (simp add: unat_minus_1_64)
  then show ?thesis using w by blast
qed

lemma bytes_at_sectors:
  assumes "\<And>j. j < n \<Longrightarrow> sector_at m p j = sector_at m' q j"
  shows "bytes_at m p (512 * n) = bytes_at m' q (512 * n)"
proof (rule bytes_at_eqI)
  fix i assume "i < 512 * n"
  then have "sector_at m p (i div 512) ! (i mod 512) = sector_at m' q (i div 512) ! (i mod 512)" by (subst assms) simp_all
  then have "m (p + (of_nat (512 * (i div 512)) + of_nat (i mod 512))) = m' (q + (of_nat (512 * (i div 512)) + of_nat (i mod 512)))"
    by (simp only: sector_at_def nth_bytes_at add.assoc pos_mod_bound mod_less_divisor zero_less_numeral)
  then show "m (p + of_nat i) = m' (q + of_nat i)" by (simp only: of_nat_add [symmetric] mult_div_mod_eq)
qed

lemma block_state_after_io:
  "device i (set_vfs_memory m (s\<lparr>drv := d\<rparr>)) = device i s" "block_bounce (set_vfs_memory m (s\<lparr>drv := d\<rparr>)) = block_bounce s"
  "drv (set_vfs_memory m (s\<lparr>drv := d\<rparr>)) = d" "vfs_memory (set_vfs_memory m (s\<lparr>drv := d\<rparr>)) = m"
  "on_disk i r off (set_vfs_memory m (s\<lparr>drv := d\<rparr>)) = on_disk i r off s"
  by (simp_all add: device_def set_vfs_memory_def vfs_memory_def on_disk_def)

text \<open>
  Property C36: what was written to a device is what is read back from it: when a write of some sectors
  reports success, a later read of the same sectors of that device returns, and if it reports success
  the buffer then holds byte for byte what the writer's buffer held.
\<close>

theorem block_read_after_write:
  assumes "on_disk i r off s" and "disk_driver disk (device r s)" and "block_bounce s \<noteq> NULL"
    and "apart buf (512 * unat cnt) (block_bounce s) 65536" and "apart buf2 (512 * unat cnt) (block_bounce s) 65536"
  shows "\<exists>rc s1. block_write (Some i) lba cnt buf s = Some (rc, s1) \<and>
    (rc = 0 \<longrightarrow> (\<exists>rc' s2. block_read (Some i) lba cnt buf2 s1 = Some (rc', s2) \<and>
       (rc' = 0 \<longrightarrow> bytes_at (vfs_memory s2) buf2 (512 * unat cnt) = bytes_at (vfs_memory s) buf (512 * unat cnt))))"
proof (cases "cnt = 0 \<or> unat (bd_sectors (device i s)) < unat lba + unat cnt")
  case True
  then show ?thesis using block_root_io_out [OF True, of buf True] by (simp add: block_write_def)
next
  case False
  then have c: "cnt \<noteq> 0" "unat lba + unat cnt \<le> unat (bd_sectors (device i s))" by auto
  obtain rc d' m' where w: "block_write (Some i) lba cnt buf s = Some (rc, set_vfs_memory m' (s\<lparr>drv := d'\<rparr>))"
    and dw: "disk_writes disk (lba + off) cnt buf (drv s) (vfs_memory s) rc d'"
    by (rule block_write_spec [OF assms(1-4) c])
  let ?s = "set_vfs_memory m' (s\<lparr>drv := d'\<rparr>)"
  have st: "on_disk i r off ?s" "disk_driver disk (device r ?s)" "block_bounce ?s \<noteq> NULL" "apart buf2 (512 * unat cnt) (block_bounce ?s) 65536"
    "unat lba + unat cnt \<le> unat (bd_sectors (device i ?s))"
    using assms c by (simp_all only: block_state_after_io not_False_eq_True)
  obtain rc' d2 m2 where rd: "block_read (Some i) lba cnt buf2 ?s = Some (rc', set_vfs_memory m2 (?s\<lparr>drv := d2\<rparr>))"
    and sec: "rc' = 0 \<longrightarrow> (\<forall>j < unat cnt. sector_at m2 buf2 j = disk (drv ?s) (lba + off + of_nat j))"
    by (rule block_read_spec [OF st(1-4) c(1) st(5)])
  have "bytes_at m2 buf2 (512 * unat cnt) = bytes_at (vfs_memory s) buf (512 * unat cnt)" if "rc = 0" "rc' = 0"
    by (rule bytes_at_sectors) (use sec dw that in \<open>simp add: disk_writes_def block_state_after_io\<close>)
  then show ?thesis using w rd by (simp add: vfs_memory_def set_vfs_memory_def)
qed

theorem block_read_after_write_witness:
  "\<exists>rc s1. block_write (Some 1) 7 200 0xFFFF800000100000 block_example = Some (rc, s1)"
proof -
  have "apart 0xFFFF800000100000 (512 * unat (200 :: u32)) (block_bounce block_example) 65536"
    by (rule apart_sym, rule apart_ranges) (simp_all add: block_example_simps)
  moreover have "block_bounce block_example \<noteq> NULL" "disk_driver ram_sectors (device 0 block_example)"
    using ram_driver by (simp_all add: block_example_simps)
  ultimately show ?thesis using block_read_after_write [OF block_example_disk, where disk = ram_sectors and lba = 7 and cnt = 200] by blast
qed

text \<open>
  The checksum of the partition tables detects every damage that is confined to four
  consecutive bytes: two buffers that differ only there never have the same checksum, whatever the rest
  of the buffers and the initial value are.
\<close>

theorem block_crc32_detects_burst:
  assumes "length xs = length ys" and "length xs \<le> 4" and "xs \<noteq> ys"
  shows "block_crc32 (pre @ xs @ post) c \<noteq> block_crc32 (pre @ ys @ post) c"
proof
  assume "block_crc32 (pre @ xs @ post) c = block_crc32 (pre @ ys @ post) c"
  then have "crc_loop post (crc_loop xs (crc_loop pre (NOT c))) = crc_loop post (crc_loop ys (crc_loop pre (NOT c)))"
    by (simp add: block_crc32_def crc_loop_append)
  then have "crc_loop xs (crc_loop pre (NOT c)) = crc_loop ys (crc_loop pre (NOT c))" by (rule injD [OF inj_crc_loop])
  moreover have "crc_loop xs z = (crc_step ^^ (8 * length ys)) (z XOR burst xs)" "crc_loop ys z = (crc_step ^^ (8 * length ys)) (z XOR burst ys)" for z
    using crc_loop_burst [of xs] crc_loop_burst [of ys] assms(1,2) by simp_all
  ultimately have "crc_loop pre (NOT c) XOR burst xs = crc_loop pre (NOT c) XOR burst ys" by (simp only: injD [OF inj_crc_steps])
  from arg_cong [OF this, of "\<lambda>x. crc_loop pre (NOT c) XOR x"] have "burst xs = burst ys"
    by (simp only: xor.assoc [symmetric] xor_self_eq xor.left_neutral)
  then show False using inj_burst assms by blast
qed

theorem block_crc32_detects_burst_witness: "block_crc32 ([1, 2] @ [3] @ [4]) 0 \<noteq> block_crc32 ([1, 2] @ [7] @ [4]) 0"
  by (rule block_crc32_detects_burst) simp_all

text \<open>
  Property C40: reading an MBR never leaves a partition that reaches outside its disk: whatever the four
  entries of the sector say, every partition in the table afterwards belongs to a disk and lies inside it,
  so that transfers on it stay on the sectors of that disk; at most four partitions are counted.
\<close>

theorem block_scan_mbr_inside:
  assumes "parts_ok s" and "is_disk r s" and "block_scan_mbr r sector s = (found, s')"
  shows "parts_ok s' \<and> 0 \<le> found \<and> found \<le> 4 \<and>
    (\<forall>i < length (block_devices s'). bd_used (device i s') \<longrightarrow> bd_parent (device i s') = Some r \<longrightarrow>
       on_disk i r (bd_offset (device i s')) s')"
proof -
  have "parts_ok s' \<and> 0 \<le> found \<and> found \<le> 4"
    using mbr_loop_ok [OF assms(1,2), of sector "[0..<4]" 0 found s'] assms
    by (auto simp: block_scan_mbr_def Let_def split: if_splits)
  then show ?thesis using parts_ok_on_disk by blast
qed

lemma block_example_parts: "parts_ok block_example" "is_disk 0 block_example"
proof -
  have d: "block_devices block_example = [device 0 block_example, device (Suc 0) block_example] @ replicate 30 device_zero"
    by (simp add: block_example_def devfs_state.defs device_def)
  have z: "device i block_example = device_zero" if "2 \<le> i" "i < 32" for i
    using that d by (simp add: device_def [of i] nth_append)
  show "parts_ok block_example" unfolding parts_ok_def
  proof (intro allI impI)
    fix i r assume i: "i < length (block_devices block_example)" "bd_used (device i block_example)" "bd_parent (device i block_example) = Some r"
    have "i = Suc 0"
    proof (rule ccontr)
      assume "i \<noteq> Suc 0"
      then have "i = 0 \<or> 2 \<le> i" by linarith
      then show False using i z [of i] d by (auto simp: device_zero_def block_example_simps ram_disk_def)
    qed
    then show "r < length (block_devices block_example) \<and> bd_used (device r block_example) \<and> bd_parent (device r block_example) = None \<and>
        unat (bd_offset (device i block_example)) + unat (bd_sectors (device i block_example)) \<le> unat (bd_sectors (device r block_example))"
      using i(3) d by (simp add: block_example_simps ram_disk_def device_zero_def)
  qed
  show "is_disk 0 block_example" using d by (simp add: is_disk_def block_example_simps ram_disk_def device_zero_def)
qed

theorem block_scan_mbr_inside_witness: "parts_ok (snd (block_scan_mbr 0 0xFFFF800000100000 block_example))"
  using block_scan_mbr_inside [OF block_example_parts, of "0xFFFF800000100000", OF prod.collapse [symmetric]] by blast

text \<open>A GPT entry that ends at the last 64-bit sector number is not cut to the disk: the sum wraps to 0.\<close>

lemma gpt_partition_wraps:
  "bd_sectors (device 2 (block_add_partition 0 2 100 (0xFFFFFFFFFFFFFFFF - 100 + 1) block_example)) = 0xFFFFFFFFFFFFFF9C \<and>
   bd_sectors (device 0 block_example) = 4096"
  by code_simp

end
