(* ===== verification/Rtc.thy ===== *)
theory Rtc
  imports Prelude
begin

text \<open>
  The real time clock, \<^verbatim>\<open>kernel/devices/rtc.c\<close>. \<open>cmos i r\<close> is what the clock chip answers when the
  kernel reads its register \<open>r\<close> as its \<open>i\<close>-th access; a reader counts its accesses.
\<close>

type_synonym cmos = "nat \<Rightarrow> u8 \<Rightarrow> u8"

record rtc_time =
  rtc_year :: u16
  rtc_month :: u8
  rtc_day :: u8
  rtc_hour :: u8
  rtc_minute :: u8
  rtc_second :: u8
  rtc_weekday :: u8

definition cmos_read :: "cmos \<Rightarrow> u8 \<Rightarrow> nat \<Rightarrow> u8 \<times> nat" where
  "cmos_read cm r i = (cm i r, Suc i)"

fun read_registers :: "cmos \<Rightarrow> u8 list \<Rightarrow> nat \<Rightarrow> u8 list \<times> nat" where
  "read_registers cm [] i = ([], i)"
| "read_registers cm (r # rs) i = (let (v, i1) = cmos_read cm r i; (vs, i2) = read_registers cm rs i1 in (v # vs, i2))"

partial_function (option) rtc_read_raw :: "cmos \<Rightarrow> nat \<Rightarrow> (u8 list \<times> nat) ret" where
  [code]: "rtc_read_raw cm i =
     (let (v, i1) = cmos_read cm 0x0A i
      in if v AND 0x80 \<noteq> 0 then rtc_read_raw cm i1
         else Some (read_registers cm [0x00, 0x02, 0x04, 0x07, 0x08, 0x09, 0x06] i1))"

definition bcd_to_bin :: "u8 \<Rightarrow> u8" where
  "bcd_to_bin v = (v AND 0x0F) + drop_bit 4 v * 10"

partial_function (option) rtc_stable :: "cmos \<Rightarrow> u8 list \<Rightarrow> nat \<Rightarrow> (u8 list \<times> nat) ret" where
  [code]: "rtc_stable cm a i =
     do { (b, i1) \<leftarrow> rtc_read_raw cm i; if a = b then Some (a, i1) else rtc_stable cm b i1 }"

text \<open>\<open>a\<close> are the seven registers, \<open>status_b\<close> says how they are coded.\<close>

definition rtc_convert :: "u8 list \<Rightarrow> u8 \<Rightarrow> rtc_time" where
  "rtc_convert a status_b =
     (let pm = (a ! 2 AND 0x80 \<noteq> 0);
          a1 = a[2 := a ! 2 AND 0x7F];
          a2 = (if status_b AND 0x04 = 0 then map bcd_to_bin a1 else a1);
          a3 = (if status_b AND 0x02 = 0 then let h = a2 ! 2 mod 12 in a2[2 := if pm then h + 12 else h] else a2)
      in \<lparr>rtc_year = 2000 + ucast (a3 ! 5), rtc_month = a3 ! 4, rtc_day = a3 ! 3, rtc_hour = a3 ! 2, rtc_minute = a3 ! 1,
          rtc_second = a3 ! 0, rtc_weekday = of_nat ((unat (a3 ! 6) + 6) mod 7)\<rparr>)"

definition rtc_read :: "cmos \<Rightarrow> nat \<Rightarrow> (rtc_time \<times> nat) ret" where
  "rtc_read cm i =
     do { (a0, i1) \<leftarrow> rtc_read_raw cm i;
          (a, i2) \<leftarrow> rtc_stable cm a0 i1;
          let (status_b, i3) = cmos_read cm 0x0B i2 in Some (rtc_convert a status_b, i3) }"

end
