(* ===== verification/Fat32.thy ===== *)
theory Fat32
  imports Block Rtc
begin

text \<open>
  The FAT32 file system, \<^verbatim>\<open>kernel/filesystem/fat32.c\<close>. The store \<open>fats\<close> holds the structure
  \<^verbatim>\<open>Fat32\<close> at each address and \<open>fat_nodes\<close> the structure \<^verbatim>\<open>FatNode\<close>; the bytes of the one-sector
  cache, which the disk driver reads and writes, are in the memory, at their place inside \<^verbatim>\<open>Fat32\<close>.
  Directory sectors and file data are in the memory and on the disk as the code has them there. \<open>stk\<close> is
  the address of the local arrays: \<^verbatim>\<open>tmp\<close> of \<^verbatim>\<open>fat_data_io\<close> is the sector there, the arrays of its
  callers (\<^verbatim>\<open>entries\<close>, \<^verbatim>\<open>dots\<close>, a directory entry) are above it.
\<close>

record fat32 =
  fs_dev :: "nat option"
  fs_spc :: u32
  fs_cluster_bytes :: u32
  fs_fat_start :: u32
  fs_fat_sectors :: u32
  fs_fat_count :: u32
  fs_data_start :: u32
  fs_root_cluster :: u32
  fs_cluster_count :: u32
  fs_next_free :: u32
  fs_cache_sector :: u32
  fs_cache_valid :: bool
  fs_cache_dirty :: bool

record fat_node =
  fn_fs :: ptr
  fn_cluster :: u32
  fn_entry_offset :: u32
  fn_lfn_count :: u8
  fn_short_name :: "u8 list"
  fn_loaded :: bool
  fn_hint_index :: u32
  fn_hint_cluster :: u32

record 'd fat_state = "'d block_state" +
  fats :: "ptr \<Rightarrow> fat32"
  fat_nodes :: "ptr \<Rightarrow> fat_node"
  cmos :: cmos
  cmos_reads :: nat

definition FAT_ATTR_VOLUME :: u8 where "FAT_ATTR_VOLUME = 0x08"
definition FAT_ATTR_DIR :: u8 where "FAT_ATTR_DIR = 0x10"
definition FAT_ATTR_ARCHIVE :: u8 where "FAT_ATTR_ARCHIVE = 0x20"
definition FAT_ATTR_LFN :: u8 where "FAT_ATTR_LFN = 0x0F"
definition FAT_MASK :: u32 where "FAT_MASK = 0x0FFFFFFF"
definition FAT_EOC :: u32 where "FAT_EOC = 0x0FFFFFFF"
definition FAT_LFN_CHARS :: nat where "FAT_LFN_CHARS = 13"
definition FAT_ENTRY :: u32 where "FAT_ENTRY = 32"
definition FAT32_SIZE :: u64 where "FAT32_SIZE = 568"
definition FAT_NODE_SIZE :: u64 where "FAT_NODE_SIZE = 40"

definition fat32_zero :: fat32 where
  "fat32_zero = \<lparr>fs_dev = None, fs_spc = 0, fs_cluster_bytes = 0, fs_fat_start = 0, fs_fat_sectors = 0, fs_fat_count = 0,
     fs_data_start = 0, fs_root_cluster = 0, fs_cluster_count = 0, fs_next_free = 0, fs_cache_sector = 0,
     fs_cache_valid = False, fs_cache_dirty = False\<rparr>"

definition fat_node_zero :: fat_node where
  "fat_node_zero = \<lparr>fn_fs = NULL, fn_cluster = 0, fn_entry_offset = 0, fn_lfn_count = 0, fn_short_name = replicate 11 0,
     fn_loaded = False, fn_hint_index = 0, fn_hint_cluster = 0\<rparr>"

definition fat_cache :: "ptr \<Rightarrow> ptr" where
  "fat_cache fs = fs + 50"

definition upd_fs :: "ptr \<Rightarrow> (fat32 \<Rightarrow> fat32) \<Rightarrow> ('d, 'a) fat_state_scheme \<Rightarrow> ('d, 'a) fat_state_scheme" where
  "upd_fs p f s = s\<lparr>fats := (fats s)(p := f (fats s p))\<rparr>"

definition upd_fn :: "ptr \<Rightarrow> (fat_node \<Rightarrow> fat_node) \<Rightarrow> ('d, 'a) fat_state_scheme \<Rightarrow> ('d, 'a) fat_state_scheme" where
  "upd_fn p f s = s\<lparr>fat_nodes := (fat_nodes s)(p := f (fat_nodes s p))\<rparr>"

definition store_at :: "ptr \<Rightarrow> u8 list \<Rightarrow> ('d, 'a) fat_state_scheme \<Rightarrow> ('d, 'a) fat_state_scheme" where
  "store_at p bs s = set_vfs_memory (store_bytes p bs (vfs_memory s)) s"

subsection \<open>The allocation table\<close>

fun flush_copies :: "ptr \<Rightarrow> nat list \<Rightarrow> ('d, 'a) fat_state_scheme \<Rightarrow> (int \<times> ('d, 'a) fat_state_scheme) ret" where
  "flush_copies fs [] s = Some (0, s)"
| "flush_copies fs (i # is) s =
     (let f = fats s fs
      in do { (rc, s1) \<leftarrow> block_write (fs_dev f) (ucast (fs_fat_start f + of_nat i * fs_fat_sectors f + fs_cache_sector f)) 1 (fat_cache fs) s;
              if rc \<noteq> 0 then Some (- 1, s1) else flush_copies fs is s1 })"

definition fat_cache_flush :: "ptr \<Rightarrow> ('d, 'a) fat_state_scheme \<Rightarrow> (int \<times> ('d, 'a) fat_state_scheme) ret" where
  "fat_cache_flush fs s =
     (if \<not> fs_cache_dirty (fats s fs) then Some (0, s)
      else do { (rc, s1) \<leftarrow> flush_copies fs [0..<unat (fs_fat_count (fats s fs))] s;
                if rc \<noteq> 0 then Some (- 1, s1) else Some (0, upd_fs fs (fs_cache_dirty_update (\<lambda>_. False)) s1) })"

definition fat_cache_load :: "ptr \<Rightarrow> u32 \<Rightarrow> ('d, 'a) fat_state_scheme \<Rightarrow> (int \<times> ('d, 'a) fat_state_scheme) ret" where
  "fat_cache_load fs sector s =
     (if fs_cache_valid (fats s fs) \<and> fs_cache_sector (fats s fs) = sector then Some (0, s)
      else do {
        (rc, s1) \<leftarrow> fat_cache_flush fs s;
        if rc \<noteq> 0 then Some (- 1, s1)
        else let s2 = upd_fs fs (fs_cache_valid_update (\<lambda>_. False)) s1; f = fats s2 fs
             in do { (rc', s3) \<leftarrow> block_read (fs_dev f) (ucast (fs_fat_start f + sector)) 1 (fat_cache fs) s2;
                     if rc' \<noteq> 0 then Some (- 1, s3)
                     else Some (0, upd_fs fs (\<lambda>f. f\<lparr>fs_cache_sector := sector, fs_cache_valid := True\<rparr>) s3) } })"

definition fat_valid :: "fat32 \<Rightarrow> u32 \<Rightarrow> bool" where
  "fat_valid f c \<longleftrightarrow> c \<ge> 2 \<and> c < fs_cluster_count f + 2"

definition cache_entry :: "ptr \<Rightarrow> u32 \<Rightarrow> ptr" where
  "cache_entry fs c = fat_cache fs + ucast ((c mod 128) * 4)"

definition fat_get :: "ptr \<Rightarrow> u32 \<Rightarrow> ('d, 'a) fat_state_scheme \<Rightarrow> (u32 \<times> ('d, 'a) fat_state_scheme) ret" where
  "fat_get fs c s =
     do { (rc, s1) \<leftarrow> fat_cache_load fs (c div 128) s;
          if rc \<noteq> 0 then Some (FAT_EOC, s1)
          else Some (load_u32 (vfs_memory s1) (cache_entry fs c) AND FAT_MASK, s1) }"

definition fat_set :: "ptr \<Rightarrow> u32 \<Rightarrow> u32 \<Rightarrow> ('d, 'a) fat_state_scheme \<Rightarrow> (int \<times> ('d, 'a) fat_state_scheme) ret" where
  "fat_set fs c value s =
     do { (rc, s1) \<leftarrow> fat_cache_load fs (c div 128) s;
          if rc \<noteq> 0 then Some (- 1, s1)
          else let v = (load_u32 (vfs_memory s1) (cache_entry fs c) AND NOT FAT_MASK) OR (value AND FAT_MASK)
               in Some (0, upd_fs fs (fs_cache_dirty_update (\<lambda>_. True))
                             (set_vfs_memory (store_u32 (cache_entry fs c) v (vfs_memory s1)) s1)) }"

definition fat_lba :: "fat32 \<Rightarrow> u32 \<Rightarrow> u64" where
  "fat_lba f c = ucast (fs_data_start f) + ucast (c - 2) * ucast (fs_spc f)"

definition fat_zero_cluster :: "ptr \<Rightarrow> u32 \<Rightarrow> ('d, 'a) fat_state_scheme \<Rightarrow> (int \<times> ('d, 'a) fat_state_scheme) ret" where
  "fat_zero_cluster fs c s =
     do { (zero, s1) \<leftarrow> vf_kcalloc 1 (ucast (fs_cluster_bytes (fats s fs))) s;
          if zero = NULL then Some (- 1, s1)
          else let f = fats s1 fs
               in do { (rc, s2) \<leftarrow> block_write (fs_dev f) (fat_lba f c) (fs_spc f) zero s1;
                       s3 \<leftarrow> vf_kfree zero s2;
                       Some (rc, s3) } }"

text \<open>The cluster tried in pass \<open>n\<close>, and the passes that are left; 0 is the answer of a full disk.\<close>

fun alloc_loop :: "ptr \<Rightarrow> u32 \<Rightarrow> bool \<Rightarrow> u32 \<Rightarrow> nat \<Rightarrow> ('d, 'a) fat_state_scheme \<Rightarrow> (u32 \<times> ('d, 'a) fat_state_scheme) ret" where
  "alloc_loop fs prev zero n 0 s = Some (0, s)"
| "alloc_loop fs prev zero n (Suc k) s =
     (let f = fats s fs; c = 2 + (fs_next_free f - 2 + n) mod fs_cluster_count f
      in do {
        (v, s1) \<leftarrow> fat_get fs c s;
        if v \<noteq> 0 then alloc_loop fs prev zero (n + 1) k s1
        else do {
          (rc, s2) \<leftarrow> (if zero then fat_zero_cluster fs c s1 else Some (0, s1));
          if rc \<noteq> 0 then Some (0, s2)
          else do {
            (rc, s3) \<leftarrow> fat_set fs c FAT_EOC s2;
            if rc \<noteq> 0 then Some (0, s3)
            else do {
              (rc, s4) \<leftarrow> (if prev \<noteq> 0 then fat_set fs prev c s3 else Some (0, s3));
              if rc \<noteq> 0 then Some (0, s4)
              else Some (c, upd_fs fs (\<lambda>f. f\<lparr>fs_next_free := if c + 1 < fs_cluster_count f + 2 then c + 1 else 2\<rparr>) s4) } } } })"

definition fat_alloc :: "ptr \<Rightarrow> u32 \<Rightarrow> bool \<Rightarrow> ('d, 'a) fat_state_scheme \<Rightarrow> (u32 \<times> ('d, 'a) fat_state_scheme) ret" where
  "fat_alloc fs prev zero s = alloc_loop fs prev zero 0 (unat (fs_cluster_count (fats s fs))) s"

partial_function (option) fat_free_chain :: "ptr \<Rightarrow> u32 \<Rightarrow> ('d, 'a) fat_state_scheme \<Rightarrow> ('d, 'a) fat_state_scheme ret" where
  [code]: "fat_free_chain fs c s =
     (if fat_valid (fats s fs) c
      then do {
        (nx, s1) \<leftarrow> fat_get fs c s;
        (rc, s2) \<leftarrow> fat_set fs c 0 s1;
        fat_free_chain fs nx (if c < fs_next_free (fats s2 fs) then upd_fs fs (fs_next_free_update (\<lambda>_. c)) s2 else s2) }
      else Some s)"

subsection \<open>The clusters of a file\<close>

partial_function (option) follow_chain ::
  "ptr \<Rightarrow> u32 \<Rightarrow> u32 \<Rightarrow> u32 \<Rightarrow> ('d, 'a) fat_state_scheme \<Rightarrow> (u32 \<times> ('d, 'a) fat_state_scheme) ret" where
  [code]: "follow_chain fs index c i s =
     (if i < index \<and> fat_valid (fats s fs) c
      then do { (nx, s1) \<leftarrow> fat_get fs c s; follow_chain fs index nx (i + 1) s1 }
      else Some (c, s))"

definition set_hint :: "ptr \<Rightarrow> u32 \<Rightarrow> u32 \<Rightarrow> ('d, 'a) fat_state_scheme \<Rightarrow> ('d, 'a) fat_state_scheme" where
  "set_hint fn index c s = upd_fn fn (\<lambda>n. n\<lparr>fn_hint_index := index, fn_hint_cluster := c\<rparr>) s"

definition fat_cluster_at :: "ptr \<Rightarrow> u32 \<Rightarrow> ('d, 'a) fat_state_scheme \<Rightarrow> (u32 \<times> ('d, 'a) fat_state_scheme) ret" where
  "fat_cluster_at fn index s =
     (let n = fat_nodes s fn; fs = fn_fs n;
          (c, i) = (if fn_hint_cluster n \<noteq> 0 \<and> fn_hint_index n \<le> index then (fn_hint_cluster n, fn_hint_index n) else (fn_cluster n, 0))
      in do { (c', s1) \<leftarrow> follow_chain fs index c i s;
              if \<not> fat_valid (fats s1 fs) c' then Some (0, s1) else Some (c', set_hint fn index c' s1) })"

partial_function (option) extend_loop ::
  "ptr \<Rightarrow> u32 \<Rightarrow> bool \<Rightarrow> u32 \<Rightarrow> u32 \<Rightarrow> ('d, 'a) fat_state_scheme \<Rightarrow> ((u32 \<times> u32) option \<times> ('d, 'a) fat_state_scheme) ret" where
  [code]: "extend_loop fs clusters zero i c s =
     (if i + 1 < clusters
      then do {
        (nx, s1) \<leftarrow> fat_get fs c s;
        (nx', s2) \<leftarrow> (if \<not> fat_valid (fats s1 fs) nx then fat_alloc fs c zero s1 else Some (nx, s1));
        if nx' = 0 then Some (None, s2) else extend_loop fs clusters zero (i + 1) nx' s2 }
      else Some (Some (i, c), s))"

definition fat_extend :: "ptr \<Rightarrow> u32 \<Rightarrow> bool \<Rightarrow> ('d, 'a) fat_state_scheme \<Rightarrow> (int \<times> ('d, 'a) fat_state_scheme) ret" where
  "fat_extend fn clusters zero s =
     (let fs = fn_fs (fat_nodes s fn)
      in if clusters = 0 then Some (0, s)
         else do {
           (ok, s1) \<leftarrow>
             (if \<not> fat_valid (fats s fs) (fn_cluster (fat_nodes s fn))
              then do { (c, s') \<leftarrow> fat_alloc fs 0 zero s;
                        if c = 0 then Some (False, s')
                        else Some (True, upd_fn fn (\<lambda>n. n\<lparr>fn_cluster := c, fn_hint_index := 0, fn_hint_cluster := c\<rparr>) s') }
              else Some (True, s));
           if \<not> ok then Some (- 1, s1)
           else let n = fat_nodes s1 fn;
                    (i, c) = (if fn_hint_cluster n \<noteq> 0 \<and> fn_hint_index n < clusters then (fn_hint_index n, fn_hint_cluster n) else (0, fn_cluster n))
                in do { (r, s2) \<leftarrow> extend_loop fs clusters zero i c s1;
                        case r of None \<Rightarrow> Some (- 1, s2) | Some (i', c') \<Rightarrow> Some (0, set_hint fn i' c' s2) } })"

subsection \<open>Reading and writing\<close>

partial_function (option) fat_data_io ::
  "ptr \<Rightarrow> ptr \<Rightarrow> u64 \<Rightarrow> u64 \<Rightarrow> ptr \<Rightarrow> u64 \<Rightarrow> bool \<Rightarrow> ('d, 'a) fat_state_scheme \<Rightarrow> (int \<times> ('d, 'a) fat_state_scheme) ret" where
  [code]: "fat_data_io stk fs lba off buf len write s =
     (if len = 0 then Some (0, s)
      else let dev = fs_dev (fats s fs); sec = lba + off div BLOCK_SECTOR_SIZE; so = off mod BLOCK_SECTOR_SIZE
           in if so = 0 \<and> len \<ge> BLOCK_SECTOR_SIZE
              then let n = (ucast (len div BLOCK_SECTOR_SIZE) :: u32); bytes = ucast n * BLOCK_SECTOR_SIZE
                   in do { (rc, s1) \<leftarrow> (if write then block_write dev sec n buf s else block_read dev sec n buf s);
                           if rc \<noteq> 0 then Some (- 1, s1)
                           else fat_data_io stk fs lba (off + bytes) (buf + bytes) (len - bytes) write s1 }
              else let n = (if BLOCK_SECTOR_SIZE - so < len then BLOCK_SECTOR_SIZE - so else len)
                   in do { (rc, s1) \<leftarrow> block_read dev sec 1 stk s;
                           if rc \<noteq> 0 then Some (- 1, s1)
                           else do {
                             (rc, s2) \<leftarrow> (if write then block_write dev sec 1 stk (set_vfs_memory (memcpy (stk + so) buf n (vfs_memory s1)) s1)
                                          else Some (0, set_vfs_memory (memcpy buf (stk + so) n (vfs_memory s1)) s1));
                             if rc \<noteq> 0 then Some (- 1, s2)
                             else fat_data_io stk fs lba (off + n) (buf + n) (len - n) write s2 } })"

text \<open>The run of adjacent clusters from \<^verbatim>\<open>last\<close> on.\<close>

partial_function (option) cluster_run ::
  "ptr \<Rightarrow> u64 \<Rightarrow> u64 \<Rightarrow> u64 \<Rightarrow> u32 \<Rightarrow> u32 \<Rightarrow> ('d, 'a) fat_state_scheme \<Rightarrow> ((u64 \<times> u32 \<times> u32) \<times> ('d, 'a) fat_state_scheme) ret" where
  [code]: "cluster_run fs cb rest run lst lst_index s =
     (if run < rest
      then do { (nx, s1) \<leftarrow> fat_get fs lst s;
                if nx \<noteq> lst + 1 \<or> \<not> fat_valid (fats s1 fs) nx then Some ((run, lst, lst_index), s1)
                else cluster_run fs cb rest (run + cb) nx (lst_index + 1) s1 }
      else Some ((run, lst, lst_index), s))"

partial_function (option) fat_io_loop ::
  "ptr \<Rightarrow> ptr \<Rightarrow> u64 \<Rightarrow> ptr \<Rightarrow> u64 \<Rightarrow> bool \<Rightarrow> u64 \<Rightarrow> ('d, 'a) fat_state_scheme \<Rightarrow> (int \<times> ('d, 'a) fat_state_scheme) ret" where
  [code]: "fat_io_loop stk fn offset buf len write dn s =
     (if dn < len
      then let fs = fn_fs (fat_nodes s fn); cb = (ucast (fs_cluster_bytes (fats s fs)) :: u64)
           in if cb = 0 then None
              else let index = (ucast ((offset + dn) div cb) :: u32); within = (offset + dn) mod cb
                   in do {
                     (c, s1) \<leftarrow> fat_cluster_at fn index s;
                     if c = 0 then Some (sint dn, s1)
                     else do {
                       ((run, lst, lst_index), s2) \<leftarrow> cluster_run fs cb (len - dn) (cb - within) c index s1;
                       let n = (if run < len - dn then run else len - dn);
                           s3 = set_hint fn lst_index lst s2
                       in do {
                         (rc, s4) \<leftarrow> fat_data_io stk fs (fat_lba (fats s3 fs) c) within (buf + dn) n write s3;
                         if rc \<noteq> 0 then Some (if dn \<noteq> 0 then sint dn else - 1, s4)
                         else fat_io_loop stk fn offset buf len write (dn + n) s4 } } }
      else Some (sint dn, s))"

definition fat_io ::
  "ptr \<Rightarrow> ptr \<Rightarrow> u64 \<Rightarrow> ptr \<Rightarrow> u64 \<Rightarrow> bool \<Rightarrow> ('d, 'a) fat_state_scheme \<Rightarrow> (int \<times> ('d, 'a) fat_state_scheme) ret" where
  "fat_io stk fn offset data len write s = fat_io_loop stk fn offset data len write 0 s"

subsection \<open>Names and directory entries\<close>

text \<open>\<open>e\<close> is the address of a \<^verbatim>\<open>FatDirent\<close>: name, attribute, name case, times, the two halves of the
  first cluster and the size, at their offsets in the packed structure.\<close>

definition fat_time :: "rtc_time \<Rightarrow> u16" where
  "fat_time t = push_bit 11 (ucast (rtc_hour t)) OR push_bit 5 (ucast (rtc_minute t)) OR ucast (rtc_second t div 2)"

definition fat_date :: "rtc_time \<Rightarrow> u16" where
  "fat_date t = push_bit 9 (rtc_year t - 1980) OR push_bit 5 (ucast (rtc_month t)) OR ucast (rtc_day t)"

definition fat_timestamp :: "ptr \<Rightarrow> bool \<Rightarrow> ('d, 'a) fat_state_scheme \<Rightarrow> ('d, 'a) fat_state_scheme ret" where
  "fat_timestamp e fresh s =
     do { (t, i) \<leftarrow> rtc_read (cmos s) (cmos_reads s);
          let (time, date) = (if rtc_year t \<ge> 1980 then (fat_time t, fat_date t) else (0, 33));
              m1 = store_u16 (e + 18) date (store_u16 (e + 24) date (store_u16 (e + 22) time (vfs_memory s)));
              m2 = (if fresh then store_u16 (e + 16) date (store_u16 (e + 14) time m1) else m1)
          in Some (set_vfs_memory m2 (s\<lparr>cmos_reads := i\<rparr>)) }"

definition fat_checksum :: "u8 list \<Rightarrow> u8" where
  "fat_checksum name = foldl (\<lambda>ck b. push_bit 7 (ck AND 1) + drop_bit 1 ck + b) 0 (take 11 name)"

definition fat_upper :: "char \<Rightarrow> char" where
  "fat_upper c = (let n = of_char c :: nat in if 97 \<le> n \<and> n \<le> 122 then char_of (n - 32) else c)"

definition fat_lower :: "char \<Rightarrow> char" where
  "fat_lower c = (let n = of_char c :: nat in if 65 \<le> n \<and> n \<le> 90 then char_of (n + 32) else c)"

fun fat_name_eq :: "string \<Rightarrow> string \<Rightarrow> bool" where
  "fat_name_eq (a # as) (b # bs) \<longleftrightarrow> fat_upper a = fat_upper b \<and> fat_name_eq as bs"
| "fat_name_eq as bs \<longleftrightarrow> as = [] \<and> bs = []"

definition fat_new_vnode ::
  "ptr \<Rightarrow> string \<Rightarrow> vnode_type \<Rightarrow> u64 \<Rightarrow> ptr \<Rightarrow> ('d, 'a) fat_state_scheme \<Rightarrow> (ptr \<times> ('d, 'a) fat_state_scheme) ret" where
  "fat_new_vnode dir name ty sz fn s =
     do { (n, s1) \<leftarrow> vf_kcalloc 1 VNODE_SIZE s;
          if n = NULL then Some (NULL, s1)
          else let s2 = upd_node n (\<lambda>_. vnode_zero\<lparr>v_name := node_name name, v_type := ty, v_size := sz, v_ops := Some FAT_OPS,
                          v_private_data := fn, v_parent := dir\<rparr>) s1
               in if dir = NULL then Some (n, s2)
                  else do { l \<leftarrow> seek_child (\<lambda>_. False) (Inl dir) (vnodes s2); Some (n, set_child l n s2) } }"

text \<open>The characters written to \<^verbatim>\<open>out\<close> before the terminator.\<close>

definition fat_short_to_name :: "u8 list \<Rightarrow> u8 \<Rightarrow> string" where
  "fat_short_to_name name ntres =
     (let trim = (\<lambda>bs. rev (dropWhile (\<lambda>b. b = 32) (rev bs)));
          low = (\<lambda>k c. if ntres AND k \<noteq> 0 then fat_lower c else c);
          base = trim (take 8 name);
          base' = (if base \<noteq> [] \<and> name ! 0 = 0x05 then 0xE5 # tl base else base);
          ext = trim (take 3 (drop 8 name))
      in map (low 0x08) (chars_of base') @ (if ext = [] then [] else CHR ''.'' # map (low 0x10) (chars_of ext)))"

definition c_string :: "string \<Rightarrow> string" where
  "c_string cs = takeWhile (\<lambda>c. c \<noteq> CHR 0x00) cs"

text \<open>The long name collected so far: the array \<^verbatim>\<open>lfn\<close>, the number of its entries and their checksum.
  Its elements are set before they are read.\<close>

type_synonym lfn_state = "u16 list \<times> nat \<times> u8"

definition lfn_chars :: "mem \<Rightarrow> ptr \<Rightarrow> u16 list" where
  "lfn_chars m l = map (\<lambda>k. load_u16 m (l + k)) [1, 3, 5, 7, 9, 14, 16, 18, 20, 22, 24, 28, 30]"

definition overlay :: "'a list \<Rightarrow> nat \<Rightarrow> 'a list \<Rightarrow> 'a list" where
  "overlay xs i ys = take i xs @ ys @ drop (i + length ys) xs"

definition lfn_step :: "mem \<Rightarrow> ptr \<Rightarrow> lfn_state \<Rightarrow> lfn_state" where
  "lfn_step m l st =
     (case st of (lfn, cnt, ck) \<Rightarrow>
        let order = m l; seq = unat (order AND 0x1F)
        in if seq < 1 \<or> seq > 20 then (lfn, 0, ck)
           else let (lfn1, cnt1, ck1) =
                      (if order AND 0x40 \<noteq> 0 then (overlay lfn 0 (replicate (seq * FAT_LFN_CHARS + 1) 0), seq, m (l + 13))
                       else (lfn, cnt, ck))
                in (overlay lfn1 ((seq - 1) * FAT_LFN_CHARS) (lfn_chars m l), cnt1, ck1))"

definition lfn_name :: "u16 list \<Rightarrow> nat \<Rightarrow> string" where
  "lfn_name lfn cnt =
     map (\<lambda>ch. if ch < 0x80 then char_of (unat ch) else CHR ''_'')
       (takeWhile (\<lambda>ch. ch \<noteq> 0 \<and> ch \<noteq> 0xFFFF) (take (VFS_NAME_MAX - 1) (take (cnt * FAT_LFN_CHARS) lfn)))"

text \<open>The name of the entry at \<open>e\<close> and the number of long name entries before it.\<close>

definition entry_name :: "mem \<Rightarrow> ptr \<Rightarrow> lfn_state \<Rightarrow> string \<times> u8" where
  "entry_name m e st =
     (case st of (lfn, cnt, ck) \<Rightarrow>
        if cnt \<noteq> 0 \<and> ck = fat_checksum (bytes_at m e 11) then (c_string (lfn_name lfn cnt), of_nat cnt)
        else (c_string (fat_short_to_name (bytes_at m e 11) (m (e + 12))), 0))"

definition entry_cluster :: "mem \<Rightarrow> ptr \<Rightarrow> u32" where
  "entry_cluster m e = push_bit 16 (ucast (load_u16 m (e + 20))) OR ucast (load_u16 m (e + 26))"

definition load_entry ::
  "ptr \<Rightarrow> u32 \<Rightarrow> ptr \<Rightarrow> string \<Rightarrow> u8 \<Rightarrow> ('d, 'a) fat_state_scheme \<Rightarrow> (bool \<times> ('d, 'a) fat_state_scheme) ret" where
  "load_entry dir pos e name used_lfn s =
     do { (fn, s1) \<leftarrow> vf_kcalloc 1 FAT_NODE_SIZE s;
          if fn = NULL then Some (False, s1)
          else let m = vfs_memory s1; is_dir = (m (e + 11) AND FAT_ATTR_DIR \<noteq> 0);
                   s2 = upd_fn fn (\<lambda>_. fat_node_zero\<lparr>fn_fs := fn_fs (fat_nodes s1 (v_private_data (vnodes s1 dir))),
                          fn_cluster := entry_cluster m e, fn_entry_offset := pos, fn_lfn_count := used_lfn,
                          fn_short_name := bytes_at m e 11\<rparr>) s1
               in do { (n, s3) \<leftarrow> fat_new_vnode dir name (if is_dir then VNODE_DIR else VNODE_FILE)
                                    (if is_dir then 0 else ucast (load_u32 m (e + 28))) fn s2;
                       if n = NULL then do { s4 \<leftarrow> vf_kfree fn s3; Some (False, s4) } else Some (True, s3) } }"

text \<open>The entries of one cluster, read to \<open>buf\<close>; the result says whether the end of the directory was
  reached (or memory ran out).\<close>

partial_function (option) scan_entries ::
  "ptr \<Rightarrow> u32 \<Rightarrow> ptr \<Rightarrow> u32 \<Rightarrow> lfn_state \<Rightarrow> ('d, 'a) fat_state_scheme \<Rightarrow> ((bool \<times> lfn_state) \<times> ('d, 'a) fat_state_scheme) ret" where
  [code]: "scan_entries dir index buf off st s =
     (let fs = fn_fs (fat_nodes s (v_private_data (vnodes s dir))); cb = fs_cluster_bytes (fats s fs);
          m = vfs_memory s; e = buf + ucast off; no_lfn = (fst st, 0, snd (snd st))
      in if \<not> off < cb then Some ((False, st), s)
         else if m e = 0 then Some ((True, st), s)
         else if m e = 0xE5 then scan_entries dir index buf (off + FAT_ENTRY) no_lfn s
         else if m (e + 11) = FAT_ATTR_LFN then scan_entries dir index buf (off + FAT_ENTRY) (lfn_step m e st) s
         else if m (e + 11) AND FAT_ATTR_VOLUME \<noteq> 0 \<or> m e = 0x2E then scan_entries dir index buf (off + FAT_ENTRY) no_lfn s
         else let (name, used) = entry_name m e st
              in do { (ok, s1) \<leftarrow> load_entry dir (index * cb + off) e name used s;
                      if \<not> ok then Some ((True, no_lfn), s1)
                      else scan_entries dir index buf (off + FAT_ENTRY) no_lfn s1 })"

partial_function (option) load_dir_loop ::
  "ptr \<Rightarrow> ptr \<Rightarrow> u32 \<Rightarrow> lfn_state \<Rightarrow> ('d, 'a) fat_state_scheme \<Rightarrow> ('d, 'a) fat_state_scheme ret" where
  [code]: "load_dir_loop dir buf index st s =
     (let dn = v_private_data (vnodes s dir); fs = fn_fs (fat_nodes s dn)
      in do {
        (c, s1) \<leftarrow> fat_cluster_at dn index s;
        if c = 0 then Some s1
        else do {
          (rc, s2) \<leftarrow> block_read (fs_dev (fats s1 fs)) (fat_lba (fats s1 fs) c) (fs_spc (fats s1 fs)) buf s1;
          if rc \<noteq> 0 then Some s2
          else do { ((stop, st'), s3) \<leftarrow> scan_entries dir index buf 0 st s2;
                    if stop then Some s3 else load_dir_loop dir buf (index + 1) st' s3 } } })"

definition lfn_start :: lfn_state where
  "lfn_start = (replicate (20 * FAT_LFN_CHARS + 1) 0, 0, 0)"

definition fat_load_dir :: "ptr \<Rightarrow> ('d, 'a) fat_state_scheme \<Rightarrow> ('d, 'a) fat_state_scheme ret" where
  "fat_load_dir dir s =
     (let dn = v_private_data (vnodes s dir)
      in if fn_loaded (fat_nodes s dn) then Some s
         else let s0 = upd_fn dn (fn_loaded_update (\<lambda>_. True)) s
              in do { (buf, s1) \<leftarrow> vf_kmalloc (ucast (fs_cluster_bytes (fats s0 (fn_fs (fat_nodes s0 dn))))) s0;
                      if buf = NULL then Some s1
                      else do { s2 \<leftarrow> load_dir_loop dir buf 0 lfn_start s1; vf_kfree buf s2 } })"

partial_function (option) fat_lookup_loop :: "string \<Rightarrow> ptr \<Rightarrow> (ptr \<Rightarrow> vnode) \<Rightarrow> ptr ret" where
  [code]: "fat_lookup_loop name c vs =
     (if c = NULL then Some NULL else if fat_name_eq (v_name (vs c)) name then Some c
      else fat_lookup_loop name (v_next_sibling (vs c)) vs)"

definition fat_lookup :: "ptr \<Rightarrow> string \<Rightarrow> ('d, 'a) fat_state_scheme \<Rightarrow> (ptr \<times> ('d, 'a) fat_state_scheme) ret" where
  "fat_lookup dir name s =
     (if v_type (vnodes s dir) \<noteq> VNODE_DIR then Some (NULL, s)
      else do { s1 \<leftarrow> fat_load_dir dir s;
                c \<leftarrow> fat_lookup_loop name (v_first_child (vnodes s1 dir)) (vnodes s1);
                Some (c, s1) })"

partial_function (option) fat_readdir_loop :: "int \<Rightarrow> int \<Rightarrow> ptr \<Rightarrow> (ptr \<Rightarrow> vnode) \<Rightarrow> string option ret" where
  [code]: "fat_readdir_loop idx i c vs =
     (if c = NULL then Some None
      else if idx = i then Some (Some (v_name (vs c))) else fat_readdir_loop (idx + 1) i (v_next_sibling (vs c)) vs)"

definition fat_readdir :: "ptr \<Rightarrow> int \<Rightarrow> ('d, 'a) fat_state_scheme \<Rightarrow> (string option \<times> ('d, 'a) fat_state_scheme) ret" where
  "fat_readdir dir i s =
     do { s1 \<leftarrow> fat_load_dir dir s;
          r \<leftarrow> fat_readdir_loop 0 i (v_first_child (vnodes s1 dir)) (vnodes s1);
          Some (r, s1) }"

subsection \<open>Making directory entries\<close>

partial_function (option) short_taken_loop ::
  "u8 list \<Rightarrow> ptr \<Rightarrow> ('d, 'a) fat_state_scheme \<Rightarrow> bool ret" where
  [code]: "short_taken_loop name c s =
     (if c = NULL then Some False
      else if fn_short_name (fat_nodes s (v_private_data (vnodes s c))) = name then Some True
      else short_taken_loop name (v_next_sibling (vnodes s c)) s)"

definition fat_short_taken :: "ptr \<Rightarrow> u8 list \<Rightarrow> ('d, 'a) fat_state_scheme \<Rightarrow> bool ret" where
  "fat_short_taken dir name s = short_taken_loop name (v_first_child (vnodes s dir)) s"

definition fat_short_char :: "char \<Rightarrow> bool" where
  "fat_short_char c \<longleftrightarrow>
     (let n = of_char c :: nat
      in 65 \<le> n \<and> n \<le> 90 \<or> 48 \<le> n \<and> n \<le> 57 \<or> c \<in> set (''$%-_@~!(){}^#&'' @ [CHR 0x27, CHR 0x60]))"

text \<open>The last dot, unless it is the first character.\<close>

definition last_dot :: "string \<Rightarrow> nat option" where
  "last_dot name =
     (case first_index (\<lambda>c. c = CHR ''.'') (rev name) of
        None \<Rightarrow> None
      | Some k \<Rightarrow> (let i = length name - 1 - k in if i = 0 then None else Some i))"

definition short_bytes :: "nat \<Rightarrow> string \<Rightarrow> u8 list" where
  "short_bytes k cs = take k (map (\<lambda>c. of_nat (of_char c)) (filter fat_short_char (map fat_upper cs)))"

fun digits_of :: "nat \<Rightarrow> u8 list" where
  "digits_of v = (if v = 0 then [] else digits_of (v div 10) @ [of_nat (48 + v mod 10)])"

declare digits_of.simps [simp del]

definition short_tail :: "nat \<Rightarrow> u8 list" where
  "short_tail num = 0x7E # digits_of num"

partial_function (option) short_loop ::
  "ptr \<Rightarrow> nat \<Rightarrow> nat \<Rightarrow> u8 list \<Rightarrow> ('d, 'a) fat_state_scheme \<Rightarrow> u8 list option ret" where
  [code]: "short_loop dir n num out s =
     (if num < 1000000
      then let tl = short_tail num; pos = min n (8 - length tl);
               out1 = overlay (overlay out pos (replicate (8 - pos) 32)) pos tl
           in do { taken \<leftarrow> fat_short_taken dir out1 s;
                   if \<not> taken then Some (Some out1) else short_loop dir n (num + 1) out1 s }
      else Some None)"

definition fat_make_short :: "ptr \<Rightarrow> string \<Rightarrow> ('d, 'a) fat_state_scheme \<Rightarrow> u8 list option ret" where
  "fat_make_short dir name s =
     (let stem = (case last_dot name of None \<Rightarrow> name | Some i \<Rightarrow> take i name);
          base0 = short_bytes 6 stem;
          base = (if base0 = [] then [0x5F] else base0);
          ext = (case last_dot name of None \<Rightarrow> [] | Some i \<Rightarrow> short_bytes 3 (drop (Suc i) name))
      in short_loop dir (length base) 1 (overlay (overlay (replicate 11 32) 0 base) 8 ext) s)"

datatype slot_scan = Slot_Found u64 | Slot_Extend u64 | Slot_Next u32 u64

partial_function (option) scan_slots :: "mem \<Rightarrow> ptr \<Rightarrow> u32 \<Rightarrow> u32 \<Rightarrow> u32 \<Rightarrow> u32 \<Rightarrow> u32 \<Rightarrow> u64 \<Rightarrow> slot_scan ret" where
  [code]: "scan_slots m buf cb index needed off run run_start =
     (if \<not> off < cb then Some (Slot_Next run run_start)
      else let pos = ucast index * ucast cb + ucast off;
               start = (if run = 0 then pos else run_start)
           in if m (buf + ucast off) = 0 then Some (Slot_Extend start)
              else if m (buf + ucast off) = 0xE5
              then (if run + 1 = needed then Some (Slot_Found start)
                    else scan_slots m buf cb index needed (off + FAT_ENTRY) (run + 1) start)
              else scan_slots m buf cb index needed (off + FAT_ENTRY) 0 run_start)"

text \<open>The search over the clusters: \<open>None\<close> is a read error, and \<open>True\<close> with a position means the directory has to reach there.\<close>

partial_function (option) find_slots_loop ::
  "ptr \<Rightarrow> ptr \<Rightarrow> u32 \<Rightarrow> u32 \<Rightarrow> u32 \<Rightarrow> u64 \<Rightarrow> ('d, 'a) fat_state_scheme \<Rightarrow> ((bool \<times> u64) option \<times> ('d, 'a) fat_state_scheme) ret" where
  [code]: "find_slots_loop dn buf needed index run run_start s =
     (let fs = fn_fs (fat_nodes s dn); cb = fs_cluster_bytes (fats s fs)
      in do {
        (c, s1) \<leftarrow> fat_cluster_at dn index s;
        if c = 0 then Some (Some (True, if run = 0 then ucast index * ucast cb else run_start), s1)
        else do {
          (rc, s2) \<leftarrow> block_read (fs_dev (fats s1 fs)) (fat_lba (fats s1 fs) c) (fs_spc (fats s1 fs)) buf s1;
          if rc \<noteq> 0 then Some (None, s2)
          else do {
            r \<leftarrow> scan_slots (vfs_memory s2) buf cb index needed 0 run run_start;
            case r of
              Slot_Found pos \<Rightarrow> Some (Some (False, pos), s2)
            | Slot_Extend pos \<Rightarrow> Some (Some (True, pos), s2)
            | Slot_Next run' start' \<Rightarrow> find_slots_loop dn buf needed (index + 1) run' start' s2 } } })"

definition fat_find_slots :: "ptr \<Rightarrow> u32 \<Rightarrow> ('d, 'a) fat_state_scheme \<Rightarrow> (int \<times> ('d, 'a) fat_state_scheme) ret" where
  "fat_find_slots dn needed s =
     (let cb = fs_cluster_bytes (fats s (fn_fs (fat_nodes s dn)))
      in do {
        (buf, s1) \<leftarrow> vf_kmalloc (ucast cb) s;
        if buf = NULL then Some (- 1, s1)
        else do {
          (r, s2) \<leftarrow> find_slots_loop dn buf needed 0 0 0 s1;
          s3 \<leftarrow> vf_kfree buf s2;
          case r of
            None \<Rightarrow> Some (- 1, s3)
          | Some (ext, start) \<Rightarrow>
              if \<not> ext then Some (sint start, s3)
              else if cb = 0 then None
              else do { (rc, s4) \<leftarrow> fat_extend dn (ucast ((start + ucast (needed * FAT_ENTRY) + ucast cb - 1) div ucast cb)) True s3;
                        Some (if rc \<noteq> 0 then - 1 else sint start, s4) } } })"

text \<open>The long name entry \<open>seq\<close> of \<open>cnt\<close>, as the bytes of a \<^verbatim>\<open>FatLfn\<close>; the last one comes first on the disk.\<close>

definition lfn_char :: "string \<Rightarrow> nat \<Rightarrow> u16" where
  "lfn_char name at = (if at < length name then of_nat (of_char (name ! at)) else if at = length name then 0 else 0xFFFF)"

definition lfn_entry :: "string \<Rightarrow> nat \<Rightarrow> u8 \<Rightarrow> nat \<Rightarrow> u8 list" where
  "lfn_entry name cnt ck seq =
     (let cs = (\<lambda>i j. concat (map (\<lambda>k. le_bytes 2 (lfn_char name ((seq - 1) * FAT_LFN_CHARS + k))) [i..<j]))
      in [of_nat seq OR (if seq = cnt then 0x40 else 0)] @ cs 0 5 @ [FAT_ATTR_LFN, 0, ck] @ cs 5 11 @ [0, 0] @ cs 11 13)"

definition lfn_entries :: "string \<Rightarrow> nat \<Rightarrow> u8 \<Rightarrow> u8 list" where
  "lfn_entries name cnt ck = concat (map (lfn_entry name cnt ck) (rev [1..<Suc cnt]))"

definition ENTRIES_SIZE :: nat where "ENTRIES_SIZE = 192"

definition store_entry_fields :: "ptr \<Rightarrow> u32 \<Rightarrow> u32 \<Rightarrow> ('d, 'a) fat_state_scheme \<Rightarrow> ('d, 'a) fat_state_scheme" where
  "store_entry_fields e cluster sz s =
     set_vfs_memory (store_u32 (e + 28) sz (store_u16 (e + 26) (ucast cluster) (store_u16 (e + 20) (ucast (drop_bit 16 cluster)) (vfs_memory s)))) s"

definition fat_add_entry ::
  "ptr \<Rightarrow> ptr \<Rightarrow> string \<Rightarrow> u8 \<Rightarrow> u32 \<Rightarrow> u32 \<Rightarrow> ptr \<Rightarrow> ('d, 'a) fat_state_scheme \<Rightarrow> (int \<times> ('d, 'a) fat_state_scheme) ret" where
  "fat_add_entry stk dir name attr cluster sz fn s =
     (let dn = v_private_data (vnodes s dir); len = length name
      in if len = 0 \<or> len \<ge> VFS_NAME_MAX then Some (- 1, s)
         else do {
           short \<leftarrow> fat_make_short dir name s;
           case short of
             None \<Rightarrow> Some (- 1, s)
           | Some short_name \<Rightarrow>
               let cnt = (len + FAT_LFN_CHARS - 1) div FAT_LFN_CHARS; n = cnt + 1
               in do {
                 (pos, s1) \<leftarrow> fat_find_slots dn (of_nat n) s;
                 if pos < 0 then Some (- 1, s1)
                 else let entries = stk + 512; e = entries + of_nat (cnt * 32);
                          bytes = lfn_entries name cnt (fat_checksum short_name) @ short_name @ [attr];
                          s2 = store_at entries (overlay (replicate ENTRIES_SIZE 0) 0 bytes) s1
                      in do {
                        s3 \<leftarrow> fat_timestamp e True s2;
                        let s4 = store_entry_fields e cluster sz s3 in do {
                        (rc, s5) \<leftarrow> fat_io stk dn (of_int pos) entries (of_nat (n * 32)) True s4;
                        if rc \<noteq> int (n * 32) then Some (- 1, s5)
                        else Some (0, upd_fn fn (\<lambda>f. f\<lparr>fn_entry_offset := of_int pos + of_nat (cnt * 32), fn_lfn_count := of_nat cnt,
                                                        fn_short_name := short_name\<rparr>) s5) } } } })"

fun remove_loop :: "ptr \<Rightarrow> ptr \<Rightarrow> fat_node \<Rightarrow> nat list \<Rightarrow> ('d, 'a) fat_state_scheme \<Rightarrow> (int \<times> ('d, 'a) fat_state_scheme) ret" where
  "remove_loop stk dn f [] s = Some (0, s)"
| "remove_loop stk dn f (k # ks) s =
     do { (rc, s1) \<leftarrow> fat_io stk dn (ucast (fn_entry_offset f - of_nat k * FAT_ENTRY)) (stk + 512) 1 True s;
          if rc \<noteq> 1 then Some (- 1, s1) else remove_loop stk dn f ks s1 }"

text \<open>\<open>f\<close> is the structure the argument \<^verbatim>\<open>fn\<close> points to.\<close>

definition fat_remove_entry :: "ptr \<Rightarrow> ptr \<Rightarrow> fat_node \<Rightarrow> ('d, 'a) fat_state_scheme \<Rightarrow> (int \<times> ('d, 'a) fat_state_scheme) ret" where
  "fat_remove_entry stk dir f s =
     remove_loop stk (v_private_data (vnodes s dir)) f [0..<Suc (unat (fn_lfn_count f))] (store_at (stk + 512) [0xE5] s)"

definition fat_update_entry :: "ptr \<Rightarrow> ptr \<Rightarrow> ('d, 'a) fat_state_scheme \<Rightarrow> (int \<times> ('d, 'a) fat_state_scheme) ret" where
  "fat_update_entry stk node s =
     (let v = vnodes s node; fn = v_private_data v; dn = v_private_data (vnodes s (v_parent v)); e = stk + 512
      in if v_parent v = NULL then Some (0, s)
         else do {
           (rc, s1) \<leftarrow> fat_io stk dn (ucast (fn_entry_offset (fat_nodes s fn))) e 32 False s;
           if rc \<noteq> 32 then Some (- 1, s1)
           else do {
             s2 \<leftarrow> fat_timestamp e False
                    (store_entry_fields e (fn_cluster (fat_nodes s1 fn)) (if v_type v = VNODE_DIR then 0 else ucast (v_size v)) s1);
             (rc, s3) \<leftarrow> fat_io stk dn (ucast (fn_entry_offset (fat_nodes s2 fn))) e 32 True s2;
             Some (if rc = 32 then 0 else - 1, s3) } })"

definition fat_dot_entry :: "ptr \<Rightarrow> u8 list \<Rightarrow> u32 \<Rightarrow> ('d, 'a) fat_state_scheme \<Rightarrow> ('d, 'a) fat_state_scheme ret" where
  "fat_dot_entry e name cluster s =
     do { s1 \<leftarrow> fat_timestamp e True
                 (store_at e (overlay (replicate 32 0) 0 (overlay (replicate 11 32) 0 name @ [FAT_ATTR_DIR])) s);
          Some (set_vfs_memory (store_u16 (e + 26) (ucast cluster) (store_u16 (e + 20) (ucast (drop_bit 16 cluster)) (vfs_memory s1))) s1) }"

definition fat_dir_cluster :: "ptr \<Rightarrow> ('d, 'a) fat_state_scheme \<Rightarrow> u32" where
  "fat_dir_cluster dir s =
     (if v_parent (vnodes s dir) \<noteq> NULL then fn_cluster (fat_nodes s (v_private_data (vnodes s dir))) else 0)"

subsection \<open>The operations on nodes\<close>

definition fat_create_fail :: "ptr \<Rightarrow> ptr \<Rightarrow> ('d, 'a) fat_state_scheme \<Rightarrow> (ptr \<times> ('d, 'a) fat_state_scheme) ret" where
  "fat_create_fail fs fn s =
     do { s1 \<leftarrow> fat_free_chain fs (fn_cluster (fat_nodes s fn)) s;
          (rc, s2) \<leftarrow> fat_cache_flush fs s1;
          s3 \<leftarrow> vf_kfree fn s2;
          Some (NULL, s3) }"

text \<open>The first cluster of a new directory, with its two dot entries.\<close>

definition fat_create_dir ::
  "ptr \<Rightarrow> ptr \<Rightarrow> ptr \<Rightarrow> ptr \<Rightarrow> ('d, 'a) fat_state_scheme \<Rightarrow> (bool \<times> ('d, 'a) fat_state_scheme) ret" where
  "fat_create_dir stk fs fn dir s =
     do { (c, s1) \<leftarrow> fat_alloc fs 0 True s;
          let s2 = upd_fn fn (fn_cluster_update (\<lambda>_. c)) s1; dots = stk + 512
          in if c = 0 then Some (False, s2)
             else do {
               s3 \<leftarrow> fat_dot_entry dots [0x2E] c s2;
               s4 \<leftarrow> fat_dot_entry (dots + 32) [0x2E, 0x2E] (fat_dir_cluster dir s3) s3;
               (rc, s5) \<leftarrow> fat_io stk fn 0 dots 64 True s4;
               Some (rc = 64, s5) } }"

definition fat_create :: "ptr \<Rightarrow> ptr \<Rightarrow> string \<Rightarrow> vnode_type \<Rightarrow> ('d, 'a) fat_state_scheme \<Rightarrow> (ptr \<times> ('d, 'a) fat_state_scheme) ret" where
  "fat_create stk dir name ty s =
     (if ty \<noteq> VNODE_FILE \<and> ty \<noteq> VNODE_DIR then Some (NULL, s)
      else do {
        (old, s1) \<leftarrow> fat_lookup dir name s;
        if old \<noteq> NULL then Some (NULL, s1)
        else let fs = fn_fs (fat_nodes s1 (v_private_data (vnodes s1 dir))) in do {
          (fn, s2) \<leftarrow> vf_kcalloc 1 FAT_NODE_SIZE s1;
          if fn = NULL then Some (NULL, s2)
          else let s3 = upd_fn fn (\<lambda>_. fat_node_zero\<lparr>fn_fs := fs, fn_loaded := True\<rparr>) s2 in do {
            (ok, s4) \<leftarrow> (if ty = VNODE_DIR then fat_create_dir stk fs fn dir s3 else Some (True, s3));
            if \<not> ok then fat_create_fail fs fn s4
            else do {
              (rc, s5) \<leftarrow> fat_add_entry stk dir name (if ty = VNODE_DIR then FAT_ATTR_DIR else FAT_ATTR_ARCHIVE)
                           (fn_cluster (fat_nodes s4 fn)) 0 fn s4;
              if rc \<noteq> 0 then fat_create_fail fs fn s5
              else do {
                (n, s6) \<leftarrow> fat_new_vnode dir name ty 0 fn s5;
                if n = NULL then fat_create_fail fs fn s6
                else do { (rc, s7) \<leftarrow> fat_cache_flush fs s6; Some (n, s7) } } } } } })"

definition fat_read :: "ptr \<Rightarrow> ptr \<Rightarrow> ptr \<Rightarrow> u64 \<Rightarrow> u64 \<Rightarrow> ('d, 'a) fat_state_scheme \<Rightarrow> (int \<times> ('d, 'a) fat_state_scheme) ret" where
  "fat_read stk node buf cnt offset s =
     (let v = vnodes s node
      in if v_type v \<noteq> VNODE_FILE \<or> offset \<ge> v_size v then Some (0, s)
         else fat_io stk (v_private_data v) offset buf (if cnt < v_size v - offset then cnt else v_size v - offset) False s)"

definition fat_write :: "ptr \<Rightarrow> ptr \<Rightarrow> ptr \<Rightarrow> u64 \<Rightarrow> u64 \<Rightarrow> ('d, 'a) fat_state_scheme \<Rightarrow> (int \<times> ('d, 'a) fat_state_scheme) ret" where
  "fat_write stk node buf cnt offset s =
     (let fn = v_private_data (vnodes s node); f0 = fat_nodes s fn; fs = fn_fs f0;
          cb = (ucast (fs_cluster_bytes (fats s fs)) :: u64); end_pos = offset + cnt
      in if v_type (vnodes s node) \<noteq> VNODE_FILE then Some (- 1, s)
         else if cnt = 0 then Some (0, s)
         else if end_pos > 0xFFFFFFFF then Some (- 1, s)
         else if cb = 0 then None
         else do {
           (rc, s1) \<leftarrow> fat_extend fn (ucast ((end_pos + cb - 1) div cb)) False s;
           if rc \<noteq> 0 then do { (r, s2) \<leftarrow> fat_cache_flush fs s1; Some (- 1, s2) }
           else let s2 = (if fn_hint_cluster f0 \<noteq> 0 \<and> fn_cluster (fat_nodes s1 fn) = fn_cluster f0 \<and>
                             ucast (fn_hint_index f0) \<le> offset div cb
                          then set_hint fn (fn_hint_index f0) (fn_hint_cluster f0) s1 else s1) in do {
             (n, s3) \<leftarrow> fat_io stk fn offset buf cnt True s2;
             let s4 = (if n > 0 \<and> offset + of_int n > v_size (vnodes s3 node)
                       then upd_node node (v_size_update (\<lambda>_. offset + of_int n)) s3 else s3) in do {
             (r, s5) \<leftarrow> (if n > 0 \<or> fn_cluster (fat_nodes s4 fn) \<noteq> fn_cluster f0 then fat_update_entry stk node s4 else Some (0, s4));
             (r', s6) \<leftarrow> fat_cache_flush fs s5;
             Some (n, s6) } } })"

definition fat_detach :: "ptr \<Rightarrow> ('d, 'a) fat_state_scheme \<Rightarrow> ('d, 'a) fat_state_scheme ret" where
  "fat_detach node s =
     do { l \<leftarrow> seek_child (\<lambda>p. p = node) (Inl (v_parent (vnodes s node))) (vnodes s);
          let s1 = (if get_child l (vnodes s) \<noteq> NULL then set_child l (v_next_sibling (vnodes s node)) s else s)
          in Some (upd_node node (v_next_sibling_update (\<lambda>_. NULL)) s1) }"

definition fat_release_node :: "ptr \<Rightarrow> ('d, 'a) fat_state_scheme \<Rightarrow> ('d, 'a) fat_state_scheme ret" where
  "fat_release_node node s =
     (let fn = v_private_data (vnodes s node); fs = fn_fs (fat_nodes s fn)
      in do { s1 \<leftarrow> fat_free_chain fs (fn_cluster (fat_nodes s fn)) s;
              (rc, s2) \<leftarrow> fat_cache_flush fs s1;
              s3 \<leftarrow> vf_kfree fn s2;
              vf_kfree node s3 })"

definition fat_unlink :: "ptr \<Rightarrow> ptr \<Rightarrow> string \<Rightarrow> ('d, 'a) fat_state_scheme \<Rightarrow> (int \<times> ('d, 'a) fat_state_scheme) ret" where
  "fat_unlink stk dir name s =
     do { (node, s1) \<leftarrow> fat_lookup dir name s;
          if node = NULL then Some (- 1, s1)
          else do {
            s2 \<leftarrow> (if v_type (vnodes s1 node) = VNODE_DIR then fat_load_dir node s1 else Some s1);
            if v_type (vnodes s1 node) = VNODE_DIR \<and> v_first_child (vnodes s2 node) \<noteq> NULL then Some (- 1, s2)
            else let fn = v_private_data (vnodes s2 node) in do {
              (rc, s3) \<leftarrow> fat_remove_entry stk dir (fat_nodes s2 fn) s2;
              if rc \<noteq> 0 then Some (- 1, s3)
              else do {
                s4 \<leftarrow> fat_detach node s3;
                let s5 = upd_node node (v_parent_update (\<lambda>_. NULL)) s4
                in if v_open_count (vnodes s5 node) \<noteq> 0
                   then do { (rc, s6) \<leftarrow> fat_cache_flush (fn_fs (fat_nodes s5 fn)) (upd_node node (v_unlinked_update (\<lambda>_. True)) s5);
                             Some (0, s6) }
                   else do { s6 \<leftarrow> fat_release_node node s5; Some (0, s6) } } } } }"

definition fat_rename :: "ptr \<Rightarrow> ptr \<Rightarrow> ptr \<Rightarrow> string \<Rightarrow> ('d, 'a) fat_state_scheme \<Rightarrow> (int \<times> ('d, 'a) fat_state_scheme) ret" where
  "fat_rename stk node new_dir new_name s =
     (let v = vnodes s node; fn = v_private_data v; dn = v_private_data (vnodes s new_dir); old_parent = v_parent v
      in if old_parent = NULL \<or> fn_fs (fat_nodes s fn) \<noteq> fn_fs (fat_nodes s dn) \<or> v_type (vnodes s new_dir) \<noteq> VNODE_DIR
         then Some (- 1, s)
         else do {
           s1 \<leftarrow> fat_load_dir new_dir s;
           let old = fat_nodes s1 fn in do {
           (rc, s2) \<leftarrow> fat_add_entry stk new_dir new_name (if v_type v = VNODE_DIR then FAT_ATTR_DIR else FAT_ATTR_ARCHIVE)
                        (fn_cluster old) (ucast (v_size (vnodes s1 node))) fn s1;
           if rc \<noteq> 0 then Some (- 1, s2)
           else do {
             (rc, s3) \<leftarrow> fat_remove_entry stk old_parent old s2;
             s4 \<leftarrow> fat_detach node s3;
             let s5 = upd_node node (v_parent_update (\<lambda>_. new_dir)) s4 in do {
             l \<leftarrow> seek_child (\<lambda>_. False) (Inl new_dir) (vnodes s5);
             let s6 = upd_node node (v_name_update (\<lambda>_. node_name new_name)) (set_child l node s5) in do {
             s7 \<leftarrow> (if v_type v = VNODE_DIR \<and> old_parent \<noteq> new_dir
                    then do { s' \<leftarrow> fat_dot_entry (stk + 512) [0x2E, 0x2E] (fat_dir_cluster new_dir s6) s6;
                              (rc, s'') \<leftarrow> fat_io stk fn (ucast FAT_ENTRY) (stk + 512) 32 True s'; Some s'' }
                    else Some s6);
             (rc, s8) \<leftarrow> fat_cache_flush (fn_fs (fat_nodes s7 fn)) s7;
             Some (0, s8) } } } } })"

definition fat_ops :: "ptr \<Rightarrow> ('d, 'a) fat_state_scheme vnode_ops" where
  "fat_ops stk = \<lparr>op_lookup = Some fat_lookup, op_create = Some (fat_create stk), op_open = None,
     op_read = Some (fat_read stk), op_write = Some (fat_write stk), op_readdir = Some fat_readdir,
     op_unlink = Some (fat_unlink stk), op_rename = Some (fat_rename stk), op_release = Some fat_release_node\<rparr>"

subsection \<open>Mounting\<close>

text \<open>The checks on the boot sector at \<open>bs\<close> of device \<open>dev\<close>, and the fields they set.\<close>

definition boot_fields :: "mem \<Rightarrow> ptr \<Rightarrow> nat \<Rightarrow> u64 \<Rightarrow> fat32 \<Rightarrow> bool \<times> fat32" where
  "boot_fields m bs dev dev_sectors f =
     (let bps = load_u16 m (bs + 11); reserved = load_u16 m (bs + 14); root_entries = load_u16 m (bs + 17);
          total16 = load_u16 m (bs + 19); fat16 = load_u16 m (bs + 22); total32 = load_u32 m (bs + 32);
          fat_len = load_u32 m (bs + 36); root = load_u32 m (bs + 44); spc = m (bs + 13); nfats = m (bs + 16)
      in if bps \<noteq> 512 \<or> spc = 0 \<or> spc AND (spc - 1) \<noteq> 0 \<or> nfats = 0 \<or> root_entries \<noteq> 0 \<or> fat16 \<noteq> 0 \<or> fat_len = 0 then (False, f)
         else let tot = (if total16 \<noteq> 0 then ucast total16 else total32); data_start = ucast reserved + ucast nfats * fat_len;
                  by_size = (tot - data_start) div ucast spc; by_table = fat_len * 128 - 2
              in if tot \<le> data_start \<or> ucast tot > dev_sectors then (False, f)
                 else let f' = f\<lparr>fs_dev := Some dev, fs_spc := ucast spc, fs_cluster_bytes := ucast spc * 512, fs_fat_start := ucast reserved,
                             fs_fat_sectors := fat_len, fs_fat_count := ucast nfats, fs_data_start := data_start, fs_root_cluster := root,
                             fs_cluster_count := if by_size < by_table then by_size else by_table, fs_next_free := 2\<rparr>
                      in (fat_valid f' root, f'))"

definition fat_parse_boot ::
  "nat \<Rightarrow> ptr \<Rightarrow> fat32 \<Rightarrow> ('d, 'a) fat_state_scheme \<Rightarrow> ((bool \<times> fat32) \<times> ('d, 'a) fat_state_scheme) ret" where
  "fat_parse_boot dev bs f s =
     do { (rc, s1) \<leftarrow> block_read (Some dev) 0 1 bs s;
          let m = vfs_memory s1
          in if rc \<noteq> 0 \<or> m (bs + 510) \<noteq> 0x55 \<or> m (bs + 511) \<noteq> 0xAA then Some ((False, f), s1)
             else Some (boot_fields m bs dev (bd_sectors (device dev s1)) f, s1) }"

definition label_bytes :: "string \<Rightarrow> u8 list" where
  "label_bytes label = take 11 (map (\<lambda>c. of_nat (of_char c)) label @ replicate 11 32)"

definition fat32_has_label :: "ptr \<Rightarrow> nat \<Rightarrow> string \<Rightarrow> ('d, 'a) fat_state_scheme \<Rightarrow> (bool \<times> ('d, 'a) fat_state_scheme) ret" where
  "fat32_has_label stk dev label s =
     do { ((ok, f), s1) \<leftarrow> fat_parse_boot dev stk fat32_zero s;
          Some (ok \<and> bytes_at (vfs_memory s1) (stk + 71) 11 = label_bytes label, s1) }"

definition fat32_mount :: "ptr \<Rightarrow> nat \<Rightarrow> ('d, 'a) fat_state_scheme \<Rightarrow> (ptr \<times> ('d, 'a) fat_state_scheme) ret" where
  "fat32_mount stk dev s =
     do { (fs, s1) \<leftarrow> vf_kcalloc 1 FAT32_SIZE s;
          (fn, s2) \<leftarrow> vf_kcalloc 1 FAT_NODE_SIZE s1;
          ((ok, f), s3) \<leftarrow> (if fs = NULL \<or> fn = NULL then Some ((False, fat32_zero), s2) else fat_parse_boot dev stk fat32_zero s2);
          if \<not> ok then do { s4 \<leftarrow> vf_kfree fs s3; s5 \<leftarrow> vf_kfree fn s4; Some (NULL, s5) }
          else let s4 = upd_fn fn (\<lambda>_. fat_node_zero\<lparr>fn_fs := fs, fn_cluster := fs_root_cluster f\<rparr>) (upd_fs fs (\<lambda>_. f) s3) in do {
            (root, s5) \<leftarrow> fat_new_vnode NULL [slash] VNODE_DIR 0 fn s4;
            if root = NULL then do { s6 \<leftarrow> vf_kfree fs s5; s7 \<leftarrow> vf_kfree fn s6; Some (NULL, s7) }
            else Some (root, upd_device dev (bd_mounts_update (\<lambda>n. n + 1)) s5) } }"

definition fat32_is_root :: "ptr \<Rightarrow> ('d, 'a) fat_state_scheme \<Rightarrow> bool" where
  "fat32_is_root node s \<longleftrightarrow> node \<noteq> NULL \<and> v_ops (vnodes s node) = Some FAT_OPS \<and> v_parent (vnodes s node) = NULL \<and> \<not> v_unlinked (vnodes s node)"

definition fat32_owns :: "ptr \<Rightarrow> ptr \<Rightarrow> ('d, 'a) fat_state_scheme \<Rightarrow> bool" where
  "fat32_owns root node s \<longleftrightarrow> fat32_is_root root s \<and> node \<noteq> NULL \<and> v_ops (vnodes s node) = Some FAT_OPS \<and>
     fn_fs (fat_nodes s (v_private_data (vnodes s node))) = fn_fs (fat_nodes s (v_private_data (vnodes s root)))"

text \<open>The nodes from \<open>c\<close> on in the list of a directory, each after the nodes below it.\<close>

partial_function (option) release_from :: "ptr \<Rightarrow> ('d, 'a) fat_state_scheme \<Rightarrow> ('d, 'a) fat_state_scheme ret" where
  [code]: "release_from c s =
     (if c = NULL then Some s
      else let nx = v_next_sibling (vnodes s c)
           in do { s1 \<leftarrow> release_from (v_first_child (vnodes s c)) s;
                   s2 \<leftarrow> vf_kfree (v_private_data (vnodes s1 c)) s1;
                   s3 \<leftarrow> vf_kfree c s2;
                   release_from nx s3 })"

definition fat_release :: "ptr \<Rightarrow> ('d, 'a) fat_state_scheme \<Rightarrow> ('d, 'a) fat_state_scheme ret" where
  "fat_release node s =
     do { s1 \<leftarrow> release_from (v_first_child (vnodes s node)) s;
          s2 \<leftarrow> vf_kfree (v_private_data (vnodes s1 node)) s1;
          vf_kfree node s2 }"

definition fat32_unmount :: "ptr \<Rightarrow> ('d, 'a) fat_state_scheme \<Rightarrow> (int \<times> ('d, 'a) fat_state_scheme) ret" where
  "fat32_unmount root s =
     (if \<not> fat32_is_root root s then Some (- 1, s)
      else let fs = fn_fs (fat_nodes s (v_private_data (vnodes s root))); dev = fs_dev (fats s fs)
           in do { (rc, s1) \<leftarrow> fat_cache_flush fs s;
                   (rc, s2) \<leftarrow> block_flush dev s1;
                   case dev of
                     None \<Rightarrow> None
                   | Some d \<Rightarrow>
                       do { s3 \<leftarrow> fat_release root (upd_device d (bd_mounts_update (\<lambda>n. n - 1)) s2);
                            s4 \<leftarrow> vf_kfree fs s3;
                            Some (0, s4) } })"

subsection \<open>Formatting\<close>

partial_function (option) fat_zero_range ::
  "nat \<Rightarrow> u64 \<Rightarrow> u64 \<Rightarrow> ptr \<Rightarrow> ('d, 'a) fat_state_scheme \<Rightarrow> (int \<times> ('d, 'a) fat_state_scheme) ret" where
  [code]: "fat_zero_range dev lba cnt zero s =
     (if cnt = 0 then Some (0, s)
      else let n = (ucast (if cnt < ucast BLOCK_MAX_TRANSFER then cnt else ucast BLOCK_MAX_TRANSFER) :: u32)
           in do { (rc, s1) \<leftarrow> block_write (Some dev) lba n zero s;
                   if rc \<noteq> 0 then Some (- 1, s1) else fat_zero_range dev (lba + ucast n) (cnt - ucast n) zero s1 })"

text \<open>The sectors of a new file system; \<open>hidden\<close> is the start of the partition, \<open>serial\<close> the random volume number.\<close>

definition boot_sector :: "u8 \<Rightarrow> u32 \<Rightarrow> u32 \<Rightarrow> u32 \<Rightarrow> u32 \<Rightarrow> string \<Rightarrow> u8 list" where
  "boot_sector spc hidden tot fat_sectors serial label =
     [0xEB, 0x58, 0x90] @ map (\<lambda>c. of_nat (of_char c)) ''MSWIN4.1'' @ le_bytes 2 (512 :: u16) @ [spc] @ le_bytes 2 (32 :: u16) @ [2] @
     replicate 4 0 @ [0xF8, 0, 0] @ le_bytes 2 (63 :: u16) @ le_bytes 2 (255 :: u16) @ le_bytes 4 hidden @ le_bytes 4 tot @
     le_bytes 4 fat_sectors @ replicate 4 0 @ le_bytes 4 (2 :: u32) @ le_bytes 2 (1 :: u16) @ le_bytes 2 (6 :: u16) @ replicate 12 0 @
     [0x80, 0, 0x29] @ le_bytes 4 serial @ label_bytes label @ map (\<lambda>c. of_nat (of_char c)) ''FAT32   '' @ replicate 420 0 @ [0x55, 0xAA]"

definition info_sector :: "u8 list" where
  "info_sector = le_bytes 4 (0x41615252 :: u32) @ replicate 480 0 @ le_bytes 4 (0x61417272 :: u32) @ le_bytes 4 (0xFFFFFFFF :: u32) @
     le_bytes 4 (0xFFFFFFFF :: u32) @ replicate 12 0 @ le_bytes 4 (0xAA550000 :: u32)"

definition first_fat_sector :: "u8 list" where
  "first_fat_sector = le_bytes 4 (0x0FFFFFF8 :: u32) @ le_bytes 4 (0x0FFFFFFF :: u32) @ le_bytes 4 (0x0FFFFFFF :: u32) @ replicate 500 0"

text \<open>Writes of one sector each from given places in the memory; the first failure ends them.\<close>

fun write_sectors :: "nat \<Rightarrow> (u64 \<times> ptr) list \<Rightarrow> ('d, 'a) fat_state_scheme \<Rightarrow> (int \<times> ('d, 'a) fat_state_scheme) ret" where
  "write_sectors dev [] s = Some (0, s)"
| "write_sectors dev ((lba, buf) # ws) s =
     do { (rc, s1) \<leftarrow> block_write (Some dev) lba 1 buf s; if rc \<noteq> 0 then Some (- 1, s1) else write_sectors dev ws s1 }"

definition format_spc :: "u64 \<Rightarrow> u32" where
  "format_spc tot = (if tot \<le> 532480 then 1 else if tot \<le> 16777216 then 8 else if tot \<le> 33554432 then 16
     else if tot \<le> 67108864 then 32 else 64)"

definition format_fat_sectors :: "u64 \<Rightarrow> u32" where
  "format_fat_sectors tot = (let tmp = (256 * format_spc tot + 2) div 2 in ucast ((tot - 32 + ucast tmp - 1) div ucast tmp))"

text \<open>Everything after the allocation of \<open>zero\<close>; \<^verbatim>\<open>bs\<close>, \<^verbatim>\<open>info\<close>, \<^verbatim>\<open>fat\<close> and \<^verbatim>\<open>root\<close> are the four
  sectors at \<open>stk\<close>.\<close>

definition format_write ::
  "ptr \<Rightarrow> nat \<Rightarrow> string \<Rightarrow> u64 \<Rightarrow> ptr \<Rightarrow> ('d, 'a) fat_state_scheme \<Rightarrow> (int \<times> ('d, 'a) fat_state_scheme) ret" where
  "format_write stk dev label tot zero s =
     (let spc = format_spc tot; fat_sectors = format_fat_sectors tot; data_start = (32 + 2 * fat_sectors :: u32)
      in do {
        (rc, s1) \<leftarrow> fat_zero_range dev 0 (ucast data_start) zero s;
        if rc \<noteq> 0 then Some (- 1, s1) else do {
        (rc, s2) \<leftarrow> fat_zero_range dev (ucast data_start) (ucast spc) zero s1;
        if rc \<noteq> 0 then Some (- 1, s2) else
        let (rnd, s3) = block_random s2;
            bs = boot_sector (ucast spc) (ucast (bd_offset (device dev s3))) (ucast tot) fat_sectors (ucast rnd) label;
            s4 = store_at (stk + 512) info_sector (store_at stk bs s3) in do {
        (rc, s5) \<leftarrow> write_sectors dev [(0, stk), (1, stk + 512), (6, stk), (7, stk + 512)] s4;
        if rc \<noteq> 0 then Some (- 1, s5) else do {
        (rc, s6) \<leftarrow> write_sectors dev [(32, stk + 1024), (ucast (32 + fat_sectors), stk + 1024)] (store_at (stk + 1024) first_fat_sector s5);
        if rc \<noteq> 0 then Some (- 1, s6) else do {
        s7 \<leftarrow> fat_timestamp (stk + 1536) True
                (store_at (stk + 1536) (overlay (replicate 512 0) 0 (label_bytes label @ [FAT_ATTR_VOLUME])) s6);
        (rc, s8) \<leftarrow> block_write (Some dev) (ucast data_start) 1 (stk + 1536) s7;
        if rc \<noteq> 0 then Some (- 1, s8) else block_flush (Some dev) s8 } } } } })"

definition fat32_format :: "ptr \<Rightarrow> nat \<Rightarrow> string \<Rightarrow> ('d, 'a) fat_state_scheme \<Rightarrow> (int \<times> ('d, 'a) fat_state_scheme) ret" where
  "fat32_format stk dev label s =
     (let sectors = bd_sectors (device dev s); tot = (if sectors < 0xFFFFFFFF then sectors else 0xFFFFFFFF);
          data_start = (ucast (32 + 2 * format_fat_sectors tot :: u32) :: u64)
      in if tot \<le> data_start \<or> (tot - data_start) div ucast (format_spc tot) < 65525 then Some (- 1, s)
         else do { (zero, s1) \<leftarrow> vf_kcalloc (ucast BLOCK_MAX_TRANSFER) BLOCK_SECTOR_SIZE s;
                   if zero = NULL then Some (- 1, s1)
                   else do { (rc, s2) \<leftarrow> format_write stk dev label tot zero s1; s3 \<leftarrow> vf_kfree zero s2; Some (rc, s3) } })"

end
