(* ===== verification/FatTable.thy ===== *)
theory FatTable
  imports Fat32
begin

text \<open>
  The allocation table of a FAT file system as a function from clusters to entries: what the operations of
  \<open>Fat32\<close> on the one-sector cache, on the copies of the table on the disk and on chains of clusters do to
  it, on a disk whose transfers may fail.
\<close>

text \<open>A volume: a device that is a disk or a partition, and the disk's contents in the state of its driver.\<close>

record 'd volume =
  vol_disk :: "'d \<Rightarrow> u64 \<Rightarrow> u8 list"
  vol_dev :: nat
  vol_root :: nat
  vol_off :: u64

definition vol_ok :: "'d volume \<Rightarrow> ('d, 'a) block_state_scheme \<Rightarrow> bool" where
  "vol_ok V s \<longleftrightarrow> on_disk (vol_dev V) (vol_root V) (vol_off V) s \<and> disk_driver (vol_disk V) (device (vol_root V) s) \<and> block_bounce s \<noteq> NULL"

definition vol_sector :: "'d volume \<Rightarrow> ('d, 'a) block_state_scheme \<Rightarrow> nat \<Rightarrow> u8 list" where
  "vol_sector V s l = vol_disk V (drv s) (of_nat l + vol_off V)"

definition vol_size :: "'d volume \<Rightarrow> ('d, 'a) block_state_scheme \<Rightarrow> nat" where
  "vol_size V s = unat (bd_sectors (device (vol_dev V) s))"

text \<open>A disk whose transfers never fail.\<close>

definition reliable :: "'d volume \<Rightarrow> ('d, 'a) block_state_scheme \<Rightarrow> bool" where
  "reliable V s \<longleftrightarrow> (\<forall>lba n buf w dm rc dm'. driver_io (device (vol_root V) s) lba n buf w dm = Some (rc, dm') \<longrightarrow> rc = 0)"

text \<open>The layout of the file system: the copies of the table, then the clusters, all inside the device; every
  cluster has an entry in the table, and its number is not the end mark.\<close>

definition fat_layout :: "fat32 \<Rightarrow> nat \<Rightarrow> bool" where
  "fat_layout f n \<longleftrightarrow> 0 < unat (fs_fat_count f) \<and>
     unat (fs_fat_start f) + unat (fs_fat_count f) * unat (fs_fat_sectors f) \<le> unat (fs_data_start f) \<and>
     unat (fs_data_start f) + unat (fs_cluster_count f) * unat (fs_spc f) \<le> n \<and>
     unat (fs_data_start f) + unat (fs_cluster_count f) * unat (fs_spc f) < 2 ^ 32 \<and>
     unat (fs_cluster_count f) + 2 \<le> 128 * unat (fs_fat_sectors f) \<and> unat (fs_cluster_count f) + 2 \<le> 0x0FFFFFFF \<and>
     0 < unat (fs_spc f) \<and> unat (fs_spc f) \<le> 128 \<and> fs_cluster_bytes f = fs_spc f * 512"

text \<open>Sector \<open>k\<close> of copy \<open>i\<close> of the table, as a sector of the device.\<close>

definition copy_sector :: "fat32 \<Rightarrow> nat \<Rightarrow> nat \<Rightarrow> nat" where
  "copy_sector f i k = unat (fs_fat_start f) + i * unat (fs_fat_sectors f) + k"

definition in_table :: "fat32 \<Rightarrow> nat \<Rightarrow> bool" where
  "in_table f l \<longleftrightarrow> unat (fs_fat_start f) \<le> l \<and> l < unat (fs_fat_start f) + unat (fs_fat_count f) * unat (fs_fat_sectors f)"

definition cached :: "ptr \<Rightarrow> ('d, 'a) fat_state_scheme \<Rightarrow> nat \<Rightarrow> bool" where
  "cached fs s k \<longleftrightarrow> fs_cache_valid (fats s fs) \<and> unat (fs_cache_sector (fats s fs)) = k"

definition cache_bytes :: "ptr \<Rightarrow> ('d, 'a) fat_state_scheme \<Rightarrow> u8 list" where
  "cache_bytes fs s = bytes_at (vfs_memory s) (fat_cache fs) 512"

definition fat_inv :: "'d volume \<Rightarrow> ptr \<Rightarrow> ('d, 'a) fat_state_scheme \<Rightarrow> bool" where
  "fat_inv V fs s \<longleftrightarrow> vol_ok V s \<and> fs_dev (fats s fs) = Some (vol_dev V) \<and> fat_layout (fats s fs) (vol_size V s) \<and>
     apart (fat_cache fs) 512 (block_bounce s) 65536 \<and>
     (fs_cache_valid (fats s fs) \<longrightarrow> fs_cache_sector (fats s fs) < fs_fat_sectors (fats s fs)) \<and>
     (fs_cache_dirty (fats s fs) \<longrightarrow> fs_cache_valid (fats s fs)) \<and>
     (fs_cache_valid (fats s fs) \<and> \<not> fs_cache_dirty (fats s fs) \<longrightarrow>
        cache_bytes fs s = vol_sector V s (copy_sector (fats s fs) 0 (unat (fs_cache_sector (fats s fs)))))"

text \<open>The table: the cached sector where there is one, the first copy on the disk elsewhere.\<close>

definition table_sector :: "'d volume \<Rightarrow> ptr \<Rightarrow> ('d, 'a) fat_state_scheme \<Rightarrow> nat \<Rightarrow> u8 list" where
  "table_sector V fs s k = (if cached fs s k then cache_bytes fs s else vol_sector V s (copy_sector (fats s fs) 0 k))"

definition word_of :: "u8 list \<Rightarrow> u32" where
  "word_of bs = foldr (\<lambda>b w. ucast b OR push_bit 8 w) bs 0"

definition fat_raw :: "'d volume \<Rightarrow> ptr \<Rightarrow> ('d, 'a) fat_state_scheme \<Rightarrow> nat \<Rightarrow> u32" where
  "fat_raw V fs s c = (if c < 128 * unat (fs_fat_sectors (fats s fs))
     then word_of (take 4 (drop (4 * (c mod 128)) (table_sector V fs s (c div 128)))) else 0)"

definition fat_tab :: "'d volume \<Rightarrow> ptr \<Rightarrow> ('d, 'a) fat_state_scheme \<Rightarrow> u32 \<Rightarrow> u32" where
  "fat_tab V fs s c = fat_raw V fs s (unat c) AND FAT_MASK"

text \<open>What an operation on the table may change: the memory of the cache and of the bounce buffer, the
  sectors of the table, the fields of the cache and the next free cluster.\<close>

definition fat_upd :: "mem \<Rightarrow> 'd \<Rightarrow> ptr \<Rightarrow> fat32 \<Rightarrow> ('d, 'a) fat_state_scheme \<Rightarrow> ('d, 'a) fat_state_scheme" where
  "fat_upd m d fs f s = set_vfs_memory m (s\<lparr>drv := d, fats := (fats s)(fs := f)\<rparr>)"

definition geometry :: "fat32 \<Rightarrow> fat32" where
  "geometry f = f\<lparr>fs_next_free := 0, fs_cache_sector := 0, fs_cache_valid := False, fs_cache_dirty := False\<rparr>"

text \<open>The search for a free cluster starts inside the volume, or just behind its last cluster.\<close>

definition next_free_ok :: "fat32 \<Rightarrow> bool" where
  "next_free_ok f \<longleftrightarrow> fs_cluster_count f \<noteq> 0 \<and> 2 \<le> unat (fs_next_free f) \<and> unat (fs_next_free f) \<le> unat (fs_cluster_count f) + 2"

definition fat_step :: "'d volume \<Rightarrow> ptr \<Rightarrow> ('d, 'a) fat_state_scheme \<Rightarrow> ('d, 'a) fat_state_scheme \<Rightarrow> bool" where
  "fat_step V fs s s' \<longleftrightarrow> fat_inv V fs s' \<and> (\<exists>m d f. s' = fat_upd m d fs f s \<and> geometry f = geometry (fats s fs) \<and>
     (next_free_ok (fats s fs) \<longrightarrow> next_free_ok f) \<and>
     (\<forall>a. \<not> unat (a - block_bounce s) < 65536 \<longrightarrow> \<not> unat (a - fat_cache fs) < 512 \<longrightarrow> m a = vfs_memory s a) \<and>
     (\<forall>l < 2 ^ 32. \<not> in_table (fats s fs) l \<longrightarrow> vol_disk V d (of_nat l + vol_off V) = vol_sector V s l))"

subsection \<open>Facts about the state\<close>

lemma fat_upd_simps [simp]:
  "fats (fat_upd m d fs f s) = (fats s)(fs := f)" "cmos (fat_upd m d fs f s) = cmos s" "vfs_memory (fat_upd m d fs f s) = m" "drv (fat_upd m d fs f s) = d"
  "device i (fat_upd m d fs f s) = device i s" "block_bounce (fat_upd m d fs f s) = block_bounce s"
  "vol_ok V (fat_upd m d fs f s) = vol_ok V s" "vol_size V (fat_upd m d fs f s) = vol_size V s"
  "vol_sector V (fat_upd m d fs f s) l = vol_disk V d (of_nat l + vol_off V)"
  "fat_nodes (fat_upd m d fs f s) = fat_nodes s" "vnodes (fat_upd m d fs f s) = vnodes s"
  "cache_bytes fs' (fat_upd m d fs f s) = bytes_at m (fat_cache fs') 512" "reliable V (fat_upd m d fs f s) = reliable V s"
  "fat_upd m' d' fs f' (fat_upd m d fs f s) = fat_upd m' d' fs f' s"
  by (simp_all add: fat_upd_def set_vfs_memory_def vfs_memory_def device_def vol_ok_def vol_size_def vol_sector_def on_disk_def cache_bytes_def reliable_def)

lemma fat_upd_id: "fat_upd (vfs_memory s) (drv s) fs (fats s fs) s = s"
  by (simp add: fat_upd_def set_vfs_memory_def vfs_memory_def)

lemma io_fat_upd: "set_vfs_memory m (s\<lparr>drv := d\<rparr>) = fat_upd m d fs (fats s fs) s"
  by (simp add: fat_upd_def set_vfs_memory_def)

lemma upd_fs_fat_upd: "upd_fs fs g (fat_upd m d fs f s) = fat_upd m d fs (g f) s"
  by (simp add: fat_upd_def upd_fs_def set_vfs_memory_def)

lemma upd_fs_upd: "upd_fs fs g s = fat_upd (vfs_memory s) (drv s) fs (g (fats s fs)) s"
  by (simp add: fat_upd_def upd_fs_def set_vfs_memory_def vfs_memory_def)

lemma geometry_fields:
  assumes "geometry f = geometry g"
  shows "fs_dev f = fs_dev g" "fs_spc f = fs_spc g" "fs_cluster_bytes f = fs_cluster_bytes g" "fs_fat_start f = fs_fat_start g"
    "fs_fat_sectors f = fs_fat_sectors g" "fs_fat_count f = fs_fat_count g" "fs_data_start f = fs_data_start g"
    "fs_root_cluster f = fs_root_cluster g" "fs_cluster_count f = fs_cluster_count g"
  using assms unfolding geometry_def by (cases f; cases g; simp)+

lemma geometry_cong:
  assumes "geometry f = geometry g"
  shows "fat_layout f n = fat_layout g n" "copy_sector f = copy_sector g" "in_table f = in_table g" "fat_valid f = fat_valid g"
    "fat_lba f = fat_lba g"
  by (intro ext | simp add: geometry_fields [OF assms] fat_layout_def copy_sector_def in_table_def fat_valid_def fat_lba_def)+

lemma next_free_ok_cache [simp]:
  "next_free_ok (f\<lparr>fs_cache_sector := a\<rparr>) = next_free_ok f" "next_free_ok (f\<lparr>fs_cache_valid := b\<rparr>) = next_free_ok f"
  "next_free_ok (f\<lparr>fs_cache_dirty := c\<rparr>) = next_free_ok f"
  by (simp_all add: next_free_ok_def)

lemma geometry_cache [simp]:
  "geometry (f\<lparr>fs_cache_sector := a\<rparr>) = geometry f" "geometry (f\<lparr>fs_cache_valid := b\<rparr>) = geometry f"
  "geometry (f\<lparr>fs_cache_dirty := c\<rparr>) = geometry f" "geometry (f\<lparr>fs_next_free := d\<rparr>) = geometry f"
  by (simp_all add: geometry_def)

lemmas geometry_cong_cache [simp] = geometry_cong [OF geometry_cache(1)] geometry_cong [OF geometry_cache(2)]
  geometry_cong [OF geometry_cache(3)] geometry_cong [OF geometry_cache(4)]

lemma fat_step_refl: "fat_inv V fs s \<Longrightarrow> fat_step V fs s s"
  unfolding fat_step_def
  by (intro conjI exI [of _ "vfs_memory s"] exI [of _ "drv s"] exI [of _ "fats s fs"]) (simp_all add: fat_upd_id vol_sector_def)

lemma fat_step_trans:
  assumes "fat_step V fs s s1" and "fat_step V fs s1 s2"
  shows "fat_step V fs s s2"
proof -
  from assms(1) obtain m d f where 1: "s1 = fat_upd m d fs f s" "geometry f = geometry (fats s fs)" "next_free_ok (fats s fs) \<longrightarrow> next_free_ok f"
    "\<forall>a. \<not> unat (a - block_bounce s) < 65536 \<longrightarrow> \<not> unat (a - fat_cache fs) < 512 \<longrightarrow> m a = vfs_memory s a"
    "\<forall>l < 2 ^ 32. \<not> in_table (fats s fs) l \<longrightarrow> vol_disk V d (of_nat l + vol_off V) = vol_sector V s l"
    unfolding fat_step_def by blast
  from assms(2) obtain m' d' f' where 2: "s2 = fat_upd m' d' fs f' s1" "geometry f' = geometry (fats s1 fs)" "next_free_ok (fats s1 fs) \<longrightarrow> next_free_ok f'"
    "\<forall>a. \<not> unat (a - block_bounce s1) < 65536 \<longrightarrow> \<not> unat (a - fat_cache fs) < 512 \<longrightarrow> m' a = vfs_memory s1 a"
    "\<forall>l < 2 ^ 32. \<not> in_table (fats s1 fs) l \<longrightarrow> vol_disk V d' (of_nat l + vol_off V) = vol_sector V s1 l"
    unfolding fat_step_def by blast
  have i: "fat_inv V fs s2" using assms(2) by (simp add: fat_step_def)
  show ?thesis
    unfolding fat_step_def
    by (rule conjI [OF i], rule exI [of _ m'], rule exI [of _ d'], rule exI [of _ f'])
      (use 1 2 geometry_cong(3) [OF 1(2)] in simp)
qed

lemma fat_step_inv: "fat_step V fs s s' \<Longrightarrow> fat_inv V fs s'"
  by (simp add: fat_step_def)

lemma fat_step_geometry: "fat_step V fs s s' \<Longrightarrow> geometry (fats s' fs) = geometry (fats s fs)"
  by (auto simp: fat_step_def)

lemma fat_step_keeps:
  assumes "fat_step V fs s s'"
  shows "fat_nodes s' = fat_nodes s" "vnodes s' = vnodes s" "block_bounce s' = block_bounce s" "fat_valid (fats s' fs) = fat_valid (fats s fs)"
    "fs_cluster_count (fats s' fs) = fs_cluster_count (fats s fs)"
  using assms geometry_cong(4) [OF fat_step_geometry [OF assms]] geometry_fields(9) [OF fat_step_geometry [OF assms]]
  by (auto simp: fat_step_def)

subsection \<open>The sectors of the table\<close>

lemma copy_sector_bound:
  assumes "fat_layout f n" and "i < unat (fs_fat_count f)" and "k < unat (fs_fat_sectors f)"
  shows "copy_sector f i k < unat (fs_fat_start f) + unat (fs_fat_count f) * unat (fs_fat_sectors f)" "copy_sector f i k < n"
    "copy_sector f i k < 2 ^ 32" "in_table f (copy_sector f i k)"
proof -
  have "i * unat (fs_fat_sectors f) + unat (fs_fat_sectors f) = Suc i * unat (fs_fat_sectors f)" by simp
  also have "\<dots> \<le> unat (fs_fat_count f) * unat (fs_fat_sectors f)" using assms(2) by (intro mult_le_mono1) simp
  finally show b: "copy_sector f i k < unat (fs_fat_start f) + unat (fs_fat_count f) * unat (fs_fat_sectors f)"
    using assms(3) by (simp add: copy_sector_def)
  then show "copy_sector f i k < n" "copy_sector f i k < 2 ^ 32"
    using assms(1) unat_lt_32 [of "fs_data_start f"] unfolding fat_layout_def by linarith+
  show "in_table f (copy_sector f i k)" using b by (simp add: in_table_def copy_sector_def)
qed

lemma copy_sector_word:
  assumes "fat_layout f n" and "i < unat (fs_fat_count f)" and "k < fs_fat_sectors f"
  shows "(ucast (fs_fat_start f + of_nat i * fs_fat_sectors f + k) :: u64) = of_nat (copy_sector f i (unat k))"
    "unat (of_nat (copy_sector f i (unat k)) :: u64) + unat (1 :: u32) \<le> n"
proof -
  have k: "unat k < unat (fs_fat_sectors f)" using assms(3) by (simp add: word_less_nat_alt)
  note b = copy_sector_bound [OF assms(1,2) k]
  have "fs_fat_start f + of_nat i * fs_fat_sectors f + k = of_nat (copy_sector f i (unat k))" by (simp add: copy_sector_def)
  then have u: "unat (fs_fat_start f + of_nat i * fs_fat_sectors f + k) = copy_sector f i (unat k)"
    using unat_of_nat_small [of "copy_sector f i (unat k)", where 'a = 32] b(3) by simp
  show "(ucast (fs_fat_start f + of_nat i * fs_fat_sectors f + k) :: u64) = of_nat (copy_sector f i (unat k))"
    unfolding u [symmetric] by simp
  have "unat (of_nat (copy_sector f i (unat k)) :: u64) = copy_sector f i (unat k)" by (rule unat_of_nat_small) (use b(3) in simp)
  then show "unat (of_nat (copy_sector f i (unat k)) :: u64) + unat (1 :: u32) \<le> n" using b(2) by simp
qed

lemma of_nat_sector_inj:
  assumes "(of_nat l :: u64) + o1 = of_nat l' + o1" and "l < 2 ^ 32" and "l' < 2 ^ 32"
  shows "l = l'"
proof -
  have "(of_nat l :: u64) = of_nat l'" using assms(1) by simp
  then have "unat (of_nat l :: u64) = unat (of_nat l' :: u64)" by simp
  moreover have "unat (of_nat l :: u64) = l" "unat (of_nat l' :: u64) = l'"
    by (rule unat_of_nat_small; use assms(2,3) in simp)+
  ultimately show ?thesis by simp
qed

lemma sector_at_0: "sector_at m p 0 = bytes_at m p 512"
  by (simp add: sector_at_def)

lemma io_loop_reliable:
  assumes "\<And>lba n buf w dm rc dm'. driver_io dev lba n buf w dm = Some (rc, dm') \<Longrightarrow> rc = 0"
    and "io_loop dev bounce w p lba cnt dm = Some (rc, dm')"
  shows "rc = 0"
  using assms(2)
proof (induction "unat cnt" arbitrary: cnt p lba dm rule: less_induct)
  case less
  show ?case
  proof (cases "cnt = 0")
    case True
    then show ?thesis using less.prems by (simp add: io_loop.simps)
  next
    case False
    define n where "n = (if cnt < BLOCK_MAX_TRANSFER then cnt else BLOCK_MAX_TRANSFER)"
    obtain rc0 d2 m2 where io: "driver_io dev lba n bounce w (fst dm, if w then memcpy bounce p (ucast n * BLOCK_SECTOR_SIZE) (snd dm) else snd dm) = Some (rc0, d2, m2)"
      and r: "(if rc0 \<noteq> 0 then Some (- 1, d2, m2) else io_loop dev bounce w (p + ucast n * BLOCK_SECTOR_SIZE) (lba + ucast n) (cnt - n)
         (d2, if w then m2 else memcpy p bounce (ucast n * BLOCK_SECTOR_SIZE) m2)) = Some (rc, dm')"
      using less.prems False by (subst (asm) io_loop.simps) (auto simp: Let_def n_def [symmetric] bind_eq_Some_conv)
    have "rc0 = 0" by (rule assms(1) [OF io])
    then show ?thesis using less.hyps [OF chunk_facts(6) [OF False n_def]] r by simp
  qed
qed

lemma block_io_reliable:
  assumes "reliable V s" and "vol_ok V s" and "block_root_io (Some (vol_dev V)) lba cnt buf w s = Some (rc, s')"
    and "cnt \<noteq> 0" and "unat lba + unat cnt \<le> unat (bd_sectors (device (vol_dev V) s))"
  shows "rc = 0"
proof -
  have r: "\<And>lba n buf w dm rc dm'. driver_io (device (vol_root V) s) lba n buf w dm = Some (rc, dm') \<Longrightarrow> rc = 0"
    using assms(1) unfolding reliable_def by blast
  have v: "on_disk (vol_dev V) (vol_root V) (vol_off V) s" "block_bounce s \<noteq> NULL" using assms(2) by (simp_all add: vol_ok_def)
  have "\<not> (lba + ucast cnt > bd_sectors (device (vol_dev V) s) \<or> lba + ucast cnt < lba)" using assms(5) by (simp add: range_check)
  then obtain d m where "io_loop (device (vol_root V) s) (block_bounce s) w buf (lba + vol_off V) cnt (drv s, vfs_memory s) = Some (rc, d, m)"
    using assms(3,4) v on_disk_root [OF v(1), of lba] by (auto simp: block_root_io_def bind_eq_Some_conv)
  then show ?thesis using io_loop_reliable r by blast
qed

text \<open>One sector written from, or read into, a buffer.\<close>

lemma vol_write1:
  assumes "vol_ok V s" and "apart buf 512 (block_bounce s) 65536" and "l < vol_size V s" and "l < 2 ^ 32" and "lba = of_nat l"
  obtains rc m d where "block_write (Some (vol_dev V)) lba 1 buf s = Some (rc, set_vfs_memory m (s\<lparr>drv := d\<rparr>))" "rc = 0 \<or> rc = - 1"
    "\<forall>a. \<not> unat (a - block_bounce s) < 65536 \<longrightarrow> m a = vfs_memory s a"
    "\<forall>l' < 2 ^ 32. l' \<noteq> l \<longrightarrow> vol_disk V d (of_nat l' + vol_off V) = vol_sector V s l'"
    "rc = 0 \<longrightarrow> vol_disk V d (of_nat l + vol_off V) = bytes_at (vfs_memory s) buf 512" "reliable V s \<longrightarrow> rc = 0"
proof -
  have v: "on_disk (vol_dev V) (vol_root V) (vol_off V) s" "disk_driver (vol_disk V) (device (vol_root V) s)" "block_bounce s \<noteq> NULL"
    using assms(1) by (simp_all add: vol_ok_def)
  have u: "unat lba = l" unfolding assms(5) by (rule unat_of_nat_small) (use assms(4) in simp)
  have 1: "apart buf (512 * unat (1 :: u32)) (block_bounce s) 65536" using assms(2) by simp
  have 2: "unat lba + unat (1 :: u32) \<le> unat (bd_sectors (device (vol_dev V) s))" using assms(3) u by (simp add: vol_size_def)
  obtain rc d m where w: "block_write (Some (vol_dev V)) lba 1 buf s = Some (rc, set_vfs_memory m (s\<lparr>drv := d\<rparr>))" "rc = 0 \<or> rc = - 1"
    "\<forall>a. \<not> unat (a - block_bounce s) < 65536 \<longrightarrow> m a = vfs_memory s a"
    "disk_writes (vol_disk V) (lba + vol_off V) 1 buf (drv s) (vfs_memory s) rc d"
    by (rule block_write_spec [OF v 1 _ 2]) simp
  have "vol_disk V d (of_nat l' + vol_off V) = vol_sector V s l'" if "l' < 2 ^ 32" "l' \<noteq> l" for l'
  proof -
    have "(of_nat l' + vol_off V) - (lba + vol_off V) \<noteq> 0" using of_nat_sector_inj [of l' "vol_off V" l] that assms(4,5) by auto
    then have "\<not> unat ((of_nat l' + vol_off V) - (lba + vol_off V)) < unat (1 :: u32)" by (simp add: unat_gt_0)
    then show ?thesis using w(4) unfolding disk_writes_def vol_sector_def by blast
  qed
  moreover have "rc = 0 \<longrightarrow> vol_disk V d (of_nat l + vol_off V) = bytes_at (vfs_memory s) buf 512"
    using w(4) assms(5) by (simp add: disk_writes_def sector_at_0)
  moreover have "reliable V s \<longrightarrow> rc = 0" using block_io_reliable [OF _ assms(1) w(1) [unfolded block_write_def] _ 2] by simp
  ultimately show thesis using that w by blast
qed

lemma vol_read1:
  assumes "vol_ok V s" and "apart buf 512 (block_bounce s) 65536" and "l < vol_size V s" and "l < 2 ^ 32" and "lba = of_nat l"
  obtains rc m d where "block_read (Some (vol_dev V)) lba 1 buf s = Some (rc, set_vfs_memory m (s\<lparr>drv := d\<rparr>))" "rc = 0 \<or> rc = - 1"
    "\<forall>a. \<not> unat (a - block_bounce s) < 65536 \<longrightarrow> \<not> unat (a - buf) < 512 \<longrightarrow> m a = vfs_memory s a"
    "vol_disk V d = vol_disk V (drv s)" "rc = 0 \<longrightarrow> bytes_at m buf 512 = vol_sector V s l" "reliable V s \<longrightarrow> rc = 0"
proof -
  have v: "on_disk (vol_dev V) (vol_root V) (vol_off V) s" "disk_driver (vol_disk V) (device (vol_root V) s)" "block_bounce s \<noteq> NULL"
    using assms(1) by (simp_all add: vol_ok_def)
  have u: "unat lba = l" unfolding assms(5) by (rule unat_of_nat_small) (use assms(4) in simp)
  have 1: "apart buf (512 * unat (1 :: u32)) (block_bounce s) 65536" using assms(2) by simp
  have 2: "unat lba + unat (1 :: u32) \<le> unat (bd_sectors (device (vol_dev V) s))" using assms(3) u by (simp add: vol_size_def)
  obtain rc d m where w: "block_read (Some (vol_dev V)) lba 1 buf s = Some (rc, set_vfs_memory m (s\<lparr>drv := d\<rparr>))" "rc = 0 \<or> rc = - 1"
    "\<forall>a. \<not> unat (a - block_bounce s) < 65536 \<longrightarrow> \<not> unat (a - buf) < 512 * unat (1 :: u32) \<longrightarrow> m a = vfs_memory s a"
    "vol_disk V d = vol_disk V (drv s)" "rc = 0 \<longrightarrow> (\<forall>j < unat (1 :: u32). sector_at m buf j = vol_disk V (drv s) (lba + vol_off V + of_nat j))"
    by (rule block_read_spec [OF v 1 _ 2]) simp
  have "reliable V s \<longrightarrow> rc = 0" using block_io_reliable [OF _ assms(1) w(1) [unfolded block_read_def] _ 2] by simp
  then show thesis by (intro that [of rc m d]) (use w assms(5) in \<open>simp_all add: vol_sector_def sector_at_0\<close>)
qed

subsection \<open>The cache\<close>

lemma flush_copies_spec:
  assumes "fat_inv V fs s" and "fs_cache_valid (fats s fs)" and "\<forall>i \<in> set is. i < unat (fs_fat_count (fats s fs))"
  shows "\<exists>rc m d. flush_copies fs is s = Some (rc, fat_upd m d fs (fats s fs) s) \<and> (rc = 0 \<or> rc = - 1) \<and>
    (\<forall>a. \<not> unat (a - block_bounce s) < 65536 \<longrightarrow> m a = vfs_memory s a) \<and>
    (\<forall>l < 2 ^ 32. l \<notin> (\<lambda>i. copy_sector (fats s fs) i (unat (fs_cache_sector (fats s fs)))) ` set is \<longrightarrow>
       vol_disk V d (of_nat l + vol_off V) = vol_sector V s l) \<and>
    (rc = 0 \<longrightarrow> (\<forall>i \<in> set is. vol_disk V d (of_nat (copy_sector (fats s fs) i (unat (fs_cache_sector (fats s fs)))) + vol_off V) = cache_bytes fs s)) \<and>
    (reliable V s \<longrightarrow> rc = 0)"
  using assms
proof (induction "is" arbitrary: s)
  case Nil
  show ?case
    by (intro exI [of _ 0] exI [of _ "vfs_memory s"] exI [of _ "drv s"]) (simp add: fat_upd_id vol_sector_def)
next
  case (Cons i js)
  let ?f = "fats s fs" let ?k = "unat (fs_cache_sector ?f)" let ?l = "\<lambda>i. copy_sector ?f i ?k"
  have inv: "vol_ok V s" "fs_dev ?f = Some (vol_dev V)" "fat_layout ?f (vol_size V s)" "apart (fat_cache fs) 512 (block_bounce s) 65536"
    "fs_cache_sector ?f < fs_fat_sectors ?f" using Cons.prems(1,2) by (simp_all add: fat_inv_def)
  have i: "i < unat (fs_fat_count ?f)" using Cons.prems(3) by simp
  have k: "?k < unat (fs_fat_sectors ?f)" using inv(5) by (simp add: word_less_nat_alt)
  note b = copy_sector_bound [OF inv(3) i k]
  obtain rc m d where w: "block_write (Some (vol_dev V)) (of_nat (?l i)) 1 (fat_cache fs) s = Some (rc, set_vfs_memory m (s\<lparr>drv := d\<rparr>))"
    "rc = 0 \<or> rc = - 1" "\<forall>a. \<not> unat (a - block_bounce s) < 65536 \<longrightarrow> m a = vfs_memory s a"
    "\<forall>l' < 2 ^ 32. l' \<noteq> ?l i \<longrightarrow> vol_disk V d (of_nat l' + vol_off V) = vol_sector V s l'"
    "rc = 0 \<longrightarrow> vol_disk V d (of_nat (?l i) + vol_off V) = bytes_at (vfs_memory s) (fat_cache fs) 512" "reliable V s \<longrightarrow> rc = 0"
    by (rule vol_write1 [OF inv(1,4) b(2,3) refl])
  let ?s = "fat_upd m d fs ?f s"
  have cb: "bytes_at m (fat_cache fs) 512 = cache_bytes fs s"
    unfolding cache_bytes_def by (rule bytes_at_outside [OF apart_sym [OF inv(4)]]) (use w(3) in simp_all)
  have st: "flush_copies fs (i # js) s = (if rc \<noteq> 0 then Some (- 1, ?s) else flush_copies fs js ?s)"
    using w(1) copy_sector_word(1) [OF inv(3) i inv(5)] inv(2) by (simp add: Let_def io_fat_upd [where fs = fs])
  show ?case
  proof (cases "rc = 0")
    case False
    then show ?thesis
      using st w(2-4,6) by (intro exI [of _ "- 1"] exI [of _ m] exI [of _ d]) simp
  next
    case True
    have same: "cache_bytes fs ?s = vol_sector V ?s (?l 0)" if "\<not> fs_cache_dirty ?f"
    proof -
      have c0: "cache_bytes fs s = vol_sector V s (?l 0)" using Cons.prems(1,2) that by (simp add: fat_inv_def)
      have l0: "?l 0 < 2 ^ 32" using copy_sector_bound(3) [OF inv(3) _ k, of 0] inv(3) by (simp add: fat_layout_def)
      show ?thesis using w(4,5) True c0 cb l0 by (cases "?l 0 = ?l i") (simp_all add: cache_bytes_def [symmetric])
    qed
    have "fat_inv V fs ?s" using Cons.prems(1) same by (simp add: fat_inv_def)
    from Cons.IH [OF this] Cons.prems(2,3) obtain rc' m' d' where h: "flush_copies fs js ?s = Some (rc', fat_upd m' d' fs ?f s)"
      "rc' = 0 \<or> rc' = - 1" "\<forall>a. \<not> unat (a - block_bounce s) < 65536 \<longrightarrow> m' a = m a"
      "\<forall>l < 2 ^ 32. l \<notin> ?l ` set js \<longrightarrow> vol_disk V d' (of_nat l + vol_off V) = vol_disk V d (of_nat l + vol_off V)"
      "rc' = 0 \<longrightarrow> (\<forall>i \<in> set js. vol_disk V d' (of_nat (?l i) + vol_off V) = cache_bytes fs s)" "reliable V s \<longrightarrow> rc' = 0"
      using cb by auto
    have "vol_disk V d' (of_nat (?l i) + vol_off V) = cache_bytes fs s" if "rc' = 0"
      using h(4,5) w(5) True b(3) that by (cases "?l i \<in> ?l ` set js") (auto simp: cache_bytes_def)
    then show ?thesis
      using st True h w(3,4) by (intro exI [of _ rc'] exI [of _ m'] exI [of _ d']) auto
  qed
qed

lemma copy_sector_inj:
  assumes "copy_sector f i k = copy_sector f j k'" and "k < unat (fs_fat_sectors f)" and "k' < unat (fs_fat_sectors f)"
  shows "k = k'"
proof -
  have "(i * unat (fs_fat_sectors f) + k) mod unat (fs_fat_sectors f) = (j * unat (fs_fat_sectors f) + k') mod unat (fs_fat_sectors f)"
    using assms(1) by (simp add: copy_sector_def)
  then show ?thesis using assms(2,3) by simp
qed

lemma fat_raw_eqI:
  assumes "geometry (fats s' fs) = geometry (fats s fs)"
    and "\<And>k. k < unat (fs_fat_sectors (fats s fs)) \<Longrightarrow> table_sector V fs s' k = table_sector V fs s k"
  shows "fat_raw V fs s' = fat_raw V fs s"
  by (rule ext) (simp add: fat_raw_def geometry_fields(5) [OF assms(1)] assms(2) less_mult_imp_div_less mult.commute)

text \<open>All copies of the table hold the table.\<close>

definition copies_equal :: "'d volume \<Rightarrow> ptr \<Rightarrow> ('d, 'a) fat_state_scheme \<Rightarrow> bool" where
  "copies_equal V fs s \<longleftrightarrow> (\<forall>i < unat (fs_fat_count (fats s fs)). \<forall>k < unat (fs_fat_sectors (fats s fs)).
     \<not> (cached fs s k \<and> fs_cache_dirty (fats s fs)) \<longrightarrow> vol_sector V s (copy_sector (fats s fs) i k) = table_sector V fs s k)"

lemma copies_equal_step:
  assumes "copies_equal V fs s" and "fat_inv V fs s" and "geometry f = geometry (fats s fs)"
    and "\<And>k. k < unat (fs_fat_sectors (fats s fs)) \<Longrightarrow> table_sector V fs (fat_upd m d fs f s) k = table_sector V fs s k"
    and "\<And>i k. i < unat (fs_fat_count (fats s fs)) \<Longrightarrow> k < unat (fs_fat_sectors (fats s fs)) \<Longrightarrow>
      vol_disk V d (of_nat (copy_sector (fats s fs) i k) + vol_off V) = vol_sector V s (copy_sector (fats s fs) i k) \<or>
      vol_disk V d (of_nat (copy_sector (fats s fs) i k) + vol_off V) = table_sector V fs s k"
    and "\<And>i k. i < unat (fs_fat_count (fats s fs)) \<Longrightarrow> k < unat (fs_fat_sectors (fats s fs)) \<Longrightarrow>
      cached fs s k \<and> fs_cache_dirty (fats s fs) \<Longrightarrow> \<not> (cached fs (fat_upd m d fs f s) k \<and> fs_cache_dirty f) \<Longrightarrow>
      vol_disk V d (of_nat (copy_sector (fats s fs) i k) + vol_off V) = table_sector V fs s k"
  shows "copies_equal V fs (fat_upd m d fs f s)"
  unfolding copies_equal_def
proof (intro allI impI)
  let ?s = "fat_upd m d fs f s" let ?f = "fats s fs"
  fix i k assume i: "i < unat (fs_fat_count (fats ?s fs))" and k: "k < unat (fs_fat_sectors (fats ?s fs))"
    and n: "\<not> (cached fs ?s k \<and> fs_cache_dirty (fats ?s fs))"
  have i': "i < unat (fs_fat_count ?f)" and k': "k < unat (fs_fat_sectors ?f)"
    using i k geometry_fields(5,6) [OF assms(3)] by simp_all
  have "vol_disk V d (of_nat (copy_sector ?f i k) + vol_off V) = table_sector V fs s k"
  proof (cases "cached fs s k \<and> fs_cache_dirty ?f")
    case True
    show ?thesis by (rule assms(6) [OF i' k' True]) (use n in simp)
  next
    case False
    have "vol_sector V s (copy_sector ?f i k) = table_sector V fs s k" using assms(1) i' k' False unfolding copies_equal_def by blast
    then show ?thesis using assms(5) [OF i' k'] by auto
  qed
  then show "vol_sector V ?s (copy_sector (fats ?s fs) i k) = table_sector V fs ?s k"
    using assms(4) [OF k'] geometry_cong(2) [OF assms(3)] by simp
qed

lemma fat_cache_flush_spec:
  assumes "fat_inv V fs s"
  obtains rc m d f where "fat_cache_flush fs s = Some (rc, fat_upd m d fs f s)" "rc = 0 \<or> rc = - 1"
    "fat_step V fs s (fat_upd m d fs f s)" "fat_raw V fs (fat_upd m d fs f s) = fat_raw V fs s"
    "f = (fats s fs)\<lparr>fs_cache_dirty := fs_cache_dirty f\<rparr>" "rc = 0 \<longrightarrow> \<not> fs_cache_dirty f"
    "\<forall>a. \<not> unat (a - block_bounce s) < 65536 \<longrightarrow> m a = vfs_memory s a"
    "copies_equal V fs s \<longrightarrow> rc = 0 \<longrightarrow> copies_equal V fs (fat_upd m d fs f s)" "reliable V s \<longrightarrow> rc = 0"
proof (cases "fs_cache_dirty (fats s fs)")
  case False
  show thesis
    by (rule that [of 0 "vfs_memory s" "drv s" "fats s fs"])
      (use False assms in \<open>simp_all add: fat_upd_id fat_step_refl fat_cache_flush_def\<close>)
next
  case True
  let ?f = "fats s fs" let ?k = "unat (fs_cache_sector ?f)" let ?l = "\<lambda>i. copy_sector ?f i ?k" let ?n = "unat (fs_fat_count ?f)"
  have v: "fs_cache_valid ?f" and lay: "fat_layout ?f (vol_size V s)" and ap: "apart (fat_cache fs) 512 (block_bounce s) 65536"
    and k: "?k < unat (fs_fat_sectors ?f)" using assms True by (simp_all add: fat_inv_def word_less_nat_alt)
  obtain rc m d where w: "flush_copies fs [0..<?n] s = Some (rc, fat_upd m d fs ?f s)" "rc = 0 \<or> rc = - 1"
    "\<forall>a. \<not> unat (a - block_bounce s) < 65536 \<longrightarrow> m a = vfs_memory s a"
    "\<forall>l < 2 ^ 32. l \<notin> ?l ` set [0..<?n] \<longrightarrow> vol_disk V d (of_nat l + vol_off V) = vol_sector V s l"
    "rc = 0 \<longrightarrow> (\<forall>i \<in> set [0..<?n]. vol_disk V d (of_nat (?l i) + vol_off V) = cache_bytes fs s)" "reliable V s \<longrightarrow> rc = 0"
    using flush_copies_spec [OF assms v, of "[0..<?n]"] by auto
  define f where "f = ?f\<lparr>fs_cache_dirty := rc \<noteq> 0\<rparr>"
  let ?s = "fat_upd m d fs f s"
  have r: "fat_cache_flush fs s = Some (rc, ?s)"
  proof (cases "rc = 0")
    case rc0: True
    show ?thesis using True w(1) rc0 by (simp add: fat_cache_flush_def upd_fs_fat_upd f_def fun_upd_def)
  next
    case False
    then have "f = ?f" using True by (simp add: f_def)
    then show ?thesis using False True w(1,2) by (simp add: fat_cache_flush_def)
  qed
  have cb: "bytes_at m (fat_cache fs) 512 = cache_bytes fs s"
    unfolding cache_bytes_def by (rule bytes_at_outside [OF apart_sym [OF ap]]) (use w(3) in simp_all)
  have g: "geometry f = geometry ?f" "next_free_ok f = next_free_ok ?f" by (simp_all add: f_def)
  have ca: "cached fs ?s j = cached fs s j" for j by (simp add: cached_def f_def)
  have other: "vol_disk V d (of_nat (copy_sector ?f i j) + vol_off V) = vol_sector V s (copy_sector ?f i j)"
    if "i < ?n" "j < unat (fs_fat_sectors ?f)" "j \<noteq> ?k" for i j
  proof -
    have "copy_sector ?f i j \<notin> ?l ` set [0..<?n]" using copy_sector_inj [of ?f i j _ ?k] that k by blast
    then show ?thesis using w(4) copy_sector_bound(3) [OF lay that(1,2)] by blast
  qed
  have n0: "0 < ?n" using lay by (simp add: fat_layout_def)
  have ts: "table_sector V fs ?s j = table_sector V fs s j" if "j < unat (fs_fat_sectors ?f)" for j
  proof (cases "j = ?k")
    case True
    then have "cached fs s j" using v by (simp add: cached_def)
    then show ?thesis using cb by (simp add: table_sector_def ca)
  next
    case False
    have "\<not> cached fs s j" using False by (simp add: cached_def)
    then show ?thesis using other [OF n0 that False] geometry_cong(2) [OF g(1)] by (simp add: table_sector_def ca)
  qed
  have out: "vol_disk V d (of_nat l + vol_off V) = vol_sector V s l" if "l < 2 ^ 32" "\<not> in_table ?f l" for l
  proof -
    have "l \<notin> ?l ` set [0..<?n]" using copy_sector_bound(4) [OF lay _ k] that(2) by auto
    then show ?thesis using w(4) that(1) by blast
  qed
  have inv: "fat_inv V fs ?s"
    using assms w(5) n0 cb v by (simp add: fat_inv_def f_def)
  show thesis
  proof (rule that [of rc m d f])
    show "fat_step V fs s ?s"
      unfolding fat_step_def
      by (rule conjI [OF inv], rule exI [of _ m], rule exI [of _ d], rule exI [of _ f]) (use g w(3) out in simp)
    show "fat_raw V fs ?s = fat_raw V fs s" by (rule fat_raw_eqI) (use g ts in simp_all)
    have key: "vol_disk V d (of_nat (copy_sector ?f i j) + vol_off V) = (if j = ?k then table_sector V fs s j else vol_sector V s (copy_sector ?f i j))"
      if "rc = 0" "i < ?n" "j < unat (fs_fat_sectors ?f)" for i j
      using other [OF that(2,3)] w(5) that v by (simp add: table_sector_def cached_def)
    show "copies_equal V fs s \<longrightarrow> rc = 0 \<longrightarrow> copies_equal V fs ?s"
      by (intro impI, rule copies_equal_step [OF _ assms g(1)]) (use key ts in \<open>auto simp: cached_def\<close>)
  qed (use r w(2,3,6) in \<open>simp_all add: f_def\<close>)
qed

lemma table_sector_uncached:
  assumes "fat_inv V fs s" and "\<not> fs_cache_dirty (fats s fs)"
  shows "table_sector V fs s k = vol_sector V s (copy_sector (fats s fs) 0 k)"
  using assms by (auto simp: table_sector_def cached_def fat_inv_def)

text \<open>After a successful load the sector is cached; in every case the table is what it was.\<close>

lemma fat_cache_load_spec:
  assumes "fat_inv V fs s" and "sector < fs_fat_sectors (fats s fs)"
  obtains rc s' where "fat_cache_load fs sector s = Some (rc, s')" "rc = 0 \<or> rc = - 1" "fat_step V fs s s'"
    "fat_raw V fs s' = fat_raw V fs s" "rc = 0 \<longrightarrow> cached fs s' (unat sector)" "fs_next_free (fats s' fs) = fs_next_free (fats s fs)"
    "copies_equal V fs s \<longrightarrow> rc = 0 \<longrightarrow> copies_equal V fs s'" "reliable V s \<longrightarrow> rc = 0"
proof (cases "fs_cache_valid (fats s fs) \<and> fs_cache_sector (fats s fs) = sector")
  case True
  show thesis
    by (rule that [of 0 s]) (use True assms in \<open>simp_all add: fat_cache_load_def fat_step_refl cached_def\<close>)
next
  case False
  let ?f = "fats s fs"
  obtain rc m d f where fl: "fat_cache_flush fs s = Some (rc, fat_upd m d fs f s)" "rc = 0 \<or> rc = - 1"
    "fat_step V fs s (fat_upd m d fs f s)" "fat_raw V fs (fat_upd m d fs f s) = fat_raw V fs s"
    "f = ?f\<lparr>fs_cache_dirty := fs_cache_dirty f\<rparr>" "rc = 0 \<longrightarrow> \<not> fs_cache_dirty f"
    "\<forall>a. \<not> unat (a - block_bounce s) < 65536 \<longrightarrow> m a = vfs_memory s a"
    "copies_equal V fs s \<longrightarrow> rc = 0 \<longrightarrow> copies_equal V fs (fat_upd m d fs f s)" "reliable V s \<longrightarrow> rc = 0"
    by (rule fat_cache_flush_spec [OF assms(1)])
  let ?s1 = "fat_upd m d fs f s"
  have nf: "fs_next_free f = fs_next_free ?f" using fl(5) by (metis fat32.select_convs(10) fat32.surjective fat32.update_convs(13))
  show thesis
  proof (cases "rc = 0")
    case rc: False
    have "fat_cache_load fs sector s = Some (- 1, ?s1)" using False fl(1) rc by (auto simp: fat_cache_load_def)
    then show thesis by (rule that) (use fl(3,4,9) nf rc in simp_all)
  next
    case rc: True
    have inv1: "fat_inv V fs ?s1" by (rule fat_step_inv [OF fl(3)])
    have g: "geometry f = geometry ?f" using fat_step_geometry [OF fl(3)] by simp
    define f2 where "f2 = f\<lparr>fs_cache_valid := False\<rparr>"
    let ?s2 = "fat_upd m d fs f2 s" let ?l = "copy_sector f 0 (unat sector)"
    have dirty: "\<not> fs_cache_dirty f" using fl(6) rc by simp
    have lay: "fat_layout f (vol_size V s)" and ap: "apart (fat_cache fs) 512 (block_bounce s) 65536" and vok: "vol_ok V s"
      and dev: "fs_dev f = Some (vol_dev V)" using inv1 by (simp_all add: fat_inv_def)
    have sec: "sector < fs_fat_sectors f" using assms(2) geometry_fields(5) [OF g] by simp
    then have secn: "unat sector < unat (fs_fat_sectors f)" by (simp add: word_less_nat_alt)
    have c0: "0 < unat (fs_fat_count f)" using lay by (simp add: fat_layout_def)
    note b = copy_sector_bound [OF lay c0 secn]
    have lba: "(ucast (fs_fat_start f + sector) :: u64) = of_nat ?l" using copy_sector_word(1) [OF lay c0 sec] by simp
    obtain rc' m' d' where rd: "block_read (Some (vol_dev V)) (of_nat ?l) 1 (fat_cache fs) ?s2 = Some (rc', set_vfs_memory m' (?s2\<lparr>drv := d'\<rparr>))"
      "rc' = 0 \<or> rc' = - 1" "\<forall>a. \<not> unat (a - block_bounce ?s2) < 65536 \<longrightarrow> \<not> unat (a - fat_cache fs) < 512 \<longrightarrow> m' a = vfs_memory ?s2 a"
      "vol_disk V d' = vol_disk V (drv ?s2)" "rc' = 0 \<longrightarrow> bytes_at m' (fat_cache fs) 512 = vol_sector V ?s2 ?l"
      "reliable V ?s2 \<longrightarrow> rc' = 0"
      by (rule vol_read1 [of V ?s2 "fat_cache fs" ?l]) (use vok ap b(2,3) in simp_all)
    define f3 where "f3 = (if rc' = 0 then f2\<lparr>fs_cache_sector := sector, fs_cache_valid := True\<rparr> else f2)"
    let ?s3 = "fat_upd m' d' fs f3 s"
    have e: "set_vfs_memory m' (?s2\<lparr>drv := d'\<rparr>) = fat_upd m' d' fs f2 s" by (simp add: io_fat_upd [where fs = fs])
    have dev2: "fs_dev f2 = Some (vol_dev V)" "fs_fat_start f2 = fs_fat_start f" using dev by (simp_all add: f2_def)
    have ld: "fat_cache_load fs sector s = Some (if rc' = 0 then 0 else - 1, ?s3)"
      using False fl(1) rc rd(1) dev2 by (auto simp: fat_cache_load_def e lba f3_def upd_fs_fat_upd f2_def [symmetric] Let_def)
    have g3: "geometry f3 = geometry f" and n3: "next_free_ok f3 = next_free_ok f" by (simp_all add: f3_def f2_def)
    have d3: "\<not> fs_cache_dirty f3" using dirty by (simp add: f3_def f2_def)
    have inv3: "fat_inv V fs ?s3"
      using inv1 sec rd(4,5) d3 geometry_cong(1,2) [OF g3] geometry_fields(1,5) [OF g3]
      by (simp add: fat_inv_def f3_def f2_def vol_sector_def)
    have ts: "table_sector V fs ?s3 k = table_sector V fs ?s1 k" for k
      using table_sector_uncached [OF inv3] table_sector_uncached [OF inv1] d3 dirty rd(4) geometry_cong(2) [OF g3] by simp
    have st: "fat_step V fs ?s1 ?s3"
      unfolding fat_step_def
      by (rule conjI [OF inv3], rule exI [of _ m'], rule exI [of _ d'], rule exI [of _ f3])
        (use g3 n3 rd(3,4) in \<open>simp add: vol_sector_def\<close>)
    show thesis
    proof (rule that [OF ld])
      show "fat_step V fs s ?s3" by (rule fat_step_trans [OF fl(3) st])
      have "fat_raw V fs ?s3 = fat_raw V fs ?s1" by (rule fat_raw_eqI) (use g3 ts in simp_all)
      then show "fat_raw V fs ?s3 = fat_raw V fs s" using fl(4) by simp
      have "copies_equal V fs ?s3" if "copies_equal V fs s"
      proof -
        have "copies_equal V fs ?s1" using that fl(8) rc by blast
        then have "copies_equal V fs (fat_upd m' d' fs f3 ?s1)"
          by (rule copies_equal_step [OF _ inv1]) (use g3 ts rd(4) dirty in \<open>simp_all add: vol_sector_def\<close>)
        then show ?thesis by simp
      qed
      then show "copies_equal V fs s \<longrightarrow> (if rc' = 0 then 0 else - 1 :: int) = 0 \<longrightarrow> copies_equal V fs ?s3" by blast
    qed (use rd(2,6) nf in \<open>simp_all add: f3_def f2_def cached_def\<close>)
  qed
qed

subsection \<open>Reading and changing entries\<close>

lemma load_word_of: "load_u32 m a = word_of (bytes_at m a 4)"
proof -
  have "load_le n m a = word_of (bytes_at m a n)" for n by (induction n arbitrary: a) (simp_all add: word_of_def)
  then show ?thesis by (simp add: load_u32_def)
qed

lemma take_drop_bytes_at: "k + j \<le> n \<Longrightarrow> take j (drop k (bytes_at m p n)) = bytes_at m (p + of_nat k) j"
  by (rule nth_equalityI) (simp_all add: nth_bytes_at add.assoc)

lemma cluster_index:
  fixes c :: u32
  shows "unat (c div 128) = unat c div 128" "cache_entry fs c = fat_cache fs + of_nat (4 * (unat c mod 128))"
proof -
  show "unat (c div 128) = unat c div 128" by (simp add: unat_div)
  have u: "unat (c mod 128) = unat c mod 128" by (simp add: unat_mod)
  have "unat (c mod 128 * 4) = 4 * (unat c mod 128)" using u by (subst unat_word_ariths) simp
  moreover have "(ucast (c mod 128 * 4) :: u64) = of_nat (unat (c mod 128 * 4))" by simp
  ultimately show "cache_entry fs c = fat_cache fs + of_nat (4 * (unat c mod 128))" unfolding cache_entry_def by (simp only:)
qed

lemma fat_raw_cached:
  assumes "cached fs s (unat c div 128)" and "unat c < 128 * unat (fs_fat_sectors (fats s fs))"
  shows "fat_raw V fs s (unat c) = load_u32 (vfs_memory s) (cache_entry fs c)"
proof -
  have "4 * (unat c mod 128) + 4 \<le> 512" using mod_less_divisor [of 128 "unat c"] by simp
  then show ?thesis
    using assms take_drop_bytes_at [of "4 * (unat c mod 128)" 4 512 "vfs_memory s" "fat_cache fs"]
    by (simp add: fat_raw_def table_sector_def cache_bytes_def load_word_of cluster_index(2))
qed

definition in_fat :: "ptr \<Rightarrow> ('d, 'a) fat_state_scheme \<Rightarrow> u32 \<Rightarrow> bool" where
  "in_fat fs s c \<longleftrightarrow> unat c < 128 * unat (fs_fat_sectors (fats s fs))"

lemma in_fat_sector: "in_fat fs s c \<Longrightarrow> c div 128 < fs_fat_sectors (fats s fs)"
  unfolding in_fat_def word_less_nat_alt cluster_index(1) by (simp add: less_mult_imp_div_less mult.commute)

lemma in_fat_step: "fat_step V fs s s' \<Longrightarrow> in_fat fs s' c = in_fat fs s c"
  unfolding in_fat_def using geometry_fields(5) [OF fat_step_geometry] by metis

lemma valid_in_fat:
  assumes "fat_inv V fs s" and "fat_valid (fats s fs) c"
  shows "in_fat fs s c" "2 \<le> unat c" "unat c < unat (fs_cluster_count (fats s fs)) + 2"
proof -
  have lay: "fat_layout (fats s fs) (vol_size V s)" using assms(1) by (simp add: fat_inv_def)
  have "unat (fs_cluster_count (fats s fs) + 2) = unat (fs_cluster_count (fats s fs)) + 2"
    using lay by (subst unat_add_nowrap) (simp_all add: fat_layout_def)
  then show b: "unat c < unat (fs_cluster_count (fats s fs)) + 2" using assms(2) by (simp add: fat_valid_def word_less_nat_alt)
  show "2 \<le> unat c" using assms(2) by (simp add: fat_valid_def word_le_nat_alt)
  have "unat (fs_cluster_count (fats s fs)) + 2 \<le> 128 * unat (fs_fat_sectors (fats s fs))" using lay by (simp add: fat_layout_def)
  then show "in_fat fs s c" using b unfolding in_fat_def by linarith
qed

text \<open>The answer is the entry, or the end mark when the disk failed; the table does not change.\<close>

lemma fat_get_spec:
  assumes "fat_inv V fs s" and "in_fat fs s c"
  obtains v s' where "fat_get fs c s = Some (v, s')" "fat_step V fs s s'" "fat_raw V fs s' = fat_raw V fs s"
    "v = fat_tab V fs s c \<or> v = FAT_EOC" "fs_next_free (fats s' fs) = fs_next_free (fats s fs)"
    "reliable V s \<longrightarrow> v = fat_tab V fs s c"
proof -
  obtain rc s1 where ld: "fat_cache_load fs (c div 128) s = Some (rc, s1)" "rc = 0 \<or> rc = - 1" "fat_step V fs s s1"
    "fat_raw V fs s1 = fat_raw V fs s" "rc = 0 \<longrightarrow> cached fs s1 (unat (c div 128))" "fs_next_free (fats s1 fs) = fs_next_free (fats s fs)"
    "reliable V s \<longrightarrow> rc = 0"
    by (rule fat_cache_load_spec [OF assms(1) in_fat_sector [OF assms(2)]])
  show thesis
  proof (cases "rc = 0")
    case True
    have "fat_raw V fs s1 (unat c) = load_u32 (vfs_memory s1) (cache_entry fs c)"
      by (rule fat_raw_cached) (use ld(5) True in_fat_step [OF ld(3), of c] assms(2) in \<open>simp_all add: cluster_index(1) in_fat_def\<close>)
    then show thesis using ld True by (intro that [of "fat_tab V fs s c" s1]) (simp_all add: fat_get_def fat_tab_def)
  qed (use ld in \<open>intro that [of FAT_EOC s1]; simp add: fat_get_def\<close>)
qed

lemma store_u32_outside: "\<not> unat (a - p) < 4 \<Longrightarrow> store_u32 p v m a = m a"
  by (simp add: store_u32_def store_le_other)

lemma load_u32_cong: "(\<And>i. i < 4 \<Longrightarrow> m (a + of_nat i) = m' (a + of_nat i)) \<Longrightarrow> load_u32 m a = load_u32 m' a"
  unfolding load_u32_def by (rule load_le_cong) simp

lemma entry_apart:
  assumes "x < 128" and "y < 128" and "x \<noteq> y" and "i < 4"
  shows "\<not> unat ((b + of_nat (4 * x) + of_nat i) - (b + of_nat (4 * y)) :: u64) < 4"
proof -
  have e: "(b + of_nat (4 * x) + of_nat i) - (b + of_nat (4 * y)) = (of_nat (4 * x + i) :: u64) - of_nat (4 * y)" by simp
  have u: "unat (of_nat (4 * x + i) :: u64) = 4 * x + i" "unat (of_nat (4 * y) :: u64) = 4 * y"
    by (rule unat_of_nat_small; use assms in simp)+
  show ?thesis
    unfolding e by (subst unat_sub_if_size) (use assms u in \<open>auto simp: size_word.rep_eq word_le_nat_alt\<close>)
qed

lemma cache_entry_inside: "\<not> unat (a - fat_cache fs) < 512 \<Longrightarrow> \<not> unat (a - cache_entry fs c) < 4"
proof
  assume n: "\<not> unat (a - fat_cache fs) < 512" and l: "unat (a - cache_entry fs c) < 4"
  have "unat (of_nat (4 * (unat c mod 128)) :: u64) = 4 * (unat c mod 128)"
    by (rule unat_of_nat_small) (use mod_less_divisor [of 128 "unat c"] in simp)
  then have "unat (of_nat (4 * (unat c mod 128)) :: u64) + 4 \<le> 512" using mod_less_divisor [of 128 "unat c"] by simp
  from in_later_chunk [OF l [unfolded cluster_index(2)] this] n show False by simp
qed

text \<open>Storing an entry in the cached sector changes that entry of the table alone.\<close>

lemma same_sector_bound:
  assumes "x div 128 = unat (c :: u32) div 128"
  shows "x < 2 ^ 32"
proof -
  have "unat c div 128 < 2 ^ 25" using unat_lt_32 [of c] by (intro less_mult_imp_div_less) simp
  then have "x div 128 < 2 ^ 25" using assms by simp
  then show ?thesis by (simp add: div_less_iff_less_mult)
qed

lemma load_other_entry:
  assumes "unat y div 128 = unat c div 128" and "y \<noteq> c"
  shows "load_u32 (store_u32 (cache_entry fs c) v m) (cache_entry fs y) = load_u32 m (cache_entry fs y)"
proof (rule load_u32_cong)
  fix i :: nat assume i: "i < 4"
  have "unat y \<noteq> unat c" using assms(2) by (simp add: word_unat_eq_iff)
  then have "unat y mod 128 \<noteq> unat c mod 128" using assms(1) by (metis div_mult_mod_eq)
  then have "\<not> unat ((cache_entry fs y + of_nat i) - cache_entry fs c) < 4"
    unfolding cluster_index(2) by (intro entry_apart) (use i in simp_all)
  then show "store_u32 (cache_entry fs c) v m (cache_entry fs y + of_nat i) = m (cache_entry fs y + of_nat i)"
    by (rule store_u32_outside)
qed

lemma fat_raw_store:
  assumes "cached fs s (unat c div 128)" and "in_fat fs s c" and "geometry f = geometry (fats s fs)"
    and "fs_cache_valid f" and "fs_cache_sector f = fs_cache_sector (fats s fs)"
  shows "fat_raw V fs (fat_upd (store_u32 (cache_entry fs c) v (vfs_memory s)) (drv s) fs f s) = (fat_raw V fs s)(unat c := v)"
    (is "fat_raw V fs ?s = _")
proof (rule ext)
  fix x
  have ca: "cached fs ?s k = cached fs s k" for k using assms(1,4,5) by (auto simp: cached_def)
  have ff: "fs_fat_sectors f = fs_fat_sectors (fats s fs)" "copy_sector f = copy_sector (fats s fs)"
    using geometry_fields(5) [OF assms(3)] geometry_cong(2) [OF assms(3)] by simp_all
  show "fat_raw V fs ?s x = ((fat_raw V fs s)(unat c := v)) x"
  proof (cases "x < 128 * unat (fs_fat_sectors (fats s fs)) \<and> x div 128 = unat c div 128")
    case False
    then have "\<not> cached fs s (x div 128)" if "x < 128 * unat (fs_fat_sectors (fats s fs))" using assms(1) that by (auto simp: cached_def)
    moreover have "x \<noteq> unat c" using False assms(2) by (auto simp: in_fat_def)
    ultimately show ?thesis using ff by (auto simp: fat_raw_def table_sector_def ca vol_sector_def)
  next
    case T: True
    define y where "y = (of_nat x :: u32)"
    have y: "unat y = x" unfolding y_def by (rule unat_of_nat_small) (use same_sector_bound [of x c] T in simp)
    have 1: "fat_raw V fs ?s (unat y) = load_u32 (store_u32 (cache_entry fs c) v (vfs_memory s)) (cache_entry fs y)"
      using fat_raw_cached [of fs ?s y V] T assms(1) y ca ff(1) by simp
    have 2: "fat_raw V fs s (unat y) = load_u32 (vfs_memory s) (cache_entry fs y)"
      by (rule fat_raw_cached) (use T assms(1) y in simp_all)
    show ?thesis
    proof (cases "y = c")
      case True
      then show ?thesis using 1 y by simp
    next
      case False
      then have "x \<noteq> unat c" using y by (metis word_unat_eq_iff)
      then show ?thesis using 1 2 y load_other_entry [OF _ False, of fs v "vfs_memory s"] T by simp
    qed
  qed
qed

text \<open>The four upper bits of an entry are kept.\<close>

definition put_entry :: "u32 \<Rightarrow> u32 \<Rightarrow> u32" where
  "put_entry old val = (old AND NOT FAT_MASK) OR (val AND FAT_MASK)"

lemma fat_set_spec:
  assumes "fat_inv V fs s" and "in_fat fs s c"
  obtains rc s' where "fat_set fs c val s = Some (rc, s')" "rc = 0 \<or> rc = - 1" "fat_step V fs s s'"
    "fat_raw V fs s' = (if rc = 0 then (fat_raw V fs s)(unat c := put_entry (fat_raw V fs s (unat c)) val) else fat_raw V fs s)"
    "fs_next_free (fats s' fs) = fs_next_free (fats s fs)" "copies_equal V fs s \<longrightarrow> rc = 0 \<longrightarrow> copies_equal V fs s'"
    "reliable V s \<longrightarrow> rc = 0"
proof -
  obtain rc s1 where ld: "fat_cache_load fs (c div 128) s = Some (rc, s1)" "rc = 0 \<or> rc = - 1" "fat_step V fs s s1"
    "fat_raw V fs s1 = fat_raw V fs s" "rc = 0 \<longrightarrow> cached fs s1 (unat (c div 128))" "fs_next_free (fats s1 fs) = fs_next_free (fats s fs)"
    "copies_equal V fs s \<longrightarrow> rc = 0 \<longrightarrow> copies_equal V fs s1" "reliable V s \<longrightarrow> rc = 0"
    by (rule fat_cache_load_spec [OF assms(1) in_fat_sector [OF assms(2)]])
  show thesis
  proof (cases "rc = 0")
    case False
    then show thesis using ld by (intro that [of "- 1" s1]) (simp_all add: fat_set_def)
  next
    case True
    let ?f = "fats s1 fs" let ?k = "unat c div 128" let ?e = "cache_entry fs c"
    define v where "v = put_entry (load_u32 (vfs_memory s1) ?e) val"
    define m where "m = store_u32 ?e v (vfs_memory s1)"
    define f where "f = ?f\<lparr>fs_cache_dirty := True\<rparr>"
    let ?s = "fat_upd m (drv s1) fs f s1"
    have inv1: "fat_inv V fs s1" by (rule fat_step_inv [OF ld(3)])
    have ca: "cached fs s1 ?k" using ld(5) True cluster_index(1) [of c] by simp
    have inf: "in_fat fs s1 c" using in_fat_step [OF ld(3)] assms(2) by simp
    have "upd_fs fs (fs_cache_dirty_update (\<lambda>_. True)) (set_vfs_memory m s1) = ?s"
      by (simp add: fat_upd_def upd_fs_def set_vfs_memory_def f_def)
    then have st: "fat_set fs c val s = Some (0, ?s)" using ld(1) True by (simp add: fat_set_def put_entry_def v_def m_def)
    have mo: "m a = vfs_memory s1 a" if "\<not> unat (a - fat_cache fs) < 512" for a
      unfolding m_def by (rule store_u32_outside [OF cache_entry_inside [OF that]])
    have inv: "fat_inv V fs ?s" using inv1 ca by (simp add: fat_inv_def f_def cached_def)
    have step: "fat_step V fs s1 ?s"
      unfolding fat_step_def
      by (rule conjI [OF inv], rule exI [of _ m], rule exI [of _ "drv s1"], rule exI [of _ f]) (use mo in \<open>simp add: f_def vol_sector_def\<close>)
    have "fat_raw V fs ?s = (fat_raw V fs s1)(unat c := v)"
      unfolding m_def by (rule fat_raw_store [OF ca inf]) (use ca in \<open>simp_all add: f_def cached_def\<close>)
    moreover have "v = put_entry (fat_raw V fs s (unat c)) val"
      using fat_raw_cached [OF ca, of V] inf ld(4) by (simp add: v_def in_fat_def)
    ultimately have raw: "fat_raw V fs ?s = (fat_raw V fs s)(unat c := put_entry (fat_raw V fs s (unat c)) val)" using ld(4) by simp
    have "copies_equal V fs ?s" if "copies_equal V fs s"
    proof -
      have c1: "copies_equal V fs s1" using that ld(7) True by blast
      have ff: "copy_sector f = copy_sector ?f" "fs_fat_count f = fs_fat_count ?f" "fs_fat_sectors f = fs_fat_sectors ?f" "fs_cache_dirty f"
        "\<And>k. cached fs ?s k = cached fs s1 k" by (simp_all add: f_def cached_def)
      show ?thesis
        unfolding copies_equal_def
      proof (intro allI impI)
        fix i k assume i: "i < unat (fs_fat_count (fats ?s fs))" "k < unat (fs_fat_sectors (fats ?s fs))"
          and n: "\<not> (cached fs ?s k \<and> fs_cache_dirty (fats ?s fs))"
        then have nc: "\<not> cached fs s1 k" using ff(4,5) by simp
        then have "vol_sector V s1 (copy_sector ?f i k) = table_sector V fs s1 k" using c1 i ff(2,3) unfolding copies_equal_def by simp
        then show "vol_sector V ?s (copy_sector (fats ?s fs) i k) = table_sector V fs ?s k"
          using nc ff(1,5) by (simp add: table_sector_def vol_sector_def)
      qed
    qed
    then show thesis
      by (intro that [OF st]) (use fat_step_trans [OF ld(3) step] raw ld(6) in \<open>simp_all add: f_def\<close>)
  qed
qed

subsection \<open>Allocating clusters\<close>

lemma fat_tab_cong: "fat_raw V fs s' = fat_raw V fs s \<Longrightarrow> fat_tab V fs s' = fat_tab V fs s"
  by (simp add: fat_tab_def fun_eq_iff)

lemma fat_tab_put:
  assumes "fat_raw V fs s' = (fat_raw V fs s)(unat c := put_entry (fat_raw V fs s (unat c)) val)"
  shows "fat_tab V fs s' = (fat_tab V fs s)(c := val AND FAT_MASK)"
proof
  fix x
  have "put_entry old val AND FAT_MASK = val AND FAT_MASK" for old
    by (rule bit_word_eqI) (auto simp: put_entry_def bit_simps)
  then show "fat_tab V fs s' x = ((fat_tab V fs s)(c := val AND FAT_MASK)) x"
    by (simp add: fat_tab_def assms word_unat_eq_iff)
qed

lemma valid_masked:
  assumes "fat_inv V fs s" and "fat_valid (fats s fs) c"
  shows "c AND FAT_MASK = c" "c \<noteq> 0" "c \<noteq> FAT_EOC"
proof -
  have "unat (fs_cluster_count (fats s fs)) + 2 \<le> 0x0FFFFFFF" using assms(1) by (simp add: fat_inv_def fat_layout_def)
  then have u: "2 \<le> unat c" "unat c < 0x0FFFFFFF" using valid_in_fat(2,3) [OF assms] by linarith+
  have "take_bit 28 (unat c) = unat c" by (rule take_bit_nat_eq_self) (use u in simp)
  then have "take_bit 28 c = c" by (simp add: word_unat_eq_iff unsigned_take_bit_eq)
  moreover have "FAT_MASK = mask 28" by (simp add: FAT_MASK_def mask_eq_exp_minus_1)
  ultimately show "c AND FAT_MASK = c" by (simp add: take_bit_eq_mask)
  show "c \<noteq> 0" "c \<noteq> FAT_EOC" using u by (auto simp: FAT_EOC_def)
qed

lemma fat_set_tab:
  assumes "fat_inv V fs s" and "in_fat fs s c"
  obtains rc s' where "fat_set fs c val s = Some (rc, s')" "rc = 0 \<or> rc = - 1" "fat_step V fs s s'"
    "fat_tab V fs s' = (if rc = 0 then (fat_tab V fs s)(c := val AND FAT_MASK) else fat_tab V fs s)"
    "fs_next_free (fats s' fs) = fs_next_free (fats s fs)" "reliable V s \<longrightarrow> rc = 0"
proof (rule fat_set_spec [OF assms, of val], goal_cases)
  case (1 rc s')
  then show ?case
    using fat_tab_put [of V fs s' s c val] fat_tab_cong [of V fs s' s] by (intro that [of rc s']) (auto split: if_splits)
qed

lemma fat_get_tab:
  assumes "fat_inv V fs s" and "in_fat fs s c"
  obtains v s' where "fat_get fs c s = Some (v, s')" "fat_step V fs s s'" "fat_tab V fs s' = fat_tab V fs s"
    "v = fat_tab V fs s c \<or> v = FAT_EOC" "fs_next_free (fats s' fs) = fs_next_free (fats s fs)" "reliable V s \<longrightarrow> v = fat_tab V fs s c"
proof (rule fat_get_spec [OF assms], goal_cases)
  case (1 v s')
  then show ?case using fat_tab_cong [of V fs s' s] by (intro that [of v s']) auto
qed

lemma fat_step_reliable: "fat_step V fs s s' \<Longrightarrow> reliable V s' = reliable V s"
  by (auto simp: fat_step_def)

lemma set_next_free:
  assumes "fat_inv V fs s" and "2 \<le> unat n" and "unat n \<le> unat (fs_cluster_count (fats s fs)) + 2"
  shows "fat_step V fs s (upd_fs fs (fs_next_free_update (\<lambda>_. n)) s)" "fat_tab V fs (upd_fs fs (fs_next_free_update (\<lambda>_. n)) s) = fat_tab V fs s"
proof -
  let ?f = "fats s fs\<lparr>fs_next_free := n\<rparr>"
  have e: "upd_fs fs (fs_next_free_update (\<lambda>_. n)) s = fat_upd (vfs_memory s) (drv s) fs ?f s" by (simp add: upd_fs_upd)
  have i: "fat_inv V fs (fat_upd (vfs_memory s) (drv s) fs ?f s)"
    using assms(1) by (simp add: fat_inv_def cache_bytes_def [symmetric] vol_sector_def [symmetric])
  show "fat_step V fs s (upd_fs fs (fs_next_free_update (\<lambda>_. n)) s)"
    unfolding e fat_step_def
    by (rule conjI [OF i], rule exI [of _ "vfs_memory s"], rule exI [of _ "drv s"], rule exI [of _ ?f])
      (use assms(2,3) in \<open>simp add: vol_sector_def next_free_ok_def\<close>)
  show "fat_tab V fs (upd_fs fs (fs_next_free_update (\<lambda>_. n)) s) = fat_tab V fs s"
    unfolding e by (rule fat_tab_cong, rule fat_raw_eqI)
      (simp_all add: table_sector_def cached_def cache_bytes_def vol_sector_def)
qed

lemma candidate_valid:
  assumes "fs_cluster_count f \<noteq> 0" and "unat (fs_cluster_count f) + 2 < 2 ^ 32"
  shows "fat_valid f (2 + x mod fs_cluster_count f)" "unat (2 + x mod fs_cluster_count f) = 2 + unat x mod unat (fs_cluster_count f)"
proof -
  have m: "unat (x mod fs_cluster_count f) = unat x mod unat (fs_cluster_count f)" by (simp add: unat_mod)
  have l: "unat x mod unat (fs_cluster_count f) < unat (fs_cluster_count f)" using assms(1) by (simp add: unat_gt_0)
  show u: "unat (2 + x mod fs_cluster_count f) = 2 + unat x mod unat (fs_cluster_count f)"
    using m l assms(2) by (subst unat_add_nowrap) simp_all
  have "unat (fs_cluster_count f + 2) = unat (fs_cluster_count f) + 2" using assms(2) by (subst unat_add_nowrap) simp_all
  then show "fat_valid f (2 + x mod fs_cluster_count f)" using u l by (simp add: fat_valid_def word_le_nat_alt word_less_nat_alt)
qed

text \<open>The table after cluster \<open>c\<close> was put at the end of the chain that ends in \<open>prev\<close>, 0 for a new chain.\<close>

definition linked :: "(u32 \<Rightarrow> u32) \<Rightarrow> u32 \<Rightarrow> u32 \<Rightarrow> u32 \<Rightarrow> u32" where
  "linked t prev c = (if prev = 0 then t(c := FAT_EOC) else t(c := FAT_EOC, prev := c))"

lemma next_free_bound:
  assumes "fat_inv V fs s" and "fat_valid (fats s fs) c"
  shows "2 \<le> unat (if c + 1 < fs_cluster_count (fats s fs) + 2 then c + 1 else 2)"
    "unat (if c + 1 < fs_cluster_count (fats s fs) + 2 then c + 1 else 2) \<le> unat (fs_cluster_count (fats s fs)) + 2"
proof -
  have "unat (fs_cluster_count (fats s fs)) + 2 < 2 ^ 31" using assms(1) by (simp add: fat_inv_def fat_layout_def)
  moreover have "unat (c + 1) = unat c + 1" using valid_in_fat(3) [OF assms] calculation by (subst unat_add_nowrap) simp_all
  ultimately show "2 \<le> unat (if c + 1 < fs_cluster_count (fats s fs) + 2 then c + 1 else 2)"
    "unat (if c + 1 < fs_cluster_count (fats s fs) + 2 then c + 1 else 2) \<le> unat (fs_cluster_count (fats s fs)) + 2"
    using valid_in_fat(2,3) [OF assms] by auto
qed

lemma alloc_here:
  assumes "fat_inv V fs s" and "prev = 0 \<or> fat_valid (fats s fs) prev" and "fat_valid (fats s fs) c"
    and "do { (rc, s3) \<leftarrow> fat_set fs c FAT_EOC s;
              if rc \<noteq> 0 then Some (0, s3)
              else do { (rc, s4) \<leftarrow> (if prev \<noteq> 0 then fat_set fs prev c s3 else Some (0, s3));
                        if rc \<noteq> 0 then Some (0, s4)
                        else Some (c, upd_fs fs (\<lambda>f. f\<lparr>fs_next_free := if c + 1 < fs_cluster_count f + 2 then c + 1 else 2\<rparr>) s4) } } = R"
  obtains (failed) s' where "R = Some (0, s')" "fat_step V fs s s'" "\<not> reliable V s"
      "fat_tab V fs s' = fat_tab V fs s \<or> fat_tab V fs s' = (fat_tab V fs s)(c := FAT_EOC)"
  | (allocated) s' where "R = Some (c, s')" "fat_step V fs s s'" "fat_tab V fs s' = linked (fat_tab V fs s) prev c"
      "fs_next_free (fats s' fs) = (if c + 1 < fs_cluster_count (fats s fs) + 2 then c + 1 else 2)"
proof -
  have e: "FAT_EOC AND FAT_MASK = FAT_EOC" by (simp add: FAT_EOC_def FAT_MASK_def)
  note cm = valid_masked(1) [OF assms(1,3)]
  obtain rc s3 where a: "fat_set fs c FAT_EOC s = Some (rc, s3)" "rc = 0 \<or> rc = - 1" "fat_step V fs s s3"
    "fat_tab V fs s3 = (if rc = 0 then (fat_tab V fs s)(c := FAT_EOC AND FAT_MASK) else fat_tab V fs s)" "reliable V s \<longrightarrow> rc = 0"
    by (rule fat_set_tab [OF assms(1) valid_in_fat(1) [OF assms(1,3)]])
  show thesis
  proof (cases "rc = 0")
    case False
    then show thesis using a assms(4) by (intro failed [of s3]) auto
  next
    case rc: True
    note inv3 = fat_step_inv [OF a(3)]
    obtain rc' s4 where b: "(if prev \<noteq> 0 then fat_set fs prev c s3 else Some (0, s3)) = Some (rc', s4)" "fat_step V fs s3 s4"
      "fat_tab V fs s4 = (if rc' = 0 then linked (fat_tab V fs s) prev c else (fat_tab V fs s)(c := FAT_EOC))" "reliable V s \<longrightarrow> rc' = 0"
    proof (cases "prev = 0")
      case True
      show thesis by (rule that [of 0 s3]) (use True a(4) rc fat_step_refl [OF inv3] in \<open>simp_all add: linked_def e\<close>)
    next
      case False
      then have "fat_valid (fats s3 fs) prev" using assms(2) fat_step_keeps(4) [OF a(3)] by simp
      from valid_in_fat(1) [OF inv3 this] show thesis
        by (rule fat_set_tab [OF inv3, of prev c])
          (rule that, use False a(4) rc cm fat_step_reliable [OF a(3)] in \<open>auto simp: linked_def e\<close>)
    qed
    show thesis
    proof (cases "rc' = 0")
      case False
      then show thesis using a b rc assms(4) fat_step_trans [OF a(3) b(2)] by (intro failed [of s4]) auto
    next
      case True
      note inv4 = fat_step_inv [OF b(2)]
      let ?n = "if c + 1 < fs_cluster_count (fats s4 fs) + 2 then c + 1 else 2"
      have u: "upd_fs fs (\<lambda>f. f\<lparr>fs_next_free := if c + 1 < fs_cluster_count f + 2 then c + 1 else 2\<rparr>) s4 = upd_fs fs (fs_next_free_update (\<lambda>_. ?n)) s4"
        by (simp add: upd_fs_def)
      note st = fat_step_trans [OF a(3) b(2)]
      have v4: "fat_valid (fats s4 fs) c" using assms(3) fat_step_keeps(4) [OF st] by simp
      note nf = set_next_free [OF inv4 next_free_bound [OF inv4 v4]]
      show thesis
        by (rule allocated [of "upd_fs fs (fs_next_free_update (\<lambda>_. ?n)) s4"])
          (use a b rc True assms(4) u nf fat_step_trans [OF st nf(1)] fat_step_keeps(5) [OF st] in \<open>auto simp: upd_fs_def\<close>)
    qed
  qed
qed

definition candidate :: "fat32 \<Rightarrow> u32 \<Rightarrow> u32" where
  "candidate f n = 2 + (fs_next_free f - 2 + n) mod fs_cluster_count f"

lemma inv_count:
  assumes "fat_inv V fs s"
  shows "unat (fs_cluster_count (fats s fs)) + 2 < 2 ^ 32"
  using assms by (simp add: fat_inv_def fat_layout_def)

text \<open>What the answer \<open>c\<close> of an allocation means for the table: the cluster was free and is linked, or the
  answer is 0 and nothing changed, except that a disk that failed in between may have lost a cluster.\<close>

definition alloc_result :: "'d volume \<Rightarrow> ptr \<Rightarrow> u32 \<Rightarrow> u32 \<Rightarrow> ('d, 'a) fat_state_scheme \<Rightarrow> ('d, 'a) fat_state_scheme \<Rightarrow> bool" where
  "alloc_result V fs prev c s s' \<longleftrightarrow> fat_step V fs s s' \<and>
    (if c \<noteq> 0
     then fat_valid (fats s fs) c \<and> fat_tab V fs s c = 0 \<and> fat_tab V fs s' = linked (fat_tab V fs s) prev c \<and>
       fs_next_free (fats s' fs) = (if c + 1 < fs_cluster_count (fats s fs) + 2 then c + 1 else 2)
     else fat_tab V fs s' = fat_tab V fs s \<or>
       (\<not> reliable V s \<and> (\<exists>x. fat_valid (fats s fs) x \<and> fat_tab V fs s x = 0 \<and> fat_tab V fs s' = (fat_tab V fs s)(x := FAT_EOC))))"

lemma alloc_result_step:
  assumes "fat_step V fs s s1" and "fat_tab V fs s1 = fat_tab V fs s" and "alloc_result V fs prev c s1 s'"
  shows "alloc_result V fs prev c s s'"
  using assms(3) fat_step_trans [OF assms(1), of s']
  unfolding alloc_result_def assms(2) fat_step_keeps(4,5) [OF assms(1)] fat_step_reliable [OF assms(1)] by blast

lemma alloc_loop_spec:
  assumes "fat_inv V fs s" and "prev = 0 \<or> fat_valid (fats s fs) prev" and "fs_cluster_count (fats s fs) \<noteq> 0"
  shows "\<exists>c s'. alloc_loop fs prev False n k s = Some (c, s') \<and> alloc_result V fs prev c s s' \<and>
    (c = 0 \<longrightarrow> reliable V s \<longrightarrow> (\<forall>j < k. fat_tab V fs s (candidate (fats s fs) (n + of_nat j)) \<noteq> 0))"
  using assms
proof (induction k arbitrary: n s)
  case 0
  then show ?case by (intro exI [of _ 0] exI [of _ s]) (simp add: fat_step_refl alloc_result_def)
next
  case (Suc k)
  let ?f = "fats s fs" let ?c = "candidate ?f n" let ?t = "fat_tab V fs s"
  have val: "fat_valid ?f ?c" unfolding candidate_def by (rule candidate_valid(1) [OF Suc.prems(3) inv_count [OF Suc.prems(1)]])
  obtain v s1 where g: "fat_get fs ?c s = Some (v, s1)" "fat_step V fs s s1" "fat_tab V fs s1 = ?t" "v = ?t ?c \<or> v = FAT_EOC"
    "fs_next_free (fats s1 fs) = fs_next_free ?f" "reliable V s \<longrightarrow> v = ?t ?c"
    by (rule fat_get_tab [OF Suc.prems(1) valid_in_fat(1) [OF Suc.prems(1) val]])
  note inv1 = fat_step_inv [OF g(2)] and keep = fat_step_keeps [OF g(2)]
  have prev1: "prev = 0 \<or> fat_valid (fats s1 fs) prev" using Suc.prems(2) keep(4) by simp
  show ?case
  proof (cases "v = 0")
    case False
    have cand: "candidate (fats s1 fs) = candidate ?f" using g(5) keep(5) by (simp add: candidate_def fun_eq_iff)
    have st: "alloc_loop fs prev False n (Suc k) s = alloc_loop fs prev False (n + 1) k s1"
      using g(1) False by (simp add: candidate_def [symmetric] Let_def)
    have "fs_cluster_count (fats s1 fs) \<noteq> 0" using Suc.prems(3) keep(5) by simp
    from Suc.IH [OF inv1 prev1 this, of "n + 1"] obtain c s' where h: "alloc_loop fs prev False (n + 1) k s1 = Some (c, s')"
      "alloc_result V fs prev c s1 s'"
      "c = 0 \<longrightarrow> reliable V s1 \<longrightarrow> (\<forall>j < k. fat_tab V fs s1 (candidate (fats s1 fs) (n + 1 + of_nat j)) \<noteq> 0)" by blast
    have "\<forall>j < Suc k. ?t (candidate ?f (n + of_nat j)) \<noteq> 0" if "c = 0" "reliable V s"
    proof (intro allI impI)
      fix j assume "j < Suc k"
      then show "?t (candidate ?f (n + of_nat j)) \<noteq> 0"
        using g(3,6) False h(3) that cand fat_step_reliable [OF g(2)] by (cases j) (auto simp: add.assoc)
    qed
    then show ?thesis using st h alloc_result_step [OF g(2,3) h(2)] by (intro exI [of _ c] exI [of _ s']) simp
  next
    case True
    then have t0: "?t ?c = 0" using g(4) by (auto simp: FAT_EOC_def)
    have val1: "fat_valid (fats s1 fs) ?c" using val keep(4) by simp
    note c0 = valid_masked(2) [OF Suc.prems(1) val]
    have st: "alloc_loop fs prev False n (Suc k) s =
      do { (rc, s3) \<leftarrow> fat_set fs ?c FAT_EOC s1;
           if rc \<noteq> 0 then Some (0, s3)
           else do { (rc, s4) \<leftarrow> (if prev \<noteq> 0 then fat_set fs prev ?c s3 else Some (0, s3));
                     if rc \<noteq> 0 then Some (0, s4)
                     else Some (?c, upd_fs fs (\<lambda>f. f\<lparr>fs_next_free := if ?c + 1 < fs_cluster_count f + 2 then ?c + 1 else 2\<rparr>) s4) } }"
      using g(1) True by (simp add: candidate_def [symmetric] Let_def)
    have "\<exists>c s'. alloc_loop fs prev False n (Suc k) s = Some (c, s') \<and> alloc_result V fs prev c s1 s' \<and> (c = 0 \<longrightarrow> \<not> reliable V s1)"
    proof (rule alloc_here [OF inv1 prev1 val1 st [symmetric]], goal_cases)
      case (1 s')
      then show ?case using g(3) t0 val1 by (intro exI [of _ 0] exI [of _ s']) (auto simp: alloc_result_def)
    next
      case (2 s')
      then show ?case using g(3) t0 val1 c0 by (intro exI [of _ ?c] exI [of _ s']) (simp add: alloc_result_def)
    qed
    then show ?thesis using alloc_result_step [OF g(2,3)] fat_step_reliable [OF g(2)] by blast
  qed
qed

text \<open>The clusters tried are all clusters of the volume.\<close>

lemma candidates_all:
  assumes "fat_valid f x" and "fs_cluster_count f \<noteq> 0" and "unat (fs_cluster_count f) + 2 < 2 ^ 31"
    and "2 \<le> unat (fs_next_free f)" and "unat (fs_next_free f) \<le> unat (fs_cluster_count f) + 2"
  obtains j where "j < unat (fs_cluster_count f)" "candidate f (of_nat j) = x"
proof -
  let ?n = "unat (fs_cluster_count f)" let ?b = "unat (fs_next_free f) - 2"
  have n0: "0 < ?n" using assms(2) by (simp add: unat_gt_0)
  have cc: "unat (fs_cluster_count f + 2) = ?n + 2" using assms(3) by (subst unat_add_nowrap) simp_all
  have x: "2 \<le> unat x" "unat x < ?n + 2" using assms(1) cc by (simp_all add: fat_valid_def word_le_nat_alt word_less_nat_alt)
  define y where "y = unat x - 2"
  have y: "y < ?n" "unat x = y + 2" using x by (simp_all add: y_def)
  define j where "j = (y + (?n - ?b mod ?n)) mod ?n"
  have j: "j < ?n" using n0 by (simp add: j_def)
  have bm: "?b mod ?n < ?n" using n0 by simp
  have "(?b + j) mod ?n = (?b mod ?n + (y + (?n - ?b mod ?n))) mod ?n" unfolding j_def by (simp add: mod_simps)
  also have "?b mod ?n + (y + (?n - ?b mod ?n)) = y + ?n" using bm by simp
  finally have m: "(?b + j) mod ?n = y" using y(1) by simp
  have ub: "unat (fs_next_free f - 2) = ?b" using assms(4) by (subst unat_diff_nowrap) simp_all
  have uj: "unat (of_nat j :: u32) = j" by (rule unat_of_nat_small) (use j assms(3) in simp)
  have "unat (fs_next_free f - 2 + of_nat j) = ?b + j" using ub uj j assms(3,5) by (subst unat_add_nowrap) simp_all
  then have "unat (candidate f (of_nat j)) = 2 + (?b + j) mod ?n"
    unfolding candidate_def using candidate_valid(2) [OF assms(2), of "fs_next_free f - 2 + of_nat j"] assms(3) by simp
  then have "unat (candidate f (of_nat j)) = unat x" using m y by simp
  then show thesis by (intro that [of j]) (use j in \<open>simp_all add: word_unat_eq_iff\<close>)
qed

subsection \<open>Chains of clusters\<close>

text \<open>\<open>chain t P c cs\<close>: following the table \<open>t\<close> from \<open>c\<close> visits the clusters \<open>cs\<close> and then leaves the
  valid clusters \<open>P\<close>.\<close>

fun chain :: "(u32 \<Rightarrow> u32) \<Rightarrow> (u32 \<Rightarrow> bool) \<Rightarrow> u32 \<Rightarrow> u32 list \<Rightarrow> bool" where
  "chain t P c [] \<longleftrightarrow> \<not> P c"
| "chain t P c (x # xs) \<longleftrightarrow> x = c \<and> P c \<and> chain t P (t c) xs"

lemma chain_unique: "chain t P c xs \<Longrightarrow> chain t P c ys \<Longrightarrow> xs = ys"
proof (induction xs arbitrary: c ys)
  case Nil
  then show ?case by (cases ys) auto
next
  case (Cons x xs)
  then show ?case by (cases ys) auto
qed

lemma chain_suffix: "chain t P c (xs @ y # ys) \<Longrightarrow> chain t P y (y # ys)"
  by (induction xs arbitrary: c) auto

lemma chain_distinct: "chain t P c cs \<Longrightarrow> distinct cs"
proof (induction cs arbitrary: c)
  case (Cons x xs)
  have "x \<notin> set xs"
  proof
    assume "x \<in> set xs"
    then obtain us vs where xs: "xs = us @ x # vs" by (meson split_list)
    then have "chain t P c ((x # us) @ x # vs)" using Cons.prems by auto
    then have "chain t P x (x # vs)" by (rule chain_suffix)
    moreover have "chain t P x (x # xs)" using Cons.prems by auto
    ultimately have "x # xs = x # vs" by (metis chain_unique)
    then show False using xs by simp
  qed
  then show ?case using Cons by auto
qed simp

lemma chain_tab_cong: "chain t P c cs \<Longrightarrow> (\<And>x. x \<in> set cs \<Longrightarrow> t' x = t x) \<Longrightarrow> chain t' P c cs"
  by (induction cs arbitrary: c) auto

lemma chain_valid: "chain t P c cs \<Longrightarrow> x \<in> set cs \<Longrightarrow> P x"
  by (induction cs arbitrary: c) auto

abbreviation fat_chain :: "'d volume \<Rightarrow> ptr \<Rightarrow> ('d, 'a) fat_state_scheme \<Rightarrow> u32 \<Rightarrow> u32 list \<Rightarrow> bool" where
  "fat_chain V fs s \<equiv> chain (fat_tab V fs s) (fat_valid (fats s fs))"

lemma eoc_invalid: "fat_inv V fs s \<Longrightarrow> \<not> fat_valid (fats s fs) FAT_EOC"
  using valid_masked(3) by blast

lemma fat_free_chain_spec:
  assumes "fat_inv V fs s" and "fat_chain V fs s c cs"
  shows "\<exists>s'. fat_free_chain fs c s = Some s' \<and> fat_step V fs s s' \<and>
    (\<forall>x. fat_tab V fs s' x = fat_tab V fs s x \<or> x \<in> set cs \<and> fat_tab V fs s' x = 0) \<and>
    (reliable V s \<longrightarrow> (\<forall>x \<in> set cs. fat_tab V fs s' x = 0))"
  using assms
proof (induction cs arbitrary: c s)
  case Nil
  then show ?case by (subst fat_free_chain.simps) (simp add: fat_step_refl)
next
  case (Cons y ys)
  have y: "y = c" "fat_valid (fats s fs) c" "fat_chain V fs s (fat_tab V fs s c) ys" using Cons.prems(2) by simp_all
  have cy: "c \<notin> set ys" using chain_distinct [OF Cons.prems(2)] y(1) by simp
  obtain v s1 where g: "fat_get fs c s = Some (v, s1)" "fat_step V fs s s1" "fat_tab V fs s1 = fat_tab V fs s"
    "v = fat_tab V fs s c \<or> v = FAT_EOC" "reliable V s \<longrightarrow> v = fat_tab V fs s c"
    by (rule fat_get_tab [OF Cons.prems(1) valid_in_fat(1) [OF Cons.prems(1) y(2)]])
  note inv1 = fat_step_inv [OF g(2)]
  have "fat_valid (fats s1 fs) c" using y(2) fat_step_keeps(4) [OF g(2)] by simp
  from valid_in_fat(1) [OF inv1 this] obtain rc s2 where st: "fat_set fs c 0 s1 = Some (rc, s2)" "fat_step V fs s1 s2"
    "fat_tab V fs s2 = (if rc = 0 then (fat_tab V fs s)(c := 0) else fat_tab V fs s)" "reliable V s \<longrightarrow> rc = 0"
    by (rule fat_set_tab [OF inv1, of c 0]) (use g(3) fat_step_reliable [OF g(2)] in auto)
  note inv2 = fat_step_inv [OF st(2)]
  have v2: "fat_valid (fats s2 fs) c" using y(2) fat_step_keeps(4) [OF fat_step_trans [OF g(2) st(2)]] by simp
  define s3 where "s3 = (if c < fs_next_free (fats s2 fs) then upd_fs fs (fs_next_free_update (\<lambda>_. c)) s2 else s2)"
  have s3: "fat_step V fs s2 s3" "fat_tab V fs s3 = fat_tab V fs s2"
    using set_next_free [OF inv2, of c] valid_in_fat(2,3) [OF inv2 v2] fat_step_refl [OF inv2] by (simp_all add: s3_def)
  note step = fat_step_trans [OF fat_step_trans [OF g(2) st(2)] s3(1)]
  have e: "fat_free_chain fs c s = fat_free_chain fs v s3"
    using g(1) st(1) y(2) by (subst fat_free_chain.simps) (simp add: s3_def)
  have P: "fat_valid (fats s3 fs) = fat_valid (fats s fs)" by (rule fat_step_keeps(4) [OF step])
  have t3: "fat_tab V fs s3 x = fat_tab V fs s x \<or> x = c \<and> fat_tab V fs s3 x = 0" for x using s3(2) st(3) by auto
  have ch: "chain (fat_tab V fs s3) (fat_valid (fats s fs)) (fat_tab V fs s c) ys"
    by (rule chain_tab_cong [OF y(3)]) (use t3 cy in blast)
  show ?case
  proof (cases "v = fat_tab V fs s c")
    case True
    from Cons.IH [OF fat_step_inv [OF step], of v] ch P True obtain s' where h: "fat_free_chain fs v s3 = Some s'" "fat_step V fs s3 s'"
      "\<And>x. fat_tab V fs s' x = fat_tab V fs s3 x \<or> x \<in> set ys \<and> fat_tab V fs s' x = 0"
      "reliable V s3 \<longrightarrow> (\<forall>x \<in> set ys. fat_tab V fs s' x = 0)" by auto
    have c0: "fat_tab V fs s' c = 0" if "reliable V s"
    proof -
      have "fat_tab V fs s3 c = 0" using that st(3,4) s3(2) by simp
      then show ?thesis using h(3) [of c] by auto
    qed
    have "fat_tab V fs s' x = fat_tab V fs s x \<or> x \<in> set (y # ys) \<and> fat_tab V fs s' x = 0" for x
      using t3 [of x] h(3) [of x] y(1) by auto
    then show ?thesis
      using e h(1,4) fat_step_trans [OF step h(2)] fat_step_reliable [OF step] c0 y(1) by (intro exI [of _ s']) auto
  next
    case False
    then have "v = FAT_EOC" using g(4) by blast
    then have "\<not> fat_valid (fats s3 fs) v" using eoc_invalid [OF fat_step_inv [OF step]] by simp
    then have "fat_free_chain fs v s3 = Some s3" by (subst fat_free_chain.simps) simp
    then show ?thesis using e step False g(5) t3 y(1) by (intro exI [of _ s3]) auto
  qed
qed

text \<open>The \<open>index\<close>-th cluster of a chain, wherever the walk starts on it.\<close>

lemma chain_drop:
  assumes "chain t P c cs" and "i < length cs"
  shows "chain t P (cs ! i) (drop i cs)"
  using assms
proof (induction cs arbitrary: c i)
  case (Cons x xs)
  then show ?case by (cases i) auto
qed simp

lemma follow_chain_spec:
  assumes "fat_inv V fs s" and "fat_chain V fs s c cs" and "unat i + length cs < 2 ^ 32" and "reliable V s"
  shows "\<exists>s' c'. follow_chain fs index c i s = Some (c', s') \<and> fat_step V fs s s' \<and> fat_tab V fs s' = fat_tab V fs s \<and>
    (if unat index - unat i < length cs then c' = cs ! (unat index - unat i) else \<not> fat_valid (fats s fs) c')"
  using assms
proof (induction cs arbitrary: c i s)
  case Nil
  then show ?case by (subst follow_chain.simps) (simp add: fat_step_refl)
next
  case (Cons y ys)
  have y: "y = c" "fat_valid (fats s fs) c" "fat_chain V fs s (fat_tab V fs s c) ys" using Cons.prems(2) by simp_all
  show ?case
  proof (cases "i < index")
    case False
    then have "unat index - unat i = 0" by (simp add: word_less_nat_alt)
    then show ?thesis using False Cons.prems(1) y(1) by (subst follow_chain.simps) (simp add: fat_step_refl)
  next
    case True
    obtain v s1 where g: "fat_get fs c s = Some (v, s1)" "fat_step V fs s s1" "fat_tab V fs s1 = fat_tab V fs s"
      "reliable V s \<longrightarrow> v = fat_tab V fs s c"
      by (rule fat_get_tab [OF Cons.prems(1) valid_in_fat(1) [OF Cons.prems(1) y(2)]])
    have v: "v = fat_tab V fs s c" using g(4) Cons.prems(4) by simp
    have i1: "unat (i + 1) = unat i + 1" using Cons.prems(3) by (subst unat_add_nowrap) simp_all
    have P: "fat_valid (fats s1 fs) = fat_valid (fats s fs)" by (rule fat_step_keeps(4) [OF g(2)])
    have "fat_chain V fs s1 v ys" using y(3) v g(3) P by simp
    moreover have "unat (i + 1) + length ys < 2 ^ 32" "reliable V s1" using i1 Cons.prems(3,4) fat_step_reliable [OF g(2)] by simp_all
    ultimately obtain s' c' where h: "follow_chain fs index v (i + 1) s1 = Some (c', s')" "fat_step V fs s1 s'" "fat_tab V fs s' = fat_tab V fs s1"
      "if unat index - unat (i + 1) < length ys then c' = ys ! (unat index - unat (i + 1)) else \<not> fat_valid (fats s1 fs) c'"
      using Cons.IH [OF fat_step_inv [OF g(2)]] by blast
    have e: "follow_chain fs index c i s = Some (c', s')" using True g(1) y(2) h(1) by (subst follow_chain.simps) simp
    have "unat index - unat i = Suc (unat index - unat (i + 1))" using True i1 by (simp add: word_less_nat_alt)
    then show ?thesis using e h(3,4) g(3) P fat_step_trans [OF g(2) h(2)] by (intro exI [of _ s'] exI [of _ c']) (simp split: if_splits)
  qed
qed

end
