(* ===== verification/FatFile.thy ===== *)
theory FatFile
  imports FatTable
begin

text \<open>
  The contents of files on a FAT file system: the bytes of a file are the bytes of the clusters of its chain,
  in order. \<^verbatim>\<open>fat_data_io\<close> and \<^verbatim>\<open>fat_io\<close> of \<open>Fat32\<close> read and write them at any offset and of any
  length, sector by sector, on a disk whose transfers succeed.
\<close>

subsection \<open>Transfers of several sectors\<close>

definition vol_byte :: "'d volume \<Rightarrow> ('d, 'a) block_state_scheme \<Rightarrow> nat \<Rightarrow> u8" where
  "vol_byte V s b = vol_sector V s (b div 512) ! (b mod 512)"

definition io_upd :: "mem \<Rightarrow> 'd \<Rightarrow> ('d, 'a) fat_state_scheme \<Rightarrow> ('d, 'a) fat_state_scheme" where
  "io_upd m d s = set_vfs_memory m (s\<lparr>drv := d\<rparr>)"

lemma io_upd_simps [simp]:
  "fats (io_upd m d s) = fats s" "cmos (io_upd m d s) = cmos s" "fat_nodes (io_upd m d s) = fat_nodes s" "vnodes (io_upd m d s) = vnodes s"
  "vfs_memory (io_upd m d s) = m" "drv (io_upd m d s) = d"
  "device i (io_upd m d s) = device i s" "block_bounce (io_upd m d s) = block_bounce s" "vol_ok V (io_upd m d s) = vol_ok V s"
  "vol_size V (io_upd m d s) = vol_size V s" "reliable V (io_upd m d s) = reliable V s" "io_upd m' d' (io_upd m d s) = io_upd m' d' s"
  by (simp_all add: io_upd_def set_vfs_memory_def vfs_memory_def device_def vol_ok_def vol_size_def on_disk_def reliable_def)

lemma io_upd_sector [simp]: "vol_sector V (io_upd m d s) l = vol_disk V d (of_nat l + vol_off V)"
  by (simp add: vol_sector_def)

lemma io_upd_id: "io_upd (vfs_memory s) (drv s) s = s"
  by (simp add: io_upd_def set_vfs_memory_def vfs_memory_def)

lemma io_upd_mem [simp]: "set_vfs_memory m' (io_upd m d s) = io_upd m' d s"
  by (simp add: io_upd_def set_vfs_memory_def)

lemma vol_read_n:
  assumes "vol_ok V s" and "reliable V s" and "apart buf (512 * unat n) (block_bounce s) 65536" and "n \<noteq> 0"
    and "l + unat n \<le> vol_size V s" and "l + unat n < 2 ^ 32" and "lba = of_nat l"
  obtains m d where "block_read (Some (vol_dev V)) lba n buf s = Some (0, io_upd m d s)"
    "\<forall>a. \<not> unat (a - block_bounce s) < 65536 \<longrightarrow> \<not> unat (a - buf) < 512 * unat n \<longrightarrow> m a = vfs_memory s a"
    "vol_disk V d = vol_disk V (drv s)" "\<forall>j < unat n. sector_at m buf j = vol_sector V s (l + j)"
proof -
  have v: "on_disk (vol_dev V) (vol_root V) (vol_off V) s" "disk_driver (vol_disk V) (device (vol_root V) s)" "block_bounce s \<noteq> NULL"
    using assms(1) by (simp_all add: vol_ok_def)
  have u: "unat lba = l" unfolding assms(7) by (rule unat_of_nat_small) (use assms(6) in simp)
  have 2: "unat lba + unat n \<le> unat (bd_sectors (device (vol_dev V) s))" using assms(5) u by (simp add: vol_size_def)
  obtain rc d m where w: "block_read (Some (vol_dev V)) lba n buf s = Some (rc, set_vfs_memory m (s\<lparr>drv := d\<rparr>))"
    "\<forall>a. \<not> unat (a - block_bounce s) < 65536 \<longrightarrow> \<not> unat (a - buf) < 512 * unat n \<longrightarrow> m a = vfs_memory s a"
    "vol_disk V d = vol_disk V (drv s)" "rc = 0 \<longrightarrow> (\<forall>j < unat n. sector_at m buf j = vol_disk V (drv s) (lba + vol_off V + of_nat j))"
    by (rule block_read_spec [OF v assms(3,4) 2])
  have "rc = 0" by (rule block_io_reliable [OF assms(2,1) w(1) [unfolded block_read_def] assms(4) 2])
  then show thesis
    by (intro that [of m d]) (use w assms(7) in \<open>simp_all add: io_upd_def vol_sector_def algebra_simps\<close>)
qed

lemma vol_write_n:
  assumes "vol_ok V s" and "reliable V s" and "apart buf (512 * unat n) (block_bounce s) 65536" and "n \<noteq> 0"
    and "l + unat n \<le> vol_size V s" and "l + unat n < 2 ^ 32" and "lba = of_nat l"
  obtains m d where "block_write (Some (vol_dev V)) lba n buf s = Some (0, io_upd m d s)"
    "\<forall>a. \<not> unat (a - block_bounce s) < 65536 \<longrightarrow> m a = vfs_memory s a"
    "\<forall>l' < 2 ^ 32. vol_disk V d (of_nat l' + vol_off V) =
       (if l \<le> l' \<and> l' < l + unat n then sector_at (vfs_memory s) buf (l' - l) else vol_sector V s l')"
proof -
  have v: "on_disk (vol_dev V) (vol_root V) (vol_off V) s" "disk_driver (vol_disk V) (device (vol_root V) s)" "block_bounce s \<noteq> NULL"
    using assms(1) by (simp_all add: vol_ok_def)
  have u: "unat lba = l" unfolding assms(7) by (rule unat_of_nat_small) (use assms(6) in simp)
  have 2: "unat lba + unat n \<le> unat (bd_sectors (device (vol_dev V) s))" using assms(5) u by (simp add: vol_size_def)
  obtain rc d m where w: "block_write (Some (vol_dev V)) lba n buf s = Some (rc, set_vfs_memory m (s\<lparr>drv := d\<rparr>))"
    "\<forall>a. \<not> unat (a - block_bounce s) < 65536 \<longrightarrow> m a = vfs_memory s a"
    "disk_writes (vol_disk V) (lba + vol_off V) n buf (drv s) (vfs_memory s) rc d"
    by (rule block_write_spec [OF v assms(3,4) 2])
  have rc: "rc = 0" by (rule block_io_reliable [OF assms(2,1) w(1) [unfolded block_write_def] assms(4) 2])
  have "vol_disk V d (of_nat l' + vol_off V) = (if l \<le> l' \<and> l' < l + unat n then sector_at (vfs_memory s) buf (l' - l) else vol_sector V s l')"
    if "l' < 2 ^ 32" for l'
  proof (cases "l \<le> l' \<and> l' < l + unat n")
    case True
    then obtain j where "l' = l + j" "j < unat n" by (metis le_Suc_ex nat_add_left_cancel_less)
    then show ?thesis using w(3) rc assms(7) by (simp add: disk_writes_def algebra_simps)
  next
    case False
    have e: "(of_nat l' + vol_off V) - (lba + vol_off V) = of_nat l' - of_nat l" using assms(7) by simp
    have u2: "unat (of_nat l' :: u64) = l'" "unat (of_nat l :: u64) = l" by (rule unat_of_nat_small; use that assms(6) in simp)+
    have "\<not> unat ((of_nat l' + vol_off V) - (lba + vol_off V)) < unat n"
      unfolding e by (subst unat_sub_if_size) (use False u2 assms(6) in \<open>auto simp: size_word.rep_eq word_le_nat_alt\<close>)
    then show ?thesis using w(3) False unfolding disk_writes_def vol_sector_def by auto
  qed
  then show thesis by (intro that [of m d]) (use w rc in \<open>simp_all add: io_upd_def\<close>)
qed

text \<open>Sectors as bytes.\<close>

lemma nth_sector_at: "k < 512 \<Longrightarrow> sector_at m p j ! k = m (p + of_nat (512 * j + k))"
  by (simp add: sector_at_def nth_bytes_at add.assoc)

lemma read_bytes:
  assumes "\<forall>j < n. sector_at m buf j = vol_sector V s (l + j)" and "k < 512 * n"
  shows "m (buf + of_nat k) = vol_byte V s (512 * l + k)"
proof -
  have "k div 512 < n" using assms(2) by (simp add: less_mult_imp_div_less mult.commute)
  then have "sector_at m buf (k div 512) ! (k mod 512) = vol_sector V s (l + k div 512) ! (k mod 512)" using assms(1) by simp
  moreover have "sector_at m buf (k div 512) ! (k mod 512) = m (buf + of_nat k)" by (subst nth_sector_at) simp_all
  ultimately show ?thesis by (simp add: vol_byte_def)
qed

lemma vol_byte_cong: "vol_disk V (drv s') = vol_disk V (drv s) \<Longrightarrow> vol_byte V s' = vol_byte V s"
  by (simp add: vol_byte_def vol_sector_def fun_eq_iff)

subsection \<open>Any range of bytes\<close>

lemma sector_split: "(x :: u64) = of_nat (512 * unat (x div BLOCK_SECTOR_SIZE)) + x mod BLOCK_SECTOR_SIZE"
  "unat (x div BLOCK_SECTOR_SIZE) = unat x div 512" "unat (x mod BLOCK_SECTOR_SIZE) = unat x mod 512"
proof -
  show u: "unat (x div BLOCK_SECTOR_SIZE) = unat x div 512" "unat (x mod BLOCK_SECTOR_SIZE) = unat x mod 512"
    by (simp_all add: BLOCK_SECTOR_SIZE_def unat_div unat_mod)
  have "(of_nat (512 * (unat x div 512)) :: u64) + of_nat (unat x mod 512) = of_nat (unat x)" by (simp only: of_nat_add [symmetric] mult_div_mod_eq)
  then show "x = of_nat (512 * unat (x div BLOCK_SECTOR_SIZE)) + x mod BLOCK_SECTOR_SIZE" using u by (metis of_nat_unat_64)
qed

lemma sector_lba: "of_nat l + off div BLOCK_SECTOR_SIZE = (of_nat (l + unat off div 512) :: u64)"
  using sector_split(2) [of off] by (metis of_nat_add of_nat_unat_64)

text \<open>The number of whole sectors in a length.\<close>

lemma whole_sectors:
  assumes "len \<ge> BLOCK_SECTOR_SIZE" and "unat len < 512 * 2 ^ 32" and "n = (ucast (len div BLOCK_SECTOR_SIZE) :: u32)"
    and "b = ucast n * BLOCK_SECTOR_SIZE"
  shows "unat n = unat len div 512" "n \<noteq> 0" "unat b = 512 * unat n" "unat b \<le> unat len" "0 < unat b" "b = of_nat (512 * unat n)"
    "unat (len - b) = unat len - unat b"
proof -
  have l: "512 \<le> unat len" using assms(1) by (simp add: BLOCK_SECTOR_SIZE_def word_le_nat_alt)
  have d: "unat len div 512 < 2 ^ 32" using assms(2) by (simp add: less_mult_imp_div_less)
  show n: "unat n = unat len div 512"
    using d unfolding assms(3) by (simp add: unsigned_ucast_eq sector_split(2) take_bit_nat_eq_self)
  have p: "0 < unat len div 512" using l by (simp add: div_greater_zero_iff)
  then show "n \<noteq> 0" using n by (metis unat_0 less_numeral_extra(3))
  have c: "unat (ucast n :: u64) = unat n" using unat_lt_32 [of n] by (simp add: unsigned_ucast_eq take_bit_nat_eq_self)
  show ub: "unat b = 512 * unat n"
    unfolding assms(4) BLOCK_SECTOR_SIZE_def using unat_lt_32 [of n] by (simp add: unat_word_ariths c)
  show le: "unat b \<le> unat len" "0 < unat b" using ub n p by simp_all
  show "b = of_nat (512 * unat n)" using ub by (metis of_nat_unat_64)
  show "unat (len - b) = unat len - unat b" using le(1) by (rule unat_diff_nowrap)
qed

text \<open>The rest of one sector, or of the range.\<close>

lemma part_sector:
  assumes "len \<noteq> 0" and "so = off mod BLOCK_SECTOR_SIZE" and "\<not> (so = 0 \<and> len \<ge> BLOCK_SECTOR_SIZE)"
    and "n = (if BLOCK_SECTOR_SIZE - so < len then BLOCK_SECTOR_SIZE - so else len)"
  shows "unat so = unat off mod 512" "0 < unat n" "unat n \<le> unat len" "unat so + unat n \<le> 512" "unat (len - n) = unat len - unat n"
    "unat n < unat len \<longrightarrow> unat so + unat n = 512"
proof -
  show so: "unat so = unat off mod 512" unfolding assms(2) by (rule sector_split(3))
  have l: "unat so < 512" using so by simp
  have d: "unat (BLOCK_SECTOR_SIZE - so) = 512 - unat so"
    using l by (subst unat_diff_nowrap) (simp_all add: BLOCK_SECTOR_SIZE_def)
  have u: "unat n = (if 512 - unat so < unat len then 512 - unat so else unat len)" using d assms(4) by (simp add: word_less_nat_alt)
  have "0 < unat len" using assms(1) by (simp add: unat_gt_0)
  then show "0 < unat n" "unat n \<le> unat len" "unat so + unat n \<le> 512" "unat n < unat len \<longrightarrow> unat so + unat n = 512"
    using l u by auto
  then show "unat (len - n) = unat len - unat n" by (intro unat_diff_nowrap)
qed

text \<open>Where a transfer of \<open>len\<close> bytes at byte \<open>512 * l + off\<close> of the volume may be: inside the volume, with the caller's
  buffer and the local sector apart from each other and from the bounce buffer.\<close>

definition io_range :: "'d volume \<Rightarrow> ptr \<Rightarrow> nat \<Rightarrow> u64 \<Rightarrow> ptr \<Rightarrow> u64 \<Rightarrow> ('d, 'a) fat_state_scheme \<Rightarrow> bool" where
  "io_range V stk l off buf len s \<longleftrightarrow> 512 * l + unat off + unat len \<le> 512 * vol_size V s \<and> 512 * l + unat off + unat len \<le> 512 * (2 ^ 32 - 1) \<and>
     apart buf (unat len) (block_bounce s) 65536 \<and> apart stk 512 (block_bounce s) 65536 \<and> apart buf (unat len) stk 512"

lemma sectors_fit:
  fixes x y v :: nat
  shows "512 * x \<le> y \<Longrightarrow> y \<le> 512 * v \<Longrightarrow> y \<le> 512 * (2 ^ 32 - 1) \<Longrightarrow> x \<le> v \<and> x < 2 ^ 32"
    "512 * x < y \<Longrightarrow> y \<le> 512 * v \<Longrightarrow> y \<le> 512 * (2 ^ 32 - 1) \<Longrightarrow> x < v \<and> x < 2 ^ 32"
    "y = 512 * x \<Longrightarrow> 512 * z \<le> v \<Longrightarrow> 512 * (l + x + z) \<le> 512 * l + y + v"
  by simp_all

lemma byte_pos: "(j :: nat) < 512 \<Longrightarrow> (512 * x + j) div 512 = x" "j < 512 \<Longrightarrow> (512 * x + j) mod 512 = j"
  by simp_all

lemma io_rangeD:
  assumes "io_range V stk l off buf len s"
  shows "512 * l + unat off + unat len \<le> 512 * vol_size V s" "512 * l + unat off + unat len \<le> 512 * (2 ^ 32 - 1)"
    "apart buf (unat len) (block_bounce s) 65536" "apart stk 512 (block_bounce s) 65536" "apart buf (unat len) stk 512"
  using assms unfolding io_range_def by blast+

lemma io_range_rest:
  assumes "io_range V stk l off buf len s" and "unat n \<le> unat len"
  shows "io_range V stk l (off + n) (buf + n) (len - n) (io_upd m d s)" "unat (off + n) = unat off + unat n"
proof -
  have "unat off + unat len \<le> 512 * (2 ^ 32 - 1)" using assms(1) unfolding io_range_def by linarith
  then have w: "unat off + unat n < 2 ^ 64" using assms(2) by simp
  show u: "unat (off + n) = unat off + unat n" by (rule unat_add_nowrap) (use w in simp)
  have l: "unat (len - n) = unat len - unat n" by (rule unat_diff_nowrap [OF assms(2)])
  show "io_range V stk l (off + n) (buf + n) (len - n) (io_upd m d s)"
    using assms u l unfolding io_range_def by (auto intro!: apart_off [of buf "unat len"])
qed

lemma io_range_len: "io_range V stk l off buf len s \<Longrightarrow> unat len < 512 * 2 ^ 32"
  unfolding io_range_def by simp

text \<open>Byte \<open>k\<close> of a buffer of \<open>n\<close> bytes is not among the bytes behind its first \<open>b\<close>.\<close>

lemma before_rest:
  assumes "k < unat b" and "unat b + r \<le> 2 ^ 63"
  shows "\<not> unat ((buf + of_nat k) - (buf + b) :: u64) < r"
proof -
  have u: "unat (of_nat k :: u64) = k" by (rule unat_of_nat_small) (use assms in simp)
  then have "unat ((buf + of_nat k) - buf) < unat b" using assms(1) by simp
  then show ?thesis by (rule not_after_chunk [OF _ assms(2)])
qed

lemma in_buffer: "k < n \<Longrightarrow> n \<le> 2 ^ 63 \<Longrightarrow> unat ((buf + of_nat k) - buf :: u64) < n"
  by (simp add: unat_of_nat_small)

text \<open>The bytes \<open>A\<close> a transfer may write besides the bounce buffer, and what is outside.\<close>

definition untouched :: "ptr \<Rightarrow> ptr \<Rightarrow> ptr \<Rightarrow> nat \<Rightarrow> mem \<Rightarrow> mem \<Rightarrow> bool" where
  "untouched bounce stk buf n m m' \<longleftrightarrow>
     (\<forall>a. \<not> unat (a - bounce) < 65536 \<longrightarrow> \<not> unat (a - stk) < 512 \<longrightarrow> \<not> unat (a - buf) < n \<longrightarrow> m' a = m a)"

lemma data_read_part:
  assumes "vol_ok V s" and "reliable V s" and "fs_dev (fats s fs) = Some (vol_dev V)" and "io_range V stk l off buf len s"
    and "len \<noteq> 0"
  obtains n m d where "0 < unat n" "unat n \<le> unat len" "vol_disk V d = vol_disk V (drv s)"
    "fat_data_io stk fs (of_nat l) off buf len False s = fat_data_io stk fs (of_nat l) (off + n) (buf + n) (len - n) False (io_upd m d s)"
    "\<forall>k < unat n. m (buf + of_nat k) = vol_byte V s (512 * l + unat off + k)"
    "untouched (block_bounce s) stk buf (unat n) (vfs_memory s) m"
proof (cases "off mod BLOCK_SECTOR_SIZE = 0 \<and> len \<ge> BLOCK_SECTOR_SIZE")
  case True
  define n where "n = (ucast (len div BLOCK_SECTOR_SIZE) :: u32)"
  define b where "b = ucast n * BLOCK_SECTOR_SIZE"
  note w = whole_sectors [OF conjunct2 [OF True] io_range_len [OF assms(4)] n_def b_def]
  let ?l = "l + unat off div 512"
  have "unat (off mod BLOCK_SECTOR_SIZE) = 0" using True by (simp only: unat_0)
  then have "unat off mod 512 = 0" by (simp only: sector_split(3))
  then have o: "unat off = 512 * (unat off div 512)" by (rule dvd_mult_div_cancel [OF mod_0_imp_dvd, symmetric])
  have ap: "apart buf (512 * unat n) (block_bounce s) 65536"
    by (rule apart_mono [OF io_rangeD(3) [OF assms(4)]]) (use w(3,4) in simp_all)
  have "512 * (?l + unat n) \<le> 512 * l + unat off + unat len" by (rule sectors_fit(3) [OF o]) (use w(3,4) in simp)
  then have r: "?l + unat n \<le> vol_size V s" "?l + unat n < 2 ^ 32" using sectors_fit(1) [OF _ io_rangeD(1,2) [OF assms(4)]] by blast+
  obtain m d where rd: "block_read (Some (vol_dev V)) (of_nat ?l) n buf s = Some (0, io_upd m d s)"
    "\<forall>a. \<not> unat (a - block_bounce s) < 65536 \<longrightarrow> \<not> unat (a - buf) < 512 * unat n \<longrightarrow> m a = vfs_memory s a"
    "vol_disk V d = vol_disk V (drv s)" "\<forall>j < unat n. sector_at m buf j = vol_sector V s (?l + j)"
    by (rule vol_read_n [OF assms(1,2) ap w(2) r refl])
  show thesis
  proof (rule that [of b d m])
    show "fat_data_io stk fs (of_nat l) off buf len False s = fat_data_io stk fs (of_nat l) (off + b) (buf + b) (len - b) False (io_upd m d s)"
      using assms(3,5) True rd(1)
      by (subst fat_data_io.simps) (simp add: Let_def sector_lba n_def [symmetric] b_def [symmetric])
    show "\<forall>k < unat b. m (buf + of_nat k) = vol_byte V s (512 * l + unat off + k)"
      using read_bytes [OF rd(4)] o w(3) by (simp add: algebra_simps)
  qed (use w rd in \<open>simp_all add: untouched_def\<close>)
next
  case False
  define so where "so = off mod BLOCK_SECTOR_SIZE"
  define n where "n = (if BLOCK_SECTOR_SIZE - so < len then BLOCK_SECTOR_SIZE - so else len)"
  note w = part_sector [OF assms(5) so_def False [folded so_def] n_def]
  let ?l = "l + unat off div 512"
  have q: "512 * ?l + unat so = 512 * l + unat off" using w(1) by simp
  have "512 * (l + unat off div 512) < 512 * l + unat off + unat len" using q w(2,3) by linarith
  then have r: "?l < vol_size V s" "?l < 2 ^ 32" using sectors_fit(2) [OF _ io_rangeD(1,2) [OF assms(4)]] by blast+
  have ap: "apart stk 512 (block_bounce s) 65536" and bs: "apart buf (unat len) stk 512" using io_rangeD [OF assms(4)] by blast+
  obtain rc m d where rd: "block_read (Some (vol_dev V)) (of_nat ?l) 1 stk s = Some (rc, set_vfs_memory m (s\<lparr>drv := d\<rparr>))"
    "\<forall>a. \<not> unat (a - block_bounce s) < 65536 \<longrightarrow> \<not> unat (a - stk) < 512 \<longrightarrow> m a = vfs_memory s a"
    "vol_disk V d = vol_disk V (drv s)" "rc = 0 \<longrightarrow> bytes_at m stk 512 = vol_sector V s ?l" "reliable V s \<longrightarrow> rc = 0"
    by (rule vol_read1 [OF assms(1) ap r refl])
  have rc: "rc = 0" using rd(5) assms(2) by simp
  define m2 where "m2 = memcpy buf (stk + so) n m"
  have "apart (stk + so) (unat n) buf (unat len)" by (rule apart_off [OF apart_sym [OF bs] w(4)])
  then have cp: "m2 a = (if unat (a - buf) < unat n then m (stk + so + (a - buf)) else m a)" for a
    unfolding m2_def by (intro memcpy_apart [OF apart_sym]) (use w(2,3) assms(5) in \<open>auto intro: unat_gt_0 [THEN iffD2]\<close>)
  show thesis
  proof (rule that [of n d m2])
    show "fat_data_io stk fs (of_nat l) off buf len False s = fat_data_io stk fs (of_nat l) (off + n) (buf + n) (len - n) False (io_upd m2 d s)"
      using assms(3,5) False [folded so_def] rd(1) rc
      by (subst fat_data_io.simps) (auto simp: Let_def sector_lba so_def [symmetric] n_def [symmetric] io_upd_def [symmetric] m2_def)
    show "\<forall>k < unat n. m2 (buf + of_nat k) = vol_byte V s (512 * l + unat off + k)"
    proof (intro allI impI)
      fix k assume k: "k < unat n"
      have u: "unat (of_nat k :: u64) = k" by (rule unat_of_nat_small) (use k w(4) in simp)
      have e: "512 * l + unat off + k = 512 * ?l + (unat so + k)" by (simp only: q [symmetric] add.assoc)
      have "unat so + k < 512" using k w(4) by simp
      then have "(512 * l + unat off + k) div 512 = ?l" "(512 * l + unat off + k) mod 512 = unat so + k"
        unfolding e by (rule byte_pos)+
      then have "vol_byte V s (512 * l + unat off + k) = bytes_at m stk 512 ! (unat so + k)" using rd(4) rc by (simp add: vol_byte_def)
      also have "\<dots> = m (stk + so + of_nat k)" using k w(4) by (simp add: nth_bytes_at add.assoc)
      finally show "m2 (buf + of_nat k) = vol_byte V s (512 * l + unat off + k)" using k by (simp add: cp u)
    qed
    show "untouched (block_bounce s) stk buf (unat n) (vfs_memory s) m2" using rd(2) by (simp add: untouched_def cp)
  qed (use w rd(3) in simp_all)
qed

lemma fat_data_io_read:
  assumes "vol_ok V s" and "reliable V s" and "fs_dev (fats s fs) = Some (vol_dev V)" and "io_range V stk l off buf len s"
  shows "\<exists>m d. fat_data_io stk fs (of_nat l) off buf len False s = Some (0, io_upd m d s) \<and> vol_disk V d = vol_disk V (drv s) \<and>
    (\<forall>k < unat len. m (buf + of_nat k) = vol_byte V s (512 * l + unat off + k)) \<and>
    untouched (block_bounce s) stk buf (unat len) (vfs_memory s) m"
  using assms
proof (induction "unat len" arbitrary: off buf len s rule: less_induct)
  case less
  show ?case
  proof (cases "len = 0")
    case True
    then show ?thesis
      by (intro exI [of _ "vfs_memory s"] exI [of _ "drv s"]) (subst fat_data_io.simps, simp add: io_upd_id untouched_def)
  next
    case False
    obtain n m d where p: "0 < unat n" "unat n \<le> unat len" "vol_disk V d = vol_disk V (drv s)"
      "fat_data_io stk fs (of_nat l) off buf len False s = fat_data_io stk fs (of_nat l) (off + n) (buf + n) (len - n) False (io_upd m d s)"
      "\<forall>k < unat n. m (buf + of_nat k) = vol_byte V s (512 * l + unat off + k)"
      "untouched (block_bounce s) stk buf (unat n) (vfs_memory s) m"
      by (rule data_read_part [OF less.prems False])
    have ln: "unat (len - n) = unat len - unat n" by (rule unat_diff_nowrap [OF p(2)])
    have on: "unat (off + n) = unat off + unat n" by (rule io_range_rest(2) [OF less.prems(4) p(2)])
    have "unat (len - n) < unat len" using p(1,2) ln by simp
    from less.hyps [OF this, of "io_upd m d s" "off + n" "buf + n"] less.prems(1-3) io_range_rest(1) [OF less.prems(4) p(2), of m d]
    obtain m' d' where h: "fat_data_io stk fs (of_nat l) (off + n) (buf + n) (len - n) False (io_upd m d s) = Some (0, io_upd m' d' s)"
      "vol_disk V d' = vol_disk V d" "\<forall>k < unat (len - n). m' (buf + n + of_nat k) = vol_byte V (io_upd m d s) (512 * l + unat (off + n) + k)"
      "untouched (block_bounce s) stk (buf + n) (unat (len - n)) m m'" by auto
    have vb: "vol_byte V (io_upd m d s) = vol_byte V s" by (rule vol_byte_cong) (use p(3) in simp)
    have L: "unat len \<le> 2 ^ 63" using io_range_len [OF less.prems(4)] by simp
    have bytes: "m' (buf + of_nat k) = vol_byte V s (512 * l + unat off + k)" if k: "k < unat len" for k
    proof (cases "k < unat n")
      case True
      have "\<not> unat ((buf + of_nat k) - block_bounce s) < 65536" "\<not> unat ((buf + of_nat k) - stk) < 512"
        by (rule apart_in [OF io_rangeD(3) [OF less.prems(4)] in_buffer [OF k L]], rule apart_in [OF io_rangeD(5) [OF less.prems(4)] in_buffer [OF k L]])
      moreover have "\<not> unat ((buf + of_nat k) - (buf + n)) < unat (len - n)"
        by (rule before_rest [OF True]) (use ln L p(2) in simp)
      ultimately show ?thesis using h(4) p(5) True by (simp add: untouched_def)
    next
      case F: False
      define j where "j = k - unat n"
      have j: "k = unat n + j" "j < unat (len - n)" using F k ln by (simp_all add: j_def)
      have "m' (buf + n + of_nat j) = vol_byte V s (512 * l + (unat off + unat n) + j)" using h(3) j(2) vb on by simp
      then show ?thesis by (simp add: j(1) algebra_simps)
    qed
    have out: "untouched (block_bounce s) stk buf (unat len) (vfs_memory s) m'"
      unfolding untouched_def
    proof (intro allI impI)
      fix a assume a: "\<not> unat (a - block_bounce s) < 65536" "\<not> unat (a - stk) < 512" "\<not> unat (a - buf) < unat len"
      then have "\<not> unat (a - (buf + n)) < unat (len - n)" using in_later_chunk [of a buf n "unat (len - n)" "unat len"] ln p(2) by auto
      then show "m' a = vfs_memory s a" using h(4) p(2,6) a by (simp add: untouched_def)
    qed
    show ?thesis using p(3,4) h(1,2) bytes out by (intro exI [of _ m'] exI [of _ d']) simp
  qed
qed

text \<open>The disk after \<open>n\<close> bytes from \<open>buf\<close> were written at byte \<open>p\<close>.\<close>

definition bytes_written :: "'d volume \<Rightarrow> nat \<Rightarrow> ptr \<Rightarrow> nat \<Rightarrow> ('d, 'a) fat_state_scheme \<Rightarrow> 'd \<Rightarrow> bool" where
  "bytes_written V p buf n s d \<longleftrightarrow>
     (\<forall>l < 2 ^ 32. l < p div 512 \<longrightarrow> vol_disk V d (of_nat l + vol_off V) = vol_sector V s l) \<and>
     (\<forall>b < 512 * 2 ^ 32. vol_disk V d (of_nat (b div 512) + vol_off V) ! (b mod 512) =
        (if p \<le> b \<and> b < p + n then vfs_memory s (buf + of_nat (b - p)) else vol_byte V s b))"

lemma bytes_writtenI:
  assumes "\<And>l. l < 2 ^ 32 \<Longrightarrow> l < p div 512 \<Longrightarrow> vol_disk V d (of_nat l + vol_off V) = vol_sector V s l"
    and "\<And>l j. l < 2 ^ 32 \<Longrightarrow> j < 512 \<Longrightarrow> vol_disk V d (of_nat l + vol_off V) ! j =
      (if p \<le> 512 * l + j \<and> 512 * l + j < p + n then vfs_memory s (buf + of_nat (512 * l + j - p)) else vol_sector V s l ! j)"
  shows "bytes_written V p buf n s d"
  unfolding bytes_written_def
proof (intro conjI allI impI)
  fix b :: nat assume b: "b < 512 * 2 ^ 32"
  have "b div 512 < 2 ^ 32" using b by (simp add: less_mult_imp_div_less)
  from assms(2) [OF this, of "b mod 512"]
  show "vol_disk V d (of_nat (b div 512) + vol_off V) ! (b mod 512) =
      (if p \<le> b \<and> b < p + n then vfs_memory s (buf + of_nat (b - p)) else vol_byte V s b)"
    by (simp add: vol_byte_def)
qed (rule assms(1))

lemma bytes_written_trans:
  assumes "bytes_written V p buf n s d" and "bytes_written V (p + n) (buf + of_nat n) k (io_upd m d s) d'"
    and "\<And>j. j < k \<Longrightarrow> m (buf + of_nat n + of_nat j) = vfs_memory s (buf + of_nat n + of_nat j)"
  shows "bytes_written V p buf (n + k) s d'"
  unfolding bytes_written_def
proof (intro conjI allI impI)
  fix l :: nat assume l: "l < 2 ^ 32" "l < p div 512"
  have "p div 512 \<le> (p + n) div 512" by (intro div_le_mono) simp
  then have "l < (p + n) div 512" using l(2) by linarith
  then show "vol_disk V d' (of_nat l + vol_off V) = vol_sector V s l" using assms(1,2) l unfolding bytes_written_def by simp
next
  fix b :: nat assume b: "b < 512 * 2 ^ 32"
  have 1: "vol_byte V (io_upd m d s) b = (if p \<le> b \<and> b < p + n then vfs_memory s (buf + of_nat (b - p)) else vol_byte V s b)"
    using assms(1) b unfolding bytes_written_def by (simp add: vol_byte_def)
  have 2: "vol_disk V d' (of_nat (b div 512) + vol_off V) ! (b mod 512) =
     (if p + n \<le> b \<and> b < p + n + k then m (buf + of_nat n + of_nat (b - (p + n))) else vol_byte V (io_upd m d s) b)"
    using assms(2) b unfolding bytes_written_def by simp
  show "vol_disk V d' (of_nat (b div 512) + vol_off V) ! (b mod 512) =
     (if p \<le> b \<and> b < p + (n + k) then vfs_memory s (buf + of_nat (b - p)) else vol_byte V s b)"
  proof (cases "p + n \<le> b \<and> b < p + n + k")
    case True
    then have "m (buf + of_nat n + of_nat (b - (p + n))) = vfs_memory s (buf + (of_nat n + of_nat (b - (p + n))))"
      using assms(3) [of "b - (p + n)"] by (simp add: add.assoc less_diff_conv2)
    moreover have "n + (b - (p + n)) = b - p" using True by simp
    then have "(of_nat n + of_nat (b - (p + n)) :: u64) = of_nat (b - p)" by (metis of_nat_add)
    ultimately show ?thesis using 2 True by simp
  next
    case False
    then show ?thesis using 1 2 by auto
  qed
qed

lemma sectors_written:
  assumes "\<forall>l' < 2 ^ 32. vol_disk V d (of_nat l' + vol_off V) =
    (if l \<le> l' \<and> l' < l + n then sector_at (vfs_memory s) buf (l' - l) else vol_sector V s l')"
  shows "bytes_written V (512 * l) buf (512 * n) s d"
proof (rule bytes_writtenI)
  fix l' j :: nat assume l': "l' < 2 ^ 32" and j: "j < 512"
  show "vol_disk V d (of_nat l' + vol_off V) ! j = (if 512 * l \<le> 512 * l' + j \<and> 512 * l' + j < 512 * l + 512 * n
      then vfs_memory s (buf + of_nat (512 * l' + j - 512 * l)) else vol_sector V s l' ! j)"
  proof (cases "l \<le> l' \<and> l' < l + n")
    case True
    then obtain i where i: "l' = l + i" "i < n" by (metis le_Suc_ex nat_add_left_cancel_less)
    have "512 * l' + j - 512 * l = 512 * i + j" "512 * l \<le> 512 * l' + j \<and> 512 * l' + j < 512 * l + 512 * n" using i j by simp_all
    then show ?thesis using assms l' True i j by (simp only: nth_sector_at diff_add_inverse if_True simp_thms)
  next
    case False
    then have "\<not> (512 * l \<le> 512 * l' + j \<and> 512 * l' + j < 512 * l + 512 * n)" using j by linarith
    then show ?thesis using assms l' False by (simp only: if_False)
  qed
qed (use assms in \<open>simp add: byte_pos\<close>)

text \<open>A sector in which \<open>n\<close> bytes from \<open>so\<close> on were replaced.\<close>

lemma patched_byte:
  fixes m2 :: mem
  assumes "\<And>a. m2 a = (if unat (a - (stk + so)) < unat n then m (buf + (a - (stk + so))) else m a)"
    and "\<And>k. k < unat n \<Longrightarrow> m (buf + of_nat k) = m0 (buf + of_nat k)" and "unat so + unat n \<le> 512" and "j < 512"
  shows "m2 (stk + of_nat j) = (if unat so \<le> j \<and> j < unat so + unat n then m0 (buf + of_nat (j - unat so)) else m (stk + of_nat j))"
proof -
  have uj: "unat (of_nat j :: u64) = j" by (rule unat_of_nat_small) (use assms(4) in simp)
  have d: "(stk + of_nat j) - (stk + so) = of_nat j - so" by simp
  show ?thesis
  proof (cases "unat so \<le> j")
    case True
    have u: "unat (of_nat j - so) = j - unat so" using True by (subst unat_diff_nowrap) (simp_all only: uj)
    then have e: "of_nat j - so = of_nat (j - unat so)" by (metis of_nat_unat_64)
    show ?thesis
    proof (cases "j - unat so < unat n")
      case T: True
      then have "m2 (stk + of_nat j) = m (buf + of_nat (j - unat so))" using u by (simp only: assms(1) d e if_True)
      moreover have "m (buf + of_nat (j - unat so)) = m0 (buf + of_nat (j - unat so))" by (rule assms(2) [OF T])
      moreover have "unat so \<le> j \<and> j < unat so + unat n" using T True by linarith
      ultimately show ?thesis by (simp only: if_True simp_thms)
    next
      case F: False
      then have "m2 (stk + of_nat j) = m (stk + of_nat j)" using u by (simp only: assms(1) d e if_False)
      moreover have "\<not> j < unat so + unat n" using F True by linarith
      ultimately show ?thesis by simp
    qed
  next
    case F: False
    have "unat (of_nat j - so) = 2 ^ 64 + j - unat so"
      using F uj by (subst unat_sub_if_size) (simp add: size_word.rep_eq word_le_nat_alt)
    then have "\<not> unat (of_nat j - so) < unat n" using assms(3) by simp
    then show ?thesis using F by (simp add: assms(1) d)
  qed
qed

lemma sector_patched:
  assumes "\<And>l'. l' < 2 ^ 32 \<Longrightarrow> l' \<noteq> l \<Longrightarrow> vol_disk V d (of_nat l' + vol_off V) = vol_sector V s l'"
    and "\<And>j. j < 512 \<Longrightarrow> vol_disk V d (of_nat l + vol_off V) ! j = m2 (stk + of_nat j)"
    and "\<And>j. j < 512 \<Longrightarrow> m2 (stk + of_nat j) =
      (if unat (so :: u64) \<le> j \<and> j < unat so + unat (n :: u64) then vfs_memory s (buf + of_nat (j - unat so)) else vol_sector V s l ! j)"
    and "unat so + unat n \<le> 512" and "unat so < 512"
  shows "bytes_written V (512 * l + unat so) buf (unat n) s d"
proof (rule bytes_writtenI)
  fix l' j :: nat assume l': "l' < 2 ^ 32" and j: "j < 512"
  show "vol_disk V d (of_nat l' + vol_off V) ! j = (if 512 * l + unat so \<le> 512 * l' + j \<and> 512 * l' + j < 512 * l + unat so + unat n
      then vfs_memory s (buf + of_nat (512 * l' + j - (512 * l + unat so))) else vol_sector V s l' ! j)"
  proof (cases "l' = l")
    case True
    then show ?thesis using assms(2,3) [OF j] by simp
  next
    case False
    then have "\<not> (512 * l + unat so \<le> 512 * l' + j \<and> 512 * l' + j < 512 * l + unat so + unat n)" using j assms(4) by linarith
    then show ?thesis using assms(1) [OF l' False] by (simp only: if_False)
  qed
next
  fix l' assume l': "l' < 2 ^ 32" "l' < (512 * l + unat so) div 512"
  have "(512 * l + unat so) div 512 = l" by (rule byte_pos [OF assms(5)])
  then show "vol_disk V d (of_nat l' + vol_off V) = vol_sector V s l'" using assms(1) l' by simp
qed

lemma data_write_part:
  assumes "vol_ok V s" and "reliable V s" and "fs_dev (fats s fs) = Some (vol_dev V)" and "io_range V stk l off buf len s"
    and "len \<noteq> 0"
  obtains n m d where "0 < unat n" "unat n \<le> unat len"
    "fat_data_io stk fs (of_nat l) off buf len True s = fat_data_io stk fs (of_nat l) (off + n) (buf + n) (len - n) True (io_upd m d s)"
    "bytes_written V (512 * l + unat off) buf (unat n) s d" "untouched (block_bounce s) stk stk 0 (vfs_memory s) m"
proof (cases "off mod BLOCK_SECTOR_SIZE = 0 \<and> len \<ge> BLOCK_SECTOR_SIZE")
  case True
  define n where "n = (ucast (len div BLOCK_SECTOR_SIZE) :: u32)"
  define b where "b = ucast n * BLOCK_SECTOR_SIZE"
  note w = whole_sectors [OF conjunct2 [OF True] io_range_len [OF assms(4)] n_def b_def]
  let ?l = "l + unat off div 512"
  have "unat (off mod BLOCK_SECTOR_SIZE) = 0" using True by (simp only: unat_0)
  then have "unat off mod 512 = 0" by (simp only: sector_split(3))
  then have o: "unat off = 512 * (unat off div 512)" by (rule dvd_mult_div_cancel [OF mod_0_imp_dvd, symmetric])
  have p: "512 * l + unat off = 512 * ?l" using o by (simp only: distrib_left)
  have ap: "apart buf (512 * unat n) (block_bounce s) 65536"
    by (rule apart_mono [OF io_rangeD(3) [OF assms(4)]]) (use w(3,4) in simp_all)
  have "512 * (?l + unat n) \<le> 512 * l + unat off + unat len" by (rule sectors_fit(3) [OF o]) (use w(3,4) in simp)
  then have r: "?l + unat n \<le> vol_size V s" "?l + unat n < 2 ^ 32" using sectors_fit(1) [OF _ io_rangeD(1,2) [OF assms(4)]] by blast+
  obtain m d where wr: "block_write (Some (vol_dev V)) (of_nat ?l) n buf s = Some (0, io_upd m d s)"
    "\<forall>a. \<not> unat (a - block_bounce s) < 65536 \<longrightarrow> m a = vfs_memory s a"
    "\<forall>l' < 2 ^ 32. vol_disk V d (of_nat l' + vol_off V) =
       (if ?l \<le> l' \<and> l' < ?l + unat n then sector_at (vfs_memory s) buf (l' - ?l) else vol_sector V s l')"
    by (rule vol_write_n [OF assms(1,2) ap w(2) r refl])
  have "bytes_written V (512 * ?l) buf (512 * unat n) s d" by (rule sectors_written [OF wr(3)])
  then show thesis
    by (intro that [of b m d])
      (use assms(3,5) True wr w in \<open>simp_all add: p untouched_def, subst fat_data_io.simps,
        simp add: Let_def sector_lba n_def [symmetric] b_def [symmetric]\<close>)
next
  case False
  define so where "so = off mod BLOCK_SECTOR_SIZE"
  define n where "n = (if BLOCK_SECTOR_SIZE - so < len then BLOCK_SECTOR_SIZE - so else len)"
  note w = part_sector [OF assms(5) so_def False [folded so_def] n_def]
  let ?l = "l + unat off div 512"
  have q: "512 * ?l + unat so = 512 * l + unat off" using w(1) by simp
  have "512 * (l + unat off div 512) < 512 * l + unat off + unat len" using q w(2,3) by linarith
  then have r: "?l < vol_size V s" "?l < 2 ^ 32" using sectors_fit(2) [OF _ io_rangeD(1,2) [OF assms(4)]] by blast+
  have ap: "apart stk 512 (block_bounce s) 65536" and bs: "apart buf (unat len) stk 512" and bb: "apart buf (unat len) (block_bounce s) 65536"
    using io_rangeD [OF assms(4)] by blast+
  obtain rc m d where rd: "block_read (Some (vol_dev V)) (of_nat ?l) 1 stk s = Some (rc, set_vfs_memory m (s\<lparr>drv := d\<rparr>))"
    "\<forall>a. \<not> unat (a - block_bounce s) < 65536 \<longrightarrow> \<not> unat (a - stk) < 512 \<longrightarrow> m a = vfs_memory s a"
    "vol_disk V d = vol_disk V (drv s)" "rc = 0 \<longrightarrow> bytes_at m stk 512 = vol_sector V s ?l" "reliable V s \<longrightarrow> rc = 0"
    by (rule vol_read1 [OF assms(1) ap r refl])
  have rc: "rc = 0" using rd(5) assms(2) by simp
  define m2 where "m2 = memcpy (stk + so) buf n m"
  have cp: "m2 a = (if unat (a - (stk + so)) < unat n then m (buf + (a - (stk + so))) else m a)" for a
    unfolding m2_def by (rule memcpy_apart [OF apart_mono [OF apart_off [OF apart_sym [OF bs] w(4)] le_refl w(3)]]) (use w(2) in simp)
  let ?s2 = "io_upd m2 d s"
  obtain rc' m3 d3 where wr: "block_write (Some (vol_dev V)) (of_nat ?l) 1 stk ?s2 = Some (rc', set_vfs_memory m3 (?s2\<lparr>drv := d3\<rparr>))"
    "\<forall>a. \<not> unat (a - block_bounce ?s2) < 65536 \<longrightarrow> m3 a = vfs_memory ?s2 a"
    "\<forall>l' < 2 ^ 32. l' \<noteq> ?l \<longrightarrow> vol_disk V d3 (of_nat l' + vol_off V) = vol_sector V ?s2 l'"
    "rc' = 0 \<longrightarrow> vol_disk V d3 (of_nat ?l + vol_off V) = bytes_at (vfs_memory ?s2) stk 512" "reliable V ?s2 \<longrightarrow> rc' = 0"
    by (rule vol_write1 [of V ?s2 stk ?l]) (use assms(1) ap r in simp_all)
  have rc': "rc' = 0" using wr(5) assms(2) by simp
  have e3: "set_vfs_memory m3 (?s2\<lparr>drv := d3\<rparr>) = io_upd m3 d3 s" by (simp add: io_upd_def set_vfs_memory_def)
  have "m (buf + of_nat k) = vfs_memory s (buf + of_nat k)" if k: "k < unat n" for k
  proof -
    have i: "unat (buf + of_nat k - buf) < unat len" by (rule in_buffer) (use k w(3) io_range_len [OF assms(4)] in simp_all)
    show ?thesis using rd(2) apart_in [OF bb i] apart_in [OF bs i] by blast
  qed
  then have byte: "m2 (stk + of_nat j) = (if unat so \<le> j \<and> j < unat so + unat n then vfs_memory s (buf + of_nat (j - unat so)) else m (stk + of_nat j))"
    if "j < 512" for j by (rule patched_byte [OF cp _ w(4) that])
  have t: "m (stk + of_nat j) = vol_sector V s ?l ! j" if "j < 512" for j using rd(4) rc nth_bytes_at [OF that, of m stk] by simp
  have bw: "bytes_written V (512 * ?l + unat so) buf (unat n) s d3"
  proof (rule sector_patched [where ?m2.0 = m2 and stk = stk])
    fix l' :: nat assume "l' < 2 ^ 32" "l' \<noteq> ?l"
    then show "vol_disk V d3 (of_nat l' + vol_off V) = vol_sector V s l'" using wr(3) rd(3) by (simp add: vol_sector_def)
  next
    fix j :: nat assume j: "j < 512"
    show "vol_disk V d3 (of_nat ?l + vol_off V) ! j = m2 (stk + of_nat j)" using wr(4) rc' nth_bytes_at [OF j, of m2 stk] by simp
    show "m2 (stk + of_nat j) = (if unat so \<le> j \<and> j < unat so + unat n then vfs_memory s (buf + of_nat (j - unat so)) else vol_sector V s ?l ! j)"
      using byte [OF j] t [OF j] by simp
  qed (use w(1,2,4) in simp_all)
  show thesis
  proof (rule that [of n m3 d3])
    show "fat_data_io stk fs (of_nat l) off buf len True s = fat_data_io stk fs (of_nat l) (off + n) (buf + n) (len - n) True (io_upd m3 d3 s)"
      using assms(3,5) False [folded so_def] rd(1) rc wr(1) rc' e3
      by (subst fat_data_io.simps) (auto simp: Let_def sector_lba so_def [symmetric] n_def [symmetric] io_upd_def [symmetric] m2_def [symmetric])
    show "untouched (block_bounce s) stk stk 0 (vfs_memory s) m3"
      unfolding untouched_def
    proof (intro allI impI)
      fix a assume a: "\<not> unat (a - block_bounce s) < 65536" "\<not> unat (a - stk) < 512"
      then have "\<not> unat (a - (stk + so)) < unat n" using in_later_chunk [of a stk so "unat n" 512] w(4) by blast
      then show "m3 a = vfs_memory s a" using wr(2) rd(2) a by (simp add: cp)
    qed
  qed (use w(2,3) bw [unfolded q] in simp_all)
qed

lemma fat_data_io_write:
  assumes "vol_ok V s" and "reliable V s" and "fs_dev (fats s fs) = Some (vol_dev V)" and "io_range V stk l off buf len s"
  shows "\<exists>m d. fat_data_io stk fs (of_nat l) off buf len True s = Some (0, io_upd m d s) \<and>
    bytes_written V (512 * l + unat off) buf (unat len) s d \<and> untouched (block_bounce s) stk stk 0 (vfs_memory s) m"
  using assms
proof (induction "unat len" arbitrary: off buf len s rule: less_induct)
  case less
  show ?case
  proof (cases "len = 0")
    case True
    then show ?thesis
      by (intro exI [of _ "vfs_memory s"] exI [of _ "drv s"])
        (subst fat_data_io.simps, auto simp: io_upd_id untouched_def bytes_written_def vol_sector_def vol_byte_def)
  next
    case False
    obtain n m d where p: "0 < unat n" "unat n \<le> unat len"
      "fat_data_io stk fs (of_nat l) off buf len True s = fat_data_io stk fs (of_nat l) (off + n) (buf + n) (len - n) True (io_upd m d s)"
      "bytes_written V (512 * l + unat off) buf (unat n) s d" "untouched (block_bounce s) stk stk 0 (vfs_memory s) m"
      by (rule data_write_part [OF less.prems False])
    have ln: "unat (len - n) = unat len - unat n" by (rule unat_diff_nowrap [OF p(2)])
    have on: "unat (off + n) = unat off + unat n" by (rule io_range_rest(2) [OF less.prems(4) p(2)])
    have "unat (len - n) < unat len" using p(1,2) ln by simp
    from less.hyps [OF this, of "io_upd m d s" "off + n" "buf + n"] less.prems(1-3) io_range_rest(1) [OF less.prems(4) p(2), of m d]
    obtain m' d' where h: "fat_data_io stk fs (of_nat l) (off + n) (buf + n) (len - n) True (io_upd m d s) = Some (0, io_upd m' d' s)"
      "bytes_written V (512 * l + unat (off + n)) (buf + n) (unat (len - n)) (io_upd m d s) d'" "untouched (block_bounce s) stk stk 0 m m'" by auto
    have L: "unat len \<le> 2 ^ 63" using io_range_len [OF less.prems(4)] by simp
    have same: "m (buf + of_nat (unat n) + of_nat j) = vfs_memory s (buf + of_nat (unat n) + of_nat j)" if j: "j < unat (len - n)" for j
    proof -
      have "unat n + j < unat len" using j ln p(2) by linarith
      from in_buffer [OF this L, of buf] have i: "unat ((buf + of_nat (unat n) + of_nat j) - buf) < unat len" by (simp add: add.assoc)
      show ?thesis
        using p(5) apart_in [OF io_rangeD(3) [OF less.prems(4)] i] apart_in [OF io_rangeD(5) [OF less.prems(4)] i]
        by (simp add: untouched_def)
    qed
    have "bytes_written V (512 * l + unat off) buf (unat n + unat (len - n)) s d'"
      by (rule bytes_written_trans [OF p(4) _ same]) (use h(2) on in \<open>simp_all add: add.assoc\<close>)
    then have "bytes_written V (512 * l + unat off) buf (unat len) s d'" using ln p(2) by simp
    moreover have "untouched (block_bounce s) stk stk 0 (vfs_memory s) m'" using p(5) h(3) by (simp add: untouched_def)
    ultimately show ?thesis using p(3) h(1) by (intro exI [of _ m'] exI [of _ d']) simp
  qed
qed

subsection \<open>The clusters of a file\<close>

definition cluster_size :: "fat32 \<Rightarrow> nat" where
  "cluster_size f = 512 * unat (fs_spc f)"

definition cluster_sector :: "fat32 \<Rightarrow> u32 \<Rightarrow> nat" where
  "cluster_sector f c = unat (fs_data_start f) + (unat c - 2) * unat (fs_spc f)"

definition cluster_byte :: "'d volume \<Rightarrow> fat32 \<Rightarrow> ('d, 'a) fat_state_scheme \<Rightarrow> u32 \<Rightarrow> nat \<Rightarrow> u8" where
  "cluster_byte V f s c r = vol_byte V s (512 * cluster_sector f c + r)"

definition file_byte :: "'d volume \<Rightarrow> fat32 \<Rightarrow> u32 list \<Rightarrow> ('d, 'a) fat_state_scheme \<Rightarrow> nat \<Rightarrow> u8" where
  "file_byte V f cs s p = cluster_byte V f s (cs ! (p div cluster_size f)) (p mod cluster_size f)"

lemma geometry_clusters:
  assumes "geometry f = geometry g"
  shows "cluster_size f = cluster_size g" "cluster_sector f = cluster_sector g" "cluster_byte V f s = cluster_byte V g s" "file_byte V f cs s = file_byte V g cs s"
  by (intro ext | simp add: geometry_fields [OF assms] cluster_size_def cluster_sector_def cluster_byte_def file_byte_def)+

lemma layout_clusters:
  assumes "fat_layout f n"
  shows "0 < cluster_size f" "cluster_size f \<le> 65536" "unat (ucast (fs_cluster_bytes f) :: u64) = cluster_size f"
proof -
  have b: "0 < unat (fs_spc f)" "unat (fs_spc f) \<le> 128" "fs_cluster_bytes f = fs_spc f * 512" using assms by (simp_all add: fat_layout_def)
  then show "0 < cluster_size f" "cluster_size f \<le> 65536" by (simp_all add: cluster_size_def)
  have "unat (fs_cluster_bytes f) = cluster_size f" using b by (simp add: unat_word_ariths cluster_size_def)
  then show "unat (ucast (fs_cluster_bytes f) :: u64) = cluster_size f"
    using unat_lt_32 [of "fs_cluster_bytes f"] by (simp add: unsigned_ucast_eq take_bit_nat_eq_self)
qed

lemma inv_layout: "fat_inv V fs s \<Longrightarrow> fat_layout (fats s fs) (vol_size V s)"
  by (simp add: fat_inv_def)

lemma fat_lba_sector:
  assumes "2 \<le> unat c"
  shows "fat_lba f c = of_nat (cluster_sector f c)"
proof -
  have c2: "unat (c - 2) = unat c - 2" using assms by (subst unat_diff_nowrap) simp_all
  have "(ucast w :: u64) = of_nat (unat w)" for w :: u32 by simp
  then have "fat_lba f c = of_nat (unat (fs_data_start f)) + of_nat (unat (c - 2)) * of_nat (unat (fs_spc f))" unfolding fat_lba_def by (simp only:)
  then show ?thesis unfolding c2 cluster_sector_def by (simp only: of_nat_add of_nat_mult)
qed

text \<open>The sectors of a cluster, and of clusters with consecutive numbers, are in the data area.\<close>

lemma cluster_run_bound:
  assumes "fat_inv V fs s" and "fat_valid (fats s fs) c" and "fat_valid (fats s fs) c'" and "unat c' = unat c + t" and "f = fats s fs"
  shows "512 * cluster_sector f c + cluster_size f * (t + 1) \<le> 512 * vol_size V s"
    "512 * cluster_sector f c + cluster_size f * (t + 1) \<le> 512 * (2 ^ 32 - 1)" "unat (fs_data_start f) \<le> cluster_sector f c"
proof -
  have lay: "fat_layout f (vol_size V s)" using assms(1,5) by (simp add: fat_inv_def)
  have c: "2 \<le> unat c" by (rule valid_in_fat(2) [OF assms(1,2)])
  have "unat c + t < unat (fs_cluster_count f) + 2" using valid_in_fat(3) [OF assms(1,3)] assms(4,5) by simp
  then have "unat c - 2 + (t + 1) \<le> unat (fs_cluster_count f)" using c by linarith
  then have "(unat c - 2 + (t + 1)) * unat (fs_spc f) \<le> unat (fs_cluster_count f) * unat (fs_spc f)" by (rule mult_le_mono1)
  then have "cluster_sector f c + unat (fs_spc f) * (t + 1) \<le> unat (fs_data_start f) + unat (fs_cluster_count f) * unat (fs_spc f)"
    unfolding cluster_sector_def by (simp add: algebra_simps)
  then have e: "cluster_sector f c + unat (fs_spc f) * (t + 1) \<le> vol_size V s" "cluster_sector f c + unat (fs_spc f) * (t + 1) < 2 ^ 32"
    using lay unfolding fat_layout_def by linarith+
  then have e': "cluster_sector f c + unat (fs_spc f) * (t + 1) \<le> 2 ^ 32 - 1" by linarith
  have "512 * cluster_sector f c + cluster_size f * (t + 1) = 512 * (cluster_sector f c + unat (fs_spc f) * (t + 1))"
    by (simp add: cluster_size_def algebra_simps)
  then show "512 * cluster_sector f c + cluster_size f * (t + 1) \<le> 512 * vol_size V s"
    "512 * cluster_sector f c + cluster_size f * (t + 1) \<le> 512 * (2 ^ 32 - 1)"
    using mult_le_mono2 [OF e(1), of 512] mult_le_mono2 [OF e', of 512] by (simp_all only:)
  show "unat (fs_data_start f) \<le> cluster_sector f c" by (simp add: cluster_sector_def)
qed

text \<open>A transfer of data leaves the table alone.\<close>

lemma fat_inv_io:
  assumes "fat_inv V fs s" and "bytes_at m (fat_cache fs) 512 = cache_bytes fs s"
    and "\<And>l. l < unat (fs_data_start (fats s fs)) \<Longrightarrow> vol_disk V d (of_nat l + vol_off V) = vol_sector V s l"
  shows "fat_inv V fs (io_upd m d s)" "fat_tab V fs (io_upd m d s) = fat_tab V fs s"
proof -
  let ?f = "fats s fs"
  have lay: "fat_layout ?f (vol_size V s)" using assms(1) by (simp add: fat_inv_def)
  have z: "0 < unat (fs_fat_count ?f)" "unat (fs_fat_start ?f) + unat (fs_fat_count ?f) * unat (fs_fat_sectors ?f) \<le> unat (fs_data_start ?f)"
    using lay by (simp_all add: fat_layout_def)
  have t: "vol_disk V d (of_nat (copy_sector ?f 0 k) + vol_off V) = vol_sector V s (copy_sector ?f 0 k)" if "k < unat (fs_fat_sectors ?f)" for k
    using copy_sector_bound(1) [OF lay z(1) that] z(2) by (intro assms(3)) linarith
  have cb: "cache_bytes fs (io_upd m d s) = cache_bytes fs s" using assms(2) by (simp add: cache_bytes_def)
  show "fat_inv V fs (io_upd m d s)" using assms(1) cb t by (auto simp: fat_inv_def word_less_nat_alt)
  show "fat_tab V fs (io_upd m d s) = fat_tab V fs s"
    by (rule fat_tab_cong, rule fat_raw_eqI) (use t cb in \<open>simp_all add: table_sector_def cached_def\<close>)
qed

subsection \<open>Finding a cluster\<close>

text \<open>The node's remembered position is a position of its chain.\<close>

definition hint_ok :: "fat_node \<Rightarrow> u32 list \<Rightarrow> bool" where
  "hint_ok n cs \<longleftrightarrow> fn_hint_cluster n = 0 \<or> unat (fn_hint_index n) < length cs \<and> cs ! unat (fn_hint_index n) = fn_hint_cluster n"

definition fat_file_inv :: "'d volume \<Rightarrow> ptr \<Rightarrow> ptr \<Rightarrow> u32 list \<Rightarrow> ('d, 'a) fat_state_scheme \<Rightarrow> bool" where
  "fat_file_inv V fs fn cs s \<longleftrightarrow> fat_inv V fs s \<and> reliable V s \<and> fn_fs (fat_nodes s fn) = fs \<and>
     fat_chain V fs s (fn_cluster (fat_nodes s fn)) cs \<and> hint_ok (fat_nodes s fn) cs"

lemma fat_file_inv_step:
  assumes "fat_file_inv V fs fn cs s" and "fat_step V fs s s'" and "fat_tab V fs s' = fat_tab V fs s"
  shows "fat_file_inv V fs fn cs s'"
  using assms fat_step_inv [OF assms(2)] fat_step_keeps [OF assms(2)] fat_step_reliable [OF assms(2)] by (simp add: fat_file_inv_def)

lemma set_hint_simps [simp]:
  "fats (set_hint fn i c s) = fats s" "cmos (set_hint fn i c s) = cmos s" "vnodes (set_hint fn i c s) = vnodes s" "vfs_memory (set_hint fn i c s) = vfs_memory s"
  "drv (set_hint fn i c s) = drv s" "block_bounce (set_hint fn i c s) = block_bounce s" "device j (set_hint fn i c s) = device j s"
  "fat_nodes (set_hint fn i c s) = (fat_nodes s)(fn := (fat_nodes s fn)\<lparr>fn_hint_index := i, fn_hint_cluster := c\<rparr>)"
  "fat_inv V fs (set_hint fn i c s) = fat_inv V fs s" "fat_tab V fs (set_hint fn i c s) = fat_tab V fs s"
  "vol_sector V (set_hint fn i c s) = vol_sector V s" "reliable V (set_hint fn i c s) = reliable V s" "vol_size V (set_hint fn i c s) = vol_size V s"
  "vol_ok V (set_hint fn i c s) = vol_ok V s" "vol_byte V (set_hint fn i c s) = vol_byte V s"
  by (simp_all add: set_hint_def upd_fn_def vfs_memory_def device_def fat_inv_def vol_ok_def on_disk_def vol_size_def cache_bytes_def vol_sector_def
      fat_tab_def fat_raw_def table_sector_def cached_def reliable_def vol_byte_def fun_eq_iff)

lemma io_hint: "io_upd m d (set_hint fn i c s) = set_hint fn i c (io_upd m d s)"
  by (simp add: io_upd_def set_hint_def upd_fn_def set_vfs_memory_def)

lemma fat_file_inv_hint:
  assumes "fat_file_inv V fs fn cs s" and "unat i < length cs" and "cs ! unat i = c"
  shows "fat_file_inv V fs fn cs (set_hint fn i c s)"
  using assms by (simp add: fat_file_inv_def hint_ok_def)

lemma chain_length:
  assumes "fat_inv V fs s" and "fat_chain V fs s c cs"
  shows "length cs < 2 ^ 28"
proof -
  have "distinct (map unat cs)" using chain_distinct [OF assms(2)] by (simp add: distinct_map inj_on_def word_unat_eq_iff)
  moreover have "set (map unat cs) \<subseteq> {2..<unat (fs_cluster_count (fats s fs)) + 2}"
    using chain_valid [OF assms(2)] valid_in_fat(2,3) [OF assms(1)] by auto
  ultimately have "length cs \<le> unat (fs_cluster_count (fats s fs))"
    using card_mono [of "{2..<unat (fs_cluster_count (fats s fs)) + 2}" "set (map unat cs)"] distinct_card [of "map unat cs"] by simp
  then show ?thesis using assms(1) by (simp add: fat_inv_def fat_layout_def)
qed

lemma fat_cluster_at_spec:
  assumes "fat_file_inv V fs fn cs s"
  obtains s' where "fat_cluster_at fn index s = Some (if unat index < length cs then cs ! unat index else 0, s')" "fat_file_inv V fs fn cs s'"
    "fat_tab V fs s' = fat_tab V fs s"
    "\<exists>s1. fat_step V fs s s1 \<and> s' = (if unat index < length cs then set_hint fn index (cs ! unat index) s1 else s1)"
proof -
  let ?n = "fat_nodes s fn"
  have inv: "fat_inv V fs s" "reliable V s" "fn_fs ?n = fs" "fat_chain V fs s (fn_cluster ?n) cs" "hint_ok ?n cs"
    using assms by (simp_all add: fat_file_inv_def)
  define ci where "ci = (if fn_hint_cluster ?n \<noteq> 0 \<and> fn_hint_index ?n \<le> index then (fn_hint_cluster ?n, fn_hint_index ?n) else (fn_cluster ?n, 0))"
  obtain c i where ci: "ci = (c, i)" by (cases ci)
  have ch: "fat_chain V fs s c (drop (unat i) cs)" and i: "unat i \<le> unat index" and il: "unat i \<le> length cs"
    using ci inv(4,5) chain_drop [OF inv(4)] by (auto simp: ci_def hint_ok_def word_le_nat_alt split: if_splits)
  have "unat i + length (drop (unat i) cs) < 2 ^ 32" using chain_length [OF inv(1,4)] il by simp
  from follow_chain_spec [OF inv(1) ch this inv(2), of index] obtain s1 c' where
    f: "follow_chain fs index c i s = Some (c', s1)" "fat_step V fs s s1" "fat_tab V fs s1 = fat_tab V fs s"
      "if unat index - unat i < length (drop (unat i) cs) then c' = drop (unat i) cs ! (unat index - unat i) else \<not> fat_valid (fats s fs) c'" by blast
  have P: "fat_valid (fats s1 fs) = fat_valid (fats s fs)" by (rule fat_step_keeps(4) [OF f(2)])
  have r: "if unat index < length cs then c' = cs ! unat index else \<not> fat_valid (fats s fs) c'"
    using f(4) i il by (auto split: if_splits)
  note fi = fat_file_inv_step [OF assms f(2,3)]
  have e: "fat_cluster_at fn index s = (if \<not> fat_valid (fats s1 fs) c' then Some (0, s1) else Some (c', set_hint fn index c' s1))"
    using f(1) inv(3) ci unfolding ci_def by (simp add: fat_cluster_at_def Let_def split: if_splits)
  show thesis
  proof (cases "unat index < length cs")
    case True
    then have "fat_valid (fats s1 fs) c'" "c' = cs ! unat index" using r P chain_valid [OF inv(4)] by auto
    then show thesis using True e f(2,3) fat_file_inv_hint [OF fi, of index c'] by (intro that [of "set_hint fn index c' s1"]) auto
  next
    case False
    then show thesis using r P e f(2,3) fi by (intro that [of s1]) auto
  qed
qed

text \<open>The run of adjacent clusters that a transfer covers at once.\<close>

lemma cluster_run_spec:
  assumes "fat_file_inv V fs fn cs s" and "i < length cs" and "unat cb = cluster_size (fats s fs)"
    and "unat run + cluster_size (fats s fs) * (length cs - i) \<le> 2 ^ 62"
  shows "\<exists>j run' s'. cluster_run fs cb rest run (cs ! i) (of_nat i) s = Some ((run', cs ! j, of_nat j), s') \<and> i \<le> j \<and> j < length cs \<and>
    unat run' = unat run + cluster_size (fats s fs) * (j - i) \<and> unat (cs ! j) = unat (cs ! i) + (j - i) \<and>
    (\<forall>t \<le> j - i. unat (cs ! (i + t)) = unat (cs ! i) + t) \<and> fat_step V fs s s' \<and> fat_tab V fs s' = fat_tab V fs s"
  using assms
proof (induction "length cs - i" arbitrary: i run s rule: less_induct)
  case less
  let ?c = "cs ! i"
  have inv: "fat_inv V fs s" "reliable V s" "fat_chain V fs s (fn_cluster (fat_nodes s fn)) cs" using less.prems(1) by (simp_all add: fat_file_inv_def)
  have stop: ?case if "cluster_run fs cb rest run ?c (of_nat i) s = Some ((run, ?c, of_nat i), s')" "fat_step V fs s s'" "fat_tab V fs s' = fat_tab V fs s" for s'
    using that less.prems(2) by (intro exI [of _ i] exI [of _ run] exI [of _ s']) simp
  show ?case
  proof (cases "run < rest")
    case False
    then show ?thesis by (intro stop [of s]) (subst cluster_run.simps, simp_all add: fat_step_refl [OF inv(1)])
  next
    case True
    have val: "fat_valid (fats s fs) ?c" using chain_valid [OF inv(3)] less.prems(2) by simp
    obtain v s1 where g: "fat_get fs ?c s = Some (v, s1)" "fat_step V fs s s1" "fat_tab V fs s1 = fat_tab V fs s" "reliable V s \<longrightarrow> v = fat_tab V fs s ?c"
      by (rule fat_get_tab [OF inv(1) valid_in_fat(1) [OF inv(1) val]])
    have v: "v = fat_tab V fs s ?c" using g(4) inv(2) by simp
    have P: "fat_valid (fats s1 fs) = fat_valid (fats s fs)" by (rule fat_step_keeps(4) [OF g(2)])
    show ?thesis
    proof (cases "v \<noteq> ?c + 1 \<or> \<not> fat_valid (fats s fs) v")
      case stp: True
      then show ?thesis using g True P by (intro stop [of s1]) (subst cluster_run.simps, auto)
    next
      case go: False
      have ch: "fat_chain V fs s v (drop (Suc i) cs)"
        using chain_drop [OF inv(3) less.prems(2)] less.prems(2) v by (simp add: Cons_nth_drop_Suc [symmetric])
      then obtain ys where ys: "drop (Suc i) cs = v # ys" using go by (cases "drop (Suc i) cs") auto
      then have i1: "Suc i < length cs" "cs ! Suc i = v" by (simp_all add: nth_via_drop not_le [symmetric]) (metis drop_all linorder_not_le list.distinct(1))
      have uv: "unat v = unat ?c + 1"
      proof -
        have vc: "v = ?c + 1" using go by simp
        have "unat ?c + 1 < 2 ^ 32" using valid_in_fat(3) [OF inv(1) val] inv_count [OF inv(1)] by simp
        then show ?thesis unfolding vc by (subst unat_add_nowrap) simp_all
      qed
      have cb: "cluster_size (fats s1 fs) = cluster_size (fats s fs)" by (rule geometry_clusters(1) [OF fat_step_geometry [OF g(2)]])
      have lay: "cluster_size (fats s fs) \<le> 65536" using inv(1) layout_clusters(2) by (auto simp: fat_inv_def)
      have rn: "unat (run + cb) = unat run + cluster_size (fats s fs)"
        using less.prems(3,4) lay by (subst unat_add_nowrap) simp_all
      have sz: "cluster_size (fats s fs) * (length cs - i) = cluster_size (fats s fs) + cluster_size (fats s fs) * (length cs - Suc i)"
        using less.prems(2) by (metis Suc_diff_Suc mult_Suc_right)
      have st: "cluster_run fs cb rest run ?c (of_nat i) s = cluster_run fs cb rest (run + cb) (cs ! Suc i) (of_nat (Suc i)) s1"
        using True g(1) go P i1(2) by (subst cluster_run.simps) (simp add: add.commute)
      have "length cs - Suc i < length cs - i" using less.prems(2) by simp
      moreover have "unat (run + cb) + cluster_size (fats s1 fs) * (length cs - Suc i) \<le> 2 ^ 62" "unat cb = cluster_size (fats s1 fs)"
        using less.prems(3,4) rn cb sz by simp_all
      ultimately obtain j run' s' where h: "cluster_run fs cb rest (run + cb) (cs ! Suc i) (of_nat (Suc i)) s1 = Some ((run', cs ! j, of_nat j), s')"
        "Suc i \<le> j" "j < length cs" "unat run' = unat (run + cb) + cluster_size (fats s1 fs) * (j - Suc i)"
        "\<forall>t \<le> j - Suc i. unat (cs ! (Suc i + t)) = unat (cs ! Suc i) + t" "fat_step V fs s1 s'" "fat_tab V fs s' = fat_tab V fs s1"
        using less.hyps [OF _ fat_file_inv_step [OF less.prems(1) g(2,3)] i1(1)] by blast
      have con: "unat (cs ! (i + t)) = unat ?c + t" if "t \<le> j - i" for t
      proof (cases t)
        case (Suc t')
        then have "t' \<le> j - Suc i" using that by simp
        then show ?thesis using h(5) Suc i1(2) uv by simp
      qed simp
      have "cluster_size (fats s fs) * (j - i) = cluster_size (fats s fs) + cluster_size (fats s fs) * (j - Suc i)"
        using h(2) by (metis Suc_diff_le Suc_le_eq diff_Suc_Suc mult_Suc_right)
      then have "unat run' = unat run + cluster_size (fats s fs) * (j - i)" using h(4) rn cb by simp
      moreover have "unat (cs ! j) = unat ?c + (j - i)" using con [of "j - i"] h(2) by simp
      ultimately show ?thesis
        using st h con g(3) fat_step_trans [OF g(2) h(6)] by (intro exI [of _ j] exI [of _ run'] exI [of _ s']) simp
    qed
  qed
qed

subsection \<open>One pass over a run of clusters\<close>

text \<open>The byte at position \<open>P + k\<close> of the file, when \<open>P\<close> is byte \<open>w\<close> of the cluster \<open>cs ! i\<close>, from which on \<open>T\<close>
  more clusters have consecutive numbers.\<close>

lemma run_position:
  assumes "0 < cluster_size f" and "P = cluster_size f * i + w" and "2 \<le> unat (cs ! i)"
    and "\<forall>t \<le> T. unat (cs ! (i + t)) = unat (cs ! i) + t" and "w + k < cluster_size f * (T + 1)"
  shows "(P + k) div cluster_size f \<le> i + T"
    "512 * cluster_sector f (cs ! ((P + k) div cluster_size f)) + (P + k) mod cluster_size f = 512 * cluster_sector f (cs ! i) + w + k"
proof -
  let ?b = "cluster_size f" let ?t = "(w + k) div ?b"
  have e: "P + k = ?b * i + (w + k)" using assms(2) by simp
  have d: "(P + k) div ?b = i + ?t" "(P + k) mod ?b = (w + k) mod ?b" unfolding e using assms(1) by simp_all
  have t: "?t \<le> T" using assms(1,5) by (metis Suc_eq_plus1 less_Suc_eq_le less_mult_imp_div_less mult.commute)
  then show "(P + k) div ?b \<le> i + T" using d by simp
  have "unat (cs ! (i + ?t)) - 2 = (unat (cs ! i) - 2) + ?t" using assms(3,4) t by simp
  then have "512 * cluster_sector f (cs ! (i + ?t)) = 512 * cluster_sector f (cs ! i) + ?b * ?t"
    by (simp add: cluster_sector_def cluster_size_def algebra_simps)
  then show "512 * cluster_sector f (cs ! ((P + k) div ?b)) + (P + k) mod ?b = 512 * cluster_sector f (cs ! i) + w + k"
    unfolding d using mult_div_mod_eq [of ?b "w + k"] by simp
qed

definition bufs_ok :: "ptr \<Rightarrow> ptr \<Rightarrow> ptr \<Rightarrow> nat \<Rightarrow> ('d, 'a) fat_state_scheme \<Rightarrow> bool" where
  "bufs_ok fs stk buf n s \<longleftrightarrow> apart buf n (block_bounce s) 65536 \<and> apart stk 512 (block_bounce s) 65536 \<and> apart buf n stk 512 \<and>
     apart (fat_cache fs) 512 stk 512 \<and> apart (fat_cache fs) 512 buf n"

text \<open>What reading and writing a file leave alone: other nodes, the layout, and the memory outside the buffers.\<close>

definition file_frame :: "'d volume \<Rightarrow> ptr \<Rightarrow> ptr \<Rightarrow> ptr \<Rightarrow> ptr \<Rightarrow> nat \<Rightarrow> ('d, 'a) fat_state_scheme \<Rightarrow> ('d, 'a) fat_state_scheme \<Rightarrow> bool" where
  "file_frame V fs fn stk buf n s s' \<longleftrightarrow> vnodes s' = vnodes s \<and> block_bounce s' = block_bounce s \<and> vol_size V s' = vol_size V s \<and> cmos s' = cmos s \<and>
     (\<exists>i c. fat_nodes s' = (fat_nodes s)(fn := (fat_nodes s fn)\<lparr>fn_hint_index := i, fn_hint_cluster := c\<rparr>)) \<and>
     geometry (fats s' fs) = geometry (fats s fs) \<and> (next_free_ok (fats s fs) \<longrightarrow> next_free_ok (fats s' fs)) \<and> fat_tab V fs s' = fat_tab V fs s \<and>
     (\<forall>a. \<not> unat (a - block_bounce s) < 65536 \<longrightarrow> \<not> unat (a - fat_cache fs) < 512 \<longrightarrow> \<not> unat (a - stk) < 512 \<longrightarrow> \<not> unat (a - buf) < n \<longrightarrow>
        vfs_memory s' a = vfs_memory s a)"

text \<open>The data area is the same.\<close>

definition data_same :: "'d volume \<Rightarrow> ptr \<Rightarrow> ('d, 'a) fat_state_scheme \<Rightarrow> ('d, 'a) fat_state_scheme \<Rightarrow> bool" where
  "data_same V fs s s' \<longleftrightarrow> (\<forall>l < 2 ^ 32. unat (fs_data_start (fats s fs)) \<le> l \<longrightarrow> vol_sector V s' l = vol_sector V s l)"

lemma fat_node_hint_id: "n = n\<lparr>fn_hint_index := fn_hint_index n, fn_hint_cluster := fn_hint_cluster n\<rparr>"
  by simp

lemma fat_step_file:
  assumes "fat_inv V fs s" and "fat_step V fs s s'" and "fat_tab V fs s' = fat_tab V fs s"
  shows "file_frame V fs fn stk buf n s s'" "data_same V fs s s'"
proof -
  from assms(2) obtain m d f where u: "s' = fat_upd m d fs f s" "geometry f = geometry (fats s fs)"
    and nf: "next_free_ok (fats s fs) \<longrightarrow> next_free_ok f" and u2:
    "\<forall>a. \<not> unat (a - block_bounce s) < 65536 \<longrightarrow> \<not> unat (a - fat_cache fs) < 512 \<longrightarrow> m a = vfs_memory s a"
    "\<forall>l < 2 ^ 32. \<not> in_table (fats s fs) l \<longrightarrow> vol_disk V d (of_nat l + vol_off V) = vol_sector V s l"
    unfolding fat_step_def by blast
  have hint: "\<exists>i c. fat_nodes s = (fat_nodes s)(fn := (fat_nodes s fn)\<lparr>fn_hint_index := i, fn_hint_cluster := c\<rparr>)"
    using fat_node_hint_id [of "fat_nodes s fn"] by (metis fun_upd_triv)
  show "file_frame V fs fn stk buf n s s'" unfolding file_frame_def using assms(3) u u2 nf hint by simp
  have "\<not> in_table (fats s fs) l" if "unat (fs_data_start (fats s fs)) \<le> l" for l
    using assms(1) that by (simp add: fat_inv_def fat_layout_def in_table_def)
  then show "data_same V fs s s'" using u u2 by (simp add: data_same_def)
qed

lemma file_frame_trans:
  assumes "file_frame V fs fn stk buf n s s1" and "file_frame V fs fn stk buf' n' s1 s2"
    and "\<And>a. unat (a - buf) < n \<Longrightarrow> unat (a - b) < k" and "\<And>a. unat (a - buf') < n' \<Longrightarrow> unat (a - b) < k"
  shows "file_frame V fs fn stk b k s s2"
proof -
  from assms(1) obtain i c where 1: "fat_nodes s1 = (fat_nodes s)(fn := (fat_nodes s fn)\<lparr>fn_hint_index := i, fn_hint_cluster := c\<rparr>)" unfolding file_frame_def by blast
  from assms(2) obtain i' c' where 2: "fat_nodes s2 = (fat_nodes s1)(fn := (fat_nodes s1 fn)\<lparr>fn_hint_index := i', fn_hint_cluster := c'\<rparr>)" unfolding file_frame_def by blast
  have "fat_nodes s2 = (fat_nodes s)(fn := (fat_nodes s fn)\<lparr>fn_hint_index := i', fn_hint_cluster := c'\<rparr>)" using 1 2 by simp
  then have h: "\<exists>i c. fat_nodes s2 = (fat_nodes s)(fn := (fat_nodes s fn)\<lparr>fn_hint_index := i, fn_hint_cluster := c\<rparr>)" by blast
  have m: "vfs_memory s2 a = vfs_memory s a"
    if "\<not> unat (a - block_bounce s) < 65536" "\<not> unat (a - fat_cache fs) < 512" "\<not> unat (a - stk) < 512" "\<not> unat (a - b) < k" for a
  proof -
    have n: "\<not> unat (a - buf) < n" "\<not> unat (a - buf') < n'" using assms(3,4) that(4) by blast+
    show ?thesis using assms(1,2) that(1-3) n unfolding file_frame_def by simp
  qed
  show ?thesis using assms(1,2) h m unfolding file_frame_def by simp
qed

lemma file_frame_empty: "file_frame V fs fn stk buf 0 s s' \<Longrightarrow> file_frame V fs fn stk b k s s'"
  by (simp add: file_frame_def)

lemma file_frame_hint: "file_frame V fs fn stk buf n s s' \<Longrightarrow> file_frame V fs fn stk buf n s (set_hint fn i c s')"
  unfolding file_frame_def by (elim conjE exE, intro conjI exI [of _ i] exI [of _ c]) simp_all

lemma data_same_hint [simp]: "data_same V fs s (set_hint fn i c s') = data_same V fs s s'"
  by (simp add: data_same_def)

lemma file_frame_geometry: "file_frame V fs fn stk buf n s s' \<Longrightarrow> geometry (fats s' fs) = geometry (fats s fs)"
  by (simp add: file_frame_def)

lemma data_same_trans:
  assumes "data_same V fs s s1" and "data_same V fs s1 s2" and "geometry (fats s1 fs) = geometry (fats s fs)"
  shows "data_same V fs s s2"
  using assms geometry_fields(7) [OF assms(3)] unfolding data_same_def by simp

text \<open>The pass starts at byte \<open>offset + dn\<close> of the file: either that is behind the last cluster, or some bytes of the
  file from there on are one range of the disk.\<close>

lemma fat_io_pass:
  assumes "fat_file_inv V fs fn cs s" and "dn < len" and "unat offset + unat len < 2 ^ 40" and "bufs_ok fs stk buf (unat len) s"
  obtains (behind) s' where "fat_io_loop stk fn offset buf len wrt dn s = Some (sint dn, s')" "fat_file_inv V fs fn cs s'"
      "cluster_size (fats s fs) * length cs \<le> unat offset + unat dn" "file_frame V fs fn stk buf 0 s s'" "data_same V fs s s'"
  | (range) n l w s' where "fat_io_loop stk fn offset buf len wrt dn s =
        do { (rc, s4) \<leftarrow> fat_data_io stk fs (of_nat l) w (buf + dn) n wrt s';
             if rc \<noteq> 0 then Some (if dn \<noteq> 0 then sint dn else - 1, s4) else fat_io_loop stk fn offset buf len wrt (dn + n) s4 }"
      "fat_file_inv V fs fn cs s'" "file_frame V fs fn stk buf 0 s s'" "data_same V fs s s'"
      "0 < unat n" "unat dn + unat n \<le> unat len" "unat offset + unat dn + unat n \<le> cluster_size (fats s fs) * length cs"
      "512 * l + unat w + unat n \<le> 512 * vol_size V s" "512 * l + unat w + unat n \<le> 512 * (2 ^ 32 - 1)" "unat (fs_data_start (fats s fs)) \<le> l"
      "\<forall>k < unat n. let p = unat offset + unat dn + k in
         512 * cluster_sector (fats s fs) (cs ! (p div cluster_size (fats s fs))) + p mod cluster_size (fats s fs) = 512 * l + unat w + k"
proof -
  let ?f = "fats s fs" let ?b = "cluster_size ?f" let ?P = "unat offset + unat dn"
  have inv: "fat_inv V fs s" "fn_fs (fat_nodes s fn) = fs" "fat_chain V fs s (fn_cluster (fat_nodes s fn)) cs"
    using assms(1) by (simp_all add: fat_file_inv_def)
  have lay: "fat_layout ?f (vol_size V s)" using inv(1) by (simp add: fat_inv_def)
  note lc = layout_clusters [OF lay]
  define cb where "cb = (ucast (fs_cluster_bytes ?f) :: u64)"
  have cb: "unat cb = ?b" "cb \<noteq> 0" using lc by (auto simp: cb_def)
  have dl: "unat dn < unat len" using assms(2) by (simp add: word_less_nat_alt)
  have uP: "unat (offset + dn) = ?P" by (rule unat_add_nowrap) (use assms(3) dl in simp)
  define w where "w = (offset + dn) mod cb"
  have uw: "unat w = ?P mod ?b" by (simp add: w_def unat_mod uP cb)
  define index where "index = (ucast ((offset + dn) div cb) :: u32)"
  have "?P div ?b \<le> ?P" by (rule div_le_dividend)
  have b512: "512 \<le> ?b" using lay by (simp add: fat_layout_def cluster_size_def)
  have small: "?P div ?b < 2 ^ 32"
  proof -
    have "?P div ?b \<le> ?P div 512" by (rule div_le_mono2) (use b512 in simp_all)
    also have "\<dots> < 2 ^ 32" using assms(3) dl by (simp add: less_mult_imp_div_less)
    finally show ?thesis .
  qed
  have ui: "unat index = ?P div ?b"
    using small by (simp add: index_def unsigned_ucast_eq unat_div uP cb take_bit_nat_eq_self)
  obtain s1 s0 where ca: "fat_cluster_at fn index s = Some (if unat index < length cs then cs ! unat index else 0, s1)" "fat_file_inv V fs fn cs s1"
    "fat_tab V fs s1 = fat_tab V fs s" "fat_step V fs s s0" "s1 = (if unat index < length cs then set_hint fn index (cs ! unat index) s0 else s0)"
    by (rule fat_cluster_at_spec [OF assms(1), of index]) blast
  have t0: "fat_tab V fs s0 = fat_tab V fs s" using ca(3,5) by (simp split: if_splits)
  have lp: "fat_io_loop stk fn offset buf len wrt dn s = do {
      (c, s1) \<leftarrow> fat_cluster_at fn index s;
      if c = 0 then Some (sint dn, s1)
      else do {
        ((run, lst, lst_index), s2) \<leftarrow> cluster_run fs cb (len - dn) (cb - w) c index s1;
        let n = (if run < len - dn then run else len - dn); s3 = set_hint fn lst_index lst s2
        in do { (rc, s4) \<leftarrow> fat_data_io stk fs (fat_lba (fats s3 fs) c) w (buf + dn) n wrt s3;
                if rc \<noteq> 0 then Some (if dn \<noteq> 0 then sint dn else - 1, s4) else fat_io_loop stk fn offset buf len wrt (dn + n) s4 } } }"
    using assms(2) cb(2) inv(2) unfolding index_def w_def cb_def by (subst fat_io_loop.simps) (simp add: Let_def cong: if_cong)
  show thesis
  proof (cases "unat index < length cs")
    case False
    have "?b * length cs \<le> ?b * (?P div ?b)" using False ui by (intro mult_le_mono2) simp
    also have "\<dots> \<le> ?P" by (rule times_div_less_eq_dividend)
    finally have le: "?b * length cs \<le> ?P" .
    have "fat_io_loop stk fn offset buf len wrt dn s = Some (sint dn, s1)" using lp ca(1) False by simp
    then show thesis
      by (rule behind) (use ca False le fat_step_file [OF inv(1) ca(4) t0] in simp_all)
  next
    case True
    let ?i = "unat index" let ?c = "cs ! ?i"
    have P: "?P = ?b * ?i + unat w" using uw ui by simp
    have wb: "unat w < ?b" using uw lc(1) by simp
    have val: "fat_valid ?f x" if "x \<in> set cs" for x using chain_valid [OF inv(3) that] .
    have c2: "2 \<le> unat ?c" "?c \<noteq> 0" using valid_in_fat(2) [OF inv(1)] valid_masked(2) [OF inv(1)] val [of ?c] True by simp_all
    have g1: "geometry (fats s1 fs) = geometry ?f" using fat_step_geometry [OF ca(4)] ca(5) True by simp
    have run: "unat (cb - w) = ?b - unat w" using wb cb by (subst unat_diff_nowrap) simp_all
    have "?b * (length cs - ?i) \<le> 65536 * 2 ^ 28" using lc(2) chain_length [OF inv(1,3)] by (intro mult_le_mono) simp_all
    then have "unat (cb - w) + cluster_size (fats s1 fs) * (length cs - ?i) \<le> 2 ^ 62"
      using run lc(2) geometry_clusters(1) [OF g1] by simp
    from cluster_run_spec [OF ca(2) True _ this, of cb "len - dn"] obtain j run' s2 where
      r: "cluster_run fs cb (len - dn) (cb - w) ?c index s1 = Some ((run', cs ! j, of_nat j), s2)" "?i \<le> j" "j < length cs"
        "unat run' = (?b - unat w) + ?b * (j - ?i)" "unat (cs ! j) = unat ?c + (j - ?i)" "\<forall>t \<le> j - ?i. unat (cs ! (?i + t)) = unat ?c + t"
        "fat_step V fs s1 s2" "fat_tab V fs s2 = fat_tab V fs s1"
      using cb(1) geometry_clusters(1) [OF g1] run by auto
    define T where "T = j - ?i"
    define n where "n = (if run' < len - dn then run' else len - dn)"
    define s3 where "s3 = set_hint fn (of_nat j) (cs ! j) s2"
    have wr: "unat w + unat run' = ?b * (T + 1)" using r(4) wb by (simp add: T_def)
    have ld: "unat (len - dn) = unat len - unat dn" using dl by (intro unat_diff_nowrap) simp
    have un: "unat n = min (unat run') (unat len - unat dn)" using ld by (auto simp: n_def word_less_nat_alt)
    have n0: "0 < unat n" "unat dn + unat n \<le> unat len" "unat w + unat n \<le> ?b * (T + 1)" using un dl r(4) wb wr by auto
    have g2: "geometry (fats s2 fs) = geometry ?f" using fat_step_geometry [OF r(7)] g1 by simp
    have lba: "fat_lba (fats s2 fs) ?c = of_nat (cluster_sector ?f ?c)"
      using fat_lba_sector [OF c2(1)] geometry_clusters(2) [OF g2] by simp
    have "unat (of_nat j :: u32) = j" by (rule unat_of_nat_small) (use r(3) chain_length [OF inv(1,3)] in simp)
    then have fi3: "fat_file_inv V fs fn cs s3" unfolding s3_def by (intro fat_file_inv_hint [OF fat_file_inv_step [OF ca(2) r(7,8)]]) (use r(3) in simp_all)
    have f1: "file_frame V fs fn stk buf 0 s s1" "data_same V fs s s1"
      using file_frame_hint [OF fat_step_file(1) [OF inv(1) ca(4) t0]] fat_step_file(2) [OF inv(1) ca(4) t0] ca(5) True by simp_all
    have i1: "fat_inv V fs s1" using ca(2) by (simp add: fat_file_inv_def)
    have fr: "file_frame V fs fn stk buf 0 s s3" "data_same V fs s s3"
      using file_frame_hint [OF file_frame_trans [OF f1(1) fat_step_file(1) [OF i1 r(7,8)]]]
        data_same_trans [OF f1(2) fat_step_file(2) [OF i1 r(7,8)] file_frame_geometry [OF f1(1)]] by (simp_all add: s3_def)
    have bd: "512 * cluster_sector ?f ?c + ?b * (T + 1) \<le> 512 * vol_size V s" "512 * cluster_sector ?f ?c + ?b * (T + 1) \<le> 512 * (2 ^ 32 - 1)"
      "unat (fs_data_start ?f) \<le> cluster_sector ?f ?c"
      using cluster_run_bound [OF inv(1) val val r(5) [folded T_def] refl] True r(3) by simp_all
    have "?P + unat n \<le> ?b * (?i + (T + 1))" using P n0(3) by (simp add: distrib_left)
    also have "\<dots> \<le> ?b * length cs" using r(2,3) by (intro mult_le_mono2) (simp add: T_def)
    finally have end_le: "?P + unat n \<le> ?b * length cs" .
    have pos: "\<forall>k < unat n. let p = ?P + k in 512 * cluster_sector ?f (cs ! (p div ?b)) + p mod ?b = 512 * cluster_sector ?f ?c + unat w + k"
      unfolding Let_def using run_position(2) [OF lc(1) P c2(1) r(6) [folded T_def]] n0(3) by simp
    have eq: "fat_io_loop stk fn offset buf len wrt dn s =
        do { (rc, s4) \<leftarrow> fat_data_io stk fs (of_nat (cluster_sector ?f ?c)) w (buf + dn) n wrt s3;
             if rc \<noteq> 0 then Some (if dn \<noteq> 0 then sint dn else - 1, s4) else fat_io_loop stk fn offset buf len wrt (dn + n) s4 }"
      using lp ca(1) True c2(2) r(1) lba unfolding n_def s3_def by (simp add: Let_def cong: if_cong)
    show thesis
      by (rule range [OF eq fi3 fr n0(1,2) end_le _ _ bd(3) pos]) (use bd(1,2) n0(3) in linarith)+
  qed
qed

subsection \<open>Reading a file\<close>

lemma bufs_ok_part:
  assumes "bufs_ok fs stk buf n s" and "unat d + k \<le> n" and "block_bounce s' = block_bounce s"
  shows "bufs_ok fs stk (buf + d) k s'"
  using assms(1,3) apart_off [OF _ assms(2)] apart_sym [OF apart_off [OF apart_sym assms(2)]] unfolding bufs_ok_def by simp

lemma data_io_file:
  assumes "fat_file_inv V fs fn cs s" and "bufs_ok fs stk buf n s" and "untouched (block_bounce s) stk buf n (vfs_memory s) m"
    and "\<And>l. l < unat (fs_data_start (fats s fs)) \<Longrightarrow> vol_disk V d (of_nat l + vol_off V) = vol_sector V s l"
  shows "fat_file_inv V fs fn cs (io_upd m d s)" "file_frame V fs fn stk buf n s (io_upd m d s)"
proof -
  have inv: "fat_inv V fs s" and ap: "apart (fat_cache fs) 512 (block_bounce s) 65536" using assms(1) by (simp_all add: fat_file_inv_def fat_inv_def)
  have "bytes_at m (fat_cache fs) 512 = cache_bytes fs s"
    unfolding cache_bytes_def
  proof (rule bytes_at_eqI)
    fix i :: nat assume "i < 512"
    then have i: "unat ((fat_cache fs + of_nat i) - fat_cache fs) < 512" by (rule in_buffer) simp
    have "apart (fat_cache fs) 512 stk 512" "apart (fat_cache fs) 512 buf n" using assms(2) by (simp_all add: bufs_ok_def)
    then show "m (fat_cache fs + of_nat i) = vfs_memory s (fat_cache fs + of_nat i)"
      using assms(3) apart_in [OF ap i] apart_in [OF _ i] unfolding untouched_def by blast
  qed
  note io = fat_inv_io [OF inv this assms(4)]
  show "fat_file_inv V fs fn cs (io_upd m d s)" using assms(1) io by (simp add: fat_file_inv_def)
  have hint: "\<exists>i c. fat_nodes s = (fat_nodes s)(fn := (fat_nodes s fn)\<lparr>fn_hint_index := i, fn_hint_cluster := c\<rparr>)"
    using fat_node_hint_id [of "fat_nodes s fn"] by (metis fun_upd_triv)
  show "file_frame V fs fn stk buf n s (io_upd m d s)"
    unfolding file_frame_def using io(2) hint assms(3) by (simp add: untouched_def)
qed

text \<open>The bytes of a cluster of a chain are in the data area.\<close>

lemma cluster_byte_data:
  assumes "fat_inv V fs s" and "fat_valid (fats s fs) c" and "r < cluster_size (fats s fs)"
  shows "(512 * cluster_sector (fats s fs) c + r) div 512 < 2 ^ 32" "unat (fs_data_start (fats s fs)) \<le> (512 * cluster_sector (fats s fs) c + r) div 512"
    "512 * cluster_sector (fats s fs) c + r < 512 * 2 ^ 32"
proof -
  note b = cluster_run_bound [OF assms(1,2,2) _ refl, of 0]
  show l: "512 * cluster_sector (fats s fs) c + r < 512 * 2 ^ 32" using b(2) assms(3) by simp
  then show "(512 * cluster_sector (fats s fs) c + r) div 512 < 2 ^ 32" by (simp add: less_mult_imp_div_less)
  have "(512 * cluster_sector (fats s fs) c + r) div 512 = cluster_sector (fats s fs) c + r div 512" by simp
  then show "unat (fs_data_start (fats s fs)) \<le> (512 * cluster_sector (fats s fs) c + r) div 512" using b(3) by simp
qed

lemma cluster_byte_same:
  assumes "fat_inv V fs s" and "data_same V fs s s'" and "fat_valid (fats s fs) c" and "r < cluster_size (fats s fs)"
  shows "cluster_byte V (fats s fs) s' c r = cluster_byte V (fats s fs) s c r"
  using assms(2) cluster_byte_data [OF assms(1,3,4)] by (simp add: cluster_byte_def vol_byte_def data_same_def)

lemma file_byte_same:
  assumes "fat_file_inv V fs fn cs s" and "data_same V fs s s'" and "p < cluster_size (fats s fs) * length cs"
  shows "file_byte V (fats s fs) cs s' p = file_byte V (fats s fs) cs s p"
proof -
  have inv: "fat_inv V fs s" "fat_chain V fs s (fn_cluster (fat_nodes s fn)) cs" using assms(1) by (simp_all add: fat_file_inv_def)
  have b0: "0 < cluster_size (fats s fs)" by (rule layout_clusters(1) [OF inv_layout [OF inv(1)]])
  have "p div cluster_size (fats s fs) < length cs" using assms(3) by (metis less_mult_imp_div_less mult.commute)
  then have "fat_valid (fats s fs) (cs ! (p div cluster_size (fats s fs)))" using chain_valid [OF inv(2)] by simp
  then show ?thesis unfolding file_byte_def by (rule cluster_byte_same [OF inv(1) assms(2)]) (use b0 in simp)
qed

lemma sint_int: "unat (w :: u64) < 2 ^ 63 \<Longrightarrow> sint w = int (unat w)"
  by (rule sint_small)

text \<open>What is done later on the rest of the buffer leaves its first bytes alone.\<close>

lemma later_bytes:
  assumes "bufs_ok fs stk buf n s" and "file_frame V fs fn stk (buf + b) r s1 s2" and "k < unat b" and "unat b + r \<le> n" and "n \<le> 2 ^ 63"
    and "block_bounce s1 = block_bounce s"
  shows "vfs_memory s2 (buf + of_nat k) = vfs_memory s1 (buf + of_nat k)"
proof -
  have i: "unat ((buf + of_nat k) - buf) < n" by (rule in_buffer) (use assms(3-5) in simp_all)
  have ap: "apart buf n (block_bounce s) 65536" "apart buf n stk 512" "apart buf n (fat_cache fs) 512"
    using assms(1) apart_sym unfolding bufs_ok_def by blast+
  have "\<not> unat ((buf + of_nat k) - (buf + b)) < r" by (rule before_rest [OF assms(3)]) (use assms(4,5) in simp)
  then show ?thesis
    using assms(2,6) apart_in [OF ap(1) i] apart_in [OF ap(2) i] apart_in [OF ap(3) i] unfolding file_frame_def by simp
qed

lemma io_small: "unat offset + unat len < 2 ^ 40 \<Longrightarrow> unat len \<le> 2 ^ 63"
  by simp

lemma fat_io_loop_read:
  assumes "fat_file_inv V fs fn cs s" and "unat offset + unat len < 2 ^ 40" and "bufs_ok fs stk buf (unat len) s"
    and "N = min (unat len) (cluster_size (fats s fs) * length cs - unat offset)" and "unat dn \<le> N"
  shows "\<exists>s'. fat_io_loop stk fn offset buf len False dn s = Some (int N, s') \<and> fat_file_inv V fs fn cs s' \<and>
    file_frame V fs fn stk (buf + dn) (unat len - unat dn) s s' \<and> data_same V fs s s' \<and>
    (\<forall>k. unat dn \<le> k \<longrightarrow> k < N \<longrightarrow> vfs_memory s' (buf + of_nat k) = file_byte V (fats s fs) cs s (unat offset + k))"
  using assms
proof (induction "unat len - unat dn" arbitrary: dn s rule: less_induct)
  case less
  let ?f = "fats s fs"
  have sd: "sint dn = int (unat dn)" by (rule sint_int) (use less.prems(2,4,5) in simp)
  have inv: "fat_inv V fs s" using less.prems(1) by (simp add: fat_file_inv_def)
  show ?case
  proof (cases "dn < len")
    case False
    then have "unat dn = N" using less.prems(4,5) by (simp add: word_less_nat_alt)
    moreover have "fat_io_loop stk fn offset buf len False dn s = Some (sint dn, s)" using False by (subst fat_io_loop.simps) simp
    ultimately show ?thesis
      using less.prems(1) sd fat_step_file [OF inv fat_step_refl [OF inv] refl] by (intro exI [of _ s]) simp
  next
    case True
    then have dl: "unat dn < unat len" by (simp add: word_less_nat_alt)
    show ?thesis
    proof (rule fat_io_pass [OF less.prems(1) True less.prems(2,3), where wrt = False], goal_cases)
      case behind: (1 s')
      have "cluster_size ?f * length cs - unat offset \<le> unat dn" using behind(3) by linarith
      then have "N = unat dn" using less.prems(4,5) by simp
      moreover have "file_frame V fs fn stk (buf + dn) (unat len - unat dn) s s'"
        by (rule file_frame_empty [OF behind(4)])
      ultimately show ?thesis using behind sd by (intro exI [of _ s']) simp
    next
      case range: (2 n l w s3)
      have g3: "geometry (fats s3 fs) = geometry ?f" "block_bounce s3 = block_bounce s" "vol_size V s3 = vol_size V s"
        using range(3) by (simp_all add: file_frame_def)
      have b3: "bufs_ok fs stk (buf + dn) (unat n) s3" by (rule bufs_ok_part [OF less.prems(3)]) (use range(6) g3 in simp_all)
      have i3: "fat_inv V fs s3" "reliable V s3" using range(2) by (simp_all add: fat_file_inv_def)
      have v3: "vol_ok V s3" "fs_dev (fats s3 fs) = Some (vol_dev V)" using i3 by (simp_all add: fat_inv_def)
      have r3: "io_range V stk l w (buf + dn) n s3" using b3 range(8,9) g3(3) by (simp add: io_range_def bufs_ok_def)
      from fat_data_io_read [OF v3(1) i3(2) v3(2) r3] obtain m d where
        io: "fat_data_io stk fs (of_nat l) w (buf + dn) n False s3 = Some (0, io_upd m d s3)" "vol_disk V d = vol_disk V (drv s3)"
          "\<forall>k < unat n. m (buf + dn + of_nat k) = vol_byte V s3 (512 * l + unat w + k)"
          "untouched (block_bounce s3) stk (buf + dn) (unat n) (vfs_memory s3) m" by blast
      let ?s4 = "io_upd m d s3"
      have f4: "fat_file_inv V fs fn cs ?s4" "file_frame V fs fn stk (buf + dn) (unat n) s3 ?s4"
        by (rule data_io_file [OF range(2) b3 io(4)]; use io(2) in \<open>simp add: vol_sector_def\<close>)+
      have d4: "data_same V fs s ?s4"
        by (rule data_same_trans [OF range(4) _ g3(1)]) (use io(2) in \<open>simp add: data_same_def vol_sector_def\<close>)
      have un: "unat (dn + n) = unat dn + unat n" by (rule unat_add_nowrap) (use range(6) unat_lt_64 [of len] in simp)
      have le: "unat dn + unat n \<le> N" using range(6,7) less.prems(4) by simp
      have fr: "file_frame V fs fn stk (buf + dn) (unat n) s ?s4" by (rule file_frame_trans [OF range(3) f4(2)]) simp_all
      have cs4: "cluster_size (fats ?s4 fs) = cluster_size ?f" using geometry_clusters(1) [OF g3(1)] by simp
      have "unat len - unat (dn + n) < unat len - unat dn" using un range(5) dl by simp
      from less.hyps [OF this f4(1) less.prems(2)] less.prems(3,4) le un cs4 g3(2)
      obtain s' where h: "fat_io_loop stk fn offset buf len False (dn + n) ?s4 = Some (int N, s')" "fat_file_inv V fs fn cs s'"
        "file_frame V fs fn stk (buf + (dn + n)) (unat len - (unat dn + unat n)) ?s4 s'" "data_same V fs ?s4 s'"
        "\<forall>k. unat dn + unat n \<le> k \<longrightarrow> k < N \<longrightarrow> vfs_memory s' (buf + of_nat k) = file_byte V (fats ?s4 fs) cs ?s4 (unat offset + k)"
        by (auto simp: bufs_ok_def)
      have fb4: "file_byte V (fats ?s4 fs) cs ?s4 p = file_byte V ?f cs s p" if "p < cluster_size ?f * length cs" for p
        using file_byte_same [OF less.prems(1) d4 that] by (simp add: geometry_clusters(4) [OF g3(1)])
      have bytes: "vfs_memory s' (buf + of_nat k) = file_byte V ?f cs s (unat offset + k)" if k: "unat dn \<le> k" "k < N" for k
      proof (cases "unat dn + unat n \<le> k")
        case True
        have "k < cluster_size ?f * length cs - unat offset" using k(2) less.prems(4) by simp
        then have "unat offset + k < cluster_size ?f * length cs" by linarith
        then show ?thesis using h(5) k(2) True fb4 by simp
      next
        case F: False
        define t where "t = k - unat dn"
        have t: "k = unat dn + t" "t < unat n" using F k by (simp_all add: t_def)
        have a: "buf + of_nat k = buf + dn + of_nat t" by (simp add: t(1) add.assoc)
        have "vfs_memory s' (buf + of_nat k) = m (buf + of_nat k)"
          using later_bytes [OF less.prems(3) h(3), of k] t un range(6) g3(2) io_small [OF less.prems(2)] by simp
        also have "\<dots> = vol_byte V s3 (512 * l + unat w + t)" unfolding a using io(3) t(2) by blast
        also have "\<dots> = file_byte V ?f cs s3 (unat offset + k)"
          using range(11) t by (simp add: file_byte_def cluster_byte_def Let_def add.assoc)
        also have "\<dots> = file_byte V ?f cs s (unat offset + k)"
          by (rule file_byte_same [OF less.prems(1) range(4)]) (use range(7) t in simp)
        finally show ?thesis .
      qed
      have "file_frame V fs fn stk (buf + dn) (unat len - unat dn) s s'"
      proof (rule file_frame_trans [OF fr h(3)])
        fix a assume "unat (a - (buf + (dn + n))) < unat len - (unat dn + unat n)"
        then have "unat (a - ((buf + dn) + n)) < unat len - (unat dn + unat n)" by (simp only: add.assoc)
        then show "unat (a - (buf + dn)) < unat len - unat dn" by (rule in_later_chunk) (use range(6) in simp)
      qed (use range(6) in simp)
      then show ?thesis
        using range(1) io(1) h(1,2) bytes data_same_trans [OF d4 h(4)] g3(1) by (intro exI [of _ s']) simp
    qed
  qed
qed

subsection \<open>Writing a file\<close>

lemma bytes_writtenD:
  assumes "bytes_written V p buf n s d" and "b < 512 * 2 ^ 32"
  shows "vol_byte V (io_upd m d s) b = (if p \<le> b \<and> b < p + n then vfs_memory s (buf + of_nat (b - p)) else vol_byte V s b)"
  using assms unfolding bytes_written_def vol_byte_def [of V "io_upd m d s"] io_upd_sector by blast

lemma cluster_pos_unique:
  assumes "512 * cluster_sector f c + r = 512 * cluster_sector f c' + r'" and "r < cluster_size f" and "r' < cluster_size f"
    and "2 \<le> unat c" and "2 \<le> unat c'"
  shows "c = c'" "r = r'"
proof -
  have "(unat c - 2) * cluster_size f + r = (unat c' - 2) * cluster_size f + r'"
    using assms(1) by (simp add: cluster_sector_def cluster_size_def algebra_simps)
  then have e: "((unat c - 2) * cluster_size f + r) div cluster_size f = ((unat c' - 2) * cluster_size f + r') div cluster_size f"
    "((unat c - 2) * cluster_size f + r) mod cluster_size f = ((unat c' - 2) * cluster_size f + r') mod cluster_size f" by simp_all
  then have "unat c - 2 = unat c' - 2" using assms(2,3) by simp
  then show "c = c'" using assms(4,5) by (simp add: word_unat_eq_iff)
  show "r = r'" using e(2) assms(2,3) by simp
qed

text \<open>A range of the disk that holds the file's bytes from \<open>P\<close> on was written: only those bytes of the file changed, and
  no byte of a cluster of another file.\<close>

lemma run_written:
  assumes "fat_file_inv V fs fn cs s" and "f = fats s fs" and "bytes_written V (512 * l + w) buf n s d"
    and "\<forall>k < n. let p = P + k in 512 * cluster_sector f (cs ! (p div cluster_size f)) + p mod cluster_size f = 512 * l + w + k"
    and "P + n \<le> cluster_size f * length cs"
  shows "p < cluster_size f * length cs \<Longrightarrow> file_byte V f cs (io_upd m d s) p =
      (if P \<le> p \<and> p < P + n then vfs_memory s (buf + of_nat (p - P)) else file_byte V f cs s p)"
    "fat_valid f c \<Longrightarrow> c \<notin> set cs \<Longrightarrow> r < cluster_size f \<Longrightarrow> cluster_byte V f (io_upd m d s) c r = cluster_byte V f s c r"
proof -
  let ?b = "cluster_size f"
  have inv: "fat_inv V fs s" "fat_chain V fs s (fn_cluster (fat_nodes s fn)) cs" using assms(1) by (simp_all add: fat_file_inv_def)
  have b0: "0 < ?b" unfolding assms(2) by (rule layout_clusters(1) [OF inv_layout [OF inv(1)]])
  have idx: "p div ?b < length cs" if "p < ?b * length cs" for p using that by (metis less_mult_imp_div_less mult.commute)
  have val: "fat_valid f (cs ! i)" "2 \<le> unat (cs ! i)" if "i < length cs" for i
    using chain_valid [OF inv(2)] valid_in_fat(2) [OF inv(1)] that assms(2) by auto
  have byte: "cluster_byte V f (io_upd m d s) c r = (if 512 * l + w \<le> 512 * cluster_sector f c + r \<and> 512 * cluster_sector f c + r < 512 * l + w + n
      then vfs_memory s (buf + of_nat (512 * cluster_sector f c + r - (512 * l + w))) else cluster_byte V f s c r)"
    if "fat_valid f c" "r < ?b" for c r
    unfolding cluster_byte_def by (rule bytes_writtenD [OF assms(3)]) (use cluster_byte_data(3) [OF inv(1), of c r] that assms(2) in simp)
  have here: "\<exists>k < n. c = cs ! ((P + k) div ?b) \<and> r = (P + k) mod ?b \<and> 512 * cluster_sector f c + r = 512 * l + w + k"
    if v: "fat_valid f c" "r < ?b" and i: "512 * l + w \<le> 512 * cluster_sector f c + r \<and> 512 * cluster_sector f c + r < 512 * l + w + n" for c r
  proof -
    define k where "k = 512 * cluster_sector f c + r - (512 * l + w)"
    have k: "k < n" "512 * cluster_sector f c + r = 512 * l + w + k" using i by (auto simp: k_def)
    have "P + k < ?b * length cs" using k(1) assms(5) by linarith
    moreover have "512 * cluster_sector f c + r = 512 * cluster_sector f (cs ! ((P + k) div ?b)) + (P + k) mod ?b"
      using assms(4) k by (simp add: Let_def)
    moreover note eq = this
    ultimately have j: "(P + k) div ?b < length cs" by (intro idx)
    note u = cluster_pos_unique [OF eq v(2) _ _ val(2) [OF j]]
    have "2 \<le> unat c" using valid_in_fat(2) [OF inv(1)] v(1) assms(2) by simp
    then show ?thesis using u b0 k by (intro exI [of _ k]) simp
  qed
  show "cluster_byte V f (io_upd m d s) c r = cluster_byte V f s c r" if v: "fat_valid f c" "c \<notin> set cs" "r < ?b"
  proof -
    have "\<not> (512 * l + w \<le> 512 * cluster_sector f c + r \<and> 512 * cluster_sector f c + r < 512 * l + w + n)"
    proof
      assume "512 * l + w \<le> 512 * cluster_sector f c + r \<and> 512 * cluster_sector f c + r < 512 * l + w + n"
      from here [OF v(1,3) this] obtain k where "k < n" "c = cs ! ((P + k) div ?b)" by blast
      moreover from this have "(P + k) div ?b < length cs" using assms(5) by (intro idx) linarith
      ultimately show False using v(2) by auto
    qed
    then show ?thesis using byte [OF v(1,3)] by (simp only: if_False)
  qed
  show "file_byte V f cs (io_upd m d s) p = (if P \<le> p \<and> p < P + n then vfs_memory s (buf + of_nat (p - P)) else file_byte V f cs s p)"
    if p: "p < ?b * length cs"
  proof (cases "P \<le> p \<and> p < P + n")
    case True
    then obtain k where k: "p = P + k" "k < n" by (metis le_Suc_ex nat_add_left_cancel_less)
    have "512 * cluster_sector f (cs ! (p div ?b)) + p mod ?b = 512 * l + w + k" using assms(4) k by (simp add: Let_def)
    then show ?thesis using byte [OF val(1) [OF idx [OF p]], of "p mod ?b"] b0 k by (simp add: file_byte_def)
  next
    case False
    have "\<not> (512 * l + w \<le> 512 * cluster_sector f (cs ! (p div ?b)) + p mod ?b \<and> 512 * cluster_sector f (cs ! (p div ?b)) + p mod ?b < 512 * l + w + n)"
    proof
      assume "512 * l + w \<le> 512 * cluster_sector f (cs ! (p div ?b)) + p mod ?b \<and> 512 * cluster_sector f (cs ! (p div ?b)) + p mod ?b < 512 * l + w + n"
      from here [OF val(1) [OF idx [OF p]] _ this] b0 obtain k where k: "k < n" "cs ! (p div ?b) = cs ! ((P + k) div ?b)" "p mod ?b = (P + k) mod ?b" by auto
      have "(P + k) div ?b < length cs" using k(1) assms(5) by (intro idx) linarith
      then have "p div ?b = (P + k) div ?b" using k(2) idx [OF p] chain_distinct [OF inv(2)] by (simp add: nth_eq_iff_index_eq)
      then have "p = P + k" using k(3) by (metis div_mult_mod_eq)
      then show False using False k(1) by simp
    qed
    then have "cluster_byte V f (io_upd m d s) (cs ! (p div ?b)) (p mod ?b) = cluster_byte V f s (cs ! (p div ?b)) (p mod ?b)"
      using byte [OF val(1) [OF idx [OF p]] mod_less_divisor [OF b0]] by (simp only: if_False)
    then show ?thesis using False by (simp only: file_byte_def if_False)
  qed
qed

text \<open>Bytes \<open>a\<close> to \<open>b\<close> of the file were taken from memory, byte \<open>p\<close> from address \<open>q + p\<close>; the other bytes of the file
  and the clusters of other files are what they were.\<close>

definition file_written :: "'d volume \<Rightarrow> ptr \<Rightarrow> u32 list \<Rightarrow> nat \<Rightarrow> nat \<Rightarrow> ptr \<Rightarrow> ('d, 'a) fat_state_scheme \<Rightarrow> ('d, 'a) fat_state_scheme \<Rightarrow> bool" where
  "file_written V fs cs a b q s s' \<longleftrightarrow> (let f = fats s fs in
     (\<forall>p < cluster_size f * length cs. file_byte V f cs s' p =
        (if a \<le> p \<and> p < b then vfs_memory s (q + of_nat p) else file_byte V f cs s p)) \<and>
     (\<forall>c r. fat_valid f c \<longrightarrow> c \<notin> set cs \<longrightarrow> r < cluster_size f \<longrightarrow> cluster_byte V f s' c r = cluster_byte V f s c r))"

lemma file_written_same:
  assumes "fat_file_inv V fs fn cs s" and "data_same V fs s s'"
  shows "file_written V fs cs a a q s s'"
  using file_byte_same [OF assms] cluster_byte_same [OF _ assms(2)] assms(1) by (auto simp: file_written_def Let_def fat_file_inv_def)

lemma file_written_trans:
  assumes "file_written V fs cs a b q s s1" and "file_written V fs cs b c q s1 s2" and "a \<le> b" and "b \<le> c"
    and "geometry (fats s1 fs) = geometry (fats s fs)" and "\<And>p. b \<le> p \<Longrightarrow> p < c \<Longrightarrow> vfs_memory s1 (q + of_nat p) = vfs_memory s (q + of_nat p)"
  shows "file_written V fs cs a c q s s2"
proof -
  have "fat_valid (fats s1 fs) = fat_valid (fats s fs)" by (intro ext) (simp add: fat_valid_def geometry_fields [OF assms(5)])
  then show ?thesis
    using assms(1-4,6) by (auto simp: file_written_def Let_def geometry_clusters [OF assms(5)])
qed

text \<open>The caller's bytes are still in memory.\<close>

lemma caller_bytes:
  assumes "file_frame V fs fn stk buf 0 s s'" and "bufs_ok fs stk buf (unat len) s" and "unat offset + unat len < 2 ^ 40"
    and "unat offset \<le> p" and "p < unat offset + unat len"
  shows "vfs_memory s' (buf - offset + of_nat p) = vfs_memory s (buf - offset + of_nat p)"
proof -
  have "of_nat p - offset = (of_nat (p - unat offset) :: u64)" using assms(4) by (simp add: of_nat_diff)
  then have e: "buf - offset + of_nat p = buf + of_nat (p - unat offset)" by (simp add: algebra_simps)
  have i: "unat ((buf + of_nat (p - unat offset)) - buf) < unat len" by (rule in_buffer) (use assms(3-5) in simp_all)
  have ap: "apart buf (unat len) (block_bounce s) 65536" "apart buf (unat len) stk 512" "apart buf (unat len) (fat_cache fs) 512"
    using assms(2) apart_sym unfolding bufs_ok_def by blast+
  show ?thesis
    unfolding e using assms(1) apart_in [OF ap(1) i] apart_in [OF ap(2) i] apart_in [OF ap(3) i] unfolding file_frame_def by simp
qed

lemma data_write_file:
  assumes "fat_file_inv V fs fn cs s" and "bufs_ok fs stk (buf + dn) n s" and "bytes_written V (512 * l + w) b k s d"
    and "untouched (block_bounce s) stk stk 0 (vfs_memory s) m" and "unat (fs_data_start (fats s fs)) \<le> l" and "512 * l \<le> 512 * (2 ^ 32 - 1)"
  shows "fat_file_inv V fs fn cs (io_upd m d s)" "file_frame V fs fn stk buf 0 s (io_upd m d s)"
proof -
  have b: "bufs_ok fs stk buf 0 s" using assms(2) by (simp add: bufs_ok_def apart_def)
  have u: "untouched (block_bounce s) stk buf 0 (vfs_memory s) m" using assms(4) by (simp add: untouched_def)
  have d: "vol_disk V d (of_nat i + vol_off V) = vol_sector V s i" if "i < unat (fs_data_start (fats s fs))" for i
  proof -
    have "l \<le> (512 * l + w) div 512" by simp
    then show ?thesis using that assms(3,5,6) unfolding bytes_written_def by simp
  qed
  show "fat_file_inv V fs fn cs (io_upd m d s)" "file_frame V fs fn stk buf 0 s (io_upd m d s)"
    by (rule data_io_file [OF assms(1) b u d]; assumption)+
qed

lemma run_file_written:
  assumes "fat_file_inv V fs fn cs s" and "bytes_written V (512 * l + w) (buf + dn) n s d" and "geometry f = geometry (fats s fs)"
    and "\<forall>k < n. let p = unat offset + unat dn + k in 512 * cluster_sector f (cs ! (p div cluster_size f)) + p mod cluster_size f = 512 * l + w + k"
    and "unat offset + unat dn + n \<le> cluster_size f * length cs"
  shows "file_written V fs cs (unat offset + unat dn) (unat offset + unat dn + n) (buf - offset) s (io_upd m d s)"
proof -
  note run = run_written [OF assms(1) refl assms(2), of "unat offset + unat dn", OF assms(4) [unfolded geometry_clusters [OF assms(3)]]
      assms(5) [unfolded geometry_clusters [OF assms(3)]]]
  have "buf + dn + of_nat (p - (unat offset + unat dn)) = buf - offset + of_nat p" if "unat offset + unat dn \<le> p" for p
    using that by (simp add: of_nat_diff algebra_simps)
  then show ?thesis using run unfolding file_written_def Let_def by (auto simp: algebra_simps)
qed

lemma fat_io_loop_write:
  assumes "fat_file_inv V fs fn cs s" and "unat offset + unat len < 2 ^ 40" and "bufs_ok fs stk buf (unat len) s"
    and "N = min (unat len) (cluster_size (fats s fs) * length cs - unat offset)" and "unat dn \<le> N"
  shows "\<exists>s'. fat_io_loop stk fn offset buf len True dn s = Some (int N, s') \<and> fat_file_inv V fs fn cs s' \<and>
    file_frame V fs fn stk buf 0 s s' \<and> file_written V fs cs (unat offset + unat dn) (unat offset + N) (buf - offset) s s'"
  using assms
proof (induction "unat len - unat dn" arbitrary: dn s rule: less_induct)
  case less
  let ?f = "fats s fs"
  have sd: "sint dn = int (unat dn)" by (rule sint_int) (use less.prems(2,4,5) in simp)
  have inv: "fat_inv V fs s" using less.prems(1) by (simp add: fat_file_inv_def)
  show ?case
  proof (cases "dn < len")
    case False
    then have "unat dn = N" using less.prems(4,5) by (simp add: word_less_nat_alt)
    moreover have "fat_io_loop stk fn offset buf len True dn s = Some (sint dn, s)" using False by (subst fat_io_loop.simps) simp
    ultimately show ?thesis
      using less.prems(1) sd fat_step_file [OF inv fat_step_refl [OF inv] refl] by (intro exI [of _ s]) (auto simp: file_written_def)
  next
    case True
    then have dl: "unat dn < unat len" by (simp add: word_less_nat_alt)
    show ?thesis
    proof (rule fat_io_pass [OF less.prems(1) True less.prems(2,3), where wrt = True], goal_cases)
      case behind: (1 s')
      have "cluster_size ?f * length cs - unat offset \<le> unat dn" using behind(3) by linarith
      then have "N = unat dn" using less.prems(4,5) by simp
      then show ?thesis using behind sd file_written_same [OF less.prems(1) behind(5)] by (intro exI [of _ s']) simp
    next
      case range: (2 n l w s3)
      have g3: "geometry (fats s3 fs) = geometry ?f" "block_bounce s3 = block_bounce s" "vol_size V s3 = vol_size V s"
        using range(3) by (simp_all add: file_frame_def)
      have b3: "bufs_ok fs stk (buf + dn) (unat n) s3" by (rule bufs_ok_part [OF less.prems(3)]) (use range(6) g3 in simp_all)
      have i3: "fat_inv V fs s3" "reliable V s3" using range(2) by (simp_all add: fat_file_inv_def)
      have v3: "vol_ok V s3" "fs_dev (fats s3 fs) = Some (vol_dev V)" using i3 by (simp_all add: fat_inv_def)
      have r3: "io_range V stk l w (buf + dn) n s3" using b3 range(8,9) g3(3) by (simp add: io_range_def bufs_ok_def)
      from fat_data_io_write [OF v3(1) i3(2) v3(2) r3] obtain m d where
        io: "fat_data_io stk fs (of_nat l) w (buf + dn) n True s3 = Some (0, io_upd m d s3)"
          "bytes_written V (512 * l + unat w) (buf + dn) (unat n) s3 d" "untouched (block_bounce s3) stk stk 0 (vfs_memory s3) m" by blast
      let ?s4 = "io_upd m d s3"
      have f4: "fat_file_inv V fs fn cs ?s4" "file_frame V fs fn stk buf 0 s3 ?s4"
        by (rule data_write_file [OF range(2) b3 io(2,3)]; use range(9,10) geometry_fields [OF g3(1)] in simp)+
      have un: "unat (dn + n) = unat dn + unat n" by (rule unat_add_nowrap) (use range(6) unat_lt_64 [of len] in simp)
      have le: "unat dn + unat n \<le> N" using range(6,7) less.prems(4) by simp
      have fr: "file_frame V fs fn stk buf 0 s ?s4" by (rule file_frame_trans [OF range(3) f4(2)]) simp_all
      have cs4: "cluster_size (fats ?s4 fs) = cluster_size ?f" using geometry_clusters(1) [OF g3(1)] by simp
      have wr: "file_written V fs cs (unat offset + unat dn) (unat offset + unat dn + unat n) (buf - offset) s ?s4"
        by (rule file_written_trans [OF file_written_same [OF less.prems(1) range(4)]
              run_file_written [OF range(2) io(2) g3(1) [symmetric] range(11,7)]])
           (use g3(1) caller_bytes [OF range(3) less.prems(3,2)] range(6) in simp_all)
      have "unat len - unat (dn + n) < unat len - unat dn" using un range(5) dl by simp
      from less.hyps [OF this f4(1) less.prems(2)] less.prems(3,4) le un cs4 g3(2)
      obtain s' where h: "fat_io_loop stk fn offset buf len True (dn + n) ?s4 = Some (int N, s')" "fat_file_inv V fs fn cs s'"
        "file_frame V fs fn stk buf 0 ?s4 s'"
        "file_written V fs cs (unat offset + (unat dn + unat n)) (unat offset + N) (buf - offset) ?s4 s'"
        by (auto simp: bufs_ok_def)
      have "file_written V fs cs (unat offset + unat dn) (unat offset + N) (buf - offset) s s'"
        by (rule file_written_trans [OF wr h(4) [unfolded add.assoc [symmetric]]])
           (use g3(1) caller_bytes [OF fr less.prems(3,2)] le less.prems(4) in simp_all)
      then show ?thesis
        using range(1) io(1) h(1,2) file_frame_trans [OF fr h(3), of buf 0] by (intro exI [of _ s']) simp
    qed
  qed
qed

end
