(* ===== verification/FatExtend.thy ===== *)
theory FatExtend
  imports FatFile
begin

text \<open>
  Growing a file of a FAT volume: \<^verbatim>\<open>fat_alloc\<close> finds a free cluster whenever there is one, and \<^verbatim>\<open>fat_extend\<close>
  puts free clusters, and only those, at the end of the file's chain.
\<close>

definition free_clusters :: "'d volume \<Rightarrow> ptr \<Rightarrow> ('d, 'a) fat_state_scheme \<Rightarrow> u32 set" where
  "free_clusters V fs s = {c. fat_valid (fats s fs) c \<and> fat_tab V fs s c = 0}"

lemma finite_free [simp]: "finite (free_clusters V fs s)"
  by (rule finite_subset [OF subset_UNIV]) simp

lemma fat_alloc_free:
  assumes "fat_inv V fs s" and "reliable V s" and "next_free_ok (fats s fs)" and "prev = 0 \<or> fat_valid (fats s fs) prev"
    and "free_clusters V fs s \<noteq> {}"
  obtains c s' where "fat_alloc fs prev False s = Some (c, s')" "c \<in> free_clusters V fs s" "c \<noteq> 0" "fat_step V fs s s'"
    "fat_tab V fs s' = linked (fat_tab V fs s) prev c" "next_free_ok (fats s' fs)"
proof -
  let ?f = "fats s fs"
  have n: "fs_cluster_count ?f \<noteq> 0" "2 \<le> unat (fs_next_free ?f)" "unat (fs_next_free ?f) \<le> unat (fs_cluster_count ?f) + 2"
    using assms(3) by (simp_all add: next_free_ok_def)
  have lim: "unat (fs_cluster_count ?f) + 2 < 2 ^ 31" using assms(1) by (simp add: fat_inv_def fat_layout_def)
  from alloc_loop_spec [OF assms(1,4) n(1), of 0 "unat (fs_cluster_count ?f)"] obtain c s' where
    a: "fat_alloc fs prev False s = Some (c, s')" "alloc_result V fs prev c s s'"
      "c = 0 \<longrightarrow> reliable V s \<longrightarrow> (\<forall>j < unat (fs_cluster_count ?f). fat_tab V fs s (candidate ?f (of_nat j)) \<noteq> 0)"
    by (auto simp: fat_alloc_def)
  obtain x where x: "fat_valid ?f x" "fat_tab V fs s x = 0" using assms(5) by (auto simp: free_clusters_def)
  have c0: "c \<noteq> 0"
  proof
    assume "c = 0"
    moreover obtain j where "j < unat (fs_cluster_count ?f)" "candidate ?f (of_nat j) = x" by (rule candidates_all [OF x(1) n(1) lim n(2,3)])
    ultimately show False using a(3) assms(2) x(2) by auto
  qed
  have r: "fat_valid ?f c" "fat_tab V fs s c = 0" "fat_step V fs s s'" "fat_tab V fs s' = linked (fat_tab V fs s) prev c"
    "fs_next_free (fats s' fs) = (if c + 1 < fs_cluster_count ?f + 2 then c + 1 else 2)"
    using a(2) c0 by (simp_all add: alloc_result_def)
  have "2 \<le> unat c" "unat c < unat (fs_cluster_count ?f) + 2" using valid_in_fat(2,3) [OF assms(1) r(1)] .
  moreover from this have "unat (c + 1) = unat c + 1" using lim by (subst unat_add_nowrap) simp_all
  ultimately have "next_free_ok (fats s' fs)"
    using r(5) n(1) fat_step_keeps(5) [OF r(3)] by (auto simp: next_free_ok_def)
  then show thesis using a(1) r c0 by (intro that) (simp_all add: free_clusters_def)
qed

subsection \<open>The chain after a cluster was linked to it\<close>

lemma chain_linked:
  assumes "chain t P c cs" and "cs \<noteq> []" and "P x" and "x \<notin> set cs" and "\<not> P FAT_EOC" and "last cs \<noteq> 0"
  shows "chain (linked t (last cs) x) P c (cs @ [x])"
  using assms
proof (induction cs arbitrary: c)
  case (Cons y ys)
  have y: "y = c" "P c" "chain t P (t c) ys" using Cons.prems(1) by simp_all
  show ?case
  proof (cases "ys = []")
    case True
    then show ?thesis using Cons.prems y by (auto simp: linked_def)
  next
    case False
    have "c \<noteq> last ys" using chain_distinct [OF Cons.prems(1)] False y(1) by auto
    then have "linked t (last ys) x c = t c" using Cons.prems(4) y(1) by (auto simp: linked_def)
    moreover have "chain (linked t (last ys) x) P (t c) (ys @ [x])" by (rule Cons.IH [OF y(3) False Cons.prems(3) _ Cons.prems(5)]) (use Cons.prems False in auto)
    ultimately show ?thesis using y False by simp
  qed
qed simp

lemma chain_start: "P x \<Longrightarrow> \<not> P FAT_EOC \<Longrightarrow> chain (linked t 0 x) P x [x]"
  by (simp add: linked_def)

lemma chain_step:
  assumes "chain t P c cs" and "i < length cs"
  shows "if Suc i < length cs then t (cs ! i) = cs ! Suc i else \<not> P (t (cs ! i))"
proof -
  have ch: "chain t P (cs ! i) (drop i cs)" by (rule chain_drop [OF assms])
  moreover have "drop i cs = cs ! i # drop (Suc i) cs" by (rule Cons_nth_drop_Suc [OF assms(2), symmetric])
  ultimately have "chain t P (t (cs ! i)) (drop (Suc i) cs)" by simp
  then show ?thesis by (cases "Suc i < length cs") (auto simp: Cons_nth_drop_Suc [symmetric])
qed

subsection \<open>Extending a chain\<close>

text \<open>The clusters \<open>new\<close> were free and now follow the chain \<open>cs\<close>; no other entry of the table changed.\<close>

definition extended :: "'d volume \<Rightarrow> ptr \<Rightarrow> u32 list \<Rightarrow> u32 list \<Rightarrow> ('d, 'a) fat_state_scheme \<Rightarrow> ('d, 'a) fat_state_scheme \<Rightarrow> bool" where
  "extended V fs cs new s s' \<longleftrightarrow> fat_step V fs s s' \<and> next_free_ok (fats s' fs) \<and> set new \<subseteq> free_clusters V fs s \<and> distinct new \<and>
     (\<forall>x. x \<notin> set new \<longrightarrow> x \<notin> set cs \<longrightarrow> fat_tab V fs s' x = fat_tab V fs s x) \<and> (\<forall>x \<in> set (cs @ new). fat_tab V fs s' x \<noteq> 0)"

lemma extended_free:
  assumes "extended V fs cs new s s'" and "\<forall>x \<in> set cs. fat_tab V fs s x \<noteq> 0"
  shows "free_clusters V fs s' = free_clusters V fs s - set new" "card (free_clusters V fs s') = card (free_clusters V fs s) - length new"
proof -
  have st: "fat_step V fs s s'" "set new \<subseteq> free_clusters V fs s" "distinct new" using assms(1) by (simp_all add: extended_def)
  have "fat_valid (fats s' fs) = fat_valid (fats s fs)" by (rule fat_step_keeps(4) [OF st(1)])
  then show e: "free_clusters V fs s' = free_clusters V fs s - set new"
    using assms unfolding extended_def free_clusters_def by auto
  show "card (free_clusters V fs s') = card (free_clusters V fs s) - length new"
    unfolding e using st(2,3) by (simp add: card_Diff_subset distinct_card)
qed

lemma extended_refl:
  assumes "fat_step V fs s s'" and "fat_tab V fs s' = fat_tab V fs s" and "next_free_ok (fats s' fs)" and "\<forall>x \<in> set cs. fat_tab V fs s x \<noteq> 0"
  shows "extended V fs cs [] s s'"
  using assms by (simp add: extended_def)

lemma extended_trans:
  assumes "extended V fs cs a s s1" and "extended V fs (cs @ a) b s1 s2" and "\<forall>x \<in> set cs. fat_tab V fs s x \<noteq> 0"
  shows "extended V fs cs (a @ b) s s2"
proof -
  have "set b \<subseteq> free_clusters V fs s - set a" using assms(2) extended_free(1) [OF assms(1,3)] by (simp add: extended_def)
  then show ?thesis using assms(1,2) fat_step_trans [of V fs s s1 s2] unfolding extended_def by auto
qed

lemma extended_one:
  assumes "c \<in> free_clusters V fs s" and "fat_step V fs s s'" and "next_free_ok (fats s' fs)" and "c \<noteq> 0"
    and "fat_tab V fs s' = linked (fat_tab V fs s) (if cs = [] then 0 else last cs) c" and "\<forall>x \<in> set cs. fat_tab V fs s x \<noteq> 0"
  shows "extended V fs cs [c] s s'"
proof -
  have "c \<notin> set cs" using assms(1,6) by (auto simp: free_clusters_def)
  then show ?thesis using assms by (auto simp: extended_def linked_def FAT_EOC_def split: if_splits)
qed

lemma extend_loop_spec:
  assumes "fat_inv V fs s" and "reliable V s" and "next_free_ok (fats s fs)" and "fat_chain V fs s c0 cs"
    and "\<forall>x \<in> set cs. fat_tab V fs s x \<noteq> 0" and "unat i < length cs" and "i < clusters"
    and "unat clusters - length cs \<le> card (free_clusters V fs s)"
  shows "\<exists>new s'. extend_loop fs clusters False i (cs ! unat i) s = Some (Some (clusters - 1, (cs @ new) ! (unat clusters - 1)), s') \<and>
    extended V fs cs new s s' \<and> fat_chain V fs s' c0 (cs @ new) \<and> length new = unat clusters - length cs"
  using assms
proof (induction "unat clusters - unat i" arbitrary: i cs s rule: less_induct)
  case less
  let ?c = "cs ! unat i" let ?P = "fat_valid (fats s fs)"
  have il: "unat i < unat clusters" using less.prems(7) by (simp add: word_less_nat_alt)
  have i1: "unat (i + 1) = unat i + 1" using il unat_lt_32 [of clusters] by (subst unat_add_nowrap) simp_all
  show ?case
  proof (cases "i + 1 < clusters")
    case False
    have u: "unat clusters = unat i + 1" using False i1 il by (simp add: word_less_nat_alt)
    then have "clusters = i + 1" using i1 by (simp add: word_unat_eq_iff)
    moreover have "extend_loop fs clusters False i ?c s = Some (Some (i, ?c), s)" using False by (subst extend_loop.simps) simp
    ultimately show ?thesis
      using less.prems u extended_refl [OF fat_step_refl [OF less.prems(1)] refl less.prems(3,5)]
      by (intro exI [of _ "[]"] exI [of _ s]) simp
  next
    case True
    have i1c: "unat i + 1 < unat clusters" using True i1 by (simp add: word_less_nat_alt)
    have less: "unat clusters - unat (i + 1) < unat clusters - unat i" using i1 il by simp
    have val: "?P ?c" using chain_valid [OF less.prems(4)] less.prems(6) by simp
    obtain v s1 where g: "fat_get fs ?c s = Some (v, s1)" "fat_step V fs s s1" "fat_tab V fs s1 = fat_tab V fs s"
      "fs_next_free (fats s1 fs) = fs_next_free (fats s fs)" "reliable V s \<longrightarrow> v = fat_tab V fs s ?c"
      by (rule fat_get_tab [OF less.prems(1) valid_in_fat(1) [OF less.prems(1) val]])
    note keep = fat_step_keeps [OF g(2)] and inv1 = fat_step_inv [OF g(2)]
    have v: "v = fat_tab V fs s ?c" using g(5) less.prems(2) by simp
    have r1: "reliable V s1" using fat_step_reliable [OF g(2)] less.prems(2) by simp
    have n1: "next_free_ok (fats s1 fs)" using less.prems(3) g(4) keep(5) by (simp add: next_free_ok_def)
    have f1: "free_clusters V fs s1 = free_clusters V fs s" using g(3) keep(4) by (simp add: free_clusters_def)
    have ch1: "fat_chain V fs s1 c0 cs" using less.prems(4) g(3) keep(4) by simp
    have nz1: "\<forall>x \<in> set cs. fat_tab V fs s1 x \<noteq> 0" using less.prems(5) g(3) by simp
    note e1 = extended_refl [OF g(2,3) n1 less.prems(5)]
    note nxt = chain_step [OF less.prems(4,6)]
    show ?thesis
    proof (cases "Suc (unat i) < length cs")
      case more: True
      have vn: "v = cs ! unat (i + 1)" using nxt more v i1 by simp
      have "?P v" "v \<noteq> 0" using chain_valid [OF less.prems(4)] valid_masked(2) [OF less.prems(1)] vn more i1 by simp_all
      then have e: "extend_loop fs clusters False i ?c s = extend_loop fs clusters False (i + 1) (cs ! unat (i + 1)) s1"
        using True g(1) keep(4) vn by (subst extend_loop.simps) simp
      from less.hyps [OF less inv1 r1 n1 ch1 nz1 _ True] less.prems(8) f1 more i1 obtain new s' where
        h: "extend_loop fs clusters False (i + 1) (cs ! unat (i + 1)) s1 = Some (Some (clusters - 1, (cs @ new) ! (unat clusters - 1)), s')"
          "extended V fs cs new s1 s'" "fat_chain V fs s' c0 (cs @ new)" "length new = unat clusters - length cs" by auto
      then show ?thesis using e extended_trans [OF e1 _ less.prems(5), of new s'] by (intro exI [of _ new] exI [of _ s']) simp
    next
      case False
      then have ln: "length cs = unat i + 1" using less.prems(6) by simp
      then have "cs \<noteq> []" by auto
      then have lst: "?c = last cs" "cs \<noteq> []" using ln by (simp_all add: last_conv_nth)
      have nv: "\<not> fat_valid (fats s1 fs) v" using nxt False v keep(4) by simp
      have fr: "free_clusters V fs s1 \<noteq> {}" using f1 less.prems(8) ln i1c by auto
      have pv: "?c = 0 \<or> fat_valid (fats s1 fs) ?c" using val keep(4) by simp
      obtain x s2 where a: "fat_alloc fs ?c False s1 = Some (x, s2)" "x \<in> free_clusters V fs s1" "x \<noteq> 0" "fat_step V fs s1 s2"
        "fat_tab V fs s2 = linked (fat_tab V fs s1) ?c x" "next_free_ok (fats s2 fs)"
        by (rule fat_alloc_free [OF inv1 r1 n1 pv fr])
      have x: "fat_valid (fats s1 fs) x" "x \<notin> set cs" using a(2) nz1 by (auto simp: free_clusters_def)
      have c0: "last cs \<noteq> 0" using valid_masked(2) [OF less.prems(1) val] lst by simp
      have ch2: "fat_chain V fs s2 c0 (cs @ [x])"
        using chain_linked [OF ch1 lst(2) x eoc_invalid [OF inv1] c0] a(5) lst(1) fat_step_keeps(4) [OF a(4)] by simp
      have e2: "extended V fs cs [x] s1 s2" by (rule extended_one [OF a(2,4,6,3) _ nz1]) (use a(5) lst in simp)
      have nz2: "\<forall>y \<in> set (cs @ [x]). fat_tab V fs s2 y \<noteq> 0" using e2 unfolding extended_def by blast
      have e: "extend_loop fs clusters False i ?c s = extend_loop fs clusters False (i + 1) ((cs @ [x]) ! unat (i + 1)) s2"
        using True g(1) nv a(1,3) ln i1 by (subst extend_loop.simps) (simp add: nth_append)
      have "unat clusters - length (cs @ [x]) \<le> card (free_clusters V fs s2)"
        using extended_free(2) [OF e2 nz1] f1 less.prems(8) by simp
      from less.hyps [OF less fat_step_inv [OF a(4)] _ a(6) ch2 nz2 _ True this] ln i1 r1 fat_step_reliable [OF a(4)] obtain new s' where
        h: "extend_loop fs clusters False (i + 1) ((cs @ [x]) ! unat (i + 1)) s2 = Some (Some (clusters - 1, ((cs @ [x]) @ new) ! (unat clusters - 1)), s')"
          "extended V fs (cs @ [x]) new s2 s'" "fat_chain V fs s' c0 ((cs @ [x]) @ new)" "length new = unat clusters - length (cs @ [x])" by auto
      have "extended V fs cs ([x] @ new) s1 s'" by (rule extended_trans [OF e2 h(2) nz1])
      then have "extended V fs cs (x # new) s s'" using extended_trans [OF e1, of "x # new" s'] less.prems(5) by simp
      then show ?thesis using e h ln i1c by (intro exI [of _ "x # new"] exI [of _ s']) simp
    qed
  qed
qed

subsection \<open>Extending a file\<close>

text \<open>The operations on the table and a change of a node commute.\<close>

abbreviation placed :: "ptr \<Rightarrow> u32 \<Rightarrow> u32 \<Rightarrow> u32 \<Rightarrow> ('d, 'a) fat_state_scheme \<Rightarrow> ('d, 'a) fat_state_scheme" where
  "placed fn c i h \<equiv> upd_fn fn (\<lambda>n. n\<lparr>fn_cluster := c, fn_hint_index := i, fn_hint_cluster := h\<rparr>)"

lemma upd_fn_simps [simp]:
  "fats (upd_fn fn g s) = fats s" "cmos (upd_fn fn g s) = cmos s" "vnodes (upd_fn fn g s) = vnodes s" "vfs_memory (upd_fn fn g s) = vfs_memory s"
  "drv (upd_fn fn g s) = drv s" "block_bounce (upd_fn fn g s) = block_bounce s" "device j (upd_fn fn g s) = device j s"
  "fat_nodes (upd_fn fn g s) = (fat_nodes s)(fn := g (fat_nodes s fn))"
  "fat_inv V fs (upd_fn fn g s) = fat_inv V fs s" "fat_tab V fs (upd_fn fn g s) = fat_tab V fs s"
  "vol_sector V (upd_fn fn g s) = vol_sector V s" "reliable V (upd_fn fn g s) = reliable V s" "vol_size V (upd_fn fn g s) = vol_size V s"
  "free_clusters V fs (upd_fn fn g s) = free_clusters V fs s"
  by (simp_all add: upd_fn_def vfs_memory_def device_def fat_inv_def vol_ok_def on_disk_def vol_size_def cache_bytes_def vol_sector_def
      fat_tab_def fat_raw_def table_sector_def cached_def reliable_def fun_eq_iff free_clusters_def)

lemma fat_upd_node: "fat_upd m d fs f (upd_fn fn g s) = upd_fn fn g (fat_upd m d fs f s)"
  by (simp add: fat_upd_def upd_fn_def set_vfs_memory_def)

lemma fat_step_node:
  assumes "fat_step V fs s s'"
  shows "fat_step V fs (upd_fn fn g s) (upd_fn fn g s')"
proof -
  from assms obtain m d f where "fat_inv V fs s'" "s' = fat_upd m d fs f s" "geometry f = geometry (fats s fs)" "next_free_ok (fats s fs) \<longrightarrow> next_free_ok f"
    "\<forall>a. \<not> unat (a - block_bounce s) < 65536 \<longrightarrow> \<not> unat (a - fat_cache fs) < 512 \<longrightarrow> m a = vfs_memory s a"
    "\<forall>l < 2 ^ 32. \<not> in_table (fats s fs) l \<longrightarrow> vol_disk V d (of_nat l + vol_off V) = vol_sector V s l"
    unfolding fat_step_def by blast
  then show ?thesis
    unfolding fat_step_def by (intro conjI exI [of _ m] exI [of _ d] exI [of _ f]) (simp_all add: fat_upd_node)
qed

lemma extended_node: "extended V fs cs new s s' \<Longrightarrow> extended V fs cs new (upd_fn fn g s) (upd_fn fn g s')"
  unfolding extended_def by (simp add: fat_step_node)

lemma placed_placed: "placed fn c i h (placed fn c' i' h' s) = placed fn c i h s"
  by (simp add: upd_fn_def)

lemma placed_hint: "set_hint fn i h (placed fn c i' h' s) = placed fn c i h s"
  by (simp add: upd_fn_def set_hint_def)

lemma extended_reliable: "extended V fs cs new s s' \<Longrightarrow> reliable V s' = reliable V s"
  unfolding extended_def by (blast dest: fat_step_reliable)

text \<open>The first cluster of an empty file.\<close>

lemma extend_first:
  assumes "fat_file_inv V fs fn [] s" and "next_free_ok (fats s fs)" and "free_clusters V fs s \<noteq> {}"
  obtains c s' where "fat_alloc fs 0 False s = Some (c, s')" "c \<noteq> 0" "fat_file_inv V fs fn [c] (placed fn c 0 c s')"
    "extended V fs [] [c] s s'"
proof -
  have inv: "fat_inv V fs s" "reliable V s" using assms(1) by (simp_all add: fat_file_inv_def)
  obtain c s' where a: "fat_alloc fs 0 False s = Some (c, s')" "c \<in> free_clusters V fs s" "c \<noteq> 0" "fat_step V fs s s'"
    "fat_tab V fs s' = linked (fat_tab V fs s) 0 c" "next_free_ok (fats s' fs)"
    by (rule fat_alloc_free [OF inv assms(2) disjI1 [OF refl] assms(3)])
  have e: "extended V fs [] [c] s s'" by (rule extended_one [OF a(2,4,6,3)]) (use a(5) in simp_all)
  have "fat_valid (fats s' fs) c" using a(2) fat_step_keeps(4) [OF a(4)] by (simp add: free_clusters_def)
  then have "fat_chain V fs s' c [c]" using a(5) eoc_invalid [OF fat_step_inv [OF a(4)]] by (simp add: linked_def)
  then have "fat_file_inv V fs fn [c] (placed fn c 0 c s')"
    using assms(1) fat_step_inv [OF a(4)] fat_step_keeps(1) [OF a(4)] fat_step_reliable [OF a(4)] by (simp add: fat_file_inv_def hint_ok_def)
  then show thesis using a(1,3) e by (intro that)
qed

text \<open>The loop, started at the hint or at the first cluster.\<close>

lemma extend_from_hint:
  assumes "fat_file_inv V fs fn cs s" and "next_free_ok (fats s fs)" and "\<forall>x \<in> set cs. fat_tab V fs s x \<noteq> 0" and "cs \<noteq> []"
    and "unat clusters - length cs \<le> card (free_clusters V fs s)" and "clusters \<noteq> 0"
    and "(i, c) = (if fn_hint_cluster (fat_nodes s fn) \<noteq> 0 \<and> fn_hint_index (fat_nodes s fn) < clusters
           then (fn_hint_index (fat_nodes s fn), fn_hint_cluster (fat_nodes s fn)) else (0, fn_cluster (fat_nodes s fn)))"
  shows "\<exists>new s' j x. extend_loop fs clusters False i c s = Some (Some (j, x), s') \<and> extended V fs cs new s s' \<and>
    length new = unat clusters - length cs \<and> fat_file_inv V fs fn (cs @ new) (set_hint fn j x s')"
proof -
  have inv: "fat_inv V fs s" "reliable V s" "fat_chain V fs s (fn_cluster (fat_nodes s fn)) cs" "hint_ok (fat_nodes s fn) cs" "fn_fs (fat_nodes s fn) = fs"
    using assms(1) by (simp_all add: fat_file_inv_def)
  have hd: "cs ! 0 = fn_cluster (fat_nodes s fn)" using inv(3) assms(4) by (cases cs) auto
  have c: "unat i < length cs" "c = cs ! unat i" "i < clusters"
    using assms(4,6,7) inv(4) hd by (auto simp: hint_ok_def word_neq_0_conv split: if_splits)
  from extend_loop_spec [OF inv(1,2) assms(2) inv(3) assms(3) c(1,3) assms(5)] obtain new s' where
    h: "extend_loop fs clusters False i c s = Some (Some (clusters - 1, (cs @ new) ! (unat clusters - 1)), s')" "extended V fs cs new s s'"
      "fat_chain V fs s' (fn_cluster (fat_nodes s fn)) (cs @ new)" "length new = unat clusters - length cs"
    unfolding c(2) by blast
  have st: "fat_step V fs s s'" using h(2) by (simp add: extended_def)
  have k: "unat (clusters - 1) = unat clusters - 1" using assms(6) by (metis unat_minus_one)
  have "unat clusters - 1 < length (cs @ new)" using h(4) assms(6) by (simp add: unat_gt_0 [symmetric] del: unat_gt_0)
  then have "fat_file_inv V fs fn (cs @ new) (set_hint fn (clusters - 1) ((cs @ new) ! (unat clusters - 1)) s')"
    using fat_step_inv [OF st] fat_step_keeps(1) [OF st] extended_reliable [OF h(2)] inv h(3) k by (simp add: fat_file_inv_def hint_ok_def)
  then show ?thesis using h by blast
qed

lemma fat_extend_spec:
  assumes "fat_file_inv V fs fn cs s" and "next_free_ok (fats s fs)" and "\<forall>x \<in> set cs. fat_tab V fs s x \<noteq> 0"
    and "unat clusters - length cs \<le> card (free_clusters V fs s)"
  shows "\<exists>new s' c i h. fat_extend fn clusters False s = Some (0, s') \<and> fat_file_inv V fs fn (cs @ new) s' \<and>
    length new = unat clusters - length cs \<and> extended V fs cs new (placed fn c i h s) s'"
proof (cases "clusters = 0")
  case True
  let ?n = "fat_nodes s fn"
  have "placed fn (fn_cluster ?n) (fn_hint_index ?n) (fn_hint_cluster ?n) s = s" by (simp add: upd_fn_def)
  moreover have "extended V fs cs [] s s" using extended_refl [OF fat_step_refl refl assms(2,3)] assms(1) by (simp add: fat_file_inv_def)
  ultimately show ?thesis
    using True assms(1)
    by (intro exI [of _ "[]"] exI [of _ s] exI [of _ "fn_cluster ?n"] exI [of _ "fn_hint_index ?n"] exI [of _ "fn_hint_cluster ?n"])
      (simp add: fat_extend_def)
next
  case F: False
  let ?n = "fat_nodes s fn"
  have inv: "fn_fs ?n = fs" "fat_chain V fs s (fn_cluster ?n) cs" using assms(1) by (simp_all add: fat_file_inv_def)
  show ?thesis
  proof (cases "cs = []")
    case True
    then have nv: "\<not> fat_valid (fats s fs) (fn_cluster ?n)" using inv(2) by simp
    have "free_clusters V fs s \<noteq> {}" using assms(4) True F by (auto simp: unat_eq_0)
    then obtain c s1 where a: "fat_alloc fs 0 False s = Some (c, s1)" "c \<noteq> 0" "fat_file_inv V fs fn [c] (placed fn c 0 c s1)" "extended V fs [] [c] s s1"
      using extend_first [OF assms(1) [unfolded True] assms(2)] by blast
    let ?s1 = "placed fn c 0 c s1"
    have e1: "extended V fs [] [c] (placed fn c 0 c s) ?s1" by (rule extended_node [OF a(4)])
    have "1 \<le> unat clusters" using F by (metis One_nat_def Suc_leI unat_gt_0)
    then have n: "next_free_ok (fats ?s1 fs)" "\<forall>x \<in> set [c]. fat_tab V fs ?s1 x \<noteq> 0" "unat clusters - length [c] \<le> card (free_clusters V fs ?s1)"
      using e1 extended_free(2) [OF e1] assms(4) True by (simp_all add: extended_def)
    obtain i x where ix: "(i, x) = (if fn_hint_cluster (fat_nodes ?s1 fn) \<noteq> 0 \<and> fn_hint_index (fat_nodes ?s1 fn) < clusters
           then (fn_hint_index (fat_nodes ?s1 fn), fn_hint_cluster (fat_nodes ?s1 fn)) else (0, fn_cluster (fat_nodes ?s1 fn)))" by (metis surj_pair)
    from extend_from_hint [OF a(3) n(1,2) _ n(3) F ix] obtain new s' j y where
      h: "extend_loop fs clusters False i x ?s1 = Some (Some (j, y), s')" "extended V fs [c] new ?s1 s'"
        "length new = unat clusters - length [c]" "fat_file_inv V fs fn ([c] @ new) (set_hint fn j y s')" by blast
    have "extended V fs [] ([c] @ new) (placed fn c 0 c s) s'" by (rule extended_trans [OF e1]) (use h(2) in simp_all)
    then have "extended V fs [] (c # new) (placed fn c j y s) (set_hint fn j y s')"
      using extended_node [of V fs "[]" "c # new" "placed fn c 0 c s" s' fn "\<lambda>n. n\<lparr>fn_hint_index := j, fn_hint_cluster := y\<rparr>"]
      by (simp add: set_hint_def upd_fn_def)
    moreover have "fat_extend fn clusters False s = Some (0, set_hint fn j y s')"
      using F nv a(1,2) inv(1) h(1) ix unfolding fat_extend_def by (simp add: Let_def split: if_splits)
    ultimately show ?thesis using h(3,4) True \<open>1 \<le> unat clusters\<close> by (intro exI [of _ "c # new"] exI [of _ "set_hint fn j y s'"]) auto
  next
    case False
    have v: "fat_valid (fats s fs) (fn_cluster ?n)" using inv(2) False by (cases cs) auto
    obtain i x where ix: "(i, x) = (if fn_hint_cluster ?n \<noteq> 0 \<and> fn_hint_index ?n < clusters
           then (fn_hint_index ?n, fn_hint_cluster ?n) else (0, fn_cluster ?n))" by (metis surj_pair)
    from extend_from_hint [OF assms(1-3) False assms(4) F ix] obtain new s' j y where
      h: "extend_loop fs clusters False i x s = Some (Some (j, y), s')" "extended V fs cs new s s'"
        "length new = unat clusters - length cs" "fat_file_inv V fs fn (cs @ new) (set_hint fn j y s')" by blast
    have "set_hint fn j y s = placed fn (fn_cluster ?n) j y s" by (simp add: set_hint_def upd_fn_def)
    then have "extended V fs cs new (placed fn (fn_cluster ?n) j y s) (set_hint fn j y s')"
      using extended_node [OF h(2), of fn "\<lambda>n. n\<lparr>fn_hint_index := j, fn_hint_cluster := y\<rparr>"] by (simp add: set_hint_def)
    moreover have "fat_extend fn clusters False s = Some (0, set_hint fn j y s')"
      using F v inv(1) h(1) ix unfolding fat_extend_def by (auto simp: Let_def split: if_splits)
    ultimately show ?thesis using h(3,4) by (intro exI [of _ new] exI [of _ "set_hint fn j y s'"]) auto
  qed
qed

end
