(* ===== verification/FatWrite.thy ===== *)
theory FatWrite
  imports FatExtend
begin

text \<open>
  \<^verbatim>\<open>fat_write\<close> as a whole: it extends the chain, writes the caller's bytes, records size and first
  cluster in the directory entry and writes the table back.
\<close>

subsection \<open>What does not concern a file\<close>

lemma fat_file_inv_other:
  assumes "fat_file_inv V fs fn cs s" and "fat_inv V fs s'" and "reliable V s'" and "fat_nodes s' fn = fat_nodes s fn"
    and "\<And>x. x \<in> set cs \<Longrightarrow> fat_tab V fs s' x = fat_tab V fs s x" and "geometry (fats s' fs) = geometry (fats s fs)"
  shows "fat_file_inv V fs fn cs s'"
proof -
  have "fat_chain V fs s (fn_cluster (fat_nodes s fn)) cs" using assms(1) by (simp add: fat_file_inv_def)
  then have "chain (fat_tab V fs s') (fat_valid (fats s fs)) (fn_cluster (fat_nodes s fn)) cs" by (rule chain_tab_cong) (rule assms(5))
  then show ?thesis using assms(1-4) geometry_cong(4) [OF assms(6)] by (simp add: fat_file_inv_def)
qed

lemma frame_other_file:
  assumes "file_frame V fs dn stk buf n s s'" and "fat_file_inv V fs dn ds s'" and "fat_file_inv V fs fn cs s" and "fn \<noteq> dn"
  shows "fat_file_inv V fs fn cs s'"
proof (rule fat_file_inv_other [OF assms(3)])
  show "fat_inv V fs s'" "reliable V s'" using assms(2) by (simp_all add: fat_file_inv_def)
  show "fat_nodes s' fn = fat_nodes s fn" using assms(1,4) by (auto simp: file_frame_def)
qed (use assms(1) in \<open>simp_all add: file_frame_def\<close>)

text \<open>The file's bytes when only clusters of others changed.\<close>

lemma file_byte_other:
  assumes "fat_file_inv V fs fn cs s" and "p < cluster_size (fats s fs) * length cs"
    and "\<And>c r. c \<in> set cs \<Longrightarrow> fat_valid (fats s fs) c \<Longrightarrow> r < cluster_size (fats s fs) \<Longrightarrow> cluster_byte V (fats s fs) s' c r = cluster_byte V (fats s fs) s c r"
  shows "file_byte V (fats s fs) cs s' p = file_byte V (fats s fs) cs s p"
proof -
  have inv: "fat_inv V fs s" "fat_chain V fs s (fn_cluster (fat_nodes s fn)) cs" using assms(1) by (simp_all add: fat_file_inv_def)
  have b0: "0 < cluster_size (fats s fs)" by (rule layout_clusters(1) [OF inv_layout [OF inv(1)]])
  have "p div cluster_size (fats s fs) < length cs" using assms(2) by (metis less_mult_imp_div_less mult.commute)
  then show ?thesis unfolding file_byte_def using chain_valid [OF inv(2)] b0 by (intro assms(3)) simp_all
qed

text \<open>A change of memory outside the cache.\<close>

definition mem_upd :: "mem \<Rightarrow> nat \<Rightarrow> ('d, 'a) fat_state_scheme \<Rightarrow> ('d, 'a) fat_state_scheme" where
  "mem_upd m i s = set_vfs_memory m (s\<lparr>cmos_reads := i\<rparr>)"

lemma mem_upd_simps [simp]:
  "fats (mem_upd m i s) = fats s" "cmos (mem_upd m i s) = cmos s" "fat_nodes (mem_upd m i s) = fat_nodes s" "vnodes (mem_upd m i s) = vnodes s"
  "vfs_memory (mem_upd m i s) = m" "drv (mem_upd m i s) = drv s" "block_bounce (mem_upd m i s) = block_bounce s"
  "device j (mem_upd m i s) = device j s" "vol_size V (mem_upd m i s) = vol_size V s" "vol_sector V (mem_upd m i s) = vol_sector V s"
  "vol_byte V (mem_upd m i s) = vol_byte V s"
  "reliable V (mem_upd m i s) = reliable V s" "vol_ok V (mem_upd m i s) = vol_ok V s"
  by (simp_all add: mem_upd_def set_vfs_memory_def vfs_memory_def device_def vol_ok_def vol_size_def on_disk_def reliable_def vol_sector_def
      vol_byte_def fun_eq_iff)

lemma mem_upd_file:
  assumes "fat_file_inv V fs fn cs s" and "apart (fat_cache fs) 512 b n" and "\<And>a. \<not> unat (a - b) < n \<Longrightarrow> m a = vfs_memory s a"
  shows "fat_file_inv V fs fn cs (mem_upd m i s)" "file_frame V fs fn stk b n s (mem_upd m i s)"
proof -
  have c: "cache_bytes fs (mem_upd m i s) = cache_bytes fs s"
    unfolding cache_bytes_def
  proof (rule bytes_at_eqI)
    fix k :: nat assume "k < 512"
    then have "unat ((fat_cache fs + of_nat k) - fat_cache fs) < 512" by (rule in_buffer) simp
    then show "vfs_memory (mem_upd m i s) (fat_cache fs + of_nat k) = vfs_memory s (fat_cache fs + of_nat k)"
      using assms(3) apart_in [OF assms(2)] by simp
  qed
  have t: "fat_tab V fs (mem_upd m i s) = fat_tab V fs s" by (simp add: fat_tab_def fat_raw_def table_sector_def cached_def c fun_eq_iff)
  show "fat_file_inv V fs fn cs (mem_upd m i s)" using assms(1) t by (simp add: fat_file_inv_def fat_inv_def c)
  have "\<exists>i c. fat_nodes s = (fat_nodes s)(fn := (fat_nodes s fn)\<lparr>fn_hint_index := i, fn_hint_cluster := c\<rparr>)"
    using fat_node_hint_id [of "fat_nodes s fn"] by (metis fun_upd_triv)
  then show "file_frame V fs fn stk b n s (mem_upd m i s)" unfolding file_frame_def using assms(3) t by simp
qed

subsection \<open>The directory entry\<close>

lemma store_u16_entry: "unat c + 2 \<le> n \<Longrightarrow> \<not> unat (a - e) < n \<Longrightarrow> store_u16 (e + c) w m a = m a"
  unfolding store_u16_def by (rule store_le_other) (use in_later_chunk [of a e c 2 n] in \<open>auto simp: not_less [symmetric]\<close>)

lemma store_u32_entry: "unat c + 4 \<le> n \<Longrightarrow> \<not> unat (a - e) < n \<Longrightarrow> store_u32 (e + c) w m a = m a"
  unfolding store_u32_def by (rule store_le_other) (use in_later_chunk [of a e c 4 n] in \<open>auto simp: not_less [symmetric]\<close>)

lemma field_gap:
  fixes e c d :: u64
  assumes "n \<le> 4" and "k \<le> unat (c - d)" and "unat (c - d) + n \<le> 2 ^ 64" and "i < n"
  shows "k \<le> unat (e + c + of_nat i - (e + d))"
proof -
  have u: "unat (of_nat i :: u64) = i" by (rule unat_of_nat_small) (use assms(1,4) in simp)
  have "e + c + of_nat i - (e + d) = (c - d) + of_nat i" by (simp add: algebra_simps)
  moreover have "unat ((c - d) + of_nat i) = unat (c - d) + i" using assms u by (subst unat_add_nowrap) simp_all
  ultimately show ?thesis using assms(2) by (simp only:)
qed

lemma load_other_field:
  assumes "2 \<le> unat (c - d)"
  shows "unat (c - d) + 2 \<le> 2 ^ 64 \<Longrightarrow> load_u16 (store_u16 (e + d) w m) (e + c) = load_u16 m (e + c)"
    "unat (c - d) + 4 \<le> 2 ^ 64 \<Longrightarrow> load_u32 (store_u16 (e + d) w m) (e + c) = load_u32 m (e + c)"
    "4 \<le> unat (c - d) \<Longrightarrow> unat (c - d) + 2 \<le> 2 ^ 64 \<Longrightarrow> load_u16 (store_u32 (e + d) w' m) (e + c) = load_u16 m (e + c)"
  unfolding load_u16_def store_u16_def load_u32_def store_u32_def
  by (rule load_le_cong, rule store_le_other, simp, rule field_gap; use assms in simp)+

lemma unat_neg_of_nat:
  assumes "0 < k" and "k < 2 ^ 64"
  shows "unat (- of_nat k :: u64) = 2 ^ 64 - k"
proof -
  have "unat (of_nat k :: u64) = k" using unat_of_nat_small [of k, where 'a = 64] assms(2) by simp
  then show ?thesis using unat_neg_64 [of "of_nat k"] assms(1) by fastforce
qed

text \<open>The fields of the entry at \<open>e\<close> that \<^verbatim>\<open>fat_update_entry\<close> sets.\<close>

definition entry_records :: "mem \<Rightarrow> ptr \<Rightarrow> u32 \<Rightarrow> u32 \<Rightarrow> bool" where
  "entry_records m e c sz \<longleftrightarrow> entry_cluster m e = c \<and> load_u32 m (e + 28) = sz"

lemma stamp_records:
  "entry_records (store_u16 (e + 18) d (store_u16 (e + 24) d' (store_u16 (e + 22) t
     (store_u32 (e + 28) sz (store_u16 (e + 26) (ucast c) (store_u16 (e + 20) (ucast (drop_bit 16 c)) m)))))) e c sz"
proof -
  have "push_bit 16 (ucast (ucast (drop_bit 16 c) :: u16)) OR ucast (ucast c :: u16) = c" by (rule bit_word_eqI) (auto simp: bit_simps)
  then show ?thesis
    unfolding entry_records_def entry_cluster_def
    using unat_neg_of_nat [of 2] unat_neg_of_nat [of 4] unat_neg_of_nat [of 6] unat_neg_of_nat [of 8] by (simp add: load_other_field)
qed

lemma entry_records_cong:
  assumes "\<And>i. i < 32 \<Longrightarrow> m' (e' + of_nat i) = m (e + of_nat i)" and "entry_records m e c sz"
  shows "entry_records m' e' c sz"
proof -
  have a: "m' (e' + of_nat k + of_nat i) = m (e + of_nat k + of_nat i)" if "k + i < 32" for k i
    using assms(1) [OF that] by (simp add: add.assoc)
  have "load_u16 m' (e' + 20) = load_u16 m (e + 20)" "load_u16 m' (e' + 26) = load_u16 m (e + 26)" "load_u32 m' (e' + 28) = load_u32 m (e + 28)"
    unfolding load_u16_def load_u32_def by (rule load_le_cong, use a [of 20] a [of 26] a [of 28] in simp)+
  then show ?thesis using assms(2) by (simp add: entry_records_def entry_cluster_def)
qed

text \<open>A file as a memory, and the entry of a node in its directory.\<close>

definition file_mem :: "'d volume \<Rightarrow> fat32 \<Rightarrow> u32 list \<Rightarrow> ('d, 'a) fat_state_scheme \<Rightarrow> mem" where
  "file_mem V f cs s a = file_byte V f cs s (unat a)"

text \<open>The clock answers whenever it is read.\<close>

definition clock_runs :: "('d, 'a) fat_state_scheme \<Rightarrow> bool" where
  "clock_runs s \<longleftrightarrow> (\<forall>i. rtc_read (cmos s) i \<noteq> None)"

lemma stamp_entry:
  assumes "clock_runs s"
  obtains m i where "fat_timestamp e False (store_entry_fields e c sz s) = Some (mem_upd m i s)" "entry_records m e c sz"
    "\<And>a. \<not> unat (a - e) < 32 \<Longrightarrow> m a = vfs_memory s a"
proof -
  obtain t i where "rtc_read (cmos s) (cmos_reads s) = Some (t, i)" using assms unfolding clock_runs_def by fastforce
  moreover have "cmos (store_entry_fields e c sz s) = cmos s" "cmos_reads (store_entry_fields e c sz s) = cmos_reads s"
    by (simp_all add: store_entry_fields_def set_vfs_memory_def)
  moreover obtain time date where td: "(time, date) = (if rtc_year t \<ge> 1980 then (fat_time t, fat_date t) else (0, 33))" by (metis surj_pair)
  ultimately have "fat_timestamp e False (store_entry_fields e c sz s) =
      Some (mem_upd (store_u16 (e + 18) date (store_u16 (e + 24) date (store_u16 (e + 22) time (store_u32 (e + 28) sz
        (store_u16 (e + 26) (ucast c) (store_u16 (e + 20) (ucast (drop_bit 16 c)) (vfs_memory s))))))) i s)"
    unfolding fat_timestamp_def td [symmetric]
    by (simp add: store_entry_fields_def mem_upd_def set_vfs_memory_def vfs_memory_def td [symmetric] cong: if_cong)
  then show thesis by (rule that) (simp_all add: stamp_records store_u16_entry [where n = 32] store_u32_entry [where n = 32])
qed

lemma fat_update_entry_spec:
  assumes "fat_file_inv V fs dn ds s" and "dn = v_private_data (vnodes s (v_parent (vnodes s node)))" and "v_parent (vnodes s node) \<noteq> NULL"
    and "v_type (vnodes s node) = VNODE_FILE" and "fn = v_private_data (vnodes s node)" and "fn \<noteq> dn"
    and "pos = unat (fn_entry_offset (fat_nodes s fn))" and "pos + 32 \<le> cluster_size (fats s fs) * length ds"
    and "bufs_ok fs stk (stk + 512) 32 s" and "clock_runs s"
  shows "\<exists>s'. fat_update_entry stk node s = Some (0, s') \<and> fat_file_inv V fs dn ds s' \<and> file_frame V fs dn stk (stk + 512) 32 s s' \<and>
    (\<forall>c r. fat_valid (fats s fs) c \<longrightarrow> c \<notin> set ds \<longrightarrow> r < cluster_size (fats s fs) \<longrightarrow>
       cluster_byte V (fats s fs) s' c r = cluster_byte V (fats s fs) s c r) \<and>
    entry_records (file_mem V (fats s fs) ds s') (of_nat pos) (fn_cluster (fat_nodes s fn)) (ucast (v_size (vnodes s node)))"
proof -
  let ?e = "stk + 512" let ?off = "ucast (fn_entry_offset (fat_nodes s fn)) :: u64"
  have off: "unat ?off = pos" using assms(7) unat_lt_32 [of "fn_entry_offset (fat_nodes s fn)"] by (simp add: unsigned_ucast_eq take_bit_nat_eq_self)
  have small: "unat ?off + unat (32 :: u64) < 2 ^ 40" using unat_lt_32 [of "fn_entry_offset (fat_nodes s fn)"] off assms(7) by simp
  have b: "bufs_ok fs stk ?e (unat (32 :: u64)) s" using assms(9) by simp
  have N: "min (unat (32 :: u64)) (cluster_size (fats s fs) * length ds - unat ?off) = 32" using assms(8) off by simp
  from fat_io_loop_read [OF assms(1) small b N [symmetric], of 0] obtain s1 where
    r: "fat_io stk dn ?off ?e 32 False s = Some (32, s1)" "fat_file_inv V fs dn ds s1" "file_frame V fs dn stk ?e 32 s s1" "data_same V fs s s1"
    by (auto simp: fat_io_def)
  have k1: "vnodes s1 = vnodes s" "block_bounce s1 = block_bounce s" "cmos s1 = cmos s" "fat_nodes s1 fn = fat_nodes s fn"
    "geometry (fats s1 fs) = geometry (fats s fs)" using r(3) assms(6) by (auto simp: file_frame_def)
  have cl1: "clock_runs s1" using assms(10) k1(3) by (simp add: clock_runs_def)
  obtain m i where st: "fat_timestamp ?e False (store_entry_fields ?e (fn_cluster (fat_nodes s fn)) (ucast (v_size (vnodes s node))) s1) = Some (mem_upd m i s1)"
    "entry_records m ?e (fn_cluster (fat_nodes s fn)) (ucast (v_size (vnodes s node)))" "\<And>a. \<not> unat (a - ?e) < 32 \<Longrightarrow> m a = vfs_memory s1 a"
    by (rule stamp_entry [OF cl1]) blast
  let ?s2 = "mem_upd m i s1"
  have ap: "apart (fat_cache fs) 512 ?e 32" using assms(9) by (simp add: bufs_ok_def)
  note m2 = mem_upd_file [OF r(2) ap st(3)]
  have b2: "bufs_ok fs stk ?e (unat (32 :: u64)) ?s2" using assms(9) k1(2) by (simp add: bufs_ok_def)
  note gc = geometry_clusters [OF k1(5)]
  have N2: "32 = min (unat (32 :: u64)) (cluster_size (fats ?s2 fs) * length ds - unat ?off)" using N gc(1) by simp
  from fat_io_loop_write [OF m2(1) small b2 N2, of 0] obtain s3 where
    w: "fat_io stk dn ?off ?e 32 True ?s2 = Some (32, s3)" "fat_file_inv V fs dn ds s3" "file_frame V fs dn stk ?e 0 ?s2 s3"
      "file_written V fs ds pos (pos + 32) (?e - ?off) ?s2 s3"
    using off by (auto simp: fat_io_def)
  have e: "fat_update_entry stk node s = Some (0, s3)"
    using assms(2-6) r(1) st(1) w(1) k1(1,4) unfolding fat_update_entry_def by (simp add: Let_def)
  have f: "file_frame V fs dn stk ?e 32 s s3"
    by (rule file_frame_trans [OF file_frame_trans [OF r(3) m2(2)] w(3)]) simp_all
  have c: "cluster_byte V (fats s fs) s3 c r = cluster_byte V (fats s fs) s c r"
    if "fat_valid (fats s fs) c" "c \<notin> set ds" "r < cluster_size (fats s fs)" for c r
  proof -
    have "cluster_byte V (fats s fs) s3 c r = cluster_byte V (fats s fs) ?s2 c r"
      using w(4) that geometry_cong(4) [OF k1(5)] by (simp add: file_written_def Let_def gc)
    also have "\<dots> = cluster_byte V (fats s fs) s1 c r" by (simp add: cluster_byte_def)
    also have "\<dots> = cluster_byte V (fats s fs) s c r"
      by (rule cluster_byte_same [OF _ r(4)]) (use assms(1) that in \<open>simp_all add: fat_file_inv_def\<close>)
    finally show ?thesis .
  qed
  have rec: "entry_records (file_mem V (fats s fs) ds s3) (of_nat pos) (fn_cluster (fat_nodes s fn)) (ucast (v_size (vnodes s node)))"
  proof (rule entry_records_cong [OF _ st(2)])
    fix k :: nat assume k: "k < 32"
    have u: "unat (of_nat pos + of_nat k :: u64) = pos + k" using small off k by (subst of_nat_add [symmetric], subst unat_of_nat_small) simp_all
    have "file_byte V (fats s fs) ds s3 (pos + k) = m (?e - ?off + of_nat (pos + k))"
      using w(4) k assms(8) by (simp add: file_written_def Let_def gc)
    moreover have "of_nat pos = ?off" unfolding off [symmetric] by simp
    then have "?e - ?off + of_nat (pos + k) = ?e + of_nat k" by (simp add: algebra_simps)
    ultimately show "file_mem V (fats s fs) ds s3 (of_nat pos + of_nat k) = m (?e + of_nat k)" unfolding file_mem_def u by (simp add: add.assoc)
  qed
  show ?thesis using e w(2) f c rec by blast
qed

subsection \<open>Growing the file\<close>

text \<open>A file, its chain, and the chain of the directory that holds its entry.\<close>

definition fat_file :: "'d volume \<Rightarrow> ptr \<Rightarrow> ptr \<Rightarrow> u32 list \<Rightarrow> u32 list \<Rightarrow> ('d, 'a) fat_state_scheme \<Rightarrow> bool" where
  "fat_file V fs node cs ds s \<longleftrightarrow>
     (let v = vnodes s node; fn = v_private_data v; dn = v_private_data (vnodes s (v_parent v)) in
       v_type v = VNODE_FILE \<and> v_parent v \<noteq> NULL \<and> v_parent v \<noteq> node \<and> fn \<noteq> dn \<and> fat_file_inv V fs fn cs s \<and> fat_file_inv V fs dn ds s \<and>
       set cs \<inter> set ds = {} \<and> (\<forall>x \<in> set cs \<union> set ds. fat_tab V fs s x \<noteq> 0) \<and> next_free_ok (fats s fs) \<and>
       unat (fn_entry_offset (fat_nodes s fn)) + 32 \<le> cluster_size (fats s fs) * length ds)"

text \<open>What extending the chain of \<open>fn\<close> leaves alone.\<close>

definition grown :: "'d volume \<Rightarrow> ptr \<Rightarrow> ptr \<Rightarrow> u32 list \<Rightarrow> u32 list \<Rightarrow> ('d, 'a) fat_state_scheme \<Rightarrow> ('d, 'a) fat_state_scheme \<Rightarrow> bool" where
  "grown V fs fn cs new s s' \<longleftrightarrow> set new \<subseteq> free_clusters V fs s \<and> next_free_ok (fats s' fs) \<and> data_same V fs s s' \<and>
     geometry (fats s' fs) = geometry (fats s fs) \<and> vnodes s' = vnodes s \<and> block_bounce s' = block_bounce s \<and> cmos s' = cmos s \<and>
     vol_size V s' = vol_size V s \<and>
     fn_entry_offset (fat_nodes s' fn) = fn_entry_offset (fat_nodes s fn) \<and> (\<forall>x. x \<noteq> fn \<longrightarrow> fat_nodes s' x = fat_nodes s x) \<and>
     (\<forall>a. \<not> unat (a - block_bounce s) < 65536 \<longrightarrow> \<not> unat (a - fat_cache fs) < 512 \<longrightarrow> vfs_memory s' a = vfs_memory s a) \<and>
     (\<forall>x. x \<notin> set (cs @ new) \<longrightarrow> fat_tab V fs s' x = fat_tab V fs s x) \<and> (\<forall>x \<in> set (cs @ new). fat_tab V fs s' x \<noteq> 0)"

lemma fat_step_data:
  assumes "fat_inv V fs s" and "fat_step V fs s s'"
  shows "data_same V fs s s'"
proof -
  have "\<not> in_table (fats s fs) l" if "unat (fs_data_start (fats s fs)) \<le> l" for l
    using assms(1) that by (simp add: fat_inv_def fat_layout_def in_table_def)
  then show ?thesis using assms(2) by (auto simp: data_same_def fat_step_def)
qed

lemma extended_grown:
  assumes "extended V fs cs new (placed fn c i h s) s'" and "fat_inv V fs s"
  shows "grown V fs fn cs new s s'"
proof -
  have st: "fat_step V fs (placed fn c i h s) s'" using assms(1) by (simp add: extended_def)
  have "data_same V fs (placed fn c i h s) s'" by (rule fat_step_data [OF _ st]) (use assms(2) in simp)
  then have d: "data_same V fs s s'" by (simp add: data_same_def)
  have g: "geometry (fats s' fs) = geometry (fats s fs)" using fat_step_geometry [OF st] by simp
  have f: "vnodes s' = vnodes s" "block_bounce s' = block_bounce s" "fat_nodes s' = fat_nodes (placed fn c i h s)"
    using fat_step_keeps [OF st] by simp_all
  have o: "cmos s' = cmos s" "vol_size V s' = vol_size V s"
    "\<forall>a. \<not> unat (a - block_bounce s) < 65536 \<longrightarrow> \<not> unat (a - fat_cache fs) < 512 \<longrightarrow> vfs_memory s' a = vfs_memory s a"
    using st by (auto simp: fat_step_def)
  show ?thesis unfolding grown_def using assms(1) d g f o by (auto simp: extended_def)
qed

lemma grown_hint: "grown V fs fn cs new s s' \<Longrightarrow> grown V fs fn cs new s (set_hint fn i h s')"
  by (simp add: grown_def)

text \<open>The hint the file had is a hint of the extended chain, too.\<close>

lemma grow_file:
  assumes "fat_file_inv V fs fn cs s" and "next_free_ok (fats s fs)" and "\<forall>x \<in> set cs. fat_tab V fs s x \<noteq> 0"
    and "unat clusters - length cs \<le> card (free_clusters V fs s)"
  obtains new s1 where "fat_extend fn clusters False s = Some (0, s1)" "length new = unat clusters - length cs" "grown V fs fn cs new s s1"
    "fat_file_inv V fs fn (cs @ new) s1"
    "fn_hint_cluster (fat_nodes s fn) \<noteq> 0 \<longrightarrow>
      fat_file_inv V fs fn (cs @ new) (set_hint fn (fn_hint_index (fat_nodes s fn)) (fn_hint_cluster (fat_nodes s fn)) s1)"
proof -
  from fat_extend_spec [OF assms] obtain new s1 c i h where e: "fat_extend fn clusters False s = Some (0, s1)" "fat_file_inv V fs fn (cs @ new) s1"
    "length new = unat clusters - length cs" "extended V fs cs new (placed fn c i h s) s1" by blast
  have inv: "fat_inv V fs s" "hint_ok (fat_nodes s fn) cs" using assms(1) by (simp_all add: fat_file_inv_def)
  show thesis
  proof (rule that [OF e(1,3) extended_grown [OF e(4) inv(1)] e(2)], rule impI)
    assume "fn_hint_cluster (fat_nodes s fn) \<noteq> 0"
    then show "fat_file_inv V fs fn (cs @ new) (set_hint fn (fn_hint_index (fat_nodes s fn)) (fn_hint_cluster (fat_nodes s fn)) s1)"
      using inv(2) by (intro fat_file_inv_hint [OF e(2)]) (auto simp: hint_ok_def nth_append)
  qed
qed

text \<open>The directory is where it was.\<close>

lemma grown_other:
  assumes "grown V fs fn cs new s s'" and "fat_file_inv V fs dn ds s" and "fat_inv V fs s'" and "reliable V s'" and "dn \<noteq> fn"
    and "set cs \<inter> set ds = {}" and "\<forall>x \<in> set ds. fat_tab V fs s x \<noteq> 0"
  shows "fat_file_inv V fs dn ds s'" "set (cs @ new) \<inter> set ds = {}" "\<forall>x \<in> set ds. fat_tab V fs s' x \<noteq> 0"
proof -
  show d: "set (cs @ new) \<inter> set ds = {}" using assms(1,6,7) by (auto simp: grown_def free_clusters_def)
  then have t: "fat_tab V fs s' x = fat_tab V fs s x" if "x \<in> set ds" for x using assms(1) that unfolding grown_def by blast
  then show "\<forall>x \<in> set ds. fat_tab V fs s' x \<noteq> 0" using assms(7) by simp
  show "fat_file_inv V fs dn ds s'"
    by (rule fat_file_inv_other [OF assms(2-4)]) (use assms(1,5) t in \<open>simp_all add: grown_def\<close>)
qed

subsection \<open>Storing the bytes and the entry\<close>

lemma upd_node_fat [simp]:
  fixes s :: "('d, 'a) fat_state_scheme"
  shows "fats (upd_node p g s) = fats s" "cmos (upd_node p g s) = cmos s" "fat_nodes (upd_node p g s) = fat_nodes s"
  "vfs_memory (upd_node p g s) = vfs_memory s" "drv (upd_node p g s) = drv s" "block_bounce (upd_node p g s) = block_bounce s"
  "device j (upd_node p g s) = device j s" "vol_size V (upd_node p g s) = vol_size V s" "vol_sector V (upd_node p g s) = vol_sector V s"
  "vnodes (upd_node p g s) = (vnodes s)(p := g (vnodes s p))"
  "vol_byte V (upd_node p g s) = vol_byte V s" "reliable V (upd_node p g s) = reliable V s" "fat_tab V fs (upd_node p g s) = fat_tab V fs s"
  "fat_inv V fs (upd_node p g s) = fat_inv V fs s"
  by (simp_all add: upd_node_def vfs_memory_def device_def vol_ok_def vol_size_def on_disk_def reliable_def vol_sector_def
      vol_byte_def fun_eq_iff fat_inv_def fat_tab_def fat_raw_def table_sector_def cached_def cache_bytes_def)

lemma upd_node_file [simp]: "fat_file_inv V fs fn cs (upd_node p g s) = fat_file_inv V fs fn cs s"
  by (simp add: fat_file_inv_def)

text \<open>What a write of \<open>cnt\<close> bytes at \<open>offset\<close> did to the file, whose chain has room for them.\<close>

definition stored :: "'d volume \<Rightarrow> ptr \<Rightarrow> ptr \<Rightarrow> u32 list \<Rightarrow> u32 list \<Rightarrow> ptr \<Rightarrow> u64 \<Rightarrow> u64 \<Rightarrow>
    ('d, 'a) fat_state_scheme \<Rightarrow> ('d, 'a) fat_state_scheme \<Rightarrow> bool" where
  "stored V fs node cs ds buf cnt offset s s' \<longleftrightarrow>
     (let f = fats s fs; fn = v_private_data (vnodes s node); sz = max (v_size (vnodes s node)) (offset + cnt) in
       vnodes s' = (vnodes s)(node := (vnodes s node)\<lparr>v_size := sz\<rparr>) \<and> geometry (fats s' fs) = geometry f \<and>
       fat_tab V fs s' = fat_tab V fs s \<and> \<not> fs_cache_dirty (fats s' fs) \<and> block_bounce s' = block_bounce s \<and>
       (\<forall>p < cluster_size f * length cs. file_byte V f cs s' p =
          (if unat offset \<le> p \<and> p < unat offset + unat cnt then vfs_memory s (buf + of_nat (p - unat offset)) else file_byte V f cs s p)) \<and>
       (\<forall>c r. fat_valid f c \<longrightarrow> c \<notin> set cs \<longrightarrow> c \<notin> set ds \<longrightarrow> r < cluster_size f \<longrightarrow> cluster_byte V f s' c r = cluster_byte V f s c r) \<and>
       entry_records (file_mem V f ds s') (of_nat (unat (fn_entry_offset (fat_nodes s fn)))) (fn_cluster (fat_nodes s fn)) (ucast sz))"

text \<open>The last part: writing the table back changes no data and no entry.\<close>

lemma flush_file:
  assumes "fat_file_inv V fs fn cs s"
  obtains s' where "fat_cache_flush fs s = Some (0, s')" "fat_step V fs s s'" "fat_tab V fs s' = fat_tab V fs s" "\<not> fs_cache_dirty (fats s' fs)"
    "data_same V fs s s'" "fs_next_free (fats s' fs) = fs_next_free (fats s fs)"
proof -
  have inv: "fat_inv V fs s" "reliable V s" using assms by (simp_all add: fat_file_inv_def)
  obtain rc m d f where fl: "fat_cache_flush fs s = Some (rc, fat_upd m d fs f s)"
    "fat_step V fs s (fat_upd m d fs f s)" "fat_raw V fs (fat_upd m d fs f s) = fat_raw V fs s"
    "f = (fats s fs)\<lparr>fs_cache_dirty := fs_cache_dirty f\<rparr>" "rc = 0 \<longrightarrow> \<not> fs_cache_dirty f" "reliable V s \<longrightarrow> rc = 0"
    by (rule fat_cache_flush_spec [OF inv(1)])
  have "fs_next_free f = fs_next_free (fats s fs)" using fl(4) by (metis fat32.select_convs(10) fat32.surjective fat32.update_convs(13))
  then show thesis
    using fl inv(2) fat_tab_cong [OF fl(3)] fat_step_data [OF inv(1) fl(2)] by (intro that [of "fat_upd m d fs f s"]) simp_all
qed

lemma fat_step_next: "fat_step V fs s s' \<Longrightarrow> next_free_ok (fats s fs) \<Longrightarrow> next_free_ok (fats s' fs)"
  by (auto simp: fat_step_def)

text \<open>The data: first the file's bytes are written, then only clusters of its directory change.\<close>

lemma stored_bytes:
  assumes "fat_file_inv V fs fn cs s" and "set cs \<inter> set ds = {}" and "file_written V fs cs a b q s s3"
    and same: "\<forall>c r. fat_valid (fats s fs) c \<longrightarrow> c \<notin> set ds \<longrightarrow> r < cluster_size (fats s fs) \<longrightarrow>
      cluster_byte V (fats s fs) s5 c r = cluster_byte V (fats s fs) s3 c r"
  shows "p < cluster_size (fats s fs) * length cs \<Longrightarrow> file_byte V (fats s fs) cs s5 p =
      (if a \<le> p \<and> p < b then vfs_memory s (q + of_nat p) else file_byte V (fats s fs) cs s p)"
    "fat_valid (fats s fs) c \<Longrightarrow> c \<notin> set cs \<Longrightarrow> c \<notin> set ds \<Longrightarrow> r < cluster_size (fats s fs) \<Longrightarrow>
      cluster_byte V (fats s fs) s5 c r = cluster_byte V (fats s fs) s c r"
proof -
  let ?f = "fats s fs"
  have inv: "fat_inv V fs s" "fat_chain V fs s (fn_cluster (fat_nodes s fn)) cs" using assms(1) by (simp_all add: fat_file_inv_def)
  have b0: "0 < cluster_size ?f" by (rule layout_clusters(1) [OF inv_layout [OF inv(1)]])
  show "file_byte V ?f cs s5 p = (if a \<le> p \<and> p < b then vfs_memory s (q + of_nat p) else file_byte V ?f cs s p)"
    if p: "p < cluster_size ?f * length cs"
  proof -
    have "p div cluster_size ?f < length cs" using p by (metis less_mult_imp_div_less mult.commute)
    then have c: "cs ! (p div cluster_size ?f) \<in> set cs" by simp
    have "file_byte V ?f cs s5 p = file_byte V ?f cs s3 p"
      unfolding file_byte_def by (rule same [rule_format, OF chain_valid [OF inv(2) c]]) (use c assms(2) b0 in auto)
    then show ?thesis using assms(3) p by (simp add: file_written_def Let_def)
  qed
  show "cluster_byte V ?f s5 c r = cluster_byte V ?f s c r" if "fat_valid ?f c" "c \<notin> set cs" "c \<notin> set ds" "r < cluster_size ?f"
    using assms(3) same that by (simp add: file_written_def Let_def)
qed

lemma size_upd:
  "(if offset + cnt > v_size (vnodes s node) then upd_node node (v_size_update (\<lambda>_. offset + cnt)) s else s) =
   upd_node node (v_size_update (\<lambda>_. max (v_size (vnodes s node)) (offset + cnt))) s"
  by (auto simp: max_def upd_node_def not_less)

lemma fat_write_store:
  assumes "fat_file V fs node cs ds s" and "fn = v_private_data (vnodes s node)" and "0 < unat cnt" and "unat offset + unat cnt < 2 ^ 32"
    and "unat offset + unat cnt \<le> cluster_size (fats s fs) * length cs" and "bufs_ok fs stk buf (unat cnt) s"
    and "bufs_ok fs stk (stk + 512) 32 s" and "clock_runs s"
  shows "\<exists>s'. do { (n, s3) \<leftarrow> fat_io stk fn offset buf cnt True s;
             let s4 = (if n > 0 \<and> offset + of_int n > v_size (vnodes s3 node)
                       then upd_node node (v_size_update (\<lambda>_. offset + of_int n)) s3 else s3) in do {
             (r, s5) \<leftarrow> (if n > 0 \<or> fn_cluster (fat_nodes s4 fn) \<noteq> c0 then fat_update_entry stk node s4 else Some (0, s4));
             (r', s6) \<leftarrow> fat_cache_flush fs s5;
             Some (n, s6) } } = Some (int (unat cnt), s') \<and>
    fat_file V fs node cs ds s' \<and> stored V fs node cs ds buf cnt offset s s'"
proof -
  let ?v = "vnodes s node" let ?f = "fats s fs" define dn where "dn = v_private_data (vnodes s (v_parent ?v))"
  let ?sz = "max (v_size ?v) (offset + cnt)"
  have F: "v_type ?v = VNODE_FILE" "v_parent ?v \<noteq> NULL" "v_parent ?v \<noteq> node" "fn \<noteq> dn" "fat_file_inv V fs fn cs s" "fat_file_inv V fs dn ds s"
    "set cs \<inter> set ds = {}" "\<forall>x \<in> set cs \<union> set ds. fat_tab V fs s x \<noteq> 0" "next_free_ok ?f"
    "unat (fn_entry_offset (fat_nodes s fn)) + 32 \<le> cluster_size ?f * length ds"
    using assms(1,2) by (simp_all add: fat_file_def Let_def dn_def)
  have small: "unat offset + unat cnt < 2 ^ 40" using assms(4) by simp
  have N: "min (unat cnt) (cluster_size ?f * length cs - unat offset) = unat cnt" using assms(5) by simp
  from fat_io_loop_write [OF F(5) small assms(6) N [symmetric], of 0] obtain s3 where
    w: "fat_io stk fn offset buf cnt True s = Some (int (unat cnt), s3)" "fat_file_inv V fs fn cs s3" "file_frame V fs fn stk buf 0 s s3"
      "file_written V fs cs (unat offset) (unat offset + unat cnt) (buf - offset) s s3" unfolding fat_io_def by (simp only: unat_0 add_0_right le0 simp_thms) blast
  have k3: "vnodes s3 = vnodes s" "cmos s3 = cmos s" "geometry (fats s3 fs) = geometry ?f" "fat_tab V fs s3 = fat_tab V fs s"
    "fat_nodes s3 dn = fat_nodes s dn" "fn_entry_offset (fat_nodes s3 fn) = fn_entry_offset (fat_nodes s fn)"
    "fn_cluster (fat_nodes s3 fn) = fn_cluster (fat_nodes s fn)" using w(3) F(4) by (auto simp: file_frame_def)
  note d3 = frame_other_file [OF w(3,2) F(6) F(4) [symmetric]]
  define s4 where "s4 = upd_node node (v_size_update (\<lambda>_. ?sz)) s3"
  have v4: "vnodes s4 = (vnodes s)(node := ?v\<lparr>v_size := ?sz\<rparr>)" using k3(1) by (simp add: s4_def)
  have p4: "vnodes s4 (v_parent ?v) = vnodes s (v_parent ?v)" using v4 F(3) by simp
  have b4: "bufs_ok fs stk (stk + 512) 32 s4" using assms(7) w(3) by (simp add: s4_def bufs_ok_def file_frame_def)
  have g4: "geometry (fats s4 fs) = geometry ?f" using k3(3) by (simp add: s4_def)
  have i4: "fat_file_inv V fs dn ds s4" "fat_file_inv V fs fn cs s4" using d3 w(2) by (simp_all add: s4_def)
  have c4: "clock_runs s4" using assms(8) k3(2) by (simp add: clock_runs_def s4_def)
  have e4: "fn_entry_offset (fat_nodes s4 fn) = fn_entry_offset (fat_nodes s fn)" "fn_cluster (fat_nodes s4 fn) = fn_cluster (fat_nodes s fn)"
    using k3 by (simp_all add: s4_def)
  have va4: "fat_valid (fats s4 fs) = fat_valid ?f" using geometry_cong(4) [OF k3(3)] by (simp add: s4_def)
  let ?pos = "unat (fn_entry_offset (fat_nodes s fn))"
  have q: "dn = v_private_data (vnodes s4 (v_parent (vnodes s4 node)))" "v_parent (vnodes s4 node) \<noteq> NULL" "v_type (vnodes s4 node) = VNODE_FILE"
    "fn = v_private_data (vnodes s4 node)" "?pos = unat (fn_entry_offset (fat_nodes s4 fn))" "?pos + 32 \<le> cluster_size (fats s4 fs) * length ds"
    using F(1-3,10) v4 p4 e4 geometry_clusters(1) [OF g4] assms(2) by (simp_all add: dn_def)
  from fat_update_entry_spec [OF i4(1) q(1-4) F(4) q(5,6) b4 c4]
  obtain s5 where u: "fat_update_entry stk node s4 = Some (0, s5)" "fat_file_inv V fs dn ds s5" "file_frame V fs dn stk (stk + 512) 32 s4 s5"
    "\<forall>c r. fat_valid (fats s4 fs) c \<longrightarrow> c \<notin> set ds \<longrightarrow> r < cluster_size (fats s4 fs) \<longrightarrow>
       cluster_byte V (fats s4 fs) s5 c r = cluster_byte V (fats s4 fs) s4 c r"
    "entry_records (file_mem V (fats s4 fs) ds s5) (of_nat ?pos) (fn_cluster (fat_nodes s4 fn)) (ucast (v_size (vnodes s4 node)))" by blast
  have k5: "vnodes s5 = vnodes s4" "geometry (fats s5 fs) = geometry (fats s4 fs)" "fat_tab V fs s5 = fat_tab V fs s"
    "fat_nodes s5 fn = fat_nodes s4 fn" using u(3) F(4) k3(4) by (auto simp: file_frame_def s4_def)
  have i5: "fat_file_inv V fs fn cs s5" by (rule frame_other_file [OF u(3,2) i4(2) F(4)])
  obtain s6 where fl: "fat_cache_flush fs s5 = Some (0, s6)" "fat_step V fs s5 s6" "fat_tab V fs s6 = fat_tab V fs s5" "\<not> fs_cache_dirty (fats s6 fs)"
    "data_same V fs s5 s6" "fs_next_free (fats s6 fs) = fs_next_free (fats s5 fs)" by (rule flush_file [OF i5])
  have g5: "geometry (fats s5 fs) = geometry ?f" "geometry (fats s6 fs) = geometry ?f" using k5(2) k3(3) fat_step_geometry [OF fl(2)] by (simp_all add: s4_def)
  have k6: "vnodes s6 = vnodes s4" "fat_nodes s6 = fat_nodes s5" using fat_step_keeps [OF fl(2)] k5(1) by simp_all
  have inv5: "fat_inv V fs s5" using i5 by (simp add: fat_file_inv_def)
  have c6: "cluster_byte V ?f s6 c r = cluster_byte V ?f s5 c r" if "fat_valid ?f c" "r < cluster_size ?f" for c r
    using cluster_byte_same [OF inv5 fl(5), of c r] that geometry_cong(4) [OF g5(1)] by (simp add: geometry_clusters [OF g5(1)])
  have c56: "cluster_byte V ?f s6 c r = cluster_byte V ?f s3 c r" if "fat_valid ?f c" "c \<notin> set ds" "r < cluster_size ?f" for c r
  proof -
    have "cluster_byte V ?f s5 c r = cluster_byte V ?f s4 c r" using u(4) that va4 by (simp add: geometry_clusters [OF g4])
    also have "\<dots> = cluster_byte V ?f s3 c r" by (simp add: cluster_byte_def s4_def)
    finally show ?thesis using c6 [OF that(1,3)] by simp
  qed
  then have "\<forall>c r. fat_valid ?f c \<longrightarrow> c \<notin> set ds \<longrightarrow> r < cluster_size ?f \<longrightarrow> cluster_byte V ?f s6 c r = cluster_byte V ?f s3 c r" by blast
  note bytes = stored_bytes [OF F(5,7) w(4) this]
  have addr: "buf - offset + of_nat p = buf + of_nat (p - unat offset)" if "unat offset \<le> p" for p
    using that by (simp add: of_nat_diff algebra_simps)
  have by2: "file_byte V ?f cs s6 p = (if unat offset \<le> p \<and> p < unat offset + unat cnt then vfs_memory s (buf + of_nat (p - unat offset))
      else file_byte V ?f cs s p)" if "p < cluster_size ?f * length cs" for p
    unfolding bytes(1) [OF that] by (rule if_cong) (simp_all only: addr)
  have rec: "entry_records (file_mem V ?f ds s6) (of_nat ?pos) (fn_cluster (fat_nodes s fn)) (ucast ?sz)"
  proof (rule entry_records_cong)
    show "entry_records (file_mem V ?f ds s5) (of_nat ?pos) (fn_cluster (fat_nodes s fn)) (ucast ?sz)"
      using u(5) v4 e4(2) by (simp add: file_mem_def [abs_def] geometry_clusters [OF g4])
    fix k :: nat assume k: "k < 32"
    have "unat (of_nat ?pos + of_nat k :: u64) = ?pos + k"
      using unat_lt_32 [of "fn_entry_offset (fat_nodes s fn)"] k by (subst of_nat_add [symmetric], subst unat_of_nat_small) simp_all
    moreover have "file_byte V (fats s5 fs) ds s6 (?pos + k) = file_byte V (fats s5 fs) ds s5 (?pos + k)"
      by (rule file_byte_same [OF u(2) fl(5)]) (use k F(10) geometry_clusters(1) [OF g5(1)] in simp)
    ultimately show "file_mem V ?f ds s6 (of_nat ?pos + of_nat k) = file_mem V ?f ds s5 (of_nat ?pos + of_nat k)"
      by (simp add: file_mem_def geometry_clusters [OF g5(1)])
  qed
  have bb: "block_bounce s6 = block_bounce s" using w(3) u(3) fat_step_keeps(3) [OF fl(2)] by (simp add: file_frame_def s4_def)
  have st: "stored V fs node cs ds buf cnt offset s s6"
    unfolding stored_def Let_def using bb k6(1) v4 g5(2) fl(3,4) k5(3) bytes(2) by2 rec assms(2) by simp
  have nf: "next_free_ok (fats s6 fs)" using F(9) w(3) u(3) fat_step_next [OF fl(2)] by (simp add: file_frame_def s4_def)
  have i6: "fat_file_inv V fs fn cs s6" "fat_file_inv V fs dn ds s6" using fat_file_inv_step [OF _ fl(2,3)] i5 u(2) by simp_all
  have "fat_file V fs node cs ds s6"
    unfolding fat_file_def Let_def
    using F i6 nf k6 v4 p4 k5 e4 assms(2) fl(3) geometry_clusters(1) [OF g5(2)] by (simp add: dn_def)
  moreover have "0 < uint cnt" using assms(3) by (simp only: uint_nat)
  moreover have "(if v_size ?v < offset + cnt then upd_node node (v_size_update (\<lambda>_. offset + cnt)) s3 else s3) = s4"
    using size_upd [of s3 node offset cnt] k3(1) by (simp only: s4_def)
  ultimately show ?thesis using w(1) u(1) fl(1) st k3(1) by (intro exI [of _ s6]) (auto split: if_splits)
qed

subsection \<open>The whole operation\<close>

text \<open>How many clusters the file needs.\<close>

lemma clusters_needed:
  assumes "fat_layout f n" and "unat en < 2 ^ 32" and "cb = (ucast (fs_cluster_bytes f) :: u64)"
  shows "unat (ucast ((en + cb - 1) div cb) :: u32) = (unat en + cluster_size f - 1) div cluster_size f" "cb \<noteq> 0"
    "unat en \<le> cluster_size f * ((unat en + cluster_size f - 1) div cluster_size f)"
proof -
  note lc = layout_clusters [OF assms(1)]
  have cb: "unat cb = cluster_size f" using lc assms(3) by simp
  then show "cb \<noteq> 0" using lc(1) by auto
  have a: "unat (en + cb) = unat en + cluster_size f" using assms(2) cb lc(2) by (subst unat_add_nowrap) simp_all
  have s: "unat (en + cb - 1) = unat en + cluster_size f - 1" using a lc(1) by (subst unat_diff_nowrap) simp_all
  let ?q = "(unat en + cluster_size f - 1) div cluster_size f"
  have q: "unat ((en + cb - 1) div cb) = ?q" by (simp add: unat_div s cb)
  have "?q \<le> (unat en + cluster_size f - 1) div 512" using assms(1) by (intro div_le_mono2) (simp_all add: fat_layout_def cluster_size_def)
  also have "\<dots> < 2 ^ 32" using assms(2) lc(2) by (simp add: less_mult_imp_div_less)
  finally show "unat (ucast ((en + cb - 1) div cb) :: u32) = ?q" by (simp add: unsigned_ucast_eq q take_bit_nat_eq_self)
  have "unat en + cluster_size f - 1 < cluster_size f + ?q * cluster_size f" by (rule dividend_less_div_times [OF lc(1)])
  then show "unat en \<le> cluster_size f * ?q" by (simp add: mult.commute)
qed

lemma grown_stored:
  assumes "grown V fs fn cs new s s2" and "stored V fs node (cs @ new) ds buf cnt offset s2 s'" and "fat_file_inv V fs fn (cs @ new) s2"
    and "bufs_ok fs stk buf (unat cnt) s" and "unat offset + unat cnt < 2 ^ 32" and "fat_inv V fs s" and "f = fats s fs"
  shows "p < cluster_size f * length (cs @ new) \<Longrightarrow> file_byte V f (cs @ new) s' p =
      (if unat offset \<le> p \<and> p < unat offset + unat cnt then vfs_memory s (buf + of_nat (p - unat offset)) else file_byte V f (cs @ new) s p)"
    "fat_valid f c \<Longrightarrow> c \<notin> set (cs @ new) \<Longrightarrow> c \<notin> set ds \<Longrightarrow> r < cluster_size f \<Longrightarrow> cluster_byte V f s' c r = cluster_byte V f s c r"
proof -
  have g: "geometry (fats s2 fs) = geometry f" "data_same V fs s s2" "block_bounce s2 = block_bounce s" using assms(1,7) by (simp_all add: grown_def)
  have inv2: "fat_chain V fs s2 (fn_cluster (fat_nodes s2 fn)) (cs @ new)" using assms(3) by (simp add: fat_file_inv_def)
  have val: "fat_valid (fats s2 fs) = fat_valid f" by (rule geometry_cong(4) [OF g(1)])
  have b0: "0 < cluster_size f" unfolding assms(7) by (rule layout_clusters(1) [OF inv_layout [OF assms(6)]])
  have same: "cluster_byte V f s2 c r = cluster_byte V f s c r" if "fat_valid f c" "r < cluster_size f" for c r
    using cluster_byte_same [OF assms(6) g(2)] that assms(7) by simp
  have st: "\<forall>p < cluster_size f * length (cs @ new). file_byte V f (cs @ new) s' p =
          (if unat offset \<le> p \<and> p < unat offset + unat cnt then vfs_memory s2 (buf + of_nat (p - unat offset)) else file_byte V f (cs @ new) s2 p)"
    "\<forall>c r. fat_valid f c \<longrightarrow> c \<notin> set (cs @ new) \<longrightarrow> c \<notin> set ds \<longrightarrow> r < cluster_size f \<longrightarrow> cluster_byte V f s' c r = cluster_byte V f s2 c r"
    using assms(2) unfolding stored_def Let_def val geometry_clusters [OF g(1)] by blast+
  show "cluster_byte V f s' c r = cluster_byte V f s c r" if "fat_valid f c" "c \<notin> set (cs @ new)" "c \<notin> set ds" "r < cluster_size f"
    using st(2) same that by simp
  have mem: "vfs_memory s2 (buf + of_nat k) = vfs_memory s (buf + of_nat k)" if "k < unat cnt" for k
  proof -
    have i: "unat ((buf + of_nat k) - buf) < unat cnt" by (rule in_buffer [OF that]) (use assms(5) in simp)
    have "apart buf (unat cnt) (block_bounce s) 65536" "apart buf (unat cnt) (fat_cache fs) 512"
      using assms(4) apart_sym unfolding bufs_ok_def by blast+
    then show ?thesis using assms(1) apart_in [OF _ i] unfolding grown_def by blast
  qed
  show "file_byte V f (cs @ new) s' p = (if unat offset \<le> p \<and> p < unat offset + unat cnt
      then vfs_memory s (buf + of_nat (p - unat offset)) else file_byte V f (cs @ new) s p)" if p: "p < cluster_size f * length (cs @ new)"
  proof -
    have "p div cluster_size f < length (cs @ new)" using p by (metis less_mult_imp_div_less mult.commute)
    then have "fat_valid f ((cs @ new) ! (p div cluster_size f))" using chain_valid [OF inv2] val nth_mem by metis
    then have "file_byte V f (cs @ new) s2 p = file_byte V f (cs @ new) s p" unfolding file_byte_def by (rule same) (use b0 in simp)
    then show ?thesis using st(1) p mem [of "p - unat offset"] by (auto simp del: of_nat_diff)
  qed
qed

lemma fat_write_spec:
  assumes "fat_file V fs node cs ds s" and "0 < unat cnt" and "unat offset + unat cnt < 2 ^ 32" and "bufs_ok fs stk buf (unat cnt) s"
    and "bufs_ok fs stk (stk + 512) 32 s" and "clock_runs s"
    and "(unat offset + unat cnt + cluster_size (fats s fs) - 1) div cluster_size (fats s fs) - length cs \<le> card (free_clusters V fs s)"
  shows "\<exists>new s2 s'. fat_write stk node buf cnt offset s = Some (int (unat cnt), s') \<and> fat_file V fs node (cs @ new) ds s' \<and>
    grown V fs (v_private_data (vnodes s node)) cs new s s2 \<and> stored V fs node (cs @ new) ds buf cnt offset s2 s' \<and>
    fat_file_inv V fs (v_private_data (vnodes s node)) (cs @ new) s2 \<and>
    length new = (unat offset + unat cnt + cluster_size (fats s fs) - 1) div cluster_size (fats s fs) - length cs"
proof -
  let ?v = "vnodes s node" let ?f = "fats s fs" define fn where "fn = v_private_data ?v" define dn where "dn = v_private_data (vnodes s (v_parent ?v))"
  have F: "v_type ?v = VNODE_FILE" "v_parent ?v \<noteq> NULL" "v_parent ?v \<noteq> node" "fn \<noteq> dn" "fat_file_inv V fs fn cs s" "fat_file_inv V fs dn ds s"
    "set cs \<inter> set ds = {}" "\<forall>x \<in> set cs \<union> set ds. fat_tab V fs s x \<noteq> 0" "next_free_ok ?f"
    "unat (fn_entry_offset (fat_nodes s fn)) + 32 \<le> cluster_size ?f * length ds"
    using assms(1) by (simp_all add: fat_file_def Let_def dn_def fn_def)
  define cb where "cb = (ucast (fs_cluster_bytes ?f) :: u64)"
  define k where "k = (ucast ((offset + cnt + cb - 1) div cb) :: u32)"
  have lay: "fat_layout ?f (vol_size V s)" and ffs: "fn_fs (fat_nodes s fn) = fs" using F(5) by (simp_all add: fat_file_inv_def fat_inv_def)
  have en: "unat (offset + cnt) = unat offset + unat cnt" using assms(3) by (intro unat_add_nowrap) simp
  note need = clusters_needed [OF lay, of "offset + cnt", OF _ cb_def]
  have k: "unat k = (unat offset + unat cnt + cluster_size ?f - 1) div cluster_size ?f" and cb0: "cb \<noteq> 0"
    using need en assms(3) by (simp_all add: k_def)
  have nz: "\<forall>x \<in> set cs. fat_tab V fs s x \<noteq> 0" "\<forall>x \<in> set ds. fat_tab V fs s x \<noteq> 0" using F(8) by simp_all
  have room: "unat k - length cs \<le> card (free_clusters V fs s)" using assms(7) k by simp
  obtain new s1 where g: "fat_extend fn k False s = Some (0, s1)" "length new = unat k - length cs" "grown V fs fn cs new s s1"
    "fat_file_inv V fs fn (cs @ new) s1"
    "fn_hint_cluster (fat_nodes s fn) \<noteq> 0 \<longrightarrow>
      fat_file_inv V fs fn (cs @ new) (set_hint fn (fn_hint_index (fat_nodes s fn)) (fn_hint_cluster (fat_nodes s fn)) s1)"
    by (rule grow_file [OF F(5,9) nz(1) room])
  define s2 where "s2 = (if fn_hint_cluster (fat_nodes s fn) \<noteq> 0 \<and> fn_cluster (fat_nodes s1 fn) = fn_cluster (fat_nodes s fn) \<and>
                             ucast (fn_hint_index (fat_nodes s fn)) \<le> offset div cb
                          then set_hint fn (fn_hint_index (fat_nodes s fn)) (fn_hint_cluster (fat_nodes s fn)) s1 else s1)"
  have g2: "grown V fs fn cs new s s2" "fat_file_inv V fs fn (cs @ new) s2" using g(3-5) grown_hint [OF g(3)] by (simp_all add: s2_def)
  have i2: "fat_inv V fs s2" "reliable V s2" using g2(2) by (simp_all add: fat_file_inv_def)
  note d2 = grown_other [OF g2(1) F(6) i2 F(4) [symmetric] F(7) nz(2)]
  have k2: "vnodes s2 = vnodes s" "geometry (fats s2 fs) = geometry ?f" "block_bounce s2 = block_bounce s" "cmos s2 = cmos s"
    "fn_entry_offset (fat_nodes s2 fn) = fn_entry_offset (fat_nodes s fn)" "next_free_ok (fats s2 fs)" "\<forall>x \<in> set (cs @ new). fat_tab V fs s2 x \<noteq> 0"
    using g2(1) by (simp_all add: grown_def)
  note cs2 = geometry_clusters(1) [OF k2(2)]
  have "fat_file V fs node (cs @ new) ds s2"
    unfolding fat_file_def Let_def using F(1-4,10) g2(2) d2 k2 cs2 by (simp add: fn_def dn_def ball_Un)
  moreover have "unat offset + unat cnt \<le> cluster_size (fats s2 fs) * length (cs @ new)"
  proof -
    have "unat offset + unat cnt \<le> cluster_size ?f * unat k" using need(3) en assms(3) k by simp
    also have "\<dots> \<le> cluster_size ?f * length (cs @ new)" using g(2) by (intro mult_le_mono2) simp
    finally show ?thesis using cs2 by simp
  qed
  moreover have "bufs_ok fs stk buf (unat cnt) s2" "bufs_ok fs stk (stk + 512) 32 s2" "clock_runs s2"
    using assms(4-6) k2(3,4) by (simp_all add: bufs_ok_def clock_runs_def)
  ultimately obtain s' where st: "do { (n, s3) \<leftarrow> fat_io stk fn offset buf cnt True s2;
             let s4 = (if n > 0 \<and> offset + of_int n > v_size (vnodes s3 node)
                       then upd_node node (v_size_update (\<lambda>_. offset + of_int n)) s3 else s3) in do {
             (r, s5) \<leftarrow> (if n > 0 \<or> fn_cluster (fat_nodes s4 fn) \<noteq> fn_cluster (fat_nodes s fn) then fat_update_entry stk node s4 else Some (0, s4));
             (r', s6) \<leftarrow> fat_cache_flush fs s5;
             Some (n, s6) } } = Some (int (unat cnt), s')"
    "fat_file V fs node (cs @ new) ds s'" "stored V fs node (cs @ new) ds buf cnt offset s2 s'"
    using fat_write_store [of V fs node "cs @ new" ds s2 fn cnt offset stk buf "fn_cluster (fat_nodes s fn)"] assms(2,3) k2(1) by (auto simp: fn_def)
  have "\<not> offset + cnt > 0xFFFFFFFF" using en assms(3) by (simp add: word_less_nat_alt)
  moreover have "cnt \<noteq> 0" using assms(2) by auto
  ultimately have "fat_write stk node buf cnt offset s = Some (int (unat cnt), s')"
    using F(1) assms(2) cb0 g(1) st(1) ffs unfolding fat_write_def Let_def fn_def [symmetric] cb_def [symmetric] ffs k_def [symmetric]
    by (simp add: s2_def [symmetric] Let_def)
  then show ?thesis using st(2,3) g2 g(2) k by (intro exI [of _ new] exI [of _ s2] exI [of _ s']) (simp add: fn_def)
qed

end
