(* ===== verification/FatSpec.thy ===== *)
theory FatSpec
  imports FatWrite
begin

text \<open>
  What the FAT file system promises: its allocation table, allocation and release of clusters, and
  reading and writing of files.  The examples are a volume of 100 clusters on a partition of a disk in
  memory, whose clusters 2 and 3 are the chains of a directory and of a file.
\<close>

subsection \<open>An example volume\<close>

abbreviation fs_example :: ptr where "fs_example \<equiv> 0xFFFF800000200000"
abbreviation dn_example :: ptr where "dn_example \<equiv> 0xFFFF800000201000"
abbreviation fn_example :: ptr where "fn_example \<equiv> 0xFFFF800000202000"
abbreviation dir_example :: ptr where "dir_example \<equiv> 0xFFFF800000203000"
abbreviation node_example :: ptr where "node_example \<equiv> 0xFFFF800000204000"
abbreviation stk_example :: ptr where "stk_example \<equiv> 0xFFFF800000210000"
abbreviation buf_example :: ptr where "buf_example \<equiv> 0xFFFF800000300000"

definition disk_example :: ram where
  "disk_example l k = (if (l = 2080 \<or> l = 2084) \<and> k < 16 then (if k mod 4 = 3 then 0x0F else 0xFF) else 0)"

definition fat_example :: "ram fat_state" where
  "fat_example = block_state.extend
     (block_example\<lparr>drv := disk_example,
        vnodes := (\<lambda>_. vnodes block_example NULL)(
          dir_example := (vnodes block_example NULL)\<lparr>v_type := VNODE_DIR, v_private_data := dn_example\<rparr>,
          node_example := (vnodes block_example NULL)\<lparr>v_type := VNODE_FILE, v_private_data := fn_example, v_parent := dir_example, v_size := 300\<rparr>)\<rparr>)
     \<lparr>fats = (\<lambda>_. fat32_zero)(fs_example := \<lparr>fs_dev = Some 1, fs_spc = 1, fs_cluster_bytes = 512, fs_fat_start = 32, fs_fat_sectors = 4,
        fs_fat_count = 2, fs_data_start = 40, fs_root_cluster = 2, fs_cluster_count = 100, fs_next_free = 4, fs_cache_sector = 0,
        fs_cache_valid = False, fs_cache_dirty = False\<rparr>),
      fat_nodes = (\<lambda>_. fat_node_zero)(
        dn_example := fat_node_zero\<lparr>fn_fs := fs_example, fn_cluster := 2\<rparr>,
        fn_example := fat_node_zero\<lparr>fn_fs := fs_example, fn_cluster := 3, fn_entry_offset := 64\<rparr>),
      cmos = (\<lambda>_ _. 0), cmos_reads = 0\<rparr>"

definition vol_example :: "ram volume" where
  "vol_example = \<lparr>vol_disk = ram_sectors, vol_dev = 1, vol_root = 0, vol_off = 2048\<rparr>"

lemma fat_example_simps:
  "drv fat_example = disk_example" "block_bounce fat_example = 0xFFFF800000010000" "device i fat_example = device i block_example"
  "cmos fat_example = (\<lambda>_ _. 0)"
  "fats fat_example fs_example = \<lparr>fs_dev = Some 1, fs_spc = 1, fs_cluster_bytes = 512, fs_fat_start = 32, fs_fat_sectors = 4,
        fs_fat_count = 2, fs_data_start = 40, fs_root_cluster = 2, fs_cluster_count = 100, fs_next_free = 4, fs_cache_sector = 0,
        fs_cache_valid = False, fs_cache_dirty = False\<rparr>"
  "fat_nodes fat_example dn_example = fat_node_zero\<lparr>fn_fs := fs_example, fn_cluster := 2\<rparr>"
  "fat_nodes fat_example fn_example = fat_node_zero\<lparr>fn_fs := fs_example, fn_cluster := 3, fn_entry_offset := 64\<rparr>"
  by (simp_all add: fat_example_def block_state.defs block_example_def devfs_state.defs device_def)

lemma fat_example_nodes:
  "v_type (vnodes fat_example node_example) = VNODE_FILE" "v_private_data (vnodes fat_example node_example) = fn_example"
  "v_parent (vnodes fat_example node_example) = dir_example" "v_size (vnodes fat_example node_example) = 300"
  "v_private_data (vnodes fat_example dir_example) = dn_example"
  by (simp_all add: fat_example_def block_state.defs)

lemma fat_example_reliable: "reliable vol_example fat_example"
  by (auto simp: reliable_def vol_example_def fat_example_simps block_example_simps ram_disk_def driver_io_def ram_io_def split: if_splits)

lemma fat_example_layout: "fat_layout (fats fat_example fs_example) (vol_size vol_example fat_example)"
  by (simp add: fat_layout_def fat_example_simps vol_size_def vol_example_def block_example_simps)

lemma fat_example_inv: "fat_inv vol_example fs_example fat_example"
proof -
  have "on_disk 1 0 2048 fat_example" using block_example_disk by (simp add: on_disk_def fat_example_simps)
  then have "vol_ok vol_example fat_example"
    using ram_driver by (simp add: vol_ok_def vol_example_def fat_example_simps block_example_simps)
  moreover have "apart (fat_cache fs_example) 512 (block_bounce fat_example) 65536"
    by (rule apart_sym, rule apart_ranges) (simp_all add: fat_example_simps fat_cache_def)
  ultimately show ?thesis using fat_example_layout by (simp add: fat_inv_def fat_example_simps vol_example_def)
qed

text \<open>Entries 0 to 3 of the table are end marks, the others are free.\<close>

lemma example_sector: "vol_sector vol_example fat_example l = map (disk_example (of_nat l + 2048)) [0..<512]"
  by (simp add: vol_sector_def vol_example_def fat_example_simps ram_sectors_def)

lemma take4_map: "n + 4 \<le> k \<Longrightarrow> take 4 (drop n (map g [0..<k])) = [g n, g (n + 1), g (n + 2), g (n + 3)]"
  by (rule nth_equalityI) (auto simp: less_Suc_eq numeral_eq_Suc)

lemma fat_example_tab:
  assumes "unat c < 128"
  shows "fat_tab vol_example fs_example fat_example c = (if unat c < 4 then FAT_EOC else 0)"
proof -
  have nc: "\<not> cached fs_example fat_example k" for k by (simp add: cached_def fat_example_simps)
  have "fat_raw vol_example fs_example fat_example (unat c) = word_of (map (\<lambda>i. disk_example 2080 (4 * unat c + i)) [0, 1, 2, 3])"
    using assms by (simp add: fat_raw_def table_sector_def nc copy_sector_def example_sector fat_example_simps take4_map)
  also have "\<dots> = (if unat c < 4 then FAT_EOC else 0)"
    by (auto simp: disk_example_def word_of_def FAT_EOC_def) presburger+
  finally show ?thesis by (simp add: fat_tab_def FAT_EOC_def FAT_MASK_def)
qed

lemma fat_example_files:
  "fat_file_inv vol_example fs_example fn_example [3] fat_example" "fat_file_inv vol_example fs_example dn_example [2] fat_example"
  using fat_example_inv fat_example_reliable
  by (simp_all add: fat_file_inv_def fat_example_simps fat_example_tab hint_ok_def fat_node_zero_def fat_valid_def FAT_EOC_def)

lemma fat_example_file: "fat_file vol_example fs_example node_example [3] [2] fat_example"
  unfolding fat_file_def Let_def fat_example_nodes
  using fat_example_files by (simp add: fat_example_simps fat_example_tab next_free_ok_def FAT_EOC_def cluster_size_def)

lemma fat_example_free: "4 \<in> free_clusters vol_example fs_example fat_example" "5 \<in> free_clusters vol_example fs_example fat_example"
  by (simp_all add: free_clusters_def fat_example_tab fat_valid_def fat_example_simps)

lemma apart_either:
  "unat p + n \<le> unat q \<and> unat q + k \<le> 2 ^ 64 \<or> unat q + k \<le> unat p \<and> unat p + n \<le> 2 ^ 64 \<Longrightarrow> apart p n q k"
  using apart_ranges apart_sym [OF apart_ranges] by blast

lemma fat_example_bufs:
  "n \<le> 65536 \<Longrightarrow> bufs_ok fs_example stk_example buf_example n fat_example" "bufs_ok fs_example stk_example (stk_example + 512) 32 fat_example"
  unfolding bufs_ok_def fat_example_simps
  by (simp_all add: apart_either fat_cache_def)

lemma fat_example_clock: "clock_runs fat_example"
proof -
  have raw: "\<exists>a j. rtc_read_raw (\<lambda>_ _. 0) i = Some (a, j)" for i
    by (subst rtc_read_raw.simps) (simp add: cmos_read_def)
  have regs: "rtc_read_raw (\<lambda>_ _. 0) i = Some (replicate 7 0, i + 8)" for i
    by (subst rtc_read_raw.simps) (simp add: cmos_read_def numeral_eq_Suc)
  have "rtc_stable (\<lambda>_ _. 0) (replicate 7 0) i = Some (replicate 7 0, i + 8)" for i
    by (subst rtc_stable.simps) (simp add: regs)
  then show ?thesis by (simp add: clock_runs_def fat_example_simps rtc_read_def regs cmos_read_def)
qed

subsection \<open>The allocation table\<close>

text \<open>Property C16: on a volume with a consistent layout and cache, \<^verbatim>\<open>fat_set\<close> changes exactly the entry of its cluster,
  keeps the four reserved bits of that entry and the equality of the copies of the table, and \<^verbatim>\<open>fat_get\<close> then returns the
  new entry; when the disk fails the entries are what they were.\<close>

theorem fat_set_refines:
  assumes "fat_inv V fs s" and "fat_valid (fats s fs) c"
  shows "\<exists>rc s'. fat_set fs c val s = Some (rc, s') \<and> fat_step V fs s s' \<and> (reliable V s \<longrightarrow> rc = 0) \<and>
    fat_raw V fs s' = (if rc = 0 then (fat_raw V fs s)(unat c := put_entry (fat_raw V fs s (unat c)) val) else fat_raw V fs s) \<and>
    (copies_equal V fs s \<longrightarrow> rc = 0 \<longrightarrow> copies_equal V fs s') \<and>
    (\<exists>v s''. fat_get fs c s' = Some (v, s'') \<and> fat_raw V fs s'' = fat_raw V fs s' \<and>
       (rc = 0 \<longrightarrow> v = val AND FAT_MASK \<or> v = FAT_EOC) \<and> (reliable V s \<longrightarrow> v = val AND FAT_MASK))"
proof -
  note inf = valid_in_fat(1) [OF assms]
  obtain rc s' where st: "fat_set fs c val s = Some (rc, s')" "rc = 0 \<or> rc = - 1" "fat_step V fs s s'"
    "fat_raw V fs s' = (if rc = 0 then (fat_raw V fs s)(unat c := put_entry (fat_raw V fs s (unat c)) val) else fat_raw V fs s)"
    "copies_equal V fs s \<longrightarrow> rc = 0 \<longrightarrow> copies_equal V fs s'" "reliable V s \<longrightarrow> rc = 0"
    by (rule fat_set_spec [OF assms(1) inf])
  have v': "fat_valid (fats s' fs) c" using assms(2) fat_step_keeps(4) [OF st(3)] by simp
  obtain v s'' where g: "fat_get fs c s' = Some (v, s'')" "fat_raw V fs s'' = fat_raw V fs s'" "v = fat_tab V fs s' c \<or> v = FAT_EOC"
    "reliable V s' \<longrightarrow> v = fat_tab V fs s' c"
    by (rule fat_get_spec [OF fat_step_inv [OF st(3)] valid_in_fat(1) [OF fat_step_inv [OF st(3)] v']])
  have "fat_tab V fs s' c = val AND FAT_MASK" if "rc = 0"
    using fat_tab_put [of V fs s' s c val] st(4) that by simp
  then show ?thesis using st g fat_step_reliable [OF st(3)] by (intro exI [of _ rc] exI [of _ s']) auto
qed

theorem fat_set_refines_witness:
  "\<exists>s'. fat_set fs_example 4 5 fat_example = Some (0, s') \<and> (\<exists>s''. fat_get fs_example 4 s' = Some (5, s''))"
proof -
  have "fat_valid (fats fat_example fs_example) 4" by (simp add: fat_valid_def fat_example_simps)
  from fat_set_refines [OF fat_example_inv this, of 5] fat_example_reliable show ?thesis by (auto simp: FAT_MASK_def)
qed



text \<open>Property C18: \<^verbatim>\<open>fat_free_chain\<close> returns for every chain that ends, frees entries of the chain only, and all of them
  when the disk does not fail.\<close>

theorem fat_free_chain_exact:
  assumes "fat_inv V fs s" and "fat_chain V fs s c cs"
  shows "\<exists>s'. fat_free_chain fs c s = Some s' \<and> fat_step V fs s s' \<and>
    (\<forall>x. x \<notin> set cs \<longrightarrow> fat_tab V fs s' x = fat_tab V fs s x) \<and> (\<forall>x \<in> set cs. fat_tab V fs s' x \<in> {0, fat_tab V fs s x}) \<and>
    (reliable V s \<longrightarrow> free_clusters V fs s' = free_clusters V fs s \<union> set cs)"
proof -
  from fat_free_chain_spec [OF assms] obtain s' where f: "fat_free_chain fs c s = Some s'" "fat_step V fs s s'"
    "\<And>x. fat_tab V fs s' x = fat_tab V fs s x \<or> x \<in> set cs \<and> fat_tab V fs s' x = 0"
    "reliable V s \<longrightarrow> (\<forall>x \<in> set cs. fat_tab V fs s' x = 0)" by blast
  have "free_clusters V fs s' = free_clusters V fs s \<union> set cs" if "reliable V s"
  proof (intro set_eqI iffI)
    fix x assume "x \<in> free_clusters V fs s'"
    then show "x \<in> free_clusters V fs s \<union> set cs" using f(3) [of x] fat_step_keeps(4) [OF f(2)] by (auto simp: free_clusters_def)
  next
    fix x assume "x \<in> free_clusters V fs s \<union> set cs"
    then show "x \<in> free_clusters V fs s'"
      using f(3) [of x] f(4) that fat_step_keeps(4) [OF f(2)] chain_valid [OF assms(2)] by (auto simp: free_clusters_def)
  qed
  then show ?thesis using f(1,2) f(3) by (intro exI [of _ s']) blast
qed

theorem fat_free_chain_exact_witness:
  "\<exists>s'. fat_free_chain fs_example 3 fat_example = Some s' \<and> 3 \<in> free_clusters vol_example fs_example s' \<and>
     2 \<notin> free_clusters vol_example fs_example s'"
proof -
  have "fat_chain vol_example fs_example fat_example 3 [3]" using fat_example_files(1) by (simp add: fat_file_inv_def fat_example_simps)
  from fat_free_chain_exact [OF fat_example_inv this] obtain s' where "fat_free_chain fs_example 3 fat_example = Some s'"
    "free_clusters vol_example fs_example s' = free_clusters vol_example fs_example fat_example \<union> set [3]"
    using fat_example_reliable by blast
  moreover have "2 \<notin> free_clusters vol_example fs_example fat_example" using fat_example_tab [of 2] by (simp add: free_clusters_def FAT_EOC_def)
  ultimately show ?thesis by simp
qed

subsection \<open>Reading and writing files\<close>

lemma min_sub: "(if cnt < sz - off then cnt else sz - off) = min cnt (sz - off :: u64)"
  by (auto simp: min_def)

lemma fat_read_spec:
  assumes "v_type (vnodes s node) = VNODE_FILE" and "fat_file_inv V fs (v_private_data (vnodes s node)) cs s"
    and "unat (v_size (vnodes s node)) \<le> cluster_size (fats s fs) * length cs" and "unat (v_size (vnodes s node)) < 2 ^ 32"
    and "n = min (unat cnt) (unat (v_size (vnodes s node)) - unat offset)" and "bufs_ok fs stk buf n s"
  shows "\<exists>s'. fat_read stk node buf cnt offset s = Some (int n, s') \<and> fat_file_inv V fs (v_private_data (vnodes s node)) cs s' \<and>
    (\<forall>k < n. vfs_memory s' (buf + of_nat k) = file_byte V (fats s fs) cs s (unat offset + k)) \<and>
    file_frame V fs (v_private_data (vnodes s node)) stk buf n s s' \<and> data_same V fs s s'"
proof (cases "offset \<ge> v_size (vnodes s node)")
  case True
  have inv: "fat_inv V fs s" using assms(2) by (simp add: fat_file_inv_def)
  have "n = 0" using True assms(5) by (simp add: word_le_nat_alt)
  then show ?thesis
    using True assms(2) fat_step_file [OF inv fat_step_refl [OF inv] refl] by (intro exI [of _ s]) (simp add: fat_read_def Let_def)
next
  case False
  let ?v = "vnodes s node" let ?fn = "v_private_data ?v"
  define len where "len = (if cnt < v_size ?v - offset then cnt else v_size ?v - offset)"
  have u: "unat (v_size ?v - offset) = unat (v_size ?v) - unat offset" using False by (intro unat_diff_nowrap) (simp add: word_le_nat_alt)
  have len: "unat len = n" using u assms(5) by (auto simp: len_def word_less_nat_alt)
  have off: "unat offset + unat len \<le> unat (v_size ?v)" using False len assms(5) by (simp add: word_le_nat_alt)
  have small: "unat offset + unat len < 2 ^ 40" using off assms(4) by simp
  have N: "n = min (unat len) (cluster_size (fats s fs) * length cs - unat offset)" using off assms(3) len by simp
  have b: "bufs_ok fs stk buf (unat len) s" using assms(6) len by simp
  from fat_io_loop_read [OF assms(2) small b N, of 0] len show ?thesis
    using False assms(1) by (auto simp: fat_read_def Let_def fat_io_def len_def [symmetric])
qed

text \<open>Property C19: \<^verbatim>\<open>fat_read\<close> returns the number of bytes between the offset and the end of the file, at most \<open>cnt\<close>, and
  puts exactly the file's bytes into the buffer; it changes no byte of the data area, no entry of the table and no memory but the
  buffer, the local sector, the cache and the bounce buffer.\<close>

theorem fat_read_bytes:
  assumes "v_type (vnodes s node) = VNODE_FILE" and "fat_file_inv V fs (v_private_data (vnodes s node)) cs s"
    and "unat (v_size (vnodes s node)) \<le> cluster_size (fats s fs) * length cs" and "unat (v_size (vnodes s node)) < 2 ^ 32"
    and "n = min (unat cnt) (unat (v_size (vnodes s node)) - unat offset)" and "bufs_ok fs stk buf n s"
  shows "\<exists>s'. fat_read stk node buf cnt offset s = Some (int n, s') \<and>
    (\<forall>k < n. vfs_memory s' (buf + of_nat k) = file_byte V (fats s fs) cs s (unat offset + k)) \<and>
    fat_tab V fs s' = fat_tab V fs s \<and> data_same V fs s s' \<and> vnodes s' = vnodes s \<and>
    (\<forall>a. \<not> unat (a - block_bounce s) < 65536 \<longrightarrow> \<not> unat (a - fat_cache fs) < 512 \<longrightarrow> \<not> unat (a - stk) < 512 \<longrightarrow>
       \<not> unat (a - buf) < n \<longrightarrow> vfs_memory s' a = vfs_memory s a)"
proof -
  from fat_read_spec [OF assms] obtain s' where "fat_read stk node buf cnt offset s = Some (int n, s')"
    "\<forall>k < n. vfs_memory s' (buf + of_nat k) = file_byte V (fats s fs) cs s (unat offset + k)"
    "file_frame V fs (v_private_data (vnodes s node)) stk buf n s s'" "data_same V fs s s'" by blast
  then show ?thesis unfolding file_frame_def by blast
qed

theorem fat_read_bytes_witness:
  "\<exists>s'. fat_read stk_example node_example buf_example 1000 100 fat_example = Some (200, s') \<and>
     vfs_memory s' (buf_example + 7) = file_byte vol_example (fats fat_example fs_example) [3] fat_example 107"
proof -
  have "unat (v_size (vnodes fat_example node_example)) \<le> cluster_size (fats fat_example fs_example) * length [3 :: u32]"
    "unat (v_size (vnodes fat_example node_example)) < 2 ^ 32"
    "200 = min (unat (1000 :: u64)) (unat (v_size (vnodes fat_example node_example)) - unat (100 :: u64))"
    by (simp_all add: fat_example_nodes fat_example_simps cluster_size_def)
  moreover have "fat_file_inv vol_example fs_example (v_private_data (vnodes fat_example node_example)) [3] fat_example"
    "bufs_ok fs_example stk_example buf_example 200 fat_example"
    using fat_example_files(1) fat_example_bufs(1) by (simp_all add: fat_example_nodes)
  ultimately obtain s' where r: "fat_read stk_example node_example buf_example 1000 100 fat_example = Some (200, s')"
    "\<forall>k < 200. vfs_memory s' (buf_example + of_nat k) = file_byte vol_example (fats fat_example fs_example) [3] fat_example (unat (100 :: u64) + k)"
    using fat_read_bytes [OF fat_example_nodes(1)] by (metis of_nat_numeral)
  from r(2) [rule_format, of 7] r(1) show ?thesis by simp
qed

lemma chain_hd: "chain t P c cs \<Longrightarrow> cs \<noteq> [] \<Longrightarrow> c = hd cs"
  by (cases cs) auto

lemma fat_write_effect:
  assumes "fat_file V fs node cs ds s" and "0 < unat cnt" and "unat offset + unat cnt < 2 ^ 32" and "bufs_ok fs stk buf (unat cnt) s"
    and "bufs_ok fs stk (stk + 512) 32 s" and "clock_runs s" and "f = fats s fs"
    and "clusters = (unat offset + unat cnt + cluster_size f - 1) div cluster_size f" and "clusters - length cs \<le> card (free_clusters V fs s)"
  shows "\<exists>new s'. fat_write stk node buf cnt offset s = Some (int (unat cnt), s') \<and> fat_file V fs node (cs @ new) ds s' \<and>
    length new = clusters - length cs \<and> set new \<subseteq> free_clusters V fs s \<and>
    v_size (vnodes s' node) = max (v_size (vnodes s node)) (offset + cnt) \<and>
    (\<forall>p < cluster_size f * length (cs @ new). file_byte V f (cs @ new) s' p =
       (if unat offset \<le> p \<and> p < unat offset + unat cnt then vfs_memory s (buf + of_nat (p - unat offset)) else file_byte V f (cs @ new) s p)) \<and>
    (\<forall>c r. fat_valid f c \<longrightarrow> c \<notin> set (cs @ new) \<longrightarrow> c \<notin> set ds \<longrightarrow> r < cluster_size f \<longrightarrow> cluster_byte V f s' c r = cluster_byte V f s c r) \<and>
    (\<forall>x. x \<notin> set (cs @ new) \<longrightarrow> fat_tab V fs s' x = fat_tab V fs s x) \<and> \<not> fs_cache_dirty (fats s' fs) \<and> block_bounce s' = block_bounce s \<and>
    geometry (fats s' fs) = geometry f \<and>
    entry_records (file_mem V f ds s') (of_nat (unat (fn_entry_offset (fat_nodes s (v_private_data (vnodes s node))))))
      (fn_cluster (fat_nodes s' (v_private_data (vnodes s node)))) (ucast (v_size (vnodes s' node)))"
proof -
  define fn where "fn = v_private_data (vnodes s node)"
  have inv: "fat_inv V fs s" using assms(1) by (simp add: fat_file_def Let_def fat_file_inv_def)
  from fat_write_spec [OF assms(1-6), folded fn_def assms(7)] assms(8,9) obtain new s2 s' where
    w: "fat_write stk node buf cnt offset s = Some (int (unat cnt), s')" "fat_file V fs node (cs @ new) ds s'" "grown V fs fn cs new s s2"
      "stored V fs node (cs @ new) ds buf cnt offset s2 s'" "fat_file_inv V fs fn (cs @ new) s2" "length new = clusters - length cs" by blast
  have g: "vnodes s2 = vnodes s" "geometry (fats s2 fs) = geometry f" "set new \<subseteq> free_clusters V fs s"
    "fn_entry_offset (fat_nodes s2 fn) = fn_entry_offset (fat_nodes s fn)" "\<forall>x. x \<notin> set (cs @ new) \<longrightarrow> fat_tab V fs s2 x = fat_tab V fs s x"
    "block_bounce s2 = block_bounce s"
    using w(3) assms(7) by (simp_all add: grown_def)
  have st: "vnodes s' = (vnodes s)(node := (vnodes s node)\<lparr>v_size := max (v_size (vnodes s node)) (offset + cnt)\<rparr>)"
    "fat_tab V fs s' = fat_tab V fs s2" "\<not> fs_cache_dirty (fats s' fs)" "block_bounce s' = block_bounce s" "geometry (fats s' fs) = geometry f"
    "entry_records (file_mem V f ds s') (of_nat (unat (fn_entry_offset (fat_nodes s fn)))) (fn_cluster (fat_nodes s2 fn))
       (ucast (max (v_size (vnodes s node)) (offset + cnt)))"
    using w(4) g(1,2,4,6) unfolding stored_def Let_def file_mem_def [abs_def] geometry_clusters [OF g(2)] by (simp_all add: fn_def)
  have "clusters \<noteq> 0" using assms(2,8) layout_clusters(1) [OF inv_layout [OF inv]] by (simp add: assms(7) div_eq_0_iff)
  then have ne: "cs @ new \<noteq> []" using w(6) by auto
  have "fat_file_inv V fs fn (cs @ new) s'" using w(2) st(1) by (simp add: fat_file_def Let_def fn_def)
  then have cl: "fn_cluster (fat_nodes s2 fn) = hd (cs @ new)" "fn_cluster (fat_nodes s' fn) = hd (cs @ new)"
    using w(5) by (simp_all only: fat_file_inv_def) (blast intro: chain_hd [OF _ ne])+
  note bytes = grown_stored [OF w(3-5) assms(4,3) inv assms(7)]
  show ?thesis
    using w(1,2,6) g(3,5) st bytes cl
    by (intro exI [of _ new] exI [of _ s']) (simp add: fn_def [symmetric])
qed

text \<open>Property C14: a write that fits into the volume stores exactly the caller's bytes at the offset, keeps every other byte of
  the file, takes only free clusters when the file has to grow, changes no byte of another cluster but those of the directory, keeps
  the table entries of other chains, records size and first cluster in the directory entry on the disk, writes the cached table sector
  back, and leaves a file that satisfies the invariant again.\<close>

theorem fat_write_bytes:
  assumes "fat_file V fs node cs ds s" and "0 < unat cnt" and "unat offset + unat cnt < 2 ^ 32" and "bufs_ok fs stk buf (unat cnt) s"
    and "bufs_ok fs stk (stk + 512) 32 s" and "clock_runs s" and "f = fats s fs"
    and "clusters = (unat offset + unat cnt + cluster_size f - 1) div cluster_size f" and "clusters - length cs \<le> card (free_clusters V fs s)"
  shows "\<exists>new s'. fat_write stk node buf cnt offset s = Some (int (unat cnt), s') \<and> fat_file V fs node (cs @ new) ds s' \<and>
    length new = clusters - length cs \<and> set new \<subseteq> free_clusters V fs s \<and>
    v_size (vnodes s' node) = max (v_size (vnodes s node)) (offset + cnt) \<and>
    (\<forall>p < cluster_size f * length (cs @ new). file_byte V f (cs @ new) s' p =
       (if unat offset \<le> p \<and> p < unat offset + unat cnt then vfs_memory s (buf + of_nat (p - unat offset)) else file_byte V f (cs @ new) s p)) \<and>
    (\<forall>c r. fat_valid f c \<longrightarrow> c \<notin> set (cs @ new) \<longrightarrow> c \<notin> set ds \<longrightarrow> r < cluster_size f \<longrightarrow> cluster_byte V f s' c r = cluster_byte V f s c r) \<and>
    (\<forall>x. x \<notin> set (cs @ new) \<longrightarrow> fat_tab V fs s' x = fat_tab V fs s x) \<and> \<not> fs_cache_dirty (fats s' fs) \<and>
    entry_records (file_mem V f ds s') (of_nat (unat (fn_entry_offset (fat_nodes s (v_private_data (vnodes s node))))))
      (fn_cluster (fat_nodes s' (v_private_data (vnodes s node)))) (ucast (v_size (vnodes s' node)))"
  using fat_write_effect [OF assms] by (elim exE conjE, intro exI conjI) assumption+

lemma fat_example_write:
  "0 < unat (900 :: u64)" "unat (100 :: u64) + unat (900 :: u64) < 2 ^ 32"
  "2 = (unat (100 :: u64) + unat (900 :: u64) + cluster_size (fats fat_example fs_example) - 1) div cluster_size (fats fat_example fs_example)"
  "2 - length [3 :: u32] \<le> card (free_clusters vol_example fs_example fat_example)"
proof -
  have "0 < card (free_clusters vol_example fs_example fat_example)" using fat_example_free(1) by (simp add: card_gt_0_iff) blast
  then show "2 - length [3 :: u32] \<le> card (free_clusters vol_example fs_example fat_example)" by simp
qed (simp_all add: cluster_size_def fat_example_simps)

theorem fat_write_bytes_witness:
  "\<exists>s'. fat_write stk_example node_example buf_example 900 100 fat_example = Some (900, s') \<and> v_size (vnodes s' node_example) = 1000"
proof -
  have "bufs_ok fs_example stk_example buf_example (unat (900 :: u64)) fat_example" by (rule fat_example_bufs) simp
  from fat_write_bytes [OF fat_example_file fat_example_write(1,2) this fat_example_bufs(2) fat_example_clock refl fat_example_write(3,4)]
  show ?thesis by (auto simp: fat_example_nodes)
qed

text \<open>Property C15: what was written to a file is read back from it, also when the write had to extend the file.\<close>

theorem fat_write_read:
  assumes "fat_file V fs node cs ds s" and "0 < unat cnt" and "unat offset + unat cnt < 2 ^ 32" and "bufs_ok fs stk buf (unat cnt) s"
    and "bufs_ok fs stk (stk + 512) 32 s" and "clock_runs s" and "f = fats s fs"
    and "clusters = (unat offset + unat cnt + cluster_size f - 1) div cluster_size f" and "clusters - length cs \<le> card (free_clusters V fs s)"
    and "unat (v_size (vnodes s node)) \<le> cluster_size f * length cs" and "unat (v_size (vnodes s node)) < 2 ^ 32"
    and "bufs_ok fs stk buf' (unat cnt) s"
  shows "\<exists>s1 s2. fat_write stk node buf cnt offset s = Some (int (unat cnt), s1) \<and>
    fat_read stk node buf' cnt offset s1 = Some (int (unat cnt), s2) \<and>
    (\<forall>k < unat cnt. vfs_memory s2 (buf' + of_nat k) = vfs_memory s (buf + of_nat k))"
proof -
  from fat_write_effect [OF assms(1-9)] obtain new s1 where w: "fat_write stk node buf cnt offset s = Some (int (unat cnt), s1)"
    "fat_file V fs node (cs @ new) ds s1" "length new = clusters - length cs"
    "v_size (vnodes s1 node) = max (v_size (vnodes s node)) (offset + cnt)"
    "\<forall>p < cluster_size f * length (cs @ new). file_byte V f (cs @ new) s1 p =
       (if unat offset \<le> p \<and> p < unat offset + unat cnt then vfs_memory s (buf + of_nat (p - unat offset)) else file_byte V f (cs @ new) s p)"
    "block_bounce s1 = block_bounce s" "geometry (fats s1 fs) = geometry f" by blast
  have f1: "v_type (vnodes s1 node) = VNODE_FILE" "fat_file_inv V fs (v_private_data (vnodes s1 node)) (cs @ new) s1"
    using w(2) by (simp_all add: fat_file_def Let_def)
  have en: "unat (offset + cnt) = unat offset + unat cnt" using assms(3) by (intro unat_add_nowrap) simp
  have inv: "fat_inv V fs s" using assms(1) by (simp add: fat_file_def Let_def fat_file_inv_def)
  have "unat offset + unat cnt \<le> cluster_size f * clusters"
    using clusters_needed(3) [OF inv_layout [OF inv], of "offset + cnt"] en assms(3,7,8) by simp
  also have "\<dots> \<le> cluster_size f * length (cs @ new)" using w(3) by (intro mult_le_mono2) simp
  finally have cap: "unat offset + unat cnt \<le> cluster_size f * length (cs @ new)" .
  have sz: "unat (v_size (vnodes s1 node)) = max (unat (v_size (vnodes s node))) (unat offset + unat cnt)"
    using w(4) en by (auto simp: max_def word_le_nat_alt)
  have "cluster_size f * length cs \<le> cluster_size f * length (cs @ new)" by (intro mult_le_mono2) simp
  then have "unat (v_size (vnodes s node)) \<le> cluster_size f * length (cs @ new)" using assms(10) by linarith
  then have le: "unat (v_size (vnodes s1 node)) \<le> cluster_size (fats s1 fs) * length (cs @ new)"
    unfolding sz geometry_clusters(1) [OF w(7)] using cap by (rule max.boundedI)
  have lt: "unat (v_size (vnodes s1 node)) < 2 ^ 32" using sz assms(3,11) by simp
  have n: "unat cnt = min (unat cnt) (unat (v_size (vnodes s1 node)) - unat offset)" using sz by simp
  have b: "bufs_ok fs stk buf' (unat cnt) s1" using assms(12) w(6) by (simp add: bufs_ok_def)
  from fat_read_spec [OF f1 le lt n b] obtain s2 where r: "fat_read stk node buf' cnt offset s1 = Some (int (unat cnt), s2)"
    "\<forall>k < unat cnt. vfs_memory s2 (buf' + of_nat k) = file_byte V (fats s1 fs) (cs @ new) s1 (unat offset + k)" by blast
  have "vfs_memory s2 (buf' + of_nat k) = vfs_memory s (buf + of_nat k)" if "k < unat cnt" for k
    using r(2) that w(5) cap by (simp add: geometry_clusters [OF w(7)])
  then show ?thesis using w(1) r(1) by blast
qed

theorem fat_write_read_witness:
  "\<exists>s1 s2. fat_write stk_example node_example buf_example 900 100 fat_example = Some (900, s1) \<and>
     fat_read stk_example node_example 0xFFFF800000310000 900 100 s1 = Some (900, s2)"
proof -
  have "bufs_ok fs_example stk_example buf_example (unat (900 :: u64)) fat_example" by (rule fat_example_bufs) simp
  moreover have "bufs_ok fs_example stk_example 0xFFFF800000310000 (unat (900 :: u64)) fat_example"
    by (simp add: bufs_ok_def apart_either fat_cache_def fat_example_simps)
  moreover have "unat (v_size (vnodes fat_example node_example)) \<le> cluster_size (fats fat_example fs_example) * length [3 :: u32]"
    "unat (v_size (vnodes fat_example node_example)) < 2 ^ 32" by (simp_all add: fat_example_nodes fat_example_simps cluster_size_def)
  ultimately have "\<exists>s1 s2. fat_write stk_example node_example buf_example 900 100 fat_example = Some (int (unat (900 :: u64)), s1) \<and>
     fat_read stk_example node_example 0xFFFF800000310000 900 100 s1 = Some (int (unat (900 :: u64)), s2)"
    using fat_write_read [OF fat_example_file fat_example_write(1,2) _ fat_example_bufs(2) fat_example_clock refl fat_example_write(3,4)] by blast
  then show ?thesis by simp
qed

end
