(* ===== verification/Input.thy ===== *)
theory Input
  imports Socket
begin

text \<open>
  The input devices, \<^verbatim>\<open>kernel/devices/keyboard.c\<close>, \<^verbatim>\<open>mouse.c\<close> and \<^verbatim>\<open>ps2mouse.c\<close>: two rings that an interrupt
  fills and a program empties, and the driver that puts the packets of a PS/2 mouse together. What the
  controller answers is the field \<open>ports\<close>: \<open>ports i p\<close> is the byte that the \<open>i\<close>-th read of a port gets
  when it reads port \<open>p\<close>. The writes to ports, the interrupt handlers set and the writes to the interrupt
  controller are recorded in order.
\<close>

record mouse_event =
  ev_dx :: u16
  ev_dy :: u16
  ev_wheel :: u8
  ev_buttons :: u8
  ev_reserved :: u16

datatype irq_handler = KEYBOARD_IRQ_HANDLER | PS2_MOUSE_IRQ_HANDLER

record input =
  kbd_ring :: "u8 list"
  kbd_head :: u64
  kbd_tail :: u64
  mouse_ring :: "mouse_event list"
  mouse_head :: u64
  mouse_tail :: u64
  ps2_packet :: "u8 list"
  ps2_packet_len :: nat
  ps2_packet_size :: nat
  ps2_mouse_ready :: bool
  in_sched :: sched
  ports :: "nat \<Rightarrow> u16 \<Rightarrow> u8"
  port_reads :: nat
  port_writes :: "(u16 \<times> u8) list"
  irq_handlers :: "(u8 \<times> irq_handler) list"
  ioapic_writes :: "(u8 \<times> u32) list"

definition KBD_BUF_SIZE :: u64 where "KBD_BUF_SIZE = 256"
definition MOUSE_BUF_SIZE :: u64 where "MOUSE_BUF_SIZE = 128"
definition MOUSE_EVENT_SIZE :: u64 where "MOUSE_EVENT_SIZE = 8"
definition IRQ_BASE :: u8 where "IRQ_BASE = 32"
definition IRQ_KEYBOARD :: u8 where "IRQ_KEYBOARD = IRQ_BASE + 1"
definition IRQ_MOUSE :: u8 where "IRQ_MOUSE = IRQ_BASE + 3"

text \<open>Access to an element of an array; outside the array the C code has no defined behaviour.\<close>

definition arr_get :: "'a list \<Rightarrow> nat \<Rightarrow> 'a ret" where
  "arr_get xs i = (if i < length xs then Some (xs ! i) else None)"

definition arr_set :: "'a list \<Rightarrow> nat \<Rightarrow> 'a \<Rightarrow> 'a list ret" where
  "arr_set xs i v = (if i < length xs then Some (xs[i := v]) else None)"

definition in_memory :: "input \<Rightarrow> mem" where
  "in_memory s = hmem (up_heap (sc_mem (in_sched s)))"

definition set_in_memory :: "mem \<Rightarrow> input \<Rightarrow> input" where
  "set_in_memory m s = s\<lparr>in_sched := (in_sched s)\<lparr>sc_mem := (sc_mem (in_sched s))\<lparr>up_heap := (up_heap (sc_mem (in_sched s)))\<lparr>hmem := m\<rparr>\<rparr>\<rparr>\<rparr>"

definition in_wake :: "input \<Rightarrow> input ret" where
  "in_wake s = do { sc \<leftarrow> task_wake_waiters (in_sched s); Some (s\<lparr>in_sched := sc\<rparr>) }"

definition inb :: "u16 \<Rightarrow> input \<Rightarrow> u8 \<times> input" where
  "inb p s = (ports s (port_reads s) p, s\<lparr>port_reads := Suc (port_reads s)\<rparr>)"

definition outb :: "u16 \<Rightarrow> u8 \<Rightarrow> input \<Rightarrow> input" where
  "outb p v s = s\<lparr>port_writes := port_writes s @ [(p, v)]\<rparr>"

definition idt_set_irq_handler :: "u8 \<Rightarrow> irq_handler \<Rightarrow> input \<Rightarrow> input" where
  "idt_set_irq_handler vector h s = s\<lparr>irq_handlers := (vector - IRQ_BASE, h) # irq_handlers s\<rparr>"

definition ioapic_set_irq :: "u8 \<Rightarrow> u32 \<Rightarrow> u8 \<Rightarrow> input \<Rightarrow> input" where
  "ioapic_set_irq irq apic vector s =
     (let reg = 0x10 + irq * 2
      in s\<lparr>ioapic_writes := ioapic_writes s @ [(reg + 1, push_bit 24 apic), (reg, ucast vector)]\<rparr>)"

subsection \<open>The rings\<close>

text \<open>The keyboard and the mouse have the same ring, for scancodes and for events: \<open>r\<close> is its array of \<open>N\<close> elements,
  \<open>h\<close> and \<open>t\<close> are the indices \<^verbatim>\<open>head\<close> and \<^verbatim>\<open>tail\<close>. An element takes \<open>sz\<close> bytes of the reader's buffer.\<close>

definition ring_push :: "u64 \<Rightarrow> 'e \<Rightarrow> 'e list \<Rightarrow> u64 \<Rightarrow> u64 \<Rightarrow> ('e list \<times> u64) ret" where
  "ring_push N e r h t =
     (let nx = (h + 1) mod N
      in if nx \<noteq> t then do { r' \<leftarrow> arr_set r (unat h) e; Some (r', nx) } else Some (r, h))"

partial_function (option) ring_read_loop ::
  "u64 \<Rightarrow> (ptr \<Rightarrow> 'e \<Rightarrow> mem \<Rightarrow> mem) \<Rightarrow> u64 \<Rightarrow> 'e list \<Rightarrow> u64 \<Rightarrow> ptr \<Rightarrow> u64 \<Rightarrow> u64 \<Rightarrow> u64 \<Rightarrow> mem \<Rightarrow> (u64 \<times> u64 \<times> mem) ret" where
  [code]: "ring_read_loop N store sz r h buf mx n t m =
     (if n < mx \<and> t \<noteq> h
      then do { e \<leftarrow> arr_get r (unat t);
                ring_read_loop N store sz r h buf mx (n + 1) ((t + 1) mod N) (store (buf + n * sz) e m) }
      else Some (n, t, m))"

subsection \<open>The keyboard\<close>

definition keyboard_push_scancode :: "u8 \<Rightarrow> input \<Rightarrow> input ret" where
  "keyboard_push_scancode sc s =
     do { (r, h) \<leftarrow> ring_push KBD_BUF_SIZE sc (kbd_ring s) (kbd_head s) (kbd_tail s);
          in_wake (s\<lparr>kbd_ring := r, kbd_head := h\<rparr>) }"

definition keyboard_has_data :: "input \<Rightarrow> bool" where
  "keyboard_has_data s \<longleftrightarrow> kbd_tail s \<noteq> kbd_head s"

definition store_byte :: "ptr \<Rightarrow> u8 \<Rightarrow> mem \<Rightarrow> mem" where
  "store_byte p b m = m(p := b)"

definition keyboard_read_raw :: "ptr \<Rightarrow> u64 \<Rightarrow> input \<Rightarrow> (u64 \<times> input) ret" where
  "keyboard_read_raw buf cnt s =
     do { (n, t, m) \<leftarrow> ring_read_loop KBD_BUF_SIZE store_byte 1 (kbd_ring s) (kbd_head s) buf cnt 0 (kbd_tail s) (in_memory s);
          Some (n, set_in_memory m (s\<lparr>kbd_tail := t\<rparr>)) }"

definition keyboard_init :: "u32 \<Rightarrow> input \<Rightarrow> input" where
  "keyboard_init apic s =
     ioapic_set_irq 1 apic IRQ_KEYBOARD (idt_set_irq_handler IRQ_KEYBOARD KEYBOARD_IRQ_HANDLER (s\<lparr>kbd_head := 0, kbd_tail := 0\<rparr>))"

subsection \<open>The mouse\<close>

definition mouse_push_event :: "mouse_event \<Rightarrow> input \<Rightarrow> input ret" where
  "mouse_push_event ev s =
     do { (r, h) \<leftarrow> ring_push MOUSE_BUF_SIZE ev (mouse_ring s) (mouse_head s) (mouse_tail s);
          in_wake (s\<lparr>mouse_ring := r, mouse_head := h\<rparr>) }"

definition mouse_has_data :: "input \<Rightarrow> bool" where
  "mouse_has_data s \<longleftrightarrow> mouse_tail s \<noteq> mouse_head s"

definition store_event :: "ptr \<Rightarrow> mouse_event \<Rightarrow> mem \<Rightarrow> mem" where
  "store_event p ev m =
     store_u16 (p + 6) (ev_reserved ev) ((store_u16 (p + 2) (ev_dy ev) (store_u16 p (ev_dx ev) m))
       (p + 4 := ev_wheel ev, p + 5 := ev_buttons ev))"

definition mouse_read_raw :: "ptr \<Rightarrow> u64 \<Rightarrow> input \<Rightarrow> (u64 \<times> input) ret" where
  "mouse_read_raw buf cnt s =
     do { (n, t, m) \<leftarrow> ring_read_loop MOUSE_BUF_SIZE store_event MOUSE_EVENT_SIZE (mouse_ring s) (mouse_head s) buf
                         (cnt div MOUSE_EVENT_SIZE) 0 (mouse_tail s) (in_memory s);
          Some (n * MOUSE_EVENT_SIZE, set_in_memory m (s\<lparr>mouse_tail := t\<rparr>)) }"

definition mouse_init :: "input \<Rightarrow> input" where
  "mouse_init s = s\<lparr>mouse_head := 0, mouse_tail := 0\<rparr>"

subsection \<open>The PS/2 mouse\<close>

definition PS2_DATA :: u16 where "PS2_DATA = 0x60"
definition PS2_STATUS :: u16 where "PS2_STATUS = 0x64"
definition PS2_CMD :: u16 where "PS2_CMD = 0x64"
definition PS2_STATUS_OUT_FULL :: u8 where "PS2_STATUS_OUT_FULL = 1"
definition PS2_STATUS_IN_FULL :: u8 where "PS2_STATUS_IN_FULL = 2"
definition PS2_STATUS_AUX_DATA :: u8 where "PS2_STATUS_AUX_DATA = 0x20"
definition PS2_CTL_READ_CONFIG :: u8 where "PS2_CTL_READ_CONFIG = 0x20"
definition PS2_CTL_WRITE_CONFIG :: u8 where "PS2_CTL_WRITE_CONFIG = 0x60"
definition PS2_CTL_ENABLE_AUX :: u8 where "PS2_CTL_ENABLE_AUX = 0xA8"
definition PS2_CTL_TEST_AUX :: u8 where "PS2_CTL_TEST_AUX = 0xA9"
definition PS2_CTL_WRITE_AUX :: u8 where "PS2_CTL_WRITE_AUX = 0xD4"
definition PS2_CONFIG_AUX_IRQ :: u8 where "PS2_CONFIG_AUX_IRQ = 2"
definition PS2_CONFIG_AUX_CLOCK :: u8 where "PS2_CONFIG_AUX_CLOCK = 0x20"
definition PS2_MOUSE_SET_DEFAULTS :: u8 where "PS2_MOUSE_SET_DEFAULTS = 0xF6"
definition PS2_MOUSE_ENABLE :: u8 where "PS2_MOUSE_ENABLE = 0xF4"
definition PS2_MOUSE_SAMPLE_RATE :: u8 where "PS2_MOUSE_SAMPLE_RATE = 0xF3"
definition PS2_MOUSE_GET_ID :: u8 where "PS2_MOUSE_GET_ID = 0xF2"
definition PS2_MOUSE_ACK :: u8 where "PS2_MOUSE_ACK = 0xFA"
definition PS2_TIMEOUT :: nat where "PS2_TIMEOUT = 100000"

fun wait_write_loop :: "nat \<Rightarrow> input \<Rightarrow> bool \<times> input" where
  "wait_write_loop 0 s = (False, s)"
| "wait_write_loop (Suc k) s =
     (let (status, s1) = inb PS2_STATUS s
      in if status AND PS2_STATUS_IN_FULL = 0 then (True, s1) else wait_write_loop k s1)"

definition ps2_wait_write :: "input \<Rightarrow> bool \<times> input" where
  "ps2_wait_write s = wait_write_loop PS2_TIMEOUT s"

text \<open>\<open>None\<close> inside is the result -1 of a read that timed out.\<close>

fun ps2_read_loop :: "nat \<Rightarrow> bool \<Rightarrow> input \<Rightarrow> (u8 option \<times> input) ret" where
  "ps2_read_loop 0 want_aux s = Some (None, s)"
| "ps2_read_loop (Suc k) want_aux s =
     (let (status, s1) = inb PS2_STATUS s
      in if status AND PS2_STATUS_OUT_FULL \<noteq> 0
         then let (data, s2) = inb PS2_DATA s1;
                  is_aux = (status AND PS2_STATUS_AUX_DATA \<noteq> 0)
              in if is_aux = want_aux then Some (Some data, s2)
                 else do { s3 \<leftarrow> (if \<not> is_aux then keyboard_push_scancode data s2 else Some s2);
                           ps2_read_loop k want_aux s3 }
         else ps2_read_loop k want_aux s1)"

definition ps2_read :: "bool \<Rightarrow> input \<Rightarrow> (u8 option \<times> input) ret" where
  "ps2_read want_aux s = ps2_read_loop PS2_TIMEOUT want_aux s"

definition ps2_ctl_cmd :: "u8 \<Rightarrow> input \<Rightarrow> bool \<times> input" where
  "ps2_ctl_cmd cmd s = (let (ok, s1) = ps2_wait_write s in if \<not> ok then (False, s1) else (True, outb PS2_CMD cmd s1))"

definition ps2_ctl_write_data :: "u8 \<Rightarrow> input \<Rightarrow> bool \<times> input" where
  "ps2_ctl_write_data data s = (let (ok, s1) = ps2_wait_write s in if \<not> ok then (False, s1) else (True, outb PS2_DATA data s1))"

text \<open>The operator \<^verbatim>\<open>&&\<close> on calls that change the state.\<close>

definition and_then :: "(input \<Rightarrow> (bool \<times> input) ret) \<Rightarrow> (input \<Rightarrow> (bool \<times> input) ret) \<Rightarrow> input \<Rightarrow> (bool \<times> input) ret" where
  "and_then f g s = do { (ok, s1) \<leftarrow> f s; if ok then g s1 else Some (False, s1) }"

definition ps2_mouse_cmd :: "u8 \<Rightarrow> input \<Rightarrow> (bool \<times> input) ret" where
  "ps2_mouse_cmd cmd =
     and_then (\<lambda>s. Some (ps2_ctl_cmd PS2_CTL_WRITE_AUX s))
       (and_then (\<lambda>s. Some (ps2_ctl_write_data cmd s))
         (\<lambda>s. do { (r, s1) \<leftarrow> ps2_read True s; Some (r = Some PS2_MOUSE_ACK, s1) }))"

definition ps2_mouse_set_rate :: "u8 \<Rightarrow> input \<Rightarrow> (bool \<times> input) ret" where
  "ps2_mouse_set_rate rate = and_then (ps2_mouse_cmd PS2_MOUSE_SAMPLE_RATE) (ps2_mouse_cmd rate)"

definition ps2_event :: "nat \<Rightarrow> u8 list \<Rightarrow> mouse_event" where
  "ps2_event sz packet =
     (let flags = packet ! 0
      in \<lparr>ev_dx = ucast (packet ! 1) - (if flags AND 0x10 \<noteq> 0 then 0x100 else 0),
          ev_dy = - (ucast (packet ! 2) - (if flags AND 0x20 \<noteq> 0 then 0x100 else 0)),
          ev_wheel = (if sz = 4 then - (packet ! 3) else 0), ev_buttons = flags AND 0x07, ev_reserved = 0\<rparr>)"

definition ps2_mouse_handle_byte :: "u8 \<Rightarrow> input \<Rightarrow> input ret" where
  "ps2_mouse_handle_byte data s =
     (if ps2_packet_len s = 0 \<and> data AND 0x08 = 0 then Some s
      else do {
        p \<leftarrow> arr_set (ps2_packet s) (ps2_packet_len s) data;
        let s1 = s\<lparr>ps2_packet := p, ps2_packet_len := ps2_packet_len s + 1\<rparr>
        in if ps2_packet_len s1 < ps2_packet_size s1 then Some s1
           else let s2 = s1\<lparr>ps2_packet_len := 0\<rparr>
                in if ps2_packet s2 ! 0 AND 0xC0 \<noteq> 0 then Some s2
                   else mouse_push_event (ps2_event (ps2_packet_size s2) (ps2_packet s2)) s2 })"

definition ps2_mouse_feed :: "u8 \<Rightarrow> input \<Rightarrow> input ret" where
  "ps2_mouse_feed data s = (if ps2_mouse_ready s then ps2_mouse_handle_byte data s else Some s)"

definition keyboard_irq_handler :: "input \<Rightarrow> input ret" where
  "keyboard_irq_handler s =
     (let (status, s1) = inb PS2_STATUS s
      in if status AND 0x01 = 0 then Some s1
         else let (data, s2) = inb PS2_DATA s1
              in if status AND 0x20 \<noteq> 0 then ps2_mouse_feed data s2 else keyboard_push_scancode data s2)"

partial_function (option) ps2_mouse_irq_handler :: "input \<Rightarrow> input ret" where
  [code]: "ps2_mouse_irq_handler s =
     (let (full, s1) = inb PS2_STATUS s
      in if full AND PS2_STATUS_OUT_FULL \<noteq> 0
         then let (status, s2) = inb PS2_STATUS s1; (data, s3) = inb PS2_DATA s2
              in do { s4 \<leftarrow> (if status AND PS2_STATUS_AUX_DATA \<noteq> 0 then ps2_mouse_feed data s3
                            else keyboard_push_scancode data s3);
                      ps2_mouse_irq_handler s4 }
         else Some s1)"

text \<open>The part of \<^verbatim>\<open>ps2_mouse_init\<close> that switches the controller on; the result is false at every jump to a label
  \<^verbatim>\<open>fail\<close>. The messages on the console are left out.\<close>

definition ps2_controller_setup :: "input \<Rightarrow> (bool \<times> input) ret" where
  "ps2_controller_setup =
     and_then (\<lambda>s. Some (ps2_ctl_cmd PS2_CTL_ENABLE_AUX s))
       (and_then (\<lambda>s. Some (ps2_ctl_cmd PS2_CTL_TEST_AUX s))
         (and_then (\<lambda>s. do { (r, s1) \<leftarrow> ps2_read False s; Some (r = Some 0, s1) })
           (and_then (\<lambda>s. Some (ps2_ctl_cmd PS2_CTL_READ_CONFIG s))
             (\<lambda>s. do { (r, s1) \<leftarrow> ps2_read False s;
                       case r of None \<Rightarrow> Some (False, s1)
                       | Some config \<Rightarrow>
                           and_then (\<lambda>s. Some (ps2_ctl_cmd PS2_CTL_WRITE_CONFIG s))
                             (\<lambda>s. Some (ps2_ctl_write_data ((config OR PS2_CONFIG_AUX_IRQ) AND NOT PS2_CONFIG_AUX_CLOCK) s)) s1 }))))"

text \<open>The request for packets of four bytes, with the wheel.\<close>

definition ps2_ask_wheel :: "input \<Rightarrow> (bool \<times> input) ret" where
  "ps2_ask_wheel =
     and_then (ps2_mouse_set_rate 200) (and_then (ps2_mouse_set_rate 100) (and_then (ps2_mouse_set_rate 80)
       (and_then (ps2_mouse_cmd PS2_MOUSE_GET_ID) (\<lambda>s. do { (r, s1) \<leftarrow> ps2_read True s; Some (r = Some 3, s1) }))))"

definition ps2_mouse_init :: "u32 \<Rightarrow> input \<Rightarrow> input ret" where
  "ps2_mouse_init apic s =
     (let (status, s0) = inb PS2_STATUS s
      in if status = 0xFF then Some s0
         else do {
           (ok, s1) \<leftarrow> and_then ps2_controller_setup (ps2_mouse_cmd PS2_MOUSE_SET_DEFAULTS) s0;
           if \<not> ok then Some s1
           else do {
             (wheel, s2) \<leftarrow> ps2_ask_wheel (s1\<lparr>ps2_packet_size := 3\<rparr>);
             let s3 = (if wheel then s2\<lparr>ps2_packet_size := 4\<rparr> else s2)
             in do {
               (ok2, s4) \<leftarrow> and_then (ps2_mouse_set_rate 100) (ps2_mouse_cmd PS2_MOUSE_ENABLE) s3;
               if \<not> ok2 then Some s4
               else Some (ioapic_set_irq 12 apic IRQ_MOUSE (idt_set_irq_handler IRQ_MOUSE PS2_MOUSE_IRQ_HANDLER
                      (s4\<lparr>ps2_packet_len := 0, ps2_mouse_ready := True\<rparr>))) } } })"

subsection \<open>A ring as a queue\<close>

text \<open>The elements of a ring that is filled at the index \<open>h\<close> and emptied at \<open>t\<close>, oldest first. One place stays
  free, so that equal indices mean an empty ring.\<close>

definition ring_items :: "'e list \<Rightarrow> nat \<Rightarrow> nat \<Rightarrow> 'e list" where
  "ring_items r h t = map (\<lambda>i. r ! ((t + i) mod length r)) [0..<(h + length r - t) mod length r]"

lemma ring_distance:
  assumes "h < (N :: nat)" and "t < N"
  shows "(h + N - t) mod N = (if t \<le> h then h - t else h + N - t)"
proof (cases "t \<le> h")
  case True
  then have "(h + N - t) mod N = ((h - t) + N) mod N" by (intro arg_cong [where f = "\<lambda>x. x mod N"]) linarith
  then show ?thesis using assms True by (simp only: mod_add_self2) simp
qed (use assms in simp)

lemma ring_next_index:
  assumes "h < (N :: nat)"
  shows "Suc h mod N = (if Suc h = N then 0 else Suc h)"
  using assms by (simp add: mod_Suc)

lemma ring_index:
  assumes "t < (N :: nat)" and "i < N"
  shows "(t + i) mod N = (if t + i < N then t + i else t + i - N)"
  using assms by (simp add: mod_if)

lemma length_ring_items: "length (ring_items r h t) = (h + length r - t) mod length r"
  by (simp add: ring_items_def)

lemma nth_ring_items: "i < length (ring_items r h t) \<Longrightarrow> ring_items r h t ! i = r ! ((t + i) mod length r)"
  by (simp add: ring_items_def)

lemma ring_items_bound: "r \<noteq> [] \<Longrightarrow> length (ring_items r h t) < length r"
  by (simp add: length_ring_items)

lemma ring_items_full:
  assumes "h < length r" and "t < length r"
  shows "Suc h mod length r = t \<longleftrightarrow> length (ring_items r h t) = length r - 1"
  using assms by (auto simp: length_ring_items ring_distance ring_next_index)

lemma ring_items_put:
  assumes "h < length r" and "t < length r" and "Suc h mod length r \<noteq> t"
  shows "ring_items (r[h := e]) (Suc h mod length r) t = ring_items r h t @ [e]"
proof (rule nth_equalityI)
  let ?N = "length r" and ?n = "length (ring_items r h t)"
  have d: "?n = (if t \<le> h then h - t else h + ?N - t)" using assms(1,2) by (simp add: length_ring_items ring_distance)
  have "Suc h mod ?N < ?N" using assms(1) by (auto simp: ring_next_index)
  note ring_distance [OF this assms(2)]
  then have l: "length (ring_items (r[h := e]) (Suc h mod ?N) t) = ?n + 1"
    unfolding length_ring_items [of "r[h := e]"] length_list_update d using assms by (simp only:) (auto simp: ring_next_index)
  then show "length (ring_items (r[h := e]) (Suc h mod ?N) t) = length (ring_items r h t @ [e])" by simp
  have nth: "ring_items (r[h := e]) (Suc h mod ?N) t ! i = r[h := e] ! ((t + i) mod ?N)" if "i < ?n + 1" for i
    using that l by (subst nth_ring_items) simp_all
  fix i assume "i < length (ring_items (r[h := e]) (Suc h mod ?N) t)"
  then have i: "i < ?n + 1" using l by simp
  have iN: "i < ?N" using i d assms by (simp split: if_splits)
  show "ring_items (r[h := e]) (Suc h mod ?N) t ! i = (ring_items r h t @ [e]) ! i"
  proof (cases "i < ?n")
    case True
    then have "(t + i) mod ?N \<noteq> h" using d assms(1,2) iN by (auto simp: ring_index split: if_splits)
    then show ?thesis using True nth [OF i] by (simp add: nth_append nth_ring_items)
  next
    case False
    then have "i = ?n" using i by simp
    moreover from this have "(t + i) mod ?N = h" using d assms(1,2) iN by (auto simp: ring_index split: if_splits)
    ultimately show ?thesis using nth [OF i] assms(1) by simp
  qed
qed

lemma ring_items_empty: "h < length r \<Longrightarrow> t < length r \<Longrightarrow> ring_items r h t = [] \<longleftrightarrow> h = t"
  by (auto simp: ring_items_def ring_distance)

lemma ring_items_take:
  assumes "h < length r" and "t < length r" and "t \<noteq> h"
  shows "ring_items r h t = r ! t # ring_items r h (Suc t mod length r)"
proof -
  let ?N = "length r" and ?t = "(Suc t mod length r)"
  have d: "(h + ?N - t) mod ?N = Suc ((h + ?N - ?t) mod ?N)"
    using assms by (auto simp: ring_next_index ring_distance split: if_splits)
  have "map (\<lambda>i. r ! ((t + i) mod ?N)) [1..<Suc k] = map (\<lambda>i. r ! ((?t + i) mod ?N)) [0..<k]" for k
    by (rule nth_equalityI) (simp_all add: mod_add_left_eq nth_append del: upt_Suc)
  then show ?thesis unfolding ring_items_def d using assms(2) by (simp add: upt_conv_Cons del: upt_Suc)
qed

subsection \<open>The contract of an input queue\<close>

fun put_all :: "('e \<Rightarrow> 's \<Rightarrow> 's ret) \<Rightarrow> 'e list \<Rightarrow> 's \<Rightarrow> 's ret" where
  "put_all put [] s = Some s"
| "put_all put (e # es) s = do { s' \<leftarrow> put e s; put_all put es s' }"

text \<open>A queue of at most \<open>room\<close> elements: \<open>put\<close> adds at the end and drops what does not fit, \<open>get\<close> moves up to
  \<open>n\<close> bytes of the oldest elements, each \<open>width\<close> bytes long, to the memory at \<open>buf\<close>, where \<open>seen\<close> reads them.\<close>

locale input_queue =
  fixes room :: nat and width :: nat and ok :: "'s \<Rightarrow> bool" and items :: "'s \<Rightarrow> 'e list" and put :: "'e \<Rightarrow> 's \<Rightarrow> 's ret"
    and get :: "ptr \<Rightarrow> u64 \<Rightarrow> 's \<Rightarrow> (u64 \<times> 's) ret" and seen :: "'s \<Rightarrow> ptr \<Rightarrow> nat \<Rightarrow> 'e list"
  assumes put_ok: "ok s \<Longrightarrow> \<exists>s'. put e s = Some s' \<and> ok s' \<and>
      items s' = (if length (items s) < room then items s @ [e] else items s)"
    and get_ok: "ok s \<Longrightarrow> \<exists>s' n j. get buf k s = Some (n, s') \<and> ok s' \<and> j = min (unat k div width) (length (items s)) \<and>
      unat n = j * width \<and> items s' = drop j (items s) \<and> seen s' buf j = take j (items s)"
    and room_ok: "ok s \<Longrightarrow> length (items s) \<le> room"
begin

lemma put_all_ok: "ok s \<Longrightarrow> \<exists>s'. put_all put es s = Some s' \<and> ok s' \<and> items s' = take room (items s @ es)"
proof (induction es arbitrary: s)
  case Nil
  then show ?case using room_ok [OF Nil] by simp
next
  case (Cons e es)
  obtain s1 where s1: "put e s = Some s1" "ok s1" "items s1 = (if length (items s) < room then items s @ [e] else items s)"
    using put_ok [OF Cons.prems] by blast
  obtain s2 where "put_all put es s1 = Some s2" "ok s2" "items s2 = take room (items s1 @ es)" using Cons.IH [OF s1(2)] by blast
  moreover have "take room (items s1 @ es) = take room (items s @ e # es)" using s1(3) room_ok [OF Cons.prems] by (auto simp: take_Cons' split: if_splits)
  ultimately show ?case using s1(1) by simp
qed

text \<open>What was put in comes out in that order, as much of it as there was room for.\<close>

lemma put_then_get:
  assumes "ok s"
  shows "\<exists>s1 s2 n j. put_all put es s = Some s1 \<and> get buf k s1 = Some (n, s2) \<and> ok s2 \<and> unat n = j * width \<and>
    seen s2 buf j = take (unat k div width) (take room (items s @ es)) \<and>
    items s2 = drop (unat k div width) (take room (items s @ es))"
proof -
  obtain s1 where s1: "put_all put es s = Some s1" "ok s1" "items s1 = take room (items s @ es)"
    using put_all_ok [OF assms] by blast
  obtain s2 n j where s2: "get buf k s1 = Some (n, s2)" "ok s2" "j = min (unat k div width) (length (items s1))"
    "unat n = j * width" "items s2 = drop j (items s1)" "seen s2 buf j = take j (items s1)"
    using get_ok [OF s1(2)] by blast
  have "take j (items s1) = take (unat k div width) (items s1)" "drop j (items s1) = drop (unat k div width) (items s1)"
    using s2(3) by (simp_all add: min_def)
  then show ?thesis using s1 s2 by (intro exI [of _ s1] exI [of _ s2] exI [of _ n] exI [of _ j]) (simp only: simp_thms)
qed

end

lemma of_nat_inj_small:
  assumes "i < 2 ^ 64" and "j < 2 ^ 64" and "(of_nat i :: u64) = of_nat j"
  shows "i = j"
proof -
  have "unat (of_nat i :: u64) = unat (of_nat j :: u64)" using assms(3) by simp
  then show ?thesis using assms(1,2) by (simp add: unat_of_nat_small)
qed

lemma ring_push_ok:
  assumes "unat N = length r" and "length r < 65536" and "unat h < length r" and "unat t < length r"
  shows "\<exists>r' h'. ring_push N e r h t = Some (r', h') \<and> length r' = length r \<and> unat h' < length r \<and>
    ring_items r' (unat h') (unat t) =
      (if length (ring_items r (unat h) (unat t)) < length r - 1 then ring_items r (unat h) (unat t) @ [e] else ring_items r (unat h) (unat t))"
proof -
  have "unat (h + 1) = Suc (unat h)" using assms(2,3) by (subst unat_add_nowrap) simp_all
  then have nx: "unat ((h + 1) mod N) = Suc (unat h) mod length r" by (simp add: unat_mod assms(1))
  have full: "(h + 1) mod N = t \<longleftrightarrow> length (ring_items r (unat h) (unat t)) = length r - 1"
    using ring_items_full [OF assms(3,4)] by (simp add: word_unat_eq_iff nx)
  have b: "length (ring_items r (unat h) (unat t)) < length r" using assms(3) by (intro ring_items_bound) auto
  show ?thesis
  proof (cases "(h + 1) mod N = t")
    case True
    then show ?thesis using assms(3) full by (simp add: ring_push_def)
  next
    case False
    then have "Suc (unat h) mod length r \<noteq> unat t" by (simp add: word_unat_eq_iff nx)
    moreover have "Suc (unat h) mod length r < length r" using assms(3) by (intro mod_less_divisor) linarith
    ultimately show ?thesis
      using ring_items_put [OF assms(3,4), of e] False full b assms(3) nx
      by (intro exI [of _ "r[unat h := e]"] exI [of _ "(h + 1) mod N"]) (auto simp: ring_push_def Let_def arr_set_def)
  qed
qed

subsection \<open>Copying out of a ring\<close>

text \<open>The element of a ring in the memory of the reader: \<open>sz\<close> bytes, written by \<open>store\<close> and read by \<open>load\<close>.\<close>

locale ring_element =
  fixes sz :: u64 and store :: "ptr \<Rightarrow> 'e \<Rightarrow> mem \<Rightarrow> mem" and load :: "mem \<Rightarrow> ptr \<Rightarrow> 'e"
  assumes size_bound: "unat sz \<le> 16"
    and load_store: "load (store p e m) p = e"
    and load_cong: "(\<And>i. i < unat sz \<Longrightarrow> m' (p + of_nat i) = m (p + of_nat i)) \<Longrightarrow> load m' p = load m p"
    and store_other: "(\<And>i. i < unat sz \<Longrightarrow> x \<noteq> p + of_nat i) \<Longrightarrow> store p e m x = m x"
begin

lemma ring_read_loop_ok:
  assumes "unat N = length r" and "length r < 65536" and "unat h < length r" and "unat t < length r"
    and "k = min (unat mx - unat n) (length (ring_items r (unat h) (unat t)))"
  shows "\<exists>t' m'. ring_read_loop N store sz r h buf mx n t m = Some (n + of_nat k, t', m') \<and> unat t' < length r \<and>
    ring_items r (unat h) (unat t') = drop k (ring_items r (unat h) (unat t)) \<and>
    (\<forall>i < k. load m' (buf + (n + of_nat i) * sz) = ring_items r (unat h) (unat t) ! i) \<and>
    (\<forall>x. (\<forall>i < k * unat sz. x \<noteq> buf + n * sz + of_nat i) \<longrightarrow> m' x = m x)"
  using assms(4,5)
proof (induction k arbitrary: n t m)
  case 0
  have "\<not> n < mx \<or> t = h"
    using 0 assms(3) ring_items_empty [of "unat h" r "unat t"] by (auto simp: word_less_nat_alt min_def word_unat_eq_iff split: if_splits)
  then show ?case using 0(1) by (subst ring_read_loop.simps) auto
next
  case (Suc k)
  let ?t = "unat t" and ?h = "unat h"
  define m1 where "m1 = store (buf + n * sz) (r ! ?t) m"
  have n: "n < mx" using Suc(3) by (simp add: word_less_nat_alt)
  have n1: "unat (n + 1) = Suc (unat n)" using n unat_lt_64 [of mx] by (subst unat_add_nowrap) (simp_all add: word_less_nat_alt)
  have "ring_items r ?h ?t \<noteq> []" using Suc(3) by (metis length_0_conv min_0R old.nat.distinct(2))
  then have ne: "t \<noteq> h" using Suc(2) assms(3) ring_items_empty [of ?h r ?t] by auto
  have "unat (t + 1) = Suc ?t" using Suc(2) assms(2) by (subst unat_add_nowrap) simp_all
  then have t1: "unat ((t + 1) mod N) = Suc ?t mod length r" by (simp add: unat_mod assms(1))
  then have t1': "unat ((t + 1) mod N) < length r" using assms(3) by (metis length_greater_0_conv list.size(3) mod_less_divisor not_less_zero)
  have items: "ring_items r ?h ?t = r ! ?t # ring_items r ?h (unat ((t + 1) mod N))"
    using ring_items_take [of ?h r ?t] assms(3) Suc(2) ne by (simp add: t1 word_unat_eq_iff)
  have k: "k = min (unat mx - unat (n + 1)) (length (ring_items r ?h (unat ((t + 1) mod N))))" using Suc(3) unfolding items n1 by simp
  obtain t' m' where s': "ring_read_loop N store sz r h buf mx (n + 1) ((t + 1) mod N) m1 = Some (n + 1 + of_nat k, t', m')"
    "unat t' < length r" "ring_items r ?h (unat t') = drop k (ring_items r ?h (unat ((t + 1) mod N)))"
    "\<forall>i < k. load m' (buf + (n + 1 + of_nat i) * sz) = ring_items r ?h (unat ((t + 1) mod N)) ! i"
    "\<forall>x. (\<forall>i < k * unat sz. x \<noteq> buf + (n + 1) * sz + of_nat i) \<longrightarrow> m' x = m1 x"
    using Suc.IH [OF t1' k, of m1] by blast
  have step: "buf + (n + 1) * sz + of_nat j = buf + n * sz + of_nat (unat sz + j)" for j by (simp add: algebra_simps)
  have "k < 65536" using Suc(3) ring_items_bound [of r ?h ?t] assms(2,3) by fastforce
  then have kb: "(k + 1) * unat sz \<le> 65536 * 16" using size_bound mult_le_mono [of "k + 1" 65536 "unat sz" 16] by simp
  have apart: "buf + n * sz + of_nat i \<noteq> buf + (n + 1) * sz + of_nat j" if "i < unat sz" "j < k * unat sz" for i j
  proof
    assume "buf + n * sz + of_nat i = buf + (n + 1) * sz + of_nat j"
    then have "(of_nat i :: u64) = of_nat (unat sz + j)" unfolding step by simp
    then have "i = unat sz + j" using that kb by (intro of_nat_inj_small) simp_all
    then show False using that by simp
  qed
  show ?case
  proof (intro exI conjI allI impI)
    show "ring_read_loop N store sz r h buf mx n t m = Some (n + of_nat (Suc k), t', m')"
      using n ne Suc(2) s'(1) by (subst ring_read_loop.simps) (simp add: arr_get_def add.assoc flip: m1_def)
    have "load m' (buf + n * sz) = load m1 (buf + n * sz)" by (rule load_cong) (use s'(5) apart in blast)
    then show "load m' (buf + (n + of_nat i) * sz) = ring_items r ?h ?t ! i" if "i < Suc k" for i
      using that s'(4) items by (cases i) (auto simp: m1_def load_store add.assoc)
    show "m' x = m x" if x: "\<forall>i < Suc k * unat sz. x \<noteq> buf + n * sz + of_nat i" for x
    proof -
      have "m' x = m1 x" using s'(5) x unfolding step by (metis add_less_cancel_left mult_Suc)
      also have "\<dots> = m x" unfolding m1_def by (rule store_other) (use x in simp)
      finally show ?thesis .
    qed
  qed (use s'(2,3) items in simp_all)
qed

end

subsection \<open>The keyboard and the mouse meet the contract\<close>

definition load_event :: "mem \<Rightarrow> ptr \<Rightarrow> mouse_event" where
  "load_event m p = \<lparr>ev_dx = load_u16 m p, ev_dy = load_u16 m (p + 2), ev_wheel = m (p + 4), ev_buttons = m (p + 5),
     ev_reserved = load_u16 m (p + 6)\<rparr>"

definition load_byte :: "mem \<Rightarrow> ptr \<Rightarrow> u8" where
  "load_byte m p = m p"

interpretation scancode: ring_element 1 store_byte load_byte
  by unfold_locales (simp_all add: store_byte_def load_byte_def)

lemma store_u16_bytes: "store_u16 p w m = m(p := ucast w, p + 1 := ucast (drop_bit 8 w))"
  by (simp add: store_u16_def numeral_2_eq_2 ucast_drop_bit_eq)

lemma load_u16_bytes: "load_u16 m p = ucast (m p) OR push_bit 8 (ucast (m (p + 1)))"
  by (simp add: load_u16_def numeral_2_eq_2)

lemma u16_bytes: "ucast (ucast w :: u8) OR push_bit 8 (ucast (ucast (drop_bit 8 w) :: u8)) = (w :: u16)"
  using load_store_u16 [of 0 w "\<lambda>_. 0"] by (simp add: load_u16_bytes store_u16_bytes)

lemma event_load_store: "load_event (store_event p ev m) p = ev"
  by (cases ev) (simp add: load_event_def store_event_def load_u16_bytes store_u16_bytes u16_bytes add.assoc)

interpretation event: ring_element MOUSE_EVENT_SIZE store_event load_event
proof
  show "unat MOUSE_EVENT_SIZE \<le> 16" by (simp add: MOUSE_EVENT_SIZE_def)
  show "load_event (store_event p e m) p = e" for p e m by (rule event_load_store)
  show "load_event m' p = load_event m p"
    if "\<And>i. i < unat MOUSE_EVENT_SIZE \<Longrightarrow> m' (p + word_of_nat i) = m (p + word_of_nat i)" for m' m p
    using that [of 0] that [of 1] that [of 2] that [of 3] that [of 4] that [of 5] that [of 6] that [of 7]
    by (simp add: load_event_def load_u16_bytes MOUSE_EVENT_SIZE_def add.assoc)
  show "store_event p e m x = m x" if "\<And>i. i < unat MOUSE_EVENT_SIZE \<Longrightarrow> x \<noteq> p + word_of_nat i" for x p e m
    using that [of 0] that [of 1] that [of 2] that [of 3] that [of 4] that [of 5] that [of 6] that [of 7]
    by (simp add: store_event_def store_u16_bytes MOUSE_EVENT_SIZE_def add.assoc)
qed

definition awake_ok :: "input \<Rightarrow> bool" where
  "awake_ok s \<longleftrightarrow> (\<exists>qs. ring (in_sched s) qs)"

lemma in_wake_ok:
  assumes "awake_ok s"
  shows "\<exists>s'. in_wake s = Some (s\<lparr>in_sched := s'\<rparr>) \<and> (\<exists>qs. ring s' qs) \<and> sc_mem s' = sc_mem (in_sched s)"
proof -
  obtain qs where "ring (in_sched s) qs" using assms by (auto simp: awake_ok_def)
  then show ?thesis
    by (intro exI [of _ "wake (\<lambda>t. t_waiting t \<and> t_state t = TASK_SLEEPING) (set qs) (in_sched s)"] conjI exI [of _ qs])
      (simp_all add: in_wake_def task_wake_waiters_ring, simp add: wake_def)
qed

lemma set_in_memory_access [simp]:
  "kbd_ring (set_in_memory m s) = kbd_ring s" "kbd_head (set_in_memory m s) = kbd_head s" "kbd_tail (set_in_memory m s) = kbd_tail s"
  "mouse_ring (set_in_memory m s) = mouse_ring s" "mouse_head (set_in_memory m s) = mouse_head s"
  "mouse_tail (set_in_memory m s) = mouse_tail s" "in_memory (set_in_memory m s) = m"
  "awake_ok (set_in_memory m s) = awake_ok s" "awake_ok (kbd_tail_update f s) = awake_ok s" "awake_ok (mouse_tail_update f s) = awake_ok s"
  by (simp_all add: set_in_memory_def in_memory_def awake_ok_def ring_def)

definition kbd_ok :: "input \<Rightarrow> bool" where
  "kbd_ok s \<longleftrightarrow> length (kbd_ring s) = 256 \<and> unat (kbd_head s) < 256 \<and> unat (kbd_tail s) < 256 \<and> awake_ok s"

definition kbd_items :: "input \<Rightarrow> u8 list" where
  "kbd_items s = ring_items (kbd_ring s) (unat (kbd_head s)) (unat (kbd_tail s))"

definition kbd_seen :: "input \<Rightarrow> ptr \<Rightarrow> nat \<Rightarrow> u8 list" where
  "kbd_seen s buf n = map (\<lambda>i. in_memory s (buf + of_nat i)) [0..<n]"

definition mouse_ok :: "input \<Rightarrow> bool" where
  "mouse_ok s \<longleftrightarrow> length (mouse_ring s) = 128 \<and> unat (mouse_head s) < 128 \<and> unat (mouse_tail s) < 128 \<and> awake_ok s"

definition mouse_items :: "input \<Rightarrow> mouse_event list" where
  "mouse_items s = ring_items (mouse_ring s) (unat (mouse_head s)) (unat (mouse_tail s))"

definition mouse_seen :: "input \<Rightarrow> ptr \<Rightarrow> nat \<Rightarrow> mouse_event list" where
  "mouse_seen s buf n = map (\<lambda>i. load_event (in_memory s) (buf + of_nat i * MOUSE_EVENT_SIZE)) [0..<n]"

lemma ring_size [simp]: "unat KBD_BUF_SIZE = 256" "unat MOUSE_BUF_SIZE = 128" "unat MOUSE_EVENT_SIZE = 8"
  by (simp_all add: KBD_BUF_SIZE_def MOUSE_BUF_SIZE_def MOUSE_EVENT_SIZE_def)

interpretation keyboard: input_queue 255 1 kbd_ok kbd_items keyboard_push_scancode keyboard_read_raw kbd_seen
proof
  fix s :: input and e buf k assume "kbd_ok s"
  then have ok: "length (kbd_ring s) = 256" "unat (kbd_head s) < 256" "unat (kbd_tail s) < 256" "awake_ok s" by (simp_all add: kbd_ok_def)
  show "\<exists>s'. keyboard_push_scancode e s = Some s' \<and> kbd_ok s' \<and>
      kbd_items s' = (if length (kbd_items s) < 255 then kbd_items s @ [e] else kbd_items s)"
  proof -
    obtain r h where p: "ring_push KBD_BUF_SIZE e (kbd_ring s) (kbd_head s) (kbd_tail s) = Some (r, h)" "length r = 256" "unat h < 256"
      "ring_items r (unat h) (unat (kbd_tail s)) = (if length (kbd_items s) < 255 then kbd_items s @ [e] else kbd_items s)"
      using ring_push_ok [of KBD_BUF_SIZE "kbd_ring s" "kbd_head s" "kbd_tail s" e] ok by (auto simp: kbd_items_def)
    let ?s = "s\<lparr>kbd_ring := r, kbd_head := h\<rparr>"
    obtain s' where "in_wake ?s = Some (?s\<lparr>in_sched := s'\<rparr>)" "\<exists>qs. ring s' qs" using in_wake_ok [of ?s] ok(4) by (auto simp: awake_ok_def)
    then show ?thesis using p ok by (simp add: keyboard_push_scancode_def kbd_ok_def kbd_items_def awake_ok_def)
  qed
  show "\<exists>s' n j. keyboard_read_raw buf k s = Some (n, s') \<and> kbd_ok s' \<and> j = min (unat k div 1) (length (kbd_items s)) \<and>
      unat n = j * 1 \<and> kbd_items s' = drop j (kbd_items s) \<and> kbd_seen s' buf j = take j (kbd_items s)"
  proof -
    define j where "j = min (unat k) (length (kbd_items s))"
    have j: "j \<le> length (kbd_items s)" "j < 2 ^ 64" using unat_lt_64 [of k] by (simp_all add: j_def)
    obtain t m where p: "ring_read_loop KBD_BUF_SIZE store_byte 1 (kbd_ring s) (kbd_head s) buf k 0 (kbd_tail s) (in_memory s) = Some (of_nat j, t, m)"
      "unat t < 256" "ring_items (kbd_ring s) (unat (kbd_head s)) (unat t) = drop j (kbd_items s)"
      "\<forall>i < j. load_byte m (buf + of_nat i) = kbd_items s ! i"
      using scancode.ring_read_loop_ok [of KBD_BUF_SIZE "kbd_ring s" "kbd_head s" "kbd_tail s" j k 0 buf "in_memory s"] ok
      by (auto simp: kbd_items_def j_def)
    then show ?thesis using ok j
      by (intro exI [of _ "set_in_memory m (s\<lparr>kbd_tail := t\<rparr>)"] exI [of _ "of_nat j"] exI [of _ j])
        (auto simp: keyboard_read_raw_def kbd_ok_def kbd_items_def kbd_seen_def load_byte_def unat_of_nat_small j_def
          intro!: nth_equalityI)
  qed
  have "length (kbd_items s) < 256" using ring_items_bound [of "kbd_ring s"] ok(1) by (force simp: kbd_items_def)
  then show "length (kbd_items s) \<le> 255" by simp
qed

interpretation mouse: input_queue 127 8 mouse_ok mouse_items mouse_push_event mouse_read_raw mouse_seen
proof
  fix s :: input and e buf k assume "mouse_ok s"
  then have ok: "length (mouse_ring s) = 128" "unat (mouse_head s) < 128" "unat (mouse_tail s) < 128" "awake_ok s" by (simp_all add: mouse_ok_def)
  have b: "length (mouse_items s) < 128" using ring_items_bound [of "mouse_ring s"] ok(1) by (force simp: mouse_items_def)
  show "\<exists>s'. mouse_push_event e s = Some s' \<and> mouse_ok s' \<and>
      mouse_items s' = (if length (mouse_items s) < 127 then mouse_items s @ [e] else mouse_items s)"
  proof -
    obtain r h where p: "ring_push MOUSE_BUF_SIZE e (mouse_ring s) (mouse_head s) (mouse_tail s) = Some (r, h)" "length r = 128" "unat h < 128"
      "ring_items r (unat h) (unat (mouse_tail s)) = (if length (mouse_items s) < 127 then mouse_items s @ [e] else mouse_items s)"
      using ring_push_ok [of MOUSE_BUF_SIZE "mouse_ring s" "mouse_head s" "mouse_tail s" e] ok by (auto simp: mouse_items_def)
    let ?s = "s\<lparr>mouse_ring := r, mouse_head := h\<rparr>"
    obtain s' where "in_wake ?s = Some (?s\<lparr>in_sched := s'\<rparr>)" "\<exists>qs. ring s' qs" using in_wake_ok [of ?s] ok(4) by (auto simp: awake_ok_def)
    then show ?thesis using p ok by (simp add: mouse_push_event_def mouse_ok_def mouse_items_def awake_ok_def)
  qed
  show "\<exists>s' n j. mouse_read_raw buf k s = Some (n, s') \<and> mouse_ok s' \<and> j = min (unat k div 8) (length (mouse_items s)) \<and>
      unat n = j * 8 \<and> mouse_items s' = drop j (mouse_items s) \<and> mouse_seen s' buf j = take j (mouse_items s)"
  proof -
    define j where "j = min (unat k div 8) (length (mouse_items s))"
    have j: "j \<le> length (mouse_items s)" "j < 128" "j \<le> unat k div 8" using b by (simp_all add: j_def)
    have n: "unat (of_nat j * MOUSE_EVENT_SIZE :: u64) = j * 8"
      using j(2) by (simp add: unat_word_ariths unat_of_nat_small)
    obtain t m where p: "ring_read_loop MOUSE_BUF_SIZE store_event MOUSE_EVENT_SIZE (mouse_ring s) (mouse_head s) buf (k div MOUSE_EVENT_SIZE) 0
        (mouse_tail s) (in_memory s) = Some (of_nat j, t, m)"
      "unat t < 128" "ring_items (mouse_ring s) (unat (mouse_head s)) (unat t) = drop j (mouse_items s)"
      "\<forall>i < j. load_event m (buf + of_nat i * MOUSE_EVENT_SIZE) = mouse_items s ! i"
      using event.ring_read_loop_ok [of MOUSE_BUF_SIZE "mouse_ring s" "mouse_head s" "mouse_tail s" j "k div MOUSE_EVENT_SIZE" 0 buf "in_memory s"] ok
      by (auto simp: mouse_items_def j_def unat_div)
    then have "mouse_seen (set_in_memory m (s\<lparr>mouse_tail := t\<rparr>)) buf j = take j (mouse_items s)"
      using j(1) by (auto simp: mouse_seen_def intro!: nth_equalityI)
    then show ?thesis using p ok n
      by (intro exI [of _ "set_in_memory m (s\<lparr>mouse_tail := t\<rparr>)"] exI [of _ "of_nat j * MOUSE_EVENT_SIZE"] exI [of _ j])
        (simp add: mouse_read_raw_def mouse_ok_def mouse_items_def j_def)
  qed
  show "length (mouse_items s) \<le> 127" using b by simp
qed

subsection \<open>The packets of the mouse\<close>

text \<open>The packet a PS/2 mouse sends for a movement by \<open>dx\<close> to the right and \<open>dy\<close> up, with the buttons \<open>b\<close>.\<close>

definition ps2_bytes :: "nat \<Rightarrow> int \<Rightarrow> int \<Rightarrow> u8 \<Rightarrow> u8 \<Rightarrow> u8 list" where
  "ps2_bytes sz dx dy w b =
     [b OR 8 OR (if dx < 0 then 0x10 else 0) OR (if dy < 0 then 0x20 else 0), word_of_int dx, word_of_int dy] @
     (if sz = 4 then [w] else [])"

lemma ps2_delta:
  assumes "- 256 \<le> dx" and "dx \<le> 255"
  shows "ucast (word_of_int dx :: u8) - (if dx < 0 then 0x100 else 0) = (word_of_int dx :: u16)"
proof -
  have "ucast (word_of_int dx :: u8) = (word_of_int (dx mod 256) :: u16)"
    by (simp add: unsigned_of_int take_bit_eq_mod)
  moreover have "dx mod 256 = (if dx < 0 then dx + 256 else dx)"
  proof (cases "dx < 0")
    case True
    then have "dx mod 256 = (dx + 256) mod 256" by simp
    also have "\<dots> = dx + 256" using assms True by (intro mod_pos_pos_trivial) simp_all
    finally show ?thesis using True by simp
  qed (use assms in simp)
  ultimately show ?thesis by simp
qed

lemma sint_delta:
  assumes "- 256 \<le> dx" and "dx \<le> 256"
  shows "sint (word_of_int dx :: u16) = dx"
  using assms by (simp add: sint_sbintrunc' signed_take_bit_int_eq_self)

lemma ps2_flags:
  assumes "b < 8"
  shows "(b OR 8 OR (if n then 0x10 else 0) OR (if m then 0x20 else 0)) AND 0x08 \<noteq> (0 :: u8)"
    "((b OR 8 OR (if n then 0x10 else 0) OR (if m then 0x20 else 0)) AND 0x10 \<noteq> 0) = n"
    "((b OR 8 OR (if n then 0x10 else 0) OR (if m then 0x20 else 0)) AND 0x20 \<noteq> 0) = m"
    "(b OR 8 OR (if n then 0x10 else 0) OR (if m then 0x20 else 0)) AND 0xC0 = 0"
    "(b OR 8 OR (if n then 0x10 else 0) OR (if m then 0x20 else 0)) AND 0x07 = b"
proof -
  have "unat b \<in> {0, 1, 2, 3, 4, 5, 6, 7}" using assms by (auto simp: word_less_nat_alt)
  then have "b \<in> {0, 1, 2, 3, 4, 5, 6, 7}" by (auto simp: word_unat_eq_iff)
  then show "(b OR 8 OR (if n then 0x10 else 0) OR (if m then 0x20 else 0)) AND 0x08 \<noteq> (0 :: u8)"
    "((b OR 8 OR (if n then 0x10 else 0) OR (if m then 0x20 else 0)) AND 0x10 \<noteq> 0) = n"
    "((b OR 8 OR (if n then 0x10 else 0) OR (if m then 0x20 else 0)) AND 0x20 \<noteq> 0) = m"
    "(b OR 8 OR (if n then 0x10 else 0) OR (if m then 0x20 else 0)) AND 0xC0 = 0"
    "(b OR 8 OR (if n then 0x10 else 0) OR (if m then 0x20 else 0)) AND 0x07 = b"
    by auto
qed

lemma mouse_push_packet: "mouse_push_event ev s = Some s' \<Longrightarrow> ps2_packet_len s' = ps2_packet_len s"
  by (auto simp: mouse_push_event_def in_wake_def bind_eq_Some_conv)

lemma put_all_Nil: "put_all f [] = Some"
  by (rule ext) simp

lemma ps2_feed_packet:
  assumes "ps2_mouse_ready s" "ps2_packet_len s = 0" "ps2_packet s = [p0, p1, p2, p3]" "ps2_packet_size s = sz" "sz = 3 \<or> sz = 4"
    and "f AND 0x08 \<noteq> 0" "f AND 0xC0 = 0"
  shows "put_all ps2_mouse_feed ([f, x, y] @ (if sz = 4 then [w] else [])) s =
    (let p = [f, x, y, if sz = 4 then w else p3] in mouse_push_event (ps2_event sz p) (s\<lparr>ps2_packet := p, ps2_packet_len := 0\<rparr>))"
proof (cases "sz = 4")
  case True
  then show ?thesis using assms
    by (simp add: ps2_mouse_feed_def ps2_mouse_handle_byte_def arr_set_def Let_def put_all_Nil)
next
  case False
  then show ?thesis using assms
    by (simp add: ps2_mouse_feed_def ps2_mouse_handle_byte_def arr_set_def Let_def put_all_Nil)
qed

text \<open>
  Property C23: the scancodes that interrupts put into the keyboard's ring come out of \<^verbatim>\<open>keyboard_read_raw\<close> in the
  order they went in, each once. What does not fit into the 255 places is dropped, and never overwrites
  what waits there; what the reader has no room for stays for the next read.
\<close>

theorem keyboard_in_order:
  assumes "kbd_ok s"
  shows "\<exists>s1 s2 n. put_all keyboard_push_scancode es s = Some s1 \<and> keyboard_read_raw buf k s1 = Some (n, s2) \<and> kbd_ok s2 \<and>
    kbd_seen s2 buf (unat n) = take (unat k) (take 255 (kbd_items s @ es)) \<and>
    kbd_items s2 = drop (unat k) (take 255 (kbd_items s @ es))"
  using keyboard.put_then_get [OF assms, of es buf k] by auto

definition input_example :: input where
  "input_example = \<lparr>kbd_ring = replicate 256 0, kbd_head = 254, kbd_tail = 254, mouse_ring = replicate 128 (ps2_event 3 [0, 0, 0, 0]),
     mouse_head = 0, mouse_tail = 0, ps2_packet = [0, 0, 0, 0], ps2_packet_len = 0, ps2_packet_size = 4, ps2_mouse_ready = True,
     in_sched = ring_example, ports = (\<lambda>_ _. 0), port_reads = 0, port_writes = [], irq_handlers = [], ioapic_writes = []\<rparr>"

lemma input_example_ok: "kbd_ok input_example" "mouse_ok input_example" "kbd_items input_example = []" "mouse_items input_example = []"
proof -
  have "ring ring_example [1, 2]" using ring_example_inv by (simp add: sched_inv_def cpu_inv_def)
  then show "kbd_ok input_example" "mouse_ok input_example" by (auto simp: kbd_ok_def mouse_ok_def awake_ok_def input_example_def)
  show "kbd_items input_example = []" "mouse_items input_example = []"
    by (simp_all add: kbd_items_def mouse_items_def ring_items_def input_example_def)
qed

theorem keyboard_in_order_witness:
  "\<exists>s1 s2. put_all keyboard_push_scancode [1, 2, 3] input_example = Some s1 \<and>
     (\<exists>n. keyboard_read_raw 0x1000 2 s1 = Some (n, s2) \<and> kbd_seen s2 0x1000 (unat n) = [1, 2]) \<and> kbd_items s2 = [3]"
  using keyboard_in_order [OF input_example_ok(1), of "[1, 2, 3]" "0x1000" 2] input_example_ok(3) by simp blast

text \<open>
  Property C24: the bytes of one packet of a PS/2 mouse, fed to the driver at the start of a packet, add one event to the
  mouse's ring, with the signed movement the mouse encoded (the screen counts downwards, so \<open>dy\<close> changes its
  sign) and its buttons, and leave the driver at the start of the next packet; the ring drops the event only
  when all its 127 places are taken.
\<close>

theorem ps2_packet_event:
  assumes "mouse_ok s" and "ps2_mouse_ready s" and "ps2_packet_len s = 0" and "length (ps2_packet s) = 4"
    and "ps2_packet_size s = 3 \<or> ps2_packet_size s = 4"
    and "- 256 \<le> dx" and "dx \<le> 255" and "- 256 \<le> dy" and "dy \<le> 255" and "b < 8"
  shows "\<exists>s' ev. put_all ps2_mouse_feed (ps2_bytes (ps2_packet_size s) dx dy w b) s = Some s' \<and> mouse_ok s' \<and> ps2_packet_len s' = 0 \<and>
    sint (ev_dx ev) = dx \<and> sint (ev_dy ev) = - dy \<and> ev_buttons ev = b \<and>
    ev_wheel ev = (if ps2_packet_size s = 4 then - w else 0) \<and>
    mouse_items s' = (if length (mouse_items s) < 127 then mouse_items s @ [ev] else mouse_items s)"
proof -
  obtain p0 p1 p2 p3 where p: "ps2_packet s = [p0, p1, p2, p3]" using assms(4) by (auto simp: numeral_eq_Suc length_Suc_conv)
  define f where "f = b OR 8 OR (if dx < 0 then 0x10 else 0) OR (if dy < 0 then 0x20 else 0)"
  note fl = ps2_flags [OF assms(10), of "dx < 0" "dy < 0", folded f_def]
  let ?p = "[f, word_of_int dx, word_of_int dy, if ps2_packet_size s = 4 then w else p3]"
  let ?s = "s\<lparr>ps2_packet := ?p, ps2_packet_len := 0\<rparr>" and ?ev = "ps2_event (ps2_packet_size s) ?p"
  have feed: "put_all ps2_mouse_feed (ps2_bytes (ps2_packet_size s) dx dy w b) s = mouse_push_event ?ev ?s"
    using ps2_feed_packet [OF assms(2,3) p refl assms(5) fl(1,4), of "word_of_int dx" "word_of_int dy" w]
    by (simp add: ps2_bytes_def f_def Let_def)
  have "mouse_ok ?s" "mouse_items ?s = mouse_items s" using assms(1) by (simp_all add: mouse_ok_def mouse_items_def awake_ok_def)
  then obtain s' where s': "mouse_push_event ?ev ?s = Some s'" "mouse_ok s'"
    "mouse_items s' = (if length (mouse_items s) < 127 then mouse_items s @ [?ev] else mouse_items s)"
    using mouse.put_ok [of ?s ?ev] by auto
  have "- (ucast (word_of_int dy :: u8) - (if dy < 0 then 0x100 else 0)) = (word_of_int (- dy) :: u16)"
    using ps2_delta [OF assms(8,9)] by simp
  then have "sint (ev_dx ?ev) = dx" "sint (ev_dy ?ev) = - dy" "ev_buttons ?ev = b" "ev_wheel ?ev = (if ps2_packet_size s = 4 then - w else 0)"
    using fl ps2_delta [OF assms(6,7)] sint_delta [of dx] sint_delta [of "- dy"] assms(6-9)
    by (simp_all add: ps2_event_def Let_def)
  moreover have "ps2_packet_len s' = 0" using mouse_push_packet [OF s'(1)] by simp
  ultimately show ?thesis using feed s' by (intro exI [of _ s'] exI [of _ ?ev]) (simp only: simp_thms)
qed

theorem ps2_packet_event_witness:
  "\<exists>s' ev. put_all ps2_mouse_feed [0x19, 0xFB, 3, 2] input_example = Some s' \<and> sint (ev_dx ev) = - 5 \<and> sint (ev_dy ev) = - 3 \<and>
     ev_buttons ev = 1 \<and> ev_wheel ev = - 2 \<and> mouse_items s' = [ev]"
proof -
  have e: "ps2_mouse_ready input_example" "ps2_packet_len input_example = 0" "length (ps2_packet input_example) = 4"
    "ps2_packet_size input_example = 4" by (simp_all add: input_example_def)
  have "ps2_bytes 4 (- 5) 3 2 1 = [0x19, 0xFB, 3, 2]" by (simp add: ps2_bytes_def)
  with ps2_packet_event [OF input_example_ok(2) e(1-3), of "- 5" 3 1 2] input_example_ok(4) e(4) show ?thesis by simp blast
qed

end
