(* ===== verification/KPrintf.thy ===== *)
theory KPrintf
  imports Prelude
begin

text \<open>
  Formatted output on the console, \<^verbatim>\<open>kernel/libk/kprintf.c\<close>. A text is the list of its bytes before the
  terminating zero; the functions that print return the bytes they hand to the terminal. The variable
  arguments of \<^verbatim>\<open>kprintf\<close> are a list of strings and of 64-bit values; a format that asks for an argument of
  another kind, or for one more than there are, has no defined behaviour.
\<close>

type_synonym text_bytes = "u8 list"

datatype karg = ArgString "text_bytes option" | ArgWord u64

definition INT_MAX :: int where "INT_MAX = 2147483647"

function reverse_loop :: "int \<Rightarrow> int \<Rightarrow> 'a list \<Rightarrow> 'a list" where
  "reverse_loop i j str =
     (if i < j then reverse_loop (i + 1) (j - 1) (str[nat i := str ! nat j, nat j := str ! nat i]) else str)"
  by pat_completeness auto
termination by (relation "measure (\<lambda>(i, j, _). nat (j - i))") auto

declare reverse_loop.simps [simp del]

definition reverse :: "'a list \<Rightarrow> 'a list" where
  "reverse str = reverse_loop 0 (int (length str) - 1) str"

definition itoa_digit :: "u64 \<Rightarrow> u8" where
  "itoa_digit d = (if d < 10 then 0x30 + ucast d else 0x61 + (ucast d - 10))"

text \<open>The digits of a positive number, the last one first.\<close>

partial_function (option) itoa_loop :: "u64 \<Rightarrow> u64 \<Rightarrow> text_bytes \<Rightarrow> text_bytes ret" where
  [code]: "itoa_loop bs tmp buf =
     (if bs = 0 then None
      else if tmp > 0 then itoa_loop bs (tmp div bs) (buf @ [itoa_digit (tmp mod bs)])
      else Some buf)"

definition itoa :: "u64 \<Rightarrow> u64 \<Rightarrow> bool \<Rightarrow> text_bytes ret" where
  "itoa v bs is_signed =
     (let neg = (is_signed \<and> sint v < 0); v' = (if neg then - v else v); sign = (if neg then [0x2D] else [])
      in if v' = 0 then Some (sign @ reverse [0x30])
         else do { ds \<leftarrow> itoa_loop bs v' []; Some (sign @ reverse ds) })"

definition kprint_padded :: "text_bytes \<Rightarrow> int \<Rightarrow> bool \<Rightarrow> text_bytes" where
  "kprint_padded str width zero_pad =
     (let (sign, rest) = (if zero_pad \<and> str \<noteq> [] \<and> hd str = 0x2D then ([0x2D], tl str) else ([], str));
          pad = width - int (length sign + length rest)
      in sign @ replicate (nat pad) (if zero_pad then 0x30 else 0x20) @ rest)"

fun parse_width :: "text_bytes \<Rightarrow> int \<Rightarrow> (int \<times> text_bytes) ret" where
  "parse_width [] w = Some (w, [])"
| "parse_width (c # cs) w =
     (if 0x30 \<le> c \<and> c \<le> 0x39
      then let w' = w * 10 + (uint c - 0x30) in if w' > INT_MAX then None else parse_width cs w'
      else Some (w, c # cs))"

fun skip_long :: "text_bytes \<Rightarrow> nat \<Rightarrow> nat \<times> text_bytes" where
  "skip_long [] n = (n, [])"
| "skip_long (c # cs) n = (if c = 0x6C then skip_long cs (n + 1) else (n, c # cs))"

definition va_word :: "karg list \<Rightarrow> (u64 \<times> karg list) ret" where
  "va_word args = (case args of ArgWord w # as \<Rightarrow> Some (w, as) | _ \<Rightarrow> None)"

definition va_string :: "karg list \<Rightarrow> (text_bytes option \<times> karg list) ret" where
  "va_string args = (case args of ArgString s # as \<Rightarrow> Some (s, as) | _ \<Rightarrow> None)"

text \<open>An argument of type \<^verbatim>\<open>int\<close> or \<^verbatim>\<open>unsigned int\<close> is the low half of its slot.\<close>

definition va_signed :: "nat \<Rightarrow> u64 \<Rightarrow> u64" where
  "va_signed long_count w = (if long_count \<ge> 1 then w else scast (ucast w :: u32))"

definition va_unsigned :: "nat \<Rightarrow> u64 \<Rightarrow> u64" where
  "va_unsigned long_count w = (if long_count \<ge> 1 then w else ucast (ucast w :: u32))"

definition print_number :: "u64 \<Rightarrow> u64 \<Rightarrow> bool \<Rightarrow> int \<Rightarrow> bool \<Rightarrow> text_bytes ret" where
  "print_number v bs is_signed width zero_pad = do { b \<leftarrow> itoa v bs is_signed; Some (kprint_padded b width zero_pad) }"

text \<open>One conversion, with the character \<open>c\<close> after the flags; the output and the arguments that are left.\<close>

definition kprintf_conv :: "u8 \<Rightarrow> bool \<Rightarrow> int \<Rightarrow> nat \<Rightarrow> karg list \<Rightarrow> (text_bytes \<times> karg list) ret" where
  "kprintf_conv c zero_pad width long_count args =
     (if c = 0x73
      then do { (s, as) \<leftarrow> va_string args;
                let str = (case s of None \<Rightarrow> [0x28, 0x6E, 0x75, 0x6C, 0x6C, 0x29] | Some t \<Rightarrow> t)
                in Some (if width > 0 then kprint_padded str width False else str, as) }
      else if c = 0x63 then do { (w, as) \<leftarrow> va_word args; Some ([ucast w], as) }
      else if c = 0x64 \<or> c = 0x69
      then do { (w, as) \<leftarrow> va_word args; out \<leftarrow> print_number (va_signed long_count w) 10 True width zero_pad; Some (out, as) }
      else if c = 0x75
      then do { (w, as) \<leftarrow> va_word args; out \<leftarrow> print_number (va_unsigned long_count w) 10 False width zero_pad; Some (out, as) }
      else if c = 0x78
      then do { (w, as) \<leftarrow> va_word args; out \<leftarrow> print_number (va_unsigned long_count w) 16 False width zero_pad; Some (out, as) }
      else if c = 0x70
      then do { (w, as) \<leftarrow> va_word args; out \<leftarrow> print_number w 16 False width True; Some ([0x30, 0x78] @ out, as) }
      else if c = 0x25 then Some ([0x25], args)
      else Some ([0x25, c], args))"

partial_function (option) kprintf :: "text_bytes \<Rightarrow> karg list \<Rightarrow> text_bytes ret" where
  [code]: "kprintf fmt args =
     (case fmt of
        [] \<Rightarrow> Some []
      | f # fs \<Rightarrow>
          if f = 0x25
          then let zero_pad = (fs \<noteq> [] \<and> hd fs = 0x30); fs1 = (if zero_pad then tl fs else fs)
               in do { (width, fs2) \<leftarrow> parse_width fs1 0;
                       let (long_count, fs3) = skip_long fs2 0
                       in if fs3 = [] then Some []
                          else do { (out, as) \<leftarrow> kprintf_conv (hd fs3) zero_pad width long_count args;
                                    rest \<leftarrow> kprintf (tl fs3) as;
                                    Some (out @ rest) } }
          else do { rest \<leftarrow> kprintf fs args; Some (f # rest) })"

subsection \<open>Reversing in place\<close>

lemma reverse_loop_middle:
  "reverse_loop (int (length pre)) (int (length pre + length mid) - 1) (pre @ mid @ post) = pre @ rev mid @ post"
proof (induction "length mid" arbitrary: pre mid post rule: less_induct)
  case less
  show ?case
  proof (cases "length mid < 2")
    case True
    then have "rev mid = mid" by (cases mid) (auto simp: less_Suc_eq numeral_2_eq_2)
    then show ?thesis using True by (subst reverse_loop.simps) simp
  next
    case False
    then obtain a m' where "mid = a # m'" "m' \<noteq> []" by (cases mid) auto
    then obtain m b where mid: "mid = a # m @ [b]" by (cases m' rule: rev_cases) auto
    have "reverse_loop (int (length (pre @ [b]))) (int (length (pre @ [b]) + length m) - 1) ((pre @ [b]) @ m @ (a # post)) =
        (pre @ [b]) @ rev m @ (a # post)"
      by (rule less) (simp add: mid)
    then show ?thesis unfolding mid
      by (subst reverse_loop.simps) (simp add: nth_append list_update_append nat_add_distrib algebra_simps)
  qed
qed

lemma reverse_rev [simp]: "reverse str = rev str"
  using reverse_loop_middle [of "[]" str "[]"] by (simp add: reverse_def)

subsection \<open>The digits\<close>

text \<open>The number that a text of digits stands for, with a sign in front.\<close>

definition digit_value :: "u8 \<Rightarrow> nat" where
  "digit_value c = (if c < 0x61 then unat c - 0x30 else unat c - 0x61 + 10)"

definition digits_value :: "nat \<Rightarrow> text_bytes \<Rightarrow> nat" where
  "digits_value bs ds = foldl (\<lambda>v c. v * bs + digit_value c) 0 ds"

definition text_value :: "nat \<Rightarrow> text_bytes \<Rightarrow> int" where
  "text_value bs t = (if t \<noteq> [] \<and> hd t = 0x2D then - int (digits_value bs (tl t)) else int (digits_value bs t))"

lemma digit_value_digit:
  assumes "d < 16"
  shows "digit_value (itoa_digit d) = unat d" "itoa_digit d \<noteq> 0x2D"
proof -
  have "unat d \<in> set [0..<16]" using assms by (simp add: word_less_nat_alt)
  moreover have "[0..<16] = [0, 1, 2, 3, 4, 5, 6, 7, 8, 9, 10, 11, 12, 13, 14, 15]" by (simp add: upt_conv_Cons)
  ultimately have "unat d \<in> {0, 1, 2, 3, 4, 5, 6, 7, 8, 9, 10, 11, 12, 13, 14, 15}" by (simp only: list.set)
  then have "d \<in> {0, 1, 2, 3, 4, 5, 6, 7, 8, 9, 10, 11, 12, 13, 14, 15}" by (auto simp: word_unat_eq_iff)
  then show "digit_value (itoa_digit d) = unat d" "itoa_digit d \<noteq> 0x2D"
    by (auto simp: itoa_digit_def digit_value_def)
qed

lemma digits_value_snoc: "digits_value bs (ds @ [c]) = digits_value bs ds * bs + digit_value c"
  by (simp add: digits_value_def)

lemma itoa_loop_digits:
  assumes "2 \<le> unat bs" and "unat bs \<le> 16"
  shows "\<exists>ds. itoa_loop bs v buf = Some (buf @ ds) \<and> digits_value (unat bs) (rev ds) = unat v \<and>
    (\<forall>c \<in> set ds. c \<noteq> 0x2D) \<and> (\<forall>n. unat v < unat bs ^ n \<longrightarrow> length ds \<le> n)"
proof (induction "unat v" arbitrary: v buf rule: less_induct)
  case less
  have bs: "bs \<noteq> 0" using assms(1) by auto
  show ?case
  proof (cases "v = 0")
    case True
    then show ?thesis using bs by (subst itoa_loop.simps) (auto simp: digits_value_def)
  next
    case False
    then have pos: "0 < unat v" by (simp add: unat_gt_0)
    have d: "unat (v div bs) = unat v div unat bs" "unat (v mod bs) = unat v mod unat bs" by (simp_all add: unat_div unat_mod)
    have "unat (v div bs) < unat v" using pos assms(1) by (simp add: d)
    from less [OF this, of "buf @ [itoa_digit (v mod bs)]"] obtain ds where ds:
      "itoa_loop bs (v div bs) (buf @ [itoa_digit (v mod bs)]) = Some (buf @ itoa_digit (v mod bs) # ds)"
      "digits_value (unat bs) (rev ds) = unat v div unat bs" "\<forall>c \<in> set ds. c \<noteq> 0x2D"
      "\<And>n. unat v div unat bs < unat bs ^ n \<Longrightarrow> length ds \<le> n" by (auto simp: d)
    have m: "v mod bs < 16" using assms d(2) by (simp add: word_less_nat_alt order_less_le_trans [OF mod_less_divisor])
    have "length (itoa_digit (v mod bs) # ds) \<le> n" if n: "unat v < unat bs ^ n" for n
    proof (cases n)
      case 0
      then show ?thesis using n pos by simp
    next
      case (Suc k)
      then have "unat v div unat bs < unat bs ^ k" using n by (simp add: less_mult_imp_div_less mult.commute)
      then show ?thesis using ds(4) Suc by simp
    qed
    then show ?thesis using bs pos ds m digit_value_digit [OF m] d
      by (subst itoa_loop.simps) (auto simp: digits_value_snoc word_gt_0)
  qed
qed

lemma sint_negative:
  assumes "sint (v :: u64) < 0"
  shows "sint v = - int (unat (- v))" "- v \<noteq> 0"
proof -
  have big: "2 ^ 63 \<le> unat v" using assms by (simp add: sint_neg_64)
  then have ne: "v \<noteq> 0" by auto
  have u: "unat (- v) = 2 ^ 64 - unat v" using ne unat_sub_if_size [of 0 v] unat_gt_0 [of v] by (simp add: size_word.rep_eq)
  have "sint v = signed_take_bit 63 (uint v)" by (simp add: sint_uint)
  also have "\<dots> = int (unat v) - 2 ^ 64"
  proof -
    have "bit (uint v) 63" using assms sint_neg_64 [of v] big by (simp add: bit_last_iff [symmetric] bit_uint_iff)
    then show ?thesis using uint_bounded [of v] by (simp add: signed_take_bit_eq_take_bit_minus take_bit_int_eq_self)
  qed
  finally show "sint v = - int (unat (- v))" using u unat_lt_64 [of v] by simp
  show "- v \<noteq> 0" using ne by simp
qed

text \<open>
  Property C39: \<^verbatim>\<open>itoa\<close> returns for every value, in base 10 and in base 16, and the text it makes stands for that value:
  the signed number when it prints signed, the unsigned number otherwise. The text has at most 20 characters,
  so that with its terminating zero it fits the buffer of 32 bytes in \<^verbatim>\<open>kprintf\<close>.
\<close>

theorem itoa_value:
  assumes "bs = 10 \<or> bs = 16"
  shows "\<exists>t. itoa v bs is_signed = Some t \<and> text_value (unat bs) t = (if is_signed then sint v else uint v) \<and> t \<noteq> [] \<and> length t \<le> 20"
proof -
  define neg where "neg = (is_signed \<and> sint v < 0)"
  define w where "w = (if neg then - v else v)"
  have bs: "2 \<le> unat bs" "unat bs \<le> 16" using assms by auto
  obtain ds where ds: "itoa_loop bs w [] = Some ds" "digits_value (unat bs) (rev ds) = unat w" "\<forall>c \<in> set ds. c \<noteq> 0x2D"
    "\<And>n. unat w < unat bs ^ n \<Longrightarrow> length ds \<le> n"
    using itoa_loop_digits [OF bs, of w "[]"] by auto
  let ?t = "(if neg then [0x2D] else []) @ (if w = 0 then [0x30] else rev ds)"
  have it: "itoa v bs is_signed = Some ?t" using ds(1) by (simp add: itoa_def Let_def neg_def [symmetric] w_def [symmetric])
  have val: "digits_value (unat bs) (if w = 0 then [0x30] else rev ds) = unat w" using ds(2) by (simp add: digits_value_def digit_value_def)
  have hd: "hd (if w = 0 then [0x30] else rev ds) \<noteq> 0x2D" if "(if w = 0 then [0x30] else rev ds) \<noteq> []"
    using that ds(3) by (auto simp: hd_rev)
  have nonneg: "sint v = uint v" if "is_signed" "\<not> neg"
    using that sint_neg_64 [of v] sint_small [of v] unfolding neg_def by (simp add: not_le)
  have tv: "text_value (unat bs) ?t = (if is_signed then sint v else uint v)"
  proof (cases neg)
    case True
    then show ?thesis using val sint_negative(1) [of v] by (simp add: text_value_def neg_def w_def)
  next
    case False
    then have "text_value (unat bs) ?t = uint w" using val hd unfolding text_value_def by (auto split: if_splits)
    then show ?thesis using False nonneg by (simp add: w_def)
  qed
  have "length ?t \<le> 20"
  proof -
    have p: "unat bs ^ 19 \<ge> 10 ^ 19" using assms by auto
    have g: "- 9223372036854775808 \<le> sint v" using sint_greater_eq [of v] by simp
    have "unat w < 10 ^ 19" if neg
    proof -
      have "sint v = - int (unat w)" using that sint_negative(1) [of v] unfolding w_def neg_def by simp
      then have "unat w \<le> 9223372036854775808" using g by linarith
      then show ?thesis by simp
    qed
    then have "length ds \<le> 19" if neg using that p by (intro ds(4)) simp
    moreover have "length ds \<le> 20" using unat_lt_64 [of w] p assms by (intro ds(4)) auto
    ultimately show ?thesis by auto
  qed
  moreover have "?t \<noteq> []" using ds(2) unat_gt_0 [of w] by (auto simp: digits_value_def)
  ultimately show ?thesis using it tv by blast
qed

theorem itoa_value_witness:
  "(\<exists>t. itoa (- 255) 10 True = Some t \<and> text_value 10 t = - 255) \<and> itoa 255 16 False = Some [0x66, 0x66]"
proof -
  have "sint (- 255 :: u64) = - 255" by simp
  moreover have "itoa 255 16 False = Some [0x66, 0x66]" by code_simp
  ultimately show ?thesis using itoa_value [of 10 "- 255" True] by auto
qed

end
