(* ===== verification/Net.thy ===== *)
theory Net
  imports Task KPrintf
begin

text \<open>
  The sending half of the internet protocols, \<^verbatim>\<open>kernel/net/net.c\<close> down to the network card of
  \<^verbatim>\<open>kernel/drivers/net/nic.c\<close>: byte order, checksum, Ethernet, ARP, IPv4, UDP and the queue of packets a
  machine sends to itself. A packet is a list of bytes; the list a function is given is the object its pointer
  points into, from the pointer on, so that a copy that runs past it has no defined behaviour. The frames handed
  to the driver of the card are recorded in order in \<open>nic_tx\<close>; the drivers are not modelled. The only function
  that is ever given to the driver as its receiver is \<^verbatim>\<open>net_handle_frame\<close>, and the only one that listens for UDP
  packets inside the kernel is \<^verbatim>\<open>dhcp_handle_reply\<close>, so that both pointers are modelled by whether they are set.
\<close>

type_synonym bytes = "u8 list"

datatype ipv4 = ipv4_from_bytes u8 u8 u8 u8

record arp_entry =
  ae_valid :: bool
  ae_ip :: ipv4
  ae_mac :: bytes

record loopback_packet =
  lp_addr :: ipv4
  lp_protocol :: u8
  lp_len :: u16
  lp_data :: bytes

record net =
  arp_cache :: "arp_entry list"
  arp_next_slot :: nat
  our_mac :: bytes
  our_ip :: ipv4
  gateway_ip :: ipv4
  netmask :: ipv4
  dns_ip :: ipv4
  net_up :: bool
  next_id :: u16
  loopback_queue :: "loopback_packet list"
  loopback_head :: nat
  loopback_count :: nat
  udp_listen_port :: u16
  udp_listen_cb :: bool
  ping_reply_received :: bool
  ping_expected_id :: u16
  ping_expected_seq :: u16
  ping_seq :: u16
  dhcp_got_offer :: bool
  dhcp_got_ack :: bool
  dhcp_got_nak :: bool
  dhcp_xid :: u32
  dhcp_offered_ip :: ipv4
  dhcp_server_id :: ipv4
  dhcp_offered_mask :: ipv4
  dhcp_offered_gw :: ipv4
  dhcp_offered_dns :: ipv4
  rx_callback :: bool
  nic_active :: bool
  nic_driver_mac :: bytes
  nic_tx :: "bytes list"
  nt_sched :: sched

definition ETHERTYPE_ARP :: u16 where "ETHERTYPE_ARP = 0x0806"
definition ETHERTYPE_IPV4 :: u16 where "ETHERTYPE_IPV4 = 0x0800"
definition ARP_HTYPE_ETHERNET :: u16 where "ARP_HTYPE_ETHERNET = 1"
definition ARP_OPER_REQUEST :: u16 where "ARP_OPER_REQUEST = 1"
definition ARP_OPER_REPLY :: u16 where "ARP_OPER_REPLY = 2"
definition ARP_CACHE_SIZE :: nat where "ARP_CACHE_SIZE = 8"
definition IPV4_PROTO_ICMP :: u8 where "IPV4_PROTO_ICMP = 1"
definition IPV4_PROTO_TCP :: u8 where "IPV4_PROTO_TCP = 6"
definition IPV4_PROTO_UDP :: u8 where "IPV4_PROTO_UDP = 17"
definition ETH_HEADER :: u16 where "ETH_HEADER = 14"
definition ARP_PACKET :: u16 where "ARP_PACKET = 28"
definition IPV4_HEADER :: u16 where "IPV4_HEADER = 20"
definition UDP_HEADER :: u16 where "UDP_HEADER = 8"
definition LOOPBACK_QUEUE :: nat where "LOOPBACK_QUEUE = 64"
definition LOOPBACK_DATA :: nat where "LOOPBACK_DATA = 1500"
definition BROADCAST_MAC :: bytes where "BROADCAST_MAC = replicate 6 0xFF"

subsection \<open>Byte order and copies\<close>

definition net_htons :: "u16 \<Rightarrow> u16" where
  "net_htons v = push_bit 8 v OR drop_bit 8 v"

definition net_htonl :: "u32 \<Rightarrow> u32" where
  "net_htonl v = push_bit 24 (v AND 0x000000FF) OR push_bit 8 (v AND 0x0000FF00) OR drop_bit 8 (v AND 0x00FF0000) OR
     drop_bit 24 (v AND 0xFF000000)"

text \<open>A field of a packed structure in memory, least significant byte first, and reading it back.\<close>

definition le16 :: "u16 \<Rightarrow> bytes" where
  "le16 v = [ucast v, ucast (drop_bit 8 v)]"

definition le32 :: "u32 \<Rightarrow> bytes" where
  "le32 v = [ucast v, ucast (drop_bit 8 v), ucast (drop_bit 16 v), ucast (drop_bit 24 v)]"

definition rd16 :: "bytes \<Rightarrow> nat \<Rightarrow> u16" where
  "rd16 p i = ucast (p ! i) OR push_bit 8 (ucast (p ! (i + 1)))"

definition rd32 :: "bytes \<Rightarrow> nat \<Rightarrow> u32" where
  "rd32 p i = ucast (p ! i) OR push_bit 8 (ucast (p ! (i + 1))) OR push_bit 16 (ucast (p ! (i + 2))) OR push_bit 24 (ucast (p ! (i + 3)))"

definition ipv4_bytes :: "ipv4 \<Rightarrow> bytes" where
  "ipv4_bytes ip = (case ip of ipv4_from_bytes a b c d \<Rightarrow> [a, b, c, d])"

definition rd_ip :: "bytes \<Rightarrow> nat \<Rightarrow> ipv4" where
  "rd_ip p i = ipv4_from_bytes (p ! i) (p ! (i + 1)) (p ! (i + 2)) (p ! (i + 3))"

text \<open>The first \<open>n\<close> bytes of an object, for a copy of \<open>n\<close> bytes into a buffer with room for \<open>room\<close>.\<close>

definition copy_bytes :: "nat \<Rightarrow> u64 \<Rightarrow> bytes \<Rightarrow> bytes ret" where
  "copy_bytes room n src = (if unat n \<le> room \<and> unat n \<le> length src then Some (take (unat n) src) else None)"

subsection \<open>The checksum\<close>

fun sum_bytes :: "bytes \<Rightarrow> u32 \<Rightarrow> u32" where
  "sum_bytes [] s = s"
| "sum_bytes [a] s = s + push_bit 8 (ucast a)"
| "sum_bytes (a # b # bs) s = sum_bytes bs (s + (push_bit 8 (ucast a) OR ucast b))"

lemma fold_step_unat: "unat ((s AND 0xFFFF) + drop_bit 16 s) = unat s mod 65536 + unat s div 65536" for s :: u32
proof -
  have m: "s AND 0xFFFF = take_bit 16 s" by (simp add: take_bit_eq_mask mask_eq_exp_minus_1)
  then have a: "unat (s AND 0xFFFF) = unat s mod 65536" by (simp add: take_bit_eq_mod unat_mod)
  have b: "unat (drop_bit 16 s) = unat s div 65536" by (simp add: drop_bit_eq_div unat_div)
  have "unat s < 2 ^ 32" using unsigned_less [of s] by simp
  then have "unat s div 65536 < 65536" by (simp add: less_mult_imp_div_less)
  then show ?thesis using mod_less_divisor [of 65536 "unat s"] by (subst unat_add_nowrap) (simp_all add: a b)
qed

lemma fold_step_less: "drop_bit 16 s \<noteq> 0 \<Longrightarrow> unat ((s AND 0xFFFF) + drop_bit 16 s) < unat s" for s :: u32
proof -
  assume "drop_bit 16 s \<noteq> 0"
  then have "0 < unat (drop_bit 16 s)" by (simp add: unat_gt_0)
  then have "0 < unat s div 65536" by (simp add: drop_bit_eq_div unat_div)
  moreover have "unat s = unat s div 65536 * 65536 + unat s mod 65536" by (simp add: div_mult_mod_eq)
  ultimately show ?thesis unfolding fold_step_unat by linarith
qed

function sum_fold :: "u32 \<Rightarrow> u32" where
  "sum_fold s = (if drop_bit 16 s \<noteq> 0 then sum_fold ((s AND 0xFFFF) + drop_bit 16 s) else s)"
  by pat_completeness auto
termination by (relation "measure unat") (simp_all add: fold_step_less)

declare sum_fold.simps [simp del]

definition ip_checksum :: "bytes \<Rightarrow> u16" where
  "ip_checksum p = NOT (ucast (sum_fold (sum_bytes p 0)))"

subsection \<open>Addresses\<close>

definition ipv4_print :: "ipv4 \<Rightarrow> text_bytes ret" where
  "ipv4_print ip =
     kprintf [0x25, 0x64, 0x2E, 0x25, 0x64, 0x2E, 0x25, 0x64, 0x2E, 0x25, 0x64] (map (\<lambda>b. ArgWord (ucast b)) (ipv4_bytes ip))"

definition ipv4_equal :: "ipv4 \<Rightarrow> ipv4 \<Rightarrow> bool" where
  "ipv4_equal a b \<longleftrightarrow> a = b"

definition ipv4_same_subnet :: "ipv4 \<Rightarrow> ipv4 \<Rightarrow> ipv4 \<Rightarrow> bool" where
  "ipv4_same_subnet a b nm \<longleftrightarrow> (\<forall>i \<in> set [0..<4]. ipv4_bytes a ! i AND ipv4_bytes nm ! i = ipv4_bytes b ! i AND ipv4_bytes nm ! i)"

subsection \<open>Ethernet and ARP\<close>

text \<open>The drivers of \<^verbatim>\<open>nic_drivers\<close> are given by their functions; the first whose \<^verbatim>\<open>init\<close> finds its card is used.\<close>

fun nic_init :: "('a net_scheme \<Rightarrow> (bool \<times> 'a net_scheme) ret) list \<Rightarrow> 'a net_scheme \<Rightarrow> (int \<times> 'a net_scheme) ret" where
  "nic_init [] s = Some (0, s)"
| "nic_init (init # ds) s = do { (found, s1) \<leftarrow> init s; if found then Some (1, s1\<lparr>nic_active := True\<rparr>) else nic_init ds s1 }"

definition nic_poll :: "('a net_scheme \<Rightarrow> 'a net_scheme ret) \<Rightarrow> 'a net_scheme \<Rightarrow> 'a net_scheme ret" where
  "nic_poll poll s = (if nic_active s then poll s else Some s)"

definition nic_send :: "bytes \<Rightarrow> 'a net_scheme \<Rightarrow> 'a net_scheme" where
  "nic_send frame s = (if nic_active s then s\<lparr>nic_tx := nic_tx s @ [frame]\<rparr> else s)"

definition nic_set_rx_callback :: "'a net_scheme \<Rightarrow> 'a net_scheme" where
  "nic_set_rx_callback s = (if nic_active s then s\<lparr>rx_callback := True\<rparr> else s)"

definition nic_mac :: "'a net_scheme \<Rightarrow> bytes" where
  "nic_mac s = (if nic_active s then nic_driver_mac s else replicate 6 0)"

definition eth_header :: "bytes \<Rightarrow> bytes \<Rightarrow> u16 \<Rightarrow> bytes" where
  "eth_header dst src ethertype = dst @ src @ le16 (net_htons ethertype)"

definition eth_send :: "bytes \<Rightarrow> u16 \<Rightarrow> bytes \<Rightarrow> u16 \<Rightarrow> 'a net_scheme \<Rightarrow> 'a net_scheme ret" where
  "eth_send dst_mac ethertype payload payload_len s =
     (let len = ETH_HEADER + payload_len; len1 = (if len > 1514 then 1514 else len)
      in do { p \<leftarrow> copy_bytes 1500 (ucast len1 - ucast ETH_HEADER) payload;
              Some (nic_send (eth_header dst_mac (our_mac s) ethertype @ p) s) })"

definition arp_packet :: "u16 \<Rightarrow> bytes \<Rightarrow> ipv4 \<Rightarrow> bytes \<Rightarrow> ipv4 \<Rightarrow> bytes" where
  "arp_packet oper sender_mac sender_ip target_mac target_ip =
     le16 (net_htons ARP_HTYPE_ETHERNET) @ le16 (net_htons ETHERTYPE_IPV4) @ [6, 4] @ le16 (net_htons oper) @
     sender_mac @ ipv4_bytes sender_ip @ target_mac @ ipv4_bytes target_ip"

definition arp_send_request :: "ipv4 \<Rightarrow> 'a net_scheme \<Rightarrow> 'a net_scheme ret" where
  "arp_send_request target_ip s =
     eth_send BROADCAST_MAC ETHERTYPE_ARP (arp_packet ARP_OPER_REQUEST (our_mac s) (our_ip s) (replicate 6 0) target_ip) ARP_PACKET s"

text \<open>The first entry of the cache that is valid and has the address, as its index.\<close>

definition arp_find :: "ipv4 \<Rightarrow> arp_entry list \<Rightarrow> nat option" where
  "arp_find ip es = find (\<lambda>i. ae_valid (es ! i) \<and> ipv4_equal (ae_ip (es ! i)) ip) [0..<length es]"

definition arp_store :: "ipv4 \<Rightarrow> bytes \<Rightarrow> 'a net_scheme \<Rightarrow> 'a net_scheme ret" where
  "arp_store ip mac s =
     (case arp_find ip (arp_cache s) of
        Some i \<Rightarrow> Some (s\<lparr>arp_cache := (arp_cache s)[i := (arp_cache s ! i)\<lparr>ae_mac := mac\<rparr>]\<rparr>)
      | None \<Rightarrow>
          if arp_next_slot s < length (arp_cache s)
          then Some (s\<lparr>arp_cache := (arp_cache s)[arp_next_slot s := \<lparr>ae_valid = True, ae_ip = ip, ae_mac = mac\<rparr>],
                       arp_next_slot := (arp_next_slot s + 1) mod ARP_CACHE_SIZE\<rparr>)
          else None)"

definition arp_handle_packet :: "bytes \<Rightarrow> u16 \<Rightarrow> 'a net_scheme \<Rightarrow> 'a net_scheme ret" where
  "arp_handle_packet data len s =
     (if len < ARP_PACKET then Some s
      else if length data < 28 then None
      else if net_htons (rd16 data 0) \<noteq> ARP_HTYPE_ETHERNET \<or> net_htons (rd16 data 2) \<noteq> ETHERTYPE_IPV4 then Some s
      else let oper = net_htons (rd16 data 6); sender_mac = take 6 (drop 8 data); sender_ip = rd_ip data 14; target_ip = rd_ip data 24
           in if oper = ARP_OPER_REQUEST
              then if \<not> ipv4_equal target_ip (our_ip s) then Some s
                   else eth_send sender_mac ETHERTYPE_ARP (arp_packet ARP_OPER_REPLY (our_mac s) (our_ip s) sender_mac sender_ip) ARP_PACKET s
              else if oper = ARP_OPER_REPLY then arp_store sender_ip sender_mac s
              else Some s)"

definition arp_lookup :: "ipv4 \<Rightarrow> 'a net_scheme \<Rightarrow> bytes option" where
  "arp_lookup ip s = map_option (\<lambda>i. ae_mac (arp_cache s ! i)) (arp_find ip (arp_cache s))"

text \<open>One pass of the loop of \<^verbatim>\<open>arp_resolve\<close>: either its result or, after a sleep of 5 ms, the times of the next pass.
  Between two passes other tasks run and frames arrive.\<close>

definition arp_resolve_pass ::
  "nat \<Rightarrow> ipv4 \<Rightarrow> u32 \<Rightarrow> u64 \<Rightarrow> u64 \<times> bool \<Rightarrow> 'a net_scheme \<Rightarrow> ((bytes option + u64 \<times> bool) \<times> 'a net_scheme) ret" where
  "arp_resolve_pass c ip timeout_ms start l s =
     (let (last_request, first) = l; now = task_uptime_ms (nt_sched s)
      in if \<not> now - start < ucast timeout_ms then Some (Inl (arp_lookup ip s), s)
         else if arp_lookup ip s \<noteq> None then Some (Inl (arp_lookup ip s), s)
         else do { (l', s1) \<leftarrow> (if first \<or> now - last_request \<ge> 300
                               then do { s' \<leftarrow> arp_send_request ip s; Some ((task_uptime_ms (nt_sched s'), False), s') }
                               else Some (l, s));
                   sc \<leftarrow> task_sleep_ms c 5 (nt_sched s1);
                   Some (Inr l', s1\<lparr>nt_sched := sc\<rparr>) })"

subsection \<open>IPv4 and UDP\<close>

definition ipv4_header :: "u16 \<Rightarrow> u16 \<Rightarrow> u8 \<Rightarrow> u16 \<Rightarrow> ipv4 \<Rightarrow> ipv4 \<Rightarrow> bytes" where
  "ipv4_header total_len ident protocol checksum src dst =
     [0x45, 0] @ le16 (net_htons total_len) @ le16 (net_htons ident) @ le16 0 @ [64, protocol] @ le16 checksum @
     ipv4_bytes src @ ipv4_bytes dst"

definition ipv4_packet_header :: "u16 \<Rightarrow> u16 \<Rightarrow> u8 \<Rightarrow> ipv4 \<Rightarrow> ipv4 \<Rightarrow> bytes" where
  "ipv4_packet_header total_len ident protocol src dst =
     ipv4_header total_len ident protocol (net_htons (ip_checksum (ipv4_header total_len ident protocol 0 src dst))) src dst"

definition ipv4_send_from :: "ipv4 \<Rightarrow> ipv4 \<Rightarrow> bytes \<Rightarrow> u8 \<Rightarrow> bytes \<Rightarrow> u16 \<Rightarrow> 'a net_scheme \<Rightarrow> 'a net_scheme ret" where
  "ipv4_send_from src dst dst_mac protocol payload payload_len s =
     (let len = IPV4_HEADER + payload_len; total_len = (if len > 1500 then 1500 else len)
      in do { p \<leftarrow> copy_bytes 1480 (ucast total_len - ucast IPV4_HEADER) payload;
              eth_send dst_mac ETHERTYPE_IPV4 (ipv4_packet_header total_len (next_id s) protocol src dst @ p) total_len
                (s\<lparr>next_id := next_id s + 1\<rparr>) })"

definition ipv4_is_local :: "ipv4 \<Rightarrow> 'a net_scheme \<Rightarrow> bool" where
  "ipv4_is_local ip s \<longleftrightarrow> ipv4_bytes ip ! 0 = 127 \<or> (net_up s \<and> ipv4_equal ip (our_ip s))"

text \<open>A packet in the queue keeps what its array held behind the copied bytes.\<close>

definition loopback_send :: "ipv4 \<Rightarrow> u8 \<Rightarrow> bytes \<Rightarrow> u16 \<Rightarrow> 'a net_scheme \<Rightarrow> 'a net_scheme ret" where
  "loopback_send dst protocol payload payload_len s =
     (if loopback_count s < LOOPBACK_QUEUE \<and> unat payload_len \<le> LOOPBACK_DATA
      then let i = (loopback_head s + loopback_count s) mod LOOPBACK_QUEUE
           in if i < length (loopback_queue s)
              then do { p \<leftarrow> copy_bytes LOOPBACK_DATA (ucast payload_len) payload;
                        Some (s\<lparr>loopback_queue := (loopback_queue s)[i :=
                               \<lparr>lp_addr = dst, lp_protocol = protocol, lp_len = payload_len,
                                lp_data = p @ drop (length p) (lp_data (loopback_queue s ! i))\<rparr>],
                               loopback_count := loopback_count s + 1\<rparr>) }
              else None
      else Some s)"

definition ipv4_send :: "ipv4 \<Rightarrow> u8 \<Rightarrow> bytes \<Rightarrow> u16 \<Rightarrow> 'a net_scheme \<Rightarrow> 'a net_scheme ret" where
  "ipv4_send dst protocol payload payload_len s =
     (if ipv4_is_local dst s then loopback_send dst protocol payload payload_len s
      else let next_hop = (if ipv4_same_subnet dst (our_ip s) (netmask s) then dst else gateway_ip s)
           in case arp_lookup next_hop s of
                None \<Rightarrow> arp_send_request next_hop s
              | Some dst_mac \<Rightarrow> ipv4_send_from (our_ip s) dst dst_mac protocol payload payload_len s)"

definition net_local_ip :: "'a net_scheme \<Rightarrow> ipv4" where
  "net_local_ip s = our_ip s"

definition net_is_up :: "'a net_scheme \<Rightarrow> bool" where
  "net_is_up s = net_up s"

definition net_status :: "'a net_scheme \<Rightarrow> ipv4 \<times> ipv4 \<times> ipv4 \<times> ipv4" where
  "net_status s = (our_ip s, gateway_ip s, netmask s, dns_ip s)"

definition udp_header :: "u16 \<Rightarrow> u16 \<Rightarrow> u16 \<Rightarrow> bytes" where
  "udp_header src_port dst_port len = le16 (net_htons src_port) @ le16 (net_htons dst_port) @ le16 (net_htons len) @ le16 0"

definition udp_send :: "ipv4 \<Rightarrow> u16 \<Rightarrow> u16 \<Rightarrow> bytes \<Rightarrow> u16 \<Rightarrow> 'a net_scheme \<Rightarrow> 'a net_scheme ret" where
  "udp_send dst src_port dst_port payload payload_len s =
     (let len = UDP_HEADER + payload_len; total_len = (if len > 1500 then 1500 else len)
      in do { p \<leftarrow> copy_bytes 1492 (ucast total_len - ucast UDP_HEADER) payload;
              ipv4_send dst IPV4_PROTO_UDP (udp_header src_port dst_port total_len @ p) total_len s })"

end
