(* ===== verification/Inet.thy ===== *)
theory Inet
  imports Net Socket Devfs
begin

text \<open>
  Internet sockets, \<^verbatim>\<open>kernel/net/inet.c\<close>: TCP connections and UDP queues over the packets of \<open>Net\<close>. A socket is
  named by its index in the array \<^verbatim>\<open>inet_sockets\<close>. The buffers \<^verbatim>\<open>rx\<close> and \<^verbatim>\<open>tx\<close> of a connection are runs of pages of
  the byte memory; the datagrams of a UDP socket are kept beside the pointer to their block. As for local sockets,
  an operation that has to wait reports \<open>Blocked\<close> with what its loop carries over; the operations that find
  their socket by a file are in \<open>InetFiles\<close>.
\<close>

datatype tcp_state = TCP_CLOSED | TCP_SYN_SENT | TCP_ESTABLISHED | TCP_FIN_WAIT | TCP_CLOSE_WAIT | TCP_DONE | TCP_LISTEN | TCP_SYN_RCVD

datatype inet_kind = INET_TCP | INET_UDP

record udp_datagram =
  ud_len :: u16
  ud_src_ip :: ipv4
  ud_src_port :: u16
  ud_data :: bytes

record inet_socket =
  is_used :: bool
  is_kind :: inet_kind
  is_flags :: u32
  is_node :: vnode
  is_remote_ip :: ipv4
  is_remote_port :: u16
  is_local_port :: u16
  is_connected :: bool
  is_orphan :: bool
  is_state :: tcp_state
  is_error :: int
  is_iss :: u32
  is_snd_una :: u32
  is_snd_nxt :: u32
  is_snd_wnd :: u32
  is_rcv_nxt :: u32
  is_fin_received :: bool
  is_close_requested :: bool
  is_fin_sent :: bool
  is_fin_seq :: u32
  is_rx :: ptr
  is_rx_head :: u64
  is_rx_count :: u64
  is_tx :: ptr
  is_tx_count :: u64
  is_rto_deadline :: u64
  is_rto_ms :: u32
  is_retries :: int
  is_done_deadline :: u64
  is_udp_queue :: ptr
  is_udp :: "udp_datagram list"
  is_udp_head :: nat
  is_udp_count :: nat
  is_parent :: "nat option"
  is_backlog :: "nat list"

record inet = net +
  inet_sockets :: "inet_socket list"
  inet_next_port :: u16
  inet_seq_seed :: u32
  inet_base :: ptr
  inet_tsc :: "nat \<Rightarrow> u64"
  inet_tsc_reads :: nat

definition INET_MAX_SOCKETS :: nat where "INET_MAX_SOCKETS = 32"
definition TCP_RX_SIZE :: u64 where "TCP_RX_SIZE = 128 * 1024"
definition TCP_TX_SIZE :: u64 where "TCP_TX_SIZE = 64 * 1024"
definition TCP_MSS :: u32 where "TCP_MSS = 1400"
definition TCP_RTO_MIN_MS :: u32 where "TCP_RTO_MIN_MS = 300"
definition TCP_RTO_MAX_MS :: u32 where "TCP_RTO_MAX_MS = 8000"
definition TCP_MAX_RETRIES :: int where "TCP_MAX_RETRIES = 10"
definition TCP_CONNECT_MS :: u64 where "TCP_CONNECT_MS = 15000"
definition TCP_BACKLOG :: nat where "TCP_BACKLOG = 16"
definition UDP_QUEUE :: nat where "UDP_QUEUE = 256"
definition UDP_MAX_DGRAM :: u16 where "UDP_MAX_DGRAM = 1500"
definition UDP_DATAGRAM_SIZE :: u64 where "UDP_DATAGRAM_SIZE = 1512"
definition INET_SOCKET_SIZE :: u64 where "INET_SOCKET_SIZE = 424"
definition INET_NODE_OFFSET :: u64 where "INET_NODE_OFFSET = 16"
definition INET_FILE_OPS :: dev_kind where "INET_FILE_OPS = DEVICE_FILE_OPS 9"

definition TCP_FIN :: u8 where "TCP_FIN = 0x01"
definition TCP_SYN :: u8 where "TCP_SYN = 0x02"
definition TCP_RST :: u8 where "TCP_RST = 0x04"
definition TCP_PSH :: u8 where "TCP_PSH = 0x08"
definition TCP_ACK :: u8 where "TCP_ACK = 0x10"
definition TCP_HEADER :: u16 where "TCP_HEADER = 20"

definition ENETDOWN :: int where "ENETDOWN = 100"
definition EINPROGRESS :: int where "EINPROGRESS = 115"
definition ETIMEDOUT :: int where "ETIMEDOUT = 110"

definition ipv4_zero :: ipv4 where "ipv4_zero = ipv4_from_bytes 0 0 0 0"

definition inet_zero :: inet_socket where
  "inet_zero = \<lparr>is_used = False, is_kind = INET_TCP, is_flags = 0, is_node = vnode_zero, is_remote_ip = ipv4_zero, is_remote_port = 0,
     is_local_port = 0, is_connected = False, is_orphan = False, is_state = TCP_CLOSED, is_error = 0, is_iss = 0, is_snd_una = 0,
     is_snd_nxt = 0, is_snd_wnd = 0, is_rcv_nxt = 0, is_fin_received = False, is_close_requested = False, is_fin_sent = False,
     is_fin_seq = 0, is_rx = NULL, is_rx_head = 0, is_rx_count = 0, is_tx = NULL, is_tx_count = 0, is_rto_deadline = 0, is_rto_ms = 0,
     is_retries = 0, is_done_deadline = 0, is_udp_queue = NULL, is_udp = [], is_udp_head = 0, is_udp_count = 0, is_parent = None,
     is_backlog = []\<rparr>"

subsection \<open>Access to the state\<close>

definition isock :: "inet \<Rightarrow> nat \<Rightarrow> inet_socket" where
  "isock st i = inet_sockets st ! i"

definition upd_isock :: "nat \<Rightarrow> (inet_socket \<Rightarrow> inet_socket) \<Rightarrow> inet \<Rightarrow> inet" where
  "upd_isock i f st = st\<lparr>inet_sockets := (inet_sockets st)[i := f (isock st i)]\<rparr>"

definition nt_heap :: "inet \<Rightarrow> heap" where
  "nt_heap st = up_heap (sc_mem (nt_sched st))"

definition set_nt_heap :: "heap \<Rightarrow> inet \<Rightarrow> inet" where
  "set_nt_heap h st = st\<lparr>nt_sched := (nt_sched st)\<lparr>sc_mem := (sc_mem (nt_sched st))\<lparr>up_heap := h\<rparr>\<rparr>\<rparr>"

definition nt_memory :: "inet \<Rightarrow> mem" where
  "nt_memory st = hmem (nt_heap st)"

definition set_nt_memory :: "mem \<Rightarrow> inet \<Rightarrow> inet" where
  "set_nt_memory m st = set_nt_heap ((nt_heap st)\<lparr>hmem := m\<rparr>) st"

definition nt_wake :: "inet \<Rightarrow> inet ret" where
  "nt_wake st = do { sc \<leftarrow> task_wake_waiters (nt_sched st); Some (st\<lparr>nt_sched := sc\<rparr>) }"

definition nt_block :: "nat \<Rightarrow> u32 \<Rightarrow> inet \<Rightarrow> inet ret" where
  "nt_block c ms st = do { sc \<leftarrow> task_block c ms (nt_sched st); Some (st\<lparr>nt_sched := sc\<rparr>) }"

definition nt_now :: "inet \<Rightarrow> u64" where
  "nt_now st = task_uptime_ms (nt_sched st)"

definition nt_alloc_pages :: "u64 \<Rightarrow> inet \<Rightarrow> (ptr \<times> inet) ret" where
  "nt_alloc_pages n st = do { (p, sc) \<leftarrow> sc_alloc_pages n (nt_sched st); Some (p, st\<lparr>nt_sched := sc\<rparr>) }"

definition nt_free_pages :: "ptr \<Rightarrow> u64 \<Rightarrow> inet \<Rightarrow> inet ret" where
  "nt_free_pages p n st =
     do { m \<leftarrow> pmm_free_pages p n (hp_pmm (nt_heap st)); Some (set_nt_heap ((nt_heap st)\<lparr>hp_pmm := m\<rparr>) st) }"

definition inet_nonblocking :: "inet_socket \<Rightarrow> bool" where
  "inet_nonblocking s \<longleftrightarrow> is_flags s AND SOCK_NONBLOCK \<noteq> 0"

subsection \<open>Ports, sequence numbers, checksum\<close>

fun alloc_port_loop :: "nat \<Rightarrow> inet \<Rightarrow> u16 \<times> inet" where
  "alloc_port_loop 0 st = (0, st)"
| "alloc_port_loop (Suc k) st =
     (let p = inet_next_port st; np = p + 1; st1 = st\<lparr>inet_next_port := (if np < 49152 then 49152 else np)\<rparr>
      in if \<exists>s \<in> set (inet_sockets st1). is_used s \<and> is_local_port s = p then alloc_port_loop k st1 else (p, st1))"

definition inet_alloc_port :: "inet \<Rightarrow> u16 \<times> inet" where
  "inet_alloc_port st = alloc_port_loop 16384 st"

definition inet_random :: "inet \<Rightarrow> u32 \<times> inet" where
  "inet_random st =
     (let t = inet_tsc st (inet_tsc_reads st); lo = ucast t :: u32; hi = ucast (drop_bit 32 t) :: u32;
          seed = inet_seq_seed st * 1103515245 + 12345 + lo + push_bit 7 hi
      in (seed, st\<lparr>inet_seq_seed := seed, inet_tsc_reads := Suc (inet_tsc_reads st)\<rparr>))"

definition seq_lt :: "u32 \<Rightarrow> u32 \<Rightarrow> bool" where
  "seq_lt a b \<longleftrightarrow> sint (a - b) < 0"

definition seq_le :: "u32 \<Rightarrow> u32 \<Rightarrow> bool" where
  "seq_le a b \<longleftrightarrow> sint (a - b) \<le> 0"

definition tcp_pseudo_sum :: "ipv4 \<Rightarrow> ipv4 \<Rightarrow> u16 \<Rightarrow> u32" where
  "tcp_pseudo_sum src dst len = sum_bytes (ipv4_bytes src @ ipv4_bytes dst) 0 + ucast IPV4_PROTO_TCP + ucast len"

definition tcp_checksum :: "ipv4 \<Rightarrow> ipv4 \<Rightarrow> bytes \<Rightarrow> u16 \<Rightarrow> u16" where
  "tcp_checksum src dst sg len = NOT (ucast (sum_fold (sum_bytes sg (tcp_pseudo_sum src dst len))))"

definition tcp_window :: "inet_socket \<Rightarrow> u16" where
  "tcp_window s = (let space = TCP_RX_SIZE - is_rx_count s in if space > 65535 then 65535 else ucast space)"

subsection \<open>Sending segments\<close>

definition tcp_header :: "u16 \<Rightarrow> u16 \<Rightarrow> u32 \<Rightarrow> u32 \<Rightarrow> u8 \<Rightarrow> u8 \<Rightarrow> u16 \<Rightarrow> u16 \<Rightarrow> bytes" where
  "tcp_header sport dport seq ack off flags window checksum =
     le16 (net_htons sport) @ le16 (net_htons dport) @ le32 (net_htonl seq) @ le32 (net_htonl ack) @ [off, flags] @
     le16 (net_htons window) @ le16 checksum @ le16 0"

definition tcp_options :: "u8 \<Rightarrow> bytes" where
  "tcp_options flags = (if flags AND TCP_SYN \<noteq> 0 then [2, 4, 0x05, 0x78] else [])"

text \<open>The segment as it goes into the packet, for the data \<open>d\<close>.\<close>

definition tcp_segment :: "ipv4 \<Rightarrow> inet_socket \<Rightarrow> u32 \<Rightarrow> u8 \<Rightarrow> bytes \<Rightarrow> bytes" where
  "tcp_segment local s seq flags d =
     (let opt = tcp_options flags; hlen = TCP_HEADER + of_nat (length opt);
          header = tcp_header (is_local_port s) (is_remote_port s) seq (if flags AND TCP_ACK \<noteq> 0 then is_rcv_nxt s else 0)
                     (ucast (push_bit 4 (hlen div 4))) flags (tcp_window s);
          total_len = hlen + of_nat (length d)
      in header (net_htons (tcp_checksum local (is_remote_ip s) (header 0 @ opt @ d) total_len)) @ opt @ d)"

definition tcp_send_segment :: "nat \<Rightarrow> u32 \<Rightarrow> u8 \<Rightarrow> bytes \<Rightarrow> u16 \<Rightarrow> inet \<Rightarrow> inet ret" where
  "tcp_send_segment i seq flags data len st =
     (let s = isock st i; hlen = TCP_HEADER + of_nat (length (tcp_options flags))
      in do { d \<leftarrow> copy_bytes (1424 - unat hlen) (ucast len) data;
              ipv4_send (is_remote_ip s) IPV4_PROTO_TCP (tcp_segment (net_local_ip st) s seq flags d) (hlen + len) st })"

definition tcp_send_ack :: "nat \<Rightarrow> inet \<Rightarrow> inet ret" where
  "tcp_send_ack i st = tcp_send_segment i (is_snd_nxt (isock st i)) TCP_ACK [] 0 st"

definition tcp_arm_timer :: "nat \<Rightarrow> inet \<Rightarrow> inet" where
  "tcp_arm_timer i st = upd_isock i (\<lambda>s. s\<lparr>is_rto_deadline := nt_now st + ucast (is_rto_ms s)\<rparr>) st"

definition tcp_in_flight :: "inet_socket \<Rightarrow> u32" where
  "tcp_in_flight s = (let f = is_snd_nxt s - is_snd_una s in if is_fin_sent s \<and> f > 0 then f - 1 else f)"

definition tcp_next_len :: "u32 \<Rightarrow> inet_socket \<Rightarrow> u32" where
  "tcp_next_len window s =
     (let f = tcp_in_flight s; len = ucast (is_tx_count s) - f; len1 = (if len > window - f then window - f else len)
      in if len1 > TCP_MSS then TCP_MSS else len1)"

partial_function (option) tcp_output_loop :: "nat \<Rightarrow> u32 \<Rightarrow> bool \<Rightarrow> inet \<Rightarrow> (bool \<times> inet) ret" where
  [code]: "tcp_output_loop i window sent st =
     (let s = isock st i; f = tcp_in_flight s
      in if ucast f \<ge> is_tx_count s \<or> f \<ge> window then Some (sent, st)
         else let len = tcp_next_len window s
              in do { st1 \<leftarrow> tcp_send_segment i (is_snd_nxt s) (TCP_ACK OR TCP_PSH)
                              (bytes_at (nt_memory st) (is_tx s + ucast f) (unat len)) (ucast len) st;
                      tcp_output_loop i window True (upd_isock i (\<lambda>s. s\<lparr>is_snd_nxt := is_snd_nxt s + len\<rparr>) st1) })"

definition tcp_output_fin :: "nat \<Rightarrow> bool \<Rightarrow> inet \<Rightarrow> (bool \<times> inet) ret" where
  "tcp_output_fin i sent st =
     (let s = isock st i
      in if is_close_requested s \<and> \<not> is_fin_sent s \<and> ucast (is_snd_nxt s - is_snd_una s) = is_tx_count s
         then do { st1 \<leftarrow> tcp_send_segment i (is_snd_nxt s) (TCP_ACK OR TCP_FIN) [] 0
                           (upd_isock i (\<lambda>s. s\<lparr>is_fin_seq := is_snd_nxt s\<rparr>) st);
                   Some (True, upd_isock i (\<lambda>s. s\<lparr>is_snd_nxt := is_snd_nxt s + 1, is_fin_sent := True,
                                is_state := (if is_state s = TCP_CLOSE_WAIT then TCP_DONE else TCP_FIN_WAIT)\<rparr>) st1) }
         else Some (sent, st))"

definition tcp_output :: "nat \<Rightarrow> inet \<Rightarrow> inet ret" where
  "tcp_output i st =
     (let s = isock st i
      in if is_state s \<noteq> TCP_ESTABLISHED \<and> is_state s \<noteq> TCP_CLOSE_WAIT \<and> is_state s \<noteq> TCP_FIN_WAIT then Some st
         else do { (sent1, st1) \<leftarrow> tcp_output_loop i (if is_snd_wnd s \<noteq> 0 then is_snd_wnd s else 1) False st;
                   (sent, st2) \<leftarrow> tcp_output_fin i sent1 st1;
                   Some (if sent \<and> is_rto_deadline (isock st2 i) = 0 then tcp_arm_timer i st2 else st2) })"

subsection \<open>Making and freeing sockets\<close>

definition inet_unlink :: "nat \<Rightarrow> inet \<Rightarrow> inet" where
  "inet_unlink i st = (case is_parent (isock st i) of None \<Rightarrow> st | Some l \<Rightarrow> upd_isock l (\<lambda>s. s\<lparr>is_backlog := remove1 i (is_backlog s)\<rparr>) st)"

definition inet_release :: "nat \<Rightarrow> inet \<Rightarrow> inet ret" where
  "inet_release i st =
     (let s = isock st i
      in do { st1 \<leftarrow> (if is_rx s \<noteq> NULL then nt_free_pages (is_rx s) (TCP_RX_SIZE div PAGE_SIZE) st else Some st);
              st2 \<leftarrow> (if is_tx s \<noteq> NULL then nt_free_pages (is_tx s) (TCP_TX_SIZE div PAGE_SIZE) st1 else Some st1);
              st3 \<leftarrow> (if is_udp_queue s \<noteq> NULL then do { h \<leftarrow> kfree (is_udp_queue s) (nt_heap st2); Some (set_nt_heap h st2) } else Some st2);
              Some (upd_isock i (\<lambda>_. inet_zero) st3) })"

text \<open>The loop of \<^verbatim>\<open>inet_free\<close> over the connections of the listening socket \<open>l\<close>, from the index \<open>i\<close> on. It calls
  \<^verbatim>\<open>inet_free\<close> on each of them after it has cleared its \<^verbatim>\<open>parent\<close>, so that this call has no list to unlink it from.\<close>

partial_function (option) free_children :: "nat \<Rightarrow> nat \<Rightarrow> inet \<Rightarrow> inet ret" where
  [code]: "free_children l i st =
     (if i \<ge> INET_MAX_SOCKETS then Some st
      else if \<not> is_used (isock st i) \<or> is_parent (isock st i) \<noteq> Some l then free_children l (i + 1) st
      else do {
        st1 \<leftarrow> tcp_send_segment i (is_snd_nxt (isock st i)) TCP_RST [] 0 (upd_isock i (is_parent_update (\<lambda>_. None)) st);
        st2 \<leftarrow> (if is_kind (isock st1 i) = INET_TCP \<and> is_state (isock st1 i) = TCP_LISTEN then free_children i 0 st1 else Some st1);
        st3 \<leftarrow> inet_release i st2;
        free_children l (i + 1) st3 })"

definition inet_free :: "nat \<Rightarrow> inet \<Rightarrow> inet ret" where
  "inet_free i st =
     (let st1 = inet_unlink i st
      in do { st2 \<leftarrow> (if is_kind (isock st1 i) = INET_TCP \<and> is_state (isock st1 i) = TCP_LISTEN then free_children i 0 st1 else Some st1);
              inet_release i st2 })"

definition inet_addr :: "nat \<Rightarrow> inet \<Rightarrow> ptr" where
  "inet_addr i st = inet_base st + of_nat i * INET_SOCKET_SIZE"

definition inet_node :: "inet_kind \<Rightarrow> ptr \<Rightarrow> vnode" where
  "inet_node kind p = vnode_zero\<lparr>v_type := VNODE_SOCKET, v_file_ops := Some INET_FILE_OPS, v_private_data := p,
     v_name := (if kind = INET_UDP then ''udp'' else ''tcp'')\<rparr>"

definition datagram_zero :: udp_datagram where
  "datagram_zero = \<lparr>ud_len = 0, ud_src_ip = ipv4_zero, ud_src_port = 0, ud_data = replicate 1500 0\<rparr>"

definition inet_alloc :: "inet_kind \<Rightarrow> u32 \<Rightarrow> inet \<Rightarrow> (nat option \<times> inet) ret" where
  "inet_alloc kind flags st =
     (case first_index (\<lambda>s. \<not> is_used s) (inet_sockets st) of
        None \<Rightarrow> Some (None, st)
      | Some i \<Rightarrow>
          let st1 = upd_isock i (\<lambda>_. inet_zero\<lparr>is_used := True, is_kind := kind, is_flags := flags AND SOCK_NONBLOCK,
                      is_node := inet_node kind (inet_addr i st)\<rparr>) st
          in if kind = INET_UDP
             then do { (q, h) \<leftarrow> kcalloc (of_nat UDP_QUEUE) UDP_DATAGRAM_SIZE (nt_heap st1);
                       let (port, st2) = inet_alloc_port (set_nt_heap h st1);
                           st3 = upd_isock i (\<lambda>s. s\<lparr>is_udp_queue := q, is_udp := replicate UDP_QUEUE datagram_zero, is_local_port := port\<rparr>) st2
                       in if q = NULL \<or> port = 0 then do { st4 \<leftarrow> inet_free i st3; Some (None, st4) } else Some (Some i, st3) }
             else do { (rx, st2) \<leftarrow> nt_alloc_pages (TCP_RX_SIZE div PAGE_SIZE) st1;
                       (tx, st3) \<leftarrow> nt_alloc_pages (TCP_TX_SIZE div PAGE_SIZE) (upd_isock i (is_rx_update (\<lambda>_. rx)) st2);
                       let st4 = upd_isock i (is_tx_update (\<lambda>_. tx)) st3
                       in if rx = NULL \<or> tx = NULL then do { st5 \<leftarrow> inet_free i st4; Some (None, st5) } else Some (Some i, st4) })"

definition tcp_reset :: "nat \<Rightarrow> int \<Rightarrow> inet \<Rightarrow> inet ret" where
  "tcp_reset i error st =
     (let st1 = upd_isock i (\<lambda>s. s\<lparr>is_state := TCP_CLOSED, is_error := error, is_rto_deadline := 0\<rparr>) st
      in do { st2 \<leftarrow> (if is_orphan (isock st1 i) then inet_free i st1 else Some st1); nt_wake st2 })"

definition inet_find_tcp :: "ipv4 \<Rightarrow> u16 \<Rightarrow> u16 \<Rightarrow> inet \<Rightarrow> nat option" where
  "inet_find_tcp ip remote_port local_port st =
     first_index (\<lambda>s. is_used s \<and> is_kind s = INET_TCP \<and> is_local_port s = local_port \<and> is_remote_port s = remote_port \<and>
       is_remote_ip s = ip) (inet_sockets st)"

definition inet_find_listener :: "u16 \<Rightarrow> inet \<Rightarrow> nat option" where
  "inet_find_listener local_port st =
     first_index (\<lambda>s. is_used s \<and> is_kind s = INET_TCP \<and> is_state s = TCP_LISTEN \<and> is_local_port s = local_port) (inet_sockets st)"

subsection \<open>Receiving\<close>

text \<open>The fields of a TCP header at the start of \<open>p\<close>.\<close>

definition th_src_port :: "bytes \<Rightarrow> u16" where "th_src_port p = net_htons (rd16 p 0)"
definition th_dst_port :: "bytes \<Rightarrow> u16" where "th_dst_port p = net_htons (rd16 p 2)"
definition th_seq :: "bytes \<Rightarrow> u32" where "th_seq p = net_htonl (rd32 p 4)"
definition th_ack :: "bytes \<Rightarrow> u32" where "th_ack p = net_htonl (rd32 p 8)"
definition th_offset :: "bytes \<Rightarrow> u8" where "th_offset p = p ! 12"
definition th_flags :: "bytes \<Rightarrow> u8" where "th_flags p = p ! 13"
definition th_window :: "bytes \<Rightarrow> u16" where "th_window p = net_htons (rd16 p 14)"

definition tcp_passive_open :: "ipv4 \<Rightarrow> bytes \<Rightarrow> inet \<Rightarrow> inet ret" where
  "tcp_passive_open src_ip p st =
     (if th_flags p AND (TCP_SYN OR TCP_ACK OR TCP_RST) \<noteq> TCP_SYN then Some st
      else case inet_find_listener (th_dst_port p) st of
        None \<Rightarrow> Some st
      | Some l \<Rightarrow>
          if length (filter (\<lambda>s. is_used s \<and> is_parent s = Some l) (inet_sockets st)) \<ge> TCP_BACKLOG then Some st
          else do {
            (a, st1) \<leftarrow> inet_alloc INET_TCP 0 st;
            case a of
              None \<Rightarrow> Some st1
            | Some c \<Rightarrow>
                let (iss, st2) = inet_random st1;
                    st3 = upd_isock c (\<lambda>s. s\<lparr>is_remote_ip := src_ip, is_remote_port := th_src_port p,
                            is_local_port := is_local_port (isock st2 l), is_connected := True, is_orphan := True, is_parent := Some l,
                            is_iss := iss, is_snd_una := iss, is_snd_nxt := iss + 1, is_snd_wnd := ucast (th_window p),
                            is_rcv_nxt := th_seq p + 1, is_rto_ms := 1000, is_state := TCP_SYN_RCVD\<rparr>) st2
                in do { st4 \<leftarrow> tcp_send_segment c iss (TCP_SYN OR TCP_ACK) [] 0 st3;
                        Some (tcp_arm_timer c st4) } })"

text \<open>A segment for a connection that waits for the answer to its SYN.\<close>

definition tcp_syn_sent :: "nat \<Rightarrow> bytes \<Rightarrow> inet \<Rightarrow> inet ret" where
  "tcp_syn_sent i p st =
     (let s = isock st i
      in if th_flags p AND (TCP_SYN OR TCP_ACK) = TCP_SYN OR TCP_ACK \<and> th_ack p = is_iss s + 1
         then do { st1 \<leftarrow> tcp_send_ack i (upd_isock i (\<lambda>s. s\<lparr>is_rcv_nxt := th_seq p + 1, is_snd_una := th_ack p,
                            is_snd_wnd := ucast (th_window p), is_state := TCP_ESTABLISHED, is_rto_deadline := 0, is_retries := 0\<rparr>) st);
                   nt_wake st1 }
         else Some st)"

text \<open>A segment for a connection that has answered a SYN; the result says whether the segment is handled further.\<close>

definition tcp_syn_rcvd :: "nat \<Rightarrow> bytes \<Rightarrow> inet \<Rightarrow> (bool \<times> inet) ret" where
  "tcp_syn_rcvd i p st =
     (let s = isock st i
      in if th_flags p AND (TCP_SYN OR TCP_ACK) = TCP_SYN
         then do { st1 \<leftarrow> tcp_send_segment i (is_iss s) (TCP_SYN OR TCP_ACK) [] 0 st; Some (False, st1) }
         else if th_flags p AND TCP_ACK = 0 \<or> th_ack p \<noteq> is_iss s + 1 then Some (False, st)
         else let st1 = upd_isock i (\<lambda>s. s\<lparr>is_snd_una := th_ack p, is_state := TCP_ESTABLISHED, is_rto_deadline := 0, is_retries := 0\<rparr>) st
              in do { st2 \<leftarrow> (case is_parent s of
                               None \<Rightarrow> Some st1
                             | Some l \<Rightarrow> if length (is_backlog (isock st1 l)) < TCP_BACKLOG
                                        then Some (upd_isock l (\<lambda>s. s\<lparr>is_backlog := is_backlog s @ [i]\<rparr>) st1) else None);
                      st3 \<leftarrow> nt_wake st2;
                      Some (True, st3) })"

text \<open>The acknowledgement of a segment: what the peer has got leaves the buffer \<^verbatim>\<open>tx\<close>.\<close>

definition tcp_acked :: "u32 \<Rightarrow> inet_socket \<Rightarrow> u32" where
  "tcp_acked ack s =
     (let acked = ack - is_snd_una s; d = (if is_fin_sent s \<and> seq_lt (is_fin_seq s) ack then acked - 1 else acked)
      in if ucast d > is_tx_count s then ucast (is_tx_count s) else d)"

definition tcp_handle_ack :: "nat \<Rightarrow> bytes \<Rightarrow> inet \<Rightarrow> inet ret" where
  "tcp_handle_ack i p st =
     (if th_flags p AND TCP_ACK = 0 then Some st
      else let s = isock st i; ack = th_ack p
           in do { st1 \<leftarrow> (if seq_lt (is_snd_una s) ack \<and> seq_le ack (is_snd_nxt s)
                          then let d = ucast (tcp_acked ack s) :: u64; left = is_tx_count s - d;
                                   m = memmove (is_tx s) (is_tx s + d) left (nt_memory st);
                                   rto = TCP_RTO_MIN_MS * 2
                               in nt_wake (upd_isock i (\<lambda>s. s\<lparr>is_tx_count := left, is_snd_una := ack, is_retries := 0, is_rto_ms := rto,
                                    is_rto_deadline := (if ack = is_snd_nxt s then 0 else nt_now st + ucast rto)\<rparr>) (set_nt_memory m st))
                          else Some st);
                   Some (upd_isock i (\<lambda>s. s\<lparr>is_snd_wnd := ucast (th_window p)\<rparr>) st1) })"

text \<open>The ring \<^verbatim>\<open>rx\<close>: \<open>n\<close> bytes behind what waits there, in one or two pieces.\<close>

definition rx_push :: "nat \<Rightarrow> bytes \<Rightarrow> inet \<Rightarrow> inet" where
  "rx_push i d st =
     (let s = isock st i; n = of_nat (length d) :: u64; tail = (is_rx_head s + is_rx_count s) mod TCP_RX_SIZE;
          first = min_u64 n (TCP_RX_SIZE - tail);
          m1 = store_bytes (is_rx s + tail) (take (unat first) d) (nt_memory st);
          m2 = store_bytes (is_rx s) (drop (unat first) d) m1
      in upd_isock i (\<lambda>s. s\<lparr>is_rx_count := is_rx_count s + n, is_rcv_nxt := is_rcv_nxt s + ucast n\<rparr>) (set_nt_memory m2 st))"

definition tcp_handle_data :: "nat \<Rightarrow> u32 \<Rightarrow> bytes \<Rightarrow> u32 \<Rightarrow> inet \<Rightarrow> (bool \<times> inet) ret" where
  "tcp_handle_data i seq payload plen st =
     (if plen = 0 then Some (False, st)
      else let s = isock st i
           in if seq = is_rcv_nxt s \<and> \<not> is_fin_received s
              then let space = TCP_RX_SIZE - is_rx_count s; n = (if ucast plen < space then ucast plen else space)
                   in do { d \<leftarrow> copy_bytes (unat n) n payload; st1 \<leftarrow> nt_wake (rx_push i d st); Some (True, st1) }
              else Some (True, st))"

definition tcp_handle_fin :: "nat \<Rightarrow> u8 \<Rightarrow> u32 \<Rightarrow> u32 \<Rightarrow> bool \<Rightarrow> inet \<Rightarrow> (bool \<times> inet) ret" where
  "tcp_handle_fin i flags seq plen need_ack st =
     (let s = isock st i
      in if flags AND TCP_FIN \<noteq> 0 \<and> seq + plen = is_rcv_nxt s \<and> \<not> is_fin_received s
         then do { st1 \<leftarrow> nt_wake (upd_isock i (\<lambda>s. s\<lparr>is_rcv_nxt := is_rcv_nxt s + 1, is_fin_received := True,
                            is_state := (if is_state s = TCP_ESTABLISHED then TCP_CLOSE_WAIT
                                         else if is_state s = TCP_FIN_WAIT then TCP_DONE else is_state s)\<rparr>) st);
                   Some (True, st1) }
         else Some (need_ack, st))"

text \<open>A segment for a connection that is open in at least one direction.\<close>

definition tcp_established :: "nat \<Rightarrow> bytes \<Rightarrow> u16 \<Rightarrow> u16 \<Rightarrow> inet \<Rightarrow> inet ret" where
  "tcp_established i data hlen len st =
     (if is_state (isock st i) = TCP_CLOSED \<or> is_state (isock st i) = TCP_LISTEN then Some st
      else let plen = ucast len - ucast hlen :: u32
           in do { st1 \<leftarrow> tcp_handle_ack i data st;
                   (na1, st2) \<leftarrow> tcp_handle_data i (th_seq data) (drop (unat hlen) data) plen st1;
                   (na, st3) \<leftarrow> tcp_handle_fin i (th_flags data) (th_seq data) plen na1 st2;
                   st4 \<leftarrow> (if na then tcp_send_ack i st3 else Some st3);
                   let s = isock st4 i
                   in if is_state s = TCP_DONE \<and> is_snd_una s = is_snd_nxt s \<and> is_orphan s then inet_free i st4 else tcp_output i st4 })"

definition inet_tcp_deliver :: "ipv4 \<Rightarrow> bytes \<Rightarrow> u16 \<Rightarrow> inet \<Rightarrow> inet ret" where
  "inet_tcp_deliver src_ip data len st =
     (if len < TCP_HEADER then Some st
      else if length data < 20 then None
      else let hlen = ucast (drop_bit 4 (th_offset data)) * 4 :: u16
           in if hlen < TCP_HEADER \<or> hlen > len then Some st
              else case inet_find_tcp src_ip (th_src_port data) (th_dst_port data) st of
                None \<Rightarrow> tcp_passive_open src_ip data st
              | Some i \<Rightarrow>
                  let s = isock st i
                  in if th_flags data AND TCP_RST \<noteq> 0
                     then tcp_reset i (if is_state s = TCP_SYN_SENT then - ECONNREFUSED else - EPIPE) st
                     else if is_state s = TCP_SYN_SENT then tcp_syn_sent i data st
                     else do { (go_on, st1) \<leftarrow> (if is_state s = TCP_SYN_RCVD then tcp_syn_rcvd i data st else Some (True, st));
                               if \<not> go_on then Some st1 else tcp_established i data hlen len st1 })"

definition udp_accepts :: "ipv4 \<Rightarrow> u16 \<Rightarrow> u16 \<Rightarrow> inet_socket \<Rightarrow> bool" where
  "udp_accepts src_ip src_port dst_port s \<longleftrightarrow> is_used s \<and> is_kind s = INET_UDP \<and> is_local_port s = dst_port \<and>
     \<not> (is_connected s \<and> (is_remote_ip s \<noteq> src_ip \<or> is_remote_port s \<noteq> src_port))"

definition inet_udp_deliver :: "ipv4 \<Rightarrow> u16 \<Rightarrow> u16 \<Rightarrow> bytes \<Rightarrow> u16 \<Rightarrow> inet \<Rightarrow> inet ret" where
  "inet_udp_deliver src_ip src_port dst_port data len st =
     (case first_index (udp_accepts src_ip src_port dst_port) (inet_sockets st) of
        None \<Rightarrow> Some st
      | Some i \<Rightarrow>
          let s = isock st i
          in if is_udp_count s = UDP_QUEUE then Some st
             else let k = (is_udp_head s + is_udp_count s) mod UDP_QUEUE; n = (if len > UDP_MAX_DGRAM then UDP_MAX_DGRAM else len)
                  in if k < length (is_udp s)
                     then do { d \<leftarrow> copy_bytes 1500 (ucast n) data;
                               nt_wake (upd_isock i (\<lambda>s. s\<lparr>is_udp := (is_udp s)[k := \<lparr>ud_len = n, ud_src_ip = src_ip, ud_src_port = src_port,
                                     ud_data = d @ drop (length d) (ud_data (is_udp s ! k))\<rparr>], is_udp_count := is_udp_count s + 1\<rparr>) st) }
                     else None)"

subsection \<open>Time\<close>

text \<open>One socket in the loop of \<^verbatim>\<open>inet_tick\<close>.\<close>

definition tick_retransmit :: "u64 \<Rightarrow> nat \<Rightarrow> inet \<Rightarrow> inet ret" where
  "tick_retransmit now i st =
     (let st1 = upd_isock i (\<lambda>s. let r = (if is_rto_ms s * 2 > TCP_RTO_MAX_MS then TCP_RTO_MAX_MS else is_rto_ms s * 2)
                             in s\<lparr>is_rto_ms := r, is_rto_deadline := now + ucast r\<rparr>) st;
          s = isock st1 i
      in if is_state s = TCP_SYN_SENT then tcp_send_segment i (is_iss s) TCP_SYN [] 0 st1
         else if is_state s = TCP_SYN_RCVD then tcp_send_segment i (is_iss s) (TCP_SYN OR TCP_ACK) [] 0 st1
         else let st2 = upd_isock i (\<lambda>s. s\<lparr>is_snd_nxt := is_snd_una s, is_fin_sent := False,
                          is_state := (if is_fin_sent s \<and> is_state s = TCP_FIN_WAIT then TCP_ESTABLISHED
                                       else if is_fin_sent s \<and> is_state s = TCP_DONE then TCP_CLOSE_WAIT else is_state s)\<rparr>) st1
              in do { st3 \<leftarrow> (if is_tx_count (isock st2 i) = 0 \<and> \<not> is_close_requested (isock st2 i)
                              then tcp_send_segment i (is_snd_nxt (isock st2 i)) TCP_ACK [] 0 st2 else Some st2);
                      tcp_output i st3 })"

definition inet_tick_one :: "u64 \<Rightarrow> nat \<Rightarrow> inet \<Rightarrow> inet ret" where
  "inet_tick_one now i st =
     (let s = isock st i
      in if \<not> is_used s \<or> is_kind s \<noteq> INET_TCP then Some st
         else if is_orphan s \<and> is_done_deadline s \<noteq> 0 \<and> now \<ge> is_done_deadline s then inet_free i st
         else if is_rto_deadline s = 0 \<or> now < is_rto_deadline s then Some st
         else let st1 = upd_isock i (\<lambda>s. s\<lparr>is_retries := is_retries s + 1\<rparr>) st
              in if is_retries (isock st1 i) > TCP_MAX_RETRIES
                 then tcp_reset i (if is_state s = TCP_SYN_SENT then - ETIMEDOUT else - EPIPE) st1
                 else tick_retransmit now i st1)"

fun tick_loop :: "u64 \<Rightarrow> nat list \<Rightarrow> inet \<Rightarrow> inet ret" where
  "tick_loop now [] st = Some st"
| "tick_loop now (i # is) st = do { st1 \<leftarrow> inet_tick_one now i st; tick_loop now is st1 }"

definition inet_tick :: "inet \<Rightarrow> inet ret" where
  "inet_tick st = tick_loop (nt_now st) [0..<INET_MAX_SOCKETS] st"

subsection \<open>Reading and writing\<close>

text \<open>The oldest datagram of a UDP socket, cut to the size of the reader's buffer.\<close>

definition udp_read :: "nat \<Rightarrow> ptr \<Rightarrow> u64 \<Rightarrow> inet \<Rightarrow> (u64 \<times> inet) ret" where
  "udp_read i buf cnt st =
     (let s = isock st i
      in if is_udp_head s < length (is_udp s)
         then let d = is_udp s ! is_udp_head s; n = min_u64 cnt (ucast (ud_len d))
              in do { b \<leftarrow> copy_bytes (unat n) n (ud_data d);
                      Some (n, upd_isock i (\<lambda>s. s\<lparr>is_udp_head := (is_udp_head s + 1) mod UDP_QUEUE, is_udp_count := is_udp_count s - 1\<rparr>)
                                 (set_nt_memory (store_bytes buf b (nt_memory st)) st)) }
         else None)"

definition rx_pop :: "nat \<Rightarrow> ptr \<Rightarrow> u64 \<Rightarrow> inet \<Rightarrow> inet" where
  "rx_pop i buf n st =
     (let s = isock st i; first = min_u64 n (TCP_RX_SIZE - is_rx_head s);
          m1 = memcpy buf (is_rx s + is_rx_head s) first (nt_memory st);
          m2 = memcpy (buf + first) (is_rx s) (n - first) m1
      in upd_isock i (\<lambda>s. s\<lparr>is_rx_head := (is_rx_head s + n) mod TCP_RX_SIZE, is_rx_count := is_rx_count s - n\<rparr>) (set_nt_memory m2 st))"

definition inet_read :: "nat \<Rightarrow> nat \<Rightarrow> ptr \<Rightarrow> u64 \<Rightarrow> inet \<Rightarrow> (unit sys \<times> inet) ret" where
  "inet_read c i buf cnt st =
     (let s = isock st i;
          wait = (if inet_nonblocking s then Some (Ret (- EAGAIN), st)
                  else do { st' \<leftarrow> nt_block c TASK_BLOCK_FOREVER st; Some (Blocked (), st') })
      in if is_kind s = INET_UDP
         then if is_udp_count s > 0 then do { (n, st1) \<leftarrow> udp_read i buf cnt st; Some (Ret (sint n), st1) } else wait
         else if is_state s = TCP_LISTEN then Some (Ret (- EINVAL), st)
         else if is_rx_count s > 0
         then let n = min_u64 cnt (is_rx_count s); small = (ucast (tcp_window s) < TCP_MSS * 2); st1 = rx_pop i buf n st
              in do { st2 \<leftarrow> (if small \<and> is_state (isock st1 i) \<noteq> TCP_CLOSED then tcp_send_ack i st1 else Some st1);
                      Some (Ret (sint n), st2) }
         else if is_fin_received s \<or> is_state s = TCP_CLOSED
         then Some (Ret (if is_state s = TCP_CLOSED \<and> \<not> is_fin_received s then is_error s else 0), st)
         else wait)"

definition inet_write_result :: "u64 \<Rightarrow> int \<Rightarrow> int" where
  "inet_write_result written err = (if written \<noteq> 0 then sint written else err)"

partial_function (option) inet_write_loop :: "nat \<Rightarrow> nat \<Rightarrow> ptr \<Rightarrow> u64 \<Rightarrow> u64 \<Rightarrow> inet \<Rightarrow> (u64 sys \<times> inet) ret" where
  [code]: "inet_write_loop c i src cnt written st =
     (let s = isock st i;
          full = (if inet_nonblocking s then Some (Ret (inet_write_result written (- EAGAIN)), st)
                  else do { st' \<leftarrow> nt_block c TASK_BLOCK_FOREVER st; Some (Blocked written, st') })
      in if \<not> written < cnt then Some (Ret (inet_write_result written (- EAGAIN)), st)
         else if is_state s = TCP_SYN_SENT then full
         else if is_state s \<noteq> TCP_ESTABLISHED \<and> is_state s \<noteq> TCP_CLOSE_WAIT
         then Some (Ret (inet_write_result written (if is_error s \<noteq> 0 then is_error s else - EPIPE)), st)
         else let space = TCP_TX_SIZE - is_tx_count s
              in if space = 0 then full
                 else let n = min_u64 (cnt - written) space;
                          m = memcpy (is_tx s + is_tx_count s) (src + written) n (nt_memory st);
                          st1 = upd_isock i (\<lambda>s. s\<lparr>is_tx_count := is_tx_count s + n\<rparr>) (set_nt_memory m st)
                      in do { st2 \<leftarrow> tcp_output i st1; inet_write_loop c i src cnt (written + n) st2 })"

definition inet_write :: "nat \<Rightarrow> nat \<Rightarrow> ptr \<Rightarrow> u64 \<Rightarrow> inet \<Rightarrow> (u64 sys \<times> inet) ret" where
  "inet_write c i buf cnt st =
     (let s = isock st i
      in if is_kind s = INET_UDP
         then if \<not> is_connected s then Some (Ret (- EINVAL), st)
              else let n = (if cnt > 1472 then 1472 else cnt)
                   in do { st1 \<leftarrow> udp_send (is_remote_ip s) (is_local_port s) (is_remote_port s) (bytes_at (nt_memory st) buf (unat n)) (ucast n) st;
                           Some (Ret (sint n), st1) }
         else inet_write_loop c i buf cnt 0 st)"

definition inet_poll :: "nat \<Rightarrow> inet \<Rightarrow> int" where
  "inet_poll i st =
     (let s = isock st i
      in if is_kind s = INET_UDP then or (if is_udp_count s \<noteq> 0 then POLLIN else 0) POLLOUT
         else if is_state s = TCP_LISTEN then (if is_backlog s \<noteq> [] then POLLIN else 0)
         else or (or (if is_rx_count s > 0 \<or> is_fin_received s then POLLIN else 0)
                     (if is_state s = TCP_CLOSED \<and> is_connected s then or POLLIN POLLHUP else 0))
                 (if (is_state s = TCP_ESTABLISHED \<or> is_state s = TCP_CLOSE_WAIT) \<and> is_tx_count s < TCP_TX_SIZE then POLLOUT else 0))"

definition inet_ioctl :: "nat \<Rightarrow> u64 \<Rightarrow> ptr \<Rightarrow> inet \<Rightarrow> int \<times> inet" where
  "inet_ioctl i request arg st =
     (if request \<noteq> SOCK_IOCTL_NONBLOCK \<or> arg = NULL then (- EINVAL, st)
      else if load_u32 (nt_memory st) arg \<noteq> 0
      then (0, upd_isock i (\<lambda>s. s\<lparr>is_flags := is_flags s OR SOCK_NONBLOCK\<rparr>) st)
      else (0, upd_isock i (\<lambda>s. s\<lparr>is_flags := is_flags s AND NOT SOCK_NONBLOCK\<rparr>) st))"

definition inet_close :: "nat \<Rightarrow> inet \<Rightarrow> inet ret" where
  "inet_close i st =
     (let s = isock st i
      in if is_kind s = INET_TCP \<and> (is_state s = TCP_ESTABLISHED \<or> is_state s = TCP_CLOSE_WAIT)
         then tcp_output i (upd_isock i (\<lambda>s. s\<lparr>is_orphan := True, is_close_requested := True, is_done_deadline := nt_now st + 10000\<rparr>) st)
         else if is_kind s = INET_TCP \<and> is_state s = TCP_SYN_SENT
         then do { st1 \<leftarrow> tcp_send_segment i (is_snd_nxt s) TCP_RST [] 0 st; inet_free i st1 }
         else inet_free i st)"

subsection \<open>Addresses as text, connecting\<close>

definition is_digit :: "char \<Rightarrow> bool" where
  "is_digit c \<longleftrightarrow> 0x30 \<le> (of_char c :: nat) \<and> (of_char c :: nat) \<le> 0x39"

text \<open>\<open>parts\<close> are the numbers read so far, \<open>v\<close> is the one being read and \<open>digit\<close> says that it has begun.\<close>

fun parse_parts :: "string \<Rightarrow> u32 list \<Rightarrow> u32 \<Rightarrow> bool \<Rightarrow> u32 list option" where
  "parse_parts [] parts v digit = (if length parts = 4 \<and> digit then Some (parts @ [v]) else None)"
| "parse_parts (p # ps) parts v digit =
     (if is_digit p
      then let v' = v * 10 + (of_char p - 0x30) in if v' > 65535 then None else parse_parts ps parts v' True
      else if (p = CHR ''.'' \<and> length parts < 3) \<or> (p = CHR '':'' \<and> length parts = 3)
      then if \<not> digit then None else parse_parts ps (parts @ [v]) 0 False
      else None)"

definition inet_parse_addr :: "string \<Rightarrow> (ipv4 \<times> u16) option" where
  "inet_parse_addr name =
     (case parse_parts name [] 0 False of
        None \<Rightarrow> None
      | Some parts \<Rightarrow>
          if \<exists>v \<in> set (take 4 parts). v > 255 then None
          else Some (ipv4_from_bytes (ucast (parts ! 0)) (ucast (parts ! 1)) (ucast (parts ! 2)) (ucast (parts ! 3)), ucast (parts ! 4)))"

text \<open>The loop of \<^verbatim>\<open>inet_connect\<close> that waits for the answer, since the time \<open>start\<close>.\<close>

definition inet_connect_wait :: "nat \<Rightarrow> nat \<Rightarrow> u64 \<Rightarrow> inet \<Rightarrow> (u64 sys \<times> inet) ret" where
  "inet_connect_wait c i start st =
     (let s = isock st i
      in if is_state s = TCP_SYN_SENT
         then let elapsed = nt_now st - start
              in if elapsed \<ge> TCP_CONNECT_MS
                 then do { st1 \<leftarrow> tcp_send_segment i (is_snd_nxt s) TCP_RST [] 0 st;
                           Some (Ret (- ETIMEDOUT), upd_isock i (\<lambda>s. s\<lparr>is_state := TCP_CLOSED, is_rto_deadline := 0\<rparr>) st1) }
                 else do { st1 \<leftarrow> nt_block c (ucast (TCP_CONNECT_MS - elapsed)) st; Some (Blocked start, st1) }
         else Some (Ret (if is_state s = TCP_ESTABLISHED then 0 else if is_error s \<noteq> 0 then is_error s else - ECONNREFUSED), st))"

definition inet_connect :: "nat \<Rightarrow> nat \<Rightarrow> string \<Rightarrow> inet \<Rightarrow> (u64 sys \<times> inet) ret" where
  "inet_connect c i name st =
     (if \<not> net_is_up st then Some (Ret (- ENETDOWN), st)
      else case inet_parse_addr name of
        None \<Rightarrow> Some (Ret (- EINVAL), st)
      | Some (ip, port) \<Rightarrow>
          if port = 0 then Some (Ret (- EINVAL), st)
          else let s = isock st i
               in if is_kind s = INET_UDP
                  then Some (Ret 0, upd_isock i (\<lambda>s. s\<lparr>is_remote_ip := ip, is_remote_port := port, is_connected := True\<rparr>) st)
                  else if is_state s \<noteq> TCP_CLOSED \<or> is_connected s then Some (Ret (- EINVAL), st)
                  else let (lport, st1) = inet_alloc_port (upd_isock i (\<lambda>s. s\<lparr>is_remote_ip := ip, is_remote_port := port\<rparr>) st);
                           (iss, st2) = inet_random (upd_isock i (\<lambda>s. s\<lparr>is_local_port := lport\<rparr>) st1);
                           st3 = upd_isock i (\<lambda>s. s\<lparr>is_iss := iss, is_snd_una := iss, is_snd_nxt := iss + 1, is_rto_ms := 1000,
                                   is_state := TCP_SYN_SENT, is_connected := True\<rparr>) st2
                       in do { st4 \<leftarrow> tcp_send_segment i iss TCP_SYN [] 0 st3;
                               let st5 = tcp_arm_timer i st4
                               in if inet_nonblocking (isock st5 i) then Some (Ret (- EINPROGRESS), st5)
                                  else inet_connect_wait c i (nt_now st5) st5 })"

definition inet_bind :: "nat \<Rightarrow> string \<Rightarrow> inet \<Rightarrow> int \<times> inet" where
  "inet_bind i name st =
     (case inet_parse_addr name of
        None \<Rightarrow> (- EINVAL, st)
      | Some (ip, port) \<Rightarrow>
          let s = isock st i
          in if port = 0 then (- EINVAL, st)
             else if is_connected s \<or> is_state s \<noteq> TCP_CLOSED then (- EINVAL, st)
             else if \<exists>j \<in> set [0..<length (inet_sockets st)]. j \<noteq> i \<and>
                       (let q = isock st j in is_used q \<and> is_kind q = is_kind s \<and> is_local_port q = port \<and> (is_kind s = INET_UDP \<or> \<not> is_connected q))
             then (- EADDRINUSE, st)
             else (0, upd_isock i (\<lambda>s. s\<lparr>is_local_port := port\<rparr>) st))"

definition inet_listen :: "nat \<Rightarrow> inet \<Rightarrow> int \<times> inet" where
  "inet_listen i st =
     (let s = isock st i
      in if is_kind s \<noteq> INET_TCP \<or> is_state s \<noteq> TCP_CLOSED \<or> is_connected s \<or> is_local_port s = 0 then (- EINVAL, st)
         else (0, upd_isock i (\<lambda>s. s\<lparr>is_state := TCP_LISTEN\<rparr>) st))"

text \<open>The first connection of the backlog, taken out of it for \<^verbatim>\<open>inet_accept\<close>.\<close>

definition inet_accept_pop :: "nat \<Rightarrow> inet \<Rightarrow> nat \<times> inet" where
  "inet_accept_pop i st =
     (let j = hd (is_backlog (isock st i)); st1 = upd_isock i (\<lambda>s. s\<lparr>is_backlog := tl (is_backlog s)\<rparr>) st
      in (j, upd_isock j (\<lambda>s. s\<lparr>is_parent := None, is_orphan := False, is_flags := is_flags (isock st1 i)\<rparr>) st1))"

definition inet_init :: "inet \<Rightarrow> inet" where
  "inet_init st = st\<lparr>inet_seq_seed := ucast (nt_now st) * 2654435761\<rparr>"

end
