(* ===== verification/NetInput.thy ===== *)
theory NetInput
  imports Inet
begin

text \<open>
  The receiving half of \<^verbatim>\<open>kernel/net/net.c\<close>: frames from the card and packets of the loopback queue down to the sockets,
  the echo of ICMP, and the configuration by DHCP. The waits of \<^verbatim>\<open>net_dhcp_init\<close>, \<^verbatim>\<open>net_init\<close> and \<^verbatim>\<open>net_ping\<close> are passes
  between which other tasks run and frames arrive.
\<close>

definition ICMP_TYPE_ECHO_REQUEST :: u8 where "ICMP_TYPE_ECHO_REQUEST = 8"
definition ICMP_TYPE_ECHO_REPLY :: u8 where "ICMP_TYPE_ECHO_REPLY = 0"
definition ICMP_HEADER :: u16 where "ICMP_HEADER = 8"
definition DHCP_SERVER_PORT :: u16 where "DHCP_SERVER_PORT = 67"
definition DHCP_CLIENT_PORT :: u16 where "DHCP_CLIENT_PORT = 68"
definition DHCP_OP_BOOTREQUEST :: u8 where "DHCP_OP_BOOTREQUEST = 1"
definition DHCP_OP_BOOTREPLY :: u8 where "DHCP_OP_BOOTREPLY = 2"
definition DHCP_HTYPE_ETHERNET :: u8 where "DHCP_HTYPE_ETHERNET = 1"
definition DHCP_MAGIC_COOKIE :: u32 where "DHCP_MAGIC_COOKIE = 0x63825363"
definition DHCP_OPT_PAD :: u8 where "DHCP_OPT_PAD = 0"
definition DHCP_OPT_SUBNET_MASK :: u8 where "DHCP_OPT_SUBNET_MASK = 1"
definition DHCP_OPT_ROUTER :: u8 where "DHCP_OPT_ROUTER = 3"
definition DHCP_OPT_DNS :: u8 where "DHCP_OPT_DNS = 6"
definition DHCP_OPT_REQUESTED_IP :: u8 where "DHCP_OPT_REQUESTED_IP = 50"
definition DHCP_OPT_MSG_TYPE :: u8 where "DHCP_OPT_MSG_TYPE = 53"
definition DHCP_OPT_SERVER_ID :: u8 where "DHCP_OPT_SERVER_ID = 54"
definition DHCP_OPT_PARAM_LIST :: u8 where "DHCP_OPT_PARAM_LIST = 55"
definition DHCP_OPT_END :: u8 where "DHCP_OPT_END = 255"
definition DHCP_MSG_DISCOVER :: u8 where "DHCP_MSG_DISCOVER = 1"
definition DHCP_MSG_OFFER :: u8 where "DHCP_MSG_OFFER = 2"
definition DHCP_MSG_REQUEST :: u8 where "DHCP_MSG_REQUEST = 3"
definition DHCP_MSG_ACK :: u8 where "DHCP_MSG_ACK = 5"
definition DHCP_MSG_NAK :: u8 where "DHCP_MSG_NAK = 6"
definition DHCP_HEADER :: nat where "DHCP_HEADER = 236"

subsection \<open>ICMP\<close>

definition icmp_packet :: "u8 \<Rightarrow> u8 \<Rightarrow> u16 \<Rightarrow> bytes \<Rightarrow> bytes" where
  "icmp_packet typ code checksum rest = [typ, code] @ le16 checksum @ rest"

definition icmp_handle_packet :: "ipv4 \<Rightarrow> bytes \<Rightarrow> u16 \<Rightarrow> inet \<Rightarrow> inet ret" where
  "icmp_handle_packet src_ip data len st =
     (if len < ICMP_HEADER then Some st
      else if length data < 8 then None
      else if data ! 0 = ICMP_TYPE_ECHO_REQUEST
      then let total_len = (if len > 1500 then 1500 else len)
           in do { buf \<leftarrow> copy_bytes 1500 (ucast total_len) data;
                   let rest = drop 4 buf;
                       sum = ip_checksum (icmp_packet ICMP_TYPE_ECHO_REPLY (buf ! 1) 0 rest)
                   in ipv4_send src_ip IPV4_PROTO_ICMP (icmp_packet ICMP_TYPE_ECHO_REPLY (buf ! 1) (net_htons sum) rest) total_len st }
      else if data ! 0 = ICMP_TYPE_ECHO_REPLY
      then Some (if net_htons (rd16 data 4) = ping_expected_id st \<and> net_htons (rd16 data 6) = ping_expected_seq st
                 then st\<lparr>ping_reply_received := True\<rparr> else st)
      else Some st)"

subsection \<open>DHCP replies\<close>

record dhcp_options =
  do_msg_type :: u8
  do_mask :: ipv4
  do_router :: ipv4
  do_server_id :: ipv4
  do_dns :: ipv4

definition dhcp_option :: "u8 \<Rightarrow> bytes \<Rightarrow> dhcp_options \<Rightarrow> dhcp_options" where
  "dhcp_option code oval r =
     (if code = DHCP_OPT_MSG_TYPE then (if length oval \<ge> 1 then r\<lparr>do_msg_type := oval ! 0\<rparr> else r)
      else if length oval < 4 then r
      else if code = DHCP_OPT_SUBNET_MASK then r\<lparr>do_mask := rd_ip oval 0\<rparr>
      else if code = DHCP_OPT_ROUTER then r\<lparr>do_router := rd_ip oval 0\<rparr>
      else if code = DHCP_OPT_DNS then r\<lparr>do_dns := rd_ip oval 0\<rparr>
      else if code = DHCP_OPT_SERVER_ID then r\<lparr>do_server_id := rd_ip oval 0\<rparr>
      else r)"

text \<open>The options of a reply; \<open>opt\<close> are exactly the \<^verbatim>\<open>opt_len\<close> bytes that hold them.\<close>

function dhcp_options_loop :: "bytes \<Rightarrow> dhcp_options \<Rightarrow> dhcp_options" where
  "dhcp_options_loop opt r =
     (case opt of
        [] \<Rightarrow> r
      | code # rest \<Rightarrow>
          if code = DHCP_OPT_PAD then dhcp_options_loop rest r
          else if code = DHCP_OPT_END then r
          else (case rest of
                  [] \<Rightarrow> r
                | olen # vs \<Rightarrow>
                    if unat olen > length vs then r
                    else dhcp_options_loop (drop (unat olen) vs) (dhcp_option code (take (unat olen) vs) r)))"
  by pat_completeness auto
termination by (relation "measure (\<lambda>(opt, _). length opt)") auto

declare dhcp_options_loop.simps [simp del]

definition dhcp_handle_reply :: "ipv4 \<Rightarrow> bytes \<Rightarrow> u16 \<Rightarrow> inet \<Rightarrow> inet ret" where
  "dhcp_handle_reply src_ip data len st =
     (if unat len < DHCP_HEADER + 4 then Some st
      else if length data < unat len then None
      else if data ! 0 \<noteq> DHCP_OP_BOOTREPLY then Some st
      else if net_htonl (rd32 data 4) \<noteq> dhcp_xid st then Some st
      else if take 6 (drop 28 data) \<noteq> our_mac st then Some st
      else if net_htonl (rd32 data 236) \<noteq> DHCP_MAGIC_COOKIE then Some st
      else let opt = drop 240 (take (unat len) data);
               r = dhcp_options_loop opt \<lparr>do_msg_type = 0, do_mask = ipv4_zero, do_router = ipv4_zero, do_server_id = src_ip,
                                          do_dns = dhcp_offered_dns st\<rparr>;
               st1 = st\<lparr>dhcp_offered_dns := do_dns r\<rparr>;
               offered_ip = rd_ip data 16
           in Some (if do_msg_type r = DHCP_MSG_OFFER \<and> \<not> dhcp_got_offer st1
                    then st1\<lparr>dhcp_offered_ip := offered_ip, dhcp_server_id := do_server_id r, dhcp_offered_mask := do_mask r,
                             dhcp_offered_gw := do_router r, dhcp_got_offer := True\<rparr>
                    else if do_msg_type r = DHCP_MSG_ACK
                    then st1\<lparr>dhcp_offered_ip := offered_ip, dhcp_offered_mask := do_mask r, dhcp_offered_gw := do_router r, dhcp_got_ack := True\<rparr>
                    else if do_msg_type r = DHCP_MSG_NAK then st1\<lparr>dhcp_got_nak := True\<rparr>
                    else st1))"

subsection \<open>Packets and frames\<close>

definition udp_handle_packet :: "ipv4 \<Rightarrow> bytes \<Rightarrow> u16 \<Rightarrow> inet \<Rightarrow> inet ret" where
  "udp_handle_packet src_ip data len st =
     (if len < UDP_HEADER then Some st
      else if length data < 8 then None
      else let dst_port = net_htons (rd16 data 2); src_port = net_htons (rd16 data 0); l = net_htons (rd16 data 4);
               udp_len = (if l > len then len else l); payload_len = udp_len - UDP_HEADER
           in if udp_listen_cb st \<and> dst_port = udp_listen_port st
              then dhcp_handle_reply src_ip (drop 8 data) payload_len st
              else inet_udp_deliver src_ip src_port dst_port (drop 8 data) payload_len st)"

definition ipv4_dispatch :: "ipv4 \<Rightarrow> u8 \<Rightarrow> bytes \<Rightarrow> u16 \<Rightarrow> inet \<Rightarrow> inet ret" where
  "ipv4_dispatch src_ip protocol payload len st =
     (if protocol = IPV4_PROTO_ICMP then icmp_handle_packet src_ip payload len st
      else if protocol = IPV4_PROTO_UDP then udp_handle_packet src_ip payload len st
      else if protocol = IPV4_PROTO_TCP then inet_tcp_deliver src_ip payload len st
      else Some st)"

fun loopback_loop :: "nat \<Rightarrow> inet \<Rightarrow> inet ret" where
  "loopback_loop 0 st = Some st"
| "loopback_loop (Suc n) st =
     (if loopback_head st < length (loopback_queue st)
      then let p = loopback_queue st ! loopback_head st
           in do { st1 \<leftarrow> ipv4_dispatch (lp_addr p) (lp_protocol p) (lp_data p) (lp_len p)
                           (st\<lparr>loopback_head := (loopback_head st + 1) mod LOOPBACK_QUEUE, loopback_count := loopback_count st - 1\<rparr>);
                   loopback_loop n st1 }
      else None)"

definition net_loopback_poll :: "inet \<Rightarrow> inet ret" where
  "net_loopback_poll st = loopback_loop (loopback_count st) st"

definition ipv4_handle_packet :: "bytes \<Rightarrow> u16 \<Rightarrow> inet \<Rightarrow> inet ret" where
  "ipv4_handle_packet data len st =
     (if len < IPV4_HEADER then Some st
      else if length data < 20 then None
      else let version = drop_bit 4 (data ! 0); ihl_words = data ! 0 AND 0xF
           in if version \<noteq> 4 \<or> ihl_words < 5 then Some st
              else let header_len = ucast ihl_words * 4
                   in if len < header_len then Some st
                      else let dst_ip = rd_ip data 16; have_ip = (\<not> ipv4_equal (our_ip st) ipv4_zero)
                           in if have_ip \<and> \<not> ipv4_equal dst_ip (our_ip st) \<and> \<not> ipv4_equal dst_ip (ipv4_from_bytes 255 255 255 255) then Some st
                              else let src_ip = rd_ip data 12; l = net_htons (rd16 data 2); total_len = (if l > len then len else l);
                                       payload_len = total_len - header_len
                                   in if have_ip \<or> data ! 9 = IPV4_PROTO_UDP
                                      then ipv4_dispatch src_ip (data ! 9) (drop (unat header_len) data) payload_len st
                                      else Some st)"

definition net_handle_frame :: "bytes \<Rightarrow> u16 \<Rightarrow> inet \<Rightarrow> inet ret" where
  "net_handle_frame frame len st =
     (if len < ETH_HEADER then Some st
      else if length frame < 14 then None
      else let ethertype = net_htons (rd16 frame 12); payload_len = len - ETH_HEADER
           in if ethertype = ETHERTYPE_ARP then arp_handle_packet (drop 14 frame) payload_len st
              else if ethertype = ETHERTYPE_IPV4 then ipv4_handle_packet (drop 14 frame) payload_len st
              else Some st)"

subsection \<open>Configuration\<close>

definition dhcp_put_option :: "u8 \<Rightarrow> bytes \<Rightarrow> bytes" where
  "dhcp_put_option code data = [code, of_nat (length data)] @ data"

definition dhcp_header :: "u32 \<Rightarrow> bytes \<Rightarrow> bytes" where
  "dhcp_header xid mac =
     [DHCP_OP_BOOTREQUEST, DHCP_HTYPE_ETHERNET, 6, 0] @ le32 (net_htonl xid) @ replicate 20 0 @ mac @ replicate 202 0"

definition dhcp_packet :: "u8 \<Rightarrow> ipv4 \<Rightarrow> ipv4 \<Rightarrow> bool \<Rightarrow> u32 \<Rightarrow> bytes \<Rightarrow> bytes" where
  "dhcp_packet msg_type requested_ip server_id include_server_id xid mac =
     dhcp_header xid mac @ le32 (net_htonl DHCP_MAGIC_COOKIE) @ dhcp_put_option DHCP_OPT_MSG_TYPE [msg_type] @
     (if msg_type = DHCP_MSG_REQUEST
      then dhcp_put_option DHCP_OPT_REQUESTED_IP (ipv4_bytes requested_ip) @
           (if include_server_id then dhcp_put_option DHCP_OPT_SERVER_ID (ipv4_bytes server_id) else [])
      else []) @
     dhcp_put_option DHCP_OPT_PARAM_LIST [DHCP_OPT_SUBNET_MASK, DHCP_OPT_ROUTER, DHCP_OPT_DNS] @ [DHCP_OPT_END]"

definition dhcp_send :: "u8 \<Rightarrow> ipv4 \<Rightarrow> ipv4 \<Rightarrow> bool \<Rightarrow> inet \<Rightarrow> inet ret" where
  "dhcp_send msg_type requested_ip server_id include_server_id st =
     (let packet = dhcp_packet msg_type requested_ip server_id include_server_id (dhcp_xid st) (our_mac st);
          len = UDP_HEADER + of_nat (length packet)
      in ipv4_send_from ipv4_zero (ipv4_from_bytes 255 255 255 255) BROADCAST_MAC IPV4_PROTO_UDP
           (udp_header DHCP_CLIENT_PORT DHCP_SERVER_PORT len @ packet) len st)"

definition arp_empty :: "arp_entry list" where
  "arp_empty = replicate ARP_CACHE_SIZE \<lparr>ae_valid = False, ae_ip = ipv4_zero, ae_mac = replicate 6 0\<rparr>"

text \<open>\<^verbatim>\<open>net_init\<close> up to the wait for the gateway's answer, and after it.\<close>

definition net_init_start :: "ipv4 \<Rightarrow> ipv4 \<Rightarrow> ipv4 \<Rightarrow> inet \<Rightarrow> inet" where
  "net_init_start ip gw nm st =
     nic_set_rx_callback (st\<lparr>arp_cache := arp_empty, our_mac := nic_mac st, our_ip := ip, gateway_ip := gw, netmask := nm,
       dns_ip := (case gw of ipv4_from_bytes a b c d \<Rightarrow> ipv4_from_bytes a b c 3)\<rparr>)"

definition net_init_finish :: "inet \<Rightarrow> inet" where
  "net_init_finish st = st\<lparr>net_up := True\<rparr>"

definition udp_listen :: "u16 \<Rightarrow> bool \<Rightarrow> inet \<Rightarrow> inet" where
  "udp_listen port cb st = st\<lparr>udp_listen_port := port, udp_listen_cb := cb\<rparr>"

definition dhcp_start :: "inet \<Rightarrow> inet ret" where
  "dhcp_start st =
     (let mac = nic_mac st
      in if length mac < 6 then None
         else dhcp_send DHCP_MSG_DISCOVER ipv4_zero ipv4_zero False
                ((udp_listen DHCP_CLIENT_PORT True (nic_set_rx_callback (st\<lparr>our_mac := mac, our_ip := ipv4_zero, gateway_ip := ipv4_zero,
                    netmask := ipv4_zero, arp_cache := arp_empty, dhcp_offered_dns := ipv4_zero\<rparr>)))
                  \<lparr>dhcp_xid := push_bit 24 (ucast (mac ! 2)) OR push_bit 16 (ucast (mac ! 3)) OR push_bit 8 (ucast (mac ! 4)) OR ucast (mac ! 5),
                   dhcp_got_offer := False, dhcp_got_ack := False, dhcp_got_nak := False\<rparr>))"

text \<open>Where \<^verbatim>\<open>net_dhcp_init\<close> waits: for the offer, for the answer to the request, or for the gateway in \<^verbatim>\<open>net_init\<close>.\<close>

datatype dhcp_phase = Wait_Offer u64 | Wait_Ack u64 | Wait_Gateway u64 u64 bool

definition dhcp_sleep :: "nat \<Rightarrow> u8 \<Rightarrow> ipv4 \<Rightarrow> ipv4 \<Rightarrow> bool \<Rightarrow> u64 \<Rightarrow> inet \<Rightarrow> inet ret" where
  "dhcp_sleep c msg ip server incl spins st =
     do { st1 \<leftarrow> (if spins > 0 \<and> spins mod 300000 = 0 then dhcp_send msg ip server incl st else Some st);
          sc \<leftarrow> task_sleep_ms c 1 (nt_sched st1);
          Some (st1\<lparr>nt_sched := sc\<rparr>) }"

definition net_dhcp_pass :: "nat \<Rightarrow> u32 \<Rightarrow> dhcp_phase \<Rightarrow> inet \<Rightarrow> ((bool + dhcp_phase) \<times> inet) ret" where
  "net_dhcp_pass c timeout_ms ph st =
     (let max_spins = ucast timeout_ms * 50000
      in case ph of
        Wait_Offer spins \<Rightarrow>
          if dhcp_got_offer st
          then do { st1 \<leftarrow> dhcp_send DHCP_MSG_REQUEST (dhcp_offered_ip st) (dhcp_server_id st) True st; Some (Inr (Wait_Ack 0), st1) }
          else if spins \<ge> max_spins then Some (Inl False, st)
          else do { st1 \<leftarrow> dhcp_sleep c DHCP_MSG_DISCOVER ipv4_zero ipv4_zero False spins st; Some (Inr (Wait_Offer (spins + 50000)), st1) }
      | Wait_Ack spins \<Rightarrow>
          if dhcp_got_ack st \<or> dhcp_got_nak st
          then if dhcp_got_nak st then Some (Inl False, st)
               else let st1 = net_init_start (dhcp_offered_ip st) (dhcp_offered_gw st) (dhcp_offered_mask st)
                                (udp_listen 0 False st)
                    in Some (Inr (Wait_Gateway (task_uptime_ms (nt_sched st1)) 0 True), st1)
          else if spins \<ge> max_spins then Some (Inl False, st)
          else do { st1 \<leftarrow> dhcp_sleep c DHCP_MSG_REQUEST (dhcp_offered_ip st) (dhcp_server_id st) True spins st; Some (Inr (Wait_Ack (spins + 50000)), st1) }
      | Wait_Gateway start last_request first \<Rightarrow>
          do { (r, st1) \<leftarrow> arp_resolve_pass c (gateway_ip st) 3000 start (last_request, first) st;
               case r of
                 Inr (l, f) \<Rightarrow> Some (Inr (Wait_Gateway start l f), st1)
               | Inl _ \<Rightarrow> let st2 = net_init_finish st1
                         in Some (Inl True, if dhcp_offered_dns st2 \<noteq> ipv4_zero then st2\<lparr>dns_ip := dhcp_offered_dns st2\<rparr> else st2) })"

subsection \<open>Ping\<close>

definition net_ping_start :: "ipv4 \<Rightarrow> inet \<Rightarrow> inet ret" where
  "net_ping_start dst st =
     (let seq = ping_seq st + 1; rest = le16 (net_htons 0xBEEF) @ le16 (net_htons seq);
          sum = ip_checksum (icmp_packet ICMP_TYPE_ECHO_REQUEST 0 0 rest)
      in ipv4_send dst IPV4_PROTO_ICMP (icmp_packet ICMP_TYPE_ECHO_REQUEST 0 (net_htons sum) rest) 8
           (st\<lparr>ping_seq := seq, ping_reply_received := False, ping_expected_id := 0xBEEF, ping_expected_seq := seq\<rparr>))"

definition net_ping_pass :: "u32 \<Rightarrow> u64 \<Rightarrow> inet \<Rightarrow> bool + u64" where
  "net_ping_pass timeout_ms spins st =
     (if \<not> spins < ucast timeout_ms * 50000 then Inl False
      else if ping_reply_received st then Inl True
      else Inr (spins + 1))"

end
