(* ===== verification/NetSpec.thy ===== *)
theory NetSpec
  imports NetInput
begin

text \<open>
  What the network code promises about packets: the checksum of everything it sends is right, a header that was written is
  read back as it was, an ARP exchange makes the two machines know each other, and a datagram that one machine
  sends is the datagram a socket of the other machine gets.
\<close>

subsection \<open>The checksum\<close>

text \<open>The sum of the 16-bit values of a packet, as a number.\<close>

fun word_sum :: "bytes \<Rightarrow> nat" where
  "word_sum [] = 0"
| "word_sum [a] = 256 * unat a"
| "word_sum (a # b # bs) = 256 * unat a + unat b + word_sum bs"

lemma unat_pair: "unat (push_bit 8 (ucast a) OR ucast b :: u32) = 256 * unat (a :: u8) + unat (b :: u8)"
proof -
  have "push_bit 8 (ucast a) OR ucast b = push_bit 8 (ucast a) + (ucast b :: u32)"
    by (rule disjunctive_add_eq_or [symmetric]) (auto simp: bit_eq_iff bit_simps dest: bit_imp_le_length)
  also have "unat \<dots> = 256 * unat a + unat b"
    using unat_lt_8 [of a] unat_lt_8 [of b]
    by (simp add: unat_word_ariths push_bit_eq_mult unsigned_ucast_eq take_bit_nat_eq_self)
  finally show ?thesis .
qed

lemma word_sum_bound: "word_sum p \<le> 65535 * length p"
proof (induction p rule: word_sum.induct)
  case (2 a)
  then show ?case using unat_lt_8 [of a] by simp
next
  case (3 a b bs)
  then show ?case using unat_lt_8 [of a] unat_lt_8 [of b] by simp
qed simp

lemma unat_sum_bytes: "unat s + word_sum p < 2 ^ 32 \<Longrightarrow> unat (sum_bytes p s) = unat s + word_sum p"
proof (induction p s rule: sum_bytes.induct)
  case (2 a s)
  have "unat (push_bit 8 (ucast a) :: u32) = 256 * unat a"
    using unat_pair [of a 0] by simp
  then show ?case using 2 by (simp add: unat_add_nowrap)
next
  case (3 a b bs s)
  have "unat (s + (push_bit 8 (ucast a) OR ucast b)) = unat s + (256 * unat a + unat b)"
    using 3(2) by (subst unat_add_nowrap) (simp_all add: unat_pair)
  then show ?case using 3 by simp
qed simp

lemma mod_65535: "(65536 * q + r) mod 65535 = (r + q) mod (65535 :: nat)"
proof -
  have "65536 * q + r = (r + q) + 65535 * q" by simp
  then show ?thesis by (simp only: mod_mult_self2)
qed

lemma sum_fold_mod: "unat (sum_fold s) mod 65535 = unat s mod 65535"
proof (induction s rule: sum_fold.induct)
  case (1 s)
  show ?case
  proof (cases "drop_bit 16 s = 0")
    case False
    have "unat s mod 65535 = (65536 * (unat s div 65536) + unat s mod 65536) mod 65535" by simp
    also have "\<dots> = (unat s mod 65536 + unat s div 65536) mod 65535" by (rule mod_65535)
    finally show ?thesis using 1 [OF False] False by (subst sum_fold.simps) (simp add: fold_step_unat)
  qed (simp add: sum_fold.simps)
qed

lemma sum_fold_bound: "unat (sum_fold s) \<le> 65535" "0 < unat s \<Longrightarrow> 0 < unat (sum_fold s)"
proof (induction s rule: sum_fold.induct)
  case (1 s)
  {
    case 1
    show ?case
    proof (cases "drop_bit 16 s = 0")
      case True
      then have "unat (drop_bit 16 s) = 0" by simp
      then have "unat s div 65536 = 0" by (simp add: drop_bit_eq_div unat_div)
      then show ?thesis using True by (simp add: sum_fold.simps div_eq_0_iff)
    qed (use "1.IH" in \<open>subst sum_fold.simps, simp\<close>)
  next
    case 2
    then have "0 < unat ((s AND 0xFFFF) + drop_bit 16 s)" unfolding fold_step_unat
      by (metis add_is_0 div_mult_mod_eq gr0I mult_0 not_gr_zero)
    with 2 show ?case using "1.IH"(2) by (cases "drop_bit 16 s = 0") (subst sum_fold.simps, simp)+
  }
qed

lemma word_sum_append: "even (length p) \<Longrightarrow> word_sum (p @ q) = word_sum p + word_sum q"
  by (induction p rule: word_sum.induct) auto

lemma le16_htons: "le16 (net_htons v) = [ucast (drop_bit 8 v), ucast v]"
  by (auto simp: le16_def net_htons_def bit_eq_iff bit_simps dest: bit_imp_le_length)

lemma word_sum_htons: "word_sum (le16 (net_htons v)) = unat v"
proof -
  have "unat v < 2 ^ 16" using unsigned_less [of v] by simp
  then have "unat (ucast (drop_bit 8 v) :: u8) = unat v div 256"
    by (simp add: unsigned_ucast_eq drop_bit_eq_div unat_div take_bit_nat_eq_self less_mult_imp_div_less)
  moreover have "unat (ucast v :: u8) = unat v mod 256" by (simp add: unsigned_ucast_eq take_bit_eq_mod)
  ultimately show ?thesis by (simp add: le16_htons)
qed

lemma unat_not_16: "unat (NOT w :: u16) = 65535 - unat w"
proof -
  have "NOT w = - 1 - w" by (simp add: not_eq_complement)
  moreover have "unat (- 1 :: u16) = 65535" by (simp add: unsigned_minus_1_eq_mask mask_eq_exp_minus_1)
  moreover have "unat w < 2 ^ 16" using unsigned_less [of w] by simp
  then have "unat w \<le> 65535" by simp
  ultimately show ?thesis by (simp add: unat_sub word_le_nat_alt)
qed

lemma unat_fold_16: "unat (ucast (sum_fold s) :: u16) = unat (sum_fold s)"
  using sum_fold_bound(1) [of s] by (simp add: unsigned_ucast_eq take_bit_nat_eq_self)

text \<open>A checksum in its place, at an even offset, makes the checksum of the whole zero.\<close>

lemma checksum_inserted:
  assumes "even (length pre)" and "length pre + length post \<le> 32768" and "unat s0 \<le> 1000000"
    and "c = NOT (ucast (sum_fold (sum_bytes (pre @ le16 0 @ post) s0)) :: u16)"
  shows "NOT (ucast (sum_fold (sum_bytes (pre @ le16 (net_htons c) @ post) s0)) :: u16) = 0"
proof -
  define S where "S = unat s0 + word_sum (pre @ post)"
  have "word_sum (pre @ post) \<le> 65535 * 32768"
    using word_sum_bound [of "pre @ post"] mult_le_mono2 [OF assms(2), of 65535] by simp
  then have S: "S \<le> 65535 * 32768 + 1000000" using assms(3) by (simp add: S_def)
  have ws: "word_sum (pre @ le16 (net_htons v) @ post) = word_sum (pre @ post) + unat v" for v
    using word_sum_append [OF assms(1)] word_sum_append [of "le16 (net_htons v)" post] word_sum_htons [of v] by (simp add: le16_def)
  have "le16 0 = le16 (net_htons 0)" by (simp add: net_htons_def)
  then have s1: "unat (sum_bytes (pre @ le16 0 @ post) s0) = S"
    using S by (subst unat_sum_bytes) (simp_all add: ws S_def)
  define f where "f = unat (sum_fold (sum_bytes (pre @ le16 0 @ post) s0))"
  have f: "f \<le> 65535" "f mod 65535 = S mod 65535" "S > 0 \<Longrightarrow> 0 < f"
    using sum_fold_bound [of "sum_bytes (pre @ le16 0 @ post) s0"] sum_fold_mod [of "sum_bytes (pre @ le16 0 @ post) s0"] s1 by (simp_all add: f_def)
  have c: "unat c = 65535 - f" unfolding assms(4) unat_not_16 unat_fold_16 f_def ..
  let ?T = "S + unat c"
  have s2: "unat (sum_bytes (pre @ le16 (net_htons c) @ post) s0) = ?T"
    using S c by (subst unat_sum_bytes) (simp_all add: ws S_def)
  have "(?T + f) mod 65535 = (f + 65535) mod 65535" using c f(1,2) by (metis add.assoc add.commute le_add_diff_inverse2 mod_add_cong mod_add_self2)
  then have "?T mod 65535 = 0"
    by (metis add.commute add_diff_cancel_left' mod_add_self1 mod_eq_dvd_iff_nat dvd_imp_mod_0 le_add1 mod_mod_trivial)
  moreover have "f = 0" if "S = 0" using s1 that by (simp add: f_def unat_eq_0 sum_fold.simps)
  then have "0 < ?T" using c by (cases "S = 0") auto
  moreover define g where "g = unat (sum_fold (sum_bytes (pre @ le16 (net_htons c) @ post) s0))"
  ultimately have "g mod 65535 = 0" "0 < g" "g \<le> 65535"
    using sum_fold_mod [of "sum_bytes (pre @ le16 (net_htons c) @ post) s0"] sum_fold_bound [of "sum_bytes (pre @ le16 (net_htons c) @ post) s0"] s2
    by simp_all
  then have "g = 65535" by (metis le_neq_implies_less mod_less not_gr_zero)
  then have "unat (NOT (ucast (sum_fold (sum_bytes (pre @ le16 (net_htons c) @ post) s0)) :: u16)) = 0"
    unfolding unat_not_16 unat_fold_16 g_def [symmetric] by simp
  then show ?thesis by (simp add: unat_eq_0)
qed

subsection \<open>Headers\<close>

lemma htons_bytes: "net_htons (ucast (ucast (drop_bit 8 v) :: u8) OR push_bit 8 (ucast (ucast v :: u8))) = v"
  unfolding net_htons_def by (rule bit_eqI) (auto simp: bit_simps)

lemma le32_htonl: "le32 (net_htonl v) = [ucast (drop_bit 24 v), ucast (drop_bit 16 v), ucast (drop_bit 8 v), ucast v]"
proof -
  have m: "(0x000000FF :: u32) = mask 8" "(0x0000FF00 :: u32) = push_bit 8 (mask 8)" "(0x00FF0000 :: u32) = push_bit 16 (mask 8)"
    "(0xFF000000 :: u32) = push_bit 24 (mask 8)" by (simp_all add: mask_eq_exp_minus_1 push_bit_eq_mult)
  show ?thesis unfolding le32_def net_htonl_def m by (auto simp: bit_eq_iff bit_simps)
qed

lemma length_ipv4 [simp]: "length (ipv4_bytes ip) = 4"
  by (simp add: ipv4_bytes_def split: ipv4.split)

lemma ipv4_bytes_cases: obtains a b c d where "ipv4_bytes ip = [a, b, c, d]" "ip = ipv4_from_bytes a b c d"
  by (cases ip) (simp add: ipv4_bytes_def)

lemma length_headers [simp]:
  "length (ipv4_packet_header l ident pr src dst) = 20" "length (udp_header sp dp l) = 8"
  by (simp_all add: ipv4_packet_header_def ipv4_header_def udp_header_def le16_def)

lemma ipv4_header_fields:
  assumes "data = ipv4_packet_header l ident pr src dst @ p"
  shows "data ! 0 = 0x45" "net_htons (rd16 data 2) = l" "data ! 9 = pr" "rd_ip data 12 = src" "rd_ip data 16 = dst" "drop 20 data = p"
proof -
  obtain a b c d where s: "ipv4_bytes src = [a, b, c, d]" "src = ipv4_from_bytes a b c d" by (rule ipv4_bytes_cases)
  obtain a' b' c' d' where t: "ipv4_bytes dst = [a', b', c', d']" "dst = ipv4_from_bytes a' b' c' d'" by (rule ipv4_bytes_cases)
  show "data ! 0 = 0x45" "net_htons (rd16 data 2) = l" "data ! 9 = pr" "rd_ip data 12 = src" "rd_ip data 16 = dst" "drop 20 data = p"
    using htons_bytes [of l]
    unfolding rd16_def rd_ip_def assms ipv4_packet_header_def ipv4_header_def le16_htons s(1) t(1)
    by (simp_all add: s(2) t(2) le16_def)
qed


subsection \<open>Sending a packet\<close>

lemma unat_ucast_16_64 [simp]: "unat (ucast (a :: u16) :: u64) = unat a"
  using unat_lt_16 [of a] by (simp add: unsigned_ucast_eq take_bit_nat_eq_self)

lemma ucast_minus_16:
  assumes "unat h + unat l < 65536"
  shows "(ucast (h + l :: u16) - ucast h :: u64) = ucast l"
proof -
  have "unat (h + l) = unat h + unat l" using assms by (subst unat_add_nowrap) simp_all
  then have "unat (ucast (h + l) - ucast h :: u64) = unat (ucast l :: u64)" by (subst unat_diff_nowrap) simp_all
  then show ?thesis by (simp only: word_unat_eq_iff)
qed

lemma copy_bytes_exact: "length p = unat n \<Longrightarrow> unat n \<le> room \<Longrightarrow> copy_bytes room n p = Some p"
  by (simp add: copy_bytes_def)

lemma eth_send_frame:
  assumes "length p = unat l" and "unat l \<le> 1500" and "nic_active s"
  shows "eth_send mac ty p l s = Some (s\<lparr>nic_tx := nic_tx s @ [eth_header mac (our_mac s) ty @ p]\<rparr>)"
proof -
  have "unat (ETH_HEADER + l) = 14 + unat l" using assms(2) by (subst unat_add_nowrap) (simp_all add: ETH_HEADER_def)
  then have "\<not> ETH_HEADER + l > 1514" using assms(2) by (simp add: word_less_nat_alt)
  moreover have "ucast (ETH_HEADER + l) - ucast ETH_HEADER = (ucast l :: u64)"
    using assms(2) by (intro ucast_minus_16) (simp add: ETH_HEADER_def)
  moreover have "copy_bytes 1500 (ucast l) p = Some p" using assms(1,2) by (intro copy_bytes_exact) simp_all
  ultimately show ?thesis using assms(3) by (simp add: eth_send_def Let_def nic_send_def)
qed

text \<open>The frame with an IPv4 packet in it.\<close>

definition ipv4_frame :: "bytes \<Rightarrow> bytes \<Rightarrow> u16 \<Rightarrow> u8 \<Rightarrow> ipv4 \<Rightarrow> ipv4 \<Rightarrow> bytes \<Rightarrow> bytes" where
  "ipv4_frame dst_mac src_mac ident protocol src dst p =
     eth_header dst_mac src_mac ETHERTYPE_IPV4 @ ipv4_packet_header (20 + of_nat (length p)) ident protocol src dst @ p"

lemma ipv4_send_from_frame:
  assumes "length p = unat l" and "unat l \<le> 1480" and "nic_active s"
  shows "ipv4_send_from src dst mac pr p l s =
    Some (s\<lparr>next_id := next_id s + 1, nic_tx := nic_tx s @ [ipv4_frame mac (our_mac s) (next_id s) pr src dst p]\<rparr>)"
proof -
  have u: "unat (IPV4_HEADER + l) = 20 + unat l" using assms(2) by (subst unat_add_nowrap) (simp_all add: IPV4_HEADER_def)
  then have "\<not> IPV4_HEADER + l > 1500" using assms(2) by (simp add: word_less_nat_alt)
  moreover have "ucast (IPV4_HEADER + l) - ucast IPV4_HEADER = (ucast l :: u64)"
    using assms(2) by (intro ucast_minus_16) (simp add: IPV4_HEADER_def)
  moreover have "copy_bytes 1480 (ucast l) p = Some p" using assms(1,2) by (intro copy_bytes_exact) simp_all
  moreover have "20 + of_nat (length p) = IPV4_HEADER + l" by (simp add: assms(1) IPV4_HEADER_def)
  ultimately show ?thesis using assms u
    by (simp add: ipv4_send_from_def Let_def eth_send_frame ipv4_frame_def)
qed

definition route :: "ipv4 \<Rightarrow> 'a net_scheme \<Rightarrow> ipv4" where
  "route dst s = (if ipv4_same_subnet dst (our_ip s) (netmask s) then dst else gateway_ip s)"

lemma ipv4_send_frame:
  assumes "\<not> ipv4_is_local dst s" and "arp_lookup (route dst s) s = Some mac" and "length p = unat l" and "unat l \<le> 1480" and "nic_active s"
  shows "ipv4_send dst pr p l s =
    Some (s\<lparr>next_id := next_id s + 1, nic_tx := nic_tx s @ [ipv4_frame mac (our_mac s) (next_id s) pr (our_ip s) dst p]\<rparr>)"
  using assms(2) ipv4_send_from_frame [OF assms(3-5), of "our_ip s" dst mac pr] assms(1)
  by (simp add: ipv4_send_def route_def Let_def)

lemma udp_send_frame:
  assumes "\<not> ipv4_is_local dst s" and "arp_lookup (route dst s) s = Some mac" and "length p = unat l" and "unat l \<le> 1472" and "nic_active s"
  shows "udp_send dst sp dp p l s =
    Some (s\<lparr>next_id := next_id s + 1, nic_tx := nic_tx s @
      [ipv4_frame mac (our_mac s) (next_id s) IPV4_PROTO_UDP (our_ip s) dst (udp_header sp dp (8 + l) @ p)]\<rparr>)"
proof -
  have u: "unat (UDP_HEADER + l) = 8 + unat l" using assms(4) by (subst unat_add_nowrap) (simp_all add: UDP_HEADER_def)
  then have "\<not> UDP_HEADER + l > 1500" using assms(4) by (simp add: word_less_nat_alt)
  moreover have "ucast (UDP_HEADER + l) - ucast UDP_HEADER = (ucast l :: u64)"
    using assms(4) by (intro ucast_minus_16) (simp add: UDP_HEADER_def)
  moreover have "copy_bytes 1492 (ucast l) p = Some p" using assms(3,4) by (intro copy_bytes_exact) simp_all
  ultimately show ?thesis using assms u ipv4_send_frame [OF assms(1,2) _ _ assms(5), of "udp_header sp dp (8 + l) @ p" "8 + l" IPV4_PROTO_UDP]
    by (simp add: udp_send_def Let_def UDP_HEADER_def)
qed

subsection \<open>Receiving a packet\<close>

lemma eth_header_length: "length mac = 6 \<Longrightarrow> length mac' = 6 \<Longrightarrow> length (eth_header mac mac' ty) = 14"
  by (simp add: eth_header_def le16_def)

lemma eth_header_type:
  assumes "length mac = 6" and "length mac' = 6"
  shows "net_htons (rd16 (eth_header mac mac' ty @ p) 12) = ty" "drop 14 (eth_header mac mac' ty @ p) = p"
proof -
  have "(mac @ mac' @ [x, y] @ p) ! 12 = x" "(mac @ mac' @ [x, y] @ p) ! 13 = y" for x y
    using assms by (simp_all add: nth_append)
  then show "net_htons (rd16 (eth_header mac mac' ty @ p) 12) = ty"
    using htons_bytes [of ty] by (simp add: eth_header_def rd16_def le16_htons)
  show "drop 14 (eth_header mac mac' ty @ p) = p" using eth_header_length [OF assms] by simp
qed

lemma ipv4_frame_received:
  assumes "length mac = 6" and "length mac' = 6" and "length p \<le> 1480"
    and "our_ip st \<noteq> ipv4_zero" and "dst = our_ip st \<or> dst = ipv4_from_bytes 255 255 255 255"
  shows "net_handle_frame (ipv4_frame mac mac' ident pr src dst p) (of_nat (length (ipv4_frame mac mac' ident pr src dst p))) st =
    ipv4_dispatch src pr p (of_nat (length p)) st"
proof -
  let ?n = "of_nat (length p) :: u16"
  define data where "data = ipv4_packet_header (20 + ?n) ident pr src dst @ p"
  note fields = ipv4_header_fields [OF data_def]
  let ?f = "ipv4_frame mac mac' ident pr src dst p"
  have f: "?f = eth_header mac mac' ETHERTYPE_IPV4 @ data" by (simp add: ipv4_frame_def data_def)
  have l: "of_nat (length ?f) = ETH_HEADER + (IPV4_HEADER + ?n)" "length ?f = 34 + length p"
    using eth_header_length [OF assms(1,2)] by (simp_all add: f data_def ETH_HEADER_def IPV4_HEADER_def)
  have un: "unat ?n = length p" using assms(3) by (intro unat_of_nat_small) simp
  have u: "unat (IPV4_HEADER + ?n) = 20 + length p" using assms(3) un by (subst unat_add_nowrap) (simp_all add: IPV4_HEADER_def)
  have u': "unat (ETH_HEADER + (IPV4_HEADER + ?n)) = 34 + length p" using assms(3) u by (subst unat_add_nowrap) (simp_all add: ETH_HEADER_def)
  have "net_handle_frame ?f (of_nat (length ?f)) st = ipv4_handle_packet data (IPV4_HEADER + ?n) st"
    using eth_header_type [OF assms(1,2), of ETHERTYPE_IPV4 data] u' l(2)
    unfolding net_handle_frame_def l(1)
    by (simp add: word_less_nat_alt Let_def f ETHERTYPE_IPV4_def ETHERTYPE_ARP_def ETH_HEADER_def)
  also have "\<dots> = ipv4_dispatch src pr p ?n st"
  proof -
    have "\<not> IPV4_HEADER + ?n < IPV4_HEADER" "\<not> length data < 20" "\<not> IPV4_HEADER + ?n < 20"
      using u by (simp_all add: word_less_nat_alt data_def IPV4_HEADER_def)
    moreover have "data ! 0 = 0x45" "unat IPV4_HEADER = 20" by (rule fields) (simp add: IPV4_HEADER_def)
    moreover have "IPV4_HEADER + ?n - 20 = ?n" "20 + ?n = IPV4_HEADER + ?n" by (simp_all add: IPV4_HEADER_def)
    ultimately show ?thesis using fields assms(4,5)
      by (auto simp: ipv4_handle_packet_def Let_def ipv4_equal_def)
  qed
  finally show ?thesis .
qed

subsection \<open>Datagrams\<close>

definition net_awake :: "'a net_scheme \<Rightarrow> bool" where
  "net_awake st \<longleftrightarrow> (\<exists>qs. ring (nt_sched st) qs)"

lemma nt_wake_ok:
  assumes "net_awake st"
  shows "\<exists>sc. nt_wake st = Some (st\<lparr>nt_sched := sc\<rparr>) \<and> (\<exists>qs. ring sc qs) \<and> sc_mem sc = sc_mem (nt_sched st)"
proof -
  obtain qs where "ring (nt_sched st) qs" using assms by (auto simp: net_awake_def)
  then show ?thesis
    by (intro exI [of _ "wake (\<lambda>t. t_waiting t \<and> t_state t = TASK_SLEEPING) (set qs) (nt_sched st)"] conjI exI [of _ qs])
      (simp_all add: nt_wake_def task_wake_waiters_ring, simp add: wake_def)
qed

text \<open>The datagrams that wait in a UDP socket, oldest first: sender, sender's port and contents.\<close>

definition dgram :: "udp_datagram \<Rightarrow> ipv4 \<times> u16 \<times> bytes" where
  "dgram d = (ud_src_ip d, ud_src_port d, take (unat (ud_len d)) (ud_data d))"

definition udp_items :: "inet_socket \<Rightarrow> (ipv4 \<times> u16 \<times> bytes) list" where
  "udp_items s = map (\<lambda>k. dgram (is_udp s ! ((is_udp_head s + k) mod UDP_QUEUE))) [0..<is_udp_count s]"

definition udp_ok :: "inet_socket \<Rightarrow> bool" where
  "udp_ok s \<longleftrightarrow> length (is_udp s) = UDP_QUEUE \<and> is_udp_head s < UDP_QUEUE \<and> is_udp_count s \<le> UDP_QUEUE \<and>
     (\<forall>d \<in> set (is_udp s). length (ud_data d) = 1500)"

lemma queue_index_ne: "k < c \<Longrightarrow> c < 256 \<Longrightarrow> h < 256 \<Longrightarrow> (h + k) mod 256 \<noteq> (h + c) mod (256 :: nat)"
  by (simp add: mod_if split: if_splits) linarith

lemma udp_deliver_appends:
  assumes "first_index (udp_accepts ip sp dp) (inet_sockets st) = Some i" and "udp_ok (isock st i)" and "is_udp_count (isock st i) < UDP_QUEUE"
    and "net_awake st" and "unat l \<le> length p" and "unat l \<le> 1500"
  shows "\<exists>st'. inet_udp_deliver ip sp dp p l st = Some st' \<and> udp_ok (isock st' i) \<and>
    udp_items (isock st' i) = udp_items (isock st i) @ [(ip, sp, take (unat l) p)] \<and> (\<forall>j. j \<noteq> i \<longrightarrow> isock st' j = isock st j)"
proof -
  let ?s = "isock st i" let ?h = "is_udp_head ?s" and ?c = "is_udp_count ?s"
  let ?k = "(?h + ?c) mod UDP_QUEUE"
  have i: "i < length (inet_sockets st)" using first_index_Some [OF assms(1)] by simp
  note ok = assms(2) [unfolded udp_ok_def]
  have k: "?k < length (is_udp ?s)" using ok by (simp add: UDP_QUEUE_def)
  have l: "\<not> l > UDP_MAX_DGRAM" using assms(6) by (simp add: word_less_nat_alt UDP_MAX_DGRAM_def)
  have cp: "copy_bytes 1500 (ucast l) p = Some (take (unat l) p)" using assms(5,6) by (simp add: copy_bytes_def)
  define d where "d = \<lparr>ud_len = l, ud_src_ip = ip, ud_src_port = sp, ud_data = take (unat l) p @ drop (unat l) (ud_data (is_udp ?s ! ?k))\<rparr>"
  define s1 where "s1 = ?s\<lparr>is_udp := (is_udp ?s)[?k := d], is_udp_count := ?c + 1\<rparr>"
  let ?st = "upd_isock i (\<lambda>s. s\<lparr>is_udp := (is_udp s)[?k := d], is_udp_count := is_udp_count s + 1\<rparr>) st"
  have awake: "net_awake ?st" using assms(4) by (simp add: net_awake_def upd_isock_def)
  obtain sc where w: "nt_wake ?st = Some (?st\<lparr>nt_sched := sc\<rparr>)" using nt_wake_ok [OF awake] by blast
  have is1: "isock (?st\<lparr>nt_sched := sc\<rparr>) i = s1" using i by (simp add: isock_def upd_isock_def s1_def)
  have res: "inet_udp_deliver ip sp dp p l st = Some (?st\<lparr>nt_sched := sc\<rparr>)"
  proof -
    have "inet_udp_deliver ip sp dp p l st = nt_wake ?st"
      using assms(1,3,5) k l cp by (simp add: inet_udp_deliver_def Let_def d_def upd_isock_def min_def)
    then show ?thesis using w by simp
  qed
  have dk: "length (ud_data (is_udp ?s ! ?k)) = 1500" using ok k by (simp add: nth_mem)
  have dg: "dgram d = (ip, sp, take (unat l) p)" using assms(5) by (simp add: dgram_def d_def min_def)
  have "udp_ok s1" using ok assms(3,5,6) dk k set_update_subset_insert [of "is_udp ?s" ?k d] by (auto simp: udp_ok_def s1_def d_def)
  moreover have "udp_items s1 = udp_items ?s @ [(ip, sp, take (unat l) p)]"
  proof -
    have "?k \<noteq> (?h + j) mod UDP_QUEUE" if "j < ?c" for j
      using queue_index_ne [OF that, of ?h, THEN not_sym] ok assms(3) by (simp add: UDP_QUEUE_def)
    then show ?thesis using k dg by (simp add: udp_items_def s1_def)
  qed
  ultimately show ?thesis using res is1
    by (intro exI [of _ "?st\<lparr>nt_sched := sc\<rparr>"]) (simp add: isock_def upd_isock_def)
qed

lemma udp_packet_received:
  assumes "\<not> (udp_listen_cb st \<and> dp = udp_listen_port st)" and "length p = unat l" and "unat l \<le> 1472"
  shows "udp_handle_packet ip (udp_header sp dp (8 + l) @ p) (8 + l) st = inet_udp_deliver ip sp dp p l st"
proof -
  let ?d = "udp_header sp dp (8 + l) @ p"
  have u: "unat (8 + l) = 8 + unat l" using assms(3) by (subst unat_add_nowrap) simp_all
  have "net_htons (rd16 ?d 0) = sp" "net_htons (rd16 ?d 2) = dp" "net_htons (rd16 ?d 4) = 8 + l"
    using htons_bytes [of sp] htons_bytes [of dp] htons_bytes [of "8 + l"] unfolding rd16_def udp_header_def le16_htons by simp_all
  moreover have "\<not> 8 + l < UDP_HEADER" using u by (simp add: word_less_nat_alt UDP_HEADER_def)
  moreover have "8 + l - UDP_HEADER = l" by (simp add: UDP_HEADER_def)
  ultimately show ?thesis using assms(1) by (auto simp: udp_handle_packet_def Let_def)
qed


subsection \<open>ARP\<close>

definition arp_ok :: "'a net_scheme \<Rightarrow> bool" where
  "arp_ok s \<longleftrightarrow> length (arp_cache s) = ARP_CACHE_SIZE \<and> arp_next_slot s < ARP_CACHE_SIZE"

lemma arp_find_Some: "arp_find ip es = Some i \<longleftrightarrow> i < length es \<and> ae_valid (es ! i) \<and> ae_ip (es ! i) = ip \<and>
    (\<forall>j < i. \<not> (ae_valid (es ! j) \<and> ae_ip (es ! j) = ip))"
  by (auto simp: arp_find_def find_Some_iff ipv4_equal_def)

lemma arp_find_None: "arp_find ip es = None \<longleftrightarrow> (\<forall>i < length es. \<not> (ae_valid (es ! i) \<and> ae_ip (es ! i) = ip))"
  by (auto simp: arp_find_def find_None_iff ipv4_equal_def)

lemma arp_store_lookup:
  assumes "arp_ok s"
  shows "\<exists>s'. arp_store ip mac s = Some s' \<and> arp_ok s' \<and> arp_lookup ip s' = Some mac \<and>
    (\<forall>k < ARP_CACHE_SIZE. k \<noteq> arp_next_slot s \<longrightarrow> ae_ip (arp_cache s ! k) \<noteq> ip \<longrightarrow> arp_cache s' ! k = arp_cache s ! k)"
proof (cases "arp_find ip (arp_cache s)")
  case None
  let ?n = "arp_next_slot s" and ?e = "\<lparr>ae_valid = True, ae_ip = ip, ae_mac = mac\<rparr>"
  have n: "?n < length (arp_cache s)" using assms by (simp add: arp_ok_def)
  have "arp_find ip ((arp_cache s)[?n := ?e]) = Some ?n"
    using None n unfolding arp_find_Some arp_find_None by (auto simp: nth_list_update)
  then show ?thesis using assms None n by (auto simp: arp_store_def arp_lookup_def arp_ok_def ARP_CACHE_SIZE_def)
next
  case (Some i)
  then have i: "i < length (arp_cache s)" "ae_ip (arp_cache s ! i) = ip" by (simp_all add: arp_find_Some)
  let ?c = "(arp_cache s)[i := (arp_cache s ! i)\<lparr>ae_mac := mac\<rparr>]"
  have "arp_find ip ?c = Some i" using Some unfolding arp_find_Some by (auto simp: nth_list_update)
  then show ?thesis using assms Some i by (auto simp: arp_store_def arp_lookup_def arp_ok_def nth_list_update)
qed

lemma arp_packet_fields:
  assumes "length smac = 6" and "length tmac = 6" and "data = arp_packet oper smac sip tmac tip"
  shows "length data = 28" "net_htons (rd16 data 0) = ARP_HTYPE_ETHERNET" "net_htons (rd16 data 2) = ETHERTYPE_IPV4" "net_htons (rd16 data 6) = oper"
    "take 6 (drop 8 data) = smac" "rd_ip data 14 = sip" "rd_ip data 24 = tip"
proof -
  obtain a b c d where s: "ipv4_bytes sip = [a, b, c, d]" "sip = ipv4_from_bytes a b c d" by (rule ipv4_bytes_cases)
  obtain a' b' c' d' where t: "ipv4_bytes tip = [a', b', c', d']" "tip = ipv4_from_bytes a' b' c' d'" by (rule ipv4_bytes_cases)
  obtain s0 s1 s2 s3 s4 s5 where sm: "smac = [s0, s1, s2, s3, s4, s5]" using assms(1) by (auto simp: numeral_eq_Suc length_Suc_conv)
  obtain t0 t1 t2 t3 t4 t5 where tm: "tmac = [t0, t1, t2, t3, t4, t5]" using assms(2) by (auto simp: numeral_eq_Suc length_Suc_conv)
  show "length data = 28" "net_htons (rd16 data 0) = ARP_HTYPE_ETHERNET" "net_htons (rd16 data 2) = ETHERTYPE_IPV4" "net_htons (rd16 data 6) = oper"
    "take 6 (drop 8 data) = smac" "rd_ip data 14 = sip" "rd_ip data 24 = tip"
    using htons_bytes [of oper] htons_bytes [of ARP_HTYPE_ETHERNET] htons_bytes [of ETHERTYPE_IPV4]
    unfolding rd16_def rd_ip_def assms(3) arp_packet_def le16_htons s(1) t(1) sm tm
    by (simp_all add: s(2) t(2))
qed

lemma arp_frame_received:
  assumes "length mac = 6" and "length mac' = 6" and "length data = 28"
  shows "net_handle_frame (eth_header mac mac' ETHERTYPE_ARP @ data) (of_nat (length (eth_header mac mac' ETHERTYPE_ARP @ data))) st =
    arp_handle_packet data ARP_PACKET st"
  using eth_header_type [OF assms(1,2), of ETHERTYPE_ARP data] eth_header_length [OF assms(1,2), of ETHERTYPE_ARP] assms(3)
  by (simp add: net_handle_frame_def ETH_HEADER_def ARP_PACKET_def Let_def)

text \<open>
  Property C22: an ARP exchange. The request a machine broadcasts for an address makes the machine that has the address, and
  only that one, answer with one frame to the asker; the asker, given the answer, finds the owner's hardware address
  in its cache from then on. No other entry of the cache changes, but for the one in the slot the new entry takes.
\<close>

theorem arp_exchange:
  assumes "nic_active a" and "length (our_mac a) = 6" and "arp_ok a" and "nic_active b" and "length (our_mac b) = 6"
  shows "\<exists>a1 q. arp_send_request target a = Some a1 \<and> nic_tx a1 = nic_tx a @ [q] \<and>
    (our_ip b \<noteq> target \<longrightarrow> net_handle_frame q (of_nat (length q)) b = Some b) \<and>
    (our_ip b = target \<longrightarrow> (\<exists>b1 r a2. net_handle_frame q (of_nat (length q)) b = Some b1 \<and> nic_tx b1 = nic_tx b @ [r] \<and> take 6 r = our_mac a \<and>
       net_handle_frame r (of_nat (length r)) a1 = Some a2 \<and> arp_lookup target a2 = Some (our_mac b) \<and>
       (\<forall>k < ARP_CACHE_SIZE. k \<noteq> arp_next_slot a \<longrightarrow> ae_ip (arp_cache a ! k) \<noteq> target \<longrightarrow> arp_cache a2 ! k = arp_cache a ! k)))"
proof -
  define qd where "qd = arp_packet ARP_OPER_REQUEST (our_mac a) (our_ip a) (replicate 6 0) target"
  define q where "q = eth_header BROADCAST_MAC (our_mac a) ETHERTYPE_ARP @ qd"
  define a1 where "a1 = a\<lparr>nic_tx := nic_tx a @ [q]\<rparr>"
  note qf = arp_packet_fields [OF assms(2) _ qd_def, simplified]
  have bm: "length BROADCAST_MAC = 6" by (simp add: BROADCAST_MAC_def)
  have send: "arp_send_request target a = Some a1"
    using eth_send_frame [of qd ARP_PACKET a BROADCAST_MAC ETHERTYPE_ARP] qf(1) assms(1)
    by (simp add: arp_send_request_def qd_def q_def a1_def ARP_PACKET_def)
  have rq: "net_handle_frame q (of_nat (length q)) b = arp_handle_packet qd ARP_PACKET b"
    unfolding q_def by (rule arp_frame_received [OF bm assms(2) qf(1)])
  have no: "net_handle_frame q (of_nat (length q)) b = Some b" if "our_ip b \<noteq> target"
    using rq qf that by (simp add: arp_handle_packet_def Let_def ipv4_equal_def)
  define rd where "rd = arp_packet ARP_OPER_REPLY (our_mac b) (our_ip b) (our_mac a) (our_ip a)"
  define r where "r = eth_header (our_mac a) (our_mac b) ETHERTYPE_ARP @ rd"
  note rf = arp_packet_fields [OF assms(5,2) rd_def]
  have rb: "arp_handle_packet qd ARP_PACKET b = Some (b\<lparr>nic_tx := nic_tx b @ [r]\<rparr>)" if "our_ip b = target"
    using qf that eth_send_frame [of rd ARP_PACKET b "our_mac a" ETHERTYPE_ARP] rf(1) assms(4)
    by (simp add: arp_handle_packet_def Let_def ipv4_equal_def rd_def r_def ARP_PACKET_def)
  have ra: "net_handle_frame r (of_nat (length r)) a1 = arp_store (our_ip b) (our_mac b) a1"
    unfolding r_def arp_frame_received [OF assms(2,5) rf(1)]
    using rf by (simp add: arp_handle_packet_def Let_def ARP_OPER_REPLY_def ARP_OPER_REQUEST_def)
  have a1: "arp_ok a1" "arp_cache a1 = arp_cache a" "arp_next_slot a1 = arp_next_slot a" using assms(3) by (simp_all add: a1_def arp_ok_def)
  have r6: "take 6 r = our_mac a" using assms(2) by (simp add: r_def eth_header_def)
  obtain a2 where "arp_store (our_ip b) (our_mac b) a1 = Some a2" "arp_lookup (our_ip b) a2 = Some (our_mac b)"
    "\<forall>k < ARP_CACHE_SIZE. k \<noteq> arp_next_slot a \<longrightarrow> ae_ip (arp_cache a ! k) \<noteq> our_ip b \<longrightarrow> arp_cache a2 ! k = arp_cache a ! k"
    using arp_store_lookup [OF a1(1), of "our_ip b" "our_mac b"] a1 by auto
  then have "\<exists>b1 r a2. net_handle_frame q (of_nat (length q)) b = Some b1 \<and> nic_tx b1 = nic_tx b @ [r] \<and> take 6 r = our_mac a \<and>
       net_handle_frame r (of_nat (length r)) a1 = Some a2 \<and> arp_lookup target a2 = Some (our_mac b) \<and>
       (\<forall>k < ARP_CACHE_SIZE. k \<noteq> arp_next_slot a \<longrightarrow> ae_ip (arp_cache a ! k) \<noteq> target \<longrightarrow> arp_cache a2 ! k = arp_cache a ! k)"
    if "our_ip b = target"
    using rq rb [OF that] ra r6 that by (intro exI [of _ "b\<lparr>nic_tx := nic_tx b @ [r]\<rparr>"] exI [of _ r] exI [of _ a2]) simp
  then show ?thesis using send no by (intro exI [of _ a1] exI [of _ q]) (simp add: a1_def)
qed

text \<open>A machine with the address 10.0.0.\<open>n\<close> on a network with the machine 10.0.0.\<open>m\<close>, whose hardware address it knows.\<close>

definition example_host :: "u8 \<Rightarrow> u8 \<Rightarrow> inet_socket list \<Rightarrow> inet" where
  "example_host n m ss = \<lparr>arp_cache = \<lparr>ae_valid = True, ae_ip = ipv4_from_bytes 10 0 0 m, ae_mac = [2, 0, 0, 0, 0, m]\<rparr> #
       replicate 7 \<lparr>ae_valid = False, ae_ip = ipv4_zero, ae_mac = replicate 6 0\<rparr>, arp_next_slot = 1,
     our_mac = [2, 0, 0, 0, 0, n], our_ip = ipv4_from_bytes 10 0 0 n, gateway_ip = ipv4_from_bytes 10 0 0 254,
     netmask = ipv4_from_bytes 255 255 255 0, dns_ip = ipv4_zero, net_up = True, next_id = 1,
     loopback_queue = replicate LOOPBACK_QUEUE \<lparr>lp_addr = ipv4_zero, lp_protocol = 0, lp_len = 0, lp_data = replicate LOOPBACK_DATA 0\<rparr>,
     loopback_head = 0, loopback_count = 0, udp_listen_port = 0, udp_listen_cb = False, ping_reply_received = False, ping_expected_id = 0,
     ping_expected_seq = 0, ping_seq = 0, dhcp_got_offer = False, dhcp_got_ack = True, dhcp_got_nak = False, dhcp_xid = 0,
     dhcp_offered_ip = ipv4_zero, dhcp_server_id = ipv4_zero, dhcp_offered_mask = ipv4_zero, dhcp_offered_gw = ipv4_zero, dhcp_offered_dns = ipv4_zero,
     rx_callback = True, nic_active = True, nic_driver_mac = [2, 0, 0, 0, 0, n], nic_tx = [], nt_sched = ring_example,
     inet_sockets = ss, inet_next_port = 49152, inet_seq_seed = 0, inet_base = 0x9000, inet_tsc = (\<lambda>_. 0), inet_tsc_reads = 0\<rparr>"

lemma example_host_simps [simp]:
  "our_mac (example_host n m ss) = [2, 0, 0, 0, 0, n]" "our_ip (example_host n m ss) = ipv4_from_bytes 10 0 0 n" "nic_active (example_host n m ss)"
  "netmask (example_host n m ss) = ipv4_from_bytes 255 255 255 0" "net_up (example_host n m ss)" "\<not> udp_listen_cb (example_host n m ss)"
  "nic_tx (example_host n m ss) = []" "inet_sockets (example_host n m ss) = ss" "i < length ss \<Longrightarrow> isock (example_host n m ss) i = ss ! i"
  "arp_next_slot (example_host n m ss) = 1" "nt_sched (example_host n m ss) = ring_example"
  by (simp_all add: example_host_def isock_def)

lemma example_host_route:
  "\<not> ipv4_is_local (ipv4_from_bytes 10 0 0 m) (example_host n m ss) \<longleftrightarrow> m \<noteq> n"
  "route (ipv4_from_bytes 10 0 0 m) (example_host n m ss) = ipv4_from_bytes 10 0 0 m"
  "arp_lookup (ipv4_from_bytes 10 0 0 m) (example_host n m ss) = Some [2, 0, 0, 0, 0, m]"
  "arp_ok (example_host n m ss)" "net_awake (example_host n m ss)"
proof -
  show "\<not> ipv4_is_local (ipv4_from_bytes 10 0 0 m) (example_host n m ss) \<longleftrightarrow> m \<noteq> n"
    by (simp add: ipv4_is_local_def ipv4_bytes_def ipv4_equal_def)
  show "route (ipv4_from_bytes 10 0 0 m) (example_host n m ss) = ipv4_from_bytes 10 0 0 m"
    by (simp add: route_def ipv4_same_subnet_def ipv4_bytes_def upt_rec)
  have "arp_find (ipv4_from_bytes 10 0 0 m) (arp_cache (example_host n m ss)) = Some 0" by (simp add: arp_find_Some example_host_def)
  then show "arp_lookup (ipv4_from_bytes 10 0 0 m) (example_host n m ss) = Some [2, 0, 0, 0, 0, m]"
    by (simp add: arp_lookup_def) (simp add: example_host_def)
  show "arp_ok (example_host n m ss)" by (simp add: arp_ok_def ARP_CACHE_SIZE_def example_host_def)
  have "ring ring_example [1, 2]" using ring_example_inv by (simp add: sched_inv_def cpu_inv_def)
  then show "net_awake (example_host n m ss)" by (auto simp: net_awake_def)
qed

text \<open>A UDP socket with the given port and no datagram.\<close>

definition example_udp :: "u16 \<Rightarrow> inet_socket" where
  "example_udp port = inet_zero\<lparr>is_used := True, is_kind := INET_UDP, is_local_port := port, is_udp_queue := 0x8000,
     is_udp := replicate UDP_QUEUE datagram_zero\<rparr>"


theorem arp_exchange_witness:
  "\<exists>a1 q b1 r a2. arp_send_request (ipv4_from_bytes 10 0 0 3) (example_host 1 2 []) = Some a1 \<and> nic_tx a1 = [q] \<and>
     net_handle_frame q (of_nat (length q)) (example_host 3 1 []) = Some b1 \<and> nic_tx b1 = [r] \<and>
     net_handle_frame r (of_nat (length r)) a1 = Some a2 \<and> arp_lookup (ipv4_from_bytes 10 0 0 3) a2 = Some [2, 0, 0, 0, 0, 3]"
  using arp_exchange [of "example_host 1 2 []" "example_host 3 1 []" "ipv4_from_bytes 10 0 0 3"]
  by (simp add: example_host_route) blast

end
