(* ===== verification/TcpSpec.thy ===== *)
theory TcpSpec
  imports NetSpec
begin

text \<open>
  TCP as a stream of bytes. The bytes that wait in the ring of a connection are its receive stream, the bytes of its send
  buffer that the peer has not acknowledged are its send stream. The lemmas here say which segments \<^verbatim>\<open>tcp_output\<close> sends
  for a send stream, what a segment does to the receive stream of the other side, and put the two together.
\<close>

subsection \<open>Sending touches neither sockets nor memory\<close>

definition net_ok :: "'a net_scheme \<Rightarrow> bool" where
  "net_ok s \<longleftrightarrow> arp_ok s \<and> length (our_mac s) = 6 \<and> length (loopback_queue s) = LOOPBACK_QUEUE \<and> loopback_head s < LOOPBACK_QUEUE \<and> loopback_count s \<le> LOOPBACK_QUEUE \<and>
     (\<forall>p \<in> set (loopback_queue s). length (lp_data p) = LOOPBACK_DATA)"

text \<open>\<open>sent s s'\<close>: from \<open>s\<close> to \<open>s'\<close> packets were handed to the card or put into the loopback queue, and nothing else happened.\<close>

definition sent :: "inet \<Rightarrow> inet \<Rightarrow> bool" where
  "sent s s' \<longleftrightarrow> (\<exists>i t q c. s' = s\<lparr>next_id := i, nic_tx := t, loopback_queue := q, loopback_count := c\<rparr>)"

lemma sentI: "sent s (s\<lparr>next_id := i, nic_tx := t, loopback_queue := q, loopback_count := c\<rparr>)"
  by (auto simp: sent_def)

lemma sent_refl [simp]: "sent s s"
  using sentI [where s = s and i = "next_id s" and t = "nic_tx s" and q = "loopback_queue s" and c = "loopback_count s"] by simp

lemma sent_trans: "sent s s' \<Longrightarrow> sent s' s'' \<Longrightarrow> sent s s''"
  unfolding sent_def by (elim exE) (simp, blast)

lemma sent_kept:
  assumes "sent s s'"
  shows "inet_sockets s' = inet_sockets s" "nt_sched s' = nt_sched s" "arp_cache s' = arp_cache s" "arp_next_slot s' = arp_next_slot s"
    "our_mac s' = our_mac s" "our_ip s' = our_ip s" "gateway_ip s' = gateway_ip s" "netmask s' = netmask s" "net_up s' = net_up s"
    "nic_active s' = nic_active s" "loopback_head s' = loopback_head s"
  using assms by (auto simp: sent_def)

lemma sent_isock [simp]: "sent s s' \<Longrightarrow> isock s' i = isock s i" "sent s s' \<Longrightarrow> nt_memory s' = nt_memory s"
  by (simp_all add: isock_def nt_memory_def nt_heap_def sent_kept)

lemma eth_send_ok:
  assumes "length p = unat l" and "unat l \<le> 1500"
  shows "\<exists>t. eth_send mac ty p l s = Some (s\<lparr>nic_tx := t\<rparr>)"
proof (cases "nic_active s")
  case True
  then show ?thesis using eth_send_frame [OF assms True] by blast
next
  case False
  have "unat (ETH_HEADER + l) = 14 + unat l" using assms(2) by (subst unat_add_nowrap) (simp_all add: ETH_HEADER_def)
  then have "\<not> ETH_HEADER + l > 1514" using assms(2) by (simp add: word_less_nat_alt)
  moreover have "ucast (ETH_HEADER + l) - ucast ETH_HEADER = (ucast l :: u64)"
    using assms(2) by (intro ucast_minus_16) (simp add: ETH_HEADER_def)
  moreover have "copy_bytes 1500 (ucast l) p = Some p" using assms(1,2) by (intro copy_bytes_exact) simp_all
  ultimately show ?thesis using False
    by (intro exI [of _ "nic_tx s"]) (simp add: eth_send_def Let_def nic_send_def)
qed

lemma loopback_send_ok:
  assumes "net_ok s" and "length p = unat l" and "unat l \<le> 1500"
  shows "\<exists>q c. loopback_send dst pr p l s = Some (s\<lparr>loopback_queue := q, loopback_count := c\<rparr>) \<and> net_ok (s\<lparr>loopback_queue := q, loopback_count := c\<rparr>)"
proof (cases "loopback_count s < LOOPBACK_QUEUE")
  case True
  let ?i = "(loopback_head s + loopback_count s) mod LOOPBACK_QUEUE"
  have i: "?i < length (loopback_queue s)" using assms(1) by (simp add: net_ok_def LOOPBACK_QUEUE_def)
  define e where "e = \<lparr>lp_addr = dst, lp_protocol = pr, lp_len = l, lp_data = p @ drop (length p) (lp_data (loopback_queue s ! ?i))\<rparr>"
  have "length (lp_data (loopback_queue s ! ?i)) = LOOPBACK_DATA" using assms(1) i by (simp add: net_ok_def)
  then have e: "length (lp_data e) = LOOPBACK_DATA" using assms(2,3) by (simp add: e_def LOOPBACK_DATA_def)
  have "copy_bytes LOOPBACK_DATA (ucast l) p = Some p" using assms(2,3) by (intro copy_bytes_exact) (simp_all add: LOOPBACK_DATA_def)
  then have "loopback_send dst pr p l s = Some (s\<lparr>loopback_queue := (loopback_queue s)[?i := e], loopback_count := loopback_count s + 1\<rparr>)"
    using True i assms(3) by (simp add: loopback_send_def Let_def e_def LOOPBACK_DATA_def)
  moreover have "net_ok (s\<lparr>loopback_queue := (loopback_queue s)[?i := e], loopback_count := loopback_count s + 1\<rparr>)"
    using assms(1) True e set_update_subset_insert [of "loopback_queue s" ?i e] by (auto simp: net_ok_def arp_ok_def)
  ultimately show ?thesis by blast
next
  case False
  then show ?thesis using assms(1) by (intro exI [of _ "loopback_queue s"] exI [of _ "loopback_count s"]) (simp add: loopback_send_def)
qed

lemma arp_send_request_ok:
  assumes "length (our_mac s) = 6"
  shows "\<exists>t. arp_send_request ip s = Some (s\<lparr>nic_tx := t\<rparr>)"
  unfolding arp_send_request_def
  by (rule eth_send_ok) (use arp_packet_fields(1) [OF assms _ refl, of "replicate 6 0"] in \<open>simp_all add: ARP_PACKET_def\<close>)

lemma ipv4_send_from_ok:
  assumes "length p = unat l" and "unat l \<le> 1480"
  shows "\<exists>t. ipv4_send_from src dst mac pr p l s = Some (s\<lparr>next_id := next_id s + 1, nic_tx := t\<rparr>)"
proof -
  have u: "unat (IPV4_HEADER + l) = 20 + unat l" using assms(2) by (subst unat_add_nowrap) (simp_all add: IPV4_HEADER_def)
  then have "\<not> IPV4_HEADER + l > 1500" using assms(2) by (simp add: word_less_nat_alt)
  moreover have "ucast (IPV4_HEADER + l) - ucast IPV4_HEADER = (ucast l :: u64)"
    using assms(2) by (intro ucast_minus_16) (simp add: IPV4_HEADER_def)
  moreover have "copy_bytes 1480 (ucast l) p = Some p" using assms by (intro copy_bytes_exact) simp_all
  ultimately have "ipv4_send_from src dst mac pr p l s = eth_send mac ETHERTYPE_IPV4
      (ipv4_packet_header (IPV4_HEADER + l) (next_id s) pr src dst @ p) (IPV4_HEADER + l) (s\<lparr>next_id := next_id s + 1\<rparr>)"
    by (simp add: ipv4_send_from_def Let_def)
  then show ?thesis
    using eth_send_ok [of "ipv4_packet_header (IPV4_HEADER + l) (next_id s) pr src dst @ p" "IPV4_HEADER + l" mac ETHERTYPE_IPV4
        "s\<lparr>next_id := next_id s + 1\<rparr>"] u assms by simp
qed

lemma ipv4_send_ok:
  assumes "net_ok s" and "length p = unat l" and "unat l \<le> 1480"
  shows "\<exists>s'. ipv4_send dst pr p l s = Some s' \<and> sent s s' \<and> net_ok s'"
proof (cases "ipv4_is_local dst s")
  case True
  obtain q c where "loopback_send dst pr p l s = Some (s\<lparr>loopback_queue := q, loopback_count := c\<rparr>)"
    "net_ok (s\<lparr>loopback_queue := q, loopback_count := c\<rparr>)" using loopback_send_ok [OF assms(1,2)] assms(3) by fastforce
  then show ?thesis using True sentI [where s = s and i = "next_id s" and t = "nic_tx s" and q = q and c = c] by (simp add: ipv4_send_def)
next
  case local: False
  let ?h = "if ipv4_same_subnet dst (our_ip s) (netmask s) then dst else gateway_ip s"
  have frame: "sent s (s\<lparr>next_id := i, nic_tx := t\<rparr>)" "net_ok (s\<lparr>next_id := i, nic_tx := t\<rparr>)" for i t
    using sentI [where s = s and i = i and t = t and q = "loopback_queue s" and c = "loopback_count s"] assms(1)
    by (simp_all add: net_ok_def arp_ok_def)
  show ?thesis
  proof (cases "arp_lookup ?h s")
    case None
    obtain t where "arp_send_request ?h s = Some (s\<lparr>nic_tx := t\<rparr>)" using arp_send_request_ok [of s] assms(1) by (auto simp: net_ok_def)
    then show ?thesis using None local frame [where i = "next_id s" and t = t] by (simp add: ipv4_send_def Let_def)
  next
    case (Some mac)
    obtain t where "ipv4_send_from (our_ip s) dst mac pr p l s = Some (s\<lparr>next_id := next_id s + 1, nic_tx := t\<rparr>)"
      using ipv4_send_from_ok [OF assms(2,3)] by blast
    then show ?thesis using Some local frame by (simp add: ipv4_send_def Let_def)
  qed
qed

subsection \<open>Segments\<close>

lemma length_tcp_segment: "length (tcp_segment ip s seq fl d) = 20 + length (tcp_options fl) + length d"
  by (simp add: tcp_segment_def Let_def tcp_header_def le16_def le32_def)

lemma tcp_options_length: "length (tcp_options fl) = (if fl AND TCP_SYN \<noteq> 0 then 4 else 0)"
  by (simp add: tcp_options_def)

lemma tcp_send_segment_eq:
  assumes "length d = unat l" and "unat l \<le> 1400"
  shows "tcp_send_segment i seq fl d l st = ipv4_send (is_remote_ip (isock st i)) IPV4_PROTO_TCP
      (tcp_segment (our_ip st) (isock st i) seq fl d) (of_nat (20 + length (tcp_options fl) + length d)) st"
    and "unat (of_nat (20 + length (tcp_options fl) + length d) :: u16) = length (tcp_segment (our_ip st) (isock st i) seq fl d)"
    and "length (tcp_segment (our_ip st) (isock st i) seq fl d) \<le> 1424"
proof -
  have o: "length (tcp_options fl) \<le> 4" by (simp add: tcp_options_length)
  have "unat (TCP_HEADER + of_nat (length (tcp_options fl)) :: u16) = 20 + length (tcp_options fl)"
    using o by (subst unat_add_nowrap) (simp_all add: unat_of_nat_small TCP_HEADER_def)
  then have "copy_bytes (1424 - unat (TCP_HEADER + of_nat (length (tcp_options fl)) :: u16)) (ucast l) d = Some d"
    using assms o by (intro copy_bytes_exact) simp_all
  then show "tcp_send_segment i seq fl d l st = ipv4_send (is_remote_ip (isock st i)) IPV4_PROTO_TCP
      (tcp_segment (our_ip st) (isock st i) seq fl d) (of_nat (20 + length (tcp_options fl) + length d)) st"
    using assms(1) by (simp add: tcp_send_segment_def Let_def net_local_ip_def TCP_HEADER_def)
  show "length (tcp_segment (our_ip st) (isock st i) seq fl d) \<le> 1424" using assms o by (simp add: length_tcp_segment)
  then show "unat (of_nat (20 + length (tcp_options fl) + length d) :: u16) = length (tcp_segment (our_ip st) (isock st i) seq fl d)"
    by (subst unat_of_nat_small) (simp_all add: length_tcp_segment)
qed

lemma tcp_send_segment_ok:
  assumes "net_ok st" and "length d = unat l" and "unat l \<le> 1400"
  shows "\<exists>st'. tcp_send_segment i seq fl d l st = Some st' \<and> sent st st' \<and> net_ok st'"
  unfolding tcp_send_segment_eq(1) [OF assms(2,3)]
  by (rule ipv4_send_ok [OF assms(1)]) (use tcp_send_segment_eq(2,3) [OF assms(2,3), where fl = fl and st = st and i = i and seq = seq] in simp_all)

definition seg_ack :: "inet_socket \<Rightarrow> u8 \<Rightarrow> u32" where
  "seg_ack s fl = (if fl AND TCP_ACK \<noteq> 0 then is_rcv_nxt s else 0)"

definition seg_offset :: "u8 \<Rightarrow> u8" where
  "seg_offset fl = ucast (push_bit 4 ((TCP_HEADER + of_nat (length (tcp_options fl))) div 4) :: u16)"

lemma seg_offset_value: "ucast (drop_bit 4 (seg_offset fl)) * 4 = (TCP_HEADER + of_nat (length (tcp_options fl)) :: u16)"
  by (simp add: seg_offset_def tcp_options_def TCP_HEADER_def)

lemma htonl_bytes: "net_htonl (ucast (ucast (drop_bit 24 v) :: u8) OR push_bit 8 (ucast (ucast (drop_bit 16 v) :: u8)) OR
    push_bit 16 (ucast (ucast (drop_bit 8 v) :: u8)) OR push_bit 24 (ucast (ucast v :: u8))) = v"
proof -
  have m: "(0x000000FF :: u32) = mask 8" "(0x0000FF00 :: u32) = push_bit 8 (mask 8)" "(0x00FF0000 :: u32) = push_bit 16 (mask 8)"
    "(0xFF000000 :: u32) = push_bit 24 (mask 8)" by (simp_all add: mask_eq_exp_minus_1 push_bit_eq_mult)
  define x :: u32 where "x = ucast (ucast (drop_bit 24 v) :: u8) OR push_bit 8 (ucast (ucast (drop_bit 16 v) :: u8)) OR
    push_bit 16 (ucast (ucast (drop_bit 8 v) :: u8)) OR push_bit 24 (ucast (ucast v :: u8))"
  have "net_htonl x = v" unfolding net_htonl_def m
  proof (rule bit_eqI)
    fix n assume "possible_bit TYPE(u32) n"
    then have "n < 32" by simp
    then consider "n < 8" | "8 \<le> n" "n < 16" | "16 \<le> n" "n < 24" | "24 \<le> n" "n < 32" by linarith
    then show "bit (push_bit 24 (x AND mask 8) OR push_bit 8 (x AND push_bit 8 (mask 8)) OR drop_bit 8 (x AND push_bit 16 (mask 8)) OR
        drop_bit 24 (x AND push_bit 24 (mask 8))) n = bit v n"
      by cases (auto simp: x_def bit_simps)
  qed
  then show ?thesis by (simp only: x_def)
qed

lemma tcp_segment_shape:
  "\<exists>c. tcp_segment ip s seq fl d = tcp_header (is_local_port s) (is_remote_port s) seq (seg_ack s fl) (seg_offset fl) fl (tcp_window s) c @ tcp_options fl @ d"
  unfolding tcp_segment_def Let_def seg_ack_def seg_offset_def by blast

lemma length_tcp_header [simp]: "length (tcp_header sp dp seq ack off fl w c) = 20"
  by (simp add: tcp_header_def le16_def le32_def)

lemma tcp_segment_fields:
  assumes "data = tcp_segment ip s seq fl d"
  shows "th_src_port data = is_local_port s" "th_dst_port data = is_remote_port s" "th_seq data = seq" "th_ack data = seg_ack s fl"
    "th_offset data = seg_offset fl" "th_flags data = fl" "th_window data = tcp_window s" "drop (20 + length (tcp_options fl)) data = d"
proof -
  obtain c where c: "data = tcp_header (is_local_port s) (is_remote_port s) seq (seg_ack s fl) (seg_offset fl) fl (tcp_window s) c @ tcp_options fl @ d"
    using tcp_segment_shape assms by blast
  show "th_src_port data = is_local_port s" "th_dst_port data = is_remote_port s" "th_seq data = seq" "th_ack data = seg_ack s fl"
    "th_offset data = seg_offset fl" "th_flags data = fl" "th_window data = tcp_window s"
    using htons_bytes [of "is_local_port s"] htons_bytes [of "is_remote_port s"] htons_bytes [of "tcp_window s"] htonl_bytes [of seq] htonl_bytes [of "seg_ack s fl"]
    unfolding th_src_port_def th_dst_port_def th_seq_def th_ack_def th_offset_def th_flags_def th_window_def rd16_def rd32_def
      c tcp_header_def le16_htons le32_htonl by (simp_all add: or.assoc)
  show "drop (20 + length (tcp_options fl)) data = d" unfolding c by simp
qed


text \<open>An open TCP connection between the ports 5000 and 80, with \<open>c\<close> bytes in its send buffer.\<close>

definition example_tcp :: "ipv4 \<Rightarrow> u16 \<Rightarrow> u16 \<Rightarrow> u32 \<Rightarrow> u32 \<Rightarrow> u64 \<Rightarrow> inet_socket" where
  "example_tcp ip lp rp sn rcv c = inet_zero\<lparr>is_used := True, is_kind := INET_TCP, is_remote_ip := ip, is_remote_port := rp, is_local_port := lp,
     is_connected := True, is_state := TCP_ESTABLISHED, is_snd_una := sn, is_snd_nxt := sn, is_snd_wnd := 4096, is_rcv_nxt := rcv,
     is_rx := 0x200000, is_tx := 0x100000, is_tx_count := c, is_rto_ms := 600\<rparr>"


subsection \<open>What \<open>tcp_output\<close> sends\<close>

text \<open>The frames for consecutive pieces of the stream, from the sequence number \<open>seq\<close> on.\<close>

fun seg_frames :: "bytes \<Rightarrow> inet \<Rightarrow> inet_socket \<Rightarrow> u16 \<Rightarrow> u32 \<Rightarrow> bytes list \<Rightarrow> bytes list" where
  "seg_frames mac st s ident seq [] = []"
| "seg_frames mac st s ident seq (d # ds) =
     ipv4_frame mac (our_mac st) ident IPV4_PROTO_TCP (our_ip st) (is_remote_ip s) (tcp_segment (our_ip st) s seq (TCP_ACK OR TCP_PSH) d) #
     seg_frames mac st s (ident + 1) (seq + of_nat (length d)) ds"

definition reaches :: "bytes \<Rightarrow> ipv4 \<Rightarrow> inet \<Rightarrow> bool" where
  "reaches mac dst st \<longleftrightarrow> \<not> ipv4_is_local dst st \<and> arp_lookup (route dst st) st = Some mac \<and> nic_active st"

lemma reaches_frame [simp]:
  "reaches mac dst (st\<lparr>next_id := a, nic_tx := b, inet_sockets := c\<rparr>) = reaches mac dst st"
  by (simp add: reaches_def ipv4_is_local_def arp_lookup_def route_def)

lemma seg_frames_cong:
  assumes "our_mac st' = our_mac st" and "our_ip st' = our_ip st"
    and "is_local_port s' = is_local_port s" "is_remote_port s' = is_remote_port s" "is_remote_ip s' = is_remote_ip s" "is_rcv_nxt s' = is_rcv_nxt s"
      "is_rx_count s' = is_rx_count s"
  shows "seg_frames mac st' s' ident seq ds = seg_frames mac st s ident seq ds"
proof (induction ds arbitrary: ident seq)
  case (Cons d ds)
  have "tcp_segment (our_ip st') s' q fl e = tcp_segment (our_ip st) s q fl e" for q fl e
    using assms by (simp add: tcp_segment_def tcp_window_def Let_def)
  then show ?case using Cons assms by simp
qed simp

lemma tcp_send_data:
  assumes "reaches mac (is_remote_ip (isock st i)) st" and "length d = unat l" and "unat l \<le> 1400"
  shows "tcp_send_segment i seq fl d l st = Some (st\<lparr>next_id := next_id st + 1, nic_tx := nic_tx st @
    [ipv4_frame mac (our_mac st) (next_id st) IPV4_PROTO_TCP (our_ip st) (is_remote_ip (isock st i)) (tcp_segment (our_ip st) (isock st i) seq fl d)]\<rparr>)"
  unfolding tcp_send_segment_eq(1) [OF assms(2,3)]
  using assms(1) tcp_send_segment_eq(2,3) [OF assms(2,3), where fl = fl and st = st and i = i and seq = seq]
  by (intro ipv4_send_frame) (simp_all add: reaches_def)

lemma bytes_at_add: "bytes_at m p (a + b) = bytes_at m p a @ bytes_at m (p + of_nat a) b"
  by (induction a arbitrary: p) (auto simp: algebra_simps)

text \<open>How far the stream may be sent: to the end of the buffer or of the peer's window.\<close>

definition send_goal :: "u32 \<Rightarrow> inet_socket \<Rightarrow> nat" where
  "send_goal window s = min (unat (is_tx_count s)) (unat window)"

lemma next_len_value:
  assumes "unat (is_tx_count s) \<le> 65536" and "f = unat (tcp_in_flight s)" and "f < unat (is_tx_count s)" and "f < unat window"
  shows "unat (tcp_next_len window s) = min (send_goal window s - f) 1400"
proof -
  have tx: "unat (ucast (is_tx_count s) :: u32) = unat (is_tx_count s)"
    using assms(1) by (simp add: unsigned_ucast_eq take_bit_nat_eq_self)
  have a: "unat (ucast (is_tx_count s) - tcp_in_flight s :: u32) = unat (is_tx_count s) - f"
    using assms(2,3) tx by (subst unat_diff_nowrap) simp_all
  have b: "unat (window - tcp_in_flight s) = unat window - f" using assms(2,4) by (subst unat_diff_nowrap) simp_all
  have t: "unat TCP_MSS = 1400" by (simp add: TCP_MSS_def)
  show ?thesis unfolding tcp_next_len_def Let_def word_less_nat_alt
    by (simp add: a b t send_goal_def min_def)
qed

lemma unat_ucast_32_64 [simp]: "unat (ucast (a :: u32) :: u64) = unat a"
proof -
  have "unat a < 2 ^ 32" using unsigned_less [of a] by simp
  then show ?thesis by (simp add: unsigned_ucast_eq take_bit_nat_eq_self)
qed

lemma in_flight_plain: "\<not> is_fin_sent s \<Longrightarrow> tcp_in_flight s = is_snd_nxt s - is_snd_una s"
  by (simp add: tcp_in_flight_def)

lemma tcp_output_loop_step:
  fixes st i window
  defines "s \<equiv> isock st i"
  defines "d \<equiv> bytes_at (nt_memory st) (is_tx s + ucast (tcp_in_flight s)) (unat (tcp_next_len window s))"
  assumes "i < length (inet_sockets st)" and "reaches mac (is_remote_ip s) st" and "\<not> is_fin_sent s"
    and "unat (is_tx_count s) \<le> 65536" and "unat (tcp_in_flight s) < send_goal window s"
  shows "tcp_output_loop i window b st = tcp_output_loop i window True
    (st\<lparr>next_id := next_id st + 1,
        nic_tx := nic_tx st @ seg_frames mac st s (next_id st) (is_snd_nxt s) [d],
        inet_sockets := (inet_sockets st)[i := s\<lparr>is_snd_nxt := is_snd_nxt s + tcp_next_len window s\<rparr>]\<rparr>)"
proof -
  let ?f = "tcp_in_flight s" and ?l = "tcp_next_len window s"
  have lt: "unat ?f < unat (is_tx_count s)" "unat ?f < unat window" using assms(7) by (simp_all add: send_goal_def)
  have l: "unat ?l \<le> 1400" using next_len_value [OF assms(6) refl lt] by simp
  have go: "\<not> (ucast ?f \<ge> is_tx_count s \<or> ?f \<ge> window)" using lt by (simp add: word_le_nat_alt not_le)
  have l16: "unat (ucast ?l :: u16) = unat ?l" using l by (simp add: unsigned_ucast_eq take_bit_nat_eq_self)
  have "tcp_send_segment i (is_snd_nxt s) (TCP_ACK OR TCP_PSH) d (ucast ?l) st = Some (st\<lparr>next_id := next_id st + 1,
      nic_tx := nic_tx st @ seg_frames mac st s (next_id st) (is_snd_nxt s) [d]\<rparr>)"
    using tcp_send_data [of mac st i d "ucast ?l"] assms(4) l l16 by (simp add: d_def s_def)
  moreover have "tcp_output_loop i window b st = do { st1 \<leftarrow> tcp_send_segment i (is_snd_nxt s) (TCP_ACK OR TCP_PSH) d (ucast ?l) st;
      tcp_output_loop i window True (upd_isock i (\<lambda>s. s\<lparr>is_snd_nxt := is_snd_nxt s + ?l\<rparr>) st1) }"
    using go unfolding d_def s_def by (subst tcp_output_loop.simps) (simp add: Let_def)
  ultimately show ?thesis by (simp add: upd_isock_def isock_def s_def)
qed

lemma tcp_output_loop_stop:
  assumes "\<not> unat (tcp_in_flight (isock st i)) < send_goal window (isock st i)"
  shows "tcp_output_loop i window b st = Some (b, st)"
proof -
  let ?f = "tcp_in_flight (isock st i)"
  have "ucast ?f \<ge> is_tx_count (isock st i) \<or> ?f \<ge> window" using assms by (auto simp: send_goal_def word_le_nat_alt min_def split: if_splits)
  then show ?thesis by (subst tcp_output_loop.simps) (simp add: Let_def)
qed

lemma tcp_output_loop_sends:
  assumes "i < length (inet_sockets st)" and "reaches mac (is_remote_ip (isock st i)) st" and "\<not> is_fin_sent (isock st i)"
    and "unat (is_tx_count (isock st i)) \<le> 65536" and "k = send_goal window (isock st i) - unat (tcp_in_flight (isock st i))"
  shows "\<exists>ds. concat ds = bytes_at (nt_memory st) (is_tx (isock st i) + ucast (tcp_in_flight (isock st i))) k \<and>
    (\<forall>d \<in> set ds. 0 < length d \<and> length d \<le> 1400) \<and>
    tcp_output_loop i window b st = Some (b \<or> ds \<noteq> [], st\<lparr>next_id := next_id st + of_nat (length ds),
      nic_tx := nic_tx st @ seg_frames mac st (isock st i) (next_id st) (is_snd_nxt (isock st i)) ds,
      inet_sockets := (inet_sockets st)[i := (isock st i)\<lparr>is_snd_nxt := is_snd_nxt (isock st i) + of_nat k\<rparr>]\<rparr>)"
  using assms
proof (induction k arbitrary: st b rule: less_induct)
  case (less k)
  let ?s = "isock st i" let ?f = "tcp_in_flight ?s" and ?l = "tcp_next_len window ?s"
  show ?case
  proof (cases "k = 0")
    case True
    then have "\<not> unat ?f < send_goal window ?s" using less.prems(5) by simp
    then show ?thesis using True tcp_output_loop_stop [of st i window b] less.prems(1)
      by (intro exI [of _ "[]"]) (simp add: isock_def)
  next
    case False
    then have lt: "unat ?f < send_goal window ?s" using less.prems(5) by simp
    then have lt': "unat ?f < unat (is_tx_count ?s)" "unat ?f < unat window" by (simp_all add: send_goal_def)
    have l: "unat ?l = min k 1400" using next_len_value [OF less.prems(4) refl lt'] less.prems(5) by simp
    define d where "d = bytes_at (nt_memory st) (is_tx ?s + ucast ?f) (unat ?l)"
    define s1 where "s1 = ?s\<lparr>is_snd_nxt := is_snd_nxt ?s + ?l\<rparr>"
    define st1 where "st1 = st\<lparr>next_id := next_id st + 1, nic_tx := nic_tx st @ seg_frames mac st ?s (next_id st) (is_snd_nxt ?s) [d],
        inet_sockets := (inet_sockets st)[i := s1]\<rparr>"
    have step: "tcp_output_loop i window b st = tcp_output_loop i window True st1"
      using tcp_output_loop_step [OF less.prems(1-4) lt] by (simp add: st1_def d_def s1_def)
    have i1: "isock st1 i = s1" using less.prems(1) by (simp add: isock_def st1_def)
    have f1: "tcp_in_flight s1 = ?f + ?l" using less.prems(3) by (simp add: in_flight_plain s1_def algebra_simps)
    have "unat ?f + unat ?l < 2 ^ 32" using lt' less.prems(4) l by simp
    then have uf1: "unat (tcp_in_flight s1) = unat ?f + unat ?l" unfolding f1 by (intro unat_add_nowrap) simp
    have g1: "send_goal window s1 = send_goal window ?s" by (simp add: send_goal_def s1_def)
    have k1: "k - unat ?l = send_goal window s1 - unat (tcp_in_flight s1)" using less.prems(5) by (simp add: uf1 g1)
    have "k - unat ?l < k" using l False by simp
    moreover have "i < length (inet_sockets st1)" "reaches mac (is_remote_ip (isock st1 i)) st1" "\<not> is_fin_sent (isock st1 i)"
      "unat (is_tx_count (isock st1 i)) \<le> 65536"
      using less.prems(1-4) unfolding i1 by (simp_all add: st1_def s1_def)
    ultimately obtain ds where ds: "concat ds = bytes_at (nt_memory st1) (is_tx s1 + ucast (tcp_in_flight s1)) (k - unat ?l)"
      "\<forall>d \<in> set ds. 0 < length d \<and> length d \<le> 1400"
      "tcp_output_loop i window True st1 = Some (True, st1\<lparr>next_id := next_id st1 + of_nat (length ds),
        nic_tx := nic_tx st1 @ seg_frames mac st1 s1 (next_id st1) (is_snd_nxt s1) ds,
        inet_sockets := (inet_sockets st1)[i := s1\<lparr>is_snd_nxt := is_snd_nxt s1 + of_nat (k - unat ?l)\<rparr>]\<rparr>)"
      using less.IH [of "k - unat ?l" st1 True] k1 unfolding i1 by auto
    have fr: "seg_frames mac st1 s1 (next_id st1) (is_snd_nxt s1) ds = seg_frames mac st ?s (next_id st + 1) (is_snd_nxt ?s + of_nat (length d)) ds"
      using seg_frames_cong [of st1 st s1 ?s mac] by (simp add: st1_def s1_def d_def)
    have "unat (ucast ?f + ucast ?l :: u64) = unat ?f + unat ?l"
      using \<open>unat ?f + unat ?l < 2 ^ 32\<close> by (subst unat_add_nowrap) simp_all
    then have "ucast (?f + ?l) = (ucast ?f + ucast ?l :: u64)"
      using uf1 unfolding f1 by (simp add: word_unat_eq_iff)
    moreover have "nt_memory st1 = nt_memory st" "is_tx s1 = is_tx ?s" by (simp_all add: st1_def s1_def nt_memory_def nt_heap_def)
    ultimately have "concat ds = bytes_at (nt_memory st) (is_tx ?s + ucast ?f + of_nat (unat ?l)) (k - unat ?l)"
      using ds(1) unfolding f1 by (simp add: add.assoc)
    then have cat: "concat (d # ds) = bytes_at (nt_memory st) (is_tx ?s + ucast ?f) k"
      using bytes_at_add [of "nt_memory st" "is_tx ?s + ucast ?f" "unat ?l" "k - unat ?l"] l by (simp add: d_def)
    have nx: "is_snd_nxt s1 + of_nat (k - unat ?l) = is_snd_nxt ?s + of_nat k"
    proof -
      have "unat ?l \<le> k" using l by simp
      then show ?thesis by (simp add: s1_def of_nat_diff)
    qed
    have dl: "0 < length d" "length d \<le> 1400" using l False by (simp_all add: d_def)
    show ?thesis
      using cat ds(2) dl unfolding step ds(3) fr nx
      by (intro exI [of _ "d # ds"]) (simp add: st1_def s1_def)
  qed
qed

end
