(* ===== verification/TcpStream.thy ===== *)
theory TcpStream
  imports TcpSpec
begin

text \<open>
  A TCP connection as two streams of bytes: the bytes that wait in the ring \<^verbatim>\<open>rx\<close> for the program, and the bytes in the
  buffer \<^verbatim>\<open>tx\<close> that the peer has not acknowledged. The theory says what a segment of the peer does to both, for any
  segment that neither resets nor closes the connection, and what a program gets when it reads.
\<close>

subsection \<open>The ring of received bytes\<close>

definition rx_stream :: "inet \<Rightarrow> nat \<Rightarrow> bytes" where
  "rx_stream st i = map (\<lambda>k. nt_memory st (is_rx (isock st i) + of_nat ((unat (is_rx_head (isock st i)) + k) mod 131072)))
     [0..<unat (is_rx_count (isock st i))]"

definition tx_stream :: "inet \<Rightarrow> nat \<Rightarrow> bytes" where
  "tx_stream st i = bytes_at (nt_memory st) (is_tx (isock st i)) (unat (is_tx_count (isock st i)))"

text \<open>The two buffers lie apart and their counters within their sizes.\<close>

definition tcp_bufs :: "inet_socket \<Rightarrow> bool" where
  "tcp_bufs s \<longleftrightarrow> unat (is_rx_head s) < 131072 \<and> unat (is_rx_count s) \<le> 131072 \<and> unat (is_tx_count s) \<le> 65536 \<and>
     unat (is_rx s) + 131072 \<le> 2 ^ 64 \<and> unat (is_tx s) + 65536 < 2 ^ 64 \<and>
     (unat (is_rx s) + 131072 \<le> unat (is_tx s) \<or> unat (is_tx s) + 65536 \<le> unat (is_rx s))"

lemma length_rx_stream [simp]: "length (rx_stream st i) = unat (is_rx_count (isock st i))"
  by (simp add: rx_stream_def)

lemma length_tx_stream [simp]: "length (tx_stream st i) = unat (is_tx_count (isock st i))"
  by (simp add: tx_stream_def)

lemma unat_TCP_RX_SIZE [simp]: "unat TCP_RX_SIZE = 131072"
  by (simp add: TCP_RX_SIZE_def)

lemma nt_access [simp]:
  "nt_memory (set_nt_memory m st) = m" "isock (set_nt_memory m st) j = isock st j" "nt_memory (upd_isock i f st) = nt_memory st"
  "inet_sockets (set_nt_memory m st) = inet_sockets st" "length (inet_sockets (upd_isock i f st)) = length (inet_sockets st)"
  "i < length (inet_sockets st) \<Longrightarrow> isock (upd_isock i f st) i = f (isock st i)"
  "j \<noteq> i \<Longrightarrow> isock (upd_isock i f st) j = isock st j"
  by (simp_all add: nt_memory_def set_nt_memory_def set_nt_heap_def nt_heap_def isock_def upd_isock_def)

lemma ring_pieces:
  assumes "h < R" and "c + n \<le> (R :: nat)" and "t = (h + c) mod R" and "f = min n (R - t)" and "i < c + n" and "j = (h + i) mod R"
  shows "(t \<le> j \<and> j < t + f \<or> j < n - f) \<longleftrightarrow> c \<le> i"
    and "c \<le> i \<Longrightarrow> t \<le> j \<and> j < t + f \<Longrightarrow> j - t = i - c \<and> \<not> j < n - f"
    and "c \<le> i \<Longrightarrow> \<not> (t \<le> j \<and> j < t + f) \<Longrightarrow> f + j = i - c"
proof -
  have t: "t = (if h + c < R then h + c else h + c - R)" using assms(1-3) by (simp add: mod_if)
  have j: "j = (if h + i < R then h + i else h + i - R)" using assms(1,2,5,6) by (simp add: mod_if)
  show "(t \<le> j \<and> j < t + f \<or> j < n - f) \<longleftrightarrow> c \<le> i"
    and "c \<le> i \<Longrightarrow> t \<le> j \<and> j < t + f \<Longrightarrow> j - t = i - c \<and> \<not> j < n - f"
    and "c \<le> i \<Longrightarrow> \<not> (t \<le> j \<and> j < t + f) \<Longrightarrow> f + j = i - c"
    using assms(1,2,4,5) unfolding t j by (auto simp: min_def split: if_splits)
qed

lemma offset_distance:
  assumes "t < 2 ^ 63" and "j < 2 ^ 63"
  shows "unat ((b :: u64) + of_nat j - (b + of_nat t)) = (if t \<le> j then j - t else 2 ^ 64 - (t - j))"
proof (cases "t \<le> j")
  case True
  then have e: "b + of_nat j - (b + of_nat t) = of_nat (j - t)" by (simp add: of_nat_diff)
  have "unat (of_nat (j - t) :: u64) = j - t" using assms by (intro unat_of_nat_small) simp
  then show ?thesis unfolding e using True by simp
next
  case False
  then have e: "b + of_nat j - (b + of_nat t) = - of_nat (t - j)" by (simp add: of_nat_diff)
  have u: "unat (of_nat (t - j) :: u64) = t - j" using assms by (intro unat_of_nat_small) simp
  then have "(of_nat (t - j) :: u64) \<noteq> 0" using False by (metis diff_is_0_eq less_imp_le_nat not_le unat_0)
  then show ?thesis unfolding e using False u unat_neg_64 [of "of_nat (t - j)"] by (simp del: of_nat_diff)
qed

lemma store_bytes_ring:
  assumes "t + length ds \<le> 2 ^ 62" and "j < 2 ^ 62"
  shows "store_bytes (b + of_nat t) ds m (b + of_nat j) = (if t \<le> j \<and> j < t + length ds then ds ! (j - t) else m (b + of_nat j))"
  using assms offset_distance [of t j b] by (auto simp: store_bytes_def)

lemma rx_push_memory:
  fixes st i d
  defines "s \<equiv> isock st i"
  assumes "tcp_bufs s" and "unat (is_rx_count s) + length d \<le> 131072"
  shows "\<exists>m. rx_push i d st = upd_isock i (\<lambda>s. s\<lparr>is_rx_count := is_rx_count s + of_nat (length d), is_rcv_nxt := is_rcv_nxt s + of_nat (length d)\<rparr>) (set_nt_memory m st) \<and>
    (\<forall>k < unat (is_rx_count s) + length d. m (is_rx s + of_nat ((unat (is_rx_head s) + k) mod 131072)) =
       (rx_stream st i @ d) ! k) \<and>
    (\<forall>a. 131072 \<le> unat (a - is_rx s) \<longrightarrow> m a = nt_memory st a)"
proof -
  let ?h = "unat (is_rx_head s)" and ?c = "unat (is_rx_count s)" and ?n = "length d"
  define tl where "tl = (is_rx_head s + is_rx_count s) mod TCP_RX_SIZE"
  define f where "f = min_u64 (of_nat ?n) (TCP_RX_SIZE - tl)"
  define m1 where "m1 = store_bytes (is_rx s + tl) (take (unat f) d) (nt_memory st)"
  define m2 where "m2 = store_bytes (is_rx s) (drop (unat f) d) m1"
  have hc: "?h < 131072" "?c + ?n \<le> 131072" using assms by (simp_all add: tcp_bufs_def)
  have un: "unat (of_nat ?n :: u64) = ?n" using hc by (simp add: unat_of_nat_small)
  have "unat (is_rx_head s + is_rx_count s) = ?h + ?c" using hc by (subst unat_add_nowrap) simp_all
  then have ut: "unat tl = (?h + ?c) mod 131072" by (simp add: tl_def unat_mod)
  then have t: "unat tl < 131072" by simp
  then have "unat (TCP_RX_SIZE - tl) = 131072 - unat tl" by (subst unat_diff_nowrap) simp_all
  then have uf: "unat f = min ?n (131072 - unat tl)" by (simp add: f_def un)
  have len: "length (take (unat f) d) = unat f" "length (drop (unat f) d) = ?n - unat f" using uf by simp_all
  have "ucast (of_nat ?n :: u64) = (of_nat ?n :: u32)" using hc un by (simp add: word_unat_eq_iff unat_of_nat_small unsigned_ucast_eq take_bit_nat_eq_self)
  then have push: "rx_push i d st = upd_isock i (\<lambda>s. s\<lparr>is_rx_count := is_rx_count s + of_nat ?n, is_rcv_nxt := is_rcv_nxt s + of_nat ?n\<rparr>) (set_nt_memory m2 st)"
    by (simp add: rx_push_def Let_def m2_def m1_def f_def tl_def s_def)
  have at1: "m1 (is_rx s + of_nat j) = (if unat tl \<le> j \<and> j < unat tl + unat f then d ! (j - unat tl) else nt_memory st (is_rx s + of_nat j))"
    if "j < 131072" for j
  proof -
    have "unat tl + unat f \<le> 2 ^ 62" using t uf by simp
    then show ?thesis using store_bytes_ring [of "unat tl" "take (unat f) d" j "is_rx s" "nt_memory st"] that
      unfolding m1_def len(1) by (auto simp del: length_take)
  qed
  have at2: "m2 (is_rx s + of_nat j) = (if j < ?n - unat f then d ! (unat f + j) else m1 (is_rx s + of_nat j))" if "j < 131072" for j
  proof -
    have "0 + (?n - unat f) \<le> 2 ^ 62" "unat f \<le> ?n" using hc uf by simp_all
    then show ?thesis using store_bytes_ring [of 0 "drop (unat f) d" j "is_rx s" m1] that
      unfolding m2_def len(2) by (auto simp del: length_drop)
  qed
  have q: "m2 (is_rx s + of_nat ((?h + k) mod 131072)) = (rx_stream st i @ d) ! k" if k: "k < ?c + ?n" for k
  proof -
    define j where "j = (?h + k) mod 131072"
    have j: "j < 131072" by (simp add: j_def)
    note r = ring_pieces [OF hc ut uf k j_def]
    show ?thesis unfolding j_def [symmetric]
    proof (cases "k < ?c")
      case True
      then have "\<not> (unat tl \<le> j \<and> j < unat tl + unat f)" "\<not> j < ?n - unat f" using r(1) by auto
      then have "m2 (is_rx s + of_nat j) = nt_memory st (is_rx s + of_nat j)" using at2 [OF j] at1 [OF j] by auto
      then show "m2 (is_rx s + of_nat j) = (rx_stream st i @ d) ! k" using True by (simp add: nth_append s_def rx_stream_def j_def)
    next
      case False
      then have ck: "?c \<le> k" by simp
      have "m2 (is_rx s + of_nat j) = d ! (k - ?c)"
      proof (cases "unat tl \<le> j \<and> j < unat tl + unat f")
        case True
        then show ?thesis using at2 [OF j] at1 [OF j] r(2) [OF ck True] by simp
      next
        case o: False
        then have "j < ?n - unat f" using r(1) ck by blast
        then show ?thesis using at2 [OF j] r(3) [OF ck o] by simp
      qed
      then show "m2 (is_rx s + of_nat j) = (rx_stream st i @ d) ! k" using False by (simp add: nth_append s_def)
    qed
  qed
  have out: "m2 a = nt_memory st a" if a: "131072 \<le> unat (a - is_rx s)" for a
  proof -
    have ta: "unat tl \<le> unat (a - is_rx s)" using t a by simp
    have "unat (a - (is_rx s + tl)) = unat (a - is_rx s) - unat tl"
      using unat_diff_nowrap [OF ta] by (simp add: algebra_simps)
    moreover have "unat f \<le> 131072 - unat tl" using uf by simp
    ultimately have "\<not> unat (a - (is_rx s + tl)) < unat f" using a t by linarith
    moreover have "\<not> unat (a - is_rx s) < ?n - unat f" using a hc by linarith
    ultimately show ?thesis unfolding m2_def m1_def store_bytes_def len by (simp only: if_False)
  qed
  show ?thesis using push q out by blast
qed

lemma tx_outside_rx:
  assumes "tcp_bufs s" and "k < 65536"
  shows "131072 \<le> unat (is_tx s + of_nat k - is_rx s)"
proof -
  have u: "unat (is_tx s + of_nat k) = unat (is_tx s) + k"
    using assms by (subst unat_add_nowrap) (simp_all add: tcp_bufs_def unat_of_nat_small)
  show ?thesis
  proof (cases "unat (is_rx s) \<le> unat (is_tx s)")
    case True
    then show ?thesis using assms u by (subst unat_diff_nowrap) (auto simp: tcp_bufs_def)
  next
    case False
    then have "unat (is_tx s) + 65536 \<le> unat (is_rx s)" using assms(1) by (auto simp: tcp_bufs_def)
    then have lt: "unat (is_tx s + of_nat k) < unat (is_rx s)" using u assms(2) by simp
    then have ne: "is_rx s - (is_tx s + of_nat k) \<noteq> 0" by auto
    have "unat (is_rx s - (is_tx s + of_nat k)) = unat (is_rx s) - (unat (is_tx s) + k)" using lt u by (subst unat_diff_nowrap) simp_all
    then have "unat (is_tx s + of_nat k - is_rx s) = 2 ^ 64 - (unat (is_rx s) - (unat (is_tx s) + k))"
      using unat_neg_64 [OF ne] by simp
    moreover have "unat (is_rx s) + 131072 \<le> 2 ^ 64" using assms(1) by (simp add: tcp_bufs_def)
    ultimately show ?thesis using lt u by linarith
  qed
qed

lemma rx_outside_tx:
  assumes "tcp_bufs s" and "k < 131072"
  shows "65536 \<le> unat (is_rx s + of_nat k - is_tx s)"
proof (rule ccontr)
  define j where "j = unat (is_rx s + of_nat k - is_tx s)"
  assume "\<not> 65536 \<le> unat (is_rx s + of_nat k - is_tx s)"
  then have "131072 \<le> unat (is_tx s + of_nat j - is_rx s)" by (intro tx_outside_rx [OF assms(1)]) (simp add: j_def)
  moreover have "is_tx s + of_nat j - is_rx s = of_nat k" by (simp add: j_def)
  ultimately show False using assms(2) by (simp add: unat_of_nat_small)
qed

lemma rx_push_streams:
  assumes "i < length (inet_sockets st)" and "tcp_bufs (isock st i)" and "unat (is_rx_count (isock st i)) + length d \<le> 131072"
  shows "rx_stream (rx_push i d st) i = rx_stream st i @ d" and "tx_stream (rx_push i d st) i = tx_stream st i"
    and "\<exists>m. rx_push i d st = upd_isock i (\<lambda>s. s\<lparr>is_rx_count := is_rx_count s + of_nat (length d), is_rcv_nxt := is_rcv_nxt s + of_nat (length d)\<rparr>) (set_nt_memory m st)"
    and "unat (is_rx_count (isock st i) + of_nat (length d)) = unat (is_rx_count (isock st i)) + length d"
proof -
  obtain m where m: "rx_push i d st = upd_isock i (\<lambda>s. s\<lparr>is_rx_count := is_rx_count s + of_nat (length d), is_rcv_nxt := is_rcv_nxt s + of_nat (length d)\<rparr>) (set_nt_memory m st)"
    "\<forall>k < unat (is_rx_count (isock st i)) + length d. m (is_rx (isock st i) + of_nat ((unat (is_rx_head (isock st i)) + k) mod 131072)) = (rx_stream st i @ d) ! k"
    "\<forall>a. 131072 \<le> unat (a - is_rx (isock st i)) \<longrightarrow> m a = nt_memory st a"
    using rx_push_memory [OF assms(2,3)] by blast
  show u: "unat (is_rx_count (isock st i) + of_nat (length d)) = unat (is_rx_count (isock st i)) + length d"
    using assms(3) by (subst unat_add_nowrap) (simp_all add: unat_of_nat_small)
  show "rx_stream (rx_push i d st) i = rx_stream st i @ d"
    unfolding m(1) using assms(1) m(2) u by (intro nth_equalityI) (simp_all add: rx_stream_def [of "upd_isock i f x" for f x])
  have "unat (is_tx_count (isock st i)) \<le> 65536" using assms(2) by (simp add: tcp_bufs_def)
  then have "m (is_tx (isock st i) + of_nat k) = nt_memory st (is_tx (isock st i) + of_nat k)" if "k < unat (is_tx_count (isock st i))" for k
    using m(3) tx_outside_rx [OF assms(2), of k] that by simp
  then show "tx_stream (rx_push i d st) i = tx_stream st i"
    unfolding m(1) tx_stream_def using assms(1) by (simp, intro bytes_at_eqI) simp
  show "\<exists>m. rx_push i d st = upd_isock i (\<lambda>s. s\<lparr>is_rx_count := is_rx_count s + of_nat (length d), is_rcv_nxt := is_rcv_nxt s + of_nat (length d)\<rparr>) (set_nt_memory m st)"
    using m(1) by blast
qed

subsection \<open>Acknowledgements\<close>

lemma sint_neg_32: "sint (w :: u32) < 0 \<longleftrightarrow> 2 ^ 31 \<le> unat w"
proof -
  have "sint w < 0 \<longleftrightarrow> bit w 31" using bit_last_iff [of w] by simp
  also have "\<dots> \<longleftrightarrow> bit (unat w) 31" by (simp add: bit_unsigned_iff)
  also have "\<dots> \<longleftrightarrow> odd (unat w div 2 ^ 31)" by (rule bit_iff_odd)
  also have "\<dots> \<longleftrightarrow> 2 ^ 31 \<le> unat w"
  proof (cases "2 ^ 31 \<le> unat w")
    case True
    then have "unat w div 2 ^ 31 = 1" using unat_lt_32 [of w] by (intro div_nat_eqI) simp_all
    with True show ?thesis by simp
  qed simp
  finally show ?thesis .
qed

lemma sint_le_32: "sint (w :: u32) \<le> 0 \<longleftrightarrow> 2 ^ 31 \<le> unat w \<or> w = 0"
  using sint_neg_32 [of w] by (auto simp: order_le_less signed_eq_0_iff)

lemma unat_diff_32: "unat (x - y :: u32) = (if unat y \<le> unat x then unat x - unat y else 2 ^ 32 + unat x - unat y)"
proof (cases "unat y \<le> unat x")
  case False
  have "unat (x - y) < 2 ^ 32" "unat x < 2 ^ 32" "unat y < 2 ^ 32" by (rule unat_lt_32)+
  moreover have "(unat (x - y) + unat y) mod 2 ^ 32 = unat x" using unat_word_ariths(1) [of "x - y" y] by simp
  ultimately show ?thesis using False by (auto simp: mod_if split: if_splits)
qed (simp add: unat_diff_nowrap)

text \<open>An acknowledgement is taken if it lies after \<open>una\<close> and not after \<open>nxt\<close>, compared around the circle of sequence numbers.
  One value slips through these comparisons although it lies outside: the one opposite to \<open>una\<close>, when nothing is in flight.\<close>

lemma ack_window:
  assumes "unat (nxt - una) \<le> 65536" and "ack - una \<noteq> 2 ^ 31"
  shows "seq_lt una ack \<and> seq_le ack nxt \<longleftrightarrow> 0 < unat (ack - una) \<and> unat (ack - una) \<le> unat (nxt - una)"
proof -
  define x y where "x = ack - una" and "y = nxt - una"
  have e: "una - ack = 0 - x" "ack - nxt = x - y" by (simp_all add: x_def y_def)
  have "unat x \<noteq> 2 ^ 31"
  proof
    assume "unat x = 2 ^ 31"
    then have "unat x = unat (2 ^ 31 :: u32)" by simp
    then have "x = 2 ^ 31" by (simp only: word_unat_eq_iff)
    then show False using assms(2) by (simp only: x_def simp_thms)
  qed
  moreover have "unat x < 2 ^ 32" "unat y \<le> 65536" using unat_lt_32 [of x] assms(1) by (simp_all add: y_def)
  moreover have "x - y = 0 \<longleftrightarrow> unat x = unat y" using word_unat_eq_iff [of x y] by simp
  ultimately show ?thesis
    unfolding seq_lt_def seq_le_def e sint_neg_32 sint_le_32 unat_diff_32 x_def [symmetric] y_def [symmetric]
    by (auto split: if_splits)
qed

text \<open>A connection that is open in both directions.\<close>

definition tcp_open :: "inet \<Rightarrow> nat \<Rightarrow> bool" where
  "tcp_open st i \<longleftrightarrow> i < length (inet_sockets st) \<and> (let s = isock st i in
     is_used s \<and> is_kind s = INET_TCP \<and> is_state s = TCP_ESTABLISHED \<and> \<not> is_fin_sent s \<and> \<not> is_close_requested s \<and> \<not> is_fin_received s \<and>
     tcp_bufs s \<and> unat (is_snd_nxt s - is_snd_una s) \<le> unat (is_tx_count s))"

text \<open>The bytes of the send buffer that an acknowledgement covers.\<close>

definition acked_bytes :: "u8 \<Rightarrow> u32 \<Rightarrow> inet_socket \<Rightarrow> nat" where
  "acked_bytes flags ack s = (if flags AND TCP_ACK \<noteq> 0 \<and> unat (ack - is_snd_una s) \<le> unat (is_snd_nxt s - is_snd_una s) then unat (ack - is_snd_una s) else 0)"

text \<open>What is kept when a segment for the connection \<open>i\<close> is handled: all other sockets, and what the connection is found by.\<close>

definition conn_id :: "inet_socket \<Rightarrow> bool \<times> inet_kind \<times> u16 \<times> u16 \<times> ipv4" where
  "conn_id s = (is_used s, is_kind s, is_local_port s, is_remote_port s, is_remote_ip s)"

definition others_kept :: "nat \<Rightarrow> inet \<Rightarrow> inet \<Rightarrow> bool" where
  "others_kept i st st' \<longleftrightarrow> length (inet_sockets st') = length (inet_sockets st) \<and> (\<forall>j. j \<noteq> i \<longrightarrow> isock st' j = isock st j) \<and>
     conn_id (isock st' i) = conn_id (isock st i) \<and> our_ip st' = our_ip st \<and> net_ok st' \<and> net_awake st'"

lemma others_kept_trans: "others_kept i a b \<Longrightarrow> others_kept i b c \<Longrightarrow> others_kept i a c"
  by (simp add: others_kept_def)

lemma net_ok_frame [simp]:
  "net_ok (st\<lparr>nt_sched := sc\<rparr>) = net_ok st" "net_ok (upd_isock i f st) = net_ok st" "net_ok (set_nt_memory m st) = net_ok st"
  "net_awake (upd_isock i f st) = net_awake st" "our_ip (upd_isock i f st) = our_ip st" "our_ip (set_nt_memory m st) = our_ip st"
  by (simp_all add: net_ok_def arp_ok_def upd_isock_def set_nt_memory_def set_nt_heap_def net_awake_def)

lemma net_awake_memory [simp]: "net_awake (set_nt_memory m st) = net_awake st"
  by (simp add: net_awake_def set_nt_memory_def set_nt_heap_def ring_def)

lemma wake_frame:
  assumes "net_awake st"
  shows "\<exists>st'. nt_wake st = Some st' \<and> (\<forall>j. isock st' j = isock st j) \<and> inet_sockets st' = inet_sockets st \<and> nt_memory st' = nt_memory st \<and> our_ip st' = our_ip st \<and>
    net_ok st' = net_ok st \<and> net_awake st'"
  using nt_wake_ok [OF assms] by (auto simp: isock_def nt_memory_def nt_heap_def net_awake_def)

text \<open>\<open>streams i st tk ac st'\<close>: between the two states the open connection \<open>i\<close> took the bytes \<open>tk\<close> from the peer and the peer
  acknowledged \<open>ac\<close> bytes.\<close>

definition streams :: "nat \<Rightarrow> inet \<Rightarrow> bytes \<Rightarrow> nat \<Rightarrow> inet \<Rightarrow> bool" where
  "streams i st tk ac st' \<longleftrightarrow> tcp_open st' i \<and> rx_stream st' i = rx_stream st i @ tk \<and> tx_stream st' i = drop ac (tx_stream st i) \<and>
     is_rcv_nxt (isock st' i) = is_rcv_nxt (isock st i) + of_nat (length tk) \<and>
     is_snd_una (isock st' i) = is_snd_una (isock st i) + of_nat ac \<and> others_kept i st st'"

lemma streams_trans: "streams i a tk ac b \<Longrightarrow> streams i b tk' ac' c \<Longrightarrow> streams i a (tk @ tk') (ac + ac') c"
  using others_kept_trans by (auto simp: streams_def add.commute)

lemma streamsD:
  assumes "streams i st tk ac st'"
  shows "tcp_open st' i" "net_ok st'" "net_awake st'"
  using assms by (simp_all add: streams_def others_kept_def)

lemma tcp_acked_bytes:
  assumes "tcp_open st i" and "th_ack p - is_snd_una (isock st i) \<noteq> 2 ^ 31"
    and "seq_lt (is_snd_una (isock st i)) (th_ack p)" and "seq_le (th_ack p) (is_snd_nxt (isock st i))"
  shows "0 < unat (th_ack p - is_snd_una (isock st i))"
    and "unat (th_ack p - is_snd_una (isock st i)) \<le> unat (is_snd_nxt (isock st i) - is_snd_una (isock st i))"
    and "unat (ucast (tcp_acked (th_ack p) (isock st i)) :: u64) = unat (th_ack p - is_snd_una (isock st i))"
proof -
  let ?s = "isock st i" let ?x = "th_ack p - is_snd_una ?s"
  have o: "\<not> is_fin_sent ?s" "unat (is_snd_nxt ?s - is_snd_una ?s) \<le> unat (is_tx_count ?s)" "unat (is_tx_count ?s) \<le> 65536"
    using assms(1) by (simp_all add: tcp_open_def Let_def tcp_bufs_def)
  then show a: "0 < unat ?x" "unat ?x \<le> unat (is_snd_nxt ?s - is_snd_una ?s)" using ack_window [OF _ assms(2)] assms(3,4) by auto
  have "\<not> is_tx_count ?s < ucast ?x" using a(2) o(2) by (simp add: word_less_nat_alt)
  then have "tcp_acked (th_ack p) ?s = ?x" using o(1) by (simp add: tcp_acked_def Let_def)
  then show "unat (ucast (tcp_acked (th_ack p) ?s) :: u64) = unat ?x" by simp
qed

lemma tcp_handle_ack_open:
  assumes "tcp_open st i" and "net_ok st" and "net_awake st" and "th_ack p - is_snd_una (isock st i) \<noteq> 2 ^ 31"
  shows "\<exists>st'. tcp_handle_ack i p st = Some st' \<and> streams i st [] (acked_bytes (th_flags p) (th_ack p) (isock st i)) st'"
proof (cases "th_flags p AND TCP_ACK = 0")
  case True
  then show ?thesis using assms by (simp add: tcp_handle_ack_def acked_bytes_def streams_def others_kept_def)
next
  case flag: False
  let ?s = "isock st i" let ?x = "unat (th_ack p - is_snd_una ?s)"
  have i: "i < length (inet_sockets st)" and b: "tcp_bufs ?s" and fl: "unat (is_snd_nxt ?s - is_snd_una ?s) \<le> unat (is_tx_count ?s)"
    using assms(1) by (simp_all add: tcp_open_def Let_def)
  then have t: "unat (is_tx_count ?s) \<le> 65536" "unat (is_tx ?s) + 65536 < 2 ^ 64" by (simp_all add: tcp_bufs_def)
  show ?thesis
  proof (cases "seq_lt (is_snd_una ?s) (th_ack p) \<and> seq_le (th_ack p) (is_snd_nxt ?s)")
    case False
    then have "acked_bytes (th_flags p) (th_ack p) ?s = 0"
      using ack_window [OF _ assms(4), of "is_snd_nxt ?s"] fl t by (auto simp: acked_bytes_def)
    moreover have "tcp_handle_ack i p st = Some (upd_isock i (\<lambda>s. s\<lparr>is_snd_wnd := ucast (th_window p)\<rparr>) st)"
      using flag by (simp only: tcp_handle_ack_def Let_def False if_False if_cancel) simp
    ultimately show ?thesis using assms(1-3) i
      by (simp add: streams_def tcp_open_def Let_def others_kept_def conn_id_def tcp_bufs_def rx_stream_def tx_stream_def)
  next
    case True
    note x = tcp_acked_bytes [OF assms(1,4) conjunct1 [OF True] conjunct2 [OF True]]
    define d :: u64 where "d = ucast (tcp_acked (th_ack p) ?s)"
    define left where "left = is_tx_count ?s - d"
    define m where "m = memmove (is_tx ?s) (is_tx ?s + d) left (nt_memory st)"
    define s1 where "s1 = ?s\<lparr>is_tx_count := left, is_snd_una := th_ack p, is_retries := 0, is_rto_ms := TCP_RTO_MIN_MS * 2,
        is_rto_deadline := (if th_ack p = is_snd_nxt ?s then 0 else nt_now st + ucast (TCP_RTO_MIN_MS * 2))\<rparr>"
    have ud: "unat d = ?x" using x(3) by (simp add: d_def)
    then have ul: "unat left = unat (is_tx_count ?s) - ?x" using x(2) fl by (simp add: left_def unat_diff_nowrap)
    have "unat (is_tx ?s + d) = unat (is_tx ?s) + ?x" using t x(2) fl ud by (subst unat_add_nowrap) simp_all
    then have at: "m a = (if unat (a - is_tx ?s) < unat left then nt_memory st (is_tx ?s + d + (a - is_tx ?s)) else nt_memory st a)" for a
      unfolding m_def using t ul x(2) fl by (intro memmove_at) simp_all
    define st1 where "st1 = upd_isock i (\<lambda>_. s1) (set_nt_memory m st)"
    obtain st2 where w: "nt_wake st1 = Some st2" "\<forall>j. isock st2 j = isock st1 j" "inet_sockets st2 = inet_sockets st1" "nt_memory st2 = nt_memory st1"
      "our_ip st2 = our_ip st1" "net_ok st2 = net_ok st1" "net_awake st2"
      using wake_frame [of st1] assms(3) by (auto simp: st1_def)
    define st3 where "st3 = upd_isock i (\<lambda>s. s\<lparr>is_snd_wnd := ucast (th_window p)\<rparr>) st2"
    have run: "tcp_handle_ack i p st = Some st3"
      using flag True w(1) by (simp add: tcp_handle_ack_def Let_def st1_def st3_def s1_def m_def left_def d_def upd_isock_def isock_def)
    have i3: "isock st3 i = s1\<lparr>is_snd_wnd := ucast (th_window p)\<rparr>" "nt_memory st3 = m"
      using i w(2-4) by (simp_all add: st3_def st1_def)
    have "m (is_rx ?s + of_nat (k mod 131072)) = nt_memory st (is_rx ?s + of_nat (k mod 131072))" for k
    proof -
      have "65536 \<le> unat (is_rx ?s + of_nat (k mod 131072) - is_tx ?s)" by (rule rx_outside_tx [OF b]) simp
      then have "\<not> unat (is_rx ?s + of_nat (k mod 131072) - is_tx ?s) < unat left" using ul t(1) by linarith
      then show ?thesis by (simp only: at if_False)
    qed
    then have rx: "rx_stream st3 i = rx_stream st i" by (simp add: rx_stream_def i3 s1_def)
    have "m (is_tx ?s + of_nat k) = nt_memory st (is_tx ?s + d + of_nat k)" if "k < unat left" for k
      using that unat_lt_64 [of left] by (simp add: at unat_of_nat_small)
    moreover have "of_nat ?x = d" using ud by (metis of_nat_unat_64)
    ultimately have "bytes_at m (is_tx ?s) (unat left) = drop ?x (bytes_at (nt_memory st) (is_tx ?s) (unat (is_tx_count ?s)))"
      by (intro nth_equalityI) (simp_all add: nth_bytes_at ul add.assoc)
    then have tx: "tx_stream st3 i = drop (acked_bytes (th_flags p) (th_ack p) ?s) (tx_stream st i)"
      using flag x(2) by (simp add: tx_stream_def i3 s1_def acked_bytes_def)
    have "unat (is_snd_nxt ?s - th_ack p) = unat (is_snd_nxt ?s - is_snd_una ?s) - ?x"
      using unat_diff_nowrap [OF x(2)] by simp
    then have "unat (is_snd_nxt ?s - th_ack p) \<le> unat left" "unat left \<le> 65536" using ul fl t(1) by linarith+
    then have "tcp_open st3 i"
      using assms(1) w(3) unfolding tcp_open_def Let_def i3 s1_def by (simp add: st3_def st1_def tcp_bufs_def)
    moreover have "others_kept i st st3"
      using assms(2,3) w i unfolding others_kept_def i3 by (simp add: st3_def st1_def s1_def conn_id_def)
    moreover have "th_ack p = is_snd_una ?s + of_nat (acked_bytes (th_flags p) (th_ack p) ?s)"
      using flag x(2) by (simp add: acked_bytes_def)
    ultimately show ?thesis using run rx tx unfolding streams_def by (simp add: i3 s1_def)
  qed
qed

subsection \<open>The answer: acknowledgement and more segments\<close>

text \<open>Steps that send, but change neither stream.\<close>

abbreviation quiet :: "nat \<Rightarrow> inet \<Rightarrow> inet \<Rightarrow> bool" where
  "quiet i st st' \<equiv> streams i st [] 0 st'"

lemma quiet_trans: "quiet i a b \<Longrightarrow> quiet i b c \<Longrightarrow> quiet i a c"
  using streams_trans [of i a "[]" 0 b "[]" 0 c] by simp

lemma quiet_refl: "tcp_open st i \<Longrightarrow> net_ok st \<Longrightarrow> net_awake st \<Longrightarrow> quiet i st st"
  by (simp add: streams_def others_kept_def)

lemma quiet_sent:
  assumes "tcp_open st i" and "net_awake st" and "sent st st'" and "net_ok st'"
  shows "quiet i st st'"
  using assms by (simp add: streams_def others_kept_def tcp_open_def rx_stream_def tx_stream_def sent_kept net_awake_def)

lemma quiet_upd:
  assumes "tcp_open st i" and "net_awake st" and "net_ok st"
    and "unat (n - is_snd_una (isock st i)) \<le> unat (is_tx_count (isock st i))"
  shows "quiet i st (upd_isock i (\<lambda>s. s\<lparr>is_snd_nxt := n\<rparr>) st)" "quiet i st (upd_isock i (\<lambda>s. s\<lparr>is_rto_deadline := t\<rparr>) st)"
  using assms by (simp_all add: streams_def others_kept_def tcp_open_def Let_def rx_stream_def tx_stream_def conn_id_def tcp_bufs_def)

lemma tcp_output_loop_quiet:
  assumes "tcp_open st i" and "net_ok st" and "net_awake st"
  shows "\<exists>b' st'. tcp_output_loop i window b st = Some (b', st') \<and> quiet i st st'"
  using assms
proof (induction "send_goal window (isock st i) - unat (tcp_in_flight (isock st i))" arbitrary: st b rule: less_induct)
  case less
  let ?s = "isock st i" let ?f = "tcp_in_flight ?s" and ?l = "tcp_next_len window ?s"
  have i: "i < length (inet_sockets st)" and fs: "\<not> is_fin_sent ?s" and tx: "unat (is_tx_count ?s) \<le> 65536"
    using less.prems(1) by (simp_all add: tcp_open_def Let_def tcp_bufs_def)
  have f: "?f = is_snd_nxt ?s - is_snd_una ?s" using fs by (rule in_flight_plain)
  show ?case
  proof (cases "unat ?f < send_goal window ?s")
    case False
    then show ?thesis using tcp_output_loop_stop [of st i window b] quiet_refl less.prems by blast
  next
    case True
    then have lt: "unat ?f < unat (is_tx_count ?s)" "unat ?f < unat window" by (simp_all add: send_goal_def)
    have l: "unat ?l = min (send_goal window ?s - unat ?f) 1400" by (rule next_len_value [OF tx refl lt])
    then have l16: "unat (ucast ?l :: u16) = unat ?l" by (simp add: unsigned_ucast_eq take_bit_nat_eq_self)
    define d where "d = bytes_at (nt_memory st) (is_tx ?s + ucast ?f) (unat ?l)"
    obtain st1 where st1: "tcp_send_segment i (is_snd_nxt ?s) (TCP_ACK OR TCP_PSH) d (ucast ?l) st = Some st1" "sent st st1" "net_ok st1"
      using tcp_send_segment_ok [OF less.prems(2), of d "ucast ?l" i "is_snd_nxt ?s" "TCP_ACK OR TCP_PSH"] l l16 by (auto simp: d_def)
    have q1: "quiet i st st1" by (rule quiet_sent [OF less.prems(1,3) st1(2,3)])
    have i1: "isock st1 i = ?s" using st1(2) by simp
    define st2 where "st2 = upd_isock i (\<lambda>s. s\<lparr>is_snd_nxt := is_snd_nxt ?s + ?l\<rparr>) st1"
    have go: "\<not> (ucast ?f \<ge> is_tx_count ?s \<or> ?f \<ge> window)" using lt by (simp add: word_le_nat_alt not_le)
    have step: "tcp_output_loop i window b st = tcp_output_loop i window True st2"
      using go st1(1) i1 by (subst tcp_output_loop.simps) (simp add: Let_def d_def st2_def upd_isock_def)
    have n: "is_snd_nxt ?s + ?l - is_snd_una ?s = ?f + ?l" by (simp add: f)
    have un: "unat (?f + ?l) = unat ?f + unat ?l" using lt(1) tx l by (subst unat_add_nowrap) simp_all
    have le: "unat ?f + unat ?l \<le> send_goal window ?s" using l True by simp
    then have "unat (is_snd_nxt ?s + ?l - is_snd_una (isock st1 i)) \<le> unat (is_tx_count (isock st1 i))"
      unfolding i1 n un by (simp add: send_goal_def)
    then have q2: "quiet i st1 st2" unfolding st2_def using quiet_upd(1) streamsD [OF q1] by blast
    have "i < length (inet_sockets st1)" using streamsD(1) [OF q1] by (simp add: tcp_open_def)
    then have i2: "isock st2 i = ?s\<lparr>is_snd_nxt := is_snd_nxt ?s + ?l\<rparr>" by (simp add: st2_def i1)
    then have "tcp_in_flight (isock st2 i) = ?f + ?l" using fs by (simp add: in_flight_plain algebra_simps)
    then have f2: "unat (tcp_in_flight (isock st2 i)) = unat ?f + unat ?l" using un by simp
    have "0 < unat ?l" using l True by simp
    moreover have "send_goal window (isock st2 i) = send_goal window ?s" by (simp add: i2 send_goal_def)
    ultimately have "send_goal window (isock st2 i) - unat (tcp_in_flight (isock st2 i)) < send_goal window ?s - unat ?f"
      using True unfolding f2 by linarith
    from less.hyps [OF this streamsD [OF q2]] obtain b' st' where "tcp_output_loop i window True st2 = Some (b', st')" "quiet i st2 st'" by blast
    then show ?thesis using step quiet_trans [OF q1 quiet_trans [OF q2]] by auto
  qed
qed

lemma tcp_output_quiet:
  assumes "tcp_open st i" and "net_ok st" and "net_awake st"
  shows "\<exists>st'. tcp_output i st = Some st' \<and> quiet i st st'"
proof -
  define w where "w = (if is_snd_wnd (isock st i) \<noteq> 0 then is_snd_wnd (isock st i) else 1)"
  obtain b st1 where l: "tcp_output_loop i w False st = Some (b, st1)" "quiet i st st1"
    using tcp_output_loop_quiet [OF assms] by blast
  have o: "tcp_open st1 i" using l(2) by (rule streamsD)
  then have fin: "tcp_output_fin i b st1 = Some (b, st1)" by (simp add: tcp_output_fin_def tcp_open_def Let_def)
  have "quiet i st1 (tcp_arm_timer i st1)"
    using quiet_upd(2) [OF o streamsD(3,2) [OF l(2)], of "is_snd_nxt (isock st1 i)"] o
    by (simp add: tcp_arm_timer_def tcp_open_def Let_def upd_isock_def)
  then have "quiet i st (if b \<and> is_rto_deadline (isock st1 i) = 0 then tcp_arm_timer i st1 else st1)"
    using l(2) quiet_trans by auto
  then show ?thesis using assms(1) l(1) fin by (auto simp: tcp_output_def tcp_open_def Let_def w_def)
qed

subsection \<open>A segment of the peer\<close>

text \<open>The bytes a connection takes from a segment: those that fit, if the segment continues the stream.\<close>

definition taken_bytes :: "u32 \<Rightarrow> bytes \<Rightarrow> inet \<Rightarrow> nat \<Rightarrow> bytes" where
  "taken_bytes seq payload st i = (if seq = is_rcv_nxt (isock st i) then take (131072 - length (rx_stream st i)) payload else [])"

lemma tcp_handle_data_open:
  assumes "tcp_open st i" and "net_ok st" and "net_awake st" and "unat plen \<le> length payload"
  shows "\<exists>na st'. tcp_handle_data i seq payload plen st = Some (na, st') \<and> streams i st (taken_bytes seq (take (unat plen) payload) st i) 0 st'"
proof -
  let ?s = "isock st i"
  have i: "i < length (inet_sockets st)" and b: "tcp_bufs ?s" and nf: "\<not> is_fin_received ?s" using assms(1) by (simp_all add: tcp_open_def Let_def)
  have c: "unat (is_rx_count ?s) \<le> 131072" using b by (simp add: tcp_bufs_def)
  show ?thesis
  proof (cases "plen \<noteq> 0 \<and> seq = is_rcv_nxt ?s")
    case False
    then have "taken_bytes seq (take (unat plen) payload) st i = []" by (auto simp: taken_bytes_def)
    moreover have "tcp_handle_data i seq payload plen st = Some (plen \<noteq> 0, st)" using False by (auto simp: tcp_handle_data_def Let_def)
    ultimately show ?thesis using quiet_refl [OF assms(1-3)] by simp
  next
    case True
    define n :: u64 where "n = (if ucast plen < TCP_RX_SIZE - is_rx_count ?s then ucast plen else TCP_RX_SIZE - is_rx_count ?s)"
    have "unat (TCP_RX_SIZE - is_rx_count ?s) = 131072 - unat (is_rx_count ?s)" using c by (simp add: unat_diff_nowrap)
    then have n: "unat n = min (unat plen) (131072 - unat (is_rx_count ?s))" by (simp add: n_def word_less_nat_alt)
    define d where "d = take (unat n) payload"
    have nl: "unat n \<le> length payload" "unat (is_rx_count ?s) + unat n \<le> 131072" using n assms(4) c by linarith+
    then have dl: "length d = unat n" "unat (is_rx_count ?s) + length d \<le> 131072" by (simp_all add: d_def)
    have d: "d = taken_bytes seq (take (unat plen) payload) st i" using True n by (simp add: taken_bytes_def d_def min.commute)
    have cp: "copy_bytes (unat n) n payload = Some d" using nl(1) by (simp add: copy_bytes_def d_def)
    note push = rx_push_streams [OF i b dl(2)]
    obtain m where m: "rx_push i d st = upd_isock i (\<lambda>s. s\<lparr>is_rx_count := is_rx_count s + of_nat (length d), is_rcv_nxt := is_rcv_nxt s + of_nat (length d)\<rparr>) (set_nt_memory m st)"
      using push(3) by blast
    obtain st2 where w: "nt_wake (rx_push i d st) = Some st2" "\<forall>j. isock st2 j = isock (rx_push i d st) j" "inet_sockets st2 = inet_sockets (rx_push i d st)"
      "nt_memory st2 = nt_memory (rx_push i d st)" "our_ip st2 = our_ip (rx_push i d st)" "net_ok st2 = net_ok (rx_push i d st)" "net_awake st2"
      using wake_frame [of "rx_push i d st"] assms(3) by (auto simp: m)
    have run: "tcp_handle_data i seq payload plen st = Some (True, st2)"
      using True nf cp w(1) by (simp add: tcp_handle_data_def Let_def n_def)
    have i2: "isock st2 i = ?s\<lparr>is_rx_count := is_rx_count ?s + of_nat (length d), is_rcv_nxt := is_rcv_nxt ?s + of_nat (length d)\<rparr>"
      using w(2) i by (simp add: m)
    have st: "rx_stream st2 i = rx_stream (rx_push i d st) i" "tx_stream st2 i = tx_stream (rx_push i d st) i"
      using w(2,4) by (simp_all add: rx_stream_def tx_stream_def)
    have "tcp_open st2 i"
      using assms(1) w(3) push(4) dl(2) unfolding tcp_open_def Let_def i2 by (simp add: m tcp_bufs_def)
    moreover have "others_kept i st st2" using assms(2) w i unfolding others_kept_def i2 by (simp add: m conn_id_def)
    ultimately have "streams i st d 0 st2" using push(1,2) by (simp add: streams_def st i2)
    then show ?thesis using run unfolding d by blast
  qed
qed

text \<open>Everything a segment without RST and FIN does to an open connection.\<close>

lemma tcp_established_open:
  assumes "tcp_open st i" and "net_ok st" and "net_awake st" and "th_ack data - is_snd_una (isock st i) \<noteq> 2 ^ 31"
    and "th_flags data AND TCP_FIN = 0" and "hlen \<le> len" and "unat len \<le> length data"
  shows "\<exists>st'. tcp_established i data hlen len st = Some st' \<and>
    streams i st (taken_bytes (th_seq data) (take (unat len - unat hlen) (drop (unat hlen) data)) st i)
      (acked_bytes (th_flags data) (th_ack data) (isock st i)) st'"
proof -
  define plen :: u32 where "plen = ucast len - ucast hlen"
  have u: "unat (ucast w :: u32) = unat w" for w :: u16 using unat_lt_16 [of w] by (simp add: unsigned_ucast_eq take_bit_nat_eq_self)
  have pl: "unat plen = unat len - unat hlen" using assms(6) unfolding plen_def by (subst unat_diff_nowrap) (simp_all add: u word_le_nat_alt)
  let ?ac = "acked_bytes (th_flags data) (th_ack data) (isock st i)" and ?b = "take (unat plen) (drop (unat hlen) data)"
  obtain st1 where a: "tcp_handle_ack i data st = Some st1" "streams i st [] ?ac st1"
    using tcp_handle_ack_open [OF assms(1-4)] by blast
  have le: "unat plen \<le> length (drop (unat hlen) data)" using pl assms(7) by simp
  obtain na st2 where d: "tcp_handle_data i (th_seq data) (drop (unat hlen) data) plen st1 = Some (na, st2)"
    "streams i st1 (taken_bytes (th_seq data) ?b st1 i) 0 st2"
    using tcp_handle_data_open [OF streamsD [OF a(2)] le] by blast
  have fin: "tcp_handle_fin i (th_flags data) (th_seq data) plen na st2 = Some (na, st2)" using assms(5) by (simp add: tcp_handle_fin_def Let_def)
  obtain st3 where s: "(if na then tcp_send_ack i st2 else Some st2) = Some st3" "quiet i st2 st3"
  proof (cases na)
    case True
    obtain st' where "tcp_send_segment i (is_snd_nxt (isock st2 i)) TCP_ACK [] 0 st2 = Some st'" "sent st2 st'" "net_ok st'"
      using tcp_send_segment_ok [OF streamsD(2) [OF d(2)], of "[]" 0 i "is_snd_nxt (isock st2 i)" TCP_ACK] by auto
    then show ?thesis using True that quiet_sent [OF streamsD(1,3) [OF d(2)]] by (simp add: tcp_send_ack_def)
  qed (use that quiet_refl [OF streamsD [OF d(2)]] in simp)
  obtain st4 where o: "tcp_output i st3 = Some st4" "quiet i st3 st4" using tcp_output_quiet streamsD [OF s(2)] by blast
  have "is_state (isock st3 i) \<noteq> TCP_DONE" using streamsD(1) [OF s(2)] by (simp add: tcp_open_def Let_def)
  then have run: "tcp_established i data hlen len st = Some st4"
    using assms(1) a(1) d(1) fin s(1) o(1) by (simp add: tcp_established_def Let_def plen_def tcp_open_def)
  have "taken_bytes (th_seq data) ?b st1 i = taken_bytes (th_seq data) ?b st i"
    using a(2) by (simp add: taken_bytes_def streams_def del: length_rx_stream)
  then have "streams i st (taken_bytes (th_seq data) ?b st i) ?ac st4"
    using streams_trans [OF a(2) streams_trans [OF d(2) quiet_trans [OF s(2) o(2)]]] by simp
  then show ?thesis using run unfolding pl by blast
qed

lemma first_index_map: "first_index P (map f xs) = first_index (\<lambda>x. P (f x)) xs"
  by (induction xs) simp_all

lemma inet_find_kept: "others_kept i st st' \<Longrightarrow> inet_find_tcp ip rp lp st' = inet_find_tcp ip rp lp st"
proof -
  assume k: "others_kept i st st'"
  have "conn_id (isock st' j) = conn_id (isock st j)" for j using k by (cases "j = i") (simp_all add: others_kept_def)
  moreover have "length (inet_sockets st') = length (inet_sockets st)" using k by (simp add: others_kept_def)
  ultimately have "map conn_id (inet_sockets st') = map conn_id (inet_sockets st)" by (intro nth_equalityI) (simp_all add: isock_def)
  moreover have "inet_find_tcp ip rp lp x = first_index (\<lambda>(u, k, l, r, a). u \<and> k = INET_TCP \<and> l = lp \<and> r = rp \<and> a = ip) (map conn_id (inet_sockets x))" for x
    by (simp add: inet_find_tcp_def conn_id_def first_index_map)
  ultimately show ?thesis by simp
qed

text \<open>\<open>data\<close> is a whole segment of \<open>len\<close> bytes, without RST and FIN.\<close>

definition plain_segment :: "bytes \<Rightarrow> u16 \<Rightarrow> bool" where
  "plain_segment data len \<longleftrightarrow> unat len \<le> length data \<and> 20 \<le> 4 * unat (drop_bit 4 (th_offset data)) \<and>
     4 * unat (drop_bit 4 (th_offset data)) \<le> unat len \<and> th_flags data AND TCP_RST = 0 \<and> th_flags data AND TCP_FIN = 0"

definition segment_payload :: "bytes \<Rightarrow> u16 \<Rightarrow> bytes" where
  "segment_payload data len = take (unat len - 4 * unat (drop_bit 4 (th_offset data))) (drop (4 * unat (drop_bit 4 (th_offset data))) data)"

lemma tcp_deliver_streams:
  assumes "inet_find_tcp src (th_src_port data) (th_dst_port data) st = Some i" and "tcp_open st i" and "net_ok st" and "net_awake st"
    and "plain_segment data len" and "th_ack data - is_snd_una (isock st i) \<noteq> 2 ^ 31"
  shows "\<exists>st'. inet_tcp_deliver src data len st = Some st' \<and>
    streams i st (taken_bytes (th_seq data) (segment_payload data len) st i) (acked_bytes (th_flags data) (th_ack data) (isock st i)) st'"
proof -
  define hlen :: u16 where "hlen = ucast (drop_bit 4 (th_offset data)) * 4"
  have "unat (drop_bit 4 (th_offset data)) < 256" by (rule unat_lt_8)
  then have h: "unat hlen = 4 * unat (drop_bit 4 (th_offset data))"
    unfolding hlen_def by (simp add: unat_word_ariths unsigned_ucast_eq take_bit_nat_eq_self)
  have p: "unat len \<le> length data" "20 \<le> unat hlen" "unat hlen \<le> unat len" "th_flags data AND TCP_RST = 0" "th_flags data AND TCP_FIN = 0"
    using assms(5) by (simp_all add: plain_segment_def h)
  then have c: "\<not> len < TCP_HEADER" "\<not> length data < 20" "\<not> (hlen < TCP_HEADER \<or> hlen > len)" "hlen \<le> len"
    by (simp_all add: TCP_HEADER_def word_less_nat_alt word_le_nat_alt)
  have "inet_tcp_deliver src data len st = tcp_established i data hlen len st"
    using c p(4) assms(1,2) by (simp add: inet_tcp_deliver_def Let_def tcp_open_def flip: hlen_def)
  then show ?thesis
    using tcp_established_open [OF assms(2-4,6) p(5) c(4) p(1)] unfolding segment_payload_def h by simp
qed

subsection \<open>From one machine to the other\<close>

fun receive_all :: "bytes list \<Rightarrow> inet \<Rightarrow> inet ret" where
  "receive_all [] st = Some st"
| "receive_all (f # fs) st = do { st1 \<leftarrow> net_handle_frame f (of_nat (length f)) st; receive_all fs st1 }"

lemma data_segment:
  fixes d ip s seq
  defines "data \<equiv> tcp_segment ip s seq (TCP_ACK OR TCP_PSH) d"
  assumes "length d \<le> 1400"
  shows "plain_segment data (of_nat (length data))" "segment_payload data (of_nat (length data)) = d" "th_ack data = is_rcv_nxt s"
    "length data = 20 + length d"
proof -
  note f = tcp_segment_fields [OF meta_eq_to_obj_eq [OF data_def]]
  have o: "tcp_options (TCP_ACK OR TCP_PSH) = []" by (simp add: tcp_options_def TCP_ACK_def TCP_PSH_def TCP_SYN_def)
  show l: "length data = 20 + length d" by (simp add: data_def length_tcp_segment o)
  have u: "unat (of_nat (length data) :: u16) = 20 + length d" unfolding l by (rule unat_of_nat_small) (use assms(2) in simp)
  have h: "4 * unat (drop_bit 4 (seg_offset (TCP_ACK OR TCP_PSH))) = 20" by (simp add: seg_offset_def o TCP_HEADER_def)
  show "plain_segment data (of_nat (length data))"
    unfolding plain_segment_def f h u by (simp add: l TCP_ACK_def TCP_PSH_def TCP_RST_def TCP_FIN_def)
  show "segment_payload data (of_nat (length data)) = d"
    using f(8) unfolding segment_payload_def f(5) h u o by simp
  show "th_ack data = is_rcv_nxt s" unfolding f(4) by (simp add: seg_ack_def TCP_ACK_def TCP_PSH_def)
qed

lemma seg_frames_received:
  assumes "length mac = 6" and "length (our_mac a) = 6" and "\<forall>d \<in> set ds. length d \<le> 1400"
    and "our_ip b = is_remote_ip s" and "our_ip b \<noteq> ipv4_zero"
    and "inet_find_tcp (our_ip a) (is_local_port s) (is_remote_port s) b = Some j" and "tcp_open b j" and "net_ok b" and "net_awake b"
    and "is_rcv_nxt (isock b j) = seq" and "length (rx_stream b j) + length (concat ds) \<le> 131072"
    and "unat (is_rcv_nxt s - is_snd_una (isock b j)) \<le> unat (is_snd_nxt (isock b j) - is_snd_una (isock b j))"
  shows "\<exists>b' ac. receive_all (seg_frames mac a s ident seq ds) b = Some b' \<and> streams j b (concat ds) ac b'"
  using assms
proof (induction ds arbitrary: b ident seq)
  case Nil
  then show ?case using quiet_refl by auto
next
  case (Cons d ds)
  define data where "data = tcp_segment (our_ip a) s seq (TCP_ACK OR TCP_PSH) d"
  let ?f = "ipv4_frame mac (our_mac a) ident IPV4_PROTO_TCP (our_ip a) (is_remote_ip s) data"
  have dl: "length d \<le> 1400" using Cons.prems(3) by simp
  note f = tcp_segment_fields [OF data_def] and g = data_segment [OF dl, of "our_ip a" s seq, folded data_def]
  have "length data \<le> 1480" using g(4) dl by simp
  then have run: "net_handle_frame ?f (of_nat (length ?f)) b = inet_tcp_deliver (our_ip a) data (of_nat (length data)) b"
    using ipv4_frame_received [OF Cons.prems(1,2), of data b "is_remote_ip s" ident IPV4_PROTO_TCP "our_ip a"] Cons.prems(4,5)
    by (simp add: ipv4_dispatch_def IPV4_PROTO_TCP_def IPV4_PROTO_UDP_def IPV4_PROTO_ICMP_def)
  have "unat (is_snd_nxt (isock b j) - is_snd_una (isock b j)) \<le> 65536" using Cons.prems(7) by (simp add: tcp_open_def Let_def tcp_bufs_def)
  then have small: "unat (is_rcv_nxt s - is_snd_una (isock b j)) \<le> 65536" using Cons.prems(12) by linarith
  have "th_ack data - is_snd_una (isock b j) \<noteq> 2 ^ 31" unfolding g(3)
  proof
    assume "is_rcv_nxt s - is_snd_una (isock b j) = 2 ^ 31"
    with small have "unat (2 ^ 31 :: u32) \<le> 65536" by (simp only:)
    then show False by simp
  qed
  then obtain b1 where b1: "inet_tcp_deliver (our_ip a) data (of_nat (length data)) b = Some b1"
    "streams j b (taken_bytes seq d b j) (acked_bytes (TCP_ACK OR TCP_PSH) (is_rcv_nxt s) (isock b j)) b1"
    using tcp_deliver_streams [of "our_ip a" data b j "of_nat (length data)"] Cons.prems(6-9) g(1,2,3) unfolding f(1-3,6) by auto
  have tk: "taken_bytes seq d b j = d" using Cons.prems(10,11) by (simp add: taken_bytes_def)
  have ac: "of_nat (acked_bytes (TCP_ACK OR TCP_PSH) (is_rcv_nxt s) (isock b j)) = is_rcv_nxt s - is_snd_una (isock b j)"
    using Cons.prems(12) by (simp add: acked_bytes_def TCP_ACK_def TCP_PSH_def)
  have k: "others_kept j b b1" "our_ip b1 = our_ip b" using b1(2) by (simp_all add: streams_def others_kept_def)
  have una: "is_snd_una (isock b1 j) = is_rcv_nxt s" "is_rcv_nxt (isock b1 j) = seq + of_nat (length d)" "rx_stream b1 j = rx_stream b j @ d"
    using b1(2) Cons.prems(10) by (simp_all add: streams_def ac tk)
  have "\<exists>b' ac. receive_all (seg_frames mac a s (ident + 1) (seq + of_nat (length d)) ds) b1 = Some b' \<and> streams j b1 (concat ds) ac b'"
    by (rule Cons.IH) (use Cons.prems k inet_find_kept [OF k(1)] streamsD [OF b1(2)] una in \<open>simp_all del: length_rx_stream\<close>)
  then obtain b' ac where b': "receive_all (seg_frames mac a s (ident + 1) (seq + of_nat (length d)) ds) b1 = Some b'" "streams j b1 (concat ds) ac b'"
    by blast
  then show ?case using run b1(1) streams_trans [OF b1(2) b'(2)] unfolding tk by (auto simp flip: data_def)
qed

lemma bytes_at_slice: "k + n \<le> c \<Longrightarrow> bytes_at m (p + of_nat k) n = take n (drop k (bytes_at m p c))"
  by (rule nth_equalityI) (simp_all add: nth_bytes_at add.assoc)

text \<open>The window the peer has announced; if it has announced none, one byte is sent to probe it.\<close>

definition peer_window :: "inet_socket \<Rightarrow> u32" where
  "peer_window s = (if is_snd_wnd s \<noteq> 0 then is_snd_wnd s else 1)"

text \<open>The bytes of the send buffer that may be sent now.\<close>

definition sendable :: "inet \<Rightarrow> nat \<Rightarrow> bytes" where
  "sendable st i = (let f = unat (tcp_in_flight (isock st i)) in take (send_goal (peer_window (isock st i)) (isock st i) - f) (drop f (tx_stream st i)))"

lemma tcp_output_sends:
  assumes "tcp_open st i" and "reaches mac (is_remote_ip (isock st i)) st"
  shows "\<exists>ds st'. concat ds = sendable st i \<and> (\<forall>d \<in> set ds. 0 < length d \<and> length d \<le> 1400) \<and> tcp_output i st = Some st' \<and>
    nic_tx st' = nic_tx st @ seg_frames mac st (isock st i) (next_id st) (is_snd_nxt (isock st i)) ds \<and>
    is_snd_nxt (isock st' i) = is_snd_nxt (isock st i) + of_nat (length (sendable st i)) \<and>
    (ds \<noteq> [] \<longrightarrow> is_rto_deadline (isock st i) = 0 \<longrightarrow> is_rto_deadline (isock st' i) = nt_now st + ucast (is_rto_ms (isock st i)))"
proof -
  let ?s = "isock st i" let ?f = "unat (tcp_in_flight ?s)"
  define k where "k = send_goal (peer_window ?s) ?s - ?f"
  have o: "i < length (inet_sockets st)" "\<not> is_fin_sent ?s" "\<not> is_close_requested ?s" "unat (is_tx_count ?s) \<le> 65536" "is_state ?s = TCP_ESTABLISHED"
    "unat (is_snd_nxt ?s - is_snd_una ?s) \<le> unat (is_tx_count ?s)"
    using assms(1) by (simp_all add: tcp_open_def Let_def tcp_bufs_def)
  then have fk: "?f + k \<le> unat (is_tx_count ?s)" using in_flight_plain [of ?s] by (simp add: k_def send_goal_def)
  define st1 where "st1 = (\<lambda>ds. st\<lparr>next_id := next_id st + of_nat (length ds),
      nic_tx := nic_tx st @ seg_frames mac st ?s (next_id st) (is_snd_nxt ?s) ds,
      inet_sockets := (inet_sockets st)[i := ?s\<lparr>is_snd_nxt := is_snd_nxt ?s + of_nat k\<rparr>]\<rparr>)"
  obtain ds where ds: "concat ds = bytes_at (nt_memory st) (is_tx ?s + ucast (tcp_in_flight ?s)) k" "\<forall>d \<in> set ds. 0 < length d \<and> length d \<le> 1400"
    "tcp_output_loop i (peer_window ?s) False st = Some (ds \<noteq> [], st1 ds)"
    using tcp_output_loop_sends [OF o(1) assms(2) o(2,4) k_def, of False] unfolding st1_def by auto
  have "ucast (tcp_in_flight ?s) = (of_nat ?f :: u64)" by (simp add: word_unat_eq_iff unat_of_nat_small [OF less_trans [OF unat_lt_32]])
  then have cat: "concat ds = sendable st i"
    using ds(1) bytes_at_slice [OF fk] by (simp add: sendable_def Let_def tx_stream_def k_def)
  have len: "length (sendable st i) = k" using fk by (simp add: sendable_def Let_def flip: k_def)
  have i1: "isock (st1 ds) i = ?s\<lparr>is_snd_nxt := is_snd_nxt ?s + of_nat k\<rparr>" using o(1) by (simp add: st1_def isock_def)
  have fin: "tcp_output_fin i (ds \<noteq> []) (st1 ds) = Some (ds \<noteq> [], st1 ds)" using o(3) by (simp add: tcp_output_fin_def Let_def i1)
  define st2 where "st2 = (if ds \<noteq> [] \<and> is_rto_deadline ?s = 0 then tcp_arm_timer i (st1 ds) else st1 ds)"
  have run: "tcp_output i st = Some st2"
    using o(5) ds(3) fin by (simp add: tcp_output_def Let_def st2_def i1 flip: peer_window_def)
  moreover have "nic_tx st2 = nic_tx st @ seg_frames mac st ?s (next_id st) (is_snd_nxt ?s) ds"
    by (simp add: st2_def tcp_arm_timer_def upd_isock_def st1_def)
  moreover have "length (inet_sockets (st1 ds)) = length (inet_sockets st)" by (simp add: st1_def)
  then have "is_snd_nxt (isock st2 i) = is_snd_nxt ?s + of_nat k"
    "ds \<noteq> [] \<longrightarrow> is_rto_deadline ?s = 0 \<longrightarrow> is_rto_deadline (isock st2 i) = nt_now st + ucast (is_rto_ms ?s)"
    using o(1) i1 by (simp_all add: st2_def tcp_arm_timer_def nt_now_def) (simp add: st1_def)
  ultimately show ?thesis using cat ds(2) len by auto
qed

text \<open>
  Property C8: what \<^verbatim>\<open>tcp_output\<close> sends arrives. Let \<open>a\<close> have an open connection whose peer it can reach on the card, and let \<open>b\<close> be
  that peer, with room for what the window lets \<open>a\<close> send. The call returns, and when the frames it hands to the card reach \<open>b\<close> in
  their order, then exactly the bytes of the send buffer that were not in flight before and lie in the window are appended to
  the bytes waiting for the program on \<open>b\<close>, and \<open>b\<close> expects next the sequence number \<open>a\<close> will send next.
\<close>

theorem tcp_end_to_end:
  assumes "tcp_open a i" and "net_ok a" and "net_awake a" and "reaches mac (is_remote_ip (isock a i)) a" and "length mac = 6"
    and "tcp_open b j" and "net_ok b" and "net_awake b" and "our_ip b = is_remote_ip (isock a i)" and "our_ip b \<noteq> ipv4_zero"
    and "inet_find_tcp (our_ip a) (is_local_port (isock a i)) (is_remote_port (isock a i)) b = Some j"
    and "is_rcv_nxt (isock b j) = is_snd_nxt (isock a i)" and "length (rx_stream b j) + length (sendable a i) \<le> 131072"
    and "unat (is_rcv_nxt (isock a i) - is_snd_una (isock b j)) \<le> unat (is_snd_nxt (isock b j) - is_snd_una (isock b j))"
  shows "\<exists>a' frames b'. tcp_output i a = Some a' \<and> nic_tx a' = nic_tx a @ frames \<and> receive_all frames b = Some b' \<and>
    rx_stream b' j = rx_stream b j @ sendable a i \<and> tx_stream a' i = tx_stream a i \<and>
    is_rcv_nxt (isock b' j) = is_snd_nxt (isock a' i)"
proof -
  obtain ds a' where o: "concat ds = sendable a i" "\<forall>d \<in> set ds. 0 < length d \<and> length d \<le> 1400" "tcp_output i a = Some a'"
    "nic_tx a' = nic_tx a @ seg_frames mac a (isock a i) (next_id a) (is_snd_nxt (isock a i)) ds"
    "is_snd_nxt (isock a' i) = is_snd_nxt (isock a i) + of_nat (length (sendable a i))"
    using tcp_output_sends [OF assms(1,4)] by blast
  have q: "tx_stream a' i = tx_stream a i" using tcp_output_quiet [OF assms(1-3)] o(3) by (auto simp: streams_def)
  have m: "length (our_mac a) = 6" using assms(2) by (simp add: net_ok_def)
  have l: "\<forall>d \<in> set ds. length d \<le> 1400" using o(2) by blast
  obtain b' ac where "receive_all (seg_frames mac a (isock a i) (next_id a) (is_snd_nxt (isock a i)) ds) b = Some b'" "streams j b (concat ds) ac b'"
    using seg_frames_received [OF assms(5) m l assms(9-11,6-8,12) _ assms(14)] assms(13) unfolding o(1) by blast
  then show ?thesis using o q assms(12) by (auto simp: streams_def)
qed

text \<open>Two machines with an open connection, three bytes waiting to be sent from the first to the second.\<close>

lemma example_tcp_open:
  assumes "length ss = 1" and "ss ! 0 = example_tcp ip lp rp sn rcv c" and "unat c \<le> 65536"
  shows "tcp_open (example_host n m ss) 0" "net_ok (example_host n m ss)"
    "rx_stream (example_host n m ss) 0 = []" "tx_stream (example_host n m ss) 0 = bytes_at (nt_memory (example_host n m ss)) 0x100000 (unat c)"
proof -
  show "tcp_open (example_host n m ss) 0"
    using assms by (simp add: tcp_open_def Let_def tcp_bufs_def example_tcp_def inet_zero_def)
  show "net_ok (example_host n m ss)" using example_host_route(4) by (simp add: net_ok_def) (simp add: example_host_def LOOPBACK_QUEUE_def)
  show "rx_stream (example_host n m ss) 0 = []" using assms by (simp add: rx_stream_def example_tcp_def inet_zero_def)
  show "tx_stream (example_host n m ss) 0 = bytes_at (nt_memory (example_host n m ss)) 0x100000 (unat c)"
    using assms by (simp add: tx_stream_def example_tcp_def)
qed

definition example_client :: inet where
  "example_client = example_host 1 2 [example_tcp (ipv4_from_bytes 10 0 0 2) 5000 80 100 500 3]"

definition example_server :: inet where
  "example_server = example_host 2 1 [example_tcp (ipv4_from_bytes 10 0 0 1) 80 5000 500 100 0]"

theorem tcp_end_to_end_witness:
  "\<exists>a' frames b'. tcp_output 0 example_client = Some a' \<and> nic_tx a' = frames \<and> receive_all frames example_server = Some b' \<and>
     rx_stream b' 0 = bytes_at (nt_memory example_client) 0x100000 3"
proof -
  let ?a = "isock example_client 0" and ?b = "isock example_server 0"
  have ca: "?a = example_tcp (ipv4_from_bytes 10 0 0 2) 5000 80 100 500 3" and cb: "?b = example_tcp (ipv4_from_bytes 10 0 0 1) 80 5000 500 100 0"
    by (simp_all add: example_client_def example_server_def)
  have h: "our_ip example_client = ipv4_from_bytes 10 0 0 1" "our_ip example_server = ipv4_from_bytes 10 0 0 2" "nic_tx example_client = []"
    "net_awake example_client" "net_awake example_server"
    by (simp_all add: example_client_def example_server_def example_host_route)
  have c: "tcp_open example_client 0" "net_ok example_client" "tx_stream example_client 0 = bytes_at (nt_memory example_client) 0x100000 3"
    unfolding example_client_def by (simp_all add: example_tcp_open)
  have s: "tcp_open example_server 0" "net_ok example_server" "rx_stream example_server 0 = []"
    unfolding example_server_def by (simp_all add: example_tcp_open)
  have f: "is_remote_ip ?a = ipv4_from_bytes 10 0 0 2" "is_local_port ?a = 5000" "is_remote_port ?a = 80" "is_snd_nxt ?a = 100" "is_snd_una ?a = 100"
    "is_rcv_nxt ?a = 500" "is_tx_count ?a = 3" "is_snd_wnd ?a = 4096" "\<not> is_fin_sent ?a" "is_rcv_nxt ?b = 100" "is_snd_una ?b = 500" "is_snd_nxt ?b = 500"
    unfolding ca cb by (simp_all add: example_tcp_def inet_zero_def)
  have r: "reaches [2, 0, 0, 0, 0, 2] (is_remote_ip ?a) example_client"
    unfolding f by (simp add: reaches_def example_client_def example_host_route)
  have sd: "sendable example_client 0 = bytes_at (nt_memory example_client) 0x100000 3"
    by (simp add: sendable_def Let_def tcp_in_flight_def send_goal_def peer_window_def f c(3))
  have fd: "inet_find_tcp (our_ip example_client) (is_local_port ?a) (is_remote_port ?a) example_server = Some 0"
    unfolding f h by (simp add: inet_find_tcp_def example_server_def example_tcp_def inet_zero_def)
  show ?thesis
    using tcp_end_to_end [OF c(1,2) h(4) r _ s(1,2) h(5) _ _ fd] by (simp add: f h s sd ipv4_zero_def) blast
qed



text \<open>The number half way around is taken although it acknowledges bytes that were never sent: on a connection with nothing in flight the
  oldest unacknowledged byte jumps past the next byte to be sent, and from then on nothing more is sent.\<close>

lemma tcp_half_space_ack:
  assumes "tcp_open st i" and "net_awake st" and "is_snd_nxt (isock st i) = is_snd_una (isock st i)" and "is_tx_count (isock st i) = 0"
    and "th_flags p AND TCP_ACK \<noteq> 0" and "th_ack p = is_snd_una (isock st i) + 2 ^ 31"
  shows "\<exists>st'. tcp_handle_ack i p st = Some st' \<and> is_snd_una (isock st' i) = is_snd_nxt (isock st' i) + 2 ^ 31 \<and>
    tcp_output_loop i window b st' = Some (b, st') \<and>
    tcp_output_loop i window b (upd_isock i (\<lambda>s. s\<lparr>is_tx_count := 65536\<rparr>) st') = Some (b, upd_isock i (\<lambda>s. s\<lparr>is_tx_count := 65536\<rparr>) st')"
proof -
  let ?s = "isock st i"
  have i: "i < length (inet_sockets st)" and fs: "\<not> is_fin_sent ?s" using assms(1) by (simp_all add: tcp_open_def Let_def)
  have "seq_lt (is_snd_una ?s) (th_ack p) \<and> seq_le (th_ack p) (is_snd_nxt ?s)"
    unfolding seq_lt_def seq_le_def sint_neg_32 sint_le_32 assms(3,6) by simp
  moreover obtain m st1 where st1: "st1 = upd_isock i (\<lambda>s. s\<lparr>is_tx_count := is_tx_count ?s - ucast (tcp_acked (th_ack p) ?s), is_snd_una := th_ack p, is_retries := 0, is_rto_ms := TCP_RTO_MIN_MS * 2,
        is_rto_deadline := (if th_ack p = is_snd_nxt s then 0 else nt_now st + ucast (TCP_RTO_MIN_MS * 2))\<rparr>) (set_nt_memory m st)"
    and m: "m = memmove (is_tx ?s) (is_tx ?s + ucast (tcp_acked (th_ack p) ?s)) (is_tx_count ?s - ucast (tcp_acked (th_ack p) ?s)) (nt_memory st)" by blast
  moreover obtain st2 where w: "nt_wake st1 = Some st2" "\<forall>j. isock st2 j = isock st1 j" "inet_sockets st2 = inet_sockets st1"
    using wake_frame [of st1] assms(2) by (auto simp: st1)
  ultimately have run: "tcp_handle_ack i p st = Some (upd_isock i (\<lambda>s. s\<lparr>is_snd_wnd := ucast (th_window p)\<rparr>) st2)"
    using assms(5) by (simp add: tcp_handle_ack_def Let_def)
  define st3 where "st3 = upd_isock i (\<lambda>s. s\<lparr>is_snd_wnd := ucast (th_window p)\<rparr>) st2"
  have l3: "i < length (inet_sockets st3)" using i w(3) by (simp add: st3_def st1)
  have una: "is_snd_una (isock st3 i) = th_ack p" "is_snd_nxt (isock st3 i) = is_snd_nxt ?s" "\<not> is_fin_sent (isock st3 i)"
    "is_tx_count (isock st3 i) = is_tx_count ?s - ucast (tcp_acked (th_ack p) ?s)"
    using i w fs by (simp_all add: st3_def st1)
  have "tcp_acked (th_ack p) ?s = 0" using fs assms(4,6) by (simp add: tcp_acked_def Let_def)
  then have tx: "is_tx_count (isock st3 i) = 0" using una(4) assms(4) by simp
  have fl: "tcp_in_flight (isock st3 i) = 2 ^ 31" using una assms(3,6) by (simp add: in_flight_plain)
  have "tcp_output_loop i window b st3 = Some (b, st3)" by (rule tcp_output_loop_stop) (simp add: fl tx send_goal_def)
  moreover have "tcp_in_flight (isock (upd_isock i (\<lambda>s. s\<lparr>is_tx_count := 65536\<rparr>) st3) i) = 2 ^ 31" using l3 fl by (simp add: tcp_in_flight_def)
  then have "tcp_output_loop i window b (upd_isock i (\<lambda>s. s\<lparr>is_tx_count := 65536\<rparr>) st3) = Some (b, upd_isock i (\<lambda>s. s\<lparr>is_tx_count := 65536\<rparr>) st3)"
    using l3 by (intro tcp_output_loop_stop) (simp add: send_goal_def)
  moreover have "is_snd_una (isock st3 i) = is_snd_nxt (isock st3 i) + 2 ^ 31" using una assms(3,6) by simp
  ultimately show ?thesis using run by (auto simp: st3_def)
qed

subsection \<open>Reading\<close>

lemma rx_pop_memory:
  fixes st i out n
  defines "s \<equiv> isock st i"
  assumes "tcp_bufs s" and "unat n \<le> unat (is_rx_count s)" and "apart (is_rx s) 131072 out (unat n)"
  shows "\<exists>m. rx_pop i out n st = upd_isock i (\<lambda>s. s\<lparr>is_rx_head := (is_rx_head s + n) mod TCP_RX_SIZE, is_rx_count := is_rx_count s - n\<rparr>) (set_nt_memory m st) \<and>
    (\<forall>k < unat n. m (out + of_nat k) = nt_memory st (is_rx s + of_nat ((unat (is_rx_head s) + k) mod 131072))) \<and>
    (\<forall>a. \<not> unat (a - out) < unat n \<longrightarrow> m a = nt_memory st a)"
proof -
  define h where "h = is_rx_head s"
  define b m where "b = is_rx s" and "m = nt_memory st"
  define f where "f = min_u64 n (TCP_RX_SIZE - h)"
  define m1 where "m1 = memcpy out (b + h) f m"
  define m2 where "m2 = memcpy (out + f) b (n - f) m1"
  have pop: "rx_pop i out n st = upd_isock i (\<lambda>s. s\<lparr>is_rx_head := (is_rx_head s + n) mod TCP_RX_SIZE, is_rx_count := is_rx_count s - n\<rparr>) (set_nt_memory m2 st)"
    by (simp add: rx_pop_def Let_def m2_def m1_def f_def b_def m_def h_def s_def)
  have hn: "unat h < 131072" "unat n \<le> 131072" using assms(2,3) by (simp_all add: tcp_bufs_def h_def)
  then have "unat (TCP_RX_SIZE - h) = 131072 - unat h" by (subst unat_diff_nowrap) simp_all
  then have uf: "unat f = min (unat n) (131072 - unat h)" by (simp add: f_def)
  then have fn: "unat (n - f) = unat n - unat f" "unat f + unat (n - f) \<le> unat n" "unat h + unat f \<le> 131072"
    using hn by (simp_all add: unat_diff_nowrap)
  have ap: "apart out (unat n) b 131072" using assms(4) by (simp add: b_def apart_sym)
  have ap1: "apart out (unat n) (b + h) (unat f)" by (rule apart_sym, rule apart_off [OF apart_sym [OF ap] fn(3)])
  have ap2: "apart out (unat n) b (unat (n - f))" by (rule apart_mono [OF ap]) (use fn hn in simp_all)
  have N: "unat n \<le> 2 ^ 64" using hn by simp
  have f0: "unat 0 + unat f \<le> unat n" using uf by simp
  have keep: "m1 a = m a" "m2 a = m a" if "\<not> unat (a - out) < unat n" for a
  proof -
    show "m1 a = m a" using memcpy_outside [OF ap1 f0 that, of m] by (simp add: m1_def)
    then show "m2 a = m a" using memcpy_outside [OF ap2 fn(2) that, of m1] by (simp add: m2_def)
  qed
  have "m2 (out + of_nat k) = m (b + of_nat ((unat h + k) mod 131072))" if k: "k < unat n" for k
  proof (cases "k < unat f")
    case True
    have "m2 (out + of_nat k) = m1 (out + of_nat k)" using memcpy_into [OF ap2 fn(2) k N, of m1] True by (simp add: m2_def)
    also have "\<dots> = m (b + h + of_nat k)" using memcpy_into [OF ap1 f0 k N, of m] True by (simp add: m1_def)
    also have "b + h + of_nat k = b + of_nat ((unat h + k) mod 131072)" using True fn(3) by (simp add: algebra_simps)
    finally show ?thesis .
  next
    case False
    then have fi: "unat f \<le> k" "k < unat f + unat (n - f)" using k fn(1) uf by simp_all
    have l: "k - unat f < 131072" using k hn by simp
    have "m2 (out + of_nat k) = m1 (b + of_nat (k - unat f))" using memcpy_into [OF ap2 fn(2) k N, of m1] fi by (simp add: m2_def)
    also have "\<dots> = m (b + of_nat (k - unat f))"
    proof (rule keep(1))
      have "unat (b + of_nat (k - unat f) - b) < 131072" using l by (simp add: unat_of_nat_small del: of_nat_diff)
      then show "\<not> unat (b + of_nat (k - unat f) - out) < unat n" by (rule apart_in [OF apart_sym [OF ap]])
    qed
    also have "k - unat f = (unat h + k) mod 131072" using fi fn(1) uf hn k by (auto simp: mod_if min_def split: if_splits)
    finally show ?thesis .
  qed
  then show ?thesis using pop keep(2) unfolding h_def b_def m_def by blast
qed

lemma rx_pop_streams:
  assumes "tcp_open st i" and "unat n \<le> length (rx_stream st i)"
    and "apart (is_rx (isock st i)) 131072 out (unat n)" and "apart (is_tx (isock st i)) 65536 out (unat n)"
  shows "bytes_at (nt_memory (rx_pop i out n st)) out (unat n) = take (unat n) (rx_stream st i)"
    and "rx_stream (rx_pop i out n st) i = drop (unat n) (rx_stream st i)" and "tx_stream (rx_pop i out n st) i = tx_stream st i"
    and "tcp_open (rx_pop i out n st) i" and "net_ok (rx_pop i out n st) = net_ok st" and "net_awake (rx_pop i out n st) = net_awake st"
    and "is_state (isock (rx_pop i out n st) i) = TCP_ESTABLISHED"
proof -
  let ?s = "isock st i"
  have o: "i < length (inet_sockets st)" "tcp_bufs ?s" using assms(1) by (simp_all add: tcp_open_def Let_def)
  have b: "unat (is_rx_head ?s) < 131072" "unat (is_rx_count ?s) \<le> 131072" "unat (is_tx_count ?s) \<le> 65536" using o(2) by (simp_all add: tcp_bufs_def)
  have n: "unat n \<le> unat (is_rx_count ?s)" using assms(2) by simp
  obtain m where pop: "rx_pop i out n st = upd_isock i (\<lambda>s. s\<lparr>is_rx_head := (is_rx_head s + n) mod TCP_RX_SIZE, is_rx_count := is_rx_count s - n\<rparr>) (set_nt_memory m st)"
    and cp: "\<forall>k < unat n. m (out + of_nat k) = nt_memory st (is_rx ?s + of_nat ((unat (is_rx_head ?s) + k) mod 131072))"
    and keep: "\<forall>a. \<not> unat (a - out) < unat n \<longrightarrow> m a = nt_memory st a"
    using rx_pop_memory [OF o(2) n assms(3)] by blast
  show "bytes_at (nt_memory (rx_pop i out n st)) out (unat n) = take (unat n) (rx_stream st i)"
    unfolding pop by (rule nth_equalityI) (use cp n in \<open>simp_all add: nth_bytes_at rx_stream_def\<close>)
  have uc: "unat (is_rx_count ?s - n) = unat (is_rx_count ?s) - unat n" using n by (rule unat_diff_nowrap)
  have uh: "unat ((is_rx_head ?s + n) mod TCP_RX_SIZE) = (unat (is_rx_head ?s) + unat n) mod 131072"
    using b n unat_add_nowrap [of "is_rx_head ?s" n] by (simp add: unat_mod)
  have rx: "m (is_rx ?s + of_nat (k mod 131072)) = nt_memory st (is_rx ?s + of_nat (k mod 131072))" for k
  proof -
    have "unat (is_rx ?s + of_nat (k mod 131072) - is_rx ?s) < 131072" by (simp add: unat_of_nat_small)
    then show ?thesis using keep apart_in [OF assms(3)] by blast
  qed
  show "rx_stream (rx_pop i out n st) i = drop (unat n) (rx_stream st i)"
  proof -
    have "(unat ((is_rx_head ?s + n) mod TCP_RX_SIZE) + k) mod 131072 = (unat (is_rx_head ?s) + (unat n + k)) mod 131072" for k
      unfolding uh by (simp add: mod_simps add.assoc)
    then show ?thesis unfolding pop
      by (intro nth_equalityI) (use o(1) uc in \<open>simp_all add: rx_stream_def rx less_diff_conv add.commute [of _ "unat n"]\<close>)
  qed
  have "m (is_tx ?s + of_nat k) = nt_memory st (is_tx ?s + of_nat k)" if "k < unat (is_tx_count ?s)" for k
  proof -
    have "unat (is_tx ?s + of_nat k - is_tx ?s) < 65536" using that b(3) by (simp add: unat_of_nat_small)
    then show ?thesis using keep apart_in [OF assms(4)] by blast
  qed
  then show "tx_stream (rx_pop i out n st) i = tx_stream st i"
    unfolding pop tx_stream_def using o(1) by (simp, intro bytes_at_eqI) simp
  have "unat (is_rx_count ?s) - unat n \<le> 131072" using b(2) by simp
  then show "tcp_open (rx_pop i out n st) i" using assms(1) uc uh unfolding pop tcp_open_def by (simp add: Let_def tcp_bufs_def)
  then show "is_state (isock (rx_pop i out n st) i) = TCP_ESTABLISHED" by (simp add: tcp_open_def Let_def)
qed (simp_all add: rx_pop_def Let_def)

text \<open>
  Property C21: a program that reads from a connection with bytes waiting gets the oldest ones, as many as wait or as it asked for, without
  blocking; exactly these leave the stream, and what the connection has to send stays.
\<close>

theorem inet_read_front:
  assumes "tcp_open st i" and "net_ok st" and "net_awake st" and "rx_stream st i \<noteq> []" and "k = min (unat cnt) (length (rx_stream st i))"
    and "apart (is_rx (isock st i)) 131072 buf k" and "apart (is_tx (isock st i)) 65536 buf k"
  shows "\<exists>st'. inet_read c i buf cnt st = Some (Ret (int k), st') \<and> bytes_at (nt_memory st') buf k = take k (rx_stream st i) \<and>
    rx_stream st' i = drop k (rx_stream st i) \<and> tx_stream st' i = tx_stream st i \<and> tcp_open st' i"
proof -
  let ?s = "isock st i"
  define n where "n = min_u64 cnt (is_rx_count ?s)"
  have un: "unat n = k" using assms(5) by (simp add: n_def)
  have o: "is_kind ?s = INET_TCP" "is_state ?s = TCP_ESTABLISHED" "unat (is_rx_count ?s) \<le> 131072" using assms(1) by (simp_all add: tcp_open_def Let_def tcp_bufs_def)
  have c: "is_rx_count ?s > 0" using assms(4) by (metis length_greater_0_conv length_rx_stream word_less_nat_alt unat_0)
  have k: "unat n \<le> length (rx_stream st i)" "k < 2 ^ 63" using assms(5) un o(3) by simp_all
  note pop = rx_pop_streams [OF assms(1) k(1) assms(6,7) [folded un]]
  define small where "small \<longleftrightarrow> ucast (tcp_window ?s) < TCP_MSS * 2"
  obtain st' where a: "(if small \<and> is_state (isock (rx_pop i buf n st) i) \<noteq> TCP_CLOSED then tcp_send_ack i (rx_pop i buf n st) else Some (rx_pop i buf n st)) = Some st'"
    "quiet i (rx_pop i buf n st) st'" "nt_memory st' = nt_memory (rx_pop i buf n st)"
  proof (cases small)
    case True
    obtain st2 where "tcp_send_segment i (is_snd_nxt (isock (rx_pop i buf n st) i)) TCP_ACK [] 0 (rx_pop i buf n st) = Some st2" "sent (rx_pop i buf n st) st2" "net_ok st2"
      using tcp_send_segment_ok [of "rx_pop i buf n st" "[]" 0 i "is_snd_nxt (isock (rx_pop i buf n st) i)" TCP_ACK] pop(5) assms(2) by auto
    then show ?thesis using True that [of st2] quiet_sent [of "rx_pop i buf n st" i st2] pop(4,6,7) assms(3) by (simp add: tcp_send_ack_def)
  qed (use that [of "rx_pop i buf n st"] quiet_refl [of "rx_pop i buf n st" i] pop(4-6) assms(2,3) in simp)
  have "inet_read c i buf cnt st = Some (Ret (sint n), st')"
    using o(1,2) c a(1) by (simp add: inet_read_def Let_def small_def flip: n_def)
  moreover have "sint n = int k" using sint_small [of n] k(2) un by simp
  ultimately show ?thesis using a(2,3) pop(1-3) unfolding un by (simp add: streams_def)
qed

theorem inet_read_front_witness:
  "\<exists>st'. inet_read 0 0 0x5000 2 (example_host 1 2 [(example_tcp (ipv4_from_bytes 10 0 0 2) 5000 80 100 500 0)\<lparr>is_rx_count := 3\<rparr>]) = Some (Ret 2, st') \<and>
     rx_stream st' 0 = drop 2 (rx_stream (example_host 1 2 [(example_tcp (ipv4_from_bytes 10 0 0 2) 5000 80 100 500 0)\<lparr>is_rx_count := 3\<rparr>]) 0)"
proof -
  define s where "s = (example_tcp (ipv4_from_bytes 10 0 0 2) 5000 80 100 500 0)\<lparr>is_rx_count := 3\<rparr>"
  let ?st = "example_host 1 2 [s]"
  have s: "is_rx s = 0x200000" "is_tx s = 0x100000" "unat (is_rx_count s) = 3" by (simp_all add: s_def example_tcp_def)
  have o: "tcp_open ?st 0" by (simp add: tcp_open_def Let_def tcp_bufs_def s_def example_tcp_def inet_zero_def)
  have w: "net_ok ?st" "net_awake ?st"
    using example_tcp_open(2) [of "[example_tcp ipv4_zero 0 0 0 0 0]"] by (simp_all add: example_host_route net_ok_def) (simp_all add: example_host_def)
  have l: "length (rx_stream ?st 0) = 3" by (simp add: s)
  then have ne: "rx_stream ?st 0 \<noteq> []" by (metis length_0_conv zero_neq_numeral)
  have ap: "apart p n 0x5000 2" if "unat p + n < 2 ^ 64" "0x5002 \<le> unat p" for p n
    unfolding apart_def
  proof (intro allI impI notI)
    fix i j :: u64 assume a: "unat i < n" "unat j < 2" and e: "p + i = 0x5000 + j"
    have "unat (p + i) = unat p + unat i" using a(1) that(1) by (subst unat_add_nowrap) simp_all
    moreover have "unat (0x5000 + j) = 0x5000 + unat j" using a(2) by (subst unat_add_nowrap) simp_all
    ultimately show False using e a that by simp
  qed
  show ?thesis
    using inet_read_front [OF o w ne, of 2 2 "0x5000" 0] ap [of "0x200000" 131072] ap [of "0x100000" 65536] l by (auto simp: s simp flip: s_def)
qed

end
