(* ===== verification/Kernel.thy ===== *)
theory Kernel
  imports Socket Fat32
begin

text \<open>
  The calls of programs on files and sockets, \<^verbatim>\<open>kernel/system/fs_kcalls.c\<close> and the descriptor level of
  \<^verbatim>\<open>kernel/system/socket.c\<close>, over the state of the whole kernel. The record \<open>kernel\<close> extends the state of the
  file systems and disks by the sockets with the scheduler, and by the one table of open files that all
  tasks share. There is one heap and one memory: \<open>vf_heap\<close>; the functions \<open>socks\<close> and \<open>set_socks\<close> give
  the sockets and the scheduler that heap and take it back. \<open>c\<close> is the CPU a call runs on.

  The internet sockets (\<^verbatim>\<open>net/inet.c\<close>) are reached through the record of functions \<open>inet\<close>, which the theory \<open>InetFiles\<close>
  fills with the functions of that file; \<open>stk\<close> is the address of local arrays of a call.
\<close>

record fd_slot =
  fd_file :: vfile
  fd_used :: bool
  fd_owner :: ptr

record task_args =
  ta_argc :: int
  ta_argv :: ptr
  ta_backing :: ptr

record 'd kernel = "'d fat_state" +
  k_socks :: sockets
  fd_table :: "fd_slot list"
  term_out :: "u8 list"
  k_args :: "ptr \<Rightarrow> task_args"

record 's inet_calls =
  inet_socket_create :: "u32 \<Rightarrow> 's \<Rightarrow> (int \<times> 's) ret"
  inet_is_socket :: "vfile \<Rightarrow> 's \<Rightarrow> bool"
  inet_bind :: "vfile \<Rightarrow> string option \<Rightarrow> 's \<Rightarrow> (int \<times> 's) ret"
  inet_listen :: "vfile \<Rightarrow> 's \<Rightarrow> (int \<times> 's) ret"
  inet_accept :: "vfile \<Rightarrow> 's \<Rightarrow> (unit sys \<times> 's) ret"
  inet_connect :: "vfile \<Rightarrow> string option \<Rightarrow> 's \<Rightarrow> (u64 sys \<times> 's) ret"

definition FD_MAX :: nat where "FD_MAX = 1024"
definition FD_INVALID :: int where "FD_INVALID = - 1"
definition POLLERR :: int where "POLLERR = 8"
definition SOCK_TCP :: u32 where "SOCK_TCP = 0x10"
definition SOCK_UDP :: u32 where "SOCK_UDP = 0x20"

subsection \<open>One heap for every part\<close>

definition socks :: "('d, 'a) kernel_scheme \<Rightarrow> sockets" where
  "socks k = set_sk_heap (vf_heap k) (k_socks k)"

definition set_socks :: "sockets \<Rightarrow> ('d, 'a) kernel_scheme \<Rightarrow> ('d, 'a) kernel_scheme" where
  "set_socks st k = k\<lparr>vf_heap := sk_heap st, k_socks := st\<rparr>"

definition sched_of :: "('d, 'a) kernel_scheme \<Rightarrow> sched" where
  "sched_of k = sk_sched (socks k)"

definition set_sched :: "sched \<Rightarrow> ('d, 'a) kernel_scheme \<Rightarrow> ('d, 'a) kernel_scheme" where
  "set_sched s k = set_socks ((socks k)\<lparr>sk_sched := s\<rparr>) k"

definition current :: "nat \<Rightarrow> ('d, 'a) kernel_scheme \<Rightarrow> ptr" where
  "current c k = task_current c (sched_of k)"

definition k_task :: "ptr \<Rightarrow> ('d, 'a) kernel_scheme \<Rightarrow> task" where
  "k_task t k = tasks (sched_of k) t"

definition k_upd_task :: "ptr \<Rightarrow> (task \<Rightarrow> task) \<Rightarrow> ('d, 'a) kernel_scheme \<Rightarrow> ('d, 'a) kernel_scheme" where
  "k_upd_task t f k = set_sched (upd_task t f (sched_of k)) k"

subsection \<open>The descriptor table\<close>

definition slot :: "int \<Rightarrow> ('d, 'a) kernel_scheme \<Rightarrow> fd_slot" where
  "slot fd k = fd_table k ! nat fd"

definition upd_slot :: "int \<Rightarrow> (fd_slot \<Rightarrow> fd_slot) \<Rightarrow> ('d, 'a) kernel_scheme \<Rightarrow> ('d, 'a) kernel_scheme" where
  "upd_slot fd f k = k\<lparr>fd_table := (fd_table k)[nat fd := f (slot fd k)]\<rparr>"

definition set_file :: "int \<Rightarrow> vfile \<Rightarrow> ('d, 'a) kernel_scheme \<Rightarrow> ('d, 'a) kernel_scheme" where
  "set_file fd f k = upd_slot fd (fd_file_update (\<lambda>_. f)) k"

definition fd_zero :: fd_slot where
  "fd_zero = \<lparr>fd_file = no_file, fd_used = False, fd_owner = NULL\<rparr>"

definition fs_kcalls_init :: "('d, 'a) kernel_scheme \<Rightarrow> ('d, 'a) kernel_scheme" where
  "fs_kcalls_init k = k\<lparr>fd_table := replicate 3 (fd_zero\<lparr>fd_used := True\<rparr>) @ replicate (FD_MAX - 3) fd_zero\<rparr>"

definition fd_alloc :: "nat \<Rightarrow> ('d, 'a) kernel_scheme \<Rightarrow> int \<times> ('d, 'a) kernel_scheme" where
  "fd_alloc c k =
     (case first_index (\<lambda>s. \<not> fd_used s) (fd_table k) of
        None \<Rightarrow> (FD_INVALID, k)
      | Some i \<Rightarrow> (int i, upd_slot (int i) (\<lambda>s. s\<lparr>fd_used := True, fd_owner := current c k\<rparr>) k))"

definition fd_release :: "int \<Rightarrow> ('d, 'a) kernel_scheme \<Rightarrow> ('d, 'a) kernel_scheme ret" where
  "fd_release fd k =
     do { s \<leftarrow> task_forget_fd fd (sched_of k);
          Some (upd_slot fd (\<lambda>_. fd_zero) (set_sched s k)) }"

fun release_fds ::
  "(fs_kind \<Rightarrow> ('d, 'a) kernel_scheme vnode_ops) \<Rightarrow> (dev_kind \<Rightarrow> ('d, 'a) kernel_scheme vfile_ops) \<Rightarrow> ptr \<Rightarrow> nat list \<Rightarrow>
   ('d, 'a) kernel_scheme \<Rightarrow> ('d, 'a) kernel_scheme ret" where
  "release_fds T FT t [] k = Some k"
| "release_fds T FT t (i # is) k =
     (if fd_used (slot (int i) k) \<and> fd_owner (slot (int i) k) = t
      then do { (rc, f, k1) \<leftarrow> vfs_close T FT (fd_file (slot (int i) k)) k;
                k2 \<leftarrow> fd_release (int i) (set_file (int i) f k1);
                release_fds T FT t is k2 }
      else release_fds T FT t is k)"

definition fs_release_task ::
  "(fs_kind \<Rightarrow> ('d, 'a) kernel_scheme vnode_ops) \<Rightarrow> (dev_kind \<Rightarrow> ('d, 'a) kernel_scheme vfile_ops) \<Rightarrow> ptr \<Rightarrow>
   ('d, 'a) kernel_scheme \<Rightarrow> ('d, 'a) kernel_scheme ret" where
  "fs_release_task T FT t k = release_fds T FT t [3..<FD_MAX] k"

definition fd_valid :: "int \<Rightarrow> ('d, 'a) kernel_scheme \<Rightarrow> bool" where
  "fd_valid fd k \<longleftrightarrow> fd \<ge> 0 \<and> fd < int FD_MAX \<and> fd_used (slot fd k)"

definition fd_resolve :: "nat \<Rightarrow> int \<Rightarrow> ('d, 'a) kernel_scheme \<Rightarrow> int" where
  "fd_resolve c fd k =
     (if fd \<ge> 0 \<and> fd < 3 \<and> current c k \<noteq> NULL
      then let r = t_stdio (k_task (current c k) k) ! nat fd
           in if r \<ge> 0 \<and> fd_valid r k then r else fd
      else fd)"

definition set_stdio :: "nat \<Rightarrow> int \<Rightarrow> int \<Rightarrow> ('d, 'a) kernel_scheme \<Rightarrow> ('d, 'a) kernel_scheme" where
  "set_stdio c i v k = k_upd_task (current c k) (\<lambda>t. t\<lparr>t_stdio := (t_stdio t)[nat i := v]\<rparr>) k"

definition fs_sys_dup2 :: "nat \<Rightarrow> int \<Rightarrow> int \<Rightarrow> ('d, 'a) kernel_scheme \<Rightarrow> int \<times> ('d, 'a) kernel_scheme" where
  "fs_sys_dup2 c fd target k =
     (if target < 0 \<or> target > 2 then (- 1, k)
      else if current c k = NULL then (- 1, k)
      else if fd < 0
      then let k1 = set_stdio c target (- 1) k
           in (0, if target = 0 then k_upd_task (current c k1) (t_detached_update (\<lambda>_. True)) k1 else k1)
      else let fd' = fd_resolve c fd k
           in if \<not> fd_valid fd' k \<or> fd' < 3 then (- 1, k) else (target, set_stdio c target fd' k))"

subsection \<open>Files\<close>

definition fs_sys_open ::
  "(fs_kind \<Rightarrow> ('d, 'a) kernel_scheme vnode_ops) \<Rightarrow> nat \<Rightarrow> string option \<Rightarrow> u32 \<Rightarrow> ('d, 'a) kernel_scheme \<Rightarrow> (int \<times> ('d, 'a) kernel_scheme) ret" where
  "fs_sys_open T c path flags k =
     (if path = None then Some (FD_INVALID, k)
      else let (fd, k1) = fd_alloc c k
           in if fd = FD_INVALID then Some (FD_INVALID, k1)
              else do { (rc, f, k2) \<leftarrow> vfs_open T path flags (fd_file (slot fd k1)) k1;
                        if rc \<noteq> 0 then do { k3 \<leftarrow> fd_release fd (set_file fd f k2); Some (FD_INVALID, k3) }
                        else Some (fd, set_file fd f k2) })"

definition fs_sys_close ::
  "(fs_kind \<Rightarrow> ('d, 'a) kernel_scheme vnode_ops) \<Rightarrow> (dev_kind \<Rightarrow> ('d, 'a) kernel_scheme vfile_ops) \<Rightarrow> nat \<Rightarrow> int \<Rightarrow>
   ('d, 'a) kernel_scheme \<Rightarrow> (int \<times> ('d, 'a) kernel_scheme) ret" where
  "fs_sys_close T FT c fd k =
     (if fd < 3 then Some (0, if current c k \<noteq> NULL \<and> fd \<ge> 0 then set_stdio c fd (- 1) k else k)
      else if \<not> fd_valid fd k then Some (- 1, k)
      else do { (rc, f, k1) \<leftarrow> vfs_close T FT (fd_file (slot fd k)) k;
                k2 \<leftarrow> fd_release fd (set_file fd f k1);
                Some (rc, k2) })"

definition fs_sys_read ::
  "(fs_kind \<Rightarrow> ('d, 'a) kernel_scheme vnode_ops) \<Rightarrow> (dev_kind \<Rightarrow> ('d, 'a) kernel_scheme vfile_ops) \<Rightarrow> nat \<Rightarrow> int \<Rightarrow> ptr \<Rightarrow> u64 \<Rightarrow>
   ('d, 'a) kernel_scheme \<Rightarrow> (u64 sys \<times> ('d, 'a) kernel_scheme) ret" where
  "fs_sys_read T FT c fd0 buf cnt k =
     (let fd = fd_resolve c fd0 k
      in if \<not> fd_valid fd k \<or> buf = NULL then Some (Ret (- 1), k)
         else do { (r, f, k1) \<leftarrow> vfs_read T FT (fd_file (slot fd k)) buf cnt k; Some (r, set_file fd f k1) })"

definition fs_sys_write ::
  "(fs_kind \<Rightarrow> ('d, 'a) kernel_scheme vnode_ops) \<Rightarrow> (dev_kind \<Rightarrow> ('d, 'a) kernel_scheme vfile_ops) \<Rightarrow> nat \<Rightarrow> int \<Rightarrow> ptr \<Rightarrow> u64 \<Rightarrow>
   ('d, 'a) kernel_scheme \<Rightarrow> (u64 sys \<times> ('d, 'a) kernel_scheme) ret" where
  "fs_sys_write T FT c fd0 buf cnt k =
     (let fd = fd_resolve c fd0 k
      in if \<not> fd_valid fd k \<or> buf = NULL then Some (Ret (- 1), k)
         else if fd = 1 \<or> fd = 2
         then Some (Ret (sint cnt), k\<lparr>term_out := term_out k @ bytes_at (vfs_memory k) buf (unat cnt)\<rparr>)
         else do { (r, f, k1) \<leftarrow> vfs_write T FT (fd_file (slot fd k)) buf cnt k; Some (r, set_file fd f k1) })"

definition fs_sys_ioctl ::
  "(dev_kind \<Rightarrow> ('d, 'a) kernel_scheme vfile_ops) \<Rightarrow> nat \<Rightarrow> int \<Rightarrow> u64 \<Rightarrow> ptr \<Rightarrow>
   ('d, 'a) kernel_scheme \<Rightarrow> (int \<times> ('d, 'a) kernel_scheme) ret" where
  "fs_sys_ioctl FT c fd0 request arg k =
     (let fd = fd_resolve c fd0 k
      in if \<not> fd_valid fd k then Some (- 1, k) else vfs_ioctl FT (fd_file (slot fd k)) request arg k)"

definition fs_sys_mkdir ::
  "(fs_kind \<Rightarrow> ('d, 'a) kernel_scheme vnode_ops) \<Rightarrow> string option \<Rightarrow> ('d, 'a) kernel_scheme \<Rightarrow> (int \<times> ('d, 'a) kernel_scheme) ret" where
  "fs_sys_mkdir T path k =
     (if path = None then Some (- 1, k)
      else do { (n, k1) \<leftarrow> vfs_mkdir T path k; Some (if n \<noteq> NULL then 0 else - 1, k1) })"

definition vnode_type_code :: "vnode_type \<Rightarrow> u32" where
  "vnode_type_code ty = (case ty of VNODE_FILE \<Rightarrow> 0 | VNODE_DIR \<Rightarrow> 1 | VNODE_DEVICE \<Rightarrow> 2 | VNODE_SOCKET \<Rightarrow> 3)"

text \<open>\<^verbatim>\<open>FsDirent\<close> in the caller's memory: the name with its terminator, then the type.\<close>

definition dirent_store :: "ptr \<Rightarrow> string \<Rightarrow> vnode_type \<Rightarrow> mem \<Rightarrow> mem" where
  "dirent_store out name ty m =
     store_u32 (out + 64) (vnode_type_code ty)
       (store_bytes out (map (\<lambda>ch. of_nat (of_char ch)) (take (VFS_NAME_MAX - 1) name) @ [0]) m)"

definition fs_sys_readdir ::
  "(fs_kind \<Rightarrow> ('d, 'a) kernel_scheme vnode_ops) \<Rightarrow> int \<Rightarrow> ptr \<Rightarrow> ('d, 'a) kernel_scheme \<Rightarrow> (int \<times> ('d, 'a) kernel_scheme) ret" where
  "fs_sys_readdir T fd out k =
     (if \<not> fd_valid fd k \<or> out = NULL then Some (- 1, k)
      else let f = fd_file (slot fd k); node = f_node f
           in if node = NULL \<or> v_type (vnodes k node) \<noteq> VNODE_DIR then Some (- 1, k)
              else do {
                (r, k1) \<leftarrow> vfs_readdir T node (sint (ucast (f_offset f) :: u32)) k;
                case r of
                  None \<Rightarrow> Some (0, k1)
                | Some name \<Rightarrow>
                    do { (child, k2) \<leftarrow> (case node_op T op_lookup node k1 of None \<Rightarrow> Some (NULL, k1) | Some lookup \<Rightarrow> lookup node name k1);
                         let ty = (if child \<noteq> NULL then v_type (vnodes k2 child) else VNODE_FILE);
                             k3 = set_vfs_memory (dirent_store out name ty (vfs_memory k2)) k2
                         in Some (1, set_file fd (f\<lparr>f_offset := f_offset f + 1\<rparr>) k3) } })"

text \<open>The structure \<^verbatim>\<open>VfsStat\<close> the calls store at \<open>out\<close> is part of the result.\<close>

definition fs_sys_stat ::
  "(fs_kind \<Rightarrow> ('d, 'a) kernel_scheme vnode_ops) \<Rightarrow> string option \<Rightarrow> ptr \<Rightarrow> ('d, 'a) kernel_scheme \<Rightarrow>
   (vfs_stat_info option \<times> ('d, 'a) kernel_scheme) ret" where
  "fs_sys_stat T path out k = (if path = None \<or> out = NULL then Some (None, k) else vfs_stat T path out k)"

definition fs_sys_fstat :: "nat \<Rightarrow> int \<Rightarrow> ptr \<Rightarrow> ('d, 'a) kernel_scheme \<Rightarrow> vfs_stat_info option" where
  "fs_sys_fstat c fd0 out k =
     (let fd = fd_resolve c fd0 k
      in if \<not> fd_valid fd k \<or> out = NULL then None else vfs_fstat (fd_file (slot fd k)) out k)"

definition fs_sys_lseek :: "int \<Rightarrow> u64 \<Rightarrow> int \<Rightarrow> ('d, 'a) kernel_scheme \<Rightarrow> int \<times> ('d, 'a) kernel_scheme" where
  "fs_sys_lseek fd offset whence k =
     (if \<not> fd_valid fd k then (- 1, k)
      else let (r, f) = vfs_lseek (fd_file (slot fd k)) offset whence k in (r, set_file fd f k))"

definition fs_sys_unlink ::
  "(fs_kind \<Rightarrow> ('d, 'a) kernel_scheme vnode_ops) \<Rightarrow> string option \<Rightarrow> ('d, 'a) kernel_scheme \<Rightarrow> (int \<times> ('d, 'a) kernel_scheme) ret" where
  "fs_sys_unlink T path k = (if path = None then Some (- 1, k) else vfs_unlink T path k)"

definition fs_sys_rename ::
  "(fs_kind \<Rightarrow> ('d, 'a) kernel_scheme vnode_ops) \<Rightarrow> string option \<Rightarrow> string option \<Rightarrow> ('d, 'a) kernel_scheme \<Rightarrow>
   (int \<times> ('d, 'a) kernel_scheme) ret" where
  "fs_sys_rename T from to k = (if from = None \<or> to = None then Some (- 1, k) else vfs_rename T from to k)"

subsection \<open>Waiting for files\<close>

text \<open>The entry \<open>i\<close> of the caller's array: descriptor and events are signed fields of 32 and 16 bits.\<close>

definition poll_events ::
  "(dev_kind \<Rightarrow> ('d, 'a) kernel_scheme vfile_ops) \<Rightarrow> nat \<Rightarrow> int \<Rightarrow> int \<Rightarrow> ('d, 'a) kernel_scheme \<Rightarrow> int" where
  "poll_events FT c fd0 events k =
     (let fd = fd_resolve c fd0 k
      in if fd < 0 then 0
         else if \<not> fd_valid fd k \<or> f_node (fd_file (slot fd k)) = NULL then POLLNVAL
         else and (vfs_poll FT (fd_file (slot fd k)) k) (or events (or POLLERR (or POLLHUP POLLNVAL))))"

fun poll_scan ::
  "(dev_kind \<Rightarrow> ('d, 'a) kernel_scheme vfile_ops) \<Rightarrow> nat \<Rightarrow> ptr \<Rightarrow> nat \<Rightarrow> nat \<Rightarrow> int \<Rightarrow> ('d, 'a) kernel_scheme \<Rightarrow>
   int \<times> ('d, 'a) kernel_scheme" where
  "poll_scan FT c fds i 0 nready k = (nready, k)"
| "poll_scan FT c fds i (Suc n) nready k =
     (let e = fds + of_nat i * 8; m = vfs_memory k;
          revents = (of_int (poll_events FT c (sint (load_u32 m e)) (sint (load_u16 m (e + 4))) k) :: u16)
      in poll_scan FT c fds (Suc i) n (if revents \<noteq> 0 then nready + 1 else nready)
           (set_vfs_memory (store_u16 (e + 6) revents m) k))"

text \<open>One pass of the loop; a call that blocks carries over the time at which it started.\<close>

definition poll_pass ::
  "(dev_kind \<Rightarrow> ('d, 'a) kernel_scheme vfile_ops) \<Rightarrow> nat \<Rightarrow> ptr \<Rightarrow> u64 \<Rightarrow> int \<Rightarrow> u64 \<Rightarrow> ('d, 'a) kernel_scheme \<Rightarrow>
   (u64 sys \<times> ('d, 'a) kernel_scheme) ret" where
  "poll_pass FT c fds cnt timeout_ms start k =
     (let (nready, k1) = poll_scan FT c fds 0 (unat cnt) 0 k
      in if nready \<noteq> 0 \<or> timeout_ms = 0 then Some (Ret nready, k1)
         else let elapsed = task_uptime_ms (sched_of k1) - start
              in if timeout_ms > 0 \<and> elapsed \<ge> of_int timeout_ms then Some (Ret 0, k1)
                 else do { s \<leftarrow> task_block c (if timeout_ms > 0 then ucast (of_int timeout_ms - elapsed) else TASK_BLOCK_FOREVER) (sched_of k1);
                           Some (Blocked start, set_sched s k1) })"

definition fs_sys_poll ::
  "(dev_kind \<Rightarrow> ('d, 'a) kernel_scheme vfile_ops) \<Rightarrow> nat \<Rightarrow> ptr \<Rightarrow> u64 \<Rightarrow> int \<Rightarrow> ('d, 'a) kernel_scheme \<Rightarrow>
   (u64 sys \<times> ('d, 'a) kernel_scheme) ret" where
  "fs_sys_poll FT c fds cnt timeout_ms k =
     (if fds = NULL \<and> cnt \<noteq> 0 then Some (Ret (- 1), k)
      else poll_pass FT c fds cnt timeout_ms (task_uptime_ms (sched_of k)) k)"

subsection \<open>Mounting disks\<close>

definition fs_sys_mount ::
  "(fs_kind \<Rightarrow> ('d, 'a) kernel_scheme vnode_ops) \<Rightarrow> ptr \<Rightarrow> string option \<Rightarrow> string option \<Rightarrow>
   ('d, 'a) kernel_scheme \<Rightarrow> (int \<times> ('d, 'a) kernel_scheme) ret" where
  "fs_sys_mount T stk dev path k =
     (case path of
        None \<Rightarrow> Some (- 1, k)
      | Some p \<Rightarrow>
          if dev = None \<or> p = [] \<or> hd p \<noteq> slash \<or> length p \<ge> VFS_NAME_MAX then Some (- 1, k)
          else do {
            (node, k1) \<leftarrow> vfs_resolve T dev k;
            case block_from_node node k1 of
              None \<Rightarrow> Some (- 1, k1)
            | Some d \<Rightarrow>
                do { (root, k2) \<leftarrow> fat32_mount stk d k1;
                     if root = NULL then Some (- 1, k2)
                     else let (rc, k3) = vfs_mount p root k2
                          in if rc \<noteq> 0 then do { (u, k4) \<leftarrow> fat32_unmount root k3; Some (- 1, k4) }
                             else Some (0, k3) } })"

definition fs_sys_unmount ::
  "string option \<Rightarrow> ('d, 'a) kernel_scheme \<Rightarrow> (int \<times> ('d, 'a) kernel_scheme) ret" where
  "fs_sys_unmount path k =
     (case path of
        None \<Rightarrow> Some (- 1, k)
      | Some p \<Rightarrow>
          let (root, k1) = vfs_unmount p k
          in if root = NULL then Some (- 1, k1)
             else if \<exists>s \<in> set (drop 3 (fd_table k1)). fd_used s \<and> fat32_owns root (f_node (fd_file s)) k1
             then Some (- 1, snd (vfs_mount p root k1))
             else if fat32_is_root root k1 then fat32_unmount root k1
             else Some (0, k1))"

subsection \<open>Sockets as files\<close>

definition sock_from_file :: "vfile \<Rightarrow> ('d, 'a) kernel_scheme \<Rightarrow> ptr" where
  "sock_from_file file k =
     (if f_node file = NULL \<or> v_type (vnodes k (f_node file)) \<noteq> VNODE_SOCKET then NULL
      else v_private_data (vnodes k (f_node file)))"

definition sock_from_fd :: "int \<Rightarrow> ('d, 'a) kernel_scheme \<Rightarrow> ptr" where
  "sock_from_fd fd k = (if \<not> fd_valid fd k then NULL else sock_from_file (fd_file (slot fd k)) k)"

text \<open>The node is the first field of the structure \<^verbatim>\<open>Socket\<close>, at the same address.\<close>

definition sock_node :: "ptr \<Rightarrow> vnode" where
  "sock_node p = vnode_zero\<lparr>v_type := VNODE_SOCKET, v_file_ops := Some SOCKET_FILE_OPS, v_private_data := p, v_name := ''socket''\<rparr>"

definition sock_file_read ::
  "nat \<Rightarrow> vfile \<Rightarrow> ptr \<Rightarrow> u64 \<Rightarrow> ('d, 'a) kernel_scheme \<Rightarrow> (u64 sys \<times> vfile \<times> ('d, 'a) kernel_scheme) ret" where
  "sock_file_read c file buf cnt k =
     do { (r, st) \<leftarrow> sock_read c (sock_from_file file k) buf cnt (socks k);
          Some (case r of Ret n \<Rightarrow> Ret n | Blocked _ \<Rightarrow> Blocked 0, file, set_socks st k) }"

definition sock_file_write ::
  "nat \<Rightarrow> vfile \<Rightarrow> ptr \<Rightarrow> u64 \<Rightarrow> ('d, 'a) kernel_scheme \<Rightarrow> (u64 sys \<times> vfile \<times> ('d, 'a) kernel_scheme) ret" where
  "sock_file_write c file buf cnt k =
     do { (r, st) \<leftarrow> sock_write c (sock_from_file file k) buf cnt (socks k); Some (r, file, set_socks st k) }"

definition sock_file_ioctl ::
  "vfile \<Rightarrow> u64 \<Rightarrow> ptr \<Rightarrow> ('d, 'a) kernel_scheme \<Rightarrow> (int \<times> ('d, 'a) kernel_scheme) ret" where
  "sock_file_ioctl file request arg k =
     (let (r, st) = sock_ioctl (sock_from_file file k) request arg (socks k) in Some (r, set_socks st k))"

definition sock_file_close :: "vfile \<Rightarrow> ('d, 'a) kernel_scheme \<Rightarrow> (int \<times> ('d, 'a) kernel_scheme) ret" where
  "sock_file_close file k =
     do { (r, st) \<leftarrow> sock_close (sock_from_file file k) (socks k); Some (r, set_socks st k) }"

definition socket_file_ops :: "nat \<Rightarrow> ('d, 'a) kernel_scheme vfile_ops" where
  "socket_file_ops c = \<lparr>fop_read = Some (sock_file_read c), fop_write = Some (sock_file_write c), fop_ioctl = Some sock_file_ioctl,
     fop_close = Some sock_file_close, fop_poll = Some (\<lambda>file k. sock_poll (sock_from_file file k) (socks k))\<rparr>"

definition sock_install_fd :: "nat \<Rightarrow> ptr \<Rightarrow> ('d, 'a) kernel_scheme \<Rightarrow> int \<times> ('d, 'a) kernel_scheme" where
  "sock_install_fd c p k =
     (let (fd, k1) = fd_alloc c k
      in if fd = FD_INVALID then (- EMFILE, k1)
         else (fd, set_file fd ((fd_file (slot fd k1))\<lparr>f_node := p, f_flags := VFS_O_RDWR\<rparr>) k1))"

definition sock_sys_socket ::
  "('d, 'a) kernel_scheme inet_calls \<Rightarrow> nat \<Rightarrow> u32 \<Rightarrow> ('d, 'a) kernel_scheme \<Rightarrow> (int \<times> ('d, 'a) kernel_scheme) ret" where
  "sock_sys_socket inet c flags k =
     (if flags AND (SOCK_TCP OR SOCK_UDP) \<noteq> 0 then inet_socket_create inet flags k
      else do {
        (p, st) \<leftarrow> sock_new (flags AND SOCK_NONBLOCK) (socks k);
        if p = NULL then Some (- ENOMEM, set_socks st k)
        else let (fd, k1) = sock_install_fd c p (upd_node p (\<lambda>_. sock_node p) (set_socks st k))
             in if fd < 0 then do { k2 \<leftarrow> vf_kfree p k1; Some (fd, k2) } else Some (fd, k1) })"

definition is_inet :: "('d, 'a) kernel_scheme inet_calls \<Rightarrow> int \<Rightarrow> ('d, 'a) kernel_scheme \<Rightarrow> bool" where
  "is_inet inet fd k \<longleftrightarrow> fd_valid fd k \<and> inet_is_socket inet (fd_file (slot fd k)) k"

definition sock_sys_bind ::
  "('d, 'a) kernel_scheme inet_calls \<Rightarrow> int \<Rightarrow> string option \<Rightarrow> ('d, 'a) kernel_scheme \<Rightarrow> (int \<times> ('d, 'a) kernel_scheme) ret" where
  "sock_sys_bind inet fd name k =
     (if is_inet inet fd k then inet_bind inet (fd_file (slot fd k)) name k
      else do { (rc, st) \<leftarrow> sock_bind (sock_from_fd fd k) name (socks k); Some (rc, set_socks st k) })"

definition sock_sys_listen ::
  "('d, 'a) kernel_scheme inet_calls \<Rightarrow> int \<Rightarrow> ('d, 'a) kernel_scheme \<Rightarrow> (int \<times> ('d, 'a) kernel_scheme) ret" where
  "sock_sys_listen inet fd k =
     (if is_inet inet fd k then inet_listen inet (fd_file (slot fd k)) k
      else do { (rc, st) \<leftarrow> sock_listen (sock_from_fd fd k) (socks k); Some (rc, set_socks st k) })"

text \<open>One pass of the loop of \<^verbatim>\<open>sock_sys_accept\<close>.\<close>

definition sock_sys_accept ::
  "('d, 'a) kernel_scheme inet_calls \<Rightarrow> nat \<Rightarrow> int \<Rightarrow> ('d, 'a) kernel_scheme \<Rightarrow> (unit sys \<times> ('d, 'a) kernel_scheme) ret" where
  "sock_sys_accept inet c fd k =
     (if is_inet inet fd k then inet_accept inet (fd_file (slot fd k)) k
      else let p = sock_from_fd fd k; s = sk (socks k) p
           in if p = NULL then Some (Ret (- EBADF), k)
              else if s_state s \<noteq> SOCKET_LISTENING then Some (Ret (- EINVAL), k)
              else if s_backlog s \<noteq> []
              then let (conn, st) = accept_pop p (socks k);
                       (nfd, k1) = sock_install_fd c conn (set_socks st k)
                   in if nfd < 0
                      then do { st' \<leftarrow> sock_destroy 2 conn (socks k1); Some (Ret nfd, set_socks st' k1) }
                      else Some (Ret nfd, k1)
              else if nonblocking s then Some (Ret (- EAGAIN), k)
              else do { st \<leftarrow> sk_block c (socks k); Some (Blocked (), set_socks st k) })"

text \<open>The node of the new end of the connection is filled in with it; when the call fails that end is freed.\<close>

definition sock_sys_connect ::
  "('d, 'a) kernel_scheme inet_calls \<Rightarrow> int \<Rightarrow> string option \<Rightarrow> ('d, 'a) kernel_scheme \<Rightarrow> (u64 sys \<times> ('d, 'a) kernel_scheme) ret" where
  "sock_sys_connect inet fd name k =
     (if is_inet inet fd k then inet_connect inet (fd_file (slot fd k)) name k
      else let p = sock_from_fd fd k
           in do { (rc, st) \<leftarrow> sock_connect p name (socks k);
                   let k1 = set_socks st k; conn = s_peer (sk st p)
                   in Some (Ret rc, if rc = 0 then upd_node conn (\<lambda>_. sock_node conn) k1 else k1) })"

subsection \<open>The tables of the kernel\<close>

text \<open>The operations of the file systems and devices; \<open>dev\<close> are those of the devices other than disks and sockets. A
  table \<open>T\<close> given to the calls above is \<open>kernel_fs stk\<close>, and \<open>FT\<close> is \<open>kernel_files\<close>.\<close>

definition kernel_fs :: "ptr \<Rightarrow> fs_kind \<Rightarrow> ('d, 'a) kernel_scheme vnode_ops" where
  "kernel_fs stk kd = (case kd of RAMFS_OPS \<Rightarrow> ramfs_ops | FAT_OPS \<Rightarrow> fat_ops stk | DEVFS_OPS \<Rightarrow> devfs_dir_ops)"

definition block_file_ops ::
  "(fs_kind \<Rightarrow> ('d, 'a) kernel_scheme vnode_ops) \<Rightarrow> ptr \<Rightarrow> ptr \<Rightarrow> ('d, 'a) kernel_scheme vfile_ops" where
  "block_file_ops T format_stk stk = \<lparr>fop_read = None, fop_write = None, fop_ioctl = Some (block_ioctl T (fat32_format format_stk) stk),
     fop_close = None, fop_poll = Some block_poll\<rparr>"

definition kernel_files ::
  "nat \<Rightarrow> ('d, 'a) kernel_scheme vfile_ops \<Rightarrow> (nat \<Rightarrow> ('d, 'a) kernel_scheme vfile_ops) \<Rightarrow> dev_kind \<Rightarrow> ('d, 'a) kernel_scheme vfile_ops" where
  "kernel_files c blk dev kd =
     (case kd of SOCKET_FILE_OPS \<Rightarrow> socket_file_ops c | DEVICE_FILE_OPS n \<Rightarrow> (if kd = BLOCK_FILE_OPS then blk else dev n))"

end
