(* ===== verification/Process.thy ===== *)
theory Process
  imports Kernel
begin

text \<open>
  The life of a program, the part of \<^verbatim>\<open>kernel/system/task.c\<close> that acts on the whole kernel: loading a program
  from a file and starting it, its working directory, and the end of a task by exit or kill, which gives
  back its descriptors, its pages, its image and its stack. \<open>tramp\<close> is the address of
  \<^verbatim>\<open>task_trampoline\<close>; the strings of \<^verbatim>\<open>argv\<close> are given as values.
\<close>

definition k_heap_op :: "(heap \<Rightarrow> ('r \<times> heap) ret) \<Rightarrow> ('d, 'a) kernel_scheme \<Rightarrow> ('r \<times> ('d, 'a) kernel_scheme) ret" where
  "k_heap_op f k = do { (r, h) \<leftarrow> f (vf_heap k); Some (r, k\<lparr>vf_heap := h\<rparr>) }"

definition k_free_pages :: "ptr \<Rightarrow> u64 \<Rightarrow> ('d, 'a) kernel_scheme \<Rightarrow> ('d, 'a) kernel_scheme ret" where
  "k_free_pages p n k =
     do { m \<leftarrow> pmm_free_pages p n (hp_pmm (vf_heap k)); Some (k\<lparr>vf_heap := (vf_heap k)\<lparr>hp_pmm := m\<rparr>\<rparr>) }"

subsection \<open>Arguments\<close>

definition TASK_ARGS_SIZE :: u64 where "TASK_ARGS_SIZE = 24"

definition c_bytes :: "string \<Rightarrow> u8 list" where
  "c_bytes cs = map (\<lambda>ch. of_nat (of_char ch)) cs @ [0]"

text \<open>The strings one after the other in \<open>backing\<close>, and the array of pointers to them.\<close>

fun copy_args :: "string list \<Rightarrow> ptr \<Rightarrow> ptr \<Rightarrow> mem \<Rightarrow> mem" where
  "copy_args [] argv cursor m = store_u64 argv NULL m"
| "copy_args (a # as) argv cursor m =
     copy_args as (argv + 8) (cursor + of_nat (length a + 1)) (store_u64 argv cursor (store_bytes cursor (c_bytes a) m))"

definition task_args_from_argv :: "string \<Rightarrow> string list \<Rightarrow> ('d, 'a) kernel_scheme \<Rightarrow> (ptr \<times> ('d, 'a) kernel_scheme) ret" where
  "task_args_from_argv path argv k =
     do { (ta, k1) \<leftarrow> vf_kmalloc TASK_ARGS_SIZE k;
          if ta = NULL then Some (NULL, k1)
          else let backing_size = of_nat (length path + 1 + sum_list (map (\<lambda>a. length a + 1) argv))
               in do {
                 (backing, k2) \<leftarrow> vf_kmalloc backing_size k1;
                 if backing = NULL then do { k3 \<leftarrow> vf_kfree ta k2; Some (NULL, k3) }
                 else do {
                   (arr, k3) \<leftarrow> vf_kmalloc (8 * (of_nat (length argv) + 1)) k2;
                   if arr = NULL
                   then do { k4 \<leftarrow> vf_kfree backing k3; k5 \<leftarrow> vf_kfree ta k4; Some (NULL, k5) }
                   else let k4 = set_vfs_memory (copy_args argv arr backing (vfs_memory k3)) k3
                        in Some (ta, k4\<lparr>k_args := (k_args k4)(ta := \<lparr>ta_argc = int (length argv), ta_argv = arr, ta_backing = backing\<rparr>)\<rparr>) } } }"

definition task_args_free :: "ptr \<Rightarrow> ('d, 'a) kernel_scheme \<Rightarrow> ('d, 'a) kernel_scheme ret" where
  "task_args_free ta k =
     (if ta = NULL then Some k
      else do { k1 \<leftarrow> vf_kfree (ta_argv (k_args k ta)) k;
                k2 \<leftarrow> vf_kfree (ta_backing (k_args k ta)) k1;
                vf_kfree ta k2 })"

subsection \<open>The end of a task\<close>

definition task_release_resources ::
  "(fs_kind \<Rightarrow> ('d, 'a) kernel_scheme vnode_ops) \<Rightarrow> (dev_kind \<Rightarrow> ('d, 'a) kernel_scheme vfile_ops) \<Rightarrow> ptr \<Rightarrow>
   ('d, 'a) kernel_scheme \<Rightarrow> ('d, 'a) kernel_scheme ret" where
  "task_release_resources T FT t k =
     do { k1 \<leftarrow> fs_release_task T FT t k;
          u \<leftarrow> user_pages_release_task t (sc_mem (sched_of k1));
          Some (set_sched ((sched_of k1)\<lparr>sc_mem := u\<rparr>) k1) }"

definition drop_image :: "ptr \<Rightarrow> ('d, 'a) kernel_scheme \<Rightarrow> ('d, 'a) kernel_scheme ret" where
  "drop_image t k =
     (if t_owns_image (k_task t k)
      then do { (img, k1) \<leftarrow> k_heap_op (elf_unload_image (t_image (k_task t k))) k;
                Some (k_upd_task t (\<lambda>u. u\<lparr>t_image := img, t_owns_image := False\<rparr>) k1) }
      else Some k)"

definition drop_stack :: "ptr \<Rightarrow> ('d, 'a) kernel_scheme \<Rightarrow> ('d, 'a) kernel_scheme ret" where
  "drop_stack t k =
     (let u = k_task t k
      in if t_stack_base u \<noteq> NULL
         then do { k1 \<leftarrow> k_free_pages (t_stack_base u) (t_stack_pages u) k;
                   Some (k_upd_task t (\<lambda>u. u\<lparr>t_stack_base := NULL, t_stack_pages := 0\<rparr>) k1) }
         else Some k)"

definition drop_args :: "ptr \<Rightarrow> ('d, 'a) kernel_scheme \<Rightarrow> ('d, 'a) kernel_scheme ret" where
  "drop_args t k =
     (if t_args (k_task t k) \<noteq> NULL
      then do { k1 \<leftarrow> task_args_free (t_args (k_task t k)) k; Some (k_upd_task t (t_args_update (\<lambda>_. NULL)) k1) }
      else Some k)"

text \<open>\<^verbatim>\<open>task_exit\<close> does not return: its result is the state in which the CPU has switched to another task.\<close>

definition task_exit ::
  "(fs_kind \<Rightarrow> ('d, 'a) kernel_scheme vnode_ops) \<Rightarrow> (dev_kind \<Rightarrow> ('d, 'a) kernel_scheme vfile_ops) \<Rightarrow> nat \<Rightarrow> int \<Rightarrow>
   ('d, 'a) kernel_scheme \<Rightarrow> ('d, 'a) kernel_scheme ret" where
  "task_exit T FT c code k =
     (let t = current c k; k1 = k_upd_task t (t_exit_code_update (\<lambda>_. code)) k
      in do { k2 \<leftarrow> task_release_resources T FT t k1;
              let k3 = k_upd_task t (t_state_update (\<lambda>_. TASK_DEAD)) k2 in do {
              k4 \<leftarrow> drop_args t k3;
              k5 \<leftarrow> drop_image t k4;
              k6 \<leftarrow> drop_stack t k5;
              s \<leftarrow> schedule c TASK_DEAD (sched_of k6);
              Some (set_sched s k6) } })"

definition task_check_kill ::
  "(fs_kind \<Rightarrow> ('d, 'a) kernel_scheme vnode_ops) \<Rightarrow> (dev_kind \<Rightarrow> ('d, 'a) kernel_scheme vfile_ops) \<Rightarrow> nat \<Rightarrow>
   ('d, 'a) kernel_scheme \<Rightarrow> ('d, 'a) kernel_scheme ret" where
  "task_check_kill T FT c k =
     (if current c k \<noteq> NULL \<and> t_kill_pending (k_task (current c k) k) then task_exit T FT c (- 1) k else Some k)"

text \<open>A task that kills itself does not return either; the result is then \<open>None\<close> in the first component.\<close>

definition task_kill ::
  "(fs_kind \<Rightarrow> ('d, 'a) kernel_scheme vnode_ops) \<Rightarrow> (dev_kind \<Rightarrow> ('d, 'a) kernel_scheme vfile_ops) \<Rightarrow> nat \<Rightarrow> ptr \<Rightarrow>
   ('d, 'a) kernel_scheme \<Rightarrow> (bool option \<times> ('d, 'a) kernel_scheme) ret" where
  "task_kill T FT c t k =
     (if t = NULL then Some (Some False, k)
      else if t_state (k_task t k) = TASK_DEAD then Some (Some False, k)
      else if t = current c k then do { k1 \<leftarrow> task_exit T FT c (- 1) k; Some (None, k1) }
      else if t_state (k_task t k) = TASK_RUNNING
      then Some (Some True, k_upd_task t (t_kill_pending_update (\<lambda>_. True)) k)
      else do { k1 \<leftarrow> task_release_resources T FT t k;
                let k2 = k_upd_task t (t_state_update (\<lambda>_. TASK_DEAD)) k1 in do {
                k3 \<leftarrow> drop_image t k2;
                k4 \<leftarrow> drop_stack t k3;
                s1 \<leftarrow> run_queue_remove t (sched_of k4);
                s2 \<leftarrow> task_free t s1;
                Some (Some True, set_sched s2 k4) } })"

definition sys_kill ::
  "(fs_kind \<Rightarrow> ('d, 'a) kernel_scheme vnode_ops) \<Rightarrow> (dev_kind \<Rightarrow> ('d, 'a) kernel_scheme vfile_ops) \<Rightarrow> nat \<Rightarrow> u64 \<Rightarrow>
   ('d, 'a) kernel_scheme \<Rightarrow> (int option \<times> ('d, 'a) kernel_scheme) ret" where
  "sys_kill T FT c pid k =
     do { t \<leftarrow> task_find pid (sched_of k);
          if t = NULL \<or> t = kernel_task (sched_of k) then Some (Some (- 1), k)
          else do { (r, k1) \<leftarrow> task_kill T FT c t k;
                    Some (map_option (\<lambda>ok. if ok then 0 else - 1) r, k1) } }"

subsection \<open>Starting a program\<close>

definition start_image ::
  "u64 \<Rightarrow> nat \<Rightarrow> string \<Rightarrow> elf_image \<Rightarrow> ptr \<Rightarrow> ('d, 'a) kernel_scheme \<Rightarrow> (ptr \<times> ('d, 'a) kernel_scheme) ret" where
  "start_image tramp c path img ta k =
     do { (t, s) \<leftarrow> task_create_from_image tramp c (Some path) img ta (sched_of k);
          let k1 = set_sched s k
          in if t = NULL
             then do { (i, k2) \<leftarrow> k_heap_op (elf_unload_image img) k1; k3 \<leftarrow> task_args_free ta k2; Some (NULL, k3) }
             else let k2 = k_upd_task t (t_args_update (\<lambda>_. ta)) k1; cur = current c k2
                  in Some (t, if cur \<noteq> NULL \<and> cur \<noteq> t
                              then k_upd_task t (t_stdio_update (\<lambda>_. t_stdio (k_task cur k2))) k2 else k2) }"

text \<open>The file is read into a buffer of its size. Only regular files get here, and their read operations do not
  block; a read that did would be a call that does not return.\<close>

definition read_whole ::
  "(fs_kind \<Rightarrow> ('d, 'a) kernel_scheme vnode_ops) \<Rightarrow> (dev_kind \<Rightarrow> ('d, 'a) kernel_scheme vfile_ops) \<Rightarrow> vfile \<Rightarrow> u64 \<Rightarrow>
   ('d, 'a) kernel_scheme \<Rightarrow> (ptr \<times> ('d, 'a) kernel_scheme) ret" where
  "read_whole T FT f sz k =
     do { (buf, k1) \<leftarrow> vf_kmalloc sz k;
          if buf = NULL then do { (rc, f', k2) \<leftarrow> vfs_close T FT f k1; Some (NULL, k2) }
          else do {
            (n, f1, k2) \<leftarrow> vfs_read T FT f buf sz k1;
            (rc, f2, k3) \<leftarrow> vfs_close T FT f1 k2;
            case n of
              Blocked _ \<Rightarrow> None
            | Ret r \<Rightarrow> (if r < 0 \<or> of_int r \<noteq> sz then do { k4 \<leftarrow> vf_kfree buf k3; Some (NULL, k4) } else Some (buf, k3)) } }"

text \<open>The structure \<^verbatim>\<open>st\<close> is a local variable: its address, here 1, is not NULL.\<close>

definition task_exec_elf ::
  "(fs_kind \<Rightarrow> ('d, 'a) kernel_scheme vnode_ops) \<Rightarrow> (dev_kind \<Rightarrow> ('d, 'a) kernel_scheme vfile_ops) \<Rightarrow> u64 \<Rightarrow> nat \<Rightarrow> string option \<Rightarrow>
   string list \<Rightarrow> ('d, 'a) kernel_scheme \<Rightarrow> (ptr \<times> ('d, 'a) kernel_scheme) ret" where
  "task_exec_elf T FT tramp c path argv k =
     (case path of
        None \<Rightarrow> Some (NULL, k)
      | Some p \<Rightarrow>
          do {
            (ta, k1) \<leftarrow> task_args_from_argv p argv k;
            if ta = NULL then Some (NULL, k1)
            else do {
              (st, k2) \<leftarrow> vfs_stat T path 1 k1;
              case st of
                None \<Rightarrow> do { k3 \<leftarrow> task_args_free ta k2; Some (NULL, k3) }
              | Some info \<Rightarrow>
                  if st_type info \<noteq> VNODE_FILE \<or> st_size info = 0
                  then do { k3 \<leftarrow> task_args_free ta k2; Some (NULL, k3) }
                  else do {
                    (rc, f, k3) \<leftarrow> vfs_open T path 0 no_file k2;
                    if rc \<noteq> 0 then do { k4 \<leftarrow> task_args_free ta k3; Some (NULL, k4) }
                    else do {
                      (buf, k4) \<leftarrow> read_whole T FT f (st_size info) k3;
                      if buf = NULL then do { k5 \<leftarrow> task_args_free ta k4; Some (NULL, k5) }
                      else do {
                        (lr, k5) \<leftarrow> k_heap_op (\<lambda>h. do { (rc, img, h') \<leftarrow> elf_load_image buf (st_size info) h; Some ((rc, img), h') }) k4;
                        k6 \<leftarrow> vf_kfree buf k5;
                        if fst lr \<noteq> 0 then do { k7 \<leftarrow> task_args_free ta k6; Some (NULL, k7) }
                        else start_image tramp c p (snd lr) ta k6 } } } } })"

definition sys_spawn ::
  "(fs_kind \<Rightarrow> ('d, 'a) kernel_scheme vnode_ops) \<Rightarrow> (dev_kind \<Rightarrow> ('d, 'a) kernel_scheme vfile_ops) \<Rightarrow> u64 \<Rightarrow> nat \<Rightarrow> string option \<Rightarrow>
   string list \<Rightarrow> ('d, 'a) kernel_scheme \<Rightarrow> (u64 \<times> ('d, 'a) kernel_scheme) ret" where
  "sys_spawn T FT tramp c path argv k =
     do { (t, k1) \<leftarrow> task_exec_elf T FT tramp c path argv k; Some (if t \<noteq> NULL then t_pid (k_task t k1) else 0, k1) }"

subsection \<open>The working directory\<close>

definition sys_chdir ::
  "(fs_kind \<Rightarrow> ('d, 'a) kernel_scheme vnode_ops) \<Rightarrow> nat \<Rightarrow> string option \<Rightarrow> ('d, 'a) kernel_scheme \<Rightarrow> (int \<times> ('d, 'a) kernel_scheme) ret" where
  "sys_chdir T c path k =
     (case path of
        None \<Rightarrow> Some (- 1, k)
      | Some p \<Rightarrow>
          if p = [] \<or> hd p \<noteq> slash \<or> length p \<ge> VFS_PATH_MAX then Some (- 1, k)
          else do { (st, k1) \<leftarrow> vfs_stat T path 1 k;
                    case st of
                      None \<Rightarrow> Some (- 1, k1)
                    | Some info \<Rightarrow> (if st_type info \<noteq> VNODE_DIR then Some (- 1, k1)
                                    else Some (0, k_upd_task (current c k1) (t_cwd_update (\<lambda>_. p)) k1)) })"

definition sys_getcwd :: "nat \<Rightarrow> ptr \<Rightarrow> u64 \<Rightarrow> ('d, 'a) kernel_scheme \<Rightarrow> int \<times> ('d, 'a) kernel_scheme" where
  "sys_getcwd c buf sz k =
     (let cwd = t_cwd (k_task (current c k) k)
      in if buf = NULL \<or> unat sz \<le> length cwd then (- 1, k)
         else (int (length cwd), set_vfs_memory (store_bytes buf (c_bytes cwd) (vfs_memory k)) k))"

end
