(* ===== verification/InetFiles.thy ===== *)
theory InetFiles
  imports Inet Kernel
begin

text \<open>
  Internet sockets as open files: the functions of \<^verbatim>\<open>kernel/net/inet.c\<close> that find their socket by a file, and the ones that make
  a descriptor for a socket, over the state of the whole kernel. The record \<open>net_kernel\<close> adds the sockets and the network of
  \<open>Inet\<close> to the kernel of \<open>Kernel\<close>. There is one scheduler and one heap, those of \<open>Kernel\<close>, and the node of a socket
  is one of the nodes of the file system, at its place inside the array \<^verbatim>\<open>inet_sockets\<close>: \<open>inet_of\<close> gives both to the functions of
  \<open>Inet\<close> and \<open>set_inet\<close> takes them back. The record \<open>kernel_inet\<close> is what the calls of \<open>Kernel\<close> take as the internet sockets.
\<close>

record 'd net_kernel = "'d kernel" +
  k_inet :: inet

definition inet_node_addr :: "nat \<Rightarrow> inet \<Rightarrow> ptr" where
  "inet_node_addr i st = inet_addr i st + INET_NODE_OFFSET"

definition inet_of :: "('d, 'a) net_kernel_scheme \<Rightarrow> inet" where
  "inet_of k =
     (let st = k_inet k
      in st\<lparr>nt_sched := sched_of k,
            inet_sockets := map (\<lambda>i. (isock st i)\<lparr>is_node := vnodes k (inet_node_addr i st)\<rparr>) [0..<length (inet_sockets st)]\<rparr>)"

definition set_inet :: "inet \<Rightarrow> ('d, 'a) net_kernel_scheme \<Rightarrow> ('d, 'a) net_kernel_scheme" where
  "set_inet st k =
     fold (\<lambda>i. upd_node (inet_node_addr i st) (\<lambda>_. is_node (isock st i))) [0..<length (inet_sockets st)] (set_sched (nt_sched st) (k\<lparr>k_inet := st\<rparr>))"

text \<open>The socket of a file, as its index in the array its node points into.\<close>

definition inet_from_file :: "vfile \<Rightarrow> ('d, 'a) net_kernel_scheme \<Rightarrow> nat option" where
  "inet_from_file file k =
     (if f_node file = NULL \<or> v_file_ops (vnodes k (f_node file)) \<noteq> Some INET_FILE_OPS then None
      else Some (unat (v_private_data (vnodes k (f_node file)) - inet_base (k_inet k)) div unat INET_SOCKET_SIZE))"

definition inet_file_is_socket :: "vfile \<Rightarrow> ('d, 'a) net_kernel_scheme \<Rightarrow> bool" where
  "inet_file_is_socket file k \<longleftrightarrow> inet_from_file file k \<noteq> None"

definition inet_file_read ::
  "nat \<Rightarrow> vfile \<Rightarrow> ptr \<Rightarrow> u64 \<Rightarrow> ('d, 'a) net_kernel_scheme \<Rightarrow> (u64 sys \<times> vfile \<times> ('d, 'a) net_kernel_scheme) ret" where
  "inet_file_read c file buf cnt k =
     (case inet_from_file file k of
        None \<Rightarrow> Some (Ret (- EBADF), file, k)
      | Some i \<Rightarrow> do { (r, st) \<leftarrow> inet_read c i buf cnt (inet_of k);
                     Some (case r of Ret n \<Rightarrow> Ret n | Blocked _ \<Rightarrow> Blocked 0, file, set_inet st k) })"

definition inet_file_write ::
  "nat \<Rightarrow> vfile \<Rightarrow> ptr \<Rightarrow> u64 \<Rightarrow> ('d, 'a) net_kernel_scheme \<Rightarrow> (u64 sys \<times> vfile \<times> ('d, 'a) net_kernel_scheme) ret" where
  "inet_file_write c file buf cnt k =
     (case inet_from_file file k of
        None \<Rightarrow> Some (Ret (- EBADF), file, k)
      | Some i \<Rightarrow> do { (r, st) \<leftarrow> inet_write c i buf cnt (inet_of k); Some (r, file, set_inet st k) })"

definition inet_file_poll :: "vfile \<Rightarrow> ('d, 'a) net_kernel_scheme \<Rightarrow> int" where
  "inet_file_poll file k = (case inet_from_file file k of None \<Rightarrow> POLLNVAL | Some i \<Rightarrow> inet_poll i (inet_of k))"

definition inet_file_ioctl ::
  "vfile \<Rightarrow> u64 \<Rightarrow> ptr \<Rightarrow> ('d, 'a) net_kernel_scheme \<Rightarrow> (int \<times> ('d, 'a) net_kernel_scheme) ret" where
  "inet_file_ioctl file request arg k =
     (case inet_from_file file k of
        None \<Rightarrow> Some (- EBADF, k)
      | Some i \<Rightarrow> let (r, st) = inet_ioctl i request arg (inet_of k) in Some (r, set_inet st k))"

definition inet_file_close :: "vfile \<Rightarrow> ('d, 'a) net_kernel_scheme \<Rightarrow> (int \<times> ('d, 'a) net_kernel_scheme) ret" where
  "inet_file_close file k =
     (case inet_from_file file k of
        None \<Rightarrow> Some (- 1, k)
      | Some i \<Rightarrow> do { st \<leftarrow> inet_close i (inet_of k); Some (0, set_inet st k) })"

definition inet_file_ops :: "nat \<Rightarrow> ('d, 'a) net_kernel_scheme vfile_ops" where
  "inet_file_ops c = \<lparr>fop_read = Some (inet_file_read c), fop_write = Some (inet_file_write c), fop_ioctl = Some inet_file_ioctl,
     fop_close = Some inet_file_close, fop_poll = Some inet_file_poll\<rparr>"

subsection \<open>Descriptors\<close>

definition inet_install_fd :: "nat \<Rightarrow> nat \<Rightarrow> ('d, 'a) net_kernel_scheme \<Rightarrow> int \<times> ('d, 'a) net_kernel_scheme" where
  "inet_install_fd c i k =
     (let (fd, k1) = fd_alloc c k
      in if fd = FD_INVALID then (- EMFILE, k1)
         else (fd, set_file fd ((fd_file (slot fd k1))\<lparr>f_node := inet_node_addr i (k_inet k1), f_flags := VFS_O_RDWR\<rparr>) k1))"

definition inet_file_socket :: "nat \<Rightarrow> u32 \<Rightarrow> ('d, 'a) net_kernel_scheme \<Rightarrow> (int \<times> ('d, 'a) net_kernel_scheme) ret" where
  "inet_file_socket c flags k =
     do { (a, st) \<leftarrow> inet_alloc (if flags AND SOCK_UDP \<noteq> 0 then INET_UDP else INET_TCP) flags (inet_of k);
          case a of
            None \<Rightarrow> Some (- EMFILE, set_inet st k)
          | Some i \<Rightarrow>
              let (fd, k1) = inet_install_fd c i (set_inet st k)
              in if fd < 0 then do { st1 \<leftarrow> inet_free i (inet_of k1); Some (fd, set_inet st1 k1) } else Some (fd, k1) }"

definition inet_file_connect ::
  "nat \<Rightarrow> vfile \<Rightarrow> string option \<Rightarrow> ('d, 'a) net_kernel_scheme \<Rightarrow> (u64 sys \<times> ('d, 'a) net_kernel_scheme) ret" where
  "inet_file_connect c file name k =
     (case (inet_from_file file k, name) of
        (Some i, Some n) \<Rightarrow> do { (r, st) \<leftarrow> Inet.inet_connect c i n (inet_of k); Some (r, set_inet st k) }
      | _ \<Rightarrow> Some (Ret (- EBADF), k))"

definition inet_file_bind :: "vfile \<Rightarrow> string option \<Rightarrow> ('d, 'a) net_kernel_scheme \<Rightarrow> (int \<times> ('d, 'a) net_kernel_scheme) ret" where
  "inet_file_bind file name k =
     (case (inet_from_file file k, name) of
        (Some i, Some n) \<Rightarrow> let (r, st) = Inet.inet_bind i n (inet_of k) in Some (r, set_inet st k)
      | _ \<Rightarrow> Some (- EBADF, k))"

definition inet_file_listen :: "vfile \<Rightarrow> ('d, 'a) net_kernel_scheme \<Rightarrow> (int \<times> ('d, 'a) net_kernel_scheme) ret" where
  "inet_file_listen file k =
     (case inet_from_file file k of
        None \<Rightarrow> Some (- EBADF, k)
      | Some i \<Rightarrow> let (r, st) = Inet.inet_listen i (inet_of k) in Some (r, set_inet st k))"

text \<open>One pass of the loop of \<^verbatim>\<open>inet_accept\<close>.\<close>

definition inet_file_accept :: "nat \<Rightarrow> vfile \<Rightarrow> ('d, 'a) net_kernel_scheme \<Rightarrow> (unit sys \<times> ('d, 'a) net_kernel_scheme) ret" where
  "inet_file_accept c file k =
     (case inet_from_file file k of
        None \<Rightarrow> Some (Ret (- EBADF), k)
      | Some i \<Rightarrow>
          let st = inet_of k; s = isock st i
          in if is_kind s \<noteq> INET_TCP \<or> is_state s \<noteq> TCP_LISTEN then Some (Ret (- EINVAL), k)
             else if is_backlog s \<noteq> []
             then let (j, st1) = inet_accept_pop i st; (fd, k1) = inet_install_fd c j (set_inet st1 k)
                  in if fd < 0
                     then do { st2 \<leftarrow> tcp_send_segment j (is_snd_nxt (isock (inet_of k1) j)) TCP_RST [] 0 (inet_of k1);
                               st3 \<leftarrow> inet_free j st2;
                               Some (Ret fd, set_inet st3 k1) }
                     else Some (Ret fd, k1)
             else if inet_nonblocking s then Some (Ret (- EAGAIN), k)
             else do { st1 \<leftarrow> nt_block c TASK_BLOCK_FOREVER st; Some (Blocked (), set_inet st1 k) })"

definition kernel_inet :: "nat \<Rightarrow> ('d, 'a) net_kernel_scheme inet_calls" where
  "kernel_inet c = \<lparr>inet_socket_create = inet_file_socket c, inet_is_socket = inet_file_is_socket, inet_bind = inet_file_bind,
     inet_listen = inet_file_listen, inet_accept = inet_file_accept c, inet_connect = inet_file_connect c\<rparr>"

text \<open>The files of the kernel with the internet sockets among them.\<close>

definition net_files ::
  "nat \<Rightarrow> ('d, 'a) net_kernel_scheme vfile_ops \<Rightarrow> (nat \<Rightarrow> ('d, 'a) net_kernel_scheme vfile_ops) \<Rightarrow> dev_kind \<Rightarrow> ('d, 'a) net_kernel_scheme vfile_ops" where
  "net_files c blk dev = kernel_files c blk (\<lambda>n. if DEVICE_FILE_OPS n = INET_FILE_OPS then inet_file_ops c else dev n)"

subsection \<open>Parts of the state of the kernel\<close>

text \<open>A part that is read with \<open>get\<close> and written with \<open>put\<close>: what was written is read back, and writing it again replaces it. \<open>fits\<close> says which
  values the part can have.\<close>

locale kernel_part =
  fixes get :: "'k \<Rightarrow> 's" and put :: "'s \<Rightarrow> 'k \<Rightarrow> 'k" and fits :: "'s \<Rightarrow> 'k \<Rightarrow> bool"
  assumes get_put: "fits s k \<Longrightarrow> get (put s k) = s"
    and fits_put: "fits s k \<Longrightarrow> fits s' (put s k) = fits s' k"
begin

definition on_part :: "('s \<Rightarrow> ('r \<times> 's) option) \<Rightarrow> 'k \<Rightarrow> ('r \<times> 'k) option" where
  "on_part f k = (case f (get k) of None \<Rightarrow> None | Some (r, s) \<Rightarrow> Some (r, put s k))"

text \<open>Two steps on the part, one after the other, see the same values as when they are made on the part alone.\<close>

lemma on_part_twice:
  assumes "f (get k) = Some (r, s)" and "fits s k" and "g s = Some (r', s')" and "fits s' k"
  shows "\<exists>k1 k2. on_part f k = Some (r, k1) \<and> on_part g k1 = Some (r', k2) \<and> get k1 = s \<and> get k2 = s'"
proof -
  have 1: "on_part f k = Some (r, put s k)" using assms(1) by (simp add: on_part_def)
  have g: "get (put s k) = s" by (rule get_put [OF assms(2)])
  have "fits s' (put s k)" using fits_put [OF assms(2)] assms(4) by simp
  then have "get (put s' (put s k)) = s'" by (rule get_put)
  moreover have "on_part g (put s k) = Some (r', put s' (put s k))" using g assms(3) by (simp add: on_part_def)
  ultimately show ?thesis using 1 g by blast
qed

end

lemma upd_node_frame [simp]:
  "vf_heap (upd_node p f k) = vf_heap k" "k_socks (upd_node p f k) = k_socks k" "fd_table (upd_node p f k) = fd_table k"
  "vnodes (upd_node p f k) a = (if a = p then f (vnodes k p) else vnodes k a)"
  "vnodes (set_sched s k) = vnodes k" "fd_table (set_sched s k) = fd_table k"
  by (simp_all add: upd_node_def set_sched_def set_socks_def)

lemma net_frame [simp]: "k_inet (upd_node p f k) = k_inet k" "k_inet (set_sched s k) = k_inet k"
  by (simp_all add: upd_node_def set_sched_def set_socks_def)

lemma sched_of_set_sched: "sched_of (set_sched s k) = s"
  by (simp add: sched_of_def set_sched_def socks_def set_socks_def set_sk_heap_def sk_heap_def)

lemma sched_of_upd_node [simp]: "sched_of (upd_node p f k) = sched_of k"
  by (simp add: sched_of_def socks_def)

lemma fold_nodes:
  "k_inet (fold (\<lambda>i. upd_node (p i) (f i)) xs k) = k_inet k" "sched_of (fold (\<lambda>i. upd_node (p i) (f i)) xs k) = sched_of k"
  "fd_table (fold (\<lambda>i. upd_node (p i) (f i)) xs k) = fd_table k"
  by (induction xs arbitrary: k) simp_all

lemma fold_nodes_other: "(\<forall>i \<in> set xs. p i \<noteq> a) \<Longrightarrow> vnodes (fold (\<lambda>i. upd_node (p i) (f i)) xs k) a = vnodes k a"
  by (induction xs arbitrary: k) (auto simp: upd_node_def)

lemma fold_nodes_at:
  assumes "distinct xs" and "inj_on p (set xs)" and "i \<in> set xs"
  shows "vnodes (fold (\<lambda>i. upd_node (p i) (\<lambda>_. f i)) xs k) (p i) = f i"
  using assms
proof (induction xs arbitrary: k)
  case (Cons x xs)
  show ?case
  proof (cases "i = x")
    case True
    then have "\<forall>j \<in> set xs. p j \<noteq> p i" using Cons.prems by (auto simp: inj_on_def)
    then show ?thesis using True by (simp add: fold_nodes_other upd_node_def [of "p x"])
  next
    case False
    then show ?thesis using Cons by auto
  qed
qed simp

text \<open>The 32 sockets of the array lie at different places.\<close>

definition inet_fits :: "inet \<Rightarrow> ('d, 'a) net_kernel_scheme \<Rightarrow> bool" where
  "inet_fits st k \<longleftrightarrow> length (inet_sockets st) \<le> INET_MAX_SOCKETS"

lemma inet_offset: "i < 32 \<Longrightarrow> unat (of_nat i * INET_SOCKET_SIZE :: u64) = i * 424"
  by (simp add: unat_word_ariths INET_SOCKET_SIZE_def unat_of_nat_small)

lemma inet_node_addr_inj: "inj_on (\<lambda>i. inet_node_addr i st) {..<32}"
proof (rule inj_onI)
  fix i j assume "i \<in> {..<32}" "j \<in> {..<32}" and e: "inet_node_addr i st = inet_node_addr j st"
  then have "unat (of_nat i * INET_SOCKET_SIZE :: u64) = i * 424" "unat (of_nat j * INET_SOCKET_SIZE :: u64) = j * 424"
    by (simp_all only: lessThan_iff inet_offset)
  moreover have "(of_nat i * INET_SOCKET_SIZE :: u64) = of_nat j * INET_SOCKET_SIZE"
    using e by (simp only: inet_node_addr_def inet_addr_def add_right_cancel add_left_cancel)
  ultimately have "i * 424 = j * 424" by (simp only:)
  then show "i = j" by simp
qed

lemma inet_of_set_inet:
  assumes "inet_fits st k"
  shows "inet_of (set_inet st k) = st"
proof -
  let ?n = "length (inet_sockets st)"
  have "inj_on (\<lambda>i. inet_node_addr i st) (set [0..<?n])"
    by (rule inj_on_subset [OF inet_node_addr_inj]) (use assms in \<open>auto simp: inet_fits_def INET_MAX_SOCKETS_def\<close>)
  then have nd: "vnodes (set_inet st k) (inet_node_addr i st) = is_node (isock st i)" if "i < ?n" for i
    unfolding set_inet_def using that by (intro fold_nodes_at) simp_all
  have "map (\<lambda>i. (isock st i)\<lparr>is_node := vnodes (set_inet st k) (inet_node_addr i st)\<rparr>) [0..<?n] = inet_sockets st"
    by (rule nth_equalityI) (simp_all add: nd, simp add: isock_def)
  moreover have "k_inet (set_inet st k) = st" "sched_of (set_inet st k) = nt_sched st"
    by (simp_all add: set_inet_def fold_nodes sched_of_set_sched)
  ultimately show ?thesis by (simp add: inet_of_def Let_def)
qed

interpretation sched_part: kernel_part sched_of set_sched "\<lambda>_ _. True"
  by unfold_locales (simp_all add: sched_of_set_sched)

interpretation socks_part: kernel_part socks set_socks "\<lambda>_ _. True"
  by unfold_locales (simp_all add: socks_def set_socks_def set_sk_heap_def sk_heap_def)

interpretation inet_part: kernel_part inet_of set_inet inet_fits
  by unfold_locales (simp_all add: inet_of_set_inet, simp add: inet_fits_def)

end
