(* ===== verification/DevFiles.thy ===== *)
theory DevFiles
  imports InetFiles Input
begin

text \<open>
  The files of \<^verbatim>\<open>/dev\<close>, the rest of \<^verbatim>\<open>kernel/filesystem/devfs.c\<close>: the handlers behind the nodes that \<open>Devfs\<close> makes, over the state
  of the whole kernel with its input devices. A record that a handler builds in a local variable lies at the address \<open>stk\<close>. The
  framebuffer has an owner, the open file that acquired it: \<open>fp\<close> is the address of the file a handler is called with. Of the terminal only what the
  handlers tell it is recorded: whether it may draw, and the colours it was cleared with.
\<close>

record 'd dev_kernel = "'d net_kernel" +
  k_input :: input
  devfs_fb_owner :: ptr
  term_fb_enabled :: bool
  term_cleared :: "u32 list"
  cpu_count :: u32

definition DEVFS_IOCTL_FB_GET_INFO :: u64 where "DEVFS_IOCTL_FB_GET_INFO = 0x1000"
definition DEVFS_IOCTL_FB_ACQUIRE :: u64 where "DEVFS_IOCTL_FB_ACQUIRE = 0x1001"
definition DEVFS_CPUINFO_MAX_CPUS :: nat where "DEVFS_CPUINFO_MAX_CPUS = 64"
definition DEVFS_TASK_NAME_MAX :: nat where "DEVFS_TASK_NAME_MAX = 64"
definition TASK_INFO_SIZE :: u64 where "TASK_INFO_SIZE = 96"

definition input_of :: "('d, 'a) dev_kernel_scheme \<Rightarrow> input" where
  "input_of k = (k_input k)\<lparr>in_sched := sched_of k\<rparr>"

definition set_input :: "input \<Rightarrow> ('d, 'a) dev_kernel_scheme \<Rightarrow> ('d, 'a) dev_kernel_scheme" where
  "set_input s k = set_sched (in_sched s) (k\<lparr>k_input := s\<rparr>)"

subsection \<open>The framebuffer\<close>

definition term_set_fb_enabled :: "bool \<Rightarrow> ('d, 'a) dev_kernel_scheme \<Rightarrow> ('d, 'a) dev_kernel_scheme" where
  "term_set_fb_enabled b k = k\<lparr>term_fb_enabled := b\<rparr>"

definition term_clear :: "u32 \<Rightarrow> ('d, 'a) dev_kernel_scheme \<Rightarrow> ('d, 'a) dev_kernel_scheme" where
  "term_clear color k = k\<lparr>term_cleared := term_cleared k @ [color]\<rparr>"

definition devfs_fb_ioctl ::
  "ptr \<Rightarrow> vfile \<Rightarrow> u64 \<Rightarrow> ptr \<Rightarrow> ('d, 'a) dev_kernel_scheme \<Rightarrow> (int \<times> ('d, 'a) dev_kernel_scheme) ret" where
  "devfs_fb_ioctl fp file request arg k =
     (if f_node file = NULL then Some (- 1, k)
      else let info = v_private_data (vnodes k (f_node file))
           in if info = NULL then Some (- 1, k)
              else if request = DEVFS_IOCTL_FB_GET_INFO
              then if arg = NULL then Some (- 1, k) else Some (0, set_vfs_memory (memcpy arg info FB_INFO_SIZE (vfs_memory k)) k)
              else if request = DEVFS_IOCTL_FB_ACQUIRE
              then if devfs_fb_owner k \<noteq> NULL \<and> devfs_fb_owner k \<noteq> fp then Some (- 1, k)
                   else Some (0, term_set_fb_enabled False (k\<lparr>devfs_fb_owner := fp\<rparr>))
              else Some (- 1, k))"

definition devfs_fb_close :: "ptr \<Rightarrow> vfile \<Rightarrow> ('d, 'a) dev_kernel_scheme \<Rightarrow> (int \<times> ('d, 'a) dev_kernel_scheme) ret" where
  "devfs_fb_close fp file k =
     (if devfs_fb_owner k = fp then Some (0, term_clear 0 (term_set_fb_enabled True (k\<lparr>devfs_fb_owner := NULL\<rparr>))) else Some (0, k))"

text \<open>The handlers that refuse a call, for reading and writing and for \<^verbatim>\<open>ioctl\<close>.\<close>

definition devfs_no_io :: "vfile \<Rightarrow> ptr \<Rightarrow> u64 \<Rightarrow> ('d, 'a) dev_kernel_scheme \<Rightarrow> (u64 sys \<times> vfile \<times> ('d, 'a) dev_kernel_scheme) ret" where
  "devfs_no_io file buf cnt k = Some (Ret (- 1), file, k)"

definition devfs_no_ioctl :: "vfile \<Rightarrow> u64 \<Rightarrow> ptr \<Rightarrow> ('d, 'a) dev_kernel_scheme \<Rightarrow> (int \<times> ('d, 'a) dev_kernel_scheme) ret" where
  "devfs_no_ioctl file request arg k = Some (- 1, k)"

subsection \<open>Keyboard and mouse\<close>

definition devfs_kbd_read :: "vfile \<Rightarrow> ptr \<Rightarrow> u64 \<Rightarrow> ('d, 'a) dev_kernel_scheme \<Rightarrow> (u64 sys \<times> vfile \<times> ('d, 'a) dev_kernel_scheme) ret" where
  "devfs_kbd_read file buf cnt k =
     do { (n, s) \<leftarrow> keyboard_read_raw buf cnt (input_of k); Some (Ret (sint n), file, set_input s k) }"

definition devfs_kbd_poll :: "vfile \<Rightarrow> ('d, 'a) dev_kernel_scheme \<Rightarrow> int" where
  "devfs_kbd_poll file k = (if keyboard_has_data (input_of k) then POLLIN else 0)"

definition devfs_mouse_read :: "vfile \<Rightarrow> ptr \<Rightarrow> u64 \<Rightarrow> ('d, 'a) dev_kernel_scheme \<Rightarrow> (u64 sys \<times> vfile \<times> ('d, 'a) dev_kernel_scheme) ret" where
  "devfs_mouse_read file buf cnt k =
     do { (n, s) \<leftarrow> mouse_read_raw buf cnt (input_of k); Some (Ret (sint n), file, set_input s k) }"

definition devfs_mouse_poll :: "vfile \<Rightarrow> ('d, 'a) dev_kernel_scheme \<Rightarrow> int" where
  "devfs_mouse_poll file k = (if mouse_has_data (input_of k) then POLLIN else 0)"

subsection \<open>Records\<close>

text \<open>The record \<open>bs\<close> is put into the local variable, then read from the file's position on.\<close>

definition read_record ::
  "ptr \<Rightarrow> u8 list \<Rightarrow> vfile \<Rightarrow> ptr \<Rightarrow> u64 \<Rightarrow> ('d, 'a) dev_kernel_scheme \<Rightarrow> (u64 sys \<times> vfile \<times> ('d, 'a) dev_kernel_scheme) ret" where
  "read_record stk bs file buf cnt k =
     (let (n, file', k1) = devfs_record_read file stk (of_nat (length bs)) buf cnt (set_vfs_memory (store_bytes stk bs (vfs_memory k)) k)
      in Some (Ret n, file', k1))"

definition cpu_info_bytes :: "('d, 'a) dev_kernel_scheme \<Rightarrow> u8 list" where
  "cpu_info_bytes k =
     (let n = unat (cpu_count k); cs = cpus (sched_of k);
          tot = map (\<lambda>i. c_ticks (cs i)) [0..<n]; busy = map (\<lambda>i. c_busy_ticks (cs i)) [0..<n];
          row = (\<lambda>xs. concat (map (le_bytes 8) (xs @ replicate (DEVFS_CPUINFO_MAX_CPUS - n) 0)))
      in le_bytes 8 (ucast (cpu_count k) :: u64) @ le_bytes 8 (sum_list tot) @ le_bytes 8 (sum_list busy) @ row tot @ row busy)"

definition devfs_cpuinfo_read ::
  "ptr \<Rightarrow> vfile \<Rightarrow> ptr \<Rightarrow> u64 \<Rightarrow> ('d, 'a) dev_kernel_scheme \<Rightarrow> (u64 sys \<times> vfile \<times> ('d, 'a) dev_kernel_scheme) ret" where
  "devfs_cpuinfo_read stk file buf cnt k =
     (if unat (cpu_count k) > DEVFS_CPUINFO_MAX_CPUS then None else read_record stk (cpu_info_bytes k) file buf cnt k)"

definition task_state_code :: "task_state \<Rightarrow> u8" where
  "task_state_code ts = (case ts of TASK_READY \<Rightarrow> 0 | TASK_RUNNING \<Rightarrow> 1 | TASK_SLEEPING \<Rightarrow> 2 | TASK_DEAD \<Rightarrow> 3)"

definition task_name_bytes :: "string \<Rightarrow> u8 list" where
  "task_name_bytes name = (let bs = map of_char (take DEVFS_TASK_NAME_MAX name) in bs @ replicate (DEVFS_TASK_NAME_MAX - length bs) 0)"

definition task_info_bytes :: "ptr \<Rightarrow> ('d, 'a) dev_kernel_scheme \<Rightarrow> u8 list" where
  "task_info_bytes t k =
     (let x = tasks (sched_of k) t; pages = t_stack_pages x + user_pages_count t (sc_mem (sched_of k));
          pages1 = (if t_owns_image x then pages + page_count (t_image x) else pages)
      in le_bytes 8 (t_pid x) @ [task_state_code (t_state x), if t_owns_image x then 0 else 1] @ replicate 6 0 @
         le_bytes 8 (t_cpu_ticks x) @ le_bytes 8 (pages1 * (PAGE_SIZE div 1024)) @ task_name_bytes (t_name x))"

text \<open>The visits of \<^verbatim>\<open>task_for_each\<close>: the first \<open>skip\<close> tasks are passed over, then at most \<open>mx\<close> are described.\<close>

fun devfs_tasks_visits :: "ptr list \<Rightarrow> u64 \<Rightarrow> u64 \<Rightarrow> u64 \<Rightarrow> ptr \<Rightarrow> ('d, 'a) dev_kernel_scheme \<Rightarrow> u64 \<times> ('d, 'a) dev_kernel_scheme" where
  "devfs_tasks_visits [] skip mx written out k = (written, k)"
| "devfs_tasks_visits (t # ts) skip mx written out k =
     (if skip \<noteq> 0 then devfs_tasks_visits ts (skip - 1) mx written out k
      else if written = mx then devfs_tasks_visits ts skip mx written out k
      else devfs_tasks_visits ts skip mx (written + 1) out
             (set_vfs_memory (store_bytes (out + written * TASK_INFO_SIZE) (task_info_bytes t k) (vfs_memory k)) k))"

definition devfs_tasks_read ::
  "vfile \<Rightarrow> ptr \<Rightarrow> u64 \<Rightarrow> ('d, 'a) dev_kernel_scheme \<Rightarrow> (u64 sys \<times> vfile \<times> ('d, 'a) dev_kernel_scheme) ret" where
  "devfs_tasks_read file buf cnt k =
     do { ts \<leftarrow> task_for_each (sched_of k);
          let (written, k1) = devfs_tasks_visits ts (f_offset file div TASK_INFO_SIZE) (cnt div TASK_INFO_SIZE) 0 buf k
          in Some (Ret (sint (written * TASK_INFO_SIZE)), file\<lparr>f_offset := f_offset file + written * TASK_INFO_SIZE\<rparr>, k1) }"

definition rtc_bytes :: "rtc_time \<Rightarrow> u8 list" where
  "rtc_bytes t = le_bytes 2 (rtc_year t) @ [rtc_month t, rtc_day t, rtc_hour t, rtc_minute t, rtc_second t, rtc_weekday t]"

definition devfs_rtc_read ::
  "ptr \<Rightarrow> vfile \<Rightarrow> ptr \<Rightarrow> u64 \<Rightarrow> ('d, 'a) dev_kernel_scheme \<Rightarrow> (u64 sys \<times> vfile \<times> ('d, 'a) dev_kernel_scheme) ret" where
  "devfs_rtc_read stk file buf cnt k =
     do { (now, i) \<leftarrow> rtc_read (cmos k) (cmos_reads k); read_record stk (rtc_bytes now) file buf cnt (k\<lparr>cmos_reads := i\<rparr>) }"

definition net_info_bytes :: "inet \<Rightarrow> u8 list" where
  "net_info_bytes st =
     (let (ip, gw, nm, dns) = net_status st
      in (if net_is_up st then 1 else 0) # ipv4_bytes ip @ ipv4_bytes gw @ ipv4_bytes nm @ ipv4_bytes dns)"

definition devfs_net_read ::
  "ptr \<Rightarrow> vfile \<Rightarrow> ptr \<Rightarrow> u64 \<Rightarrow> ('d, 'a) dev_kernel_scheme \<Rightarrow> (u64 sys \<times> vfile \<times> ('d, 'a) dev_kernel_scheme) ret" where
  "devfs_net_read stk file buf cnt k = read_record stk (net_info_bytes (inet_of k)) file buf cnt k"

subsection \<open>The tables\<close>

definition read_only :: "(vfile \<Rightarrow> ptr \<Rightarrow> u64 \<Rightarrow> 's \<Rightarrow> (u64 sys \<times> vfile \<times> 's) ret) \<Rightarrow> 's vfile_ops" where
  "read_only rd = \<lparr>fop_read = Some rd, fop_write = None, fop_ioctl = None, fop_close = None, fop_poll = None\<rparr>"

definition devfs_file_ops :: "ptr \<Rightarrow> ptr \<Rightarrow> nat \<Rightarrow> ('d, 'a) dev_kernel_scheme vfile_ops" where
  "devfs_file_ops stk fp n =
     (if n = 0 then \<lparr>fop_read = Some devfs_no_io, fop_write = Some devfs_no_io, fop_ioctl = Some (devfs_fb_ioctl fp),
                     fop_close = Some (devfs_fb_close fp), fop_poll = None\<rparr>
      else if n = 1 then \<lparr>fop_read = Some devfs_kbd_read, fop_write = Some devfs_no_io, fop_ioctl = Some devfs_no_ioctl,
                          fop_close = None, fop_poll = Some devfs_kbd_poll\<rparr>
      else if n = 2 then \<lparr>fop_read = Some devfs_mouse_read, fop_write = Some devfs_no_io, fop_ioctl = Some devfs_no_ioctl,
                          fop_close = None, fop_poll = Some devfs_mouse_poll\<rparr>
      else if n = 3 then read_only (devfs_meminfo_read stk)
      else if n = 4 then read_only (devfs_cpuinfo_read stk)
      else if n = 5 then read_only devfs_tasks_read
      else if n = 6 then read_only (devfs_rtc_read stk)
      else read_only (devfs_net_read stk))"

text \<open>Every table of the kernel: disks, local and internet sockets, and the files of \<^verbatim>\<open>/dev\<close>.\<close>

definition all_files :: "(fs_kind \<Rightarrow> ('d, 'a) dev_kernel_scheme vnode_ops) \<Rightarrow> nat \<Rightarrow> ptr \<Rightarrow> ptr \<Rightarrow> ptr \<Rightarrow> dev_kind \<Rightarrow> ('d, 'a) dev_kernel_scheme vfile_ops" where
  "all_files T c format_stk stk fp = net_files c (block_file_ops T format_stk stk) (devfs_file_ops stk fp)"

end
