(* ===== verification/KernelSpec.thy ===== *)
theory KernelSpec
  imports TcpStream DevFiles
begin

text \<open>
  The calls of programs over the whole kernel: waiting for files with \<^verbatim>\<open>fs_sys_poll\<close>, reading from a TCP connection
  through its descriptor, and giving back the descriptors of a task that ends. What the calls need of the tables of the devices is stated as
  locales, which the tables \<open>all_files\<close> of the kernel interpret.
\<close>

subsection \<open>Waiting for files\<close>

lemma memory_frame [simp]:
  "vnodes (set_vfs_memory m k) = vnodes k" "vfs_memory (set_vfs_memory m k) = m" "set_vfs_memory m' (set_vfs_memory m k) = set_vfs_memory m' k"
  "set_vfs_memory (vfs_memory k) k = k"
  by (simp_all add: set_vfs_memory_def vfs_memory_def)

lemma kernel_memory_frame [simp]:
  "fd_table (set_vfs_memory m k) = fd_table k" "sk (socks (set_vfs_memory m k)) = sk (socks k)"
  "tasks (sched_of (set_vfs_memory m k)) = tasks (sched_of k)" "cpus (sched_of (set_vfs_memory m k)) = cpus (sched_of k)"
  by (simp_all add: set_vfs_memory_def socks_def sched_of_def set_sk_heap_def)

lemma net_memory_frame [simp]: "k_inet (set_vfs_memory m k) = k_inet k" "isock (inet_of (set_vfs_memory m k)) i = isock (inet_of k) i"
  by (simp_all add: set_vfs_memory_def inet_of_def Let_def isock_def)

lemma dev_memory_frame [simp]: "k_input (set_vfs_memory m k) = k_input k"
  by (simp add: set_vfs_memory_def)

text \<open>Tables whose \<^verbatim>\<open>poll\<close> functions look at no memory of programs: what they report does not change when the results are stored.\<close>

locale pollable =
  fixes FT :: "dev_kind \<Rightarrow> ('d, 'a) kernel_scheme vfile_ops"
  assumes poll_memory: "vfs_poll FT file (set_vfs_memory m k) = vfs_poll FT file k"
begin

lemma poll_events_memory: "poll_events FT c fd ev (set_vfs_memory m k) = poll_events FT c fd ev k"
  by (simp add: poll_events_def fd_resolve_def fd_valid_def slot_def current_def k_task_def task_current_def poll_memory Let_def)

end

text \<open>The entry \<open>j\<close> of the array and what a scan stores in it.\<close>

definition poll_entry :: "ptr \<Rightarrow> nat \<Rightarrow> ptr" where
  "poll_entry fds j = fds + of_nat j * 8"

definition poll_result :: "(dev_kind \<Rightarrow> ('d, 'a) kernel_scheme vfile_ops) \<Rightarrow> nat \<Rightarrow> ptr \<Rightarrow> nat \<Rightarrow> ('d, 'a) kernel_scheme \<Rightarrow> u16" where
  "poll_result FT c fds j k = of_int (poll_events FT c (sint (load_u32 (vfs_memory k) (poll_entry fds j)))
     (sint (load_u16 (vfs_memory k) (poll_entry fds j + 4))) k)"

text \<open>The bytes of the fields \<^verbatim>\<open>revents\<close> of the entries from \<open>i\<close> up to \<open>n\<close>.\<close>

definition revents_bytes :: "ptr \<Rightarrow> nat \<Rightarrow> nat \<Rightarrow> ptr set" where
  "revents_bytes fds i n = {poll_entry fds j + b | j b. i \<le> j \<and> j < n \<and> (b = 6 \<or> b = 7)}"

lemma poll_offset: "poll_entry fds j + of_nat b = fds + of_nat (8 * j + b)"
  by (simp add: poll_entry_def mult.commute add.assoc)

lemma poll_byte_inj:
  assumes "8 * j + b < 2 ^ 63" and "8 * j' + b' < 2 ^ 63" and "b < 8" and "b' < 8" and "poll_entry fds j + of_nat b = poll_entry fds j' + of_nat b'"
  shows "j = j' \<and> b = b'"
proof -
  have "unat (fds + of_nat (8 * j + b) - (fds + of_nat (8 * j' + b'))) = 0" using assms(5) unfolding poll_offset by simp
  then have "8 * j + b = 8 * j' + b'" using offset_distance [OF assms(2,1), of fds] assms(1,2) by (auto split: if_splits)
  then show ?thesis using assms(3,4) by presburger
qed

lemma load_u32_bytes:
  "load_u32 m p = ucast (m p) OR push_bit 8 (ucast (m (p + 1))) OR push_bit 16 (ucast (m (p + 2))) OR push_bit 24 (ucast (m (p + 3)))"
proof -
  have four: "4 = Suc (Suc (Suc (Suc 0)))" by simp
  have at: "p + 1 + 1 = p + 2" "p + 2 + 1 = p + 3" by (simp_all add: add.assoc)
  show ?thesis
    unfolding load_u32_def four load_le.simps at by (simp add: push_bit_or)
qed

lemma load_cong_u32: "(\<And>b. b < 4 \<Longrightarrow> m (p + of_nat b) = m' (p + of_nat b)) \<Longrightarrow> load_u32 m p = load_u32 m' p"
  unfolding load_u32_def by (rule load_le_cong) simp

lemma load_cong_u16: "(\<And>b. b < 2 \<Longrightarrow> m (p + of_nat b) = m' (p + of_nat b)) \<Longrightarrow> load_u16 m p = load_u16 m' p"
  unfolding load_u16_def by (rule load_le_cong) simp

context pollable
begin

lemma poll_result_cong:
  assumes "\<And>b. b < 6 \<Longrightarrow> m (poll_entry fds j + of_nat b) = vfs_memory k (poll_entry fds j + of_nat b)"
  shows "poll_result FT c fds j (set_vfs_memory m k) = poll_result FT c fds j k"
proof -
  have "load_u32 m (poll_entry fds j) = load_u32 (vfs_memory k) (poll_entry fds j)" by (rule load_cong_u32) (use assms in simp)
  moreover have "load_u16 m (poll_entry fds j + 4) = load_u16 (vfs_memory k) (poll_entry fds j + 4)"
  proof (rule load_cong_u16)
    fix b :: nat assume "b < 2"
    then show "m (poll_entry fds j + 4 + of_nat b) = vfs_memory k (poll_entry fds j + 4 + of_nat b)"
      using assms [of "4 + b"] by (simp add: add.assoc)
  qed
  ultimately show ?thesis by (simp add: poll_result_def poll_events_memory)
qed

lemma poll_scan_spec:
  assumes "i + n < 2 ^ 59"
  shows "\<exists>m. poll_scan FT c fds i n r k = (r + int (length (filter (\<lambda>j. poll_result FT c fds j k \<noteq> 0) [i..<i + n])), set_vfs_memory m k) \<and>
    (\<forall>j. i \<le> j \<longrightarrow> j < i + n \<longrightarrow> load_u16 m (poll_entry fds j + 6) = poll_result FT c fds j k) \<and>
    (\<forall>a. a \<notin> revents_bytes fds i (i + n) \<longrightarrow> m a = vfs_memory k a)"
  using assms
proof (induction n arbitrary: i r k)
  case 0
  show ?case by (intro exI [of _ "vfs_memory k"]) simp
next
  case (Suc n)
  let ?e = "poll_entry fds i" and ?v = "poll_result FT c fds i k"
  define m1 where "m1 = store_u16 (?e + 6) ?v (vfs_memory k)"
  define k1 where "k1 = set_vfs_memory m1 k"
  define r1 where "r1 = (if ?v \<noteq> 0 then r + 1 else r)"
  have step: "poll_scan FT c fds i (Suc n) r k = poll_scan FT c fds (Suc i) n r1 k1"
    by (simp add: Let_def poll_result_def poll_entry_def k1_def m1_def r1_def)
  have seven: "?e + 6 + 1 = ?e + 7" by (simp add: add.assoc)
  have m1: "m1 a = vfs_memory k a" if "a \<noteq> ?e + 6" "a \<noteq> ?e + 7" for a using that by (simp add: m1_def store_u16_bytes seven)
  have apart: "poll_entry fds j + of_nat b \<noteq> ?e + 6 \<and> poll_entry fds j + of_nat b \<noteq> ?e + 7" if "j < 2 ^ 59" "b < 8" "j \<noteq> i" for j b
    using poll_byte_inj [of j b i 6 fds] poll_byte_inj [of j b i 7 fds] that Suc.prems by auto
  have same: "poll_result FT c fds j k1 = poll_result FT c fds j k" if "Suc i \<le> j" "j < i + Suc n" for j
    unfolding k1_def by (rule poll_result_cong, rule m1) (use apart [of j] that Suc.prems in auto)
  have "filter (\<lambda>j. poll_result FT c fds j k1 \<noteq> 0) [Suc i..<Suc i + n] = filter (\<lambda>j. poll_result FT c fds j k \<noteq> 0) [Suc i..<Suc i + n]"
    by (rule filter_cong) (use same in auto)
  then have cnt: "r1 + int (length (filter (\<lambda>j. poll_result FT c fds j k1 \<noteq> 0) [Suc i..<Suc i + n])) =
      r + int (length (filter (\<lambda>j. poll_result FT c fds j k \<noteq> 0) [i..<i + Suc n]))"
    by (simp add: r1_def upt_conv_Cons del: upt_Suc)
  obtain m where m: "poll_scan FT c fds (Suc i) n r1 k1 = (r1 + int (length (filter (\<lambda>j. poll_result FT c fds j k1 \<noteq> 0) [Suc i..<Suc i + n])), set_vfs_memory m k1)"
    "\<And>j. Suc i \<le> j \<Longrightarrow> j < Suc i + n \<Longrightarrow> load_u16 m (poll_entry fds j + 6) = poll_result FT c fds j k1"
    "\<And>a. a \<notin> revents_bytes fds (Suc i) (Suc i + n) \<Longrightarrow> m a = vfs_memory k1 a"
    using Suc.IH [of "Suc i" r1 k1] Suc.prems by auto
  have here: "?e + of_nat b \<notin> revents_bytes fds (Suc i) (Suc i + n)" if "b < 8" for b
  proof
    assume "?e + of_nat b \<in> revents_bytes fds (Suc i) (Suc i + n)"
    then obtain j b' where j: "Suc i \<le> j" "j < Suc i + n" "b' < 8" "?e + of_nat b = poll_entry fds j + of_nat (b' :: nat)"
      unfolding revents_bytes_def by (auto intro: that [of _ 6] that [of _ 7])
    then show False using poll_byte_inj [of i b j b' fds] \<open>b < 8\<close> Suc.prems by auto
  qed
  have "load_u16 m (?e + 6) = load_u16 m1 (?e + 6)"
  proof (rule load_cong_u16)
    fix b :: nat assume "b < 2"
    then have "m (?e + of_nat (6 + b)) = vfs_memory k1 (?e + of_nat (6 + b))" by (intro m(3) here) simp
    then show "m (?e + 6 + of_nat b) = m1 (?e + 6 + of_nat b)" by (simp add: k1_def add.assoc)
  qed
  then have first: "load_u16 m (?e + 6) = ?v" by (simp add: m1_def)
  have "load_u16 m (poll_entry fds j + 6) = poll_result FT c fds j k" if "i \<le> j" "j < i + Suc n" for j
    using first m(2) [of j] same [of j] that by (cases "j = i") auto
  moreover have "m a = vfs_memory k a" if "a \<notin> revents_bytes fds i (i + Suc n)" for a
  proof -
    have "?e + 6 \<in> revents_bytes fds i (i + Suc n)" "?e + 7 \<in> revents_bytes fds i (i + Suc n)"
      unfolding revents_bytes_def by (intro CollectI exI [of _ i] exI [of _ 6], simp) (intro CollectI exI [of _ i] exI [of _ 7], simp)
    moreover have "revents_bytes fds (Suc i) (Suc i + n) \<subseteq> revents_bytes fds i (i + Suc n)" unfolding revents_bytes_def by force
    ultimately have "a \<noteq> ?e + 6" "a \<noteq> ?e + 7" "a \<notin> revents_bytes fds (Suc i) (Suc i + n)" using that by blast+
    then show ?thesis using m(3) m1 by (simp add: k1_def)
  qed
  ultimately show ?case using m(1) cnt unfolding step by (intro exI [of _ m]) (simp add: k1_def)
qed

end

interpretation kernel_poll: pollable "all_files T c format_stk stk fp" for T c format_stk stk fp
proof unfold_locales
  fix vf :: vfile and m and k :: "('a, 'b) dev_kernel_scheme"
  have "sock_poll (sock_from_file vf (set_vfs_memory m k)) (socks (set_vfs_memory m k)) = sock_poll (sock_from_file vf k) (socks k)"
    by (simp add: sock_poll_def sock_from_file_def Let_def)
  moreover have "inet_file_poll vf (set_vfs_memory m k) = inet_file_poll vf k"
    by (simp add: inet_file_poll_def inet_from_file_def inet_poll_def split: option.split)
  moreover have "devfs_kbd_poll vf (set_vfs_memory m k) = devfs_kbd_poll vf k" "devfs_mouse_poll vf (set_vfs_memory m k) = devfs_mouse_poll vf k"
    by (simp_all add: devfs_kbd_poll_def devfs_mouse_poll_def input_of_def keyboard_has_data_def mouse_has_data_def)
  ultimately have poll: "x vf (set_vfs_memory m k) = x vf k" if "fop_poll (all_files T c format_stk stk fp kd) = Some x" for kd x
    using that by (cases kd) (auto simp: all_files_def net_files_def kernel_files_def block_file_ops_def socket_file_ops_def inet_file_ops_def
        devfs_file_ops_def read_only_def block_poll_def split: if_splits)
  have "file_op (all_files T c format_stk stk fp) fop_poll vf (set_vfs_memory m k) = file_op (all_files T c format_stk stk fp) fop_poll vf k"
    by (simp add: file_op_def)
  moreover have "x vf (set_vfs_memory m k) = x vf k" if "file_op (all_files T c format_stk stk fp) fop_poll vf k = Some x" for x
    using that poll by (auto simp: file_op_def bind_eq_Some_conv)
  ultimately show "vfs_poll (all_files T c format_stk stk fp) vf (set_vfs_memory m k) = vfs_poll (all_files T c format_stk stk fp) vf k"
    by (simp add: vfs_poll_def split: option.split)
qed


text \<open>A kernel in which descriptor 3 is the open keyboard, with one scancode waiting, and 4 is not open; the memory at \<open>0x7000\<close> asks for both.\<close>

definition kernel_example :: "ram dev_kernel" where
  "kernel_example = set_vfs_memory (\<lambda>a. if a = 0x7000 then 3 else if a = 0x7004 \<or> a = 0x700C then 1 else if a = 0x7008 then 4 else 0)
     (net_kernel.extend (kernel.extend (fat_state.extend (block_state.extend
       (block_example\<lparr>vnodes := (vnodes block_example)(0x5000 := (vnodes block_example NULL)\<lparr>v_file_ops := Some (DEVICE_FILE_OPS 1)\<rparr>)\<rparr>)
       \<lparr>fats = \<lambda>_. fat32_zero, fat_nodes = \<lambda>_. fat_node_zero, cmos = \<lambda>_ _. 0, cmos_reads = 0\<rparr>)
       \<lparr>k_socks = socket_pair, fd_table = replicate 3 (fd_zero\<lparr>fd_used := True\<rparr>) @ fd_zero\<lparr>fd_used := True, fd_file := no_file\<lparr>f_node := 0x5000\<rparr>\<rparr> #
          replicate (FD_MAX - 4) fd_zero, term_out = [], k_args = \<lambda>_. \<lparr>ta_argc = 0, ta_argv = NULL, ta_backing = NULL\<rparr>\<rparr>)
       \<lparr>k_inet = example_client\<rparr>)
       \<lparr>k_input = input_example\<lparr>kbd_head := 255\<rparr>, devfs_fb_owner = NULL, term_fb_enabled = True, term_cleared = [], cpu_count = 1\<rparr>)"

lemma kernel_example_memory:
  "load_u32 (vfs_memory kernel_example) 0x7000 = 3" "load_u16 (vfs_memory kernel_example) 0x7004 = 1"
  "load_u32 (vfs_memory kernel_example) 0x7008 = 4" "load_u16 (vfs_memory kernel_example) 0x700C = 1" "vfs_memory kernel_example 0x7008 = 4"
  by (simp_all add: kernel_example_def load_u32_bytes load_u16_bytes)

lemma kernel_example_simps:
  "slot 3 kernel_example = fd_zero\<lparr>fd_used := True, fd_file := no_file\<lparr>f_node := 0x5000\<rparr>\<rparr>" "slot 4 kernel_example = fd_zero"
  "v_file_ops (vnodes kernel_example 0x5000) = Some (DEVICE_FILE_OPS 1)" "kbd_head (k_input kernel_example) = 255" "kbd_tail (k_input kernel_example) = 254"
  by (simp_all add: kernel_example_def slot_def)
    (simp_all add: net_kernel.defs kernel.defs fat_state.defs block_state.defs set_vfs_memory_def input_example_def FD_MAX_def nth_append)

lemma kernel_example_poll:
  "poll_result (all_files T c format_stk stk fp) 0 0x7000 0 kernel_example = 1"
  "poll_result (all_files T c format_stk stk fp) 0 0x7000 1 kernel_example = 32"
proof -
  have kbd: "vfs_poll (all_files T c format_stk stk fp) (no_file\<lparr>f_node := 0x5000\<rparr>) kernel_example = 1"
    by (simp add: vfs_poll_def file_op_def kernel_example_simps all_files_def net_files_def kernel_files_def BLOCK_FILE_OPS_def INET_FILE_OPS_def
        devfs_file_ops_def devfs_kbd_poll_def keyboard_has_data_def input_of_def POLLIN_def)
  show "poll_result (all_files T c format_stk stk fp) 0 0x7000 0 kernel_example = 1"
    by (simp add: poll_result_def poll_entry_def kernel_example_memory poll_events_def fd_resolve_def fd_valid_def FD_MAX_def kernel_example_simps fd_zero_def kbd
        POLLERR_def POLLHUP_def POLLNVAL_def)
  show "poll_result (all_files T c format_stk stk fp) 0 0x7000 1 kernel_example = 32"
    by (simp add: poll_result_def poll_entry_def kernel_example_memory poll_events_def fd_resolve_def fd_valid_def FD_MAX_def kernel_example_simps fd_zero_def POLLNVAL_def)
qed


end
