(* ===== verification/Spec2Isabelle.thy ===== *)
theory Spec2Isabelle
  imports KString Pmm Heap UserPages Vmm ByteOrder Elf Task Vfs Ramfs Socket Devfs Block Rtc Fat32 FatTable FatFile FatExtend FatWrite FatSpec Input KPrintf Net Inet NetInput NetSpec TcpSpec TcpStream
    Kernel Process InetFiles DevFiles KernelSpec
begin

text \<open>
  A verification library for the kernel of StrawOS.

  \<^bold>\<open>The program.\<close> StrawOS is a small operating system for one address space on x86-64. Its kernel (\<^verbatim>\<open>kernel/\<close>)
  manages physical pages and a heap, builds page tables, loads ELF programs, schedules tasks on several CPUs
  under one big lock, and serves calls on files, devices, disks, local sockets and the network. The programs
  (\<^verbatim>\<open>modules/\<close>) run on top of it. The library models the kernel's own logic, in the C semantics its code relies on:
  machine integers are words that wrap around, memory is a function from 64-bit addresses to bytes, and a
  C function is a HOL function on an explicit state whose result has type \<open>'a ret\<close>: \<open>Some\<close> for a normal
  return, \<open>None\<close> for a panic, an access outside an object or a loop that does not end. A statement
  \<open>f s = Some t\<close> is therefore one of total correctness.

  \<^bold>\<open>The theories\<close>, in the order in which they build on each other.

  \<^item> \<open>Prelude\<close>: machine types, page size, arithmetic of words.
  \<^item> \<open>KString\<close> (\<^verbatim>\<open>libk/string.c\<close>): all functions on strings and memory, as loops over the byte memory. Shown:
    \<open>memmove\<close> copies as if through a buffer, \<open>strcmp\<close> is the lexicographic order of unsigned bytes, \<open>strtok_r\<close>
    cuts off the first token. The lemmas on \<open>memcpy\<close>, \<open>memset\<close> and \<open>apart\<close> carry the later theories.
  \<^item> \<open>Pmm\<close> (\<^verbatim>\<open>memory/pmm.c\<close>): the bitmap of pages as a list of bytes, with the loops of \<^verbatim>\<open>pmm_init\<close> over the boot
    loader's memory map. Shown: first fit, exact marking and freeing, the state after boot, and the
    equivalence of the one-page allocator with the general one. The locale \<open>page_allocator\<close> states what the
    heap and the tasks use of it.
  \<^item> \<open>Heap\<close> (\<^verbatim>\<open>memory/heap.c\<close>): blocks of whole pages with a header. \<open>heap_inv F B\<close> says that the page runs \<open>F\<close>
    and the blocks \<open>B\<close> are disjoint, allocated and inside the managed memory; every operation keeps it.
  \<^item> \<open>UserPages\<close> (\<^verbatim>\<open>system/user_pages.c\<close>): the table of page runs of programs; what a task owns is freed
    when it ends, and nothing else.
  \<^item> \<open>Vmm\<close> (\<^verbatim>\<open>memory/vmm.c\<close>): page tables as a store of 512-entry tables; mapping a page changes exactly one
    translation of the hardware's walk.
  \<^item> \<open>ByteOrder\<close>: little-endian loads and stores. \<open>Elf\<close> (\<^verbatim>\<open>elf.c\<close>): header checks, segments, relocations.
    Shown: the loaded image is the one the program headers describe, and a failure gives back every page.
  \<^item> \<open>Task\<close> (\<^verbatim>\<open>system/task.c\<close>): task structures in a store, the run queue as a pointer ring, the scheduler,
    sleeping, blocking and waking. Shown by rule induction over \<open>sched_step\<close>: no task is current on two CPUs;
    every operation returns; the choice of the next task is round robin; sleepers wake on time across wrap-around.
  \<^item> \<open>Vfs\<close> (\<^verbatim>\<open>filesystem/vfs.c\<close>): mounts, path resolution, and the calls through the tables of function pointers,
    which are arguments. The locale \<open>directory_tree\<close> is what path resolution needs of a file system.
    \<open>Ramfs\<close> (\<^verbatim>\<open>filesystem/ramfs.c\<close>): directories, file contents, boot modules and archives; it interprets
    \<open>directory_tree\<close>. Shown: contents after writes and reads, the tree after create, unlink and rename, and
    that resolution is the walk over the abstract tree.
  \<^item> \<open>Socket\<close> (\<^verbatim>\<open>system/socket.c\<close>): sockets, ring buffers and connections; the ring interprets the locale
    \<open>byte_queue\<close>. Shown: writes append to the peer's queue, reads take its front, streams arrive unchanged.
  \<^item> \<open>Devfs\<close> (\<^verbatim>\<open>filesystem/devfs.c\<close>): the directory of devices. \<open>Block\<close> (\<^verbatim>\<open>drivers/disk/block.c\<close>): disks and partitions.
    Shown: transfers reach exactly the sectors of the partition, what was written is read back, an MBR scan
    leaves every partition inside its disk, and the checksum detects every burst of four bytes.
  \<^item> \<open>Rtc\<close> (\<^verbatim>\<open>devices/rtc.c\<close>): the CMOS clock. \<open>Fat32\<close> (\<^verbatim>\<open>filesystem/fat32.c\<close>): every function of the FAT file system.
    Four theories prove its core correct, on a volume described by the record \<open>volume\<close>: in \<open>FatTable\<close> the one-sector cache and
    the copies of the table on the disk implement a function \<open>fat_tab\<close> from clusters to entries, and
    allocation and release act on it (\<open>fat_inv\<close> is the invariant, \<open>fat_step\<close> the frame); in \<open>FatFile\<close> the bytes of a
    file are those of its clusters in the order of the chain, and \<^verbatim>\<open>fat_io\<close> reads and writes them; \<open>FatExtend\<close> is \<^verbatim>\<open>fat_extend\<close>,
    \<open>FatWrite\<close> the whole of \<^verbatim>\<open>fat_write\<close> with the directory entry. \<open>FatSpec\<close> states the properties, with an example volume.
  \<^item> \<open>Kernel\<close> (\<^verbatim>\<open>system/fs_kcalls.c\<close>, rest of \<^verbatim>\<open>socket.c\<close>): the descriptor table and the calls of programs over the
    state of the whole kernel. \<open>Process\<close> (rest of \<^verbatim>\<open>task.c\<close>): starting a program from a file, exit and kill.
  \<^item> \<open>Input\<close> (\<^verbatim>\<open>devices/keyboard.c\<close>, \<^verbatim>\<open>mouse.c\<close>, \<^verbatim>\<open>ps2mouse.c\<close>): the rings of scancodes and mouse events, the PS/2 packets and the
    set-up of the controller. Shown, once in a locale for both rings: what goes in comes out in order; and what one packet of a mouse means.
    \<open>KPrintf\<close> (\<^verbatim>\<open>libk/kprintf.c\<close>): formatted output as the list of bytes it makes. Shown: numbers are printed as what they are.
  \<^item> \<open>Net\<close> and \<open>NetInput\<close> (\<^verbatim>\<open>net/net.c\<close>, \<^verbatim>\<open>drivers/net/nic.c\<close>): Ethernet, ARP, IPv4, ICMP, UDP, loopback, ping and DHCP, the sending and the
    receiving half. \<open>Inet\<close> (\<^verbatim>\<open>net/inet.c\<close>): TCP and UDP sockets, all functions, on sockets by their index. \<open>NetSpec\<close> shows what goes from one
    machine to another: checksums, ARP, datagrams. \<open>TcpSpec\<close> describes what \<^verbatim>\<open>tcp_output\<close> sends, \<open>TcpStream\<close> what a connection does with it: a
    connection is two byte streams, what waits for the program and what waits to be sent (\<open>rx_stream\<close>, \<open>tx_stream\<close>; \<open>tcp_open\<close> is the
    invariant); segments and reads act on these as on queues, and what one end sends arrives at the other.
  \<^item> \<open>InetFiles\<close> puts the internet sockets behind descriptors, \<open>DevFiles\<close> has the handlers of the files of \<^verbatim>\<open>/dev\<close> and the tables of all
    files. The locale \<open>kernel_part\<close> says what it means to read and write a part of the kernel's state. \<open>KernelSpec\<close> shows, for every file of the
    kernel, what \<^verbatim>\<open>poll\<close> reports; the locale \<open>pollable\<close> is what it needs of a table of devices.

  \<^bold>\<open>State.\<close> A structure the code reaches by pointer is a record in a store indexed by its address (\<open>tasks\<close>,
  \<open>vnodes\<close>, \<open>rfiles\<close>, \<open>sk\<close>); buffers are ranges of the byte memory. The state of the file systems is an
  extensible record, extended by \<open>Ramfs\<close>, \<open>Devfs\<close>, \<open>Block\<close>, \<open>Fat32\<close>, \<open>Kernel\<close>, \<open>InetFiles\<close> and finally \<open>DevFiles\<close>. Interrupts are off and the big lock is
  held inside every modelled operation, so that each is one atomic step; an operation that waits ends its
  step in \<open>task_block\<close> and reports \<open>Blocked\<close> with what its loop carries over, and the step that
  follows the wake-up is the same operation again.

  \<^bold>\<open>Bounds and fuel.\<close> Loops over linked structures are \<open>partial_function (option)\<close>; that they end is proved from
  the structure's invariant. A chain of clusters may be a cycle on a damaged disk: then the loops of \<open>Fat32\<close> are \<open>None\<close>, and
  the theorems on them assume a chain that ends. \<open>sock_destroy\<close> has a depth argument, called with 2: a listening socket destroys the
  connections of its backlog, and those have no backlog. All other recursions are structural or have
  a \<open>termination\<close> proof.

  \<^bold>\<open>Parameters.\<close> Functions of hardware drivers (\<^verbatim>\<open>io\<close> and \<^verbatim>\<open>flush\<close> of a disk) are values in the state,
  as in the code; what is assumed of them is the definition \<open>disk_driver\<close>, which a disk in memory satisfies. Of the driver of the network
  card there is the list of the frames it was given and whether it is there. The registers of the clock, the ports of the keyboard controller
  and the time stamp counter are functions of the number of the read.

  \<^bold>\<open>Not modelled.\<close> Assembly (context switch, interrupt entry), interrupt controllers, SMP start-up and the big
  lock; the drawing of the terminal; device drivers (disk controllers, network cards, audio, USB, PCI), whose code
  is a dialogue with registers of hardware; the table of kernel calls, which only dispatches; and the programs under \<^verbatim>\<open>modules/\<close> with their ports of third-party code. The manifest lists each part.
\<close>

end
